(* ===== verification/OG_Prelude.thy ===== *)
theory OG_Prelude
  imports Main "HOL-Library.Word"
begin

text \<open>
  Shared vocabulary of the development: the machine integer types of \<^verbatim>\<open>c.h\<close>, the values an
  \<^verbatim>\<open>ereport\<close> can raise, the result type of fallible routines, the index loop
  \<^verbatim>\<open>for (i = lo; i < hi; i++) a[i] = f(i, a[i])\<close>, and the list and word lemmas that the component
  theories use.
\<close>

unbundle bit_operations_syntax

section \<open>Machine integers\<close>

type_synonym uint8 = "8 word"
type_synonym uint16 = "16 word"
type_synonym uint32 = "32 word"
type_synonym uint64 = "64 word"

section \<open>Errors\<close>

text \<open>
  An \<^verbatim>\<open>ereport\<close> at level ERROR, FATAL or PANIC does not return to its caller: the model returns it as
  the left value of a sum. Messages below ERROR (WARNING, NOTICE, LOG, DEBUG) do return and have no
  counterpart.
\<close>

datatype elevel = ERROR | FATAL | PANIC

datatype errcode =
    ERRCODE_DATA_EXCEPTION
  | ERRCODE_UNEXPECTED_NULL_VALUE
  | ERRCODE_INVALID_PARAMETER_VALUE
  | ERRCODE_INVALID_TRANSACTION_STATE
  | ERRCODE_ACTIVE_SQL_TRANSACTION
  | ERRCODE_S_E_INVALID_SPECIFICATION
  | ERRCODE_DATA_CORRUPTED
  | ERRCODE_DATATYPE_MISMATCH
  | ERRCODE_NO_ACTIVE_SQL_TRANSACTION
  | ERRCODE_INVALID_TRANSACTION_TERMINATION
  | ERRCODE_INTERNAL_ERROR
  | ERRCODE_PROGRAM_LIMIT_EXCEEDED
  | ERRCODE_OUT_OF_MEMORY
  | ERRCODE_INVALID_ROW_COUNT_IN_RESULT_OFFSET_CLAUSE
  | ERRCODE_LOCK_NOT_AVAILABLE
  | ERRCODE_INVALID_TEXT_REPRESENTATION
  | ERRCODE_UNRECOGNIZED_NODE_TYPE
  | ERRCODE_WRONG_OBJECT_TYPE
  | ERRCODE_TOO_MANY_CONNECTIONS
  | ERRCODE_STATEMENT_TOO_COMPLEX
  | ERRCODE_INVALID_ESCAPE_SEQUENCE
  | ERRCODE_INDETERMINATE_COLLATION

text \<open>\<open>Overrun\<close> stands for a write beyond the end of an array, after which nothing can be said about the process.\<close>

datatype og_error = Ereport elevel errcode | Overrun

type_synonym 'a result = "og_error + 'a"

definition rbind :: "'a result \<Rightarrow> ('a \<Rightarrow> 'b result) \<Rightarrow> 'b result" where
  "rbind r f = (case r of Inl e \<Rightarrow> Inl e | Inr x \<Rightarrow> f x)"

lemma rbind_simps [simp]:
  "rbind (Inl e) f = Inl e"
  "rbind (Inr x) f = f x"
  by (simp_all add: rbind_def)

lemma rbind_eq_Inr: "rbind r f = Inr y \<longleftrightarrow> (\<exists>x. r = Inr x \<and> f x = Inr y)"
  by (cases r) auto

section \<open>The index loop\<close>

definition for_upd :: "(nat \<Rightarrow> 'a \<Rightarrow> 'a) \<Rightarrow> nat \<Rightarrow> nat \<Rightarrow> 'a list \<Rightarrow> 'a list" where
  "for_upd f lo hi xs = fold (\<lambda>i r. r[i := f i (r ! i)]) [lo..<hi] xs"

lemma for_upd_empty [simp]: "hi \<le> lo \<Longrightarrow> for_upd f lo hi xs = xs"
  by (simp add: for_upd_def)

lemma for_upd_Suc: "lo \<le> hi \<Longrightarrow>
  for_upd f lo (Suc hi) xs = (for_upd f lo hi xs)[hi := f hi (for_upd f lo hi xs ! hi)]"
  by (simp add: for_upd_def)

lemma length_for_upd [simp]: "length (for_upd f lo hi xs) = length xs"
proof (induction hi)
  case (Suc hi)
  then show ?case by (cases "lo \<le> hi") (simp_all add: for_upd_Suc not_less_eq_eq)
qed simp

lemma nth_for_upd:
  "j < length xs \<Longrightarrow> for_upd f lo hi xs ! j = (if lo \<le> j \<and> j < hi then f j (xs ! j) else xs ! j)"
proof (induction hi)
  case (Suc hi)
  then show ?case
    by (cases "lo \<le> hi") (auto simp: for_upd_Suc nth_list_update not_less_eq_eq less_Suc_eq)
qed simp

section \<open>Bits of words\<close>

lemma bit_word_less_len: "bit (w :: 'a :: len word) n \<Longrightarrow> n < LENGTH('a)"
  by (rule bit_imp_le_length)

lemma word_eq_0_iff_no_bit: "(w :: 'a :: len word) = 0 \<longleftrightarrow> (\<forall>n. \<not> bit w n)"
  by (metis bit_0_eq bit_eq_iff bot_apply bot_bool_def)

lemma word_and_not_eq_0_iff:
  "(a :: 'a :: len word) AND NOT b = 0 \<longleftrightarrow> (\<forall>n. bit a n \<longrightarrow> bit b n)"
  by (auto simp: word_eq_0_iff_no_bit bit_and_iff bit_not_iff dest: bit_word_less_len)

lemma finite_bits_word [simp]: "finite {n. bit (w :: 'a :: len word) n}"
  by (rule finite_subset [of _ "{..<LENGTH('a)}"]) (auto dest: bit_word_less_len)

text \<open>The lowest set bit of a word, and how \<open>w AND - w\<close> isolates it.\<close>

definition is_lowest_bit :: "'a :: len word \<Rightarrow> nat \<Rightarrow> bool" where
  "is_lowest_bit w k \<longleftrightarrow> bit w k \<and> (\<forall>j < k. \<not> bit w j)"

lemma is_lowest_bit_unique: "is_lowest_bit w k \<Longrightarrow> is_lowest_bit w k' \<Longrightarrow> k = k'"
  by (metis is_lowest_bit_def linorder_neqE_nat)

lemma is_lowest_bit_nonzero: "is_lowest_bit w k \<Longrightarrow> w \<noteq> 0"
  by (auto simp: is_lowest_bit_def)

lemma lowest_bit_exists: "(w :: 'a :: len word) \<noteq> 0 \<Longrightarrow> \<exists>k. is_lowest_bit w k"
  by (metis exists_least_iff is_lowest_bit_def word_eq_0_iff_no_bit)

lemma odd_and_minus: "odd (v :: 'a :: len word) \<Longrightarrow> v AND - v = 1"
proof -
  assume odd: "odd v"
  then have dec: "v - 1 = 2 * (v div 2)"
    using div_mult_mod_eq [of v 2] by (simp add: odd_iff_mod_2_eq_one algebra_simps)
  have "bit (v AND - v) n \<longleftrightarrow> bit (1 :: 'a word) n" for n
    using odd
    by (cases n)
      (auto simp: bit_simps minus_eq_not_minus_1 dec bit_double_iff bit_Suc bit_0 bit_1_iff even_and_iff even_not_iff
         simp flip: bit_Suc dest: bit_word_less_len)
  then show ?thesis by (simp add: bit_eq_iff)
qed

lemma lowest_bit_push_drop:
  assumes "is_lowest_bit w k"
  shows "push_bit k (drop_bit k w) = w"
proof (rule bit_word_eqI)
  fix n
  show "bit (push_bit k (drop_bit k w)) n \<longleftrightarrow> bit w n"
    using assms by (cases "k \<le> n") (auto simp: is_lowest_bit_def bit_simps dest: bit_word_less_len)
qed

lemma lowest_bit_and_minus:
  assumes "is_lowest_bit w k"
  shows "w AND - w = push_bit k 1"
proof -
  define v where "v = drop_bit k w"
  have w: "w = push_bit k v"
    using assms by (simp add: v_def lowest_bit_push_drop)
  have "odd v"
    using assms by (simp add: v_def is_lowest_bit_def even_drop_bit_iff_not_bit)
  then have "push_bit k (v AND - v) = push_bit k 1"
    by (simp add: odd_and_minus)
  then show ?thesis
    by (simp add: w push_bit_and push_bit_minus)
qed

lemma push_bit_1_eq_self_iff:
  assumes "is_lowest_bit w k"
  shows "push_bit k 1 = w \<longleftrightarrow> {n. bit w n} = {k}"
proof
  assume "push_bit k 1 = w"
  then show "{n. bit w n} = {k}"
    using assms bit_word_less_len by (fastforce simp: is_lowest_bit_def bit_simps)
next
  assume "{n. bit w n} = {k}"
  then have "bit w n \<longleftrightarrow> n = k" for n by auto
  then show "push_bit k 1 = w"
    using assms by (auto simp: is_lowest_bit_def bit_eq_iff bit_simps)
qed

end
