(* ===== verification/OG_BitUtils.thy ===== *)
theory OG_BitUtils
  imports OG_Prelude
begin

text \<open>
  \<^verbatim>\<open>src/common/port/pg_bitutils.cpp\<close> and \<^verbatim>\<open>src/include/port/pg_bitutils.h\<close>: the byte tables and the
  portable (table driven) bodies of the bit search and population count routines. The compiler
  builtins that replace these bodies on some platforms have the same documented result. The lemmas
  show that each table-driven loop computes the bit-level notion it stands for.
\<close>

section \<open>Tables\<close>

definition pg_leftmost_one_pos :: "nat list" where
  "pg_leftmost_one_pos = [
    0, 0, 1, 1, 2, 2, 2, 2, 3, 3, 3, 3, 3, 3, 3, 3, 4, 4, 4, 4, 4, 4, 4, 4, 4, 4, 4, 4, 4, 4, 4, 4,
    5, 5, 5, 5, 5, 5, 5, 5, 5, 5, 5, 5, 5, 5, 5, 5, 5, 5, 5, 5, 5, 5, 5, 5, 5, 5, 5, 5, 5, 5, 5, 5,
    6, 6, 6, 6, 6, 6, 6, 6, 6, 6, 6, 6, 6, 6, 6, 6, 6, 6, 6, 6, 6, 6, 6, 6, 6, 6, 6, 6, 6, 6, 6, 6,
    6, 6, 6, 6, 6, 6, 6, 6, 6, 6, 6, 6, 6, 6, 6, 6, 6, 6, 6, 6, 6, 6, 6, 6, 6, 6, 6, 6, 6, 6, 6, 6,
    7, 7, 7, 7, 7, 7, 7, 7, 7, 7, 7, 7, 7, 7, 7, 7, 7, 7, 7, 7, 7, 7, 7, 7, 7, 7, 7, 7, 7, 7, 7, 7,
    7, 7, 7, 7, 7, 7, 7, 7, 7, 7, 7, 7, 7, 7, 7, 7, 7, 7, 7, 7, 7, 7, 7, 7, 7, 7, 7, 7, 7, 7, 7, 7,
    7, 7, 7, 7, 7, 7, 7, 7, 7, 7, 7, 7, 7, 7, 7, 7, 7, 7, 7, 7, 7, 7, 7, 7, 7, 7, 7, 7, 7, 7, 7, 7,
    7, 7, 7, 7, 7, 7, 7, 7, 7, 7, 7, 7, 7, 7, 7, 7, 7, 7, 7, 7, 7, 7, 7, 7, 7, 7, 7, 7, 7, 7, 7, 7]"

definition pg_rightmost_one_pos :: "nat list" where
  "pg_rightmost_one_pos = [
    0, 0, 1, 0, 2, 0, 1, 0, 3, 0, 1, 0, 2, 0, 1, 0, 4, 0, 1, 0, 2, 0, 1, 0, 3, 0, 1, 0, 2, 0, 1, 0,
    5, 0, 1, 0, 2, 0, 1, 0, 3, 0, 1, 0, 2, 0, 1, 0, 4, 0, 1, 0, 2, 0, 1, 0, 3, 0, 1, 0, 2, 0, 1, 0,
    6, 0, 1, 0, 2, 0, 1, 0, 3, 0, 1, 0, 2, 0, 1, 0, 4, 0, 1, 0, 2, 0, 1, 0, 3, 0, 1, 0, 2, 0, 1, 0,
    5, 0, 1, 0, 2, 0, 1, 0, 3, 0, 1, 0, 2, 0, 1, 0, 4, 0, 1, 0, 2, 0, 1, 0, 3, 0, 1, 0, 2, 0, 1, 0,
    7, 0, 1, 0, 2, 0, 1, 0, 3, 0, 1, 0, 2, 0, 1, 0, 4, 0, 1, 0, 2, 0, 1, 0, 3, 0, 1, 0, 2, 0, 1, 0,
    5, 0, 1, 0, 2, 0, 1, 0, 3, 0, 1, 0, 2, 0, 1, 0, 4, 0, 1, 0, 2, 0, 1, 0, 3, 0, 1, 0, 2, 0, 1, 0,
    6, 0, 1, 0, 2, 0, 1, 0, 3, 0, 1, 0, 2, 0, 1, 0, 4, 0, 1, 0, 2, 0, 1, 0, 3, 0, 1, 0, 2, 0, 1, 0,
    5, 0, 1, 0, 2, 0, 1, 0, 3, 0, 1, 0, 2, 0, 1, 0, 4, 0, 1, 0, 2, 0, 1, 0, 3, 0, 1, 0, 2, 0, 1, 0]"

definition pg_number_of_ones :: "nat list" where
  "pg_number_of_ones = [
    0, 1, 1, 2, 1, 2, 2, 3, 1, 2, 2, 3, 2, 3, 3, 4, 1, 2, 2, 3, 2, 3, 3, 4, 2, 3, 3, 4, 3, 4, 4, 5,
    1, 2, 2, 3, 2, 3, 3, 4, 2, 3, 3, 4, 3, 4, 4, 5, 2, 3, 3, 4, 3, 4, 4, 5, 3, 4, 4, 5, 4, 5, 5, 6,
    1, 2, 2, 3, 2, 3, 3, 4, 2, 3, 3, 4, 3, 4, 4, 5, 2, 3, 3, 4, 3, 4, 4, 5, 3, 4, 4, 5, 4, 5, 5, 6,
    2, 3, 3, 4, 3, 4, 4, 5, 3, 4, 4, 5, 4, 5, 5, 6, 3, 4, 4, 5, 4, 5, 5, 6, 4, 5, 5, 6, 5, 6, 6, 7,
    1, 2, 2, 3, 2, 3, 3, 4, 2, 3, 3, 4, 3, 4, 4, 5, 2, 3, 3, 4, 3, 4, 4, 5, 3, 4, 4, 5, 4, 5, 5, 6,
    2, 3, 3, 4, 3, 4, 4, 5, 3, 4, 4, 5, 4, 5, 5, 6, 3, 4, 4, 5, 4, 5, 5, 6, 4, 5, 5, 6, 5, 6, 6, 7,
    2, 3, 3, 4, 3, 4, 4, 5, 3, 4, 4, 5, 4, 5, 5, 6, 3, 4, 4, 5, 4, 5, 5, 6, 4, 5, 5, 6, 5, 6, 6, 7,
    3, 4, 4, 5, 4, 5, 5, 6, 4, 5, 5, 6, 5, 6, 6, 7, 4, 5, 5, 6, 5, 6, 6, 7, 5, 6, 6, 7, 6, 7, 7, 8]"

section \<open>Routines\<close>

text \<open>
  \<^verbatim>\<open>while ((word & 255) == 0) { word >>= 8; result += 8; }\<close>. The routine asserts a nonzero word; at
  zero the model's loop stops where the loop of the source would not end.
\<close>

function rightmost_loop64 :: "uint64 \<Rightarrow> nat \<Rightarrow> uint64 \<times> nat" where
  "rightmost_loop64 word result =
     (if word AND 255 = 0 \<and> word \<noteq> 0 then rightmost_loop64 (drop_bit 8 word) (result + 8)
      else (word, result))"
  by pat_completeness auto
termination
  by (relation "measure (\<lambda>(word, result). unat word)")
    (auto simp: drop_bit_eq_div unat_div word_le_nat_alt unat_gt_0)

definition pg_rightmost_one_pos64 :: "uint64 \<Rightarrow> nat" where
  "pg_rightmost_one_pos64 word =
     (case rightmost_loop64 word 0 of (word', result) \<Rightarrow>
        result + pg_rightmost_one_pos ! unat (word' AND 255))"

text \<open>\<^verbatim>\<open>while ((word >> shift) == 0) shift -= 8;\<close>, with the same reading at zero.\<close>

fun leftmost_loop64 :: "uint64 \<Rightarrow> nat \<Rightarrow> nat" where
  "leftmost_loop64 word shift =
     (if drop_bit shift word = 0 \<and> 8 \<le> shift then leftmost_loop64 word (shift - 8) else shift)"

definition pg_leftmost_one_pos64 :: "uint64 \<Rightarrow> nat" where
  "pg_leftmost_one_pos64 word =
     (let shift = leftmost_loop64 word (64 - 8)
      in shift + pg_leftmost_one_pos ! unat (drop_bit shift word AND 255))"

function pg_popcount64_loop :: "uint64 \<Rightarrow> nat \<Rightarrow> nat" where
  "pg_popcount64_loop word result =
     (if word \<noteq> 0
      then pg_popcount64_loop (drop_bit 8 word) (result + pg_number_of_ones ! unat (word AND 255))
      else result)"
  by pat_completeness auto
termination
  by (relation "measure (\<lambda>(word, result). unat word)")
    (auto simp: drop_bit_eq_div unat_div word_le_nat_alt unat_gt_0)

definition pg_popcount64_slow :: "uint64 \<Rightarrow> nat" where
  "pg_popcount64_slow word = pg_popcount64_loop word 0"

definition pg_nextpower2_64 :: "uint64 \<Rightarrow> uint64" where
  "pg_nextpower2_64 num =
     (if num AND (num - 1) = 0 then num else push_bit (pg_leftmost_one_pos64 num + 1) 1)"

declare rightmost_loop64.simps [simp del] leftmost_loop64.simps [simp del] pg_popcount64_loop.simps [simp del]

section \<open>The tables are right\<close>

text \<open>Each table is walked once, beside the byte value it is indexed by.\<close>

fun table_ok :: "(nat \<Rightarrow> nat \<Rightarrow> bool) \<Rightarrow> nat \<Rightarrow> nat list \<Rightarrow> bool" where
  "table_ok P b [] = True"
| "table_ok P b (t # ts) = (P b t \<and> table_ok P (b + 1) ts)"

lemma table_ok_cong: "b = b' \<Longrightarrow> table_ok P b ts = table_ok P b' ts"
  by simp

lemma table_ok_nth: "table_ok P b ts \<Longrightarrow> i < length ts \<Longrightarrow> P (b + i) (ts ! i)"
proof (induction ts arbitrary: b i)
  case (Cons t ts)
  then show ?case by (cases i) fastforce+
qed simp

lemma length_tables [simp]:
  "length pg_rightmost_one_pos = 256" "length pg_leftmost_one_pos = 256" "length pg_number_of_ones = 256"
  by (simp_all add: pg_rightmost_one_pos_def pg_leftmost_one_pos_def pg_number_of_ones_def)

lemma rightmost_table_check:
  "table_ok (\<lambda>b t. b \<noteq> 0 \<longrightarrow> t < 8 \<and> odd (b div 2 ^ t) \<and> b mod 2 ^ t = 0) 0 pg_rightmost_one_pos"
  unfolding pg_rightmost_one_pos_def by (simp cong: table_ok_cong)

lemma leftmost_table_check:
  "table_ok (\<lambda>b t. b \<noteq> 0 \<longrightarrow> t < 8 \<and> b div 2 ^ t = 1) 0 pg_leftmost_one_pos"
  unfolding pg_leftmost_one_pos_def by (simp cong: table_ok_cong)

lemma ones_table_check:
  "table_ok (\<lambda>b t. t = b mod 2 + b div 2 mod 2 + b div 4 mod 2 + b div 8 mod 2 + b div 16 mod 2 +
     b div 32 mod 2 + b div 64 mod 2 + b div 128 mod 2) 0 pg_number_of_ones"
  unfolding pg_number_of_ones_def by (simp cong: table_ok_cong)

section \<open>The routines are right\<close>

lemma and_255_take_bit: "(w :: uint64) AND 255 = take_bit 8 w"
  by (simp add: take_bit_eq_mask mask_eq_exp_minus_1)

lemma unat_and_255: "unat ((w :: uint64) AND 255) = unat w mod 256"
  by (simp add: and_255_take_bit unsigned_take_bit_eq) (simp add: take_bit_eq_mod)

lemma bit_low_byte: "n < 8 \<Longrightarrow> bit (w :: uint64) n \<longleftrightarrow> odd ((unat w mod 256) div 2 ^ n)"
proof -
  assume "n < 8"
  then have "bit w n \<longleftrightarrow> bit (take_bit 8 (unat w)) n"
    by (simp add: bit_take_bit_iff bit_unsigned_iff)
  then show ?thesis
    by (simp add: bit_iff_odd take_bit_eq_mod)
qed

lemma low_byte_rightmost:
  assumes "(w :: uint64) AND 255 \<noteq> 0"
  shows "is_lowest_bit w (pg_rightmost_one_pos ! unat (w AND 255))"
proof -
  let ?b = "unat w mod 256" and ?t = "pg_rightmost_one_pos ! (unat w mod 256)"
  have "?b \<noteq> 0"
    using assms by (metis unat_and_255 unat_eq_zero)
  then have t: "?t < 8" "odd (?b div 2 ^ ?t)" "?b mod 2 ^ ?t = 0"
    using table_ok_nth [OF rightmost_table_check, of ?b] by auto
  have "\<not> bit w j" if "j < ?t" for j
  proof -
    have "bit (take_bit ?t ?b) j \<longleftrightarrow> bit ?b j"
      using that by (simp add: bit_take_bit_iff)
    then have "\<not> bit ?b j"
      using t(3) by (simp add: take_bit_eq_mod)
    then show ?thesis
      using that t(1) by (simp add: bit_low_byte bit_iff_odd [of "unat w mod 256"])
  qed
  then show ?thesis
    using t by (simp add: is_lowest_bit_def unat_and_255 bit_low_byte)
qed

lemma lowest_bit_drop_zero_byte:
  assumes "(w :: uint64) AND 255 = 0"
  shows "is_lowest_bit (drop_bit 8 w) k \<longleftrightarrow> is_lowest_bit w (k + 8)" 
proof -
  have low: "\<not> bit w n" if "n < 8" for n
    using assms that by (metis and_255_take_bit bit_0_eq bit_take_bit_iff bot_apply bot_bool_def)
  have "(\<forall>j<k. \<not> bit w (8 + j)) \<longleftrightarrow> (\<forall>j<k + 8. \<not> bit w j)"
  proof
    assume *: "\<forall>j<k. \<not> bit w (8 + j)"
    show "\<forall>j<k + 8. \<not> bit w j"
    proof (intro allI impI)
      fix j assume "j < k + 8"
      then show "\<not> bit w j"
        using low * [rule_format, of "j - 8"] by (cases "j < 8") auto
    qed
  qed auto
  then show ?thesis
    by (auto simp: is_lowest_bit_def bit_drop_bit_eq ac_simps)
qed

lemma rightmost_loop64_result:
  "(w :: uint64) \<noteq> 0 \<Longrightarrow> rightmost_loop64 w r = (w', r') \<Longrightarrow>
     w' AND 255 \<noteq> 0 \<and> r \<le> r' \<and> (is_lowest_bit w' k \<longrightarrow> is_lowest_bit w (k + (r' - r)))"
proof (induction w r rule: rightmost_loop64.induct)
  case (1 w r)
  show ?case
  proof (cases "w AND 255 = 0")
    case True
    have nz: "drop_bit 8 w \<noteq> 0"
      using lowest_bit_exists [OF "1.prems"(1)] lowest_bit_drop_zero_byte [OF True] True
      by (metis and_255_take_bit bits_ident add.right_neutral push_bit_of_0 "1.prems"(1))
    have "rightmost_loop64 (drop_bit 8 w) (r + 8) = (w', r')"
      using "1.prems" True by (subst (asm) rightmost_loop64.simps) simp
    from "1.IH" [OF _ nz this] True "1.prems"(1)
    show ?thesis by (auto simp: lowest_bit_drop_zero_byte)
  next
    case False
    with "1.prems" show ?thesis by (subst (asm) rightmost_loop64.simps) simp
  qed
qed

lemma pg_rightmost_one_pos64_lowest:
  "w \<noteq> 0 \<Longrightarrow> is_lowest_bit w (pg_rightmost_one_pos64 w)"
proof -
  assume "w \<noteq> 0"
  obtain w' r' where loop: "rightmost_loop64 w 0 = (w', r')" by fastforce
  have "is_lowest_bit w' (pg_rightmost_one_pos ! unat (w' AND 255))"
    using rightmost_loop64_result [OF \<open>w \<noteq> 0\<close> loop] by (simp add: low_byte_rightmost)
  then have "is_lowest_bit w (pg_rightmost_one_pos ! unat (w' AND 255) + r')"
    using rightmost_loop64_result [OF \<open>w \<noteq> 0\<close> loop] by simp
  then show ?thesis by (simp add: pg_rightmost_one_pos64_def loop add.commute)
qed

lemma card_low_byte: "card {n. n < 8 \<and> bit (w :: uint64) n} = pg_number_of_ones ! unat (w AND 255)"
proof -
  define b where "b = unat w mod 256"
  have "b < 256" by (simp add: b_def)
  have "card {n. n < 8 \<and> bit w n} = (\<Sum>n<8. of_bool (odd (b div 2 ^ n)))"
    by (simp add: b_def bit_low_byte lessThan_def Collect_conj_eq Int_commute cong: conj_cong
        flip: sum.inter_filter card_eq_sum)
  also have "\<dots> = (\<Sum>n\<in>set [0..<8]. b div 2 ^ n mod 2)"
    by (simp add: mod_2_eq_odd atLeast0LessThan)
  also have "\<dots> = b mod 2 + b div 2 mod 2 + b div 4 mod 2 + b div 8 mod 2 + b div 16 mod 2 +
     b div 32 mod 2 + b div 64 mod 2 + b div 128 mod 2"
    by (simp add: sum.distinct_set_conv_list upt_rec del: set_upt)
  also have "\<dots> = pg_number_of_ones ! b"
    using table_ok_nth [OF ones_table_check, of b] \<open>b < 256\<close> by (simp only: length_tables add_0)
  finally show ?thesis
    by (simp add: b_def unat_and_255)
qed

lemma card_bits_byte_step:
  "card {n. bit (w :: uint64) n} = pg_number_of_ones ! unat (w AND 255) + card {n. bit (drop_bit 8 w) n}"
proof -
  have eq: "{n. bit w n} = {n. n < 8 \<and> bit w n} \<union> (+) 8 ` {n. bit (drop_bit 8 w) n}"
    by (auto simp: bit_drop_bit_eq image_iff) (metis le_add_diff_inverse not_le)
  have "card {n. bit w n} = card {n. n < 8 \<and> bit w n} + card ((+) 8 ` {n. bit (drop_bit 8 w) n})"
    by (subst eq, rule card_Un_disjoint) auto
  then show ?thesis by (simp add: card_image card_low_byte)
qed

lemma pg_popcount64_loop_card: "pg_popcount64_loop w r = r + card {n. bit w n}"
proof (induction w r rule: pg_popcount64_loop.induct)
  case (1 w r)
  show ?case
  proof (cases "w = 0")
    case False
    with "1.IH" show ?thesis
      by (subst pg_popcount64_loop.simps) (simp add: card_bits_byte_step [of w])
  qed (subst pg_popcount64_loop.simps, simp add: bot_fun_def)
qed

lemma pg_popcount64_card: "pg_popcount64_slow w = card {n. bit w n}"
  by (simp add: pg_popcount64_slow_def pg_popcount64_loop_card)

lemma leftmost_loop64_result:
  "drop_bit (shift + 8) (w :: uint64) = 0 \<Longrightarrow> w \<noteq> 0 \<Longrightarrow> 8 dvd shift \<Longrightarrow>
   (let s = leftmost_loop64 w shift in drop_bit s w \<noteq> 0 \<and> drop_bit (s + 8) w = 0)"
proof (induction w shift rule: leftmost_loop64.induct)
  case (1 w shift)
  show ?case
  proof (cases "drop_bit shift w = 0")
    case True
    with "1.prems" have s8: "8 \<le> shift"
      by (cases "shift = 0") (auto dest: dvd_imp_le)
    then show ?thesis
      using "1.IH" [OF conjI [OF True s8]] True "1.prems"
      by (subst leftmost_loop64.simps) simp
  next
    case False
    with "1.prems" show ?thesis by (subst leftmost_loop64.simps) simp
  qed
qed

lemma pg_leftmost_one_pos64_highest:
  assumes "w \<noteq> 0"
  shows "unat w div 2 ^ pg_leftmost_one_pos64 w = 1"
proof -
  define s where "s = leftmost_loop64 w 56"
  have "drop_bit (56 + 8) w = 0"
    by (auto simp: word_eq_0_iff_no_bit bit_drop_bit_eq dest: bit_word_less_len)
  then have s: "drop_bit s w \<noteq> 0" "drop_bit (s + 8) w = 0"
    using leftmost_loop64_result [of 56 w] assms by (simp_all add: s_def Let_def)
  let ?v = "unat w div 2 ^ s"
  have "?v div 256 = 0"
    using arg_cong [OF s(2), of unat]
    by (simp only: unat_drop_bit_eq) (simp add: drop_bit_eq_div power_add div_mult2_eq)
  then have v: "?v < 256" by simp
  have "?v \<noteq> 0"
    using s(1) by (metis drop_bit_eq_div unat_drop_bit_eq unat_eq_zero)
  with v have "?v div 2 ^ (pg_leftmost_one_pos ! ?v) = 1"
    using table_ok_nth [OF leftmost_table_check, of ?v] by simp
  moreover have "unat (drop_bit s w AND 255) = ?v"
    using v by (simp only: unat_and_255 unat_drop_bit_eq) (simp add: drop_bit_eq_div)
  ultimately show ?thesis
    by (simp add: pg_leftmost_one_pos64_def Let_def power_add div_mult2_eq flip: s_def)
qed

lemma and_minus_one_eq_0_iff:
  assumes "(w :: 'a :: len word) \<noteq> 0"
  shows "w AND (w - 1) = 0 \<longleftrightarrow> (\<exists>k < LENGTH('a). w = push_bit k 1)"
proof
  assume "w AND (w - 1) = 0"
  then have "w AND - w = w"
    by (metis and.right_idem bit.conj_cancel_right bit.conj_disj_distrib bit.disj_cancel_right
        minus_eq_not_minus_1 or.left_neutral and.right_neutral bit.disj_zero_right bit.double_compl)
  moreover obtain k where "is_lowest_bit w k"
    using lowest_bit_exists [OF assms] by blast
  ultimately show "\<exists>k < LENGTH('a). w = push_bit k 1"
    using lowest_bit_and_minus bit_word_less_len by (metis is_lowest_bit_def)
next
  assume "\<exists>k < LENGTH('a). w = push_bit k 1"
  then obtain k where w: "w = push_bit k 1" by blast
  have "w - 1 = mask k" by (simp add: w mask_eq_decr_exp push_bit_of_1)
  then have "w AND (w - 1) = push_bit k 1 AND mask k" by (simp only: w)
  also have "\<dots> = 0"
    by (rule bit_word_eqI) (auto simp: bit_simps)
  finally show "w AND (w - 1) = 0" .
qed

lemma unat_push_bit_1: "k < LENGTH('a) \<Longrightarrow> unat (push_bit k (1 :: 'a :: len word)) = 2 ^ k"
proof -
  assume "k < LENGTH('a)"
  then have "unat (of_nat (2 ^ k) :: 'a word) = 2 ^ k"
    by (simp add: unat_of_nat take_bit_eq_mod del: of_nat_power)
  then show ?thesis by (simp add: push_bit_of_1)
qed

lemma pg_nextpower2_64_spec:
  assumes "num \<noteq> 0" and "unat num \<le> 2 ^ 63"
  shows "\<exists>k. unat (pg_nextpower2_64 num) = 2 ^ k \<and> unat num \<le> 2 ^ k \<and> 2 ^ k < 2 * unat num"
proof (cases "num AND (num - 1) = 0")
  case True
  then obtain k where "k < 64" "num = push_bit k 1"
    using and_minus_one_eq_0_iff [OF assms(1)] by auto
  then show ?thesis
    using True unat_push_bit_1 [where 'a = 64, of k]
    by (intro exI [of _ k]) (simp add: pg_nextpower2_64_def push_bit_of_1)
next
  case False
  define p where "p = pg_leftmost_one_pos64 num"
  have one: "unat num div 2 ^ p = 1"
    using pg_leftmost_one_pos64_highest [OF assms(1)] by (simp add: p_def)
  have "2 ^ p \<le> unat num \<and> unat num < 2 * 2 ^ p"
    using one div_mult_mod_eq [of "unat num" "2 ^ p"] mod_less_divisor [of "2 ^ p" "unat num"]
    by (simp del: mod_less_divisor)
  then have bounds: "2 ^ p \<le> unat num" "unat num < 2 * 2 ^ p" by blast+
  have p: "p < 64"
    using power_less_imp_less_exp [of "2 :: nat" p 64] bounds(1) assms(2) by simp
  have ne: "unat num \<noteq> 2 ^ p"
  proof
    assume "unat num = 2 ^ p"
    then have "num = push_bit p 1"
      using p unat_push_bit_1 [where 'a = 64, of p] by (simp add: word_unat_eq_iff)
    with False and_minus_one_eq_0_iff [OF assms(1)] p show False by auto
  qed
  then have "p < 63"
    using p bounds(1) assms(2) by (cases "p = 63") auto
  then have "unat (pg_nextpower2_64 num) = 2 ^ (p + 1)"
    using False unat_push_bit_1 [where 'a = 64, of "p + 1"]
    by (simp only: pg_nextpower2_64_def p_def [symmetric]) simp
  then show ?thesis
    using bounds ne by (intro exI [of _ "p + 1"]) simp
qed

section \<open>Properties\<close>

text \<open>
  The table-driven bit routines agree with the bits of the word: lowest set bit, highest set bit (by its power of two)
  and number of set bits. The position routines are specified for nonzero words only, as their comments say.
\<close>

theorem bit_routines_correct:
  assumes "w \<noteq> 0"
  shows "bit w (pg_rightmost_one_pos64 w) \<and> (\<forall>j < pg_rightmost_one_pos64 w. \<not> bit w j) \<and>
         2 ^ pg_leftmost_one_pos64 w \<le> unat w \<and> unat w < 2 * 2 ^ pg_leftmost_one_pos64 w \<and>
         pg_popcount64_slow w = card {n. bit w n}"
proof -
  define p :: nat where "p = 2 ^ pg_leftmost_one_pos64 w"
  have "0 < p" "unat w div p = 1" using pg_leftmost_one_pos64_highest [OF assms] by (simp_all add: p_def)
  then have "unat w = p + unat w mod p" "unat w mod p < p" using div_mult_mod_eq [of "unat w" p] by simp_all
  then have "p \<le> unat w" "unat w < 2 * p" by linarith+
  then show ?thesis
    using pg_rightmost_one_pos64_lowest [OF assms] pg_popcount64_card [of w] by (simp add: is_lowest_bit_def p_def)
qed

theorem bit_routines_correct_witness: "bit (40 :: uint64) (pg_rightmost_one_pos64 40) \<and> 2 ^ pg_leftmost_one_pos64 40 \<le> (40 :: nat)"
  using bit_routines_correct [of 40] by simp

text \<open>
  \<^verbatim>\<open>pg_nextpower2_64\<close> gives the least power of two that is not below its argument, for every argument its assertion
  allows, the ends of the range included.
\<close>

theorem nextpower2_least:
  assumes "num \<noteq> 0" "unat num \<le> 2 ^ 63"
  shows "\<exists>k. unat (pg_nextpower2_64 num) = 2 ^ k \<and> unat num \<le> 2 ^ k \<and> 2 ^ k < 2 * unat num"
  by (rule pg_nextpower2_64_spec [OF assms])

theorem nextpower2_least_witness: "\<exists>k. unat (pg_nextpower2_64 1000) = 2 ^ k \<and> (1000 :: nat) \<le> 2 ^ k \<and> 2 ^ k < (2000 :: nat)"
  using nextpower2_least [of 1000] by simp

end
