(* ===== verification/OG_Contracts.thy ===== *)
theory OG_Contracts
  imports OG_Prelude
begin

text \<open>
  The contracts between components, as locales. Each fixes the operations a client calls and assumes the
  laws their provider promises; the client's reasoning is done once, here. The provider's theory
  interprets the locale on its own definitions.
\<close>

section \<open>Sets of nonnegative integers\<close>

text \<open>Building a set member by member, as the callers of \<^verbatim>\<open>bms_add_member\<close> do.\<close>

fun add_list :: "('s \<Rightarrow> int \<Rightarrow> 's result) \<Rightarrow> 's \<Rightarrow> int list \<Rightarrow> 's result" where
  "add_list add s [] = Inr s"
| "add_list add s (x # xs) = rbind (add s x) (\<lambda>s'. add_list add s' xs)"

text \<open>
  The two iteration idioms: \<^verbatim>\<open>x = -1; while ((x = next(a, x)) >= 0) process x;\<close> and
  \<^verbatim>\<open>while ((x = pop(a)) >= 0) process x;\<close>. \<open>None\<close> is a loop that needs more fuel or raised an error.
\<close>

fun cursor_run :: "(int \<Rightarrow> int result) \<Rightarrow> nat \<Rightarrow> int \<Rightarrow> int list option" where
  "cursor_run nxt 0 x = None"
| "cursor_run nxt (Suc fuel) x =
     (case nxt x of Inl e \<Rightarrow> None
      | Inr y \<Rightarrow> if y \<ge> 0 then map_option ((#) y) (cursor_run nxt fuel y) else Some [])"

fun drain_run :: "('s \<Rightarrow> int \<times> 's) \<Rightarrow> nat \<Rightarrow> 's \<Rightarrow> int list option" where
  "drain_run pop 0 s = None"
| "drain_run pop (Suc fuel) s =
     (let (y, s') = pop s in if y \<ge> 0 then map_option ((#) y) (drain_run pop fuel s') else Some [])"

locale member_sets =
  fixes members :: "'s \<Rightarrow> nat set"
    and empty :: 's
    and isin :: "int \<Rightarrow> 's \<Rightarrow> bool result"
    and add :: "'s \<Rightarrow> int \<Rightarrow> 's result"
    and del :: "'s \<Rightarrow> int \<Rightarrow> 's result"
    and union :: "'s \<Rightarrow> 's \<Rightarrow> 's"
    and inter :: "'s \<Rightarrow> 's \<Rightarrow> 's"
    and diff :: "'s \<Rightarrow> 's \<Rightarrow> 's"
    and equal :: "'s \<Rightarrow> 's \<Rightarrow> bool"
    and subset :: "'s \<Rightarrow> 's \<Rightarrow> bool"
  assumes members_empty: "members empty = {}"
    and isin_law: "0 \<le> x \<Longrightarrow> isin x s = Inr (nat x \<in> members s)"
    and add_law: "0 \<le> x \<Longrightarrow> \<exists>s'. add s x = Inr s' \<and> members s' = insert (nat x) (members s)"
    and del_law: "0 \<le> x \<Longrightarrow> \<exists>s'. del s x = Inr s' \<and> members s' = members s - {nat x}"
    and union_law: "members (union s t) = members s \<union> members t"
    and inter_law: "members (inter s t) = members s \<inter> members t"
    and diff_law: "members (diff s t) = members s - members t"
    and equal_law: "equal s t \<longleftrightarrow> members s = members t"
    and subset_law: "subset s t \<longleftrightarrow> members s \<subseteq> members t"
begin

lemma add_list_members:
  "\<forall>x \<in> set xs. 0 \<le> x \<Longrightarrow> \<exists>s'. add_list add s xs = Inr s' \<and> members s' = members s \<union> nat ` set xs"
proof (induction xs arbitrary: s)
  case (Cons x xs)
  then obtain s1 where s1: "add s x = Inr s1" "members s1 = insert (nat x) (members s)"
    using add_law [of x s] by auto
  with Cons.prems Cons.IH [of s1] show ?case by auto
qed simp

lemma add_then_isin: "0 \<le> x \<Longrightarrow> 0 \<le> y \<Longrightarrow>
  rbind (add s x) (isin y) = Inr (y = x \<or> nat y \<in> members s)"
  using add_law [of x s] isin_law [of y] by (auto simp: eq_nat_nat_iff)

lemma del_then_isin: "0 \<le> x \<Longrightarrow> 0 \<le> y \<Longrightarrow>
  rbind (del s x) (isin y) = Inr (y \<noteq> x \<and> nat y \<in> members s)"
  using del_law [of x s] isin_law [of y] by (auto simp: eq_nat_nat_iff)

lemma lattice_laws:
  "equal (union s t) (union t s)"
  "equal (inter s (union t u)) (union (inter s t) (inter s u))"
  "equal (diff s (union t u)) (inter (diff s t) (diff s u))"
  "equal (union (diff s t) (inter s t)) s"
  "subset s t \<longleftrightarrow> equal (union s t) t"
  by (auto simp: equal_law subset_law union_law inter_law diff_law)

end

locale member_cursor =
  fixes nxt :: "int \<Rightarrow> int result" and S :: "nat set"
  assumes finite_S: "finite S"
    and nxt_law: "-1 \<le> p \<Longrightarrow>
      nxt p = Inr (let T = {n \<in> S. p < int n} in if T = {} then -2 else int (Min T))"
begin

lemma cursor_run_from:
  "-1 \<le> p \<Longrightarrow> card {n \<in> S. p < int n} < fuel \<Longrightarrow>
     cursor_run nxt fuel p = Some (map int (sorted_list_of_set {n \<in> S. p < int n}))"
proof (induction fuel arbitrary: p)
  case (Suc fuel)
  define T where "T = {n \<in> S. p < int n}"
  have fin: "finite T" using finite_S by (simp add: T_def)
  have step: "nxt p = Inr (if T = {} then -2 else int (Min T))"
    using nxt_law [OF Suc.prems(1)] by (simp add: T_def Let_def)
  show ?case
  proof (cases "T = {}")
    case True
    with step show ?thesis by (simp flip: T_def)
  next
    case False
    have m: "Min T \<in> T" using fin False by (rule Min_in)
    have "n \<in> T - {Min T} \<longleftrightarrow> n \<in> {n \<in> S. int (Min T) < int n}" for n
      using m Min_le [OF fin, of n] by (force simp: T_def)
    then have rest: "{n \<in> S. int (Min T) < int n} = T - {Min T}" by blast
    have "card (T - {Min T}) < card T"
      using fin m by (rule card_Diff1_less)
    then have "cursor_run nxt fuel (int (Min T)) = Some (map int (sorted_list_of_set (T - {Min T})))"
      using Suc.IH [of "int (Min T)", unfolded rest] Suc.prems(2) by (simp flip: T_def)
    with step False show ?thesis
      by (simp add: sorted_list_of_set_nonempty [OF fin False] flip: T_def)
  qed
qed simp

lemma cursor_run_all: "card S < fuel \<Longrightarrow> cursor_run nxt fuel (-1) = Some (map int (sorted_list_of_set S))"
  using cursor_run_from [of "-1" fuel] by simp

end

locale member_drain =
  fixes members :: "'s \<Rightarrow> nat set" and pop :: "'s \<Rightarrow> int \<times> 's"
  assumes finite_members: "finite (members s)"
    and pop_empty: "members s = {} \<Longrightarrow> fst (pop s) = -1"
    and pop_least: "members s \<noteq> {} \<Longrightarrow> fst (pop s) = int (Min (members s))"
    and pop_rest: "members s \<noteq> {} \<Longrightarrow> members (snd (pop s)) = members s - {Min (members s)}"
begin

lemma drain_run_all: "card (members s) < fuel \<Longrightarrow>
  drain_run pop fuel s = Some (map int (sorted_list_of_set (members s)))"
proof (induction fuel arbitrary: s)
  case (Suc fuel)
  show ?case
  proof (cases "members s = {}")
    case True
    then show ?thesis using pop_empty [OF True] by (simp add: case_prod_beta)
  next
    case False
    let ?M = "members s"
    have "card (?M - {Min ?M}) < card ?M"
      using finite_members Min_in [OF finite_members False] by (rule card_Diff1_less)
    then have "drain_run pop fuel (snd (pop s)) = Some (map int (sorted_list_of_set (?M - {Min ?M})))"
      using Suc.IH [of "snd (pop s)"] Suc.prems pop_rest [OF False] by simp
    then show ?thesis
      using pop_least [OF False] sorted_list_of_set_nonempty [OF finite_members False]
      by (simp add: case_prod_beta)
  qed
qed simp

end

section \<open>A page of slots\<close>

text \<open>
  What the free space map relies on of one of its pages: slots that are read and stored independently, a root that is
  the greatest slot of a page in good order, and a search that returns on every page, changes no slot, reports only
  slots that are large enough and, on a page in good order, reports one whenever there is one.
\<close>

locale slot_page =
  fixes nslots :: nat
    and wf ok :: "'p \<Rightarrow> bool"
    and get :: "'p \<Rightarrow> nat \<Rightarrow> 'v :: linorder"
    and put :: "'p \<Rightarrow> nat \<Rightarrow> 'v \<Rightarrow> 'p"
    and root :: "'p \<Rightarrow> 'v"
    and search :: "'p \<Rightarrow> 'v \<Rightarrow> bool \<Rightarrow> (int \<times> 'p) option"
  assumes ok_wf: "ok p \<Longrightarrow> wf p"
    and put_wf: "wf p \<Longrightarrow> s < nslots \<Longrightarrow> wf (put p s v)"
    and put_ok: "ok p \<Longrightarrow> s < nslots \<Longrightarrow> ok (put p s v)"
    and get_put: "wf p \<Longrightarrow> s < nslots \<Longrightarrow> i < nslots \<Longrightarrow> get (put p s v) i = (if i = s then v else get p i)"
    and root_ge: "ok p \<Longrightarrow> i < nslots \<Longrightarrow> get p i \<le> root p"
    and root_in: "ok p \<Longrightarrow> \<exists>i < nslots. get p i = root p"
    and search_returns: "wf p \<Longrightarrow> \<exists>r q. search p m adv = Some (r, q)"
    and search_keeps: "wf p \<Longrightarrow> search p m adv = Some (r, q) \<Longrightarrow> wf q \<and> (ok p \<longrightarrow> ok q)"
    and search_slots: "wf p \<Longrightarrow> search p m adv = Some (r, q) \<Longrightarrow> i < nslots \<Longrightarrow> get q i = get p i"
    and search_found: "wf p \<Longrightarrow> search p m adv = Some (r, q) \<Longrightarrow>
                       r = -1 \<or> (0 \<le> r \<and> nat r < nslots \<and> m \<le> get p (nat r))"
    and search_none: "ok p \<Longrightarrow> search p m adv = Some (-1, q) \<Longrightarrow> i < nslots \<Longrightarrow> get p i < m"
begin

text \<open>A page in good order is searched exactly: no slot is reported if and only if the root is too small.\<close>

lemma search_none_iff_root:
  assumes "ok p" "search p m adv = Some (r, q)"
  shows "r = -1 \<longleftrightarrow> root p < m"
proof
  assume "r = -1"
  then show "root p < m" using search_none [OF assms(1), of m adv q] root_in [OF assms(1)] assms(2) by fastforce
next
  assume "root p < m"
  then show "r = -1"
    using search_found [OF ok_wf [OF assms(1)] assms(2)] root_ge [OF assms(1), of "nat r"] by auto
qed

text \<open>Space just recorded is found.\<close>

lemma put_then_search:
  assumes "ok p" "s < nslots" "m \<le> v"
  shows "\<exists>r q. search (put p s v) m adv = Some (r, q) \<and> 0 \<le> r \<and> nat r < nslots \<and> m \<le> get (put p s v) (nat r)"
proof -
  have ok: "ok (put p s v)" using put_ok assms by simp
  obtain r q where s: "search (put p s v) m adv = Some (r, q)" using search_returns ok_wf [OF ok] by blast
  have "get (put p s v) s = v" using get_put [OF ok_wf [OF assms(1)]] assms(2) by simp
  then have "r \<noteq> -1" using search_none [OF ok, of m adv q s] s assms(2,3) by auto
  then show ?thesis using search_found [OF ok_wf [OF ok] s] s by auto
qed

lemma root_put:
  assumes "ok p" "s < nslots"
  shows "v \<le> root (put p s v)"
  using root_ge [OF put_ok [OF assms], of s v] get_put [OF ok_wf [OF assms(1)] assms(2,2), of v] assms(2) by simp

lemma root_cong:
  assumes "ok p" "ok q" "\<And>i. i < nslots \<Longrightarrow> get p i = get q i"
  shows "root p = root q"
  using root_in [OF assms(1)] root_in [OF assms(2)] root_ge [OF assms(1)] root_ge [OF assms(2)] assms(3)
  by (metis order_antisym)

end

section \<open>Items under a number\<close>

text \<open>A history of a store: \<open>Some x\<close> adds an item, \<open>None\<close> compacts the store. The result lists what was stored, with the number it got.\<close>

fun fill_run :: "('p \<Rightarrow> 'x \<Rightarrow> nat \<times> 'p) \<Rightarrow> ('p \<Rightarrow> 'p) \<Rightarrow> 'p \<Rightarrow> 'x option list \<Rightarrow> (nat \<times> 'x) list \<times> 'p" where
  "fill_run add compact p [] = ([], p)"
| "fill_run add compact p (None # ops) = fill_run add compact (compact p) ops"
| "fill_run add compact p (Some x # ops) =
     (let (off, p') = add p x; (got, q) = fill_run add compact p' ops in (if off = 0 then got else (off, x) # got, q))"

text \<open>
  Items are numbered from 1. An item is put into a free slot or appended, never over another one, and compaction
  does not change what is read.
\<close>

locale item_store =
  fixes ok :: "'p \<Rightarrow> bool"
    and items :: "'p \<Rightarrow> 'i list"
    and stored :: "'x \<Rightarrow> 'i"
    and free :: 'i
    and valid :: "'x \<Rightarrow> bool"
    and add :: "'p \<Rightarrow> 'x \<Rightarrow> nat \<times> 'p"
    and compact :: "'p \<Rightarrow> 'p"
  assumes stored_not_free: "stored x \<noteq> free"
    and add_ok: "ok p \<Longrightarrow> valid x \<Longrightarrow> add p x = (off, p') \<Longrightarrow> ok p'"
    and add_at: "ok p \<Longrightarrow> valid x \<Longrightarrow> add p x = (off, p') \<Longrightarrow> off \<noteq> 0 \<Longrightarrow> off \<le> length (items p') \<and> items p' ! (off - 1) = stored x"
    and add_free: "ok p \<Longrightarrow> valid x \<Longrightarrow> add p x = (off, p') \<Longrightarrow> off \<noteq> 0 \<Longrightarrow> off \<le> length (items p) \<Longrightarrow> items p ! (off - 1) = free"
    and add_keeps: "ok p \<Longrightarrow> valid x \<Longrightarrow> add p x = (off, p') \<Longrightarrow> i < length (items p) \<Longrightarrow> off \<noteq> Suc i \<Longrightarrow>
                    i < length (items p') \<and> items p' ! i = items p ! i"
    and compact_ok: "ok p \<Longrightarrow> ok (compact p)"
    and compact_items: "ok p \<Longrightarrow> items (compact p) = items p"
begin

lemma add_keeps_used:
  assumes "ok p" "valid x" "add p x = (off, p')" "i < length (items p)" "items p ! i \<noteq> free"
  shows "i < length (items p') \<and> items p' ! i = items p ! i"
  using add_keeps [OF assms(1-4)] add_free [OF assms(1-3)] assms(4,5) by (cases "off = Suc i") auto

lemma run_keeps_used:
  assumes "ok p" "\<forall>x. Some x \<in> set ops \<longrightarrow> valid x" "i < length (items p)" "items p ! i \<noteq> free" "fill_run add compact p ops = (got, q)"
  shows "ok q \<and> (i < length (items q) \<and> items q ! i = items p ! i) \<and> Suc i \<notin> fst ` set got"
  using assms
proof (induction ops arbitrary: p got q)
  case (Cons op ops)
  show ?case
  proof (cases op)
    case None
    have "fill_run add compact (compact p) ops = (got, q)" using Cons.prems(5) None by simp
    from Cons.IH [OF compact_ok [OF Cons.prems(1)] _ _ _ this] show ?thesis
      using Cons.prems(2-4) compact_items [OF Cons.prems(1)] by simp
  next
    case op: (Some x)
    obtain off p' where a: "add p x = (off, p')" by fastforce
    obtain g q' where r: "fill_run add compact p' ops = (g, q')" by fastforce
    have v: "valid x" using Cons.prems(2) op by simp
    note k = add_keeps_used [OF Cons.prems(1) v a Cons.prems(3,4)]
    have ne: "off \<noteq> Suc i" using add_free [OF Cons.prems(1) v a] Cons.prems(3,4) by auto
    have "ok q' \<and> (i < length (items q') \<and> items q' ! i = items p' ! i) \<and> Suc i \<notin> fst ` set g"
      using Cons.IH [OF add_ok [OF Cons.prems(1) v a] _ _ _ r] k Cons.prems(2,4) by simp
    then show ?thesis using Cons.prems(5) a r k ne op by (auto split: if_splits)
  qed
qed simp

lemma run_readable:
  assumes "ok p" "\<forall>x. Some x \<in> set ops \<longrightarrow> valid x" "fill_run add compact p ops = (got, q)"
  shows "ok q \<and> distinct (map fst got) \<and> (\<forall>(off, x) \<in> set got. 1 \<le> off \<and> off \<le> length (items q) \<and> items q ! (off - 1) = stored x)"
  using assms
proof (induction ops arbitrary: p got q)
  case (Cons op ops)
  have vs: "\<forall>x. Some x \<in> set ops \<longrightarrow> valid x" using Cons.prems(2) by simp
  show ?case
  proof (cases op)
    case None
    then show ?thesis using Cons.IH [OF compact_ok [OF Cons.prems(1)] vs] Cons.prems(3) by simp
  next
    case op: (Some x)
    obtain off p' where a: "add p x = (off, p')" by fastforce
    obtain g q' where r: "fill_run add compact p' ops = (g, q')" by fastforce
    have v: "valid x" using Cons.prems(2) op by simp
    have okp: "ok p'" by (rule add_ok [OF Cons.prems(1) v a])
    note ih = Cons.IH [OF okp vs r]
    have run: "got = (if off = 0 then g else (off, x) # g)" "q = q'" using Cons.prems(3) op a r by simp_all
    show ?thesis
    proof (cases "off = 0")
      case True
      then show ?thesis using ih run by simp
    next
      case False
      have at: "off - 1 < length (items p')" "items p' ! (off - 1) = stored x" using add_at [OF Cons.prems(1) v a False] False by auto
      have "items p' ! (off - 1) \<noteq> free" using at stored_not_free by simp
      from run_keeps_used [OF okp vs at(1) this r]
      have "off \<le> length (items q')" "items q' ! (off - 1) = stored x" "off \<notin> fst ` set g" using at False by auto
      then show ?thesis using ih run False by auto
    qed
  qed
qed simp

end

end
