(* ===== verification/OG_Bitmapset.thy ===== *)
theory OG_Bitmapset
  imports OG_BitUtils OG_Contracts
begin

text \<open>
  \<^verbatim>\<open>src/common/backend/nodes/bitmapset.cpp\<close>: sets of nonnegative integers as arrays of 64-bit words
  (BITS_PER_BITMAPWORD is 64 where pointers have 8 bytes). A \<^verbatim>\<open>Bitmapset *\<close> is an option, \<open>None\<close> the NULL
  pointer; \<open>words\<close> is the array \<^verbatim>\<open>words[nwords]\<close>, so \<open>nwords\<close> is its length. Operations that recycle an
  input return the recycled set. A C \<^verbatim>\<open>int\<close> is an \<open>int\<close>: members and word numbers of a set that fits in
  memory stay far below \<open>2 ^ 31\<close>.

  The abstraction \<open>bms_set\<close> reads a bitmapset as a set of natural numbers; the lemmas show that each
  routine computes the set operation it is named after, whatever the lengths of the arrays.
\<close>

declare push_bit_of_1 [simp del]

section \<open>Data\<close>

type_synonym bitmapword = uint64

record Bitmapset =
  words :: "bitmapword list"

type_synonym bms = "Bitmapset option"

definition nwords :: "Bitmapset \<Rightarrow> nat" where
  "nwords a = length (words a)"

datatype BMS_Comparison = BMS_EQUAL | BMS_SUBSET1 | BMS_SUBSET2 | BMS_DIFFERENT

datatype BMS_Membership = BMS_EMPTY_SET | BMS_SINGLETON | BMS_MULTIPLE

definition BITS_PER_BITMAPWORD :: nat where
  "BITS_PER_BITMAPWORD = 64"

definition WORDNUM :: "int \<Rightarrow> nat" where
  "WORDNUM x = nat (x div 64)"

definition BITNUM :: "int \<Rightarrow> nat" where
  "BITNUM x = nat (x mod 64)"

definition RIGHTMOST_ONE :: "bitmapword \<Rightarrow> bitmapword" where
  "RIGHTMOST_ONE x = x AND - x"

definition HAS_MULTIPLE_ONES :: "bitmapword \<Rightarrow> bool" where
  "HAS_MULTIPLE_ONES x \<longleftrightarrow> RIGHTMOST_ONE x \<noteq> x"

definition negative_member :: og_error where
  "negative_member = Ereport ERROR ERRCODE_DATA_EXCEPTION"

section \<open>Operations\<close>

definition bms_copy :: "bms \<Rightarrow> bms" where
  "bms_copy a = (case a of None \<Rightarrow> None | Some a \<Rightarrow> Some \<lparr>words = take (nwords a) (words a)\<rparr>)"

definition bms_is_empty :: "bms \<Rightarrow> bool" where
  "bms_is_empty a = (case a of None \<Rightarrow> True
     | Some a \<Rightarrow> list_all (\<lambda>wordnum. words a ! wordnum = 0) [0..<nwords a])"

definition bms_equal :: "bms \<Rightarrow> bms \<Rightarrow> bool" where
  "bms_equal a b = (case (a, b) of
     (None, None) \<Rightarrow> True
   | (None, Some _) \<Rightarrow> bms_is_empty b
   | (Some _, None) \<Rightarrow> bms_is_empty a
   | (Some a, Some b) \<Rightarrow>
       (let (shorter, longer) = (if nwords a \<le> nwords b then (a, b) else (b, a))
        in list_all (\<lambda>i. words shorter ! i = words longer ! i) [0..<nwords shorter] \<and>
           list_all (\<lambda>i. words longer ! i = 0) [nwords shorter..<nwords longer]))"

definition bms_make_singleton :: "int \<Rightarrow> bms result" where
  "bms_make_singleton x =
     (if x < 0 then Inl negative_member
      else let wordnum = WORDNUM x; bitnum = BITNUM x
           in Inr (Some \<lparr>words = (replicate (wordnum + 1) 0)[wordnum := push_bit bitnum 1]\<rparr>))"

definition bms_build_with_length_noexcept :: "int \<Rightarrow> bms result" where
  "bms_build_with_length_noexcept x =
     (if x < 0 then Inl negative_member
      else Inr (Some \<lparr>words = replicate (WORDNUM x + 1) 0\<rparr>))"

definition bms_union :: "bms \<Rightarrow> bms \<Rightarrow> bms" where
  "bms_union a b = (case (a, b) of
     (None, _) \<Rightarrow> bms_copy b
   | (Some _, None) \<Rightarrow> bms_copy a
   | (Some a, Some b) \<Rightarrow>
       (let (result, other) = (if nwords a \<le> nwords b then (b, a) else (a, b))
        in Some \<lparr>words = for_upd (\<lambda>i w. w OR words other ! i) 0 (nwords other) (words result)\<rparr>))"

definition bms_intersect :: "bms \<Rightarrow> bms \<Rightarrow> bms" where
  "bms_intersect a b = (case (a, b) of
     (Some a, Some b) \<Rightarrow>
       (let (result, other) = (if nwords a \<le> nwords b then (a, b) else (b, a))
        in Some \<lparr>words = for_upd (\<lambda>i w. w AND words other ! i) 0 (nwords result) (words result)\<rparr>)
   | _ \<Rightarrow> None)"

definition bms_difference :: "bms \<Rightarrow> bms \<Rightarrow> bms" where
  "bms_difference a b = (case (a, b) of
     (None, _) \<Rightarrow> None
   | (Some _, None) \<Rightarrow> bms_copy a
   | (Some a, Some b) \<Rightarrow>
       Some \<lparr>words = for_upd (\<lambda>i w. w AND NOT (words b ! i)) 0 (min (nwords a) (nwords b)) (words a)\<rparr>)"

definition bms_is_subset :: "bms \<Rightarrow> bms \<Rightarrow> bool" where
  "bms_is_subset a b = (case (a, b) of
     (None, _) \<Rightarrow> True
   | (Some _, None) \<Rightarrow> bms_is_empty a
   | (Some a, Some b) \<Rightarrow>
       list_all (\<lambda>i. words a ! i AND NOT (words b ! i) = 0) [0..<min (nwords a) (nwords b)] \<and>
       (nwords a > nwords b \<longrightarrow>
          list_all (\<lambda>i. words a ! i = 0) [min (nwords a) (nwords b)..<nwords a]))"

text \<open>
  \<^verbatim>\<open>bms_subset_compare\<close>: the loop over the common words and the loop over the extra words of the
  longer set, each returning BMS_DIFFERENT early. \<open>Inl\<close> carries an early return, \<open>Inr\<close> the status so far.
\<close>

definition not_subset_ab :: "BMS_Comparison \<Rightarrow> BMS_Comparison + BMS_Comparison" where
  "not_subset_ab result = (if result = BMS_SUBSET1 then Inl BMS_DIFFERENT else Inr BMS_SUBSET2)"

definition not_subset_ba :: "BMS_Comparison \<Rightarrow> BMS_Comparison + BMS_Comparison" where
  "not_subset_ba result = (if result = BMS_SUBSET2 then Inl BMS_DIFFERENT else Inr BMS_SUBSET1)"

fun compare_common :: "bitmapword list \<Rightarrow> bitmapword list \<Rightarrow> BMS_Comparison \<Rightarrow> BMS_Comparison + BMS_Comparison" where
  "compare_common (aword # as) (bword # bs) result =
     (case (if aword AND NOT bword \<noteq> 0 then not_subset_ab result else Inr result) of
        Inl r \<Rightarrow> Inl r
      | Inr result \<Rightarrow>
          (case (if bword AND NOT aword \<noteq> 0 then not_subset_ba result else Inr result) of
             Inl r \<Rightarrow> Inl r
           | Inr result \<Rightarrow> compare_common as bs result))"
| "compare_common _ _ result = Inr result"

fun compare_extra ::
  "(BMS_Comparison \<Rightarrow> BMS_Comparison + BMS_Comparison) \<Rightarrow> bitmapword list \<Rightarrow> BMS_Comparison \<Rightarrow>
     BMS_Comparison + BMS_Comparison" where
  "compare_extra f [] result = Inr result"
| "compare_extra f (w # ws) result =
     (case (if w \<noteq> 0 then f result else Inr result) of
        Inl r \<Rightarrow> Inl r | Inr result \<Rightarrow> compare_extra f ws result)"

definition bms_subset_compare :: "bms \<Rightarrow> bms \<Rightarrow> BMS_Comparison" where
  "bms_subset_compare a b = (case (a, b) of
     (None, None) \<Rightarrow> BMS_EQUAL
   | (None, Some _) \<Rightarrow> if bms_is_empty b then BMS_EQUAL else BMS_SUBSET1
   | (Some _, None) \<Rightarrow> if bms_is_empty a then BMS_EQUAL else BMS_SUBSET2
   | (Some a, Some b) \<Rightarrow>
       (let shortlen = min (nwords a) (nwords b)
        in case compare_common (take shortlen (words a)) (take shortlen (words b)) BMS_EQUAL of
             Inl r \<Rightarrow> r
           | Inr result \<Rightarrow>
               (case (if nwords a > nwords b then compare_extra not_subset_ab (drop shortlen (words a)) result
                      else if nwords a < nwords b then compare_extra not_subset_ba (drop shortlen (words b)) result
                      else Inr result) of
                  Inl r \<Rightarrow> r | Inr r \<Rightarrow> r)))"

definition bms_is_member :: "int \<Rightarrow> bms \<Rightarrow> bool result" where
  "bms_is_member x a =
     (if x < 0 then Inl negative_member
      else case a of None \<Rightarrow> Inr False
      | Some a \<Rightarrow>
          (let wordnum = WORDNUM x; bitnum = BITNUM x
           in if wordnum \<ge> nwords a then Inr False
              else if words a ! wordnum AND push_bit bitnum 1 \<noteq> 0 then Inr True
              else Inr False))"

definition bms_overlap :: "bms \<Rightarrow> bms \<Rightarrow> bool" where
  "bms_overlap a b = (case (a, b) of
     (Some a, Some b) \<Rightarrow>
       list_ex (\<lambda>i. words a ! i AND words b ! i \<noteq> 0) [0..<min (nwords a) (nwords b)]
   | _ \<Rightarrow> False)"

definition bms_nonempty_difference :: "bms \<Rightarrow> bms \<Rightarrow> bool" where
  "bms_nonempty_difference a b = (case (a, b) of
     (None, _) \<Rightarrow> False
   | (Some _, None) \<Rightarrow> \<not> bms_is_empty a
   | (Some a, Some b) \<Rightarrow>
       list_ex (\<lambda>i. words a ! i AND NOT (words b ! i) \<noteq> 0) [0..<min (nwords a) (nwords b)] \<or>
       list_ex (\<lambda>i. words a ! i \<noteq> 0) [min (nwords a) (nwords b)..<nwords a])"

fun singleton_loop :: "nat \<Rightarrow> int \<Rightarrow> bitmapword list \<Rightarrow> int result" where
  "singleton_loop wordnum result [] = Inr result"
| "singleton_loop wordnum result (w # ws) =
     (if w \<noteq> 0
      then if result \<ge> 0 \<or> HAS_MULTIPLE_ONES w then Inl (Ereport ERROR ERRCODE_DATA_EXCEPTION)
           else singleton_loop (wordnum + 1)
                  (int (wordnum * BITS_PER_BITMAPWORD) + int (pg_rightmost_one_pos64 w)) ws
      else singleton_loop (wordnum + 1) result ws)"

definition bms_singleton_member :: "bms \<Rightarrow> int result" where
  "bms_singleton_member a = (case a of
     None \<Rightarrow> Inl (Ereport ERROR ERRCODE_UNEXPECTED_NULL_VALUE)
   | Some a \<Rightarrow>
       rbind (singleton_loop 0 (-1) (words a))
         (\<lambda>result. if result < 0 then Inl (Ereport ERROR ERRCODE_UNEXPECTED_NULL_VALUE) else Inr result))"

fun num_members_loop :: "nat \<Rightarrow> bitmapword list \<Rightarrow> nat" where
  "num_members_loop result [] = result"
| "num_members_loop result (w # ws) =
     num_members_loop (if w \<noteq> 0 then result + pg_popcount64_slow w else result) ws"

definition bms_num_members :: "bms \<Rightarrow> nat" where
  "bms_num_members a = (case a of None \<Rightarrow> 0 | Some a \<Rightarrow> num_members_loop 0 (words a))"

fun membership_loop :: "BMS_Membership \<Rightarrow> bitmapword list \<Rightarrow> BMS_Membership" where
  "membership_loop result [] = result"
| "membership_loop result (w # ws) =
     (if w \<noteq> 0
      then if result \<noteq> BMS_EMPTY_SET \<or> HAS_MULTIPLE_ONES w then BMS_MULTIPLE
           else membership_loop BMS_SINGLETON ws
      else membership_loop result ws)"

definition bms_membership :: "bms \<Rightarrow> BMS_Membership" where
  "bms_membership a = (case a of None \<Rightarrow> BMS_EMPTY_SET | Some a \<Rightarrow> membership_loop BMS_EMPTY_SET (words a))"

definition bms_add_member :: "bms \<Rightarrow> int \<Rightarrow> bms result" where
  "bms_add_member a x =
     (if x < 0 then Inl negative_member
      else case a of None \<Rightarrow> bms_make_singleton x
      | Some a \<Rightarrow>
          (let wordnum = WORDNUM x; bitnum = BITNUM x
           in if wordnum \<ge> nwords a
              then rbind (bms_make_singleton x) (\<lambda>result.
                     Inr (map_option (\<lambda>r. \<lparr>words = for_upd (\<lambda>i w. w OR words a ! i) 0 (nwords a) (words r)\<rparr>) result))
              else Inr (Some \<lparr>words = (words a)[wordnum := words a ! wordnum OR push_bit bitnum 1]\<rparr>)))"

definition bms_del_member :: "bms \<Rightarrow> int \<Rightarrow> bms result" where
  "bms_del_member a x =
     (if x < 0 then Inl negative_member
      else case a of None \<Rightarrow> Inr None
      | Some a \<Rightarrow>
          (let wordnum = WORDNUM x; bitnum = BITNUM x
           in if wordnum < nwords a
              then Inr (Some \<lparr>words = (words a)[wordnum := words a ! wordnum AND NOT (push_bit bitnum 1)]\<rparr>)
              else Inr (Some a)))"

definition bms_add_members :: "bms \<Rightarrow> bms \<Rightarrow> bms" where
  "bms_add_members a b = (case (a, b) of
     (None, _) \<Rightarrow> bms_copy b
   | (Some _, None) \<Rightarrow> a
   | (Some a, Some b) \<Rightarrow>
       (let (result, other) = (if nwords a < nwords b then (b, a) else (a, b))
        in Some \<lparr>words = for_upd (\<lambda>i w. w OR words other ! i) 0 (nwords other) (words result)\<rparr>))"

definition bms_int_members :: "bms \<Rightarrow> bms \<Rightarrow> bms" where
  "bms_int_members a b = (case (a, b) of
     (Some a, Some b) \<Rightarrow>
       (let shortlen = min (nwords a) (nwords b);
            ws = for_upd (\<lambda>i w. w AND words b ! i) 0 shortlen (words a)
        in Some \<lparr>words = for_upd (\<lambda>i w. 0) shortlen (nwords a) ws\<rparr>)
   | _ \<Rightarrow> None)"

definition bms_del_members :: "bms \<Rightarrow> bms \<Rightarrow> bms" where
  "bms_del_members a b = (case (a, b) of
     (None, _) \<Rightarrow> None
   | (Some _, None) \<Rightarrow> a
   | (Some a, Some b) \<Rightarrow>
       Some \<lparr>words = for_upd (\<lambda>i w. w AND NOT (words b ! i)) 0 (min (nwords a) (nwords b)) (words a)\<rparr>)"

definition bms_join :: "bms \<Rightarrow> bms \<Rightarrow> bms" where
  "bms_join a b = (case (a, b) of
     (None, _) \<Rightarrow> b
   | (Some _, None) \<Rightarrow> a
   | (Some a, Some b) \<Rightarrow>
       (let (result, other) = (if nwords a < nwords b then (b, a) else (a, b))
        in Some \<lparr>words = for_upd (\<lambda>i w. w OR words other ! i) 0 (nwords other) (words result)\<rparr>))"

text \<open>\<^verbatim>\<open>bms_first_member\<close> returns the member and leaves the set without it (the second component).\<close>

fun first_member_loop :: "nat \<Rightarrow> bitmapword list \<Rightarrow> int \<times> bitmapword list" where
  "first_member_loop wordnum [] = (-1, [])"
| "first_member_loop wordnum (w # ws) =
     (if w \<noteq> 0
      then let w' = RIGHTMOST_ONE w
           in (int (wordnum * BITS_PER_BITMAPWORD) + int (pg_rightmost_one_pos64 w'), (w AND NOT w') # ws)
      else let (r, ws') = first_member_loop (wordnum + 1) ws in (r, w # ws'))"

definition bms_first_member :: "bms \<Rightarrow> int \<times> bms" where
  "bms_first_member a = (case a of None \<Rightarrow> (-1, None)
     | Some a \<Rightarrow> (let (r, ws) = first_member_loop 0 (words a) in (r, Some \<lparr>words = ws\<rparr>)))"

text \<open>
  \<^verbatim>\<open>bms_hash_value\<close>: trailing zero words are stripped before \<^verbatim>\<open>hash_any\<close>, which is an argument here (it
  hashes the bytes of the remaining words).
\<close>

fun lastword_loop :: "bitmapword list \<Rightarrow> nat \<Rightarrow> nat" where
  "lastword_loop ws 0 = 0"
| "lastword_loop ws (Suc n) = (if ws ! n \<noteq> 0 then Suc n else lastword_loop ws n)"

definition bms_hash_value :: "(bitmapword list \<Rightarrow> uint32) \<Rightarrow> bms \<Rightarrow> uint32" where
  "bms_hash_value hash_any a = (case a of None \<Rightarrow> 0
     | Some a \<Rightarrow>
         (let n = lastword_loop (words a) (nwords a)
          in if n = 0 then 0 else hash_any (take n (words a))))"

fun next_member_loop :: "bitmapword \<Rightarrow> nat \<Rightarrow> bitmapword list \<Rightarrow> int" where
  "next_member_loop mask' wordnum [] = -2"
| "next_member_loop mask' wordnum (w # ws) =
     (if w AND mask' \<noteq> 0
      then int (wordnum * BITS_PER_BITMAPWORD) + int (pg_rightmost_one_pos64 (w AND mask'))
      else next_member_loop (NOT 0) (wordnum + 1) ws)"

definition bms_next_member :: "bms \<Rightarrow> int \<Rightarrow> int result" where
  "bms_next_member a prevbit =
     (if prevbit < -1 then Inl (Ereport ERROR ERRCODE_INVALID_PARAMETER_VALUE)
      else case a of None \<Rightarrow> Inr (-2)
      | Some a \<Rightarrow>
          (let prevbit = prevbit + 1;
               mask' = push_bit (BITNUM prevbit) (NOT 0)
           in Inr (next_member_loop mask' (WORDNUM prevbit) (drop (WORDNUM prevbit) (words a)))))"

text \<open>\<^verbatim>\<open>bms_get_singleton_member\<close>: the byte loop before the bit search is the one of \<open>rightmost_loop64\<close>.\<close>

fun get_singleton_loop :: "nat \<Rightarrow> int \<Rightarrow> bitmapword list \<Rightarrow> int option" where
  "get_singleton_loop wordnum result [] = (if result < 0 then None else Some result)"
| "get_singleton_loop wordnum result (w # ws) =
     (if w \<noteq> 0
      then if result \<ge> 0 \<or> HAS_MULTIPLE_ONES w then None
           else (case rightmost_loop64 w (wordnum * BITS_PER_BITMAPWORD) of
                   (w', result') \<Rightarrow>
                     get_singleton_loop (wordnum + 1) (int result' + int (pg_rightmost_one_pos64 w')) ws)
      else get_singleton_loop (wordnum + 1) result ws)"

definition bms_get_singleton_member :: "bms \<Rightarrow> int option" where
  "bms_get_singleton_member a = (case a of None \<Rightarrow> None | Some a \<Rightarrow> get_singleton_loop 0 (-1) (words a))"

definition bms_member_index :: "bms \<Rightarrow> int \<Rightarrow> int result" where
  "bms_member_index a x =
     rbind (bms_is_member x a) (\<lambda>mem.
       if \<not> mem then Inr (-1)
       else case a of None \<Rightarrow> Inr (-1)
       | Some a \<Rightarrow>
           (let wordnum = WORDNUM x; bitnum = BITNUM x;
                result = fold (\<lambda>i result. let w = words a ! i
                                          in if w \<noteq> 0 then result + pg_popcount64_slow w else result)
                           [0..<wordnum] 0;
                mask' = push_bit bitnum 1 - 1
            in Inr (int (result + pg_popcount64_slow (words a ! wordnum AND mask')))))"

section \<open>Abstraction to sets of naturals\<close>

definition wset :: "bitmapword list \<Rightarrow> nat set" where
  "wset ws = {n. n div 64 < length ws \<and> bit (ws ! (n div 64)) (n mod 64)}"

definition bms_set :: "bms \<Rightarrow> nat set" where
  "bms_set a = (case a of None \<Rightarrow> {} | Some a \<Rightarrow> wset (words a))"

lemma bms_set_simps [simp]: "bms_set None = {}" "bms_set (Some a) = wset (words a)"
  by (simp_all add: bms_set_def)

lemma mem_wset: "n \<in> wset ws \<longleftrightarrow> n div 64 < length ws \<and> bit (ws ! (n div 64)) (n mod 64)"
  by (simp add: wset_def)

lemma all_word_bit: "(\<forall>n :: nat. P (n div 64) (n mod 64)) \<longleftrightarrow> (\<forall>i. \<forall>j < 64. P i j)"
proof
  assume *: "\<forall>n :: nat. P (n div 64) (n mod 64)"
  show "\<forall>i. \<forall>j < 64. P i j"
  proof (intro allI impI)
    fix i j :: nat assume "j < 64"
    then show "P i j" using * [rule_format, of "64 * i + j"] by simp
  qed
qed simp

lemma bit64_all: "(\<forall>n. bit (w :: bitmapword) n \<longrightarrow> Q n) \<longleftrightarrow> (\<forall>j < 64. bit w j \<longrightarrow> Q j)"
  using bit_word_less_len [of w] by auto

lemma wset_Nil [simp]: "wset [] = {}"
  by (simp add: wset_def)

lemma wset_Cons: "wset (w # ws) = {n. bit w n} \<union> (+) 64 ` wset ws"
proof (rule set_eqI)
  fix n
  show "n \<in> wset (w # ws) \<longleftrightarrow> n \<in> {n. bit w n} \<union> (+) 64 ` wset ws"
  proof (cases "n < 64")
    case True
    then show ?thesis by (auto simp: mem_wset)
  next
    case False
    then obtain m where m: "n = 64 + m" using le_Suc_ex not_less by blast
    moreover have "\<not> bit w (64 + m)" using bit_word_less_len [of w "64 + m"] by auto
    moreover have "(64 + m) div 64 = Suc (m div 64)" by simp
    ultimately show ?thesis by (simp add: mem_wset image_iff)
  qed
qed

lemma finite_wset [simp]: "finite (wset ws)"
  by (induction ws) (simp_all add: wset_Cons)

lemma finite_bms_set [simp]: "finite (bms_set a)"
  by (cases a) simp_all

lemma wset_eq_empty_iff: "wset ws = {} \<longleftrightarrow> (\<forall>w \<in> set ws. w = 0)"
  by (induction ws) (auto simp: wset_Cons word_eq_0_iff_no_bit)

lemma bms_copy_id [simp]: "bms_copy a = a"
  by (cases a) (simp_all add: bms_copy_def nwords_def)

lemma wset_eqI:
  assumes "length ws = length vs"
    and "\<And>i. i < length ws \<Longrightarrow> ws ! i = vs ! i"
  shows "wset ws = wset vs"
  using nth_equalityI [OF assms] by simp

subsection \<open>Word-wise loops\<close>

lemma wset_for_upd:
  assumes "hi \<le> length ws"
  shows "wset (for_upd f 0 hi ws) =
    {n. n div 64 < length ws \<and>
        bit (if n div 64 < hi then f (n div 64) (ws ! (n div 64)) else ws ! (n div 64)) (n mod 64)}"
  by (auto simp: mem_wset nth_for_upd)

lemma wset_or_loop:
  "length vs \<le> length ws \<Longrightarrow> wset (for_upd (\<lambda>i w. w OR vs ! i) 0 (length vs) ws) = wset ws \<union> wset vs"
  by (auto simp: wset_for_upd mem_wset bit_or_iff split: if_splits)

lemma wset_and_loop:
  "length ws \<le> length vs \<Longrightarrow> wset (for_upd (\<lambda>i w. w AND vs ! i) 0 (length ws) ws) = wset ws \<inter> wset vs"
  by (auto simp: wset_for_upd mem_wset bit_and_iff)

lemma wset_diff_loop:
  "wset (for_upd (\<lambda>i w. w AND NOT (vs ! i)) 0 (min (length ws) (length vs)) ws) = wset ws - wset vs"
  by (auto simp: wset_for_upd mem_wset bit_and_iff bit_not_iff split: if_splits)

lemma wset_int_members_loops:
  "wset (for_upd (\<lambda>i w. 0) (min (length ws) (length vs)) (length ws)
           (for_upd (\<lambda>i w. w AND vs ! i) 0 (min (length ws) (length vs)) ws)) = wset ws \<inter> wset vs"
  by (auto simp: mem_wset nth_for_upd bit_and_iff split: if_splits)

named_theorems bms_set_simp \<open>what each operation does to the abstract set\<close>

lemma bms_set_union [bms_set_simp]: "bms_set (bms_union a b) = bms_set a \<union> bms_set b"
  by (cases a; cases b) (auto simp: bms_union_def nwords_def wset_or_loop)

lemma bms_set_intersect [bms_set_simp]: "bms_set (bms_intersect a b) = bms_set a \<inter> bms_set b"
  by (cases a; cases b) (auto simp: bms_intersect_def nwords_def wset_and_loop)

lemma bms_set_difference [bms_set_simp]: "bms_set (bms_difference a b) = bms_set a - bms_set b"
  by (cases a; cases b) (simp_all add: bms_difference_def nwords_def wset_diff_loop)

lemma bms_set_add_members [bms_set_simp]: "bms_set (bms_add_members a b) = bms_set a \<union> bms_set b"
  by (cases a; cases b) (auto simp: bms_add_members_def nwords_def wset_or_loop)

lemma bms_set_int_members [bms_set_simp]: "bms_set (bms_int_members a b) = bms_set a \<inter> bms_set b"
  by (cases a; cases b) (simp_all add: bms_int_members_def nwords_def wset_int_members_loops Let_def)

lemma bms_set_del_members [bms_set_simp]: "bms_set (bms_del_members a b) = bms_set a - bms_set b"
  by (cases a; cases b) (simp_all add: bms_del_members_def nwords_def wset_diff_loop)

lemma bms_set_join [bms_set_simp]: "bms_set (bms_join a b) = bms_set a \<union> bms_set b"
  by (cases a; cases b) (auto simp: bms_join_def nwords_def wset_or_loop)

subsection \<open>Comparisons\<close>

lemma list_all_upt_iff: "list_all P [i..<j] \<longleftrightarrow> (\<forall>k. i \<le> k \<and> k < j \<longrightarrow> P k)"
  by (auto simp: list_all_iff)

lemma bms_is_empty_iff: "bms_is_empty a \<longleftrightarrow> bms_set a = {}"
  by (cases a) (auto simp: bms_is_empty_def nwords_def wset_eq_empty_iff list_all_upt_iff all_set_conv_all_nth)

lemma wset_subset_iff:
  "wset ws \<subseteq> wset vs \<longleftrightarrow>
     (\<forall>i < length ws. if i < length vs then ws ! i AND NOT (vs ! i) = 0 else ws ! i = 0)"
proof -
  have "wset ws \<subseteq> wset vs \<longleftrightarrow> (\<forall>n. n div 64 < length ws \<longrightarrow> bit (ws ! (n div 64)) (n mod 64) \<longrightarrow>
          n div 64 < length vs \<and> bit (vs ! (n div 64)) (n mod 64))"
    by (auto simp: mem_wset)
  also have "\<dots> \<longleftrightarrow> (\<forall>i. \<forall>j < 64. i < length ws \<longrightarrow> bit (ws ! i) j \<longrightarrow> i < length vs \<and> bit (vs ! i) j)"
    by (rule all_word_bit)
  also have "\<dots> \<longleftrightarrow> (\<forall>i < length ws. if i < length vs then ws ! i AND NOT (vs ! i) = 0 else ws ! i = 0)"
  proof (intro all_cong1)
    fix i
    have "(\<forall>j < 64. bit (ws ! i) j \<longrightarrow> bit (vs ! i) j) \<longleftrightarrow> ws ! i AND NOT (vs ! i) = 0"
      by (simp add: word_and_not_eq_0_iff bit64_all)
    moreover have "(\<forall>j < 64. \<not> bit (ws ! i) j) \<longleftrightarrow> ws ! i = 0"
      using bit64_all [of "ws ! i" "\<lambda>_. False"] by (simp add: word_eq_0_iff_no_bit)
    ultimately show "(\<forall>j < 64. i < length ws \<longrightarrow> bit (ws ! i) j \<longrightarrow> i < length vs \<and> bit (vs ! i) j) \<longleftrightarrow>
        (i < length ws \<longrightarrow> (if i < length vs then ws ! i AND NOT (vs ! i) = 0 else ws ! i = 0))"
      by auto
  qed
  finally show ?thesis .
qed

lemma bms_is_subset_iff: "bms_is_subset a b \<longleftrightarrow> bms_set a \<subseteq> bms_set b"
proof (cases "a = None \<or> b = None")
  case True
  then show ?thesis
    by (cases a; cases b) (auto simp: bms_is_subset_def bms_is_empty_iff)
next
  case False
  then obtain x y where "a = Some x" "b = Some y" by auto
  then show ?thesis
    by (auto simp: bms_is_subset_def wset_subset_iff list_all_upt_iff nwords_def min_def not_less)
qed

lemma words_eq_iff_and_not: "(a :: bitmapword) = b \<longleftrightarrow> a AND NOT b = 0 \<and> b AND NOT a = 0"
  unfolding word_and_not_eq_0_iff by (auto intro: bit_word_eqI)

lemma wset_eq_iff:
  assumes "length ws \<le> length vs"
  shows "wset ws = wset vs \<longleftrightarrow>
    (\<forall>i < length ws. ws ! i = vs ! i) \<and> (\<forall>i. length ws \<le> i \<and> i < length vs \<longrightarrow> vs ! i = 0)"
proof -
  have "wset ws = wset vs \<longleftrightarrow> wset ws \<subseteq> wset vs \<and> wset vs \<subseteq> wset ws"
    by blast
  also have "\<dots> \<longleftrightarrow> (\<forall>i < length ws. ws ! i AND NOT (vs ! i) = 0 \<and> vs ! i AND NOT (ws ! i) = 0) \<and>
      (\<forall>i. length ws \<le> i \<and> i < length vs \<longrightarrow> vs ! i = 0)"
    unfolding wset_subset_iff using assms by (auto simp: not_less)
  finally show ?thesis
    by (simp flip: words_eq_iff_and_not)
qed

lemma bms_equal_iff: "bms_equal a b \<longleftrightarrow> bms_set a = bms_set b"
proof (cases "a = None \<or> b = None")
  case True
  then show ?thesis
    by (cases a; cases b) (auto simp: bms_equal_def bms_is_empty_iff)
next
  case False
  then obtain x y where ab: "a = Some x" "b = Some y" by auto
  show ?thesis
  proof (cases "nwords x \<le> nwords y")
    case True
    then show ?thesis
      by (auto simp: ab bms_equal_def nwords_def wset_eq_iff list_all_upt_iff)
  next
    case False
    then have "length (words y) \<le> length (words x)" by (simp add: nwords_def)
    from wset_eq_iff [OF this] False show ?thesis
      by (auto simp: ab bms_equal_def nwords_def list_all_upt_iff)
  qed
qed

lemma bms_nonempty_difference_subset: "bms_nonempty_difference a b \<longleftrightarrow> \<not> bms_is_subset a b"
  by (cases a; cases b)
    (auto simp: bms_nonempty_difference_def bms_is_subset_def list_all_iff list_ex_iff min_def)

lemma bms_nonempty_difference_iff: "bms_nonempty_difference a b \<longleftrightarrow> bms_set a - bms_set b \<noteq> {}"
  by (simp add: bms_nonempty_difference_subset bms_is_subset_iff)

lemma wset_disjoint_iff:
  "wset ws \<inter> wset vs = {} \<longleftrightarrow> (\<forall>i < min (length ws) (length vs). ws ! i AND vs ! i = 0)"
proof -
  have "wset ws \<inter> wset vs = {} \<longleftrightarrow> (\<forall>n. \<not> (n div 64 < min (length ws) (length vs) \<and>
          bit (ws ! (n div 64) AND vs ! (n div 64)) (n mod 64)))"
    by (auto simp: mem_wset bit_and_iff)
  also have "\<dots> \<longleftrightarrow> (\<forall>i. \<forall>j < 64. \<not> (i < min (length ws) (length vs) \<and> bit (ws ! i AND vs ! i) j))"
    by (rule all_word_bit)
  also have "\<dots> \<longleftrightarrow> (\<forall>i < min (length ws) (length vs). ws ! i AND vs ! i = 0)"
    using bit64_all [of _ "\<lambda>_. False"] by (fastforce simp: word_eq_0_iff_no_bit)
  finally show ?thesis .
qed

lemma bms_overlap_iff: "bms_overlap a b \<longleftrightarrow> bms_set a \<inter> bms_set b \<noteq> {}"
  by (cases a; cases b) (auto simp: bms_overlap_def wset_disjoint_iff list_ex_iff nwords_def)

subsection \<open>Subset comparison\<close>

definition cmp_of :: "bool \<Rightarrow> bool \<Rightarrow> BMS_Comparison" where
  "cmp_of pa pb = (if pa then if pb then BMS_DIFFERENT else BMS_SUBSET2 else if pb then BMS_SUBSET1 else BMS_EQUAL)"

definition cmp_step :: "bool \<Rightarrow> bool \<Rightarrow> BMS_Comparison + BMS_Comparison" where
  "cmp_step pa pb = (if pa \<and> pb then Inl BMS_DIFFERENT else Inr (cmp_of pa pb))"

lemma cmp_step_eval: "(case cmp_step pa pb of Inl r \<Rightarrow> r | Inr r \<Rightarrow> r) = cmp_of pa pb"
  by (simp add: cmp_step_def cmp_of_def)

lemma not_subset_cmp_of:
  "\<not> (pa \<and> pb) \<Longrightarrow> not_subset_ab (cmp_of pa pb) = cmp_step True pb"
  "\<not> (pa \<and> pb) \<Longrightarrow> not_subset_ba (cmp_of pa pb) = cmp_step pa True"
  by (auto simp: not_subset_ab_def not_subset_ba_def cmp_of_def cmp_step_def)

lemma compare_common_step:
  "\<not> (pa \<and> pb) \<Longrightarrow> compare_common as bs (cmp_of pa pb) =
     cmp_step (pa \<or> (\<exists>(x, y) \<in> set (zip as bs). x AND NOT y \<noteq> 0))
              (pb \<or> (\<exists>(x, y) \<in> set (zip as bs). y AND NOT x \<noteq> 0))"
proof (induction as bs arbitrary: pa pb rule: list_induct2')
  case (4 x as y bs)
  let ?a = "pa \<or> x AND NOT y \<noteq> 0" and ?b = "pb \<or> y AND NOT x \<noteq> 0"
  have "compare_common (x # as) (y # bs) (cmp_of pa pb) =
      (if ?a \<and> ?b then Inl BMS_DIFFERENT else compare_common as bs (cmp_of ?a ?b))"
    using "4.prems" by (auto simp: not_subset_cmp_of cmp_step_def)
  also have "\<dots> = cmp_step (?a \<or> (\<exists>(x, y) \<in> set (zip as bs). x AND NOT y \<noteq> 0))
              (?b \<or> (\<exists>(x, y) \<in> set (zip as bs). y AND NOT x \<noteq> 0))"
  proof (cases "?a \<and> ?b")
    case False
    then show ?thesis
      using "4.IH" [OF False] by (simp only: if_False)
  qed (simp add: cmp_step_def)
  finally show ?case by simp
qed (auto simp: cmp_step_def)

lemma compare_extra_ab_step:
  "\<not> (pa \<and> pb) \<Longrightarrow> compare_extra not_subset_ab ws (cmp_of pa pb) = cmp_step (pa \<or> (\<exists>w \<in> set ws. w \<noteq> 0)) pb"
proof (induction ws arbitrary: pa)
  case (Cons w ws)
  then show ?case
    using Cons.IH [of True] by (auto simp: not_subset_cmp_of cmp_step_def)
qed (simp add: cmp_step_def)

lemma compare_extra_ba_step:
  "\<not> (pa \<and> pb) \<Longrightarrow> compare_extra not_subset_ba ws (cmp_of pa pb) = cmp_step pa (pb \<or> (\<exists>w \<in> set ws. w \<noteq> 0))"
proof (induction ws arbitrary: pb)
  case (Cons w ws)
  then show ?case
    using Cons.IH [of True] by (auto simp: not_subset_cmp_of cmp_step_def)
qed (simp add: cmp_step_def)

lemma zip_take_not_subset:
  "(\<exists>(x, y) \<in> set (zip (take (min (length ws) (length vs)) ws) (take (min (length ws) (length vs)) vs)). x AND NOT y \<noteq> 0)
     \<longleftrightarrow> (\<exists>i < min (length ws) (length vs). ws ! i AND NOT (vs ! i) \<noteq> 0)"
  by (force simp: set_zip)

lemma drop_nonzero: "(\<exists>w \<in> set (drop n ws). w \<noteq> 0) \<longleftrightarrow> (\<exists>i. n \<le> i \<and> i < length ws \<and> ws ! i \<noteq> 0)"
proof
  assume "\<exists>w \<in> set (drop n ws). w \<noteq> 0"
  then obtain i where "i < length (drop n ws)" "drop n ws ! i \<noteq> 0"
    by (auto simp: in_set_conv_nth)
  then show "\<exists>i. n \<le> i \<and> i < length ws \<and> ws ! i \<noteq> 0"
    by (intro exI [of _ "n + i"]) auto
next
  assume "\<exists>i. n \<le> i \<and> i < length ws \<and> ws ! i \<noteq> 0"
  then obtain i where "n \<le> i" "i < length ws" "ws ! i \<noteq> 0" by blast
  then show "\<exists>w \<in> set (drop n ws). w \<noteq> 0"
    by (intro bexI [of _ "ws ! i"]) (auto simp: in_set_conv_nth intro!: exI [of _ "i - n"])
qed

lemma wset_not_subset_iff:
  "\<not> wset ws \<subseteq> wset vs \<longleftrightarrow> (\<exists>i < min (length ws) (length vs). ws ! i AND NOT (vs ! i) \<noteq> 0) \<or>
     (\<exists>w \<in> set (drop (min (length ws) (length vs)) ws). w \<noteq> 0)"
proof (cases "length ws \<le> length vs")
  case True
  then show ?thesis by (auto simp: wset_subset_iff)
next
  case False
  have "(\<forall>i < length ws. if i < length vs then ws ! i AND NOT (vs ! i) = 0 else ws ! i = 0) \<longleftrightarrow>
      (\<forall>i < length vs. ws ! i AND NOT (vs ! i) = 0) \<and> (\<forall>i. length vs \<le> i \<and> i < length ws \<longrightarrow> ws ! i = 0)"
    using False by (auto simp: not_less)
  with False show ?thesis by (auto simp: wset_subset_iff drop_nonzero)
qed

lemma bms_subset_compare_eq:
  "bms_subset_compare a b = cmp_of (\<not> bms_set a \<subseteq> bms_set b) (\<not> bms_set b \<subseteq> bms_set a)"
proof (cases "a = None \<or> b = None")
  case True
  then show ?thesis
    by (cases a; cases b) (auto simp: bms_subset_compare_def bms_is_empty_iff cmp_of_def)
next
  case False
  then obtain x y where ab: "a = Some x" "b = Some y" by auto
  let ?ws = "words x" and ?vs = "words y"
  let ?n = "min (length ?ws) (length ?vs)"
  let ?pa = "\<exists>i < ?n. ?ws ! i AND NOT (?vs ! i) \<noteq> 0" and ?pb = "\<exists>i < ?n. ?vs ! i AND NOT (?ws ! i) \<noteq> 0"
  let ?qa = "\<exists>w \<in> set (drop ?n ?ws). w \<noteq> 0" and ?qb = "\<exists>w \<in> set (drop ?n ?vs). w \<noteq> 0"
  have zb: "(\<exists>(x, y) \<in> set (zip (take ?n ?ws) (take ?n ?vs)). y AND NOT x \<noteq> 0) \<longleftrightarrow> ?pb"
    by (force simp: set_zip)
  have common: "compare_common (take ?n ?ws) (take ?n ?vs) BMS_EQUAL = cmp_step ?pa ?pb"
    using compare_common_step [of False False "take ?n ?ws" "take ?n ?vs"]
    by (simp only: zip_take_not_subset zb) (simp add: cmp_of_def)
  have a: "(\<not> bms_set a \<subseteq> bms_set b) \<longleftrightarrow> ?pa \<or> ?qa"
    by (simp only: ab bms_set_simps wset_not_subset_iff)
  have b: "(\<not> bms_set b \<subseteq> bms_set a) \<longleftrightarrow> ?pb \<or> ?qb"
    by (simp only: ab bms_set_simps wset_not_subset_iff [of ?vs ?ws] min.commute [of "length ?vs"])
  have q: "?qa \<Longrightarrow> length ?ws > length ?vs" "?qb \<Longrightarrow> length ?ws < length ?vs"
    unfolding drop_nonzero by auto
  have "bms_subset_compare a b = cmp_of (?pa \<or> ?qa) (?pb \<or> ?qb)"
  proof (cases "?pa \<and> ?pb")
    case True
    then show ?thesis
      unfolding ab bms_subset_compare_def by (simp add: nwords_def common Let_def cmp_step_def cmp_of_def)
  next
    case False
    note ext = compare_extra_ab_step [OF False, of "drop ?n ?ws"] compare_extra_ba_step [OF False, of "drop ?n ?vs"]
    have "cmp_step ?pa ?pb = Inr (cmp_of ?pa ?pb)"
      using False by (auto simp: cmp_step_def)
    then have "bms_subset_compare a b =
       (case (if length ?ws > length ?vs then cmp_step (?pa \<or> ?qa) ?pb
              else if length ?ws < length ?vs then cmp_step ?pa (?pb \<or> ?qb) else cmp_step ?pa ?pb) of
          Inl r \<Rightarrow> r | Inr r \<Rightarrow> r)"
      unfolding ab bms_subset_compare_def
      by (simp only: nwords_def common ext Let_def option.case prod.case sum.case)
    moreover have "\<not> ?qa" if "\<not> length ?ws > length ?vs" using q that by blast
    moreover have "\<not> ?qb" if "\<not> length ?ws < length ?vs" using q that by blast
    ultimately show ?thesis
      by (cases "length ?ws > length ?vs"; cases "length ?ws < length ?vs") (simp_all add: cmp_step_eval del: ex_simps bex_simps)
  qed
  then show ?thesis by (simp only: a b)
qed

subsection \<open>Single members\<close>

lemma word_bit_num:
  "0 \<le> x \<Longrightarrow> WORDNUM x = nat x div 64" "0 \<le> x \<Longrightarrow> BITNUM x = nat x mod 64"
  by (simp_all add: WORDNUM_def BITNUM_def nat_div_distrib nat_mod_distrib)

lemma bit_push_1_64: "n < 64 \<Longrightarrow> bit (push_bit n (1 :: bitmapword)) m \<longleftrightarrow> m = n"
  by (auto simp: bit_push_bit_iff bit_1_iff)

lemma bms_is_member_eq:
  "bms_is_member x a = (if x < 0 then Inl negative_member else Inr (nat x \<in> bms_set a))"
  by (cases a) (auto simp: bms_is_member_def word_bit_num mem_wset nwords_def Let_def
      simp flip: bit_iff_and_push_bit_not_eq_0)

lemma wset_list_update:
  assumes "i < length ws"
  shows "wset (ws[i := w]) = {n. if n div 64 = i then bit w (n mod 64) else n \<in> wset ws}"
  using assms by (auto simp: mem_wset nth_list_update split: if_splits)

lemma wset_replicate_0 [simp]: "wset (replicate n 0) = {}"
  by (simp add: wset_eq_empty_iff)

lemma eq_iff_div_mod_64: "(n :: nat) = m \<longleftrightarrow> n div 64 = m div 64 \<and> n mod 64 = m mod 64"
  by (metis div_mult_mod_eq)

lemma wset_singleton:
  assumes "0 \<le> x"
  shows "wset ((replicate (WORDNUM x + 1) 0)[WORDNUM x := push_bit (BITNUM x) 1]) = {nat x}"
proof -
  have "WORDNUM x < length (replicate (WORDNUM x + 1) (0 :: bitmapword))" by simp
  from wset_list_update [OF this] assms show ?thesis
    by (simp only: wset_replicate_0) (auto simp: word_bit_num bit_push_1_64 eq_iff_div_mod_64 [of _ "nat x"])
qed

lemma bms_make_singleton_result:
  "0 \<le> x \<Longrightarrow> \<exists>r. bms_make_singleton x = Inr r \<and> bms_set r = {nat x}"
  using wset_singleton [of x] by (simp add: bms_make_singleton_def Let_def)

lemma bms_add_member_result:
  assumes "0 \<le> x"
  shows "\<exists>r. bms_add_member a x = Inr r \<and> bms_set r = insert (nat x) (bms_set a)"
proof (cases a)
  case None
  then show ?thesis
    using assms bms_make_singleton_result [OF assms] by (simp add: bms_add_member_def)
next
  case (Some s)
  show ?thesis
  proof (cases "WORDNUM x \<ge> nwords s")
    case True
    let ?r = "(replicate (WORDNUM x + 1) 0)[WORDNUM x := push_bit (BITNUM x) 1]"
    have "wset (for_upd (\<lambda>i w. w OR words s ! i) 0 (length (words s)) ?r) = wset ?r \<union> wset (words s)"
      using True by (intro wset_or_loop) (simp only: nwords_def length_list_update length_replicate)
    then show ?thesis
      using assms Some True wset_singleton [OF assms]
      by (simp add: bms_add_member_def bms_make_singleton_def nwords_def Let_def)
  next
    case False
    have "wset ((words s)[WORDNUM x := words s ! WORDNUM x OR push_bit (BITNUM x) 1]) =
        insert (nat x) (wset (words s))"
      using False assms
      by (auto simp: wset_list_update nwords_def word_bit_num bit_or_iff bit_push_1_64 mem_wset eq_iff_div_mod_64 [of _ "nat x"] split: if_splits)
    with False assms Some show ?thesis
      by (simp add: bms_add_member_def Let_def)
  qed
qed

lemma bms_del_member_result:
  assumes "0 \<le> x"
  shows "\<exists>r. bms_del_member a x = Inr r \<and> bms_set r = bms_set a - {nat x}"
proof (cases a)
  case (Some s)
  show ?thesis
  proof (cases "WORDNUM x < nwords s")
    case True
    have "wset ((words s)[WORDNUM x := words s ! WORDNUM x AND NOT (push_bit (BITNUM x) 1)]) =
        wset (words s) - {nat x}"
      using True assms
      by (auto simp: wset_list_update nwords_def word_bit_num bit_and_iff bit_not_iff bit_push_1_64 mem_wset eq_iff_div_mod_64 [of _ "nat x"] split: if_splits)
    with True assms Some show ?thesis
      by (simp add: bms_del_member_def Let_def)
  next
    case False
    then have "nat x \<notin> wset (words s)"
      using assms by (simp add: mem_wset word_bit_num nwords_def)
    with False assms Some show ?thesis
      by (simp add: bms_del_member_def Let_def)
  qed
qed (use assms in \<open>simp add: bms_del_member_def\<close>)

lemma negative_member_error:
  "x < 0 \<Longrightarrow> bms_make_singleton x = Inl negative_member"
  "x < 0 \<Longrightarrow> bms_build_with_length_noexcept x = Inl negative_member"
  "x < 0 \<Longrightarrow> bms_is_member x a = Inl negative_member"
  "x < 0 \<Longrightarrow> bms_add_member a x = Inl negative_member"
  "x < 0 \<Longrightarrow> bms_del_member a x = Inl negative_member"
  by (simp_all add: bms_make_singleton_def bms_build_with_length_noexcept_def bms_is_member_def
      bms_add_member_def bms_del_member_def)

subsection \<open>Counting\<close>

lemma card_wset_Cons: "card (wset (w # ws)) = card {n. bit w n} + card (wset ws)"
proof -
  have "card (wset (w # ws)) = card {n. bit w n} + card ((+) 64 ` wset ws)"
    unfolding wset_Cons by (rule card_Un_disjoint) (auto dest: bit_word_less_len)
  then show ?thesis by (simp add: card_image)
qed

lemma num_members_loop_eq: "num_members_loop r ws = r + card (wset ws)"
  by (induction ws arbitrary: r) (simp_all add: card_wset_Cons pg_popcount64_card bot_fun_def)

lemma bms_num_members_eq: "bms_num_members a = card (bms_set a)"
  by (cases a) (simp_all add: bms_num_members_def num_members_loop_eq)

lemma HAS_MULTIPLE_ONES_iff:
  assumes "w \<noteq> 0"
  shows "\<not> HAS_MULTIPLE_ONES w \<longleftrightarrow> {n. bit w n} = {pg_rightmost_one_pos64 w}"
  using pg_rightmost_one_pos64_lowest [OF assms]
  by (simp add: HAS_MULTIPLE_ONES_def RIGHTMOST_ONE_def lowest_bit_and_minus push_bit_1_eq_self_iff)

lemma rightmost_in_bits: "w \<noteq> 0 \<Longrightarrow> bit w (pg_rightmost_one_pos64 w)"
  using pg_rightmost_one_pos64_lowest by (auto simp: is_lowest_bit_def)

lemma HAS_MULTIPLE_ONES_card: "w \<noteq> 0 \<Longrightarrow> HAS_MULTIPLE_ONES w \<longleftrightarrow> 2 \<le> card {n. bit w n}"
proof -
  assume w: "w \<noteq> 0"
  have "{n. bit w n} = {pg_rightmost_one_pos64 w} \<longleftrightarrow> card {n. bit w n} = 1"
    using rightmost_in_bits [OF w] by (auto simp: card_1_singleton_iff set_eq_iff)
  moreover have "card {n. bit w n} \<noteq> 0"
    using rightmost_in_bits [OF w] by auto
  ultimately show ?thesis
    using HAS_MULTIPLE_ONES_iff [OF w] by linarith
qed

definition membership_of :: "nat \<Rightarrow> BMS_Membership" where
  "membership_of n = (if n = 0 then BMS_EMPTY_SET else if n = 1 then BMS_SINGLETON else BMS_MULTIPLE)"

lemma membership_loop_eq: "k \<le> 1 \<Longrightarrow> membership_loop (membership_of k) ws = membership_of (k + card (wset ws))"
proof (induction ws arbitrary: k)
  case (Cons w ws)
  show ?case
  proof (cases "w = 0")
    case False
    define c where "c = card {n. bit w n}"
    have c: "c \<noteq> 0" using rightmost_in_bits [OF False] by (auto simp: c_def)
    have multiple: "HAS_MULTIPLE_ONES w \<longleftrightarrow> 2 \<le> c"
      by (simp add: c_def HAS_MULTIPLE_ONES_card [OF False])
    have card: "card (wset (w # ws)) = c + card (wset ws)"
      by (simp add: c_def card_wset_Cons)
    show ?thesis
    proof (cases "k = 0 \<and> c = 1")
      case True
      then show ?thesis
        using Cons.IH [of 1] False by (simp add: membership_of_def card multiple)
    next
      case *: False
      then have "2 \<le> k + card (wset (w # ws))"
        using c Cons.prems by (auto simp: card)
      then show ?thesis
        using * False c Cons.prems by (auto simp: membership_of_def multiple)
    qed
  qed (use Cons in \<open>simp add: card_wset_Cons bot_fun_def\<close>)
qed simp

lemma bms_membership_eq: "bms_membership a = membership_of (card (bms_set a))"
  using membership_loop_eq [of 0]
  by (cases a) (simp_all add: bms_membership_def membership_of_def)

subsection \<open>The sole member\<close>

lemma bits_zero [simp]: "{n. bit (0 :: bitmapword) n} = {}"
  by simp

lemma wset_Cons_0: "wset (0 # ws) = (+) 64 ` wset ws"
  by (simp add: wset_Cons)

lemma wset_Cons_not_multiple:
  "w \<noteq> 0 \<Longrightarrow> \<not> HAS_MULTIPLE_ONES w \<Longrightarrow> wset (w # ws) = insert (pg_rightmost_one_pos64 w) ((+) 64 ` wset ws)"
  by (simp add: wset_Cons HAS_MULTIPLE_ONES_iff del: mem_Collect_eq)

lemma card_insert_shift:
  "p < 64 \<Longrightarrow> card (insert p ((+) 64 ` wset ws)) = Suc (card (wset ws))"
  by (subst card_insert_disjoint) (auto simp: card_image)

lemma rightmost_less_64: "w \<noteq> 0 \<Longrightarrow> pg_rightmost_one_pos64 w < 64"
  using rightmost_in_bits bit_word_less_len by fastforce

lemma singleton_loop_nonneg:
  "0 \<le> r \<Longrightarrow> singleton_loop k r ws = (if wset ws = {} then Inr r else Inl (Ereport ERROR ERRCODE_DATA_EXCEPTION))"
  by (induction ws arbitrary: k) (auto simp: wset_Cons_0 wset_eq_empty_iff)

lemma singleton_loop_neg:
  "singleton_loop k (-1) ws =
     (if card (wset ws) = 0 then Inr (-1)
      else if card (wset ws) = 1 then Inr (int (64 * k + the_elem (wset ws)))
      else Inl (Ereport ERROR ERRCODE_DATA_EXCEPTION))"
proof (induction ws arbitrary: k)
  case (Cons w ws)
  show ?case
  proof (cases "w = 0")
    case True
    have "the_elem ((+) 64 ` wset ws) = 64 + the_elem (wset ws)" if "card (wset ws) = 1"
      using that by (auto simp: card_1_singleton_iff)
    with True Cons.IH [of "k + 1"] show ?thesis
      by (auto simp: wset_Cons_0 card_image algebra_simps)
  next
    case False
    show ?thesis
    proof (cases "HAS_MULTIPLE_ONES w")
      case True
      then have "2 \<le> card (wset (w # ws))"
        using HAS_MULTIPLE_ONES_card [OF False] by (simp add: card_wset_Cons)
      with True False show ?thesis by auto
    next
      case mult: False
      have "card (wset (w # ws)) = Suc (card (wset ws))"
        using rightmost_less_64 [OF False]
        by (simp add: wset_Cons_not_multiple [OF False mult] card_insert_shift)
      with False mult show ?thesis
        by (auto simp: wset_Cons_not_multiple singleton_loop_nonneg BITS_PER_BITMAPWORD_def mult.commute)
    qed
  qed
qed simp

lemma bms_singleton_member_eq:
  "bms_singleton_member a =
     (if card (bms_set a) = 0 then Inl (Ereport ERROR ERRCODE_UNEXPECTED_NULL_VALUE)
      else if card (bms_set a) = 1 then Inr (int (the_elem (bms_set a)))
      else Inl (Ereport ERROR ERRCODE_DATA_EXCEPTION))"
  by (cases a) (auto simp: bms_singleton_member_def singleton_loop_neg)

lemma rightmost_loop64_pos:
  assumes "w \<noteq> 0" and "rightmost_loop64 w r = (w', r')"
  shows "r' + pg_rightmost_one_pos64 w' = r + pg_rightmost_one_pos64 w"
proof -
  note res = rightmost_loop64_result [OF assms]
  then have "w' \<noteq> 0" by auto
  then have "is_lowest_bit w (pg_rightmost_one_pos64 w' + (r' - r))"
    using res pg_rightmost_one_pos64_lowest by blast
  with pg_rightmost_one_pos64_lowest [OF assms(1)] have "pg_rightmost_one_pos64 w = pg_rightmost_one_pos64 w' + (r' - r)"
    by (rule is_lowest_bit_unique)
  with res [of 0] show ?thesis by auto
qed

lemma get_singleton_loop_eq:
  "get_singleton_loop k r ws =
     (case singleton_loop k r ws of Inl e \<Rightarrow> None | Inr v \<Rightarrow> if v < 0 then None else Some v)"
proof (induction ws arbitrary: k r)
  case (Cons w ws)
  obtain w' r' where loop: "rightmost_loop64 w (k * BITS_PER_BITMAPWORD) = (w', r')" by fastforce
  show ?case
  proof (cases "w = 0")
    case False
    have "int r' + int (pg_rightmost_one_pos64 w') =
        int (k * BITS_PER_BITMAPWORD) + int (pg_rightmost_one_pos64 w)"
      using rightmost_loop64_pos [OF False loop] by linarith
    with Cons.IH False show ?thesis by (simp add: loop)
  qed (use Cons.IH in simp)
qed simp

lemma bms_get_singleton_member_eq:
  "bms_get_singleton_member a = (if card (bms_set a) = 1 then Some (int (the_elem (bms_set a))) else None)"
  by (cases a) (auto simp: bms_get_singleton_member_def get_singleton_loop_eq singleton_loop_neg)

subsection \<open>Iteration\<close>

lemma Min_plus_image: "finite D \<Longrightarrow> D \<noteq> {} \<Longrightarrow> Min ((+) (c :: nat) ` D) = c + Min D"
  by (rule mono_Min_commute [symmetric]) (auto simp: mono_def)

lemma Min_wset_Cons_0: "wset ws \<noteq> {} \<Longrightarrow> Min ((+) 64 ` wset ws) = 64 + Min (wset ws)"
  by (rule Min_plus_image) simp_all

lemma Min_wset_Cons:
  assumes "w \<noteq> 0"
  shows "Min (wset (w # ws)) = pg_rightmost_one_pos64 w"
proof (rule Min_eqI)
  show "finite (wset (w # ws))" by simp
  show "pg_rightmost_one_pos64 w \<in> wset (w # ws)"
    using rightmost_in_bits [OF assms] by (simp add: wset_Cons)
  show "pg_rightmost_one_pos64 w \<le> n" if "n \<in> wset (w # ws)" for n
    using that pg_rightmost_one_pos64_lowest [OF assms] rightmost_less_64 [OF assms]
    by (auto simp: wset_Cons is_lowest_bit_def not_less [symmetric])
qed

lemma wset_Cons_nonempty: "w \<noteq> 0 \<Longrightarrow> wset (w # ws) \<noteq> {}"
  using rightmost_in_bits by (auto simp: wset_Cons)

lemma first_word_removed:
  assumes "w \<noteq> 0"
  shows "wset ((w AND NOT (RIGHTMOST_ONE w)) # ws) = wset (w # ws) - {pg_rightmost_one_pos64 w}"
    and "pg_rightmost_one_pos64 (RIGHTMOST_ONE w) = pg_rightmost_one_pos64 w"
proof -
  let ?p = "pg_rightmost_one_pos64 w"
  have one: "RIGHTMOST_ONE w = push_bit ?p 1"
    using pg_rightmost_one_pos64_lowest [OF assms] by (simp add: RIGHTMOST_ONE_def lowest_bit_and_minus)
  have bits: "bit (RIGHTMOST_ONE w) n \<longleftrightarrow> n = ?p" for n
    using rightmost_less_64 [OF assms] by (simp add: one bit_push_1_64)
  then show "wset ((w AND NOT (RIGHTMOST_ONE w)) # ws) = wset (w # ws) - {?p}"
    using rightmost_less_64 [OF assms]
    by (simp add: wset_Cons Un_Diff Diff_triv image_iff) (auto simp: bit_and_iff bit_not_iff dest: bit_word_less_len)
  have "RIGHTMOST_ONE w \<noteq> 0"
    using bits by (metis word_eq_0_iff_no_bit)
  then have "bit (RIGHTMOST_ONE w) (pg_rightmost_one_pos64 (RIGHTMOST_ONE w))"
    by (rule rightmost_in_bits)
  then show "pg_rightmost_one_pos64 (RIGHTMOST_ONE w) = ?p"
    by (simp add: bits)
qed

lemma first_member_loop_eq:
  "first_member_loop k ws = (r, ws') \<Longrightarrow>
     (if wset ws = {} then r = -1 \<and> wset ws' = {}
      else r = int (64 * k + Min (wset ws)) \<and> wset ws' = wset ws - {Min (wset ws)})"
proof (induction ws arbitrary: k r ws')
  case (Cons w ws)
  show ?case
  proof (cases "w = 0")
    case True
    obtain r1 ws1 where rec: "first_member_loop (k + 1) ws = (r1, ws1)" by fastforce
    with True Cons.prems have eq: "r = r1" "ws' = 0 # ws1" by auto
    show ?thesis
    proof (cases "wset ws = {}")
      case False
      then show ?thesis
        using Cons.IH [OF rec]
        by (auto simp: True eq wset_Cons_0 Min_wset_Cons_0 image_set_diff)
    qed (use Cons.IH [OF rec] in \<open>simp add: True eq wset_Cons_0\<close>)
  next
    case False
    then show ?thesis
      using Cons.prems first_word_removed [OF False]
      by (auto simp: Let_def Min_wset_Cons wset_Cons_nonempty BITS_PER_BITMAPWORD_def)
  qed
qed simp

lemma bms_first_member_eq:
  "bms_first_member a = (r, a') \<Longrightarrow>
     (if bms_set a = {} then r = -1 \<and> bms_set a' = {}
      else r = int (Min (bms_set a)) \<and> bms_set a' = bms_set a - {Min (bms_set a)})"
proof (cases a)
  case (Some s)
  assume "bms_first_member a = (r, a')"
  then obtain ws where loop: "first_member_loop 0 (words s) = (r, ws)" and "a' = Some \<lparr>words = ws\<rparr>"
    by (auto simp: Some bms_first_member_def split: prod.splits)
  with first_member_loop_eq [OF loop] show ?thesis by (simp add: Some)
qed (simp add: bms_first_member_def)

lemma next_member_loop_full:
  "next_member_loop (NOT 0) k ws = (if wset ws = {} then -2 else int (64 * k + Min (wset ws)))"
proof (induction ws arbitrary: k)
  case (Cons w ws)
  show ?case
  proof (cases "w = 0")
    case True
    then show ?thesis using Cons.IH [of "k + 1"] by (simp add: wset_Cons_0 Min_wset_Cons_0)
  next
    case False
    then show ?thesis
      by (simp add: Min_wset_Cons wset_Cons_nonempty BITS_PER_BITMAPWORD_def)
  qed
qed simp

lemma next_member_loop_mask:
  "next_member_loop m k (w # ws) = next_member_loop (NOT 0) k ((w AND m) # ws)"
  by simp

lemma push_bit_not_0: "push_bit j (NOT 0 :: bitmapword) = NOT (mask j)"
  by (rule bit_word_eqI) (auto simp: bit_simps)

lemma wset_masked:
  "j < 64 \<Longrightarrow> wset ((w AND push_bit j (NOT 0)) # ws) = {n \<in> wset (w # ws). j \<le> n}"
  by (auto simp: wset_Cons bit_and_iff bit_mask_iff bit_not_iff push_bit_not_0 dest: bit_word_less_len)

lemma wset_drop: "n \<in> wset (drop k ws) \<longleftrightarrow> 64 * k + n \<in> wset ws"
  by (auto simp: mem_wset less_diff_conv ac_simps)

lemma bms_next_member_eq:
  assumes "-1 \<le> p"
  shows "bms_next_member a p = Inr (let S = {n \<in> bms_set a. p < int n} in if S = {} then -2 else int (Min S))"
proof (cases a)
  case (Some s)
  let ?k = "WORDNUM (p + 1)" and ?j = "BITNUM (p + 1)"
  let ?D = "{n \<in> wset (drop ?k (words s)). ?j \<le> n}" and ?S = "{n \<in> wset (words s). p < int n}"
  have kj: "p + 1 = int (64 * ?k + ?j)"
    using assms pos_imp_zdiv_nonneg_iff [of 64 "p + 1"] by (simp add: WORDNUM_def BITNUM_def)
  have j: "?j < 64"
    using assms by (simp add: BITNUM_def)
  have S: "?S = (+) (64 * ?k) ` ?D"
  proof (rule set_eqI)
    fix n
    show "n \<in> ?S \<longleftrightarrow> n \<in> (+) (64 * ?k) ` ?D"
    proof
      assume n: "n \<in> ?S"
      then have "64 * ?k + ?j \<le> n" using kj by auto
      with n have "n = 64 * ?k + (n - 64 * ?k)" "n - 64 * ?k \<in> ?D"
        by (auto simp: wset_drop)
      then show "n \<in> (+) (64 * ?k) ` ?D" by blast
    next
      assume "n \<in> (+) (64 * ?k) ` ?D"
      then show "n \<in> ?S" using kj by (auto simp: wset_drop)
    qed
  qed
  have "next_member_loop (push_bit ?j (NOT 0)) ?k (drop ?k (words s)) =
      (if ?D = {} then -2 else int (64 * ?k + Min ?D))"
  proof (cases "drop ?k (words s)")
    case (Cons w ws)
    then show ?thesis
      unfolding Cons by (subst next_member_loop_mask) (simp only: next_member_loop_full wset_masked [OF j])
  qed simp
  also have "\<dots> = (if ?S = {} then -2 else int (Min ?S))"
  proof (cases "?D = {}")
    case False
    have "Min ((+) (64 * ?k) ` ?D) = 64 * ?k + Min ?D"
      using False by (intro Min_plus_image) simp_all
    with False show ?thesis by (simp add: S)
  qed (simp add: S)
  finally show ?thesis
    using assms unfolding Some bms_next_member_def Let_def bms_set_simps option.case by simp
qed (use assms in \<open>simp add: bms_next_member_def\<close>)

subsection \<open>Index of a member\<close>

lemma wset_take: "wset (take k ws) = {n \<in> wset ws. n < 64 * k}"
  by (auto simp: mem_wset)

lemma mem_shifted_bits:
  "n \<in> (+) (64 * k) ` {m. bit (w :: bitmapword) m} \<longleftrightarrow> n div 64 = k \<and> bit w (n mod 64)"
proof
  assume "n \<in> (+) (64 * k) ` {m. bit w m}"
  then obtain m where "n = 64 * k + m" "bit w m" by blast
  moreover from \<open>bit w m\<close> have "m < 64" using bit_word_less_len [of w m] by simp
  ultimately show "n div 64 = k \<and> bit w (n mod 64)" by simp
next
  assume "n div 64 = k \<and> bit w (n mod 64)"
  then have "n = 64 * k + n mod 64" "n mod 64 \<in> {m. bit w m}" by auto
  then show "n \<in> (+) (64 * k) ` {m. bit w m}" by blast
qed

lemma less_64_cases: "(n :: nat) < m \<longleftrightarrow> n div 64 < m div 64 \<or> (n div 64 = m div 64 \<and> n mod 64 < m mod 64)"
  using mult_div_mod_eq [of 64 n] mult_div_mod_eq [of 64 m]
    mod_less_divisor [of 64 n] mod_less_divisor [of 64 m] by linarith

lemma member_index_fold:
  "k \<le> length ws \<Longrightarrow>
   fold (\<lambda>i result. let w = ws ! i in if w \<noteq> 0 then result + pg_popcount64_slow w else result) [0..<k] 0 =
     card (wset (take k ws))"
proof (induction k)
  case (Suc k)
  have "wset (take (Suc k) ws) = wset (take k ws) \<union> (+) (64 * k) ` {n. bit (ws ! k) n}"
    using Suc.prems unfolding set_eq_iff Un_iff mem_shifted_bits mem_wset by (auto simp: less_Suc_eq)
  moreover have "card (wset (take k ws) \<union> (+) (64 * k) ` {n. bit (ws ! k) n}) =
      card (wset (take k ws)) + card {n. bit (ws ! k) n}"
    by (subst card_Un_disjoint) (auto simp: card_image wset_take)
  ultimately show ?case
    using Suc by (auto simp: pg_popcount64_card Let_def bot_fun_def)
qed simp

lemma bms_member_index_eq:
  "bms_member_index a x =
     (if x < 0 then Inl negative_member
      else if nat x \<in> bms_set a then Inr (int (card {n \<in> bms_set a. n < nat x})) else Inr (-1))"
proof (cases "0 \<le> x \<and> nat x \<in> bms_set a")
  case True
  then obtain s where a: "a = Some s" by (cases a) auto
  let ?ws = "words s" and ?k = "nat x div 64" and ?j = "nat x mod 64"
  have k: "?k < length ?ws" using True by (simp add: a mem_wset)
  have "{n \<in> wset ?ws. n < nat x} = wset (take ?k ?ws) \<union> (+) (64 * ?k) ` {n. bit (?ws ! ?k AND mask ?j) n}"
    using k unfolding set_eq_iff Un_iff mem_shifted_bits mem_wset mem_Collect_eq less_64_cases [of _ "nat x"]
    by (auto simp: bit_and_iff bit_mask_iff)
  moreover have "card (wset (take ?k ?ws) \<union> (+) (64 * ?k) ` {n. bit (?ws ! ?k AND mask ?j) n}) =
      card (wset (take ?k ?ws)) + card {n. bit (?ws ! ?k AND mask ?j) n}"
    by (subst card_Un_disjoint) (auto simp: card_image wset_take)
  ultimately show ?thesis
    using True k member_index_fold [of ?k ?ws]
    by (simp add: bms_member_index_def bms_is_member_eq a word_bit_num pg_popcount64_card Let_def
        mask_eq_exp_minus_1 push_bit_of_1)
next
  case False
  then show ?thesis by (auto simp: bms_member_index_def bms_is_member_eq)
qed

subsection \<open>Hashing\<close>

lemma lastword_loop_le: "lastword_loop ws n \<le> n"
  by (induction n) (auto simp: le_SucI)

lemma lastword_loop_cong: "(\<And>i. i < n \<Longrightarrow> ws ! i = vs ! i) \<Longrightarrow> lastword_loop ws n = lastword_loop vs n"
  by (induction n) auto

lemma lastword_loop_zeros: "(\<And>i. n \<le> i \<Longrightarrow> i < n + d \<Longrightarrow> ws ! i = 0) \<Longrightarrow> lastword_loop ws (n + d) = lastword_loop ws n"
  by (induction d) auto

lemma wset_eq_stripped:
  assumes "length ws \<le> length vs" and "wset ws = wset vs"
  shows "lastword_loop vs (length vs) = lastword_loop ws (length ws)"
    and "take (lastword_loop ws (length ws)) vs = take (lastword_loop ws (length ws)) ws"
proof -
  note eq = wset_eq_iff [OF assms(1), THEN iffD1, OF assms(2)]
  obtain d where d: "length vs = length ws + d" using assms(1) le_Suc_ex by blast
  have "lastword_loop vs (length vs) = lastword_loop vs (length ws)"
    unfolding d by (rule lastword_loop_zeros) (use eq d in auto)
  also have "\<dots> = lastword_loop ws (length ws)"
    by (rule lastword_loop_cong) (use eq in simp)
  finally show "lastword_loop vs (length vs) = lastword_loop ws (length ws)" .
  show "take (lastword_loop ws (length ws)) vs = take (lastword_loop ws (length ws)) ws"
    using lastword_loop_le [of ws "length ws"] assms(1) eq by (intro nth_equalityI) auto
qed

lemma lastword_loop_0_iff: "lastword_loop ws n = 0 \<longleftrightarrow> (\<forall>i < n. ws ! i = 0)"
  by (induction n) (auto simp: less_Suc_eq)

lemma bms_hash_value_words:
  assumes "wset (words x) = wset (words y)"
  shows "bms_hash_value h (Some x) = bms_hash_value h (Some y)"
proof (cases "length (words x) \<le> length (words y)")
  case True
  from wset_eq_stripped [OF True assms] show ?thesis
    by (simp add: bms_hash_value_def nwords_def Let_def)
next
  case False
  then have "length (words y) \<le> length (words x)" by simp
  from wset_eq_stripped [OF this assms [symmetric]] show ?thesis
    by (simp add: bms_hash_value_def nwords_def Let_def)
qed

lemma bms_hash_value_empty: "bms_set a = {} \<Longrightarrow> bms_hash_value h a = 0"
  by (cases a) (auto simp: bms_hash_value_def nwords_def wset_eq_empty_iff lastword_loop_0_iff all_set_conv_all_nth Let_def)

lemma bms_hash_value_cong: "bms_set a = bms_set b \<Longrightarrow> bms_hash_value h a = bms_hash_value h b"
  by (cases a; cases b) (auto simp: bms_hash_value_empty intro: bms_hash_value_words)

section \<open>The contracts hold\<close>

interpretation bms_sets: member_sets bms_set None bms_is_member bms_add_member bms_del_member
  bms_union bms_intersect bms_difference bms_equal bms_is_subset
  by unfold_locales
    (simp_all add: bms_set_simp bms_equal_iff bms_is_subset_iff bms_is_member_eq bms_add_member_result
      bms_del_member_result)

interpretation bms_recycling: member_sets bms_set None bms_is_member bms_add_member bms_del_member
  bms_add_members bms_int_members bms_del_members bms_equal bms_is_subset
  by unfold_locales
    (simp_all add: bms_set_simp bms_equal_iff bms_is_subset_iff bms_is_member_eq bms_add_member_result
      bms_del_member_result)

interpretation bms_next: member_cursor "bms_next_member a" "bms_set a" for a
  by unfold_locales (simp_all add: bms_next_member_eq)

interpretation bms_first: member_drain bms_set bms_first_member
proof (unfold_locales, goal_cases)
  case (2 s)
  then show ?case using bms_first_member_eq [of s "fst (bms_first_member s)" "snd (bms_first_member s)"] by simp
next
  case (3 s)
  then show ?case using bms_first_member_eq [of s "fst (bms_first_member s)" "snd (bms_first_member s)"] by simp
next
  case (4 s)
  then show ?case using bms_first_member_eq [of s "fst (bms_first_member s)" "snd (bms_first_member s)"] by simp
qed simp

section \<open>Properties\<close>

text \<open>
  C34. The set operations, those that build a new set and those that recycle an argument, compute union, intersection and
  difference of the sets their arguments stand for, for arrays of any lengths and for NULL.
\<close>

theorem bms_set_operations:
  "bms_set (bms_union a b) = bms_set a \<union> bms_set b \<and>
   bms_set (bms_intersect a b) = bms_set a \<inter> bms_set b \<and>
   bms_set (bms_difference a b) = bms_set a - bms_set b \<and>
   bms_set (bms_add_members a b) = bms_set a \<union> bms_set b \<and>
   bms_set (bms_int_members a b) = bms_set a \<inter> bms_set b \<and>
   bms_set (bms_del_members a b) = bms_set a - bms_set b \<and>
   bms_set (bms_join a b) = bms_set a \<union> bms_set b"
  by (simp add: bms_set_simp)

text \<open>
  The comparisons decide the relation they are named after on the sets, trailing zero words notwithstanding, and
  \<^verbatim>\<open>bms_subset_compare\<close>, which stops at the first word that settles it, gives the four-way answer.
\<close>

theorem bms_comparisons:
  "(bms_is_empty a \<longleftrightarrow> bms_set a = {}) \<and>
   (bms_equal a b \<longleftrightarrow> bms_set a = bms_set b) \<and>
   (bms_is_subset a b \<longleftrightarrow> bms_set a \<subseteq> bms_set b) \<and>
   (bms_overlap a b \<longleftrightarrow> bms_set a \<inter> bms_set b \<noteq> {}) \<and>
   (bms_nonempty_difference a b \<longleftrightarrow> bms_set a - bms_set b \<noteq> {}) \<and>
   bms_subset_compare a b =
     (if bms_set a = bms_set b then BMS_EQUAL else if bms_set a \<subseteq> bms_set b then BMS_SUBSET1
      else if bms_set b \<subseteq> bms_set a then BMS_SUBSET2 else BMS_DIFFERENT)"
  by (auto simp: bms_is_empty_iff bms_equal_iff bms_is_subset_iff bms_overlap_iff bms_nonempty_difference_iff
      bms_subset_compare_eq cmp_of_def)

text \<open>
  The one-member operations: a negative member is an error on each of them; otherwise \<^verbatim>\<open>bms_add_member\<close> adds it,
  growing the array when it must, \<^verbatim>\<open>bms_del_member\<close> removes it, and \<^verbatim>\<open>bms_is_member\<close> decides membership.
\<close>

theorem bms_member_operations:
  "bms_is_member x a = (if x < 0 then Inl negative_member else Inr (nat x \<in> bms_set a)) \<and>
   map_sum id bms_set (bms_make_singleton x) = (if x < 0 then Inl negative_member else Inr {nat x}) \<and>
   map_sum id bms_set (bms_add_member a x) = (if x < 0 then Inl negative_member else Inr (insert (nat x) (bms_set a))) \<and>
   map_sum id bms_set (bms_del_member a x) = (if x < 0 then Inl negative_member else Inr (bms_set a - {nat x}))"
  using bms_make_singleton_result [of x] bms_add_member_result [of x a] bms_del_member_result [of x a]
  by (cases "x < 0") (auto simp: bms_is_member_eq negative_member_error)

text \<open>
  The counting routines: the number of members by population count of the words, the three-way membership test, and
  the sole member with its two error cases (no member, several members).
\<close>

theorem bms_counting:
  "bms_num_members a = card (bms_set a) \<and>
   bms_membership a = (if card (bms_set a) = 0 then BMS_EMPTY_SET else if card (bms_set a) = 1 then BMS_SINGLETON else BMS_MULTIPLE) \<and>
   bms_singleton_member a =
     (if card (bms_set a) = 0 then Inl (Ereport ERROR ERRCODE_UNEXPECTED_NULL_VALUE)
      else if card (bms_set a) = 1 then Inr (int (the_elem (bms_set a)))
      else Inl (Ereport ERROR ERRCODE_DATA_EXCEPTION)) \<and>
   bms_get_singleton_member a = (if card (bms_set a) = 1 then Some (int (the_elem (bms_set a))) else None)"
  by (simp add: bms_num_members_eq bms_membership_eq membership_of_def bms_singleton_member_eq bms_get_singleton_member_eq)

text \<open>
  The loop \<^verbatim>\<open>x = -1; while ((x = bms_next_member(a, x)) >= 0) ...\<close> ends after one call more than there are
  members and visits exactly the members, in increasing order.
\<close>

theorem bms_next_member_visits_all:
  "cursor_run (bms_next_member a) (Suc (card (bms_set a))) (-1) = Some (map int (sorted_list_of_set (bms_set a)))"
  by (rule bms_next.cursor_run_all) simp

text \<open>
  The destructive loop over \<^verbatim>\<open>bms_first_member\<close> visits the same members in the same order.
\<close>

theorem bms_first_member_visits_all:
  "drain_run bms_first_member (Suc (card (bms_set a))) a = Some (map int (sorted_list_of_set (bms_set a)))"
  by (rule bms_first.drain_run_all) simp

text \<open>
  \<^verbatim>\<open>bms_member_index\<close> is the rank of a member: the number of smaller members, \<open>-1\<close> for a non-member and an error
  for a negative number.
\<close>

theorem bms_member_index_rank:
  "bms_member_index a x =
     (if x < 0 then Inl negative_member
      else if nat x \<in> bms_set a then Inr (int (card {n \<in> bms_set a. n < nat x})) else Inr (-1))"
  by (rule bms_member_index_eq)

text \<open>
  \<^verbatim>\<open>bms_hash_value\<close> is compatible with \<^verbatim>\<open>bms_equal\<close>, as a hash table needs: sets that compare equal hash equal, also
  when their arrays differ in trailing zero words. It holds for every byte hash \<^verbatim>\<open>hash_any\<close>.
\<close>

theorem bms_hash_respects_equal:
  assumes "bms_equal a b"
  shows "bms_hash_value hash_any a = bms_hash_value hash_any b"
  by (rule bms_hash_value_cong) (use assms in \<open>simp add: bms_equal_iff\<close>)

theorem bms_hash_respects_equal_witness:
  "bms_equal (Some \<lparr>words = [5, 0, 0]\<rparr>) (Some \<lparr>words = [5]\<rparr>) \<and>
   bms_hash_value (\<lambda>ws. of_nat (length ws)) (Some \<lparr>words = [5, 0, 0]\<rparr>) = bms_hash_value (\<lambda>ws. of_nat (length ws)) (Some \<lparr>words = [5]\<rparr>)"
proof -
  have eq: "bms_equal (Some \<lparr>words = [5, 0, 0]\<rparr>) (Some \<lparr>words = [5]\<rparr>)"
    by (simp add: bms_equal_def nwords_def upt_conv_Cons)
  show ?thesis by (rule conjI [OF eq bms_hash_respects_equal [OF eq]])
qed

end
