(* ===== verification/OG_FsmPage.thy ===== *)
theory OG_FsmPage
  imports OG_Contracts
begin

text \<open>
  \<^verbatim>\<open>src/gausskernel/storage/freespace/fsmpage.cpp\<close>: one page of the free space map, a binary tree kept in
  an array (node \<open>0\<close> the root), whose leaves are the slots and whose inner nodes hold the maximum of their
  children. BLCKSZ is a compile-time constant that the build can change, so the routines take it as an
  argument \<open>B\<close>. Buffer locks, dirty marks and page LSNs are not part of the page contents and are left out.

  The lemmas show that \<open>fsm_rebuild_page\<close> establishes the tree property whatever the page holds, that
  \<open>fsm_set_avail\<close> is the incremental form of storing a leaf and rebuilding, and that
  \<open>fsm_search_avail\<close> finds a slot with enough space exactly when there is one, needing at most two passes
  even on a torn page.
\<close>

section \<open>Data\<close>

record FSMPageData =
  fp_next_slot :: int
  fp_nodes :: "uint8 list"

definition NodesPerPage :: "nat \<Rightarrow> nat" where
  "NodesPerPage B = B - 24 - 4"

definition NonLeafNodesPerPage :: "nat \<Rightarrow> nat" where
  "NonLeafNodesPerPage B = B div 2 - 1"

definition LeafNodesPerPage :: "nat \<Rightarrow> nat" where
  "LeafNodesPerPage B = NodesPerPage B - NonLeafNodesPerPage B"

definition leftchild :: "nat \<Rightarrow> nat" where
  "leftchild x = 2 * x + 1"

definition parentof :: "nat \<Rightarrow> nat" where
  "parentof x = (x - 1) div 2"

section \<open>Operations\<close>

definition rightneighbor :: "nat \<Rightarrow> nat" where
  "rightneighbor x = (let x = x + 1 in if (x + 1) AND x = 0 then parentof x else x)"

text \<open>The value an inner node should have: the greater of its children, of which the last nodes may lack one or both.\<close>

definition child_max :: "nat \<Rightarrow> uint8 list \<Rightarrow> nat \<Rightarrow> uint8" where
  "child_max B nodes nodeno =
     (let lchild = leftchild nodeno; rchild = lchild + 1;
          newvalue = (if lchild < NodesPerPage B then nodes ! lchild else 0)
      in if rchild < NodesPerPage B then max newvalue (nodes ! rchild) else newvalue)"

text \<open>One step of the loop of \<^verbatim>\<open>fsm_rebuild_page\<close>, and the loop from the last inner node down to the root.\<close>

definition rebuild_step :: "nat \<Rightarrow> nat \<Rightarrow> bool \<times> uint8 list \<Rightarrow> bool \<times> uint8 list" where
  "rebuild_step B nodeno st =
     (case st of (changed, nodes) \<Rightarrow>
        let newvalue = child_max B nodes nodeno
        in if nodes ! nodeno \<noteq> newvalue then (True, nodes[nodeno := newvalue]) else (changed, nodes))"

definition fsm_rebuild_page :: "nat \<Rightarrow> FSMPageData \<Rightarrow> bool \<times> FSMPageData" where
  "fsm_rebuild_page B page =
     (let (changed, nodes) = fold (rebuild_step B) (rev [0..<NonLeafNodesPerPage B]) (False, fp_nodes page)
      in (changed, page\<lparr>fp_nodes := nodes\<rparr>))"

text \<open>
  The do-while loop of \<^verbatim>\<open>fsm_set_avail\<close>: climb to the parent, recompute it, stop at the first node that
  keeps its value or at the root. The left child of a visited node always exists, so the loop reads it
  without a bounds check.
\<close>

function set_avail_loop :: "nat \<Rightarrow> uint8 list \<Rightarrow> nat \<Rightarrow> uint8 list" where
  "set_avail_loop B nodes nodeno =
     (let nodeno = parentof nodeno;
          lchild = leftchild nodeno;
          rchild = lchild + 1;
          newvalue = nodes ! lchild;
          newvalue = (if rchild < NodesPerPage B then max newvalue (nodes ! rchild) else newvalue)
      in if nodes ! nodeno = newvalue then nodes
         else if nodeno > 0 then set_avail_loop B (nodes[nodeno := newvalue]) nodeno
         else nodes[nodeno := newvalue])"
  by pat_completeness auto
termination
  by (relation "measure (\<lambda>(B, nodes, nodeno). nodeno)") (auto simp: parentof_def)

definition fsm_set_avail :: "nat \<Rightarrow> FSMPageData \<Rightarrow> nat \<Rightarrow> uint8 \<Rightarrow> bool \<times> FSMPageData" where
  "fsm_set_avail B page slot value =
     (let nodeno = NonLeafNodesPerPage B + slot;
          nodes = fp_nodes page;
          oldvalue = nodes ! nodeno
      in if oldvalue = value \<and> value \<le> nodes ! 0 then (False, page)
         else let nodes = set_avail_loop B (nodes[nodeno := value]) nodeno;
                  page = page\<lparr>fp_nodes := nodes\<rparr>
              in if value > nodes ! 0 then (True, snd (fsm_rebuild_page B page)) else (True, page))"

definition fsm_get_avail :: "nat \<Rightarrow> FSMPageData \<Rightarrow> nat \<Rightarrow> uint8" where
  "fsm_get_avail B page slot = fp_nodes page ! (NonLeafNodesPerPage B + slot)"

definition fsm_get_max_avail :: "FSMPageData \<Rightarrow> uint8" where
  "fsm_get_max_avail page = fp_nodes page ! 0"

text \<open>\<^verbatim>\<open>fsm_search_avail\<close>: climb from the target until a node has enough space, then descend.\<close>

function search_climb :: "uint8 list \<Rightarrow> uint8 \<Rightarrow> nat \<Rightarrow> nat" where
  "search_climb nodes minvalue nodeno =
     (if nodeno > 0
      then if nodes ! nodeno \<ge> minvalue then nodeno
           else search_climb nodes minvalue (parentof (rightneighbor nodeno))
      else nodeno)"
  by pat_completeness auto
termination
  by (relation "measure (\<lambda>(nodes, minvalue, nodeno). nodeno)") (auto simp: parentof_def rightneighbor_def Let_def)

function search_descend :: "nat \<Rightarrow> uint8 list \<Rightarrow> uint8 \<Rightarrow> nat \<Rightarrow> nat option" where
  "search_descend B nodes minvalue nodeno =
     (if nodeno < NonLeafNodesPerPage B
      then let childnodeno = leftchild nodeno
           in if childnodeno < NodesPerPage B \<and> nodes ! childnodeno \<ge> minvalue
              then search_descend B nodes minvalue childnodeno
              else let childnodeno = childnodeno + 1
                   in if childnodeno < NodesPerPage B \<and> nodes ! childnodeno \<ge> minvalue
                      then search_descend B nodes minvalue childnodeno
                      else None
      else Some nodeno)"
  by pat_completeness auto
termination
  by (relation "measure (\<lambda>(B, nodes, minvalue, nodeno). NonLeafNodesPerPage B - nodeno)") (auto simp: leftchild_def Let_def)

text \<open>
  The whole routine. \<open>fuel\<close> bounds the passes of \<^verbatim>\<open>goto restart\<close>; \<open>None\<close> is a routine that has not returned
  yet. The slot is a \<^verbatim>\<open>uint16\<close>.
\<close>

definition search_target :: "nat \<Rightarrow> FSMPageData \<Rightarrow> nat" where
  "search_target B page =
     (let target = fp_next_slot page
      in (if target < 0 \<or> target \<ge> int (LeafNodesPerPage B) then 0 else nat target) + NonLeafNodesPerPage B)"

fun fsm_search_avail :: "nat \<Rightarrow> nat \<Rightarrow> FSMPageData \<Rightarrow> uint8 \<Rightarrow> bool \<Rightarrow> (int \<times> FSMPageData) option" where
  "fsm_search_avail B 0 page minvalue advancenext = None"
| "fsm_search_avail B (Suc fuel) page minvalue advancenext =
     (if fp_nodes page ! 0 < minvalue then Some (-1, page)
      else case search_descend B (fp_nodes page) minvalue
                  (search_climb (fp_nodes page) minvalue (search_target B page)) of
             None \<Rightarrow> fsm_search_avail B fuel (snd (fsm_rebuild_page B page)) minvalue advancenext
           | Some nodeno \<Rightarrow>
               (let slot = (nodeno - NonLeafNodesPerPage B) mod 2 ^ 16
                in Some (int slot, page\<lparr>fp_next_slot := int slot + (if advancenext then 1 else 0)\<rparr>)))"

definition fsm_truncate_avail :: "nat \<Rightarrow> FSMPageData \<Rightarrow> nat \<Rightarrow> bool \<times> FSMPageData" where
  "fsm_truncate_avail B page nslots =
     (let first = NonLeafNodesPerPage B + nslots;
          changed = list_ex (\<lambda>i. fp_nodes page ! i \<noteq> 0) [first..<NodesPerPage B];
          page = page\<lparr>fp_nodes := for_upd (\<lambda>i v. 0) first (NodesPerPage B) (fp_nodes page)\<rparr>
      in (changed, if changed then snd (fsm_rebuild_page B page) else page))"

declare set_avail_loop.simps [simp del] search_climb.simps [simp del] search_descend.simps [simp del]

section \<open>The tree\<close>

text \<open>The block sizes that \<^verbatim>\<open>configure\<close> accepts.\<close>

definition valid_blcksz :: "nat \<Rightarrow> bool" where
  "valid_blcksz B = (B \<in> {1024, 2048, 4096, 8192, 16384, 32768})"

definition fsm_wf :: "nat \<Rightarrow> FSMPageData \<Rightarrow> bool" where
  "fsm_wf B page \<longleftrightarrow> length (fp_nodes page) = NodesPerPage B"

definition fsm_ok :: "nat \<Rightarrow> FSMPageData \<Rightarrow> bool" where
  "fsm_ok B page \<longleftrightarrow> fsm_wf B page \<and>
     (\<forall>i < NonLeafNodesPerPage B. fp_nodes page ! i = child_max B (fp_nodes page) i)"

lemma valid_blcksz_ge: "valid_blcksz B \<Longrightarrow> 1024 \<le> B \<and> B \<le> 32768"
  by (auto simp: valid_blcksz_def)

lemma valid_blcksz_bounds:
  assumes "valid_blcksz B"
  shows "0 < NonLeafNodesPerPage B" "NonLeafNodesPerPage B < NodesPerPage B"
    "NodesPerPage B \<le> 2 * NonLeafNodesPerPage B + 1" "LeafNodesPerPage B \<le> 2 ^ 16"
  using valid_blcksz_ge [OF assms] by (auto simp: NonLeafNodesPerPage_def NodesPerPage_def LeafNodesPerPage_def)


lemma valid_blcksz_strict: "valid_blcksz B \<Longrightarrow> NodesPerPage B < 2 * NonLeafNodesPerPage B"
  using valid_blcksz_ge [of B] by (auto simp: NonLeafNodesPerPage_def NodesPerPage_def valid_blcksz_def)

lemma child_max_cong:
  assumes "\<And>j. i < j \<Longrightarrow> j < NodesPerPage B \<Longrightarrow> xs ! j = ys ! j"
  shows "child_max B xs i = child_max B ys i"
  using assms [of "leftchild i"] assms [of "leftchild i + 1"] by (simp add: child_max_def leftchild_def Let_def)

lemma child_max_update_low: "j \<le> i \<Longrightarrow> child_max B (xs[j := v]) i = child_max B xs i"
  by (rule child_max_cong) simp

subsection \<open>Rebuilding\<close>

definition ok_from :: "nat \<Rightarrow> nat \<Rightarrow> uint8 list \<Rightarrow> bool" where
  "ok_from B k nodes \<longleftrightarrow> (\<forall>i. k \<le> i \<and> i < NonLeafNodesPerPage B \<longrightarrow> nodes ! i = child_max B nodes i)"

lemma rebuild_step_nodes:
  "snd (rebuild_step B k (c, nodes)) = nodes[k := child_max B nodes k]"
  using list_update_id [of nodes k] by (cases "nodes ! k = child_max B nodes k") (simp_all add: rebuild_step_def Let_def)

lemma rebuild_step_changed:
  assumes "k < length nodes"
  shows "fst (rebuild_step B k (c, nodes)) \<longleftrightarrow> c \<or> nodes[k := child_max B nodes k] \<noteq> nodes"
  using list_update_same_conv [OF assms, of "child_max B nodes k"] list_update_id [of nodes k]
  by (cases "nodes ! k = child_max B nodes k") (simp_all add: rebuild_step_def Let_def)

lemma rebuild_fold:
  assumes "k \<le> NonLeafNodesPerPage B" "NonLeafNodesPerPage B \<le> length nodes" "ok_from B k nodes"
    and "fold (rebuild_step B) (rev [0..<k]) (c, nodes) = (c', nodes')"
  shows "length nodes' = length nodes \<and> ok_from B 0 nodes' \<and> (\<forall>i \<ge> k. nodes' ! i = nodes ! i)
         \<and> (c' \<longleftrightarrow> c \<or> nodes' \<noteq> nodes)"
  using assms
proof (induction k arbitrary: c nodes)
  case 0
  then show ?case by auto
next
  case (Suc k)
  define v where "v = child_max B nodes k"
  obtain c1 where step: "rebuild_step B k (c, nodes) = (c1, nodes[k := v])" and c1: "c1 \<longleftrightarrow> c \<or> nodes[k := v] \<noteq> nodes"
    using rebuild_step_nodes [of B k c nodes] rebuild_step_changed [of k nodes B c] Suc.prems
    by (cases "rebuild_step B k (c, nodes)") (auto simp: v_def)
  have ok: "ok_from B k (nodes[k := v])"
    unfolding ok_from_def
  proof (intro allI impI)
    fix i assume i: "k \<le> i \<and> i < NonLeafNodesPerPage B"
    show "nodes[k := v] ! i = child_max B (nodes[k := v]) i"
      using i Suc.prems(2,3) by (cases "i = k") (auto simp: child_max_update_low v_def ok_from_def)
  qed
  have rest: "fold (rebuild_step B) (rev [0..<k]) (c1, nodes[k := v]) = (c', nodes')"
    using Suc.prems(4) step by simp
  have IH: "length nodes' = length nodes \<and> ok_from B 0 nodes' \<and> (\<forall>i \<ge> k. nodes' ! i = nodes[k := v] ! i)
         \<and> (c' \<longleftrightarrow> c1 \<or> nodes' \<noteq> nodes[k := v])"
    using Suc.IH [OF _ _ ok rest] Suc.prems by simp
  have "nodes' \<noteq> nodes" if "nodes[k := v] \<noteq> nodes"
  proof -
    have "nodes' ! k = v" using IH Suc.prems by auto
    moreover have "nodes ! k \<noteq> v" using that by auto
    ultimately show ?thesis by auto
  qed
  then show ?case using IH c1 by auto
qed

lemma fsm_rebuild_page_spec:
  assumes B: "valid_blcksz B" and wf: "fsm_wf B page" and r: "fsm_rebuild_page B page = (changed, page')"
  shows "fsm_ok B page'" "fp_next_slot page' = fp_next_slot page"
    "\<And>i. NonLeafNodesPerPage B \<le> i \<Longrightarrow> fp_nodes page' ! i = fp_nodes page ! i"
    "changed \<longleftrightarrow> page' \<noteq> page"
proof -
  obtain nodes' where f: "fold (rebuild_step B) (rev [0..<NonLeafNodesPerPage B]) (False, fp_nodes page) = (changed, nodes')"
    and p: "page' = page\<lparr>fp_nodes := nodes'\<rparr>"
    using r by (auto simp: fsm_rebuild_page_def Let_def split: prod.splits)
  have "length nodes' = length (fp_nodes page) \<and> ok_from B 0 nodes' \<and>
      (\<forall>i \<ge> NonLeafNodesPerPage B. nodes' ! i = fp_nodes page ! i) \<and> (changed \<longleftrightarrow> False \<or> nodes' \<noteq> fp_nodes page)"
    using wf valid_blcksz_bounds(2) [OF B] by (intro rebuild_fold [OF _ _ _ f]) (auto simp: fsm_wf_def ok_from_def)
  moreover have "page\<lparr>fp_nodes := nodes'\<rparr> \<noteq> page \<longleftrightarrow> nodes' \<noteq> fp_nodes page"
    by (cases page) auto
  ultimately show "fsm_ok B page'" "fp_next_slot page' = fp_next_slot page"
    "\<And>i. NonLeafNodesPerPage B \<le> i \<Longrightarrow> fp_nodes page' ! i = fp_nodes page ! i" "changed \<longleftrightarrow> page' \<noteq> page"
    using wf p by (auto simp: fsm_ok_def fsm_wf_def ok_from_def)
qed

lemma fsm_rebuild_page_simps:
  assumes "valid_blcksz B" "fsm_wf B page"
  shows "fsm_ok B (snd (fsm_rebuild_page B page))"
    "NonLeafNodesPerPage B \<le> i \<Longrightarrow> fp_nodes (snd (fsm_rebuild_page B page)) ! i = fp_nodes page ! i"
    "fp_next_slot (snd (fsm_rebuild_page B page)) = fp_next_slot page"
    "fst (fsm_rebuild_page B page) \<longleftrightarrow> snd (fsm_rebuild_page B page) \<noteq> page"
  using fsm_rebuild_page_spec [OF assms, of "fst (fsm_rebuild_page B page)" "snd (fsm_rebuild_page B page)"]
  by simp_all

text \<open>A page with the tree property is determined by its slots.\<close>

lemma ok_unique:
  assumes "fsm_ok B p" "fsm_ok B q" and leaves: "\<And>i. NonLeafNodesPerPage B \<le> i \<Longrightarrow> i < NodesPerPage B \<Longrightarrow> fp_nodes p ! i = fp_nodes q ! i"
  shows "fp_nodes p = fp_nodes q"
proof -
  have "i < NodesPerPage B \<Longrightarrow> fp_nodes p ! i = fp_nodes q ! i" for i
  proof (induction "NonLeafNodesPerPage B - i" arbitrary: i rule: less_induct)
    case less
    show ?case
    proof (cases "i < NonLeafNodesPerPage B")
      case True
      have "child_max B (fp_nodes p) i = child_max B (fp_nodes q) i"
      proof (rule child_max_cong)
        fix j assume "i < j" "j < NodesPerPage B"
        then show "fp_nodes p ! j = fp_nodes q ! j"
          using less.hyps [of j] True leaves [of j] by (cases "j < NonLeafNodesPerPage B") auto
      qed
      then show ?thesis using assms True by (simp add: fsm_ok_def)
    next
      case False
      then show ?thesis using leaves less.prems by simp
    qed
  qed
  then show ?thesis using assms by (auto simp: fsm_ok_def fsm_wf_def intro: nth_equalityI)
qed

lemma fsm_rebuild_page_ok:
  assumes "valid_blcksz B" "fsm_ok B page"
  shows "fsm_rebuild_page B page = (False, page)"
proof -
  have wf: "fsm_wf B page" using assms by (simp add: fsm_ok_def)
  have "fp_nodes (snd (fsm_rebuild_page B page)) = fp_nodes page"
    using fsm_rebuild_page_simps [OF assms(1) wf] assms by (intro ok_unique) auto
  then have "snd (fsm_rebuild_page B page) = page"
    using fsm_rebuild_page_simps(3) [OF assms(1) wf] by (cases page; cases "snd (fsm_rebuild_page B page)") simp
  then show ?thesis using fsm_rebuild_page_simps(4) [OF assms(1) wf] by (simp add: prod_eq_iff)
qed

subsection \<open>The root\<close>

text \<open>Every node of a good tree is at least each of its descendants' values; the root is attained at a slot.\<close>

lemma child_max_ge:
  assumes "0 < i" "i < NodesPerPage B"
  shows "xs ! i \<le> child_max B xs (parentof i)"
proof -
  have "i = leftchild (parentof i) \<or> i = leftchild (parentof i) + 1"
    using assms by (auto simp: leftchild_def parentof_def)
  then show ?thesis using assms by (auto simp: child_max_def Let_def)
qed

lemma fsm_ok_root_ge:
  assumes "valid_blcksz B" "fsm_ok B page" "i < NodesPerPage B"
  shows "fp_nodes page ! i \<le> fsm_get_max_avail page"
  using assms(3)
proof (induction i rule: less_induct)
  case (less i)
  show ?case
  proof (cases "i = 0")
    case False
    have p: "parentof i < i" "parentof i < NonLeafNodesPerPage B"
      using False less.prems valid_blcksz_strict [OF assms(1)] by (auto simp: parentof_def)
    have "fp_nodes page ! i \<le> fp_nodes page ! parentof i"
      using child_max_ge [of i B "fp_nodes page"] False less.prems assms(2) p by (simp add: fsm_ok_def)
    also have "\<dots> \<le> fsm_get_max_avail page" using less p by simp
    finally show ?thesis .
  qed (simp add: fsm_get_max_avail_def)
qed

subsection \<open>Storing a slot\<close>

lemma length_set_avail_loop [simp]: "length (set_avail_loop B nodes n) = length nodes"
  by (induction B nodes n rule: set_avail_loop.induct) (subst set_avail_loop.simps, simp add: Let_def)

definition ok_except :: "nat \<Rightarrow> nat \<Rightarrow> uint8 list \<Rightarrow> bool" where
  "ok_except B k nodes \<longleftrightarrow> (\<forall>i < NonLeafNodesPerPage B. i \<noteq> k \<longrightarrow> nodes ! i = child_max B nodes i)"

lemma child_max_update_other:
  "0 < n \<Longrightarrow> i \<noteq> parentof n \<Longrightarrow> child_max B (xs[n := v]) i = child_max B xs i"
  by (auto simp: child_max_def Let_def leftchild_def parentof_def nth_list_update)

lemma child_max_update_0: "child_max B (xs[0 := v]) i = child_max B xs i"
  by (simp add: child_max_def Let_def leftchild_def)

lemma parentof_node:
  assumes "valid_blcksz B" "0 < n" "n < NodesPerPage B"
  shows "parentof n < n" "parentof n < NonLeafNodesPerPage B" "parentof n < NodesPerPage B"
    "leftchild (parentof n) < NodesPerPage B"
  using assms(2,3) valid_blcksz_strict [OF assms(1)] by (auto simp: parentof_def leftchild_def)

lemma set_avail_loop_eq:
  assumes "valid_blcksz B" "0 < n" "n < NodesPerPage B"
  shows "set_avail_loop B nodes n =
    (let p = parentof n; v = child_max B nodes p
     in if nodes ! p = v then nodes else if p > 0 then set_avail_loop B (nodes[p := v]) p else nodes[p := v])"
  using parentof_node(4) [OF assms] by (subst set_avail_loop.simps) (simp only: Let_def child_max_def if_True)

lemma set_avail_loop_leaf:
  assumes "valid_blcksz B" "0 < n" "n < NodesPerPage B" "NonLeafNodesPerPage B \<le> i"
  shows "set_avail_loop B nodes n ! i = nodes ! i"
  using assms(2,3)
proof (induction n arbitrary: nodes rule: less_induct)
  case (less n)
  note p = parentof_node [OF assms(1) less.prems]
  then show ?case
    using less.IH [OF p(1) _ p(3)] assms(4) by (subst set_avail_loop_eq [OF assms(1) less.prems]) (simp add: Let_def)
qed

lemma set_avail_loop_ok:
  assumes "valid_blcksz B" "0 < n" "n < NodesPerPage B" "ok_except B (parentof n) nodes" "length nodes = NodesPerPage B"
  shows "ok_from B 0 (set_avail_loop B nodes n)"
  using assms(2-)
proof (induction n arbitrary: nodes rule: less_induct)
  case (less n)
  define p where "p = parentof n"
  define v where "v = child_max B nodes p"
  note p = parentof_node [OF assms(1) less.prems(1,2), folded p_def]
  have eq: "set_avail_loop B nodes n =
    (if nodes ! p = v then nodes else if p > 0 then set_avail_loop B (nodes[p := v]) p else nodes[p := v])"
    using set_avail_loop_eq [OF assms(1) less.prems(1,2)] by (simp add: Let_def p_def v_def)
  have others: "nodes ! i = child_max B nodes i" if "i < NonLeafNodesPerPage B" "i \<noteq> p" for i
    using less.prems(3) that by (simp add: ok_except_def p_def)
  have up: "ok_except B (parentof p) (nodes[p := v])" if "0 < p"
    unfolding ok_except_def
  proof (intro allI impI)
    fix i assume i: "i < NonLeafNodesPerPage B" "i \<noteq> parentof p"
    show "nodes[p := v] ! i = child_max B (nodes[p := v]) i"
      using i others [of i] p less.prems(4) child_max_update_other [OF that i(2), of B nodes v]
      by (cases "i = p") (simp_all add: v_def)
  qed
  have root: "ok_from B 0 (nodes[p := v])" if "p = 0"
    unfolding ok_from_def
  proof (intro allI impI)
    fix i assume i: "0 \<le> i \<and> i < NonLeafNodesPerPage B"
    show "nodes[p := v] ! i = child_max B (nodes[p := v]) i"
      using i others [of i] p less.prems(4) that by (cases "i = p") (simp_all add: v_def child_max_update_0)
  qed
  show ?case
  proof (cases "nodes ! p = v")
    case True
    then have "ok_from B 0 nodes" using others by (auto simp: ok_from_def v_def)
    then show ?thesis using eq True by simp
  next
    case False
    then show ?thesis
      using less.IH [OF p(1) _ p(3) up] less.prems(4) eq root by (cases "p = 0") simp_all
  qed
qed

lemma fsm_set_avail_wf:
  assumes "valid_blcksz B" "fsm_wf B page"
  shows "fsm_wf B (snd (fsm_set_avail B page slot v))"
proof -
  have "fsm_wf B (page\<lparr>fp_nodes := set_avail_loop B ((fp_nodes page)[n := v]) n\<rparr>)" for n
    using assms by (simp add: fsm_wf_def)
  then show ?thesis
    using assms fsm_rebuild_page_simps(1) [OF assms(1)]
    by (auto simp: fsm_set_avail_def Let_def fsm_ok_def)
qed

text \<open>Any well-formed page, torn or not: the slot gets the value and no other slot changes.\<close>

lemma fsm_get_set_avail:
  assumes "valid_blcksz B" "fsm_wf B page" "slot < LeafNodesPerPage B" "i < LeafNodesPerPage B"
  shows "fsm_get_avail B (snd (fsm_set_avail B page slot v)) i = (if i = slot then v else fsm_get_avail B page i)"
proof -
  define n where "n = NonLeafNodesPerPage B + slot"
  define q where "q = page\<lparr>fp_nodes := set_avail_loop B ((fp_nodes page)[n := v]) n\<rparr>"
  have n: "0 < n" "n < NodesPerPage B"
    using assms(3) valid_blcksz_bounds(1,2) [OF assms(1)] by (auto simp: n_def LeafNodesPerPage_def)
  have q: "fsm_wf B q" using assms by (simp add: q_def fsm_wf_def)
  have leaf: "fp_nodes q ! (NonLeafNodesPerPage B + i) = (if i = slot then v else fsm_get_avail B page i)"
    using set_avail_loop_leaf [OF assms(1) n, of "NonLeafNodesPerPage B + i" "(fp_nodes page)[n := v]"] assms(2,4) n
    by (auto simp: q_def n_def fsm_wf_def fsm_get_avail_def)
  show ?thesis
    using leaf fsm_rebuild_page_simps(2) [OF assms(1) q, of "NonLeafNodesPerPage B + i"]
    by (auto simp: fsm_set_avail_def Let_def n_def [symmetric] q_def [symmetric] fsm_get_avail_def)
qed

lemma store_leaf_ok_except:
  "fsm_ok B page \<Longrightarrow> NonLeafNodesPerPage B \<le> n \<Longrightarrow> 0 < n \<Longrightarrow> ok_except B (parentof n) ((fp_nodes page)[n := v])"
  by (auto simp: fsm_ok_def ok_except_def child_max_update_other)

lemma fsm_set_avail_ok:
  assumes "valid_blcksz B" "fsm_ok B page" "slot < LeafNodesPerPage B"
  shows "fsm_ok B (snd (fsm_set_avail B page slot v))"
proof -
  define n where "n = NonLeafNodesPerPage B + slot"
  define q where "q = page\<lparr>fp_nodes := set_avail_loop B ((fp_nodes page)[n := v]) n\<rparr>"
  have n: "0 < n" "n < NodesPerPage B"
    using assms(3) valid_blcksz_bounds(1,2) [OF assms(1)] by (auto simp: n_def LeafNodesPerPage_def)
  have len: "length (fp_nodes page) = NodesPerPage B" using assms by (simp add: fsm_ok_def fsm_wf_def)
  have "ok_from B 0 (set_avail_loop B ((fp_nodes page)[n := v]) n)"
    using store_leaf_ok_except [OF assms(2)] n len by (intro set_avail_loop_ok [OF assms(1) n]) (auto simp: n_def)
  then have "fsm_ok B q" using len by (simp add: q_def fsm_ok_def fsm_wf_def ok_from_def)
  then show ?thesis
    using assms fsm_rebuild_page_ok [OF assms(1), of q]
    by (simp add: fsm_set_avail_def Let_def n_def [symmetric] q_def [symmetric])
qed

text \<open>The incremental update is the reference one: store the leaf, then rebuild the whole tree.\<close>

lemma fsm_set_avail_eq_rebuild:
  assumes "valid_blcksz B" "fsm_ok B page" "slot < LeafNodesPerPage B"
  shows "snd (fsm_set_avail B page slot v) =
         snd (fsm_rebuild_page B (page\<lparr>fp_nodes := (fp_nodes page)[NonLeafNodesPerPage B + slot := v]\<rparr>))"
proof -
  define r where "r = page\<lparr>fp_nodes := (fp_nodes page)[NonLeafNodesPerPage B + slot := v]\<rparr>"
  have wf: "fsm_wf B page" "fsm_wf B r" using assms(2) by (auto simp: fsm_ok_def fsm_wf_def r_def)
  have next_slot: "fp_next_slot (snd (fsm_set_avail B page slot v)) = fp_next_slot (snd (fsm_rebuild_page B r))"
    using fsm_rebuild_page_simps(3) [OF assms(1)] wf
    by (auto simp: fsm_set_avail_def Let_def r_def fsm_wf_def)
  have "fp_nodes (snd (fsm_set_avail B page slot v)) ! i = fp_nodes (snd (fsm_rebuild_page B r)) ! i"
    if "NonLeafNodesPerPage B \<le> i" "i < NodesPerPage B" for i
  proof -
    have "i - NonLeafNodesPerPage B < LeafNodesPerPage B" using that by (simp add: LeafNodesPerPage_def)
    then show ?thesis
      using fsm_get_set_avail [OF assms(1) wf(1) assms(3), of "i - NonLeafNodesPerPage B" v] that
        fsm_rebuild_page_simps(2) [OF assms(1) wf(2) that(1)] wf
      by (auto simp: fsm_get_avail_def r_def fsm_wf_def)
  qed
  then have "fp_nodes (snd (fsm_set_avail B page slot v)) = fp_nodes (snd (fsm_rebuild_page B r))"
    by (intro ok_unique [OF fsm_set_avail_ok [OF assms] fsm_rebuild_page_simps(1) [OF assms(1) wf(2)]])
  then show ?thesis using next_slot by (simp add: r_def [symmetric])
qed

lemma fsm_set_avail_changed:
  assumes "valid_blcksz B" "fsm_ok B page" "slot < LeafNodesPerPage B"
  shows "fst (fsm_set_avail B page slot v) \<longleftrightarrow> snd (fsm_set_avail B page slot v) \<noteq> page"
proof -
  have wf: "fsm_wf B page" using assms by (simp add: fsm_ok_def)
  have root: "fsm_get_avail B page slot \<le> fp_nodes page ! 0"
    using fsm_ok_root_ge [OF assms(1,2), of "NonLeafNodesPerPage B + slot"] assms(3)
    by (simp add: fsm_get_max_avail_def fsm_get_avail_def LeafNodesPerPage_def)
  have "snd (fsm_set_avail B page slot v) = page" if "fsm_get_avail B page slot = v"
    using that root by (simp add: fsm_set_avail_def Let_def fsm_get_avail_def)
  moreover have "snd (fsm_set_avail B page slot v) \<noteq> page" if "fsm_get_avail B page slot \<noteq> v"
    using fsm_get_set_avail [OF assms(1) wf assms(3) assms(3), of v] that by auto
  moreover have "fst (fsm_set_avail B page slot v) \<longleftrightarrow> fsm_get_avail B page slot \<noteq> v"
    using root by (auto simp: fsm_set_avail_def Let_def fsm_get_avail_def)
  ultimately show ?thesis by auto
qed

subsection \<open>Searching\<close>

lemma search_descend_leaf:
  "search_descend B nodes m n = Some r \<Longrightarrow> n < NodesPerPage B \<Longrightarrow>
   (n < NonLeafNodesPerPage B \<or> m \<le> nodes ! n) \<Longrightarrow>
   NonLeafNodesPerPage B \<le> r \<and> r < NodesPerPage B \<and> m \<le> nodes ! r"
proof (induction B nodes m n rule: search_descend.induct)
  case (1 B nodes m n)
  show ?case
    using 1 by (auto simp: search_descend.simps [of B nodes m n] Let_def split: if_splits)
qed

lemma search_climb_node:
  assumes "valid_blcksz B" "n < NodesPerPage B"
  shows "search_climb nodes m n < NodesPerPage B \<and> (search_climb nodes m n = 0 \<or> m \<le> nodes ! search_climb nodes m n)"
  using assms(2)
proof (induction n rule: less_induct)
  case (less n)
  have "parentof (rightneighbor n) < n" if "0 < n"
    using that by (auto simp: parentof_def rightneighbor_def Let_def)
  then show ?case using less by (subst (1 2 3) search_climb.simps) auto
qed

lemma search_target_leaf:
  assumes "valid_blcksz B"
  shows "NonLeafNodesPerPage B \<le> search_target B page" "search_target B page < NodesPerPage B"
  using valid_blcksz_bounds(2) [OF assms] by (auto simp: search_target_def Let_def LeafNodesPerPage_def)

lemma search_descend_ok:
  assumes "fsm_ok B page" "0 < m" "m \<le> fp_nodes page ! n"
  shows "\<exists>r. search_descend B (fp_nodes page) m n = Some r"
  using assms(3)
proof (induction "NonLeafNodesPerPage B - n" arbitrary: n rule: less_induct)
  case less
  have "n < leftchild n" by (simp add: leftchild_def)
  have "m \<le> child_max B (fp_nodes page) n" if "n < NonLeafNodesPerPage B"
    using assms(1) less.prems that by (simp add: fsm_ok_def)
  then have "leftchild n < NodesPerPage B \<and> m \<le> fp_nodes page ! leftchild n \<or>
      leftchild n + 1 < NodesPerPage B \<and> m \<le> fp_nodes page ! (leftchild n + 1)" if "n < NonLeafNodesPerPage B"
    using that assms(2) by (auto simp: child_max_def Let_def le_max_iff_disj split: if_splits)
  then show ?case
    using less.hyps [of "leftchild n"] less.hyps [of "leftchild n + 1"] \<open>n < leftchild n\<close>
    by (subst search_descend.simps) (auto simp: Let_def)
qed

text \<open>One pass of the search: what it finds is a slot with enough space; on a good tree it does not fail.\<close>

definition search_pass :: "nat \<Rightarrow> FSMPageData \<Rightarrow> uint8 \<Rightarrow> nat option" where
  "search_pass B page m = search_descend B (fp_nodes page) m (search_climb (fp_nodes page) m (search_target B page))"

lemma search_pass_sound:
  assumes "valid_blcksz B" "search_pass B page m = Some r"
  shows "NonLeafNodesPerPage B \<le> r" "r < NodesPerPage B" "m \<le> fp_nodes page ! r"
proof -
  define c where "c = search_climb (fp_nodes page) m (search_target B page)"
  have "c < NodesPerPage B \<and> (c = 0 \<or> m \<le> fp_nodes page ! c)"
    using search_climb_node [OF assms(1) search_target_leaf(2) [OF assms(1)]] by (simp add: c_def)
  then show "NonLeafNodesPerPage B \<le> r" "r < NodesPerPage B" "m \<le> fp_nodes page ! r"
    using search_descend_leaf [of B "fp_nodes page" m c r] assms(2) valid_blcksz_bounds(1) [OF assms(1)]
    by (auto simp: search_pass_def c_def)
qed

lemma search_pass_ok:
  assumes "valid_blcksz B" "fsm_ok B page" "m \<le> fp_nodes page ! 0"
  shows "\<exists>r. search_pass B page m = Some r"
proof (cases "m = 0")
  case True
  note t = search_target_leaf [OF assms(1), of page]
  then have "search_climb (fp_nodes page) m (search_target B page) = search_target B page"
    using True by (subst search_climb.simps) simp
  then show ?thesis using t by (simp add: search_pass_def search_descend.simps)
next
  case False
  define c where "c = search_climb (fp_nodes page) m (search_target B page)"
  have "c = 0 \<or> m \<le> fp_nodes page ! c"
    using search_climb_node [OF assms(1) search_target_leaf(2) [OF assms(1)]] by (simp add: c_def)
  then show ?thesis
    using search_descend_ok [OF assms(2), of m c] False assms(3) by (auto simp: search_pass_def c_def word_neq_0_conv)
qed

lemma slot_number:
  assumes "valid_blcksz B" "NonLeafNodesPerPage B \<le> r" "r < NodesPerPage B"
  shows "(r - NonLeafNodesPerPage B) mod 2 ^ 16 = r - NonLeafNodesPerPage B" "r - NonLeafNodesPerPage B < LeafNodesPerPage B"
  using assms valid_blcksz_bounds(4) [OF assms(1)] by (auto simp: LeafNodesPerPage_def)

lemma fsm_search_avail_Suc:
  "fsm_search_avail B (Suc fuel) page m adv =
     (if fp_nodes page ! 0 < m then Some (-1, page)
      else case search_pass B page m of
             None \<Rightarrow> fsm_search_avail B fuel (snd (fsm_rebuild_page B page)) m adv
           | Some nodeno \<Rightarrow>
               (let slot = (nodeno - NonLeafNodesPerPage B) mod 2 ^ 16
                in Some (int slot, page\<lparr>fp_next_slot := int slot + (if adv then 1 else 0)\<rparr>)))"
  by (simp add: search_pass_def)

text \<open>Two passes are enough on any page, torn or not.\<close>

lemma fsm_search_avail_returns:
  assumes "valid_blcksz B" "fsm_wf B page"
  shows "fsm_search_avail B (Suc (Suc fuel)) page m adv = fsm_search_avail B 2 page m adv"
    "\<exists>r. fsm_search_avail B 2 page m adv = Some r"
proof -
  define q where "q = snd (fsm_rebuild_page B page)"
  have q: "fsm_ok B q" using fsm_rebuild_page_simps(1) [OF assms] by (simp add: q_def)
  have one: "fsm_search_avail B (Suc k) q m adv = fsm_search_avail B (Suc 0) q m adv"
    "\<exists>r. fsm_search_avail B (Suc k) q m adv = Some r" for k
  proof -
    obtain n where "\<not> fp_nodes q ! 0 < m \<Longrightarrow> search_pass B q m = Some n"
      using search_pass_ok [OF assms(1) q, of m] by (auto simp: not_less)
    then show "fsm_search_avail B (Suc k) q m adv = fsm_search_avail B (Suc 0) q m adv"
      "\<exists>r. fsm_search_avail B (Suc k) q m adv = Some r"
      unfolding fsm_search_avail_Suc by (simp_all add: Let_def)
  qed
  have two: "fsm_search_avail B 2 page m adv = fsm_search_avail B (Suc (Suc 0)) page m adv" by (simp add: numeral_2_eq_2)
  show "fsm_search_avail B (Suc (Suc fuel)) page m adv = fsm_search_avail B 2 page m adv"
    unfolding two fsm_search_avail_Suc [of B "Suc _"] q_def [symmetric] one(1) [of fuel] ..
  show "\<exists>r. fsm_search_avail B 2 page m adv = Some r"
    unfolding two fsm_search_avail_Suc [of B "Suc _"] q_def [symmetric]
    using one(2) [of 0] by (cases "search_pass B page m") (simp_all add: Let_def del: fsm_search_avail.simps(2))
qed

text \<open>What a search keeps, finds and says, for any fuel with which it returns.\<close>

definition same_slots :: "nat \<Rightarrow> FSMPageData \<Rightarrow> FSMPageData \<Rightarrow> bool" where
  "same_slots B p q \<longleftrightarrow> (\<forall>i < LeafNodesPerPage B. fsm_get_avail B p i = fsm_get_avail B q i)"

lemma rebuild_same_slots:
  "valid_blcksz B \<Longrightarrow> fsm_wf B page \<Longrightarrow> same_slots B (snd (fsm_rebuild_page B page)) page"
  using fsm_rebuild_page_simps(2) by (simp add: same_slots_def fsm_get_avail_def)

lemma fsm_search_avail_spec:
  assumes "valid_blcksz B" "fsm_wf B page" "fsm_search_avail B fuel page m adv = Some (r, page')"
  shows "fsm_wf B page' \<and> (fsm_ok B page \<longrightarrow> fsm_ok B page') \<and> same_slots B page' page \<and>
    (r = -1 \<and> fsm_get_max_avail page' < m \<or>
     (0 \<le> r \<and> nat r < LeafNodesPerPage B \<and> m \<le> fsm_get_avail B page (nat r) \<and>
      fp_next_slot page' = r + (if adv then 1 else 0)))"
  using assms(2,3)
proof (induction fuel arbitrary: page)
  case (Suc fuel)
  consider (low) "fp_nodes page ! 0 < m" | (torn) "\<not> fp_nodes page ! 0 < m" "search_pass B page m = None"
    | (found) n where "\<not> fp_nodes page ! 0 < m" "search_pass B page m = Some n"
    by (cases "search_pass B page m") auto
  then show ?case
  proof cases
    case low
    then show ?thesis using Suc.prems by (auto simp: fsm_get_max_avail_def same_slots_def)
  next
    case torn
    define q where "q = snd (fsm_rebuild_page B page)"
    have q: "fsm_ok B q" "same_slots B q page"
      using fsm_rebuild_page_simps(1) rebuild_same_slots assms(1) Suc.prems(1) by (auto simp: q_def)
    have "fsm_wf B q" using q by (simp add: fsm_ok_def)
    moreover have "fsm_search_avail B fuel q m adv = Some (r, page')"
      using torn Suc.prems(2) by (simp add: fsm_search_avail_Suc q_def del: fsm_search_avail.simps(2))
    ultimately show ?thesis using Suc.IH [of q] q by (auto simp: same_slots_def)
  next
    case (found n)
    note s = search_pass_sound [OF assms(1) found(2)]
    note sn = slot_number [OF assms(1) s(1,2)]
    have "r = int (n - NonLeafNodesPerPage B)" and "nat r = n - NonLeafNodesPerPage B" and "page' = page\<lparr>fp_next_slot := r + (if adv then 1 else 0)\<rparr>"
      using found Suc.prems(2) sn(1) by (auto simp: fsm_search_avail_Suc Let_def simp del: fsm_search_avail.simps(2))
    moreover have "fp_nodes page' = fp_nodes page" using \<open>page' = _\<close> by simp
    ultimately show ?thesis using Suc.prems(1) s sn(2)
      by (simp add: fsm_wf_def fsm_ok_def same_slots_def fsm_get_avail_def)
  qed
qed simp

lemma fsm_search_avail_none_iff:
  assumes "valid_blcksz B" "fsm_ok B page" "fsm_search_avail B fuel page m adv = Some (r, page')"
  shows "r = -1 \<longleftrightarrow> (\<forall>i < LeafNodesPerPage B. fsm_get_avail B page i < m)"
proof -
  have wf: "fsm_wf B page" using assms(2) by (simp add: fsm_ok_def)
  note spec = fsm_search_avail_spec [OF assms(1) wf assms(3)]
  have le: "fsm_get_avail B page i \<le> fsm_get_max_avail page'" if "i < LeafNodesPerPage B" for i
  proof -
    have "fsm_get_avail B page' i \<le> fsm_get_max_avail page'"
      using fsm_ok_root_ge [OF assms(1), of page' "NonLeafNodesPerPage B + i"] spec assms(2) that
      by (simp add: fsm_get_avail_def LeafNodesPerPage_def)
    then show ?thesis using spec that by (simp add: same_slots_def)
  qed
  show ?thesis
    using spec le by (force simp: not_le)
qed

text \<open>On a good tree the root is the greatest slot.\<close>

lemma fsm_get_max_avail_eq:
  assumes "valid_blcksz B" "fsm_ok B page"
  shows "fsm_get_max_avail page = Max (fsm_get_avail B page ` {..<LeafNodesPerPage B})"
proof (rule Max_eqI [symmetric])
  show "y \<le> fsm_get_max_avail page" if "y \<in> fsm_get_avail B page ` {..<LeafNodesPerPage B}" for y
    using that fsm_ok_root_ge [OF assms] by (auto simp: fsm_get_avail_def LeafNodesPerPage_def)
  obtain n where n: "search_pass B page (fp_nodes page ! 0) = Some n" using search_pass_ok [OF assms] by blast
  note s = search_pass_sound [OF assms(1) n]
  have "fp_nodes page ! n = fsm_get_max_avail page"
    using s fsm_ok_root_ge [OF assms s(2)] by (simp add: fsm_get_max_avail_def)
  then have "fsm_get_avail B page (n - NonLeafNodesPerPage B) = fsm_get_max_avail page"
    using s by (simp add: fsm_get_avail_def)
  then show "fsm_get_max_avail page \<in> fsm_get_avail B page ` {..<LeafNodesPerPage B}"
    using slot_number(2) [OF assms(1) s(1,2)] by (metis image_eqI lessThan_iff)
qed simp

subsection \<open>Truncation\<close>

lemma fsm_truncate_avail_spec:
  assumes "valid_blcksz B" "fsm_wf B page" "nslots < LeafNodesPerPage B"
  shows "fsm_wf B (snd (fsm_truncate_avail B page nslots))"
    "fsm_ok B page \<Longrightarrow> fsm_ok B (snd (fsm_truncate_avail B page nslots))"
    "i < LeafNodesPerPage B \<Longrightarrow> fsm_get_avail B (snd (fsm_truncate_avail B page nslots)) i =
       (if i < nslots then fsm_get_avail B page i else 0)"
    "fst (fsm_truncate_avail B page nslots) \<longleftrightarrow>
       (\<exists>i. nslots \<le> i \<and> i < LeafNodesPerPage B \<and> fsm_get_avail B page i \<noteq> 0)"
proof -
  define first where "first = NonLeafNodesPerPage B + nslots"
  define ns where "ns = for_upd (\<lambda>i v. 0 :: uint8) first (NodesPerPage B) (fp_nodes page)"
  have len: "length (fp_nodes page) = NodesPerPage B" using assms(2) by (simp add: fsm_wf_def)
  have nth: "ns ! i = (if i < first then fp_nodes page ! i else 0)" if "i < NodesPerPage B" for i
    using that len by (simp add: ns_def nth_for_upd)
  define ch where "ch \<longleftrightarrow> (\<exists>i. first \<le> i \<and> i < NodesPerPage B \<and> fp_nodes page ! i \<noteq> 0)"
  have same: "ns = fp_nodes page" if "\<not> ch"
    using that len nth by (intro nth_equalityI) (auto simp: ch_def ns_def)
  have ch: "list_ex (\<lambda>i. fp_nodes page ! i \<noteq> 0) [first..<NodesPerPage B] = ch"
    by (auto simp: list_ex_iff ch_def)
  have eq: "fsm_truncate_avail B page nslots =
      (ch, if ch then snd (fsm_rebuild_page B (page\<lparr>fp_nodes := ns\<rparr>)) else page)"
    using same by (auto simp: fsm_truncate_avail_def Let_def first_def [symmetric] ns_def [symmetric] ch)
  have wf: "fsm_wf B (page\<lparr>fp_nodes := ns\<rparr>)" using len by (simp add: fsm_wf_def ns_def)
  note rb = fsm_rebuild_page_simps [OF assms(1) wf]
  show "fsm_wf B (snd (fsm_truncate_avail B page nslots))"
    "fsm_ok B page \<Longrightarrow> fsm_ok B (snd (fsm_truncate_avail B page nslots))"
    using rb(1) assms(2) by (auto simp: eq fsm_ok_def)
  show "fsm_get_avail B (snd (fsm_truncate_avail B page nslots)) i = (if i < nslots then fsm_get_avail B page i else 0)"
    if "i < LeafNodesPerPage B"
    using that rb(2) [of "NonLeafNodesPerPage B + i"] nth [of "NonLeafNodesPerPage B + i"]
    by (auto simp: eq fsm_get_avail_def LeafNodesPerPage_def first_def ch_def)
  show "fst (fsm_truncate_avail B page nslots) \<longleftrightarrow>
       (\<exists>i. nslots \<le> i \<and> i < LeafNodesPerPage B \<and> fsm_get_avail B page i \<noteq> 0)"
  proof
    assume "fst (fsm_truncate_avail B page nslots)"
    then obtain i where "first \<le> i" "i < NodesPerPage B" "fp_nodes page ! i \<noteq> 0" by (auto simp: eq ch_def)
    then show "\<exists>i. nslots \<le> i \<and> i < LeafNodesPerPage B \<and> fsm_get_avail B page i \<noteq> 0"
      by (intro exI [of _ "i - NonLeafNodesPerPage B"]) (auto simp: first_def fsm_get_avail_def LeafNodesPerPage_def)
  next
    assume "\<exists>i. nslots \<le> i \<and> i < LeafNodesPerPage B \<and> fsm_get_avail B page i \<noteq> 0"
    then obtain i where "nslots \<le> i" "i < LeafNodesPerPage B" "fsm_get_avail B page i \<noteq> 0" by blast
    then have "first \<le> NonLeafNodesPerPage B + i \<and> NonLeafNodesPerPage B + i < NodesPerPage B \<and>
        fp_nodes page ! (NonLeafNodesPerPage B + i) \<noteq> 0"
      by (auto simp: first_def fsm_get_avail_def LeafNodesPerPage_def)
    then show "fst (fsm_truncate_avail B page nslots)" by (auto simp: eq ch_def)
  qed
qed

subsection \<open>The contract\<close>

definition set_slot :: "nat \<Rightarrow> FSMPageData \<Rightarrow> nat \<Rightarrow> uint8 \<Rightarrow> FSMPageData" where
  "set_slot B page slot v = snd (fsm_set_avail B page slot v)"

text \<open>Two passes of fuel are the routine's worst case (\<open>fsm_search_avail_returns\<close>).\<close>

interpretation fsm_page: slot_page "LeafNodesPerPage B" "\<lambda>p. valid_blcksz B \<and> fsm_wf B p" "\<lambda>p. valid_blcksz B \<and> fsm_ok B p"
    "fsm_get_avail B" "set_slot B" fsm_get_max_avail "fsm_search_avail B 2"
  for B
proof unfold_locales
  fix p q :: FSMPageData and s i :: nat and v m :: uint8 and adv :: bool and r :: int
  show "valid_blcksz B \<and> fsm_wf B p" if "valid_blcksz B \<and> fsm_ok B p"
    using that by (simp add: fsm_ok_def)
  show "valid_blcksz B \<and> fsm_wf B (set_slot B p s v)" if "valid_blcksz B \<and> fsm_wf B p" "s < LeafNodesPerPage B"
    using that by (simp add: set_slot_def fsm_set_avail_wf)
  show "valid_blcksz B \<and> fsm_ok B (set_slot B p s v)" if "valid_blcksz B \<and> fsm_ok B p" "s < LeafNodesPerPage B"
    using that by (simp add: set_slot_def fsm_set_avail_ok)
  show "fsm_get_avail B (set_slot B p s v) i = (if i = s then v else fsm_get_avail B p i)"
    if "valid_blcksz B \<and> fsm_wf B p" "s < LeafNodesPerPage B" "i < LeafNodesPerPage B"
    using that by (simp add: set_slot_def fsm_get_set_avail)
  show "fsm_get_avail B p i \<le> fsm_get_max_avail p" if "valid_blcksz B \<and> fsm_ok B p" "i < LeafNodesPerPage B"
    using that fsm_ok_root_ge [of B p "NonLeafNodesPerPage B + i"] by (simp add: fsm_get_avail_def LeafNodesPerPage_def)
  show "\<exists>i < LeafNodesPerPage B. fsm_get_avail B p i = fsm_get_max_avail p" if "valid_blcksz B \<and> fsm_ok B p"
  proof -
    have "0 \<in> {..<LeafNodesPerPage B}" using valid_blcksz_bounds(2) [of B] that by (simp add: LeafNodesPerPage_def)
    then have "fsm_get_avail B p ` {..<LeafNodesPerPage B} \<noteq> {}" by blast
    then have "Max (fsm_get_avail B p ` {..<LeafNodesPerPage B}) \<in> fsm_get_avail B p ` {..<LeafNodesPerPage B}"
      by (intro Max_in) simp_all
    then show ?thesis using fsm_get_max_avail_eq [of B p] that by (simp only: image_iff lessThan_iff) auto
  qed
  show "\<exists>r q. fsm_search_avail B 2 p m adv = Some (r, q)" if "valid_blcksz B \<and> fsm_wf B p"
    using that fsm_search_avail_returns(2) [of B p m adv] by auto
  show "(valid_blcksz B \<and> fsm_wf B q) \<and> (valid_blcksz B \<and> fsm_ok B p \<longrightarrow> valid_blcksz B \<and> fsm_ok B q)"
    if "valid_blcksz B \<and> fsm_wf B p" "fsm_search_avail B 2 p m adv = Some (r, q)"
    using that fsm_search_avail_spec [of B p 2 m adv r q] by simp
  show "fsm_get_avail B q i = fsm_get_avail B p i"
    if "valid_blcksz B \<and> fsm_wf B p" "fsm_search_avail B 2 p m adv = Some (r, q)" "i < LeafNodesPerPage B"
    using that fsm_search_avail_spec [of B p 2 m adv r q] by (simp add: same_slots_def)
  show "r = -1 \<or> 0 \<le> r \<and> nat r < LeafNodesPerPage B \<and> m \<le> fsm_get_avail B p (nat r)"
    if "valid_blcksz B \<and> fsm_wf B p" "fsm_search_avail B 2 p m adv = Some (r, q)"
    using that fsm_search_avail_spec [of B p 2 m adv r q] by auto
  show "fsm_get_avail B p i < m"
    if "valid_blcksz B \<and> fsm_ok B p" "fsm_search_avail B 2 p m adv = Some (-1, q)" "i < LeafNodesPerPage B"
    using that fsm_search_avail_none_iff [of B p 2 m adv "-1" q] by simp
qed

section \<open>Properties\<close>

text \<open>
  C24. \<^verbatim>\<open>fsm_rebuild_page\<close> repairs any page, torn or not: afterwards every inner node is the maximum of its children,
  every slot has the value it had, and the flag says whether the page changed.
\<close>

theorem rebuild_page_repairs:
  assumes "valid_blcksz B" "fsm_wf B page"
  shows "fsm_ok B (snd (fsm_rebuild_page B page)) \<and>
         (\<forall>i < LeafNodesPerPage B. fsm_get_avail B (snd (fsm_rebuild_page B page)) i = fsm_get_avail B page i) \<and>
         (fst (fsm_rebuild_page B page) \<longleftrightarrow> snd (fsm_rebuild_page B page) \<noteq> page)"
  using fsm_rebuild_page_simps [OF assms] by (simp add: fsm_get_avail_def)

text \<open>A page of 8 kB whose root was lost: all slots are \<open>0\<close> and the root says \<open>9\<close>.\<close>

definition torn_page :: FSMPageData where
  "torn_page = \<lparr>fp_next_slot = 7, fp_nodes = (replicate (NodesPerPage 8192) 0)[0 := 9]\<rparr>"

lemma torn_page_wf: "valid_blcksz 8192 \<and> fsm_wf 8192 torn_page"
  by (simp add: valid_blcksz_def fsm_wf_def torn_page_def)

theorem rebuild_page_repairs_witness:
  "fsm_ok 8192 (snd (fsm_rebuild_page 8192 torn_page)) \<and> fsm_get_avail 8192 (snd (fsm_rebuild_page 8192 torn_page)) 3 = 0"
proof -
  have "3 < LeafNodesPerPage 8192" "fsm_get_avail 8192 torn_page 3 = 0"
    by (simp_all add: LeafNodesPerPage_def NodesPerPage_def NonLeafNodesPerPage_def fsm_get_avail_def torn_page_def)
  then show ?thesis using rebuild_page_repairs [of 8192 torn_page] torn_page_wf by auto
qed


definition zero_page :: FSMPageData where
  "zero_page = \<lparr>fp_next_slot = 0, fp_nodes = replicate (NodesPerPage 8192) 0\<rparr>"

lemma zero_page_ok: "valid_blcksz 8192 \<and> fsm_ok 8192 zero_page"
  using valid_blcksz_bounds(2) [of 8192]
  by (auto simp: valid_blcksz_def fsm_wf_def fsm_ok_def zero_page_def child_max_def Let_def)


text \<open>
  C31. \<^verbatim>\<open>fsm_search_avail\<close> returns on every page, whatever its inner nodes and its search hint hold: the restart after
  a repair happens at most once. It changes no slot, and a slot it reports has at least the value asked for.
\<close>

theorem search_avail_returns_sound:
  assumes "valid_blcksz B" "fsm_wf B page"
  shows "\<exists>r page'. (\<forall>fuel. fsm_search_avail B (Suc (Suc fuel)) page m adv = Some (r, page')) \<and> fsm_wf B page' \<and>
           (\<forall>i < LeafNodesPerPage B. fsm_get_avail B page' i = fsm_get_avail B page i) \<and>
           (r = -1 \<or> (0 \<le> r \<and> nat r < LeafNodesPerPage B \<and> m \<le> fsm_get_avail B page (nat r) \<and>
                      fp_next_slot page' = r + (if adv then 1 else 0)))"
proof -
  obtain r page' where r: "fsm_search_avail B 2 page m adv = Some (r, page')"
    using fsm_search_avail_returns(2) [OF assms] by fastforce
  then show ?thesis
    using fsm_search_avail_returns(1) [OF assms, of _ m adv] fsm_search_avail_spec [OF assms r]
    by (intro exI [of _ r] exI [of _ page']) (auto simp: same_slots_def)
qed

theorem search_avail_returns_sound_witness:
  "\<exists>r page'. fsm_search_avail 8192 (Suc (Suc 0)) torn_page 5 True = Some (r, page') \<and> fsm_wf 8192 page'"
  using search_avail_returns_sound [of 8192 torn_page 5 True] torn_page_wf by blast

text \<open>
  C32. On a page whose tree is in order the search fails exactly when no slot is large enough, and the root holds the
  greatest slot.
\<close>

theorem search_avail_complete:
  assumes "valid_blcksz B" "fsm_ok B page" "fsm_search_avail B fuel page m adv = Some (r, page')"
  shows "(r = -1 \<longleftrightarrow> (\<forall>i < LeafNodesPerPage B. fsm_get_avail B page i < m)) \<and>
         fsm_get_max_avail page = Max (fsm_get_avail B page ` {..<LeafNodesPerPage B}) \<and> fsm_ok B page'"
  using fsm_search_avail_none_iff [OF assms] fsm_get_max_avail_eq [OF assms(1,2)] fsm_search_avail_spec [OF assms(1) _ assms(3)]
    assms(2) by (simp add: fsm_ok_def)

theorem search_avail_complete_witness:
  "fsm_search_avail 8192 1 zero_page 3 True = Some (-1, zero_page) \<and> fsm_get_avail 8192 zero_page 11 < 3"
proof -
  have "fsm_search_avail 8192 1 zero_page 3 True = Some (-1, zero_page)"
    by (simp add: zero_page_def NodesPerPage_def)
  moreover have "11 < LeafNodesPerPage 8192" by (simp add: LeafNodesPerPage_def NodesPerPage_def NonLeafNodesPerPage_def)
  ultimately show ?thesis
    using search_avail_complete [of 8192 zero_page 1 3 True "-1" zero_page] zero_page_ok by auto
qed

end
