(* ===== verification/OG_FreeSpace.thy ===== *)
theory OG_FreeSpace
  imports OG_FsmPage OG_Contracts
begin

text \<open>
  \<^verbatim>\<open>src/gausskernel/storage/freespace/freespace.cpp\<close>: the free space map of a relation, a tree of pages of
  \<^verbatim>\<open>fsmpage.cpp\<close> in a fork of their own. A relation is modelled by what this file reads and writes of it: the pages of
  its FSM fork (absent until the fork is created) and the cached size \<^verbatim>\<open>smgr_fsm_nblocks\<close> (\<open>None\<close> for
  \<^verbatim>\<open>InvalidBlockNumber\<close>). A page that has never been initialised reads as zeros, which is also what
  \<^verbatim>\<open>PageInit\<close> leaves in its contents, so both are the same value here. Locks, dirty marks, LSNs, WAL records and the
  tablespace quota check are left out; the routines are those of one backend between two lock releases.

  BLCKSZ is the argument \<open>B\<close>. Block numbers are natural numbers, reduced modulo \<open>2 ^ 32\<close> where the code
  computes one from a slot (\<^verbatim>\<open>fsm_get_heap_blk\<close>); page numbers and physical addresses are far below the width of
  their C types.
\<close>

section \<open>Categories\<close>

definition FSM_CAT_STEP :: "nat \<Rightarrow> nat" where
  "FSM_CAT_STEP B = B div 256"

text \<open>\<^verbatim>\<open>MaxHeapTupleSize\<close>: the block less the aligned heap page header (40 bytes) and line pointer (4 bytes).\<close>

definition MaxFSMRequestSize :: "nat \<Rightarrow> nat" where
  "MaxFSMRequestSize B = B - (40 + 4 + 7) div 8 * 8"

definition fsm_space_avail_to_cat :: "nat \<Rightarrow> nat \<Rightarrow> uint8" where
  "fsm_space_avail_to_cat B avail =
     (if avail \<ge> MaxFSMRequestSize B then 255
      else let cat = avail div FSM_CAT_STEP B
           in of_nat (if cat > 254 then 254 else cat))"

definition fsm_space_cat_to_avail :: "nat \<Rightarrow> uint8 \<Rightarrow> nat" where
  "fsm_space_cat_to_avail B cat = (if cat = 255 then MaxFSMRequestSize B else unat cat * FSM_CAT_STEP B)"

definition fsm_space_needed_to_cat :: "nat \<Rightarrow> nat \<Rightarrow> uint8 result" where
  "fsm_space_needed_to_cat B needed =
     (if needed > MaxFSMRequestSize B then Inl (Ereport ERROR ERRCODE_DATATYPE_MISMATCH)
      else if needed = 0 then Inr 1
      else let cat = (needed + FSM_CAT_STEP B - 1) div FSM_CAT_STEP B
           in Inr (of_nat (if cat > 255 then 255 else cat)))"

section \<open>Addresses\<close>

record FSMAddress =
  level :: nat
  logpageno :: nat

definition SlotsPerFSMPage :: "nat \<Rightarrow> nat" where
  "SlotsPerFSMPage B = LeafNodesPerPage B"

definition FSM_TREE_DEPTH :: "nat \<Rightarrow> nat" where
  "FSM_TREE_DEPTH B = (if SlotsPerFSMPage B \<ge> 1626 then 3 else 4)"

definition FSM_ROOT_LEVEL :: "nat \<Rightarrow> nat" where
  "FSM_ROOT_LEVEL B = FSM_TREE_DEPTH B - 1"

definition g_fsm_root_address :: "nat \<Rightarrow> FSMAddress" where
  "g_fsm_root_address B = \<lparr>level = FSM_ROOT_LEVEL B, logpageno = 0\<rparr>"

definition InvalidBlockNumber :: nat where
  "InvalidBlockNumber = 2 ^ 32 - 1"

text \<open>The two loops of \<^verbatim>\<open>fsm_logical_to_physical\<close>.\<close>

primrec first_leafno :: "nat \<Rightarrow> nat \<Rightarrow> nat \<Rightarrow> nat" where
  "first_leafno S 0 leafno = leafno"
| "first_leafno S (Suc l) leafno = first_leafno S l (leafno * S)"

primrec count_pages :: "nat \<Rightarrow> nat \<Rightarrow> nat \<Rightarrow> nat \<Rightarrow> nat" where
  "count_pages S 0 leafno pages = pages"
| "count_pages S (Suc l) leafno pages = count_pages S l (leafno div S) (pages + (leafno + 1))"

definition fsm_logical_to_physical :: "nat \<Rightarrow> FSMAddress \<Rightarrow> nat" where
  "fsm_logical_to_physical B addr =
     (let leafno = first_leafno (SlotsPerFSMPage B) (level addr) (logpageno addr);
          pages = count_pages (SlotsPerFSMPage B) (FSM_TREE_DEPTH B) leafno 0;
          pages = pages - level addr
      in pages - 1)"

definition fsm_get_location :: "nat \<Rightarrow> nat \<Rightarrow> FSMAddress \<times> nat" where
  "fsm_get_location B heapblk =
     (\<lparr>level = 0, logpageno = heapblk div SlotsPerFSMPage B\<rparr>, heapblk mod SlotsPerFSMPage B)"

definition fsm_get_heap_blk :: "nat \<Rightarrow> FSMAddress \<Rightarrow> nat \<Rightarrow> nat" where
  "fsm_get_heap_blk B addr slot = (logpageno addr * SlotsPerFSMPage B + slot) mod 2 ^ 32"

definition fsm_get_parent :: "nat \<Rightarrow> FSMAddress \<Rightarrow> FSMAddress \<times> nat" where
  "fsm_get_parent B child =
     (\<lparr>level = level child + 1, logpageno = logpageno child div SlotsPerFSMPage B\<rparr>,
      logpageno child mod SlotsPerFSMPage B)"

definition fsm_get_child :: "nat \<Rightarrow> FSMAddress \<Rightarrow> nat \<Rightarrow> FSMAddress" where
  "fsm_get_child B parent slot = \<lparr>level = level parent - 1, logpageno = logpageno parent * SlotsPerFSMPage B + slot\<rparr>"

section \<open>The fork\<close>

record fsm_rel =
  fsm_fork :: "FSMPageData list option"
  smgr_fsm_nblocks :: "nat option"

definition empty_fsm_page :: "nat \<Rightarrow> FSMPageData" where
  "empty_fsm_page B = \<lparr>fp_next_slot = 0, fp_nodes = replicate (NodesPerPage B) 0\<rparr>"

definition smgrexists :: "fsm_rel \<Rightarrow> bool" where
  "smgrexists rel = (fsm_fork rel \<noteq> None)"

definition smgrnblocks :: "fsm_rel \<Rightarrow> nat" where
  "smgrnblocks rel = (case fsm_fork rel of None \<Rightarrow> 0 | Some pages \<Rightarrow> length pages)"

definition get_page :: "nat \<Rightarrow> fsm_rel \<Rightarrow> nat \<Rightarrow> FSMPageData" where
  "get_page B rel blkno =
     (case fsm_fork rel of None \<Rightarrow> empty_fsm_page B
      | Some pages \<Rightarrow> if blkno < length pages then pages ! blkno else empty_fsm_page B)"

definition put_page :: "fsm_rel \<Rightarrow> nat \<Rightarrow> FSMPageData \<Rightarrow> fsm_rel" where
  "put_page rel blkno page = rel\<lparr>fsm_fork := map_option (\<lambda>pages. pages[blkno := page]) (fsm_fork rel)\<rparr>"

text \<open>
  \<^verbatim>\<open>fsm_extend\<close>: create the fork when it is missing, append empty pages up to the wanted size and refresh the cached
  size.
\<close>

definition fsm_extend :: "nat \<Rightarrow> fsm_rel \<Rightarrow> nat \<Rightarrow> fsm_rel" where
  "fsm_extend B rel fsm_nblocks =
     (let rel = (if (smgr_fsm_nblocks rel = Some 0 \<or> smgr_fsm_nblocks rel = None) \<and> \<not> smgrexists rel
                 then rel\<lparr>fsm_fork := Some []\<rparr> else rel);
          fsm_nblocks_now = smgrnblocks rel;
          rel = rel\<lparr>fsm_fork := map_option (\<lambda>pages. pages @ replicate (fsm_nblocks - fsm_nblocks_now) (empty_fsm_page B))
                                  (fsm_fork rel)\<rparr>
      in rel\<lparr>smgr_fsm_nblocks := Some (max fsm_nblocks_now fsm_nblocks)\<rparr>)"

text \<open>
  \<^verbatim>\<open>fsm_readbuf\<close>: the buffer is the physical block number of the page, \<open>None\<close> for \<^verbatim>\<open>InvalidBuffer\<close>.
\<close>

definition fsm_readbuf :: "nat \<Rightarrow> fsm_rel \<Rightarrow> FSMAddress \<Rightarrow> bool \<Rightarrow> nat option \<times> fsm_rel" where
  "fsm_readbuf B rel addr extend_file =
     (let blkno = fsm_logical_to_physical B addr;
          past = (\<lambda>rel. case smgr_fsm_nblocks rel of None \<Rightarrow> False | Some n \<Rightarrow> blkno \<ge> n);
          rel = (if smgr_fsm_nblocks rel = None \<or> past rel
                 then (if smgrexists rel then rel\<lparr>smgr_fsm_nblocks := Some (smgrnblocks rel)\<rparr>
                       else rel\<lparr>smgr_fsm_nblocks := Some 0\<rparr>)
                 else rel)
      in if past rel
         then if extend_file then (Some blkno, fsm_extend B rel (blkno + 1)) else (None, rel)
         else (Some blkno, rel))"

section \<open>Operations\<close>

text \<open>
  A search inside a page (\<^verbatim>\<open>fsm_search_avail\<close>) needs at most two passes; \<open>None\<close> is a routine that has not returned.
\<close>

definition fsm_set_and_search ::
  "nat \<Rightarrow> fsm_rel \<Rightarrow> FSMAddress \<Rightarrow> nat \<Rightarrow> uint8 \<Rightarrow> uint8 \<Rightarrow> bool \<Rightarrow> (int \<times> fsm_rel) option" where
  "fsm_set_and_search B rel addr slot newValue minValue search =
     (case fsm_readbuf B rel addr True of
        (None, rel) \<Rightarrow> None
      | (Some buf, rel) \<Rightarrow>
          (let rel = put_page rel buf (snd (fsm_set_avail B (get_page B rel buf) slot newValue))
           in if minValue \<noteq> 0 \<and> search
              then case fsm_search_avail B 2 (get_page B rel buf) minValue (level addr = 0) of
                     None \<Rightarrow> None
                   | Some (newslot, page) \<Rightarrow> Some (newslot, put_page rel buf page)
              else Some (-1, rel)))"

text \<open>The search of one page of the tree: the slot (\<open>-1\<close> for none), the root value when there is none, the relation.\<close>

definition search_page :: "nat \<Rightarrow> fsm_rel \<Rightarrow> uint8 \<Rightarrow> FSMAddress \<Rightarrow> (int \<times> uint8 \<times> fsm_rel) option" where
  "search_page B rel min_cat addr =
     (case fsm_readbuf B rel addr False of
        (None, rel) \<Rightarrow> Some (-1, 0, rel)
      | (Some buf, rel) \<Rightarrow>
          (case fsm_search_avail B 2 (get_page B rel buf) min_cat (level addr = 0) of
             None \<Rightarrow> None
           | Some (slot, page) \<Rightarrow>
               Some (slot, if slot = -1 then fsm_get_max_avail page else 0, put_page rel buf page)))"

function fsm_search_loop :: "nat \<Rightarrow> fsm_rel \<Rightarrow> uint8 \<Rightarrow> nat \<Rightarrow> FSMAddress \<Rightarrow> (nat \<times> fsm_rel) option" where
  "fsm_search_loop B rel min_cat restarts addr =
     (case search_page B rel min_cat addr of
        None \<Rightarrow> None
      | Some (slot, max_avail, rel) \<Rightarrow>
          if slot \<noteq> -1
          then if level addr = 0 then Some (fsm_get_heap_blk B addr (nat slot), rel)
               else fsm_search_loop B rel min_cat restarts (fsm_get_child B addr (nat slot))
          else if level addr = FSM_ROOT_LEVEL B then Some (InvalidBlockNumber, rel)
          else (case fsm_get_parent B addr of
                  (parent, parentslot) \<Rightarrow>
                    (case fsm_set_and_search B rel parent parentslot max_avail 0 True of
                       None \<Rightarrow> None
                     | Some (_, rel) \<Rightarrow>
                         if restarts > 10000 then Some (InvalidBlockNumber, rel)
                         else fsm_search_loop B rel min_cat (restarts + 1) (g_fsm_root_address B))))"
  by pat_completeness auto
termination
  by (relation "measures [\<lambda>(B, rel, min_cat, restarts, addr). 10002 - restarts, \<lambda>(B, rel, min_cat, restarts, addr). level addr]")
    (auto simp: fsm_get_child_def)

declare fsm_search_loop.simps [simp del]

definition fsm_search :: "nat \<Rightarrow> fsm_rel \<Rightarrow> uint8 \<Rightarrow> (nat \<times> fsm_rel) option" where
  "fsm_search B rel min_cat = fsm_search_loop B rel min_cat 0 (g_fsm_root_address B)"

text \<open>
  \<^verbatim>\<open>fsm_vacuum_page\<close>, on the page \<open>pageno\<close> of level \<open>l\<close>: the root value, the end-of-file flag and the
  relation. The loop over the slots carries the flag of the last child.
\<close>

definition vacuum_slot :: "nat \<Rightarrow> (fsm_rel \<Rightarrow> nat \<Rightarrow> uint8 \<times> bool \<times> fsm_rel) \<Rightarrow> FSMAddress \<Rightarrow> nat \<Rightarrow> nat
    \<Rightarrow> bool \<times> fsm_rel \<Rightarrow> bool \<times> fsm_rel" where
  "vacuum_slot B vacuum_child addr buf slot st =
     (case st of (eof, rel) \<Rightarrow>
        (case (if \<not> eof then vacuum_child rel (logpageno (fsm_get_child B addr slot)) else (0, eof, rel)) of
           (child_avail, eof, rel) \<Rightarrow>
             if fsm_get_avail B (get_page B rel buf) slot \<noteq> child_avail
             then (eof, put_page rel buf (snd (fsm_set_avail B (get_page B rel buf) slot child_avail)))
             else (eof, rel)))"

primrec fsm_vacuum_page :: "nat \<Rightarrow> nat \<Rightarrow> fsm_rel \<Rightarrow> nat \<Rightarrow> uint8 \<times> bool \<times> fsm_rel" where
  "fsm_vacuum_page B 0 = (\<lambda>rel pageno.
     (case fsm_readbuf B rel \<lparr>level = 0, logpageno = pageno\<rparr> False of
        (None, rel) \<Rightarrow> (0, True, rel)
      | (Some buf, rel) \<Rightarrow>
          (let page = get_page B rel buf
           in (fsm_get_max_avail page, False, put_page rel buf (page\<lparr>fp_next_slot := 0\<rparr>)))))"
| "fsm_vacuum_page B (Suc l) = (\<lambda>rel pageno.
     (case fsm_readbuf B rel \<lparr>level = Suc l, logpageno = pageno\<rparr> False of
        (None, rel) \<Rightarrow> (0, True, rel)
      | (Some buf, rel) \<Rightarrow>
          (let (eof, rel) = fold (vacuum_slot B (fsm_vacuum_page B l) \<lparr>level = Suc l, logpageno = pageno\<rparr> buf)
                              [0..<SlotsPerFSMPage B] (False, rel);
               page = get_page B rel buf
           in (fsm_get_max_avail page, False, put_page rel buf (page\<lparr>fp_next_slot := 0\<rparr>)))))"

definition fsm_get_lastblckno :: "nat \<Rightarrow> FSMAddress \<Rightarrow> nat" where
  "fsm_get_lastblckno B addr = fsm_get_heap_blk B addr (SlotsPerFSMPage B - 1)"

text \<open>\<^verbatim>\<open>fsm_update_recursive\<close>. No address lies above the root level, where the code stops.\<close>

function fsm_update_recursive :: "nat \<Rightarrow> fsm_rel \<Rightarrow> FSMAddress \<Rightarrow> uint8 \<Rightarrow> bool \<Rightarrow> fsm_rel option" where
  "fsm_update_recursive B rel addr new_cat search =
     (if level addr \<ge> FSM_ROOT_LEVEL B then Some rel
      else case fsm_get_parent B addr of
             (parent, parentslot) \<Rightarrow>
               (case fsm_set_and_search B rel parent parentslot new_cat 0 search of
                  None \<Rightarrow> None
                | Some (_, rel) \<Rightarrow> fsm_update_recursive B rel parent new_cat search))"
  by pat_completeness auto
termination
  by (relation "measure (\<lambda>(B, rel, addr, new_cat, search). FSM_ROOT_LEVEL B - level addr)") (auto simp: fsm_get_parent_def)

declare fsm_update_recursive.simps [simp del]

section \<open>Interface of the file\<close>

definition GetPageWithFreeSpace :: "nat \<Rightarrow> fsm_rel \<Rightarrow> nat \<Rightarrow> (nat \<times> fsm_rel) option result" where
  "GetPageWithFreeSpace B rel spaceNeeded =
     rbind (fsm_space_needed_to_cat B spaceNeeded) (\<lambda>min_cat. Inr (fsm_search B rel min_cat))"

definition RecordAndGetPageWithFreeSpace ::
  "nat \<Rightarrow> fsm_rel \<Rightarrow> nat \<Rightarrow> nat \<Rightarrow> nat \<Rightarrow> (nat \<times> fsm_rel) option result" where
  "RecordAndGetPageWithFreeSpace B rel oldPage oldSpaceAvail spaceNeeded =
     (let old_cat = fsm_space_avail_to_cat B oldSpaceAvail
      in rbind (fsm_space_needed_to_cat B spaceNeeded) (\<lambda>search_cat.
         case fsm_get_location B oldPage of
           (addr, slot) \<Rightarrow>
             Inr (case fsm_set_and_search B rel addr slot old_cat search_cat True of
                    None \<Rightarrow> None
                  | Some (search_slot, rel) \<Rightarrow>
                      if search_slot \<noteq> -1 then Some (fsm_get_heap_blk B addr (nat search_slot), rel)
                      else fsm_search B rel search_cat)))"

definition RecordPageWithFreeSpace :: "nat \<Rightarrow> fsm_rel \<Rightarrow> nat \<Rightarrow> nat \<Rightarrow> fsm_rel option" where
  "RecordPageWithFreeSpace B rel heapBlk spaceAvail =
     (let new_cat = fsm_space_avail_to_cat B spaceAvail
      in case fsm_get_location B heapBlk of
           (addr, slot) \<Rightarrow> map_option snd (fsm_set_and_search B rel addr slot new_cat 0 True))"

text \<open>The loop of \<^verbatim>\<open>UpdateFreeSpaceMap\<close>, one FSM page a turn; \<open>None\<close> when the fuel runs out.\<close>

fun UpdateFreeSpaceMap_loop :: "nat \<Rightarrow> nat \<Rightarrow> fsm_rel \<Rightarrow> nat \<Rightarrow> nat \<Rightarrow> uint8 \<Rightarrow> bool \<Rightarrow> fsm_rel option" where
  "UpdateFreeSpaceMap_loop 0 B rel blockNum endBlkNum new_cat search = None"
| "UpdateFreeSpaceMap_loop (Suc fuel) B rel blockNum endBlkNum new_cat search =
     (if blockNum \<le> endBlkNum
      then case fsm_get_location B blockNum of
             (addr, slot) \<Rightarrow>
               (case fsm_update_recursive B rel addr new_cat search of
                  None \<Rightarrow> None
                | Some rel \<Rightarrow>
                    (let lastBlkOnPage = fsm_get_lastblckno B addr
                     in if lastBlkOnPage \<ge> endBlkNum then Some rel
                        else UpdateFreeSpaceMap_loop fuel B rel ((lastBlkOnPage + 1) mod 2 ^ 32) endBlkNum new_cat search))
      else Some rel)"

definition UpdateFreeSpaceMap :: "nat \<Rightarrow> nat \<Rightarrow> fsm_rel \<Rightarrow> nat \<Rightarrow> nat \<Rightarrow> nat \<Rightarrow> bool \<Rightarrow> fsm_rel option" where
  "UpdateFreeSpaceMap fuel B rel startBlkNum endBlkNum freespace search =
     UpdateFreeSpaceMap_loop fuel B rel startBlkNum endBlkNum (fsm_space_avail_to_cat B freespace) search"

definition GetRecordedFreeSpace :: "nat \<Rightarrow> fsm_rel \<Rightarrow> nat \<Rightarrow> nat \<times> fsm_rel" where
  "GetRecordedFreeSpace B rel heapBlk =
     (case fsm_get_location B heapBlk of
        (addr, slot) \<Rightarrow>
          (case fsm_readbuf B rel addr False of
             (None, rel) \<Rightarrow> (0, rel)
           | (Some buf, rel) \<Rightarrow> (fsm_space_cat_to_avail B (fsm_get_avail B (get_page B rel buf) slot), rel)))"

definition smgrtruncate :: "fsm_rel \<Rightarrow> nat \<Rightarrow> fsm_rel" where
  "smgrtruncate rel nblocks = rel\<lparr>fsm_fork := map_option (take nblocks) (fsm_fork rel)\<rparr>"

definition FreeSpaceMapTruncateRel :: "nat \<Rightarrow> fsm_rel \<Rightarrow> nat \<Rightarrow> fsm_rel" where
  "FreeSpaceMapTruncateRel B rel nblocks =
     (if \<not> smgrexists rel then rel
      else case fsm_get_location B nblocks of
        (first_removed_address, first_removed_slot) \<Rightarrow>
          if first_removed_slot > 0
          then (case fsm_readbuf B rel first_removed_address False of
                  (None, rel) \<Rightarrow> rel
                | (Some buf, rel) \<Rightarrow>
                    (let rel = put_page rel buf (snd (fsm_truncate_avail B (get_page B rel buf) first_removed_slot));
                         new_nfsmblocks = fsm_logical_to_physical B first_removed_address + 1
                     in (smgrtruncate rel new_nfsmblocks)\<lparr>smgr_fsm_nblocks := Some new_nfsmblocks\<rparr>))
          else (let new_nfsmblocks = fsm_logical_to_physical B first_removed_address
                in if smgrnblocks rel \<le> new_nfsmblocks then rel
                   else (smgrtruncate rel new_nfsmblocks)\<lparr>smgr_fsm_nblocks := Some new_nfsmblocks\<rparr>))"

definition FreeSpaceMapVacuum :: "nat \<Rightarrow> fsm_rel \<Rightarrow> fsm_rel" where
  "FreeSpaceMapVacuum B rel = (case fsm_vacuum_page B (FSM_ROOT_LEVEL B) rel 0 of (_, _, rel) \<Rightarrow> rel)"

definition FreeSpaceMapCalTruncBlkNo :: "nat \<Rightarrow> nat \<Rightarrow> nat" where
  "FreeSpaceMapCalTruncBlkNo B relBlkNo = fsm_logical_to_physical B (fst (fsm_get_location B relBlkNo))"

section \<open>Categories: soundness\<close>

lemma FSM_CAT_STEP_bounds:
  assumes "valid_blcksz B"
  shows "0 < FSM_CAT_STEP B" "256 * FSM_CAT_STEP B = B" "MaxFSMRequestSize B = B - 48" "MaxFSMRequestSize B < 256 * FSM_CAT_STEP B"
proof -
  show "0 < FSM_CAT_STEP B" "256 * FSM_CAT_STEP B = B" using assms by (auto simp: FSM_CAT_STEP_def valid_blcksz_def)
  then show "MaxFSMRequestSize B = B - 48" "MaxFSMRequestSize B < 256 * FSM_CAT_STEP B"
    using valid_blcksz_ge [OF assms] by (simp_all add: MaxFSMRequestSize_def)
qed

lemma unat_uint8: "n < 256 \<Longrightarrow> unat (of_nat n :: uint8) = n"
  by (simp add: unat_of_nat take_bit_eq_mod)

lemma uint8_255_iff: "n < 256 \<Longrightarrow> (of_nat n :: uint8) = 255 \<longleftrightarrow> n = 255"
  using unat_uint8 [of n] by (auto simp: word_eq_iff_unsigned)

lemma ceil_div_le_iff:
  assumes "0 < (s :: nat)"
  shows "(n + s - 1) div s \<le> k \<longleftrightarrow> n \<le> k * s"
proof -
  have "(n + s - 1) div s \<le> k \<longleftrightarrow> (n + s - 1) div s < Suc k" by auto
  also have "\<dots> \<longleftrightarrow> n + s - 1 < Suc k * s" by (rule div_less_iff_less_mult [OF assms])
  also have "\<dots> \<longleftrightarrow> n \<le> k * s" using assms by auto
  finally show ?thesis .
qed

text \<open>The category of an amount, read back, is a lower bound of the amount.\<close>

lemma avail_cat_cases:
  assumes "valid_blcksz B"
  shows "fsm_space_avail_to_cat B avail = 255 \<longleftrightarrow> MaxFSMRequestSize B \<le> avail"
    "avail < MaxFSMRequestSize B \<Longrightarrow> unat (fsm_space_avail_to_cat B avail) = min 254 (avail div FSM_CAT_STEP B)"
  by (auto simp: fsm_space_avail_to_cat_def Let_def uint8_255_iff unat_uint8)

lemma needed_cat_cases:
  assumes "valid_blcksz B"
  shows "fsm_space_needed_to_cat B needed = Inr c \<Longrightarrow> needed \<le> MaxFSMRequestSize B"
    "fsm_space_needed_to_cat B needed = Inr c \<Longrightarrow> 0 < needed \<Longrightarrow>
       unat c = min 255 ((needed + FSM_CAT_STEP B - 1) div FSM_CAT_STEP B)"
    "fsm_space_needed_to_cat B needed = Inr c \<Longrightarrow> 0 < c"
proof -
  note s = FSM_CAT_STEP_bounds(1) [OF assms]
  have pos: "0 < needed \<Longrightarrow> 0 < (needed + FSM_CAT_STEP B - 1) div FSM_CAT_STEP B"
    using s by (simp add: div_greater_zero_iff)
  show "fsm_space_needed_to_cat B needed = Inr c \<Longrightarrow> needed \<le> MaxFSMRequestSize B"
    "fsm_space_needed_to_cat B needed = Inr c \<Longrightarrow> 0 < needed \<Longrightarrow>
       unat c = min 255 ((needed + FSM_CAT_STEP B - 1) div FSM_CAT_STEP B)"
    by (auto simp: fsm_space_needed_to_cat_def Let_def unat_uint8 split: if_splits)
  then show "fsm_space_needed_to_cat B needed = Inr c \<Longrightarrow> 0 < c"
    using pos by (cases "needed = 0") (auto simp: fsm_space_needed_to_cat_def word_less_nat_alt)
qed

lemma cat_to_avail_le:
  assumes "valid_blcksz B"
  shows "fsm_space_cat_to_avail B (fsm_space_avail_to_cat B avail) \<le> avail"
proof (cases "MaxFSMRequestSize B \<le> avail")
  case True
  then show ?thesis by (simp add: fsm_space_cat_to_avail_def fsm_space_avail_to_cat_def)
next
  case False
  then have "unat (fsm_space_avail_to_cat B avail) \<le> avail div FSM_CAT_STEP B"
    using avail_cat_cases(2) [OF assms] by simp
  then have "unat (fsm_space_avail_to_cat B avail) * FSM_CAT_STEP B \<le> avail div FSM_CAT_STEP B * FSM_CAT_STEP B"
    by (rule mult_le_mono1)
  also have "\<dots> \<le> avail" by (rule div_times_less_eq_dividend)
  finally show ?thesis using False avail_cat_cases(1) [OF assms, of avail] by (simp add: fsm_space_cat_to_avail_def)
qed

lemma needed_le_cat_to_avail:
  assumes "valid_blcksz B" "fsm_space_needed_to_cat B needed = Inr c" "c \<le> cat"
  shows "needed \<le> fsm_space_cat_to_avail B cat"
proof (cases "needed = 0 \<or> cat = 255")
  case True
  then show ?thesis using needed_cat_cases(1) [OF assms(1,2)] by (auto simp: fsm_space_cat_to_avail_def)
next
  case False
  have "unat cat \<noteq> 255" using False uint8_255_iff [of "unat cat"] by auto
  moreover have "unat cat < 2 ^ 8" using unsigned_less [of cat] by simp
  ultimately have lt: "unat cat < 255" by simp
  have "unat c \<le> unat cat" using assms(3) by (simp add: word_le_nat_alt)
  then have "(needed + FSM_CAT_STEP B - 1) div FSM_CAT_STEP B \<le> unat cat"
    using needed_cat_cases(2) [OF assms(1,2)] False lt by (auto simp: min_def split: if_splits)
  then show ?thesis
    using False ceil_div_le_iff [OF FSM_CAT_STEP_bounds(1) [OF assms(1)]] by (simp add: fsm_space_cat_to_avail_def)
qed

section \<open>Addresses: the physical order\<close>

lemma SlotsPerFSMPage_ge:
  assumes "valid_blcksz B"
  shows "2 \<le> SlotsPerFSMPage B"
  using valid_blcksz_ge [OF assms]
  by (simp add: SlotsPerFSMPage_def LeafNodesPerPage_def NodesPerPage_def NonLeafNodesPerPage_def) linarith

lemma first_leafno_eq: "first_leafno S l n = n * S ^ l"
  by (induction l arbitrary: n) (simp_all add: mult_ac)

definition tree_sum :: "nat \<Rightarrow> nat \<Rightarrow> nat \<Rightarrow> nat" where
  "tree_sum S D n = (\<Sum>j<D. n div S ^ j)"

lemma count_pages_eq: "count_pages S D n p = p + tree_sum S D n + D"
proof (induction D arbitrary: n p)
  case (Suc D)
  have "tree_sum S (Suc D) n = n + tree_sum S D (n div S)"
    unfolding tree_sum_def by (subst sum.lessThan_Suc_shift) (simp add: div_mult2_eq)
  then show ?case using Suc by simp
qed (simp add: tree_sum_def)

definition valid_addr :: "nat \<Rightarrow> FSMAddress \<Rightarrow> bool" where
  "valid_addr B addr \<longleftrightarrow> level addr \<le> FSM_ROOT_LEVEL B"

definition leaf_index :: "nat \<Rightarrow> FSMAddress \<Rightarrow> nat" where
  "leaf_index B addr = logpageno addr * SlotsPerFSMPage B ^ level addr"

lemma FSM_TREE_DEPTH_pos: "0 < FSM_TREE_DEPTH B" "FSM_TREE_DEPTH B = Suc (FSM_ROOT_LEVEL B)"
  by (auto simp: FSM_TREE_DEPTH_def FSM_ROOT_LEVEL_def)

lemma phys_eq:
  assumes "valid_addr B addr"
  shows "fsm_logical_to_physical B addr =
         tree_sum (SlotsPerFSMPage B) (FSM_TREE_DEPTH B) (leaf_index B addr) + (FSM_ROOT_LEVEL B - level addr)"
  using assms FSM_TREE_DEPTH_pos [of B]
  by (simp add: fsm_logical_to_physical_def Let_def first_leafno_eq count_pages_eq leaf_index_def valid_addr_def)

lemma tree_sum_less:
  assumes "0 < S" "n < n'" "S ^ l dvd n'" "l < D"
  shows "tree_sum S D n + l < tree_sum S D n'"
proof -
  have strict: "n div S ^ j < n' div S ^ j" if "j \<le> l" for j
    using assms(1,2) dvd_trans [OF le_imp_power_dvd [OF that] assms(3)]
    by (auto simp: dvd_def intro: less_mult_imp_div_less [of _ _ "S ^ j"] simp: mult.commute)
  have "tree_sum S D n + (\<Sum>j<D. if j \<le> l then 1 else 0) = (\<Sum>j<D. n div S ^ j + (if j \<le> l then 1 else 0))"
    by (simp add: tree_sum_def sum.distrib)
  also have "\<dots> \<le> tree_sum S D n'"
    unfolding tree_sum_def
  proof (rule sum_mono)
    fix j assume "j \<in> {..<D}"
    show "n div S ^ j + (if j \<le> l then 1 else 0) \<le> n' div S ^ j"
      using strict [of j] div_le_mono [of n n' "S ^ j"] assms(2) by auto
  qed
  finally have "tree_sum S D n + (\<Sum>j<D. if j \<le> l then 1 else 0) \<le> tree_sum S D n'" .
  moreover have "(\<Sum>j<D. if j \<le> l then 1 else (0 :: nat)) = card {..l}"
  proof -
    have "{..<D} \<inter> {j. j \<le> l} = {..l}" using assms(4) by auto
    then show ?thesis by (simp add: sum.If_cases)
  qed
  ultimately show ?thesis by simp
qed

text \<open>
  Pages lie in the file in the order of their first leaf, and an ancestor before its descendants: the order of a
  depth-first walk.
\<close>

lemma phys_less:
  assumes "valid_blcksz B" "valid_addr B a" "valid_addr B b" "leaf_index B a < leaf_index B b"
  shows "fsm_logical_to_physical B a < fsm_logical_to_physical B b"
proof -
  have "tree_sum (SlotsPerFSMPage B) (FSM_TREE_DEPTH B) (leaf_index B a) + level b
      < tree_sum (SlotsPerFSMPage B) (FSM_TREE_DEPTH B) (leaf_index B b)"
    using assms SlotsPerFSMPage_ge [OF assms(1)] FSM_TREE_DEPTH_pos [of B]
    by (intro tree_sum_less) (auto simp: leaf_index_def valid_addr_def)
  then show ?thesis using assms(2,3) by (simp add: phys_eq valid_addr_def)
qed

lemma phys_same_leaf:
  assumes "valid_addr B a" "valid_addr B b" "leaf_index B a = leaf_index B b"
  shows "fsm_logical_to_physical B a < fsm_logical_to_physical B b \<longleftrightarrow> level b < level a"
  using assms by (auto simp: phys_eq valid_addr_def)

lemma phys_inj:
  assumes "valid_blcksz B" "valid_addr B a" "valid_addr B b" "fsm_logical_to_physical B a = fsm_logical_to_physical B b"
  shows "a = b"
proof -
  have idx: "leaf_index B a = leaf_index B b"
    using phys_less [OF assms(1-3)] phys_less [OF assms(1,3,2)] assms(4) by (metis less_irrefl linorder_neqE_nat)
  then have "level a = level b"
    using phys_same_leaf [OF assms(2,3)] phys_same_leaf [OF assms(3,2)] assms(4) by auto
  then show ?thesis
    using idx SlotsPerFSMPage_ge [OF assms(1)] by (auto simp: leaf_index_def)
qed

lemma logpageno_le_phys:
  assumes "valid_blcksz B" "valid_addr B a"
  shows "leaf_index B a \<le> fsm_logical_to_physical B a"
proof -
  have "leaf_index B a \<le> tree_sum (SlotsPerFSMPage B) (FSM_TREE_DEPTH B) (leaf_index B a)"
    unfolding tree_sum_def using FSM_TREE_DEPTH_pos [of B] by (simp add: sum.lessThan_Suc_shift del: sum.lessThan_Suc)
  then show ?thesis using phys_eq [OF assms(2)] by simp
qed

lemma root_addr_valid: "valid_addr B (g_fsm_root_address B)"
  by (simp add: valid_addr_def g_fsm_root_address_def)

lemma location_valid: "valid_addr B (fst (fsm_get_location B blk))"
  by (simp add: valid_addr_def fsm_get_location_def)

lemma child_parent:
  assumes "slot < SlotsPerFSMPage B" "0 < level addr"
  shows "fsm_get_parent B (fsm_get_child B addr slot) = (addr, slot)"
  using assms by (simp add: fsm_get_parent_def fsm_get_child_def)

lemma parent_child:
  "fsm_get_child B (fst (fsm_get_parent B addr)) (snd (fsm_get_parent B addr)) = addr"
  by (simp add: fsm_get_parent_def fsm_get_child_def)

lemma parent_valid:
  "valid_addr B addr \<Longrightarrow> level addr \<noteq> FSM_ROOT_LEVEL B \<Longrightarrow> valid_addr B (fst (fsm_get_parent B addr))"
  by (simp add: valid_addr_def fsm_get_parent_def)

lemma child_valid: "valid_addr B addr \<Longrightarrow> valid_addr B (fsm_get_child B addr slot)"
  by (simp add: valid_addr_def fsm_get_child_def)

lemma location_slot_less: "valid_blcksz B \<Longrightarrow> snd (fsm_get_location B blk) < SlotsPerFSMPage B"
  using SlotsPerFSMPage_ge [of B] by (simp add: fsm_get_location_def)

section \<open>The relation's state\<close>

definition rel_wf :: "nat \<Rightarrow> fsm_rel \<Rightarrow> bool" where
  "rel_wf B rel \<longleftrightarrow> (case fsm_fork rel of None \<Rightarrow> True | Some pages \<Rightarrow> list_all (fsm_wf B) pages) \<and>
     (case smgr_fsm_nblocks rel of None \<Rightarrow> True | Some n \<Rightarrow> n \<le> smgrnblocks rel)"

definition rel_ok :: "nat \<Rightarrow> fsm_rel \<Rightarrow> bool" where
  "rel_ok B rel \<longleftrightarrow> rel_wf B rel \<and> (case fsm_fork rel of None \<Rightarrow> True | Some pages \<Rightarrow> list_all (fsm_ok B) pages)"

definition page_slot :: "nat \<Rightarrow> fsm_rel \<Rightarrow> FSMAddress \<Rightarrow> nat \<Rightarrow> uint8" where
  "page_slot B rel addr slot = fsm_get_avail B (get_page B rel (fsm_logical_to_physical B addr)) slot"

text \<open>The contents of the map, as its users see it: the category recorded for each heap block.\<close>

definition recorded_cat :: "nat \<Rightarrow> fsm_rel \<Rightarrow> nat \<Rightarrow> uint8" where
  "recorded_cat B rel heapBlk = (case fsm_get_location B heapBlk of (addr, slot) \<Rightarrow> page_slot B rel addr slot)"

lemma empty_fsm_page_ok:
  assumes "valid_blcksz B"
  shows "fsm_ok B (empty_fsm_page B)"
  using valid_blcksz_bounds(2) [OF assms]
  by (auto simp: fsm_ok_def fsm_wf_def empty_fsm_page_def child_max_def Let_def)

lemma empty_fsm_page_slot: "slot < SlotsPerFSMPage B \<Longrightarrow> fsm_get_avail B (empty_fsm_page B) slot = 0"
  by (simp add: fsm_get_avail_def empty_fsm_page_def SlotsPerFSMPage_def LeafNodesPerPage_def)

lemma get_page_wf: "valid_blcksz B \<Longrightarrow> rel_wf B rel \<Longrightarrow> fsm_wf B (get_page B rel b)"
  using empty_fsm_page_ok [of B]
  by (auto simp: rel_wf_def get_page_def fsm_ok_def list_all_length split: option.splits)

lemma get_page_ok: "valid_blcksz B \<Longrightarrow> rel_ok B rel \<Longrightarrow> fsm_ok B (get_page B rel b)"
  using empty_fsm_page_ok [of B]
  by (auto simp: rel_ok_def get_page_def list_all_length split: option.splits)

lemma smgrnblocks_put_page [simp]: "smgrnblocks (put_page rel b p) = smgrnblocks rel"
  by (simp add: smgrnblocks_def put_page_def split: option.splits)

lemma get_put_page:
  "b < smgrnblocks rel \<Longrightarrow> get_page B (put_page rel b p) c = (if c = b then p else get_page B rel c)"
  by (auto simp: get_page_def put_page_def smgrnblocks_def split: option.splits)

lemma list_all_update: "list_all P xs \<Longrightarrow> P x \<Longrightarrow> list_all P (xs[i := x])"
  using set_update_subset_insert [of xs i x] by (auto simp: list_all_iff)

lemma put_page_wf: "rel_wf B rel \<Longrightarrow> fsm_wf B p \<Longrightarrow> rel_wf B (put_page rel b p)"
  by (auto simp: rel_wf_def put_page_def smgrnblocks_def list_all_update split: option.splits)

lemma put_page_ok: "rel_ok B rel \<Longrightarrow> fsm_ok B p \<Longrightarrow> rel_ok B (put_page rel b p)"
  by (auto simp: rel_ok_def put_page_wf fsm_ok_def [of B p])
    (auto simp: put_page_def list_all_update fsm_ok_def split: option.splits)

lemma smgrnblocks_extend: "rel_wf B rel \<Longrightarrow> smgrnblocks (fsm_extend B rel n) = max (smgrnblocks rel) n"
  by (auto simp: fsm_extend_def smgrnblocks_def smgrexists_def Let_def rel_wf_def split: option.splits)

lemma fsm_extend_fork:
  "rel_wf B rel \<Longrightarrow> fsm_fork (fsm_extend B rel n) =
     Some ((case fsm_fork rel of None \<Rightarrow> [] | Some ps \<Rightarrow> ps) @ replicate (n - smgrnblocks rel) (empty_fsm_page B))"
  "smgr_fsm_nblocks (fsm_extend B rel n) = Some (max (smgrnblocks rel) n)"
  by (auto simp: fsm_extend_def smgrnblocks_def smgrexists_def Let_def rel_wf_def split: option.splits)

lemma get_page_extend: "rel_wf B rel \<Longrightarrow> get_page B (fsm_extend B rel n) b = get_page B rel b"
  by (auto simp: get_page_def fsm_extend_fork smgrnblocks_def nth_append split: option.splits)

lemma fsm_extend_wf:
  assumes "valid_blcksz B" "rel_wf B rel"
  shows "rel_wf B (fsm_extend B rel n)" "rel_ok B rel \<Longrightarrow> rel_ok B (fsm_extend B rel n)"
proof -
  have e: "fsm_ok B (empty_fsm_page B)" "fsm_wf B (empty_fsm_page B)"
    using empty_fsm_page_ok [OF assms(1)] by (auto simp: fsm_ok_def)
  have sz: "max (smgrnblocks rel) n \<le> smgrnblocks (fsm_extend B rel n)" using smgrnblocks_extend [OF assms(2)] by simp
  have lists: "list_all P ((case fsm_fork rel of None \<Rightarrow> [] | Some ps \<Rightarrow> ps) @ replicate k (empty_fsm_page B))"
    if "case fsm_fork rel of None \<Rightarrow> True | Some ps \<Rightarrow> list_all P ps" "P (empty_fsm_page B)" for P k
    using that by (auto simp: list_all_iff split: option.splits)
  show wf: "rel_wf B (fsm_extend B rel n)"
    using assms(2) e(2) sz lists [of "fsm_wf B"] by (simp add: rel_wf_def [of B "fsm_extend B rel n"] fsm_extend_fork rel_wf_def [of B rel])
  show "rel_ok B (fsm_extend B rel n)" if "rel_ok B rel"
    using that wf e(1) lists [of "fsm_ok B"] assms(2) by (simp add: rel_ok_def fsm_extend_fork)
qed

lemma readbuf_noextend:
  assumes "rel_wf B rel"
  obtains rel' where
    "fsm_readbuf B rel addr False =
       (if fsm_logical_to_physical B addr < smgrnblocks rel then Some (fsm_logical_to_physical B addr) else None, rel')"
    "fsm_fork rel' = fsm_fork rel" "rel_wf B rel'" "rel_ok B rel' \<longleftrightarrow> rel_ok B rel"
proof -
  define rel' where "rel' = snd (fsm_readbuf B rel addr False)"
  have fork: "fsm_fork rel' = fsm_fork rel"
    by (auto simp: rel'_def fsm_readbuf_def Let_def split: option.splits)
  have fst: "fst (fsm_readbuf B rel addr False) =
      (if fsm_logical_to_physical B addr < smgrnblocks rel then Some (fsm_logical_to_physical B addr) else None)"
    using assms by (auto simp: fsm_readbuf_def Let_def smgrexists_def smgrnblocks_def rel_wf_def split: option.splits)
  have wf: "rel_wf B rel'"
    using assms by (auto simp: rel'_def fsm_readbuf_def Let_def smgrexists_def smgrnblocks_def rel_wf_def split: option.splits)
  show thesis
    using that [of rel'] fst fork wf assms by (simp add: rel'_def prod_eq_iff rel_ok_def)
qed

lemma readbuf_extend:
  assumes "valid_blcksz B" "rel_wf B rel"
  obtains rel' where
    "fsm_readbuf B rel addr True = (Some (fsm_logical_to_physical B addr), rel')"
    "\<And>b. get_page B rel' b = get_page B rel b" "rel_wf B rel'" "rel_ok B rel \<Longrightarrow> rel_ok B rel'"
    "smgrnblocks rel' = max (smgrnblocks rel) (fsm_logical_to_physical B addr + 1)"
proof -
  obtain r1 where r1: "fsm_readbuf B rel addr False =
       (if fsm_logical_to_physical B addr < smgrnblocks rel then Some (fsm_logical_to_physical B addr) else None, r1)"
    and fork: "fsm_fork r1 = fsm_fork rel" and wf: "rel_wf B r1" and ok: "rel_ok B r1 \<longleftrightarrow> rel_ok B rel"
    by (rule readbuf_noextend [OF assms(2)])
  have same: "smgrnblocks r1 = smgrnblocks rel" "\<And>b. get_page B r1 b = get_page B rel b"
    using fork by (simp_all add: smgrnblocks_def get_page_def)
  show thesis
  proof (cases "fsm_logical_to_physical B addr < smgrnblocks rel")
    case True
    then have "fsm_readbuf B rel addr True = (Some (fsm_logical_to_physical B addr), r1)"
      using r1 by (auto simp: fsm_readbuf_def Let_def split: if_splits option.splits)
    then show thesis using that [of r1] same wf ok True by simp
  next
    case False
    then have "fsm_readbuf B rel addr True = (Some (fsm_logical_to_physical B addr), fsm_extend B r1 (fsm_logical_to_physical B addr + 1))"
      using r1 by (auto simp: fsm_readbuf_def Let_def split: if_splits option.splits)
    then show thesis
      using that [of "fsm_extend B r1 (fsm_logical_to_physical B addr + 1)"] same fsm_extend_wf [OF assms(1) wf] ok wf
      by (simp add: get_page_extend smgrnblocks_extend)
  qed
qed

section \<open>Operations: behaviour\<close>

lemma nslots_eq: "LeafNodesPerPage B = SlotsPerFSMPage B"
  by (simp add: SlotsPerFSMPage_def)

lemmas page_laws =
  fsm_page.put_wf fsm_page.put_ok fsm_page.get_put fsm_page.search_returns fsm_page.search_keeps
  fsm_page.search_slots fsm_page.search_found

text \<open>
  \<^verbatim>\<open>fsm_set_and_search\<close> always returns; it stores the value, changes no other slot of any page, and what it finds has
  enough space.
\<close>

lemma set_and_search_spec:
  assumes B: "valid_blcksz B" and wf: "rel_wf B rel" and addr: "valid_addr B addr" and slot: "slot < SlotsPerFSMPage B"
  obtains r rel' where "fsm_set_and_search B rel addr slot v m srch = Some (r, rel')"
    "rel_wf B rel'" "rel_ok B rel \<Longrightarrow> rel_ok B rel'"
    "smgrnblocks rel' = max (smgrnblocks rel) (fsm_logical_to_physical B addr + 1)"
    "\<And>a i. valid_addr B a \<Longrightarrow> i < SlotsPerFSMPage B \<Longrightarrow>
       page_slot B rel' a i = (if a = addr \<and> i = slot then v else page_slot B rel a i)"
    "r = -1 \<or> (0 \<le> r \<and> nat r < SlotsPerFSMPage B \<and> m \<le> page_slot B rel' addr (nat r))"
proof -
  define b where "b = fsm_logical_to_physical B addr"
  obtain r1 where r1: "fsm_readbuf B rel addr True = (Some b, r1)" and pages: "\<And>c. get_page B r1 c = get_page B rel c"
    and wf1: "rel_wf B r1" and ok1: "rel_ok B rel \<Longrightarrow> rel_ok B r1" and n1: "smgrnblocks r1 = max (smgrnblocks rel) (b + 1)"
    using readbuf_extend [OF B wf, of addr] unfolding b_def by metis
  define p where "p = set_slot B (get_page B rel b) slot v"
  define r2 where "r2 = put_page r1 b p"
  have pwf: "fsm_wf B p" "rel_ok B rel \<Longrightarrow> fsm_ok B p"
    using page_laws(1) [of B "get_page B rel b" slot v] page_laws(2) [of B "get_page B rel b" slot v]
      get_page_wf [OF B wf] get_page_ok [OF B] B slot by (auto simp: p_def nslots_eq)
  have b1: "b < smgrnblocks r1" using n1 by simp
  have wf2: "rel_wf B r2" "rel_ok B rel \<Longrightarrow> rel_ok B r2"
    using wf1 ok1 pwf put_page_wf put_page_ok by (auto simp: r2_def)
  have get2: "get_page B r2 c = (if c = b then p else get_page B rel c)" for c
    using get_put_page [OF b1] pages by (simp add: r2_def)
  have same: "fsm_logical_to_physical B a = b \<longleftrightarrow> a = addr" if "valid_addr B a" for a
    using phys_inj [OF B that addr] by (auto simp: b_def)
  have slot2: "page_slot B r2 a i = (if a = addr \<and> i = slot then v else page_slot B rel a i)"
    if "valid_addr B a" "i < SlotsPerFSMPage B" for a i
    using page_laws(3) [of B "get_page B rel b" slot i v] get_page_wf [OF B wf] B slot that same [OF that(1)]
    by (auto simp: page_slot_def get2 p_def nslots_eq b_def)
  have eq: "fsm_set_and_search B rel addr slot v m srch =
     (if m \<noteq> 0 \<and> srch then case fsm_search_avail B 2 (get_page B r2 b) m (level addr = 0) of
                     None \<Rightarrow> None | Some (newslot, page) \<Rightarrow> Some (newslot, put_page r2 b page)
      else Some (-1, r2))"
  proof -
    have r2: "put_page r1 b (snd (fsm_set_avail B (get_page B r1 b) slot v)) = r2"
      by (simp add: r2_def p_def set_slot_def pages)
    show ?thesis unfolding fsm_set_and_search_def r1 Let_def prod.case option.case r2 ..
  qed
  show thesis
  proof (cases "m \<noteq> 0 \<and> srch")
    case False
    then show thesis using that [of "-1" r2] eq wf2 slot2 n1 by (auto simp: r2_def b_def)
  next
    case True
    have pw: "valid_blcksz B \<and> fsm_wf B p" using B pwf by simp
    obtain r q where s: "fsm_search_avail B 2 p m (level addr = 0) = Some (r, q)"
      using page_laws(4) [OF pw] by blast
    note sp = page_laws(5) [OF pw s] page_laws(6) [OF pw s] page_laws(7) [OF pw s]
    define r3 where "r3 = put_page r2 b q"
    have b2: "b < smgrnblocks r2" using b1 by (simp add: r2_def)
    have "rel_wf B r3" "rel_ok B rel \<Longrightarrow> rel_ok B r3"
      using wf2 sp(1) pwf put_page_wf put_page_ok B by (auto simp: r3_def)
    moreover have slot3: "page_slot B r3 a i = page_slot B r2 a i" if "i < SlotsPerFSMPage B" for a i
      using sp(2) that get_put_page [OF b2, of B q] get2 by (auto simp: page_slot_def r3_def nslots_eq)
    moreover have "r = -1 \<or> (0 \<le> r \<and> nat r < SlotsPerFSMPage B \<and> m \<le> page_slot B r3 addr (nat r))"
      using sp(3) slot3 get2 by (auto simp: nslots_eq page_slot_def b_def)
    ultimately show thesis
      using that [of r r3] eq True s slot2 n1 get2 by (simp add: r3_def r2_def b_def)
  qed
qed

lemma search_page_spec:
  assumes B: "valid_blcksz B" and wf: "rel_wf B rel"
  obtains r mx rel' where "search_page B rel m addr = Some (r, mx, rel')"
    "rel_wf B rel'" "rel_ok B rel \<Longrightarrow> rel_ok B rel'" "smgrnblocks rel' = smgrnblocks rel"
    "\<And>a i. i < SlotsPerFSMPage B \<Longrightarrow> page_slot B rel' a i = page_slot B rel a i"
    "r = -1 \<or> (0 \<le> r \<and> nat r < SlotsPerFSMPage B \<and> fsm_logical_to_physical B addr < smgrnblocks rel \<and>
               m \<le> page_slot B rel addr (nat r))"
    "rel_ok B rel \<Longrightarrow> r = -1 \<Longrightarrow> i < SlotsPerFSMPage B \<Longrightarrow>
     fsm_logical_to_physical B addr < smgrnblocks rel \<Longrightarrow> page_slot B rel addr i < m"
proof -
  define b where "b = fsm_logical_to_physical B addr"
  obtain r1 where r1: "fsm_readbuf B rel addr False = (if b < smgrnblocks rel then Some b else None, r1)"
    and fork: "fsm_fork r1 = fsm_fork rel" and wf1: "rel_wf B r1" and ok1: "rel_ok B r1 \<longleftrightarrow> rel_ok B rel"
    using readbuf_noextend [OF wf, of addr] unfolding b_def by metis
  have same: "smgrnblocks r1 = smgrnblocks rel" "\<And>c. get_page B r1 c = get_page B rel c"
    using fork by (simp_all add: smgrnblocks_def get_page_def)
  show thesis
  proof (cases "b < smgrnblocks rel")
    case False
    then have "search_page B rel m addr = Some (-1, 0, r1)" by (simp add: search_page_def r1)
    then show thesis using that [of "-1" 0 r1] wf1 ok1 same False by (simp add: page_slot_def b_def)
  next
    case True
    define p where "p = get_page B rel b"
    have pw: "valid_blcksz B \<and> fsm_wf B p" using B get_page_wf [OF B wf] by (simp add: p_def)
    obtain r q where s: "fsm_search_avail B 2 p m (level addr = 0) = Some (r, q)" using page_laws(4) [OF pw] by blast
    note sp = page_laws(5) [OF pw s] page_laws(6) [OF pw s] page_laws(7) [OF pw s]
    define r2 where "r2 = put_page r1 b q"
    have "search_page B rel m addr = Some (r, if r = -1 then fsm_get_max_avail q else 0, r2)"
      using True s by (simp add: search_page_def r1 same p_def [symmetric] r2_def)
    moreover have "rel_wf B r2" "rel_ok B rel \<Longrightarrow> rel_ok B r2"
      using wf1 ok1 sp(1) B put_page_wf put_page_ok get_page_ok [OF B, of rel b] by (auto simp: r2_def p_def)
    moreover have "page_slot B r2 a i = page_slot B rel a i" if "i < SlotsPerFSMPage B" for a i
      using sp(2) that get_put_page [of b r1 B q] True same by (auto simp: page_slot_def r2_def nslots_eq p_def)
    moreover have "page_slot B rel addr i < m" if "rel_ok B rel" "r = -1" "i < SlotsPerFSMPage B" for i
      using fsm_page.search_none [of B p m "level addr = 0" q i] get_page_ok [OF B that(1)] B s that
      by (simp add: p_def page_slot_def b_def nslots_eq)
    ultimately show thesis
      using that [of r "if r = -1 then fsm_get_max_avail q else 0" r2] sp(3) same True
      by (auto simp: r2_def p_def page_slot_def b_def nslots_eq)
  qed
qed

subsection \<open>The search of the tree\<close>

definition leaf_addr :: "nat \<Rightarrow> FSMAddress" where
  "leaf_addr pageno = \<lparr>level = 0, logpageno = pageno\<rparr>"

text \<open>
  What a search that starts with \<open>rel\<close> and ends with \<open>res\<close> promises: it returned, it kept the invariants, the size of
  the fork and the recorded categories, and it reported either no block or the block of a slot that is large enough.
\<close>

definition search_promise :: "nat \<Rightarrow> fsm_rel \<Rightarrow> uint8 \<Rightarrow> (nat \<times> fsm_rel) option \<Rightarrow> bool" where
  "search_promise B rel m res \<longleftrightarrow>
     (\<exists>b rel'. res = Some (b, rel') \<and> rel_wf B rel' \<and> (rel_ok B rel \<longrightarrow> rel_ok B rel') \<and> smgrnblocks rel' = smgrnblocks rel \<and>
       (\<forall>p i. i < SlotsPerFSMPage B \<longrightarrow> page_slot B rel' (leaf_addr p) i = page_slot B rel (leaf_addr p) i) \<and>
       (b = InvalidBlockNumber \<or>
        (\<exists>p i. i < SlotsPerFSMPage B \<and> fsm_logical_to_physical B (leaf_addr p) < smgrnblocks rel \<and>
               b = (p * SlotsPerFSMPage B + i) mod 2 ^ 32 \<and> m \<le> page_slot B rel (leaf_addr p) i)))"

lemma search_promise_trans:
  assumes "search_promise B rel2 m res" "smgrnblocks rel2 = smgrnblocks rel" "rel_ok B rel \<Longrightarrow> rel_ok B rel2"
    "\<And>p i. i < SlotsPerFSMPage B \<Longrightarrow> page_slot B rel2 (leaf_addr p) i = page_slot B rel (leaf_addr p) i"
  shows "search_promise B rel m res"
  using assms unfolding search_promise_def by (metis (no_types, lifting))

lemma leaf_addr_valid: "valid_addr B (leaf_addr p)"
  by (simp add: leaf_addr_def valid_addr_def)

lemma search_loop_promise:
  assumes "valid_blcksz B" "rel_wf B rel" "valid_addr B addr"
    "level addr = FSM_ROOT_LEVEL B \<or> fsm_logical_to_physical B (fst (fsm_get_parent B addr)) < smgrnblocks rel"
  shows "search_promise B rel m (fsm_search_loop B rel m restarts addr)"
  using assms
proof (induction B rel m restarts addr rule: fsm_search_loop.induct)
  case (1 B rel m restarts addr)
  obtain r mx rel1 where sp: "search_page B rel m addr = Some (r, mx, rel1)"
    and wf1: "rel_wf B rel1" and ok1: "rel_ok B rel \<Longrightarrow> rel_ok B rel1" and n1: "smgrnblocks rel1 = smgrnblocks rel"
    and slots1: "\<And>a i. i < SlotsPerFSMPage B \<Longrightarrow> page_slot B rel1 a i = page_slot B rel a i"
    and found: "r = -1 \<or> (0 \<le> r \<and> nat r < SlotsPerFSMPage B \<and> fsm_logical_to_physical B addr < smgrnblocks rel \<and>
               m \<le> page_slot B rel addr (nat r))"
    using search_page_spec [OF 1(3,4), of m addr] by metis
  note unfold = fsm_search_loop.simps [of B rel m restarts addr] sp
  consider (leaf) "r \<noteq> -1" "level addr = 0" | (down) "r \<noteq> -1" "level addr \<noteq> 0"
    | (stop) "r = -1" "level addr = FSM_ROOT_LEVEL B" | (up) "r = -1" "level addr \<noteq> FSM_ROOT_LEVEL B"
    by blast
  then show ?case
  proof cases
    case leaf
    define p where "p = logpageno addr"
    have a: "addr = leaf_addr p" using leaf by (simp add: leaf_addr_def p_def)
    have "fsm_search_loop B rel m restarts addr = Some ((p * SlotsPerFSMPage B + nat r) mod 2 ^ 32, rel1)"
      using leaf by (simp add: unfold fsm_get_heap_blk_def p_def)
    moreover have "nat r < SlotsPerFSMPage B \<and> fsm_logical_to_physical B (leaf_addr p) < smgrnblocks rel \<and>
        m \<le> page_slot B rel (leaf_addr p) (nat r)"
      using found leaf a by auto
    ultimately show ?thesis
      using wf1 ok1 n1 slots1 unfolding search_promise_def by blast
  next
    case down
    define c where "c = fsm_get_child B addr (nat r)"
    have "fsm_get_parent B c = (addr, nat r)" using child_parent down found by (simp add: c_def)
    then have "search_promise B rel1 m (fsm_search_loop B rel1 m restarts c)"
      using 1(1) [OF sp refl refl] down wf1 1(3,5) child_valid n1 found by (simp add: c_def)
    then show ?thesis
      using down ok1 n1 slots1 by (simp add: unfold c_def search_promise_trans)
  next
    case stop
    then show ?thesis using wf1 ok1 n1 slots1 by (auto simp: unfold search_promise_def)
  next
    case up
    obtain parent ps where par: "fsm_get_parent B addr = (parent, ps)" by force
    have pv: "valid_addr B parent" "level parent \<noteq> 0" "ps < SlotsPerFSMPage B"
      using parent_valid [OF 1(5) up(2)] par SlotsPerFSMPage_ge [OF 1(3)] by (auto simp: fsm_get_parent_def)
    obtain x rel2 where ss: "fsm_set_and_search B rel1 parent ps mx 0 True = Some (x, rel2)"
      and wf2: "rel_wf B rel2" and ok2: "rel_ok B rel1 \<Longrightarrow> rel_ok B rel2"
      and n2: "smgrnblocks rel2 = max (smgrnblocks rel1) (fsm_logical_to_physical B parent + 1)"
      and slots2: "\<And>a i. valid_addr B a \<Longrightarrow> i < SlotsPerFSMPage B \<Longrightarrow>
         page_slot B rel2 a i = (if a = parent \<and> i = ps then mx else page_slot B rel1 a i)"
      using set_and_search_spec [OF 1(3) wf1 pv(1,3), of mx 0 True] by metis
    have keep: "smgrnblocks rel2 = smgrnblocks rel" "rel_ok B rel \<Longrightarrow> rel_ok B rel2"
      "\<And>p i. i < SlotsPerFSMPage B \<Longrightarrow> page_slot B rel2 (leaf_addr p) i = page_slot B rel (leaf_addr p) i"
      using n1 n2 1(6) up(2) par ok1 ok2 slots2 [OF leaf_addr_valid] slots1 pv(2) by (auto simp: leaf_addr_def)
    show ?thesis
    proof (cases "restarts > 10000")
      case True
      then show ?thesis using up par ss keep wf2 by (auto simp: unfold search_promise_def)
    next
      case False
      have "search_promise B rel2 m (fsm_search_loop B rel2 m (restarts + 1) (g_fsm_root_address B))"
        using 1(2) [OF sp refl refl _ up(2) par [symmetric] ss refl False] up(1) wf2 1(3) root_addr_valid
        by (simp add: g_fsm_root_address_def)
      then show ?thesis
        using up par ss False keep by (simp add: unfold search_promise_trans)
    qed
  qed
qed

lemma fsm_search_promise:
  "valid_blcksz B \<Longrightarrow> rel_wf B rel \<Longrightarrow> search_promise B rel m (fsm_search B rel m)"
  unfolding fsm_search_def
  by (rule search_loop_promise) (simp_all add: root_addr_valid, simp add: g_fsm_root_address_def)

subsection \<open>Recording and reading\<close>

lemma location_inj:
  assumes "valid_blcksz B"
  shows "fsm_get_location B a = fsm_get_location B b \<longleftrightarrow> a = b"
  by (auto simp: fsm_get_location_def) (metis div_mult_mod_eq)

lemma location_heap_blk:
  assumes "valid_blcksz B" "blk < 2 ^ 32"
  shows "fsm_get_heap_blk B (fst (fsm_get_location B blk)) (snd (fsm_get_location B blk)) = blk"
  using assms by (simp add: fsm_get_heap_blk_def fsm_get_location_def)

lemma location_split: "fsm_get_location B blk = (leaf_addr (blk div SlotsPerFSMPage B), blk mod SlotsPerFSMPage B)"
  by (simp add: fsm_get_location_def leaf_addr_def)

lemma heap_blk_location:
  assumes "i < SlotsPerFSMPage B"
  shows "fsm_get_location B (p * SlotsPerFSMPage B + i) = (leaf_addr p, i)"
  using assms by (simp add: location_split)

lemma recorded_cat_eq:
  "recorded_cat B rel blk = page_slot B rel (leaf_addr (blk div SlotsPerFSMPage B)) (blk mod SlotsPerFSMPage B)"
  by (simp add: recorded_cat_def location_split)

lemma recorded_cat_past_end:
  assumes "valid_blcksz B" "smgrnblocks rel \<le> fsm_logical_to_physical B (leaf_addr (blk div SlotsPerFSMPage B))"
  shows "recorded_cat B rel blk = 0"
  using assms SlotsPerFSMPage_ge [OF assms(1)] empty_fsm_page_slot [of "blk mod SlotsPerFSMPage B" B]
  by (auto simp: recorded_cat_eq page_slot_def get_page_def smgrnblocks_def split: option.splits)

lemma GetRecordedFreeSpace_eq:
  assumes "valid_blcksz B" "rel_wf B rel"
  shows "fst (GetRecordedFreeSpace B rel blk) = fsm_space_cat_to_avail B (recorded_cat B rel blk)"
    "fsm_fork (snd (GetRecordedFreeSpace B rel blk)) = fsm_fork rel"
    "rel_wf B (snd (GetRecordedFreeSpace B rel blk))"
proof -
  define a where "a = leaf_addr (blk div SlotsPerFSMPage B)"
  obtain r1 where r1: "fsm_readbuf B rel a False =
       (if fsm_logical_to_physical B a < smgrnblocks rel then Some (fsm_logical_to_physical B a) else None, r1)"
    and fork: "fsm_fork r1 = fsm_fork rel" and wf: "rel_wf B r1"
    using readbuf_noextend [OF assms(2), of a] by metis
  have page: "get_page B r1 c = get_page B rel c" for c using fork by (simp add: get_page_def)
  show "fst (GetRecordedFreeSpace B rel blk) = fsm_space_cat_to_avail B (recorded_cat B rel blk)"
    using recorded_cat_past_end [OF assms(1), of rel blk]
    by (auto simp: GetRecordedFreeSpace_def location_split a_def [symmetric] r1 page recorded_cat_eq page_slot_def
        fsm_space_cat_to_avail_def not_less)
  show "fsm_fork (snd (GetRecordedFreeSpace B rel blk)) = fsm_fork rel" "rel_wf B (snd (GetRecordedFreeSpace B rel blk))"
    using fork wf by (simp_all add: GetRecordedFreeSpace_def location_split a_def [symmetric] r1)
qed

lemma recorded_cat_update:
  assumes B: "valid_blcksz B"
    and slots: "\<And>a i. valid_addr B a \<Longrightarrow> i < SlotsPerFSMPage B \<Longrightarrow>
       page_slot B rel' a i = (if a = fst (fsm_get_location B blk) \<and> i = snd (fsm_get_location B blk) then v else page_slot B rel a i)"
  shows "recorded_cat B rel' c = (if c = blk then v else recorded_cat B rel c)"
  using slots [OF location_valid location_slot_less [OF B], of c c] location_inj [OF B, of c blk]
  by (auto simp: recorded_cat_def prod_eq_iff split: prod.splits)

lemma RecordPageWithFreeSpace_spec:
  assumes "valid_blcksz B" "rel_wf B rel"
  obtains rel' where "RecordPageWithFreeSpace B rel blk avail = Some rel'" "rel_wf B rel'" "rel_ok B rel \<Longrightarrow> rel_ok B rel'"
    "\<And>c. recorded_cat B rel' c = (if c = blk then fsm_space_avail_to_cat B avail else recorded_cat B rel c)"
proof -
  obtain r rel' where s: "fsm_set_and_search B rel (fst (fsm_get_location B blk)) (snd (fsm_get_location B blk))
       (fsm_space_avail_to_cat B avail) 0 True = Some (r, rel')"
    and k: "rel_wf B rel'" "rel_ok B rel \<Longrightarrow> rel_ok B rel'"
    and slots: "\<And>a i. valid_addr B a \<Longrightarrow> i < SlotsPerFSMPage B \<Longrightarrow>
       page_slot B rel' a i = (if a = fst (fsm_get_location B blk) \<and> i = snd (fsm_get_location B blk)
         then fsm_space_avail_to_cat B avail else page_slot B rel a i)"
    using set_and_search_spec [OF assms location_valid location_slot_less [OF assms(1)],
        of blk blk "fsm_space_avail_to_cat B avail" 0 True] by metis
  have "RecordPageWithFreeSpace B rel blk avail = Some rel'"
    using s by (cases "fsm_get_location B blk") (simp add: RecordPageWithFreeSpace_def Let_def)
  then show thesis using that [of rel'] k recorded_cat_update [OF assms(1) slots] by blast
qed

text \<open>
  A map of fewer than \<open>2 ^ 32\<close> slots: the block number computed from a slot does not wrap, and a search can be read
  as a statement on recorded categories.
\<close>

definition fsm_addressable :: "nat \<Rightarrow> fsm_rel \<Rightarrow> bool" where
  "fsm_addressable B rel \<longleftrightarrow> smgrnblocks rel * SlotsPerFSMPage B < 2 ^ 32"

lemma existing_leaf_block:
  assumes "valid_blcksz B" "fsm_addressable B rel" "i < SlotsPerFSMPage B"
    "fsm_logical_to_physical B (leaf_addr p) < smgrnblocks rel"
  shows "p * SlotsPerFSMPage B + i < 2 ^ 32 - 1"
proof -
  have "p < smgrnblocks rel"
    using logpageno_le_phys [OF assms(1) leaf_addr_valid, of p] assms(4) by (simp add: leaf_index_def leaf_addr_def)
  then have "Suc p * SlotsPerFSMPage B \<le> smgrnblocks rel * SlotsPerFSMPage B" by (intro mult_le_mono1) simp
  then have "p * SlotsPerFSMPage B + SlotsPerFSMPage B \<le> smgrnblocks rel * SlotsPerFSMPage B" by simp
  then show ?thesis using assms(2,3) unfolding fsm_addressable_def by linarith
qed

lemma search_promise_block:
  assumes "valid_blcksz B" "fsm_addressable B rel" "search_promise B rel m res"
  obtains b rel' where "res = Some (b, rel')" "rel_wf B rel'" "rel_ok B rel \<Longrightarrow> rel_ok B rel'" "fsm_addressable B rel'"
    "\<And>c. recorded_cat B rel' c = recorded_cat B rel c"
    "b \<noteq> InvalidBlockNumber \<Longrightarrow> m \<le> recorded_cat B rel b"
proof -
  obtain b rel' where r: "res = Some (b, rel')" "rel_wf B rel'" "rel_ok B rel \<longrightarrow> rel_ok B rel'" "smgrnblocks rel' = smgrnblocks rel"
    and slots: "\<forall>p i. i < SlotsPerFSMPage B \<longrightarrow> page_slot B rel' (leaf_addr p) i = page_slot B rel (leaf_addr p) i"
    and found: "b = InvalidBlockNumber \<or>
        (\<exists>p i. i < SlotsPerFSMPage B \<and> fsm_logical_to_physical B (leaf_addr p) < smgrnblocks rel \<and>
               b = (p * SlotsPerFSMPage B + i) mod 2 ^ 32 \<and> m \<le> page_slot B rel (leaf_addr p) i)"
    using assms(3) unfolding search_promise_def by blast
  have same: "recorded_cat B rel' c = recorded_cat B rel c" for c
    using slots SlotsPerFSMPage_ge [OF assms(1)] by (simp add: recorded_cat_eq)
  have "m \<le> recorded_cat B rel b" if valid: "b \<noteq> InvalidBlockNumber"
  proof -
    obtain p i where pi: "i < SlotsPerFSMPage B" "fsm_logical_to_physical B (leaf_addr p) < smgrnblocks rel"
       "b = (p * SlotsPerFSMPage B + i) mod 2 ^ 32" "m \<le> page_slot B rel (leaf_addr p) i"
      using valid found by blast
    have "b = p * SlotsPerFSMPage B + i" using existing_leaf_block [OF assms(1,2) pi(1,2)] pi(3) by simp
    then show ?thesis using pi(4) heap_blk_location [OF pi(1), of p] by (simp add: recorded_cat_def)
  qed
  then show thesis using that [of b rel'] r same assms(2) by (simp add: fsm_addressable_def)
qed

subsection \<open>Truncation\<close>

lemma less_iff_div_mod: "(c :: nat) < n \<longleftrightarrow> c div S < n div S \<or> c div S = n div S \<and> c mod S < n mod S"
proof (cases "c div S" "n div S" rule: linorder_cases)
  case less
  then have "\<not> n \<le> c" using div_le_mono [of n c S] by auto
  then show ?thesis using less by auto
next
  case equal
  have "c = n div S * S + c mod S" "n = n div S * S + n mod S"
    using div_mult_mod_eq [of c S] div_mult_mod_eq [of n S] equal by simp_all
  then have "c < n \<longleftrightarrow> c mod S < n mod S" by linarith
  then show ?thesis using equal by simp
next
  case greater
  then have "\<not> c \<le> n" using div_le_mono [of c n S] by auto
  then show ?thesis using greater by auto
qed

lemma leaf_phys_le:
  assumes "valid_blcksz B"
  shows "fsm_logical_to_physical B (leaf_addr p) \<le> fsm_logical_to_physical B (leaf_addr q) \<longleftrightarrow> p \<le> q"
proof -
  have "fsm_logical_to_physical B (leaf_addr x) < fsm_logical_to_physical B (leaf_addr y)" if "x < y" for x y
    using phys_less [OF assms leaf_addr_valid leaf_addr_valid, of x y] that by (simp add: leaf_index_def leaf_addr_def)
  from this [of p q] this [of q p] show ?thesis by (cases p q rule: linorder_cases) auto
qed

lemma get_page_truncate:
  "get_page B (smgrtruncate rel n) b = (if b < n then get_page B rel b else empty_fsm_page B)"
  by (auto simp: get_page_def smgrtruncate_def split: option.splits)

lemma smgrtruncate_wf:
  "rel_wf B rel \<Longrightarrow> n \<le> smgrnblocks rel \<Longrightarrow> rel_wf B ((smgrtruncate rel n)\<lparr>smgr_fsm_nblocks := Some n\<rparr>)"
  "rel_ok B rel \<Longrightarrow> n \<le> smgrnblocks rel \<Longrightarrow> rel_ok B ((smgrtruncate rel n)\<lparr>smgr_fsm_nblocks := Some n\<rparr>)"
  by (auto simp: rel_wf_def rel_ok_def smgrtruncate_def smgrnblocks_def list_all_iff dest: in_set_takeD split: option.splits)

lemma get_page_nblocks [simp]: "get_page B (rel\<lparr>smgr_fsm_nblocks := x\<rparr>) b = get_page B rel b"
  by (simp add: get_page_def)

text \<open>Cutting the fork after page \<open>n\<close> forgets the blocks whose leaf page lies beyond it, and only those.\<close>

lemma recorded_cat_truncate:
  assumes "valid_blcksz B"
  shows "recorded_cat B ((smgrtruncate rel n)\<lparr>smgr_fsm_nblocks := x\<rparr>) c =
         (if fsm_logical_to_physical B (leaf_addr (c div SlotsPerFSMPage B)) < n then recorded_cat B rel c else 0)"
  using SlotsPerFSMPage_ge [OF assms] empty_fsm_page_slot [of "c mod SlotsPerFSMPage B" B]
  by (simp add: recorded_cat_eq page_slot_def get_page_truncate)

lemma FreeSpaceMapTruncateRel_spec:
  assumes B: "valid_blcksz B" and wf: "rel_wf B rel"
  shows "rel_wf B (FreeSpaceMapTruncateRel B rel n) \<and> (rel_ok B rel \<longrightarrow> rel_ok B (FreeSpaceMapTruncateRel B rel n)) \<and>
    recorded_cat B (FreeSpaceMapTruncateRel B rel n) c = (if c < n then recorded_cat B rel c else 0)"
proof -
  define S where "S = SlotsPerFSMPage B"
  define a where "a = leaf_addr (n div S)"
  define b where "b = fsm_logical_to_physical B a"
  have S: "0 < S" using SlotsPerFSMPage_ge [OF B] by (simp add: S_def)
  have later: "b \<le> fsm_logical_to_physical B (leaf_addr (c div S))" if "n \<le> c"
    using leaf_phys_le [OF B] div_le_mono [OF that] by (simp add: b_def a_def)
  have gone: "recorded_cat B rel c = 0" if "n \<le> c" "smgrnblocks rel \<le> b"
    using recorded_cat_past_end [OF B, of rel c] later [OF that(1)] that(2) by (simp add: S_def)
  show ?thesis
  proof (cases "smgrexists rel")
    case False
    then have "smgrnblocks rel = 0" by (simp add: smgrexists_def smgrnblocks_def)
    then show ?thesis using False wf gone by (simp add: FreeSpaceMapTruncateRel_def)
  next
    case True
    note unfold = FreeSpaceMapTruncateRel_def True location_split S_def [symmetric] a_def [symmetric] b_def [symmetric] Let_def
    show ?thesis
    proof (cases "0 < n mod S")
      case at_boundary: False
      have small: "fsm_logical_to_physical B (leaf_addr (c div S)) < b" if "c < n"
      proof -
        have "n = n div S * S" using at_boundary div_mult_mod_eq [of n S] by simp
        then have "c div S < n div S" using that S by (metis less_mult_imp_div_less)
        then show ?thesis using leaf_phys_le [OF B, of "n div S" "c div S"] by (simp add: b_def a_def not_le)
      qed
      show ?thesis
      proof (cases "smgrnblocks rel \<le> b")
        case True
        then show ?thesis using at_boundary gone wf by (simp add: unfold)
      next
        case False
        then show ?thesis
          using at_boundary small later smgrtruncate_wf [where n = b and rel = rel and B = B] wf
          by (auto simp: unfold recorded_cat_truncate [OF B] S_def [symmetric] not_less)
      qed
    next
      case inside: True
      obtain r1 where r1: "fsm_readbuf B rel a False = (if b < smgrnblocks rel then Some b else None, r1)"
        and fork: "fsm_fork r1 = fsm_fork rel" and wf1: "rel_wf B r1" and ok1: "rel_ok B r1 \<longleftrightarrow> rel_ok B rel"
        using readbuf_noextend [OF wf, of a] unfolding b_def by metis
      have same: "smgrnblocks r1 = smgrnblocks rel" "\<And>x. get_page B r1 x = get_page B rel x" "recorded_cat B r1 c = recorded_cat B rel c"
        using fork by (simp_all add: smgrnblocks_def get_page_def recorded_cat_eq page_slot_def)
      show ?thesis
      proof (cases "b < smgrnblocks rel")
        case False
        then show ?thesis using inside gone wf1 ok1 same by (auto simp: unfold r1)
      next
        case True
        define p where "p = snd (fsm_truncate_avail B (get_page B rel b) (n mod S))"
        define r2 where "r2 = put_page r1 b p"
        have sl: "n mod S < LeafNodesPerPage B" using S by (simp add: S_def nslots_eq)
        note tr = fsm_truncate_avail_spec [OF B get_page_wf [OF B wf, of b] sl]
        have pw: "rel_wf B r2" "rel_ok B rel \<longrightarrow> rel_ok B r2"
          using put_page_wf put_page_ok wf1 ok1 tr(1,2) get_page_ok [OF B] by (auto simp: r2_def p_def)
        have n2: "b + 1 \<le> smgrnblocks r2" using True same by (simp add: r2_def)
        have cat2: "recorded_cat B r2 c = (if c div S = n div S \<and> n mod S \<le> c mod S then 0 else recorded_cat B rel c)"
        proof (cases "c div S = n div S")
          case eq: True
          have "recorded_cat B r2 c = fsm_get_avail B p (c mod S)" "recorded_cat B rel c = fsm_get_avail B (get_page B rel b) (c mod S)"
            using get_put_page [of b r1 B p b] True same eq by (simp_all add: recorded_cat_eq page_slot_def S_def [symmetric] r2_def b_def a_def)
          then show ?thesis using tr(3) [of "c mod S"] S eq by (simp add: p_def nslots_eq S_def)
        next
          case False
          then have "fsm_logical_to_physical B (leaf_addr (c div S)) \<noteq> b"
            using phys_inj [OF B leaf_addr_valid leaf_addr_valid, of "c div S" "n div S"] by (auto simp: b_def a_def leaf_addr_def)
          then show ?thesis
            using get_put_page [of b r1 B p] True same False by (simp add: recorded_cat_eq page_slot_def S_def [symmetric] r2_def)
        qed
        have lt: "fsm_logical_to_physical B (leaf_addr (c div S)) < b + 1 \<longleftrightarrow> c div S \<le> n div S"
          using leaf_phys_le [OF B, of "c div S" "n div S"] by (simp add: b_def a_def less_Suc_eq_le)
        have ord: "c < n \<longleftrightarrow> c div S < n div S \<or> c div S = n div S \<and> c mod S < n mod S"
          by (rule less_iff_div_mod)
        have "FreeSpaceMapTruncateRel B rel n = (smgrtruncate r2 (b + 1))\<lparr>smgr_fsm_nblocks := Some (b + 1)\<rparr>"
          using inside True same by (simp add: unfold r1 r2_def p_def)
        then show ?thesis
          using smgrtruncate_wf [OF _ n2, of B] pw cat2 lt ord
          by (auto simp: recorded_cat_truncate [OF B] S_def [symmetric])
      qed
    qed
  qed
qed
subsection \<open>Vacuum\<close>

text \<open>The greatest slot of the page at an address, \<open>0\<close> past the end of the fork.\<close>

definition page_root :: "nat \<Rightarrow> fsm_rel \<Rightarrow> FSMAddress \<Rightarrow> uint8" where
  "page_root B rel addr = fsm_get_max_avail (get_page B rel (fsm_logical_to_physical B addr))"

definition page_exists :: "nat \<Rightarrow> fsm_rel \<Rightarrow> FSMAddress \<Rightarrow> bool" where
  "page_exists B rel addr \<longleftrightarrow> fsm_logical_to_physical B addr < smgrnblocks rel"

definition in_subtree :: "nat \<Rightarrow> nat \<Rightarrow> nat \<Rightarrow> FSMAddress \<Rightarrow> bool" where
  "in_subtree B l p a \<longleftrightarrow> level a \<le> l \<and> logpageno a div SlotsPerFSMPage B ^ (l - level a) = p"

text \<open>Every slot of an upper page agrees with the page below it.\<close>

definition consistent_at :: "nat \<Rightarrow> fsm_rel \<Rightarrow> FSMAddress \<Rightarrow> bool" where
  "consistent_at B rel a \<longleftrightarrow> (0 < level a \<and> page_exists B rel a \<longrightarrow>
     (\<forall>i < SlotsPerFSMPage B. page_slot B rel a i = page_root B rel (fsm_get_child B a i)))"

lemma page_root_0: "valid_blcksz B \<Longrightarrow> \<not> page_exists B rel a \<Longrightarrow> page_root B rel a = 0"
  using valid_blcksz_bounds(2) [of B]
  by (auto simp: page_root_def page_exists_def get_page_def smgrnblocks_def fsm_get_max_avail_def empty_fsm_page_def split: option.splits)

lemma page_root_ge:
  "valid_blcksz B \<Longrightarrow> rel_ok B rel \<Longrightarrow> i < SlotsPerFSMPage B \<Longrightarrow> page_slot B rel a i \<le> page_root B rel a"
  using fsm_page.root_ge [of B "get_page B rel (fsm_logical_to_physical B a)" i] get_page_ok [of B rel]
  by (simp add: page_slot_def page_root_def nslots_eq)

lemma page_root_cong:
  assumes "valid_blcksz B" "rel_ok B r1" "rel_ok B r2" "\<And>i. i < SlotsPerFSMPage B \<Longrightarrow> page_slot B r1 a i = page_slot B r2 a i"
  shows "page_root B r1 a = page_root B r2 a"
  using fsm_page.root_cong [of B "get_page B r1 (fsm_logical_to_physical B a)" "get_page B r2 (fsm_logical_to_physical B a)"]
    get_page_ok assms by (simp add: page_slot_def page_root_def nslots_eq)

lemma consistent_at_cong:
  assumes "valid_blcksz B" "rel_ok B r1" "rel_ok B r2" "smgrnblocks r1 = smgrnblocks r2"
    "\<And>b i. i < SlotsPerFSMPage B \<Longrightarrow> b = a \<or> (\<exists>j < SlotsPerFSMPage B. b = fsm_get_child B a j) \<Longrightarrow>
       page_slot B r1 b i = page_slot B r2 b i"
    "consistent_at B r1 a"
  shows "consistent_at B r2 a"
proof -
  have "page_root B r1 (fsm_get_child B a j) = page_root B r2 (fsm_get_child B a j)" if "j < SlotsPerFSMPage B" for j
    using assms(5) that by (intro page_root_cong [OF assms(1-3)]) auto
  then show ?thesis using assms(4,6) assms(5) [of _ a] by (simp add: consistent_at_def page_exists_def)
qed

text \<open>The pages below a page, and their order in the file.\<close>

lemma in_subtree_Suc:
  "level a \<le> l \<Longrightarrow> in_subtree B (Suc l) p a \<longleftrightarrow> logpageno a div SlotsPerFSMPage B ^ (l - level a) div SlotsPerFSMPage B = p"
  by (simp add: in_subtree_def Suc_diff_le div_mult2_eq [symmetric] mult.commute)

lemma in_subtree_up:
  assumes "i < SlotsPerFSMPage B" "in_subtree B l (p * SlotsPerFSMPage B + i) a"
  shows "in_subtree B (Suc l) p a"
proof -
  have "level a \<le> l" "logpageno a div SlotsPerFSMPage B ^ (l - level a) = p * SlotsPerFSMPage B + i"
    using assms(2) by (simp_all add: in_subtree_def)
  then show ?thesis using assms(1) by (simp add: in_subtree_Suc)
qed

lemma in_subtree_cases:
  assumes "valid_blcksz B" "in_subtree B (Suc l) p a"
  shows "a = \<lparr>level = Suc l, logpageno = p\<rparr> \<or> (\<exists>i < SlotsPerFSMPage B. in_subtree B l (p * SlotsPerFSMPage B + i) a)"
proof (cases "level a = Suc l")
  case True
  then show ?thesis using assms(2) by (simp add: in_subtree_def)
next
  case False
  define q where "q = logpageno a div SlotsPerFSMPage B ^ (l - level a)"
  have le: "level a \<le> l" using assms(2) False by (simp add: in_subtree_def)
  then have "q div SlotsPerFSMPage B = p" using assms(2) by (simp add: in_subtree_Suc q_def)
  then have "q = p * SlotsPerFSMPage B + q mod SlotsPerFSMPage B" using div_mult_mod_eq [of q "SlotsPerFSMPage B"] by simp
  then have "in_subtree B l (p * SlotsPerFSMPage B + q mod SlotsPerFSMPage B) a" using le by (simp add: in_subtree_def q_def)
  then show ?thesis using SlotsPerFSMPage_ge [OF assms(1)] by (intro disjI2 exI [of _ "q mod SlotsPerFSMPage B"]) simp
qed

lemma in_subtree_get_child:
  assumes "in_subtree B l q a" "0 < level a" "j < SlotsPerFSMPage B"
  shows "in_subtree B l q (fsm_get_child B a j)"
proof -
  have le: "level a \<le> l" using assms(1) by (simp add: in_subtree_def)
  have "l - (level a - 1) = Suc (l - level a)" using assms(2) le by simp
  then have "(logpageno a * SlotsPerFSMPage B + j) div SlotsPerFSMPage B ^ (l - (level a - 1)) =
      (logpageno a * SlotsPerFSMPage B + j) div SlotsPerFSMPage B div SlotsPerFSMPage B ^ (l - level a)"
    by (simp add: div_mult2_eq)
  then show ?thesis using assms le by (simp add: in_subtree_def fsm_get_child_def)
qed

lemma in_subtree_unique: "in_subtree B l p a \<Longrightarrow> in_subtree B l q a \<Longrightarrow> p = q"
  by (simp add: in_subtree_def)

lemma subtree_leaf_index:
  assumes "valid_blcksz B" "in_subtree B l p a"
  shows "p * SlotsPerFSMPage B ^ l \<le> leaf_index B a"
proof -
  have "p * SlotsPerFSMPage B ^ (l - level a) \<le> logpageno a"
    using assms(2) div_times_less_eq_dividend [of "logpageno a" "SlotsPerFSMPage B ^ (l - level a)"] by (auto simp: in_subtree_def)
  then have "p * SlotsPerFSMPage B ^ (l - level a) * SlotsPerFSMPage B ^ level a \<le> logpageno a * SlotsPerFSMPage B ^ level a"
    by (rule mult_le_mono1)
  moreover have "SlotsPerFSMPage B ^ (l - level a) * SlotsPerFSMPage B ^ level a = SlotsPerFSMPage B ^ l"
    using assms(2) by (simp add: in_subtree_def power_add [symmetric])
  ultimately show ?thesis by (simp add: leaf_index_def mult.assoc)
qed

text \<open>A page that is past the end has its whole subtree, and its later siblings' subtrees, past the end.\<close>

lemma phys_subtree_le:
  assumes "valid_blcksz B" "l \<le> FSM_ROOT_LEVEL B" "in_subtree B l q a" "p \<le> q"
  shows "fsm_logical_to_physical B \<lparr>level = l, logpageno = p\<rparr> \<le> fsm_logical_to_physical B a"
proof -
  define c where "c = \<lparr>level = l, logpageno = p\<rparr>"
  have v: "valid_addr B c" "valid_addr B a" using assms(2,3) by (auto simp: c_def valid_addr_def in_subtree_def)
  have "leaf_index B c \<le> q * SlotsPerFSMPage B ^ l" using assms(4) by (simp add: c_def leaf_index_def)
  also have "\<dots> \<le> leaf_index B a" using subtree_leaf_index [OF assms(1,3)] .
  finally consider "leaf_index B c < leaf_index B a" | "leaf_index B c = leaf_index B a" by linarith
  then show ?thesis
  proof cases
    case 1
    then show ?thesis using phys_less [OF assms(1) v] by (simp add: c_def)
  next
    case 2
    have "level a \<le> level c" using assms(3) by (simp add: c_def in_subtree_def)
    then show ?thesis using phys_eq [OF v(1)] phys_eq [OF v(2)] 2 by (simp add: c_def)
  qed
qed

lemma subtree_past_end:
  assumes "valid_blcksz B" "l \<le> FSM_ROOT_LEVEL B" "in_subtree B l q a" "p \<le> q"
    "\<not> page_exists B rel \<lparr>level = l, logpageno = p\<rparr>"
  shows "\<not> page_exists B rel a"
  using phys_subtree_le [OF assms(1-4)] assms(5) by (simp add: page_exists_def)

text \<open>What vacuuming the subtree of page \<open>p\<close> of level \<open>l\<close> promises.\<close>

definition vacuum_promise :: "nat \<Rightarrow> nat \<Rightarrow> nat \<Rightarrow> fsm_rel \<Rightarrow> uint8 \<times> bool \<times> fsm_rel \<Rightarrow> bool" where
  "vacuum_promise B l p rel res \<longleftrightarrow>
     (case res of (mx, eof, rel') \<Rightarrow>
        rel_ok B rel' \<and> smgrnblocks rel' = smgrnblocks rel \<and>
        eof = (\<not> page_exists B rel \<lparr>level = l, logpageno = p\<rparr>) \<and>
        mx = page_root B rel' \<lparr>level = l, logpageno = p\<rparr> \<and>
        (\<forall>a. in_subtree B l p a \<longrightarrow> consistent_at B rel' a) \<and>
        (\<forall>a i. valid_addr B a \<longrightarrow> i < SlotsPerFSMPage B \<longrightarrow> \<not> in_subtree B l p a \<or> level a = 0 \<longrightarrow>
           page_slot B rel' a i = page_slot B rel a i))"

lemma page_exists_cong: "smgrnblocks r = smgrnblocks s \<Longrightarrow> page_exists B r a = page_exists B s a"
  by (simp add: page_exists_def)

text \<open>The loop over the slots: what holds after \<open>k\<close> of them.\<close>

definition vacuum_inv :: "nat \<Rightarrow> nat \<Rightarrow> nat \<Rightarrow> fsm_rel \<Rightarrow> nat \<Rightarrow> bool \<times> fsm_rel \<Rightarrow> bool" where
  "vacuum_inv B l p rel k st \<longleftrightarrow>
     (case st of (eof, rel') \<Rightarrow>
        rel_ok B rel' \<and> smgrnblocks rel' = smgrnblocks rel \<and>
        (eof \<longrightarrow> (\<forall>i \<ge> k. \<not> page_exists B rel \<lparr>level = l, logpageno = p * SlotsPerFSMPage B + i\<rparr>)) \<and>
        (\<forall>i < k. page_slot B rel' \<lparr>level = Suc l, logpageno = p\<rparr> i =
                 page_root B rel' \<lparr>level = l, logpageno = p * SlotsPerFSMPage B + i\<rparr>) \<and>
        (\<forall>i < k. \<forall>a. in_subtree B l (p * SlotsPerFSMPage B + i) a \<longrightarrow> consistent_at B rel' a) \<and>
        (\<forall>a i. valid_addr B a \<longrightarrow> i < SlotsPerFSMPage B \<longrightarrow> \<not> in_subtree B (Suc l) p a \<or> level a = 0 \<longrightarrow>
           page_slot B rel' a i = page_slot B rel a i))"

text \<open>One child: whether it is visited or past the end, the promise holds for it.\<close>

lemma vacuum_child_promise:
  assumes B: "valid_blcksz B" and l: "l \<le> FSM_ROOT_LEVEL B" and ok: "rel_ok B rel"
    and child: "\<not> eof \<Longrightarrow> vacuum_promise B l q rel (visit rel q)"
    and past: "eof \<Longrightarrow> \<not> page_exists B rel \<lparr>level = l, logpageno = q\<rparr>"
  shows "vacuum_promise B l q rel (if \<not> eof then visit rel q else (0, eof, rel))"
proof (cases eof)
  case True
  have "consistent_at B rel a" if "in_subtree B l q a" for a
    using subtree_past_end [OF B l that order_refl past [OF True]] by (simp add: consistent_at_def)
  then show ?thesis using True past ok page_root_0 [OF B past [OF True]] by (simp add: vacuum_promise_def)
qed (use child in simp)

lemma page_slot_put:
  assumes "valid_blcksz B" "rel_ok B rel" "valid_addr B a" "valid_addr B b" "page_exists B rel b" "k < SlotsPerFSMPage B" "i < SlotsPerFSMPage B"
  shows "page_slot B (put_page rel (fsm_logical_to_physical B b)
            (snd (fsm_set_avail B (get_page B rel (fsm_logical_to_physical B b)) k v))) a i =
         (if a = b \<and> i = k then v else page_slot B rel a i)"
  using assms phys_inj [OF assms(1,3,4)] get_page_ok [OF assms(1,2)]
    fsm_get_set_avail [of B "get_page B rel (fsm_logical_to_physical B b)" k i v]
  by (auto simp: page_slot_def page_exists_def get_put_page nslots_eq fsm_ok_def)

lemma vacuum_slot_step:
  assumes B: "valid_blcksz B" and l: "Suc l \<le> FSM_ROOT_LEVEL B" and k: "k < SlotsPerFSMPage B"
    and inv: "vacuum_inv B l p rel k (eof, r)"
    and ex: "page_exists B rel \<lparr>level = Suc l, logpageno = p\<rparr>"
    and child: "\<And>r q. rel_ok B r \<Longrightarrow> vacuum_promise B l q r (visit r q)"
  shows "vacuum_inv B l p rel (Suc k)
     (vacuum_slot B visit \<lparr>level = Suc l, logpageno = p\<rparr> (fsm_logical_to_physical B \<lparr>level = Suc l, logpageno = p\<rparr>) k (eof, r))"
proof -
  define S where "S = SlotsPerFSMPage B"
  define top where "top = \<lparr>level = Suc l, logpageno = p\<rparr>"
  define kid where "kid i = \<lparr>level = l, logpageno = p * S + i\<rparr>" for i
  obtain ca e r1 where res: "(if \<not> eof then visit r (p * S + k) else (0, eof, r)) = (ca, e, r1)"
    by (cases "if \<not> eof then visit r (p * S + k) else (0, eof, r)") auto
  have r: "rel_ok B r" "smgrnblocks r = smgrnblocks rel" using inv by (auto simp: vacuum_inv_def)
  have pr: "vacuum_promise B l (p * S + k) r (ca, e, r1)"
    unfolding res [symmetric]
    using inv r page_exists_cong [OF r(2)] l child [OF r(1)]
    by (intro vacuum_child_promise [OF B]) (auto simp: vacuum_inv_def S_def)
  have r1: "rel_ok B r1" "smgrnblocks r1 = smgrnblocks rel" "ca = page_root B r1 (kid k)" "e = (\<not> page_exists B rel (kid k))"
    using pr r page_exists_cong [OF r(2)] by (auto simp: vacuum_promise_def kid_def)
  define r2 where "r2 = (if fsm_get_avail B (get_page B r1 (fsm_logical_to_physical B top)) k \<noteq> ca
      then put_page r1 (fsm_logical_to_physical B top)
             (snd (fsm_set_avail B (get_page B r1 (fsm_logical_to_physical B top)) k ca)) else r1)"
  have eq: "vacuum_slot B visit top (fsm_logical_to_physical B top) k (eof, r) = (e, r2)"
  proof -
    have no: "logpageno (fsm_get_child B top k) = p * S + k" by (simp add: top_def fsm_get_child_def S_def)
    show ?thesis unfolding vacuum_slot_def prod.case no res by (simp add: r2_def)
  qed
  have tv: "valid_addr B top" "page_exists B r1 top" "page_exists B rel top"
    using l ex page_exists_cong [OF r1(2)] by (simp_all add: top_def valid_addr_def)
  have r2: "rel_ok B r2" "smgrnblocks r2 = smgrnblocks rel"
    using r1 put_page_ok [OF r1(1) fsm_set_avail_ok [OF B get_page_ok [OF B r1(1)]]] k by (auto simp: r2_def nslots_eq)
  have slot2: "page_slot B r2 a i = (if a = top \<and> i = k then ca else page_slot B r1 a i)" if "valid_addr B a" "i < S" for a i
    using page_slot_put [OF B r1(1) that(1) tv(1,2) k, of i ca] that(2) by (auto simp: r2_def S_def page_slot_def)
  have slot1: "page_slot B r1 a i = page_slot B r a i" if "valid_addr B a" "i < S" "\<not> in_subtree B l (p * S + k) a \<or> level a = 0" for a i
    using pr that by (simp add: vacuum_promise_def S_def)
  have valid: "valid_addr B a" if "in_subtree B l q a" for q a
    using that l by (simp add: in_subtree_def valid_addr_def)
  have not_top: "a \<noteq> top" if "in_subtree B l q a" for q a
    using that by (auto simp: in_subtree_def top_def)
  have kid_in: "in_subtree B l (p * S + i) (kid i)" for i by (simp add: in_subtree_def kid_def)
  have other: "page_slot B r2 a i = page_slot B r a i" if "in_subtree B l (p * S + j) a" "j \<noteq> k" "i < S" for a i j
  proof -
    have "\<not> in_subtree B l (p * S + k) a" using in_subtree_unique [OF that(1), of "p * S + k"] that(2) by auto
    then show ?thesis
      using slot2 [OF valid [OF that(1)] that(3)] slot1 [OF valid [OF that(1)] that(3)] not_top [OF that(1)] by simp
  qed
  have this_kid: "page_slot B r2 a i = page_slot B r1 a i" if "in_subtree B l (p * S + k) a" "i < S" for a i
    using slot2 [OF valid [OF that(1)] that(2)] not_top [OF that(1)] by simp
  have eof: "\<forall>i \<ge> Suc k. \<not> page_exists B rel (kid i)" if e
    using that r1(4) subtree_past_end [OF B Suc_leD [OF l] kid_in [unfolded S_def], of "p * SlotsPerFSMPage B + k" _ rel]
    by (auto simp: kid_def S_def)
  have slots: "page_slot B r2 top i = page_root B r2 (kid i)" if "i < Suc k" for i
  proof (cases "i = k")
    case True
    then show ?thesis
      using slot2 [OF tv(1), of k] k r1(3) page_root_cong [OF B r2(1) r1(1) this_kid [OF kid_in, unfolded S_def]] by (simp add: S_def)
  next
    case False
    then have "i < k" "i < S" using that k by (auto simp: S_def)
    moreover have "page_root B r2 (kid i) = page_root B r (kid i)"
      using page_root_cong [OF B r2(1) r(1) other [OF kid_in False, unfolded S_def]] .
    moreover have "\<not> in_subtree B l (p * S + k) top" by (simp add: in_subtree_def top_def)
    ultimately show ?thesis
      using inv slot2 [OF tv(1), of i] slot1 [OF tv(1), of i] False by (simp add: vacuum_inv_def S_def top_def kid_def)
  qed
  have cons: "consistent_at B r2 a" if "i < Suc k" "in_subtree B l (p * S + i) a" for i a
  proof (cases "level a = 0")
    case False
    have near: "in_subtree B l (p * S + i) b" if "b = a \<or> (\<exists>j < SlotsPerFSMPage B. b = fsm_get_child B a j)" for b
      using that \<open>in_subtree B l (p * S + i) a\<close> in_subtree_get_child False by auto
    show ?thesis
    proof (cases "i = k")
      case True
      have "consistent_at B r1 a" using pr that(2) True by (simp add: vacuum_promise_def)
      then show ?thesis
        using this_kid near True r1(2) r2(2)
        by (intro consistent_at_cong [OF B r1(1) r2(1)]) (auto simp: S_def)
    next
      case False
      have "i < k" using that(1) False by simp
      then have "consistent_at B r a" using inv that(2) by (auto simp: vacuum_inv_def S_def)
      then show ?thesis
        using other [OF near False] r(2) r2(2)
        by (intro consistent_at_cong [OF B r(1) r2(1)]) (auto simp: S_def)
    qed
  qed (simp add: consistent_at_def)
  have rest: "page_slot B r2 a i = page_slot B rel a i" if "valid_addr B a" "i < S" "\<not> in_subtree B (Suc l) p a \<or> level a = 0" for a i
  proof -
    have "a \<noteq> top" using that(3) by (auto simp: top_def in_subtree_def)
    moreover have "\<not> in_subtree B l (p * S + k) a \<or> level a = 0" using that(3) in_subtree_up [OF k] by (auto simp: S_def)
    ultimately show ?thesis using slot2 [OF that(1,2)] slot1 [OF that(1,2)] inv that by (simp add: vacuum_inv_def S_def)
  qed
  show ?thesis
    unfolding eq [unfolded top_def] vacuum_inv_def
    using r2 eof slots cons rest by (simp add: top_def kid_def S_def)
qed

lemma vacuum_loop:
  assumes B: "valid_blcksz B" and l: "Suc l \<le> FSM_ROOT_LEVEL B" and ok: "rel_ok B rel"
    and ex: "page_exists B rel \<lparr>level = Suc l, logpageno = p\<rparr>"
    and child: "\<And>r q. rel_ok B r \<Longrightarrow> vacuum_promise B l q r (visit r q)"
    and k: "k \<le> SlotsPerFSMPage B"
  shows "vacuum_inv B l p rel k
    (fold (vacuum_slot B visit \<lparr>level = Suc l, logpageno = p\<rparr> (fsm_logical_to_physical B \<lparr>level = Suc l, logpageno = p\<rparr>))
       [0..<k] (False, rel))"
  using k
proof (induction k)
  case 0
  then show ?case using ok by (simp add: vacuum_inv_def)
next
  case (Suc k)
  then show ?case
    using vacuum_slot_step [OF B l _ _ ex child, of k] by (simp add: split_paired_all prod_eq_iff) (metis prod.collapse)
qed

text \<open>Resetting the search hint changes neither slots nor root.\<close>

lemma reset_next_slot:
  assumes "rel_ok B rel" "valid_blcksz B" "b < smgrnblocks rel"
  shows "rel_ok B (put_page rel b ((get_page B rel b)\<lparr>fp_next_slot := 0\<rparr>))"
    "page_slot B (put_page rel b ((get_page B rel b)\<lparr>fp_next_slot := 0\<rparr>)) a i = page_slot B rel a i"
    "page_root B (put_page rel b ((get_page B rel b)\<lparr>fp_next_slot := 0\<rparr>)) a = page_root B rel a"
proof -
  have "fsm_ok B ((get_page B rel b)\<lparr>fp_next_slot := 0\<rparr>)"
    using get_page_ok [OF assms(2,1), of b] by (simp add: fsm_ok_def fsm_wf_def)
  then show "rel_ok B (put_page rel b ((get_page B rel b)\<lparr>fp_next_slot := 0\<rparr>))" using put_page_ok assms(1) by blast
  show "page_slot B (put_page rel b ((get_page B rel b)\<lparr>fp_next_slot := 0\<rparr>)) a i = page_slot B rel a i"
    "page_root B (put_page rel b ((get_page B rel b)\<lparr>fp_next_slot := 0\<rparr>)) a = page_root B rel a"
    using get_put_page [OF assms(3)] by (simp_all add: page_slot_def page_root_def fsm_get_avail_def fsm_get_max_avail_def)
qed

lemma vacuum_promise_past_end:
  assumes B: "valid_blcksz B" and l: "l \<le> FSM_ROOT_LEVEL B" and ok: "rel_ok B r" and fork: "fsm_fork r = fsm_fork rel"
    and past: "\<not> page_exists B rel \<lparr>level = l, logpageno = p\<rparr>"
  shows "vacuum_promise B l p rel (0, True, r)"
proof -
  have "smgrnblocks r = smgrnblocks rel" "\<And>b. get_page B r b = get_page B rel b"
    using fork by (simp_all add: smgrnblocks_def get_page_def)
  then have same: "smgrnblocks r = smgrnblocks rel" "page_slot B r a i = page_slot B rel a i" "page_exists B r a = page_exists B rel a" for a i
    by (simp_all add: page_slot_def page_exists_def)
  then have "consistent_at B r a" if "in_subtree B l p a" for a
    using subtree_past_end [OF B l that order_refl past] by (simp add: consistent_at_def)
  then show ?thesis using same ok past page_root_0 [OF B, of r] by (simp add: vacuum_promise_def)
qed

lemma vacuum_promise_reset:
  assumes B: "valid_blcksz B" and v: "valid_addr B \<lparr>level = l, logpageno = p\<rparr>" and r: "rel_ok B r" "smgrnblocks r = smgrnblocks rel"
    and ex: "page_exists B rel \<lparr>level = l, logpageno = p\<rparr>"
    and cons: "\<And>a. in_subtree B l p a \<Longrightarrow> consistent_at B r a"
    and slots: "\<And>a i. valid_addr B a \<Longrightarrow> i < SlotsPerFSMPage B \<Longrightarrow> \<not> in_subtree B l p a \<or> level a = 0 \<Longrightarrow>
           page_slot B r a i = page_slot B rel a i"
    and b: "b = fsm_logical_to_physical B \<lparr>level = l, logpageno = p\<rparr>"
  shows "vacuum_promise B l p rel
     (fsm_get_max_avail (get_page B r b), False, put_page r b ((get_page B r b)\<lparr>fp_next_slot := 0\<rparr>))"
proof -
  have lt: "b < smgrnblocks r" using ex r(2) b by (simp add: page_exists_def)
  note rs = reset_next_slot [OF r(1) B lt]
  have "consistent_at B (put_page r b ((get_page B r b)\<lparr>fp_next_slot := 0\<rparr>)) a" if "in_subtree B l p a" for a
    using cons [OF that] rs r(2) by (intro consistent_at_cong [OF B r(1) rs(1)]) auto
  then show ?thesis
    using rs r(2) ex slots b by (simp add: vacuum_promise_def) (simp add: page_root_def)
qed

lemma fsm_vacuum_page_promise:
  assumes "valid_blcksz B" "l \<le> FSM_ROOT_LEVEL B" "rel_ok B rel"
  shows "vacuum_promise B l p rel (fsm_vacuum_page B l rel p)"
  using assms(2,3)
proof (induction l arbitrary: rel p)
  case 0
  define a where "a = \<lparr>level = 0, logpageno = p\<rparr>"
  have wf: "rel_wf B rel" using 0 by (simp add: rel_ok_def)
  obtain r where r: "fsm_readbuf B rel a False =
       (if fsm_logical_to_physical B a < smgrnblocks rel then Some (fsm_logical_to_physical B a) else None, r)"
    and fork: "fsm_fork r = fsm_fork rel" and ok: "rel_ok B r"
    using readbuf_noextend [OF wf, of a] 0(2) by metis
  show ?case
  proof (cases "page_exists B rel a")
    case False
    then show ?thesis
      using vacuum_promise_past_end [OF assms(1) 0(1) ok fork] r by (simp add: a_def page_exists_def)
  next
    case True
    have "smgrnblocks r = smgrnblocks rel" "\<And>c i. page_slot B r c i = page_slot B rel c i"
      using fork by (simp_all add: smgrnblocks_def page_slot_def get_page_def)
    then have "vacuum_promise B 0 p rel (fsm_get_max_avail (get_page B r (fsm_logical_to_physical B a)), False,
        put_page r (fsm_logical_to_physical B a) ((get_page B r (fsm_logical_to_physical B a))\<lparr>fp_next_slot := 0\<rparr>))"
      using True ok by (intro vacuum_promise_reset [OF assms(1)]) (auto simp: a_def valid_addr_def consistent_at_def in_subtree_def)
    then show ?thesis using r True by (simp add: a_def page_exists_def Let_def)
  qed
next
  case (Suc l)
  define a where "a = \<lparr>level = Suc l, logpageno = p\<rparr>"
  define b where "b = fsm_logical_to_physical B a"
  have wf: "rel_wf B rel" using Suc by (simp add: rel_ok_def)
  obtain r where r: "fsm_readbuf B rel a False = (if b < smgrnblocks rel then Some b else None, r)"
    and fork: "fsm_fork r = fsm_fork rel" and ok: "rel_ok B r"
    using readbuf_noextend [OF wf, of a] Suc.prems(2) unfolding b_def by metis
  show ?case
  proof (cases "page_exists B rel a")
    case False
    then show ?thesis
      using vacuum_promise_past_end [OF assms(1) Suc.prems(1) ok fork] r by (simp add: a_def page_exists_def b_def)
  next
    case True
    have same: "smgrnblocks r = smgrnblocks rel" "\<And>c i. page_slot B r c i = page_slot B rel c i"
      using fork by (simp_all add: smgrnblocks_def page_slot_def get_page_def)
    have ex: "page_exists B r a" using True page_exists_cong [OF same(1)] by simp
    obtain e r1 where loop: "fold (vacuum_slot B (fsm_vacuum_page B l) a b) [0..<SlotsPerFSMPage B] (False, r) = (e, r1)"
      by force
    have inv: "vacuum_inv B l p r (SlotsPerFSMPage B) (e, r1)"
      using vacuum_loop [OF assms(1) Suc.prems(1) ok ex [unfolded a_def] Suc.IH order_refl] Suc.prems(1) loop
      by (simp add: a_def b_def)
    have "consistent_at B r1 c" if "in_subtree B (Suc l) p c" for c
    proof (cases "c = a")
      case True
      have "page_slot B r1 a i = page_root B r1 (fsm_get_child B a i)" if "i < SlotsPerFSMPage B" for i
        using inv that by (simp add: vacuum_inv_def a_def fsm_get_child_def)
      then show ?thesis using True by (simp add: consistent_at_def)
    next
      case False
      then show ?thesis using in_subtree_cases [OF assms(1) that] inv by (auto simp: a_def vacuum_inv_def)
    qed
    then have "vacuum_promise B (Suc l) p rel (fsm_get_max_avail (get_page B r1 b), False, put_page r1 b ((get_page B r1 b)\<lparr>fp_next_slot := 0\<rparr>))"
      using True inv same Suc.prems(1)
      by (intro vacuum_promise_reset [OF assms(1)]) (auto simp: a_def b_def valid_addr_def vacuum_inv_def)
    moreover have "fsm_vacuum_page B (Suc l) rel p = (fsm_get_max_avail (get_page B r1 b), False, put_page r1 b ((get_page B r1 b)\<lparr>fp_next_slot := 0\<rparr>))"
      using True r loop by (simp add: a_def [symmetric] page_exists_def b_def [symmetric] Let_def)
    ultimately show ?thesis by simp
  qed
qed

subsection \<open>Completeness of the search after a vacuum\<close>

lemma fsm_search_complete:
  assumes "valid_blcksz B" "rel_ok B rel" "0 < m" "valid_addr B addr" "page_exists B rel addr" "m \<le> page_root B rel addr"
    "in_subtree B (FSM_ROOT_LEVEL B) 0 addr" "\<And>a. in_subtree B (FSM_ROOT_LEVEL B) 0 a \<Longrightarrow> consistent_at B rel a"
  shows "\<exists>p i rel'. fsm_search_loop B rel m restarts addr = Some ((p * SlotsPerFSMPage B + i) mod 2 ^ 32, rel') \<and>
           i < SlotsPerFSMPage B \<and> page_exists B rel (leaf_addr p) \<and> m \<le> page_slot B rel (leaf_addr p) i"
  using assms(2,4-)
proof (induction "level addr" arbitrary: rel addr)
  case 0
  have wf: "rel_wf B rel" using 0 by (simp add: rel_ok_def)
  obtain p where p: "addr = leaf_addr p" using 0(1) by (cases addr) (auto simp: leaf_addr_def)
  obtain j where j: "j < SlotsPerFSMPage B" "page_slot B rel addr j = page_root B rel addr"
    using fsm_page.root_in [of B "get_page B rel (fsm_logical_to_physical B addr)"] get_page_ok [OF assms(1) 0(2)] assms(1)
    by (auto simp: page_slot_def page_root_def nslots_eq)
  obtain r mx rel1 where sp: "search_page B rel m addr = Some (r, mx, rel1)"
    and found: "r = -1 \<or> (0 \<le> r \<and> nat r < SlotsPerFSMPage B \<and> fsm_logical_to_physical B addr < smgrnblocks rel \<and>
               m \<le> page_slot B rel addr (nat r))"
    and none: "r = -1 \<Longrightarrow> page_slot B rel addr j < m"
    using search_page_spec [OF assms(1) wf, of m addr j] 0(2,4) j(1) unfolding page_exists_def by metis
  have "r \<noteq> -1" using none j(2) 0(5) by auto
  then have "fsm_search_loop B rel m restarts addr = Some ((p * SlotsPerFSMPage B + nat r) mod 2 ^ 32, rel1)"
    using sp 0(1) by (simp add: fsm_search_loop.simps [of B rel m restarts addr] fsm_get_heap_blk_def) (simp add: p leaf_addr_def)
  then show ?case using found \<open>r \<noteq> -1\<close> p by (auto simp: page_exists_def)
next
  case (Suc l)
  have wf: "rel_wf B rel" using Suc by (simp add: rel_ok_def)
  obtain j where j: "j < SlotsPerFSMPage B" "page_slot B rel addr j = page_root B rel addr"
    using fsm_page.root_in [of B "get_page B rel (fsm_logical_to_physical B addr)"] get_page_ok [OF assms(1) Suc(3)] assms(1)
    by (auto simp: page_slot_def page_root_def nslots_eq)
  obtain r mx rel1 where sp: "search_page B rel m addr = Some (r, mx, rel1)" and ok1: "rel_ok B rel1"
    and n1: "smgrnblocks rel1 = smgrnblocks rel"
    and slots1: "\<And>a i. i < SlotsPerFSMPage B \<Longrightarrow> page_slot B rel1 a i = page_slot B rel a i"
    and found: "r = -1 \<or> (0 \<le> r \<and> nat r < SlotsPerFSMPage B \<and> fsm_logical_to_physical B addr < smgrnblocks rel \<and>
               m \<le> page_slot B rel addr (nat r))"
    and none: "r = -1 \<Longrightarrow> page_slot B rel addr j < m"
    using search_page_spec [OF assms(1) wf, of m addr j] Suc.prems(1,3) j(1) unfolding page_exists_def by metis
  have nr: "r \<noteq> -1" using none j(2) Suc.prems(4) by auto
  define c where "c = fsm_get_child B addr (nat r)"
  have root: "page_root B rel1 a = page_root B rel a" for a
    using page_root_cong [OF assms(1) ok1 Suc.prems(1)] slots1 by simp
  have "page_slot B rel addr (nat r) = page_root B rel c"
    using Suc.prems(3,5,6) Suc.hyps(2) found nr unfolding consistent_at_def c_def by auto
  then have big: "m \<le> page_root B rel1 c" using found nr root by auto
  then have "page_root B rel1 c \<noteq> 0" using assms(3) by auto
  then have ex: "page_exists B rel1 c" using page_root_0 [OF assms(1), of rel1 c] by blast
  have cons: "consistent_at B rel1 a" if "in_subtree B (FSM_ROOT_LEVEL B) 0 a" for a
    using Suc.prems(6) [OF that] slots1 n1 by (intro consistent_at_cong [OF assms(1) Suc.prems(1) ok1]) auto
  have "l = level c" using Suc.hyps(2) by (simp add: c_def fsm_get_child_def)
  moreover have "in_subtree B (FSM_ROOT_LEVEL B) 0 c"
    using in_subtree_get_child [OF Suc.prems(5)] Suc.hyps(2) found nr by (auto simp: c_def)
  ultimately obtain p i rel' where "fsm_search_loop B rel1 m restarts c = Some ((p * SlotsPerFSMPage B + i) mod 2 ^ 32, rel')"
      "i < SlotsPerFSMPage B" "page_exists B rel1 (leaf_addr p)" "m \<le> page_slot B rel1 (leaf_addr p) i"
    using Suc.hyps(1) [of c rel1] ok1 child_valid [OF Suc.prems(2)] ex big cons unfolding c_def by blast
  moreover have "fsm_search_loop B rel m restarts addr = fsm_search_loop B rel1 m restarts c"
    using sp nr Suc.hyps(2) by (simp add: fsm_search_loop.simps [of B rel m restarts addr] c_def)
  ultimately show ?case
    using slots1 page_exists_cong [OF n1] by (intro exI [of _ p] exI [of _ i] exI [of _ rel']) simp
qed

text \<open>Every block number fits below the root.\<close>

lemma tree_covers_blocks:
  assumes "valid_blcksz B"
  shows "2 ^ 32 \<le> SlotsPerFSMPage B ^ FSM_TREE_DEPTH B"
  using assms
  by (auto simp: valid_blcksz_def FSM_TREE_DEPTH_def SlotsPerFSMPage_def LeafNodesPerPage_def NodesPerPage_def NonLeafNodesPerPage_def)

lemma leaf_in_root:
  assumes "valid_blcksz B" "blk < 2 ^ 32"
  shows "in_subtree B (FSM_ROOT_LEVEL B) 0 (leaf_addr (blk div SlotsPerFSMPage B))"
proof -
  have "blk < SlotsPerFSMPage B * SlotsPerFSMPage B ^ FSM_ROOT_LEVEL B"
    using tree_covers_blocks [OF assms(1)] assms(2) FSM_TREE_DEPTH_pos(2) [of B] by simp
  then have "blk div SlotsPerFSMPage B < SlotsPerFSMPage B ^ FSM_ROOT_LEVEL B"
    by (simp add: less_mult_imp_div_less mult.commute)
  then show ?thesis by (simp add: in_subtree_def leaf_addr_def)
qed

text \<open>In a consistent map a page's root is at least every slot below it.\<close>

lemma page_root_ge_below:
  assumes "valid_blcksz B" "rel_ok B rel" "l \<le> FSM_ROOT_LEVEL B"
    "\<And>a. in_subtree B l p a \<Longrightarrow> consistent_at B rel a" "in_subtree B l p (leaf_addr q)" "i < SlotsPerFSMPage B"
    "0 < page_slot B rel (leaf_addr q) i"
  shows "page_exists B rel \<lparr>level = l, logpageno = p\<rparr> \<and> page_slot B rel (leaf_addr q) i \<le> page_root B rel \<lparr>level = l, logpageno = p\<rparr>"
  using assms(3-5)
proof (induction l arbitrary: p)
  case 0
  then have p: "leaf_addr q = \<lparr>level = 0, logpageno = p\<rparr>" by (simp add: in_subtree_def leaf_addr_def)
  have "page_slot B rel (leaf_addr q) i \<le> page_root B rel (leaf_addr q)" using page_root_ge [OF assms(1,2,6)] .
  then have "page_root B rel (leaf_addr q) \<noteq> 0" using assms(7) by auto
  then show ?case
    using page_root_0 [OF assms(1), of rel "leaf_addr q"] page_root_ge [OF assms(1,2,6), of "leaf_addr q"] p by auto
next
  case (Suc l)
  define a where "a = \<lparr>level = Suc l, logpageno = p\<rparr>"
  have "leaf_addr q \<noteq> a" by (simp add: leaf_addr_def a_def)
  then obtain j where j: "j < SlotsPerFSMPage B" "in_subtree B l (p * SlotsPerFSMPage B + j) (leaf_addr q)"
    using in_subtree_cases [OF assms(1) Suc.prems(3)] by (auto simp: a_def)
  have below: "page_exists B rel \<lparr>level = l, logpageno = p * SlotsPerFSMPage B + j\<rparr>"
    "page_slot B rel (leaf_addr q) i \<le> page_root B rel \<lparr>level = l, logpageno = p * SlotsPerFSMPage B + j\<rparr>"
    using Suc.IH [OF _ _ j(2)] Suc.prems(1,2) in_subtree_up [OF j(1)] by simp_all
  have "in_subtree B (Suc l) p \<lparr>level = l, logpageno = p * SlotsPerFSMPage B + j\<rparr>"
    by (rule in_subtree_up [OF j(1)]) (simp add: in_subtree_def)
  then have ex: "page_exists B rel a"
    using subtree_past_end [OF assms(1) Suc.prems(1) _ order_refl, of p _ rel] below(1) unfolding a_def by blast
  have "consistent_at B rel a" using Suc.prems(2) [of a] by (simp add: in_subtree_def a_def)
  then have "page_slot B rel a j = page_root B rel (fsm_get_child B a j)" using ex j(1) by (simp add: consistent_at_def a_def)
  moreover have "fsm_get_child B a j = \<lparr>level = l, logpageno = p * SlotsPerFSMPage B + j\<rparr>" by (simp add: a_def fsm_get_child_def)
  ultimately show ?case
    using below(2) page_root_ge [OF assms(1,2) j(1), of a] ex by (simp add: a_def)
qed

lemma search_after_vacuum:
  assumes B: "valid_blcksz B" and ok: "rel_ok B rel" and fits: "fsm_addressable B rel" and m: "0 < m"
    and blk: "blk < 2 ^ 32" "m \<le> recorded_cat B rel blk"
  shows "\<exists>b rel'. fsm_search B (FreeSpaceMapVacuum B rel) m = Some (b, rel') \<and> b < InvalidBlockNumber \<and> m \<le> recorded_cat B rel b"
proof -
  obtain mx e r where v: "fsm_vacuum_page B (FSM_ROOT_LEVEL B) rel 0 = (mx, e, r)" by (cases "fsm_vacuum_page B (FSM_ROOT_LEVEL B) rel 0") auto
  have pr: "vacuum_promise B (FSM_ROOT_LEVEL B) 0 rel (mx, e, r)"
    using fsm_vacuum_page_promise [OF B order_refl ok, of 0] v by simp
  have r: "rel_ok B r" "smgrnblocks r = smgrnblocks rel" "\<And>a. in_subtree B (FSM_ROOT_LEVEL B) 0 a \<Longrightarrow> consistent_at B r a"
    using pr by (auto simp: vacuum_promise_def)
  have slots: "page_slot B r (leaf_addr p) i = page_slot B rel (leaf_addr p) i" if "i < SlotsPerFSMPage B" for p i
    using pr that leaf_addr_valid by (simp add: vacuum_promise_def leaf_addr_def)
  have S: "blk mod SlotsPerFSMPage B < SlotsPerFSMPage B" using SlotsPerFSMPage_ge [OF B] by simp
  have rc: "m \<le> page_slot B r (leaf_addr (blk div SlotsPerFSMPage B)) (blk mod SlotsPerFSMPage B)"
    using blk(2) slots [OF S] by (simp add: recorded_cat_eq)
  have top: "page_exists B r (g_fsm_root_address B) \<and> m \<le> page_root B r (g_fsm_root_address B)"
    using page_root_ge_below [OF B r(1) order_refl r(3) leaf_in_root [OF B blk(1)] S] order.strict_trans2 [OF m rc]
      order.trans [OF rc] by (simp add: g_fsm_root_address_def)
  have "in_subtree B (FSM_ROOT_LEVEL B) 0 (g_fsm_root_address B)" by (simp add: in_subtree_def g_fsm_root_address_def)
  then obtain p i rel' where s: "fsm_search B r m = Some ((p * SlotsPerFSMPage B + i) mod 2 ^ 32, rel')"
    and pi: "i < SlotsPerFSMPage B" "page_exists B r (leaf_addr p)" "m \<le> page_slot B r (leaf_addr p) i"
    using fsm_search_complete [OF B r(1) m root_addr_valid _ _ _ r(3), of 0] top unfolding fsm_search_def by auto
  have lt: "p * SlotsPerFSMPage B + i < 2 ^ 32 - 1"
    using existing_leaf_block [OF B fits pi(1), of p] pi(2) r(2) by (simp add: page_exists_def)
  moreover have "m \<le> recorded_cat B rel (p * SlotsPerFSMPage B + i)"
    using pi(3) slots [OF pi(1)] heap_blk_location [OF pi(1), of p] by (simp add: recorded_cat_def)
  ultimately show ?thesis using s v by (simp add: FreeSpaceMapVacuum_def InvalidBlockNumber_def)
qed

subsection \<open>Bulk extension\<close>

text \<open>
  \<^verbatim>\<open>fsm_update_recursive\<close> returns, leaves every recorded category alone and stores the new category in the parent of
  the page it starts from.
\<close>

lemma fsm_update_recursive_spec:
  assumes "valid_blcksz B" "rel_wf B rel" "valid_addr B addr"
  shows "\<exists>rel'. fsm_update_recursive B rel addr v srch = Some rel' \<and> rel_wf B rel' \<and> (rel_ok B rel \<longrightarrow> rel_ok B rel') \<and>
    (\<forall>a i. valid_addr B a \<longrightarrow> i < SlotsPerFSMPage B \<longrightarrow> level a \<le> level addr \<longrightarrow> page_slot B rel' a i = page_slot B rel a i) \<and>
    (level addr < FSM_ROOT_LEVEL B \<longrightarrow> page_slot B rel' (fst (fsm_get_parent B addr)) (snd (fsm_get_parent B addr)) = v)"
  using assms(2,3)
proof (induction "FSM_ROOT_LEVEL B - level addr" arbitrary: rel addr)
  case 0
  then show ?case by (simp add: fsm_update_recursive.simps [of B rel addr v srch])
next
  case (Suc n)
  obtain parent ps where par: "fsm_get_parent B addr = (parent, ps)" by force
  have lv: "level addr < FSM_ROOT_LEVEL B" "level parent = Suc (level addr)" "ps < SlotsPerFSMPage B" "valid_addr B parent"
    using Suc par SlotsPerFSMPage_ge [OF assms(1)] by (auto simp: fsm_get_parent_def valid_addr_def)
  obtain x r1 where s: "fsm_set_and_search B rel parent ps v 0 srch = Some (x, r1)"
    and wf1: "rel_wf B r1" and ok1: "rel_ok B rel \<Longrightarrow> rel_ok B r1"
    and slots1: "\<And>a i. valid_addr B a \<Longrightarrow> i < SlotsPerFSMPage B \<Longrightarrow>
       page_slot B r1 a i = (if a = parent \<and> i = ps then v else page_slot B rel a i)"
    using set_and_search_spec [OF assms(1) Suc.prems(1) lv(4,3), of v 0 srch] by metis
  have "n = FSM_ROOT_LEVEL B - level parent" using Suc.hyps(2) lv(2) by simp
  from Suc.hyps(1) [OF this wf1 lv(4)] obtain r2 where r2: "fsm_update_recursive B r1 parent v srch = Some r2"
    "rel_wf B r2" "rel_ok B r1 \<longrightarrow> rel_ok B r2"
    and slots2: "\<And>a i. valid_addr B a \<Longrightarrow> i < SlotsPerFSMPage B \<Longrightarrow> level a \<le> level parent \<Longrightarrow> page_slot B r2 a i = page_slot B r1 a i"
    by blast
  have "fsm_update_recursive B rel addr v srch = Some r2"
    using lv(1) par s r2(1) by (simp add: fsm_update_recursive.simps [of B rel addr v srch])
  moreover have "page_slot B r2 a i = page_slot B rel a i" if "valid_addr B a" "i < SlotsPerFSMPage B" "level a \<le> level addr" for a i
    using slots1 [OF that(1,2)] slots2 [OF that(1,2)] that(3) lv(2) by auto
  moreover have "page_slot B r2 parent ps = v" using slots1 [OF lv(4,3)] slots2 [OF lv(4,3)] by simp
  ultimately show ?case using r2 ok1 par by simp
qed

lemma update_step:
  assumes "valid_blcksz B" "rel_wf B rel"
  obtains rel' where "fsm_update_recursive B rel (leaf_addr p) v srch = Some rel'" "rel_wf B rel'"
    "\<And>c. recorded_cat B rel' c = recorded_cat B rel c"
proof -
  obtain r where r: "fsm_update_recursive B rel (leaf_addr p) v srch = Some r" "rel_wf B r"
    and slots: "\<forall>a i. valid_addr B a \<longrightarrow> i < SlotsPerFSMPage B \<longrightarrow> level a \<le> level (leaf_addr p) \<longrightarrow> page_slot B r a i = page_slot B rel a i"
    using fsm_update_recursive_spec [OF assms leaf_addr_valid, of p v srch] by blast
  have "recorded_cat B r c = recorded_cat B rel c" for c
    using slots leaf_addr_valid SlotsPerFSMPage_ge [OF assms(1)] by (simp add: recorded_cat_eq leaf_addr_def)
  then show thesis using that r by blast
qed

text \<open>One turn of the loop of \<^verbatim>\<open>UpdateFreeSpaceMap\<close>, and where the next one starts.\<close>

definition last_block :: "nat \<Rightarrow> nat \<Rightarrow> nat" where
  "last_block B blk = (blk div SlotsPerFSMPage B * SlotsPerFSMPage B + (SlotsPerFSMPage B - 1)) mod 2 ^ 32"

lemma update_loop_turn:
  assumes "blk \<le> e"
  shows "UpdateFreeSpaceMap_loop (Suc fuel) B rel blk e v srch =
    (case fsm_update_recursive B rel (leaf_addr (blk div SlotsPerFSMPage B)) v srch of
       None \<Rightarrow> None
     | Some rel \<Rightarrow> if e \<le> last_block B blk then Some rel
                   else UpdateFreeSpaceMap_loop fuel B rel ((last_block B blk + 1) mod 2 ^ 32) e v srch)"
proof -
  have "fsm_get_lastblckno B (leaf_addr (blk div SlotsPerFSMPage B)) = last_block B blk"
    by (simp add: fsm_get_lastblckno_def fsm_get_heap_blk_def last_block_def leaf_addr_def)
  then show ?thesis
    using assms by (cases "fsm_update_recursive B rel (leaf_addr (blk div SlotsPerFSMPage B)) v srch")
      (simp_all add: location_split Let_def)
qed

lemma last_block_eq:
  assumes "valid_blcksz B" "blk div SlotsPerFSMPage B \<le> q" "Suc q * SlotsPerFSMPage B \<le> 2 ^ 32"
  shows "last_block B blk + 1 = Suc (blk div SlotsPerFSMPage B) * SlotsPerFSMPage B"
proof -
  define x where "x = Suc (blk div SlotsPerFSMPage B) * SlotsPerFSMPage B"
  have "x \<le> Suc q * SlotsPerFSMPage B" unfolding x_def using assms(2) by (intro mult_le_mono1) simp
  then have "x \<le> 2 ^ 32" using assms(3) by linarith
  moreover have "0 < x" "last_block B blk = (x - 1) mod 2 ^ 32"
    using SlotsPerFSMPage_ge [OF assms(1)] by (simp_all add: last_block_def x_def add.commute)
  ultimately have "last_block B blk + 1 = x" by simp
  then show ?thesis by (simp only: x_def)
qed

lemma UpdateFreeSpaceMap_loop_returns:
  assumes "valid_blcksz B" "Suc (e div SlotsPerFSMPage B) * SlotsPerFSMPage B \<le> 2 ^ 32"
    "rel_wf B rel" "Suc (e div SlotsPerFSMPage B) - blk div SlotsPerFSMPage B < fuel"
  shows "\<exists>rel'. UpdateFreeSpaceMap_loop fuel B rel blk e v srch = Some rel' \<and> rel_wf B rel' \<and>
           (\<forall>c. recorded_cat B rel' c = recorded_cat B rel c)"
  using assms(3,4)
proof (induction fuel arbitrary: rel blk)
  case (Suc fuel)
  define S where "S = SlotsPerFSMPage B"
  show ?case
  proof (cases "blk \<le> e")
    case False
    then show ?thesis using Suc.prems(1) by simp
  next
    case True
    have le: "blk div S \<le> e div S" using div_le_mono [OF True] .
    obtain r1 where r1: "fsm_update_recursive B rel (leaf_addr (blk div S)) v srch = Some r1" "rel_wf B r1"
      "\<And>c. recorded_cat B r1 c = recorded_cat B rel c"
      using update_step [OF assms(1) Suc.prems(1), of "blk div S" v srch] by metis
    have lb: "last_block B blk + 1 = Suc (blk div S) * S"
      using last_block_eq [OF assms(1) _ assms(2), of blk] le by (simp add: S_def)
    show ?thesis
    proof (cases "e \<le> last_block B blk")
      case True
      then show ?thesis using update_loop_turn [OF \<open>blk \<le> e\<close>] r1 by (simp add: S_def)
    next
      case False
      define nxt where "nxt = (last_block B blk + 1) mod 2 ^ 32"
      have lt: "Suc (blk div S) * S \<le> e" using False lb by simp
      have S: "0 < S" using SlotsPerFSMPage_ge [OF assms(1)] by (simp add: S_def)
      have "e < Suc (e div S) * S" using dividend_less_div_times [OF S, of e] by simp
      then have "nxt = Suc (blk div S) * S" using lb lt assms(2) by (simp add: nxt_def S_def)
      then have nd: "nxt div S = Suc (blk div S)" using S by simp
      have "Suc (blk div S) \<le> e div S" using lt S by (simp add: less_eq_div_iff_mult_less_eq)
      then have "Suc (e div S) - nxt div S < fuel" using Suc.prems(2) nd by (simp add: S_def)
      then show ?thesis
        using Suc.IH [OF r1(2), of nxt] r1 False update_loop_turn [OF \<open>blk \<le> e\<close>, of fuel B rel v srch]
        by (auto simp: nxt_def S_def)
    qed
  qed
qed simp

text \<open>
  When the last slots of the page of \<open>e\<close> stand for block numbers beyond \<open>2 ^ 32\<close>, the last block number of that
  page wraps around to a small one and the loop starts over.
\<close>

lemma UpdateFreeSpaceMap_loop_stuck:
  assumes "valid_blcksz B" "e < 2 ^ 32" "2 ^ 32 < Suc (e div SlotsPerFSMPage B) * SlotsPerFSMPage B" "blk \<le> e"
  shows "UpdateFreeSpaceMap_loop fuel B rel blk e v srch = None"
  using assms(4)
proof (induction fuel arbitrary: rel blk)
  case (Suc fuel)
  define S where "S = SlotsPerFSMPage B"
  define q where "q = e div S"
  have S: "2 \<le> S" "S \<le> 2 ^ 16" using SlotsPerFSMPage_ge [OF assms(1)] valid_blcksz_bounds(4) [OF assms(1)]
    by (simp_all add: S_def SlotsPerFSMPage_def)
  have qe: "q * S \<le> e" unfolding q_def by (rule div_times_less_eq_dividend)
  have big: "2 ^ 32 < q * S + S" using assms(3) by (simp add: q_def S_def)
  have le: "blk div S \<le> q" using div_le_mono [OF Suc.prems] by (simp add: q_def)
  have "last_block B blk < e \<and> last_block B blk + 1 \<le> e"
  proof (cases "blk div S = q")
    case True
    have "q * S + (S - 1) - 2 ^ 32 < 2 ^ 32" using S qe assms(2) by simp
    then have "last_block B blk = q * S + (S - 1) - 2 ^ 32"
      using True big S by (simp add: last_block_def S_def [symmetric] mod_if)
    moreover have "2 ^ 16 < e" using big S(2) qe by simp
    moreover have "q * S + (S - 1) - 2 ^ 32 < 2 ^ 16" using S qe assms(2) by simp
    ultimately show ?thesis by simp
  next
    case False
    then have "Suc (blk div S) * S \<le> q * S" using le by (intro mult_le_mono1) simp
    then have "blk div S * S + S \<le> q * S" by simp
    then show ?thesis using qe assms(2) S by (simp add: last_block_def S_def [symmetric])
  qed
  then have nxt: "\<not> e \<le> last_block B blk" "(last_block B blk + 1) mod 2 ^ 32 \<le> e"
    using assms(2) by simp_all
  show ?case
    using Suc.IH [OF nxt(2)] nxt(1) update_loop_turn [OF Suc.prems, of fuel B rel v srch] by (simp split: option.splits)
qed simp

lemma needed_cat_exists: "needed \<le> MaxFSMRequestSize B \<Longrightarrow> \<exists>c. fsm_space_needed_to_cat B needed = Inr c"
  by (cases "needed = 0") (simp_all add: fsm_space_needed_to_cat_def Let_def)

section \<open>Properties\<close>

text \<open>
  Categories never promise more than there is: a page whose category is at least the one computed for a request has
  at least the requested space, and a request is refused exactly when it exceeds the largest heap tuple.
\<close>

theorem category_sound:
  assumes "valid_blcksz B" "fsm_space_needed_to_cat B needed = Inr c" "c \<le> fsm_space_avail_to_cat B avail"
  shows "needed \<le> avail"
  using needed_le_cat_to_avail [OF assms] cat_to_avail_le [OF assms(1), of avail] by linarith

theorem category_sound_witness:
  "fsm_space_needed_to_cat 8192 100 = Inr 4 \<and> fsm_space_avail_to_cat 8192 130 = 4 \<and> (100 :: nat) \<le> 130"
proof -
  have n: "fsm_space_needed_to_cat 8192 100 = Inr 4" and a: "fsm_space_avail_to_cat 8192 130 = 4"
    by (simp_all add: fsm_space_needed_to_cat_def fsm_space_avail_to_cat_def FSM_CAT_STEP_def MaxFSMRequestSize_def Let_def)
  show ?thesis using category_sound [of 8192 100 4 130] n a by (simp add: valid_blcksz_def)
qed

text \<open>
  \<^verbatim>\<open>GetPageWithFreeSpace\<close> and \<^verbatim>\<open>RecordAndGetPageWithFreeSpace\<close> raise an error exactly on requests larger than
  \<^verbatim>\<open>MaxFSMRequestSize\<close>, and nothing is recorded then.
\<close>

theorem oversized_request_error:
  "(GetPageWithFreeSpace B rel needed = Inl e \<longleftrightarrow> needed > MaxFSMRequestSize B \<and> e = Ereport ERROR ERRCODE_DATATYPE_MISMATCH) \<and>
   (RecordAndGetPageWithFreeSpace B rel blk avail needed = Inl e \<longleftrightarrow>
      needed > MaxFSMRequestSize B \<and> e = Ereport ERROR ERRCODE_DATATYPE_MISMATCH)"
  by (auto simp: GetPageWithFreeSpace_def RecordAndGetPageWithFreeSpace_def fsm_space_needed_to_cat_def Let_def rbind_def
      split: prod.splits)

text \<open>
  No two pages of the tree share a physical block, and the pages lie in the order of a depth-first walk: by the
  first leaf page below them, an ancestor before its descendants.
\<close>

theorem physical_layout:
  assumes "valid_blcksz B" "level a \<le> FSM_ROOT_LEVEL B" "level b \<le> FSM_ROOT_LEVEL B"
  shows "(fsm_logical_to_physical B a = fsm_logical_to_physical B b \<longleftrightarrow> a = b) \<and>
         (fsm_logical_to_physical B a < fsm_logical_to_physical B b \<longleftrightarrow>
            leaf_index B a < leaf_index B b \<or> leaf_index B a = leaf_index B b \<and> level b < level a)"
proof -
  have v: "valid_addr B a" "valid_addr B b" using assms by (simp_all add: valid_addr_def)
  show ?thesis
    using phys_inj [OF assms(1) v] phys_less [OF assms(1) v] phys_less [OF assms(1) v(2,1)] phys_same_leaf [OF v]
    by (cases "leaf_index B a" "leaf_index B b" rule: linorder_cases) (auto dest: less_asym)
qed

theorem physical_layout_witness:
  "fsm_logical_to_physical 8192 \<lparr>level = 2, logpageno = 0\<rparr> < fsm_logical_to_physical 8192 \<lparr>level = 0, logpageno = 0\<rparr>"
  using physical_layout [of 8192 "\<lparr>level = 2, logpageno = 0\<rparr>" "\<lparr>level = 0, logpageno = 0\<rparr>"]
  by (simp add: valid_blcksz_def FSM_ROOT_LEVEL_def FSM_TREE_DEPTH_def SlotsPerFSMPage_def LeafNodesPerPage_def
      NodesPerPage_def NonLeafNodesPerPage_def leaf_index_def)

text \<open>
  C23. The map refines a function from heap blocks to categories: recording a block returns, changes the category of that
  block and of no other, and \<^verbatim>\<open>GetRecordedFreeSpace\<close> reads it back as a lower bound of the recorded space. This holds
  also when the FSM fork does not exist yet or is too short.
\<close>

theorem record_then_read:
  assumes "valid_blcksz B" "rel_wf B rel"
  shows "\<exists>rel'. RecordPageWithFreeSpace B rel blk avail = Some rel' \<and> rel_wf B rel' \<and> (rel_ok B rel \<longrightarrow> rel_ok B rel') \<and>
    fst (GetRecordedFreeSpace B rel' blk) = fsm_space_cat_to_avail B (fsm_space_avail_to_cat B avail) \<and>
    fst (GetRecordedFreeSpace B rel' blk) \<le> avail \<and>
    (\<forall>c. c \<noteq> blk \<longrightarrow> fst (GetRecordedFreeSpace B rel' c) = fst (GetRecordedFreeSpace B rel c))"
proof -
  obtain rel' where r: "RecordPageWithFreeSpace B rel blk avail = Some rel'" "rel_wf B rel'" "rel_ok B rel \<Longrightarrow> rel_ok B rel'"
    and cat: "\<And>c. recorded_cat B rel' c = (if c = blk then fsm_space_avail_to_cat B avail else recorded_cat B rel c)"
    using RecordPageWithFreeSpace_spec [OF assms, of blk avail] by metis
  show ?thesis
    using r cat GetRecordedFreeSpace_eq(1) [OF assms(1) r(2)] GetRecordedFreeSpace_eq(1) [OF assms]
      cat_to_avail_le [OF assms(1), of avail] by auto
qed

text \<open>A relation whose FSM fork has not been created.\<close>

definition new_rel :: fsm_rel where
  "new_rel = \<lparr>fsm_fork = None, smgr_fsm_nblocks = None\<rparr>"

lemma new_rel_ok: "valid_blcksz 8192" "rel_wf 8192 new_rel" "rel_ok 8192 new_rel" "fsm_addressable 8192 new_rel"
  by (simp_all add: valid_blcksz_def rel_wf_def rel_ok_def new_rel_def fsm_addressable_def smgrnblocks_def)

theorem record_then_read_witness:
  "\<exists>rel'. RecordPageWithFreeSpace 8192 new_rel 100000 500 = Some rel' \<and> fst (GetRecordedFreeSpace 8192 rel' 100000) = 480"
  using record_then_read [OF new_rel_ok(1,2), of 100000 500]
  by (auto simp: fsm_space_cat_to_avail_def fsm_space_avail_to_cat_def FSM_CAT_STEP_def MaxFSMRequestSize_def Let_def)

text \<open>
  C33. \<^verbatim>\<open>GetPageWithFreeSpace\<close> returns on every well-formed map, torn pages included, whatever the upper levels
  say; it changes no recorded category; and a block it returns is recorded with at least the space asked for.
\<close>

theorem get_page_sound:
  assumes "valid_blcksz B" "rel_wf B rel" "fsm_addressable B rel" "needed \<le> MaxFSMRequestSize B"
  shows "\<exists>b rel'. GetPageWithFreeSpace B rel needed = Inr (Some (b, rel')) \<and> rel_wf B rel' \<and>
    (\<forall>c. recorded_cat B rel' c = recorded_cat B rel c) \<and>
    (b \<noteq> InvalidBlockNumber \<longrightarrow> needed \<le> fst (GetRecordedFreeSpace B rel b))"
proof -
  obtain c where c: "fsm_space_needed_to_cat B needed = Inr c"
    using needed_cat_exists [OF assms(4)] by blast
  obtain b rel' where r: "fsm_search B rel c = Some (b, rel')" "rel_wf B rel'" "\<And>x. recorded_cat B rel' x = recorded_cat B rel x"
    "b \<noteq> InvalidBlockNumber \<Longrightarrow> c \<le> recorded_cat B rel b"
    using search_promise_block [OF assms(1,3) fsm_search_promise [OF assms(1,2), of c]] by metis
  then show ?thesis
    using c needed_le_cat_to_avail [OF assms(1) c] GetRecordedFreeSpace_eq(1) [OF assms(1,2)]
    by (auto simp: GetPageWithFreeSpace_def)
qed

theorem get_page_sound_witness:
  "\<exists>b rel'. GetPageWithFreeSpace 8192 new_rel 100 = Inr (Some (b, rel')) \<and> rel_wf 8192 rel'"
  using get_page_sound [OF new_rel_ok(1,2,4), of 100] by (auto simp: MaxFSMRequestSize_def)

text \<open>
  \<^verbatim>\<open>RecordAndGetPageWithFreeSpace\<close> returns; it records the old page's space and nothing else, and a block it
  returns is recorded (after that) with at least the space asked for.
\<close>

theorem record_and_get_sound:
  assumes "valid_blcksz B" "rel_wf B rel" "needed \<le> MaxFSMRequestSize B"
    "max (smgrnblocks rel) (fsm_logical_to_physical B (fst (fsm_get_location B blk)) + 1) * SlotsPerFSMPage B < 2 ^ 32"
  shows "\<exists>b rel'. RecordAndGetPageWithFreeSpace B rel blk avail needed = Inr (Some (b, rel')) \<and> rel_wf B rel' \<and>
    (\<forall>c. recorded_cat B rel' c = (if c = blk then fsm_space_avail_to_cat B avail else recorded_cat B rel c)) \<and>
    (b \<noteq> InvalidBlockNumber \<longrightarrow> needed \<le> fst (GetRecordedFreeSpace B rel' b))"
proof -
  define v where "v = fsm_space_avail_to_cat B avail"
  obtain addr slot where loc: "fsm_get_location B blk = (addr, slot)" by force
  have av: "valid_addr B addr" "slot < SlotsPerFSMPage B" "addr = leaf_addr (blk div SlotsPerFSMPage B)"
    using location_valid [of B blk] location_slot_less [OF assms(1), of blk] loc by (auto simp: location_split)
  obtain c where c: "fsm_space_needed_to_cat B needed = Inr c" using needed_cat_exists [OF assms(3)] by blast
  obtain r r1 where s: "fsm_set_and_search B rel addr slot v c True = Some (r, r1)" and wf1: "rel_wf B r1"
    and n1: "smgrnblocks r1 = max (smgrnblocks rel) (fsm_logical_to_physical B addr + 1)"
    and slots: "\<And>a i. valid_addr B a \<Longrightarrow> i < SlotsPerFSMPage B \<Longrightarrow>
       page_slot B r1 a i = (if a = addr \<and> i = slot then v else page_slot B rel a i)"
    and found: "r = -1 \<or> (0 \<le> r \<and> nat r < SlotsPerFSMPage B \<and> c \<le> page_slot B r1 addr (nat r))"
    using set_and_search_spec [OF assms(1,2) av(1,2), of v c True] by metis
  have cat1: "recorded_cat B r1 x = (if x = blk then v else recorded_cat B rel x)" for x
    using recorded_cat_update [OF assms(1), of r1 blk v rel x] slots loc by simp
  have fits: "fsm_addressable B r1" using assms(4) n1 loc by (simp add: fsm_addressable_def)
  show ?thesis
  proof (cases "r = -1")
    case True
    obtain b r2 where b: "fsm_search B r1 c = Some (b, r2)" "rel_wf B r2" "\<And>x. recorded_cat B r2 x = recorded_cat B r1 x"
      "b \<noteq> InvalidBlockNumber \<Longrightarrow> c \<le> recorded_cat B r1 b"
      using search_promise_block [OF assms(1) fits fsm_search_promise [OF assms(1) wf1, of c]] by metis
    have "RecordAndGetPageWithFreeSpace B rel blk avail needed = Inr (Some (b, r2))"
      using True s c loc b(1) by (simp add: RecordAndGetPageWithFreeSpace_def Let_def v_def)
    moreover have "b \<noteq> InvalidBlockNumber \<longrightarrow> needed \<le> fst (GetRecordedFreeSpace B r2 b)"
      using b(3,4) needed_le_cat_to_avail [OF assms(1) c] GetRecordedFreeSpace_eq(1) [OF assms(1) b(2)] by simp
    ultimately show ?thesis using b(2,3) cat1 by (simp add: v_def)
  next
    case False
    define b where "b = blk div SlotsPerFSMPage B * SlotsPerFSMPage B + nat r"
    have lt: "b < 2 ^ 32 - 1"
      using existing_leaf_block [OF assms(1) fits, of "nat r"] found False n1 av(3) unfolding b_def by auto
    have "RecordAndGetPageWithFreeSpace B rel blk avail needed = Inr (Some (b, r1))"
      using False s c loc av(3) lt
      by (simp add: RecordAndGetPageWithFreeSpace_def Let_def v_def fsm_get_heap_blk_def leaf_addr_def b_def)
    moreover have "c \<le> recorded_cat B r1 b"
      using found False av(3) heap_blk_location [of "nat r" B "blk div SlotsPerFSMPage B"] by (simp add: recorded_cat_def b_def)
    ultimately show ?thesis
      using wf1 cat1 needed_le_cat_to_avail [OF assms(1) c] GetRecordedFreeSpace_eq(1) [OF assms(1) wf1] by (simp add: v_def)
  qed
qed

theorem record_and_get_sound_witness:
  "\<exists>b rel'. RecordAndGetPageWithFreeSpace 8192 new_rel 5 300 100 = Inr (Some (b, rel')) \<and> recorded_cat 8192 rel' 5 = 9"
  using record_and_get_sound [OF new_rel_ok(1,2), of 100 5 300]
  by (auto simp: MaxFSMRequestSize_def new_rel_def smgrnblocks_def fsm_get_location_def fsm_logical_to_physical_def Let_def
      SlotsPerFSMPage_def LeafNodesPerPage_def NodesPerPage_def NonLeafNodesPerPage_def FSM_TREE_DEPTH_def
      fsm_space_avail_to_cat_def FSM_CAT_STEP_def numeral_3_eq_3)

text \<open>
  C21. After \<^verbatim>\<open>FreeSpaceMapVacuum\<close> of a map with every page in order (\<open>rel_ok\<close>; its upper pages may be out of date with those below) and fewer than \<open>2 ^ 32\<close> slots,
  the search is complete: whenever some block is recorded with enough space for the request, \<^verbatim>\<open>GetPageWithFreeSpace\<close> returns a block, and one with
  enough space. On torn pages this does not hold, as the vacuum reads the root of each page and does not rebuild it.
\<close>

theorem vacuum_makes_search_complete:
  assumes "valid_blcksz B" "rel_ok B rel" "fsm_addressable B rel" "fsm_space_needed_to_cat B needed = Inr c"
    "blk < 2 ^ 32" "c \<le> recorded_cat B rel blk"
  shows "\<exists>b rel'. GetPageWithFreeSpace B (FreeSpaceMapVacuum B rel) needed = Inr (Some (b, rel')) \<and>
    b < InvalidBlockNumber \<and> c \<le> recorded_cat B rel b"
  using search_after_vacuum [OF assms(1-3) needed_cat_cases(3) [OF assms(1,4)] assms(5,6)] assms(4)
  by (simp add: GetPageWithFreeSpace_def)

text \<open>A relation of one heap block with 4000 bytes free, recorded in a map of three pages whose upper levels do not know it.\<close>

definition one_block_rel :: fsm_rel where
  "one_block_rel = \<lparr>fsm_fork = Some [empty_fsm_page 8192, empty_fsm_page 8192, set_slot 8192 (empty_fsm_page 8192) 0 125],
                    smgr_fsm_nblocks = Some 3\<rparr>"

lemma one_block_rel_ok: "rel_ok 8192 one_block_rel" "fsm_addressable 8192 one_block_rel"
  using empty_fsm_page_ok [OF new_rel_ok(1)] fsm_page.put_ok [of 8192 "empty_fsm_page 8192" 0 125] new_rel_ok(1)
    fsm_page.ok_wf [of 8192]
  by (auto simp: rel_ok_def rel_wf_def one_block_rel_def smgrnblocks_def fsm_addressable_def SlotsPerFSMPage_def
      LeafNodesPerPage_def NodesPerPage_def NonLeafNodesPerPage_def)

lemma one_block_rel_cat: "recorded_cat 8192 one_block_rel 0 = 125"
  using fsm_page.get_put [of 8192 "empty_fsm_page 8192" 0 0 125] empty_fsm_page_ok [OF new_rel_ok(1)] new_rel_ok(1) fsm_page.ok_wf [of 8192]
  by (simp add: recorded_cat_def page_slot_def get_page_def one_block_rel_def fsm_get_location_def fsm_logical_to_physical_def
      SlotsPerFSMPage_def LeafNodesPerPage_def NodesPerPage_def NonLeafNodesPerPage_def FSM_TREE_DEPTH_def numeral_3_eq_3 Let_def)

theorem vacuum_makes_search_complete_witness:
  "\<exists>b rel'. GetPageWithFreeSpace 8192 (FreeSpaceMapVacuum 8192 one_block_rel) 100 = Inr (Some (b, rel')) \<and> b < InvalidBlockNumber"
proof -
  have n: "fsm_space_needed_to_cat 8192 100 = Inr 4"
    by (simp add: fsm_space_needed_to_cat_def FSM_CAT_STEP_def MaxFSMRequestSize_def Let_def)
  show ?thesis
    using vacuum_makes_search_complete [OF new_rel_ok(1) one_block_rel_ok n, of 0] one_block_rel_cat by auto
qed

text \<open>
  \<^verbatim>\<open>FreeSpaceMapTruncateRel\<close> forgets the space of every removed heap block and keeps what is recorded of the
  others; the map stays well-formed.
\<close>

theorem truncate_forgets_removed_blocks:
  assumes "valid_blcksz B" "rel_wf B rel"
  shows "rel_wf B (FreeSpaceMapTruncateRel B rel nblocks) \<and>
    recorded_cat B (FreeSpaceMapTruncateRel B rel nblocks) c = (if c < nblocks then recorded_cat B rel c else 0)"
  using FreeSpaceMapTruncateRel_spec [OF assms] by simp

theorem truncate_forgets_removed_blocks_witness:
  "recorded_cat 8192 (FreeSpaceMapTruncateRel 8192 one_block_rel 1) 0 = 125 \<and>
   recorded_cat 8192 (FreeSpaceMapTruncateRel 8192 one_block_rel 0) 0 = 0"
  using truncate_forgets_removed_blocks [OF new_rel_ok(1), of one_block_rel 1 0]
    truncate_forgets_removed_blocks [OF new_rel_ok(1), of one_block_rel 0 0] one_block_rel_ok(1) one_block_rel_cat
  by (simp add: rel_ok_def)

text \<open>
  \<^verbatim>\<open>UpdateFreeSpaceMap\<close> returns when the FSM page of the last block ends below block \<open>2 ^ 32\<close>: one turn per FSM
  page of the range is enough. It touches upper levels only, so no recorded category changes.
\<close>

theorem update_map_returns:
  assumes "valid_blcksz B" "rel_wf B rel" "Suc (last_blk div SlotsPerFSMPage B) * SlotsPerFSMPage B \<le> 2 ^ 32"
    "Suc (last_blk div SlotsPerFSMPage B) - first_blk div SlotsPerFSMPage B < fuel"
  shows "\<exists>rel'. UpdateFreeSpaceMap fuel B rel first_blk last_blk freespace srch = Some rel' \<and> rel_wf B rel' \<and>
    (\<forall>c. recorded_cat B rel' c = recorded_cat B rel c)"
  unfolding UpdateFreeSpaceMap_def by (rule UpdateFreeSpaceMap_loop_returns [OF assms(1,3,2,4)])

theorem update_map_returns_witness: "\<exists>rel'. UpdateFreeSpaceMap 3 8192 new_rel 4000 5000 8000 True = Some rel'"
  using update_map_returns [OF new_rel_ok(1,2), of 5000 4000 3 8000 True]
  by (auto simp: SlotsPerFSMPage_def LeafNodesPerPage_def NodesPerPage_def NonLeafNodesPerPage_def)

text \<open>
  C40. \<^verbatim>\<open>UpdateFreeSpaceMap\<close> never returns when the last block lies on an FSM page that reaches beyond block \<open>2 ^ 32\<close>:
  \<^verbatim>\<open>fsm_get_lastblckno\<close> wraps around to a small block number and the loop starts over. With 8 kB blocks these are the
  last blocks of a relation of the greatest size, from block 4294963777 on.
\<close>

theorem update_map_wraps_around:
  assumes "valid_blcksz B" "first_blk \<le> last_blk" "last_blk < 2 ^ 32" "2 ^ 32 < Suc (last_blk div SlotsPerFSMPage B) * SlotsPerFSMPage B"
  shows "UpdateFreeSpaceMap fuel B rel first_blk last_blk freespace srch = None"
  unfolding UpdateFreeSpaceMap_def by (rule UpdateFreeSpaceMap_loop_stuck [OF assms(1,3,4,2)])

theorem update_map_wraps_around_witness:
  "UpdateFreeSpaceMap 1000000 8192 new_rel 4294963777 4294963800 8000 True = None"
  by (rule update_map_wraps_around [OF new_rel_ok(1)])
    (simp_all add: SlotsPerFSMPage_def LeafNodesPerPage_def NodesPerPage_def NonLeafNodesPerPage_def)

text \<open>
  Two comments of \<^verbatim>\<open>freespace.h\<close> against the definitions. With 8 kB blocks the table gives category 254 up to 8163
  bytes, while category 255 begins at 8144 bytes, the largest heap tuple with the page header of this system. And 216 is
  given as the smallest number of slots that addresses \<open>2 ^ 32 - 1\<close> blocks with four levels, with 512 as the smallest
  block size supported; the 229 slots of a 512-byte block do not suffice.
\<close>

lemma category_table_8k:
  "fsm_space_avail_to_cat 8192 8143 = 254 \<and> fsm_space_avail_to_cat 8192 8144 = 255 \<and> MaxFSMRequestSize 8192 = 8144"
  by (simp add: fsm_space_avail_to_cat_def MaxFSMRequestSize_def FSM_CAT_STEP_def Let_def)

lemma tree_depth_512: "SlotsPerFSMPage 512 = 229 \<and> SlotsPerFSMPage 512 ^ FSM_TREE_DEPTH 512 < 2 ^ 32 - 1 \<and> (216 :: nat) ^ 4 < 2 ^ 32 - 1"
  by (simp add: SlotsPerFSMPage_def LeafNodesPerPage_def NodesPerPage_def NonLeafNodesPerPage_def FSM_TREE_DEPTH_def)

end
