(* ===== verification/OG_Xact.thy ===== *)
theory OG_Xact
  imports OG_Prelude
begin

text \<open>
  \<^verbatim>\<open>src/gausskernel/storage/access/transam/xact.cpp\<close>: the transaction block state machine of a session, the two-level
  system of \<^verbatim>\<open>TransState\<close> (what the transaction is doing) and \<^verbatim>\<open>TBlockState\<close> (where the client's transaction block
  stands), on a stack of \<^verbatim>\<open>TransactionStateData\<close>: the current one, and the chain of its parents up to
  \<^verbatim>\<open>TopTransactionStateData\<close>.

  The low-level routines (\<^verbatim>\<open>StartTransaction\<close>, \<^verbatim>\<open>CommitTransaction\<close>, ...) run hundreds of calls into other
  subsystems. Here they are what they do to this stack and to the session variables it depends on: the states they set, the
  ids and nesting levels, the undo record pointers, the errors they raise on an unexpected state. What they do elsewhere is
  recorded as one event in \<open>xlog\<close>, so that theorems can say what was committed and what was rolled back. Reports
  below ERROR are left out. ERROR and FATAL are values of the result; a routine that raises ERROR has changed nothing
  before, so the session after an ERROR is the one before the call. There are two exceptions, the last branch of
  TBLOCK_SUBCOMMIT and the push that restarts a savepoint; \<^verbatim>\<open>OG_XactStack\<close> shows that from the states a session can reach
  \<^verbatim>\<open>CommitTransactionCommand\<close> raises no error at all.

  This theory has the routines only. What they do to the stack is shown in \<^verbatim>\<open>OG_XactStack\<close>; \<^verbatim>\<open>OG_Session\<close> has the session
  as the main loop drives it.
\<close>

section \<open>Data\<close>

datatype TransState =
  TRANS_DEFAULT | TRANS_START | TRANS_INPROGRESS | TRANS_COMMIT | TRANS_ABORT | TRANS_PREPARE | TRANS_UNDO

datatype TBlockState =
    TBLOCK_DEFAULT | TBLOCK_STARTED | TBLOCK_BEGIN | TBLOCK_INPROGRESS | TBLOCK_END | TBLOCK_ABORT | TBLOCK_ABORT_END
  | TBLOCK_ABORT_PENDING | TBLOCK_PREPARE | TBLOCK_UNDO
  | TBLOCK_SUBBEGIN | TBLOCK_SUBINPROGRESS | TBLOCK_SUBRELEASE | TBLOCK_SUBCOMMIT | TBLOCK_SUBABORT | TBLOCK_SUBABORT_END
  | TBLOCK_SUBABORT_PENDING | TBLOCK_SUBRESTART | TBLOCK_SUBABORT_RESTART | TBLOCK_SUBUNDO

record TransactionStateData =
  subTransactionId :: uint64
  name :: "string option"
  savepointLevel :: int
  state :: TransState
  blockState :: TBlockState
  nestingLevel :: nat
  first_urp :: "uint64 list"
  latest_urp :: "uint64 list"
  latest_urp_xact :: "uint64 list"

datatype xact_event =
    EvStart | EvCommit | EvPrepare | EvAbort
  | EvSubStart uint64 | EvSubCommit uint64 | EvSubAbort uint64 | EvCommandCounter

text \<open>
  \<open>undo_slot\<close> is whether the session holds an undo slot (\<^verbatim>\<open>t_thrd.undo_cxt.slotPtr\<close>). The newest event of \<open>xlog\<close>
  is its head.
\<close>

record session =
  CurrentTransactionState :: TransactionStateData
  parents :: "TransactionStateData list"
  currentSubTransactionId :: uint64
  stp_savepoint_cnt :: int
  portal_stp_exception_counter :: int
  handlesDestroyedInCancelQuery :: bool
  undo_slot :: bool
  xlog :: "xact_event list"

text \<open>Settings: \<^verbatim>\<open>phony_autocommit\<close>, and whether this node only warns on a BEGIN inside a block.\<close>

record xact_env =
  phony_autocommit :: bool
  begin_only_warns :: bool

definition UNDO_PERSISTENCE_LEVELS :: nat where
  "UNDO_PERSISTENCE_LEVELS = 3"

definition no_urp :: "uint64 list" where
  "no_urp = replicate UNDO_PERSISTENCE_LEVELS 0"

definition TopTransactionStateData0 :: TransactionStateData where
  "TopTransactionStateData0 = \<lparr>subTransactionId = 0, name = None, savepointLevel = 0, state = TRANS_DEFAULT,
     blockState = TBLOCK_DEFAULT, nestingLevel = 0, first_urp = no_urp, latest_urp = no_urp, latest_urp_xact = no_urp\<rparr>"

definition session0 :: session where
  "session0 = \<lparr>CurrentTransactionState = TopTransactionStateData0, parents = [], currentSubTransactionId = 0, stp_savepoint_cnt = 0,
     portal_stp_exception_counter = 0, handlesDestroyedInCancelQuery = False, undo_slot = False, xlog = []\<rparr>"

abbreviation cur :: "session \<Rightarrow> TransactionStateData" where
  "cur s \<equiv> CurrentTransactionState s"

abbreviation top_xact :: "session \<Rightarrow> TransactionStateData" where
  "top_xact s \<equiv> last (CurrentTransactionState s # parents s)"

definition upd_cur :: "(TransactionStateData \<Rightarrow> TransactionStateData) \<Rightarrow> session \<Rightarrow> session" where
  "upd_cur f s = s\<lparr>CurrentTransactionState := f (cur s)\<rparr>"

definition set_block :: "TBlockState \<Rightarrow> session \<Rightarrow> session" where
  "set_block b = upd_cur (\<lambda>t. t\<lparr>blockState := b\<rparr>)"

definition log_event :: "xact_event \<Rightarrow> session \<Rightarrow> session" where
  "log_event e s = s\<lparr>xlog := e # xlog s\<rparr>"

definition unexpected_state :: "elevel \<Rightarrow> 'a result" where
  "unexpected_state l = Inl (Ereport l ERRCODE_INVALID_TRANSACTION_STATE)"

section \<open>Low-level routines\<close>

definition IsSubTransaction :: "session \<Rightarrow> bool" where
  "IsSubTransaction s = (nestingLevel (cur s) \<ge> 2)"

definition ResetUndoActionsInfo :: "session \<Rightarrow> session" where
  "ResetUndoActionsInfo s =
     (let s = upd_cur (\<lambda>t. t\<lparr>first_urp := no_urp, latest_urp := no_urp, latest_urp_xact := no_urp\<rparr>) s
      in if IsSubTransaction s then s else s\<lparr>undo_slot := False\<rparr>)"

definition SetCurrentTransactionUndoRecPtr :: "uint64 \<Rightarrow> nat \<Rightarrow> session \<Rightarrow> session" where
  "SetCurrentTransactionUndoRecPtr urecPtr upersistence s =
     upd_cur (\<lambda>t. t\<lparr>first_urp := (if first_urp t ! upersistence = 0 then (first_urp t)[upersistence := urecPtr] else first_urp t),
                   latest_urp := (latest_urp t)[upersistence := urecPtr],
                   latest_urp_xact := (latest_urp_xact t)[upersistence := urecPtr]\<rparr>) s"

text \<open>
  \<^verbatim>\<open>ApplyUndoActions\<close>: nothing when the (sub)transaction wrote no undo record; otherwise the records are applied
  (elsewhere) and forgotten, with the block left in TBLOCK_UNDO or TBLOCK_SUBUNDO, which the caller overwrites or pops. Applying them
  raises no error here, so that the flag \<^verbatim>\<open>executeSubxactUndo\<close> is never found set and the branch that skips the records after such an error is not taken.
\<close>

definition undo_applied :: "session \<Rightarrow> session" where
  "undo_applied s =
     (let s = (if IsSubTransaction s then set_block TBLOCK_SUBUNDO s
               else upd_cur (\<lambda>t. t\<lparr>subTransactionId := 1, blockState := TBLOCK_UNDO\<rparr>) s);
          s = ResetUndoActionsInfo s
      in upd_cur (\<lambda>t. t\<lparr>state := TRANS_ABORT\<rparr>) s)"

definition ApplyUndoActions :: "session \<Rightarrow> session result" where
  "ApplyUndoActions s =
     (let needRollback = (list_ex (\<lambda>u. u \<noteq> 0) (latest_urp (cur s)) \<or> (\<not> IsSubTransaction s \<and> undo_slot s))
      in if \<not> needRollback then Inr s
         else if state (cur s) \<noteq> TRANS_ABORT then unexpected_state FATAL
         else Inr (undo_applied s))"

text \<open>
  Of \<^verbatim>\<open>StartTransaction\<close>, \<^verbatim>\<open>CommitTransaction\<close>, \<^verbatim>\<open>PrepareTransaction\<close> and \<^verbatim>\<open>AbortTransaction\<close> the assignments to the fields of the state; an event of the log stands for
  the work in other subsystems between them.
\<close>

definition StartTransaction :: "session \<Rightarrow> session" where
  "StartTransaction s =
     (let s = s\<lparr>CurrentTransactionState := top_xact s, parents := [], handlesDestroyedInCancelQuery := False\<rparr>;
          s = upd_cur (\<lambda>t. t\<lparr>state := TRANS_START\<rparr>) s;
          s = ResetUndoActionsInfo s;
          s = upd_cur (\<lambda>t. t\<lparr>subTransactionId := 1\<rparr>) s;
          s = s\<lparr>currentSubTransactionId := 1\<rparr>;
          s = upd_cur (\<lambda>t. t\<lparr>nestingLevel := 1\<rparr>) s
      in log_event EvStart (upd_cur (\<lambda>t. t\<lparr>state := TRANS_INPROGRESS\<rparr>) s))"

definition CommitTransaction :: "session \<Rightarrow> session" where
  "CommitTransaction s =
     (let s = s\<lparr>handlesDestroyedInCancelQuery := False\<rparr>;
          s = upd_cur (\<lambda>t. t\<lparr>subTransactionId := 0, nestingLevel := 0\<rparr>) s;
          s = ResetUndoActionsInfo s
      in log_event EvCommit (upd_cur (\<lambda>t. t\<lparr>state := TRANS_DEFAULT\<rparr>) s))"

definition PrepareTransaction :: "session \<Rightarrow> session" where
  "PrepareTransaction s =
     log_event EvPrepare (upd_cur (\<lambda>t. t\<lparr>subTransactionId := 0, nestingLevel := 0, state := TRANS_DEFAULT\<rparr>) s)"

definition AbortTransaction :: "session \<Rightarrow> session" where
  "AbortTransaction s =
     log_event EvAbort (upd_cur (\<lambda>t. t\<lparr>state := TRANS_ABORT\<rparr>) (s\<lparr>handlesDestroyedInCancelQuery := False\<rparr>))"

definition CleanupTransaction :: "session \<Rightarrow> session result" where
  "CleanupTransaction s =
     (if state (cur s) \<noteq> TRANS_ABORT then unexpected_state FATAL
      else let s = upd_cur (\<lambda>t. t\<lparr>subTransactionId := 0, nestingLevel := 0\<rparr>) s;
               s = ResetUndoActionsInfo s
           in Inr (upd_cur (\<lambda>t. t\<lparr>state := TRANS_DEFAULT\<rparr>) s))"

definition PushTransaction :: "session \<Rightarrow> session result" where
  "PushTransaction s =
     (let p = cur s; subid = currentSubTransactionId s + 1
      in if subid = 0 then Inl (Ereport ERROR ERRCODE_PROGRAM_LIMIT_EXCEEDED)
         else Inr (s\<lparr>currentSubTransactionId := subid,
                     parents := p # parents s,
                     CurrentTransactionState :=
                       \<lparr>subTransactionId = subid, name = None, savepointLevel = savepointLevel p, state = TRANS_DEFAULT,
                                blockState = TBLOCK_SUBBEGIN, nestingLevel = nestingLevel p + 1, first_urp = no_urp,
                                latest_urp = no_urp, latest_urp_xact = no_urp\<rparr>\<rparr>))"

definition PopTransaction :: "session \<Rightarrow> session result" where
  "PopTransaction s =
     (case parents s of
        p # r \<Rightarrow> Inr (s\<lparr>CurrentTransactionState := p, parents := r, currentSubTransactionId := subTransactionId p\<rparr>)
      | [] \<Rightarrow> Inl (Ereport FATAL ERRCODE_INTERNAL_ERROR))"

definition StartSubTransaction :: "session \<Rightarrow> session" where
  "StartSubTransaction s =
     (let s = upd_cur (\<lambda>t. t\<lparr>state := TRANS_START\<rparr>) s;
          s = ResetUndoActionsInfo s;
          s = (case parents s of
                 p # r \<Rightarrow> upd_cur (\<lambda>t. t\<lparr>first_urp := no_urp, latest_urp := no_urp, latest_urp_xact := latest_urp_xact p\<rparr>) s
               | [] \<Rightarrow> s)
      in log_event (EvSubStart (subTransactionId (cur s))) (upd_cur (\<lambda>t. t\<lparr>state := TRANS_INPROGRESS\<rparr>) s))"

definition CommitSubTransaction :: "session \<Rightarrow> session result" where
  "CommitSubTransaction s =
     PopTransaction (log_event (EvSubCommit (subTransactionId (cur s))) (upd_cur (\<lambda>t. t\<lparr>state := TRANS_DEFAULT\<rparr>) s))"

definition AbortSubTransaction :: "session \<Rightarrow> session" where
  "AbortSubTransaction s =
     log_event (EvSubAbort (subTransactionId (cur s))) (upd_cur (\<lambda>t. t\<lparr>state := TRANS_ABORT\<rparr>) s)"

definition CleanupSubTransaction :: "session \<Rightarrow> session result" where
  "CleanupSubTransaction s = PopTransaction (upd_cur (\<lambda>t. t\<lparr>state := TRANS_DEFAULT\<rparr>) s)"

text \<open>The parent takes over the undo records of the committed child.\<close>

definition propagate_urp :: "TransactionStateData \<Rightarrow> TransactionStateData \<Rightarrow> TransactionStateData" where
  "propagate_urp c p =
     p\<lparr>latest_urp := map2 (\<lambda>x y. if x \<noteq> 0 then x else y) (latest_urp c) (latest_urp p),
       latest_urp_xact := map2 (\<lambda>x y. if x \<noteq> 0 then x else y) (latest_urp c) (latest_urp_xact p),
       first_urp := map2 (\<lambda>x y. if y = 0 then x else y) (first_urp c) (first_urp p)\<rparr>"

definition propagate_to_parent :: "session \<Rightarrow> session" where
  "propagate_to_parent s =
     (case parents s of p # r \<Rightarrow> s\<lparr>parents := propagate_urp (cur s) p # r\<rparr> | [] \<Rightarrow> s)"

text \<open>The depth of the stack, which bounds the loops below.\<close>

lemma cur_upd_cur [simp]: "cur (upd_cur f s) = f (cur s)"
  by (simp add: upd_cur_def)

lemma cur_set_block [simp]: "cur (set_block b s) = (cur s)\<lparr>blockState := b\<rparr>"
  by (simp add: set_block_def)

lemma cur_log_event [simp]: "cur (log_event e s) = cur s"
  by (simp add: log_event_def)

lemma parents_upd_cur [simp]: "parents (upd_cur f s) = parents s"
  by (simp add: upd_cur_def)

lemma parents_set_block [simp]: "parents (set_block b s) = parents s"
  by (simp add: set_block_def)

lemma parents_log_event [simp]: "parents (log_event e s) = parents s"
  by (simp add: log_event_def)

lemma parents_AbortSub [simp]: "parents (AbortSubTransaction s) = parents s"
  by (simp add: AbortSubTransaction_def)

lemma parents_ResetUndo [simp]: "parents (ResetUndoActionsInfo s) = parents s"
  by (simp add: ResetUndoActionsInfo_def Let_def)

lemma parents_undo_applied [simp]: "parents (undo_applied s) = parents s"
  by (simp add: undo_applied_def Let_def)

lemma parents_ApplyUndo: "ApplyUndoActions s = Inr s' \<Longrightarrow> parents s' = parents s"
  by (auto simp: ApplyUndoActions_def Let_def unexpected_state_def split: if_splits)

lemma length_propagate [simp]: "length (parents (propagate_to_parent s)) = length (parents s)"
  by (auto simp: propagate_to_parent_def split: list.splits)

lemma PopTransaction_length: "PopTransaction s = Inr s' \<Longrightarrow> length (parents s') < length (parents s)"
  by (auto simp: PopTransaction_def split: list.splits)

lemma CommitSub_length: "CommitSubTransaction s = Inr s' \<Longrightarrow> length (parents s') < length (parents s)"
  by (auto simp: CommitSubTransaction_def dest!: PopTransaction_length)

lemma CleanupSub_length: "CleanupSubTransaction s = Inr s' \<Longrightarrow> length (parents s') < length (parents s)"
  by (auto simp: CleanupSubTransaction_def dest!: PopTransaction_length)

section \<open>Command boundaries\<close>

definition StartTransactionCommand :: "bool \<Rightarrow> session \<Rightarrow> session result" where
  "StartTransactionCommand STP_rollback s =
     (case blockState (cur s) of
        TBLOCK_DEFAULT \<Rightarrow> Inr (set_block TBLOCK_STARTED (StartTransaction s))
      | TBLOCK_INPROGRESS \<Rightarrow> Inr s
      | TBLOCK_SUBINPROGRESS \<Rightarrow> Inr s
      | TBLOCK_ABORT \<Rightarrow> Inr (if STP_rollback then set_block TBLOCK_DEFAULT s else s)
      | TBLOCK_SUBABORT \<Rightarrow> Inr (if STP_rollback then set_block TBLOCK_DEFAULT s else s)
      | _ \<Rightarrow> unexpected_state ERROR)"

text \<open>\<^verbatim>\<open>AbortOutOfAnyTransaction\<close>: one turn of its loop, then the loop.\<close>

definition abort_out_sub :: "session \<Rightarrow> session result" where
  "abort_out_sub s = rbind (ApplyUndoActions (AbortSubTransaction s)) CleanupSubTransaction"

definition abort_out_top :: "session \<Rightarrow> session result" where
  "abort_out_top s =
     rbind (ApplyUndoActions (AbortTransaction s)) (\<lambda>s. rbind (CleanupTransaction s) (\<lambda>s. Inr (set_block TBLOCK_DEFAULT s)))"

definition abort_out_turn :: "bool \<Rightarrow> session \<Rightarrow> session result" where
  "abort_out_turn reserve_topxact_abort s =
     (let reserved_fatal = (\<lambda>r. if reserve_topxact_abort then unexpected_state FATAL else r)
      in case blockState (cur s) of
        TBLOCK_DEFAULT \<Rightarrow>
          reserved_fatal (if state (cur s) = TRANS_DEFAULT then Inr s
            else let s = (if state (cur s) = TRANS_START then upd_cur (\<lambda>t. t\<lparr>state := TRANS_INPROGRESS\<rparr>) s else s)
                 in CleanupTransaction (AbortTransaction s))
      | TBLOCK_STARTED \<Rightarrow> reserved_fatal (abort_out_top s)
      | TBLOCK_BEGIN \<Rightarrow> reserved_fatal (abort_out_top s)
      | TBLOCK_END \<Rightarrow> abort_out_top s
      | TBLOCK_ABORT_PENDING \<Rightarrow> abort_out_top s
      | TBLOCK_PREPARE \<Rightarrow> abort_out_top s
      | TBLOCK_INPROGRESS \<Rightarrow>
          (if reserve_topxact_abort then Inr (set_block TBLOCK_ABORT (AbortTransaction s)) else abort_out_top s)
      | TBLOCK_UNDO \<Rightarrow>
          rbind (CleanupTransaction (AbortTransaction (ResetUndoActionsInfo s))) (\<lambda>s. Inr (set_block TBLOCK_DEFAULT s))
      | TBLOCK_ABORT \<Rightarrow> reserved_fatal (rbind (CleanupTransaction s) (\<lambda>s. Inr (set_block TBLOCK_DEFAULT s)))
      | TBLOCK_ABORT_END \<Rightarrow> reserved_fatal (rbind (CleanupTransaction s) (\<lambda>s. Inr (set_block TBLOCK_DEFAULT s)))
      | TBLOCK_SUBBEGIN \<Rightarrow> reserved_fatal (abort_out_sub s)
      | TBLOCK_SUBINPROGRESS \<Rightarrow> abort_out_sub s
      | TBLOCK_SUBRELEASE \<Rightarrow> abort_out_sub s
      | TBLOCK_SUBCOMMIT \<Rightarrow> abort_out_sub s
      | TBLOCK_SUBABORT_PENDING \<Rightarrow> abort_out_sub s
      | TBLOCK_SUBRESTART \<Rightarrow> abort_out_sub s
      | TBLOCK_SUBUNDO \<Rightarrow> CleanupSubTransaction (AbortSubTransaction (ResetUndoActionsInfo s))
      | TBLOCK_SUBABORT_END \<Rightarrow> reserved_fatal (CleanupSubTransaction s)
      | TBLOCK_SUBABORT_RESTART \<Rightarrow> reserved_fatal (CleanupSubTransaction s)
      | TBLOCK_SUBABORT \<Rightarrow> CleanupSubTransaction s)"

definition abort_out_done :: "bool \<Rightarrow> session \<Rightarrow> bool" where
  "abort_out_done reserve_topxact_abort s =
     (reserve_topxact_abort \<and> parents s = [] \<and> blockState (cur s) = TBLOCK_ABORT \<or> blockState (cur s) = TBLOCK_DEFAULT)"

lemma abort_out_sub_length: "abort_out_sub s = Inr s' \<Longrightarrow> length (parents s') < length (parents s)"
  by (auto simp: abort_out_sub_def rbind_eq_Inr dest!: CleanupSub_length parents_ApplyUndo)

lemma abort_out_top_default: "abort_out_top s = Inr s' \<Longrightarrow> blockState (cur s') = TBLOCK_DEFAULT"
  by (auto simp: abort_out_top_def rbind_eq_Inr)

lemma CleanupTransaction_block: "CleanupTransaction s = Inr s' \<Longrightarrow> blockState (cur s') = blockState (cur s)"
  by (auto simp: CleanupTransaction_def Let_def ResetUndoActionsInfo_def unexpected_state_def IsSubTransaction_def split: if_splits)

lemma abort_out_turn_progress:
  assumes "abort_out_turn r s = Inr s'"
  shows "length (parents s') < length (parents s) \<or> blockState (cur s') = TBLOCK_DEFAULT \<or>
         blockState (cur s) = TBLOCK_INPROGRESS \<and> parents s' = parents s \<and> blockState (cur s') = TBLOCK_ABORT"
  using assms
  by (cases "blockState (cur s)")
    (auto simp: abort_out_turn_def Let_def rbind_eq_Inr unexpected_state_def AbortTransaction_def split: if_splits
      dest!: abort_out_sub_length abort_out_top_default CleanupTransaction_block CleanupSub_length)

function AbortOutOfAnyTransaction :: "bool \<Rightarrow> session \<Rightarrow> session result" where
  "AbortOutOfAnyTransaction reserve_topxact_abort s =
     (case abort_out_turn reserve_topxact_abort s of
        Inl e \<Rightarrow> Inl e
      | Inr s' \<Rightarrow> if abort_out_done reserve_topxact_abort s' then Inr s'
                  else AbortOutOfAnyTransaction reserve_topxact_abort s')"
  by pat_completeness auto
termination
  by (relation "measures [\<lambda>(r, s). length (parents s), \<lambda>(r, s). if blockState (cur s) = TBLOCK_INPROGRESS then 1 else 0]")
    (use abort_out_turn_progress in \<open>fastforce simp: abort_out_done_def\<close>)+

declare AbortOutOfAnyTransaction.simps [simp del]

text \<open>\<^verbatim>\<open>DefineSavepoint\<close>, and the end of the commands that leave a new subtransaction to be started.\<close>

definition DefineSavepoint :: "string option \<Rightarrow> session \<Rightarrow> session result" where
  "DefineSavepoint nm s =
     (if blockState (cur s) \<in> {TBLOCK_INPROGRESS, TBLOCK_SUBINPROGRESS}
      then rbind (PushTransaction s) (\<lambda>s. Inr (if nm \<noteq> None then upd_cur (\<lambda>t. t\<lparr>name := nm\<rparr>) s else s))
      else unexpected_state FATAL)"

definition commit_subbegin :: "session \<Rightarrow> session" where
  "commit_subbegin s = set_block TBLOCK_SUBINPROGRESS (StartSubTransaction s)"

text \<open>
  \<^verbatim>\<open>BeginInternalSubTransaction\<close> ends with \<^verbatim>\<open>CommitTransactionCommand(true)\<close> and \<^verbatim>\<open>StartTransactionCommand(true)\<close>; the
  first finds the TBLOCK_SUBBEGIN that was just pushed.
\<close>

definition BeginInternalSubTransaction :: "string option \<Rightarrow> session \<Rightarrow> session result" where
  "BeginInternalSubTransaction nm s =
     (if blockState (cur s) \<in> {TBLOCK_STARTED, TBLOCK_INPROGRESS, TBLOCK_END, TBLOCK_PREPARE, TBLOCK_SUBINPROGRESS}
      then rbind (PushTransaction s) (\<lambda>s.
             let s = (if nm \<noteq> None then upd_cur (\<lambda>t. t\<lparr>name := nm\<rparr>) s else s)
             in StartTransactionCommand True (commit_subbegin s))
      else unexpected_state FATAL)"

text \<open>The loops of the branches that end several subtransactions.\<close>

function commit_subs :: "TBlockState \<Rightarrow> bool \<Rightarrow> session \<Rightarrow> session result" where
  "commit_subs b propagate s =
     (case CommitSubTransaction (if propagate then propagate_to_parent s else s) of
        Inl e \<Rightarrow> Inl e
      | Inr s' \<Rightarrow> if blockState (cur s') = b then commit_subs b propagate s' else Inr s')"
  by pat_completeness auto
termination
  by (relation "measure (\<lambda>(b, p, s). length (parents s))") (auto dest!: CommitSub_length split: if_splits)

declare commit_subs.simps [simp del]

text \<open>The end of ROLLBACK TO: a new subtransaction with the name and level of the old one.\<close>

definition restart_savepoint :: "bool \<Rightarrow> string option \<Rightarrow> int \<Rightarrow> session \<Rightarrow> session result" where
  "restart_savepoint STP_commit nm lev s =
     (if STP_commit
      then rbind (BeginInternalSubTransaction None s) (\<lambda>s. Inr (upd_cur (\<lambda>t. t\<lparr>name := nm, savepointLevel := lev\<rparr>) s))
      else rbind (DefineSavepoint None s) (\<lambda>s.
             Inr (commit_subbegin (upd_cur (\<lambda>t. t\<lparr>name := nm, savepointLevel := lev\<rparr>) s))))"

function CommitTransactionCommand :: "bool \<Rightarrow> session \<Rightarrow> session result" where
  "CommitTransactionCommand STP_commit s =
     (let commit_top = (\<lambda>s. Inr (set_block TBLOCK_DEFAULT (CommitTransaction s))); b = blockState (cur s)
      in if b = TBLOCK_STARTED then commit_top s
         else if b = TBLOCK_BEGIN then Inr (set_block TBLOCK_INPROGRESS s)
         else if b = TBLOCK_INPROGRESS then
           (let s = log_event EvCommandCounter s in if STP_commit then commit_top s else Inr s)
         else if b = TBLOCK_SUBINPROGRESS then
           (let s = log_event EvCommandCounter s
            in if STP_commit \<or> blockState (top_xact s) = TBLOCK_STARTED
               then rbind (commit_subs TBLOCK_SUBINPROGRESS False s) commit_top
               else Inr s)
         else if b = TBLOCK_END then commit_top s
         else if b = TBLOCK_ABORT \<or> b = TBLOCK_SUBABORT then Inr s
         else if b = TBLOCK_ABORT_END then
           rbind (CleanupTransaction s) (\<lambda>s. Inr (set_block TBLOCK_DEFAULT s))
         else if b = TBLOCK_ABORT_PENDING then abort_out_top s
         else if b = TBLOCK_PREPARE then Inr (set_block TBLOCK_DEFAULT (PrepareTransaction s))
         else if b = TBLOCK_SUBBEGIN then Inr (commit_subbegin s)
         else if b = TBLOCK_SUBRELEASE then commit_subs TBLOCK_SUBRELEASE False s
         else if b = TBLOCK_SUBCOMMIT then
           rbind (commit_subs TBLOCK_SUBCOMMIT True s) (\<lambda>s.
             if blockState (cur s) = TBLOCK_END then commit_top s
             else if blockState (cur s) = TBLOCK_PREPARE then Inr (set_block TBLOCK_DEFAULT (PrepareTransaction s))
             else unexpected_state ERROR)
         else if b = TBLOCK_SUBABORT_END then
           (case CleanupSubTransaction s of Inl e \<Rightarrow> Inl e | Inr s' \<Rightarrow> CommitTransactionCommand STP_commit s')
         else if b = TBLOCK_SUBABORT_PENDING then
           (case abort_out_sub s of
              Inl e \<Rightarrow> Inl e
            | Inr s' \<Rightarrow> if handlesDestroyedInCancelQuery s' then AbortOutOfAnyTransaction True s'
                        else CommitTransactionCommand STP_commit s')
         else if b = TBLOCK_SUBRESTART then
           (case abort_out_sub s of
              Inl e \<Rightarrow> Inl e
            | Inr s' \<Rightarrow> if handlesDestroyedInCancelQuery s' then AbortOutOfAnyTransaction True s'
                        else restart_savepoint STP_commit (name (cur s)) (savepointLevel (cur s)) s')
         else if b = TBLOCK_SUBABORT_RESTART then
           rbind (CleanupSubTransaction s) (restart_savepoint STP_commit (name (cur s)) (savepointLevel (cur s)))
         else unexpected_state FATAL)"
  by pat_completeness auto
termination
  by (relation "measure (\<lambda>(b, s). length (parents s))") (auto dest!: CleanupSub_length abort_out_sub_length)

declare CommitTransactionCommand.simps [simp del]

text \<open>The loop that rolls back all open subtransactions.\<close>

definition abort_live_sub :: "session \<Rightarrow> session result" where
  "abort_live_sub s = rbind (ApplyUndoActions (AbortSubTransaction s)) (\<lambda>s. Inr (set_block TBLOCK_SUBABORT s))"

lemma abort_live_sub_parents: "abort_live_sub s = Inr s' \<Longrightarrow> parents s' = parents s"
  by (auto simp: abort_live_sub_def rbind_eq_Inr dest!: parents_ApplyUndo)

function abort_subs :: "session \<Rightarrow> session result" where
  "abort_subs s =
     (case rbind (abort_live_sub s) CleanupSubTransaction of
        Inl e \<Rightarrow> Inl e
      | Inr s' \<Rightarrow> if blockState (cur s') = TBLOCK_SUBINPROGRESS then abort_subs s' else Inr s')"
  by pat_completeness auto
termination
  by (relation "measure (\<lambda>s. length (parents s))")
    (auto simp: rbind_eq_Inr dest!: CleanupSub_length abort_live_sub_parents)

declare abort_subs.simps [simp del]

function AbortCurrentTransaction :: "xact_env \<Rightarrow> bool \<Rightarrow> session \<Rightarrow> session result" where
  "AbortCurrentTransaction env STP_rollback s =
     (let b = blockState (cur s);
          cleanup_default = (\<lambda>s. rbind (CleanupTransaction s) (\<lambda>s. Inr (set_block TBLOCK_DEFAULT s)));
          live = (\<lambda>s. if state (cur s) = TRANS_START then upd_cur (\<lambda>t. t\<lparr>state := TRANS_INPROGRESS\<rparr>) s else s)
      in if b = TBLOCK_DEFAULT then
           (if state (cur s) = TRANS_DEFAULT then Inr s else CleanupTransaction (AbortTransaction (live s)))
         else if b = TBLOCK_STARTED then
           rbind (ApplyUndoActions (AbortTransaction s)) (\<lambda>s.
             if phony_autocommit env \<or> STP_rollback then cleanup_default s else Inr (set_block TBLOCK_ABORT s))
         else if b = TBLOCK_BEGIN then cleanup_default (AbortTransaction s)
         else if b = TBLOCK_INPROGRESS then
           rbind (ApplyUndoActions (AbortTransaction s)) (\<lambda>s.
             if STP_rollback then CleanupTransaction (set_block TBLOCK_DEFAULT s) else Inr (set_block TBLOCK_ABORT s))
         else if b = TBLOCK_END \<or> b = TBLOCK_ABORT_PENDING \<or> b = TBLOCK_PREPARE then abort_out_top s
         else if b = TBLOCK_ABORT \<or> b = TBLOCK_SUBABORT then Inr s
         else if b = TBLOCK_ABORT_END then cleanup_default s
         else if b = TBLOCK_SUBINPROGRESS then
           rbind (if STP_rollback \<or> blockState (top_xact s) = TBLOCK_STARTED
                  then rbind (abort_subs s) (\<lambda>s. abort_out_top (live s))
                  else abort_live_sub s)
             (\<lambda>s. if handlesDestroyedInCancelQuery s then AbortOutOfAnyTransaction True s else Inr s)
         else if b = TBLOCK_SUBBEGIN \<or> b = TBLOCK_SUBRELEASE \<or> b = TBLOCK_SUBCOMMIT \<or> b = TBLOCK_SUBABORT_PENDING \<or>
                 b = TBLOCK_SUBRESTART then
           (case abort_out_sub s of
              Inl e \<Rightarrow> Inl e
            | Inr s' \<Rightarrow> if handlesDestroyedInCancelQuery s' then AbortOutOfAnyTransaction True s'
                        else AbortCurrentTransaction env STP_rollback s')
         else if b = TBLOCK_SUBABORT_END \<or> b = TBLOCK_SUBABORT_RESTART then
           (case CleanupSubTransaction s of Inl e \<Rightarrow> Inl e | Inr s' \<Rightarrow> AbortCurrentTransaction env STP_rollback s')
         else unexpected_state FATAL)"
  by pat_completeness auto
termination
  by (relation "measure (\<lambda>(e, b, s). length (parents s))") (auto dest!: CleanupSub_length abort_out_sub_length)

declare AbortCurrentTransaction.simps [simp del]

section \<open>Where the session stands\<close>

definition IsTransactionBlock :: "session \<Rightarrow> bool" where
  "IsTransactionBlock s =
     (if portal_stp_exception_counter s > 0 \<and> blockState (cur s) = TBLOCK_SUBINPROGRESS then False
      else if blockState (cur s) = TBLOCK_DEFAULT \<or> blockState (cur s) = TBLOCK_STARTED then False
      else True)"

definition IsTransactionOrTransactionBlock :: "session \<Rightarrow> bool" where
  "IsTransactionOrTransactionBlock s = (blockState (cur s) \<noteq> TBLOCK_DEFAULT)"

definition IsAbortedTransactionBlockState :: "session \<Rightarrow> bool" where
  "IsAbortedTransactionBlockState s = (blockState (cur s) = TBLOCK_ABORT \<or> blockState (cur s) = TBLOCK_SUBABORT)"

definition TransactionBlockStatusCode :: "session \<Rightarrow> char result" where
  "TransactionBlockStatusCode s =
     (case blockState (cur s) of
        TBLOCK_DEFAULT \<Rightarrow> Inr CHR ''I'' | TBLOCK_STARTED \<Rightarrow> Inr CHR ''I''
      | TBLOCK_BEGIN \<Rightarrow> Inr CHR ''T'' | TBLOCK_SUBBEGIN \<Rightarrow> Inr CHR ''T'' | TBLOCK_INPROGRESS \<Rightarrow> Inr CHR ''T''
      | TBLOCK_SUBINPROGRESS \<Rightarrow> Inr CHR ''T'' | TBLOCK_END \<Rightarrow> Inr CHR ''T'' | TBLOCK_SUBRELEASE \<Rightarrow> Inr CHR ''T''
      | TBLOCK_SUBCOMMIT \<Rightarrow> Inr CHR ''T'' | TBLOCK_PREPARE \<Rightarrow> Inr CHR ''T''
      | TBLOCK_ABORT \<Rightarrow> Inr CHR ''E'' | TBLOCK_SUBABORT \<Rightarrow> Inr CHR ''E'' | TBLOCK_ABORT_END \<Rightarrow> Inr CHR ''E''
      | TBLOCK_SUBABORT_END \<Rightarrow> Inr CHR ''E'' | TBLOCK_ABORT_PENDING \<Rightarrow> Inr CHR ''E''
      | TBLOCK_SUBABORT_PENDING \<Rightarrow> Inr CHR ''E'' | TBLOCK_SUBRESTART \<Rightarrow> Inr CHR ''E''
      | TBLOCK_SUBABORT_RESTART \<Rightarrow> Inr CHR ''E''
      | _ \<Rightarrow> unexpected_state FATAL)"

definition PreventTransactionChain :: "bool \<Rightarrow> session \<Rightarrow> unit result" where
  "PreventTransactionChain isTopLevel s =
     (if IsTransactionBlock s then Inl (Ereport ERROR ERRCODE_ACTIVE_SQL_TRANSACTION)
      else if IsSubTransaction s then Inl (Ereport ERROR ERRCODE_ACTIVE_SQL_TRANSACTION)
      else if \<not> isTopLevel then Inl (Ereport ERROR ERRCODE_ACTIVE_SQL_TRANSACTION)
      else if blockState (cur s) \<noteq> TBLOCK_DEFAULT \<and> blockState (cur s) \<noteq> TBLOCK_STARTED then unexpected_state FATAL
      else Inr ())"

definition RequireTransactionChain :: "bool \<Rightarrow> session \<Rightarrow> unit result" where
  "RequireTransactionChain isTopLevel s =
     (if IsTransactionBlock s then Inr ()
      else if IsSubTransaction s then Inr ()
      else if \<not> isTopLevel then Inr ()
      else Inl (Ereport ERROR ERRCODE_NO_ACTIVE_SQL_TRANSACTION))"

definition IsInTransactionChain :: "bool \<Rightarrow> session \<Rightarrow> bool" where
  "IsInTransactionChain isTopLevel s =
     (if IsTransactionBlock s then True
      else if IsSubTransaction s then True
      else if \<not> isTopLevel then True
      else if blockState (cur s) \<noteq> TBLOCK_DEFAULT \<and> blockState (cur s) \<noteq> TBLOCK_STARTED then True
      else False)"

section \<open>Block commands\<close>

definition BeginTransactionBlock :: "xact_env \<Rightarrow> session \<Rightarrow> session result" where
  "BeginTransactionBlock env s =
     (let b = blockState (cur s)
      in if b = TBLOCK_STARTED then Inr (set_block TBLOCK_BEGIN s)
         else if b \<in> {TBLOCK_INPROGRESS, TBLOCK_SUBINPROGRESS, TBLOCK_ABORT, TBLOCK_SUBABORT}
         then if begin_only_warns env then Inr s else Inl (Ereport ERROR ERRCODE_ACTIVE_SQL_TRANSACTION)
         else unexpected_state FATAL)"

text \<open>The whole chain of frames, current first; the loops of the block commands walk it to the top.\<close>

definition frames :: "session \<Rightarrow> TransactionStateData list" where
  "frames s = cur s # parents s"

definition set_frames :: "session \<Rightarrow> TransactionStateData list \<Rightarrow> session" where
  "set_frames s fs = (case fs of [] \<Rightarrow> s | t # r \<Rightarrow> s\<lparr>CurrentTransactionState := t, parents := r\<rparr>)"

fun mark_commit :: "TransactionStateData list \<Rightarrow> TransactionStateData list result" where
  "mark_commit [] = Inr []"
| "mark_commit [t] = (if blockState t = TBLOCK_INPROGRESS then Inr [t\<lparr>blockState := TBLOCK_END\<rparr>] else unexpected_state FATAL)"
| "mark_commit (t # p # r) =
     (if blockState t = TBLOCK_SUBINPROGRESS
      then rbind (mark_commit (p # r)) (\<lambda>fs. Inr (t\<lparr>blockState := TBLOCK_SUBCOMMIT\<rparr> # fs))
      else unexpected_state FATAL)"

text \<open>\<^verbatim>\<open>SubTransactionBlockAbort\<close>, which is also the loop of \<^verbatim>\<open>UserAbortTransactionBlock\<close>.\<close>

fun mark_abort :: "TransactionStateData list \<Rightarrow> TransactionStateData list result" where
  "mark_abort [] = Inr []"
| "mark_abort [t] =
     (if blockState t = TBLOCK_INPROGRESS then Inr [t\<lparr>blockState := TBLOCK_ABORT_PENDING\<rparr>]
      else if blockState t = TBLOCK_ABORT then Inr [t\<lparr>blockState := TBLOCK_ABORT_END\<rparr>]
      else unexpected_state FATAL)"
| "mark_abort (t # p # r) =
     (if blockState t = TBLOCK_SUBINPROGRESS
      then rbind (mark_abort (p # r)) (\<lambda>fs. Inr (t\<lparr>blockState := TBLOCK_SUBABORT_PENDING\<rparr> # fs))
      else if blockState t = TBLOCK_SUBABORT
      then rbind (mark_abort (p # r)) (\<lambda>fs. Inr (t\<lparr>blockState := TBLOCK_SUBABORT_END\<rparr> # fs))
      else unexpected_state FATAL)"

definition SubTransactionBlockAbort :: "session \<Rightarrow> session result" where
  "SubTransactionBlockAbort s = rbind (mark_abort (frames s)) (\<lambda>fs. Inr (set_frames s fs))"

definition EndTransactionBlock :: "session \<Rightarrow> (bool \<times> session) result" where
  "EndTransactionBlock s =
     (case blockState (cur s) of
        TBLOCK_INPROGRESS \<Rightarrow> Inr (True, set_block TBLOCK_END s)
      | TBLOCK_ABORT \<Rightarrow> Inr (False, set_block TBLOCK_ABORT_END s)
      | TBLOCK_SUBINPROGRESS \<Rightarrow> rbind (mark_commit (frames s)) (\<lambda>fs. Inr (True, set_frames s fs))
      | TBLOCK_SUBABORT \<Rightarrow> rbind (SubTransactionBlockAbort s) (\<lambda>s. Inr (False, s))
      | TBLOCK_STARTED \<Rightarrow> Inr (True, s)
      | _ \<Rightarrow> unexpected_state FATAL)"

definition PrepareTransactionBlock :: "session \<Rightarrow> (bool \<times> session) result" where
  "PrepareTransactionBlock s =
     rbind (EndTransactionBlock s) (\<lambda>(result, s).
       if result
       then if blockState (last (frames s)) = TBLOCK_END
            then Inr (True, set_frames s (butlast (frames s) @ [(last (frames s))\<lparr>blockState := TBLOCK_PREPARE\<rparr>]))
            else Inr (False, s)
       else Inr (False, s))"

definition UserAbortTransactionBlock :: "session \<Rightarrow> session result" where
  "UserAbortTransactionBlock s =
     (case blockState (cur s) of
        TBLOCK_INPROGRESS \<Rightarrow> Inr (set_block TBLOCK_ABORT_PENDING s)
      | TBLOCK_ABORT \<Rightarrow> Inr (set_block TBLOCK_ABORT_END s)
      | TBLOCK_SUBINPROGRESS \<Rightarrow> rbind (mark_abort (frames s)) (\<lambda>fs. Inr (set_frames s fs))
      | TBLOCK_SUBABORT \<Rightarrow> rbind (mark_abort (frames s)) (\<lambda>fs. Inr (set_frames s fs))
      | TBLOCK_STARTED \<Rightarrow> Inr (set_block TBLOCK_ABORT_PENDING s)
      | _ \<Rightarrow> unexpected_state FATAL)"

section \<open>Savepoints\<close>

text \<open>The frame with the given name that is nearest to the current one, as its distance.\<close>

fun find_name :: "string option \<Rightarrow> TransactionStateData list \<Rightarrow> nat option" where
  "find_name nm [] = None"
| "find_name nm (t # r) = (if name t = nm then Some 0 else map_option Suc (find_name nm r))"

definition FindTargetSavepoint :: "string option \<Rightarrow> session \<Rightarrow> nat result" where
  "FindTargetSavepoint nm s =
     (case find_name nm (frames s) of
        None \<Rightarrow> Inl (Ereport ERROR ERRCODE_S_E_INVALID_SPECIFICATION)
      | Some i \<Rightarrow> if savepointLevel (frames s ! i) \<noteq> savepointLevel (cur s)
                  then Inl (Ereport ERROR ERRCODE_S_E_INVALID_SPECIFICATION) else Inr i)"

definition CheckReleaseSavepointBlockState :: "bool \<Rightarrow> session \<Rightarrow> unit result" where
  "CheckReleaseSavepointBlockState inSTP s =
     (case blockState (cur s) of
        TBLOCK_INPROGRESS \<Rightarrow> Inl (Ereport ERROR ERRCODE_S_E_INVALID_SPECIFICATION)
      | TBLOCK_SUBINPROGRESS \<Rightarrow> Inr ()
      | TBLOCK_STARTED \<Rightarrow> if inSTP then Inr () else unexpected_state FATAL
      | _ \<Rightarrow> unexpected_state FATAL)"

definition CheckRollbackSavepointBlockState :: "bool \<Rightarrow> session \<Rightarrow> unit result" where
  "CheckRollbackSavepointBlockState inSTP s =
     (case blockState (cur s) of
        TBLOCK_INPROGRESS \<Rightarrow> Inl (Ereport ERROR ERRCODE_S_E_INVALID_SPECIFICATION)
      | TBLOCK_ABORT \<Rightarrow> Inl (Ereport ERROR ERRCODE_S_E_INVALID_SPECIFICATION)
      | TBLOCK_SUBINPROGRESS \<Rightarrow> Inr ()
      | TBLOCK_SUBABORT \<Rightarrow> Inr ()
      | TBLOCK_STARTED \<Rightarrow> if inSTP then Inr () else unexpected_state FATAL
      | _ \<Rightarrow> unexpected_state FATAL)"

text \<open>The counters of savepoints of a procedure, for each frame that goes.\<close>

definition drop_stp_savepoint :: "TransactionStateData \<Rightarrow> session \<Rightarrow> session" where
  "drop_stp_savepoint t s =
     (if name t \<noteq> None \<and> stp_savepoint_cnt s > 0 then s\<lparr>stp_savepoint_cnt := stp_savepoint_cnt s - 1\<rparr>
      else if name t = None \<and> portal_stp_exception_counter s > 0
      then s\<lparr>portal_stp_exception_counter := portal_stp_exception_counter s - 1\<rparr> else s)"

text \<open>
  The undo records gathered on the way from the current frame to the target: the latest of the innermost, the first of
  the outermost frame that has one.
\<close>

definition gather_urp :: "uint64 list \<times> uint64 list \<Rightarrow> TransactionStateData \<Rightarrow> uint64 list \<times> uint64 list" where
  "gather_urp acc t =
     (map2 (\<lambda>x y. if x = 0 then y else x) (fst acc) (latest_urp t), map2 (\<lambda>x y. if y \<noteq> 0 then y else x) (snd acc) (first_urp t))"

definition give_urp :: "uint64 list \<times> uint64 list \<Rightarrow> TransactionStateData \<Rightarrow> TransactionStateData" where
  "give_urp acc p =
     p\<lparr>latest_urp := map2 (\<lambda>x y. if x \<noteq> 0 then x else y) (fst acc) (latest_urp p),
       latest_urp_xact := map2 (\<lambda>x y. if x \<noteq> 0 then x else y) (fst acc) (latest_urp_xact p),
       first_urp := map2 (\<lambda>x y. if y = 0 then x else y) (snd acc) (first_urp p)\<rparr>"

definition ReleaseSavepoint :: "string option \<Rightarrow> bool \<Rightarrow> session \<Rightarrow> session result" where
  "ReleaseSavepoint nm inSTP s =
     rbind (CheckReleaseSavepointBlockState inSTP s) (\<lambda>_.
     rbind (FindTargetSavepoint nm s) (\<lambda>target.
       let going = take (Suc target) (frames s);
           acc = fold (\<lambda>t acc. gather_urp acc t) (tl going) (latest_urp (cur s), first_urp (cur s));
           staying = (case drop (Suc target) (frames s) of [] \<Rightarrow> [] | p # r \<Rightarrow> give_urp acc p # r);
           s' = set_frames s (map (\<lambda>t. t\<lparr>blockState := TBLOCK_SUBRELEASE\<rparr>) going @ staying)
       in Inr (if inSTP then fold drop_stp_savepoint going s' else s')))"

fun mark_rollback :: "nat \<Rightarrow> TransactionStateData list \<Rightarrow> TransactionStateData list result" where
  "mark_rollback target [] = Inr []"
| "mark_rollback 0 (t # r) =
     (if blockState t = TBLOCK_SUBINPROGRESS then Inr (t\<lparr>blockState := TBLOCK_SUBRESTART\<rparr> # r)
      else if blockState t = TBLOCK_SUBABORT then Inr (t\<lparr>blockState := TBLOCK_SUBABORT_RESTART\<rparr> # r)
      else unexpected_state FATAL)"
| "mark_rollback (Suc n) (t # r) =
     (if blockState t = TBLOCK_SUBINPROGRESS
      then rbind (mark_rollback n r) (\<lambda>r. Inr (t\<lparr>blockState := TBLOCK_SUBABORT_PENDING\<rparr> # r))
      else if blockState t = TBLOCK_SUBABORT
      then rbind (mark_rollback n r) (\<lambda>r. Inr (t\<lparr>blockState := TBLOCK_SUBABORT_END\<rparr> # r))
      else unexpected_state FATAL)"

definition RollbackToSavepoint :: "string option \<Rightarrow> bool \<Rightarrow> session \<Rightarrow> session result" where
  "RollbackToSavepoint nm inSTP s =
     rbind (CheckRollbackSavepointBlockState inSTP s) (\<lambda>_.
     rbind (FindTargetSavepoint nm s) (\<lambda>target.
     rbind (mark_rollback target (frames s)) (\<lambda>fs.
       let s' = set_frames s fs
       in Inr (if inSTP then fold drop_stp_savepoint (take target (frames s)) s' else s'))))"

definition ReleaseCurrentSubTransaction :: "session \<Rightarrow> session result" where
  "ReleaseCurrentSubTransaction s =
     (if blockState (cur s) \<noteq> TBLOCK_SUBINPROGRESS then unexpected_state ERROR
      else CommitSubTransaction (propagate_to_parent s))"

definition RollbackAndReleaseCurrentSubTransaction :: "bool \<Rightarrow> session \<Rightarrow> session result" where
  "RollbackAndReleaseCurrentSubTransaction inSTP s =
     (let b = blockState (cur s)
      in if b = TBLOCK_SUBINPROGRESS \<or> b = TBLOCK_SUBABORT \<or> (b = TBLOCK_SUBBEGIN \<and> inSTP)
         then rbind (ApplyUndoActions (if b = TBLOCK_SUBINPROGRESS then AbortSubTransaction s else s)) CleanupSubTransaction
         else unexpected_state FATAL)"

section \<open>The session\<close>

datatype stmt =
    STMT_QUERY | TRANS_STMT_BEGIN | TRANS_STMT_COMMIT | TRANS_STMT_ROLLBACK | TRANS_STMT_PREPARE
  | TRANS_STMT_SAVEPOINT string | TRANS_STMT_RELEASE string | TRANS_STMT_ROLLBACK_TO string

definition IsTransactionExitStmt :: "stmt \<Rightarrow> bool" where
  "IsTransactionExitStmt c =
     (case c of TRANS_STMT_COMMIT \<Rightarrow> True | TRANS_STMT_PREPARE \<Rightarrow> True | TRANS_STMT_ROLLBACK \<Rightarrow> True
      | TRANS_STMT_ROLLBACK_TO _ \<Rightarrow> True | _ \<Rightarrow> False)"

text \<open>The transaction statements of \<^verbatim>\<open>standard_ProcessUtility\<close>, at top level.\<close>

definition ProcessTransactionStmt :: "xact_env \<Rightarrow> stmt \<Rightarrow> session \<Rightarrow> session result" where
  "ProcessTransactionStmt env c s =
     (case c of
        STMT_QUERY \<Rightarrow> Inr s
      | TRANS_STMT_BEGIN \<Rightarrow> BeginTransactionBlock env s
      | TRANS_STMT_COMMIT \<Rightarrow> rbind (EndTransactionBlock s) (\<lambda>(_, s). Inr s)
      | TRANS_STMT_PREPARE \<Rightarrow> rbind (PrepareTransactionBlock s) (\<lambda>(_, s). Inr s)
      | TRANS_STMT_ROLLBACK \<Rightarrow> UserAbortTransactionBlock s
      | TRANS_STMT_SAVEPOINT nm \<Rightarrow> rbind (RequireTransactionChain True s) (\<lambda>_. DefineSavepoint (Some nm) s)
      | TRANS_STMT_RELEASE nm \<Rightarrow> rbind (RequireTransactionChain True s) (\<lambda>_. ReleaseSavepoint (Some nm) False s)
      | TRANS_STMT_ROLLBACK_TO nm \<Rightarrow> rbind (RequireTransactionChain True s) (\<lambda>_. RollbackToSavepoint (Some nm) False s))"

text \<open>An error on the way to the main loop: FATAL ends the session, ERROR is answered by \<^verbatim>\<open>AbortCurrentTransaction\<close>.\<close>

definition handle_error :: "xact_env \<Rightarrow> og_error \<Rightarrow> session \<Rightarrow> session result" where
  "handle_error env e s = (case e of Ereport l _ \<Rightarrow> if l = ERROR then AbortCurrentTransaction env False s else Inl e | Overrun \<Rightarrow> Inl e)"

text \<open>One command of the simple query protocol (\<^verbatim>\<open>exec_simple_query\<close>).\<close>

definition exec_command :: "xact_env \<Rightarrow> stmt \<Rightarrow> session \<Rightarrow> session result" where
  "exec_command env c s =
     (if IsAbortedTransactionBlockState s \<and> \<not> IsTransactionExitStmt c then AbortCurrentTransaction env False s
      else case StartTransactionCommand False s of
        Inl e \<Rightarrow> handle_error env e s
      | Inr s1 \<Rightarrow> (case ProcessTransactionStmt env c s1 of
          Inl e \<Rightarrow> handle_error env e s1
        | Inr s2 \<Rightarrow> (case CommitTransactionCommand False s2 of Inl e \<Rightarrow> handle_error env e s2 | Inr s3 \<Rightarrow> Inr s3)))"

end
