(* ===== verification/OG_XactStack.thy ===== *)
theory OG_XactStack
  imports OG_Xact
begin

text \<open>
  What the routines of \<^verbatim>\<open>OG_Xact\<close> do to the stack of transaction states: the invariant of the frames (level, id, undo
  vectors), the shapes the stack has between commands, inside a query and between a statement and the end of its
  command, and that \<^verbatim>\<open>CommitTransactionCommand\<close> and \<^verbatim>\<open>AbortCurrentTransaction\<close> return from every one of these shapes to a
  shape between commands, with what they log.
\<close>

section \<open>Low-level routines: results\<close>

lemmas xact_prims = upd_cur_def set_block_def log_event_def ResetUndoActionsInfo_def AbortSubTransaction_def
  AbortTransaction_def IsSubTransaction_def Let_def

lemma frames_not_Nil [simp]: "frames s \<noteq> []"
  by (simp add: frames_def)

lemma frames_cur: "frames s = t # r \<Longrightarrow> cur s = t \<and> parents s = r"
  by (simp add: frames_def)

text \<open>
  What a routine that takes the current subtransaction off leaves: the parent is current, and the next subtransaction
  id continues from it.
\<close>

definition popped :: "session \<Rightarrow> session \<Rightarrow> bool" where
  "popped s s' \<longleftrightarrow> frames s' = parents s \<and> currentSubTransactionId s' = subTransactionId (cur s') \<and>
     handlesDestroyedInCancelQuery s' = handlesDestroyedInCancelQuery s \<and>
     stp_savepoint_cnt s' = stp_savepoint_cnt s \<and> portal_stp_exception_counter s' = portal_stp_exception_counter s"

text \<open>A frame at depth \<open>n\<close>: the level, the id and the undo vectors agree.\<close>

definition frame_at :: "nat \<Rightarrow> TransactionStateData \<Rightarrow> bool" where
  "frame_at n t \<longleftrightarrow> nestingLevel t = n \<and> subTransactionId t = of_nat n \<and> length (first_urp t) = UNDO_PERSISTENCE_LEVELS \<and>
     length (latest_urp t) = UNDO_PERSISTENCE_LEVELS \<and> length (latest_urp_xact t) = UNDO_PERSISTENCE_LEVELS"

lemma length_no_urp [simp]: "length no_urp = UNDO_PERSISTENCE_LEVELS"
  by (simp add: no_urp_def)

text \<open>Undo actions never fail after an abort, and keep the frame but for its block state and undo pointers.\<close>

definition undone :: "session \<Rightarrow> session \<Rightarrow> bool" where
  "undone s s' \<longleftrightarrow> state (cur s') = TRANS_ABORT \<and> parents s' = parents s \<and> name (cur s') = name (cur s) \<and>
     savepointLevel (cur s') = savepointLevel (cur s) \<and>
     (\<forall>n\<ge>1. frame_at n (cur s) \<longrightarrow> frame_at n (cur s')) \<and>
     currentSubTransactionId s' = currentSubTransactionId s \<and> xlog s' = xlog s \<and>
     handlesDestroyedInCancelQuery s' = handlesDestroyedInCancelQuery s \<and>
     stp_savepoint_cnt s' = stp_savepoint_cnt s \<and> portal_stp_exception_counter s' = portal_stp_exception_counter s"

lemma level_one: "\<not> 2 \<le> n \<Longrightarrow> Suc 0 \<le> n \<Longrightarrow> (of_nat n :: uint64) = 1"
proof -
  assume "\<not> 2 \<le> n" "Suc 0 \<le> n"
  then have "n = 1" by simp
  then show ?thesis by simp
qed

lemma ApplyUndo_after_abort:
  assumes "state (cur s) = TRANS_ABORT"
  obtains s' where "ApplyUndoActions s = Inr s'" "undone s s'"
proof -
  have 1: "undone s s" using assms by (simp add: undone_def)
  have 2: "undone s (undo_applied s)"
    by (auto simp: undone_def undo_applied_def xact_prims frame_at_def level_one)
  show thesis
    using that [OF _ 1] that [OF _ 2] assms unfolding ApplyUndoActions_def Let_def by metis
qed

lemma CleanupSub_pop:
  assumes "parents s \<noteq> []"
  obtains s' where "CleanupSubTransaction s = Inr s'" "popped s s'" "xlog s' = xlog s"
proof -
  obtain p r where "parents s = p # r" using assms by (cases "parents s") auto
  then show thesis
    by (intro that [of "s\<lparr>CurrentTransactionState := p, parents := r, currentSubTransactionId := subTransactionId p\<rparr>"])
      (auto simp: CleanupSubTransaction_def PopTransaction_def popped_def frames_def xact_prims)
qed

lemma CommitSub_pop:
  assumes "parents s \<noteq> []"
  obtains s' where "CommitSubTransaction s = Inr s'" "popped s s'" "xlog s' = EvSubCommit (subTransactionId (cur s)) # xlog s"
proof -
  obtain p r where "parents s = p # r" using assms by (cases "parents s") auto
  then show thesis
    using that by (auto simp: CommitSubTransaction_def PopTransaction_def popped_def frames_def xact_prims)
qed

lemma abort_sub_undone:
  obtains s' where "ApplyUndoActions (AbortSubTransaction s) = Inr s'" "undone (AbortSubTransaction s) s'"
  by (rule ApplyUndo_after_abort [of "AbortSubTransaction s"]) (auto simp: xact_prims)

lemma abort_top_undone:
  obtains s' where "ApplyUndoActions (AbortTransaction s) = Inr s'" "undone (AbortTransaction s) s'"
  by (rule ApplyUndo_after_abort [of "AbortTransaction s"]) (auto simp: xact_prims)

lemma abort_out_sub_pop:
  assumes "parents s \<noteq> []"
  obtains s' where "abort_out_sub s = Inr s'" "popped s s'" "xlog s' = EvSubAbort (subTransactionId (cur s)) # xlog s"
proof -
  obtain s1 where s1: "ApplyUndoActions (AbortSubTransaction s) = Inr s1" "undone (AbortSubTransaction s) s1"
    by (rule abort_sub_undone)
  have par: "parents s1 \<noteq> []" using assms s1(2) by (simp add: undone_def)
  obtain s2 where "CleanupSubTransaction s1 = Inr s2" "popped s1 s2" "xlog s2 = xlog s1"
    by (rule CleanupSub_pop [OF par])
  then show thesis using that [of s2] s1 by (auto simp: abort_out_sub_def popped_def undone_def xact_prims)
qed

text \<open>Idle, and a failed transaction block.\<close>

definition idle :: "session \<Rightarrow> bool" where
  "idle s \<longleftrightarrow> parents s = [] \<and> blockState (cur s) = TBLOCK_DEFAULT \<and> state (cur s) = TRANS_DEFAULT \<and>
     frame_at 0 (cur s) \<and> name (cur s) = None"

definition failed_top :: "TransactionStateData \<Rightarrow> bool" where
  "failed_top t \<longleftrightarrow> blockState t = TBLOCK_ABORT \<and> state t = TRANS_ABORT \<and> frame_at 1 t \<and> name t = None"

lemma Cleanup_default_idle:
  assumes "state (cur s) = TRANS_ABORT" "parents s = []" "frame_at 1 (cur s)" "name (cur s) = None"
  obtains s' where "rbind (CleanupTransaction s) (\<lambda>s. Inr (set_block TBLOCK_DEFAULT s)) = Inr s'" "idle s'" "xlog s' = xlog s"
    "handlesDestroyedInCancelQuery s' = handlesDestroyedInCancelQuery s"
  using assms that by (auto simp: CleanupTransaction_def idle_def frame_at_def xact_prims)

lemma abort_out_top_idle:
  assumes "parents s = []" "frame_at 1 (cur s)" "name (cur s) = None"
  obtains s' where "abort_out_top s = Inr s'" "idle s'" "xlog s' = EvAbort # xlog s" "\<not> handlesDestroyedInCancelQuery s'"
proof -
  obtain s1 where s1: "ApplyUndoActions (AbortTransaction s) = Inr s1" "undone (AbortTransaction s) s1" by (rule abort_top_undone)
  have "frame_at 1 (cur (AbortTransaction s))" "name (cur (AbortTransaction s)) = None" "parents (AbortTransaction s) = []"
    "xlog (AbortTransaction s) = EvAbort # xlog s" "\<not> handlesDestroyedInCancelQuery (AbortTransaction s)"
    using assms by (simp_all add: xact_prims frame_at_def)
  then have p: "state (cur s1) = TRANS_ABORT" "parents s1 = []" "frame_at 1 (cur s1)" "name (cur s1) = None"
    "xlog s1 = EvAbort # xlog s" "\<not> handlesDestroyedInCancelQuery s1"
    using s1(2) by (simp_all add: undone_def)
  show thesis
    by (rule Cleanup_default_idle [OF p(1-4)]) (use that p s1 in \<open>auto simp: abort_out_top_def\<close>)
qed

section \<open>Shapes of the stack\<close>

text \<open>Every frame at its depth; the top transaction has no name.\<close>

fun stack_ok :: "TransactionStateData list \<Rightarrow> bool" where
  "stack_ok [] = False"
| "stack_ok [t] = (frame_at 1 t \<and> name t = None)"
| "stack_ok (t # p # r) = (frame_at (Suc (Suc (length r))) t \<and> subTransactionId t \<noteq> 0 \<and> stack_ok (p # r))"

text \<open>A live stack: open subtransactions over an open top transaction whose block state is one of \<open>B\<close>.\<close>

fun live :: "TBlockState set \<Rightarrow> TransactionStateData list \<Rightarrow> bool" where
  "live B [] = False"
| "live B [t] = (blockState t \<in> B \<and> state t = TRANS_INPROGRESS)"
| "live B (t # p # r) = (blockState t = TBLOCK_SUBINPROGRESS \<and> state t = TRANS_INPROGRESS \<and> live B (p # r))"

abbreviation in_block :: "TransactionStateData list \<Rightarrow> bool" where
  "in_block \<equiv> live {TBLOCK_INPROGRESS}"

abbreviation in_query :: "TransactionStateData list \<Rightarrow> bool" where
  "in_query \<equiv> live {TBLOCK_STARTED, TBLOCK_INPROGRESS}"

definition failed_sub :: "TransactionStateData list \<Rightarrow> bool" where
  "failed_sub fs \<longleftrightarrow> (\<exists>t r. fs = t # r \<and> blockState t = TBLOCK_SUBABORT \<and> state t = TRANS_ABORT \<and> in_block r)"

definition failed :: "TransactionStateData list \<Rightarrow> bool" where
  "failed fs \<longleftrightarrow> (\<exists>t. fs = [t] \<and> failed_top t) \<or> failed_sub fs"

definition numbered :: "session \<Rightarrow> bool" where
  "numbered s \<longleftrightarrow> stack_ok (frames s) \<and> currentSubTransactionId s = subTransactionId (cur s)"

text \<open>Between two commands: idle, inside a good block, or in a failed (sub)transaction.\<close>

definition between :: "session \<Rightarrow> bool" where
  "between s \<longleftrightarrow> idle s \<or> numbered s \<and> (in_block (frames s) \<or> failed (frames s))"

text \<open>Stacks that \<^verbatim>\<open>AbortOutOfAnyTransaction(true)\<close> takes down, keeping the top transaction as failed.\<close>

fun soft :: "TransactionStateData list \<Rightarrow> bool" where
  "soft [] = False"
| "soft [t] = (blockState t \<in> {TBLOCK_INPROGRESS, TBLOCK_END, TBLOCK_ABORT_PENDING, TBLOCK_PREPARE})"
| "soft (t # p # r) =
     (blockState t \<in> {TBLOCK_SUBINPROGRESS, TBLOCK_SUBRELEASE, TBLOCK_SUBCOMMIT, TBLOCK_SUBABORT_PENDING, TBLOCK_SUBRESTART,
                      TBLOCK_SUBABORT} \<and> soft (p # r))"

text \<open>What was logged since, with nothing committed or prepared.\<close>

definition no_commit :: "xact_event \<Rightarrow> bool" where
  "no_commit e = (case e of EvCommit \<Rightarrow> False | EvPrepare \<Rightarrow> False | EvSubCommit _ \<Rightarrow> False | _ \<Rightarrow> True)"

definition no_commit_since :: "session \<Rightarrow> session \<Rightarrow> bool" where
  "no_commit_since s s' \<longleftrightarrow> (\<exists>evs. xlog s' = evs @ xlog s \<and> list_all no_commit evs)"

lemma no_commit_since_refl [simp]: "no_commit_since s s"
  by (simp add: no_commit_since_def)

lemma no_commit_since_eq: "xlog s' = xlog s \<Longrightarrow> no_commit_since s s'"
  by (simp add: no_commit_since_def)

lemma no_commit_since_Cons: "xlog s' = e # xlog s \<Longrightarrow> no_commit e \<Longrightarrow> no_commit_since s s'"
  by (auto simp: no_commit_since_def intro: exI [of _ "[e]"])

lemma no_commit_since_trans [trans]: "no_commit_since s s' \<Longrightarrow> no_commit_since s' s'' \<Longrightarrow> no_commit_since s s''"
  unfolding no_commit_since_def by (metis append.assoc list_all_append)

lemma no_commit_simps [simp]: "no_commit EvAbort" "no_commit (EvSubAbort i)" "no_commit (EvSubStart i)" "no_commit EvStart"
  "no_commit EvCommandCounter"
  by (simp_all add: no_commit_def)

lemma stack_ok_tl: "stack_ok (t # r) \<Longrightarrow> r \<noteq> [] \<Longrightarrow> stack_ok r"
  by (cases r) auto

lemma popped_numbered: "popped s s' \<Longrightarrow> stack_ok (frames s) \<Longrightarrow> numbered s'"
  by (auto simp: popped_def numbered_def frames_def intro: stack_ok_tl)

lemma popped_frames: "popped s s' \<Longrightarrow> frames s = t # r \<Longrightarrow> frames s' = r"
  by (simp add: popped_def frames_def)

lemma AbortOutOfAny_soft:
  assumes "soft (frames s)" "numbered s"
  shows "\<exists>s'. AbortOutOfAnyTransaction True s = Inr s' \<and> no_commit_since s s' \<and> parents s' = [] \<and>
    (if blockState (last (frames s)) = TBLOCK_INPROGRESS then numbered s' \<and> failed_top (cur s') else idle s')"
  using assms
proof (induction "length (parents s)" arbitrary: s)
  case 0
  then have b: "parents s = []" "blockState (cur s) \<in> {TBLOCK_INPROGRESS, TBLOCK_END, TBLOCK_ABORT_PENDING, TBLOCK_PREPARE}"
    and ok: "frame_at 1 (cur s)" "name (cur s) = None" "currentSubTransactionId s = subTransactionId (cur s)"
    by (auto simp: frames_def numbered_def)
  show ?case
  proof (cases "blockState (cur s) = TBLOCK_INPROGRESS")
    case True
    let ?s = "set_block TBLOCK_ABORT (AbortTransaction s)"
    have "AbortOutOfAnyTransaction True s = Inr ?s"
      using b True by (simp add: AbortOutOfAnyTransaction.simps [of True s] abort_out_turn_def Let_def abort_out_done_def
        AbortTransaction_def)
    moreover have "numbered ?s" "failed_top (cur ?s)" "xlog ?s = EvAbort # xlog s" "parents ?s = []"
      using b ok by (simp_all add: numbered_def failed_top_def xact_prims frames_def frame_at_def)
    ultimately show ?thesis using True b no_commit_since_Cons [of ?s EvAbort s] by (simp add: frames_def)
  next
    case False
    obtain s' where s': "abort_out_top s = Inr s'" "idle s'" "xlog s' = EvAbort # xlog s"
      by (rule abort_out_top_idle [OF b(1) ok(1,2)])
    then have "AbortOutOfAnyTransaction True s = Inr s'"
      using b False by (auto simp: AbortOutOfAnyTransaction.simps [of True s] abort_out_turn_def Let_def abort_out_done_def idle_def)
    then show ?thesis using False b s' no_commit_since_Cons [OF s'(3)] by (simp add: frames_def idle_def)
  qed
next
  case (Suc n)
  then obtain p r where pr: "parents s = p # r" by (cases "parents s") auto
  have b: "blockState (cur s) \<in> {TBLOCK_SUBINPROGRESS, TBLOCK_SUBRELEASE, TBLOCK_SUBCOMMIT, TBLOCK_SUBABORT_PENDING,
      TBLOCK_SUBRESTART, TBLOCK_SUBABORT}" and soft: "soft (p # r)"
    using Suc.prems pr by (auto simp: frames_def)
  have par: "parents s \<noteq> []" using pr by simp
  have "\<exists>s'. abort_out_turn True s = Inr s' \<and> popped s s' \<and> no_commit_since s s'"
  proof (cases "blockState (cur s) = TBLOCK_SUBABORT")
    case True
    obtain s' where "CleanupSubTransaction s = Inr s'" "popped s s'" "xlog s' = xlog s" by (rule CleanupSub_pop [OF par])
    then show ?thesis using True by (simp add: abort_out_turn_def Let_def no_commit_since_eq)
  next
    case False
    obtain s' where "abort_out_sub s = Inr s'" "popped s s'" "xlog s' = EvSubAbort (subTransactionId (cur s)) # xlog s"
      by (rule abort_out_sub_pop [OF par])
    then show ?thesis using False b by (auto simp: abort_out_turn_def Let_def no_commit_since_Cons)
  qed
  then obtain s' where s': "abort_out_turn True s = Inr s'" "popped s s'" "no_commit_since s s'" by blast
  have fr: "frames s' = p # r" "numbered s'"
    using s'(2) pr Suc.prems by (auto simp: popped_def numbered_def frames_def intro: stack_ok_tl)
  have "blockState p \<noteq> TBLOCK_DEFAULT" "r = [] \<Longrightarrow> blockState p \<noteq> TBLOCK_ABORT" using soft by (cases r; auto)+
  then have "\<not> abort_out_done True s'" using fr by (auto simp: abort_out_done_def frames_def)
  then have "AbortOutOfAnyTransaction True s = AbortOutOfAnyTransaction True s'"
    using s'(1) by (simp add: AbortOutOfAnyTransaction.simps [of True s])
  moreover have "last (frames s) = last (frames s')" using fr pr by (simp add: frames_def)
  ultimately show ?case
    using Suc.hyps(1) [of s'] Suc.hyps(2) pr fr soft no_commit_since_trans [OF s'(3)] by (auto simp: frames_def)
qed

lemma live_soft: "in_block fs \<Longrightarrow> soft fs"
  by (induction "{TBLOCK_INPROGRESS}" fs rule: live.induct) auto

section \<open>Running down the stack\<close>

lemma propagate_urp_simps [simp]:
  "blockState (propagate_urp c p) = blockState p" "state (propagate_urp c p) = state p" "name (propagate_urp c p) = name p"
  "subTransactionId (propagate_urp c p) = subTransactionId p" "nestingLevel (propagate_urp c p) = nestingLevel p"
  "savepointLevel (propagate_urp c p) = savepointLevel p"
  by (simp_all add: propagate_urp_def)

lemma frame_at_propagate: "frame_at m c \<Longrightarrow> frame_at n p \<Longrightarrow> frame_at n (propagate_urp c p)"
  by (simp add: frame_at_def propagate_urp_def)

lemma stack_ok_append: "stack_ok (as @ rest) \<Longrightarrow> rest \<noteq> [] \<Longrightarrow> stack_ok rest"
  by (induction as) (auto dest: stack_ok_tl)

text \<open>The undo pointers a run of committed subtransactions hands to the frame below.\<close>

definition carry_urp :: "bool \<Rightarrow> TransactionStateData list \<Rightarrow> TransactionStateData \<Rightarrow> TransactionStateData" where
  "carry_urp propagate ts a = fold (\<lambda>t c. if propagate then propagate_urp c t else t) ts a"

lemma carry_urp_simps [simp]:
  "carry_urp q [] a = a" "carry_urp q (t # ts) a = carry_urp q ts (if q then propagate_urp a t else t)"
  by (simp_all add: carry_urp_def)

lemma carry_urp_False [simp]: "carry_urp False (as @ [p]) a = p"
  by (induction as arbitrary: a) auto

lemma carry_urp_fields [simp]:
  "blockState (carry_urp q (as @ [p]) a) = blockState p"
  "state (carry_urp q (as @ [p]) a) = state p"
  "name (carry_urp q (as @ [p]) a) = name p"
  "subTransactionId (carry_urp q (as @ [p]) a) = subTransactionId p"
  "nestingLevel (carry_urp q (as @ [p]) a) = nestingLevel p"
  by (induction as arbitrary: a) auto

lemma carry_urp_frame_at:
  "\<exists>m. frame_at m a \<Longrightarrow> \<forall>t \<in> set as. \<exists>m. frame_at m t \<Longrightarrow> frame_at n p \<Longrightarrow> frame_at n (carry_urp q (as @ [p]) a)"
  by (induction as arbitrary: a) (auto intro: frame_at_propagate, metis frame_at_propagate)

lemma stack_ok_frame_at: "stack_ok fs \<Longrightarrow> t \<in> set fs \<Longrightarrow> \<exists>m. frame_at m t"
  by (induction fs rule: stack_ok.induct) auto

definition same_counters :: "session \<Rightarrow> session \<Rightarrow> bool" where
  "same_counters s s' \<longleftrightarrow> handlesDestroyedInCancelQuery s' = handlesDestroyedInCancelQuery s \<and>
     stp_savepoint_cnt s' = stp_savepoint_cnt s \<and> portal_stp_exception_counter s' = portal_stp_exception_counter s"

lemma commit_one:
  assumes "frames s = a # p # r"
  obtains s' where "CommitSubTransaction (if q then propagate_to_parent s else s) = Inr s'"
    "frames s' = (if q then propagate_urp a p else p) # r" "currentSubTransactionId s' = subTransactionId p"
    "xlog s' = EvSubCommit (subTransactionId a) # xlog s" "same_counters s s'"
proof -
  define z where "z = (if q then propagate_to_parent s else s)"
  have z: "parents z = (if q then propagate_urp a p else p) # r" "cur z = a" "xlog z = xlog s" "same_counters s z"
    using assms by (auto simp: z_def propagate_to_parent_def frames_def same_counters_def)
  then have par: "parents z \<noteq> []" by simp
  obtain s' where s': "CommitSubTransaction z = Inr s'" "popped z s'" "xlog s' = EvSubCommit (subTransactionId (cur z)) # xlog z"
    by (rule CommitSub_pop [OF par])
  then have 1: "frames s' = (if q then propagate_urp a p else p) # r" using z by (simp add: popped_def)
  then have "cur s' = (if q then propagate_urp a p else p)" using frames_cur by blast
  then have "subTransactionId (cur s') = subTransactionId p" by simp
  moreover have "currentSubTransactionId s' = subTransactionId (cur s')" using s'(2) unfolding popped_def by blast
  ultimately have 2: "currentSubTransactionId s' = subTransactionId p" by (rule trans [rotated])
  have 3: "same_counters s s'" using s'(2) z(4) unfolding popped_def same_counters_def by (elim conjE) simp
  have 4: "xlog s' = EvSubCommit (subTransactionId a) # xlog s" using s'(3) unfolding z(2,3) .
  show thesis by (rule that [OF s'(1) [unfolded z_def] 1 2 4 3])
qed

lemma commit_subs_run:
  assumes "frames s = a # as @ p # r" "blockState a = b" "\<forall>t \<in> set as. blockState t = b" "blockState p \<noteq> b"
  shows "\<exists>s'. commit_subs b q s = Inr s' \<and> frames s' = carry_urp q (as @ [p]) a # r \<and>
    currentSubTransactionId s' = subTransactionId p \<and>
    xlog s' = rev (map (\<lambda>t. EvSubCommit (subTransactionId t)) (a # as)) @ xlog s \<and> same_counters s s'"
  using assms
proof (induction as arbitrary: a s)
  case Nil
  then have fs: "frames s = a # p # r" by simp
  obtain s' where s': "CommitSubTransaction (if q then propagate_to_parent s else s) = Inr s'"
    "frames s' = (if q then propagate_urp a p else p) # r" "currentSubTransactionId s' = subTransactionId p"
    "xlog s' = EvSubCommit (subTransactionId a) # xlog s" "same_counters s s'" by (rule commit_one [OF fs])
  then have "blockState (cur s') \<noteq> b" using Nil.prems by (auto dest!: frames_cur split: if_splits)
  then show ?case using s' Nil.prems by (simp add: commit_subs.simps [of b q s])
next
  case (Cons a' as)
  then have fs: "frames s = a # a' # (as @ p # r)" by simp
  obtain s1 where s1: "CommitSubTransaction (if q then propagate_to_parent s else s) = Inr s1"
    "frames s1 = (if q then propagate_urp a a' else a') # as @ p # r" "currentSubTransactionId s1 = subTransactionId a'"
    "xlog s1 = EvSubCommit (subTransactionId a) # xlog s" "same_counters s s1" by (rule commit_one [OF fs])
  have "blockState (cur s1) = b" using s1(2) Cons.prems by (auto dest!: frames_cur split: if_splits)
  then have eq: "commit_subs b q s = commit_subs b q s1" using s1(1) by (simp add: commit_subs.simps [of b q s])
  have bs: "blockState (if q then propagate_urp a a' else a') = b" "\<forall>t \<in> set as. blockState t = b" using Cons.prems by auto
  obtain s' where s': "commit_subs b q s1 = Inr s'" "frames s' = carry_urp q (as @ [p]) (if q then propagate_urp a a' else a') # r"
    "currentSubTransactionId s' = subTransactionId p" "same_counters s1 s'"
    "xlog s' = rev (map (\<lambda>t. EvSubCommit (subTransactionId t)) ((if q then propagate_urp a a' else a') # as)) @ xlog s1"
    using Cons.IH [OF s1(2) bs Cons.prems(4)] by blast
  have "same_counters s s'" using s1(5) s'(4) by (simp add: same_counters_def)
  moreover have "subTransactionId (if q then propagate_urp a a' else a') = subTransactionId a'" by simp
  then have "xlog s' = rev (map (\<lambda>t. EvSubCommit (subTransactionId t)) (a # a' # as)) @ xlog s"
    unfolding s'(5) s1(4) by simp
  ultimately show ?case using eq s'(1,2,3) by simp
qed

text \<open>Pending aborts: each pops one frame, unless the handles were destroyed.\<close>

lemma CTC_pending:
  assumes "blockState (cur s) = TBLOCK_SUBABORT_PENDING"
  shows "CommitTransactionCommand b s = rbind (abort_out_sub s) (\<lambda>s'. if handlesDestroyedInCancelQuery s'
    then AbortOutOfAnyTransaction True s' else CommitTransactionCommand b s')"
  using assms by (simp add: CommitTransactionCommand.simps [of b s] rbind_def)

definition log_aborts :: "TransactionStateData list \<Rightarrow> xact_event list" where
  "log_aborts as = rev (map (\<lambda>t. EvSubAbort (subTransactionId t)) as)"

lemma log_aborts_simps [simp]: "log_aborts [] = []" "log_aborts (a # as) = log_aborts as @ [EvSubAbort (subTransactionId a)]"
  by (simp_all add: log_aborts_def)

lemma no_commit_log_aborts [simp]: "list_all no_commit (log_aborts as)"
  by (simp add: log_aborts_def list_all_iff)

lemma CTC_pending_run:
  assumes "frames s = as @ rest" "rest \<noteq> []" "\<forall>t \<in> set as. blockState t = TBLOCK_SUBABORT_PENDING"
    "\<not> handlesDestroyedInCancelQuery s" "currentSubTransactionId s = subTransactionId (cur s)"
  shows "\<exists>s'. CommitTransactionCommand b s = CommitTransactionCommand b s' \<and> frames s' = rest \<and>
    currentSubTransactionId s' = subTransactionId (cur s') \<and> \<not> handlesDestroyedInCancelQuery s' \<and>
    xlog s' = log_aborts as @ xlog s \<and> same_counters s s'"
  using assms
proof (induction as arbitrary: s)
  case Nil
  then show ?case by (intro exI [of _ s]) (auto simp: same_counters_def)
next
  case (Cons a as)
  then have a: "cur s = a" "parents s = as @ rest" by (auto dest: frames_cur)
  then have par: "parents s \<noteq> []" using Cons.prems by simp
  obtain s1 where s1: "abort_out_sub s = Inr s1" "popped s s1" "xlog s1 = EvSubAbort (subTransactionId (cur s)) # xlog s"
    by (rule abort_out_sub_pop [OF par])
  then have "CommitTransactionCommand b s = CommitTransactionCommand b s1"
    using Cons.prems a by (simp add: CTC_pending popped_def)
  then show ?case
    using Cons.IH [of s1] Cons.prems s1 a by (auto simp: popped_def same_counters_def)
qed

lemma CTC_pending_destroyed:
  assumes "frames s = a # r" "r \<noteq> []" "blockState a = TBLOCK_SUBABORT_PENDING" "handlesDestroyedInCancelQuery s"
  obtains s' where "CommitTransactionCommand b s = AbortOutOfAnyTransaction True s'" "popped s s'" "no_commit_since s s'"
proof -
  have a: "cur s = a" "parents s \<noteq> []" using assms by (auto dest: frames_cur)
  obtain s1 where s1: "abort_out_sub s = Inr s1" "popped s s1" "xlog s1 = EvSubAbort (subTransactionId (cur s)) # xlog s"
    by (rule abort_out_sub_pop [OF a(2)])
  then show thesis
    using that [of s1] assms a by (simp add: CTC_pending popped_def no_commit_since_Cons)
qed

lemma soft_append:
  assumes "\<forall>t \<in> set as. blockState t \<in> {TBLOCK_SUBRELEASE, TBLOCK_SUBCOMMIT, TBLOCK_SUBABORT_PENDING, TBLOCK_SUBRESTART}"
    and "soft rest"
  shows "soft (as @ rest)"
  using assms(1)
proof (induction as)
  case Nil
  then show ?case using assms(2) by simp
next
  case (Cons a as)
  then obtain t r where "as @ rest = t # r" using assms(2) by (cases "as @ rest") auto
  then show ?case using Cons by auto
qed

lemma AbortOutOfAny_between:
  assumes "soft (frames s)" "numbered s"
  shows "\<exists>s'. AbortOutOfAnyTransaction True s = Inr s' \<and> no_commit_since s s' \<and> between s' \<and>
    (blockState (last (frames s)) \<noteq> TBLOCK_INPROGRESS \<longrightarrow> idle s')"
  using AbortOutOfAny_soft [OF assms]
  by (auto simp: between_def failed_def frames_def split: if_splits)

text \<open>The outcome of ending a command: what the rest of the stack gives, or the result of taking everything down.\<close>

lemma CTC_exit_run:
  assumes fs: "frames s = as @ rest" "soft rest" "\<forall>t \<in> set as. blockState t = TBLOCK_SUBABORT_PENDING" and num: "numbered s"
    and rest: "\<And>s'. frames s' = rest \<Longrightarrow> numbered s' \<Longrightarrow> \<exists>s''. CommitTransactionCommand b s' = Inr s'' \<and> between s'' \<and>
       no_commit_since s' s'' \<and> (blockState (last rest) \<noteq> TBLOCK_INPROGRESS \<longrightarrow> idle s'')"
  shows "\<exists>s'. CommitTransactionCommand b s = Inr s' \<and> between s' \<and> no_commit_since s s' \<and>
       (blockState (last rest) \<noteq> TBLOCK_INPROGRESS \<longrightarrow> idle s')"
proof (cases "as = []")
  case True
  then show ?thesis using rest fs num by auto
next
  case as: False
  have ne: "rest \<noteq> []" using fs(2) by auto
  show ?thesis
  proof (cases "handlesDestroyedInCancelQuery s")
    case True
    obtain a as' where aa: "as = a # as'" using as by (cases as) auto
    have f: "frames s = a # (as' @ rest)" "as' @ rest \<noteq> []" using fs(1) aa ne by auto
    obtain s1 where s1: "CommitTransactionCommand b s = AbortOutOfAnyTransaction True s1" "popped s s1" "no_commit_since s s1"
      by (rule CTC_pending_destroyed [OF f]) (use fs aa True in auto)
    have "soft (as' @ rest)" using fs aa by (intro soft_append) auto
    moreover have "frames s1 = as' @ rest" using popped_frames [OF s1(2) f(1)] .
    moreover have "numbered s1" using popped_numbered [OF s1(2)] num by (simp add: numbered_def)
    ultimately obtain s2 where "AbortOutOfAnyTransaction True s1 = Inr s2" "no_commit_since s1 s2" "between s2"
      "blockState (last (as' @ rest)) \<noteq> TBLOCK_INPROGRESS \<longrightarrow> idle s2"
      using AbortOutOfAny_between [of s1] by auto
    then show ?thesis using s1 ne no_commit_since_trans [OF s1(3)] by auto
  next
    case False
    have cs: "currentSubTransactionId s = subTransactionId (cur s)" using num by (simp add: numbered_def)
    obtain s1 where s1: "CommitTransactionCommand b s = CommitTransactionCommand b s1" "frames s1 = rest"
      "currentSubTransactionId s1 = subTransactionId (cur s1)" "xlog s1 = log_aborts as @ xlog s"
      using CTC_pending_run [OF fs(1) ne fs(3) False cs] by blast
    have "numbered s1" using s1 num fs ne by (auto simp: numbered_def intro: stack_ok_append)
    moreover have "no_commit_since s s1" using s1(4) by (auto simp: no_commit_since_def)
    ultimately show ?thesis using rest [OF s1(2)] s1(1) no_commit_since_trans by metis
  qed
qed

section \<open>The end of a command\<close>

definition log_commits :: "TransactionStateData list \<Rightarrow> xact_event list" where
  "log_commits as = rev (map (\<lambda>t. EvSubCommit (subTransactionId t)) as)"

lemma log_commits_Nil [simp]: "log_commits [] = []"
  by (simp add: log_commits_def)

lemma commit_top_idle:
  assumes "parents s = []" "frame_at 1 (cur s)" "name (cur s) = None"
  shows "idle (set_block TBLOCK_DEFAULT (CommitTransaction s))" "idle (set_block TBLOCK_DEFAULT (PrepareTransaction s))"
    "xlog (set_block TBLOCK_DEFAULT (CommitTransaction s)) = EvCommit # xlog s"
    "xlog (set_block TBLOCK_DEFAULT (PrepareTransaction s)) = EvPrepare # xlog s"
  using assms by (simp_all add: CommitTransaction_def PrepareTransaction_def idle_def xact_prims frame_at_def)

lemma numbered_single: "numbered s \<Longrightarrow> frames s = [t] \<Longrightarrow> parents s = [] \<and> cur s = t \<and> frame_at 1 t \<and> name t = None"
  by (auto simp: numbered_def frames_def)

lemma CTC_closing:
  assumes "frames s = [t]" "blockState t \<in> {TBLOCK_STARTED, TBLOCK_END, TBLOCK_PREPARE}" "numbered s"
  shows "\<exists>s'. CommitTransactionCommand b s = Inr s' \<and> idle s' \<and>
    xlog s' = (if blockState t = TBLOCK_PREPARE then EvPrepare else EvCommit) # xlog s"
  using numbered_single [OF assms(3,1)] assms(2) commit_top_idle [of s]
  by (auto simp: CommitTransactionCommand.simps [of b s])

lemma CTC_committing:
  assumes "frames s = as @ [t]" "\<forall>x \<in> set as. blockState x = TBLOCK_SUBCOMMIT" "blockState t \<in> {TBLOCK_END, TBLOCK_PREPARE}"
    and num: "numbered s"
  shows "\<exists>s'. CommitTransactionCommand b s = Inr s' \<and> idle s' \<and>
    xlog s' = (if blockState t = TBLOCK_PREPARE then EvPrepare else EvCommit) # log_commits as @ xlog s"
proof (cases as)
  case Nil
  have f: "frames s = [t]" using assms(1) Nil by simp
  show ?thesis using CTC_closing [OF f _ num] assms(3) Nil by auto
next
  case (Cons a as')
  have f: "frames s = a # as' @ t # []" using assms(1) Cons by simp
  obtain s1 where s1: "commit_subs TBLOCK_SUBCOMMIT True s = Inr s1" "frames s1 = [carry_urp True (as' @ [t]) a]"
    "xlog s1 = rev (map (\<lambda>t. EvSubCommit (subTransactionId t)) (a # as')) @ xlog s"
    using commit_subs_run [OF f, of TBLOCK_SUBCOMMIT True] assms Cons by auto
  have ok: "stack_ok (frames s)" using num by (simp add: numbered_def)
  have "stack_ok [t]" using ok assms(1) by (auto dest: stack_ok_append)
  then have t: "frame_at 1 t" "name t = None" by auto
  have "\<exists>m. frame_at m x" if "x \<in> set (a # as')" for x using stack_ok_frame_at [OF ok] that f by auto
  then have "frame_at 1 (carry_urp True (as' @ [t]) a)" using t by (intro carry_urp_frame_at) auto
  then have p: "parents s1 = []" "frame_at 1 (cur s1)" "name (cur s1) = None" "blockState (cur s1) = blockState t"
    using s1(2) t by (auto dest: frames_cur)
  have "blockState (cur s) = TBLOCK_SUBCOMMIT" using f assms(2) Cons by (auto dest: frames_cur)
  then show ?thesis
    using s1 p assms(3) commit_top_idle [OF p(1-3)] by (auto simp: CommitTransactionCommand.simps [of b s] log_commits_def Cons)
qed

lemma live_top:
  assumes "live B fs"
  shows "blockState (last fs) \<in> B" "\<forall>t \<in> set (butlast fs). blockState t = TBLOCK_SUBINPROGRESS"
    "\<forall>t \<in> set fs. state t = TRANS_INPROGRESS"
  using assms by (induction B fs rule: live.induct) auto

lemma live_mono: "live B fs \<Longrightarrow> blockState (last fs) \<in> B' \<Longrightarrow> live B' fs"
  by (induction B fs rule: live.induct) auto

lemma CTC_in_block:
  assumes "in_block (frames s)"
  shows "CommitTransactionCommand False s = Inr (log_event EvCommandCounter s)"
proof (cases "parents s")
  case Nil
  then show ?thesis using assms by (simp add: CommitTransactionCommand.simps [of False s] frames_def)
next
  case (Cons p r)
  then have "blockState (cur s) = TBLOCK_SUBINPROGRESS" "blockState (top_xact s) = TBLOCK_INPROGRESS"
    using assms live_top(1) [OF assms] by (auto simp: frames_def)
  then show ?thesis using Cons by (simp add: CommitTransactionCommand.simps [of False s] Let_def)
qed

lemma CTC_autocommit:
  assumes "live {TBLOCK_STARTED} (frames s)" "numbered s"
  shows "\<exists>s' n. CommitTransactionCommand False s = Inr s' \<and> idle s' \<and>
    xlog s' = EvCommit # log_commits (butlast (frames s)) @ replicate n EvCommandCounter @ xlog s"
proof (cases "parents s")
  case Nil
  then have f: "frames s = [cur s]" "blockState (cur s) = TBLOCK_STARTED" using assms by (auto simp: frames_def)
  then obtain s' where "CommitTransactionCommand False s = Inr s'" "idle s'" "xlog s' = EvCommit # xlog s"
    using CTC_closing [OF f(1) _ assms(2)] by auto
  then show ?thesis using f by (intro exI [of _ s'] exI [of _ 0]) simp
next
  case (Cons p r)
  let ?s = "log_event EvCommandCounter s"
  define as t where "as = butlast (parents s)" and "t = last (parents s)"
  have f: "frames ?s = cur s # as @ t # []" using Cons by (simp add: frames_def as_def t_def)
  have fs: "frames s = (cur s # as) @ [t]" using f by (simp add: frames_def)
  have bs: "blockState (cur s) = TBLOCK_SUBINPROGRESS" "\<forall>x \<in> set as. blockState x = TBLOCK_SUBINPROGRESS"
    "blockState t = TBLOCK_STARTED"
    using live_top [OF assms(1)] unfolding fs by (auto simp: butlast_append)
  obtain s1 where s1: "commit_subs TBLOCK_SUBINPROGRESS False ?s = Inr s1" "frames s1 = [t]"
    "xlog s1 = rev (map (\<lambda>t. EvSubCommit (subTransactionId t)) (cur s # as)) @ xlog ?s"
    using commit_subs_run [OF f bs(1,2), of False] bs(3) by auto
  have "stack_ok [t]" using assms(2) fs unfolding numbered_def by (metis stack_ok_append list.distinct(1))
  then have p: "parents s1 = []" "frame_at 1 (cur s1)" "name (cur s1) = None" using s1(2) by (auto dest: frames_cur)
  have "CommitTransactionCommand False s = Inr (set_block TBLOCK_DEFAULT (CommitTransaction s1))"
    using s1 bs Cons by (simp add: CommitTransactionCommand.simps [of False s] t_def)
  moreover have "xlog s1 = log_commits (butlast (frames s)) @ replicate 1 EvCommandCounter @ xlog s"
    using s1(3) by (simp add: fs log_commits_def log_event_def butlast_append)
  ultimately show ?thesis using commit_top_idle [OF p] by metis
qed

lemma CTC_release:
  assumes "frames s = a # as @ p # r" "blockState a = TBLOCK_SUBRELEASE" "\<forall>t \<in> set as. blockState t = TBLOCK_SUBRELEASE"
    "blockState p \<noteq> TBLOCK_SUBRELEASE"
  shows "\<exists>s'. CommitTransactionCommand b s = Inr s' \<and> frames s' = p # r \<and> currentSubTransactionId s' = subTransactionId p \<and>
    xlog s' = log_commits (a # as) @ xlog s \<and> same_counters s s'"
  using commit_subs_run [OF assms, of False] assms by (auto simp: CommitTransactionCommand.simps [of b s] log_commits_def frames_def)

text \<open>A subtransaction that was just pushed and started.\<close>

definition fresh_sub :: "string option \<Rightarrow> int \<Rightarrow> nat \<Rightarrow> TransactionStateData \<Rightarrow> bool" where
  "fresh_sub nm lev n t \<longleftrightarrow> name t = nm \<and> savepointLevel t = lev \<and> blockState t = TBLOCK_SUBINPROGRESS \<and>
     state t = TRANS_INPROGRESS \<and> frame_at n t \<and> subTransactionId t \<noteq> 0 \<and> first_urp t = no_urp \<and> latest_urp t = no_urp"

definition pushed :: "string option \<Rightarrow> session \<Rightarrow> session \<Rightarrow> bool" where
  "pushed nm s s' \<longleftrightarrow> (\<exists>t. frames s' = t # frames s \<and> blockState t = TBLOCK_SUBBEGIN \<and> name t = nm \<and>
     savepointLevel t = savepointLevel (cur s) \<and> frame_at (Suc (length (frames s))) t \<and> subTransactionId t \<noteq> 0) \<and> numbered s' \<and>
     xlog s' = xlog s \<and> same_counters s s'"

lemma stack_ok_hd: "stack_ok (t # r) \<Longrightarrow> frame_at (Suc (length r)) t"
  by (cases r) auto

lemma numbered_cur: "numbered s \<Longrightarrow> frame_at (Suc (length (parents s))) (cur s)"
  using stack_ok_hd by (auto simp: numbered_def frames_def)

lemma Push_numbered:
  assumes "numbered s" "(of_nat (Suc (length (frames s))) :: uint64) \<noteq> 0"
  obtains s' where "PushTransaction s = Inr s'" "pushed None s s'"
proof -
  have id: "currentSubTransactionId s + 1 = of_nat (Suc (length (frames s)))" and lev: "nestingLevel (cur s) = length (frames s)"
    using numbered_cur [OF assms(1)] assms(1) by (simp_all add: frame_at_def numbered_def frames_def)
  have "currentSubTransactionId s + 1 \<noteq> 0" unfolding id using assms(2) .
  then obtain s' where s': "PushTransaction s = Inr s'" by (auto simp: PushTransaction_def Let_def)
  then have "pushed None s s'"
    using id lev assms unfolding pushed_def numbered_def PushTransaction_def Let_def
    by (auto simp: frames_def frame_at_def same_counters_def split: if_splits)
  then show thesis using that s' by blast
qed

lemma Push_errors: "numbered s \<Longrightarrow> PushTransaction s = Inl e \<Longrightarrow> e = Ereport ERROR ERRCODE_PROGRAM_LIMIT_EXCEEDED"
  by (auto simp: PushTransaction_def Let_def split: if_splits)

lemma subbegin_fresh:
  assumes "frames s = t # r" "r \<noteq> []" "numbered s"
  shows "\<exists>t'. frames (commit_subbegin s) = t' # r \<and> fresh_sub (name t) (savepointLevel t) (Suc (length r)) t'"
    "numbered (commit_subbegin s)" "xlog (commit_subbegin s) = EvSubStart (of_nat (Suc (length r))) # xlog s"
    "same_counters s (commit_subbegin s)"
proof -
  obtain p q where r: "r = p # q" using assms(2) by (cases r) auto
  have st: "cur s = t" "parents s = p # q" "frame_at (Suc (Suc (length q))) t" "subTransactionId t \<noteq> 0" "stack_ok (p # q)"
    "currentSubTransactionId s = subTransactionId t"
    using assms r by (auto simp: numbered_def dest: frames_cur)
  have "length (latest_urp_xact p) = UNDO_PERSISTENCE_LEVELS" using stack_ok_hd [OF st(5)] by (simp add: frame_at_def)
  then show "\<exists>t'. frames (commit_subbegin s) = t' # r \<and> fresh_sub (name t) (savepointLevel t) (Suc (length r)) t'"
    "numbered (commit_subbegin s)"
    using st r by (auto simp: commit_subbegin_def StartSubTransaction_def xact_prims fresh_sub_def frames_def frame_at_def numbered_def)
  show "xlog (commit_subbegin s) = EvSubStart (of_nat (Suc (length r))) # xlog s" "same_counters s (commit_subbegin s)"
    using st r by (auto simp: commit_subbegin_def StartSubTransaction_def xact_prims frame_at_def same_counters_def)
qed

lemma in_block_fresh: "live B fs \<Longrightarrow> fresh_sub nm lev n t \<Longrightarrow> live B (t # fs)"
  by (cases fs) (auto simp: fresh_sub_def)

lemma in_block_cur: "in_block (frames s) \<Longrightarrow> blockState (cur s) \<in> {TBLOCK_INPROGRESS, TBLOCK_SUBINPROGRESS}"
  by (cases "parents s") (auto simp: frames_def)

lemma DefineSavepoint_pushed:
  assumes "in_block (frames s)" "numbered s" "(of_nat (Suc (length (frames s))) :: uint64) \<noteq> 0"
  shows "\<exists>s'. DefineSavepoint nm s = Inr s' \<and> pushed nm s s'"
proof -
  obtain s1 where s1: "PushTransaction s = Inr s1" "pushed None s s1" by (rule Push_numbered [OF assms(2,3)])
  have "pushed nm s (if nm \<noteq> None then upd_cur (\<lambda>t. t\<lparr>name := nm\<rparr>) s1 else s1)"
    using s1(2)
    by (cases "frames s") (auto simp: pushed_def frames_def upd_cur_def frame_at_def numbered_def same_counters_def)
  then show ?thesis using s1(1) in_block_cur [OF assms(1)] by (auto simp: DefineSavepoint_def)
qed

lemma restart_savepoint_fresh:
  assumes "in_block (frames s)" "numbered s" "(of_nat (Suc (length (frames s))) :: uint64) \<noteq> 0"
  shows "\<exists>s' t. restart_savepoint False nm lev s = Inr s' \<and> frames s' = t # frames s \<and>
    fresh_sub nm lev (Suc (length (frames s))) t \<and> numbered s' \<and>
    xlog s' = EvSubStart (of_nat (Suc (length (frames s)))) # xlog s \<and> same_counters s s'"
proof -
  obtain s1 where s1: "DefineSavepoint None s = Inr s1" "pushed None s s1" using DefineSavepoint_pushed [OF assms] by blast
  let ?s = "upd_cur (\<lambda>t. t\<lparr>name := nm, savepointLevel := lev\<rparr>) s1"
  obtain t where t: "frames ?s = t # frames s" "name t = nm" "savepointLevel t = lev"
    using s1(2) by (auto simp: pushed_def frames_def)
  have num: "numbered ?s" "xlog ?s = xlog s" "same_counters s ?s"
    using s1(2) by (cases "parents s1"; auto simp: pushed_def frames_def upd_cur_def frame_at_def numbered_def same_counters_def)+
  note f = subbegin_fresh [OF t(1) frames_not_Nil num(1)]
  have "restart_savepoint False nm lev s = Inr (commit_subbegin ?s)" using s1(1) by (simp add: restart_savepoint_def)
  then show ?thesis using f num t(2,3) by (auto simp: same_counters_def)
qed

lemma stack_ok_depth: "stack_ok (t # r) \<Longrightarrow> r \<noteq> [] \<Longrightarrow> (of_nat (Suc (length r)) :: uint64) \<noteq> 0"
  by (cases r) (auto simp: frame_at_def)

text \<open>ROLLBACK TO, on the frame of the savepoint itself.\<close>

lemma CTC_restart:
  assumes "frames s = t # r" "blockState t \<in> {TBLOCK_SUBRESTART, TBLOCK_SUBABORT_RESTART}" "in_block r" "numbered s"
    "blockState t = TBLOCK_SUBRESTART \<Longrightarrow> \<not> handlesDestroyedInCancelQuery s"
  shows "\<exists>s' t'. CommitTransactionCommand False s = Inr s' \<and> frames s' = t' # r \<and>
    fresh_sub (name t) (savepointLevel t) (Suc (length r)) t' \<and> numbered s' \<and>
    xlog s' = EvSubStart (subTransactionId t) # (if blockState t = TBLOCK_SUBRESTART then [EvSubAbort (subTransactionId t)] else []) @ xlog s"
proof -
  have ne: "r \<noteq> []" using assms(3) by auto
  have st: "cur s = t" "parents s = r" using assms(1) by (auto dest: frames_cur)
  have par: "parents s \<noteq> []" using st ne by simp
  have "\<exists>s1. CommitTransactionCommand False s = restart_savepoint False (name t) (savepointLevel t) s1 \<and> popped s s1 \<and>
     xlog s1 = (if blockState t = TBLOCK_SUBRESTART then [EvSubAbort (subTransactionId t)] else []) @ xlog s"
  proof (cases "blockState t = TBLOCK_SUBRESTART")
    case True
    obtain s1 where "abort_out_sub s = Inr s1" "popped s s1" "xlog s1 = EvSubAbort (subTransactionId (cur s)) # xlog s"
      by (rule abort_out_sub_pop [OF par])
    then show ?thesis using True st assms(5) by (auto simp: CommitTransactionCommand.simps [of False s] popped_def)
  next
    case False
    obtain s1 where "CleanupSubTransaction s = Inr s1" "popped s s1" "xlog s1 = xlog s" by (rule CleanupSub_pop [OF par])
    then show ?thesis using False assms(2) st by (auto simp: CommitTransactionCommand.simps [of False s] popped_def)
  qed
  then obtain s1 where s1: "CommitTransactionCommand False s = restart_savepoint False (name t) (savepointLevel t) s1" "popped s s1"
     "xlog s1 = (if blockState t = TBLOCK_SUBRESTART then [EvSubAbort (subTransactionId t)] else []) @ xlog s" by blast
  have f: "frames s1 = r" "numbered s1"
    using popped_frames [OF s1(2) assms(1)] popped_numbered [OF s1(2)] assms(4) by (auto simp: numbered_def)
  have ok: "stack_ok (t # r)" using assms(1,4) by (simp add: numbered_def)
  have id: "(of_nat (Suc (length (frames s1))) :: uint64) \<noteq> 0" "subTransactionId t = of_nat (Suc (length r))"
    using stack_ok_depth [OF ok ne] stack_ok_hd [OF ok] f by (simp_all add: frame_at_def)
  show ?thesis
    using restart_savepoint_fresh [OF _ f(2) id(1), of "name t" "savepointLevel t"] s1(1,3) f(1) assms(3) id(2) by auto
qed

lemma CTC_restart_destroyed:
  assumes "frames s = t # r" "blockState t = TBLOCK_SUBRESTART" "in_block r" "numbered s" "handlesDestroyedInCancelQuery s"
  shows "\<exists>s'. CommitTransactionCommand False s = Inr s' \<and> between s' \<and> no_commit_since s s'"
proof -
  have st: "cur s = t" "parents s = r" using assms(1) by (auto dest: frames_cur)
  then have par: "parents s \<noteq> []" using assms(3) by auto
  obtain s1 where s1: "abort_out_sub s = Inr s1" "popped s s1" "xlog s1 = EvSubAbort (subTransactionId (cur s)) # xlog s"
    by (rule abort_out_sub_pop [OF par])
  then have eq: "CommitTransactionCommand False s = AbortOutOfAnyTransaction True s1"
    using assms(2,5) st by (auto simp: CommitTransactionCommand.simps [of False s] popped_def)
  have "frames s1 = r" "numbered s1"
    using popped_frames [OF s1(2) assms(1)] popped_numbered [OF s1(2)] assms(4) by (auto simp: numbered_def)
  then have "soft (frames s1)" "numbered s1" using live_soft [OF assms(3)] by auto
  then obtain s2 where s2: "AbortOutOfAnyTransaction True s1 = Inr s2" "no_commit_since s1 s2" "between s2"
    using AbortOutOfAny_between [of s1] by blast
  have "no_commit_since s s1" by (rule no_commit_since_Cons [OF s1(3)]) simp
  then show ?thesis using eq s2 no_commit_since_trans by metis
qed

section \<open>Errors\<close>

lemma abort_live_cleanup_pop:
  assumes "parents s \<noteq> []"
  obtains s' where "rbind (abort_live_sub s) CleanupSubTransaction = Inr s'" "popped s s'"
    "xlog s' = EvSubAbort (subTransactionId (cur s)) # xlog s"
proof -
  obtain s1 where s1: "ApplyUndoActions (AbortSubTransaction s) = Inr s1" "undone (AbortSubTransaction s) s1"
    by (rule abort_sub_undone)
  let ?s = "set_block TBLOCK_SUBABORT s1"
  have par: "parents ?s \<noteq> []" using assms s1(2) by (simp add: undone_def)
  obtain s2 where "CleanupSubTransaction ?s = Inr s2" "popped ?s s2" "xlog s2 = xlog ?s" by (rule CleanupSub_pop [OF par])
  then show thesis using that [of s2] s1 by (auto simp: abort_live_sub_def popped_def undone_def xact_prims)
qed

lemma abort_subs_run:
  assumes "frames s = a # as @ t # r" "\<forall>x \<in> set as. blockState x = TBLOCK_SUBINPROGRESS" "blockState t \<noteq> TBLOCK_SUBINPROGRESS"
  shows "\<exists>s'. abort_subs s = Inr s' \<and> frames s' = t # r \<and> no_commit_since s s'"
  using assms
proof (induction as arbitrary: a s)
  case Nil
  then have par: "parents s \<noteq> []" by (simp add: frames_def)
  obtain s1 where s1: "rbind (abort_live_sub s) CleanupSubTransaction = Inr s1" "popped s s1"
    "xlog s1 = EvSubAbort (subTransactionId (cur s)) # xlog s" by (rule abort_live_cleanup_pop [OF par])
  have "frames s1 = t # r" using popped_frames [OF s1(2)] Nil.prems by simp
  then show ?case
    using s1 Nil.prems frames_cur [of s1 t r] by (simp add: abort_subs.simps [of s] no_commit_since_Cons)
next
  case (Cons a' as)
  then have par: "parents s \<noteq> []" by (simp add: frames_def)
  obtain s1 where s1: "rbind (abort_live_sub s) CleanupSubTransaction = Inr s1" "popped s s1"
    "xlog s1 = EvSubAbort (subTransactionId (cur s)) # xlog s" by (rule abort_live_cleanup_pop [OF par])
  have f: "frames s1 = a' # as @ t # r" using popped_frames [OF s1(2)] Cons.prems by simp
  then have "blockState (cur s1) = TBLOCK_SUBINPROGRESS" using Cons.prems by (auto dest: frames_cur)
  then have "abort_subs s = abort_subs s1" using s1(1) by (simp add: abort_subs.simps [of s])
  moreover have "no_commit_since s s1" by (rule no_commit_since_Cons [OF s1(3)]) simp
  ultimately show ?case using Cons.IH [OF f] Cons.prems no_commit_since_trans by (metis list.set_intros(2))
qed

lemma live_tl: "live B (t # r) \<Longrightarrow> r \<noteq> [] \<Longrightarrow> live B r"
  by (cases r) auto

text \<open>An error in an open subtransaction of a block: it has failed, what is below is untouched.\<close>

lemma abort_live_sub_fails:
  assumes "frames s = t # r" "in_block r" "numbered s"
  obtains s' t' where "abort_live_sub s = Inr s'" "frames s' = t' # r" "failed_sub (frames s')" "numbered s'"
    "name t' = name t" "savepointLevel t' = savepointLevel t"
    "xlog s' = EvSubAbort (subTransactionId t) # xlog s" "same_counters s s'"
proof -
  obtain s1 where s1: "ApplyUndoActions (AbortSubTransaction s) = Inr s1" "undone (AbortSubTransaction s) s1"
    by (rule abort_sub_undone)
  let ?s = "set_block TBLOCK_SUBABORT s1"
  obtain p q where r: "r = p # q" using assms(2) by (cases r) auto
  have st: "cur s = t" "parents s = p # q" "frame_at (Suc (Suc (length q))) t" "subTransactionId t \<noteq> 0" "stack_ok (p # q)"
    "currentSubTransactionId s = subTransactionId t"
    using assms r by (auto simp: numbered_def dest: frames_cur)
  have "frame_at (Suc (Suc (length q))) (cur (AbortSubTransaction s))" using st by (simp add: xact_prims frame_at_def)
  then have "frame_at (Suc (Suc (length q))) (cur s1)" using s1(2) by (auto simp: undone_def)
  then have 1: "numbered ?s" "frames ?s = cur ?s # r" "state (cur ?s) = TRANS_ABORT" "name (cur ?s) = name t"
    "savepointLevel (cur ?s) = savepointLevel t" "xlog ?s = EvSubAbort (subTransactionId t) # xlog s" "same_counters s ?s"
    using st s1(2) r
    by (auto simp: numbered_def frames_def undone_def xact_prims frame_at_def same_counters_def)
  have 2: "failed_sub (frames ?s)" using 1 assms(2) by (auto simp: failed_sub_def)
  show thesis
    by (rule that [OF _ 1(2) 2 1(1) 1(4-7)]) (simp add: abort_live_sub_def s1(1))
qed

lemma abort_top_failed:
  assumes "frames s = [t]" "numbered s"
  obtains s' where "ApplyUndoActions (AbortTransaction s) = Inr s'" "parents s' = []" "state (cur s') = TRANS_ABORT"
    "frame_at 1 (cur s')" "name (cur s') = None" "currentSubTransactionId s' = subTransactionId (cur s')"
    "xlog s' = EvAbort # xlog s" "\<not> handlesDestroyedInCancelQuery s'"
proof -
  obtain s1 where s1: "ApplyUndoActions (AbortTransaction s) = Inr s1" "undone (AbortTransaction s) s1" by (rule abort_top_undone)
  have "frame_at 1 (cur (AbortTransaction s))" "name (cur (AbortTransaction s)) = None" "parents (AbortTransaction s) = []"
    "xlog (AbortTransaction s) = EvAbort # xlog s" "\<not> handlesDestroyedInCancelQuery (AbortTransaction s)"
    "currentSubTransactionId (AbortTransaction s) = 1"
    using numbered_single [OF assms(2,1)] assms(2) by (simp_all add: xact_prims frame_at_def numbered_def)
  then have p: "state (cur s1) = TRANS_ABORT" "parents s1 = []" "frame_at 1 (cur s1)" "name (cur s1) = None"
    "currentSubTransactionId s1 = 1" "xlog s1 = EvAbort # xlog s" "\<not> handlesDestroyedInCancelQuery s1"
    using s1(2) by (simp_all add: undone_def)
  have c: "currentSubTransactionId s1 = subTransactionId (cur s1)" using p by (simp add: frame_at_def)
  show thesis by (rule that [OF s1(1) p(2,1,3,4) c p(6,7)])
qed

lemma failed_top_between:
  assumes "parents s = []" "state (cur s) = TRANS_ABORT" "frame_at 1 (cur s)" "name (cur s) = None"
    "currentSubTransactionId s = subTransactionId (cur s)"
  shows "between (set_block TBLOCK_ABORT s)" "failed (frames (set_block TBLOCK_ABORT s))"
  using assms by (auto simp: between_def failed_def failed_top_def numbered_def frames_def frame_at_def xact_prims)

lemma ACT_top:
  assumes "frames s = [t]" "blockState t \<in> {TBLOCK_STARTED, TBLOCK_INPROGRESS}" "numbered s"
  shows "\<exists>s'. AbortCurrentTransaction env False s = Inr s' \<and> between s' \<and> xlog s' = EvAbort # xlog s \<and>
    (if blockState t = TBLOCK_STARTED \<and> phony_autocommit env then idle s' else failed (frames s'))"
proof -
  obtain s1 where s1: "ApplyUndoActions (AbortTransaction s) = Inr s1" "parents s1 = []" "state (cur s1) = TRANS_ABORT"
    "frame_at 1 (cur s1)" "name (cur s1) = None" "currentSubTransactionId s1 = subTransactionId (cur s1)"
    "xlog s1 = EvAbort # xlog s" by (rule abort_top_failed [OF assms(1,3)])
  have t: "cur s = t" using assms(1) by (auto dest: frames_cur)
  show ?thesis
  proof (cases "blockState t = TBLOCK_STARTED \<and> phony_autocommit env")
    case True
    obtain s2 where "rbind (CleanupTransaction s1) (\<lambda>s. Inr (set_block TBLOCK_DEFAULT s)) = Inr s2" "idle s2" "xlog s2 = xlog s1"
      by (rule Cleanup_default_idle [OF s1(3,2,4,5)])
    then show ?thesis using True s1 t by (simp add: AbortCurrentTransaction.simps [of env False s] between_def)
  next
    case False
    then have "AbortCurrentTransaction env False s = Inr (set_block TBLOCK_ABORT s1)"
      using s1(1) t assms(2) by (auto simp: AbortCurrentTransaction.simps [of env False s])
    moreover have "xlog (set_block TBLOCK_ABORT s1) = EvAbort # xlog s" using s1(7) by (simp add: xact_prims)
    ultimately show ?thesis using False failed_top_between [OF s1(2-6)] by (metis (full_types))
  qed
qed

lemma ACT_open_sub:
  assumes "frames s = t # r" "in_block (frames s)" "r \<noteq> []" "numbered s"
  shows "\<exists>s'. AbortCurrentTransaction env False s = Inr s' \<and> between s' \<and> no_commit_since s s' \<and> failed (frames s')"
proof -
  have ib: "in_block r" using live_tl assms by metis
  obtain s1 t' where s1: "abort_live_sub s = Inr s1" "frames s1 = t' # r" "failed_sub (frames s1)" "numbered s1"
    "xlog s1 = EvSubAbort (subTransactionId t) # xlog s" "same_counters s s1"
    using abort_live_sub_fails [OF assms(1) ib assms(4)] by metis
  have b: "blockState (cur s) = TBLOCK_SUBINPROGRESS" "blockState (top_xact s) \<noteq> TBLOCK_STARTED"
    using assms(1-3) live_top(1) [OF assms(2)] by (cases r; auto simp: frames_def)+
  have eq: "AbortCurrentTransaction env False s =
      (if handlesDestroyedInCancelQuery s1 then AbortOutOfAnyTransaction True s1 else Inr s1)"
    using b s1(1) by (simp add: AbortCurrentTransaction.simps [of env False s])
  have soft: "soft (frames s1)" using s1(2,3) live_soft [OF ib] by (cases r) (auto simp: failed_sub_def)
  have last: "blockState (last (frames s1)) = TBLOCK_INPROGRESS" using live_top(1) [OF ib] s1(2) assms(3) by simp
  have nc: "no_commit_since s s1" by (rule no_commit_since_Cons [OF s1(5)]) simp
  have btw: "between s1" "failed (frames s1)" using s1(3,4) by (auto simp: between_def failed_def)
  obtain s2 where s2: "AbortOutOfAnyTransaction True s1 = Inr s2" "no_commit_since s1 s2" "parents s2 = []"
    "numbered s2" "failed_top (cur s2)"
    using AbortOutOfAny_soft [OF soft s1(4)] last by auto
  have btw2: "between s2" "failed (frames s2)" using s2 by (auto simp: between_def failed_def frames_def)
  show ?thesis using eq btw btw2 s2 nc no_commit_since_trans [OF nc s2(2)] by (cases "handlesDestroyedInCancelQuery s1") auto
qed

lemma ACT_autocommit_subs:
  assumes "frames s = t # r" "live {TBLOCK_STARTED} (frames s)" "r \<noteq> []" "numbered s"
  shows "\<exists>s'. AbortCurrentTransaction env False s = Inr s' \<and> idle s' \<and> no_commit_since s s'"
proof -
  define as x where "as = butlast r" and "x = last r"
  have f: "frames s = t # as @ x # []" using assms(1,3) by (simp add: as_def x_def)
  have lt: "blockState x = TBLOCK_STARTED" "\<forall>y \<in> set as. blockState y = TBLOCK_SUBINPROGRESS" "blockState t = TBLOCK_SUBINPROGRESS"
    "state x = TRANS_INPROGRESS"
    using live_top [OF assms(2)] unfolding f by (auto simp: butlast_append)
  obtain s1 where s1: "abort_subs s = Inr s1" "frames s1 = [x]" "no_commit_since s s1"
    using abort_subs_run [OF f lt(2)] lt(1) by auto
  have "stack_ok [x]" using assms(4) f unfolding numbered_def by (metis stack_ok_append append_Cons list.distinct(1))
  then have p: "parents s1 = []" "frame_at 1 (cur s1)" "name (cur s1) = None" using s1(2) by (auto dest: frames_cur)
  obtain s2 where s2: "abort_out_top s1 = Inr s2" "idle s2" "xlog s2 = EvAbort # xlog s1" "\<not> handlesDestroyedInCancelQuery s2"
    by (rule abort_out_top_idle [OF p])
  have c: "cur s = t" "top_xact s = x" "cur s1 = x" using f s1(2) by (auto simp: frames_def)
  have "AbortCurrentTransaction env False s = Inr s2"
    using c lt s1(1) s2(1,4) by (simp add: AbortCurrentTransaction.simps [of env False s])
  moreover have "no_commit_since s1 s2" by (rule no_commit_since_Cons [OF s2(3)]) simp
  ultimately show ?thesis using s2(2) no_commit_since_trans [OF s1(3)] by metis
qed

section \<open>Between the statement and the end of the command\<close>

text \<open>
  The stacks that a transaction statement leaves for \<^verbatim>\<open>CommitTransactionCommand\<close> to finish, or for
  \<^verbatim>\<open>AbortCurrentTransaction\<close> when that fails.
\<close>

definition pending :: "TBlockState \<Rightarrow> TransactionStateData list \<Rightarrow> bool" where
  "pending b as \<longleftrightarrow> (\<forall>t \<in> set as. blockState t = b)"

lemma pending_simps [simp]: "pending b []" "pending b (t # r) \<longleftrightarrow> blockState t = b \<and> pending b r"
  by (auto simp: pending_def)

definition exit_base :: "TransactionStateData list \<Rightarrow> bool" where
  "exit_base fs \<longleftrightarrow> (\<exists>t. fs = [t] \<and> blockState t = TBLOCK_ABORT_PENDING) \<or>
     (\<exists>t r. fs = t # r \<and> blockState t = TBLOCK_SUBRESTART \<and> in_block r)"

inductive mid :: "TransactionStateData list \<Rightarrow> bool" where
  mid_open: "in_query fs \<Longrightarrow> mid fs"
| mid_begin: "blockState t = TBLOCK_BEGIN \<Longrightarrow> state t = TRANS_INPROGRESS \<Longrightarrow> mid [t]"
| mid_abort_end: "blockState t = TBLOCK_ABORT_END \<Longrightarrow> state t = TRANS_ABORT \<Longrightarrow> mid [t]"
| mid_commit: "pending TBLOCK_SUBCOMMIT as \<Longrightarrow> blockState t \<in> {TBLOCK_END, TBLOCK_PREPARE} \<Longrightarrow> mid (as @ [t])"
| mid_exit: "pending TBLOCK_SUBABORT_PENDING as \<Longrightarrow> exit_base rest \<Longrightarrow> mid (as @ rest)"
| mid_exit_failed: "blockState x = TBLOCK_SUBABORT_END \<Longrightarrow> pending TBLOCK_SUBABORT_PENDING as \<Longrightarrow> exit_base rest \<Longrightarrow>
     mid (x # as @ rest)"
| mid_restart_failed: "blockState t = TBLOCK_SUBABORT_RESTART \<Longrightarrow> in_block r \<Longrightarrow> mid (t # r)"
| mid_subbegin: "blockState t = TBLOCK_SUBBEGIN \<Longrightarrow> in_block r \<Longrightarrow> mid (t # r)"
| mid_release: "blockState a = TBLOCK_SUBRELEASE \<Longrightarrow> pending TBLOCK_SUBRELEASE as \<Longrightarrow> in_block r \<Longrightarrow> mid (a # as @ r)"

lemma exit_base_soft: "exit_base fs \<Longrightarrow> soft fs"
proof -
  assume "exit_base fs"
  then show ?thesis
    unfolding exit_base_def
  proof (elim disjE exE conjE)
    fix t r assume "fs = t # r" "blockState t = TBLOCK_SUBRESTART" "in_block r"
    then show ?thesis using live_soft [of r] by (cases r) auto
  qed auto
qed

lemma between_in_block: "numbered s \<Longrightarrow> in_block (frames s) \<Longrightarrow> between s"
  by (simp add: between_def)

lemma CTC_exit_base:
  assumes "exit_base (frames s)" "numbered s"
  shows "\<exists>s'. CommitTransactionCommand False s = Inr s' \<and> between s' \<and> no_commit_since s s' \<and>
    (blockState (last (frames s)) \<noteq> TBLOCK_INPROGRESS \<longrightarrow> idle s')"
  using assms(1) unfolding exit_base_def
proof (elim disjE exE conjE)
  fix t assume t: "frames s = [t]" "blockState t = TBLOCK_ABORT_PENDING"
  then have p: "parents s = []" "frame_at 1 (cur s)" "name (cur s) = None" "cur s = t"
    using numbered_single [OF assms(2) t(1)] by auto
  obtain s' where s': "abort_out_top s = Inr s'" "idle s'" "xlog s' = EvAbort # xlog s" by (rule abort_out_top_idle [OF p(1-3)])
  then show ?thesis using t p by (auto simp: CommitTransactionCommand.simps [of False s] between_def no_commit_since_Cons)
next
  fix t r assume t: "frames s = t # r" "blockState t = TBLOCK_SUBRESTART" "in_block r"
  have last: "blockState (last (frames s)) = TBLOCK_INPROGRESS" using live_top(1) [OF t(3)] t by (cases r) auto
  show ?thesis
  proof (cases "handlesDestroyedInCancelQuery s")
    case True
    then show ?thesis using CTC_restart_destroyed [OF t assms(2)] last by auto
  next
    case False
    then obtain s' t' where s': "CommitTransactionCommand False s = Inr s'" "frames s' = t' # r"
      "fresh_sub (name t) (savepointLevel t) (Suc (length r)) t'" "numbered s'"
      "xlog s' = [EvSubStart (subTransactionId t), EvSubAbort (subTransactionId t)] @ xlog s"
      using CTC_restart [OF t(1) _ t(3) assms(2)] t(2) by auto
    have "between s'" using s' in_block_fresh [OF t(3) s'(3)] by (intro between_in_block) auto
    moreover have "no_commit_since s s'"
      unfolding no_commit_since_def using s'(5) by (intro exI [of _ "[EvSubStart (subTransactionId t), EvSubAbort (subTransactionId t)]"]) simp
    ultimately show ?thesis using s'(1) last by auto
  qed
qed

lemma CTC_exit:
  assumes "frames s = as @ rest" "pending TBLOCK_SUBABORT_PENDING as" "exit_base rest" "numbered s"
  shows "\<exists>s'. CommitTransactionCommand False s = Inr s' \<and> between s' \<and> no_commit_since s s' \<and>
    (blockState (last rest) \<noteq> TBLOCK_INPROGRESS \<longrightarrow> idle s')"
proof (rule CTC_exit_run [OF assms(1) _ _ assms(4)])
  show "soft rest" by (rule exit_base_soft [OF assms(3)])
  show "\<forall>t \<in> set as. blockState t = TBLOCK_SUBABORT_PENDING" using assms(2) by (simp add: pending_def)
  fix s' assume "frames s' = rest" "numbered s'"
  then show "\<exists>s''. CommitTransactionCommand False s' = Inr s'' \<and> between s'' \<and> no_commit_since s' s'' \<and>
       (blockState (last rest) \<noteq> TBLOCK_INPROGRESS \<longrightarrow> idle s'')" using CTC_exit_base [of s'] assms(3) by auto
qed

lemma exit_base_ne: "exit_base rest \<Longrightarrow> rest \<noteq> []"
  by (auto simp: exit_base_def)

lemma CTC_exit_failed:
  assumes "frames s = x # as @ rest" "blockState x = TBLOCK_SUBABORT_END" "pending TBLOCK_SUBABORT_PENDING as" "exit_base rest"
    "numbered s"
  shows "\<exists>s'. CommitTransactionCommand False s = Inr s' \<and> between s' \<and> no_commit_since s s' \<and>
    (blockState (last rest) \<noteq> TBLOCK_INPROGRESS \<longrightarrow> idle s')"
proof -
  have st: "cur s = x" "parents s = as @ rest" using assms(1) by (auto dest: frames_cur)
  then have par: "parents s \<noteq> []" using exit_base_ne [OF assms(4)] by simp
  obtain s1 where s1: "CleanupSubTransaction s = Inr s1" "popped s s1" "xlog s1 = xlog s" by (rule CleanupSub_pop [OF par])
  have f: "frames s1 = as @ rest" "numbered s1"
    using popped_frames [OF s1(2) assms(1)] popped_numbered [OF s1(2)] assms(5) by (auto simp: numbered_def)
  have "CommitTransactionCommand False s = CommitTransactionCommand False s1"
    using s1(1) st assms(2) by (simp add: CommitTransactionCommand.simps [of False s])
  then show ?thesis using CTC_exit [OF f(1) assms(3,4) f(2)] no_commit_since_trans [OF no_commit_since_eq [OF s1(3)]] by auto
qed

lemma numbered_log [simp]: "numbered (log_event e s) = numbered s" "frames (log_event e s) = frames s"
  by (simp_all add: numbered_def frames_def log_event_def)

lemma query_cases:
  assumes "in_query fs"
  obtains "in_block fs" | "live {TBLOCK_STARTED} fs"
  using live_top(1) [OF assms] live_mono [OF assms] by auto

lemma CTC_query:
  assumes "in_query (frames s)" "numbered s"
  shows "\<exists>s'. CommitTransactionCommand False s = Inr s' \<and> between s'"
  using assms(1)
proof (cases rule: query_cases)
  case 1
  then show ?thesis using CTC_in_block between_in_block [of "log_event EvCommandCounter s"] assms(2) by auto
next
  case 2
  then show ?thesis using CTC_autocommit [OF _ assms(2)] by (auto simp: between_def)
qed

lemma CTC_mid:
  assumes "mid (frames s)" "numbered s"
  shows "\<exists>s'. CommitTransactionCommand False s = Inr s' \<and> between s'"
  using assms(1)
proof cases
  case mid_open
  then show ?thesis using CTC_query assms(2) by blast
next
  case (mid_begin t)
  then have t: "cur s = t" "parents s = []" "frame_at 1 t" "name t = None" using numbered_single [OF assms(2)] by auto
  have "CommitTransactionCommand False s = Inr (set_block TBLOCK_INPROGRESS s)"
    using t mid_begin by (simp add: CommitTransactionCommand.simps [of False s])
  moreover have "between (set_block TBLOCK_INPROGRESS s)"
    using t mid_begin assms(2) by (intro between_in_block) (auto simp: numbered_def frames_def xact_prims frame_at_def)
  ultimately show ?thesis by blast
next
  case (mid_abort_end t)
  then have t: "cur s = t" "parents s = []" "frame_at 1 (cur s)" "name (cur s) = None" using numbered_single [OF assms(2)] by auto
  obtain s' where "rbind (CleanupTransaction s) (\<lambda>s. Inr (set_block TBLOCK_DEFAULT s)) = Inr s'" "idle s'"
    by (rule Cleanup_default_idle [OF _ t(2-4)]) (use t mid_abort_end in auto)
  then show ?thesis using t mid_abort_end by (auto simp: CommitTransactionCommand.simps [of False s] between_def)
next
  case (mid_commit as t)
  then show ?thesis using CTC_committing [OF mid_commit(1) _ _ assms(2), of False] by (auto simp: between_def pending_def)
next
  case (mid_exit as rest)
  then show ?thesis using CTC_exit [OF mid_exit assms(2)] by blast
next
  case (mid_exit_failed x as rest)
  then show ?thesis using CTC_exit_failed [OF mid_exit_failed assms(2)] by blast
next
  case (mid_restart_failed t r)
  then obtain s' t' where s': "CommitTransactionCommand False s = Inr s'" "frames s' = t' # r"
    "fresh_sub (name t) (savepointLevel t) (Suc (length r)) t'" "numbered s'"
    using CTC_restart [OF mid_restart_failed(1) _ mid_restart_failed(3) assms(2)] by auto
  then show ?thesis using in_block_fresh [OF mid_restart_failed(3) s'(3)] between_in_block [of s'] by auto
next
  case (mid_subbegin t r)
  have ne: "r \<noteq> []" using mid_subbegin by auto
  note f = subbegin_fresh [OF mid_subbegin(1) ne assms(2)]
  have "CommitTransactionCommand False s = Inr (commit_subbegin s)"
    using mid_subbegin frames_cur [OF mid_subbegin(1)] by (simp add: CommitTransactionCommand.simps [of False s])
  moreover have "in_block (frames (commit_subbegin s))" using f(1) in_block_fresh [OF mid_subbegin(3)] by auto
  ultimately show ?thesis using f(2) between_in_block by blast
next
  case (mid_release a as r)
  then obtain p q where r: "r = p # q" by (cases r) auto
  have bp: "blockState p \<noteq> TBLOCK_SUBRELEASE" using mid_release r by (cases q) auto
  have fr: "frames s = a # as @ p # q" using mid_release r by simp
  have pend: "\<forall>t \<in> set as. blockState t = TBLOCK_SUBRELEASE" using mid_release by (simp add: pending_def)
  obtain s' where s': "CommitTransactionCommand False s = Inr s'" "frames s' = p # q" "currentSubTransactionId s' = subTransactionId p"
    using CTC_release [OF fr mid_release(2) pend bp] by blast
  have "stack_ok (p # q)" using assms(2) fr stack_ok_append [of "a # as" "p # q"] by (simp add: numbered_def)
  then have "numbered s'" using s' by (auto simp: numbered_def dest: frames_cur)
  then show ?thesis using s' r mid_release between_in_block [of s'] by auto
qed

lemma ACT_query:
  assumes "in_query (frames s)" "numbered s"
  shows "\<exists>s'. AbortCurrentTransaction env False s = Inr s' \<and> between s' \<and> no_commit_since s s'"
proof (cases "parents s")
  case Nil
  then have f: "frames s = [cur s]" "blockState (cur s) \<in> {TBLOCK_STARTED, TBLOCK_INPROGRESS}"
    using assms(1) by (auto simp: frames_def)
  then show ?thesis using ACT_top [OF f assms(2)] by (metis no_commit_since_Cons no_commit_simps(1))
next
  case (Cons p r)
  then have f: "frames s = cur s # parents s" "parents s \<noteq> []" by (auto simp: frames_def)
  show ?thesis
    using assms(1)
  proof (cases rule: query_cases)
    case 1
    then show ?thesis using ACT_open_sub [OF f(1) _ f(2) assms(2)] by blast
  next
    case 2
    then show ?thesis using ACT_autocommit_subs [OF f(1) _ f(2) assms(2)] by (auto simp: between_def)
  qed
qed

lemma soft_tl: "soft (t # r) \<Longrightarrow> r \<noteq> [] \<Longrightarrow> soft r"
  by (cases r) auto

definition drop_subs :: "TBlockState set" where
  "drop_subs = {TBLOCK_SUBBEGIN, TBLOCK_SUBRELEASE, TBLOCK_SUBCOMMIT, TBLOCK_SUBABORT_PENDING, TBLOCK_SUBRESTART}"

lemma ACT_drop:
  assumes "frames s = as @ rest" "\<forall>t \<in> set as. blockState t \<in> drop_subs" "rest \<noteq> []" "as \<noteq> [] \<Longrightarrow> soft (tl as @ rest)" "numbered s"
    and rest: "\<And>s'. frames s' = rest \<Longrightarrow> numbered s' \<Longrightarrow>
      \<exists>s''. AbortCurrentTransaction env False s' = Inr s'' \<and> between s'' \<and> no_commit_since s' s''"
  shows "\<exists>s'. AbortCurrentTransaction env False s = Inr s' \<and> between s' \<and> no_commit_since s s'"
  using assms(1-5)
proof (induction as arbitrary: s)
  case Nil
  then show ?case using rest by simp
next
  case (Cons a as)
  have st: "cur s = a" "parents s = as @ rest" using Cons.prems by (auto dest: frames_cur)
  then have par: "parents s \<noteq> []" using assms(3) by simp
  obtain s1 where s1: "abort_out_sub s = Inr s1" "popped s s1" "xlog s1 = EvSubAbort (subTransactionId (cur s)) # xlog s"
    by (rule abort_out_sub_pop [OF par])
  have f: "frames s1 = as @ rest" "numbered s1"
    using popped_frames [OF s1(2)] popped_numbered [OF s1(2)] Cons.prems by (auto simp: numbered_def)
  have nc: "no_commit_since s s1" by (rule no_commit_since_Cons [OF s1(3)]) simp
  have soft: "soft (as @ rest)" using Cons.prems by simp
  have eq: "AbortCurrentTransaction env False s =
     (if handlesDestroyedInCancelQuery s1 then AbortOutOfAnyTransaction True s1 else AbortCurrentTransaction env False s1)"
    using s1(1) st Cons.prems(2) by (auto simp: AbortCurrentTransaction.simps [of env False s] drop_subs_def)
  have "as \<noteq> [] \<Longrightarrow> soft (tl as @ rest)" using soft assms(3) by (cases as) (auto dest: soft_tl)
  then have "\<exists>s'. AbortCurrentTransaction env False s1 = Inr s' \<and> between s' \<and> no_commit_since s1 s'"
    using Cons.IH [OF f(1)] Cons.prems assms(3) f(2) by auto
  moreover have "\<exists>s'. AbortOutOfAnyTransaction True s1 = Inr s' \<and> between s' \<and> no_commit_since s1 s'"
    using AbortOutOfAny_between [of s1] f soft by auto
  ultimately show ?case using eq no_commit_since_trans [OF nc] by (metis (full_types))
qed

lemma ACT_closing:
  assumes "frames s = [t]" "blockState t \<in> {TBLOCK_END, TBLOCK_ABORT_PENDING, TBLOCK_PREPARE}" "numbered s"
  shows "\<exists>s'. AbortCurrentTransaction env False s = Inr s' \<and> between s' \<and> no_commit_since s s'"
proof -
  have p: "parents s = []" "frame_at 1 (cur s)" "name (cur s) = None" "cur s = t" using numbered_single [OF assms(3,1)] by auto
  obtain s' where s': "abort_out_top s = Inr s'" "idle s'" "xlog s' = EvAbort # xlog s" by (rule abort_out_top_idle [OF p(1-3)])
  then show ?thesis using assms p by (auto simp: AbortCurrentTransaction.simps [of env False s] between_def no_commit_since_Cons)
qed

lemma ACT_popped:
  assumes "frames s = x # r" "blockState x \<in> {TBLOCK_SUBABORT_END, TBLOCK_SUBABORT_RESTART}" "r \<noteq> []" "numbered s"
    and rest: "\<And>s'. frames s' = r \<Longrightarrow> numbered s' \<Longrightarrow>
      \<exists>s''. AbortCurrentTransaction env False s' = Inr s'' \<and> between s'' \<and> no_commit_since s' s''"
  shows "\<exists>s'. AbortCurrentTransaction env False s = Inr s' \<and> between s' \<and> no_commit_since s s'"
proof -
  have st: "cur s = x" "parents s \<noteq> []" using assms(1,3) by (auto dest: frames_cur)
  obtain s1 where s1: "CleanupSubTransaction s = Inr s1" "popped s s1" "xlog s1 = xlog s" by (rule CleanupSub_pop [OF st(2)])
  have "frames s1 = r" "numbered s1"
    using popped_frames [OF s1(2) assms(1)] popped_numbered [OF s1(2)] assms(4) by (auto simp: numbered_def)
  moreover have "AbortCurrentTransaction env False s = AbortCurrentTransaction env False s1"
    using s1(1) st assms(2) by (auto simp: AbortCurrentTransaction.simps [of env False s])
  ultimately show ?thesis using rest no_commit_since_trans [OF no_commit_since_eq [OF s1(3)]] by metis
qed

lemma in_block_query: "in_block fs \<Longrightarrow> in_query fs"
  using live_mono live_top(1) by blast

lemma ACT_exit:
  assumes "frames s = as @ rest" "pending TBLOCK_SUBABORT_PENDING as" "exit_base rest" "numbered s"
  shows "\<exists>s'. AbortCurrentTransaction env False s = Inr s' \<and> between s' \<and> no_commit_since s s'"
  using assms(3) unfolding exit_base_def
proof (elim disjE exE conjE)
  fix t assume t: "rest = [t]" "blockState t = TBLOCK_ABORT_PENDING"
  have soft: "soft (tl as @ rest)"
    by (rule soft_append) (use assms t in \<open>cases as; auto simp: pending_def\<close>)+
  show ?thesis
    by (rule ACT_drop [OF assms(1) _ _ soft assms(4)]) (use assms t ACT_closing in \<open>auto simp: pending_def drop_subs_def\<close>)
next
  fix t r assume t: "rest = t # r" "blockState t = TBLOCK_SUBRESTART" "in_block r"
  have soft: "soft (tl (as @ [t]) @ r)"
    by (rule soft_append) (use assms t live_soft [OF t(3)] in \<open>cases as; auto simp: pending_def\<close>)+
  have f: "frames s = (as @ [t]) @ r" using assms t by simp
  show ?thesis
    by (rule ACT_drop [OF f _ _ soft assms(4)])
      (use assms t ACT_query in_block_query in \<open>auto simp: pending_def drop_subs_def\<close>)
qed

lemma ACT_mid:
  assumes "mid (frames s)" "numbered s"
  shows "\<exists>s'. AbortCurrentTransaction env False s = Inr s' \<and> between s' \<and> no_commit_since s s'"
  using assms(1)
proof cases
  case mid_open
  then show ?thesis using ACT_query assms(2) by blast
next
  case (mid_begin t)
  then have t: "cur s = t" "parents s = []" "frame_at 1 t" "name t = None" using numbered_single [OF assms(2)] by auto
  have "state (cur (AbortTransaction s)) = TRANS_ABORT" "parents (AbortTransaction s) = []" "frame_at 1 (cur (AbortTransaction s))"
    "name (cur (AbortTransaction s)) = None" "xlog (AbortTransaction s) = EvAbort # xlog s"
    using t by (simp_all add: xact_prims frame_at_def)
  then obtain s' where "rbind (CleanupTransaction (AbortTransaction s)) (\<lambda>s. Inr (set_block TBLOCK_DEFAULT s)) = Inr s'" "idle s'"
    "xlog s' = EvAbort # xlog s" using Cleanup_default_idle by metis
  then show ?thesis
    using t mid_begin by (auto simp: AbortCurrentTransaction.simps [of env False s] between_def no_commit_since_Cons)
next
  case (mid_abort_end t)
  then have t: "cur s = t" "parents s = []" "frame_at 1 (cur s)" "name (cur s) = None" using numbered_single [OF assms(2)] by auto
  obtain s' where "rbind (CleanupTransaction s) (\<lambda>s. Inr (set_block TBLOCK_DEFAULT s)) = Inr s'" "idle s'" "xlog s' = xlog s"
    by (rule Cleanup_default_idle [OF _ t(2-4)]) (use t mid_abort_end in auto)
  then show ?thesis
    using t mid_abort_end by (auto simp: AbortCurrentTransaction.simps [of env False s] between_def no_commit_since_eq)
next
  case (mid_commit as t)
  have soft: "soft (tl as @ [t])"
    by (rule soft_append) (use mid_commit in \<open>cases as; auto simp: pending_def\<close>)+
  show ?thesis
    by (rule ACT_drop [OF mid_commit(1) _ _ soft assms(2)]) (use mid_commit ACT_closing in \<open>auto simp: pending_def drop_subs_def\<close>)
next
  case (mid_exit as rest)
  then show ?thesis using ACT_exit assms(2) by blast
next
  case (mid_exit_failed x as rest)
  show ?thesis
    by (rule ACT_popped [OF mid_exit_failed(1) _ _ assms(2)]) (use mid_exit_failed ACT_exit exit_base_ne in auto)
next
  case (mid_restart_failed t r)
  show ?thesis
    by (rule ACT_popped [OF mid_restart_failed(1) _ _ assms(2)]) (use mid_restart_failed ACT_query in_block_query in auto)
next
  case (mid_subbegin t r)
  have f: "frames s = [t] @ r" using mid_subbegin by simp
  show ?thesis
    by (rule ACT_drop [OF f _ _ _ assms(2)]) (use mid_subbegin ACT_query in_block_query live_soft in \<open>auto simp: drop_subs_def\<close>)
next
  case (mid_release a as r)
  have f: "frames s = (a # as) @ r" using mid_release by simp
  have soft: "soft (tl (a # as) @ r)"
    by (rule soft_append) (use mid_release live_soft in \<open>auto simp: pending_def\<close>)
  show ?thesis
    by (rule ACT_drop [OF f _ _ soft assms(2)])
      (use mid_release ACT_query in_block_query in \<open>auto simp: pending_def drop_subs_def\<close>)
qed

end
