(* ===== verification/OG_Session.thy ===== *)
theory OG_Session
  imports OG_XactStack
begin

text \<open>
  A session as the main loop drives it: what each transaction statement marks on the stack, the step relation of a session
  (commands of the client; inside a query the internal subtransactions of procedural languages, undo records, cancelled
  handles; errors at any of these points), its invariant, and the properties of the transaction block.
\<close>

section \<open>Statements\<close>

abbreviation with_block :: "TBlockState \<Rightarrow> TransactionStateData \<Rightarrow> TransactionStateData" where
  "with_block b t \<equiv> t\<lparr>blockState := b\<rparr>"

text \<open>Frames that differ in nothing that the numbering looks at.\<close>

definition alike :: "TransactionStateData \<Rightarrow> TransactionStateData \<Rightarrow> bool" where
  "alike t t' \<longleftrightarrow> nestingLevel t' = nestingLevel t \<and> subTransactionId t' = subTransactionId t \<and> name t' = name t \<and>
     length (first_urp t') = length (first_urp t) \<and> length (latest_urp t') = length (latest_urp t) \<and>
     length (latest_urp_xact t') = length (latest_urp_xact t)"

lemma alike_refl [simp]: "alike t t" "alike t (with_block b t)"
  by (simp_all add: alike_def)

lemma alike_list_refl [simp]: "list_all2 alike fs fs" "list_all2 alike fs (map (with_block b) fs)"
  by (simp_all add: list_all2_conv_all_nth)

lemma stack_ok_alike: "list_all2 alike fs fs' \<Longrightarrow> stack_ok fs \<Longrightarrow> stack_ok fs'"
proof (induction fs arbitrary: fs' rule: stack_ok.induct)
  case (3 t p r)
  then obtain t' p' r' where "fs' = t' # p' # r'" "alike t t'" "alike p p'" "list_all2 alike r r'"
    by (auto simp: list_all2_Cons1)
  moreover from this have "length r' = length r" by (simp add: list_all2_lengthD)
  ultimately show ?case using "3.IH" [of "p' # r'"] "3.prems" by (auto simp: alike_def frame_at_def)
qed (auto simp: list_all2_Cons1 alike_def frame_at_def)

lemma set_frames_simps [simp]:
  "fs \<noteq> [] \<Longrightarrow> frames (set_frames s fs) = fs" "xlog (set_frames s fs) = xlog s"
  "currentSubTransactionId (set_frames s fs) = currentSubTransactionId s" "same_counters s (set_frames s fs)"
  by (auto simp: set_frames_def frames_def same_counters_def split: list.splits)

lemma numbered_set_frames: "numbered s \<Longrightarrow> list_all2 alike (frames s) fs \<Longrightarrow> numbered (set_frames s fs)"
proof -
  assume num: "numbered s" and al: "list_all2 alike (frames s) fs"
  then obtain t r where fs: "fs = t # r" "alike (cur s) t" by (auto simp: frames_def list_all2_Cons1)
  then show ?thesis
    using num stack_ok_alike [OF al] by (auto simp: numbered_def set_frames_def frames_def alike_def)
qed

lemma numbered_set_block: "numbered s \<Longrightarrow> numbered (set_block b s)" "frames (set_block b s) = with_block b (cur s) # parents s"
proof -
  have 1: "frames (set_block b s) = with_block b (cur s) # parents s" by (simp add: frames_def)
  then show "frames (set_block b s) = with_block b (cur s) # parents s" .
  have al: "list_all2 alike (frames s) (frames (set_block b s))" unfolding 1 by (simp add: frames_def)
  show "numbered s \<Longrightarrow> numbered (set_block b s)"
    using stack_ok_alike [OF al] by (auto simp: numbered_def xact_prims)
qed

lemma mark_commit_live:
  "in_block fs \<Longrightarrow> mark_commit fs = Inr (map (with_block TBLOCK_SUBCOMMIT) (butlast fs) @ [with_block TBLOCK_END (last fs)])"
  by (induction fs rule: mark_commit.induct) auto

lemma mark_abort_live:
  "in_block fs \<Longrightarrow>
   mark_abort fs = Inr (map (with_block TBLOCK_SUBABORT_PENDING) (butlast fs) @ [with_block TBLOCK_ABORT_PENDING (last fs)])"
  by (induction fs rule: mark_abort.induct) auto

lemma mark_abort_failed:
  assumes "failed_sub (x # r)"
  shows "mark_abort (x # r) = Inr (with_block TBLOCK_SUBABORT_END x #
     map (with_block TBLOCK_SUBABORT_PENDING) (butlast r) @ [with_block TBLOCK_ABORT_PENDING (last r)])"
proof -
  obtain p q where "r = p # q" "in_block r" "blockState x = TBLOCK_SUBABORT" using assms by (cases r) (auto simp: failed_sub_def)
  then show ?thesis using mark_abort_live [of r] by auto
qed

lemma alike_marks:
  "fs \<noteq> [] \<Longrightarrow> list_all2 alike fs (map (with_block b) (butlast fs) @ [with_block b' (last fs)])"
  "x # fs \<noteq> [] \<Longrightarrow> fs \<noteq> [] \<Longrightarrow> list_all2 alike (x # fs) (with_block c x # map (with_block b) (butlast fs) @ [with_block b' (last fs)])"
proof -
  have 1: "list_all2 alike fs (map (with_block b) (butlast fs) @ [with_block b' (last fs)])" if "fs \<noteq> []" for fs
    using that by (induction fs) auto
  show "fs \<noteq> [] \<Longrightarrow> list_all2 alike fs (map (with_block b) (butlast fs) @ [with_block b' (last fs)])" by (rule 1)
  show "x # fs \<noteq> [] \<Longrightarrow> fs \<noteq> [] \<Longrightarrow> list_all2 alike (x # fs) (with_block c x # map (with_block b) (butlast fs) @ [with_block b' (last fs)])"
    using 1 [of fs] by simp
qed

lemma pending_map [simp]: "pending b (map (with_block b) fs)"
  by (simp add: pending_def)

lemma live_drop: "live B fs \<Longrightarrow> i < length fs \<Longrightarrow> live B (drop i fs)"
proof (induction B fs arbitrary: i rule: live.induct)
  case (3 B t p r)
  then show ?case by (cases i) auto
qed auto

lemma live_nth: "live B fs \<Longrightarrow> Suc i < length fs \<Longrightarrow> blockState (fs ! i) = TBLOCK_SUBINPROGRESS"
  using live_top(2) [of B fs] by (metis in_set_conv_nth length_butlast less_diff_conv nth_butlast Suc_eq_plus1)

lemma mark_rollback_live:
  "in_block fs \<Longrightarrow> Suc i < length fs \<Longrightarrow> mark_rollback i fs =
   Inr (map (with_block TBLOCK_SUBABORT_PENDING) (take i fs) @ with_block TBLOCK_SUBRESTART (fs ! i) # drop (Suc i) fs)"
proof (induction i fs rule: mark_rollback.induct)
  case (2 t r)
  then show ?case by (cases r) auto
next
  case (3 n t r)
  then show ?case by (cases r) auto
qed simp

lemma mark_rollback_failed:
  assumes "failed_sub (x # r)" "i < length r"
  shows "mark_rollback i (x # r) = Inr (case i of 0 \<Rightarrow> with_block TBLOCK_SUBABORT_RESTART x # r
    | Suc j \<Rightarrow> with_block TBLOCK_SUBABORT_END x #
        map (with_block TBLOCK_SUBABORT_PENDING) (take j r) @ with_block TBLOCK_SUBRESTART (r ! j) # drop (Suc j) r)"
proof -
  have "in_block r" "blockState x = TBLOCK_SUBABORT" using assms by (auto simp: failed_sub_def)
  then show ?thesis using mark_rollback_live [of r] assms(2) by (cases i) auto
qed

lemma find_name_Some: "find_name nm fs = Some i \<Longrightarrow> i < length fs \<and> name (fs ! i) = nm \<and> (\<forall>j < i. name (fs ! j) \<noteq> nm)"
proof (induction fs arbitrary: i)
  case (Cons t r)
  then show ?case by (cases i) (auto split: if_splits simp: less_Suc_eq_0_disj nth_Cons split: nat.splits)
qed simp

lemma stack_ok_last: "stack_ok fs \<Longrightarrow> name (last fs) = None"
  by (induction fs rule: stack_ok.induct) auto

lemma find_name_not_top: "stack_ok fs \<Longrightarrow> find_name (Some nm) fs = Some i \<Longrightarrow> Suc i < length fs"
proof -
  assume ok: "stack_ok fs" and f: "find_name (Some nm) fs = Some i"
  then have "i < length fs" "name (fs ! i) = Some nm" using find_name_Some [OF f] by auto
  moreover from this have "i \<noteq> length fs - 1" using stack_ok_last [OF ok] by (metis last_conv_nth list.size(3) not_less0 option.distinct(1))
  ultimately show ?thesis by linarith
qed

lemma FindTarget_ok:
  assumes "numbered s" "FindTargetSavepoint (Some nm) s = Inr i"
  shows "Suc i < length (frames s)" "name (frames s ! i) = Some nm" "savepointLevel (frames s ! i) = savepointLevel (cur s)"
  using assms find_name_not_top [of "frames s" nm i] find_name_Some [of "Some nm" "frames s" i]
  by (auto simp: FindTargetSavepoint_def numbered_def split: option.splits if_splits)

lemma FindTarget_error: "FindTargetSavepoint nm s = Inl e \<Longrightarrow> \<exists>c. e = Ereport ERROR c"
  by (auto simp: FindTargetSavepoint_def split: option.splits if_splits)

definition opened :: "session \<Rightarrow> bool" where
  "opened s \<longleftrightarrow> numbered s \<and> (in_block (frames s) \<or> failed (frames s) \<or>
     (\<exists>t. frames s = [t] \<and> blockState t = TBLOCK_STARTED \<and> state t = TRANS_INPROGRESS))"

lemma Start_idle:
  assumes "idle s"
  shows "\<exists>s1 t. StartTransactionCommand b s = Inr s1 \<and> frames s1 = [t] \<and> blockState t = TBLOCK_STARTED \<and>
    state t = TRANS_INPROGRESS \<and> numbered s1 \<and> xlog s1 = EvStart # xlog s \<and>
    portal_stp_exception_counter s1 = portal_stp_exception_counter s"
  using assms
  by (auto simp: StartTransactionCommand_def StartTransaction_def idle_def numbered_def frames_def frame_at_def xact_prims)

lemma Start_failed: "failed (frames s) \<Longrightarrow> StartTransactionCommand False s = Inr s \<and> IsAbortedTransactionBlockState s"
  by (auto simp: failed_def failed_top_def failed_sub_def StartTransactionCommand_def IsAbortedTransactionBlockState_def
      dest!: frames_cur)

lemma Start_block:
  assumes "in_block (frames s)"
  shows "StartTransactionCommand b s = Inr s" "\<not> IsAbortedTransactionBlockState s"
  using in_block_cur [OF assms] by (auto simp: StartTransactionCommand_def IsAbortedTransactionBlockState_def)

lemma Start_between:
  assumes "between s"
  obtains s1 where "StartTransactionCommand False s = Inr s1" "opened s1" "failed (frames s1) \<longleftrightarrow> IsAbortedTransactionBlockState s"
    "no_commit_since s s1"
  using assms unfolding between_def
proof (elim disjE conjE)
  assume i: "idle s"
  then obtain s1 t where s1: "StartTransactionCommand False s = Inr s1" "frames s1 = [t]" "blockState t = TBLOCK_STARTED"
    "state t = TRANS_INPROGRESS" "numbered s1" "xlog s1 = EvStart # xlog s" using Start_idle by blast
  have "\<not> failed (frames s1)" using s1 by (auto simp: failed_def failed_top_def failed_sub_def)
  moreover have "\<not> IsAbortedTransactionBlockState s" using i by (simp add: idle_def IsAbortedTransactionBlockState_def)
  ultimately show thesis using that [OF s1(1)] s1 no_commit_since_Cons [OF s1(6)] by (simp add: opened_def)
next
  assume b: "numbered s" "in_block (frames s)"
  then have "\<not> failed (frames s)"
    using Start_failed Start_block(2) by blast
  then show thesis using that [of s] b Start_block by (simp add: opened_def)
next
  assume f: "numbered s" "failed (frames s)"
  then show thesis using that [of s] Start_failed [of s] by (simp add: opened_def)
qed

text \<open>COMMIT, PREPARE and ROLLBACK: what they mark.\<close>

definition marked_commit :: "TBlockState \<Rightarrow> TransactionStateData list \<Rightarrow> TransactionStateData list" where
  "marked_commit b fs = map (with_block TBLOCK_SUBCOMMIT) (butlast fs) @ [with_block b (last fs)]"

definition marked_abort :: "TransactionStateData list \<Rightarrow> TransactionStateData list" where
  "marked_abort fs = map (with_block TBLOCK_SUBABORT_PENDING) (butlast fs) @ [with_block TBLOCK_ABORT_PENDING (last fs)]"

lemma marked_ne [simp]: "marked_commit b fs \<noteq> []" "marked_abort fs \<noteq> []"
  by (simp_all add: marked_commit_def marked_abort_def)

lemma set_frames_single: "parents s = [] \<Longrightarrow> set_block b s = set_frames s [with_block b (cur s)]"
  by (simp add: set_frames_def xact_prims)

lemma End_in_block:
  assumes "in_block (frames s)"
  shows "EndTransactionBlock s = Inr (True, set_frames s (marked_commit TBLOCK_END (frames s)))"
    "UserAbortTransactionBlock s = Inr (set_frames s (marked_abort (frames s)))"
proof -
  have "EndTransactionBlock s = Inr (True, set_frames s (marked_commit TBLOCK_END (frames s))) \<and>
    UserAbortTransactionBlock s = Inr (set_frames s (marked_abort (frames s)))"
  proof (cases "parents s")
    case Nil
    then show ?thesis
      using assms by (simp add: EndTransactionBlock_def UserAbortTransactionBlock_def frames_def marked_commit_def marked_abort_def
        set_frames_single)
  next
    case (Cons p r)
    then have "blockState (cur s) = TBLOCK_SUBINPROGRESS" using assms by (simp add: frames_def)
    then show ?thesis
      using mark_commit_live [OF assms] mark_abort_live [OF assms]
      by (simp add: EndTransactionBlock_def UserAbortTransactionBlock_def marked_commit_def marked_abort_def)
  qed
  then show "EndTransactionBlock s = Inr (True, set_frames s (marked_commit TBLOCK_END (frames s)))"
    "UserAbortTransactionBlock s = Inr (set_frames s (marked_abort (frames s)))" by auto
qed

lemma Prepare_in_block:
  assumes "in_block (frames s)"
  shows "PrepareTransactionBlock s = Inr (True, set_frames s (marked_commit TBLOCK_PREPARE (frames s)))"
proof -
  have "set_frames (set_frames s (marked_commit TBLOCK_END (frames s))) (marked_commit TBLOCK_PREPARE (frames s)) =
    set_frames s (marked_commit TBLOCK_PREPARE (frames s))"
    by (auto simp: set_frames_def split: list.splits)
  then show ?thesis
    by (simp add: PrepareTransactionBlock_def End_in_block [OF assms] marked_commit_def butlast_append)
qed

lemma End_failed_sub:
  assumes "failed_sub (frames s)"
  shows "EndTransactionBlock s = Inr (False, set_frames s (with_block TBLOCK_SUBABORT_END (cur s) # marked_abort (parents s)))"
    "UserAbortTransactionBlock s = Inr (set_frames s (with_block TBLOCK_SUBABORT_END (cur s) # marked_abort (parents s)))"
  using assms mark_abort_failed [of "cur s" "parents s"]
  by (auto simp: failed_sub_def EndTransactionBlock_def UserAbortTransactionBlock_def SubTransactionBlockAbort_def frames_def
      marked_abort_def)

lemma End_failed_top:
  assumes "frames s = [t]" "failed_top t"
  shows "EndTransactionBlock s = Inr (False, set_block TBLOCK_ABORT_END s)"
    "UserAbortTransactionBlock s = Inr (set_block TBLOCK_ABORT_END s)"
  using assms by (auto simp: failed_top_def EndTransactionBlock_def UserAbortTransactionBlock_def dest!: frames_cur)

lemma Prepare_failed:
  "EndTransactionBlock s = Inr (False, s') \<Longrightarrow> PrepareTransactionBlock s = Inr (False, s')"
  by (simp add: PrepareTransactionBlock_def)

lemma marked_mid:
  assumes "numbered s" "in_block (frames s)"
  shows "b \<in> {TBLOCK_END, TBLOCK_PREPARE} \<Longrightarrow> mid (frames (set_frames s (marked_commit b (frames s))))"
    "mid (frames (set_frames s (marked_abort (frames s))))"
    "numbered (set_frames s (marked_commit b (frames s)))" "numbered (set_frames s (marked_abort (frames s)))"
proof -
  show "mid (frames (set_frames s (marked_commit b (frames s))))" if "b \<in> {TBLOCK_END, TBLOCK_PREPARE}"
    using that mid_commit [of "map (with_block TBLOCK_SUBCOMMIT) (butlast (frames s))" "with_block b (last (frames s))"]
    by (simp add: marked_commit_def)
  show "mid (frames (set_frames s (marked_abort (frames s))))"
    using mid_exit [of "map (with_block TBLOCK_SUBABORT_PENDING) (butlast (frames s))" "[with_block TBLOCK_ABORT_PENDING (last (frames s))]"]
    by (simp add: marked_abort_def exit_base_def)
  show "numbered (set_frames s (marked_commit b (frames s)))" "numbered (set_frames s (marked_abort (frames s)))"
    using numbered_set_frames [OF assms(1)] alike_marks(1) [of "frames s"] by (simp_all add: marked_commit_def marked_abort_def)
qed

lemma failed_mid:
  assumes "numbered s" "failed_sub (frames s)"
  defines "fs \<equiv> with_block TBLOCK_SUBABORT_END (cur s) # marked_abort (parents s)"
  shows "mid (frames (set_frames s fs))" "numbered (set_frames s fs)"
proof -
  have "mid (with_block TBLOCK_SUBABORT_END (cur s) #
      map (with_block TBLOCK_SUBABORT_PENDING) (butlast (parents s)) @ [with_block TBLOCK_ABORT_PENDING (last (parents s))])"
    by (rule mid_exit_failed) (simp_all add: exit_base_def)
  then show "mid (frames (set_frames s fs))" by (simp add: fs_def marked_abort_def)
  have "parents s \<noteq> []" using assms(2) by (auto simp: failed_sub_def frames_def)
  then show "numbered (set_frames s fs)"
    using numbered_set_frames [OF assms(1)] alike_marks(2) [of "cur s" "parents s"] by (simp add: fs_def marked_abort_def frames_def)
qed

lemma failed_top_mid:
  assumes "frames s = [t]" "failed_top t" "numbered s"
  shows "mid (frames (set_block TBLOCK_ABORT_END s))" "numbered (set_block TBLOCK_ABORT_END s)"
  using assms numbered_set_block(1) [OF assms(3), of TBLOCK_ABORT_END] numbered_set_block(2) [of TBLOCK_ABORT_END s] mid_abort_end [of "with_block TBLOCK_ABORT_END t"]
  by (auto simp: failed_top_def dest!: frames_cur)

text \<open>RELEASE and ROLLBACK TO: what they mark.\<close>

definition gathered :: "TransactionStateData list \<Rightarrow> uint64 list \<times> uint64 list" where
  "gathered going = fold (\<lambda>t acc. gather_urp acc t) (tl going) (latest_urp (hd going), first_urp (hd going))"

definition marked_release :: "nat \<Rightarrow> TransactionStateData list \<Rightarrow> TransactionStateData list" where
  "marked_release i fs = map (with_block TBLOCK_SUBRELEASE) (take (Suc i) fs) @
     give_urp (gathered (take (Suc i) fs)) (fs ! Suc i) # drop (Suc (Suc i)) fs"

definition marked_restart :: "nat \<Rightarrow> TransactionStateData list \<Rightarrow> TransactionStateData list" where
  "marked_restart i fs = map (with_block TBLOCK_SUBABORT_PENDING) (take i fs) @ with_block TBLOCK_SUBRESTART (fs ! i) # drop (Suc i) fs"

lemma give_urp_simps [simp]:
  "blockState (give_urp acc p) = blockState p" "state (give_urp acc p) = state p" "name (give_urp acc p) = name p"
  "subTransactionId (give_urp acc p) = subTransactionId p" "nestingLevel (give_urp acc p) = nestingLevel p"
  "savepointLevel (give_urp acc p) = savepointLevel p"
  by (simp_all add: give_urp_def)

definition urp_pair :: "uint64 list \<times> uint64 list \<Rightarrow> bool" where
  "urp_pair acc \<longleftrightarrow> length (fst acc) = UNDO_PERSISTENCE_LEVELS \<and> length (snd acc) = UNDO_PERSISTENCE_LEVELS"

lemma urp_pair_gather: "urp_pair acc \<Longrightarrow> frame_at m t \<Longrightarrow> urp_pair (gather_urp acc t)"
  by (simp add: urp_pair_def gather_urp_def frame_at_def)

lemma urp_pair_fold: "urp_pair acc \<Longrightarrow> \<forall>t \<in> set ts. \<exists>m. frame_at m t \<Longrightarrow> urp_pair (fold (\<lambda>t acc. gather_urp acc t) ts acc)"
proof (induction ts arbitrary: acc)
  case (Cons t ts)
  then obtain m where "frame_at m t" by auto
  then show ?case using Cons urp_pair_gather [of acc m t] by simp
qed simp

lemma urp_pair_gathered:
  assumes "going \<noteq> []" "\<forall>t \<in> set going. \<exists>m. frame_at m t"
  shows "urp_pair (gathered going)"
proof -
  obtain t r where g: "going = t # r" using assms(1) by (cases going) auto
  then have "urp_pair (latest_urp t, first_urp t)" using assms(2) by (auto simp: urp_pair_def frame_at_def)
  then show ?thesis using assms(2) by (simp add: gathered_def g urp_pair_fold)
qed

lemma alike_give: "urp_pair acc \<Longrightarrow> frame_at m p \<Longrightarrow> alike p (give_urp acc p)"
  by (simp add: alike_def urp_pair_def give_urp_def frame_at_def)

lemma split_at: "Suc i < length fs \<Longrightarrow> fs = take (Suc i) fs @ fs ! Suc i # drop (Suc (Suc i)) fs"
  by (metis Cons_nth_drop_Suc append_take_drop_id)

lemma split_here: "i < length fs \<Longrightarrow> fs = take i fs @ fs ! i # drop (Suc i) fs"
  by (metis Cons_nth_drop_Suc append_take_drop_id)

lemma alike_release:
  assumes "stack_ok fs" "Suc i < length fs"
  shows "list_all2 alike fs (marked_release i fs)"
proof -
  have fr: "\<exists>m. frame_at m t" if "t \<in> set fs" for t using stack_ok_frame_at assms(1) that by blast
  have p: "\<exists>m. frame_at m (fs ! Suc i)" using fr assms(2) by simp
  have "urp_pair (gathered (take (Suc i) fs))"
    by (rule urp_pair_gathered) (use assms(2) fr in \<open>auto dest: in_set_takeD\<close>)
  then have "alike (fs ! Suc i) (give_urp (gathered (take (Suc i) fs)) (fs ! Suc i))" using p alike_give by blast
  then have "list_all2 alike (take (Suc i) fs @ fs ! Suc i # drop (Suc (Suc i)) fs) (marked_release i fs)"
    unfolding marked_release_def by (intro list_all2_appendI) auto
  then show ?thesis by (metis split_at [OF assms(2)])
qed

lemma alike_restart: "i < length fs \<Longrightarrow> list_all2 alike fs (marked_restart i fs)"
proof -
  assume i: "i < length fs"
  have "list_all2 alike (take i fs @ fs ! i # drop (Suc i) fs) (marked_restart i fs)"
    unfolding marked_restart_def by (intro list_all2_appendI) auto
  then show ?thesis by (metis split_here [OF i])
qed

lemma Release_in_block:
  assumes "in_block (frames s)" "numbered s" "FindTargetSavepoint (Some nm) s = Inr i"
  shows "ReleaseSavepoint (Some nm) False s = Inr (set_frames s (marked_release i (frames s)))"
    "mid (marked_release i (frames s))" "numbered (set_frames s (marked_release i (frames s)))"
    "in_block (give_urp (gathered (take (Suc i) (frames s))) (frames s ! Suc i) # drop (Suc (Suc i)) (frames s))"
proof -
  have i: "Suc i < length (frames s)" using FindTarget_ok [OF assms(2,3)] by blast
  then obtain p r where pr: "parents s = p # r" by (cases "parents s") (auto simp: frames_def)
  then have b: "blockState (cur s) = TBLOCK_SUBINPROGRESS" using assms(1) by (simp add: frames_def)
  have g: "gathered (take (Suc i) (frames s)) =
     fold (\<lambda>t acc. gather_urp acc t) (tl (take (Suc i) (frames s))) (latest_urp (cur s), first_urp (cur s))"
    by (simp add: gathered_def frames_def)
  have d: "drop (Suc i) (frames s) = frames s ! Suc i # drop (Suc (Suc i)) (frames s)" using i by (simp add: Cons_nth_drop_Suc)
  show "ReleaseSavepoint (Some nm) False s = Inr (set_frames s (marked_release i (frames s)))"
    using b assms(3) by (simp add: ReleaseSavepoint_def CheckReleaseSavepointBlockState_def d marked_release_def g Let_def)
  have "in_block (frames s ! Suc i # drop (Suc (Suc i)) (frames s))" using live_drop [OF assms(1), of "Suc i"] i d by simp
  then show ib: "in_block (give_urp (gathered (take (Suc i) (frames s))) (frames s ! Suc i) # drop (Suc (Suc i)) (frames s))"
    by (cases "drop (Suc (Suc i)) (frames s)") auto
  have "mid (with_block TBLOCK_SUBRELEASE (cur s) # map (with_block TBLOCK_SUBRELEASE) (take i (parents s)) @
     give_urp (gathered (take (Suc i) (frames s))) (frames s ! Suc i) # drop (Suc (Suc i)) (frames s))"
    by (rule mid_release) (use ib in auto)
  then show "mid (marked_release i (frames s))" by (simp add: marked_release_def frames_def)
  show "numbered (set_frames s (marked_release i (frames s)))"
    using numbered_set_frames [OF assms(2)] alike_release [of "frames s" i] assms(2) i by (simp add: numbered_def)
qed

lemma RollbackTo_in_block:
  assumes "in_block (frames s)" "numbered s" "FindTargetSavepoint (Some nm) s = Inr i"
  shows "RollbackToSavepoint (Some nm) False s = Inr (set_frames s (marked_restart i (frames s)))"
    "mid (marked_restart i (frames s))" "numbered (set_frames s (marked_restart i (frames s)))"
    "in_block (drop (Suc i) (frames s))"
proof -
  have i: "Suc i < length (frames s)" using FindTarget_ok [OF assms(2,3)] by blast
  then obtain p r where pr: "parents s = p # r" by (cases "parents s") (auto simp: frames_def)
  then have b: "blockState (cur s) = TBLOCK_SUBINPROGRESS" using assms(1) by (simp add: frames_def)
  show "RollbackToSavepoint (Some nm) False s = Inr (set_frames s (marked_restart i (frames s)))"
    using b assms(3) mark_rollback_live [OF assms(1) i]
    by (simp add: RollbackToSavepoint_def CheckRollbackSavepointBlockState_def marked_restart_def Let_def)
  show ib: "in_block (drop (Suc i) (frames s))" using live_drop [OF assms(1)] i by simp
  show "mid (marked_restart i (frames s))"
    unfolding marked_restart_def by (rule mid_exit) (use ib in \<open>auto simp: exit_base_def\<close>)
  show "numbered (set_frames s (marked_restart i (frames s)))"
    using numbered_set_frames [OF assms(2)] alike_restart [of i "frames s"] i by simp
qed

definition marked_failed :: "nat \<Rightarrow> TransactionStateData list \<Rightarrow> TransactionStateData list" where
  "marked_failed i fs = (case i of 0 \<Rightarrow> with_block TBLOCK_SUBABORT_RESTART (hd fs) # tl fs
     | Suc j \<Rightarrow> with_block TBLOCK_SUBABORT_END (hd fs) # marked_restart j (tl fs))"

lemma RollbackTo_failed:
  assumes "failed_sub (frames s)" "numbered s" "FindTargetSavepoint (Some nm) s = Inr i"
  shows "RollbackToSavepoint (Some nm) False s = Inr (set_frames s (marked_failed i (frames s)))"
    "mid (marked_failed i (frames s))" "numbered (set_frames s (marked_failed i (frames s)))"
    "in_block (drop (Suc i) (frames s))"
proof -
  have f: "frames s = cur s # parents s" by (simp add: frames_def)
  have i: "i < length (parents s)" using FindTarget_ok [OF assms(2,3)] f by simp
  have b: "blockState (cur s) = TBLOCK_SUBABORT" "in_block (parents s)" using assms(1) by (auto simp: failed_sub_def f)
  have mr: "mark_rollback i (frames s) = Inr (marked_failed i (frames s))"
    using mark_rollback_failed [of "cur s" "parents s" i] assms(1) i
    by (cases i) (simp_all add: f marked_failed_def marked_restart_def)
  then show "RollbackToSavepoint (Some nm) False s = Inr (set_frames s (marked_failed i (frames s)))"
    using b assms(3) by (simp add: RollbackToSavepoint_def CheckRollbackSavepointBlockState_def Let_def)
  show ib: "in_block (drop (Suc i) (frames s))" using live_drop [OF b(2) i] f by simp
  show "mid (marked_failed i (frames s))"
  proof (cases i)
    case 0
    then show ?thesis using b by (auto simp: marked_failed_def f intro: mid_restart_failed)
  next
    case (Suc j)
    have "exit_base (with_block TBLOCK_SUBRESTART (parents s ! j) # drop (Suc j) (parents s))"
      using ib Suc f by (auto simp: exit_base_def)
    then show ?thesis using mid_exit_failed [of "with_block TBLOCK_SUBABORT_END (cur s)"] Suc
      by (simp add: marked_failed_def f marked_restart_def)
  qed
  have "list_all2 alike (frames s) (marked_failed i (frames s))"
    using alike_restart [of _ "parents s"] i by (cases i) (auto simp: marked_failed_def f)
  then show "numbered (set_frames s (marked_failed i (frames s)))" using numbered_set_frames [OF assms(2)] by blast
qed

lemma marked_ne2 [simp]: "marked_release i fs \<noteq> []" "marked_restart i fs \<noteq> []" "marked_failed i fs \<noteq> []"
  by (auto simp: marked_release_def marked_restart_def marked_failed_def split: nat.splits)

lemma RollbackTo_failed_top: "frames s = [t] \<Longrightarrow> failed_top t \<Longrightarrow>
  RollbackToSavepoint nm False s = Inl (Ereport ERROR ERRCODE_S_E_INVALID_SPECIFICATION)"
  by (auto simp: failed_top_def RollbackToSavepoint_def CheckRollbackSavepointBlockState_def dest!: frames_cur)

text \<open>Every statement leaves a stack that the end of the command can finish, or raises ERROR.\<close>

definition processed :: "session result \<Rightarrow> bool" where
  "processed r = (case r of Inl e \<Rightarrow> \<exists>c. e = Ereport ERROR c | Inr s \<Rightarrow> mid (frames s) \<and> numbered s)"

lemma processed_simps [simp]: "processed (Inr s) \<longleftrightarrow> mid (frames s) \<and> numbered s" "processed (Inl (Ereport ERROR c))"
  by (simp_all add: processed_def)

lemma Require_block:
  assumes "in_block (frames s)" "numbered s"
  shows "RequireTransactionChain True s = Inr ()"
proof (cases "parents s")
  case Nil
  then show ?thesis using in_block_cur [OF assms(1)] assms by (simp add: RequireTransactionChain_def IsTransactionBlock_def frames_def)
next
  case (Cons p r)
  then have "IsSubTransaction s" using numbered_cur [OF assms(2)] by (simp add: IsSubTransaction_def frame_at_def)
  then show ?thesis by (simp add: RequireTransactionChain_def)
qed

lemma DefineSavepoint_processed:
  assumes "in_block (frames s)" "numbered s"
  shows "processed (DefineSavepoint nm s)"
proof (cases "(of_nat (Suc (length (frames s))) :: uint64) = 0")
  case True
  have "currentSubTransactionId s + 1 = of_nat (Suc (length (frames s)))"
    using numbered_cur [OF assms(2)] assms(2) by (simp add: frame_at_def numbered_def frames_def)
  then have "PushTransaction s = Inl (Ereport ERROR ERRCODE_PROGRAM_LIMIT_EXCEEDED)"
    using True unfolding PushTransaction_def Let_def by metis
  then show ?thesis using in_block_cur [OF assms(1)] by (simp add: DefineSavepoint_def)
next
  case False
  then obtain s' where s': "DefineSavepoint nm s = Inr s'" "pushed nm s s'" using DefineSavepoint_pushed [OF assms] by blast
  then show ?thesis using assms(1) by (auto simp: pushed_def intro: mid_subbegin)
qed

lemma Process_in_block:
  assumes "in_block (frames s)" "numbered s"
  shows "processed (ProcessTransactionStmt env c s)"
proof (cases c)
  case TRANS_STMT_BEGIN
  have "mid (frames s)" by (rule mid_open) (rule in_block_query [OF assms(1)])
  then show ?thesis using TRANS_STMT_BEGIN assms in_block_cur [OF assms(1)]
    by (auto simp: ProcessTransactionStmt_def BeginTransactionBlock_def)
next
  case (TRANS_STMT_RELEASE nm)
  have b: "blockState (cur s) \<in> {TBLOCK_INPROGRESS, TBLOCK_SUBINPROGRESS}" by (rule in_block_cur [OF assms(1)])
  show ?thesis
  proof (cases "FindTargetSavepoint (Some nm) s")
    case (Inl e)
    then show ?thesis using b TRANS_STMT_RELEASE FindTarget_error [OF Inl] Require_block [OF assms]
      by (auto simp: ProcessTransactionStmt_def ReleaseSavepoint_def CheckReleaseSavepointBlockState_def)
  next
    case (Inr i)
    then show ?thesis using Release_in_block [OF assms Inr] TRANS_STMT_RELEASE Require_block [OF assms]
      by (simp add: ProcessTransactionStmt_def)
  qed
next
  case (TRANS_STMT_ROLLBACK_TO nm)
  have b: "blockState (cur s) \<in> {TBLOCK_INPROGRESS, TBLOCK_SUBINPROGRESS}" by (rule in_block_cur [OF assms(1)])
  show ?thesis
  proof (cases "FindTargetSavepoint (Some nm) s")
    case (Inl e)
    then show ?thesis using b TRANS_STMT_ROLLBACK_TO FindTarget_error [OF Inl] Require_block [OF assms]
      by (auto simp: ProcessTransactionStmt_def RollbackToSavepoint_def CheckRollbackSavepointBlockState_def)
  next
    case (Inr i)
    then show ?thesis using RollbackTo_in_block [OF assms Inr] TRANS_STMT_ROLLBACK_TO Require_block [OF assms]
      by (simp add: ProcessTransactionStmt_def)
  qed
qed (use assms in_block_cur [OF assms(1)] in \<open>auto simp: ProcessTransactionStmt_def End_in_block Prepare_in_block marked_mid BeginTransactionBlock_def
    Require_block DefineSavepoint_processed in_block_query intro: mid_open simp del: set_frames_simps(1)\<close>)

lemma Process_started:
  assumes "frames s = [t]" "blockState t = TBLOCK_STARTED" "state t = TRANS_INPROGRESS" "numbered s"
  shows "processed (ProcessTransactionStmt env c s)"
proof -
  have t: "cur s = t" "parents s = []" "nestingLevel t = 1"
    using numbered_single [OF assms(4,1)] by (auto simp: frame_at_def)
  have m: "mid (frames s)" using assms by (intro mid_open) simp
  have n: "numbered (set_block b s)" "frames (set_block b s) = [with_block b t]" for b
    using numbered_set_block assms t by auto
  have "mid [with_block TBLOCK_BEGIN t]" by (rule mid_begin) (use assms in auto)
  moreover have "mid [with_block TBLOCK_ABORT_PENDING t]"
    using mid_exit [of "[]" "[with_block TBLOCK_ABORT_PENDING t]"] by (simp add: exit_base_def)
  moreover have "blockState (last (frames s)) \<noteq> TBLOCK_END" using assms by simp
  moreover have "RequireTransactionChain True s = Inl (Ereport ERROR ERRCODE_NO_ACTIVE_SQL_TRANSACTION)"
    using t assms(2) by (simp add: RequireTransactionChain_def IsTransactionBlock_def IsSubTransaction_def)
  ultimately show ?thesis
    using t assms(2,4) m n
    by (cases c) (auto simp: ProcessTransactionStmt_def BeginTransactionBlock_def EndTransactionBlock_def PrepareTransactionBlock_def
      UserAbortTransactionBlock_def)
qed

lemma Require_failed:
  assumes "failed (frames s)"
  shows "RequireTransactionChain True s = Inr ()"
  using Start_failed [OF assms] by (auto simp: RequireTransactionChain_def IsTransactionBlock_def IsAbortedTransactionBlockState_def)

lemma Process_failed:
  assumes "failed (frames s)" "numbered s" "IsTransactionExitStmt c"
  shows "processed (ProcessTransactionStmt env c s)"
  using assms(1) unfolding failed_def
proof (elim disjE exE conjE)
  fix t assume t: "frames s = [t]" "failed_top t"
  show ?thesis
    using assms(3) End_failed_top [OF t] failed_top_mid [OF t assms(2)] RollbackTo_failed_top [OF t] Require_failed [OF assms(1)]
    by (cases c) (auto simp: IsTransactionExitStmt_def ProcessTransactionStmt_def Prepare_failed)
next
  assume f: "failed_sub (frames s)"
  have b: "blockState (cur s) = TBLOCK_SUBABORT" using f by (auto simp: failed_sub_def frames_def)
  have rt: "processed (RollbackToSavepoint (Some nm) False s)" for nm
  proof (cases "FindTargetSavepoint (Some nm) s")
    case (Inl e)
    then show ?thesis using b FindTarget_error [OF Inl] by (auto simp: RollbackToSavepoint_def CheckRollbackSavepointBlockState_def)
  next
    case (Inr i)
    then show ?thesis using RollbackTo_failed [OF f assms(2) Inr] by simp
  qed
  show ?thesis
    using assms(3) End_failed_sub [OF f] failed_mid [OF assms(2) f] rt Require_failed [OF assms(1)]
    by (cases c) (auto simp: IsTransactionExitStmt_def ProcessTransactionStmt_def Prepare_failed)
qed

lemma Process_opened:
  assumes "opened s" "failed (frames s) \<Longrightarrow> IsTransactionExitStmt c"
  shows "processed (ProcessTransactionStmt env c s)"
  using assms Process_in_block Process_started Process_failed by (auto simp: opened_def)

section \<open>The step relation\<close>

lemma ACT_failed: "failed (frames s) \<Longrightarrow> AbortCurrentTransaction env b s = Inr s"
  by (auto simp: failed_def failed_top_def failed_sub_def AbortCurrentTransaction.simps [of env b s] dest!: frames_cur)

lemma ACT_opened:
  assumes "opened s"
  shows "\<exists>s'. AbortCurrentTransaction env False s = Inr s' \<and> between s' \<and> no_commit_since s s'"
proof (cases "failed (frames s)")
  case True
  then show ?thesis using ACT_failed assms by (auto simp: opened_def between_def)
next
  case False
  then have "in_query (frames s)" "numbered s" using assms by (auto simp: opened_def in_block_query)
  then show ?thesis using ACT_query by blast
qed

lemma exec_between:
  assumes "between s"
  shows "\<exists>s'. exec_command env c s = Inr s' \<and> between s'"
proof (cases "IsAbortedTransactionBlockState s \<and> \<not> IsTransactionExitStmt c")
  case True
  then have "failed (frames s)"
    using assms in_block_cur [of s] by (auto simp: between_def idle_def IsAbortedTransactionBlockState_def)
  then show ?thesis using True assms ACT_failed by (simp add: exec_command_def)
next
  case False
  obtain s1 where s1: "StartTransactionCommand False s = Inr s1" "opened s1" "failed (frames s1) \<longleftrightarrow> IsAbortedTransactionBlockState s"
    by (rule Start_between [OF assms])
  have pr: "processed (ProcessTransactionStmt env c s1)" using Process_opened s1 False by blast
  show ?thesis
  proof (cases "ProcessTransactionStmt env c s1")
    case (Inl e)
    then obtain k where "e = Ereport ERROR k" using pr by (auto simp: processed_def)
    then show ?thesis using Inl s1 False ACT_opened [OF s1(2)] by (auto simp: exec_command_def handle_error_def)
  next
    case (Inr s2)
    then have "\<exists>s'. CommitTransactionCommand False s2 = Inr s' \<and> between s'" using pr CTC_mid by simp
    then show ?thesis using Inr s1 False by (auto simp: exec_command_def)
  qed
qed

definition querying :: "session \<Rightarrow> bool" where
  "querying s \<longleftrightarrow> in_query (frames s) \<and> numbered s"

lemma live_propagate: "live B (p # r) \<Longrightarrow> live B (propagate_urp c p # r)"
  by (cases r) auto

lemma querying_sub: "querying s \<Longrightarrow> IsSubTransaction s \<longleftrightarrow> parents s \<noteq> []"
  using numbered_cur [of s] by (cases "parents s") (auto simp: querying_def IsSubTransaction_def frame_at_def)

lemma querying_cur: "querying s \<Longrightarrow> parents s \<noteq> [] \<Longrightarrow> blockState (cur s) = TBLOCK_SUBINPROGRESS"
  by (cases "parents s") (auto simp: querying_def frames_def)

lemma Release_current:
  assumes "querying s" "parents s \<noteq> []"
  shows "\<exists>s'. ReleaseCurrentSubTransaction s = Inr s' \<and> querying s'"
proof -
  obtain p r where pr: "parents s = p # r" using assms(2) by (cases "parents s") auto
  have f: "frames s = cur s # p # r" using pr by (simp add: frames_def)
  obtain s' where s': "CommitSubTransaction (if True then propagate_to_parent s else s) = Inr s'"
    "frames s' = (if True then propagate_urp (cur s) p else p) # r" "currentSubTransactionId s' = subTransactionId p"
    by (rule commit_one [OF f])
  have ok: "stack_ok (cur s # p # r)" "in_query (cur s # p # r)" using assms(1) f by (auto simp: querying_def numbered_def)
  have "frame_at (Suc (Suc (length r))) (cur s)" "frame_at (Suc (length r)) p" using stack_ok_hd ok(1) by (auto dest: stack_ok_tl)
  then have "list_all2 alike (p # r) (propagate_urp (cur s) p # r)" by (auto simp: alike_def propagate_urp_def frame_at_def)
  then have "stack_ok (frames s')" using s'(2) stack_ok_alike [of "p # r"] ok(1) by auto
  moreover have "in_query (frames s')" using s'(2) ok(2) live_propagate by auto
  moreover have "currentSubTransactionId s' = subTransactionId (cur s')" using s'(2,3) frames_cur [of s'] by auto
  ultimately show ?thesis
    using s'(1) querying_cur [OF assms] by (auto simp: ReleaseCurrentSubTransaction_def querying_def numbered_def)
qed

lemma Rollback_current:
  assumes "querying s" "parents s \<noteq> []"
  shows "\<exists>s'. RollbackAndReleaseCurrentSubTransaction b s = Inr s' \<and> querying s'"
proof -
  obtain s' where s': "abort_out_sub s = Inr s'" "popped s s'" by (rule abort_out_sub_pop [OF assms(2)])
  have "frames s' = parents s" "numbered s'"
    using s'(2) popped_numbered [OF s'(2)] assms(1) by (auto simp: popped_def querying_def numbered_def)
  moreover have "in_query (parents s)" using assms live_tl by (auto simp: querying_def frames_def)
  ultimately show ?thesis
    using s'(1) querying_cur [OF assms]
    by (auto simp: RollbackAndReleaseCurrentSubTransaction_def abort_out_sub_def querying_def Let_def)
qed

lemma Begin_internal:
  assumes "querying s" "BeginInternalSubTransaction nm s = Inr s'"
  shows "querying s'"
proof -
  obtain s1 where s1: "PushTransaction s = Inr s1"
    using assms(2) by (auto simp: BeginInternalSubTransaction_def rbind_eq_Inr unexpected_state_def split: if_splits)
  have num: "numbered s" using assms(1) by (simp add: querying_def)
  have "currentSubTransactionId s + 1 = of_nat (Suc (length (frames s)))"
    using numbered_cur [OF num] num by (simp add: frame_at_def numbered_def frames_def)
  then have "(of_nat (Suc (length (frames s))) :: uint64) \<noteq> 0"
    using s1 unfolding PushTransaction_def Let_def by (metis Inl_Inr_False)
  then have ps: "pushed None s s1" using Push_numbered [OF num] s1 by (metis Inr_inject)
  define z where "z = (if nm \<noteq> None then upd_cur (\<lambda>t. t\<lparr>name := nm\<rparr>) s1 else s1)"
  have z: "pushed nm s z"
    using ps by (cases "frames s") (auto simp: z_def pushed_def frames_def upd_cur_def frame_at_def numbered_def same_counters_def)
  then obtain t where t: "frames z = t # frames s" "numbered z" by (auto simp: pushed_def)
  note f = subbegin_fresh [OF t(1) frames_not_Nil t(2)]
  have q: "querying (commit_subbegin z)"
    using f(1,2) assms(1) in_block_fresh by (auto simp: querying_def)
  have "parents (commit_subbegin z) \<noteq> []" using f(1) by (auto simp: frames_def)
  then have "StartTransactionCommand True (commit_subbegin z) = Inr (commit_subbegin z)"
    using querying_cur [OF q] by (simp add: StartTransactionCommand_def)
  then have "s' = commit_subbegin z"
    using assms(2) s1 by (simp add: BeginInternalSubTransaction_def z_def Let_def unexpected_state_def split: if_splits)
  then show ?thesis using q by simp
qed

inductive sreach :: "xact_env \<Rightarrow> bool \<Rightarrow> session \<Rightarrow> bool" for env where
  sreach_init: "sreach env False session0"
| sreach_command: "sreach env False s \<Longrightarrow> exec_command env c s = Inr s' \<Longrightarrow> sreach env False s'"
| sreach_end_fails: "sreach env False s \<Longrightarrow> \<not> IsAbortedTransactionBlockState s \<or> IsTransactionExitStmt c \<Longrightarrow>
    StartTransactionCommand False s = Inr s1 \<Longrightarrow> ProcessTransactionStmt env c s1 = Inr s2 \<Longrightarrow>
    AbortCurrentTransaction env False s2 = Inr s' \<Longrightarrow> sreach env False s'"
| sreach_query: "sreach env False s \<Longrightarrow> \<not> IsAbortedTransactionBlockState s \<Longrightarrow> StartTransactionCommand False s = Inr s' \<Longrightarrow>
    sreach env True s'"
| sreach_done: "sreach env True s \<Longrightarrow> CommitTransactionCommand False s = Inr s' \<Longrightarrow> sreach env False s'"
| sreach_error: "sreach env True s \<Longrightarrow> AbortCurrentTransaction env False s = Inr s' \<Longrightarrow> sreach env False s'"
| sreach_sub: "sreach env True s \<Longrightarrow> BeginInternalSubTransaction nm s = Inr s' \<Longrightarrow> sreach env True s'"
| sreach_sub_release: "sreach env True s \<Longrightarrow> IsSubTransaction s \<Longrightarrow> ReleaseCurrentSubTransaction s = Inr s' \<Longrightarrow> sreach env True s'"
| sreach_sub_rollback: "sreach env True s \<Longrightarrow> IsSubTransaction s \<Longrightarrow> RollbackAndReleaseCurrentSubTransaction b s = Inr s' \<Longrightarrow>
    sreach env True s'"
| sreach_undo: "sreach env True s \<Longrightarrow> sreach env True (SetCurrentTransactionUndoRecPtr u l s)"
| sreach_slot: "sreach env True s \<Longrightarrow> sreach env True (s\<lparr>undo_slot := True\<rparr>)"
| sreach_cancel: "sreach env True s \<Longrightarrow> sreach env True (s\<lparr>handlesDestroyedInCancelQuery := True\<rparr>)"

inductive_cases sreach_queryE: "sreach env True s"

lemma querying_alike:
  assumes "querying s" "alike (cur s) (cur s')" "parents s' = parents s" "blockState (cur s') = blockState (cur s)"
    "state (cur s') = state (cur s)" "currentSubTransactionId s' = currentSubTransactionId s"
  shows "querying s'"
proof -
  have "list_all2 alike (frames s) (frames s')" using assms by (simp add: frames_def)
  then have "stack_ok (frames s')" using stack_ok_alike assms(1) by (auto simp: querying_def numbered_def)
  then show ?thesis using assms by (cases "parents s") (auto simp: querying_def numbered_def frames_def alike_def)
qed

lemma sreach_shape: "sreach env q s \<Longrightarrow> (if q then querying s else between s)"
proof (induction rule: sreach.induct)
  case sreach_init
  then show ?case
    by (simp add: between_def idle_def session0_def TopTransactionStateData0_def frame_at_def)
next
  case (sreach_command s c s')
  then show ?case using exec_between [of s env c] by auto
next
  case (sreach_end_fails s c s1 s2 s')
  then obtain z where z: "StartTransactionCommand False s = Inr z" "opened z" "failed (frames z) \<longleftrightarrow> IsAbortedTransactionBlockState s"
    using Start_between [of s] by auto
  then have "s1 = z" using sreach_end_fails by simp
  then have "processed (ProcessTransactionStmt env c s1)"
    using Process_opened [OF z(2), of c env] z(3) sreach_end_fails.hyps(2) by blast
  then show ?case using sreach_end_fails ACT_mid [of s2 env] by simp
next
  case (sreach_query s s')
  then obtain z where z: "StartTransactionCommand False s = Inr z" "opened z" "failed (frames z) \<longleftrightarrow> IsAbortedTransactionBlockState s"
    using Start_between [of s] by auto
  then show ?case using sreach_query by (auto simp: opened_def querying_def in_block_query)
next
  case (sreach_done s s')
  then show ?case using CTC_query [of s] by (auto simp: querying_def)
next
  case (sreach_error s s')
  then show ?case using ACT_query [of s env] by (auto simp: querying_def)
next
  case (sreach_sub s nm s')
  then show ?case using Begin_internal by auto
next
  case (sreach_sub_release s s')
  then show ?case using Release_current [of s] querying_sub [of s] by auto
next
  case (sreach_sub_rollback s b s')
  then show ?case using Rollback_current [of s b] querying_sub [of s] by auto
next
  case (sreach_undo s u l)
  then show ?case by (auto simp: SetCurrentTransactionUndoRecPtr_def alike_def upd_cur_def intro: querying_alike [of s])
next
  case (sreach_slot s)
  then show ?case by (auto intro: querying_alike [of s])
next
  case (sreach_cancel s)
  then show ?case by (auto intro: querying_alike [of s])
qed

lemmas sreach_between = sreach_shape [of _ False, simplified]
lemmas sreach_querying = sreach_shape [of _ True, simplified]

section \<open>What the statements do\<close>

lemma exec_Process:
  assumes "StartTransactionCommand False s = Inr s1" "ProcessTransactionStmt env c s1 = Inr s2"
    "CommitTransactionCommand False s2 = Inr s3" "\<not> IsAbortedTransactionBlockState s \<or> IsTransactionExitStmt c"
  shows "exec_command env c s = Inr s3"
  using assms by (auto simp: exec_command_def)

lemma log_marks [simp]:
  "log_commits (map (with_block b) as) = log_commits as" "log_aborts (map (with_block b) as) = log_aborts as"
  by (simp_all add: log_commits_def log_aborts_def comp_def)

lemma exec_commit_block:
  assumes "in_block (frames s)" "numbered s"
  shows "\<exists>s'. exec_command env TRANS_STMT_COMMIT s = Inr s' \<and> idle s' \<and> xlog s' = EvCommit # log_commits (butlast (frames s)) @ xlog s"
    "\<exists>s'. exec_command env TRANS_STMT_PREPARE s = Inr s' \<and> idle s' \<and> xlog s' = EvPrepare # log_commits (butlast (frames s)) @ xlog s"
proof -
  have run: "\<exists>s'. CommitTransactionCommand False (set_frames s (marked_commit b (frames s))) = Inr s' \<and> idle s' \<and>
     xlog s' = (if b = TBLOCK_PREPARE then EvPrepare else EvCommit) # log_commits (butlast (frames s)) @ xlog s"
    if "b \<in> {TBLOCK_END, TBLOCK_PREPARE}" for b
  proof -
    have f: "frames (set_frames s (marked_commit b (frames s))) =
       map (with_block TBLOCK_SUBCOMMIT) (butlast (frames s)) @ [with_block b (last (frames s))]"
      by (simp add: marked_commit_def)
    show ?thesis using CTC_committing [OF f _ _ marked_mid(3) [OF assms(2,1)], of False] that by simp
  qed
  note st = Start_block [OF assms(1)]
  show "\<exists>s'. exec_command env TRANS_STMT_COMMIT s = Inr s' \<and> idle s' \<and> xlog s' = EvCommit # log_commits (butlast (frames s)) @ xlog s"
    using run [of TBLOCK_END] st End_in_block(1) [OF assms(1)] by (auto simp: exec_command_def ProcessTransactionStmt_def)
  show "\<exists>s'. exec_command env TRANS_STMT_PREPARE s = Inr s' \<and> idle s' \<and> xlog s' = EvPrepare # log_commits (butlast (frames s)) @ xlog s"
    using run [of TBLOCK_PREPARE] st Prepare_in_block [OF assms(1)] by (auto simp: exec_command_def ProcessTransactionStmt_def)
qed

lemma CTC_marked_abort:
  assumes "numbered s" "frames s = as @ [t]" "pending TBLOCK_SUBABORT_PENDING as" "blockState t = TBLOCK_ABORT_PENDING"
  shows "\<exists>s'. CommitTransactionCommand False s = Inr s' \<and> idle s' \<and> no_commit_since s s'"
  using CTC_exit [OF assms(2,3) _ assms(1)] assms(4) by (auto simp: exit_base_def)

lemma CTC_marked_abort_failed:
  assumes "numbered s" "frames s = x # as @ [t]" "pending TBLOCK_SUBABORT_PENDING as" "blockState t = TBLOCK_ABORT_PENDING"
    "blockState x = TBLOCK_SUBABORT_END"
  shows "\<exists>s'. CommitTransactionCommand False s = Inr s' \<and> idle s' \<and> no_commit_since s s'"
  using CTC_exit_failed [OF assms(2,5,3) _ assms(1)] assms(4) by (auto simp: exit_base_def)

lemma no_commit_since_set_frames [simp]: "no_commit_since (set_frames s fs) s' \<longleftrightarrow> no_commit_since s s'"
  "no_commit_since (set_block b s) s' \<longleftrightarrow> no_commit_since s s'"
  by (simp_all add: no_commit_since_def xact_prims)

text \<open>A failed block: COMMIT, PREPARE and ROLLBACK all end it without committing anything.\<close>

lemma CTC_failed_end:
  assumes "failed (frames s)" "numbered s"
  obtains s2 s' where "EndTransactionBlock s = Inr (False, s2)" "UserAbortTransactionBlock s = Inr s2"
    "CommitTransactionCommand False s2 = Inr s'" "idle s'" "no_commit_since s s'"
  using assms(1) unfolding failed_def
proof (elim disjE exE conjE)
  fix t assume t: "frames s = [t]" "failed_top t"
  have c: "cur s = t" "parents s = []" using t by (auto dest: frames_cur)
  have "state (cur (set_block TBLOCK_ABORT_END s)) = TRANS_ABORT" "parents (set_block TBLOCK_ABORT_END s) = []"
    "frame_at 1 (cur (set_block TBLOCK_ABORT_END s))" "name (cur (set_block TBLOCK_ABORT_END s)) = None"
    using t c by (auto simp: failed_top_def frame_at_def)
  then obtain s' where s': "rbind (CleanupTransaction (set_block TBLOCK_ABORT_END s)) (\<lambda>s. Inr (set_block TBLOCK_DEFAULT s)) = Inr s'" "idle s'"
    "xlog s' = xlog (set_block TBLOCK_ABORT_END s)" using Cleanup_default_idle by metis
  have "CommitTransactionCommand False (set_block TBLOCK_ABORT_END s) = Inr s'"
    using s'(1) by (simp add: CommitTransactionCommand.simps [of False "set_block TBLOCK_ABORT_END s"])
  moreover have "no_commit_since s s'" using s'(3) by (simp add: no_commit_since_def xact_prims)
  ultimately show thesis using that End_failed_top [OF t] s'(2) by blast
next
  assume f: "failed_sub (frames s)"
  let ?fs = "with_block TBLOCK_SUBABORT_END (cur s) # marked_abort (parents s)"
  have fs: "frames (set_frames s ?fs) = with_block TBLOCK_SUBABORT_END (cur s) # map (with_block TBLOCK_SUBABORT_PENDING) (butlast (parents s)) @
     [with_block TBLOCK_ABORT_PENDING (last (parents s))]" by (simp add: marked_abort_def)
  obtain s' where "CommitTransactionCommand False (set_frames s ?fs) = Inr s'" "idle s'" "no_commit_since s s'"
    using CTC_marked_abort_failed [OF failed_mid(2) [OF assms(2) f] fs] by auto
  then show thesis using that End_failed_sub [OF f] by blast
qed

lemma exec_end_failed:
  assumes "failed (frames s)" "numbered s" "c \<in> {TRANS_STMT_COMMIT, TRANS_STMT_PREPARE, TRANS_STMT_ROLLBACK}"
  shows "\<exists>s'. exec_command env c s = Inr s' \<and> idle s' \<and> no_commit_since s s'"
proof -
  obtain s2 s' where s': "EndTransactionBlock s = Inr (False, s2)" "UserAbortTransactionBlock s = Inr s2"
    "CommitTransactionCommand False s2 = Inr s'" "idle s'" "no_commit_since s s'" by (rule CTC_failed_end [OF assms(1,2)])
  then show ?thesis
    using assms(3) Start_failed [OF assms(1)] Prepare_failed [OF s'(1)]
    by (auto simp: exec_command_def ProcessTransactionStmt_def IsTransactionExitStmt_def)
qed

lemma exec_rollback:
  assumes "between s"
  shows "\<exists>s'. exec_command env TRANS_STMT_ROLLBACK s = Inr s' \<and> idle s' \<and> no_commit_since s s'"
  using assms unfolding between_def
proof (elim disjE conjE)
  assume "idle s"
  then obtain s1 t where s1: "StartTransactionCommand False s = Inr s1" "frames s1 = [t]" "blockState t = TBLOCK_STARTED"
    "numbered s1" "xlog s1 = EvStart # xlog s" using Start_idle by blast
  have f: "frames (set_block TBLOCK_ABORT_PENDING s1) = [] @ [with_block TBLOCK_ABORT_PENDING t]"
    using s1(2) by (auto simp: numbered_set_block dest: frames_cur)
  obtain s' where s': "CommitTransactionCommand False (set_block TBLOCK_ABORT_PENDING s1) = Inr s'" "idle s'" "no_commit_since s1 s'"
    using CTC_marked_abort [OF numbered_set_block(1) [OF s1(4)] f] by auto
  moreover have "no_commit_since s s1" by (rule no_commit_since_Cons [OF s1(5)]) simp
  moreover have "UserAbortTransactionBlock s1 = Inr (set_block TBLOCK_ABORT_PENDING s1)"
    using s1 by (auto simp: UserAbortTransactionBlock_def dest!: frames_cur)
  ultimately show ?thesis
    using s1(1) no_commit_since_trans by (auto simp: exec_command_def ProcessTransactionStmt_def IsTransactionExitStmt_def)
next
  assume b: "numbered s" "in_block (frames s)"
  have f: "frames (set_frames s (marked_abort (frames s))) =
     map (with_block TBLOCK_SUBABORT_PENDING) (butlast (frames s)) @ [with_block TBLOCK_ABORT_PENDING (last (frames s))]"
    by (simp add: marked_abort_def)
  show ?thesis
    using CTC_marked_abort [OF marked_mid(4) [OF b] f] Start_block [OF b(2)] End_in_block(2) [OF b(2)]
    by (auto simp: exec_command_def ProcessTransactionStmt_def)
next
  assume "numbered s" "failed (frames s)"
  then show ?thesis using exec_end_failed by blast
qed

lemma give_is_carry_aux:
  assumes "latest_urp c = fst acc" "first_urp c = snd acc"
  shows "give_urp (fold (\<lambda>t acc. gather_urp acc t) as acc) p = carry_urp True (as @ [p]) c"
  using assms
proof (induction as arbitrary: acc c)
  case Nil
  then show ?case by (simp add: give_urp_def propagate_urp_def)
next
  case (Cons t as)
  have [simp]: "map2 (\<lambda>x y. if y \<noteq> 0 then y else x) xs ys = map2 (\<lambda>x y. if y = 0 then x else y) xs ys"
    "map2 (\<lambda>x y. if x \<noteq> 0 then x else y) xs ys = map2 (\<lambda>x y. if x = 0 then y else x) xs ys" for xs ys :: "uint64 list"
    by (auto intro!: map_cong)
  have "latest_urp (propagate_urp c t) = fst (gather_urp acc t)" "first_urp (propagate_urp c t) = snd (gather_urp acc t)"
    using Cons.prems by (simp_all add: propagate_urp_def gather_urp_def)
  then show ?case using Cons.IH [of "propagate_urp c t" "gather_urp acc t"] by simp
qed

lemma give_is_carry: "give_urp (gathered (a # as)) p = carry_urp True (as @ [p]) a"
  using give_is_carry_aux [of a "(latest_urp a, first_urp a)"] by (simp add: gathered_def)

lemma find_cases:
  assumes "between s" "FindTargetSavepoint (Some nm) s = Inr i"
  obtains "in_block (frames s)" "numbered s" | "failed_sub (frames s)" "numbered s"
proof -
  have "name (frames s ! i) = Some nm" "i < length (frames s)"
    using assms(2) find_name_Some [of "Some nm" "frames s" i]
    by (auto simp: FindTargetSavepoint_def split: option.splits if_splits)
  then show thesis
    using that assms(1) by (auto simp: between_def idle_def frames_def failed_def failed_top_def)
qed

lemma exec_release:
  assumes "in_block (frames s)" "numbered s" "FindTargetSavepoint (Some nm) s = Inr i"
  shows "\<exists>s'. exec_command env (TRANS_STMT_RELEASE nm) s = Inr s' \<and>
    frames s' = carry_urp True (tl (take (Suc (Suc i)) (frames s))) (cur s) # drop (Suc (Suc i)) (frames s) \<and>
    in_block (frames s') \<and> xlog s' = log_commits (take (Suc i) (frames s)) @ xlog s"
proof -
  let ?fs = "marked_release i (frames s)"
  have i: "Suc i < length (frames s)" using FindTarget_ok [OF assms(2,3)] by blast
  note r = Release_in_block [OF assms]
  define p where "p = give_urp (gathered (take (Suc i) (frames s))) (frames s ! Suc i)"
  have fs: "frames (set_frames s ?fs) = with_block TBLOCK_SUBRELEASE (cur s) # map (with_block TBLOCK_SUBRELEASE) (take i (parents s)) @
      p # drop (Suc (Suc i)) (frames s)"
    unfolding set_frames_simps(1) [OF marked_ne2(1)] by (simp add: marked_release_def frames_def p_def)
  have bp: "blockState p \<noteq> TBLOCK_SUBRELEASE" using r(4) unfolding p_def by (cases "drop (Suc (Suc i)) (frames s)") auto
  have bs: "blockState (with_block TBLOCK_SUBRELEASE (cur s)) = TBLOCK_SUBRELEASE"
    "\<forall>t \<in> set (map (with_block TBLOCK_SUBRELEASE) (take i (parents s))). blockState t = TBLOCK_SUBRELEASE" by simp_all
  obtain s' where s': "CommitTransactionCommand False (set_frames s ?fs) = Inr s'" "frames s' = p # drop (Suc (Suc i)) (frames s)"
    "xlog s' = log_commits (with_block TBLOCK_SUBRELEASE (cur s) # map (with_block TBLOCK_SUBRELEASE) (take i (parents s))) @ xlog (set_frames s ?fs)"
    using CTC_release [OF fs bs bp, of False] by blast
  have l: "log_commits (with_block TBLOCK_SUBRELEASE (cur s) # map (with_block TBLOCK_SUBRELEASE) (take i (parents s))) =
     log_commits (take (Suc i) (frames s))"
    using log_marks(1) [of TBLOCK_SUBRELEASE "cur s # take i (parents s)"] by (simp add: frames_def)
  have "take i (parents s) @ [frames s ! Suc i] = tl (take (Suc (Suc i)) (frames s))"
    using i by (simp add: frames_def take_Suc_conv_app_nth)
  then have "p = carry_urp True (tl (take (Suc (Suc i)) (frames s))) (cur s)"
    using give_is_carry [of "cur s" "take i (parents s)" "frames s ! Suc i"] by (simp add: p_def frames_def)
  moreover have "exec_command env (TRANS_STMT_RELEASE nm) s = Inr s'"
    by (rule exec_Process [OF _ _ s'(1)])
      (use Start_block [OF assms(1)] r(1) Require_block [OF assms(1,2)] in \<open>auto simp: ProcessTransactionStmt_def\<close>)
  ultimately show ?thesis using s' r(4) l p_def by auto
qed

definition live_frame :: "TransactionStateData \<Rightarrow> bool" where
  "live_frame t \<longleftrightarrow> blockState t = TBLOCK_SUBINPROGRESS"

lemma filter_live_all: "in_block fs \<Longrightarrow> Suc i < length fs \<Longrightarrow> filter live_frame (take (Suc i) fs) = take (Suc i) fs"
proof (rule filter_True, rule ballI)
  fix t assume a: "in_block fs" "Suc i < length fs" "t \<in> set (take (Suc i) fs)"
  then obtain j where "t = fs ! j" "Suc j < length fs"
    by (auto simp: in_set_conv_nth)
  then show "live_frame t" using live_nth a by (simp add: live_frame_def)
qed

text \<open>The end of ROLLBACK TO, from the frames marked down to the savepoint.\<close>

lemma CTC_restart_run:
  assumes "frames s = as @ t # r" "pending TBLOCK_SUBABORT_PENDING as" "blockState t = TBLOCK_SUBRESTART" "in_block r" "numbered s"
    "\<not> handlesDestroyedInCancelQuery s"
  shows "\<exists>s' t'. CommitTransactionCommand False s = Inr s' \<and> frames s' = t' # r \<and>
    fresh_sub (name t) (savepointLevel t) (Suc (length r)) t' \<and> numbered s' \<and>
    xlog s' = EvSubStart (subTransactionId t) # log_aborts (as @ [t]) @ xlog s"
proof -
  have p: "\<forall>x \<in> set as. blockState x = TBLOCK_SUBABORT_PENDING" using assms(2) by (simp add: pending_def)
  have cs: "currentSubTransactionId s = subTransactionId (cur s)" using assms(5) by (simp add: numbered_def)
  obtain s1 where s1: "CommitTransactionCommand False s = CommitTransactionCommand False s1" "frames s1 = t # r"
    "currentSubTransactionId s1 = subTransactionId (cur s1)" "\<not> handlesDestroyedInCancelQuery s1" "xlog s1 = log_aborts as @ xlog s"
    using CTC_pending_run [OF assms(1) _ p assms(6) cs, of False] by auto
  have num: "numbered s1"
    using s1(2,3) assms(1,5) stack_ok_append [of as "t # r"] by (simp add: numbered_def)
  show ?thesis
    using CTC_restart [OF s1(2) _ assms(4) num] assms(3) s1 by (auto simp: log_aborts_def)
qed

lemma exec_rollback_to_block:
  assumes "in_block (frames s)" "numbered s" "FindTargetSavepoint (Some nm) s = Inr i" "\<not> handlesDestroyedInCancelQuery s"
  shows "\<exists>s' t'. exec_command env (TRANS_STMT_ROLLBACK_TO nm) s = Inr s' \<and> frames s' = t' # drop (Suc i) (frames s) \<and>
    fresh_sub (Some nm) (savepointLevel (cur s)) (length (frames s) - i) t' \<and> numbered s' \<and>
    xlog s' = EvSubStart (subTransactionId (frames s ! i)) # log_aborts (filter live_frame (take (Suc i) (frames s))) @ xlog s"
proof -
  note t = FindTarget_ok [OF assms(2,3)]
  note r = RollbackTo_in_block [OF assms(1-3)]
  let ?s = "set_frames s (marked_restart i (frames s))"
  have fs: "frames ?s = map (with_block TBLOCK_SUBABORT_PENDING) (take i (frames s)) @ with_block TBLOCK_SUBRESTART (frames s ! i) # drop (Suc i) (frames s)"
    by (simp add: marked_restart_def)
  have h: "\<not> handlesDestroyedInCancelQuery ?s" using assms(4) set_frames_simps(4) unfolding same_counters_def by blast
  obtain s' t' where s': "CommitTransactionCommand False ?s = Inr s'" "frames s' = t' # drop (Suc i) (frames s)"
    "fresh_sub (name (frames s ! i)) (savepointLevel (frames s ! i)) (Suc (length (drop (Suc i) (frames s)))) t'" "numbered s'"
    "xlog s' = EvSubStart (subTransactionId (frames s ! i)) #
       log_aborts (map (with_block TBLOCK_SUBABORT_PENDING) (take i (frames s)) @ [with_block TBLOCK_SUBRESTART (frames s ! i)]) @ xlog s"
    using CTC_restart_run [OF fs _ _ r(4,3) h] by auto
  have lv: "filter live_frame (take (Suc i) (frames s)) = take i (frames s) @ [frames s ! i]"
    using filter_live_all [OF assms(1) t(1)] t(1) by (simp add: take_Suc_conv_app_nth)
  have "log_aborts (map (with_block TBLOCK_SUBABORT_PENDING) (take i (frames s)) @ [with_block TBLOCK_SUBRESTART (frames s ! i)]) =
      log_aborts (filter live_frame (take (Suc i) (frames s)))"
    unfolding lv by (simp add: log_aborts_def comp_def)
  moreover have "Suc (length (drop (Suc i) (frames s))) = length (frames s) - i" using t(1) by simp
  moreover have "exec_command env (TRANS_STMT_ROLLBACK_TO nm) s = Inr s'"
    by (rule exec_Process [OF _ _ s'(1)])
      (use Start_block [OF assms(1)] r(1) Require_block [OF assms(1,2)] in \<open>auto simp: ProcessTransactionStmt_def\<close>)
  ultimately show ?thesis using s' t(2,3) by auto
qed

lemma CTC_subabort_end:
  assumes "frames s = x # r" "blockState x = TBLOCK_SUBABORT_END" "r \<noteq> []" "numbered s"
  obtains s1 where "CommitTransactionCommand b s = CommitTransactionCommand b s1" "frames s1 = r" "numbered s1" "xlog s1 = xlog s"
    "handlesDestroyedInCancelQuery s1 = handlesDestroyedInCancelQuery s"
proof -
  have st: "cur s = x" "parents s \<noteq> []" using assms(1,3) by (auto dest: frames_cur)
  obtain s1 where s1: "CleanupSubTransaction s = Inr s1" "popped s s1" "xlog s1 = xlog s" by (rule CleanupSub_pop [OF st(2)])
  have 1: "frames s1 = r" "numbered s1"
    using popped_frames [OF s1(2) assms(1)] popped_numbered [OF s1(2)] assms(4) by (auto simp: numbered_def)
  have 2: "CommitTransactionCommand b s = CommitTransactionCommand b s1"
    using s1(1) st assms(2) by (simp add: CommitTransactionCommand.simps [of b s])
  have 3: "handlesDestroyedInCancelQuery s1 = handlesDestroyedInCancelQuery s" using s1(2) by (simp add: popped_def)
  show thesis by (rule that [OF 2 1 s1(3) 3])
qed

lemma exec_rollback_to_failed:
  assumes "failed_sub (frames s)" "numbered s" "FindTargetSavepoint (Some nm) s = Inr i" "\<not> handlesDestroyedInCancelQuery s"
  shows "\<exists>s' t'. exec_command env (TRANS_STMT_ROLLBACK_TO nm) s = Inr s' \<and> frames s' = t' # drop (Suc i) (frames s) \<and>
    fresh_sub (Some nm) (savepointLevel (cur s)) (length (frames s) - i) t' \<and> numbered s' \<and>
    xlog s' = EvSubStart (subTransactionId (frames s ! i)) # log_aborts (filter live_frame (take (Suc i) (frames s))) @ xlog s"
proof -
  note t = FindTarget_ok [OF assms(2,3)]
  note r = RollbackTo_failed [OF assms(1-3)]
  let ?s = "set_frames s (marked_failed i (frames s))"
  have f: "frames s = cur s # parents s" by (simp add: frames_def)
  have b: "\<not> live_frame (cur s)" "in_block (parents s)" using assms(1) by (auto simp: failed_sub_def f live_frame_def)
  have len: "Suc (length (drop (Suc i) (frames s))) = length (frames s) - i" using t(1) by simp
  have h: "\<not> handlesDestroyedInCancelQuery ?s" using assms(4) set_frames_simps(4) unfolding same_counters_def by blast
  have st: "StartTransactionCommand False s = Inr s" "RequireTransactionChain True s = Inr ()"
    using Start_failed Require_failed assms(1) by (auto simp: failed_def)
  have ex: "exec_command env (TRANS_STMT_ROLLBACK_TO nm) s = Inr s'" if "CommitTransactionCommand False ?s = Inr s'" for s'
    by (rule exec_Process [OF st(1) _ that]) (use st(2) r(1) in \<open>auto simp: ProcessTransactionStmt_def IsTransactionExitStmt_def\<close>)
  show ?thesis
  proof (cases i)
    case 0
    have fs: "frames ?s = with_block TBLOCK_SUBABORT_RESTART (cur s) # parents s"
      unfolding set_frames_simps(1) [OF marked_ne2(3)] by (simp add: marked_failed_def f 0)
    obtain s' t' where s': "CommitTransactionCommand False ?s = Inr s'" "frames s' = t' # parents s"
      "fresh_sub (name (cur s)) (savepointLevel (cur s)) (Suc (length (parents s))) t'" "numbered s'"
      "xlog s' = EvSubStart (subTransactionId (cur s)) # xlog s"
      using CTC_restart [OF fs _ b(2) r(3)] by auto
    then show ?thesis using ex [OF s'(1)] t(2) b(1) 0 f by auto
  next
    case (Suc j)
    have fs: "frames ?s = with_block TBLOCK_SUBABORT_END (cur s) # marked_restart j (parents s)"
      unfolding set_frames_simps(1) [OF marked_ne2(3)] by (simp add: marked_failed_def f Suc)
    obtain s1 where s1: "CommitTransactionCommand False ?s = CommitTransactionCommand False s1" "frames s1 = marked_restart j (parents s)"
      "numbered s1" "xlog s1 = xlog ?s" "handlesDestroyedInCancelQuery s1 = handlesDestroyedInCancelQuery ?s"
      by (rule CTC_subabort_end [OF fs _ _ r(3), of False]) auto
    have fs1: "frames s1 = map (with_block TBLOCK_SUBABORT_PENDING) (take j (parents s)) @
        with_block TBLOCK_SUBRESTART (parents s ! j) # drop (Suc j) (parents s)" unfolding s1(2) marked_restart_def ..
    have ib: "in_block (drop (Suc j) (parents s))" using r(4) Suc f by simp
    have h1: "\<not> handlesDestroyedInCancelQuery s1" using s1(5) h by simp
    obtain s' t' where s': "CommitTransactionCommand False s1 = Inr s'" "frames s' = t' # drop (Suc j) (parents s)"
      "fresh_sub (name (parents s ! j)) (savepointLevel (parents s ! j)) (Suc (length (drop (Suc j) (parents s)))) t'" "numbered s'"
      "xlog s' = EvSubStart (subTransactionId (parents s ! j)) #
        log_aborts (map (with_block TBLOCK_SUBABORT_PENDING) (take j (parents s)) @ [with_block TBLOCK_SUBRESTART (parents s ! j)]) @ xlog s1"
      using CTC_restart_run [OF fs1 _ _ ib s1(3) h1] by auto
    have lj: "Suc j < length (parents s)" using t(1) Suc f by simp
    have lv: "filter live_frame (take (Suc i) (frames s)) = take j (parents s) @ [parents s ! j]"
      using filter_live_all [OF b(2) lj] lj b(1) by (simp add: f Suc take_Suc_conv_app_nth)
    have "log_aborts (map (with_block TBLOCK_SUBABORT_PENDING) (take j (parents s)) @ [with_block TBLOCK_SUBRESTART (parents s ! j)]) =
      log_aborts (filter live_frame (take (Suc i) (frames s)))"
      unfolding lv by (simp add: log_aborts_def comp_def)
    then show ?thesis using ex s1(1,4) s' t(2,3) len f Suc by auto
  qed
qed

text \<open>\<^verbatim>\<open>AbortOutOfAnyTransaction(false)\<close> at the end of a session.\<close>

fun takedown :: "TransactionStateData list \<Rightarrow> bool" where
  "takedown [] = False"
| "takedown [t] = (blockState t \<in> {TBLOCK_STARTED, TBLOCK_INPROGRESS} \<or> failed_top t)"
| "takedown (t # p # r) = (blockState t \<in> {TBLOCK_SUBINPROGRESS, TBLOCK_SUBABORT} \<and> takedown (p # r))"

lemma AbortOutOfAny_takedown:
  assumes "takedown (frames s)" "numbered s"
  shows "\<exists>s'. AbortOutOfAnyTransaction False s = Inr s' \<and> no_commit_since s s' \<and> idle s'"
  using assms
proof (induction "length (parents s)" arbitrary: s)
  case 0
  then have p: "parents s = []" "frame_at 1 (cur s)" "name (cur s) = None"
    and b: "blockState (cur s) \<in> {TBLOCK_STARTED, TBLOCK_INPROGRESS} \<or> failed_top (cur s)"
    by (auto simp: frames_def numbered_def)
  have "\<exists>s'. abort_out_turn False s = Inr s' \<and> idle s' \<and> no_commit_since s s'"
  proof (cases "failed_top (cur s)")
    case True
    then have "state (cur s) = TRANS_ABORT" "blockState (cur s) = TBLOCK_ABORT" by (auto simp: failed_top_def)
    moreover obtain s' where "rbind (CleanupTransaction s) (\<lambda>s. Inr (set_block TBLOCK_DEFAULT s)) = Inr s'" "idle s'" "xlog s' = xlog s"
      by (rule Cleanup_default_idle [OF \<open>state (cur s) = TRANS_ABORT\<close> p])
    ultimately show ?thesis by (simp add: abort_out_turn_def no_commit_since_eq)
  next
    case False
    obtain s' where "abort_out_top s = Inr s'" "idle s'" "xlog s' = EvAbort # xlog s" by (rule abort_out_top_idle [OF p])
    then show ?thesis using False b by (auto simp: abort_out_turn_def Let_def no_commit_since_Cons)
  qed
  then show ?case by (auto simp: AbortOutOfAnyTransaction.simps [of False s] abort_out_done_def idle_def)
next
  case (Suc n)
  then obtain p r where pr: "parents s = p # r" by (cases "parents s") auto
  have b: "blockState (cur s) \<in> {TBLOCK_SUBINPROGRESS, TBLOCK_SUBABORT}" and td: "takedown (p # r)"
    using Suc.prems pr by (auto simp: frames_def)
  have par: "parents s \<noteq> []" using pr by simp
  obtain s1 where 1: "CleanupSubTransaction s = Inr s1" "popped s s1" "xlog s1 = xlog s" by (rule CleanupSub_pop [OF par])
  obtain s2 where 2: "abort_out_sub s = Inr s2" "popped s s2" "xlog s2 = EvSubAbort (subTransactionId (cur s)) # xlog s"
    by (rule abort_out_sub_pop [OF par])
  have "\<exists>s'. abort_out_turn False s = Inr s' \<and> popped s s' \<and> no_commit_since s s'"
    using b 1 2 by (auto simp: abort_out_turn_def Let_def no_commit_since_Cons no_commit_since_eq)
  then obtain s' where s': "abort_out_turn False s = Inr s'" "popped s s'" "no_commit_since s s'" by blast
  have fr: "frames s' = p # r" "numbered s'"
    using s'(2) pr popped_numbered [OF s'(2)] Suc.prems by (auto simp: popped_def numbered_def)
  have "blockState p \<noteq> TBLOCK_DEFAULT" using td by (cases r) (auto simp: failed_top_def)
  then have "\<not> abort_out_done False s'" using fr by (auto simp: abort_out_done_def frames_def)
  then have "AbortOutOfAnyTransaction False s = AbortOutOfAnyTransaction False s'"
    using s'(1) by (simp add: AbortOutOfAnyTransaction.simps [of False s])
  then show ?case
    using Suc.hyps(1) [of s'] Suc.hyps(2) pr fr td no_commit_since_trans [OF s'(3)] by (auto simp: frames_def)
qed

lemma live_takedown: "in_query fs \<Longrightarrow> takedown fs"
  by (induction "{TBLOCK_STARTED, TBLOCK_INPROGRESS}" fs rule: live.induct) auto

lemma failed_takedown: "failed fs \<Longrightarrow> takedown fs"
proof -
  assume "failed fs"
  then consider t where "fs = [t]" "failed_top t" | t p r where "fs = t # p # r" "blockState t = TBLOCK_SUBABORT" "in_block (p # r)"
    unfolding failed_def failed_sub_def by (metis live.simps(1) list.exhaust)
  then show ?thesis using live_takedown [OF in_block_query] by cases auto
qed

lemma AbortOutOfAny_idle: "idle s \<Longrightarrow> AbortOutOfAnyTransaction False s = Inr s"
  by (simp add: AbortOutOfAnyTransaction.simps [of False s] abort_out_turn_def abort_out_done_def idle_def)

lemma sreach_AbortOutOfAny:
  assumes "sreach env q s"
  shows "\<exists>s'. AbortOutOfAnyTransaction False s = Inr s' \<and> no_commit_since s s' \<and> idle s'"
proof (cases "idle s")
  case True
  then show ?thesis using AbortOutOfAny_idle by auto
next
  case False
  then have "takedown (frames s)" "numbered s"
    using sreach_shape [OF assms] live_takedown in_block_query failed_takedown
    by (auto simp: between_def querying_def split: if_splits)
  then show ?thesis by (rule AbortOutOfAny_takedown)
qed

section \<open>Properties\<close>

lemma status_idle: "idle s \<Longrightarrow> TransactionBlockStatusCode s = Inr CHR ''I''"
  by (simp add: idle_def TransactionBlockStatusCode_def)

lemma status_block: "in_block (frames s) \<Longrightarrow> TransactionBlockStatusCode s = Inr CHR ''T''"
  using in_block_cur [of s] by (auto simp: TransactionBlockStatusCode_def)

lemma status_failed: "failed (frames s) \<Longrightarrow> TransactionBlockStatusCode s = Inr CHR ''E''"
  using Start_failed [of s] by (auto simp: TransactionBlockStatusCode_def IsAbortedTransactionBlockState_def)

lemma status_cases:
  assumes "between s" "TransactionBlockStatusCode s = Inr c"
  shows "c = CHR ''I'' \<Longrightarrow> idle s" "c = CHR ''T'' \<Longrightarrow> in_block (frames s) \<and> numbered s" "c = CHR ''E'' \<Longrightarrow> failed (frames s) \<and> numbered s"
  using assms status_idle [of s] status_block [of s] status_failed [of s] by (auto simp: between_def)

lemma aborted_failed: "between s \<Longrightarrow> IsAbortedTransactionBlockState s \<Longrightarrow> failed (frames s) \<and> numbered s"
  using in_block_cur [of s] by (auto simp: between_def idle_def IsAbortedTransactionBlockState_def)

lemma query_status: "querying s \<Longrightarrow> \<exists>c. TransactionBlockStatusCode s = Inr c"
  by (cases "parents s") (auto simp: querying_def frames_def TransactionBlockStatusCode_def)

lemma stack_ok_nth:
  "stack_ok fs \<Longrightarrow> i < length fs \<Longrightarrow> nestingLevel (fs ! i) = length fs - i \<and> subTransactionId (fs ! i) = of_nat (length fs - i)"
proof (induction fs arbitrary: i rule: stack_ok.induct)
  case (3 t p r)
  then show ?case by (cases i) (auto simp: frame_at_def)
qed (auto simp: frame_at_def)

text \<open>Sessions for the witnesses: the commands, run one after the other.\<close>

definition env0 :: xact_env where
  "env0 = \<lparr>phony_autocommit = True, begin_only_warns = False\<rparr>"

fun exec_commands :: "stmt list \<Rightarrow> session \<Rightarrow> session" where
  "exec_commands [] s = s"
| "exec_commands (c # cs) s = (case exec_command env0 c s of Inl e \<Rightarrow> s | Inr s' \<Rightarrow> exec_commands cs s')"

lemma sreach_commands: "sreach env0 False s \<Longrightarrow> sreach env0 False (exec_commands cs s)"
  by (induction cs arbitrary: s) (auto split: sum.splits intro: sreach_command)

definition nested_session :: session where
  "nested_session = exec_commands [TRANS_STMT_BEGIN, TRANS_STMT_SAVEPOINT ''a'', TRANS_STMT_SAVEPOINT ''b''] session0"

definition failed_session :: session where
  "failed_session = exec_commands [TRANS_STMT_RELEASE ''c''] nested_session"

lemma reach_nested: "sreach env0 False nested_session" "sreach env0 False failed_session"
  unfolding nested_session_def failed_session_def by (intro sreach_commands sreach_init)+

text \<open>
  C1. A session never dies of an unexpected state: from every state it can reach, whatever the client sent, procedures
  did and wherever errors struck, every command returns a session, never FATAL or an error that escapes the main loop. So do the
  end and the error path of a query and the internal subtransaction calls, and the status code sent to the client
  is defined.
\<close>

theorem session_never_fatal:
  assumes "sreach env q s"
  shows "(if q then (\<exists>s'. CommitTransactionCommand False s = Inr s') \<and> (\<exists>s'. AbortCurrentTransaction env False s = Inr s') \<and>
       (IsSubTransaction s \<longrightarrow>
         (\<exists>s'. ReleaseCurrentSubTransaction s = Inr s') \<and> (\<exists>s'. RollbackAndReleaseCurrentSubTransaction b s = Inr s'))
     else \<forall>c. \<exists>s'. exec_command env c s = Inr s') \<and> (\<exists>c. TransactionBlockStatusCode s = Inr c)"
proof (cases q)
  case True
  then have q: "querying s" using sreach_querying assms by simp
  then have "in_query (frames s)" "numbered s" by (auto simp: querying_def)
  then show ?thesis
    using True q query_status CTC_query [of s] ACT_query [of s env] Release_current [OF q] Rollback_current [OF q, of b] querying_sub [OF q]
    by auto
next
  case False
  then have "between s" using sreach_between assms by simp
  then show ?thesis
    using False exec_between [of s env] status_idle [of s] status_block [of s] status_failed [of s] by (auto simp: between_def)
qed

theorem session_never_fatal_witness: "\<exists>s'. exec_command env0 (TRANS_STMT_ROLLBACK_TO ''a'') failed_session = Inr s'"
  using session_never_fatal [OF reach_nested(2)] by simp

text \<open>
  The stack of transaction states is numbered from the top: in every reachable state that is not idle, level and
  subtransaction id of a frame are its height in the stack, the session's next id continues from the current frame,
  and the top transaction has no savepoint name. An idle session has one frame, at level 0.
\<close>

theorem session_stack_numbered:
  assumes "sreach env q s"
  shows "(\<forall>i < length (frames s). nestingLevel (frames s ! i) = length (frames s) - i \<and>
       subTransactionId (frames s ! i) = of_nat (length (frames s) - i)) \<and>
     currentSubTransactionId s = subTransactionId (cur s) \<and> name (last (frames s)) = None
   \<or> \<not> q \<and> parents s = [] \<and> blockState (cur s) = TBLOCK_DEFAULT \<and> state (cur s) = TRANS_DEFAULT \<and> nestingLevel (cur s) = 0"
proof (cases "idle s \<and> \<not> q")
  case True
  then show ?thesis by (simp add: idle_def frame_at_def)
next
  case False
  then have "numbered s" using sreach_shape [OF assms] by (auto simp: between_def querying_def split: if_splits)
  then show ?thesis using stack_ok_nth stack_ok_last by (auto simp: numbered_def)
qed

theorem session_stack_numbered_witness: "nestingLevel (frames nested_session ! 0) = 3"
proof -
  have "length (frames nested_session) = 3" "blockState (cur nested_session) = TBLOCK_SUBINPROGRESS" by code_simp+
  then show ?thesis using session_stack_numbered [OF reach_nested(1)] by auto
qed

text \<open>
  C13. COMMIT in a good block commits: each open subtransaction once, innermost first, then the top transaction, once and
  last, and nothing else happens; the session is idle. PREPARE does the same with the prepare record in place of
  the commit.
\<close>

theorem commit_commits_block:
  assumes "sreach env False s" "TransactionBlockStatusCode s = Inr CHR ''T''"
  shows "\<exists>s' s''. exec_command env TRANS_STMT_COMMIT s = Inr s' \<and> idle s' \<and>
     xlog s' = EvCommit # log_commits (butlast (frames s)) @ xlog s \<and>
     exec_command env TRANS_STMT_PREPARE s = Inr s'' \<and> idle s'' \<and>
     xlog s'' = EvPrepare # log_commits (butlast (frames s)) @ xlog s"
proof -
  have "in_block (frames s)" "numbered s" using status_cases(2) [OF sreach_between [OF assms(1)] assms(2)] by auto
  then show ?thesis using exec_commit_block [of s env] by blast
qed

theorem commit_commits_block_witness:
  "\<exists>s'. exec_command env0 TRANS_STMT_COMMIT nested_session = Inr s' \<and> idle s' \<and>
     xlog s' = [EvCommit, EvSubCommit 2, EvSubCommit 3, EvSubStart 3, EvSubStart 2, EvStart]"
proof -
  have 1: "TransactionBlockStatusCode nested_session = Inr CHR ''T''" by code_simp
  have 2: "EvCommit # log_commits (butlast (frames nested_session)) @ xlog nested_session =
     [EvCommit, EvSubCommit 2, EvSubCommit 3, EvSubStart 3, EvSubStart 2, EvStart]" by code_simp
  show ?thesis using commit_commits_block [OF reach_nested(1) 1] unfolding 2 by blast
qed

text \<open>
  C14. A failed block commits nothing. The client sees status E; every statement but COMMIT, PREPARE, ROLLBACK and ROLLBACK TO
  is refused and leaves the session as it was; COMMIT, PREPARE and ROLLBACK all end the block, with nothing committed
  or prepared on the way.
\<close>

theorem failed_block_commits_nothing:
  assumes "sreach env False s" "IsAbortedTransactionBlockState s"
  shows "TransactionBlockStatusCode s = Inr CHR ''E'' \<and>
     (\<not> IsTransactionExitStmt c \<longrightarrow> exec_command env c s = Inr s) \<and>
     (c \<in> {TRANS_STMT_COMMIT, TRANS_STMT_PREPARE, TRANS_STMT_ROLLBACK} \<longrightarrow>
       (\<exists>s'. exec_command env c s = Inr s' \<and> idle s' \<and> no_commit_since s s'))"
proof -
  have f: "failed (frames s)" "numbered s" using aborted_failed [OF sreach_between [OF assms(1)] assms(2)] by auto
  show ?thesis
    using status_failed [OF f(1)] ACT_failed [OF f(1), of env False] exec_end_failed [OF f, of c env] assms(2)
    by (simp add: exec_command_def)
qed

theorem failed_block_commits_nothing_witness:
  "exec_command env0 STMT_QUERY failed_session = Inr failed_session \<and>
   (\<exists>s'. exec_command env0 TRANS_STMT_COMMIT failed_session = Inr s' \<and> idle s' \<and> no_commit_since failed_session s')"
proof -
  have a: "IsAbortedTransactionBlockState failed_session" by code_simp
  show ?thesis
    using failed_block_commits_nothing [OF reach_nested(2) a, of STMT_QUERY] failed_block_commits_nothing [OF reach_nested(2) a, of TRANS_STMT_COMMIT]
    by (simp add: IsTransactionExitStmt_def)
qed

text \<open>
  ROLLBACK, in a good block, in a failed one or outside any, leaves the session idle with nothing committed or prepared
  on the way, also when the connections to other nodes were destroyed by a cancel.
\<close>

theorem rollback_discards:
  assumes "sreach env False s"
  shows "\<exists>s'. exec_command env TRANS_STMT_ROLLBACK s = Inr s' \<and> idle s' \<and> no_commit_since s s'"
  by (rule exec_rollback [OF sreach_between [OF assms]])

theorem rollback_discards_witness:
  "\<exists>s'. exec_command env0 TRANS_STMT_ROLLBACK nested_session = Inr s' \<and> idle s' \<and> no_commit_since nested_session s'"
  by (rule rollback_discards [OF reach_nested(1)])

text \<open>
  C15. ROLLBACK TO a savepoint, in a good block or in a failed subtransaction: the subtransactions from the current one down
  to the savepoint are rolled back, those that had not failed already by an abort of their own, and a new one takes the
  savepoint's place, with its name, savepoint level, nesting level and id and with no undo records. Every frame below is as it was.
\<close>

theorem rollback_to_savepoint_restores:
  assumes "sreach env False s" "FindTargetSavepoint (Some nm) s = Inr i" "\<not> handlesDestroyedInCancelQuery s"
  shows "\<exists>s' t. exec_command env (TRANS_STMT_ROLLBACK_TO nm) s = Inr s' \<and> frames s' = t # drop (Suc i) (frames s) \<and>
     name t = Some nm \<and> savepointLevel t = savepointLevel (frames s ! i) \<and> nestingLevel t = nestingLevel (frames s ! i) \<and>
     subTransactionId t = subTransactionId (frames s ! i) \<and> first_urp t = no_urp \<and> latest_urp t = no_urp \<and>
     TransactionBlockStatusCode s' = Inr CHR ''T'' \<and>
     xlog s' = EvSubStart (subTransactionId t) # log_aborts (filter live_frame (take (Suc i) (frames s))) @ xlog s"
proof -
  have "\<exists>s' t. exec_command env (TRANS_STMT_ROLLBACK_TO nm) s = Inr s' \<and> frames s' = t # drop (Suc i) (frames s) \<and>
      fresh_sub (Some nm) (savepointLevel (cur s)) (length (frames s) - i) t \<and> numbered s \<and>
      xlog s' = EvSubStart (subTransactionId (frames s ! i)) # log_aborts (filter live_frame (take (Suc i) (frames s))) @ xlog s"
    using find_cases [OF sreach_between [OF assms(1)] assms(2)] exec_rollback_to_block [OF _ _ assms(2,3), of env]
      exec_rollback_to_failed [OF _ _ assms(2,3), of env] by metis
  then obtain s' t where s': "exec_command env (TRANS_STMT_ROLLBACK_TO nm) s = Inr s'" "frames s' = t # drop (Suc i) (frames s)"
    "fresh_sub (Some nm) (savepointLevel (cur s)) (length (frames s) - i) t" "numbered s"
    "xlog s' = EvSubStart (subTransactionId (frames s ! i)) # log_aborts (filter live_frame (take (Suc i) (frames s))) @ xlog s"
    by blast
  note tg = FindTarget_ok [OF s'(4) assms(2)]
  have "stack_ok (frames s)" using s'(4) by (simp add: numbered_def)
  then have n: "nestingLevel (frames s ! i) = length (frames s) - i" "subTransactionId (frames s ! i) = of_nat (length (frames s) - i)"
    using stack_ok_nth [of "frames s" i] tg(1) by auto
  have "TransactionBlockStatusCode s' = Inr CHR ''T''"
    using s'(2,3) by (auto simp: TransactionBlockStatusCode_def fresh_sub_def dest!: frames_cur)
  then show ?thesis using s' n tg by (auto simp: fresh_sub_def frame_at_def)
qed

theorem rollback_to_savepoint_restores_witness:
  "\<exists>s' t. exec_command env0 (TRANS_STMT_ROLLBACK_TO ''a'') failed_session = Inr s' \<and> frames s' = t # drop 2 (frames failed_session) \<and>
     name t = Some ''a'' \<and> subTransactionId t = 2"
proof -
  have 1: "FindTargetSavepoint (Some ''a'') failed_session = Inr 1" by code_simp
  have 2: "\<not> handlesDestroyedInCancelQuery failed_session" by code_simp
  have 3: "subTransactionId (frames failed_session ! 1) = 2" by code_simp
  show ?thesis using rollback_to_savepoint_restores [OF reach_nested(2) 1 2] 3 by (auto simp: numeral_2_eq_2)
qed

text \<open>
  C35. RELEASE of a savepoint commits the subtransactions from the current one down to the savepoint, innermost first, into
  the frame below it, and every deeper frame is as it was. The undo pointers that the loop of \<^verbatim>\<open>ReleaseSavepoint\<close> gathers on the way and
  writes once are those that handing them from each subtransaction to its parent, as at COMMIT, would leave.
\<close>

theorem release_savepoint_commits:
  assumes "sreach env False s" "\<not> IsAbortedTransactionBlockState s" "FindTargetSavepoint (Some nm) s = Inr i"
  shows "\<exists>s'. exec_command env (TRANS_STMT_RELEASE nm) s = Inr s' \<and>
     frames s' = carry_urp True (tl (take (Suc (Suc i)) (frames s))) (cur s) # drop (Suc (Suc i)) (frames s) \<and>
     xlog s' = log_commits (take (Suc i) (frames s)) @ xlog s \<and> TransactionBlockStatusCode s' = Inr CHR ''T''"
proof -
  have "in_block (frames s)" "numbered s"
    using find_cases [OF sreach_between [OF assms(1)] assms(3)] assms(2) Start_failed [of s] by (auto simp: failed_def)
  then show ?thesis using exec_release [OF _ _ assms(3), of env] status_block by blast
qed

theorem release_savepoint_commits_witness:
  "\<exists>s'. exec_command env0 (TRANS_STMT_RELEASE ''a'') nested_session = Inr s' \<and> length (frames s') = 1 \<and>
     xlog s' = [EvSubCommit 2, EvSubCommit 3, EvSubStart 3, EvSubStart 2, EvStart]"
proof -
  have 1: "FindTargetSavepoint (Some ''a'') nested_session = Inr 1" by code_simp
  have 2: "\<not> IsAbortedTransactionBlockState nested_session" by code_simp
  have 3: "log_commits (take (Suc 1) (frames nested_session)) @ xlog nested_session =
     [EvSubCommit 2, EvSubCommit 3, EvSubStart 3, EvSubStart 2, EvStart]" "length (drop (Suc (Suc 1)) (frames nested_session)) = 0"
    by code_simp+
  show ?thesis using release_savepoint_commits [OF reach_nested(1) 2 1] unfolding 3(1) using 3(2) by (metis One_nat_def length_Cons)
qed

text \<open>
  \<^verbatim>\<open>AbortOutOfAnyTransaction\<close> ends a session cleanly from every reachable state, between commands or in the middle of a
  query: it returns, the session is idle, and nothing was committed or prepared.
\<close>

theorem abort_out_of_any_ends_idle:
  assumes "sreach env q s"
  shows "\<exists>s'. AbortOutOfAnyTransaction False s = Inr s' \<and> idle s' \<and> no_commit_since s s'"
  using sreach_AbortOutOfAny [OF assms] by blast

theorem abort_out_of_any_ends_idle_witness:
  "\<exists>s'. AbortOutOfAnyTransaction False failed_session = Inr s' \<and> idle s' \<and> no_commit_since failed_session s'"
  by (rule abort_out_of_any_ends_idle [OF reach_nested(2)])

end
