(* ===== verification/OG_BufPage.thy ===== *)
theory OG_BufPage
  imports OG_Contracts "HOL-Library.Multiset"
begin

text \<open>
  \<^verbatim>\<open>src/gausskernel/storage/access/redo/redo_bufpage.cpp\<close> and \<^verbatim>\<open>src/gausskernel/storage/page/bufpage.cpp\<close>: the slotted
  page. A page of \<open>B\<close> bytes (\<^verbatim>\<open>BLCKSZ\<close>) has a header, the array of line pointers, free space, the tuples, which grow down
  from \<^verbatim>\<open>pd_special\<close>, and the special space.

  The record has the header fields the routines read and write, the line pointers below \<^verbatim>\<open>pd_lower\<close> as a list
  (what the array holds beyond \<^verbatim>\<open>pd_lower\<close> is never read before it is written), and the bytes of the page. The routines
  write tuples at or above \<^verbatim>\<open>pd_upper\<close> only and refuse a page with \<^verbatim>\<open>pd_lower > pd_upper\<close>, so that line pointers
  and tuple bytes never share storage. \<^verbatim>\<open>LocationIndex\<close> values are natural numbers below \<open>2 ^ 16\<close> and the offsets
  and lengths of line pointers below \<open>2 ^ 15\<close>: assignments to them reduce modulo these bounds.
  \<^verbatim>\<open>PageIndexTupleDelete\<close> and \<^verbatim>\<open>PageIndexMultiDelete\<close> are for index pages: they address the array at \<^verbatim>\<open>SizeOfPageHeaderData\<close>, and what they
  do to a page with the longer heap header is not modelled.
  \<^verbatim>\<open>qsort\<close> is a sort by the key it is given. A routine that raises ERROR or PANIC returns that; one that writes beyond its array of \<^verbatim>\<open>MaxHeapTuplesPerPage\<close> or
  \<^verbatim>\<open>MaxIndexTuplesPerPage\<close> entries returns \<open>Overrun\<close>. The size of an item is below \<open>2 ^ 31 - 8\<close>, so that the conversion of its aligned size to an int keeps its value.
\<close>

section \<open>Data\<close>

definition LP_UNUSED :: nat where "LP_UNUSED = 0"
definition LP_NORMAL :: nat where "LP_NORMAL = 1"
definition LP_REDIRECT :: nat where "LP_REDIRECT = 2"
definition LP_DEAD :: nat where "LP_DEAD = 3"

record ItemIdData =
  lp_off :: nat
  lp_flags :: nat
  lp_len :: nat

record Page =
  pd_flags :: uint16
  pd_lower :: nat
  pd_upper :: nat
  pd_special :: nat
  pd_pagesize_version :: uint16
  pd_linp :: "ItemIdData list"
  pd_data :: "uint8 list"

definition MAXALIGN :: "nat \<Rightarrow> nat" where
  "MAXALIGN len = (len + 7) div 8 * 8"

definition sizeof_ItemIdData :: nat where "sizeof_ItemIdData = 4"
definition SizeOfPageHeaderData :: nat where "SizeOfPageHeaderData = 24"
definition SizeOfHeapPageHeaderData :: nat where "SizeOfHeapPageHeaderData = 40"

definition MaxHeapTuplesPerPage :: "nat \<Rightarrow> nat" where
  "MaxHeapTuplesPerPage B = (B - SizeOfHeapPageHeaderData) div (MAXALIGN 23 + sizeof_ItemIdData)"

definition MaxIndexTuplesPerPage :: "nat \<Rightarrow> nat" where
  "MaxIndexTuplesPerPage B = (B - SizeOfPageHeaderData) div (MAXALIGN (8 + 1) + sizeof_ItemIdData)"

definition PD_HAS_FREE_LINES :: uint16 where "PD_HAS_FREE_LINES = 1"
definition PG_HEAP_PAGE_LAYOUT_VERSION :: uint16 where "PG_HEAP_PAGE_LAYOUT_VERSION = 6"
definition PG_COMM_PAGE_LAYOUT_VERSION :: uint16 where "PG_COMM_PAGE_LAYOUT_VERSION = 5"

definition PageGetPageSize :: "Page \<Rightarrow> nat" where
  "PageGetPageSize p = unat (pd_pagesize_version p AND 0xFF00)"

definition PageIs8BXidHeapVersion :: "Page \<Rightarrow> bool" where
  "PageIs8BXidHeapVersion p = (pd_pagesize_version p AND 0x00FF = PG_HEAP_PAGE_LAYOUT_VERSION)"

definition GetPageHeaderSize :: "Page \<Rightarrow> nat" where
  "GetPageHeaderSize p = (if PageIs8BXidHeapVersion p then SizeOfHeapPageHeaderData else SizeOfPageHeaderData)"

definition PageIsEmpty :: "Page \<Rightarrow> bool" where
  "PageIsEmpty p = (pd_lower p \<le> GetPageHeaderSize p)"

definition PageGetMaxOffsetNumber :: "Page \<Rightarrow> nat" where
  "PageGetMaxOffsetNumber p =
     (if pd_lower p \<le> GetPageHeaderSize p then 0 else (pd_lower p - GetPageHeaderSize p) div sizeof_ItemIdData)"

definition PageHasFreeLinePointers :: "Page \<Rightarrow> bool" where
  "PageHasFreeLinePointers p = (pd_flags p AND PD_HAS_FREE_LINES \<noteq> 0)"

definition PageSetHasFreeLinePointers :: "Page \<Rightarrow> Page" where
  "PageSetHasFreeLinePointers p = p\<lparr>pd_flags := pd_flags p OR PD_HAS_FREE_LINES\<rparr>"

definition PageClearHasFreeLinePointers :: "Page \<Rightarrow> Page" where
  "PageClearHasFreeLinePointers p = p\<lparr>pd_flags := pd_flags p AND NOT PD_HAS_FREE_LINES\<rparr>"

definition OffsetNumberIsValid :: "nat \<Rightarrow> nat \<Rightarrow> bool" where
  "OffsetNumberIsValid B off = (off \<noteq> 0 \<and> off \<le> B div sizeof_ItemIdData)"

definition ItemIdIsUsed :: "ItemIdData \<Rightarrow> bool" where
  "ItemIdIsUsed lp = (lp_flags lp \<noteq> LP_UNUSED)"

definition ItemIdHasStorage :: "ItemIdData \<Rightarrow> bool" where
  "ItemIdHasStorage lp = (lp_len lp \<noteq> 0)"

definition ItemIdSetUnused :: "ItemIdData \<Rightarrow> ItemIdData" where
  "ItemIdSetUnused lp = lp\<lparr>lp_flags := LP_UNUSED, lp_off := 0, lp_len := 0\<rparr>"

definition ItemIdSetNormal :: "nat \<Rightarrow> nat \<Rightarrow> ItemIdData" where
  "ItemIdSetNormal off len = \<lparr>lp_off = off mod 2 ^ 15, lp_flags = LP_NORMAL, lp_len = len mod 2 ^ 15\<rparr>"

definition set_off :: "nat \<Rightarrow> ItemIdData \<Rightarrow> ItemIdData" where
  "set_off off lp = lp\<lparr>lp_off := off mod 2 ^ 15\<rparr>"

text \<open>\<^verbatim>\<open>memmove_s\<close> inside the page, \<^verbatim>\<open>memcpy_s\<close> into it.\<close>

definition memmove :: "nat \<Rightarrow> nat \<Rightarrow> nat \<Rightarrow> uint8 list \<Rightarrow> uint8 list" where
  "memmove dst src n bs = take dst bs @ take n (drop src bs) @ drop (dst + n) bs"

definition memcpy :: "nat \<Rightarrow> uint8 list \<Rightarrow> nat \<Rightarrow> uint8 list \<Rightarrow> uint8 list" where
  "memcpy dst item n bs = take dst bs @ take n item @ drop (dst + n) bs"

section \<open>Operations\<close>

definition PageInit :: "nat \<Rightarrow> nat \<Rightarrow> bool \<Rightarrow> Page" where
  "PageInit pageSize specialSize isHeap =
     (let specialSize = MAXALIGN specialSize
      in \<lparr>pd_flags = 0,
          pd_lower = (if isHeap then SizeOfHeapPageHeaderData else SizeOfPageHeaderData),
          pd_upper = (pageSize - specialSize) mod 2 ^ 16,
          pd_special = (pageSize - specialSize) mod 2 ^ 16,
          pd_pagesize_version = of_nat pageSize OR (if isHeap then PG_HEAP_PAGE_LAYOUT_VERSION else PG_COMM_PAGE_LAYOUT_VERSION),
          pd_linp = [], pd_data = replicate pageSize 0\<rparr>)"

definition PageGetFreeSpace :: "Page \<Rightarrow> nat" where
  "PageGetFreeSpace p =
     (let space = int (pd_upper p) - int (pd_lower p)
      in if space < int sizeof_ItemIdData then 0 else nat (space - int sizeof_ItemIdData))"

definition PageGetExactFreeSpace :: "Page \<Rightarrow> nat" where
  "PageGetExactFreeSpace p =
     (let space = int (pd_upper p) - int (pd_lower p) in if space < 0 then 0 else nat space)"

definition PageGetFreeSpaceForMultipleTuples :: "Page \<Rightarrow> nat \<Rightarrow> nat" where
  "PageGetFreeSpaceForMultipleTuples p ntups =
     (let space = int (pd_upper p) - int (pd_lower p)
      in if space < int (ntups * sizeof_ItemIdData) then 0 else nat (space - int (ntups * sizeof_ItemIdData)))"

definition PageGetHeapFreeSpace :: "nat \<Rightarrow> Page \<Rightarrow> nat" where
  "PageGetHeapFreeSpace B p =
     (let space = PageGetFreeSpace p; nline = PageGetMaxOffsetNumber p
      in if space > 0 \<and> nline \<ge> MaxHeapTuplesPerPage B
         then if PageHasFreeLinePointers p
              then if list_all ItemIdIsUsed (take nline (pd_linp p)) then 0 else space
              else 0
         else space)"

definition corrupted :: "elevel \<Rightarrow> 'a result" where
  "corrupted l = Inl (Ereport l ERRCODE_DATA_CORRUPTED)"

text \<open>The search of \<^verbatim>\<open>PageAddItem\<close> for an unused line pointer, counting from \<open>off\<close>.\<close>

fun find_free :: "nat \<Rightarrow> ItemIdData list \<Rightarrow> nat" where
  "find_free off [] = off"
| "find_free off (lp # r) = (if \<not> ItemIdIsUsed lp \<and> \<not> ItemIdHasStorage lp then off else find_free (Suc off) r)"

text \<open>The second half of \<^verbatim>\<open>PageAddItem\<close>, once the offset number is selected.\<close>

definition add_at :: "nat \<Rightarrow> Page \<Rightarrow> uint8 list \<Rightarrow> nat \<Rightarrow> nat \<Rightarrow> bool \<Rightarrow> bool \<Rightarrow> nat \<times> Page" where
  "add_at B p item sz offsetNumber needshuffle is_heap =
     (let limit = PageGetMaxOffsetNumber p + 1
      in if offsetNumber > limit then (0, p)
         else if is_heap \<and> offsetNumber > MaxHeapTuplesPerPage B then (0, p)
         else let lower = (if offsetNumber = limit \<or> needshuffle then pd_lower p + sizeof_ItemIdData else pd_lower p);
                  alignedSize = MAXALIGN sz;
                  upper = int (pd_upper p) - int alignedSize
              in if int lower > upper then (0, p)
                 else let upper = nat upper; lp = ItemIdSetNormal upper sz; linp = pd_linp p;
                          linp = (if needshuffle then take (offsetNumber - 1) linp @ lp # drop (offsetNumber - 1) linp
                                  else if offsetNumber = limit then linp @ [lp]
                                  else linp[offsetNumber - 1 := lp])
                      in (offsetNumber,
                          p\<lparr>pd_linp := linp, pd_data := memcpy upper item sz (pd_data p),
                            pd_lower := lower mod 2 ^ 16, pd_upper := upper mod 2 ^ 16\<rparr>))"

definition PageAddItem :: "nat \<Rightarrow> Page \<Rightarrow> uint8 list \<Rightarrow> nat \<Rightarrow> nat \<Rightarrow> bool \<Rightarrow> bool \<Rightarrow> (nat \<times> Page) result" where
  "PageAddItem B p item sz offsetNumber overwrite is_heap =
     (if pd_lower p < GetPageHeaderSize p \<or> pd_lower p > pd_upper p \<or> pd_upper p > pd_special p \<or> pd_special p > B
      then corrupted PANIC
      else let limit = PageGetMaxOffsetNumber p + 1
           in Inr (if OffsetNumberIsValid B offsetNumber
                   then if overwrite
                        then if offsetNumber < limit \<and>
                                (ItemIdIsUsed (pd_linp p ! (offsetNumber - 1)) \<or> ItemIdHasStorage (pd_linp p ! (offsetNumber - 1)))
                             then (0, p)
                             else add_at B p item sz offsetNumber False is_heap
                        else add_at B p item sz offsetNumber (offsetNumber < limit) is_heap
                   else if PageHasFreeLinePointers p
                        then let off = find_free 1 (take (limit - 1) (pd_linp p));
                                 p = (if off \<ge> limit then PageClearHasFreeLinePointers p else p)
                             in add_at B p item sz off False is_heap
                        else add_at B p item sz limit False is_heap))"

text \<open>
  The entries of the array that is sorted: position in the line pointer array, offset of the data, aligned length; and the loop that
  moves the tuples up, highest first.
\<close>

type_synonym itemIdSortData = "nat \<times> nat \<times> nat"

fun compactify :: "itemIdSortData list \<Rightarrow> nat \<Rightarrow> ItemIdData list \<Rightarrow> uint8 list \<Rightarrow> nat \<times> ItemIdData list \<times> uint8 list" where
  "compactify [] upper linp bs = (upper, linp, bs)"
| "compactify ((i, itemoff, alignedlen) # r) upper linp bs =
     (let upper = upper - alignedlen
      in compactify r upper (linp[i := set_off upper (linp ! i)]) (memmove upper itemoff alignedlen bs))"

definition sort_desc :: "itemIdSortData list \<Rightarrow> itemIdSortData list" where
  "sort_desc xs = sort_key (\<lambda>(i, itemoff, alignedlen). - int itemoff) xs"

definition storage_entries :: "ItemIdData list \<Rightarrow> itemIdSortData list" where
  "storage_entries linp =
     map (\<lambda>(i, lp). (i, lp_off lp, MAXALIGN (lp_len lp))) (filter (\<lambda>(i, lp). ItemIdHasStorage lp) (enumerate 0 linp))"

text \<open>
  Each item with storage is entered into the array before its offset is checked, so that the routine leaves the array when the items that fit into it are in order and
  there are more.
\<close>

definition PageRepairFragmentation :: "nat \<Rightarrow> Page \<Rightarrow> Page result" where
  "PageRepairFragmentation B p =
     (if pd_lower p < SizeOfPageHeaderData \<or> pd_lower p > pd_upper p \<or> pd_upper p > pd_special p \<or> pd_special p > B \<or>
         pd_special p \<noteq> MAXALIGN (pd_special p)
      then corrupted ERROR
      else let linp = map (\<lambda>lp. if ItemIdIsUsed lp then lp else ItemIdSetUnused lp) (pd_linp p);
               nunused = length (filter (\<lambda>lp. \<not> ItemIdIsUsed lp) linp);
               nstorage = length (filter (\<lambda>lp. ItemIdIsUsed lp \<and> ItemIdHasStorage lp) linp);
               hint = (\<lambda>p. if nunused > 0 then PageSetHasFreeLinePointers p else PageClearHasFreeLinePointers p)
           in if nstorage = 0 then Inr (hint (p\<lparr>pd_linp := linp, pd_upper := pd_special p\<rparr>))
              else let entries = storage_entries linp; totallen = sum_list (map (\<lambda>(i, off, len). len) entries)
                   in if list_ex (\<lambda>(i, off, len). off < pd_upper p \<or> off \<ge> pd_special p) (take (MaxHeapTuplesPerPage B) entries) then corrupted ERROR
                      else if length entries > MaxHeapTuplesPerPage B then Inl Overrun
                      else if totallen > pd_special p - pd_lower p then corrupted ERROR
                      else let (upper, linp, bs) = compactify (sort_desc entries) (pd_special p) linp (pd_data p)
                           in Inr (hint (p\<lparr>pd_linp := linp, pd_data := bs, pd_upper := upper mod 2 ^ 16\<rparr>)))"

definition PageIndexTupleDelete :: "nat \<Rightarrow> Page \<Rightarrow> nat \<Rightarrow> Page result" where
  "PageIndexTupleDelete B p offnum =
     (if pd_lower p < SizeOfPageHeaderData \<or> pd_lower p > pd_upper p \<or> pd_upper p > pd_special p \<or> pd_special p > B
      then corrupted ERROR
      else let nline = PageGetMaxOffsetNumber p
           in if offnum = 0 \<or> offnum > nline then Inl (Ereport ERROR ERRCODE_INVALID_ROW_COUNT_IN_RESULT_OFFSET_CLAUSE)
              else let offidx = offnum - 1; tup = pd_linp p ! offidx; sz = lp_len tup; offset = lp_off tup
                   in if offset < pd_upper p \<or> offset + sz > pd_special p \<or> offset \<noteq> MAXALIGN offset \<or> sz \<noteq> MAXALIGN sz
                      then corrupted ERROR
                      else let linp = take offidx (pd_linp p) @ drop (Suc offidx) (pd_linp p);
                               bs = (if offset > pd_upper p
                                     then memmove (pd_upper p + sz) (pd_upper p) (offset - pd_upper p) (pd_data p) else pd_data p);
                               p = p\<lparr>pd_linp := linp, pd_data := bs, pd_upper := (pd_upper p + sz) mod 2 ^ 16,
                                     pd_lower := pd_lower p - sizeof_ItemIdData\<rparr>
                           in Inr (if PageIsEmpty p then p
                                   else p\<lparr>pd_linp := map (\<lambda>ii. if lp_off ii \<le> offset then set_off (lp_off ii + sz) ii else ii) (pd_linp p)\<rparr>))"

text \<open>The items that \<^verbatim>\<open>PageIndexMultiDelete\<close> keeps, and how many of \<^verbatim>\<open>itemnos\<close> it met.\<close>

fun keep_items :: "nat \<Rightarrow> nat list \<Rightarrow> ItemIdData list \<Rightarrow> ItemIdData list \<times> nat list" where
  "keep_items offnum itemnos [] = ([], itemnos)"
| "keep_items offnum itemnos (lp # r) =
     (if itemnos \<noteq> [] \<and> offnum = hd itemnos then keep_items (Suc offnum) (tl itemnos) r
      else let (kept, left) = keep_items (Suc offnum) itemnos r in (lp # kept, left))"

text \<open>The line pointers that it checks until an item to keep finds no room in the array, of which \<open>room\<close> entries are free.\<close>

fun scanned :: "nat \<Rightarrow> nat \<Rightarrow> nat list \<Rightarrow> ItemIdData list \<Rightarrow> ItemIdData list" where
  "scanned room offnum itemnos [] = []"
| "scanned room offnum itemnos (lp # r) =
     lp # (if itemnos \<noteq> [] \<and> offnum = hd itemnos then scanned room (Suc offnum) (tl itemnos) r
           else case room of 0 \<Rightarrow> [] | Suc room \<Rightarrow> scanned room (Suc offnum) itemnos r)"

fun retail_delete :: "nat \<Rightarrow> Page \<Rightarrow> nat list \<Rightarrow> Page result" where
  "retail_delete B p [] = Inr p"
| "retail_delete B p (i # r) = rbind (PageIndexTupleDelete B p i) (\<lambda>p. retail_delete B p r)"

definition PageIndexMultiDelete :: "nat \<Rightarrow> Page \<Rightarrow> nat list \<Rightarrow> Page result" where
  "PageIndexMultiDelete B p itemnos =
     (if length itemnos \<le> 2 then retail_delete B p (rev itemnos)
      else if pd_lower p < GetPageHeaderSize p \<or> pd_lower p > pd_upper p \<or> pd_upper p > pd_special p \<or> pd_special p > B \<or>
         pd_special p \<noteq> MAXALIGN (pd_special p)
      then corrupted ERROR
      else if list_ex (\<lambda>lp. lp_off lp < pd_upper p \<or> lp_off lp + lp_len lp > pd_special p \<or> lp_off lp \<noteq> MAXALIGN (lp_off lp))
                (scanned (MaxIndexTuplesPerPage B) 1 itemnos (pd_linp p))
      then corrupted ERROR
      else let (kept, left) = keep_items 1 itemnos (pd_linp p)
           in if length kept > MaxIndexTuplesPerPage B then Inl Overrun
              else if left \<noteq> [] then Inl (Ereport ERROR ERRCODE_INVALID_ROW_COUNT_IN_RESULT_OFFSET_CLAUSE)
              else let entries = map (\<lambda>(i, lp). (i, lp_off lp, MAXALIGN (lp_len lp))) (enumerate 0 kept);
                       totallen = sum_list (map (\<lambda>(i, off, len). len) entries)
                   in if totallen > pd_special p - pd_lower p then corrupted ERROR
                      else let (upper, linp, bs) = compactify (sort_desc entries) (pd_special p) kept (pd_data p)
                           in Inr (p\<lparr>pd_linp := linp, pd_data := bs, pd_upper := upper mod 2 ^ 16,
                                     pd_lower := (SizeOfPageHeaderData + length kept * sizeof_ItemIdData) mod 2 ^ 16\<rparr>))"

definition page_index_tuple_overwrite :: "nat \<Rightarrow> Page \<Rightarrow> nat \<Rightarrow> uint8 list \<Rightarrow> nat \<Rightarrow> (bool \<times> Page) result" where
  "page_index_tuple_overwrite B p offnum new_item new_size =
     (if pd_lower p < SizeOfPageHeaderData \<or> pd_lower p > pd_upper p \<or> pd_upper p > pd_special p \<or> pd_special p > B \<or>
         pd_special p \<noteq> MAXALIGN (pd_special p)
      then corrupted ERROR
      else let count = PageGetMaxOffsetNumber p
           in if offnum = 0 \<or> offnum > count then Inl (Ereport ERROR ERRCODE_INTERNAL_ERROR)
              else let item_id = pd_linp p ! (offnum - 1); old_size = lp_len item_id; offset = lp_off item_id
                   in if offset < pd_upper p \<or> offset + old_size > pd_special p \<or> offset \<noteq> MAXALIGN offset
                      then corrupted ERROR
                      else let aligned_old_size = MAXALIGN old_size; aligned_new_size = MAXALIGN new_size
                           in if aligned_new_size > aligned_old_size + (pd_upper p - pd_lower p) then Inr (False, p)
                              else let size_diff = int aligned_old_size - int aligned_new_size;
                                       shift = (\<lambda>n. nat (int n + size_diff));
                                       p = (if size_diff \<noteq> 0
                                            then p\<lparr>pd_data := (if offset \<noteq> pd_upper p
                                                   then memmove (shift (pd_upper p)) (pd_upper p) (offset - pd_upper p) (pd_data p)
                                                   else pd_data p),
                                                   pd_upper := shift (pd_upper p) mod 2 ^ 16,
                                                   pd_linp := map (\<lambda>ii. if ItemIdHasStorage ii \<and> lp_off ii \<le> offset
                                                                         then set_off (shift (lp_off ii)) ii else ii) (pd_linp p)\<rparr>
                                            else p);
                                       lp = (set_off (shift offset) (pd_linp p ! (offnum - 1)))\<lparr>lp_len := new_size mod 2 ^ 15\<rparr>
                                   in Inr (True, p\<lparr>pd_linp := (pd_linp p)[offnum - 1 := lp],
                                                   pd_data := memcpy (lp_off lp) new_item new_size (pd_data p)\<rparr>))"

section \<open>Bytes\<close>

definition bytes_at :: "nat \<Rightarrow> nat \<Rightarrow> uint8 list \<Rightarrow> uint8 list" where
  "bytes_at off n bs = take n (drop off bs)"

lemma bytes_at_0 [simp]: "bytes_at off 0 bs = []"
  by (simp add: bytes_at_def)

lemma length_bytes_at: "off + n \<le> length bs \<Longrightarrow> length (bytes_at off n bs) = n"
  by (simp add: bytes_at_def)

lemma bytes_at_eqI:
  assumes "off + n \<le> length bs" "off' + n \<le> length bs'" "\<And>k. k < n \<Longrightarrow> bs ! (off + k) = bs' ! (off' + k)"
  shows "bytes_at off n bs = bytes_at off' n bs'"
  using assms by (intro nth_equalityI) (auto simp: bytes_at_def)

lemma length_memmove: "dst + n \<le> length bs \<Longrightarrow> src + n \<le> length bs \<Longrightarrow> length (memmove dst src n bs) = length bs"
  by (simp add: memmove_def)

lemma nth_memmove:
  assumes "dst + n \<le> length bs" "src + n \<le> length bs" "k < length bs"
  shows "memmove dst src n bs ! k = (if dst \<le> k \<and> k < dst + n then bs ! (src + (k - dst)) else bs ! k)"
  using assms by (auto simp: memmove_def nth_append)

lemma bytes_at_memmove:
  assumes "dst + n \<le> length bs" "src + n \<le> length bs" "m \<le> n"
  shows "bytes_at dst m (memmove dst src n bs) = bytes_at src m bs"
  using assms by (intro bytes_at_eqI) (auto simp: length_memmove nth_memmove)

lemma bytes_at_memmove_other:
  assumes "dst + n \<le> length bs" "src + n \<le> length bs" "off + m \<le> length bs" "off + m \<le> dst \<or> dst + n \<le> off"
  shows "bytes_at off m (memmove dst src n bs) = bytes_at off m bs"
  using assms by (intro bytes_at_eqI) (auto simp: length_memmove nth_memmove)

lemma length_memcpy: "dst + n \<le> length bs \<Longrightarrow> n \<le> length item \<Longrightarrow> length (memcpy dst item n bs) = length bs"
  by (simp add: memcpy_def)

lemma bytes_at_memcpy: "dst + n \<le> length bs \<Longrightarrow> n \<le> length item \<Longrightarrow> bytes_at dst n (memcpy dst item n bs) = take n item"
  by (simp add: memcpy_def bytes_at_def)

lemma bytes_at_memcpy_other:
  assumes "dst + n \<le> length bs" "n \<le> length item" "off + m \<le> length bs" "off + m \<le> dst \<or> dst + n \<le> off"
  shows "bytes_at off m (memcpy dst item n bs) = bytes_at off m bs"
  using assms by (intro bytes_at_eqI) (auto simp: length_memcpy memcpy_def nth_append)

lemma MAXALIGN_simps [simp]: "8 dvd MAXALIGN n" "n \<le> MAXALIGN n" "MAXALIGN 0 = 0" "MAXALIGN n = 0 \<longleftrightarrow> n = 0"
  "8 dvd n \<Longrightarrow> MAXALIGN n = n"
proof -
  show "8 dvd MAXALIGN n" by (simp add: MAXALIGN_def)
  show "n \<le> MAXALIGN n" unfolding MAXALIGN_def by linarith
  show "MAXALIGN 0 = 0" by (simp add: MAXALIGN_def)
  show "MAXALIGN n = 0 \<longleftrightarrow> n = 0" unfolding MAXALIGN_def by auto
  show "8 dvd n \<Longrightarrow> MAXALIGN n = n" unfolding MAXALIGN_def by (elim dvdE) simp
qed

section \<open>Compaction\<close>

text \<open>Entries from high to low that do not overlap.\<close>

fun stacked :: "nat \<Rightarrow> itemIdSortData list \<Rightarrow> bool" where
  "stacked hi [] = True"
| "stacked hi ((i, off, len) # r) = (off + len \<le> hi \<and> stacked off r)"

text \<open>Where the entries end up: without gaps below \<open>upper\<close>.\<close>

fun placed :: "nat \<Rightarrow> itemIdSortData list \<Rightarrow> itemIdSortData list" where
  "placed upper [] = []"
| "placed upper ((i, off, len) # r) = (i, upper - len, len) # placed (upper - len) r"

abbreviation entry_len :: "itemIdSortData \<Rightarrow> nat" where
  "entry_len e \<equiv> snd (snd e)"

definition total_len :: "itemIdSortData list \<Rightarrow> nat" where
  "total_len es = sum_list (map entry_len es)"

lemma total_len_simps [simp]: "total_len [] = 0" "total_len (e # es) = entry_len e + total_len es"
  by (simp_all add: total_len_def)

lemma stacked_mono: "stacked hi es \<Longrightarrow> hi \<le> hi' \<Longrightarrow> stacked hi' es"
  by (cases es) auto

lemma stacked_bound: "stacked hi es \<Longrightarrow> (i, off, len) \<in> set es \<Longrightarrow> off + len \<le> hi"
  by (induction hi es rule: stacked.induct) auto

lemma stacked_total: "stacked hi es \<Longrightarrow> (i, off, len) \<in> set es \<Longrightarrow> total_len es \<le> hi"
proof (induction hi es arbitrary: i off len rule: stacked.induct)
  case (2 hi i' off' len' r)
  then have s: "off' + len' \<le> hi" "stacked off' r" by auto
  show ?case
  proof (cases r)
    case (Cons e r')
    then obtain a b c where "(a, b, c) \<in> set r" by (cases e) auto
    then show ?thesis using "2.IH" s by fastforce
  qed (use s in simp)
qed simp

lemma total_le: "stacked hi es \<Longrightarrow> total_len es \<le> hi"
  by (cases es) (auto dest: stacked_total)

lemma stacked_disjoint:
  "stacked hi es \<Longrightarrow> (i, off, len) \<in> set es \<Longrightarrow> (i', off', len') \<in> set es \<Longrightarrow> (i, off, len) \<noteq> (i', off', len') \<Longrightarrow>
   off + len \<le> off' \<or> off' + len' \<le> off"
proof (induction hi es rule: stacked.induct)
  case (2 hi j o' l r)
  then show ?case using stacked_bound [of o' r] by (auto dest: stacked_bound)
qed simp

lemma placed_stacked: "total_len es \<le> upper \<Longrightarrow> stacked upper (placed upper es)"
  by (induction upper es rule: placed.induct) auto

lemma placed_bounds: "(i, off, len) \<in> set (placed upper es) \<Longrightarrow> total_len es \<le> upper \<Longrightarrow> upper - total_len es \<le> off \<and> off + len \<le> upper"
proof (induction upper es rule: placed.induct)
  case (2 upper j o' l r)
  have "l + total_len r \<le> upper" using "2.prems"(2) by simp
  then have "total_len r \<le> upper - l" "l \<le> upper" "upper - l \<le> upper" "upper - (l + total_len r) = upper - l - total_len r" by auto
  then show ?case
    using "2.IH" "2.prems"(1) by (cases "(i, off, len) = (j, upper - l, l)") auto
qed simp

lemma placed_aligned:
  "(i, off, len) \<in> set (placed upper es) \<Longrightarrow> total_len es \<le> upper \<Longrightarrow> 8 dvd upper \<Longrightarrow> \<forall>e \<in> set es. 8 dvd entry_len e \<Longrightarrow> 8 dvd off"
  by (induction upper es rule: placed.induct) auto

lemma placed_fst: "map fst (placed upper es) = map fst es" "map entry_len (placed upper es) = map entry_len es"
  by (induction upper es rule: placed.induct) auto

text \<open>The loop: it puts every entry in its place, with its bytes, and touches nothing at or above \<open>upper\<close>.\<close>

lemma compactify_correct:
  assumes "stacked hi es" "hi \<le> upper" "upper \<le> length bs" "distinct (map fst es)" "\<forall>e \<in> set es. fst e < length linp"
    and "compactify es upper linp bs = (u, linp', bs')"
  shows "u = upper - total_len es \<and> length linp' = length linp \<and> length bs' = length bs \<and>
    (\<forall>k. upper \<le> k \<and> k < length bs \<longrightarrow> bs' ! k = bs ! k) \<and>
    (\<forall>i < length linp. i \<notin> set (map fst es) \<longrightarrow> linp' ! i = linp ! i) \<and>
    (\<forall>(i, off, len) \<in> set es. \<exists>off'. (i, off', len) \<in> set (placed upper es) \<and> linp' ! i = set_off off' (linp ! i) \<and>
       bytes_at off' len bs' = bytes_at off len bs)"
  using assms
proof (induction es arbitrary: hi upper linp bs)
  case Nil
  then show ?case by simp
next
  case (Cons e es)
  obtain i off len where e: "e = (i, off, len)" by (cases e)
  let ?u = "upper - len" let ?linp = "linp[i := set_off (upper - len) (linp ! i)]" let ?bs = "memmove (upper - len) off len bs"
  have st: "off + len \<le> upper" "stacked off es" using Cons.prems(1,2) e by auto
  have lb: "length ?bs = length bs" using st Cons.prems(3) by (intro length_memmove) auto
  have tot: "total_len es \<le> off" using total_le [OF st(2)] .
  have run: "compactify es ?u ?linp ?bs = (u, linp', bs')" using Cons.prems(6) e by (simp add: Let_def)
  have ih: "u = ?u - total_len es \<and> length linp' = length ?linp \<and> length bs' = length ?bs \<and>
    (\<forall>k. ?u \<le> k \<and> k < length ?bs \<longrightarrow> bs' ! k = ?bs ! k) \<and>
    (\<forall>i < length ?linp. i \<notin> set (map fst es) \<longrightarrow> linp' ! i = ?linp ! i) \<and>
    (\<forall>(i, off, len) \<in> set es. \<exists>off'. (i, off', len) \<in> set (placed ?u es) \<and> linp' ! i = set_off off' (?linp ! i) \<and>
       bytes_at off' len bs' = bytes_at off len ?bs)"
    by (rule Cons.IH [OF st(2) _ _ _ _ run]) (use Cons.prems e st lb in auto)
  have nth: "?bs ! k = (if ?u \<le> k \<and> k < ?u + len then bs ! (off + (k - ?u)) else bs ! k)" if "k < length bs" for k
    using that st Cons.prems(3) by (intro nth_memmove) auto
  have i: "i < length linp" "i \<notin> set (map fst es)" using Cons.prems(4,5) e by auto
  have here: "linp' ! i = set_off ?u (linp ! i)" using ih i by auto
  have bytes: "bytes_at ?u len bs' = bytes_at off len bs"
  proof (rule bytes_at_eqI)
    show "?u + len \<le> length bs'" "off + len \<le> length bs" using ih lb st Cons.prems(3) by auto
    fix k assume "k < len"
    then have k: "?u + k < length bs" "?u \<le> ?u + k" "?u + k < ?u + len" using st Cons.prems(3) by auto
    then have "bs' ! (?u + k) = ?bs ! (?u + k)" using ih lb by auto
    then show "bs' ! (?u + k) = bs ! (off + k)" using nth [OF k(1)] k by simp
  qed
  have rest: "\<exists>off'. (j, off', l) \<in> set (placed ?u es) \<and> linp' ! j = set_off off' (linp ! j) \<and> bytes_at off' l bs' = bytes_at o' l bs"
    if m: "(j, o', l) \<in> set es" for j o' l
  proof -
    have "o' + l \<le> off" using stacked_bound [OF st(2) m] .
    then have b: "bytes_at o' l ?bs = bytes_at o' l bs"
      using st Cons.prems(3) by (intro bytes_at_memmove_other) auto
    have "j \<noteq> i" using i(2) m by force
    then have "?linp ! j = linp ! j" by simp
    moreover obtain off' where "(j, off', l) \<in> set (placed ?u es)" "linp' ! j = set_off off' (?linp ! j)" "bytes_at off' l bs' = bytes_at o' l ?bs"
      using bspec [OF ih [THEN conjunct2, THEN conjunct2, THEN conjunct2, THEN conjunct2, THEN conjunct2] m] by auto
    ultimately show ?thesis using b by auto
  qed
  have c1: "u = upper - total_len (e # es)" "length linp' = length linp" "length bs' = length bs" using ih e lb by auto
  have c2: "bs' ! k = bs ! k" if "upper \<le> k" "k < length bs" for k
    using ih nth [OF that(2)] that st lb by auto
  have c3: "linp' ! j = linp ! j" if "j < length linp" "j \<notin> set (map fst (e # es))" for j
    using ih that e by auto
  have c4: "\<exists>off'. (j, off', l) \<in> set (placed upper (e # es)) \<and> linp' ! j = set_off off' (linp ! j) \<and> bytes_at off' l bs' = bytes_at o' l bs"
    if "(j, o', l) \<in> set (e # es)" for j o' l
  proof (cases "(j, o', l) = e")
    case True
    then show ?thesis using here bytes e by (intro exI [of _ ?u]) simp
  next
    case False
    then have "(j, o', l) \<in> set es" using that by simp
    from rest [OF this] show ?thesis using e by auto
  qed
  show ?case using c1 c2 c3 c4 by blast
qed

lemma stacked_sorted:
  assumes "sorted_wrt (\<lambda>a b. fst (snd b) \<le> fst (snd a)) es" "\<forall>e \<in> set es. fst (snd e) + entry_len e \<le> hi \<and> 0 < entry_len e"
    and "distinct es" "\<forall>a \<in> set es. \<forall>b \<in> set es. a \<noteq> b \<longrightarrow>
        fst (snd a) + entry_len a \<le> fst (snd b) \<or> fst (snd b) + entry_len b \<le> fst (snd a)"
  shows "stacked hi es"
  using assms
proof (induction es arbitrary: hi)
  case (Cons e es)
  obtain i off len where e: "e = (i, off, len)" by (cases e)
  have "fst (snd x) + entry_len x \<le> off \<and> 0 < entry_len x" if "x \<in> set es" for x
    using Cons.prems that e by force
  then show ?case using Cons.IH [of off] Cons.prems e by auto
qed simp

lemma sort_desc_simps: "mset (sort_desc es) = mset es" "set (sort_desc es) = set es"
  "sorted_wrt (\<lambda>a b. fst (snd b) \<le> fst (snd a)) (sort_desc es)" "distinct (sort_desc es) = distinct es"
  "distinct (map fst (sort_desc es)) = distinct (map fst es)" "total_len (sort_desc es) = total_len es"
proof -
  show m: "mset (sort_desc es) = mset es" and "set (sort_desc es) = set es" by (simp_all add: sort_desc_def)
  have "sorted (map (\<lambda>(i, itemoff, alignedlen). - int itemoff) (sort_desc es))" unfolding sort_desc_def by (rule sorted_sort_key)
  then show "sorted_wrt (\<lambda>a b. fst (snd b) \<le> fst (snd a)) (sort_desc es)"
    by (simp add: sorted_map case_prod_unfold)
  show "distinct (sort_desc es) = distinct es" using m by (rule mset_eq_imp_distinct_iff)
  have "mset (map fst (sort_desc es)) = mset (map fst es)" using m by simp
  then show "distinct (map fst (sort_desc es)) = distinct (map fst es)" by (rule mset_eq_imp_distinct_iff)
  have "mset (map entry_len (sort_desc es)) = mset (map entry_len es)" using m by simp
  then show "total_len (sort_desc es) = total_len es" unfolding total_len_def by (metis sum_mset_sum_list)
qed

section \<open>Well-formed pages\<close>

text \<open>Items with storage lie aligned between \<open>lo\<close> and \<open>hi\<close> and do not overlap.\<close>

definition items_apart :: "ItemIdData \<Rightarrow> ItemIdData \<Rightarrow> bool" where
  "items_apart a b \<longleftrightarrow> lp_off a + MAXALIGN (lp_len a) \<le> lp_off b \<or> lp_off b + MAXALIGN (lp_len b) \<le> lp_off a"

definition item_within :: "nat \<Rightarrow> nat \<Rightarrow> ItemIdData \<Rightarrow> bool" where
  "item_within lo hi a \<longleftrightarrow> (ItemIdHasStorage a \<longrightarrow> lo \<le> lp_off a \<and> lp_off a + MAXALIGN (lp_len a) \<le> hi \<and> 8 dvd lp_off a)"

definition items_ok :: "nat \<Rightarrow> nat \<Rightarrow> ItemIdData list \<Rightarrow> bool" where
  "items_ok lo hi linp \<longleftrightarrow> (\<forall>a \<in> set linp. item_within lo hi a) \<and>
     (\<forall>i < length linp. \<forall>j < length linp. i \<noteq> j \<and> ItemIdHasStorage (linp ! i) \<and> ItemIdHasStorage (linp ! j) \<longrightarrow>
       items_apart (linp ! i) (linp ! j))"

text \<open>What the clients of a page see: the state and the bytes of each item.\<close>

definition items_of :: "ItemIdData list \<Rightarrow> uint8 list \<Rightarrow> (nat \<times> uint8 list) list" where
  "items_of linp bs = map (\<lambda>lp. (lp_flags lp, bytes_at (lp_off lp) (lp_len lp) bs)) linp"

definition page_items :: "Page \<Rightarrow> (nat \<times> uint8 list) list" where
  "page_items p = items_of (pd_linp p) (pd_data p)"

definition page_ok :: "nat \<Rightarrow> Page \<Rightarrow> bool" where
  "page_ok B p \<longleftrightarrow> B \<le> 2 ^ 15 \<and> 8 dvd B \<and> length (pd_data p) = B \<and>
     pd_lower p = GetPageHeaderSize p + sizeof_ItemIdData * length (pd_linp p) \<and>
     pd_lower p \<le> pd_upper p \<and> pd_upper p \<le> pd_special p \<and> pd_special p \<le> B \<and> 8 dvd pd_upper p \<and> 8 dvd pd_special p \<and>
     (\<forall>lp \<in> set (pd_linp p). \<not> ItemIdIsUsed lp \<longrightarrow> \<not> ItemIdHasStorage lp) \<and> items_ok (pd_upper p) (pd_special p) (pd_linp p)"

lemma MAXALIGN_pos [simp]: "0 < MAXALIGN n \<longleftrightarrow> 0 < n"
  using MAXALIGN_simps(4) [of n] by linarith

lemma total_len_dvd: "\<forall>e \<in> set es. 8 dvd entry_len e \<Longrightarrow> 8 dvd total_len es"
  by (induction es) auto

lemma header_size: "GetPageHeaderSize p \<in> {24, 40}"
  by (simp add: GetPageHeaderSize_def SizeOfHeapPageHeaderData_def SizeOfPageHeaderData_def)

lemma page_ok_nline: "page_ok B p \<Longrightarrow> PageGetMaxOffsetNumber p = length (pd_linp p)"
  by (simp add: page_ok_def PageGetMaxOffsetNumber_def sizeof_ItemIdData_def)

lemma storage_entries_iff:
  "(i, off, len) \<in> set (storage_entries linp) \<longleftrightarrow>
   i < length linp \<and> ItemIdHasStorage (linp ! i) \<and> off = lp_off (linp ! i) \<and> len = MAXALIGN (lp_len (linp ! i))"
  by (force simp: storage_entries_def in_set_enumerate_eq)

lemma storage_entries_fst: "map fst (storage_entries linp) = map fst (filter (\<lambda>(i, lp). ItemIdHasStorage lp) (enumerate 0 linp))"
  by (simp add: storage_entries_def comp_def case_prod_unfold)

lemma distinct_storage_entries: "distinct (map fst (storage_entries linp))"
  unfolding storage_entries_fst by (rule distinct_map_filter) (simp add: distinct_enumerate)

lemma stacked_storage:
  assumes "items_ok lo hi linp"
  shows "stacked hi (sort_desc (storage_entries linp))"
proof (rule stacked_sorted)
  show "sorted_wrt (\<lambda>a b. fst (snd b) \<le> fst (snd a)) (sort_desc (storage_entries linp))" by (rule sort_desc_simps)
  show "distinct (sort_desc (storage_entries linp))"
    unfolding sort_desc_simps using distinct_storage_entries distinct_map by blast
  show "\<forall>e \<in> set (sort_desc (storage_entries linp)). fst (snd e) + entry_len e \<le> hi \<and> 0 < entry_len e"
    using assms by (auto simp: sort_desc_simps storage_entries_iff items_ok_def item_within_def ItemIdHasStorage_def)
  show "\<forall>a \<in> set (sort_desc (storage_entries linp)). \<forall>b \<in> set (sort_desc (storage_entries linp)). a \<noteq> b \<longrightarrow>
      fst (snd a) + entry_len a \<le> fst (snd b) \<or> fst (snd b) + entry_len b \<le> fst (snd a)"
    unfolding sort_desc_simps(2)
  proof (intro ballI impI)
    fix a b assume ab: "a \<in> set (storage_entries linp)" "b \<in> set (storage_entries linp)" "a \<noteq> b"
    obtain i o1 l1 j o2 l2 where e: "a = (i, o1, l1)" "b = (j, o2, l2)" by (cases a, cases b)
    then have "i \<noteq> j" using ab by (auto simp: storage_entries_iff)
    then have "items_apart (linp ! i) (linp ! j)" using assms ab e by (auto simp: storage_entries_iff items_ok_def)
    then show "fst (snd a) + entry_len a \<le> fst (snd b) \<or> fst (snd b) + entry_len b \<le> fst (snd a)"
      using ab e by (auto simp: storage_entries_iff items_apart_def)
  qed
qed

lemma set_off_simps [simp]: "lp_len (set_off o' lp) = lp_len lp" "lp_flags (set_off o' lp) = lp_flags lp"
  "lp_off (set_off o' lp) = o' mod 2 ^ 15" "ItemIdHasStorage (set_off o' lp) = ItemIdHasStorage lp"
  "ItemIdIsUsed (set_off o' lp) = ItemIdIsUsed lp"
  by (simp_all add: set_off_def ItemIdHasStorage_def ItemIdIsUsed_def)

lemma length_storage_entries: "length (storage_entries linp) = length (filter ItemIdHasStorage linp)"
proof -
  have "length (filter (\<lambda>(i, lp). ItemIdHasStorage lp) (enumerate n linp)) = length (filter ItemIdHasStorage linp)" for n
    by (induction linp arbitrary: n) simp_all
  then show ?thesis by (simp add: storage_entries_def)
qed

lemma compactify_others: "compactify es u linp bs = (u', linp', bs') \<Longrightarrow> i \<notin> fst ` set es \<Longrightarrow> linp' ! i = linp ! i"
  by (induction es u linp bs rule: compactify.induct) (auto simp: Let_def)

text \<open>Compaction of the items of a page.\<close>

lemma compactify_items:
  assumes ok: "items_ok lo hi linp" and hi: "hi \<le> length bs" "hi \<le> 2 ^ 15" "8 dvd hi"
    and run: "compactify (sort_desc (storage_entries linp)) hi linp bs = (u, linp', bs')"
  shows "u = hi - total_len (storage_entries linp)" "total_len (storage_entries linp) \<le> hi" "length bs' = length bs"
    "drop hi bs' = drop hi bs" "items_ok u hi linp'" "items_of linp' bs' = items_of linp bs" "8 dvd u"
    "length linp' = length linp" "\<forall>i < length linp. linp' ! i = linp ! i \<or> (\<exists>off. linp' ! i = set_off off (linp ! i))"
proof -
  let ?es = "sort_desc (storage_entries linp)"
  have st: "stacked hi ?es" by (rule stacked_storage [OF ok])
  have tot: "total_len ?es = total_len (storage_entries linp)" by (rule sort_desc_simps)
  show le: "total_len (storage_entries linp) \<le> hi" using total_le [OF st] tot by simp
  have di: "distinct (map fst ?es)" using distinct_storage_entries sort_desc_simps(5) by blast
  have bd: "\<forall>e \<in> set ?es. fst e < length linp" by (auto simp: sort_desc_simps storage_entries_iff)
  note c = compactify_correct [OF st order_refl hi(1) di bd run]
  show "u = hi - total_len (storage_entries linp)" "length bs' = length bs" and len: "length linp' = length linp" using c tot by auto
  show "drop hi bs' = drop hi bs" using c hi(1) by (intro nth_equalityI) auto
  have al: "\<forall>e \<in> set ?es. 8 dvd entry_len e" by (auto simp: sort_desc_simps storage_entries_iff)
  have "8 dvd total_len (storage_entries linp)" using al tot total_len_dvd by metis
  then show "8 dvd u" using c tot hi(3) le by (simp add: dvd_diff_nat)
  have stp: "stacked hi (placed hi ?es)" using placed_stacked le tot by simp
  have here: "\<exists>off'. (i, off', MAXALIGN (lp_len (linp ! i))) \<in> set (placed hi ?es) \<and> linp' ! i = set_off off' (linp ! i) \<and>
      bytes_at off' (MAXALIGN (lp_len (linp ! i))) bs' = bytes_at (lp_off (linp ! i)) (MAXALIGN (lp_len (linp ! i))) bs \<and>
      off' < 2 ^ 15 \<and> u \<le> off' \<and> off' + MAXALIGN (lp_len (linp ! i)) \<le> hi \<and> 8 dvd off'"
    if i: "i < length linp" "ItemIdHasStorage (linp ! i)" for i
  proof -
    have "(i, lp_off (linp ! i), MAXALIGN (lp_len (linp ! i))) \<in> set ?es"
      using i by (simp add: sort_desc_simps storage_entries_iff)
    from bspec [OF c [THEN conjunct2, THEN conjunct2, THEN conjunct2, THEN conjunct2, THEN conjunct2] this]
    obtain off' where o: "(i, off', MAXALIGN (lp_len (linp ! i))) \<in> set (placed hi ?es)" "linp' ! i = set_off off' (linp ! i)"
      "bytes_at off' (MAXALIGN (lp_len (linp ! i))) bs' = bytes_at (lp_off (linp ! i)) (MAXALIGN (lp_len (linp ! i))) bs"
      by auto
    have b: "u \<le> off'" "off' + MAXALIGN (lp_len (linp ! i)) \<le> hi"
      using placed_bounds [OF o(1)] le tot c by auto
    have "0 < MAXALIGN (lp_len (linp ! i))" using i by (simp add: ItemIdHasStorage_def)
    then have "off' < 2 ^ 15" using b hi(2) by linarith
    moreover have "8 dvd off'" using placed_aligned [OF o(1) _ hi(3) al] le tot by simp
    ultimately show ?thesis using o b by blast
  qed
  have other: "linp' ! i = linp ! i" if "i < length linp" "\<not> ItemIdHasStorage (linp ! i)" for i
  proof -
    have "i \<notin> set (map fst ?es)" using that by (auto simp: sort_desc_simps storage_entries_iff)
    then show ?thesis using c that by blast
  qed
  show "\<forall>i < length linp. linp' ! i = linp ! i \<or> (\<exists>off. linp' ! i = set_off off (linp ! i))"
    using here other by blast
  have stor: "ItemIdHasStorage (linp' ! i) = ItemIdHasStorage (linp ! i)" if "i < length linp" for i
    using here [OF that] other [OF that] by (cases "ItemIdHasStorage (linp ! i)") auto
  show "items_ok u hi linp'"
    unfolding items_ok_def
  proof (intro conjI allI impI ballI)
    fix a assume "a \<in> set linp'"
    then obtain i where i: "i < length linp" "a = linp' ! i" using len by (auto simp: in_set_conv_nth)
    show "item_within u hi a"
    proof (cases "ItemIdHasStorage (linp ! i)")
      case True
      then show ?thesis using here [OF i(1) True] i(2) by (auto simp: item_within_def)
    next
      case False
      then show ?thesis using other [OF i(1) False] i(2) by (simp add: item_within_def)
    qed
  next
    fix i j assume ij: "i < length linp'" "j < length linp'" "i \<noteq> j \<and> ItemIdHasStorage (linp' ! i) \<and> ItemIdHasStorage (linp' ! j)"
    then have "ItemIdHasStorage (linp ! i)" "ItemIdHasStorage (linp ! j)" "i < length linp" "j < length linp" using stor len by auto
    then obtain a b where "(i, a, MAXALIGN (lp_len (linp ! i))) \<in> set (placed hi ?es)" "linp' ! i = set_off a (linp ! i)" "a < 2 ^ 15"
      "(j, b, MAXALIGN (lp_len (linp ! j))) \<in> set (placed hi ?es)" "linp' ! j = set_off b (linp ! j)" "b < 2 ^ 15"
      using here by metis
    then show "items_apart (linp' ! i) (linp' ! j)"
      using stacked_disjoint [OF stp] ij by (auto simp: items_apart_def)
  qed
  show "items_of linp' bs' = items_of linp bs"
  proof (rule nth_equalityI)
    show "length (items_of linp' bs') = length (items_of linp bs)" using len by (simp add: items_of_def)
    fix i assume "i < length (items_of linp' bs')"
    then have i: "i < length linp" using len by (simp add: items_of_def)
    show "items_of linp' bs' ! i = items_of linp bs ! i"
    proof (cases "ItemIdHasStorage (linp ! i)")
      case True
      let ?l = "lp_len (linp ! i)"
      obtain off' where o: "linp' ! i = set_off off' (linp ! i)" "off' < 2 ^ 15"
        "bytes_at off' (MAXALIGN ?l) bs' = bytes_at (lp_off (linp ! i)) (MAXALIGN ?l) bs"
        using here [OF i True] by blast
      have "take ?l (bytes_at off' (MAXALIGN ?l) bs') = take ?l (bytes_at (lp_off (linp ! i)) (MAXALIGN ?l) bs)"
        using o(3) by simp
      then have "bytes_at off' ?l bs' = bytes_at (lp_off (linp ! i)) ?l bs" by (simp add: bytes_at_def min_def)
      then show ?thesis using o i len by (simp add: items_of_def)
    next
      case False
      then show ?thesis using other [OF i False] i len by (simp add: items_of_def ItemIdHasStorage_def)
    qed
  qed
qed

lemma stacked_total_lo: "stacked hi es \<Longrightarrow> \<forall>e \<in> set es. lo \<le> fst (snd e) \<Longrightarrow> lo \<le> hi \<Longrightarrow> total_len es \<le> hi - lo"
proof (induction hi es rule: stacked.induct)
  case (2 hi i off len r)
  then have "total_len r \<le> off - lo" "off + len \<le> hi" "lo \<le> off" by auto
  then show ?case by simp
qed simp

lemma total_storage:
  assumes "items_ok lo hi linp" "lo \<le> hi"
  shows "total_len (storage_entries linp) \<le> hi - lo"
proof -
  have "\<forall>e \<in> set (sort_desc (storage_entries linp)). lo \<le> fst (snd e)"
    using assms(1) by (auto simp: sort_desc_simps storage_entries_iff items_ok_def item_within_def)
  then show ?thesis using stacked_total_lo [OF stacked_storage [OF assms(1)] _ assms(2)] sort_desc_simps(6) by metis
qed

lemma storage_entries_map:
  assumes "\<forall>lp \<in> set linp. ItemIdHasStorage (f lp) = ItemIdHasStorage lp \<and> (ItemIdHasStorage lp \<longrightarrow> f lp = lp)"
  shows "storage_entries (map f linp) = storage_entries linp"
proof -
  have "map (\<lambda>(i, lp). (i, lp_off lp, MAXALIGN (lp_len lp))) (filter (\<lambda>(i, lp). ItemIdHasStorage lp) (enumerate n (map f linp))) =
    map (\<lambda>(i, lp). (i, lp_off lp, MAXALIGN (lp_len lp))) (filter (\<lambda>(i, lp). ItemIdHasStorage lp) (enumerate n linp))" for n
    using assms by (induction linp arbitrary: n) auto
  then show ?thesis by (simp add: storage_entries_def)
qed

lemma items_ok_map:
  assumes "\<forall>lp \<in> set linp. ItemIdHasStorage (f lp) = ItemIdHasStorage lp \<and> (ItemIdHasStorage lp \<longrightarrow> f lp = lp)"
  shows "items_ok lo hi (map f linp) \<longleftrightarrow> items_ok lo hi linp"
  using assms unfolding items_ok_def by (auto simp: item_within_def)

lemma free_hint [simp]:
  "PageHasFreeLinePointers (PageSetHasFreeLinePointers p)" "\<not> PageHasFreeLinePointers (PageClearHasFreeLinePointers p)"
proof -
  have "(pd_flags p OR 1) AND 1 = 1" by (rule bit_word_eqI) (auto simp: bit_simps)
  then show "PageHasFreeLinePointers (PageSetHasFreeLinePointers p)"
    by (simp add: PageHasFreeLinePointers_def PageSetHasFreeLinePointers_def PD_HAS_FREE_LINES_def)
  have "(pd_flags p AND NOT 1) AND 1 = 0" by (rule bit_word_eqI) (auto simp: bit_simps)
  then show "\<not> PageHasFreeLinePointers (PageClearHasFreeLinePointers p)"
    by (simp add: PageHasFreeLinePointers_def PageClearHasFreeLinePointers_def PD_HAS_FREE_LINES_def)
qed

lemma hint_fields [simp]:
  "pd_linp (PageSetHasFreeLinePointers p) = pd_linp p" "pd_linp (PageClearHasFreeLinePointers p) = pd_linp p"
  "pd_data (PageSetHasFreeLinePointers p) = pd_data p" "pd_data (PageClearHasFreeLinePointers p) = pd_data p"
  "pd_lower (PageSetHasFreeLinePointers p) = pd_lower p" "pd_lower (PageClearHasFreeLinePointers p) = pd_lower p"
  "pd_upper (PageSetHasFreeLinePointers p) = pd_upper p" "pd_upper (PageClearHasFreeLinePointers p) = pd_upper p"
  "pd_special (PageSetHasFreeLinePointers p) = pd_special p" "pd_special (PageClearHasFreeLinePointers p) = pd_special p"
  "pd_pagesize_version (PageSetHasFreeLinePointers p) = pd_pagesize_version p"
  "pd_pagesize_version (PageClearHasFreeLinePointers p) = pd_pagesize_version p"
  by (simp_all add: PageSetHasFreeLinePointers_def PageClearHasFreeLinePointers_def)

lemma header_size_cong: "pd_pagesize_version p = pd_pagesize_version q \<Longrightarrow> GetPageHeaderSize p = GetPageHeaderSize q"
  by (simp add: GetPageHeaderSize_def PageIs8BXidHeapVersion_def)

lemma page_ok_hint [simp]: "page_ok B (PageSetHasFreeLinePointers p) = page_ok B p" "page_ok B (PageClearHasFreeLinePointers p) = page_ok B p"
  using header_size_cong [of "PageSetHasFreeLinePointers p" p] header_size_cong [of "PageClearHasFreeLinePointers p" p]
  by (simp_all add: page_ok_def)

lemma page_items_hint [simp]: "page_items (PageSetHasFreeLinePointers p) = page_items p" "page_items (PageClearHasFreeLinePointers p) = page_items p"
  by (simp_all add: page_items_def)

lemma no_storage_entries: "\<forall>lp \<in> set linp. \<not> ItemIdHasStorage lp \<Longrightarrow> storage_entries linp = []"
  by (auto simp: storage_entries_def filter_empty_conv in_set_enumerate_eq)

text \<open>The line pointers after the first loop of \<^verbatim>\<open>PageRepairFragmentation\<close>.\<close>

definition reset_unused :: "ItemIdData \<Rightarrow> ItemIdData" where
  "reset_unused lp = (if ItemIdIsUsed lp then lp else ItemIdSetUnused lp)"

lemma reset_unused_simps:
  "ItemIdIsUsed (reset_unused lp) = ItemIdIsUsed lp" "\<not> ItemIdIsUsed lp \<Longrightarrow> \<not> ItemIdHasStorage (reset_unused lp)"
  "lp_flags (reset_unused lp) = lp_flags lp"
  by (auto simp: reset_unused_def ItemIdIsUsed_def ItemIdSetUnused_def ItemIdHasStorage_def LP_UNUSED_def)

lemma repair_page:
  assumes ok: "page_ok B p" and room: "length (filter ItemIdHasStorage (pd_linp p)) \<le> MaxHeapTuplesPerPage B"
  shows "\<exists>p'. PageRepairFragmentation B p = Inr p' \<and> page_ok B p' \<and> page_items p' = page_items p \<and>
    pd_lower p' = pd_lower p \<and> pd_special p' = pd_special p \<and> drop (pd_special p) (pd_data p') = drop (pd_special p) (pd_data p) \<and>
    pd_upper p' = pd_special p - total_len (storage_entries (pd_linp p)) \<and>
    (\<forall>i < length (pd_linp p). ItemIdIsUsed (pd_linp p ! i) \<and> \<not> ItemIdHasStorage (pd_linp p ! i) \<longrightarrow> pd_linp p' ! i = pd_linp p ! i) \<and>
    (PageHasFreeLinePointers p' \<longleftrightarrow> (\<exists>lp \<in> set (pd_linp p). \<not> ItemIdIsUsed lp))"
proof -
  let ?linp = "map reset_unused (pd_linp p)"
  have same: "\<forall>lp \<in> set (pd_linp p). ItemIdHasStorage (reset_unused lp) = ItemIdHasStorage lp \<and> (ItemIdHasStorage lp \<longrightarrow> reset_unused lp = lp)"
    using ok by (auto simp: page_ok_def reset_unused_def ItemIdSetUnused_def ItemIdHasStorage_def)
  have io: "items_ok (pd_upper p) (pd_special p) ?linp" using ok items_ok_map [OF same] by (simp add: page_ok_def)
  have se: "storage_entries ?linp = storage_entries (pd_linp p)" by (rule storage_entries_map [OF same])
  have it: "items_of ?linp bs = items_of (pd_linp p) bs" for bs
    using same unfolding items_of_def by (auto simp: reset_unused_simps ItemIdHasStorage_def)
  have unused: "\<forall>lp \<in> set ?linp. \<not> ItemIdIsUsed lp \<longrightarrow> \<not> ItemIdHasStorage lp" by (auto simp: reset_unused_simps)
  have b: "pd_lower p \<le> pd_upper p" "pd_upper p \<le> pd_special p" "pd_special p \<le> B" "B \<le> 2 ^ 15" "8 dvd pd_special p" "length (pd_data p) = B"
    "SizeOfPageHeaderData \<le> pd_lower p"
    using ok header_size [of p] by (auto simp: page_ok_def SizeOfPageHeaderData_def)
  have hint: "0 < length (filter (\<lambda>lp. \<not> ItemIdIsUsed lp) ?linp) \<longleftrightarrow> (\<exists>lp \<in> set (pd_linp p). \<not> ItemIdIsUsed lp)"
    by (auto simp: filter_map comp_def reset_unused_simps filter_empty_conv)
  have lin: "map (\<lambda>lp. if ItemIdIsUsed lp then lp else ItemIdSetUnused lp) (pd_linp p) = ?linp" by (simp add: reset_unused_def)
  define nun nst where "nun = length (filter (\<lambda>lp. \<not> ItemIdIsUsed lp) ?linp)"
    and "nst = length (filter (\<lambda>lp. ItemIdIsUsed lp \<and> ItemIdHasStorage lp) ?linp)"
  define h where "h = (\<lambda>q. if 0 < nun then PageSetHasFreeLinePointers q else PageClearHasFreeLinePointers q)"
  have h: "page_ok B (h q) = page_ok B q" "page_items (h q) = page_items q" "pd_lower (h q) = pd_lower q" "pd_special (h q) = pd_special q"
    "pd_upper (h q) = pd_upper q" "pd_data (h q) = pd_data q" "pd_linp (h q) = pd_linp q"
    "PageHasFreeLinePointers (h q) \<longleftrightarrow> (\<exists>lp \<in> set (pd_linp p). \<not> ItemIdIsUsed lp)" for q
    using hint by (auto simp: h_def nun_def)
  have okq: "page_ok B q" if "pd_linp q = linp'" "pd_lower q = pd_lower p" "pd_special q = pd_special p" "pd_pagesize_version q = pd_pagesize_version p"
      "length (pd_data q) = B" "length linp' = length (pd_linp p)" "items_ok (pd_upper q) (pd_special p) linp'" "pd_lower p \<le> pd_upper q"
      "pd_upper q \<le> pd_special p" "8 dvd pd_upper q" "\<forall>lp \<in> set linp'. \<not> ItemIdIsUsed lp \<longrightarrow> \<not> ItemIdHasStorage lp" for q linp'
    using ok that header_size_cong [of q p] by (auto simp: page_ok_def)
  show ?thesis
  proof (cases "nst = 0")
    case True
    then have ns: "\<forall>lp \<in> set ?linp. \<not> ItemIdHasStorage lp" using unused unfolding nst_def by (auto simp: filter_empty_conv)
    let ?q = "p\<lparr>pd_linp := ?linp, pd_upper := pd_special p\<rparr>"
    have res: "PageRepairFragmentation B p = Inr (h ?q)"
      unfolding PageRepairFragmentation_def lin h_def Let_def nun_def [symmetric] nst_def [symmetric] using b True by simp
    have "items_ok (pd_special p) (pd_special p) ?linp" using ns by (auto simp: items_ok_def item_within_def)
    then have "page_ok B ?q" by (intro okq [where linp' = ?linp]) (use b unused in auto)
    moreover have "page_items ?q = page_items p" by (simp add: page_items_def it)
    moreover have "total_len (storage_entries (pd_linp p)) = 0" using no_storage_entries [OF ns] se by simp
    ultimately show ?thesis using res h [of ?q] by (intro exI [of _ "h ?q"]) (simp add: reset_unused_def)
  next
    case False
    let ?es = "storage_entries (pd_linp p)"
    obtain u linp' bs' where run: "compactify (sort_desc ?es) (pd_special p) ?linp (pd_data p) = (u, linp', bs')"
      by (cases "compactify (sort_desc ?es) (pd_special p) ?linp (pd_data p)") auto
    note c = compactify_items [OF io _ _ b(5) run [folded se], unfolded se]
    have c': "u = pd_special p - total_len ?es" "total_len ?es \<le> pd_special p" "length bs' = B" "drop (pd_special p) bs' = drop (pd_special p) (pd_data p)"
      "items_ok u (pd_special p) linp'" "items_of linp' bs' = items_of (pd_linp p) (pd_data p)" "8 dvd u" "length linp' = length (pd_linp p)"
      "\<forall>i < length ?linp. linp' ! i = ?linp ! i \<or> (\<exists>off. linp' ! i = set_off off (?linp ! i))"
      using c b it by auto
    have tl: "total_len ?es \<le> pd_special p - pd_upper p" using total_storage [OF io b(2)] se by simp
    have u: "pd_upper p \<le> u" "u \<le> pd_special p" "u mod 2 ^ 16 = u" using c'(1) tl b by auto
    let ?q = "p\<lparr>pd_linp := linp', pd_data := bs', pd_upper := u\<rparr>"
    have e1: "\<not> list_ex (\<lambda>(i, off, len). off < pd_upper p \<or> off \<ge> pd_special p) ?es"
    proof -
      have "pd_upper p \<le> off \<and> off < pd_special p" if "(i, off, len) \<in> set (storage_entries ?linp)" for i off len
      proof -
        have "i < length ?linp" "ItemIdHasStorage (?linp ! i)" "off = lp_off (?linp ! i)" "len = MAXALIGN (lp_len (?linp ! i))"
          using that unfolding storage_entries_iff by blast+
        then have "pd_upper p \<le> off" "off + len \<le> pd_special p" "0 < len"
          using io unfolding items_ok_def item_within_def by (auto simp: ItemIdHasStorage_def)
        then show ?thesis by linarith
      qed
      then show ?thesis unfolding se list_ex_iff by fastforce
    qed
    have e2: "sum_list (map (\<lambda>(i, off, len). len) ?es) = total_len ?es" by (simp add: total_len_def case_prod_unfold)
    have tl2: "\<not> pd_special p - pd_lower p < total_len ?es" using tl b by linarith
    have few: "length ?es \<le> MaxHeapTuplesPerPage B" using room by (simp add: length_storage_entries)
    have res: "PageRepairFragmentation B p = Inr (h ?q)"
      unfolding PageRepairFragmentation_def lin h_def Let_def se nun_def [symmetric] nst_def [symmetric] run
      using False b e1 e2 tl2 u(3) few by simp
    have others: "linp' ! i = pd_linp p ! i" if i: "i < length (pd_linp p)" "ItemIdIsUsed (pd_linp p ! i)" "\<not> ItemIdHasStorage (pd_linp p ! i)" for i
    proof -
      have "i \<notin> fst ` set (sort_desc ?es)" using i(3) by (auto simp: sort_desc_simps storage_entries_iff)
      then show ?thesis using compactify_others [OF run] i by (simp add: reset_unused_def)
    qed
    have us: "\<forall>lp \<in> set linp'. \<not> ItemIdIsUsed lp \<longrightarrow> \<not> ItemIdHasStorage lp"
    proof
      fix lp assume "lp \<in> set linp'"
      then obtain i where "i < length ?linp" "lp = linp' ! i" using c'(8) by (auto simp: in_set_conv_nth)
      moreover from this have "?linp ! i \<in> set ?linp" by (intro nth_mem)
      ultimately show "\<not> ItemIdIsUsed lp \<longrightarrow> \<not> ItemIdHasStorage lp" using c'(9) unused by fastforce
    qed
    have "page_ok B ?q" by (intro okq [where linp' = linp']) (use b c' u us in auto)
    moreover have "page_items ?q = page_items p" using c'(6) by (simp add: page_items_def)
    ultimately show ?thesis using res h [of ?q] c' others by (intro exI [of _ "h ?q"]) simp
  qed
qed

section \<open>Adding an item\<close>

text \<open>The items of a page with one more: inserted at a position, appended, or put into an unused slot.\<close>

definition put_item :: "nat \<Rightarrow> bool \<Rightarrow> 'a \<Rightarrow> 'a list \<Rightarrow> 'a list" where
  "put_item off shuffle x xs =
     (if shuffle then take (off - 1) xs @ x # drop (off - 1) xs else if off = length xs + 1 then xs @ [x] else xs[off - 1 := x])"

definition apart_if :: "ItemIdData \<Rightarrow> ItemIdData \<Rightarrow> bool" where
  "apart_if a b \<longleftrightarrow> (ItemIdHasStorage a \<and> ItemIdHasStorage b \<longrightarrow> items_apart a b)"

lemma apart_if_sym: "apart_if a b = apart_if b a"
  by (auto simp: apart_if_def items_apart_def)

lemma items_ok_iff: "items_ok lo hi linp \<longleftrightarrow> (\<forall>a \<in> set linp. item_within lo hi a) \<and> sorted_wrt apart_if linp"
proof -
  have "(\<forall>i < length linp. \<forall>j < length linp. i \<noteq> j \<and> ItemIdHasStorage (linp ! i) \<and> ItemIdHasStorage (linp ! j) \<longrightarrow>
       items_apart (linp ! i) (linp ! j)) \<longleftrightarrow> (\<forall>i < length linp. \<forall>j < length linp. i \<noteq> j \<longrightarrow> apart_if (linp ! i) (linp ! j))"
    unfolding apart_if_def by blast
  also have "\<dots> \<longleftrightarrow> sorted_wrt apart_if linp"
  proof
    assume "\<forall>i < length linp. \<forall>j < length linp. i \<noteq> j \<longrightarrow> apart_if (linp ! i) (linp ! j)"
    then show "sorted_wrt apart_if linp" unfolding sorted_wrt_iff_nth_less by simp
  next
    assume s: "sorted_wrt apart_if linp"
    have "apart_if (linp ! i) (linp ! j)" if "i < length linp" "j < length linp" "i \<noteq> j" for i j
      using sorted_wrt_nth_less [OF s, of i j] sorted_wrt_nth_less [OF s, of j i] apart_if_sym that by (cases "i < j") auto
    then show "\<forall>i < length linp. \<forall>j < length linp. i \<noteq> j \<longrightarrow> apart_if (linp ! i) (linp ! j)" by blast
  qed
  finally show ?thesis unfolding items_ok_def by simp
qed

lemma length_put_item [simp]:
  assumes "1 \<le> off" "if shuffle then off \<le> length xs else off \<le> length xs + 1"
  shows "length (put_item off shuffle x xs) = (if off = length xs + 1 \<or> shuffle then length xs + 1 else length xs)"
  using assms by (auto simp: put_item_def)

lemma map_put_item: "map f (put_item off shuffle x xs) = put_item off shuffle (f x) (map f xs)"
  by (simp add: put_item_def take_map drop_map map_update)

lemma set_put_item: "set (put_item off shuffle x xs) \<subseteq> insert x (set xs)"
  by (auto simp: put_item_def dest: in_set_takeD in_set_dropD set_update_subset_insert [THEN subsetD])

lemma sorted_put_item:
  assumes s: "sorted_wrt apart_if linp" and x: "\<forall>a \<in> set linp. apart_if a x"
  shows "sorted_wrt apart_if (put_item off shuffle x linp)"
proof -
  have ins: "sorted_wrt apart_if (as @ x # bs)" if "sorted_wrt apart_if (as @ bs)" "set (as @ bs) \<subseteq> set linp" for as bs
    using that x apart_if_sym by (auto simp: sorted_wrt_append)
  have 1: "sorted_wrt apart_if (take n linp @ x # drop n linp)" for n by (rule ins) (use s in auto)
  have 2: "sorted_wrt apart_if (take n linp @ x # drop (Suc n) linp)" if "n < length linp" for n
  proof (rule ins)
    have "sorted_wrt apart_if (take n linp @ linp ! n # drop (Suc n) linp)" using s id_take_nth_drop [OF that] by simp
    then show "sorted_wrt apart_if (take n linp @ drop (Suc n) linp)" by (auto simp: sorted_wrt_append)
    show "set (take n linp @ drop (Suc n) linp) \<subseteq> set linp" by (auto dest: in_set_takeD in_set_dropD)
  qed
  have 3: "sorted_wrt apart_if (linp @ [x])" using 1 [of "length linp"] by simp
  show ?thesis
    using 1 2 3 s unfolding put_item_def by (cases "off - 1 < length linp") (auto simp: upd_conv_take_nth_drop list_update_beyond)
qed

lemma items_ok_put:
  assumes ok: "items_ok lo hi linp" and le: "lo' \<le> lo" and x: "item_within lo' lo x" "lo \<le> hi"
  shows "items_ok lo' hi (put_item off shuffle x linp)"
proof -
  have "item_within lo' hi x" using x by (auto simp: item_within_def)
  moreover have "\<forall>a \<in> set linp. item_within lo' hi a" using ok le by (auto simp: items_ok_iff item_within_def)
  moreover have "\<forall>a \<in> set linp. apart_if a x" using ok x by (auto simp: items_ok_iff item_within_def apart_if_def items_apart_def)
  ultimately show ?thesis
    using ok sorted_put_item set_put_item [of off shuffle x linp] unfolding items_ok_iff by blast
qed

lemma items_of_put:
  assumes "\<And>lp. lp \<in> set linp \<Longrightarrow> bytes_at (lp_off lp) (lp_len lp) bs' = bytes_at (lp_off lp) (lp_len lp) bs"
  shows "items_of (put_item off shuffle x linp) bs' =
    put_item off shuffle (lp_flags x, bytes_at (lp_off x) (lp_len x) bs') (items_of linp bs)"
proof -
  have "map (\<lambda>lp. (lp_flags lp, bytes_at (lp_off lp) (lp_len lp) bs')) linp = map (\<lambda>lp. (lp_flags lp, bytes_at (lp_off lp) (lp_len lp) bs)) linp"
    using assms by simp
  then show ?thesis unfolding items_of_def map_put_item by (rule arg_cong)
qed

lemma page_ok_update:
  assumes "page_ok B p" "pd_special q = pd_special p" "pd_pagesize_version q = pd_pagesize_version p" "length (pd_data q) = B"
    and "pd_lower q = GetPageHeaderSize p + sizeof_ItemIdData * length (pd_linp q)" "pd_lower q \<le> pd_upper q" "pd_upper q \<le> pd_special p"
    and "8 dvd pd_upper q" "\<forall>lp \<in> set (pd_linp q). \<not> ItemIdIsUsed lp \<longrightarrow> \<not> ItemIdHasStorage lp"
    and "items_ok (pd_upper q) (pd_special p) (pd_linp q)"
  shows "page_ok B q"
  using assms header_size_cong [OF assms(3)] by (simp add: page_ok_def)

text \<open>The size of a page is far below what the 15 bits of an offset hold.\<close>

definition new_lp :: "Page \<Rightarrow> nat \<Rightarrow> ItemIdData" where
  "new_lp p sz = ItemIdSetNormal (pd_upper p - MAXALIGN sz) sz"

definition room_for :: "Page \<Rightarrow> nat \<Rightarrow> nat \<Rightarrow> bool \<Rightarrow> bool" where
  "room_for p sz off shuffle \<longleftrightarrow>
     pd_lower p + (if off = length (pd_linp p) + 1 \<or> shuffle then sizeof_ItemIdData else 0) + MAXALIGN sz \<le> pd_upper p"

lemma add_at_eq:
  assumes ok: "page_ok B p" and off: "1 \<le> off" "if shuffle then off \<le> length (pd_linp p) else off \<le> length (pd_linp p) + 1"
  shows "add_at B p item sz off shuffle is_heap =
    (if (is_heap \<longrightarrow> off \<le> MaxHeapTuplesPerPage B) \<and> room_for p sz off shuffle
     then (off, p\<lparr>pd_linp := put_item off shuffle (new_lp p sz) (pd_linp p), pd_data := memcpy (pd_upper p - MAXALIGN sz) item sz (pd_data p),
            pd_lower := pd_lower p + (if off = length (pd_linp p) + 1 \<or> shuffle then sizeof_ItemIdData else 0),
            pd_upper := pd_upper p - MAXALIGN sz\<rparr>)
     else (0, p))"
proof -
  define d where "d = (if off = length (pd_linp p) + 1 \<or> shuffle then sizeof_ItemIdData else (0::nat))"
  have low: "(if off = length (pd_linp p) + 1 \<or> shuffle then pd_lower p + sizeof_ItemIdData else pd_lower p) = pd_lower p + d" by (simp add: d_def)
  have lim: "\<not> off > length (pd_linp p) + 1" using off by (auto split: if_splits)
  have up: "pd_upper p \<le> 2 ^ 15" using ok by (simp add: page_ok_def)
  show ?thesis
  proof (cases "room_for p sz off shuffle")
    case True
    then have r: "pd_lower p + d + MAXALIGN sz \<le> pd_upper p" by (simp add: room_for_def d_def)
    have m: "(pd_lower p + d) mod 2 ^ 16 = pd_lower p + d" "(pd_upper p - MAXALIGN sz) mod 2 ^ 16 = pd_upper p - MAXALIGN sz" using r up by simp_all
    have n: "nat (int (pd_upper p) - int (MAXALIGN sz)) = pd_upper p - MAXALIGN sz" "\<not> int (pd_lower p + d) > int (pd_upper p) - int (MAXALIGN sz)"
      using r by linarith+
    show ?thesis
      using True lim n(2) unfolding add_at_def page_ok_nline [OF ok] Let_def low n(1) m d_def [symmetric] new_lp_def put_item_def
      by (simp only: if_False simp_thms if_True not_less not_le) auto
  next
    case False
    then have "int (pd_lower p + d) > int (pd_upper p) - int (MAXALIGN sz)" unfolding room_for_def d_def [symmetric] by linarith
    then show ?thesis
      using False unfolding add_at_def page_ok_nline [OF ok] Let_def low by (simp add: lim)
  qed
qed

lemma add_at_ok:
  assumes ok: "page_ok B p" and off: "1 \<le> off" "if shuffle then off \<le> length (pd_linp p) else off \<le> length (pd_linp p) + 1"
    and sz: "0 < sz" "sz \<le> length item" and run: "add_at B p item sz off shuffle is_heap = (off', p')" and r: "off' \<noteq> 0"
  shows "off' = off" "page_ok B p'" "page_items p' = put_item off shuffle (LP_NORMAL, take sz item) (page_items p)"
    "drop (pd_special p) (pd_data p') = drop (pd_special p) (pd_data p)"
proof -
  have c: "(is_heap \<longrightarrow> off \<le> MaxHeapTuplesPerPage B) \<and> room_for p sz off shuffle" using add_at_eq [OF ok off] run r by (auto split: if_splits)
  define d where "d = (if off = length (pd_linp p) + 1 \<or> shuffle then sizeof_ItemIdData else (0::nat))"
  let ?u = "pd_upper p - MAXALIGN sz"
  have p': "p' = p\<lparr>pd_linp := put_item off shuffle (new_lp p sz) (pd_linp p), pd_data := memcpy ?u item sz (pd_data p),
            pd_lower := pd_lower p + d, pd_upper := ?u\<rparr>" and o': "off' = off"
    using add_at_eq [OF ok off, of item sz is_heap] run c unfolding d_def [symmetric] by simp_all
  show "off' = off" by fact
  have room: "pd_lower p + d + MAXALIGN sz \<le> pd_upper p" using c by (simp add: room_for_def d_def)
  have b: "pd_upper p \<le> pd_special p" "pd_special p \<le> B" "length (pd_data p) = B" "B \<le> 2 ^ 15" "8 dvd pd_upper p"
    "items_ok (pd_upper p) (pd_special p) (pd_linp p)" "8 dvd pd_special p"
    using ok by (auto simp: page_ok_def)
  have sz8: "sz \<le> MAXALIGN sz" by simp
  have ul: "?u < 2 ^ 15" "sz < 2 ^ 15" "?u + MAXALIGN sz = pd_upper p"
  proof -
    have "24 \<le> pd_lower p" "0 < MAXALIGN sz" using header_size [of p] ok sz by (auto simp: page_ok_def)
    then show "?u < 2 ^ 15" "sz < 2 ^ 15" "?u + MAXALIGN sz = pd_upper p" using room b sz8 by linarith+
  qed
  have fit: "?u + sz \<le> pd_upper p" "?u + sz \<le> length (pd_data p)" using ul(3) sz8 b by linarith+
  have lp: "lp_off (new_lp p sz) = ?u" "lp_len (new_lp p sz) = sz" "lp_flags (new_lp p sz) = LP_NORMAL"
    using ul by (simp_all add: new_lp_def ItemIdSetNormal_def)
  have within: "item_within ?u (pd_upper p) (new_lp p sz)"
    using lp room b by (auto simp: item_within_def dvd_diff_nat)
  have io: "items_ok ?u (pd_special p) (put_item off shuffle (new_lp p sz) (pd_linp p))"
    by (rule items_ok_put [OF b(6) _ within b(1)]) simp
  have len: "length (memcpy ?u item sz (pd_data p)) = B" using b length_memcpy [OF fit(2) sz(2)] by simp
  have low: "pd_lower p + d = GetPageHeaderSize p + sizeof_ItemIdData * length (put_item off shuffle (new_lp p sz) (pd_linp p))"
    using ok off by (auto simp: page_ok_def d_def)
  have unused: "\<forall>lp \<in> set (put_item off shuffle (new_lp p sz) (pd_linp p)). \<not> ItemIdIsUsed lp \<longrightarrow> \<not> ItemIdHasStorage lp"
  proof
    fix a assume "a \<in> set (put_item off shuffle (new_lp p sz) (pd_linp p))"
    from subsetD [OF set_put_item this] have "a = new_lp p sz \<or> a \<in> set (pd_linp p)" by simp
    then show "\<not> ItemIdIsUsed a \<longrightarrow> \<not> ItemIdHasStorage a"
      using lp ok by (auto simp: page_ok_def ItemIdIsUsed_def LP_NORMAL_def LP_UNUSED_def)
  qed
  show "page_ok B p'"
  proof (rule page_ok_update [OF ok])
    show "pd_lower p' \<le> pd_upper p'" "pd_upper p' \<le> pd_special p" using room b p' by simp_all
    show "8 dvd pd_upper p'" using p' b by (simp add: dvd_diff_nat)
  qed (use p' low len io unused in simp_all)
  have other: "bytes_at (lp_off a) (lp_len a) (memcpy ?u item sz (pd_data p)) = bytes_at (lp_off a) (lp_len a) (pd_data p)"
    if a: "a \<in> set (pd_linp p)" for a
  proof (cases "ItemIdHasStorage a")
    case True
    then have "item_within (pd_upper p) (pd_special p) a" using b(6) a by (simp add: items_ok_def)
    then have "pd_upper p \<le> lp_off a" "lp_off a + lp_len a \<le> B" using True b MAXALIGN_simps(2) [of "lp_len a"] unfolding item_within_def by linarith+
    then show ?thesis using fit b sz by (intro bytes_at_memcpy_other) auto
  qed (simp add: ItemIdHasStorage_def)
  have "bytes_at ?u sz (memcpy ?u item sz (pd_data p)) = take sz item" by (rule bytes_at_memcpy [OF fit(2) sz(2)])
  then show "page_items p' = put_item off shuffle (LP_NORMAL, take sz item) (page_items p)"
    unfolding page_items_def p' using items_of_put [OF other] lp by simp
  show "drop (pd_special p) (pd_data p') = drop (pd_special p) (pd_data p)"
    using p' fit b sz by (simp add: memcpy_def)
qed

lemma find_free_spec:
  "find_free n xs \<ge> n \<and> find_free n xs \<le> n + length xs \<and>
   (find_free n xs < n + length xs \<longrightarrow> \<not> ItemIdIsUsed (xs ! (find_free n xs - n)) \<and> \<not> ItemIdHasStorage (xs ! (find_free n xs - n))) \<and>
   (find_free n xs = n + length xs \<longrightarrow> (\<forall>lp \<in> set xs. ItemIdIsUsed lp \<or> ItemIdHasStorage lp))"
proof (induction xs arbitrary: n)
  case (Cons lp r)
  show ?case
  proof (cases "\<not> ItemIdIsUsed lp \<and> \<not> ItemIdHasStorage lp")
    case False
    let ?k = "find_free (Suc n) r"
    have e: "find_free n (lp # r) = ?k" using False by auto
    have "Suc n \<le> ?k" "?k \<le> Suc n + length r" using Cons.IH [of "Suc n"] by blast+
    moreover have "(lp # r) ! (?k - n) = r ! (?k - Suc n)" using \<open>Suc n \<le> ?k\<close> by (simp add: nth_Cons' )
    ultimately show ?thesis unfolding e using Cons.IH [of "Suc n"] False by (auto simp del: find_free.simps)
  qed simp
qed simp

lemma page_items_nth: "i < length (pd_linp p) \<Longrightarrow> \<not> ItemIdIsUsed (pd_linp p ! i) \<Longrightarrow> \<not> ItemIdHasStorage (pd_linp p ! i) \<Longrightarrow>
  page_items p ! i = (LP_UNUSED, [])"
  by (simp add: page_items_def items_of_def ItemIdIsUsed_def ItemIdHasStorage_def)

lemma length_page_items [simp]: "length (page_items p) = length (pd_linp p)"
  by (simp add: page_items_def items_of_def)

lemma page_ok_header: "page_ok B p \<Longrightarrow>
  \<not> (pd_lower p < GetPageHeaderSize p \<or> pd_lower p > pd_upper p \<or> pd_upper p > pd_special p \<or> pd_special p > B)"
  by (simp add: page_ok_def)

text \<open>The offset number \<^verbatim>\<open>PageAddItem\<close> selects.\<close>

definition chosen :: "nat \<Rightarrow> Page \<Rightarrow> nat \<Rightarrow> nat" where
  "chosen B p offnum = (if OffsetNumberIsValid B offnum then offnum
     else if PageHasFreeLinePointers p then find_free 1 (pd_linp p) else length (pd_linp p) + 1)"

lemma PageAddItem_eq:
  assumes ok: "page_ok B p"
  shows "PageAddItem B p item sz offnum overwrite is_heap =
    Inr (if OffsetNumberIsValid B offnum \<and> overwrite \<and> offnum \<le> length (pd_linp p) \<and>
            (ItemIdIsUsed (pd_linp p ! (offnum - 1)) \<or> ItemIdHasStorage (pd_linp p ! (offnum - 1))) then (0, p)
         else add_at B (if \<not> OffsetNumberIsValid B offnum \<and> PageHasFreeLinePointers p \<and> chosen B p offnum > length (pd_linp p)
                        then PageClearHasFreeLinePointers p else p)
                item sz (chosen B p offnum) (OffsetNumberIsValid B offnum \<and> \<not> overwrite \<and> offnum \<le> length (pd_linp p)) is_heap)"
  using page_ok_header [OF ok]
  by (auto simp: PageAddItem_def page_ok_nline [OF ok] chosen_def Let_def less_Suc_eq_le Suc_le_eq)

text \<open>
  What adding an item to a page may do: nothing, or store it under the offset number that is returned, with the items that follow moved down by one,
  or in a slot that was unused, or after the last item. The special space is not touched.
\<close>

definition adds_item :: "bool \<Rightarrow> nat \<times> uint8 list \<Rightarrow> Page \<Rightarrow> nat \<Rightarrow> Page \<Rightarrow> bool" where
  "adds_item shuffle x p off p' \<longleftrightarrow>
     pd_special p' = pd_special p \<and> drop (pd_special p) (pd_data p') = drop (pd_special p) (pd_data p) \<and>
     (if off = 0 then page_items p' = page_items p
      else off \<le> length (page_items p) + 1 \<and> page_items p' = put_item off shuffle x (page_items p) \<and>
           (\<not> shuffle \<and> off \<le> length (page_items p) \<longrightarrow> page_items p ! (off - 1) = (LP_UNUSED, [])))"

lemma add_at_adds:
  assumes ok: "page_ok B p" and off: "1 \<le> off" "shuffle \<Longrightarrow> off \<le> length (pd_linp p)"
    and slot: "\<not> shuffle \<Longrightarrow> off \<le> length (pd_linp p) \<Longrightarrow> \<not> ItemIdIsUsed (pd_linp p ! (off - 1)) \<and> \<not> ItemIdHasStorage (pd_linp p ! (off - 1))"
    and sz: "0 < sz" "sz \<le> length item" and run: "add_at B p item sz off shuffle is_heap = (off', p')"
  shows "page_ok B p' \<and> adds_item shuffle (LP_NORMAL, take sz item) p off' p' \<and> off' \<in> {0, off}"
proof (cases "off' = 0")
  case True
  then have "p' = p" using run off by (auto simp: add_at_def Let_def split: if_splits)
  then show ?thesis using True ok by (simp add: adds_item_def)
next
  case False
  have le: "off \<le> length (pd_linp p) + 1"
    using run False page_ok_nline [OF ok] by (auto simp: add_at_def Let_def split: if_splits)
  then have off2: "if shuffle then off \<le> length (pd_linp p) else off \<le> length (pd_linp p) + 1" using off by simp
  note r = add_at_ok [OF ok off(1) off2 sz run False]
  have "pd_special p' = pd_special p" using run by (auto simp: add_at_def Let_def split: if_splits)
  moreover have "page_items p ! (off - 1) = (LP_UNUSED, [])" if "\<not> shuffle" "off \<le> length (pd_linp p)"
    using slot [OF that] that off(1) by (intro page_items_nth) auto
  ultimately show ?thesis using r le off(1) by (simp add: adds_item_def)
qed

lemma chosen_pos: "1 \<le> chosen B p offnum"
  using find_free_spec [of 1 "pd_linp p"] by (auto simp: chosen_def OffsetNumberIsValid_def)

lemma PageAddItem_adds:
  assumes ok: "page_ok B p" and sz: "0 < sz" "sz \<le> length item"
  shows "\<exists>off p'. PageAddItem B p item sz offnum overwrite is_heap = Inr (off, p') \<and> page_ok B p' \<and>
    adds_item (OffsetNumberIsValid B offnum \<and> \<not> overwrite \<and> offnum \<le> length (pd_linp p)) (LP_NORMAL, take sz item) p off p' \<and>
    off \<in> {0, chosen B p offnum}"
proof -
  define sh where "sh \<longleftrightarrow> OffsetNumberIsValid B offnum \<and> \<not> overwrite \<and> offnum \<le> length (pd_linp p)"
  define used where "used \<longleftrightarrow> OffsetNumberIsValid B offnum \<and> overwrite \<and> offnum \<le> length (pd_linp p) \<and>
            (ItemIdIsUsed (pd_linp p ! (offnum - 1)) \<or> ItemIdHasStorage (pd_linp p ! (offnum - 1)))"
  define q where "q = (if \<not> OffsetNumberIsValid B offnum \<and> PageHasFreeLinePointers p \<and> chosen B p offnum > length (pd_linp p)
                        then PageClearHasFreeLinePointers p else p)"
  have q: "page_ok B q" "page_items q = page_items p" "pd_linp q = pd_linp p" "pd_data q = pd_data p" "pd_special q = pd_special p"
    using ok by (simp_all add: q_def)
  have eq: "PageAddItem B p item sz offnum overwrite is_heap = Inr (if used then (0, p) else add_at B q item sz (chosen B p offnum) sh is_heap)"
    unfolding used_def q_def sh_def by (rule PageAddItem_eq [OF ok])
  show ?thesis
  proof (cases used)
    case True
    then show ?thesis using eq ok by (simp add: adds_item_def)
  next
    case False
    obtain off p' where run: "add_at B q item sz (chosen B p offnum) sh is_heap = (off, p')" by fastforce
    have slot: "\<not> ItemIdIsUsed (pd_linp q ! (chosen B p offnum - 1)) \<and> \<not> ItemIdHasStorage (pd_linp q ! (chosen B p offnum - 1))"
      if "\<not> sh" "chosen B p offnum \<le> length (pd_linp q)"
      using that False find_free_spec [of 1 "pd_linp p"] unfolding q(3) by (auto simp: chosen_def sh_def used_def split: if_splits)
    have "sh \<Longrightarrow> chosen B p offnum \<le> length (pd_linp q)" unfolding q(3) by (simp add: sh_def chosen_def)
    from add_at_adds [OF q(1) chosen_pos this slot sz run]
    have "page_ok B p' \<and> adds_item sh (LP_NORMAL, take sz item) q off p' \<and> off \<in> {0, chosen B p offnum}" by blast
    then show ?thesis using eq False run q unfolding sh_def [symmetric] by (auto simp: adds_item_def)
  qed
qed

text \<open>An item that \<^verbatim>\<open>PageGetHeapFreeSpace\<close> has room for can be added.\<close>

lemma heap_room:
  assumes ok: "page_ok B p" and n: "length (pd_linp p) \<le> MaxHeapTuplesPerPage B" and sz: "0 < sz" "MAXALIGN sz \<le> PageGetHeapFreeSpace B p"
  shows "\<exists>off p'. PageAddItem B p item sz 0 overwrite True = Inr (off, p') \<and> off \<noteq> 0"
proof -
  have inv: "\<not> OffsetNumberIsValid B 0" by (simp add: OffsetNumberIsValid_def)
  let ?c = "chosen B p 0"
  define q where "q = (if PageHasFreeLinePointers p \<and> ?c > length (pd_linp p) then PageClearHasFreeLinePointers p else p)"
  have q: "page_ok B q" "pd_linp q = pd_linp p" "pd_lower q = pd_lower p" "pd_upper q = pd_upper p" using ok by (simp_all add: q_def)
  have le: "?c \<le> length (pd_linp p) + 1" using find_free_spec [of 1 "pd_linp p"] inv by (simp add: chosen_def)
  have pos: "0 < PageGetHeapFreeSpace B p" using sz by (metis MAXALIGN_pos less_le_trans)
  have sp: "PageGetHeapFreeSpace B p \<le> PageGetFreeSpace p" by (simp add: PageGetHeapFreeSpace_def Let_def)
  then have fs: "0 < PageGetFreeSpace p" using pos by linarith
  then have "PageGetFreeSpace p = pd_upper p - pd_lower p - sizeof_ItemIdData" by (auto simp: PageGetFreeSpace_def Let_def split: if_splits)
  then have room: "room_for q sz ?c False" using sz(2) sp fs unfolding room_for_def q by auto
  have few: "?c \<le> MaxHeapTuplesPerPage B"
  proof (rule ccontr)
    assume "\<not> ?c \<le> MaxHeapTuplesPerPage B"
    then have c: "?c = length (pd_linp p) + 1" "length (pd_linp p) = MaxHeapTuplesPerPage B" using le n by linarith+
    have "PageHasFreeLinePointers p \<and> \<not> list_all ItemIdIsUsed (pd_linp p)"
      using pos c(2) fs page_ok_nline [OF ok] by (auto simp: PageGetHeapFreeSpace_def Let_def split: if_splits)
    moreover from this have "\<forall>lp \<in> set (pd_linp p). ItemIdIsUsed lp \<or> ItemIdHasStorage lp"
      using c(1) find_free_spec [of 1 "pd_linp p"] inv by (simp add: chosen_def)
    ultimately show False using ok unfolding page_ok_def list_all_iff by blast
  qed
  have "PageAddItem B p item sz 0 overwrite True = Inr (add_at B q item sz ?c False True)"
    unfolding PageAddItem_eq [OF ok] q_def using inv by simp
  moreover have "fst (add_at B q item sz ?c False True) = ?c"
    using add_at_eq [OF q(1) chosen_pos, of False B p 0] le room few unfolding q by simp
  ultimately show ?thesis using chosen_pos [of B p 0] by (cases "add_at B q item sz ?c False True") auto
qed

lemma PageInit_ok:
  assumes B: "B \<le> 2 ^ 15" "256 dvd B" and fits: "SizeOfHeapPageHeaderData + MAXALIGN special \<le> B"
  shows "page_ok B (PageInit B special isHeap)" "page_items (PageInit B special isHeap) = []"
    "GetPageHeaderSize (PageInit B special isHeap) = (if isHeap then SizeOfHeapPageHeaderData else SizeOfPageHeaderData)"
proof -
  let ?p = "PageInit B special isHeap"
  obtain k where k: "B = 256 * k" using B(2) by (elim dvdE)
  have w: "(of_nat B :: uint16) = push_bit 8 (of_nat k)" unfolding k by (simp add: push_bit_eq_mult)
  have ff: "(0xFF :: uint16) = mask 8" by (simp add: mask_eq_exp_minus_1)
  have "(of_nat B OR v) AND 0xFF = v AND (0xFF::uint16)" for v
    unfolding w ff by (rule bit_word_eqI) (auto simp: bit_simps)
  then show h: "GetPageHeaderSize ?p = (if isHeap then SizeOfHeapPageHeaderData else SizeOfPageHeaderData)"
    by (simp add: GetPageHeaderSize_def PageIs8BXidHeapVersion_def PageInit_def Let_def PG_HEAP_PAGE_LAYOUT_VERSION_def PG_COMM_PAGE_LAYOUT_VERSION_def)
  show "page_items ?p = []" by (simp add: page_items_def items_of_def PageInit_def Let_def)
  have d: "8 dvd B" by (rule dvd_trans [OF _ B(2)]) simp
  then have "8 dvd B - MAXALIGN special" by (simp add: dvd_diff_nat)
  moreover have "40 \<le> B - MAXALIGN special" using fits by (simp add: SizeOfHeapPageHeaderData_def)
  ultimately show "page_ok B ?p"
    using B d h unfolding page_ok_def
    by (simp add: PageInit_def Let_def items_ok_def SizeOfHeapPageHeaderData_def SizeOfPageHeaderData_def)
qed

section \<open>Deleting and overwriting index tuples\<close>

text \<open>
  Both routines move the tuples below an item by a distance \<open>d\<close>, which is at most the room \<open>old\<close> the item had; \<open>d\<close> is negative when an
  item is replaced by a longer one.
\<close>

definition shift_lp :: "nat \<Rightarrow> int \<Rightarrow> ItemIdData \<Rightarrow> ItemIdData" where
  "shift_lp offset d a = (if ItemIdHasStorage a \<and> lp_off a \<le> offset then set_off (nat (int (lp_off a) + d)) a else a)"

definition below_gap :: "nat \<Rightarrow> nat \<Rightarrow> ItemIdData \<Rightarrow> bool" where
  "below_gap offset hi a \<longleftrightarrow> (ItemIdHasStorage a \<longrightarrow> lp_off a + MAXALIGN (lp_len a) \<le> offset \<or> hi \<le> lp_off a)"

lemma shift_lp_simps [simp]: "lp_len (shift_lp offset d a) = lp_len a" "lp_flags (shift_lp offset d a) = lp_flags a"
  "ItemIdHasStorage (shift_lp offset d a) = ItemIdHasStorage a" "ItemIdIsUsed (shift_lp offset d a) = ItemIdIsUsed a"
  by (simp_all add: shift_lp_def)

lemma shift_lp_off:
  assumes "item_within lo hi a" "below_gap offset (offset + old) a" "ItemIdHasStorage a" "offset + old \<le> hi" "hi \<le> 2 ^ 15" "0 < old" "d \<le> int old"
    "0 \<le> int lo + d"
  shows "int (lp_off (shift_lp offset d a)) = int (lp_off a) + (if lp_off a \<le> offset then d else 0)"
    "lp_off a \<le> offset \<longleftrightarrow> lp_off a + MAXALIGN (lp_len a) \<le> offset" "lp_off a \<le> offset \<or> offset + old \<le> lp_off a"
proof -
  have pos: "0 < MAXALIGN (lp_len a)" using assms(3) by (simp add: ItemIdHasStorage_def)
  show iff: "lp_off a \<le> offset \<longleftrightarrow> lp_off a + MAXALIGN (lp_len a) \<le> offset" and "lp_off a \<le> offset \<or> offset + old \<le> lp_off a"
    using assms(2,3,6) pos unfolding below_gap_def by auto
  have lo: "lo \<le> lp_off a" using assms by (simp add: item_within_def)
  show "int (lp_off (shift_lp offset d a)) = int (lp_off a) + (if lp_off a \<le> offset then d else 0)"
  proof (cases "lp_off a \<le> offset")
    case True
    then have "lp_off a + MAXALIGN (lp_len a) \<le> offset" using iff by simp
    moreover have "hi \<le> 32768" using assms(5) by simp
    ultimately have "int (lp_off a) + d < 32768" "0 \<le> int (lp_off a) + d" using pos lo assms(4,6-8) by linarith+
    then have "nat (int (lp_off a) + d) < 2 ^ 15" "0 \<le> int (lp_off a) + d" by auto
    then show ?thesis using True assms(3) by (simp add: shift_lp_def)
  qed (simp add: shift_lp_def)
qed

lemma shift_items:
  assumes ok: "items_ok lo hi linp" and gap: "\<forall>a \<in> set linp. below_gap offset (offset + old) a"
    and b: "lo \<le> offset" "offset + old \<le> hi" "hi \<le> length bs" "hi \<le> 2 ^ 15" "0 < old" "d \<le> int old" "0 \<le> int lo + d" "8 dvd d"
    and run: "lo' = nat (int lo + d)" "bs' = memmove lo' lo (offset - lo) bs" "linp' = map (shift_lp offset d) linp"
  shows "length bs' = length bs" "items_ok lo' hi linp'" "items_of linp' bs' = items_of linp bs" "drop hi bs' = drop hi bs"
    "\<forall>a \<in> set linp'. below_gap (nat (int offset + d)) (offset + old) a"
proof -
  have lo': "int lo' = int lo + d" using run b by simp
  have mv: "lo' + (offset - lo) \<le> length bs" "lo + (offset - lo) \<le> length bs" "lo' + (offset - lo) \<le> offset + old"
    using lo' b by linarith+
  show len: "length bs' = length bs" unfolding run(2) by (rule length_memmove [OF mv(1,2)])
  have w: "item_within lo hi a" if "a \<in> set linp" for a using ok that by (simp add: items_ok_def)
  note off = shift_lp_off [OF w bspec [OF gap] _ b(2,4,5,6,7)]
  have within: "item_within lo' hi (shift_lp offset d a) \<and> below_gap (nat (int offset + d)) (offset + old) (shift_lp offset d a)"
    if a: "a \<in> set linp" for a
  proof (cases "ItemIdHasStorage a")
    case True
    have "8 dvd lp_off a" using w [OF a] True by (simp add: item_within_def)
    then have "8 dvd int (lp_off a)" using int_dvd_int_iff [of 8 "lp_off a"] by simp
    then have "8 dvd int (lp_off (shift_lp offset d a))" using off(1) [OF a a True] b(8) by simp
    then have "8 dvd lp_off (shift_lp offset d a)" using int_dvd_int_iff [of 8 "lp_off (shift_lp offset d a)"] by simp
    moreover have "lo' \<le> lp_off (shift_lp offset d a)" "lp_off (shift_lp offset d a) + MAXALIGN (lp_len a) \<le> hi"
      "lp_off (shift_lp offset d a) + MAXALIGN (lp_len a) \<le> nat (int offset + d) \<or> offset + old \<le> lp_off (shift_lp offset d a)"
      using off [OF a a True] w [OF a] True lo' b by (auto simp: item_within_def split: if_splits)
    ultimately show ?thesis by (simp add: item_within_def below_gap_def)
  qed (simp add: item_within_def below_gap_def)
  then show "\<forall>a \<in> set linp'. below_gap (nat (int offset + d)) (offset + old) a" unfolding run by simp
  have "sorted_wrt apart_if linp'"
    unfolding run sorted_wrt_map
  proof (rule sorted_wrt_mono_rel)
    show "sorted_wrt apart_if linp" using ok by (simp add: items_ok_iff)
    fix a c assume ac: "a \<in> set linp" "c \<in> set linp" "apart_if a c"
    show "apart_if (shift_lp offset d a) (shift_lp offset d c)"
    proof (cases "ItemIdHasStorage a \<and> ItemIdHasStorage c")
      case True
      then show ?thesis
        using off [OF ac(1) ac(1)] off [OF ac(2) ac(2)] ac(3) b(5,6)
        by (auto simp: apart_if_def items_apart_def split: if_splits)
    qed (auto simp: apart_if_def)
  qed
  then show "items_ok lo' hi linp'" using within unfolding items_ok_iff by (simp add: run)
  have bytes: "bytes_at (lp_off (shift_lp offset d a)) (lp_len a) bs' = bytes_at (lp_off a) (lp_len a) bs" if a: "a \<in> set linp" for a
  proof (cases "ItemIdHasStorage a")
    case True
    have l: "lp_len a \<le> MAXALIGN (lp_len a)" by simp
    have wa: "lo \<le> lp_off a" "lp_off a + lp_len a \<le> length bs" using w [OF a] True b l unfolding item_within_def by linarith+
    show ?thesis
    proof (cases "lp_off a \<le> offset")
      case below: True
      have o: "lp_off (shift_lp offset d a) = lo' + (lp_off a - lo)" "lp_off a + lp_len a \<le> offset"
      proof -
        have "int (lp_off (shift_lp offset d a)) = int (lp_off a) + d" "lp_off a + MAXALIGN (lp_len a) \<le> offset"
          using off(1,2) [OF a a True] below by simp_all
        then show "lp_off (shift_lp offset d a) = lo' + (lp_off a - lo)" "lp_off a + lp_len a \<le> offset" using lo' wa l by linarith+
      qed
      show ?thesis
        unfolding o(1) run(2)
        by (rule bytes_at_eqI) (use mv wa o b in \<open>auto simp: length_memmove nth_memmove\<close>)
    next
      case False
      then have "lp_off (shift_lp offset d a) = lp_off a" "offset + old \<le> lp_off a" using off [OF a a True] by auto
      then show ?thesis unfolding run(2) using mv wa by (auto intro!: bytes_at_memmove_other)
    qed
  qed (simp add: ItemIdHasStorage_def)
  show "items_of linp' bs' = items_of linp bs" unfolding run(3) items_of_def using bytes by simp
  show "drop hi bs' = drop hi bs" unfolding run(2) using mv b by (simp add: memmove_def)
qed

text \<open>An item taken out of the array leaves a gap between the others.\<close>

definition without :: "nat \<Rightarrow> 'a list \<Rightarrow> 'a list" where
  "without k xs = take k xs @ drop (Suc k) xs"

lemma set_without: "set (without k xs) \<subseteq> set xs"
  by (auto simp: without_def dest: in_set_takeD in_set_dropD)

lemma without_map: "without k (map f xs) = map f (without k xs)"
  by (simp add: without_def take_map drop_map)

lemma length_without [simp]: "k < length xs \<Longrightarrow> length (without k xs) = length xs - 1"
  by (simp add: without_def)

lemma items_ok_without:
  assumes ok: "items_ok lo hi linp" and k: "k < length linp" "ItemIdHasStorage (linp ! k)"
  shows "items_ok lo hi (without k linp)"
    "\<forall>a \<in> set (without k linp). below_gap (lp_off (linp ! k)) (lp_off (linp ! k) + MAXALIGN (lp_len (linp ! k))) a"
proof -
  have "sorted_wrt apart_if (take k linp @ linp ! k # drop (Suc k) linp)"
    using ok id_take_nth_drop [OF k(1)] by (simp add: items_ok_iff)
  then have s: "sorted_wrt apart_if (without k linp)" "\<forall>a \<in> set (without k linp). apart_if a (linp ! k)"
    using apart_if_sym by (auto simp: sorted_wrt_append without_def)
  then show "items_ok lo hi (without k linp)" using ok set_without [of k linp] unfolding items_ok_iff by blast
  show "\<forall>a \<in> set (without k linp). below_gap (lp_off (linp ! k)) (lp_off (linp ! k) + MAXALIGN (lp_len (linp ! k))) a"
    using s(2) k(2) by (auto simp: apart_if_def items_apart_def below_gap_def)
qed

text \<open>Index pages: a plain header, every item has storage, and of an aligned size.\<close>

definition index_ok :: "nat \<Rightarrow> Page \<Rightarrow> bool" where
  "index_ok B p \<longleftrightarrow> page_ok B p \<and> GetPageHeaderSize p = SizeOfPageHeaderData \<and>
     (\<forall>lp \<in> set (pd_linp p). ItemIdHasStorage lp \<and> 8 dvd lp_len lp)"

lemma index_okD:
  assumes "index_ok B p"
  shows "page_ok B p" "B \<le> 2 ^ 15" "length (pd_data p) = B" "pd_lower p = SizeOfPageHeaderData + sizeof_ItemIdData * length (pd_linp p)"
    "pd_lower p \<le> pd_upper p" "pd_upper p \<le> pd_special p" "pd_special p \<le> B" "8 dvd pd_upper p" "8 dvd pd_special p"
    "items_ok (pd_upper p) (pd_special p) (pd_linp p)" "PageGetMaxOffsetNumber p = length (pd_linp p)"
    "\<forall>lp \<in> set (pd_linp p). \<not> ItemIdIsUsed lp \<longrightarrow> \<not> ItemIdHasStorage lp"
  using assms page_ok_nline [of B p] by (auto simp: index_ok_def page_ok_def)

lemma item_bounds:
  assumes "items_ok lo hi linp" "k < length linp" "ItemIdHasStorage (linp ! k)"
  shows "lo \<le> lp_off (linp ! k)" "lp_off (linp ! k) + MAXALIGN (lp_len (linp ! k)) \<le> hi" "8 dvd lp_off (linp ! k)" "0 < MAXALIGN (lp_len (linp ! k))"
proof -
  have "item_within lo hi (linp ! k)" using assms(1) nth_mem [OF assms(2)] unfolding items_ok_def by blast
  then show "lo \<le> lp_off (linp ! k)" "lp_off (linp ! k) + MAXALIGN (lp_len (linp ! k)) \<le> hi" "8 dvd lp_off (linp ! k)" "0 < MAXALIGN (lp_len (linp ! k))"
    using assms(3) by (auto simp: item_within_def ItemIdHasStorage_def)
qed

lemma tuple_delete:
  assumes ok: "index_ok B p" and k: "k < length (pd_linp p)"
  shows "\<exists>p'. PageIndexTupleDelete B p (Suc k) = Inr p' \<and> index_ok B p' \<and> page_items p' = without k (page_items p) \<and>
    pd_special p' = pd_special p \<and> drop (pd_special p) (pd_data p') = drop (pd_special p) (pd_data p) \<and>
    pd_pagesize_version p' = pd_pagesize_version p"
proof -
  note d = index_okD [OF ok]
  let ?x = "pd_linp p ! k" and ?rest = "without k (pd_linp p)"
  have st: "ItemIdHasStorage ?x" and al: "8 dvd lp_len ?x" using ok nth_mem [OF k] by (auto simp: index_ok_def)
  define offset sz where "offset = lp_off ?x" and "sz = lp_len ?x"
  have b: "pd_upper p \<le> offset" "offset + sz \<le> pd_special p" "8 dvd offset" "0 < sz" "8 dvd sz" "MAXALIGN sz = sz" "MAXALIGN offset = offset"
    using item_bounds [OF d(10) k st] al st unfolding offset_def sz_def by (simp_all add: ItemIdHasStorage_def)
  define bs' where "bs' = memmove (pd_upper p + sz) (pd_upper p) (offset - pd_upper p) (pd_data p)"
  define linp' where "linp' = map (shift_lp offset (int sz)) ?rest"
  have gap: "items_ok (pd_upper p) (pd_special p) ?rest" "\<forall>a \<in> set ?rest. below_gap offset (offset + sz) a"
    using items_ok_without [OF d(10) k st] b(6) unfolding offset_def sz_def by simp_all
  have "8 dvd int sz" using b(5) int_dvd_int_iff [of 8 sz] by simp
  note s = shift_items [OF gap b(1,2) _ _ b(4) order_refl _ this, of "pd_data p" "pd_upper p + sz" bs' linp']
  have s': "length bs' = B" "items_ok (pd_upper p + sz) (pd_special p) linp'" "items_of linp' bs' = items_of ?rest (pd_data p)"
    "drop (pd_special p) bs' = drop (pd_special p) (pd_data p)"
    using s d(2,3,7) by (simp_all add: bs'_def linp'_def nat_add_distrib)
  have u16: "(pd_upper p + sz) mod 2 ^ 16 = pd_upper p + sz" using b d(2,7) by simp
  have all: "\<forall>a \<in> set ?rest. ItemIdHasStorage a \<and> 8 dvd lp_len a" using ok set_without [of k "pd_linp p"] by (auto simp: index_ok_def)
  have shift: "map (\<lambda>ii. if lp_off ii \<le> offset then set_off (lp_off ii + sz) ii else ii) ?rest = linp'"
    unfolding linp'_def using all by (auto simp: shift_lp_def nat_add_distrib)
  let ?q = "p\<lparr>pd_linp := linp', pd_data := bs', pd_upper := pd_upper p + sz, pd_lower := pd_lower p - sizeof_ItemIdData\<rparr>"
  have mv: "(if offset > pd_upper p then memmove (pd_upper p + sz) (pd_upper p) (offset - pd_upper p) (pd_data p) else pd_data p) = bs'"
    unfolding bs'_def by (simp add: memmove_def)
  have hdr: "GetPageHeaderSize (p\<lparr>pd_linp := l, pd_data := bs', pd_upper := u, pd_lower := w\<rparr>) = SizeOfPageHeaderData" for l u w
    using ok header_size_cong [of "p\<lparr>pd_linp := l, pd_data := bs', pd_upper := u, pd_lower := w\<rparr>" p] by (simp add: index_ok_def)
  have empty: "?rest = []" if "pd_lower p - sizeof_ItemIdData \<le> SizeOfPageHeaderData"
  proof -
    have "length ?rest = 0" unfolding length_without [OF k] using that d(4) by (simp add: sizeof_ItemIdData_def)
    then show ?thesis by simp
  qed
  have chk: "\<not> (pd_lower p < SizeOfPageHeaderData \<or> pd_upper p < pd_lower p \<or> pd_special p < pd_upper p \<or> B < pd_special p)"
    "\<not> (Suc k = 0 \<or> length (pd_linp p) < Suc k)"
    "\<not> (offset < pd_upper p \<or> pd_special p < offset + sz \<or> offset \<noteq> MAXALIGN offset \<or> sz \<noteq> MAXALIGN sz)"
    using d(4-7) k b by simp_all
  have res: "PageIndexTupleDelete B p (Suc k) = Inr ?q"
    unfolding PageIndexTupleDelete_def Let_def d(11) diff_Suc_1 offset_def [symmetric] sz_def [symmetric] without_def [symmetric] mv u16
    using chk shift empty by (auto simp: PageIsEmpty_def hdr linp'_def)
  have len: "length linp' = length (pd_linp p) - 1" using k by (simp add: linp'_def)
  have "page_ok B ?q"
  proof (rule page_ok_update [OF d(1)])
    show "pd_lower ?q = GetPageHeaderSize p + sizeof_ItemIdData * length (pd_linp ?q)"
      using ok d(4) len k by (simp add: index_ok_def sizeof_ItemIdData_def)
    show "\<forall>lp \<in> set (pd_linp ?q). \<not> ItemIdIsUsed lp \<longrightarrow> \<not> ItemIdHasStorage lp"
      using d(12) set_without [of k "pd_linp p"] by (auto simp: linp'_def)
  qed (use s' b d in simp_all)
  then have "index_ok B ?q" using hdr all by (auto simp: index_ok_def linp'_def)
  moreover have "page_items ?q = without k (page_items p)" using s'(3) by (simp add: page_items_def items_of_def without_map)
  ultimately show ?thesis using res s'(4) by simp
qed

text \<open>The items that remain when the ones at the offset numbers \<open>itemnos\<close> are removed.\<close>

definition except_items :: "nat list \<Rightarrow> 'a list \<Rightarrow> 'a list" where
  "except_items itemnos xs = nths xs {i. Suc i \<notin> set itemnos}"

lemma except_without:
  assumes i: "i < length xs" and r: "\<forall>j \<in> set r. j < Suc i"
  shows "except_items r (without i xs) = except_items (Suc i # r) xs"
proof -
  have l: "length (take i xs) = i" using i by simp
  have "except_items (Suc i # r) xs = nths (take i xs @ xs ! i # drop (Suc i) xs) {j. Suc j \<notin> set (Suc i # r)}"
    using id_take_nth_drop [OF i] by (simp add: except_items_def)
  also have "\<dots> = nths (take i xs) {j. Suc j \<notin> set (Suc i # r)} @ nths (drop (Suc i) xs) {j. Suc j + i \<noteq> i \<and> Suc (Suc (j + i)) \<notin> set r}"
    unfolding nths_append nths_Cons l by (simp add: nths_append nths_Cons)
  also have "nths (drop (Suc i) xs) {j. Suc j + i \<noteq> i \<and> Suc (Suc (j + i)) \<notin> set r} = drop (Suc i) xs"
    by (rule nths_all) (use r in auto)
  also have "nths (take i xs) {j. Suc j \<notin> set (Suc i # r)} = nths (take i xs) {j. Suc j \<notin> set r}"
    by (auto simp: nths_def in_set_zip l intro!: arg_cong [where f = "map fst"] filter_cong)
  also have "nths (take i xs) {j. Suc j \<notin> set r} @ drop (Suc i) xs = except_items r (without i xs)"
  proof -
    have "nths (drop (Suc i) xs) {j. j + i \<in> {j. Suc j \<notin> set r}} = drop (Suc i) xs" by (rule nths_all) (use r in auto)
    then show ?thesis unfolding except_items_def without_def nths_append l by simp
  qed
  finally show ?thesis by simp
qed

lemma retail_deletes:
  assumes "index_ok B p" "sorted_wrt (>) r" "\<forall>i \<in> set r. 1 \<le> i \<and> i \<le> length (pd_linp p)"
  shows "\<exists>p'. retail_delete B p r = Inr p' \<and> index_ok B p' \<and> page_items p' = except_items r (page_items p) \<and>
    pd_special p' = pd_special p \<and> drop (pd_special p) (pd_data p') = drop (pd_special p) (pd_data p)"
  using assms
proof (induction r arbitrary: p)
  case Nil
  then show ?case by (simp add: except_items_def nths_all)
next
  case (Cons i r)
  obtain k where k: "i = Suc k" using Cons.prems(3) by (cases i) auto
  have kl: "k < length (pd_linp p)" using Cons.prems(3) k by simp
  obtain q where q: "PageIndexTupleDelete B p i = Inr q" "index_ok B q" "page_items q = without k (page_items p)"
    "pd_special q = pd_special p" "drop (pd_special p) (pd_data q) = drop (pd_special p) (pd_data p)"
    using tuple_delete [OF Cons.prems(1) kl] k by auto
  have "length (pd_linp q) = length (pd_linp p) - 1"
    using arg_cong [OF q(3), of length] kl by simp
  then have "\<forall>j \<in> set r. 1 \<le> j \<and> j \<le> length (pd_linp q)" using Cons.prems k kl by fastforce
  then obtain p' where p': "retail_delete B q r = Inr p'" "index_ok B p'" "page_items p' = except_items r (page_items q)"
    "pd_special p' = pd_special q" "drop (pd_special q) (pd_data p') = drop (pd_special q) (pd_data q)"
    using Cons.IH [OF q(2)] Cons.prems(2) by auto
  have "except_items r (page_items q) = except_items (i # r) (page_items p)"
    unfolding q(3) k by (rule except_without) (use Cons.prems kl k in auto)
  then show ?case using q p' by (simp add: rbind_def)
qed

lemma keep_items_nths:
  assumes "sorted_wrt (<) itemnos" "\<forall>i \<in> set itemnos. n \<le> i \<and> i < n + length xs"
  shows "keep_items n itemnos xs = (nths xs {j. n + j \<notin> set itemnos}, [])"
  using assms
proof (induction xs arbitrary: n itemnos)
  case Nil
  then show ?case by (cases itemnos) auto
next
  case (Cons x xs)
  show ?case
  proof (cases "itemnos \<noteq> [] \<and> n = hd itemnos")
    case True
    then obtain r where r: "itemnos = n # r" by (cases itemnos) auto
    have "keep_items (Suc n) r xs = (nths xs {j. Suc n + j \<notin> set r}, [])"
    proof (rule Cons.IH)
      show "sorted_wrt (<) r" using Cons.prems(1) r by simp
      show "\<forall>i \<in> set r. Suc n \<le> i \<and> i < Suc n + length xs" using Cons.prems r by (simp add: Suc_le_eq)
    qed
    moreover have "{j. Suc j \<in> {j. n + j \<notin> set itemnos}} = {j. Suc n + j \<notin> set r}" using r by auto
    ultimately show ?thesis unfolding nths_Cons by (simp add: r)
  next
    case False
    have n: "n \<notin> set itemnos"
    proof (cases itemnos)
      case i: (Cons i r)
      then have "n < i" using False Cons.prems(2) by (auto simp: order_le_less)
      then show ?thesis using Cons.prems(1) i by auto
    qed simp
    have "keep_items (Suc n) itemnos xs = (nths xs {j. Suc n + j \<notin> set itemnos}, [])"
    proof (rule Cons.IH [OF Cons.prems(1)])
      show "\<forall>i \<in> set itemnos. Suc n \<le> i \<and> i < Suc n + length xs"
      proof
        fix i assume i: "i \<in> set itemnos"
        then have "i \<noteq> n" using n by auto
        then show "Suc n \<le> i \<and> i < Suc n + length xs" using bspec [OF Cons.prems(2) i] by simp
      qed
    qed
    then show ?thesis using False n by (auto simp: nths_Cons)
  qed
qed

lemma sorted_nths: "sorted_wrt P xs \<Longrightarrow> sorted_wrt P (nths xs A)"
proof (induction xs arbitrary: A)
  case (Cons x xs)
  then show ?case using set_nths_subset by (fastforce simp: nths_Cons)
qed simp

lemma items_ok_nths: "items_ok lo hi linp \<Longrightarrow> items_ok lo hi (nths linp A)"
  unfolding items_ok_iff using subsetD [OF set_nths_subset, of _ linp A] sorted_nths [of apart_if linp A] by simp

lemma storage_entries_all:
  "\<forall>lp \<in> set linp. ItemIdHasStorage lp \<Longrightarrow> map (\<lambda>(i, lp). (i, lp_off lp, MAXALIGN (lp_len lp))) (enumerate 0 linp) = storage_entries linp"
  unfolding storage_entries_def by (subst filter_True) (auto simp: in_set_enumerate_eq)

lemma set_scanned: "set (scanned room offnum itemnos linp) \<subseteq> set linp"
  by (induction room offnum itemnos linp rule: scanned.induct) (auto split: nat.splits)

lemma bulk_deletes:
  assumes ok: "index_ok B p" and it: "sorted_wrt (<) itemnos" "\<forall>i \<in> set itemnos. 1 \<le> i \<and> i \<le> length (pd_linp p)" and n: "2 < length itemnos"
    and room: "length (except_items itemnos (pd_linp p)) \<le> MaxIndexTuplesPerPage B"
  shows "\<exists>p'. PageIndexMultiDelete B p itemnos = Inr p' \<and> index_ok B p' \<and> page_items p' = except_items itemnos (page_items p) \<and>
    pd_special p' = pd_special p \<and> drop (pd_special p) (pd_data p') = drop (pd_special p) (pd_data p)"
proof -
  note d = index_okD [OF ok]
  define kept where "kept = except_items itemnos (pd_linp p)"
  have keep: "keep_items 1 itemnos (pd_linp p) = (kept, [])"
  proof -
    have "\<forall>i \<in> set itemnos. 1 \<le> i \<and> i < 1 + length (pd_linp p)" using it(2) by fastforce
    from keep_items_nths [OF it(1) this] show ?thesis by (simp add: kept_def except_items_def)
  qed
  have sub: "set kept \<subseteq> set (pd_linp p)" unfolding kept_def except_items_def by (rule set_nths_subset)
  have st: "\<forall>a \<in> set kept. ItemIdHasStorage a \<and> 8 dvd lp_len a" using ok sub by (auto simp: index_ok_def)
  have io: "items_ok (pd_upper p) (pd_special p) kept" unfolding kept_def except_items_def by (rule items_ok_nths [OF d(10)])
  let ?es = "storage_entries kept"
  have es: "map (\<lambda>(i, lp). (i, lp_off lp, MAXALIGN (lp_len lp))) (enumerate 0 kept) = ?es" using st by (intro storage_entries_all) auto
  obtain u linp' bs' where run: "compactify (sort_desc ?es) (pd_special p) kept (pd_data p) = (u, linp', bs')"
    by (cases "compactify (sort_desc ?es) (pd_special p) kept (pd_data p)") auto
  have sp: "pd_special p \<le> length (pd_data p)" "pd_special p \<le> 2 ^ 15" using d by simp_all
  note c = compactify_items [OF io sp d(9) run]
  have tl: "total_len ?es \<le> pd_special p - pd_upper p" by (rule total_storage [OF io d(6)])
  have u: "pd_upper p \<le> u" "u \<le> pd_special p" "u mod 2 ^ 16 = u" using c(1) tl d by auto
  have kl: "length kept \<le> length (pd_linp p)" unfolding kept_def except_items_def nths_def by (simp add: order_trans [OF length_filter_le])
  have tl2: "\<not> pd_special p - pd_lower p < sum_list (map (\<lambda>(i, off, len). len) ?es)"
    using tl d(5,6) by (simp add: total_len_def case_prod_unfold)
  have ch: "\<not> list_ex (\<lambda>lp. lp_off lp < pd_upper p \<or> lp_off lp + lp_len lp > pd_special p \<or> lp_off lp \<noteq> MAXALIGN (lp_off lp))
      (scanned (MaxIndexTuplesPerPage B) 1 itemnos (pd_linp p))"
  proof -
    have "pd_upper p \<le> lp_off a \<and> lp_off a + lp_len a \<le> pd_special p \<and> lp_off a = MAXALIGN (lp_off a)" if a: "a \<in> set (pd_linp p)" for a
    proof -
      have "item_within (pd_upper p) (pd_special p) a" "ItemIdHasStorage a" using d(10) ok a by (auto simp: items_ok_def index_ok_def)
      then have w: "pd_upper p \<le> lp_off a" "lp_off a + MAXALIGN (lp_len a) \<le> pd_special p" "8 dvd lp_off a" by (simp_all add: item_within_def)
      then have "lp_off a + lp_len a \<le> pd_special p" using MAXALIGN_simps(2) [of "lp_len a"] by linarith
      then show ?thesis using w by simp
    qed
    then show ?thesis using set_scanned unfolding list_ex_iff by (meson not_le subsetD)
  qed
  have few: "\<not> MaxIndexTuplesPerPage B < length kept" using room by (simp add: kept_def)
  define w where "w = (SizeOfPageHeaderData + length kept * sizeof_ItemIdData) mod 2 ^ 16"
  have w: "w = SizeOfPageHeaderData + sizeof_ItemIdData * length kept" "w \<le> pd_lower p"
  proof -
    have "SizeOfPageHeaderData + sizeof_ItemIdData * length kept \<le> pd_lower p" using d(4) kl by (simp add: sizeof_ItemIdData_def)
    moreover have "pd_lower p < 2 ^ 16" using d by simp
    ultimately show "w = SizeOfPageHeaderData + sizeof_ItemIdData * length kept" "w \<le> pd_lower p" by (simp_all add: w_def mult.commute)
  qed
  let ?q = "p\<lparr>pd_linp := linp', pd_data := bs', pd_upper := u, pd_lower := w\<rparr>"
  have hdr: "GetPageHeaderSize p = SizeOfPageHeaderData" using ok by (simp add: index_ok_def)
  have res: "PageIndexMultiDelete B p itemnos = Inr ?q"
    using n d(4-7,9) ch tl2 few unfolding PageIndexMultiDelete_def Let_def keep es run prod.case w_def [symmetric] u(3) hdr by simp
  have lk: "\<forall>i < length kept. linp' ! i = kept ! i \<or> (\<exists>off. linp' ! i = set_off off (kept ! i))" by (rule c(9))
  have al: "ItemIdHasStorage a \<and> 8 dvd lp_len a \<and> ItemIdIsUsed a" if am: "a \<in> set linp'" for a
  proof -
    obtain i where i: "i < length kept" "a = linp' ! i" using am c(8) by (auto simp: in_set_conv_nth)
    have "ItemIdIsUsed (kept ! i)" "ItemIdHasStorage (kept ! i)" "8 dvd lp_len (kept ! i)" using st d(12) sub nth_mem [OF i(1)] by blast+
    then show ?thesis using lk i by fastforce
  qed
  have wu: "w \<le> u" using w(2) u(1) d(5) by linarith
  have "page_ok B ?q"
    by (rule page_ok_update [OF d(1)]) (use c(3,5,7,8) u(2) w(1) wu d(3) hdr al in simp_all)
  moreover have "GetPageHeaderSize ?q = SizeOfPageHeaderData" using hdr header_size_cong [of ?q p] by simp
  ultimately have "index_ok B ?q" using al by (simp add: index_ok_def)
  moreover have "page_items ?q = except_items itemnos (page_items p)"
    using c(6) by (simp add: page_items_def items_of_def kept_def except_items_def nths_map)
  ultimately show ?thesis using res c(4) by simp
qed

lemma length_except_items:
  assumes "sorted_wrt (<) itemnos" "\<forall>i \<in> set itemnos. 1 \<le> i \<and> i \<le> length xs"
  shows "length (except_items itemnos xs) = length xs - length itemnos"
proof -
  have d: "distinct itemnos" using assms(1) by (simp add: strict_sorted_iff)
  have "{i. i < length xs \<and> Suc i \<notin> set itemnos} = {..<length xs} - (\<lambda>i. i - 1) ` set itemnos"
    using assms(2) by (force simp: image_iff)
  moreover have "card ((\<lambda>i. i - 1) ` set itemnos) = length itemnos"
    using assms(2) d eq_diff_iff [of 1] by (subst card_image) (auto simp: inj_on_def distinct_card)
  moreover have "(\<lambda>i. i - 1) ` set itemnos \<subseteq> {..<length xs}" using assms(2) by fastforce
  ultimately show ?thesis by (simp add: except_items_def length_nths card_Diff_subset)
qed

lemma multi_delete:
  assumes ok: "index_ok B p" and it: "sorted_wrt (<) itemnos" "\<forall>i \<in> set itemnos. 1 \<le> i \<and> i \<le> length (pd_linp p)"
    and room: "length (except_items itemnos (pd_linp p)) \<le> MaxIndexTuplesPerPage B"
  shows "\<exists>p'. PageIndexMultiDelete B p itemnos = Inr p' \<and> index_ok B p' \<and> page_items p' = except_items itemnos (page_items p) \<and>
    pd_special p' = pd_special p \<and> drop (pd_special p) (pd_data p') = drop (pd_special p) (pd_data p)"
proof (cases "length itemnos \<le> 2")
  case True
  have "sorted_wrt (>) (rev itemnos)" using it(1) by (simp add: sorted_wrt_rev)
  moreover have "except_items (rev itemnos) xs = except_items itemnos xs" for xs :: "(nat \<times> uint8 list) list" by (simp add: except_items_def)
  ultimately show ?thesis using retail_deletes [OF ok, of "rev itemnos"] it(2) True by (simp add: PageIndexMultiDelete_def)
next
  case False
  then show ?thesis using bulk_deletes [OF ok it _ room] by simp
qed

lemma memmove_same: "memmove a a n bs = bs"
proof -
  have "take n (drop a bs) @ drop (a + n) bs = drop a bs" using append_take_drop_id [of n "drop a bs"] by (simp add: add.commute)
  then show ?thesis by (simp add: memmove_def)
qed

lemma update_without: "k < length xs \<Longrightarrow> xs[k := x] = put_item (Suc k) True x (without k xs)"
  by (simp add: put_item_def without_def upd_conv_take_nth_drop)

lemma shift_lp_0: "items_ok lo hi linp \<Longrightarrow> hi \<le> 2 ^ 15 \<Longrightarrow> map (shift_lp offset 0) linp = linp"
proof (rule map_idI)
  fix a assume a: "items_ok lo hi linp" "hi \<le> 2 ^ 15" "a \<in> set linp"
  have "lp_off a < 2 ^ 15" if st: "ItemIdHasStorage a"
  proof -
    have "item_within lo hi a" using a(1,3) by (simp add: items_ok_def)
    then have "lp_off a + MAXALIGN (lp_len a) \<le> 2 ^ 15" using st a(2) by (simp add: item_within_def)
    moreover have "0 < MAXALIGN (lp_len a)" using st by (simp add: ItemIdHasStorage_def)
    ultimately show ?thesis by linarith
  qed
  then show "shift_lp offset 0 a = a" by (simp add: shift_lp_def set_off_def)
qed

text \<open>The array and the bytes after an item is overwritten.\<close>

lemma overwrite_items:
  assumes ok: "items_ok lo hi linp" and k: "k < length linp" "ItemIdHasStorage (linp ! k)" and hi: "hi \<le> length bs" "hi \<le> 2 ^ 15" "8 dvd lo"
    and n: "0 < n" "n \<le> length item" "n < 2 ^ 15" and fits: "MAXALIGN n \<le> MAXALIGN (lp_len (linp ! k)) + lo"
    and d: "d = int (MAXALIGN (lp_len (linp ! k))) - int (MAXALIGN n)" and lo': "lo' = nat (int lo + d)" and off: "offset = lp_off (linp ! k)"
    and lp: "lp_off lp = nat (int offset + d)" "lp_len lp = n" "lp_flags lp = lp_flags (linp ! k)"
    and linp': "linp' = (map (shift_lp offset d) linp)[k := lp]" and bs': "bs' = memcpy (nat (int offset + d)) item n (memmove lo' lo (offset - lo) bs)"
  shows "items_ok lo' hi linp'" "items_of linp' bs' = (items_of linp bs)[k := (lp_flags (linp ! k), take n item)]"
    "length bs' = length bs" "drop hi bs' = drop hi bs" "lo' \<le> hi" "8 dvd lo'"
proof -
  let ?old = "MAXALIGN (lp_len (linp ! k))" and ?rest = "without k linp"
  define bs1 rest' off' where "bs1 = memmove lo' lo (offset - lo) bs" and "rest' = map (shift_lp offset d) ?rest" and "off' = nat (int offset + d)"
  have b: "lo \<le> offset" "offset + ?old \<le> hi" "8 dvd offset" "0 < ?old" using item_bounds [OF ok k] off by simp_all
  have d8: "8 dvd d" unfolding d by (simp add: dvd_diff int_dvd_int_iff [of 8, simplified])
  have p: "d \<le> int ?old" "0 \<le> int lo + d" "int lo' = int lo + d" "int off' = int offset + d" using d lo' fits b(1) unfolding off'_def by linarith+
  note gap = items_ok_without [OF ok k, folded off]
  note s = shift_items [OF gap b(1,2) hi(1,2) b(4) p(1,2) d8 lo' bs1_def rest'_def]
  have top: "off' + MAXALIGN n = offset + ?old" using p(4) d by linarith
  have n8: "n \<le> MAXALIGN n" by simp
  have fit: "off' + n \<le> length bs1" "off' + n \<le> hi" using top n8 b(2) hi(1) s(1) by linarith+
  have bs2: "bs' = memcpy off' item n bs1" unfolding bs' bs1_def off'_def ..
  show len: "length bs' = length bs" unfolding bs2 using length_memcpy [OF fit(1) n(2)] s(1) by simp
  show "drop hi bs' = drop hi bs" unfolding bs2 using s(4) fit n(2) by (simp add: memcpy_def)
  show "lo' \<le> hi" using p(1,3) b by linarith
  have lo8: "8 dvd int lo'" "8 dvd int off'" unfolding p(3,4)
    using d8 hi(3) b(3) int_dvd_int_iff [of 8 lo] int_dvd_int_iff [of 8 offset] by simp_all
  then show "8 dvd lo'" using int_dvd_int_iff [of 8 lo'] by simp
  have put: "linp' = put_item (Suc k) True lp rest'" unfolding linp' rest'_def using k by (simp add: update_without without_map)
  have within: "item_within lo' hi lp"
    using lp top b p lo8(2) int_dvd_int_iff [of 8 off'] unfolding item_within_def off'_def [symmetric] by auto
  have ap: "apart_if a lp" if "a \<in> set rest'" for a
    using bspec [OF s(5) that] lp top unfolding apart_if_def items_apart_def below_gap_def off'_def [symmetric] by auto
  show "items_ok lo' hi linp'"
    using s(2) sorted_put_item [of rest' lp "Suc k" True] ap within subsetD [OF set_put_item, of _ "Suc k" True lp rest']
    unfolding items_ok_iff put by blast
  have other: "bytes_at (lp_off a) (lp_len a) bs' = bytes_at (lp_off a) (lp_len a) bs1" if a: "a \<in> set rest'" for a
  proof (cases "ItemIdHasStorage a")
    case True
    have l: "lp_len a \<le> MAXALIGN (lp_len a)" by simp
    have "item_within lo' hi a" using s(2) a by (simp add: items_ok_def)
    then have "lp_off a + lp_len a \<le> length bs1" using True l hi(1) s(1) unfolding item_within_def by linarith
    moreover have "lp_off a + lp_len a \<le> off' \<or> off' + n \<le> lp_off a"
      using bspec [OF s(5) a] True l top n8 unfolding below_gap_def off'_def [symmetric] by linarith
    ultimately show ?thesis unfolding bs2 using fit(1) n(2) by (intro bytes_at_memcpy_other) auto
  qed (simp add: ItemIdHasStorage_def)
  have "bytes_at (lp_off lp) (lp_len lp) bs' = take n item"
    unfolding lp(1,2) off'_def [symmetric] bs2 by (rule bytes_at_memcpy [OF fit(1) n(2)])
  then have "items_of linp' bs' = put_item (Suc k) True (lp_flags (linp ! k), take n item) (items_of rest' bs1)"
    using items_of_put [of rest' bs' bs1 "Suc k" True lp] other lp(3) unfolding put by simp
  also have "items_of rest' bs1 = without k (items_of linp bs)" unfolding s(3) by (simp add: items_of_def without_map)
  finally show "items_of linp' bs' = (items_of linp bs)[k := (lp_flags (linp ! k), take n item)]"
    using k by (simp add: update_without items_of_def)
qed

lemma tuple_overwrite:
  assumes ok: "page_ok B p" and k: "k < length (pd_linp p)" "ItemIdHasStorage (pd_linp p ! k)" "ItemIdIsUsed (pd_linp p ! k)" and n: "0 < n" "n \<le> length item"
  shows "if MAXALIGN n \<le> MAXALIGN (lp_len (pd_linp p ! k)) + (pd_upper p - pd_lower p)
    then \<exists>p'. page_index_tuple_overwrite B p (Suc k) item n = Inr (True, p') \<and> page_ok B p' \<and>
      page_items p' = (page_items p)[k := (lp_flags (pd_linp p ! k), take n item)] \<and>
      pd_special p' = pd_special p \<and> drop (pd_special p) (pd_data p') = drop (pd_special p) (pd_data p)
    else page_index_tuple_overwrite B p (Suc k) item n = Inr (False, p)"
proof -
  have d: "B \<le> 2 ^ 15" "length (pd_data p) = B" "pd_lower p = GetPageHeaderSize p + sizeof_ItemIdData * length (pd_linp p)"
    "pd_lower p \<le> pd_upper p" "pd_upper p \<le> pd_special p" "pd_special p \<le> B" "8 dvd pd_upper p" "8 dvd pd_special p"
    "\<forall>lp \<in> set (pd_linp p). \<not> ItemIdIsUsed lp \<longrightarrow> \<not> ItemIdHasStorage lp" "items_ok (pd_upper p) (pd_special p) (pd_linp p)"
    using ok unfolding page_ok_def by blast+
  define offset old where "offset = lp_off (pd_linp p ! k)" and "old = lp_len (pd_linp p ! k)"
  note b = item_bounds [OF d(10) k(1,2), folded offset_def old_def]
  have oo: "offset + old \<le> pd_special p" using b(2) MAXALIGN_simps(2) [of old] by linarith
  have h: "SizeOfPageHeaderData \<le> pd_lower p" using header_size [of p] d(3) by (auto simp: SizeOfPageHeaderData_def)
  have chk: "\<not> (pd_lower p < SizeOfPageHeaderData \<or> pd_upper p < pd_lower p \<or> pd_special p < pd_upper p \<or> B < pd_special p \<or> pd_special p \<noteq> MAXALIGN (pd_special p))"
    "\<not> (Suc k = 0 \<or> length (pd_linp p) < Suc k)" "\<not> (offset < pd_upper p \<or> pd_special p < offset + old \<or> offset \<noteq> MAXALIGN offset)"
    using h d k b oo by simp_all
  show ?thesis
  proof (cases "MAXALIGN n \<le> MAXALIGN old + (pd_upper p - pd_lower p)")
    case False
    then show ?thesis
      using chk unfolding page_index_tuple_overwrite_def Let_def page_ok_nline [OF ok] diff_Suc_1 offset_def [symmetric] old_def [symmetric] by simp
  next
    case fits: True
    define df where "df = int (MAXALIGN old) - int (MAXALIGN n)"
    define lo' linp1 where "lo' = nat (int (pd_upper p) + df)" and "linp1 = map (shift_lp offset df) (pd_linp p)"
    define lp where "lp = (set_off (nat (int offset + df)) (linp1 ! k))\<lparr>lp_len := n mod 2 ^ 15\<rparr>"
    define bs1 where "bs1 = memmove lo' (pd_upper p) (offset - pd_upper p) (pd_data p)"
    have hi: "pd_special p \<le> length (pd_data p)" "pd_special p \<le> 2 ^ 15" "pd_special p \<le> 32768" using d by simp_all
    have n8: "n \<le> MAXALIGN n" "0 < MAXALIGN n" using n by simp_all
    have nb: "n < 2 ^ 15"
    proof -
      have "24 \<le> pd_lower p" using h by (simp add: SizeOfPageHeaderData_def)
      then have "n < 32768" using fits n8 b(1,2) d(4) hi(3) by linarith
      then show ?thesis by simp
    qed
    have "int offset + df < 32768" using b(2) hi(3) n8(2) unfolding df_def by linarith
    then have o15: "nat (int offset + df) < 2 ^ 15" by simp
    have lp: "lp_off lp = nat (int offset + df)" "lp_len lp = n" "lp_flags lp = lp_flags (pd_linp p ! k)"
      using o15 nb k(1) by (simp_all add: lp_def linp1_def)
    have f2: "MAXALIGN n \<le> MAXALIGN (lp_len (pd_linp p ! k)) + pd_upper p" using fits unfolding old_def by linarith
    note c = overwrite_items [OF d(10) k(1,2) hi(1,2) d(7) n nb f2 df_def [unfolded old_def] lo'_def offset_def lp refl refl, folded linp1_def bs1_def]
    have low: "pd_lower p \<le> lo'" using fits d(4) unfolding lo'_def df_def by linarith
    have u16: "lo' mod 2 ^ 16 = lo'" using c(5) hi(3) by simp
    let ?q = "p\<lparr>pd_linp := linp1[k := lp], pd_data := memcpy (nat (int offset + df)) item n bs1, pd_upper := lo'\<rparr>"
    have res: "page_index_tuple_overwrite B p (Suc k) item n = Inr (True, ?q)"
    proof -
      have z: "lo' = pd_upper p \<and> bs1 = pd_data p \<and> linp1 = pd_linp p" if "df = 0"
        using that shift_lp_0 [OF d(10) hi(2)] by (simp add: lo'_def bs1_def linp1_def memmove_same)
      have m: "map (\<lambda>ii. if ItemIdHasStorage ii \<and> lp_off ii \<le> offset then set_off (nat (int (lp_off ii) + df)) ii else ii) (pd_linp p) = linp1"
        unfolding linp1_def shift_lp_def by simp
      have mv: "(if offset \<noteq> pd_upper p then memmove lo' (pd_upper p) (offset - pd_upper p) (pd_data p) else pd_data p) = bs1"
        unfolding bs1_def by (simp add: memmove_def)
      show ?thesis
        using chk fits unfolding page_index_tuple_overwrite_def Let_def page_ok_nline [OF ok] diff_Suc_1 offset_def [symmetric] old_def [symmetric]
          df_def [symmetric] m lo'_def [symmetric] mv u16
        using z o15 by (cases "df = 0") (simp_all add: lp_def)
    qed
    have "page_ok B ?q"
    proof (rule page_ok_update [OF ok])
      show "\<forall>a \<in> set (pd_linp ?q). \<not> ItemIdIsUsed a \<longrightarrow> \<not> ItemIdHasStorage a"
      proof
        fix a assume "a \<in> set (pd_linp ?q)"
        then have "a = lp \<or> a \<in> set linp1" using subsetD [OF set_update_subset_insert] by fastforce
        then show "\<not> ItemIdIsUsed a \<longrightarrow> \<not> ItemIdHasStorage a" using lp(3) k(3) d(9) by (auto simp: linp1_def ItemIdIsUsed_def)
      qed
    qed (use c d low in \<open>simp_all add: linp1_def\<close>)
    moreover have "page_items ?q = (page_items p)[k := (lp_flags (pd_linp p ! k), take n item)]" using c(2) by (simp add: page_items_def)
    ultimately show ?thesis using res fits c(4) unfolding old_def by simp
  qed
qed

text \<open>With more items with storage than the array holds, the routine leaves it, as all of them are in order.\<close>

lemma repair_overrun:
  assumes ok: "page_ok B p" and more: "MaxHeapTuplesPerPage B < length (filter ItemIdHasStorage (pd_linp p))"
  shows "PageRepairFragmentation B p = Inl Overrun"
proof -
  let ?linp = "map reset_unused (pd_linp p)" and ?es = "storage_entries (pd_linp p)"
  have same: "\<forall>lp \<in> set (pd_linp p). ItemIdHasStorage (reset_unused lp) = ItemIdHasStorage lp \<and> (ItemIdHasStorage lp \<longrightarrow> reset_unused lp = lp)"
    using ok by (auto simp: page_ok_def reset_unused_def ItemIdSetUnused_def ItemIdHasStorage_def)
  have se: "storage_entries ?linp = ?es" by (rule storage_entries_map [OF same])
  have lin: "map (\<lambda>lp. if ItemIdIsUsed lp then lp else ItemIdSetUnused lp) (pd_linp p) = ?linp" by (simp add: reset_unused_def)
  have head: "\<not> (pd_lower p < SizeOfPageHeaderData \<or> pd_lower p > pd_upper p \<or> pd_upper p > pd_special p \<or> pd_special p > B \<or>
      pd_special p \<noteq> MAXALIGN (pd_special p))"
    using ok header_size [of p] by (auto simp: page_ok_def SizeOfPageHeaderData_def)
  have "filter ItemIdHasStorage (pd_linp p) \<noteq> []" using more by auto
  then obtain lp where lp: "lp \<in> set (pd_linp p)" "ItemIdHasStorage lp" by (auto simp: filter_empty_conv)
  then have "reset_unused lp = lp" "ItemIdIsUsed lp" using same ok by (auto simp: page_ok_def)
  then have some: "length (filter (\<lambda>lp. ItemIdIsUsed lp \<and> ItemIdHasStorage lp) ?linp) \<noteq> 0" using lp by (force simp: filter_empty_conv)
  have "pd_upper p \<le> off \<and> off < pd_special p" if "(i, off, len) \<in> set ?es" for i off len
  proof -
    have i: "i < length (pd_linp p)" "ItemIdHasStorage (pd_linp p ! i)" "off = lp_off (pd_linp p ! i)" using that unfolding storage_entries_iff by blast+
    have "items_ok (pd_upper p) (pd_special p) (pd_linp p)" using ok by (simp add: page_ok_def)
    from item_bounds [OF this i(1,2)] show ?thesis unfolding i(3) by linarith
  qed
  then have offs: "\<not> list_ex (\<lambda>(i, off, len). off < pd_upper p \<or> off \<ge> pd_special p) (take (MaxHeapTuplesPerPage B) ?es)"
    by (fastforce simp: list_ex_iff dest: in_set_takeD)
  have "length ?es > MaxHeapTuplesPerPage B" using more by (simp add: length_storage_entries)
  then show ?thesis unfolding PageRepairFragmentation_def lin Let_def se using head some offs by simp
qed

section \<open>The heap page as a store of items\<close>

text \<open>A tuple added to a heap page wherever there is room, and compaction; on a page in good order neither raises an error.\<close>

definition heap_add :: "nat \<Rightarrow> Page \<Rightarrow> uint8 list \<Rightarrow> nat \<times> Page" where
  "heap_add B p x = (case PageAddItem B p x (length x) 0 False True of Inl e \<Rightarrow> (0, p) | Inr r \<Rightarrow> r)"

definition heap_compact :: "nat \<Rightarrow> Page \<Rightarrow> Page" where
  "heap_compact B p = (case PageRepairFragmentation B p of Inl e \<Rightarrow> p | Inr q \<Rightarrow> q)"

lemma put_item_nth:
  assumes "1 \<le> off" "off \<le> length xs + 1"
  shows "put_item off False x xs ! (off - 1) = x" "off \<le> length (put_item off False x xs)"
    "i < length xs \<Longrightarrow> off \<noteq> Suc i \<Longrightarrow> i < length (put_item off False x xs) \<and> put_item off False x xs ! i = xs ! i"
  using assms by (auto simp: put_item_def nth_append nth_list_update)

lemma heap_add_adds:
  assumes "page_ok B p" "x \<noteq> []" "heap_add B p x = (off, p')"
  shows "PageAddItem B p x (length x) 0 False True = Inr (off, p')" "page_ok B p' \<and> adds_item False (LP_NORMAL, x) p off p'"
proof -
  have "\<not> OffsetNumberIsValid B 0" by (simp add: OffsetNumberIsValid_def)
  then obtain o' q where r: "PageAddItem B p x (length x) 0 False True = Inr (o', q)" "page_ok B q \<and> adds_item False (LP_NORMAL, x) p o' q"
    using PageAddItem_adds [OF assms(1), of "length x" x 0 False True] assms(2) by auto
  then have "o' = off" "q = p'" using assms(3) by (simp_all add: heap_add_def)
  then show "PageAddItem B p x (length x) 0 False True = Inr (off, p')" "page_ok B p' \<and> adds_item False (LP_NORMAL, x) p off p'"
    using r by simp_all
qed

text \<open>A heap page in good order has at most \<^verbatim>\<open>MaxHeapTuplesPerPage\<close> line pointers, which additions and compactions keep.\<close>

definition heap_ok :: "nat \<Rightarrow> Page \<Rightarrow> bool" where
  "heap_ok B p \<longleftrightarrow> page_ok B p \<and> length (page_items p) \<le> MaxHeapTuplesPerPage B"

lemma heap_offset_limit: "page_ok B p \<Longrightarrow> PageAddItem B p item sz offnum overwrite True = Inr (off, p') \<Longrightarrow> off \<le> MaxHeapTuplesPerPage B"
  by (auto simp: PageAddItem_eq add_at_def Let_def split: if_splits)

lemma heap_add_ok:
  assumes ok: "heap_ok B p" and x: "x \<noteq> []" and run: "heap_add B p x = (off, p')"
  shows "heap_ok B p'"
proof -
  have p: "page_ok B p" "length (page_items p) \<le> MaxHeapTuplesPerPage B" using ok by (simp_all add: heap_ok_def)
  note a = heap_add_adds [OF p(1) x run]
  have "length (page_items p') \<le> max off (length (page_items p))"
    using a(2) by (cases "off = 0") (auto simp: adds_item_def put_item_def)
  then show ?thesis using a(2) p(2) heap_offset_limit [OF p(1) a(1)] by (simp add: heap_ok_def)
qed

lemma heap_compact_items:
  assumes "heap_ok B p"
  shows "heap_ok B (heap_compact B p)" "page_items (heap_compact B p) = page_items p" "PageRepairFragmentation B p = Inr (heap_compact B p)"
proof -
  have ok: "page_ok B p" "length (page_items p) \<le> MaxHeapTuplesPerPage B" using assms by (simp_all add: heap_ok_def)
  then have "length (filter ItemIdHasStorage (pd_linp p)) \<le> MaxHeapTuplesPerPage B"
    by (intro le_trans [OF length_filter_le]) simp
  then obtain p' where p': "PageRepairFragmentation B p = Inr p'" "page_ok B p'" "page_items p' = page_items p" using repair_page [OF ok(1)] by blast
  then show "PageRepairFragmentation B p = Inr (heap_compact B p)" by (simp add: heap_compact_def)
  then have "heap_compact B p = p'" using p'(1) by simp
  then show "heap_ok B (heap_compact B p)" "page_items (heap_compact B p) = page_items p" using p'(2,3) ok(2) unfolding heap_ok_def by simp_all
qed

interpretation heap_page: item_store "heap_ok B" page_items "\<lambda>x. (LP_NORMAL, x)" "(LP_UNUSED, [])" "\<lambda>x. x \<noteq> []" "heap_add B" "heap_compact B"
  for B
proof
  show "(LP_NORMAL, x) \<noteq> (LP_UNUSED, [])" for x :: "uint8 list" by (simp add: LP_NORMAL_def LP_UNUSED_def)
  fix p x off p' assume ok: "heap_ok B p" and x: "x \<noteq> []" and run: "heap_add B p x = (off, p')"
  note a = heap_add_adds(2) [OF _ x run] and ok [unfolded heap_ok_def]
  then have a: "page_ok B p' \<and> adds_item False (LP_NORMAL, x) p off p'" by blast
  show "heap_ok B p'" by (rule heap_add_ok [OF ok x run])
  show "off \<le> length (page_items p') \<and> page_items p' ! (off - 1) = (LP_NORMAL, x)" if "off \<noteq> 0"
    using a that put_item_nth(1,2) [of off "page_items p"] by (auto simp: adds_item_def)
  show "page_items p ! (off - 1) = (LP_UNUSED, [])" if "off \<noteq> 0" "off \<le> length (page_items p)"
    using a that by (auto simp: adds_item_def)
  show "i < length (page_items p') \<and> page_items p' ! i = page_items p ! i" if "i < length (page_items p)" "off \<noteq> Suc i" for i
    using a that put_item_nth(3) [of off "page_items p" i] by (cases "off = 0") (auto simp: adds_item_def)
next
  show "heap_ok B (heap_compact B p)" "page_items (heap_compact B p) = page_items p" if "heap_ok B p" for p
    by (rule heap_compact_items [OF that])+
qed

section \<open>Properties\<close>

lemma total_storage_sum: "total_len (storage_entries linp) = sum_list (map (\<lambda>lp. MAXALIGN (lp_len lp)) linp)"
proof -
  have "sum_list (map entry_len (map (\<lambda>(i, lp). (i, lp_off lp, MAXALIGN (lp_len lp))) (filter (\<lambda>(i, lp). ItemIdHasStorage lp) (enumerate n linp)))) =
    sum_list (map (\<lambda>lp. MAXALIGN (lp_len lp)) linp)" for n
    by (induction linp arbitrary: n) (auto simp: ItemIdHasStorage_def)
  then show ?thesis by (simp add: total_len_def storage_entries_def)
qed

text \<open>A small page for the concrete instances: 96 bytes, tuples of 8, 16 and 8 bytes, 8 bytes of special space and a gap of 8 bytes.\<close>

definition small_page :: Page where
  "small_page = \<lparr>pd_flags = 0, pd_lower = 36, pd_upper = 48, pd_special = 88, pd_pagesize_version = 5,
     pd_linp = [\<lparr>lp_off = 80, lp_flags = 1, lp_len = 8\<rparr>, \<lparr>lp_off = 64, lp_flags = 1, lp_len = 16\<rparr>, \<lparr>lp_off = 56, lp_flags = 1, lp_len = 8\<rparr>],
     pd_data = replicate 56 0 @ replicate 8 3 @ replicate 16 2 @ replicate 8 1 @ replicate 8 9\<rparr>"

lemma small_page_ok: "index_ok 96 small_page" "page_ok 96 small_page"
proof -
  have h: "GetPageHeaderSize small_page = 24"
    by (simp add: GetPageHeaderSize_def PageIs8BXidHeapVersion_def small_page_def PG_HEAP_PAGE_LAYOUT_VERSION_def SizeOfPageHeaderData_def)
  show p: "page_ok 96 small_page"
    unfolding page_ok_def h items_ok_iff
    by (simp add: small_page_def sizeof_ItemIdData_def item_within_def apart_if_def items_apart_def ItemIdHasStorage_def ItemIdIsUsed_def
        LP_UNUSED_def MAXALIGN_def)
  then show "index_ok 96 small_page"
    using h by (simp add: index_ok_def SizeOfPageHeaderData_def ItemIdHasStorage_def) (simp add: small_page_def)
qed

lemma small_page_items: "page_items small_page = [(1, replicate 8 1), (1, replicate 16 2), (1, replicate 8 3)]"
  by (simp add: page_items_def items_of_def bytes_at_def small_page_def)

text \<open>A heap page of 128 bytes with its three line pointers, the second a redirection to the first; there are 8 bytes free between the tuples.\<close>

definition small_heap :: Page where
  "small_heap = \<lparr>pd_flags = 0, pd_lower = 52, pd_upper = 96, pd_special = 128, pd_pagesize_version = 6,
     pd_linp = [\<lparr>lp_off = 112, lp_flags = 1, lp_len = 16\<rparr>, \<lparr>lp_off = 1, lp_flags = 2, lp_len = 0\<rparr>, \<lparr>lp_off = 96, lp_flags = 1, lp_len = 5\<rparr>],
     pd_data = replicate 96 0 @ replicate 8 3 @ replicate 8 0 @ replicate 16 1\<rparr>"

lemma small_heap_ok: "page_ok 128 small_heap"
proof -
  have h: "GetPageHeaderSize small_heap = 40"
    by (simp add: GetPageHeaderSize_def PageIs8BXidHeapVersion_def small_heap_def PG_HEAP_PAGE_LAYOUT_VERSION_def SizeOfHeapPageHeaderData_def)
  show ?thesis
    unfolding page_ok_def h items_ok_iff
    by (simp add: small_heap_def sizeof_ItemIdData_def item_within_def apart_if_def items_apart_def ItemIdHasStorage_def ItemIdIsUsed_def
        LP_UNUSED_def MAXALIGN_def)
qed

text \<open>
  C11. \<^verbatim>\<open>PageRepairFragmentation\<close> on a page in good order, whose items with storage fit into its array of \<^verbatim>\<open>MaxHeapTuplesPerPage\<close> entries, succeeds.
  It keeps every item and its offset number, its bytes and state, and the whole line pointer of a redirected or dead item without storage, does not touch the
  special space, makes the free space one block, of all that the items do not use, and sets the hint for free line pointers exactly. With more items with storage
  it writes beyond the array.
\<close>

theorem repair_keeps_items:
  assumes "page_ok B p"
  shows "if length (filter ItemIdHasStorage (pd_linp p)) \<le> MaxHeapTuplesPerPage B
    then \<exists>p'. PageRepairFragmentation B p = Inr p' \<and> page_ok B p' \<and> page_items p' = page_items p \<and>
      drop (pd_special p) (pd_data p') = drop (pd_special p) (pd_data p) \<and> pd_lower p' = pd_lower p \<and> pd_special p' = pd_special p \<and>
      pd_upper p' = pd_special p - sum_list (map (\<lambda>lp. MAXALIGN (lp_len lp)) (pd_linp p)) \<and>
      (\<forall>i < length (pd_linp p). ItemIdIsUsed (pd_linp p ! i) \<and> \<not> ItemIdHasStorage (pd_linp p ! i) \<longrightarrow> pd_linp p' ! i = pd_linp p ! i) \<and>
      (PageHasFreeLinePointers p' \<longleftrightarrow> (\<exists>lp \<in> set (pd_linp p). \<not> ItemIdIsUsed lp))
    else PageRepairFragmentation B p = Inl Overrun"
proof (cases "length (filter ItemIdHasStorage (pd_linp p)) \<le> MaxHeapTuplesPerPage B")
  case True
  show ?thesis unfolding if_P [OF True] using repair_page [OF assms True] unfolding total_storage_sum by blast
next
  case False
  then show ?thesis using repair_overrun [OF assms] by simp
qed

theorem repair_keeps_items_witness:
  "(\<exists>p'. PageRepairFragmentation 128 small_heap = Inr p' \<and> page_items p' = [(1, replicate 16 1), (2, []), (1, replicate 5 3)] \<and>
      pd_linp p' ! 1 = \<lparr>lp_off = 1, lp_flags = 2, lp_len = 0\<rparr> \<and> pd_upper p' = 104) \<and>
   PageRepairFragmentation 96 small_page = Inl Overrun"
proof -
  have m: "MaxHeapTuplesPerPage 128 = 3" "MaxHeapTuplesPerPage 96 = 2"
    by (simp_all add: MaxHeapTuplesPerPage_def SizeOfHeapPageHeaderData_def MAXALIGN_def sizeof_ItemIdData_def)
  have l: "length (filter ItemIdHasStorage (pd_linp small_heap)) = 2" "length (filter ItemIdHasStorage (pd_linp small_page)) = 3"
    by (simp_all add: small_heap_def small_page_def ItemIdHasStorage_def)
  have i: "page_items small_heap = [(1, replicate 16 1), (2, []), (1, replicate 5 3)]"
    by (simp add: page_items_def items_of_def bytes_at_def small_heap_def eval_nat_numeral)
  have u: "pd_special small_heap - sum_list (map (\<lambda>lp. MAXALIGN (lp_len lp)) (pd_linp small_heap)) = 104"
    "1 < length (pd_linp small_heap) \<and> ItemIdIsUsed (pd_linp small_heap ! 1) \<and> \<not> ItemIdHasStorage (pd_linp small_heap ! 1)"
    "pd_linp small_heap ! 1 = \<lparr>lp_off = 1, lp_flags = 2, lp_len = 0\<rparr>"
    by (simp_all add: small_heap_def MAXALIGN_def ItemIdIsUsed_def ItemIdHasStorage_def LP_UNUSED_def)
  obtain p' where p': "PageRepairFragmentation 128 small_heap = Inr p'" "page_items p' = page_items small_heap"
    "pd_upper p' = pd_special small_heap - sum_list (map (\<lambda>lp. MAXALIGN (lp_len lp)) (pd_linp small_heap))"
    "\<forall>i < length (pd_linp small_heap). ItemIdIsUsed (pd_linp small_heap ! i) \<and> \<not> ItemIdHasStorage (pd_linp small_heap ! i) \<longrightarrow>
       pd_linp p' ! i = pd_linp small_heap ! i"
    using repair_keeps_items [OF small_heap_ok] unfolding l m by auto
  have "pd_linp p' ! 1 = pd_linp small_heap ! 1" using p'(4) u(2) by blast
  moreover have "PageRepairFragmentation 96 small_page = Inl Overrun" using repair_keeps_items [OF small_page_ok(2)] unfolding l m by simp
  ultimately show ?thesis using p'(1-3) i u(1,3) by auto
qed

text \<open>
  C18. \<^verbatim>\<open>PageAddItem\<close> on a page in good order returns, without an error, and leaves a page in good order. With the result 0 the items are as
  before. Otherwise the item is stored under the offset number returned, which is the one asked for if that was valid: the items from there on move
  down by one when an existing position is given without \<^verbatim>\<open>overwrite\<close>; in every other case the item is appended or put into a slot that was unused.
\<close>

theorem add_item_correct:
  assumes "page_ok B p" "0 < sz" "sz \<le> length item"
  shows "\<exists>off p'. PageAddItem B p item sz offnum overwrite is_heap = Inr (off, p') \<and> page_ok B p' \<and>
    drop (pd_special p) (pd_data p') = drop (pd_special p) (pd_data p) \<and>
    (if off = 0 then page_items p' = page_items p
     else (OffsetNumberIsValid B offnum \<longrightarrow> off = offnum) \<and> off \<le> length (page_items p) + 1 \<and>
       page_items p' =
         (if OffsetNumberIsValid B offnum \<and> \<not> overwrite \<and> off \<le> length (page_items p)
          then take (off - 1) (page_items p) @ (LP_NORMAL, take sz item) # drop (off - 1) (page_items p)
          else if off = length (page_items p) + 1 then page_items p @ [(LP_NORMAL, take sz item)]
          else (page_items p)[off - 1 := (LP_NORMAL, take sz item)]) \<and>
       (\<not> (OffsetNumberIsValid B offnum \<and> \<not> overwrite) \<and> off \<le> length (page_items p) \<longrightarrow> page_items p ! (off - 1) = (LP_UNUSED, [])))"
proof -
  define sh where "sh \<longleftrightarrow> OffsetNumberIsValid B offnum \<and> \<not> overwrite \<and> offnum \<le> length (pd_linp p)"
  obtain off p' where r: "PageAddItem B p item sz offnum overwrite is_heap = Inr (off, p')" "page_ok B p'"
    "adds_item sh (LP_NORMAL, take sz item) p off p'" "off \<in> {0, chosen B p offnum}"
    using PageAddItem_adds [OF assms] unfolding sh_def by blast
  have "off \<noteq> 0 \<Longrightarrow> OffsetNumberIsValid B offnum \<Longrightarrow> off = offnum" using r(4) by (simp add: chosen_def)
  then show ?thesis using r(1-3) unfolding sh_def
    by (intro exI [of _ off] exI [of _ p']) (auto simp: adds_item_def put_item_def split: if_splits)
qed

theorem add_item_correct_witness:
  "\<exists>p'. PageAddItem 96 small_page [7, 7, 7] 3 2 False False = Inr (2, p') \<and> page_ok 96 p' \<and>
    page_items p' = [(1, replicate 8 1), (1, [7, 7, 7]), (1, replicate 16 2), (1, replicate 8 3)]"
proof -
  have v: "OffsetNumberIsValid 96 2" by (simp add: OffsetNumberIsValid_def sizeof_ItemIdData_def)
  have l: "length (pd_linp small_page) = 3" "room_for small_page 3 2 True"
    by (simp_all add: small_page_def room_for_def sizeof_ItemIdData_def MAXALIGN_def)
  have "\<exists>p'. PageAddItem 96 small_page [7, 7, 7] 3 2 False False = Inr (2, p')"
    unfolding PageAddItem_eq [OF small_page_ok(2)] using add_at_eq [OF small_page_ok(2), of 2 True] v l by (simp add: chosen_def)
  then show ?thesis
    using add_item_correct [OF small_page_ok(2), of 3 "[7, 7, 7]" 2 False False] v unfolding small_page_items
    by (auto simp: LP_NORMAL_def)
qed

text \<open>
  The promise of \<^verbatim>\<open>PageGetHeapFreeSpace\<close>: a tuple whose aligned size it has room for can be added, line pointer included, to a heap page that
  has at most \<^verbatim>\<open>MaxHeapTuplesPerPage\<close> line pointers, and gets an offset number within this limit.
\<close>

theorem heap_free_space_usable:
  assumes "page_ok B p" "length (pd_linp p) \<le> MaxHeapTuplesPerPage B" "0 < sz" "MAXALIGN sz \<le> PageGetHeapFreeSpace B p"
  shows "\<exists>off p'. PageAddItem B p item sz 0 overwrite True = Inr (off, p') \<and> 1 \<le> off \<and> off \<le> MaxHeapTuplesPerPage B"
proof -
  obtain off p' where r: "PageAddItem B p item sz 0 overwrite True = Inr (off, p')" "off \<noteq> 0" using heap_room [OF assms] by blast
  then show ?thesis using heap_offset_limit [OF assms(1)] by (auto simp: Suc_le_eq)
qed

theorem heap_free_space_usable_witness:
  "\<exists>off p'. PageAddItem 256 (PageInit 256 0 True) (replicate 200 5) 200 0 False True = Inr (off, p') \<and> 1 \<le> off \<and> off \<le> MaxHeapTuplesPerPage 256"
proof -
  have "page_ok 256 (PageInit 256 0 True)" by (rule PageInit_ok) (simp_all add: SizeOfHeapPageHeaderData_def)
  moreover have "pd_linp (PageInit 256 0 True) = []" "MAXALIGN 200 \<le> PageGetHeapFreeSpace 256 (PageInit 256 0 True)"
    by (simp_all add: PageInit_def PageGetHeapFreeSpace_def PageGetFreeSpace_def PageGetMaxOffsetNumber_def GetPageHeaderSize_def PageIs8BXidHeapVersion_def
        Let_def MAXALIGN_def SizeOfHeapPageHeaderData_def sizeof_ItemIdData_def MaxHeapTuplesPerPage_def PG_HEAP_PAGE_LAYOUT_VERSION_def)
  ultimately show ?thesis using heap_free_space_usable [of 256 "PageInit 256 0 True" 200 "replicate 200 5" False] by simp
qed

text \<open>A heap page of 128 bytes with one tuple and a free line pointer that the page's flag announces.\<close>

definition reusable_heap :: Page where
  "reusable_heap = \<lparr>pd_flags = 1, pd_lower = 48, pd_upper = 104, pd_special = 128, pd_pagesize_version = 6,
     pd_linp = [\<lparr>lp_off = 104, lp_flags = 1, lp_len = 8\<rparr>, \<lparr>lp_off = 0, lp_flags = 0, lp_len = 0\<rparr>],
     pd_data = replicate 104 0 @ replicate 8 3 @ replicate 16 0\<rparr>"

lemma reusable_heap_ok: "page_ok 128 reusable_heap"
proof -
  have h: "GetPageHeaderSize reusable_heap = 40"
    by (simp add: GetPageHeaderSize_def PageIs8BXidHeapVersion_def reusable_heap_def PG_HEAP_PAGE_LAYOUT_VERSION_def SizeOfHeapPageHeaderData_def)
  show ?thesis
    unfolding page_ok_def h items_ok_iff
    by (simp add: reusable_heap_def sizeof_ItemIdData_def item_within_def apart_if_def items_apart_def ItemIdHasStorage_def ItemIdIsUsed_def
        LP_UNUSED_def MAXALIGN_def)
qed

lemmas page_eval = GetPageHeaderSize_def PageIs8BXidHeapVersion_def PG_HEAP_PAGE_LAYOUT_VERSION_def SizeOfHeapPageHeaderData_def SizeOfPageHeaderData_def
  PageGetMaxOffsetNumber_def PageHasFreeLinePointers_def PageSetHasFreeLinePointers_def PageClearHasFreeLinePointers_def PD_HAS_FREE_LINES_def
  OffsetNumberIsValid_def ItemIdIsUsed_def ItemIdHasStorage_def ItemIdSetUnused_def ItemIdSetNormal_def set_off_def LP_UNUSED_def LP_NORMAL_def MAXALIGN_def
  sizeof_ItemIdData_def MaxHeapTuplesPerPage_def Let_def

lemma reusable_heap_run:
  "\<exists>q. fill_run (heap_add 128) (heap_compact 128) reusable_heap [Some [1], None, Some [2, 3]] = ([(2, [1]), (3, [2, 3])], q)"
  by (simp add: heap_add_def PageAddItem_def add_at_def heap_compact_def PageRepairFragmentation_def storage_entries_def sort_desc_def reusable_heap_def page_eval)

text \<open>
  C10. Through any history of additions and compactions of a heap page in good order with at most \<^verbatim>\<open>MaxHeapTuplesPerPage\<close> line pointers, a tuple stays readable,
  unchanged, under the offset number it was given, no two tuples are given the same number, and the page stays in good order within this limit, so
  that compaction never leaves its array.
\<close>

theorem heap_page_keeps_tuples:
  assumes "page_ok B p" "length (page_items p) \<le> MaxHeapTuplesPerPage B" "Some [] \<notin> set ops"
  shows "case fill_run (heap_add B) (heap_compact B) p ops of (got, q) \<Rightarrow>
    page_ok B q \<and> length (page_items q) \<le> MaxHeapTuplesPerPage B \<and> PageRepairFragmentation B q = Inr (heap_compact B q) \<and> distinct (map fst got) \<and>
    list_all (\<lambda>(off, x). 1 \<le> off \<and> off \<le> length (page_items q) \<and> page_items q ! (off - 1) = (LP_NORMAL, x)) got"
proof -
  obtain got q where r: "fill_run (heap_add B) (heap_compact B) p ops = (got, q)" by fastforce
  have v: "\<forall>x. Some x \<in> set ops \<longrightarrow> x \<noteq> []" and p: "heap_ok B p" using assms by (auto simp: heap_ok_def)
  note g = heap_page.run_readable [OF p v r]
  then have "PageRepairFragmentation B q = Inr (heap_compact B q)" by (intro heap_compact_items) simp
  then show ?thesis using g unfolding r list_all_iff by (simp add: heap_ok_def)
qed

theorem heap_page_keeps_tuples_witness:
  "\<exists>q. fill_run (heap_add 128) (heap_compact 128) reusable_heap [Some [1], None, Some [2, 3]] = ([(2, [1]), (3, [2, 3])], q) \<and>
    page_ok 128 q \<and> page_items q ! 1 = (LP_NORMAL, [1]) \<and> page_items q ! 2 = (LP_NORMAL, [2, 3])"
proof -
  have m: "length (page_items reusable_heap) \<le> MaxHeapTuplesPerPage 128"
    by (simp add: reusable_heap_def MaxHeapTuplesPerPage_def SizeOfHeapPageHeaderData_def MAXALIGN_def sizeof_ItemIdData_def)
  obtain q where q: "fill_run (heap_add 128) (heap_compact 128) reusable_heap [Some [1], None, Some [2, 3]] = ([(2, [1]), (3, [2, 3])], q)"
    using reusable_heap_run by blast
  show ?thesis using heap_page_keeps_tuples [OF reusable_heap_ok m, of "[Some [1], None, Some [2, 3]]"] unfolding q by simp
qed

text \<open>An index page of 128 bytes with four tuples of 8 bytes and 8 bytes of special space.\<close>

definition small_index :: Page where
  "small_index = \<lparr>pd_flags = 0, pd_lower = 40, pd_upper = 88, pd_special = 120, pd_pagesize_version = 5,
     pd_linp = [\<lparr>lp_off = 112, lp_flags = 1, lp_len = 8\<rparr>, \<lparr>lp_off = 104, lp_flags = 1, lp_len = 8\<rparr>,
       \<lparr>lp_off = 88, lp_flags = 1, lp_len = 8\<rparr>, \<lparr>lp_off = 96, lp_flags = 1, lp_len = 8\<rparr>],
     pd_data = replicate 88 0 @ replicate 8 3 @ replicate 8 4 @ replicate 8 2 @ replicate 8 1 @ replicate 8 9\<rparr>"

lemma small_index_ok: "index_ok 128 small_index"
proof -
  have h: "GetPageHeaderSize small_index = 24"
    by (simp add: GetPageHeaderSize_def PageIs8BXidHeapVersion_def small_index_def PG_HEAP_PAGE_LAYOUT_VERSION_def SizeOfPageHeaderData_def)
  have "page_ok 128 small_index"
    unfolding page_ok_def h items_ok_iff
    by (simp add: small_index_def sizeof_ItemIdData_def item_within_def apart_if_def items_apart_def ItemIdHasStorage_def ItemIdIsUsed_def
        LP_UNUSED_def MAXALIGN_def)
  then show ?thesis using h by (simp add: index_ok_def SizeOfPageHeaderData_def ItemIdHasStorage_def) (simp add: small_index_def)
qed

text \<open>
  C19. \<^verbatim>\<open>PageIndexMultiDelete\<close>, given fewer than \<^verbatim>\<open>MaxIndexTuplesPerPage\<close> offset numbers in ascending order, on an index page in good order on which
  the items to keep fit into its array of \<^verbatim>\<open>MaxIndexTuplesPerPage\<close> entries, deletes exactly these items and keeps the others in order with their
  bytes, by whichever of its two methods; the loop around \<^verbatim>\<open>PageIndexTupleDelete\<close> from the last one to the first has the same effect.
\<close>

theorem multi_delete_equals_retail:
  assumes "index_ok B p" "sorted_wrt (<) itemnos" "\<forall>i \<in> set itemnos. 1 \<le> i \<and> i \<le> length (page_items p)"
    "length itemnos < MaxIndexTuplesPerPage B" "length (page_items p) - length itemnos \<le> MaxIndexTuplesPerPage B"
  shows "\<exists>p1 p2. PageIndexMultiDelete B p itemnos = Inr p1 \<and> retail_delete B p (rev itemnos) = Inr p2 \<and>
    index_ok B p1 \<and> index_ok B p2 \<and> page_items p1 = page_items p2 \<and>
    page_items p1 = nths (page_items p) {i. Suc i \<notin> set itemnos} \<and>
    drop (pd_special p) (pd_data p1) = drop (pd_special p) (pd_data p)"
proof -
  have it: "\<forall>i \<in> set itemnos. 1 \<le> i \<and> i \<le> length (pd_linp p)" using assms(3) by simp
  have room: "length (except_items itemnos (pd_linp p)) \<le> MaxIndexTuplesPerPage B"
    using length_except_items [OF assms(2) it] assms(5) by simp
  have "sorted_wrt (>) (rev itemnos)" using assms(2) by (simp add: sorted_wrt_rev)
  then obtain p2 where "retail_delete B p (rev itemnos) = Inr p2" "index_ok B p2" "page_items p2 = nths (page_items p) {i. Suc i \<notin> set itemnos}"
    using retail_deletes [OF assms(1), of "rev itemnos"] it by (auto simp: except_items_def)
  then show ?thesis using multi_delete [OF assms(1,2) it room] by (auto simp: except_items_def)
qed

theorem multi_delete_equals_retail_witness:
  "\<exists>p1 p2. PageIndexMultiDelete 128 small_index [1, 2, 4] = Inr p1 \<and> retail_delete 128 small_index [4, 2, 1] = Inr p2 \<and>
    page_items p1 = [(1, replicate 8 3)] \<and> page_items p2 = [(1, replicate 8 3)]"
proof -
  have m: "MaxIndexTuplesPerPage 128 = 5" by (simp add: MaxIndexTuplesPerPage_def SizeOfPageHeaderData_def MAXALIGN_def sizeof_ItemIdData_def)
  have "page_items small_index = [(1, replicate 8 1), (1, replicate 8 2), (1, replicate 8 3), (1, replicate 8 4)]"
    by (simp add: page_items_def items_of_def bytes_at_def small_index_def)
  then show ?thesis using multi_delete_equals_retail [OF small_index_ok, of "[1, 2, 4]"] m by (auto simp: nths_Cons)
qed

text \<open>
  \<^verbatim>\<open>page_index_tuple_overwrite\<close> succeeds exactly when the new tuple fits into the room of the old one and the free space of the page; it then
  replaces the bytes of that item and of no other, whether the new tuple is longer or shorter, and the page is not changed when it does not fit.
\<close>

theorem overwrite_replaces:
  assumes "index_ok B p" "1 \<le> offnum" "offnum \<le> length (page_items p)" "0 < n" "n \<le> length item"
  shows "if MAXALIGN n \<le> MAXALIGN (length (snd (page_items p ! (offnum - 1)))) + (pd_upper p - pd_lower p)
    then \<exists>p'. page_index_tuple_overwrite B p offnum item n = Inr (True, p') \<and> page_ok B p' \<and>
      page_items p' = (page_items p)[offnum - 1 := (fst (page_items p ! (offnum - 1)), take n item)] \<and>
      drop (pd_special p) (pd_data p') = drop (pd_special p) (pd_data p)
    else page_index_tuple_overwrite B p offnum item n = Inr (False, p)"
proof -
  obtain k where k: "offnum = Suc k" "k < length (pd_linp p)" using assms(2,3) by (cases offnum) auto
  note d = index_okD [OF assms(1)]
  have st: "ItemIdHasStorage (pd_linp p ! k)" using assms(1) nth_mem [OF k(2)] by (simp add: index_ok_def)
  then have us: "ItemIdIsUsed (pd_linp p ! k)" using d(12) nth_mem [OF k(2)] by blast
  have "lp_off (pd_linp p ! k) + lp_len (pd_linp p ! k) \<le> length (pd_data p)"
    using item_bounds(2) [OF d(10) k(2) st] MAXALIGN_simps(2) [of "lp_len (pd_linp p ! k)"] d(3,7) by linarith
  then have it: "length (snd (page_items p ! k)) = lp_len (pd_linp p ! k)" "fst (page_items p ! k) = lp_flags (pd_linp p ! k)"
    using k(2) by (simp_all add: page_items_def items_of_def length_bytes_at)
  show ?thesis using tuple_overwrite [OF d(1) k(2) st us assms(4,5)] it k(1) by (auto split: if_splits)
qed

theorem overwrite_replaces_witness:
  "\<exists>p'. page_index_tuple_overwrite 96 small_page 2 (replicate 24 5) 24 = Inr (True, p') \<and>
    page_items p' = [(1, replicate 8 1), (1, replicate 24 5), (1, replicate 8 3)]"
proof -
  have "pd_upper small_page - pd_lower small_page = 12" by (simp add: small_page_def)
  then show ?thesis
    using overwrite_replaces [OF small_page_ok(1), of 2 24 "replicate 24 5"] unfolding small_page_items by (auto simp: MAXALIGN_def)
qed

end
