(* ===== verification/OG_Lock.thy ===== *)
theory OG_Lock
  imports OG_Prelude "HOL-Library.Multiset"
begin

text \<open>
  \<^verbatim>\<open>src/gausskernel/storage/lmgr/lock.cpp\<close> and \<^verbatim>\<open>proc.cpp\<close>: one lockable object of the shared lock table, with the processes that hold it and the queue
  of those that wait for it. The table entry is an option: \<open>None\<close> when there is no LOCK object for the tag. Processes are numbers; a PROCLOCK is found
  by its process. Every routine here runs under the partition lock of the object, so it is one step.

  \<open>grp\<close> gives the lock group leader of a process (\<^verbatim>\<open>PGPROC.lockGroupLeader\<close>, \<open>None\<close> for NULL), \<open>me\<close> is the process that runs the
  routine (\<^verbatim>\<open>t_thrd.proc\<close>). Not modelled: the local table, which keeps a process from asking for a mode it holds; the fast path for weak
  relation locks; stream threads; the cancelling of redistribution and of conflicting holders; exhausted shared memory; who is reported as the blocker.

  The theory shows that locks of conflicting modes are never held by different lock groups at the same time, that the counters and masks of
  the object are exact, and that no wakeup is lost: a waiter in the queue is blocked by a holder or by an earlier waiter.
\<close>

section \<open>Lock modes\<close>

type_synonym LOCKMASK = uint32

definition AccessShareLock :: nat where "AccessShareLock = 1"
definition RowShareLock :: nat where "RowShareLock = 2"
definition RowExclusiveLock :: nat where "RowExclusiveLock = 3"
definition ShareUpdateExclusiveLock :: nat where "ShareUpdateExclusiveLock = 4"
definition ShareLock :: nat where "ShareLock = 5"
definition ShareRowExclusiveLock :: nat where "ShareRowExclusiveLock = 6"
definition ExclusiveLock :: nat where "ExclusiveLock = 7"
definition AccessExclusiveLock :: nat where "AccessExclusiveLock = 8"
definition MAX_LOCKMODES :: nat where "MAX_LOCKMODES = 10"

definition LOCKBIT_ON :: "nat \<Rightarrow> LOCKMASK" where "LOCKBIT_ON lockmode = push_bit lockmode 1"
definition LOCKBIT_OFF :: "nat \<Rightarrow> LOCKMASK" where "LOCKBIT_OFF lockmode = NOT (push_bit lockmode 1)"

definition LockConflicts :: "LOCKMASK list" where
  "LockConflicts = [
    0,
    LOCKBIT_ON AccessExclusiveLock,
    LOCKBIT_ON ExclusiveLock OR LOCKBIT_ON AccessExclusiveLock,
    LOCKBIT_ON ShareLock OR LOCKBIT_ON ShareRowExclusiveLock OR LOCKBIT_ON ExclusiveLock OR LOCKBIT_ON AccessExclusiveLock,
    LOCKBIT_ON ShareUpdateExclusiveLock OR LOCKBIT_ON ShareLock OR LOCKBIT_ON ShareRowExclusiveLock OR LOCKBIT_ON ExclusiveLock OR
      LOCKBIT_ON AccessExclusiveLock,
    LOCKBIT_ON RowExclusiveLock OR LOCKBIT_ON ShareUpdateExclusiveLock OR LOCKBIT_ON ShareRowExclusiveLock OR LOCKBIT_ON ExclusiveLock OR
      LOCKBIT_ON AccessExclusiveLock,
    LOCKBIT_ON RowExclusiveLock OR LOCKBIT_ON ShareUpdateExclusiveLock OR LOCKBIT_ON ShareLock OR LOCKBIT_ON ShareRowExclusiveLock OR
      LOCKBIT_ON ExclusiveLock OR LOCKBIT_ON AccessExclusiveLock,
    LOCKBIT_ON RowShareLock OR LOCKBIT_ON RowExclusiveLock OR LOCKBIT_ON ShareUpdateExclusiveLock OR LOCKBIT_ON ShareLock OR
      LOCKBIT_ON ShareRowExclusiveLock OR LOCKBIT_ON ExclusiveLock OR LOCKBIT_ON AccessExclusiveLock,
    LOCKBIT_ON AccessShareLock OR LOCKBIT_ON RowShareLock OR LOCKBIT_ON RowExclusiveLock OR LOCKBIT_ON ShareUpdateExclusiveLock OR
      LOCKBIT_ON ShareLock OR LOCKBIT_ON ShareRowExclusiveLock OR LOCKBIT_ON ExclusiveLock OR LOCKBIT_ON AccessExclusiveLock]"

text \<open>Both lock methods have this table and \<^verbatim>\<open>numLockModes = AccessExclusiveLock\<close>.\<close>

abbreviation conflictTab :: "nat \<Rightarrow> LOCKMASK" where
  "conflictTab lockmode \<equiv> LockConflicts ! lockmode"

definition DoLockModesConflict :: "nat \<Rightarrow> nat \<Rightarrow> bool" where
  "DoLockModesConflict mode1 mode2 = (conflictTab mode1 AND LOCKBIT_ON mode2 \<noteq> 0)"

section \<open>Data\<close>

record PROCLOCK =
  myProc :: nat
  groupLeader :: nat
  holdMask :: LOCKMASK

text \<open>A process in the wait queue, with the fields of its PGPROC that say what it waits for.\<close>

record waiter =
  procno :: nat
  lockGroupLeader :: "nat option"
  heldLocks :: LOCKMASK
  waitLockMode :: nat

record LOCK =
  grantMask :: LOCKMASK
  waitMask :: LOCKMASK
  procLocks :: "PROCLOCK list"
  waitProcs :: "waiter list"
  requested :: "int list"
  nRequested :: int
  granted :: "int list"
  nGranted :: int

datatype lock_status = STATUS_OK | STATUS_FOUND | STATUS_WAITING | STATUS_ERROR

definition new_LOCK :: LOCK where
  "new_LOCK = \<lparr>grantMask = 0, waitMask = 0, procLocks = [], waitProcs = [], requested = replicate MAX_LOCKMODES 0, nRequested = 0,
     granted = replicate MAX_LOCKMODES 0, nGranted = 0\<rparr>"

definition find_proclock :: "nat \<Rightarrow> LOCK \<Rightarrow> PROCLOCK option" where
  "find_proclock p lock = find (\<lambda>pl. myProc pl = p) (procLocks lock)"

definition hold_of :: "nat \<Rightarrow> LOCK \<Rightarrow> LOCKMASK" where
  "hold_of p lock = (case find_proclock p lock of None \<Rightarrow> 0 | Some pl \<Rightarrow> holdMask pl)"

definition upd_hold :: "nat \<Rightarrow> (LOCKMASK \<Rightarrow> LOCKMASK) \<Rightarrow> PROCLOCK list \<Rightarrow> PROCLOCK list" where
  "upd_hold p f = map (\<lambda>pl. if myProc pl = p then pl\<lparr>holdMask := f (holdMask pl)\<rparr> else pl)"

definition add_at_mode :: "nat \<Rightarrow> int \<Rightarrow> int list \<Rightarrow> int list" where
  "add_at_mode m d xs = xs[m := xs ! m + d]"

section \<open>Conflicts\<close>

definition IsInSameLockGroup :: "PROCLOCK \<Rightarrow> PROCLOCK \<Rightarrow> bool" where
  "IsInSameLockGroup pl1 pl2 = (myProc pl1 \<noteq> myProc pl2 \<and> groupLeader pl1 = groupLeader pl2)"

definition myHolding :: "bool \<Rightarrow> LOCK \<Rightarrow> PROCLOCK \<Rightarrow> nat \<Rightarrow> nat" where
  "myHolding inLockGroup lock proclock i =
     (if bit (holdMask proclock) i then 1 else 0) +
     (if inLockGroup then length (filter (\<lambda>other. IsInSameLockGroup proclock other \<and> bit (holdMask other) i) (procLocks lock)) else 0)"

definition LockCheckConflicts :: "(nat \<Rightarrow> nat option) \<Rightarrow> nat \<Rightarrow> nat \<Rightarrow> LOCK \<Rightarrow> PROCLOCK \<Rightarrow> lock_status" where
  "LockCheckConflicts grp me lockmode lock proclock =
     (if conflictTab lockmode AND grantMask lock = 0 then STATUS_OK
      else let inLockGroup = (groupLeader proclock \<noteq> me \<or> grp me \<noteq> None);
               otherLocks = fold (\<lambda>i otherLocks. if granted lock ! i > int (myHolding inLockGroup lock proclock i)
                                   then otherLocks OR LOCKBIT_ON i else otherLocks) [1..<AccessExclusiveLock + 1] 0
           in if conflictTab lockmode AND otherLocks = 0 then STATUS_OK else STATUS_FOUND)"

section \<open>Granting and releasing\<close>

definition GrantLock :: "nat \<Rightarrow> nat \<Rightarrow> LOCK \<Rightarrow> LOCK" where
  "GrantLock p lockmode lock =
     (let lock = lock\<lparr>nGranted := nGranted lock + 1, granted := add_at_mode lockmode 1 (granted lock),
                      grantMask := grantMask lock OR LOCKBIT_ON lockmode\<rparr>;
          lock = (if granted lock ! lockmode = requested lock ! lockmode
                  then lock\<lparr>waitMask := waitMask lock AND LOCKBIT_OFF lockmode\<rparr> else lock)
      in lock\<lparr>procLocks := upd_hold p (\<lambda>h. h OR LOCKBIT_ON lockmode) (procLocks lock)\<rparr>)"

definition UnGrantLock :: "nat \<Rightarrow> nat \<Rightarrow> LOCK \<Rightarrow> bool \<times> LOCK" where
  "UnGrantLock p lockmode lock =
     (let lock = lock\<lparr>nRequested := nRequested lock - 1, requested := add_at_mode lockmode (-1) (requested lock),
                      nGranted := nGranted lock - 1, granted := add_at_mode lockmode (-1) (granted lock)\<rparr>;
          lock = (if granted lock ! lockmode = 0 then lock\<lparr>grantMask := grantMask lock AND LOCKBIT_OFF lockmode\<rparr> else lock);
          wakeupNeeded = (conflictTab lockmode AND waitMask lock \<noteq> 0)
      in (wakeupNeeded, lock\<lparr>procLocks := upd_hold p (\<lambda>h. h AND LOCKBIT_OFF lockmode) (procLocks lock)\<rparr>))"

text \<open>\<^verbatim>\<open>ProcWakeup\<close> takes the process out of the queue.\<close>

definition ProcWakeup :: "nat \<Rightarrow> LOCK \<Rightarrow> LOCK" where
  "ProcWakeup p lock = lock\<lparr>waitProcs := filter (\<lambda>w. procno w \<noteq> p) (waitProcs lock)\<rparr>"

definition check_for :: "(nat \<Rightarrow> nat option) \<Rightarrow> nat \<Rightarrow> nat \<Rightarrow> nat \<Rightarrow> LOCK \<Rightarrow> bool" where
  "check_for grp me p lockmode lock =
     (case find_proclock p lock of None \<Rightarrow> False | Some pl \<Rightarrow> LockCheckConflicts grp me lockmode lock pl = STATUS_OK)"

fun wakeup_loop :: "(nat \<Rightarrow> nat option) \<Rightarrow> nat \<Rightarrow> LOCKMASK \<Rightarrow> waiter list \<Rightarrow> LOCK \<Rightarrow> LOCK" where
  "wakeup_loop grp me aheadRequests [] lock = lock"
| "wakeup_loop grp me aheadRequests (w # ws) lock =
     (if conflictTab (waitLockMode w) AND aheadRequests = 0 \<and> check_for grp me (procno w) (waitLockMode w) lock
      then wakeup_loop grp me aheadRequests ws (ProcWakeup (procno w) (GrantLock (procno w) (waitLockMode w) lock))
      else wakeup_loop grp me (aheadRequests OR LOCKBIT_ON (waitLockMode w)) ws lock)"

definition ProcLockWakeup :: "(nat \<Rightarrow> nat option) \<Rightarrow> nat \<Rightarrow> LOCK \<Rightarrow> LOCK" where
  "ProcLockWakeup grp me lock = wakeup_loop grp me 0 (waitProcs lock) lock"

definition CleanUpLock :: "(nat \<Rightarrow> nat option) \<Rightarrow> nat \<Rightarrow> nat \<Rightarrow> bool \<Rightarrow> LOCK \<Rightarrow> LOCK option" where
  "CleanUpLock grp me p wakeupNeeded lock =
     (let lock = (if hold_of p lock = 0 then lock\<lparr>procLocks := filter (\<lambda>pl. myProc pl \<noteq> p) (procLocks lock)\<rparr> else lock)
      in if nRequested lock = 0 then None
         else if wakeupNeeded then Some (ProcLockWakeup grp me lock) else Some lock)"

definition RemoveFromWaitQueue :: "(nat \<Rightarrow> nat option) \<Rightarrow> nat \<Rightarrow> waiter \<Rightarrow> LOCK \<Rightarrow> LOCK option" where
  "RemoveFromWaitQueue grp me w lock =
     (let lockmode = waitLockMode w;
          lock = lock\<lparr>waitProcs := filter (\<lambda>w'. procno w' \<noteq> procno w) (waitProcs lock), nRequested := nRequested lock - 1,
                      requested := add_at_mode lockmode (-1) (requested lock)\<rparr>;
          lock = (if granted lock ! lockmode = requested lock ! lockmode
                  then lock\<lparr>waitMask := waitMask lock AND LOCKBIT_OFF lockmode\<rparr> else lock)
      in CleanUpLock grp me (procno w) True lock)"

section \<open>Acquiring\<close>

text \<open>
  The error is for a mode that the process holds already, which the local table of a session answers before it comes here. In the code the counters stay
  incremented then; here the error leaves no lock, and \<open>lreach\<close> does not go on from it.
\<close>

definition SetupLockInTable :: "(nat \<Rightarrow> nat option) \<Rightarrow> nat \<Rightarrow> nat \<Rightarrow> LOCK option \<Rightarrow> LOCK result" where
  "SetupLockInTable grp p lockmode entry =
     (let lock = (case entry of None \<Rightarrow> new_LOCK | Some lock \<Rightarrow> lock);
          lock = (if find_proclock p lock = None
                  then lock\<lparr>procLocks := procLocks lock @
                         [\<lparr>myProc = p, groupLeader = (case grp p of Some l \<Rightarrow> l | None \<Rightarrow> p), holdMask = 0\<rparr>]\<rparr>
                  else lock);
          lock = lock\<lparr>nRequested := nRequested lock + 1, requested := add_at_mode lockmode 1 (requested lock)\<rparr>
      in if bit (hold_of p lock) lockmode then Inl (Ereport ERROR ERRCODE_LOCK_NOT_AVAILABLE) else Inr lock)"

text \<open>Where \<^verbatim>\<open>ProcSleep\<close> puts the process: the search through the queue from position \<open>i\<close>.\<close>

datatype sleep_place = Sleep_Grant | Sleep_Deadlock nat | Sleep_Before nat

fun sleep_scan :: "(nat \<Rightarrow> nat option) \<Rightarrow> nat \<Rightarrow> nat \<Rightarrow> LOCKMASK \<Rightarrow> LOCK \<Rightarrow> LOCKMASK \<Rightarrow> nat \<Rightarrow> waiter list \<Rightarrow> sleep_place" where
  "sleep_scan grp p lockmode myHeldLocks lock aheadRequests i [] = Sleep_Before i"
| "sleep_scan grp p lockmode myHeldLocks lock aheadRequests i (w # ws) =
     (if grp p \<noteq> None \<and> grp p = lockGroupLeader w then sleep_scan grp p lockmode myHeldLocks lock aheadRequests (Suc i) ws
      else if conflictTab (waitLockMode w) AND myHeldLocks \<noteq> 0
      then if conflictTab lockmode AND heldLocks w \<noteq> 0 then Sleep_Deadlock i
           else if conflictTab lockmode AND aheadRequests = 0 \<and> check_for grp p p lockmode lock then Sleep_Grant
           else Sleep_Before i
      else sleep_scan grp p lockmode myHeldLocks lock (aheadRequests OR LOCKBIT_ON (waitLockMode w)) (Suc i) ws)"

definition insert_at :: "nat \<Rightarrow> 'a \<Rightarrow> 'a list \<Rightarrow> 'a list" where
  "insert_at i x xs = take i xs @ x # drop i xs"

text \<open>\<^verbatim>\<open>ProcSleep\<close> until it releases the partition lock; \<^verbatim>\<open>heldLocks\<close> is set by the caller.\<close>

definition ProcSleep :: "(nat \<Rightarrow> nat option) \<Rightarrow> nat \<Rightarrow> nat \<Rightarrow> LOCK \<Rightarrow> lock_status \<times> LOCK option" where
  "ProcSleep grp p lockmode lock =
     (let myHeldLocks = (case grp p of None \<Rightarrow> hold_of p lock
                         | Some leader \<Rightarrow> fold (\<lambda>other h. if groupLeader other = leader then h OR holdMask other else h)
                                            (procLocks lock) (hold_of p lock));
          place = (if myHeldLocks \<noteq> 0 then sleep_scan grp p lockmode myHeldLocks lock 0 0 (waitProcs lock)
                   else Sleep_Before (length (waitProcs lock)));
          w = \<lparr>procno = p, lockGroupLeader = grp p, heldLocks = hold_of p lock, waitLockMode = lockmode\<rparr>;
          queued = (\<lambda>i. lock\<lparr>waitProcs := insert_at i w (waitProcs lock), waitMask := waitMask lock OR LOCKBIT_ON lockmode\<rparr>)
      in case place of
           Sleep_Grant \<Rightarrow> (STATUS_OK, Some (GrantLock p lockmode lock))
         | Sleep_Deadlock i \<Rightarrow> (STATUS_ERROR, RemoveFromWaitQueue grp p w (queued i))
         | Sleep_Before i \<Rightarrow> (STATUS_WAITING, Some (queued i)))"

datatype LockAcquireResult = LOCKACQUIRE_NOT_AVAIL | LOCKACQUIRE_OK | LOCKACQUIRE_WAITING | LOCKACQUIRE_DEADLOCK

text \<open>The part of \<^verbatim>\<open>LockAcquireExtendedXC\<close> that works on the shared table.\<close>

definition LockAcquire :: "(nat \<Rightarrow> nat option) \<Rightarrow> nat \<Rightarrow> nat \<Rightarrow> bool \<Rightarrow> LOCK option \<Rightarrow> (LockAcquireResult \<times> LOCK option) result" where
  "LockAcquire grp p lockmode dontWait entry =
     rbind (SetupLockInTable grp p lockmode entry) (\<lambda>lock.
       if conflictTab lockmode AND waitMask lock = 0 \<and> check_for grp p p lockmode lock
       then Inr (LOCKACQUIRE_OK, Some (GrantLock p lockmode lock))
       else if dontWait
       then let lock = (if hold_of p lock = 0 then lock\<lparr>procLocks := filter (\<lambda>pl. myProc pl \<noteq> p) (procLocks lock)\<rparr> else lock)
            in Inr (LOCKACQUIRE_NOT_AVAIL,
                    Some (lock\<lparr>nRequested := nRequested lock - 1, requested := add_at_mode lockmode (-1) (requested lock)\<rparr>))
       else case ProcSleep grp p lockmode lock of (status, entry) \<Rightarrow>
              Inr (case status of STATUS_OK \<Rightarrow> LOCKACQUIRE_OK | STATUS_WAITING \<Rightarrow> LOCKACQUIRE_WAITING | _ \<Rightarrow> LOCKACQUIRE_DEADLOCK, entry))"

text \<open>The part of \<^verbatim>\<open>LockRelease\<close> that works on the shared table.\<close>

definition LockRelease :: "(nat \<Rightarrow> nat option) \<Rightarrow> nat \<Rightarrow> nat \<Rightarrow> LOCK \<Rightarrow> bool \<times> LOCK option" where
  "LockRelease grp p lockmode lock =
     (if \<not> bit (hold_of p lock) lockmode then (False, Some lock)
      else case UnGrantLock p lockmode lock of (wakeupNeeded, lock) \<Rightarrow> (True, CleanUpLock grp p p wakeupNeeded lock))"

text \<open>
  The part of \<^verbatim>\<open>LockReleaseAll\<close> that works on one object of the shared table: it releases the modes of \<^verbatim>\<open>releaseMask\<close>, which the
  local table has collected, or everything.
\<close>

fun release_modes :: "nat \<Rightarrow> LOCKMASK \<Rightarrow> nat list \<Rightarrow> bool \<Rightarrow> LOCK \<Rightarrow> bool \<times> LOCK" where
  "release_modes p releaseMask [] wakeupNeeded lock = (wakeupNeeded, lock)"
| "release_modes p releaseMask (i # is) wakeupNeeded lock =
     (if bit releaseMask i
      then case UnGrantLock p i lock of (w, lock) \<Rightarrow> release_modes p releaseMask is (wakeupNeeded \<or> w) lock
      else release_modes p releaseMask is wakeupNeeded lock)"

definition LockReleaseAll :: "(nat \<Rightarrow> nat option) \<Rightarrow> nat \<Rightarrow> bool \<Rightarrow> LOCKMASK \<Rightarrow> LOCK \<Rightarrow> LOCK option result" where
  "LockReleaseAll grp p allLocks releaseMask lock =
     (case find_proclock p lock of
        None \<Rightarrow> Inr (Some lock)
      | Some proclock \<Rightarrow>
          let releaseMask = (if allLocks then holdMask proclock else releaseMask)
          in if releaseMask AND NOT (holdMask proclock) \<noteq> 0 then Inl (Ereport PANIC ERRCODE_DATA_CORRUPTED)
             else if releaseMask = 0 \<and> holdMask proclock \<noteq> 0 then Inr (Some lock)
             else case release_modes p releaseMask [1..<AccessExclusiveLock + 1] False lock of
                    (wakeupNeeded, lock) \<Rightarrow> Inr (CleanUpLock grp p p wakeupNeeded lock))"

text \<open>
  What \<^verbatim>\<open>DeadLockCheck\<close> does to one queue when a new order of its waiters resolves the deadlock: it installs the order and wakes up.
\<close>

definition install_order :: "(nat \<Rightarrow> nat option) \<Rightarrow> nat \<Rightarrow> waiter list \<Rightarrow> LOCK \<Rightarrow> LOCK" where
  "install_order grp me procs lock = ProcLockWakeup grp me (lock\<lparr>waitProcs := procs\<rparr>)"

section \<open>Reachable entries\<close>

inductive lreach :: "(nat \<Rightarrow> nat option) \<Rightarrow> LOCK option \<Rightarrow> bool" for grp where
  lreach_none: "lreach grp None"
| lreach_acquire: "lreach grp entry \<Longrightarrow> 1 \<le> lockmode \<Longrightarrow> lockmode \<le> AccessExclusiveLock \<Longrightarrow>
    (\<forall>lock. entry = Some lock \<longrightarrow> p \<notin> procno ` set (waitProcs lock)) \<Longrightarrow>
    LockAcquire grp p lockmode dontWait entry = Inr (r, entry') \<Longrightarrow> lreach grp entry'"
| lreach_release: "lreach grp (Some lock) \<Longrightarrow> p \<notin> procno ` set (waitProcs lock) \<Longrightarrow> LockRelease grp p lockmode lock = (b, entry') \<Longrightarrow> lreach grp entry'"
| lreach_release_all: "lreach grp (Some lock) \<Longrightarrow> p \<notin> procno ` set (waitProcs lock) \<Longrightarrow>
    LockReleaseAll grp p allLocks releaseMask lock = Inr entry' \<Longrightarrow> lreach grp entry'"
| lreach_give_up: "lreach grp (Some lock) \<Longrightarrow> w \<in> set (waitProcs lock) \<Longrightarrow> RemoveFromWaitQueue grp me w lock = entry' \<Longrightarrow> lreach grp entry'"
| lreach_order: "lreach grp (Some lock) \<Longrightarrow> mset procs = mset (waitProcs lock) \<Longrightarrow> lreach grp (Some (install_order grp me procs lock))"

section \<open>The conflict table\<close>

definition conflicts :: "nat \<Rightarrow> nat \<Rightarrow> bool" where
  "conflicts i j \<longleftrightarrow> bit (conflictTab i) j"

abbreviation mode_ok :: "nat \<Rightarrow> bool" where
  "mode_ok m \<equiv> 1 \<le> m \<and> m \<le> AccessExclusiveLock"

lemma bit_LOCKBIT [simp]: "bit (LOCKBIT_ON m) i \<longleftrightarrow> i = m \<and> m < 32" "bit (LOCKBIT_OFF m) i \<longleftrightarrow> i < 32 \<and> i \<noteq> m"
  by (auto simp: LOCKBIT_ON_def LOCKBIT_OFF_def bit_simps)

lemma mask_meets: "(a :: LOCKMASK) AND b \<noteq> 0 \<longleftrightarrow> (\<exists>i. bit a i \<and> bit b i)"
  by (simp add: word_eq_0_iff_no_bit bit_and_iff)

lemmas lock_modes = AccessShareLock_def RowShareLock_def RowExclusiveLock_def ShareUpdateExclusiveLock_def ShareLock_def
  ShareRowExclusiveLock_def ExclusiveLock_def AccessExclusiveLock_def

lemma mode_cases: "mode_ok m \<Longrightarrow> m \<in> {1, 2, 3, 4, 5, 6, 7, 8}"
  by (auto simp: AccessExclusiveLock_def)

lemma conflicts_iff:
  "conflicts 1 j \<longleftrightarrow> j = 8" "conflicts 2 j \<longleftrightarrow> j \<in> {7, 8}" "conflicts 3 j \<longleftrightarrow> j \<in> {5, 6, 7, 8}" "conflicts 4 j \<longleftrightarrow> j \<in> {4, 5, 6, 7, 8}"
  "conflicts 5 j \<longleftrightarrow> j \<in> {3, 4, 6, 7, 8}" "conflicts 6 j \<longleftrightarrow> j \<in> {3, 4, 5, 6, 7, 8}" "conflicts 7 j \<longleftrightarrow> j \<in> {2, 3, 4, 5, 6, 7, 8}"
  "conflicts 8 j \<longleftrightarrow> j \<in> {1, 2, 3, 4, 5, 6, 7, 8}"
  unfolding conflicts_def LockConflicts_def lock_modes by (auto simp: bit_or_iff)

lemma conflicts_range: "mode_ok m \<Longrightarrow> conflicts m j \<Longrightarrow> mode_ok j"
  using mode_cases [of m] by (auto simp: conflicts_iff AccessExclusiveLock_def simp flip: One_nat_def)

lemma conflicts_sym: "mode_ok i \<Longrightarrow> mode_ok j \<Longrightarrow> conflicts i j = conflicts j i"
  using mode_cases [of i] mode_cases [of j] by (auto simp: conflicts_iff simp flip: One_nat_def)

lemma mode_less: "mode_ok m \<Longrightarrow> m < 10 \<and> m < 32"
  by (simp add: AccessExclusiveLock_def)

section \<open>The invariant\<close>

definition leader :: "(nat \<Rightarrow> nat option) \<Rightarrow> nat \<Rightarrow> nat" where
  "leader grp p = (case grp p of Some l \<Rightarrow> l | None \<Rightarrow> p)"

definition grp_ok :: "(nat \<Rightarrow> nat option) \<Rightarrow> bool" where
  "grp_ok grp \<longleftrightarrow> (\<forall>p l. grp p = Some l \<longrightarrow> grp l = Some l)"

definition holders :: "LOCK \<Rightarrow> nat \<Rightarrow> nat" where
  "holders l i = length (filter (\<lambda>pl. bit (holdMask pl) i) (procLocks l))"

definition waiting :: "LOCK \<Rightarrow> nat \<Rightarrow> nat" where
  "waiting l i = length (filter (\<lambda>w. waitLockMode w = i) (waitProcs l))"

text \<open>\<open>pend\<close> is the mode of a request that has been counted but is neither granted nor in the queue yet.\<close>

definition counts_ok :: "nat option \<Rightarrow> LOCK \<Rightarrow> bool" where
  "counts_ok pend l \<longleftrightarrow> length (granted l) = 10 \<and> length (requested l) = 10 \<and> (\<forall>i < 10. granted l ! i = int (holders l i)) \<and>
     (\<forall>i < 10. requested l ! i = int (holders l i) + int (waiting l i) + (if pend = Some i then 1 else 0)) \<and>
     nGranted l = sum_list (granted l) \<and> nRequested l = sum_list (requested l)"

definition masks_ok :: "nat option \<Rightarrow> LOCK \<Rightarrow> bool" where
  "masks_ok pend l \<longleftrightarrow> (\<forall>i. bit (grantMask l) i \<longleftrightarrow> 0 < holders l i) \<and> (\<forall>i. 0 < waiting l i \<longrightarrow> bit (waitMask l) i) \<and>
     (\<forall>i. bit (waitMask l) i \<longrightarrow> 0 < waiting l i \<or> pend = Some i)"

definition procs_ok :: "(nat \<Rightarrow> nat option) \<Rightarrow> LOCK \<Rightarrow> bool" where
  "procs_ok grp l \<longleftrightarrow> distinct (map myProc (procLocks l)) \<and> distinct (map procno (waitProcs l)) \<and>
     (\<forall>a \<in> set (procLocks l). groupLeader a = leader grp (myProc a) \<and> (\<forall>i. bit (holdMask a) i \<longrightarrow> mode_ok i)) \<and>
     (\<forall>w \<in> set (waitProcs l). procno w \<in> myProc ` set (procLocks l) \<and> mode_ok (waitLockMode w) \<and> \<not> bit (hold_of (procno w) l) (waitLockMode w))"

definition excl :: "LOCK \<Rightarrow> bool" where
  "excl l \<longleftrightarrow> (\<forall>a \<in> set (procLocks l). \<forall>b \<in> set (procLocks l). groupLeader a \<noteq> groupLeader b \<longrightarrow>
     (\<forall>i j. bit (holdMask a) i \<longrightarrow> bit (holdMask b) j \<longrightarrow> \<not> conflicts i j))"

definition lock_inv :: "(nat \<Rightarrow> nat option) \<Rightarrow> nat option \<Rightarrow> LOCK \<Rightarrow> bool" where
  "lock_inv grp pend l \<longleftrightarrow> counts_ok pend l \<and> masks_ok pend l \<and> procs_ok grp l \<and> excl l"

definition blocked :: "(nat \<Rightarrow> nat option) \<Rightarrow> LOCK \<Rightarrow> nat \<Rightarrow> nat \<Rightarrow> bool" where
  "blocked grp l p m \<longleftrightarrow> (\<exists>b \<in> set (procLocks l). groupLeader b \<noteq> leader grp p \<and> (\<exists>j. bit (holdMask b) j \<and> conflicts m j))"

fun stuck_q :: "(waiter \<Rightarrow> bool) \<Rightarrow> nat set \<Rightarrow> waiter list \<Rightarrow> bool" where
  "stuck_q B A [] = True"
| "stuck_q B A (w # ws) \<longleftrightarrow> ((\<exists>j \<in> A. conflicts (waitLockMode w) j) \<or> B w) \<and> stuck_q B (insert (waitLockMode w) A) ws"

definition stuck :: "(nat \<Rightarrow> nat option) \<Rightarrow> LOCK \<Rightarrow> bool" where
  "stuck grp l \<longleftrightarrow> stuck_q (\<lambda>w. blocked grp l (procno w) (waitLockMode w)) {} (waitProcs l)"

lemma stuck_q_append: "stuck_q B A (xs @ ys) \<longleftrightarrow> stuck_q B A xs \<and> stuck_q B (A \<union> waitLockMode ` set xs) ys"
  by (induction xs arbitrary: A) auto

lemma stuck_q_mono: "stuck_q B A ws \<Longrightarrow> A \<subseteq> A' \<Longrightarrow> (\<And>w. w \<in> set ws \<Longrightarrow> B w \<Longrightarrow> B' w) \<Longrightarrow> stuck_q B' A' ws"
proof (induction ws arbitrary: A A')
  case (Cons w ws)
  have "stuck_q B' (insert (waitLockMode w) A') ws" using Cons.IH [of "insert (waitLockMode w) A"] Cons.prems by auto
  then show ?case using Cons.prems by auto
qed simp

section \<open>The check for conflicts\<close>

lemma find_key: "distinct (map f xs) \<Longrightarrow> find (\<lambda>x. f x = k) xs = Some a \<longleftrightarrow> a \<in> set xs \<and> f a = k"
  by (induction xs) (auto simp: image_iff)

abbreviation keys_ok :: "LOCK \<Rightarrow> bool" where
  "keys_ok l \<equiv> distinct (map myProc (procLocks l))"

lemma procs_keys: "procs_ok grp l \<Longrightarrow> keys_ok l"
  by (simp add: procs_ok_def)

lemma find_proclock_Some: "keys_ok l \<Longrightarrow> find_proclock p l = Some a \<longleftrightarrow> a \<in> set (procLocks l) \<and> myProc a = p"
  unfolding find_proclock_def by (simp add: find_key)

lemma hold_of_eq: "keys_ok l \<Longrightarrow> a \<in> set (procLocks l) \<Longrightarrow> hold_of (myProc a) l = holdMask a"
  using find_proclock_Some [of l "myProc a" a] by (simp add: hold_of_def)

lemma hold_of_bit:
  assumes "keys_ok l"
  shows "bit (hold_of p l) i \<longleftrightarrow> (\<exists>a \<in> set (procLocks l). myProc a = p \<and> bit (holdMask a) i)"
proof
  assume "bit (hold_of p l) i"
  then show "\<exists>a \<in> set (procLocks l). myProc a = p \<and> bit (holdMask a) i"
    using find_proclock_Some [OF assms, of p] by (auto simp: hold_of_def split: option.splits)
next
  assume "\<exists>a \<in> set (procLocks l). myProc a = p \<and> bit (holdMask a) i"
  then show "bit (hold_of p l) i" using hold_of_eq [OF assms] by auto
qed

lemma bit_fold_or: "bit (fold (\<lambda>i acc. if P i then acc OR LOCKBIT_ON i else acc) is acc) j \<longleftrightarrow> bit acc j \<or> (j \<in> set is \<and> P j \<and> j < 32)"
  by (induction "is" arbitrary: acc) (auto simp: bit_or_iff)

lemma length_filter_split: "length (filter P xs) = length (filter (\<lambda>x. P x \<and> Q x) xs) + length (filter (\<lambda>x. P x \<and> \<not> Q x) xs)"
  by (induction xs) auto

lemma length_filter_key:
  assumes "distinct (map f xs)" "a \<in> set xs"
  shows "length (filter (\<lambda>x. f x = f a \<and> P x) xs) = (if P a then 1 else 0)"
  using assms by (induction xs) (auto simp: filter_empty_conv image_iff)

lemma myHolding_group:
  assumes ok: "procs_ok grp l" and a: "a \<in> set (procLocks l)" and g: "grp_ok grp"
    and me: "inLockGroup \<longleftrightarrow> groupLeader a \<noteq> me \<or> grp me \<noteq> None"
  shows "myHolding inLockGroup l a i = length (filter (\<lambda>b. bit (holdMask b) i \<and> groupLeader b = groupLeader a) (procLocks l))"
proof -
  let ?same = "\<lambda>b. bit (holdMask b) i \<and> groupLeader b = groupLeader a"
  have d: "distinct (map myProc (procLocks l))" using ok by (simp add: procs_ok_def)
  have own: "length (filter (\<lambda>b. ?same b \<and> myProc b = myProc a) (procLocks l)) = (if bit (holdMask a) i then 1 else 0)"
    using length_filter_key [OF d a, of ?same] by (simp add: conj_commute)
  have oth: "length (filter (\<lambda>b. ?same b \<and> myProc b \<noteq> myProc a) (procLocks l)) =
    (if inLockGroup then length (filter (\<lambda>other. IsInSameLockGroup a other \<and> bit (holdMask other) i) (procLocks l)) else 0)"
  proof (cases inLockGroup)
    case True
    then show ?thesis by (auto simp: IsInSameLockGroup_def intro!: arg_cong [where f = length] filter_cong)
  next
    case False
    then have n: "groupLeader a = me" "grp me = None" using me by auto
    have "\<not> (?same b \<and> myProc b \<noteq> myProc a)" if b: "b \<in> set (procLocks l)" for b
    proof
      assume s: "?same b \<and> myProc b \<noteq> myProc a"
      have "leader grp (myProc a) = me" "leader grp (myProc b) = me" using ok a b s n by (auto simp: procs_ok_def)
      then have "myProc a = me" "myProc b = me" using g n(2) by (auto simp: leader_def grp_ok_def split: option.splits)
      then show False using s by simp
    qed
    then show ?thesis using False by (simp add: filter_empty_conv)
  qed
  show ?thesis unfolding myHolding_def using length_filter_split [of ?same "procLocks l" "\<lambda>b. myProc b = myProc a"] own oth by simp
qed

lemma check_for_iff:
  assumes inv: "counts_ok pend l" "masks_ok pend' l" "procs_ok grp l" and g: "grp_ok grp" and m: "mode_ok m" and p: "p \<in> myProc ` set (procLocks l)"
  shows "check_for grp me p m l \<longleftrightarrow> \<not> blocked grp l p m"
proof -
  obtain a where a: "a \<in> set (procLocks l)" "myProc a = p" using p by auto
  define ig where "ig \<longleftrightarrow> groupLeader a \<noteq> me \<or> grp me \<noteq> None"
  have ld: "groupLeader a = leader grp p" using inv(3) a by (auto simp: procs_ok_def)
  have others: "granted l ! i > int (myHolding ig l a i) \<longleftrightarrow> (\<exists>b \<in> set (procLocks l). groupLeader b \<noteq> groupLeader a \<and> bit (holdMask b) i)"
    if i: "i < 10" for i
  proof -
    have "granted l ! i = int (holders l i)" using inv(1) i by (simp add: counts_ok_def)
    moreover have "holders l i = length (filter (\<lambda>b. bit (holdMask b) i \<and> groupLeader b = groupLeader a) (procLocks l)) +
      length (filter (\<lambda>b. bit (holdMask b) i \<and> groupLeader b \<noteq> groupLeader a) (procLocks l))"
      unfolding holders_def by (rule length_filter_split)
    ultimately have "granted l ! i > int (myHolding ig l a i) \<longleftrightarrow>
      0 < length (filter (\<lambda>b. bit (holdMask b) i \<and> groupLeader b \<noteq> groupLeader a) (procLocks l))"
      unfolding myHolding_group [OF inv(3) a(1) g ig_def] by simp
    then show ?thesis by (auto simp: filter_empty_conv)
  qed
  define ol where "ol = fold (\<lambda>i acc. if granted l ! i > int (myHolding ig l a i) then acc OR LOCKBIT_ON i else acc) [1..<AccessExclusiveLock + 1] 0"
  have ol: "bit ol i \<longleftrightarrow> mode_ok i \<and> (\<exists>b \<in> set (procLocks l). groupLeader b \<noteq> groupLeader a \<and> bit (holdMask b) i)" for i
    unfolding ol_def bit_fold_or using others [of i] by (auto simp: AccessExclusiveLock_def)
  have chk: "check_for grp me p m l \<longleftrightarrow> conflictTab m AND grantMask l = 0 \<or> conflictTab m AND ol = 0"
    unfolding check_for_def LockCheckConflicts_def Let_def ig_def [symmetric] ol_def [symmetric]
    using find_proclock_Some [OF procs_keys [OF inv(3)], of p a] a ig_def ol_def by simp
  have gr: "bit (grantMask l) i" if "b \<in> set (procLocks l)" "bit (holdMask b) i" for b i
    using inv(2) that by (auto simp: masks_ok_def holders_def filter_empty_conv)
  have "blocked grp l p m \<longleftrightarrow> conflictTab m AND ol \<noteq> 0"
    unfolding mask_meets ol blocked_def ld conflicts_def [symmetric] using conflicts_range [OF m] by blast
  moreover have "blocked grp l p m \<Longrightarrow> conflictTab m AND grantMask l \<noteq> 0"
    unfolding mask_meets blocked_def conflicts_def using gr by blast
  ultimately show ?thesis using chk by blast
qed

section \<open>The operations keep the invariant\<close>

lemma sum_list_add_at: "m < length xs \<Longrightarrow> sum_list (xs[m := xs ! m + d]) = sum_list xs + (d :: int)"
proof (induction xs arbitrary: m)
  case (Cons x xs)
  then show ?case by (cases m) auto
qed simp

lemma add_at_mode_simps [simp]: "length (add_at_mode m d xs) = length xs"
  "i < length xs \<Longrightarrow> add_at_mode m d xs ! i = xs ! i + (if i = m then d else 0)"
  "m < length xs \<Longrightarrow> sum_list (add_at_mode m d xs) = sum_list xs + d"
  by (auto simp: add_at_mode_def nth_list_update sum_list_add_at)

lemma upd_hold_keys [simp]: "map myProc (upd_hold p f xs) = map myProc xs" "myProc ` set (upd_hold p f xs) = myProc ` set xs"
proof -
  show "map myProc (upd_hold p f xs) = map myProc xs" by (simp add: upd_hold_def)
  then show "myProc ` set (upd_hold p f xs) = myProc ` set xs" by (metis list.set_map)
qed

lemma in_upd_hold: "b \<in> set (upd_hold p f xs) \<longleftrightarrow>
  (\<exists>a \<in> set xs. b = (if myProc a = p then a\<lparr>holdMask := f (holdMask a)\<rparr> else a))"
  by (simp only: upd_hold_def set_map image_iff)

lemma holders_upd:
  assumes "distinct (map myProc xs)" "a \<in> set xs" "myProc a = p"
  shows "length (filter (\<lambda>b. bit (holdMask b) i) (upd_hold p f xs)) + (if bit (holdMask a) i then 1 else 0) =
    length (filter (\<lambda>b. bit (holdMask b) i) xs) + (if bit (f (holdMask a)) i then 1 else 0)"
  using assms
proof (induction xs)
  case (Cons x xs)
  show ?case
  proof (cases "x = a")
    case True
    then have "\<forall>b \<in> set xs. myProc b \<noteq> p" using Cons.prems by (auto simp: image_iff)
    then have "upd_hold p f xs = xs" by (auto simp: upd_hold_def intro!: map_idI)
    then show ?thesis using True Cons.prems by (simp add: upd_hold_def)
  next
    case False
    then have "a \<in> set xs" "myProc x \<noteq> p" using Cons.prems by auto
    then show ?thesis using Cons.IH Cons.prems False by (simp add: upd_hold_def)
  qed
qed simp

lemma grant_fields [simp]:
  "granted (GrantLock p m l) = add_at_mode m 1 (granted l)" "requested (GrantLock p m l) = requested l"
  "nGranted (GrantLock p m l) = nGranted l + 1" "nRequested (GrantLock p m l) = nRequested l"
  "grantMask (GrantLock p m l) = grantMask l OR LOCKBIT_ON m" "waitProcs (GrantLock p m l) = waitProcs l"
  "procLocks (GrantLock p m l) = upd_hold p (\<lambda>h. h OR LOCKBIT_ON m) (procLocks l)"
  "waitMask (GrantLock p m l) = (if add_at_mode m 1 (granted l) ! m = requested l ! m then waitMask l AND LOCKBIT_OFF m else waitMask l)"
  by (simp_all add: GrantLock_def Let_def)

lemma hold_of_upd:
  assumes "keys_ok l" "procLocks l' = upd_hold p f (procLocks l)" "q \<noteq> p"
  shows "hold_of q l' = hold_of q l"
proof (rule bit_word_eqI)
  have k: "keys_ok l'" using assms by simp
  show "bit (hold_of q l') i = bit (hold_of q l) i" for i
    unfolding hold_of_bit [OF assms(1)] hold_of_bit [OF k] assms(2) Bex_def in_upd_hold using assms(3) by (auto split: if_splits)
qed

lemma waiting_cong: "waitProcs l' = waitProcs l \<Longrightarrow> waiting l' i = waiting l i"
  by (simp add: waiting_def)

lemma procs_upd:
  assumes ok: "procs_ok grp l" and l': "procLocks l' = upd_hold p f (procLocks l)" "waitProcs l' = waitProcs l"
    and nw: "p \<notin> procno ` set (waitProcs l)" and f: "\<And>h i. bit (f h) i \<Longrightarrow> bit h i \<or> mode_ok i"
  shows "procs_ok grp l'"
proof -
  have h: "hold_of (procno v) l' = hold_of (procno v) l" if "v \<in> set (waitProcs l)" for v
    using that nw by (intro hold_of_upd [OF procs_keys [OF ok] l'(1)]) auto
  have "groupLeader b = leader grp (myProc b) \<and> (\<forall>i. bit (holdMask b) i \<longrightarrow> mode_ok i)" if b: "b \<in> set (procLocks l')" for b
  proof -
    obtain a where a: "a \<in> set (procLocks l)" "b = (if myProc a = p then a\<lparr>holdMask := f (holdMask a)\<rparr> else a)"
      using b unfolding l' in_upd_hold by blast
    have "groupLeader a = leader grp (myProc a)" "bit (holdMask a) i \<Longrightarrow> mode_ok i" for i using ok a(1) unfolding procs_ok_def by blast+
    then show ?thesis using a(2) f by (auto split: if_splits)
  qed
  then show ?thesis using ok h unfolding procs_ok_def l' by simp
qed

text \<open>Granting a counted request that no other group stands against.\<close>

lemma grant_inv:
  assumes inv: "lock_inv grp (Some m) l" and m: "mode_ok m" and a: "a \<in> set (procLocks l)" "myProc a = p" "\<not> bit (holdMask a) m"
    and free: "\<not> blocked grp l p m" and nw: "p \<notin> procno ` set (waitProcs l)"
  shows "lock_inv grp None (GrantLock p m l)"
proof -
  let ?l = "GrantLock p m l"
  have inv': "counts_ok (Some m) l" "masks_ok (Some m) l" "procs_ok grp l" "excl l" using inv by (auto simp: lock_inv_def)
  note k = procs_keys [OF inv'(3)]
  have ml: "m < 10" "m < 32" using mode_less [OF m] by auto
  have h: "holders ?l i = holders l i + (if i = m then 1 else 0)" for i
    unfolding holders_def grant_fields using holders_upd [OF k a(1,2), where f = "\<lambda>h. h OR LOCKBIT_ON m" and i = i] a(3) ml by (auto simp: bit_or_iff split: if_splits)
  have w: "waiting ?l i = waiting l i" for i by (rule waiting_cong) simp
  have c: "length (granted l) = 10" "length (requested l) = 10" "granted l ! m = int (holders l m)"
    "requested l ! m = int (holders l m) + int (waiting l m) + 1" using inv'(1) ml by (simp_all add: counts_ok_def)
  have "counts_ok None ?l" using inv'(1) ml unfolding counts_ok_def by (auto simp: h w)
  moreover have "masks_ok None ?l"
  proof -
    have "bit (waitMask ?l) i \<longleftrightarrow> bit (waitMask l) i \<and> (i = m \<longrightarrow> 0 < waiting l m)" for i
      using c ml bit_word_less_len [of "waitMask l" i] by (auto simp: bit_and_iff)
    then show ?thesis using inv'(2) ml unfolding masks_ok_def by (auto simp: h w bit_or_iff)
  qed
  moreover have "procs_ok grp ?l" using m by (intro procs_upd [OF inv'(3) _ _ nw]) (auto simp: bit_or_iff)
  moreover have "excl ?l"
    unfolding excl_def
  proof (intro ballI impI allI notI)
    fix x y i j assume x: "x \<in> set (procLocks ?l)" "y \<in> set (procLocks ?l)" "groupLeader x \<noteq> groupLeader y" and b: "bit (holdMask x) i" "bit (holdMask y) j"
      and cf: "conflicts i j"
    obtain x0 y0 where x0: "x0 \<in> set (procLocks l)" "groupLeader x0 = groupLeader x" "bit (holdMask x0) i \<or> myProc x0 = p \<and> i = m"
      and y0: "y0 \<in> set (procLocks l)" "groupLeader y0 = groupLeader y" "bit (holdMask y0) j \<or> myProc y0 = p \<and> j = m"
      using x b by (auto simp: in_upd_hold bit_or_iff split: if_splits)
    have ld: "myProc z = p \<Longrightarrow> groupLeader z = leader grp p" if "z \<in> set (procLocks l)" for z using inv'(3) that by (auto simp: procs_ok_def)
    have ok: "bit (holdMask z) n \<Longrightarrow> mode_ok n" if "z \<in> set (procLocks l)" for z n using inv'(3) that unfolding procs_ok_def by blast
    have nb: "\<not> (bit (holdMask z) n \<and> conflicts m n)" if "z \<in> set (procLocks l)" "groupLeader z \<noteq> leader grp p" for z n
      using free that unfolding blocked_def by blast
    consider "bit (holdMask x0) i" "bit (holdMask y0) j" | "myProc x0 = p" "i = m" "bit (holdMask y0) j" | "bit (holdMask x0) i" "myProc y0 = p" "j = m"
      | "myProc x0 = p" "myProc y0 = p" using x0(3) y0(3) by blast
    then show False
    proof cases
      case 1
      then show ?thesis using inv'(4) x0 y0 x(3) cf unfolding excl_def by metis
    next
      case 2
      then show ?thesis using nb [OF y0(1)] ld [OF x0(1)] x(3) x0(2) y0(2) cf by metis
    next
      case 3
      then have "conflicts m i" using cf conflicts_sym [OF m ok [OF x0(1)]] by blast
      then show ?thesis using nb [OF x0(1)] 3 ld [OF y0(1)] x(3) x0(2) y0(2) by metis
    next
      case 4
      then show ?thesis using ld x0 y0 x(3) by metis
    qed
  qed
  ultimately show ?thesis by (simp add: lock_inv_def)
qed

lemma blocked_mono:
  assumes "blocked grp l p m" "\<And>b. b \<in> set (procLocks l) \<Longrightarrow> holdMask b \<noteq> 0 \<Longrightarrow>
    \<exists>b' \<in> set (procLocks l'). groupLeader b' = groupLeader b \<and> (\<forall>i. bit (holdMask b) i \<longrightarrow> bit (holdMask b') i)"
  shows "blocked grp l' p m"
proof -
  obtain b j where b: "b \<in> set (procLocks l)" "groupLeader b \<noteq> leader grp p" "bit (holdMask b) j" "conflicts m j"
    using assms(1) unfolding blocked_def by blast
  have "holdMask b \<noteq> 0" using b(3) by auto
  from assms(2) [OF b(1) this] show ?thesis using b unfolding blocked_def by metis
qed

lemma blocked_grant: "blocked grp l q n \<Longrightarrow> blocked grp (GrantLock p m l) q n"
proof (erule blocked_mono)
  fix b assume "b \<in> set (procLocks l)"
  then have "(if myProc b = p then b\<lparr>holdMask := holdMask b OR LOCKBIT_ON m\<rparr> else b) \<in> set (procLocks (GrantLock p m l))" by (auto simp: in_upd_hold)
  then show "\<exists>b' \<in> set (procLocks (GrantLock p m l)). groupLeader b' = groupLeader b \<and> (\<forall>i. bit (holdMask b) i \<longrightarrow> bit (holdMask b') i)"
    by (rule rev_bexI) (auto simp: bit_or_iff)
qed

lemma length_filter_remove:
  assumes "distinct (map f xs)" "w \<in> set xs"
  shows "length (filter P (filter (\<lambda>x. f x \<noteq> f w) xs)) + (if P w then 1 else 0) = length (filter P xs)"
  using length_filter_split [of P xs "\<lambda>x. f x = f w"] length_filter_key [OF assms, of P] by (simp add: conj_commute)

lemma blocked_cong: "procLocks l' = procLocks l \<Longrightarrow> blocked grp l' p m = blocked grp l p m"
  by (simp add: blocked_def)

lemma hold_of_cong: "procLocks l' = procLocks l \<Longrightarrow> hold_of p l' = hold_of p l"
  by (simp add: hold_of_def find_proclock_def)

lemma wakeup_fields [simp]: "procLocks (ProcWakeup p l) = procLocks l" "granted (ProcWakeup p l) = granted l" "requested (ProcWakeup p l) = requested l"
  "waitProcs (ProcWakeup p l) = filter (\<lambda>w. procno w \<noteq> p) (waitProcs l)" "nGranted (ProcWakeup p l) = nGranted l" "nRequested (ProcWakeup p l) = nRequested l"
  "grantMask (ProcWakeup p l) = grantMask l" "waitMask (ProcWakeup p l) = waitMask l"
  by (simp_all add: ProcWakeup_def)

text \<open>A process taken out of the queue has a request that is counted only.\<close>

lemma dequeue_inv:
  assumes inv: "lock_inv grp None l" and w: "w \<in> set (waitProcs l)"
  shows "lock_inv grp (Some (waitLockMode w)) (ProcWakeup (procno w) l)"
proof -
  let ?l = "ProcWakeup (procno w) l"
  have inv': "counts_ok None l" "masks_ok None l" "procs_ok grp l" "excl l" using inv by (auto simp: lock_inv_def)
  have d: "distinct (map procno (waitProcs l))" using inv'(3) by (simp add: procs_ok_def)
  have h: "holders ?l i = holders l i" for i by (simp add: holders_def)
  have wt: "waiting ?l i + (if waitLockMode w = i then 1 else 0) = waiting l i" for i
    unfolding waiting_def using length_filter_remove [OF d w, of "\<lambda>v. waitLockMode v = i"] by simp
  have wi: "int (waiting l i) = int (waiting ?l i) + (if waitLockMode w = i then 1 else 0)" for i 
    using wt [of i] by (auto split: if_splits)
  have "counts_ok (Some (waitLockMode w)) ?l" using inv'(1) unfolding counts_ok_def h wi by simp
  moreover have "masks_ok (Some (waitLockMode w)) ?l"
  proof -
    have "0 < waiting ?l i \<Longrightarrow> 0 < waiting l i" "0 < waiting l i \<Longrightarrow> 0 < waiting ?l i \<or> waitLockMode w = i" for i
      using wt [of i] by (auto split: if_splits)
    then show ?thesis using inv'(2) unfolding masks_ok_def h by auto
  qed
  moreover have "procs_ok grp ?l"
    using inv'(3) hold_of_cong [of ?l l] unfolding procs_ok_def by (simp add: distinct_map_filter)
  moreover have "excl ?l" using inv'(4) by (simp add: excl_def)
  ultimately show ?thesis by (simp add: lock_inv_def)
qed

lemma waiter_proclock:
  assumes "lock_inv grp pend l" "w \<in> set (waitProcs l)"
  obtains a where "a \<in> set (procLocks l)" "myProc a = procno w" "\<not> bit (holdMask a) (waitLockMode w)" "mode_ok (waitLockMode w)"
proof -
  have ok: "procs_ok grp l" using assms(1) by (simp add: lock_inv_def)
  then obtain a where "a \<in> set (procLocks l)" "myProc a = procno w" "\<not> bit (hold_of (procno w) l) (waitLockMode w)" "mode_ok (waitLockMode w)"
    using assms(2) unfolding procs_ok_def by force
  then show thesis using hold_of_eq [OF procs_keys [OF ok]] that by metis
qed

lemma grant_wakeup_commute: "ProcWakeup p (GrantLock p m l) = GrantLock p m (ProcWakeup p l)"
  by (simp add: ProcWakeup_def GrantLock_def Let_def)

lemma wakeup_one:
  assumes inv: "lock_inv grp None l" and w: "w \<in> set (waitProcs l)" and g: "grp_ok grp" and chk: "check_for grp me (procno w) (waitLockMode w) l"
  shows "lock_inv grp None (ProcWakeup (procno w) (GrantLock (procno w) (waitLockMode w) l))"
proof -
  obtain a where a: "a \<in> set (procLocks l)" "myProc a = procno w" "\<not> bit (holdMask a) (waitLockMode w)" "mode_ok (waitLockMode w)"
    by (rule waiter_proclock [OF inv w])
  have "procno w \<in> myProc ` set (procLocks l)" using a(1,2) by force
  then have "\<not> blocked grp l (procno w) (waitLockMode w)"
    using chk check_for_iff [of None l None grp "waitLockMode w" "procno w" me] inv g a(4) by (simp add: lock_inv_def)
  then show ?thesis
    unfolding grant_wakeup_commute using a
    by (intro grant_inv [OF dequeue_inv [OF inv w], where a = a]) (auto simp: blocked_def)
qed

lemma wakeup_loop_inv:
  assumes "lock_inv grp None l" "waitProcs l = kept @ ws" "\<And>i. bit ahead i \<longleftrightarrow> i \<in> waitLockMode ` set kept"
    "stuck_q (\<lambda>w. blocked grp l (procno w) (waitLockMode w)) {} kept" "grp_ok grp"
  shows "lock_inv grp None (wakeup_loop grp me ahead ws l) \<and> stuck grp (wakeup_loop grp me ahead ws l)"
  using assms(1-4)
proof (induction ws arbitrary: ahead kept l)
  case Nil
  then show ?case by (simp add: stuck_def)
next
  case (Cons w ws)
  note inv = Cons.prems(1) and q = Cons.prems(2) and ah = Cons.prems(3) and st = Cons.prems(4)
  have w: "w \<in> set (waitProcs l)" using q by simp
  obtain a where a: "a \<in> set (procLocks l)" "myProc a = procno w" "mode_ok (waitLockMode w)" by (rule waiter_proclock [OF inv w])
  have p: "procno w \<in> myProc ` set (procLocks l)" using a(1,2) by force
  have chk: "check_for grp me (procno w) (waitLockMode w) l \<longleftrightarrow> \<not> blocked grp l (procno w) (waitLockMode w)"
    using check_for_iff [of None l None grp "waitLockMode w" "procno w" me] inv assms(5) a(3) p by (simp add: lock_inv_def)
  show ?case
  proof (cases "conflictTab (waitLockMode w) AND ahead = 0 \<and> check_for grp me (procno w) (waitLockMode w) l")
    case True
    let ?l = "ProcWakeup (procno w) (GrantLock (procno w) (waitLockMode w) l)"
    have d: "distinct (map procno (waitProcs l))" using inv by (simp add: lock_inv_def procs_ok_def)
    have q': "waitProcs ?l = kept @ ws" 
    proof -
      have "procno w \<notin> procno ` set kept" "procno w \<notin> procno ` set ws" using q d by auto
      then have "(\<forall>v \<in> set kept. procno v \<noteq> procno w) \<and> (\<forall>v \<in> set ws. procno v \<noteq> procno w)" by (metis imageI)
      then show ?thesis using q by simp
    qed
    have mono: "blocked grp ?l (procno v) (waitLockMode v)" if "blocked grp l (procno v) (waitLockMode v)" for v
      using blocked_grant [OF that, of "procno w" "waitLockMode w"] by (simp add: blocked_def)
    have "stuck_q (\<lambda>v. blocked grp ?l (procno v) (waitLockMode v)) {} kept" by (rule stuck_q_mono [OF st]) (use mono in auto)
    moreover have "lock_inv grp None ?l" by (rule wakeup_one [OF inv w assms(5)]) (use True in blast)
    ultimately show ?thesis using Cons.IH [of ?l kept ahead] q' ah True by simp
  next
    case False
    have "(\<exists>j \<in> waitLockMode ` set kept. conflicts (waitLockMode w) j) \<or> blocked grp l (procno w) (waitLockMode w)"
      using False chk mask_meets [of "conflictTab (waitLockMode w)" ahead] ah unfolding conflicts_def by blast
    then have "stuck_q (\<lambda>v. blocked grp l (procno v) (waitLockMode v)) {} (kept @ [w])" using st by (simp add: stuck_q_append)
    moreover have "bit (ahead OR LOCKBIT_ON (waitLockMode w)) i \<longleftrightarrow> i \<in> waitLockMode ` set (kept @ [w])" for i
      using ah mode_less [OF a(3)] by (auto simp: bit_or_iff)
    ultimately show ?thesis using Cons.IH [of l "kept @ [w]" "ahead OR LOCKBIT_ON (waitLockMode w)"] inv q False by auto
  qed
qed

lemma ProcLockWakeup_inv:
  assumes "lock_inv grp None l" "grp_ok grp"
  shows "lock_inv grp None (ProcLockWakeup grp me l) \<and> stuck grp (ProcLockWakeup grp me l)"
  unfolding ProcLockWakeup_def by (rule wakeup_loop_inv [OF assms(1) _ _ _ assms(2), of "[]"]) simp_all

text \<open>A process that holds nothing and does not wait is dropped.\<close>

definition drop_proclock :: "nat \<Rightarrow> LOCK \<Rightarrow> LOCK" where
  "drop_proclock p l = (if hold_of p l = 0 then l\<lparr>procLocks := filter (\<lambda>pl. myProc pl \<noteq> p) (procLocks l)\<rparr> else l)"

lemma drop_fields [simp]: "waitProcs (drop_proclock p l) = waitProcs l" "granted (drop_proclock p l) = granted l" "requested (drop_proclock p l) = requested l"
  "nGranted (drop_proclock p l) = nGranted l" "nRequested (drop_proclock p l) = nRequested l" "grantMask (drop_proclock p l) = grantMask l"
  "waitMask (drop_proclock p l) = waitMask l"
  by (simp_all add: drop_proclock_def)

lemma drop_keeps: "keys_ok l \<Longrightarrow> set (procLocks (drop_proclock p l)) \<subseteq> set (procLocks l) \<and>
  (\<forall>a \<in> set (procLocks l). myProc a \<noteq> p \<or> holdMask a \<noteq> 0 \<longrightarrow> a \<in> set (procLocks (drop_proclock p l)))"
  using hold_of_eq [of l] by (auto simp: drop_proclock_def)

lemma blocked_drop: "keys_ok l \<Longrightarrow> blocked grp (drop_proclock p l) q m = blocked grp l q m"
  using drop_keeps [of l p] unfolding blocked_def by (metis bit_0_eq bot_apply bot_bool_def subsetD)

lemma drop_inv:
  assumes inv: "lock_inv grp pend l" and nw: "p \<notin> procno ` set (waitProcs l)"
  shows "lock_inv grp pend (drop_proclock p l)"
proof (cases "hold_of p l = 0")
  case True
  let ?l = "drop_proclock p l"
  have inv': "counts_ok pend l" "masks_ok pend l" "procs_ok grp l" "excl l" using inv by (auto simp: lock_inv_def)
  note k = procs_keys [OF inv'(3)]
  have pl: "procLocks ?l = filter (\<lambda>pl. myProc pl \<noteq> p) (procLocks l)" using True by (simp add: drop_proclock_def)
  have z: "\<not> bit (holdMask a) i" if "a \<in> set (procLocks l)" "myProc a = p" for a i using hold_of_eq [OF k that(1)] that(2) True by simp
  have h: "holders ?l i = holders l i" for i unfolding holders_def pl filter_filter using z by (intro arg_cong [where f = length] filter_cong) auto
  have w: "waiting ?l i = waiting l i" for i by (rule waiting_cong) simp
  have kl: "keys_ok ?l" unfolding pl using k by (simp add: distinct_map_filter)
  have ho: "hold_of q ?l = hold_of q l" if "q \<noteq> p" for q
  proof (rule bit_word_eqI)
    show "bit (hold_of q ?l) i = bit (hold_of q l) i" for i unfolding hold_of_bit [OF kl] hold_of_bit [OF k] pl using that by auto
  qed
  have "procs_ok grp ?l"
    unfolding procs_ok_def
  proof (intro conjI ballI)
    fix v assume v: "v \<in> set (waitProcs ?l)"
    then have ne: "procno v \<noteq> p" using nw by auto
    have o: "procno v \<in> myProc ` set (procLocks l)" "\<not> bit (hold_of (procno v) l) (waitLockMode v)" "1 \<le> waitLockMode v" "waitLockMode v \<le> AccessExclusiveLock"
      using inv'(3) v unfolding procs_ok_def by auto
    then show "procno v \<in> myProc ` set (procLocks ?l)" unfolding pl using ne by auto
    show "\<not> bit (hold_of (procno v) ?l) (waitLockMode v)" using o ho [OF ne] by simp
    show "1 \<le> waitLockMode v" "waitLockMode v \<le> AccessExclusiveLock" using o by auto
  qed (use inv'(3) kl in \<open>auto simp: procs_ok_def pl\<close>)
  moreover have "counts_ok pend ?l" using inv'(1) unfolding counts_ok_def h w by simp
  moreover have "masks_ok pend ?l" using inv'(2) unfolding masks_ok_def h w by simp
  moreover have "excl ?l" using inv'(4) unfolding excl_def pl by auto
  ultimately show ?thesis by (simp add: lock_inv_def)
next
  case False
  then show ?thesis using inv by (simp add: drop_proclock_def)
qed

lemma stuck_cong:
  assumes "waitProcs l' = waitProcs l" "\<And>p m. blocked grp l p m \<Longrightarrow> blocked grp l' p m" "stuck grp l"
  shows "stuck grp l'"
  using stuck_q_mono [OF assms(3) [unfolded stuck_def] order_refl] assms(1,2) by (simp add: stuck_def)

text \<open>An object without requests has no holders and no waiters.\<close>

lemma no_requests:
  assumes c: "counts_ok None l" and ok: "procs_ok grp l" and n: "nRequested l = 0"
  shows "waitProcs l = [] \<and> (\<forall>a \<in> set (procLocks l). holdMask a = 0)"
proof -
  have "0 \<le> x" if "x \<in> set (requested l)" for x using c that by (auto simp: counts_ok_def in_set_conv_nth)
  moreover have "sum_list (requested l) = 0" using c n by (simp add: counts_ok_def)
  ultimately have "\<forall>x \<in> set (requested l). x = 0" by (simp add: sum_list_nonneg_eq_0_iff)
  moreover have "requested l ! i \<in> set (requested l)" if "i < 10" for i using that c unfolding counts_ok_def by (metis nth_mem)
  ultimately have "requested l ! i = 0" if "i < 10" for i using that by blast
  then have z: "holders l i = 0 \<and> waiting l i = 0" if "i < 10" for i using that c by (fastforce simp: counts_ok_def)
  have "v \<notin> set (waitProcs l)" for v
  proof
    assume v: "v \<in> set (waitProcs l)"
    then have "mode_ok (waitLockMode v)" using ok unfolding procs_ok_def by blast
    then have "waiting l (waitLockMode v) = 0" using z mode_less by blast
    then show False using v by (auto simp: waiting_def filter_empty_conv)
  qed
  moreover have "holdMask a = 0" if a: "a \<in> set (procLocks l)" for a
  proof -
    have "\<not> bit (holdMask a) i" for i
    proof
      assume b: "bit (holdMask a) i"
      then have "mode_ok i" using ok a unfolding procs_ok_def by blast
      then have "holders l i = 0" using z mode_less by blast
      then show False using a b by (auto simp: holders_def filter_empty_conv)
    qed
    then show ?thesis by (simp add: word_eq_0_iff_no_bit)
  qed
  ultimately show ?thesis by (metis last_in_set)
qed

definition entry_ok :: "(nat \<Rightarrow> nat option) \<Rightarrow> LOCK option \<Rightarrow> bool" where
  "entry_ok grp entry \<longleftrightarrow> (\<forall>l. entry = Some l \<longrightarrow> lock_inv grp None l \<and> stuck grp l)"

lemma CleanUp_eq: "CleanUpLock grp me p wake l =
  (if nRequested l = 0 then None else Some (if wake then ProcLockWakeup grp me (drop_proclock p l) else drop_proclock p l))"
  by (simp add: CleanUpLock_def drop_proclock_def Let_def)

lemma CleanUp_ok:
  assumes "lock_inv grp None l" "p \<notin> procno ` set (waitProcs l)" "wake \<or> stuck grp l" "grp_ok grp"
  shows "entry_ok grp (CleanUpLock grp me p wake l)"
proof -
  have d: "lock_inv grp None (drop_proclock p l)" by (rule drop_inv [OF assms(1,2)])
  have k: "keys_ok l" using assms(1) by (simp add: lock_inv_def procs_ok_def)
  have "stuck grp (drop_proclock p l)" if s: "stuck grp l"
    by (rule stuck_cong [OF _ _ s]) (simp_all add: blocked_drop [OF k])
  then show ?thesis using d ProcLockWakeup_inv [OF d assms(4)] assms(3) by (auto simp: entry_ok_def CleanUp_eq)
qed

lemma ungrant_fields:
  assumes "UnGrantLock p m l = (wake, l')"
  shows "granted l' = add_at_mode m (-1) (granted l)" "requested l' = add_at_mode m (-1) (requested l)" "nGranted l' = nGranted l - 1"
    "nRequested l' = nRequested l - 1" "waitProcs l' = waitProcs l" "waitMask l' = waitMask l" "procLocks l' = upd_hold p (\<lambda>h. h AND LOCKBIT_OFF m) (procLocks l)"
    "grantMask l' = (if add_at_mode m (-1) (granted l) ! m = 0 then grantMask l AND LOCKBIT_OFF m else grantMask l)"
    "wake \<longleftrightarrow> conflictTab m AND waitMask l \<noteq> 0"
  using assms by (auto simp: UnGrantLock_def Let_def split: if_splits)

lemma ungrant_inv:
  assumes inv: "lock_inv grp None l" and a: "a \<in> set (procLocks l)" "myProc a = p" "bit (holdMask a) m" and nw: "p \<notin> procno ` set (waitProcs l)"
    and run: "UnGrantLock p m l = (wake, l')"
  shows "lock_inv grp None l'"
proof -
  note f = ungrant_fields [OF run]
  have inv': "counts_ok None l" "masks_ok None l" "procs_ok grp l" "excl l" using inv by (auto simp: lock_inv_def)
  note k = procs_keys [OF inv'(3)]
  have m: "mode_ok m" using inv'(3) a(1,3) unfolding procs_ok_def by blast
  have ml: "m < 10" "m < 32" using mode_less [OF m] by auto
  have h: "holders l i = holders l' i + (if i = m then 1 else 0)" for i
  proof -
    have "bit (holdMask a) i \<Longrightarrow> i < 32" using bit_word_less_len [of "holdMask a" i] by simp
    then show ?thesis
      unfolding holders_def f(7) using holders_upd [OF k a(1,2), where f = "\<lambda>h. h AND LOCKBIT_OFF m" and i = i] a(3)
      by (auto simp: bit_and_iff split: if_splits)
  qed
  have w: "waiting l' i = waiting l i" for i by (rule waiting_cong [OF f(5)])
  have c: "length (granted l) = 10" "granted l ! m = int (holders l m)" using inv'(1) ml by (simp_all add: counts_ok_def)
  have "counts_ok None l'" using inv'(1) ml unfolding counts_ok_def f w by (auto simp: h)
  moreover have "masks_ok None l'"
  proof -
    have "bit (grantMask l') i \<longleftrightarrow> 0 < holders l' i" for i
      using inv'(2) c ml h [of i] h [of m] bit_word_less_len [of "grantMask l" i] unfolding masks_ok_def f by (auto simp: bit_and_iff split: if_splits)
    then show ?thesis using inv'(2) unfolding masks_ok_def f(6) w by blast
  qed
  moreover have "procs_ok grp l'" by (rule procs_upd [OF inv'(3) f(7,5) nw]) (auto simp: bit_and_iff)
  moreover have "excl l'"
  proof -
    have old: "\<exists>y \<in> set (procLocks l). groupLeader y = groupLeader x \<and> (\<forall>i. bit (holdMask x) i \<longrightarrow> bit (holdMask y) i)"
      if "x \<in> set (procLocks l')" for x
      using that unfolding f(7) in_upd_hold by (auto simp: bit_and_iff split: if_splits)
    show ?thesis
      unfolding excl_def
    proof (intro ballI impI allI)
      fix x y i j assume x: "x \<in> set (procLocks l')" "y \<in> set (procLocks l')" "groupLeader x \<noteq> groupLeader y" "bit (holdMask x) i" "bit (holdMask y) j"
      from old [OF x(1)] old [OF x(2)] show "\<not> conflicts i j" using inv'(4) x(3-5) unfolding excl_def by metis
    qed
  qed
  ultimately show ?thesis by (simp add: lock_inv_def)
qed

text \<open>A release that wakes nobody up leaves every waiter blocked.\<close>

lemma ungrant_stuck:
  assumes inv: "lock_inv grp None l" and a: "a \<in> set (procLocks l)" "myProc a = p" "bit (holdMask a) m"
    and run: "UnGrantLock p m l = (False, l')" and st: "stuck grp l"
  shows "stuck grp l'"
proof -
  note f = ungrant_fields [OF run]
  have inv': "masks_ok None l" "procs_ok grp l" using inv by (auto simp: lock_inv_def)
  have m: "mode_ok m" using inv'(2) a(1,3) unfolding procs_ok_def by blast
  have no: "\<not> conflicts (waitLockMode v) m" if v: "v \<in> set (waitProcs l)" for v
  proof
    assume c: "conflicts (waitLockMode v) m"
    have "mode_ok (waitLockMode v)" using inv'(2) v unfolding procs_ok_def by blast
    then have "conflicts m (waitLockMode v)" using c conflicts_sym [OF m] by blast
    moreover have "bit (waitMask l) (waitLockMode v)" using inv'(1) v by (auto simp: masks_ok_def waiting_def filter_empty_conv)
    ultimately show False using f(9) mask_meets [of "conflictTab m" "waitMask l"] unfolding conflicts_def by blast
  qed
  have "blocked grp l' (procno v) (waitLockMode v)" if v: "v \<in> set (waitProcs l)" and b: "blocked grp l (procno v) (waitLockMode v)" for v
  proof -
    obtain y j where y: "y \<in> set (procLocks l)" "groupLeader y \<noteq> leader grp (procno v)" "bit (holdMask y) j" "conflicts (waitLockMode v) j"
      using b unfolding blocked_def by blast
    define z where "z = (if myProc y = p then y\<lparr>holdMask := holdMask y AND LOCKBIT_OFF m\<rparr> else y)"
    have "z \<in> set (procLocks l')" unfolding f(7) in_upd_hold z_def using y(1) by blast
    moreover have "groupLeader z \<noteq> leader grp (procno v)" using y(2) by (simp add: z_def)
    moreover have "bit (holdMask z) j" using y(3,4) no [OF v] bit_word_less_len [OF y(3)] by (auto simp: bit_and_iff z_def)
    ultimately show ?thesis unfolding blocked_def using y(4) by blast
  qed
  then show ?thesis using stuck_q_mono [OF st [unfolded stuck_def] order_refl] by (simp add: stuck_def f(5))
qed

lemma LockRelease_ok:
  assumes inv: "lock_inv grp None l" "stuck grp l" and nw: "p \<notin> procno ` set (waitProcs l)" and g: "grp_ok grp" and run: "LockRelease grp p m l = (b, entry')"
  shows "entry_ok grp entry'"
proof (cases "bit (hold_of p l) m")
  case True
  obtain a where a: "a \<in> set (procLocks l)" "myProc a = p" "bit (holdMask a) m"
    using True hold_of_bit [of l p m] inv(1) by (auto simp: lock_inv_def procs_ok_def)
  obtain wake l' where u: "UnGrantLock p m l = (wake, l')" by fastforce
  have "lock_inv grp None l'" by (rule ungrant_inv [OF inv(1) a nw u])
  moreover have "wake \<or> stuck grp l'" using ungrant_stuck [OF inv(1) a _ inv(2)] u by (cases wake) auto
  moreover have "waitProcs l' = waitProcs l" using ungrant_fields [OF u] by simp
  ultimately have "entry_ok grp (CleanUpLock grp p p wake l')" using nw g by (intro CleanUp_ok) auto
  then show ?thesis using run True u by (simp add: LockRelease_def)
next
  case False
  then show ?thesis using inv run by (auto simp: LockRelease_def entry_ok_def)
qed

lemma release_modes_ok:
  assumes "lock_inv grp None l" "wake \<or> stuck grp l" "p \<notin> procno ` set (waitProcs l)" "distinct is"
    "\<And>i. i \<in> set is \<Longrightarrow> bit rm i \<Longrightarrow> bit (hold_of p l) i" "release_modes p rm is wake l = (wake', l')"
  shows "lock_inv grp None l' \<and> (wake' \<or> stuck grp l') \<and> p \<notin> procno ` set (waitProcs l')"
  using assms
proof (induction "is" arbitrary: wake l)
  case (Cons i "is")
  show ?case
  proof (cases "bit rm i")
    case True
    obtain w l1 where u: "UnGrantLock p i l = (w, l1)" by fastforce
    have k: "keys_ok l" using Cons.prems(1) by (simp add: lock_inv_def procs_ok_def)
    obtain a where a: "a \<in> set (procLocks l)" "myProc a = p" "bit (holdMask a) i"
      using Cons.prems(5) [of i] True hold_of_bit [OF k, of p i] by auto
    note f = ungrant_fields [OF u]
    have "lock_inv grp None l1" by (rule ungrant_inv [OF Cons.prems(1) a Cons.prems(3) u])
    moreover have "(wake \<or> w) \<or> stuck grp l1" using ungrant_stuck [OF Cons.prems(1) a] u Cons.prems(2) by (cases w) auto
    moreover have "p \<notin> procno ` set (waitProcs l1)" using Cons.prems(3) by (simp add: f)
    moreover have "bit (hold_of p l1) j" if j: "j \<in> set is" "bit rm j" for j
    proof -
      have "keys_ok l1" using k by (simp add: f)
      moreover obtain b where b: "b \<in> set (procLocks l)" "myProc b = p" "bit (holdMask b) j"
        using Cons.prems(5) [of j] j hold_of_bit [OF k, of p j] by auto
      then have "b\<lparr>holdMask := holdMask b AND LOCKBIT_OFF i\<rparr> \<in> set (procLocks l1)" by (auto simp: f(7) in_upd_hold)
      moreover have "j \<noteq> i" "j < 32" using j(1) Cons.prems(4) bit_word_less_len [OF b(3)] by auto
      ultimately show ?thesis using b(2,3) hold_of_bit [of l1 p j] by (force simp: bit_and_iff)
    qed
    ultimately show ?thesis using Cons.IH [of l1 "wake \<or> w"] Cons.prems(4,6) True u by simp
  next
    case False
    then show ?thesis using Cons.IH [of l wake] Cons.prems by simp
  qed
qed simp

lemma LockReleaseAll_ok:
  assumes inv: "lock_inv grp None l" "stuck grp l" and nw: "p \<notin> procno ` set (waitProcs l)" and g: "grp_ok grp"
    and run: "LockReleaseAll grp p allLocks rm l = Inr entry'"
  shows "entry_ok grp entry'"
proof (cases "entry' = Some l")
  case True
  then show ?thesis using inv by (simp add: entry_ok_def)
next
  case False
  then obtain a where a: "find_proclock p l = Some a" using run by (auto simp: LockReleaseAll_def split: option.splits)
  define rm' where "rm' = (if allLocks then holdMask a else rm)"
  obtain wake l' where r: "release_modes p rm' [1..<AccessExclusiveLock + 1] False l = (wake, l')" by fastforce
  have e: "rm' AND NOT (holdMask a) = 0" "entry' = CleanUpLock grp p p wake l'"
    using run False r unfolding LockReleaseAll_def a rm'_def by (auto simp: Let_def split: if_splits)
  have "bit (hold_of p l) i" if "bit rm' i" for i
  proof -
    have "\<not> bit (rm' AND NOT (holdMask a)) i" using e(1) by simp
    then show ?thesis using that bit_word_less_len [OF that] a by (auto simp: bit_and_iff bit_not_iff hold_of_def)
  qed
  then have "lock_inv grp None l' \<and> (wake \<or> stuck grp l') \<and> p \<notin> procno ` set (waitProcs l')"
    using inv nw by (intro release_modes_ok [OF inv(1) _ nw _ _ r]) auto
  then show ?thesis unfolding e(2) using g by (intro CleanUp_ok) auto
qed

text \<open>Taking back a request that is counted only.\<close>

lemma counts_cancel:
  assumes "counts_ok (Some m) l" "m < 10"
  shows "counts_ok None (l\<lparr>nRequested := nRequested l - 1, requested := add_at_mode m (-1) (requested l)\<rparr>)"
  using assms unfolding counts_ok_def by (auto simp: holders_def waiting_def)

lemma RemoveFromWaitQueue_ok:
  assumes inv: "lock_inv grp None l" and w: "w \<in> set (waitProcs l)" and g: "grp_ok grp"
  shows "entry_ok grp (RemoveFromWaitQueue grp me w l)"
proof -
  let ?m = "waitLockMode w"
  define l1 where "l1 = ProcWakeup (procno w) l"
  have i1: "lock_inv grp (Some ?m) l1" unfolding l1_def by (rule dequeue_inv [OF inv w])
  have inv': "counts_ok (Some ?m) l1" "masks_ok (Some ?m) l1" "procs_ok grp l1" "excl l1" using i1 by (auto simp: lock_inv_def)
  have "mode_ok ?m" using inv w unfolding lock_inv_def procs_ok_def by blast
  then have ml: "?m < 10" "?m < 32" using mode_less by auto
  define l2 where "l2 = l1\<lparr>nRequested := nRequested l1 - 1, requested := add_at_mode ?m (-1) (requested l1)\<rparr>"
  define l3 where "l3 = (if granted l2 ! ?m = requested l2 ! ?m then l2\<lparr>waitMask := waitMask l2 AND LOCKBIT_OFF ?m\<rparr> else l2)"
  have c2: "counts_ok None l2" unfolding l2_def by (rule counts_cancel [OF inv'(1) ml(1)])
  have f: "procLocks l3 = procLocks l1" "waitProcs l3 = waitProcs l1" "granted l3 = granted l2" "requested l3 = requested l2" "nGranted l3 = nGranted l2"
    "nRequested l3 = nRequested l2" "grantMask l3 = grantMask l1" "waitMask l3 = (if granted l2 ! ?m = requested l2 ! ?m then waitMask l1 AND LOCKBIT_OFF ?m else waitMask l1)"
    "procLocks l2 = procLocks l1" "waitProcs l2 = waitProcs l1"
    by (simp_all add: l3_def l2_def)
  have h: "holders l3 i = holders l1 i" "waiting l3 i = waiting l1 i" "holders l2 i = holders l1 i" "waiting l2 i = waiting l1 i" for i
    by (simp_all add: holders_def waiting_def f)
  have "counts_ok None l3" using c2 unfolding counts_ok_def f h by simp
  moreover have "masks_ok None l3"
  proof -
    have eq: "granted l2 ! ?m = requested l2 ! ?m \<longleftrightarrow> waiting l1 ?m = 0" using c2 ml unfolding counts_ok_def h by auto
    show ?thesis
      using inv'(2) ml bit_word_less_len [where w = "waitMask l1"] unfolding masks_ok_def h f(7,8) eq by (auto simp: bit_and_iff)
  qed
  moreover have "procs_ok grp l3" using inv'(3) hold_of_cong [OF f(1)] unfolding procs_ok_def f by simp
  moreover have "excl l3" using inv'(4) unfolding excl_def f by simp
  ultimately have "lock_inv grp None l3" by (simp add: lock_inv_def)
  moreover have "procno w \<notin> procno ` set (waitProcs l3)" by (auto simp: f l1_def)
  moreover have "RemoveFromWaitQueue grp me w l = CleanUpLock grp me (procno w) True l3"
    by (simp add: RemoveFromWaitQueue_def l3_def l2_def l1_def ProcWakeup_def Let_def)
  ultimately show ?thesis using CleanUp_ok [of grp l3 "procno w" True me] g by simp
qed

text \<open>After \<^verbatim>\<open>SetupLockInTable\<close>.\<close>

definition asking :: "(nat \<Rightarrow> nat option) \<Rightarrow> nat \<Rightarrow> nat \<Rightarrow> LOCK \<Rightarrow> bool" where
  "asking grp p m l \<longleftrightarrow> counts_ok (Some m) l \<and> masks_ok None l \<and> procs_ok grp l \<and> excl l \<and> stuck grp l \<and> mode_ok m \<and>
     p \<notin> procno ` set (waitProcs l) \<and> p \<in> myProc ` set (procLocks l) \<and> \<not> bit (hold_of p l) m"

lemma new_LOCK_ok: "lock_inv grp None new_LOCK" "stuck grp new_LOCK"
  by (simp_all add: lock_inv_def counts_ok_def masks_ok_def procs_ok_def excl_def stuck_def new_LOCK_def holders_def waiting_def MAX_LOCKMODES_def sum_list_replicate)

lemma add_proclock_inv:
  assumes inv: "lock_inv grp None l" "stuck grp l" and p: "find_proclock p l = None"
    and l': "l' = l\<lparr>procLocks := procLocks l @ [\<lparr>myProc = p, groupLeader = leader grp p, holdMask = 0\<rparr>]\<rparr>"
  shows "lock_inv grp None l'" "stuck grp l'"
proof -
  have inv': "counts_ok None l" "masks_ok None l" "procs_ok grp l" "excl l" using inv by (auto simp: lock_inv_def)
  have h: "holders l' i = holders l i" "waiting l' i = waiting l i" for i by (simp_all add: l' holders_def waiting_def)
  have np: "p \<notin> myProc ` set (procLocks l)" using p by (auto simp: find_proclock_def find_None_iff)
  have ho: "hold_of q l' = hold_of q l" for q
  proof (rule bit_word_eqI)
    have "keys_ok l'" using procs_keys [OF inv'(3)] np by (simp add: l')
    from hold_of_bit [OF this] show "bit (hold_of q l') i = bit (hold_of q l) i" for i
      unfolding hold_of_bit [OF procs_keys [OF inv'(3)]] by (auto simp: l')
  qed
  have "procs_ok grp l'" using inv'(3) np unfolding procs_ok_def ho by (auto simp: l')
  moreover have "counts_ok None l'" using inv'(1) unfolding counts_ok_def h by (simp add: l')
  moreover have "masks_ok None l'" using inv'(2) unfolding masks_ok_def h by (simp add: l')
  moreover have "excl l'" using inv'(4) unfolding excl_def by (auto simp: l')
  ultimately show "lock_inv grp None l'" by (simp add: lock_inv_def)
  show "stuck grp l'" by (rule stuck_cong [OF _ _ inv(2)]) (auto simp: l' blocked_def)
qed

lemma Setup_asking:
  assumes e: "entry_ok grp entry" and m: "mode_ok m" and nw: "\<forall>l. entry = Some l \<longrightarrow> p \<notin> procno ` set (waitProcs l)"
    and run: "SetupLockInTable grp p m entry = Inr l'"
  shows "asking grp p m l'"
proof -
  define l0 where "l0 = (case entry of None \<Rightarrow> new_LOCK | Some l \<Rightarrow> l)"
  define l1 where "l1 = (if find_proclock p l0 = None
    then l0\<lparr>procLocks := procLocks l0 @ [\<lparr>myProc = p, groupLeader = leader grp p, holdMask = 0\<rparr>]\<rparr> else l0)"
  have i0: "lock_inv grp None l0" "stuck grp l0" "p \<notin> procno ` set (waitProcs l0)"
    using e nw new_LOCK_ok by (auto simp: l0_def entry_ok_def new_LOCK_def split: option.splits)
  have i1: "lock_inv grp None l1" "stuck grp l1" "p \<notin> procno ` set (waitProcs l1)"
    using i0 add_proclock_inv [OF i0(1,2)] by (auto simp: l1_def)
  have p1: "p \<in> myProc ` set (procLocks l1)"
    by (auto simp: l1_def find_proclock_def find_None_iff)
  have l': "l' = l1\<lparr>nRequested := nRequested l1 + 1, requested := add_at_mode m 1 (requested l1)\<rparr>" "\<not> bit (hold_of p l') m"
    using run unfolding SetupLockInTable_def l0_def l1_def leader_def Let_def by (auto split: if_splits)
  have ml: "m < 10" using mode_less [OF m] by simp
  have h: "holders l' i = holders l1 i" "waiting l' i = waiting l1 i" "hold_of q l' = hold_of q l1" for i q
    by (simp_all add: l'(1) holders_def waiting_def hold_of_def find_proclock_def)
  have inv': "counts_ok None l1" "masks_ok None l1" "procs_ok grp l1" "excl l1" using i1 by (auto simp: lock_inv_def)
  have "counts_ok (Some m) l'" using inv'(1) ml unfolding counts_ok_def h by (auto simp: l'(1))
  moreover have "masks_ok None l'" using inv'(2) unfolding masks_ok_def h by (simp add: l'(1))
  moreover have "procs_ok grp l'" using inv'(3) unfolding procs_ok_def h by (simp add: l'(1))
  moreover have "excl l'" using inv'(4) unfolding excl_def by (simp add: l'(1))
  moreover have "stuck grp l'" by (rule stuck_cong [OF _ _ i1(2)]) (auto simp: l'(1) blocked_def)
  ultimately show ?thesis using m i1(3) p1 l'(2) by (simp add: asking_def l'(1))
qed

lemma asking_check:
  assumes "asking grp p m l" "grp_ok grp"
  shows "check_for grp me p m l \<longleftrightarrow> \<not> blocked grp l p m"
  using assms check_for_iff [of "Some m" l None grp m p me] by (simp add: asking_def)

lemma masks_weaken: "masks_ok None l \<Longrightarrow> masks_ok pend l"
  by (auto simp: masks_ok_def)

lemma asking_grant:
  assumes a: "asking grp p m l" and g: "grp_ok grp" and c: "check_for grp p p m l"
  shows "lock_inv grp None (GrantLock p m l)"
proof -
  have k: "keys_ok l" using a by (simp add: asking_def procs_ok_def)
  obtain x where x: "x \<in> set (procLocks l)" "myProc x = p" using a by (auto simp: asking_def)
  have "\<not> bit (holdMask x) m" using a hold_of_eq [OF k x(1)] x(2) by (simp add: asking_def)
  moreover have "lock_inv grp (Some m) l" using a masks_weaken by (auto simp: asking_def lock_inv_def)
  ultimately show ?thesis using a x c asking_check [OF a g] by (intro grant_inv [where a = x]) (auto simp: asking_def)
qed

lemma asking_grant_stuck:
  assumes "asking grp p m l"
  shows "stuck grp (GrantLock p m l)"
  by (rule stuck_cong [of _ l]) (use assms blocked_grant in \<open>auto simp: asking_def\<close>)

lemma asking_drop:
  assumes a: "asking grp p m l"
  shows "entry_ok grp (Some ((drop_proclock p l)\<lparr>nRequested := nRequested (drop_proclock p l) - 1, requested := add_at_mode m (-1) (requested (drop_proclock p l))\<rparr>))"
proof -
  let ?l = "l\<lparr>nRequested := nRequested l - 1, requested := add_at_mode m (-1) (requested l)\<rparr>"
  have c: "counts_ok None ?l" using a mode_less [of m] by (intro counts_cancel) (auto simp: asking_def)
  have h: "holders ?l i = holders l i" "waiting ?l i = waiting l i" "hold_of q ?l = hold_of q l" "blocked grp ?l q i = blocked grp l q i" for i q
    by (simp_all add: holders_def waiting_def hold_of_def find_proclock_def blocked_def)
  have i: "lock_inv grp None ?l"
    using c a by (auto simp: lock_inv_def asking_def masks_ok_def procs_ok_def excl_def h)
  have d: "(drop_proclock p l)\<lparr>nRequested := nRequested (drop_proclock p l) - 1, requested := add_at_mode m (-1) (requested (drop_proclock p l))\<rparr> = drop_proclock p ?l"
    by (simp add: drop_proclock_def h)
  have k: "keys_ok ?l" using i by (simp add: lock_inv_def procs_ok_def)
  have "stuck grp ?l" by (rule stuck_cong [of _ l]) (use a h in \<open>auto simp: asking_def\<close>)
  then have "stuck grp (drop_proclock p ?l)" by (rule stuck_cong [rotated 2]) (simp_all add: blocked_drop [OF k])
  moreover have "lock_inv grp None (drop_proclock p ?l)" using a by (intro drop_inv [OF i]) (simp add: asking_def)
  ultimately show ?thesis unfolding d by (simp add: entry_ok_def)
qed

section \<open>Going to sleep\<close>

lemma set_insert_at [simp]: "set (insert_at i x xs) = insert x (set xs)"
  unfolding insert_at_def by (metis append_take_drop_id set_append list.set(2) Un_insert_right)

lemma mset_insert_at: "mset (insert_at i x xs) = add_mset x (mset xs)"
  unfolding insert_at_def by (metis append_take_drop_id mset_append mset.simps(2) union_mset_add_mset_right)

lemma length_filter_insert_at: "length (filter P (insert_at i x xs)) = length (filter P xs) + (if P x then 1 else 0)"
proof -
  have "mset (filter P (insert_at i x xs)) = mset (filter P (x # xs))" by (simp add: mset_insert_at)
  from mset_eq_length [OF this] show ?thesis by simp
qed

lemma distinct_insert_at: "distinct (map f (insert_at i x xs)) \<longleftrightarrow> f x \<notin> f ` set xs \<and> distinct (map f xs)"
proof -
  have "mset (map f (insert_at i x xs)) = mset (map f (x # xs))" by (simp add: mset_insert_at)
  from mset_eq_imp_distinct_iff [OF this] show ?thesis by simp
qed

definition queued :: "nat \<Rightarrow> waiter \<Rightarrow> LOCK \<Rightarrow> LOCK" where
  "queued i w l = l\<lparr>waitProcs := insert_at i w (waitProcs l), waitMask := waitMask l OR LOCKBIT_ON (waitLockMode w)\<rparr>"

lemma queued_fields [simp]: "waitProcs (queued i w l) = insert_at i w (waitProcs l)" "procLocks (queued i w l) = procLocks l"
  "granted (queued i w l) = granted l" "requested (queued i w l) = requested l" "nGranted (queued i w l) = nGranted l"
  "nRequested (queued i w l) = nRequested l" "grantMask (queued i w l) = grantMask l" "waitMask (queued i w l) = waitMask l OR LOCKBIT_ON (waitLockMode w)"
  by (simp_all add: queued_def)

lemma queued_inv:
  assumes a: "asking grp (procno w) (waitLockMode w) l"
  shows "lock_inv grp None (queued i w l)"
proof -
  let ?l = "queued i w l"
  have inv: "counts_ok (Some (waitLockMode w)) l" "masks_ok None l" "procs_ok grp l" "excl l" using a by (auto simp: asking_def)
  have h: "holders ?l j = holders l j" for j by (simp add: holders_def)
  have wt: "waiting ?l j = waiting l j + (if waitLockMode w = j then 1 else 0)" for j by (simp add: waiting_def length_filter_insert_at)
  have ho: "hold_of q ?l = hold_of q l" for q by (rule hold_of_cong) simp
  have m: "mode_ok (waitLockMode w)" "waitLockMode w < 32" using a mode_less by (auto simp: asking_def)
  have "counts_ok None ?l" using inv(1) unfolding counts_ok_def h wt by auto
  moreover have "masks_ok None ?l" using inv(2) m(2) unfolding masks_ok_def h wt by (auto simp: bit_or_iff)
  moreover have "procs_ok grp ?l" using inv(3) a m(1) unfolding procs_ok_def ho by (auto simp: distinct_insert_at asking_def)
  moreover have "excl ?l" using inv(4) unfolding excl_def by simp
  ultimately show ?thesis by (simp add: lock_inv_def)
qed

text \<open>What the search through the queue has found when it stops.\<close>

lemma sleep_scan_Grant: "sleep_scan grp p m h l ahead i ws = Sleep_Grant \<Longrightarrow> check_for grp p p m l"
  by (induction ws arbitrary: ahead i) (auto split: if_splits)

lemma sleep_scan_Before:
  assumes "sleep_scan grp p m h l ahead i ws = Sleep_Before k" "\<And>j. bit ahead j \<Longrightarrow> j \<in> A"
  shows "i \<le> k \<and> k \<le> i + length ws \<and> (k = i + length ws \<or> (\<exists>j \<in> A \<union> waitLockMode ` set (take (k - i) ws). conflicts m j) \<or> \<not> check_for grp p p m l)"
  using assms
proof (induction ws arbitrary: ahead i A)
  case (Cons w ws)
  define skip where "skip \<longleftrightarrow> grp p \<noteq> None \<and> grp p = lockGroupLeader w"
  define stop where "stop \<longleftrightarrow> conflictTab (waitLockMode w) AND h \<noteq> 0"
  define ahead' where "ahead' = (if skip then ahead else ahead OR LOCKBIT_ON (waitLockMode w))"
  note step = Cons.prems(1) [unfolded sleep_scan.simps, folded skip_def stop_def]
  show ?case
  proof (cases "\<not> skip \<and> stop")
    case True
    then have "k = i \<and> (conflictTab m AND ahead \<noteq> 0 \<or> \<not> check_for grp p p m l)" using step by (simp split: if_splits)
    then show ?thesis using mask_meets [of "conflictTab m" ahead] Cons.prems(2) unfolding conflicts_def by fastforce
  next
    case False
    then have "sleep_scan grp p m h l ahead' (Suc i) ws = Sleep_Before k" using step by (auto simp: ahead'_def split: if_splits)
    moreover have "bit ahead' j \<Longrightarrow> j \<in> insert (waitLockMode w) A" for j using Cons.prems(2) by (auto simp: bit_or_iff ahead'_def split: if_splits)
    ultimately have ih: "Suc i \<le> k \<and> k \<le> Suc i + length ws \<and> (k = Suc i + length ws \<or>
      (\<exists>j \<in> insert (waitLockMode w) A \<union> waitLockMode ` set (take (k - Suc i) ws). conflicts m j) \<or> \<not> check_for grp p p m l)"
      by (rule Cons.IH)
    then have "take (k - i) (w # ws) = w # take (k - Suc i) ws" by (simp add: take_Cons')
    then show ?thesis using ih by simp
  qed
qed simp

lemma insert_stuck:
  assumes st: "stuck_q B A (take i ws @ drop i ws)" and w: "(\<exists>j \<in> A \<union> waitLockMode ` set (take i ws). conflicts (waitLockMode w) j) \<or> B w"
  shows "stuck_q B A (insert_at i w ws)"
proof -
  have "stuck_q B A (take i ws)" "stuck_q B (A \<union> waitLockMode ` set (take i ws)) (drop i ws)" using st by (simp_all only: stuck_q_append)
  moreover from this(2) have "stuck_q B (insert (waitLockMode w) (A \<union> waitLockMode ` set (take i ws))) (drop i ws)" by (rule stuck_q_mono) auto
  ultimately show ?thesis using w unfolding insert_at_def by (simp add: stuck_q_append)
qed

lemma queued_stuck:
  assumes a: "asking grp (procno w) (waitLockMode w) l"
    and w: "(\<exists>j \<in> waitLockMode ` set (take i (waitProcs l)). conflicts (waitLockMode w) j) \<or> blocked grp l (procno w) (waitLockMode w)"
  shows "stuck grp (queued i w l)"
proof -
  have "blocked grp (queued i w l) q n = blocked grp l q n" for q n by (rule blocked_cong) simp
  moreover have "stuck_q (\<lambda>v. blocked grp l (procno v) (waitLockMode v)) {} (insert_at i w (waitProcs l))"
    using a w by (intro insert_stuck) (simp_all add: asking_def stuck_def)
  ultimately show ?thesis by (simp add: stuck_def)
qed

lemma ProcSleep_ok:
  assumes a: "asking grp p m l" and g: "grp_ok grp" and found: "conflictTab m AND waitMask l \<noteq> 0 \<or> \<not> check_for grp p p m l"
    and run: "ProcSleep grp p m l = (st, entry)"
  shows "entry_ok grp entry"
proof -
  define w where "w = \<lparr>procno = p, lockGroupLeader = grp p, heldLocks = hold_of p l, waitLockMode = m\<rparr>"
  have w: "procno w = p" "waitLockMode w = m" by (simp_all add: w_def)
  define h where "h = (case grp p of None \<Rightarrow> hold_of p l
    | Some ld \<Rightarrow> fold (\<lambda>other h. if groupLeader other = ld then h OR holdMask other else h) (procLocks l) (hold_of p l))"
  define place where "place = (if h \<noteq> 0 then sleep_scan grp p m h l 0 0 (waitProcs l) else Sleep_Before (length (waitProcs l)))"
  have "ProcSleep grp p m l = (case place of
           Sleep_Grant \<Rightarrow> (STATUS_OK, Some (GrantLock p m l))
         | Sleep_Deadlock i \<Rightarrow> (STATUS_ERROR, RemoveFromWaitQueue grp p w (queued i w l))
         | Sleep_Before i \<Rightarrow> (STATUS_WAITING, Some (queued i w l)))"
    unfolding ProcSleep_def Let_def queued_def w_def place_def h_def waiter.simps by (rule refl)
  then have run': "(st, entry) = \<dots>" using run by simp
  have inv: "lock_inv grp None (queued i w l)" for i using a by (intro queued_inv) (simp add: w)
  show ?thesis
  proof (cases place)
    case Sleep_Grant
    then have "check_for grp p p m l" using sleep_scan_Grant [of grp p m h l 0 0 "waitProcs l"] by (simp add: place_def split: if_splits)
    then show ?thesis using run' Sleep_Grant asking_grant [OF a g] asking_grant_stuck [OF a] by (simp add: entry_ok_def)
  next
    case (Sleep_Deadlock i)
    have "w \<in> set (waitProcs (queued i w l))" by simp
    then show ?thesis using run' Sleep_Deadlock RemoveFromWaitQueue_ok [OF inv _ g] by simp
  next
    case (Sleep_Before i)
    let ?ahead = "\<lambda>ws. \<exists>j \<in> waitLockMode ` set ws. conflicts m j"
    have full: "?ahead (waitProcs l) \<or> \<not> check_for grp p p m l"
    proof -
      have "?ahead (waitProcs l)" if "conflictTab m AND waitMask l \<noteq> 0"
      proof -
        from that obtain j where j: "conflicts m j" "bit (waitMask l) j" unfolding mask_meets conflicts_def by blast
        then have "0 < waiting l j" using a by (auto simp: asking_def masks_ok_def)
        then show ?thesis using j by (auto simp: waiting_def filter_empty_conv)
      qed
      then show ?thesis using found by blast
    qed
    have "?ahead (take i (waitProcs l)) \<or> \<not> check_for grp p p m l"
    proof (cases "h = 0")
      case True
      then show ?thesis using Sleep_Before full by (simp add: place_def)
    next
      case False
      then have "sleep_scan grp p m h l 0 0 (waitProcs l) = Sleep_Before i" using Sleep_Before by (simp add: place_def)
      from sleep_scan_Before [OF this, of "{}"] show ?thesis using full by auto
    qed
    then have "stuck grp (queued i w l)" using a asking_check [OF a g] by (intro queued_stuck) (auto simp: w)
    then show ?thesis using run' Sleep_Before inv by (simp add: entry_ok_def)
  qed
qed

lemma LockAcquire_ok:
  assumes e: "entry_ok grp entry" and m: "mode_ok m" and nw: "\<forall>l. entry = Some l \<longrightarrow> p \<notin> procno ` set (waitProcs l)" and g: "grp_ok grp"
    and run: "LockAcquire grp p m dontWait entry = Inr (r, entry')"
  shows "entry_ok grp entry'"
proof -
  obtain l where l: "SetupLockInTable grp p m entry = Inr l" using run by (cases "SetupLockInTable grp p m entry") (auto simp: LockAcquire_def)
  note a = Setup_asking [OF e m nw l]
  consider (ok) "check_for grp p p m l" "entry' = Some (GrantLock p m l)"
    | (no) "entry' = Some ((drop_proclock p l)\<lparr>nRequested := nRequested (drop_proclock p l) - 1, requested := add_at_mode m (-1) (requested (drop_proclock p l))\<rparr>)"
    | (sleep) st where "conflictTab m AND waitMask l \<noteq> 0 \<or> \<not> check_for grp p p m l" "ProcSleep grp p m l = (st, entry')"
    using run by (auto simp: LockAcquire_def l drop_proclock_def Let_def split: if_splits prod.splits)
  then show ?thesis
  proof cases
    case ok
    then show ?thesis using asking_grant [OF a g] asking_grant_stuck [OF a] by (simp add: entry_ok_def)
  next
    case no
    then show ?thesis using asking_drop [OF a] by simp
  next
    case sleep
    then show ?thesis using ProcSleep_ok [OF a g] by blast
  qed
qed

lemma reorder_inv:
  assumes inv: "lock_inv grp None l" and q: "mset procs = mset (waitProcs l)"
  shows "lock_inv grp None (l\<lparr>waitProcs := procs\<rparr>)"
proof -
  let ?l = "l\<lparr>waitProcs := procs\<rparr>"
  have h: "holders ?l j = holders l j" "hold_of p ?l = hold_of p l" for j p by (simp_all add: holders_def hold_of_def find_proclock_def)
  have "mset (filter P procs) = mset (filter P (waitProcs l))" for P using q by simp
  then have wt: "waiting ?l j = waiting l j" for j unfolding waiting_def by (simp add: mset_eq_length)
  have d: "distinct (map procno procs) = distinct (map procno (waitProcs l))" using q by (intro mset_eq_imp_distinct_iff) simp
  have s: "set procs = set (waitProcs l)" using mset_eq_setD [OF q] .
  show ?thesis
    using inv unfolding lock_inv_def counts_ok_def masks_ok_def procs_ok_def excl_def h wt by (simp add: d s)
qed

theorem lreach_ok: "lreach grp entry \<Longrightarrow> grp_ok grp \<Longrightarrow> entry_ok grp entry"
proof (induction rule: lreach.induct)
  case (lreach_acquire entry lockmode p dontWait r entry')
  then show ?case using LockAcquire_ok [of grp entry lockmode p dontWait r entry'] by blast
next
  case (lreach_release lock p lockmode b entry')
  then show ?case using LockRelease_ok [of grp lock p lockmode b entry'] by (simp add: entry_ok_def)
next
  case (lreach_release_all lock p allLocks releaseMask entry')
  then show ?case using LockReleaseAll_ok [of grp lock p allLocks releaseMask entry'] by (simp add: entry_ok_def)
next
  case (lreach_give_up lock w me entry')
  then show ?case using RemoveFromWaitQueue_ok [of grp lock w me] by (simp add: entry_ok_def)
next
  case (lreach_order lock procs me)
  then have "lock_inv grp None (lock\<lparr>waitProcs := procs\<rparr>)" using reorder_inv by (simp add: entry_ok_def)
  then show ?case using ProcLockWakeup_inv lreach_order.prems by (simp add: entry_ok_def install_order_def)
qed (simp add: entry_ok_def)

section \<open>What a reachable object looks like\<close>

text \<open>The pairs of process and mode that are granted, and the waiters.\<close>

definition holds :: "LOCK option \<Rightarrow> (nat \<times> nat) set" where
  "holds entry = (case entry of None \<Rightarrow> {} | Some l \<Rightarrow> {(q, i). bit (hold_of q l) i})"

definition waiters :: "LOCK option \<Rightarrow> waiter list" where
  "waiters entry = (case entry of None \<Rightarrow> [] | Some l \<Rightarrow> waitProcs l)"

lemma conflict_iff: "mode_ok j \<Longrightarrow> DoLockModesConflict i j \<longleftrightarrow> conflicts i j"
  using mode_less [of j] unfolding DoLockModesConflict_def conflicts_def mask_meets by auto

lemma lreach_inv: "lreach grp (Some l) \<Longrightarrow> grp_ok grp \<Longrightarrow> lock_inv grp None l \<and> stuck grp l"
  using lreach_ok [of grp "Some l"] by (simp add: entry_ok_def)

lemma in_holds:
  assumes "keys_ok l"
  shows "(q, i) \<in> holds (Some l) \<longleftrightarrow> (\<exists>a \<in> set (procLocks l). myProc a = q \<and> bit (holdMask a) i)"
  using hold_of_bit [OF assms] by (simp add: holds_def)

lemma stuck_q_nth:
  assumes "stuck_q B A ws" "k < length ws"
  shows "B (ws ! k) \<or> (\<exists>j \<in> A \<union> waitLockMode ` set (take k ws). conflicts (waitLockMode (ws ! k)) j)"
proof -
  have "ws = take k ws @ ws ! k # drop (Suc k) ws" using id_take_nth_drop [OF assms(2)] .
  then have "stuck_q B A (take k ws @ ws ! k # drop (Suc k) ws)" using assms(1) by metis
  then show ?thesis by (auto simp: stuck_q_append)
qed

lemma holds_blocked:
  assumes "procs_ok grp l"
  shows "blocked grp l p m \<longleftrightarrow> (\<exists>q j. (q, j) \<in> holds (Some l) \<and> leader grp q \<noteq> leader grp p \<and> DoLockModesConflict m j)"
proof -
  have b: "groupLeader a = leader grp (myProc a)" "bit (holdMask a) j \<Longrightarrow> DoLockModesConflict m j = conflicts m j" if "a \<in> set (procLocks l)" for a j
    using assms that conflict_iff [of j m] unfolding procs_ok_def by blast+
  show ?thesis unfolding blocked_def in_holds [OF procs_keys [OF assms]] using b by metis
qed

text \<open>Requests are counted exactly while somebody holds or waits.\<close>

definition in_use :: "LOCK \<Rightarrow> bool" where
  "in_use l \<longleftrightarrow> waitProcs l \<noteq> [] \<or> (\<exists>a \<in> set (procLocks l). holdMask a \<noteq> 0)"

lemma requests_nonneg:
  assumes "counts_ok None l"
  shows "0 \<le> nRequested l"
proof -
  have "0 \<le> x" if "x \<in> set (requested l)" for x using assms that by (auto simp: counts_ok_def in_set_conv_nth)
  then show ?thesis using assms by (simp add: counts_ok_def sum_list_nonneg)
qed

lemma in_use_requests:
  assumes inv: "lock_inv grp None l" and u: "in_use l"
  shows "0 < nRequested l"
proof -
  have c: "counts_ok None l" "procs_ok grp l" using inv by (simp_all add: lock_inv_def)
  have "nRequested l \<noteq> 0" using no_requests [OF c] u by (auto simp: in_use_def)
  then show ?thesis using requests_nonneg [OF c(1)] by simp
qed

lemma wakeup_loop_nRequested: "nRequested (wakeup_loop grp me ahead ws l) = nRequested l"
  by (induction ws arbitrary: ahead l) auto

lemma CleanUp_nRequested: "CleanUpLock grp me p wake l = Some l' \<Longrightarrow> nRequested l' = nRequested l \<and> nRequested l \<noteq> 0"
  by (auto simp: CleanUp_eq ProcLockWakeup_def wakeup_loop_nRequested split: if_splits)

lemma bit_nonzero: "bit (x :: LOCKMASK) i \<Longrightarrow> x \<noteq> 0"
  by auto

lemma grant_in_use:
  assumes "p \<in> myProc ` set (procLocks l)" "m < 32"
  shows "in_use (GrantLock p m l)"
proof -
  obtain a where "a \<in> set (procLocks l)" "myProc a = p" using assms(1) by auto
  then have "a\<lparr>holdMask := holdMask a OR LOCKBIT_ON m\<rparr> \<in> set (procLocks (GrantLock p m l))" by (auto simp: in_upd_hold)
  moreover have "holdMask a OR LOCKBIT_ON m \<noteq> 0" using assms(2) by (intro bit_nonzero [of _ m]) (simp add: bit_or_iff)
  ultimately show ?thesis unfolding in_use_def by force
qed

lemma drop_in_use: "keys_ok l \<Longrightarrow> in_use (drop_proclock p l) = in_use l"
  using drop_keeps [of l p] unfolding in_use_def by (metis drop_fields(1) subsetD)

lemma asking_found:
  assumes a: "asking grp p m l" and g: "grp_ok grp" and f: "conflictTab m AND waitMask l \<noteq> 0 \<or> \<not> check_for grp p p m l"
  shows "in_use l"
proof (cases "conflictTab m AND waitMask l = 0")
  case True
  then have "blocked grp l p m" using f asking_check [OF a g] by blast
  then show ?thesis unfolding blocked_def in_use_def using bit_nonzero by blast
next
  case False
  then obtain j where "bit (waitMask l) j" unfolding mask_meets by blast
  then show ?thesis using a by (auto simp: asking_def masks_ok_def waiting_def in_use_def)
qed

lemma RemoveFromWaitQueue_nRequested:
  assumes "RemoveFromWaitQueue grp me w l = Some l'"
  shows "nRequested l' \<noteq> 0"
  using CleanUp_nRequested [OF assms [unfolded RemoveFromWaitQueue_def Let_def]] by simp

lemma ProcSleep_requests:
  assumes a: "asking grp p m l" and run: "ProcSleep grp p m l = (st, Some l')"
  shows "nRequested l' \<noteq> 0"
proof -
  have "counts_ok None (l\<lparr>nRequested := nRequested l - 1, requested := add_at_mode m (-1) (requested l)\<rparr>)"
    using a mode_less [of m] by (intro counts_cancel) (auto simp: asking_def)
  from requests_nonneg [OF this] have "1 \<le> nRequested l" by simp
  then show ?thesis using run RemoveFromWaitQueue_nRequested
    by (auto simp: ProcSleep_def Let_def split: sleep_place.splits)
qed
lemma LockAcquire_requests:
  assumes e: "entry_ok grp entry" and m: "mode_ok m" and nw: "\<forall>l. entry = Some l \<longrightarrow> p \<notin> procno ` set (waitProcs l)" and g: "grp_ok grp"
    and run: "LockAcquire grp p m dontWait entry = Inr (r, Some l')"
  shows "nRequested l' \<noteq> 0"
proof -
  obtain l where l: "SetupLockInTable grp p m entry = Inr l" using run by (cases "SetupLockInTable grp p m entry") (auto simp: LockAcquire_def)
  note a = Setup_asking [OF e m nw l]
  have k: "keys_ok l" using a by (simp add: asking_def procs_ok_def)
  consider (ok) "l' = GrantLock p m l"
    | (no) "l' = (drop_proclock p l)\<lparr>nRequested := nRequested (drop_proclock p l) - 1, requested := add_at_mode m (-1) (requested (drop_proclock p l))\<rparr>"
        "conflictTab m AND waitMask l \<noteq> 0 \<or> \<not> check_for grp p p m l"
    | (sleep) st where "ProcSleep grp p m l = (st, Some l')"
    using run by (auto simp: LockAcquire_def l drop_proclock_def Let_def split: if_splits prod.splits)
  then show ?thesis
  proof cases
    case ok
    then have "lock_inv grp None l'" using LockAcquire_ok [OF e m nw g run] by (simp add: entry_ok_def)
    moreover have "in_use l'" using ok a mode_less [OF m] by (auto simp: asking_def intro: grant_in_use)
    ultimately show ?thesis using in_use_requests by fastforce
  next
    case no
    have "lock_inv grp None l'" using asking_drop [OF a] no(1) by (simp add: entry_ok_def)
    moreover have "in_use l'" using drop_in_use [OF k, of p] asking_found [OF a g no(2)] by (simp add: no(1) in_use_def)
    ultimately show ?thesis using in_use_requests by fastforce
  next
    case sleep
    then show ?thesis by (rule ProcSleep_requests [OF a])
  qed
qed

lemma lreach_requests: "lreach grp entry \<Longrightarrow> grp_ok grp \<Longrightarrow> entry = Some l \<Longrightarrow> nRequested l \<noteq> 0"
proof (induction arbitrary: l rule: lreach.induct)
  case (lreach_acquire entry lockmode p dontWait r entry')
  then show ?case using LockAcquire_requests [OF lreach_ok [OF lreach_acquire(1)]] by blast
next
  case (lreach_release lock p lockmode b entry')
  then show ?case using CleanUp_nRequested by (auto simp: LockRelease_def split: if_splits prod.splits)
next
  case (lreach_release_all lock p allLocks releaseMask entry')
  then show ?case using CleanUp_nRequested by (auto simp: LockReleaseAll_def Let_def split: if_splits prod.splits option.splits)
next
  case (lreach_give_up lock w me entry')
  then show ?case using RemoveFromWaitQueue_nRequested by blast
next
  case (lreach_order lock procs me)
  then show ?case by (auto simp: install_order_def ProcLockWakeup_def wakeup_loop_nRequested)
qed simp

section \<open>Requests that do not wait\<close>

lemma hold_of_add:
  assumes "find_proclock p l = None"
  shows "hold_of q (l\<lparr>procLocks := procLocks l @ [\<lparr>myProc = p, groupLeader = x, holdMask = 0\<rparr>]\<rparr>) = hold_of q l"
proof -
  have "find P (xs @ ys) = (case find P xs of None \<Rightarrow> find P ys | Some a \<Rightarrow> Some a)" for P and xs ys :: "PROCLOCK list"
    by (induction xs) auto
  then show ?thesis by (simp add: hold_of_def find_proclock_def split: option.splits)
qed

lemma Setup_result:
  "(p, m) \<in> holds entry \<and> SetupLockInTable grp p m entry = Inl (Ereport ERROR ERRCODE_LOCK_NOT_AVAILABLE) \<or>
   (p, m) \<notin> holds entry \<and> (\<exists>l. SetupLockInTable grp p m entry = Inr l \<and> holds (Some l) = holds entry \<and> waitProcs l = waiters entry)"
proof -
  define l0 where "l0 = (case entry of None \<Rightarrow> new_LOCK | Some l \<Rightarrow> l)"
  have e: "holds entry = holds (Some l0)" "waiters entry = waitProcs l0"
    by (auto simp: l0_def holds_def waiters_def new_LOCK_def hold_of_def find_proclock_def split: option.splits)
  define l1 where "l1 = (if find_proclock p l0 = None
    then l0\<lparr>procLocks := procLocks l0 @ [\<lparr>myProc = p, groupLeader = (case grp p of Some l \<Rightarrow> l | None \<Rightarrow> p), holdMask = 0\<rparr>]\<rparr> else l0)"
  have h1: "hold_of q l1 = hold_of q l0" "waitProcs l1 = waitProcs l0" for q by (simp_all add: l1_def hold_of_add)
  define l2 where "l2 = l1\<lparr>nRequested := nRequested l1 + 1, requested := add_at_mode m 1 (requested l1)\<rparr>"
  have h2: "hold_of q l2 = hold_of q l0" "waitProcs l2 = waitProcs l0" for q using h1 hold_of_cong [of l2 l1] by (simp_all add: l2_def)
  have "SetupLockInTable grp p m entry = (if bit (hold_of p l2) m then Inl (Ereport ERROR ERRCODE_LOCK_NOT_AVAILABLE) else Inr l2)"
    unfolding SetupLockInTable_def Let_def l2_def l1_def l0_def ..
  then show ?thesis unfolding e by (simp add: h2 holds_def)
qed

lemma drop_hold_of: "hold_of q (drop_proclock p l) = hold_of q l"
proof -
  have "find (\<lambda>pl. myProc pl = q) (filter (\<lambda>pl. myProc pl \<noteq> p) xs) = (if q = p then None else find (\<lambda>pl. myProc pl = q) xs)" for xs
    by (induction xs) auto
  then have "find_proclock q (drop_proclock p l) = (if q = p \<and> hold_of p l = 0 then None else find_proclock q l)"
    by (auto simp: drop_proclock_def find_proclock_def)
  then show ?thesis by (cases "q = p \<and> hold_of p l = 0") (auto simp: hold_of_def)
qed

lemma bex_upd_hold: "(\<exists>b \<in> set (upd_hold p f xs). P b) \<longleftrightarrow> (\<exists>a \<in> set xs. P (if myProc a = p then a\<lparr>holdMask := f (holdMask a)\<rparr> else a))"
  by (simp only: upd_hold_def set_map bex_simps)

lemma grant_holds:
  assumes "keys_ok l" "p \<in> myProc ` set (procLocks l)" "m < 32"
  shows "holds (Some (GrantLock p m l)) = insert (p, m) (holds (Some l))"
proof -
  have k: "keys_ok (GrantLock p m l)" using assms(1) by simp
  have "(q, i) \<in> holds (Some (GrantLock p m l)) \<longleftrightarrow> (q, i) \<in> insert (p, m) (holds (Some l))" for q i
  proof -
    have "(q, i) \<in> holds (Some (GrantLock p m l)) \<longleftrightarrow>
      (\<exists>a \<in> set (procLocks l). myProc a = q \<and> (bit (holdMask a) i \<or> myProc a = p \<and> i = m))"
      unfolding in_holds [OF k] grant_fields bex_upd_hold using assms(3) by (intro bex_cong) (auto simp: bit_or_iff)
    then show ?thesis using in_holds [OF assms(1), of q i] assms(2) by auto
  qed
  then show ?thesis by auto
qed

lemma ahead_iff:
  assumes a: "asking grp p m l"
  shows "conflictTab m AND waitMask l \<noteq> 0 \<longleftrightarrow> (\<exists>w \<in> set (waitProcs l). DoLockModesConflict m (waitLockMode w))"
proof -
  have "bit (waitMask l) j \<longleftrightarrow> (\<exists>w \<in> set (waitProcs l). waitLockMode w = j)" for j
    using a by (auto simp: asking_def masks_ok_def waiting_def filter_empty_conv)
  moreover have "DoLockModesConflict m (waitLockMode w) \<longleftrightarrow> conflicts m (waitLockMode w)" if w: "w \<in> set (waitProcs l)" for w
  proof (rule conflict_iff)
    show "mode_ok (waitLockMode w)" using a w unfolding asking_def procs_ok_def by blast
  qed
  ultimately show ?thesis unfolding mask_meets conflicts_def by auto
qed

section \<open>Theorems\<close>

text \<open>
  C2. In every reachable state of a lock object, two processes of different lock groups never hold conflicting modes: the modes granted to
  them pass \<^verbatim>\<open>DoLockModesConflict\<close>. The object may have been reached by any interleaving of requests, releases, waiters that give up and
  reorderings of the wait queue by the deadlock detector.
\<close>

theorem conflicting_locks_exclude:
  assumes "lreach grp (Some lock)" "grp_ok grp" "(p, i) \<in> holds (Some lock)" "(q, j) \<in> holds (Some lock)" "leader grp p \<noteq> leader grp q"
  shows "\<not> DoLockModesConflict i j"
proof -
  have ok: "procs_ok grp lock" "excl lock" using lreach_inv [OF assms(1,2)] by (auto simp: lock_inv_def)
  obtain a b where a: "a \<in> set (procLocks lock)" "myProc a = p" "bit (holdMask a) i" and b: "b \<in> set (procLocks lock)" "myProc b = q" "bit (holdMask b) j"
    using assms(3,4) in_holds [OF procs_keys [OF ok(1)]] by blast
  have "groupLeader a = leader grp p" "groupLeader b = leader grp q" "mode_ok j" using ok(1) a b unfolding procs_ok_def by blast+
  moreover from this have "\<not> conflicts i j" using ok(2) a b assms(5) unfolding excl_def by metis
  ultimately show ?thesis using conflict_iff by blast
qed

text \<open>
  C3. No wakeup is lost: in every reachable state a process in the wait queue conflicts with a mode that a process of another lock group
  holds or with the request of a process ahead of it in the queue. So the first waiter always waits for a holder, and when nobody holds the
  lock nobody waits for it.
\<close>

theorem no_lost_wakeup:
  assumes "lreach grp (Some lock)" "grp_ok grp" "k < length (waitProcs lock)"
  shows "((\<exists>q j. (q, j) \<in> holds (Some lock) \<and> leader grp q \<noteq> leader grp (procno (waitProcs lock ! k)) \<and>
           DoLockModesConflict (waitLockMode (waitProcs lock ! k)) j) \<or>
         (\<exists>i < k. DoLockModesConflict (waitLockMode (waitProcs lock ! k)) (waitLockMode (waitProcs lock ! i)))) \<and>
    holds (Some lock) \<noteq> {}"
proof -
  let ?ws = "waitProcs lock"
  have ok: "procs_ok grp lock" and st: "stuck grp lock" using lreach_inv [OF assms(1,2)] by (auto simp: lock_inv_def)
  have one: "blocked grp lock (procno (?ws ! n)) (waitLockMode (?ws ! n)) \<or> (\<exists>j \<in> waitLockMode ` set (take n ?ws). conflicts (waitLockMode (?ws ! n)) j)"
    if "n < length ?ws" for n using stuck_q_nth [OF st [unfolded stuck_def] that] by simp
  have ahead: "\<exists>i < n. DoLockModesConflict (waitLockMode (?ws ! n)) (waitLockMode (?ws ! i))"
    if n: "n < length ?ws" and j: "j \<in> waitLockMode ` set (take n ?ws)" "conflicts (waitLockMode (?ws ! n)) j" for n j
  proof -
    obtain i where i: "i < n" "j = waitLockMode (?ws ! i)" using j(1) n by (auto simp: in_set_conv_nth)
    have "mode_ok (waitLockMode (?ws ! i))" using ok i(1) n nth_mem [of i ?ws] unfolding procs_ok_def by auto
    then show ?thesis using conflict_iff i j(2) by blast
  qed
  from one [OF assms(3)] have "(\<exists>q j. (q, j) \<in> holds (Some lock) \<and> leader grp q \<noteq> leader grp (procno (?ws ! k)) \<and>
      DoLockModesConflict (waitLockMode (?ws ! k)) j) \<or> (\<exists>i < k. DoLockModesConflict (waitLockMode (?ws ! k)) (waitLockMode (?ws ! i)))"
    using ahead [OF assms(3)] holds_blocked [OF ok] by blast
  moreover have "0 < length ?ws" using assms(3) by linarith
  from one [OF this] have "holds (Some lock) \<noteq> {}" using holds_blocked [OF ok] by fastforce
  ultimately show ?thesis by blast
qed

text \<open>
  C16. The counters and masks of a reachable lock object are exact. For every mode the granted count is the number of processes that hold
  it and the requested count adds the waiters for it; the totals are the sums; a bit of the grant mask is set exactly for a mode somebody
  holds, and of the wait mask exactly for a mode somebody waits for. The object has at least one request, so it is never left behind unused:
  somebody holds it or waits for it.
\<close>

theorem lock_counters_exact:
  assumes "lreach grp (Some lock)" "grp_ok grp" "i < MAX_LOCKMODES"
  shows "granted lock ! i = int (holders lock i) \<and> requested lock ! i = int (holders lock i) + int (waiting lock i) \<and>
    nGranted lock = sum_list (granted lock) \<and> nRequested lock = sum_list (requested lock) \<and> 0 < nRequested lock \<and>
    (bit (grantMask lock) i \<longleftrightarrow> 0 < holders lock i) \<and> (bit (waitMask lock) i \<longleftrightarrow> 0 < waiting lock i)"
proof (intro conjI)
  have inv: "counts_ok None lock" "masks_ok None lock" using lreach_inv [OF assms(1,2)] by (auto simp: lock_inv_def)
  show "granted lock ! i = int (holders lock i)" "requested lock ! i = int (holders lock i) + int (waiting lock i)"
    "nGranted lock = sum_list (granted lock)" "nRequested lock = sum_list (requested lock)"
    using inv(1) assms(3) by (auto simp: counts_ok_def MAX_LOCKMODES_def)
  show "bit (grantMask lock) i \<longleftrightarrow> 0 < holders lock i" "bit (waitMask lock) i \<longleftrightarrow> 0 < waiting lock i"
    using inv(2) by (auto simp: masks_ok_def)
  show "0 < nRequested lock" using requests_nonneg [OF inv(1)] lreach_requests [OF assms(1,2)] by force
qed

text \<open>
  A request that must not wait, on a reachable object by a process that is not in its queue: asking again for a mode the process holds
  is an error; the request is turned down exactly when it conflicts with a mode that a process of another lock group holds or with the request
  of a waiter, and then nothing is held or waited for that was not before; otherwise the mode is granted, and nothing else changes.
\<close>

theorem conditional_acquire:
  assumes "lreach grp entry" "grp_ok grp" "1 \<le> m" "m \<le> AccessExclusiveLock" "p \<notin> procno ` set (waiters entry)"
  shows "if (p, m) \<in> holds entry then LockAcquire grp p m True entry = Inl (Ereport ERROR ERRCODE_LOCK_NOT_AVAILABLE)
    else \<exists>r entry'. LockAcquire grp p m True entry = Inr (r, entry') \<and> waiters entry' = waiters entry \<and>
      (if (\<exists>q j. (q, j) \<in> holds entry \<and> leader grp q \<noteq> leader grp p \<and> DoLockModesConflict m j) \<or>
          (\<exists>w \<in> set (waiters entry). DoLockModesConflict m (waitLockMode w))
       then r = LOCKACQUIRE_NOT_AVAIL \<and> holds entry' = holds entry
       else r = LOCKACQUIRE_OK \<and> holds entry' = insert (p, m) (holds entry))"
proof (cases "(p, m) \<in> holds entry")
  case True
  then show ?thesis using Setup_result [of p m entry grp] by (auto simp: LockAcquire_def)
next
  case False
  then obtain l where l: "SetupLockInTable grp p m entry = Inr l" "holds (Some l) = holds entry" "waitProcs l = waiters entry"
    using Setup_result [of p m entry grp] by blast
  have a: "asking grp p m l"
    using assms(3-5) by (intro Setup_asking [OF lreach_ok [OF assms(1,2)] _ _ l(1)]) (auto simp: waiters_def)
  have ok: "procs_ok grp l" "p \<in> myProc ` set (procLocks l)" using a by (auto simp: asking_def)
  let ?no = "(\<exists>q j. (q, j) \<in> holds entry \<and> leader grp q \<noteq> leader grp p \<and> DoLockModesConflict m j) \<or>
    (\<exists>w \<in> set (waiters entry). DoLockModesConflict m (waitLockMode w))"
  have no: "conflictTab m AND waitMask l = 0 \<and> check_for grp p p m l \<longleftrightarrow> \<not> ?no"
    using ahead_iff [OF a] asking_check [OF a assms(2), of p] holds_blocked [OF ok(1), of p m] unfolding l(2,3) by blast
  define l' where "l' = (drop_proclock p l)\<lparr>nRequested := nRequested (drop_proclock p l) - 1, requested := add_at_mode m (-1) (requested (drop_proclock p l))\<rparr>"
  have run: "LockAcquire grp p m True entry = Inr (if ?no then (LOCKACQUIRE_NOT_AVAIL, Some l') else (LOCKACQUIRE_OK, Some (GrantLock p m l)))"
    unfolding LockAcquire_def l(1) rbind_simps no l'_def drop_proclock_def Let_def by simp
  have "holds (Some l') = holds entry" "waiters (Some l') = waiters entry"
    using l(2,3) hold_of_cong [of l' "drop_proclock p l"] by (simp_all add: l'_def holds_def waiters_def drop_hold_of)
  moreover have "m < 32" using assms(4) by (simp add: AccessExclusiveLock_def)
  then have "holds (Some (GrantLock p m l)) = insert (p, m) (holds entry)" "waiters (Some (GrantLock p m l)) = waiters entry"
    using grant_holds [OF procs_keys [OF ok(1)] ok(2)] l(2,3) by (simp_all add: waiters_def)
  ultimately show ?thesis using run False by simp
qed

section \<open>An example\<close>

text \<open>Processes 1 and 4 hold AccessShareLock, process 2 waits for AccessExclusiveLock, and process 3, which asks for AccessShareLock, behind it.\<close>

definition no_group :: "nat \<Rightarrow> nat option" where
  "no_group p = None"

definition lock_4 :: LOCK where
  "lock_4 = \<lparr>grantMask = 2, waitMask = 0, procLocks = [\<lparr>myProc = 1, groupLeader = 1, holdMask = 2\<rparr>, \<lparr>myProc = 4, groupLeader = 4, holdMask = 2\<rparr>],
     waitProcs = [], requested = [0, 2, 0, 0, 0, 0, 0, 0, 0, 0], nRequested = 2, granted = [0, 2, 0, 0, 0, 0, 0, 0, 0, 0], nGranted = 2\<rparr>"

definition lock_42 :: LOCK where
  "lock_42 = lock_4\<lparr>waitMask := 0x100, procLocks := procLocks lock_4 @ [\<lparr>myProc = 2, groupLeader = 2, holdMask = 0\<rparr>],
     waitProcs := [\<lparr>procno = 2, lockGroupLeader = None, heldLocks = 0, waitLockMode = 8\<rparr>],
     requested := [0, 2, 0, 0, 0, 0, 0, 0, 1, 0], nRequested := 3\<rparr>"

definition lock_423 :: LOCK where
  "lock_423 = lock_42\<lparr>waitMask := 0x102, procLocks := procLocks lock_42 @ [\<lparr>myProc = 3, groupLeader = 3, holdMask = 0\<rparr>],
     waitProcs := waitProcs lock_42 @ [\<lparr>procno = 3, lockGroupLeader = None, heldLocks = 0, waitLockMode = 1\<rparr>],
     requested := [0, 3, 0, 0, 0, 0, 0, 0, 1, 0], nRequested := 4\<rparr>"

lemma example_steps:
  "LockAcquire no_group 1 1 False None = Inr (LOCKACQUIRE_OK, Some (GrantLock 1 1 (case SetupLockInTable no_group 1 1 None of Inr l \<Rightarrow> l)))"
  "LockAcquire no_group 4 1 False (Some (GrantLock 1 1 (case SetupLockInTable no_group 1 1 None of Inr l \<Rightarrow> l))) = Inr (LOCKACQUIRE_OK, Some lock_4)"
  "LockAcquire no_group 2 8 False (Some lock_4) = Inr (LOCKACQUIRE_WAITING, Some lock_42)"
  "LockAcquire no_group 3 1 False (Some lock_42) = Inr (LOCKACQUIRE_WAITING, Some lock_423)"
  "waitProcs (GrantLock 1 1 (case SetupLockInTable no_group 1 1 None of Inr l \<Rightarrow> l)) = []"
  by code_simp+

lemma example_lreach: "lreach no_group (Some lock_4)" "lreach no_group (Some lock_423)"
proof -
  have a: "AccessExclusiveLock = 8" by (simp add: AccessExclusiveLock_def)
  have "lreach no_group (Some (GrantLock 1 1 (case SetupLockInTable no_group 1 1 None of Inr l \<Rightarrow> l)))"
    by (rule lreach_acquire [OF lreach_none _ _ _ example_steps(1)]) (simp_all add: a)
  then show l4: "lreach no_group (Some lock_4)" 
    by (rule lreach_acquire [OF _ _ _ _ example_steps(2)]) (simp_all add: a example_steps(5) del: grant_fields One_nat_def)
  have "lreach no_group (Some lock_42)"
    by (rule lreach_acquire [OF l4 _ _ _ example_steps(3)]) (simp_all add: a lock_4_def)
  then show "lreach no_group (Some lock_423)"
    by (rule lreach_acquire [OF _ _ _ _ example_steps(4)]) (simp_all add: a lock_42_def lock_4_def)
qed

lemma example_group: "grp_ok no_group" "leader no_group p = p"
  by (simp_all add: grp_ok_def no_group_def leader_def)

lemma example_holds: "(1, 1) \<in> holds (Some lock_423)" "(4, 1) \<in> holds (Some lock_423)" "(1, 1) \<in> holds (Some lock_4)"
  "(7, 8) \<notin> holds (Some lock_4)" "waiters (Some lock_4) = []" "DoLockModesConflict 8 1"
proof -
  have "bit (hold_of 1 lock_423) 1" "bit (hold_of 4 lock_423) 1" "bit (hold_of 1 lock_4) 1" "\<not> bit (hold_of 7 lock_4) 8" by code_simp+
  then show "(1, 1) \<in> holds (Some lock_423)" "(4, 1) \<in> holds (Some lock_423)" "(1, 1) \<in> holds (Some lock_4)" "(7, 8) \<notin> holds (Some lock_4)"
    by (simp_all add: holds_def)
  show "waiters (Some lock_4) = []" "DoLockModesConflict 8 1" by code_simp+
qed

theorem conflicting_locks_exclude_witness: "\<not> DoLockModesConflict 1 1"
  using conflicting_locks_exclude [OF example_lreach(2) example_group(1) example_holds(1,2)] by (simp add: example_group)

theorem lock_counters_exact_witness: "requested lock_423 ! 1 = int (holders lock_423 1) + int (waiting lock_423 1)"
  using lock_counters_exact [OF example_lreach(2) example_group(1), of 1] by (simp add: MAX_LOCKMODES_def)

theorem no_lost_wakeup_witness: "holds (Some lock_423) \<noteq> {}"
  using no_lost_wakeup [OF example_lreach(2) example_group(1), of 1] by (simp add: lock_423_def lock_42_def)

theorem conditional_acquire_witness:
  "\<exists>entry'. LockAcquire no_group 7 8 True (Some lock_4) = Inr (LOCKACQUIRE_NOT_AVAIL, entry') \<and> holds entry' = holds (Some lock_4)"
proof -
  have "\<exists>q j. (q, j) \<in> holds (Some lock_4) \<and> leader no_group q \<noteq> leader no_group 7 \<and> DoLockModesConflict 8 j"
    by (intro exI [of _ 1] conjI example_holds) (simp add: example_group)
  then show ?thesis
    using conditional_acquire [OF example_lreach(1) example_group(1), of 8 7] by (auto simp: AccessExclusiveLock_def example_holds(4,5))
qed

end
