(* ===== verification/OG_Deadlock.thy ===== *)
theory OG_Deadlock
  imports OG_Lock
begin

text \<open>
  The deadlock detector (\<^verbatim>\<open>src/gausskernel/storage/lmgr/deadlock.cpp\<close>): the search for a cycle of waiting lock groups, the sort of a wait queue under constraints, the
  search for queue orders without a cycle, and the verdict of \<open>DeadLockCheck\<close>. The file holds the model of the whole detector and shows that the search for a
  cycle and the sort are right; \<open>OG_DeadlockCheck\<close> shows what the verdicts mean.

  The detector runs with all partitions of the lock table locked, so that the tables do not change under it. Not modelled: the error that ends a check that has
  run for more than ten minutes, the text of the reports.
\<close>

section \<open>Data\<close>

text \<open>
  The lock tables as the detector sees them while it holds all partition locks: the lock objects by number, what each process waits for
  (\<open>None\<close> when \<^verbatim>\<open>links.next\<close> or \<^verbatim>\<open>waitLock\<close> is NULL), its lock group leader, the members of a leader's group, and the flags of autovacuum and
  redistribution processes.
\<close>

record lock_tables =
  lock_at :: "nat \<Rightarrow> LOCK"
  waitLock :: "nat \<Rightarrow> nat option"
  waitMode :: "nat \<Rightarrow> nat"
  group_of :: "nat \<Rightarrow> nat option"
  lockGroupMembers :: "nat \<Rightarrow> nat list"
  proc_is_autovacuum :: "nat \<Rightarrow> bool"
  proc_is_redist :: "nat \<Rightarrow> bool"
  MyProc :: nat
  MaxBackends :: nat
  max_blocking_autovacuum :: nat

record EDGE =
  edge_waiter :: nat
  edge_blocker :: nat
  edge_lock :: nat

record WAIT_ORDER =
  order_lock :: nat
  order_procs :: "waiter list"

record DEADLOCK_INFO =
  info_lock :: nat
  info_lockmode :: nat
  info_pid :: nat

text \<open>
  The working storage of a search. The entries of \<^verbatim>\<open>deadlockDetails\<close> are filled from the end of the cycle on, so that they come first in the list in the order
  of the array.
\<close>

record search =
  visitedProcs :: "nat list"
  softEdges :: "EDGE list"
  deadlockDetails :: "DEADLOCK_INFO list"
  blocking_autovacuum_proc :: "nat list"
  blocking_redistribution_proc :: "nat option"

definition waiter_leader :: "waiter \<Rightarrow> nat" where
  "waiter_leader w = (case lockGroupLeader w of None \<Rightarrow> procno w | Some l \<Rightarrow> l)"

section \<open>Cycles\<close>

text \<open>A loop that ends when an element gives \<open>True\<close>.\<close>

fun search_list :: "('a \<Rightarrow> 's \<Rightarrow> (bool \<times> 's) result) \<Rightarrow> 'a list \<Rightarrow> 's \<Rightarrow> (bool \<times> 's) result" where
  "search_list f [] s = Inr (False, s)"
| "search_list f (x # xs) s = rbind (f x s) (\<lambda>(found, s). if found then Inr (True, s) else search_list f xs s)"

definition remember_autovacuum :: "lock_tables \<Rightarrow> nat \<Rightarrow> search \<Rightarrow> search" where
  "remember_autovacuum T proc s =
     (if proc \<notin> set (blocking_autovacuum_proc s) \<and> length (blocking_autovacuum_proc s) < max_blocking_autovacuum T
      then s\<lparr>blocking_autovacuum_proc := blocking_autovacuum_proc s @ [proc]\<rparr> else s)"

definition note_blocker :: "lock_tables \<Rightarrow> nat \<Rightarrow> nat \<Rightarrow> search \<Rightarrow> search" where
  "note_blocker T checkProc proc s =
     (if checkProc = MyProc T
      then if proc_is_autovacuum T proc then remember_autovacuum T proc s
           else if proc_is_redist T proc then s\<lparr>blocking_redistribution_proc := Some proc\<rparr> else s
      else s)"

text \<open>The autovacuum processes ahead in the queue.\<close>

definition note_queue :: "lock_tables \<Rightarrow> nat \<Rightarrow> nat \<Rightarrow> nat \<Rightarrow> search \<Rightarrow> search" where
  "note_queue T checkProc checkProcLeader lock s =
     (if checkProc = MyProc T \<and> blocking_autovacuum_proc s \<noteq> []
      then fold (\<lambda>w s. if waiter_leader w \<noteq> checkProcLeader \<and> bit (conflictTab (waitMode T checkProc)) (waitLockMode w) \<and> proc_is_autovacuum T (procno w)
                       then remember_autovacuum T (procno w) s else s)
             (takeWhile (\<lambda>w. procno w \<noteq> checkProc) (waitProcs (lock_at T lock))) s
      else s)"

definition add_info :: "lock_tables \<Rightarrow> nat \<Rightarrow> nat \<Rightarrow> search \<Rightarrow> search" where
  "add_info T checkProc lock s =
     s\<lparr>deadlockDetails := \<lparr>info_lock = lock, info_lockmode = waitMode T checkProc, info_pid = checkProc\<rparr> # deadlockDetails s\<rparr>"

text \<open>The waiters that are ahead of \<open>checkProc\<close>, in the order proposed for the queue or in the true one.\<close>

definition ahead :: "lock_tables \<Rightarrow> WAIT_ORDER list \<Rightarrow> nat \<Rightarrow> nat \<Rightarrow> nat \<Rightarrow> waiter list" where
  "ahead T orders checkProc checkProcLeader lock =
     (case find (\<lambda>order. order_lock order = lock) orders of
        Some order \<Rightarrow> takeWhile (\<lambda>w. waiter_leader w \<noteq> checkProc) (order_procs order)
      | None \<Rightarrow>
          let queue = waitProcs (lock_at T lock);
              lastGroupMember = (if group_of T checkProc = None then Some checkProc
                                 else map_option procno (find (\<lambda>w. lockGroupLeader w = Some checkProcLeader) (rev queue)))
          in filter (\<lambda>w. waiter_leader w \<noteq> checkProcLeader) (takeWhile (\<lambda>w. Some (procno w) \<noteq> lastGroupMember) queue))"

definition conflicting_holders :: "lock_tables \<Rightarrow> nat \<Rightarrow> nat \<Rightarrow> nat \<Rightarrow> PROCLOCK list" where
  "conflicting_holders T checkProc checkProcLeader lock =
     filter (\<lambda>pl. leader (group_of T) (myProc pl) \<noteq> checkProcLeader \<and>
                  (\<exists>lm \<in> set [1..<AccessExclusiveLock + 1]. bit (holdMask pl) lm \<and> bit (conflictTab (waitMode T checkProc)) lm))
       (procLocks (lock_at T lock))"

definition FindLockCycleRecurseMember :: "(nat \<Rightarrow> search \<Rightarrow> (bool \<times> search) result) \<Rightarrow> lock_tables \<Rightarrow> WAIT_ORDER list \<Rightarrow> nat \<Rightarrow> nat \<Rightarrow> search \<Rightarrow> (bool \<times> search) result" where
  "FindLockCycleRecurseMember recurse T orders checkProcLeader checkProc s =
     (case waitLock T checkProc of
        None \<Rightarrow> Inr (False, s)
      | Some lock \<Rightarrow>
          rbind (search_list (\<lambda>pl s. rbind (recurse (myProc pl) s) (\<lambda>(found, s).
                   if found then Inr (True, add_info T checkProc lock s) else Inr (False, note_blocker T checkProc (myProc pl) s)))
                 (conflicting_holders T checkProc checkProcLeader lock) s) (\<lambda>(found, s).
          if found then Inr (True, s)
          else search_list (\<lambda>w s. rbind (recurse (procno w) s) (\<lambda>(found, s).
                   if found
                   then Inr (True, (add_info T checkProc lock s)\<lparr>softEdges := softEdges s @ [\<lparr>edge_waiter = checkProcLeader, edge_blocker = waiter_leader w, edge_lock = lock\<rparr>]\<rparr>)
                   else Inr (False, s)))
                 (filter (\<lambda>w. bit (conflictTab (waitMode T checkProc)) (waitLockMode w)) (ahead T orders checkProc checkProcLeader lock))
                 (note_queue T checkProc checkProcLeader lock s)))"

text \<open>\<open>stack\<close> is the number of levels for which \<^verbatim>\<open>check_stack_depth\<close> finds room.\<close>

primrec FindLockCycleRecurse :: "nat \<Rightarrow> lock_tables \<Rightarrow> WAIT_ORDER list \<Rightarrow> nat \<Rightarrow> search \<Rightarrow> (bool \<times> search) result" where
  "FindLockCycleRecurse 0 T orders proc s = Inl (Ereport ERROR ERRCODE_STATEMENT_TOO_COMPLEX)"
| "FindLockCycleRecurse (Suc stack) T orders proc s =
     (let checkProc = leader (group_of T) proc
      in if checkProc \<in> set (visitedProcs s)
         then if visitedProcs s ! 0 = checkProc then Inr (True, s\<lparr>deadlockDetails := []\<rparr>) else Inr (False, s)
         else if length (visitedProcs s) \<ge> MaxBackends T then Inl (Ereport ERROR ERRCODE_TOO_MANY_CONNECTIONS)
         else search_list (FindLockCycleRecurseMember (FindLockCycleRecurse stack T orders) T orders checkProc)
                (checkProc # filter (\<lambda>memberProc. memberProc \<noteq> checkProc) (lockGroupMembers T checkProc))
                (s\<lparr>visitedProcs := visitedProcs s @ [checkProc]\<rparr>))"

definition FindLockCycle :: "nat \<Rightarrow> lock_tables \<Rightarrow> WAIT_ORDER list \<Rightarrow> nat \<Rightarrow> search \<Rightarrow> (bool \<times> search) result" where
  "FindLockCycle stack T orders checkProc s = FindLockCycleRecurse stack T orders checkProc (s\<lparr>visitedProcs := [], deadlockDetails := [], softEdges := []\<rparr>)"

section \<open>Sorting a wait queue\<close>

text \<open>
  The arrays of \<^verbatim>\<open>TopoSort\<close>: the queue with the processes that are output taken out, the topo_counts, and for each process the list of the predecessors \<open>pred\<close>
  of the constraints that its \<^verbatim>\<open>afterConstraints\<close> entry heads.
\<close>

record topo =
  topoProcs :: "waiter option list"
  beforeConstraints :: "int list"
  afterConstraints :: "nat list list"

definition in_group :: "nat \<Rightarrow> waiter \<Rightarrow> bool" where
  "in_group proc w \<longleftrightarrow> procno w = proc \<or> lockGroupLeader w = Some proc"

definition positions :: "waiter list \<Rightarrow> nat \<Rightarrow> nat list" where
  "positions queue proc = filter (\<lambda>j. in_group proc (queue ! j)) [0..<length queue]"

definition mark_others :: "nat list \<Rightarrow> int list \<Rightarrow> int list" where
  "mark_others ps before = fold (\<lambda>j before. before[j := - 1]) (butlast ps) before"

definition count_constraint :: "waiter list \<Rightarrow> EDGE \<Rightarrow> topo \<Rightarrow> topo" where
  "count_constraint queue e t =
     (let ws = positions queue (edge_waiter e); bs = positions queue (edge_blocker e)
      in if ws = [] then t
         else let before = mark_others ws (beforeConstraints t)
              in if bs = [] then t\<lparr>beforeConstraints := before\<rparr>
                 else let before = mark_others bs before
                      in t\<lparr>beforeConstraints := before[last ws := before ! last ws + 1],
                           afterConstraints := (afterConstraints t)[last bs := last ws # afterConstraints t ! last bs]\<rparr>)"

text \<open>The index of the last process that may be output.\<close>

definition candidate :: "topo \<Rightarrow> nat option" where
  "candidate t = find (\<lambda>j. topoProcs t ! j \<noteq> None \<and> beforeConstraints t ! j = 0) (rev [0..<length (topoProcs t)])"

definition taken :: "topo \<Rightarrow> nat \<Rightarrow> waiter option \<Rightarrow> bool" where
  "taken t j x \<longleftrightarrow> (case x of None \<Rightarrow> False | Some w \<Rightarrow> in_group (waiter_leader (the (topoProcs t ! j))) w)"

definition output_group :: "nat \<Rightarrow> topo \<Rightarrow> topo" where
  "output_group j t =
     t\<lparr>topoProcs := map (\<lambda>x. if taken t j x then None else x) (topoProcs t),
       beforeConstraints := fold (\<lambda>pred before. before[pred := before ! pred - 1]) (afterConstraints t ! j) (beforeConstraints t)\<rparr>"

lemma count_taken:
  assumes "j < length (topoProcs t)" "topoProcs t ! j \<noteq> None"
  shows "length (filter (\<lambda>x. x \<noteq> None) (map (\<lambda>x. if taken t j x then None else x) (topoProcs t))) < length (filter (\<lambda>x. x \<noteq> None) (topoProcs t))"
proof -
  obtain w where w: "topoProcs t ! j = Some w" using assms(2) by blast
  then have tk: "taken t j (topoProcs t ! j)" by (simp add: taken_def in_group_def waiter_leader_def split: option.splits)
  have e: "length (filter (\<lambda>x. x \<noteq> None) (map (\<lambda>x. if taken t j x then None else x) xs)) = length (filter (\<lambda>x. x \<noteq> None \<and> \<not> taken t j x) xs)" for xs
    by (induction xs) auto
  have s: "length (filter (\<lambda>x. x \<noteq> None \<and> \<not> taken t j x) xs) + length (filter (\<lambda>x. x \<noteq> None \<and> taken t j x) xs) = length (filter (\<lambda>x. x \<noteq> None) xs)" for xs
    by (induction xs) auto
  have "topoProcs t ! j \<in> set (filter (\<lambda>x. x \<noteq> None \<and> taken t j x) (topoProcs t))" using tk assms by simp
  then have "0 < length (filter (\<lambda>x. x \<noteq> None \<and> taken t j x) (topoProcs t))" by (rule length_pos_if_in_set)
  then show ?thesis using s [of "topoProcs t"] by (simp only: e)
qed

lemma candidate_SomeD: "candidate t = Some j \<Longrightarrow> j < length (topoProcs t) \<and> topoProcs t ! j \<noteq> None \<and> beforeConstraints t ! j = 0"
  by (auto simp: candidate_def find_Some_iff rev_nth)

function TopoSortScan :: "topo \<Rightarrow> waiter list \<Rightarrow> waiter list option" where
  "TopoSortScan t out =
     (if list_all (\<lambda>x. x = None) (topoProcs t) then Some out
      else case candidate t of
             None \<Rightarrow> None
           | Some j \<Rightarrow> TopoSortScan (output_group j t) (rev (List.map_filter (\<lambda>x. if taken t j x then x else None) (topoProcs t)) @ out))"
  by pat_completeness auto
termination
  by (relation "measure (\<lambda>(t, out). length (filter (\<lambda>x. x \<noteq> None) (topoProcs t)))")
    (auto simp: output_group_def dest!: candidate_SomeD count_taken)

declare TopoSortScan.simps [simp del]

definition TopoSort :: "LOCK \<Rightarrow> EDGE list \<Rightarrow> waiter list option" where
  "TopoSort lock constraints =
     (let queue = waitProcs lock; n = length queue
      in TopoSortScan (fold (count_constraint queue) constraints \<lparr>topoProcs = map Some queue, beforeConstraints = replicate n 0, afterConstraints = replicate n []\<rparr>) [])"
section \<open>Orders for a set of constraints\<close>

primrec expand_loop :: "lock_tables \<Rightarrow> EDGE list \<Rightarrow> nat \<Rightarrow> WAIT_ORDER list \<Rightarrow> WAIT_ORDER list option" where
  "expand_loop T constraints 0 orders = Some orders"
| "expand_loop T constraints (Suc i) orders =
     (let lock = edge_lock (constraints ! i)
      in if list_ex (\<lambda>order. order_lock order = lock) orders then expand_loop T constraints i orders
         else case TopoSort (lock_at T lock) (take (Suc i) constraints) of
                None \<Rightarrow> None
              | Some procs \<Rightarrow> expand_loop T constraints i (orders @ [\<lparr>order_lock = lock, order_procs = procs\<rparr>]))"

definition ExpandConstraints :: "lock_tables \<Rightarrow> EDGE list \<Rightarrow> WAIT_ORDER list option" where
  "ExpandConstraints T constraints = expand_loop T constraints (length constraints) []"

section \<open>Testing a configuration\<close>

text \<open>The result \<open>None\<close> stands for the value -1, a list of edges for their number.\<close>

fun test_procs :: "nat \<Rightarrow> lock_tables \<Rightarrow> WAIT_ORDER list \<Rightarrow> nat list \<Rightarrow> EDGE list \<Rightarrow> search \<Rightarrow> (EDGE list option \<times> search) result" where
  "test_procs stack T orders [] softFound s = Inr (Some softFound, s)"
| "test_procs stack T orders (p # ps) softFound s =
     rbind (FindLockCycle stack T orders p s) (\<lambda>(found, s).
       if found then if softEdges s = [] then Inr (None, s) else test_procs stack T orders ps (softEdges s) s
       else test_procs stack T orders ps softFound s)"

definition maxPossibleConstraints :: "lock_tables \<Rightarrow> nat" where
  "maxPossibleConstraints T = 4 * MaxBackends T"

definition TestConfiguration :: "nat \<Rightarrow> lock_tables \<Rightarrow> nat \<Rightarrow> EDGE list \<Rightarrow> nat \<Rightarrow> search \<Rightarrow> ((EDGE list option \<times> WAIT_ORDER list) \<times> search) result" where
  "TestConfiguration stack T nPossibleConstraints curConstraints startProc s =
     (if nPossibleConstraints + MaxBackends T > maxPossibleConstraints T then Inr ((None, []), s)
      else case ExpandConstraints T curConstraints of
             None \<Rightarrow> Inr ((None, []), s)
           | Some orders \<Rightarrow>
               rbind (test_procs stack T orders (concat (map (\<lambda>e. [edge_waiter e, edge_blocker e]) curConstraints) @ [startProc]) [] s) (\<lambda>(r, s).
                 Inr ((r, orders), s)))"

section \<open>The search for an order\<close>

fun try_each :: "('a \<Rightarrow> 's \<Rightarrow> ('r option \<times> 's) result) \<Rightarrow> 'a list \<Rightarrow> 's \<Rightarrow> ('r option \<times> 's) result" where
  "try_each f [] s = Inr (None, s)"
| "try_each f (x # xs) s = rbind (f x s) (\<lambda>(r, s). case r of Some y \<Rightarrow> Inr (Some y, s) | None \<Rightarrow> try_each f xs s)"

text \<open>
  The result \<open>None\<close> stands for TRUE, no solution; otherwise it is what \<^verbatim>\<open>waitOrders\<close> holds when the routine returns FALSE. When there is no room to keep the
  edges in \<^verbatim>\<open>possibleConstraints\<close>, the routine computes them again for every edge after the first.
\<close>

primrec DeadLockCheckRecurse :: "nat \<Rightarrow> lock_tables \<Rightarrow> nat \<Rightarrow> nat \<Rightarrow> EDGE list \<Rightarrow> search \<Rightarrow> (WAIT_ORDER list option \<times> search) result" where
  "DeadLockCheckRecurse 0 T proc nPossibleConstraints curConstraints s = Inl (Ereport ERROR ERRCODE_STATEMENT_TOO_COMPLEX)"
| "DeadLockCheckRecurse (Suc stack) T proc nPossibleConstraints curConstraints s =
     rbind (TestConfiguration stack T nPossibleConstraints curConstraints proc s) (\<lambda>((r, orders), s).
       case r of
         None \<Rightarrow> Inr (None, s)
       | Some edges \<Rightarrow>
           if edges = [] then Inr (Some orders, s)
           else if length curConstraints \<ge> MaxBackends T then Inr (None, s)
           else let savedList = (nPossibleConstraints + length edges + MaxBackends T \<le> maxPossibleConstraints T);
                    possible = (if savedList then nPossibleConstraints + length edges else nPossibleConstraints)
                in try_each (\<lambda>i s.
                     rbind (if savedList \<or> i = 0 then Inr (edges, s)
                            else rbind (TestConfiguration stack T possible curConstraints proc s) (\<lambda>((r, orders), s).
                                   case r of
                                     Some es \<Rightarrow> if length es = length edges then Inr (es, s) else Inl (Ereport FATAL ERRCODE_WRONG_OBJECT_TYPE)
                                   | None \<Rightarrow> Inl (Ereport FATAL ERRCODE_WRONG_OBJECT_TYPE)))
                       (\<lambda>(es, s). DeadLockCheckRecurse stack T proc possible (curConstraints @ [es ! i]) s))
                   [0..<length edges] s)"

text \<open>What the callers fetch afterwards, and what \<^verbatim>\<open>ProcSleep\<close> notes about a deadlock of two processes.\<close>

definition GetBlockingAutoVacuumPgproc :: "search \<Rightarrow> nat option \<times> search" where
  "GetBlockingAutoVacuumPgproc s =
     (if blocking_autovacuum_proc s = [] then (None, s)
      else (Some (last (blocking_autovacuum_proc s)), s\<lparr>blocking_autovacuum_proc := butlast (blocking_autovacuum_proc s)\<rparr>))"

definition GetBlockingRedistributionPgproc :: "search \<Rightarrow> nat option \<times> search" where
  "GetBlockingRedistributionPgproc s = (blocking_redistribution_proc s, s\<lparr>blocking_redistribution_proc := None\<rparr>)"

definition RememberSimpleDeadLock :: "lock_tables \<Rightarrow> nat \<Rightarrow> nat \<Rightarrow> nat \<Rightarrow> nat \<Rightarrow> search \<Rightarrow> search" where
  "RememberSimpleDeadLock T proc1 lockmode lock proc2 s =
     s\<lparr>deadlockDetails := [\<lparr>info_lock = lock, info_lockmode = lockmode, info_pid = proc1\<rparr>,
                           \<lparr>info_lock = the (waitLock T proc2), info_lockmode = waitMode T proc2, info_pid = proc2\<rparr>]\<rparr>"

datatype DeadLockState = DS_NOT_YET_CHECKED | DS_LOCK_TIMEOUT | DS_NO_DEADLOCK | DS_SOFT_DEADLOCK | DS_HARD_DEADLOCK | DS_BLOCKED_BY_AUTOVACUUM | DS_BLOCKED_BY_REDISTRIBUTION

text \<open>A process that \<^verbatim>\<open>ProcLockWakeup\<close> wakes up no longer waits.\<close>

definition apply_order :: "WAIT_ORDER \<Rightarrow> lock_tables \<Rightarrow> lock_tables" where
  "apply_order order T =
     (let l = order_lock order; lock = install_order (group_of T) (MyProc T) (order_procs order) (lock_at T l)
      in T\<lparr>lock_at := (lock_at T)(l := lock),
           waitLock := (\<lambda>p. if waitLock T p = Some l \<and> p \<notin> procno ` set (waitProcs lock) then None else waitLock T p)\<rparr>)"

definition IsOtherProcRedistribution :: "lock_tables \<Rightarrow> nat \<Rightarrow> bool" where
  "IsOtherProcRedistribution T p = proc_is_redist T p"

definition DeadLockCheck :: "nat \<Rightarrow> lock_tables \<Rightarrow> nat \<Rightarrow> search \<Rightarrow> ((DeadLockState \<times> lock_tables) \<times> search) result" where
  "DeadLockCheck stack T proc s =
     rbind (DeadLockCheckRecurse stack T proc 0 [] (s\<lparr>blocking_autovacuum_proc := []\<rparr>)) (\<lambda>(r, s).
       case r of
         None \<Rightarrow>
           rbind (FindLockCycle stack T [] proc s) (\<lambda>(found, s).
             if \<not> found then Inl (Ereport FATAL ERRCODE_WRONG_OBJECT_TYPE) else Inr ((DS_HARD_DEADLOCK, T), s))
       | Some orders \<Rightarrow>
           let T' = fold apply_order orders T
           in if orders \<noteq> [] then Inr ((DS_SOFT_DEADLOCK, T'), s)
              else if blocking_autovacuum_proc s \<noteq> [] then Inr ((DS_BLOCKED_BY_AUTOVACUUM, T'), s)
              else (case blocking_redistribution_proc s of
                     Some p \<Rightarrow> if IsOtherProcRedistribution T p then Inr ((DS_BLOCKED_BY_REDISTRIBUTION, T'), s)
                              else Inr ((DS_NO_DEADLOCK, T'), s\<lparr>blocking_redistribution_proc := None\<rparr>)
                   | None \<Rightarrow> Inr ((DS_NO_DEADLOCK, T'), s)))"

section \<open>The waits-for graph\<close>

text \<open>
  A lock group waits for another when a member of it waits for a lock of which a member of the other holds a conflicting mode, a hard edge, or has a
  conflicting request ahead in the queue, a soft edge, which is labelled.
\<close>

definition waits_via :: "lock_tables \<Rightarrow> WAIT_ORDER list \<Rightarrow> nat \<Rightarrow> nat \<Rightarrow> EDGE option \<Rightarrow> nat \<Rightarrow> bool" where
  "waits_via T orders a m e b \<longleftrightarrow>
     (\<exists>l. waitLock T m = Some l \<and>
        (e = None \<and> (\<exists>pl \<in> set (conflicting_holders T m a l). b = leader (group_of T) (myProc pl)) \<or>
         (\<exists>w \<in> set (ahead T orders m a l). bit (conflictTab (waitMode T m)) (waitLockMode w) \<and> b = leader (group_of T) (procno w) \<and>
            e = Some \<lparr>edge_waiter = a, edge_blocker = waiter_leader w, edge_lock = l\<rparr>)))"

definition waits_for :: "lock_tables \<Rightarrow> WAIT_ORDER list \<Rightarrow> nat \<Rightarrow> EDGE option \<Rightarrow> nat \<Rightarrow> bool" where
  "waits_for T orders a e b \<longleftrightarrow> (\<exists>m \<in> insert a (set (lockGroupMembers T a)). waits_via T orders a m e b)"

inductive wait_path :: "lock_tables \<Rightarrow> WAIT_ORDER list \<Rightarrow> nat \<Rightarrow> EDGE option list \<Rightarrow> nat \<Rightarrow> bool" for T orders where
  path_here: "wait_path T orders a [] a"
| path_step: "waits_for T orders a e b \<Longrightarrow> wait_path T orders b es c \<Longrightarrow> wait_path T orders a (e # es) c"

inductive_cases wait_path_Cons: "wait_path T orders a (e # es) c"

text \<open>A path with the reports on the processes that wait along it.\<close>

inductive noted_path :: "lock_tables \<Rightarrow> WAIT_ORDER list \<Rightarrow> nat \<Rightarrow> EDGE option list \<Rightarrow> DEADLOCK_INFO list \<Rightarrow> nat \<Rightarrow> bool" for T orders where
  noted_here: "noted_path T orders a [] [] a"
| noted_step: "m \<in> insert a (set (lockGroupMembers T a)) \<Longrightarrow> waits_via T orders a m e b \<Longrightarrow> waitLock T m = Some l \<Longrightarrow> noted_path T orders b es ds c \<Longrightarrow>
    noted_path T orders a (e # es) (\<lparr>info_lock = l, info_lockmode = waitMode T m, info_pid = m\<rparr> # ds) c"

lemma noted_path_forget:
  assumes "noted_path T orders a es ds c"
  shows "wait_path T orders a es c" "length ds = length es"
  using assms by (induction rule: noted_path.induct) (auto intro!: wait_path.intros simp: waits_for_def)

definition softs :: "EDGE option list \<Rightarrow> EDGE list" where
  "softs es = List.map_filter id es"

lemma softs_simps [simp]: "softs [] = []" "softs (None # es) = softs es" "softs (Some e # es) = e # softs es"
  by (simp_all add: softs_def List.map_filter_simps)

section \<open>The search is right\<close>

text \<open>The processes that can be reached are among \<open>U\<close>, which fits into \<^verbatim>\<open>visitedProcs\<close>.\<close>

definition closed_procs :: "lock_tables \<Rightarrow> WAIT_ORDER list \<Rightarrow> nat set \<Rightarrow> bool" where
  "closed_procs T orders U \<longleftrightarrow> finite U \<and> card U \<le> MaxBackends T \<and> (\<forall>a \<in> U. \<forall>e b. waits_for T orders a e b \<longrightarrow> b \<in> U)"

definition visit_ok :: "nat set \<Rightarrow> nat \<Rightarrow> search \<Rightarrow> bool" where
  "visit_ok U stack s \<longleftrightarrow> visitedProcs s \<noteq> [] \<and> distinct (visitedProcs s) \<and> set (visitedProcs s) \<subseteq> U \<and> card U < stack + length (visitedProcs s)"

text \<open>What a search that has not found the start leaves behind: the processes it has added have no edges to unvisited processes, and none to the start.\<close>

definition explored :: "lock_tables \<Rightarrow> WAIT_ORDER list \<Rightarrow> search \<Rightarrow> nat \<Rightarrow> bool" where
  "explored T orders s u \<longleftrightarrow> (\<forall>e v. waits_for T orders u e v \<longrightarrow> v \<in> set (visitedProcs s) \<and> v \<noteq> hd (visitedProcs s))"

definition step_ok :: "lock_tables \<Rightarrow> WAIT_ORDER list \<Rightarrow> nat set \<Rightarrow> nat \<Rightarrow> nat \<Rightarrow> nat \<Rightarrow> (search \<Rightarrow> (bool \<times> search) result) \<Rightarrow> nat set \<Rightarrow> bool" where
  "step_ok T orders U stack k a f targets \<longleftrightarrow>
     (\<forall>s. visit_ok U stack s \<longrightarrow>
        (\<exists>found s' new. f s = Inr (found, s') \<and> visitedProcs s' = visitedProcs s @ new \<and> visit_ok U stack s' \<and>
           (if found then \<exists>es. noted_path T orders a es (deadlockDetails s') (hd (visitedProcs s)) \<and> k \<le> length es \<and> length es \<le> length new + k \<and> softEdges s' = softEdges s @ rev (softs es)
            else softEdges s' = softEdges s \<and> (\<forall>u \<in> set new. explored T orders s' u) \<and> (\<forall>v \<in> targets. v \<in> set (visitedProcs s') \<and> v \<noteq> hd (visitedProcs s)))))"

lemma explored_mono: "explored T orders s u \<Longrightarrow> visitedProcs s \<noteq> [] \<Longrightarrow> visitedProcs s' = visitedProcs s @ new \<Longrightarrow> explored T orders s' u"
  unfolding explored_def by (auto simp: hd_append)

lemma step_okI:
  assumes "\<And>s. visit_ok U stack s \<Longrightarrow>
     (\<exists>s' new es. f s = Inr (True, s') \<and> visitedProcs s' = visitedProcs s @ new \<and> visit_ok U stack s' \<and>
        noted_path T orders a es (deadlockDetails s') (hd (visitedProcs s)) \<and> k \<le> length es \<and> length es \<le> length new + k \<and> softEdges s' = softEdges s @ rev (softs es)) \<or>
     (\<exists>s' new. f s = Inr (False, s') \<and> visitedProcs s' = visitedProcs s @ new \<and> visit_ok U stack s' \<and> softEdges s' = softEdges s \<and>
        (\<forall>u \<in> set new. explored T orders s' u) \<and> (\<forall>v \<in> targets. v \<in> set (visitedProcs s') \<and> v \<noteq> hd (visitedProcs s)))"
  shows "step_ok T orders U stack k a f targets"
  using assms unfolding step_ok_def by (metis (full_types))

lemma step_okE:
  assumes "step_ok T orders U stack k a f targets" "visit_ok U stack s"
  obtains (found) s' new es where "f s = Inr (True, s')" "visitedProcs s' = visitedProcs s @ new" "visit_ok U stack s'"
      "noted_path T orders a es (deadlockDetails s') (hd (visitedProcs s))" "k \<le> length es" "length es \<le> length new + k" "softEdges s' = softEdges s @ rev (softs es)"
    | (none) s' new where "f s = Inr (False, s')" "visitedProcs s' = visitedProcs s @ new" "visit_ok U stack s'" "softEdges s' = softEdges s"
      "\<forall>u \<in> set new. explored T orders s' u" "\<forall>v \<in> targets. v \<in> set (visitedProcs s') \<and> v \<noteq> hd (visitedProcs s)"
  using assms unfolding step_ok_def by (metis (full_types))

text \<open>Two searches after each other, with notes taken in between.\<close>

lemma then_ok:
  assumes f: "step_ok T orders U stack k a f A" and g: "step_ok T orders U stack k a g B"
    and h: "\<And>s. visitedProcs (h s) = visitedProcs s" "\<And>s. softEdges (h s) = softEdges s"
  shows "step_ok T orders U stack k a (\<lambda>s. rbind (f s) (\<lambda>(found, s). if found then Inr (True, s) else g (h s))) (A \<union> B)"
proof (rule step_okI, goal_cases)
  case (1 s)
  then have ne: "visitedProcs s \<noteq> []" by (simp add: visit_ok_def)
  from f 1 show ?case
  proof (cases rule: step_okE)
    case (found s1 new es)
    then show ?thesis by (intro disjI1 exI [of _ s1] exI [of _ new] exI [of _ es]) simp
  next
    case (none s1 new)
    have hd1: "hd (visitedProcs s1) = hd (visitedProcs s)" using none(2) ne by simp
    have ok1: "visit_ok U stack (h s1)" using none(3) by (simp add: visit_ok_def h)
    from g ok1 show ?thesis
    proof (cases rule: step_okE)
      case (found s2 new2 es)
      then show ?thesis using none hd1 by (intro disjI1 exI [of _ s2] exI [of _ "new @ new2"] exI [of _ es]) (simp add: h)
    next
      case n2: (none s2 new2)
      have v2: "visitedProcs s2 = visitedProcs s1 @ new2" using n2(2) by (simp add: h)
      have "explored T orders s2 u" if "u \<in> set new" for u using explored_mono [OF _ _ v2] none(3,5) that by (auto simp: visit_ok_def)
      then show ?thesis using none n2 hd1 v2 by (intro disjI2 exI [of _ s2] exI [of _ "new @ new2"]) (auto simp: h)
    qed
  qed
qed

lemma search_list_ok:
  assumes "\<And>x. x \<in> set xs \<Longrightarrow> step_ok T orders U stack k a (f x) (targets x)"
  shows "step_ok T orders U stack k a (search_list f xs) (\<Union>x \<in> set xs. targets x)"
  using assms
proof (induction xs)
  case Nil
  show ?case by (rule step_okI) simp
next
  case (Cons x xs)
  have "step_ok T orders U stack k a (\<lambda>s. rbind (f x s) (\<lambda>(found, s). if found then Inr (True, s) else search_list f xs s)) (targets x \<union> (\<Union>x \<in> set xs. targets x))"
    by (rule then_ok [where h = "\<lambda>s. s"]) (use Cons in auto)
  then show ?case by (simp add: search_list.simps [abs_def])
qed

text \<open>A search that follows an edge.\<close>

definition edge_soft :: "EDGE option \<Rightarrow> EDGE list" where
  "edge_soft e = (case e of None \<Rightarrow> [] | Some x \<Rightarrow> [x])"

lemma softs_Cons: "softs (e # es) = edge_soft e @ softs es"
  by (cases e) (simp_all add: edge_soft_def)

lemma edge_ok:
  assumes f: "step_ok T orders U stack k b f {b}" and m: "m \<in> insert a (set (lockGroupMembers T a))" and e: "waits_via T orders a m e b" and l: "waitLock T m = Some l"
    and g: "\<And>s. visitedProcs (g s) = visitedProcs s" "\<And>s. softEdges (g s) = softEdges s @ edge_soft e" "\<And>s. deadlockDetails (g s) = deadlockDetails (add_info T m l s)"
    and h: "\<And>s. visitedProcs (h s) = visitedProcs s" "\<And>s. softEdges (h s) = softEdges s"
  shows "step_ok T orders U stack (Suc k) a (\<lambda>s. rbind (f s) (\<lambda>(found, s). if found then Inr (True, g s) else Inr (False, h s))) {b}"
proof (rule step_okI, goal_cases)
  case (1 s)
  from f 1 show ?case
  proof (cases rule: step_okE)
    case (found s1 new es)
    moreover have "rev (softs (e # es)) = rev (softs es) @ edge_soft e" by (cases e) (simp_all add: edge_soft_def)
    ultimately show ?thesis using noted_step [OF m e l found(4)]
      by (intro disjI1 exI [of _ "g s1"] exI [of _ new] exI [of _ "e # es"]) (simp add: g visit_ok_def add_info_def)
  next
    case (none s1 new)
    then show ?thesis by (intro disjI2 exI [of _ "h s1"] exI [of _ new]) (auto simp: h visit_ok_def explored_def)
  qed
qed

lemma remember_autovacuum_keeps [simp]:
  "visitedProcs (remember_autovacuum T p s) = visitedProcs s" "softEdges (remember_autovacuum T p s) = softEdges s"
  by (simp_all add: remember_autovacuum_def)

lemma note_blocker_keeps [simp]:
  "visitedProcs (note_blocker T c p s) = visitedProcs s" "softEdges (note_blocker T c p s) = softEdges s"
  by (simp_all add: note_blocker_def)

lemma fold_remember_keeps:
  "visitedProcs (fold (\<lambda>w s. if P w then remember_autovacuum T (procno w) s else s) ws s) = visitedProcs s"
  "softEdges (fold (\<lambda>w s. if P w then remember_autovacuum T (procno w) s else s) ws s) = softEdges s"
  by (induction ws arbitrary: s) simp_all

lemma note_queue_keeps [simp]:
  "visitedProcs (note_queue T c a l s) = visitedProcs s" "softEdges (note_queue T c a l s) = softEdges s"
  by (simp_all add: note_queue_def fold_remember_keeps)

lemma add_info_keeps [simp]:
  "visitedProcs (add_info T c l s) = visitedProcs s" "softEdges (add_info T c l s) = softEdges s"
  by (simp_all add: add_info_def)

lemma member_ok:
  assumes rec: "\<And>p. leader (group_of T) p \<in> U \<Longrightarrow> step_ok T orders U stack 0 (leader (group_of T) p) (recurse p) {leader (group_of T) p}"
    and m: "m \<in> insert a (set (lockGroupMembers T a))" and a: "a \<in> U" and U: "closed_procs T orders U"
  shows "step_ok T orders U stack 1 a (FindLockCycleRecurseMember recurse T orders a m) {b. \<exists>e. waits_via T orders a m e b}"
proof (cases "waitLock T m")
  case None
  then have "{b. \<exists>e. waits_via T orders a m e b} = {}" by (simp add: waits_via_def)
  then show ?thesis using None by (auto intro!: step_okI simp: FindLockCycleRecurseMember_def)
next
  case (Some l)
  let ?H = "conflicting_holders T m a l" and ?Q = "filter (\<lambda>w. bit (conflictTab (waitMode T m)) (waitLockMode w)) (ahead T orders m a l)"
  have hard: "waits_via T orders a m None (leader (group_of T) (myProc pl))" if "pl \<in> set ?H" for pl
    unfolding waits_via_def using that Some by blast
  have soft: "waits_via T orders a m (Some \<lparr>edge_waiter = a, edge_blocker = waiter_leader w, edge_lock = l\<rparr>) (leader (group_of T) (procno w))" if "w \<in> set ?Q" for w
    unfolding waits_via_def using that Some by auto
  have in_U: "b \<in> U" if "waits_via T orders a m e b" for e b
  proof -
    have "waits_for T orders a e b" unfolding waits_for_def using m that by (rule bexI [rotated])
    then show ?thesis using U a unfolding closed_procs_def by blast
  qed
  have h: "step_ok T orders U stack 1 a (search_list (\<lambda>pl s. rbind (recurse (myProc pl) s) (\<lambda>(found, s).
                   if found then Inr (True, add_info T m l s) else Inr (False, note_blocker T m (myProc pl) s))) ?H)
             (\<Union>pl \<in> set ?H. {leader (group_of T) (myProc pl)})"
  proof (rule search_list_ok)
    fix pl assume pl: "pl \<in> set ?H"
    show "step_ok T orders U stack 1 a (\<lambda>s. rbind (recurse (myProc pl) s) (\<lambda>(found, s).
        if found then Inr (True, add_info T m l s) else Inr (False, note_blocker T m (myProc pl) s))) {leader (group_of T) (myProc pl)}"
      unfolding One_nat_def by (rule edge_ok [OF rec [OF in_U [OF hard [OF pl]]] m hard [OF pl] Some]) (simp_all add: edge_soft_def)
  qed
  have q: "step_ok T orders U stack 1 a (search_list (\<lambda>w s. rbind (recurse (procno w) s) (\<lambda>(found, s).
                   if found
                   then Inr (True, (add_info T m l s)\<lparr>softEdges := softEdges s @ [\<lparr>edge_waiter = a, edge_blocker = waiter_leader w, edge_lock = l\<rparr>]\<rparr>)
                   else Inr (False, s))) ?Q)
             (\<Union>w \<in> set ?Q. {leader (group_of T) (procno w)})"
  proof (rule search_list_ok)
    fix w assume w: "w \<in> set ?Q"
    show "step_ok T orders U stack 1 a (\<lambda>s. rbind (recurse (procno w) s) (\<lambda>(found, s).
        if found
        then Inr (True, (add_info T m l s)\<lparr>softEdges := softEdges s @ [\<lparr>edge_waiter = a, edge_blocker = waiter_leader w, edge_lock = l\<rparr>]\<rparr>)
        else Inr (False, s))) {leader (group_of T) (procno w)}"
      unfolding One_nat_def by (rule edge_ok [OF rec [OF in_U [OF soft [OF w]]] m soft [OF w] Some]) (simp_all add: edge_soft_def)
  qed
  have "{b. \<exists>e. waits_via T orders a m e b} = (\<Union>pl \<in> set ?H. {leader (group_of T) (myProc pl)}) \<union> (\<Union>w \<in> set ?Q. {leader (group_of T) (procno w)})"
    using Some by (auto simp: waits_via_def)
  then show ?thesis using then_ok [OF h q, of "note_queue T m a l"] Some
    by (simp add: FindLockCycleRecurseMember_def [abs_def])
qed

lemma visited_room: "visit_ok U stack s \<Longrightarrow> finite U \<Longrightarrow> a \<in> U \<Longrightarrow> a \<notin> set (visitedProcs s) \<Longrightarrow> length (visitedProcs s) < card U"
  using psubset_card_mono [of U "set (visitedProcs s)"] by (auto simp: visit_ok_def distinct_card)

definition check_group :: "nat \<Rightarrow> lock_tables \<Rightarrow> WAIT_ORDER list \<Rightarrow> nat \<Rightarrow> search \<Rightarrow> (bool \<times> search) result" where
  "check_group stack T orders a =
     search_list (FindLockCycleRecurseMember (FindLockCycleRecurse stack T orders) T orders a) (a # filter (\<lambda>m. m \<noteq> a) (lockGroupMembers T a))"

lemma FindLockCycleRecurse_new:
  "leader (group_of T) p = a \<Longrightarrow> a \<notin> set (visitedProcs s) \<Longrightarrow> length (visitedProcs s) < MaxBackends T \<Longrightarrow>
   FindLockCycleRecurse (Suc stack) T orders p s = check_group stack T orders a (s\<lparr>visitedProcs := visitedProcs s @ [a]\<rparr>)"
  by (simp add: check_group_def Let_def del: search_list.simps)

lemma group_ok:
  assumes "\<And>p. leader (group_of T) p \<in> U \<Longrightarrow> step_ok T orders U stack 0 (leader (group_of T) p) (FindLockCycleRecurse stack T orders p) {leader (group_of T) p}"
    and "a \<in> U" and "closed_procs T orders U"
  shows "step_ok T orders U stack 1 a (check_group stack T orders a) {b. \<exists>e. waits_for T orders a e b}"
proof -
  let ?ms = "a # filter (\<lambda>m. m \<noteq> a) (lockGroupMembers T a)"
  have "{b. \<exists>e. waits_for T orders a e b} = (\<Union>m \<in> set ?ms. {b. \<exists>e. waits_via T orders a m e b})" by (auto simp: waits_for_def)
  then show ?thesis unfolding check_group_def
    by (simp only:) (rule search_list_ok, rule member_ok [OF assms(1) _ assms(2,3)], auto)
qed

text \<open>The visit of a new process.\<close>

lemma visit_new_ok:
  assumes U: "closed_procs T orders U" and a: "a \<in> U" "leader (group_of T) p = a"
    and G: "step_ok T orders U stack 1 a (check_group stack T orders a) {b. \<exists>e. waits_for T orders a e b}"
    and s: "visit_ok U (Suc stack) s" "a \<notin> set (visitedProcs s)"
  shows "(\<exists>s' new es. FindLockCycleRecurse (Suc stack) T orders p s = Inr (True, s') \<and> visitedProcs s' = visitedProcs s @ new \<and> visit_ok U (Suc stack) s' \<and>
       noted_path T orders a es (deadlockDetails s') (hd (visitedProcs s)) \<and> 0 \<le> length es \<and> length es \<le> length new + 0 \<and> softEdges s' = softEdges s @ rev (softs es)) \<or>
    (\<exists>s' new. FindLockCycleRecurse (Suc stack) T orders p s = Inr (False, s') \<and> visitedProcs s' = visitedProcs s @ new \<and> visit_ok U (Suc stack) s' \<and>
       softEdges s' = softEdges s \<and> (\<forall>u \<in> set new. explored T orders s' u) \<and> (\<forall>v \<in> {a}. v \<in> set (visitedProcs s') \<and> v \<noteq> hd (visitedProcs s)))"
proof -
  let ?s = "s\<lparr>visitedProcs := visitedProcs s @ [a]\<rparr>"
  have fin: "finite U" "card U \<le> MaxBackends T" using U by (simp_all add: closed_procs_def)
  have room: "length (visitedProcs s) < card U" by (rule visited_room [OF s(1) fin(1) a(1) s(2)])
  have ok: "visit_ok U stack ?s" using s a(1) by (auto simp: visit_ok_def)
  have up: "visit_ok U (Suc stack) s'" if "visit_ok U stack s'" for s' using that by (simp add: visit_ok_def)
  have eq: "FindLockCycleRecurse (Suc stack) T orders p s = check_group stack T orders a ?s"
    using s(2) room fin(2) a(2) by (intro FindLockCycleRecurse_new) simp_all
  have hd2: "hd (visitedProcs ?s) = hd (visitedProcs s)" using s(1) by (simp add: visit_ok_def)
  from G ok show ?thesis
  proof (cases rule: step_okE)
    case (found s' n es)
    then show ?thesis using up hd2 eq by (intro disjI1 exI [of _ s'] exI [of _ "a # n"] exI [of _ es]) (simp del: FindLockCycleRecurse.simps)
  next
    case (none s' n)
    have "explored T orders s' a" using none(2,6) hd2 s(1) by (auto simp: explored_def visit_ok_def)
    moreover have "a \<noteq> hd (visitedProcs s)" using s by (auto simp: visit_ok_def)
    ultimately show ?thesis using none up eq by (intro disjI2 exI [of _ s'] exI [of _ "a # n"]) (simp del: FindLockCycleRecurse.simps)
  qed
qed

lemma recurse_ok:
  assumes "closed_procs T orders U" "leader (group_of T) p \<in> U"
  shows "step_ok T orders U stack 0 (leader (group_of T) p) (FindLockCycleRecurse stack T orders p) {leader (group_of T) p}"
  using assms(2)
proof (induction stack arbitrary: p)
  case 0
  have "length (visitedProcs s) \<le> card U" if "distinct (visitedProcs s)" "set (visitedProcs s) \<subseteq> U" for s
    using that assms(1) card_mono [of U "set (visitedProcs s)"] by (simp add: closed_procs_def distinct_card)
  then show ?case by (intro step_okI) (auto simp: visit_ok_def not_less [symmetric])
next
  case (Suc stack)
  let ?a = "leader (group_of T) p"
  have G: "step_ok T orders U stack 1 ?a (check_group stack T orders ?a) {b. \<exists>e. waits_for T orders ?a e b}" by (rule group_ok) (use Suc assms in auto)
  show ?case
  proof (rule step_okI, goal_cases)
    case (1 s)
    have hd: "hd (visitedProcs s) = visitedProcs s ! 0" using 1 by (simp add: visit_ok_def hd_conv_nth)
    consider (start) "?a = hd (visitedProcs s)" | (seen) "?a \<in> set (visitedProcs s)" "?a \<noteq> hd (visitedProcs s)" | (new) "?a \<notin> set (visitedProcs s)" by blast
    then show ?case
    proof cases
      case start
      then have "?a \<in> set (visitedProcs s)" using 1 by (simp add: visit_ok_def)
      then show ?thesis using start 1 hd
        by (intro disjI1 exI [of _ "s\<lparr>deadlockDetails := []\<rparr>"] exI [of _ "[]"]) (simp add: Let_def visit_ok_def noted_here)
    next
      case seen
      then show ?thesis using 1 hd by (intro disjI2 exI [of _ s] exI [of _ "[]"]) (simp add: Let_def)
    next
      case new
      then show ?thesis by (rule visit_new_ok [OF assms(1) Suc.prems refl G 1])
    qed
  qed
qed

text \<open>A set that is closed under edges, none of which leads to \<open>c\<close>, has no path to \<open>c\<close>.\<close>

lemma no_path:
  assumes "wait_path T orders a es c" "es \<noteq> []" "a \<in> V" "\<And>u e v. u \<in> V \<Longrightarrow> waits_for T orders u e v \<Longrightarrow> v \<in> V \<and> v \<noteq> c"
  shows False
  using assms
proof (induction rule: wait_path.induct)
  case (path_here a)
  then show ?case by simp
next
  case (path_step a e b es c)
  have "b \<in> V" "b \<noteq> c" using path_step.prems(3) [OF path_step.prems(2) path_step.hyps(1)] by auto
  then show ?case using path_step by (cases "es = []") (auto elim: wait_path.cases)
qed

lemma FindLockCycle_returns:
  assumes U: "closed_procs T orders U" "leader (group_of T) proc \<in> U" and "card U < stack"
  defines "c \<equiv> leader (group_of T) proc"
  shows "(\<exists>s' es. FindLockCycle stack T orders proc s = Inr (True, s') \<and> es \<noteq> [] \<and> noted_path T orders c es (deadlockDetails s') c \<and> softEdges s' = rev (softs es) \<and>
            length es \<le> card U) \<or>
         (\<exists>s'. FindLockCycle stack T orders proc s = Inr (False, s') \<and> softEdges s' = [] \<and> (\<nexists>es. es \<noteq> [] \<and> wait_path T orders c es c))"
proof -
  obtain k where k: "stack = Suc k" using assms(3) by (cases stack) auto
  have fin: "finite U" "card U \<le> MaxBackends T" using U by (simp_all add: closed_procs_def)
  have G: "step_ok T orders U k 1 c (check_group k T orders c) {b. \<exists>e. waits_for T orders c e b}" by (rule group_ok) (use U recurse_ok in \<open>auto simp: c_def\<close>)
  let ?s = "s\<lparr>deadlockDetails := [], softEdges := [], visitedProcs := [c]\<rparr>" and ?z = "s\<lparr>visitedProcs := [], deadlockDetails := [], softEdges := []\<rparr>"
  have ok: "visit_ok U k ?s" using U assms(3) k by (simp add: visit_ok_def c_def)
  have "0 < MaxBackends T" using fin U card_gt_0_iff [of U] by (metis empty_iff order_less_le_trans)
  then have "FindLockCycleRecurse (Suc k) T orders proc ?z = check_group k T orders c (?z\<lparr>visitedProcs := visitedProcs ?z @ [c]\<rparr>)"
    using fin by (intro FindLockCycleRecurse_new) (simp_all add: c_def)
  then have eq: "FindLockCycle stack T orders proc s = check_group k T orders c ?s" unfolding FindLockCycle_def k by (simp del: FindLockCycleRecurse.simps)
  from G ok show ?thesis
  proof (cases rule: step_okE)
    case (found s' n es)
    have "length (c # n) \<le> card U" using found(2,3) fin card_mono [of U "set (c # n)"] by (simp add: visit_ok_def distinct_card)
    then show ?thesis using found eq by (intro disjI1 exI [of _ s'] exI [of _ es]) auto
  next
    case (none s' n)
    have closed: "v \<in> set (c # n) \<and> v \<noteq> c" if "u \<in> set (c # n)" "waits_for T orders u e v" for u e v
      using that none by (auto simp: explored_def)
    have "\<nexists>es. es \<noteq> [] \<and> wait_path T orders c es c"
    proof
      assume "\<exists>es. es \<noteq> [] \<and> wait_path T orders c es c"
      then obtain es where es: "es \<noteq> []" "wait_path T orders c es c" by blast
      show False by (rule no_path [OF es(2,1), where V = "set (c # n)"]) (simp, erule closed, assumption)
    qed
    then show ?thesis using none eq by (intro disjI2 exI [of _ s']) simp
  qed
qed

section \<open>The order of a queue\<close>

text \<open>
  The leaders are not members of another group. An order obeys a constraint when every waiter of the group \<open>edge_waiter\<close> stands before every waiter of the
  group \<open>edge_blocker\<close>; a constraint on groups that are not in the queue says nothing.
\<close>

definition groups_ok :: "waiter list \<Rightarrow> EDGE list \<Rightarrow> bool" where
  "groups_ok queue constraints \<longleftrightarrow>
     (\<forall>w \<in> set queue. procno w \<in> waiter_leader ` set queue \<union> edge_waiter ` set constraints \<union> edge_blocker ` set constraints \<longrightarrow> waiter_leader w = procno w)"

definition obeys :: "waiter list \<Rightarrow> EDGE \<Rightarrow> bool" where
  "obeys order e \<longleftrightarrow>
     (edge_waiter e \<in> waiter_leader ` set order \<and> edge_blocker e \<in> waiter_leader ` set order \<longrightarrow>
      edge_waiter e \<noteq> edge_blocker e \<and> sorted_wrt (\<lambda>v w. \<not> (waiter_leader v = edge_blocker e \<and> waiter_leader w = edge_waiter e)) order)"

definition group_pos :: "waiter list \<Rightarrow> nat \<Rightarrow> nat list" where
  "group_pos queue g = filter (\<lambda>j. waiter_leader (queue ! j) = g) [0..<length queue]"

definition group_rep :: "waiter list \<Rightarrow> nat \<Rightarrow> nat" where
  "group_rep queue g = last (group_pos queue g)"

definition relevant :: "waiter list \<Rightarrow> EDGE list \<Rightarrow> EDGE list" where
  "relevant queue = filter (\<lambda>e. group_pos queue (edge_waiter e) \<noteq> [] \<and> group_pos queue (edge_blocker e) \<noteq> [])"

definition marked :: "waiter list \<Rightarrow> EDGE list \<Rightarrow> nat \<Rightarrow> bool" where
  "marked queue constraints g \<longleftrightarrow> (\<exists>e \<in> set constraints. edge_waiter e = g \<or> group_pos queue (edge_waiter e) \<noteq> [] \<and> edge_blocker e = g)"

lemma in_group_leader:
  assumes "groups_ok queue constraints" "w \<in> set queue"
    "p \<in> waiter_leader ` set queue \<union> edge_waiter ` set constraints \<union> edge_blocker ` set constraints"
  shows "in_group p w \<longleftrightarrow> waiter_leader w = p"
proof -
  have "procno w = p \<Longrightarrow> waiter_leader w = p" using assms unfolding groups_ok_def by metis
  then show ?thesis by (auto simp: in_group_def waiter_leader_def split: option.splits)
qed

lemma positions_pos:
  assumes "groups_ok queue constraints" "e \<in> set constraints"
  shows "positions queue (edge_waiter e) = group_pos queue (edge_waiter e)" "positions queue (edge_blocker e) = group_pos queue (edge_blocker e)"
  unfolding positions_def group_pos_def using in_group_leader [OF assms(1)] assms(2) by (auto intro!: filter_cong)

lemma pos_nonempty: "group_pos queue g \<noteq> [] \<longleftrightarrow> g \<in> waiter_leader ` set queue"
  unfolding group_pos_def filter_empty_conv by (auto simp: in_set_conv_nth image_iff Bex_def)

lemma set_pos: "set (group_pos queue g) = {j. j < length queue \<and> waiter_leader (queue ! j) = g}"
  by (auto simp: group_pos_def)

lemma rep_pos:
  assumes "group_pos queue g \<noteq> []"
  shows "group_rep queue g < length queue" "waiter_leader (queue ! group_rep queue g) = g"
  using last_in_set [OF assms] by (auto simp: group_rep_def set_pos)

lemma rep_eq_iff: "group_pos queue g \<noteq> [] \<Longrightarrow> group_rep queue g = j \<longleftrightarrow> j = group_rep queue (waiter_leader (queue ! j)) \<and> g = waiter_leader (queue ! j)"
  using rep_pos by metis

lemma butlast_pos: "group_pos queue g \<noteq> [] \<Longrightarrow> set (butlast (group_pos queue g)) = set (group_pos queue g) - {group_rep queue g}"
proof -
  assume ne: "group_pos queue g \<noteq> []"
  have "distinct (butlast (group_pos queue g) @ [last (group_pos queue g)])" using ne by (simp add: group_pos_def)
  moreover have "set (group_pos queue g) = set (butlast (group_pos queue g) @ [last (group_pos queue g)])" using ne by simp
  ultimately show "set (butlast (group_pos queue g)) = set (group_pos queue g) - {group_rep queue g}" unfolding group_rep_def by auto
qed

lemma mark_others_length [simp]: "length (mark_others ps b) = length b"
proof -
  have "length (fold (\<lambda>j b. b[j := - 1]) qs b) = length b" for qs :: "nat list" and b :: "int list" by (induction qs arbitrary: b) simp_all
  then show ?thesis by (simp add: mark_others_def)
qed

lemma mark_others_nth: "j < length b \<Longrightarrow> mark_others ps b ! j = (if j \<in> set (butlast ps) then - 1 else b ! j)"
proof -
  have "j < length b \<Longrightarrow> fold (\<lambda>j b. b[j := - 1]) qs b ! j = (if j \<in> set qs then - 1 else b ! j)" for qs :: "nat list" and b :: "int list"
    by (induction qs arbitrary: b) (simp_all add: nth_list_update)
  then show "j < length b \<Longrightarrow> mark_others ps b ! j = (if j \<in> set (butlast ps) then - 1 else b ! j)" by (simp add: mark_others_def)
qed

text \<open>The topo_counts when the groups of \<open>gone\<close> are output.\<close>

definition topo_counts :: "waiter list \<Rightarrow> EDGE list \<Rightarrow> nat set \<Rightarrow> topo \<Rightarrow> bool" where
  "topo_counts queue constraints gone t \<longleftrightarrow>
     length (topoProcs t) = length queue \<and> length (beforeConstraints t) = length queue \<and> length (afterConstraints t) = length queue \<and>
     (\<forall>j < length queue.
        topoProcs t ! j = (if waiter_leader (queue ! j) \<in> gone then None else Some (queue ! j)) \<and>
        beforeConstraints t ! j =
          (if j = group_rep queue (waiter_leader (queue ! j))
           then int (length (filter (\<lambda>e. edge_waiter e = waiter_leader (queue ! j) \<and> edge_blocker e \<notin> gone) (relevant queue constraints)))
           else if marked queue constraints (waiter_leader (queue ! j)) then - 1 else 0) \<and>
        afterConstraints t ! j = rev (map (\<lambda>e. group_rep queue (edge_waiter e)) (filter (\<lambda>e. group_rep queue (edge_blocker e) = j) (relevant queue constraints))))"

lemma count_constraint_counts:
  assumes ok: "groups_ok queue (constraints @ [e])" and c: "topo_counts queue constraints {} t"
  shows "topo_counts queue (constraints @ [e]) {} (count_constraint queue e t)"
proof -
  let ?g = "\<lambda>j. waiter_leader (queue ! j)"
  have p: "positions queue (edge_waiter e) = group_pos queue (edge_waiter e)" "positions queue (edge_blocker e) = group_pos queue (edge_blocker e)"
    using positions_pos [OF ok, of e] by simp_all
  have here: "group_pos queue (?g j) \<noteq> []" if "j < length queue" for j using that by (auto simp: pos_nonempty)
  consider (none) "group_pos queue (edge_waiter e) = []" | (one) "group_pos queue (edge_waiter e) \<noteq> []" "group_pos queue (edge_blocker e) = []"
    | (both) "group_pos queue (edge_waiter e) \<noteq> []" "group_pos queue (edge_blocker e) \<noteq> []" by blast
  then show ?thesis
  proof cases
    case none
    have "marked queue (constraints @ [e]) (?g j) = marked queue constraints (?g j)" if "j < length queue" for j
      using none here [OF that] by (auto simp: marked_def)
    then show ?thesis using none c p by (simp add: topo_counts_def count_constraint_def relevant_def Let_def)
  next
    case one
    have "marked queue (constraints @ [e]) (?g j) = (marked queue constraints (?g j) \<or> edge_waiter e = ?g j)" if "j < length queue" for j
      using one here [OF that] by (auto simp: marked_def)
    then show ?thesis using one c p
      by (auto simp: topo_counts_def count_constraint_def relevant_def Let_def mark_others_nth butlast_pos set_pos)
  next
    case both
    have "marked queue (constraints @ [e]) (?g j) = (marked queue constraints (?g j) \<or> edge_waiter e = ?g j \<or> edge_blocker e = ?g j)" if "j < length queue" for j
      using both by (auto simp: marked_def)
    then show ?thesis using both c p rep_pos [OF both(1)] rep_pos [OF both(2)]
      by (auto simp: topo_counts_def count_constraint_def relevant_def Let_def mark_others_nth butlast_pos set_pos nth_list_update group_rep_def [symmetric] rep_eq_iff)
  qed
qed

lemma fold_counts:
  "groups_ok queue constraints \<Longrightarrow>
   topo_counts queue constraints {} (fold (count_constraint queue) constraints
     \<lparr>topoProcs = map Some queue, beforeConstraints = replicate (length queue) 0, afterConstraints = replicate (length queue) []\<rparr>)"
proof (induction constraints rule: rev_induct)
  case Nil
  then show ?case by (simp add: topo_counts_def relevant_def marked_def)
next
  case (snoc e constraints)
  have "groups_ok queue constraints" using snoc.prems by (simp only: groups_ok_def set_append image_Un Un_iff) blast
  from count_constraint_counts [OF snoc.prems snoc.IH [OF this]] show ?case by simp
qed

lemma fold_decrement:
  "length (fold (\<lambda>p b. b[p := b ! p - 1]) ps b) = length b"
  "j < length b \<Longrightarrow> fold (\<lambda>p b. b[p := b ! p - 1]) ps b ! j = b ! j - int (length (filter (\<lambda>p. p = j) ps))"
  for b :: "int list"
  by (induction ps arbitrary: b) (auto simp: nth_list_update)

lemma length_filter_gone:
  "length (filter (\<lambda>e. P e \<and> f e \<notin> A) xs) = length (filter (\<lambda>e. P e \<and> f e \<notin> insert g A) xs) + length (filter (\<lambda>e. P e \<and> f e = g) xs)" if "g \<notin> A"
  using that by (induction xs) auto

lemma relevant_pos: "e \<in> set (relevant queue constraints) \<Longrightarrow> group_pos queue (edge_waiter e) \<noteq> [] \<and> group_pos queue (edge_blocker e) \<noteq> [] \<and> e \<in> set constraints"
  by (simp add: relevant_def)

lemma topoProcs_map: "topo_counts queue constraints gone t \<Longrightarrow> topoProcs t = map (\<lambda>w. if waiter_leader w \<in> gone then None else Some w) queue"
  by (rule nth_equalityI) (simp_all add: topo_counts_def)

lemma candidate_counts:
  assumes "topo_counts queue constraints gone t" "candidate t = Some j"
  shows "j < length queue" "waiter_leader (queue ! j) \<notin> gone" "topoProcs t ! j = Some (queue ! j)" "beforeConstraints t ! j = 0"
  using candidate_SomeD [OF assms(2)] assms(1) by (auto simp: topo_counts_def split: if_splits)

lemma candidate_relevant:
  assumes c: "topo_counts queue constraints gone t" and j: "candidate t = Some j" and e: "e \<in> set (relevant queue constraints)"
  shows "edge_waiter e = waiter_leader (queue ! j) \<Longrightarrow> edge_blocker e \<in> gone"
    "group_rep queue (edge_blocker e) = j \<longleftrightarrow> edge_blocker e = waiter_leader (queue ! j)"
proof -
  let ?g = "waiter_leader (queue ! j)"
  note cj = candidate_counts [OF c j]
  have b: "0 = (if j = group_rep queue ?g then int (length (filter (\<lambda>e. edge_waiter e = ?g \<and> edge_blocker e \<notin> gone) (relevant queue constraints)))
           else if marked queue constraints ?g then - 1 else 0)"
    using c cj by (auto simp: topo_counts_def)
  have m: "j = group_rep queue ?g" if "edge_waiter e = ?g \<or> edge_blocker e = ?g"
  proof -
    have "marked queue constraints ?g" using that relevant_pos [OF e] by (auto simp: marked_def)
    then show ?thesis using b by (auto split: if_splits)
  qed
  show "edge_blocker e \<in> gone" if "edge_waiter e = ?g"
    using b m that e by (auto simp: filter_empty_conv)
  show "group_rep queue (edge_blocker e) = j \<longleftrightarrow> edge_blocker e = ?g"
    using m rep_eq_iff relevant_pos [OF e] by metis
qed

lemma taken_iff:
  assumes "groups_ok queue constraints" "topo_counts queue constraints gone t" "candidate t = Some j" "w \<in> set queue"
  shows "taken t j (Some w) \<longleftrightarrow> waiter_leader w = waiter_leader (queue ! j)"
  using in_group_leader [OF assms(1,4)] candidate_counts [OF assms(2,3)] by (simp add: taken_def)

lemma output_group_counts:
  assumes ok: "groups_ok queue constraints" and c: "topo_counts queue constraints gone t" and j: "candidate t = Some j"
  shows "topo_counts queue constraints (insert (waiter_leader (queue ! j)) gone) (output_group j t)"
proof -
  let ?g = "waiter_leader (queue ! j)" and ?R = "relevant queue constraints"
  note cj = candidate_counts [OF c j]
  have topo: "topoProcs (output_group j t) ! i = (if waiter_leader (queue ! i) \<in> insert ?g gone then None else Some (queue ! i))" if "i < length queue" for i
    using that taken_iff [OF ok c j nth_mem [OF that]] by (auto simp: output_group_def topoProcs_map [OF c])
  have aft: "afterConstraints t ! j = rev (map (\<lambda>e. group_rep queue (edge_waiter e)) (filter (\<lambda>e. edge_blocker e = ?g) ?R))"
    using c cj(1) candidate_relevant(2) [OF c j] by (simp add: topo_counts_def cong: filter_cong)
  have bef: "beforeConstraints (output_group j t) ! i =
      beforeConstraints t ! i - int (length (filter (\<lambda>e. group_rep queue (edge_waiter e) = i \<and> edge_blocker e = ?g) ?R))" if "i < length queue" for i
    using that c by (simp add: output_group_def fold_decrement topo_counts_def aft rev_filter [symmetric] filter_map o_def conj_commute)
  have own: "filter (\<lambda>e. group_rep queue (edge_waiter e) = i \<and> edge_blocker e = ?g) ?R =
      (if i = group_rep queue (waiter_leader (queue ! i)) then filter (\<lambda>e. edge_waiter e = waiter_leader (queue ! i) \<and> edge_blocker e = ?g) ?R else [])" for i
    using rep_eq_iff relevant_pos by (auto intro!: filter_cong simp: filter_empty_conv)
  show ?thesis using c topo
    by (auto simp: topo_counts_def bef own length_filter_gone [OF cj(2)]) (simp_all add: output_group_def fold_decrement)
qed

lemma sorted_wrt_all: "(\<And>x y. x \<in> set xs \<Longrightarrow> y \<in> set xs \<Longrightarrow> P x y) \<Longrightarrow> sorted_wrt P xs"
  by (induction xs) auto

text \<open>What is output so far.\<close>

definition topo_placed :: "waiter list \<Rightarrow> EDGE list \<Rightarrow> nat set \<Rightarrow> waiter list \<Rightarrow> bool" where
  "topo_placed queue constraints gone out \<longleftrightarrow>
     mset out = filter_mset (\<lambda>w. waiter_leader w \<in> gone) (mset queue) \<and>
     (\<forall>e \<in> set (relevant queue constraints). edge_waiter e \<in> gone \<longrightarrow>
        edge_blocker e \<in> gone \<and> edge_waiter e \<noteq> edge_blocker e \<and>
        sorted_wrt (\<lambda>v w. \<not> (waiter_leader v = edge_blocker e \<and> waiter_leader w = edge_waiter e)) out)"

lemma topo_placed_set: "topo_placed queue constraints gone out \<Longrightarrow> set out = {w \<in> set queue. waiter_leader w \<in> gone}"
  unfolding topo_placed_def by (metis set_mset_filter set_mset_mset)

lemma taken_list:
  assumes "groups_ok queue constraints" "topo_counts queue constraints gone t" "candidate t = Some j"
  shows "List.map_filter (\<lambda>x. if taken t j x then x else None) (topoProcs t) = filter (\<lambda>w. waiter_leader w = waiter_leader (queue ! j)) queue"
proof -
  have "List.map_filter (\<lambda>x. if taken t j x then x else None) (map (\<lambda>w. if waiter_leader w \<in> gone then None else Some w) ws) =
      filter (\<lambda>w. waiter_leader w = waiter_leader (queue ! j)) ws" if "set ws \<subseteq> set queue" for ws
    using that candidate_counts(2) [OF assms(2,3)] taken_iff [OF assms]
    by (induction ws) (auto simp: List.map_filter_simps taken_def)
  then show ?thesis by (simp add: topoProcs_map [OF assms(2)])
qed

lemma topo_placed_output:
  assumes "topo_counts queue constraints gone t" "candidate t = Some j" "topo_placed queue constraints gone out"
  shows "topo_placed queue constraints (insert (waiter_leader (queue ! j)) gone) (rev (filter (\<lambda>w. waiter_leader w = waiter_leader (queue ! j)) queue) @ out)"
proof -
  let ?g = "waiter_leader (queue ! j)" and ?new = "filter (\<lambda>w. waiter_leader w = waiter_leader (queue ! j)) queue"
  note g = candidate_counts(2) [OF assms(1,2)]
  have out: "waiter_leader w \<in> gone" if "w \<in> set out" for w using that topo_placed_set [OF assms(3)] by auto
  have "filter_mset (\<lambda>w. waiter_leader w \<in> insert ?g gone) M = filter_mset (\<lambda>w. waiter_leader w = ?g) M + filter_mset (\<lambda>w. waiter_leader w \<in> gone) M" for M
    using g by (induction M) auto
  then have m: "mset (rev ?new @ out) = filter_mset (\<lambda>w. waiter_leader w \<in> insert ?g gone) (mset queue)"
    using assms(3) by (simp add: topo_placed_def)
  have "edge_blocker e \<in> gone \<and> edge_waiter e \<noteq> edge_blocker e \<and>
        sorted_wrt (\<lambda>v w. \<not> (waiter_leader v = edge_blocker e \<and> waiter_leader w = edge_waiter e)) (rev ?new @ out)"
    if e: "e \<in> set (relevant queue constraints)" "edge_waiter e \<in> insert ?g gone" for e
  proof (cases "edge_waiter e = ?g")
    case True
    then have "edge_blocker e \<in> gone" using candidate_relevant(1) [OF assms(1,2) e(1)] by simp
    moreover have "waiter_leader w \<noteq> ?g" if "w \<in> set out" for w using out [OF that] g by auto
    ultimately show ?thesis using True g unfolding sorted_wrt_append by (auto intro!: sorted_wrt_all)
  next
    case False
    then have "edge_blocker e \<in> gone \<and> edge_waiter e \<noteq> edge_blocker e \<and>
        sorted_wrt (\<lambda>v w. \<not> (waiter_leader v = edge_blocker e \<and> waiter_leader w = edge_waiter e)) out"
      using assms(3) e by (auto simp: topo_placed_def)
    then show ?thesis using False g unfolding sorted_wrt_append by (auto intro!: sorted_wrt_all)
  qed
  then show ?thesis using m unfolding topo_placed_def by blast
qed

text \<open>When there is no candidate, no order obeys the constraints.\<close>

lemma no_candidate:
  assumes c: "topo_counts queue constraints gone t" and none: "candidate t = None" and left: "\<not> list_all (\<lambda>x. x = None) (topoProcs t)"
    and xs: "mset xs = mset queue" "\<forall>e \<in> set constraints. obeys xs e"
  shows False
proof -
  have set_xs: "set xs = set queue" using xs(1) by (metis set_mset_mset)
  have "\<exists>w \<in> set xs. waiter_leader w \<notin> gone" using left set_xs by (auto simp: topoProcs_map [OF c] list_all_iff split: if_splits)
  then obtain ys w zs where split: "xs = ys @ w # zs" "waiter_leader w \<notin> gone" "\<forall>v \<in> set zs. \<not> waiter_leader v \<notin> gone"
    using split_list_last_prop [of xs "\<lambda>w. waiter_leader w \<notin> gone"] by blast
  let ?g = "waiter_leader w"
  have p: "group_pos queue ?g \<noteq> []" using split(1) set_xs by (auto simp: pos_nonempty)
  note r = rep_pos [OF p]
  have "topoProcs t ! group_rep queue ?g \<noteq> None" using c r split(2) by (simp add: topo_counts_def)
  moreover have "group_rep queue ?g < length (topoProcs t)" using c r by (simp add: topo_counts_def)
  ultimately have "beforeConstraints t ! group_rep queue ?g \<noteq> 0" using none by (auto simp: candidate_def find_None_iff)
  then have "filter (\<lambda>e. edge_waiter e = ?g \<and> edge_blocker e \<notin> gone) (relevant queue constraints) \<noteq> []"
    using c r by (auto simp: topo_counts_def)
  then obtain e where e: "e \<in> set (relevant queue constraints)" "edge_waiter e = ?g" "edge_blocker e \<notin> gone" by (auto simp: filter_empty_conv)
  have b: "edge_blocker e \<in> waiter_leader ` set xs" using relevant_pos [OF e(1)] set_xs by (simp add: pos_nonempty)
  have "obeys xs e" using xs(2) relevant_pos [OF e(1)] by blast
  moreover have "?g \<in> waiter_leader ` set xs" using split(1) by simp
  ultimately have s: "?g \<noteq> edge_blocker e" "sorted_wrt (\<lambda>v w. \<not> (waiter_leader v = edge_blocker e \<and> waiter_leader w = ?g)) xs"
    using b e(2) by (simp_all add: obeys_def)
  from b obtain v where v: "v \<in> set xs" "waiter_leader v = edge_blocker e" by auto
  then have "v \<in> set ys" using split e(3) s(1) by auto
  then show False using s(2) v(2) split(1) by (auto simp: sorted_wrt_append)
qed

lemma TopoSortScan_correct:
  assumes "groups_ok queue constraints" "topo_counts queue constraints gone t" "topo_placed queue constraints gone out"
  shows "case TopoSortScan t out of
           Some order \<Rightarrow> mset order = mset queue \<and> (\<forall>e \<in> set constraints. obeys order e)
         | None \<Rightarrow> (\<nexists>order. mset order = mset queue \<and> (\<forall>e \<in> set constraints. obeys order e))"
  using assms(2,3)
proof (induction t out arbitrary: gone rule: TopoSortScan.induct)
  case (1 t out)
  show ?case
  proof (cases "list_all (\<lambda>x. x = None) (topoProcs t)")
    case True
    then have all: "waiter_leader w \<in> gone" if "w \<in> set queue" for w
      using that by (auto simp: topoProcs_map [OF "1.prems"(1)] list_all_iff split: if_splits)
    then have "filter_mset (\<lambda>w. waiter_leader w \<in> gone) (mset queue) = mset queue" by (simp add: filter_mset_eq_conv)
    then have m: "mset out = mset queue" using "1.prems"(2) by (simp add: topo_placed_def)
    then have "set out = set queue" by (metis set_mset_mset)
    then have "obeys out e" if "e \<in> set constraints" for e
      using that "1.prems"(2) all unfolding obeys_def topo_placed_def relevant_def by (auto simp: pos_nonempty)
    then show ?thesis using True m by (simp add: TopoSortScan.simps [of t])
  next
    case False
    show ?thesis
    proof (cases "candidate t")
      case None
      then show ?thesis using False no_candidate [OF "1.prems"(1) None False] by (auto simp: TopoSortScan.simps [of t])
    next
      case (Some j)
      show ?thesis unfolding TopoSortScan.simps [of t] using False Some
        "1.IH" [OF False Some output_group_counts [OF assms(1) "1.prems"(1) Some]] topo_placed_output [OF "1.prems"(1) Some "1.prems"(2)]
        by (simp add: taken_list [OF assms(1) "1.prems"(1) Some])
    qed
  qed
qed

lemma TopoSort_sorts:
  assumes "groups_ok (waitProcs lock) constraints"
  shows "case TopoSort lock constraints of
           Some order \<Rightarrow> mset order = mset (waitProcs lock) \<and> (\<forall>e \<in> set constraints. obeys order e)
         | None \<Rightarrow> (\<nexists>order. mset order = mset (waitProcs lock) \<and> (\<forall>e \<in> set constraints. obeys order e))"
  unfolding TopoSort_def Let_def by (rule TopoSortScan_correct [OF assms fold_counts [OF assms]]) (simp add: topo_placed_def)

section \<open>Examples\<close>

text \<open>
  Process 3 holds AccessShareLock on lock 0 and waits for lock 1, which process 1 holds. Process 4 waits for AccessExclusiveLock on lock 0; behind it a process
  waits for ExclusiveLock, which conflicts with the request of process 4 only: process 1 in \<open>tables_1\<close>, and process 2 of the lock group of process 1 in \<open>tables_2\<close>.
\<close>

definition ex_lock0 :: "nat \<Rightarrow> nat option \<Rightarrow> LOCK" where
  "ex_lock0 p g = \<lparr>grantMask = LOCKBIT_ON AccessShareLock, waitMask = LOCKBIT_ON AccessExclusiveLock OR LOCKBIT_ON ExclusiveLock,
     procLocks = [\<lparr>myProc = 3, groupLeader = 3, holdMask = LOCKBIT_ON AccessShareLock\<rparr>, \<lparr>myProc = 4, groupLeader = 4, holdMask = 0\<rparr>, \<lparr>myProc = p, groupLeader = 1, holdMask = 0\<rparr>],
     waitProcs = [\<lparr>procno = 4, lockGroupLeader = None, heldLocks = 0, waitLockMode = AccessExclusiveLock\<rparr>, \<lparr>procno = p, lockGroupLeader = g, heldLocks = 0, waitLockMode = ExclusiveLock\<rparr>],
     requested = [0, 1, 0, 0, 0, 0, 0, 1, 1, 0], nRequested = 3, granted = [0, 1, 0, 0, 0, 0, 0, 0, 0, 0], nGranted = 1\<rparr>"

definition ex_lock1 :: LOCK where
  "ex_lock1 = \<lparr>grantMask = LOCKBIT_ON AccessExclusiveLock, waitMask = LOCKBIT_ON AccessShareLock,
     procLocks = [\<lparr>myProc = 1, groupLeader = 1, holdMask = LOCKBIT_ON AccessExclusiveLock\<rparr>, \<lparr>myProc = 3, groupLeader = 3, holdMask = 0\<rparr>],
     waitProcs = [\<lparr>procno = 3, lockGroupLeader = None, heldLocks = 0, waitLockMode = AccessShareLock\<rparr>],
     requested = [0, 1, 0, 0, 0, 0, 0, 0, 1, 0], nRequested = 2, granted = [0, 0, 0, 0, 0, 0, 0, 0, 1, 0], nGranted = 1\<rparr>"

definition ex_tables :: "nat \<Rightarrow> nat option \<Rightarrow> LOCK \<Rightarrow> lock_tables" where
  "ex_tables p g l = \<lparr>lock_at = (\<lambda>_. new_LOCK)(0 := l, 1 := ex_lock1),
     waitLock = (\<lambda>_. None)(3 := Some 1, 4 := Some 0, p := Some 0),
     waitMode = (\<lambda>_. 0)(3 := AccessShareLock, 4 := AccessExclusiveLock, p := ExclusiveLock),
     group_of = (\<lambda>_. None)(1 := g, p := g),
     lockGroupMembers = (\<lambda>_. [])(1 := if g = None then [] else [1, p]),
     proc_is_autovacuum = (\<lambda>_. False), proc_is_redist = (\<lambda>_. False), MyProc = p, MaxBackends = 5, max_blocking_autovacuum = 64\<rparr>"

definition no_search :: search where
  "no_search = \<lparr>visitedProcs = [], softEdges = [], deadlockDetails = [], blocking_autovacuum_proc = [], blocking_redistribution_proc = None\<rparr>"

abbreviation "tables_1 \<equiv> ex_tables 1 None (ex_lock0 1 None)"

abbreviation "tables_2 \<equiv> ex_tables 2 (Some 1) (ex_lock0 2 (Some 1))"

section \<open>The property\<close>

lemma example_groups: "groups_ok (waitProcs (ex_lock0 1 None)) [\<lparr>edge_waiter = 1, edge_blocker = 4, edge_lock = 0\<rparr>]"
  by (simp add: groups_ok_def ex_lock0_def waiter_leader_def)

text \<open>
  C17. The sort of a wait queue is right: it returns a permutation of the queue in which every waiter of the group that a constraint wants first stands before
  every waiter of the other group, and it fails only when no order of the queue obeys all the constraints.
\<close>

theorem TopoSort_correct:
  assumes "groups_ok (waitProcs lock) constraints"
  shows "case TopoSort lock constraints of
           Some order \<Rightarrow> mset order = mset (waitProcs lock) \<and> (\<forall>e \<in> set constraints. obeys order e)
         | None \<Rightarrow> (\<nexists>order. mset order = mset (waitProcs lock) \<and> (\<forall>e \<in> set constraints. obeys order e))"
  by (rule TopoSort_sorts [OF assms])

theorem TopoSort_correct_witness:
  "\<exists>order. TopoSort (ex_lock0 1 None) [\<lparr>edge_waiter = 1, edge_blocker = 4, edge_lock = 0\<rparr>] = Some order \<and> obeys order \<lparr>edge_waiter = 1, edge_blocker = 4, edge_lock = 0\<rparr>"
proof -
  have "TopoSort (ex_lock0 1 None) [\<lparr>edge_waiter = 1, edge_blocker = 4, edge_lock = 0\<rparr>] \<noteq> None" by code_simp
  then show ?thesis using TopoSort_correct [OF example_groups] by (auto split: option.splits)
qed

end
