(* ===== verification/OG_DeadlockCheck.thy ===== *)
theory OG_DeadlockCheck
  imports OG_Deadlock
begin

text \<open>
  What the verdicts of \<open>DeadLockCheck\<close> mean: it returns without an error when the stack has room for \<open>2 * MaxBackends + 2\<close> levels, a hard deadlock is a cycle through the
  process, any other verdict leaves tables in which the process is on no cycle, and the queues it leaves are reachable states of \<open>OG_Lock\<close>. The search for a cycle
  is right for the waits-for graph that the tables define, \<open>wait_chain\<close>. The last property is a false deadlock that the code reports for lock groups.
\<close>

section \<open>What the search reads\<close>

text \<open>The outcome of a search depends on the visited processes and the edges found so far, not on the notes it takes.\<close>

definition search_key :: "search \<Rightarrow> nat list \<times> EDGE list" where
  "search_key s = (visitedProcs s, softEdges s)"

definition seen_by :: "('a \<times> search) result \<Rightarrow> ('a \<times> (nat list \<times> EDGE list)) result" where
  "seen_by r = (case r of Inl e \<Rightarrow> Inl e | Inr (x, s) \<Rightarrow> Inr (x, search_key s))"

definition reads_key :: "(search \<Rightarrow> ('a \<times> search) result) \<Rightarrow> bool" where
  "reads_key f \<longleftrightarrow> (\<forall>s t. search_key s = search_key t \<longrightarrow> seen_by (f s) = seen_by (f t))"

lemma seen_by_simps [simp]: "seen_by (Inl e) = Inl e" "seen_by (Inr (x, s)) = Inr (x, search_key s)"
  by (simp_all add: seen_by_def)

lemma reads_keyI: "(\<And>s t. search_key s = search_key t \<Longrightarrow> seen_by (f s) = seen_by (f t)) \<Longrightarrow> reads_key f"
  unfolding reads_key_def by blast

lemma reads_keyD: "reads_key f \<Longrightarrow> search_key s = search_key t \<Longrightarrow> seen_by (f s) = seen_by (f t)"
  unfolding reads_key_def by blast

lemma reads_key_return:
  assumes "\<And>s t. search_key s = search_key t \<Longrightarrow> search_key (h s) = search_key (h t)"
  shows "reads_key (\<lambda>s. Inr (x, h s))"
proof (rule reads_keyI)
  fix s t assume "search_key s = search_key t"
  then have "search_key (h s) = search_key (h t)" by (rule assms)
  then show "seen_by (Inr (x, h s)) = seen_by (Inr (x, h t))" by simp
qed

lemma reads_key_Inl: "reads_key (\<lambda>s. Inl e)"
  by (simp add: reads_key_def)

lemma reads_key_rbind:
  assumes "reads_key f" "\<And>x. reads_key (\<lambda>s. g x s)"
  shows "reads_key (\<lambda>s. rbind (f s) (\<lambda>(x, s). g x s))"
proof (rule reads_keyI)
  fix s t assume "search_key s = search_key t"
  then have "seen_by (f s) = seen_by (f t)" by (rule reads_keyD [OF assms(1)])
  then consider (e) e where "f s = Inl e" "f t = Inl e" | (r) x s' t' where "f s = Inr (x, s')" "f t = Inr (x, t')" "search_key s' = search_key t'"
    by (auto simp: seen_by_def split: sum.splits)
  then show "seen_by (rbind (f s) (\<lambda>(x, s). g x s)) = seen_by (rbind (f t) (\<lambda>(x, s). g x s))"
  proof cases
    case e
    then show ?thesis by simp
  next
    case r
    have "seen_by (g x s') = seen_by (g x t')" by (rule reads_keyD [OF assms(2) r(3)])
    then show ?thesis using r by simp
  qed
qed

lemma reads_key_if: "(b \<Longrightarrow> reads_key f) \<Longrightarrow> (\<not> b \<Longrightarrow> reads_key g) \<Longrightarrow> reads_key (\<lambda>s. if b then f s else g s)"
  by (cases b) simp_all

lemma reads_key_comp: "reads_key f \<Longrightarrow> (\<And>s t. search_key s = search_key t \<Longrightarrow> search_key (h s) = search_key (h t)) \<Longrightarrow> reads_key (\<lambda>s. f (h s))"
  unfolding reads_key_def by blast

lemma reads_key_search_list: "(\<And>x. x \<in> set xs \<Longrightarrow> reads_key (f x)) \<Longrightarrow> reads_key (search_list f xs)"
proof (induction xs)
  case Nil
  show ?case by (simp add: reads_key_def)
next
  case (Cons x xs)
  have "reads_key (\<lambda>s. rbind (f x s) (\<lambda>(found, s). if found then Inr (True, s) else search_list f xs s))"
    by (intro reads_key_rbind reads_key_if reads_key_return Cons.IH Cons.prems) simp_all
  then show ?case by (simp add: search_list.simps [abs_def])
qed

lemma key_notes [simp]: "search_key (note_blocker T c p s) = search_key s" "search_key (note_queue T c a l s) = search_key s" "search_key (add_info T c l s) = search_key s"
  by (simp_all add: search_key_def)

lemma reads_key_member:
  assumes "\<And>p. reads_key (recurse p)"
  shows "reads_key (FindLockCycleRecurseMember recurse T orders a m)"
proof (cases "waitLock T m")
  case None
  then show ?thesis by (simp add: FindLockCycleRecurseMember_def reads_key_def)
next
  case (Some l)
  show ?thesis unfolding FindLockCycleRecurseMember_def [abs_def] Some option.case
    by (intro reads_key_rbind reads_key_if reads_key_return reads_key_search_list reads_key_comp [where h = "note_queue T m a l"] assms)
      (auto simp: search_key_def)
qed

lemma reads_key_recurse: "reads_key (FindLockCycleRecurse stack T orders p)"
proof (induction stack arbitrary: p)
  case 0
  show ?case by (simp add: reads_key_Inl)
next
  case (Suc stack)
  let ?a = "leader (group_of T) p"
  show ?case unfolding reads_key_def
  proof (intro allI impI)
    fix s t assume k: "search_key s = search_key t"
    then have v: "visitedProcs s = visitedProcs t" by (simp add: search_key_def)
    have "reads_key (search_list (FindLockCycleRecurseMember (FindLockCycleRecurse stack T orders) T orders ?a) (?a # filter (\<lambda>m. m \<noteq> ?a) (lockGroupMembers T ?a)))"
      by (intro reads_key_search_list reads_key_member Suc.IH)
    then show "seen_by (FindLockCycleRecurse (Suc stack) T orders p s) = seen_by (FindLockCycleRecurse (Suc stack) T orders p t)"
      using k v unfolding FindLockCycleRecurse.simps Let_def by (simp add: reads_key_def search_key_def del: search_list.simps)
  qed
qed

lemma FindLockCycle_reads: "seen_by (FindLockCycle stack T orders p s) = seen_by (FindLockCycle stack T orders p t)"
  using reads_key_recurse [of stack T orders p] unfolding FindLockCycle_def reads_key_def by (simp add: search_key_def)

lemma test_procs_reads: "map_sum id fst (test_procs stack T orders ps softFound s) = map_sum id fst (test_procs stack T orders ps softFound t)"
proof (induction ps arbitrary: softFound s t)
  case Nil
  show ?case by simp
next
  case (Cons p ps)
  show ?case
  proof (cases "FindLockCycle stack T orders p s")
    case (Inl e)
    then show ?thesis using FindLockCycle_reads [of stack T orders p s t] by (auto simp: seen_by_def split: sum.splits)
  next
    case (Inr xs)
    then obtain found s' where s': "FindLockCycle stack T orders p s = Inr (found, s')" by (cases xs) auto
    then obtain t' where t': "FindLockCycle stack T orders p t = Inr (found, t')" "search_key t' = search_key s'"
      using FindLockCycle_reads [of stack T orders p s t] by (auto simp: seen_by_def split: sum.splits)
    have "softEdges t' = softEdges s'" using t'(2) by (simp add: search_key_def)
    then show ?thesis using s' t' Cons.IH by simp
  qed
qed

lemma TestConfiguration_reads:
  assumes "TestConfiguration stack T n C p s = Inr (x, s')"
  shows "\<exists>t'. TestConfiguration stack T n C p t = Inr (x, t')"
proof (cases "ExpandConstraints T C")
  case None
  then show ?thesis using assms by (auto simp: TestConfiguration_def split: if_splits)
next
  case (Some orders)
  let ?ps = "concat (map (\<lambda>e. [edge_waiter e, edge_blocker e]) C) @ [p]"
  show ?thesis
  proof (cases "maxPossibleConstraints T < n + MaxBackends T")
    case True
    then show ?thesis using assms by (auto simp: TestConfiguration_def)
  next
    case False
    then obtain r where r: "test_procs stack T orders ?ps [] s = Inr (r, s')" "x = (r, orders)"
      using assms Some by (auto simp: TestConfiguration_def rbind_eq_Inr)
    then have "map_sum id fst (test_procs stack T orders ?ps [] t) = Inr r" using test_procs_reads [of stack T orders ?ps "[]" t s] by simp
    then obtain t' where "test_procs stack T orders ?ps [] t = Inr (r, t')" by (cases "test_procs stack T orders ?ps [] t") auto
    then show ?thesis using False Some r(2) by (simp add: TestConfiguration_def)
  qed
qed

section \<open>The verdict\<close>

text \<open>
  The tables are consistent: the entries of the queues carry the leaders of their processes, a leader is its own leader, and the leaders are numbered below
  \<open>MaxBackends\<close>. The orders of a configuration are permutations of the queues of different locks.
\<close>

definition tables_ok :: "lock_tables \<Rightarrow> bool" where
  "tables_ok T \<longleftrightarrow>
     grp_ok (group_of T) \<and>
     (\<forall>l. \<forall>w \<in> set (waitProcs (lock_at T l)). lockGroupLeader w = group_of T (procno w) \<and> leader (group_of T) (procno w) < MaxBackends T) \<and>
     (\<forall>l. \<forall>pl \<in> set (procLocks (lock_at T l)). leader (group_of T) (myProc pl) < MaxBackends T)"

definition orders_ok :: "lock_tables \<Rightarrow> WAIT_ORDER list \<Rightarrow> bool" where
  "orders_ok T orders \<longleftrightarrow> distinct (map order_lock orders) \<and> (\<forall>order \<in> set orders. mset (order_procs order) = mset (waitProcs (lock_at T (order_lock order))))"

definition free_of_cycles :: "lock_tables \<Rightarrow> WAIT_ORDER list \<Rightarrow> nat \<Rightarrow> bool" where
  "free_of_cycles T orders p \<longleftrightarrow> (\<nexists>es. es \<noteq> [] \<and> wait_path T orders (leader (group_of T) p) es (leader (group_of T) p))"

definition edges_ok :: "lock_tables \<Rightarrow> EDGE list \<Rightarrow> bool" where
  "edges_ok T es \<longleftrightarrow> (\<forall>e \<in> set es. \<forall>p \<in> {edge_waiter e, edge_blocker e}. leader (group_of T) p = p \<and> p < MaxBackends T)"

lemma leader_leader: "tables_ok T \<Longrightarrow> leader (group_of T) (leader (group_of T) p) = leader (group_of T) p"
  by (auto simp: tables_ok_def grp_ok_def leader_def split: option.splits)

lemma waiter_leader_ok: "tables_ok T \<Longrightarrow> w \<in> set (waitProcs (lock_at T l)) \<Longrightarrow> waiter_leader w = leader (group_of T) (procno w)"
  by (simp add: tables_ok_def waiter_leader_def leader_def)

lemma ahead_waits:
  assumes "orders_ok T orders" "w \<in> set (ahead T orders m a l)"
  shows "w \<in> set (waitProcs (lock_at T l))"
proof (cases "find (\<lambda>order. order_lock order = l) orders")
  case None
  then show ?thesis using assms(2) by (auto simp: ahead_def Let_def dest: set_takeWhileD)
next
  case (Some order)
  then have "order \<in> set orders" "order_lock order = l" by (auto simp: find_Some_iff)
  then have "set (order_procs order) = set (waitProcs (lock_at T l))" using assms(1) unfolding orders_ok_def by (metis set_mset_mset)
  then show ?thesis using assms(2) Some by (auto simp: ahead_def dest: set_takeWhileD)
qed

lemma waits_for_ok:
  assumes "tables_ok T" "orders_ok T orders" "waits_for T orders a e b"
  shows "b < MaxBackends T \<and> leader (group_of T) b = b \<and> (e = None \<or> (\<exists>l. e = Some \<lparr>edge_waiter = a, edge_blocker = b, edge_lock = l\<rparr>))"
proof -
  obtain m l where "(e = None \<and> (\<exists>pl \<in> set (conflicting_holders T m a l). b = leader (group_of T) (myProc pl))) \<or>
         (\<exists>w \<in> set (ahead T orders m a l). b = leader (group_of T) (procno w) \<and> e = Some \<lparr>edge_waiter = a, edge_blocker = waiter_leader w, edge_lock = l\<rparr>)"
    using assms(3) unfolding waits_for_def waits_via_def by blast
  then show ?thesis
  proof
    assume "e = None \<and> (\<exists>pl \<in> set (conflicting_holders T m a l). b = leader (group_of T) (myProc pl))"
    then show ?thesis using assms(1) leader_leader [OF assms(1)] by (auto simp: conflicting_holders_def tables_ok_def)
  next
    assume "\<exists>w \<in> set (ahead T orders m a l). b = leader (group_of T) (procno w) \<and> e = Some \<lparr>edge_waiter = a, edge_blocker = waiter_leader w, edge_lock = l\<rparr>"
    then obtain w where w: "w \<in> set (ahead T orders m a l)" "b = leader (group_of T) (procno w)" "e = Some \<lparr>edge_waiter = a, edge_blocker = waiter_leader w, edge_lock = l\<rparr>" by blast
    then have "w \<in> set (waitProcs (lock_at T l))" using ahead_waits assms(2) by blast
    then show ?thesis using w(2,3) waiter_leader_ok [OF assms(1)] leader_leader [OF assms(1)] assms(1) by (auto simp: tables_ok_def)
  qed
qed

lemma tables_closed: "tables_ok T \<Longrightarrow> orders_ok T orders \<Longrightarrow> closed_procs T orders {..<MaxBackends T}"
  using waits_for_ok by (auto simp: closed_procs_def)

lemma path_softs_ok:
  assumes "wait_path T orders a es c" "tables_ok T" "orders_ok T orders" "leader (group_of T) a = a" "a < MaxBackends T"
  shows "edges_ok T (softs es)"
  using assms
proof (induction rule: wait_path.induct)
  case (path_here a)
  then show ?case by (simp add: edges_ok_def)
next
  case (path_step a e b es c)
  note b = waits_for_ok [OF path_step.prems(1,2) path_step.hyps(1)]
  have "edges_ok T (softs es)" using path_step b by blast
  then show ?case using b path_step.prems(3,4) by (auto simp: edges_ok_def softs_Cons edge_soft_def)
qed

lemma FindLockCycle_ok:
  assumes "tables_ok T" "orders_ok T orders" "leader (group_of T) p < MaxBackends T" "MaxBackends T < stack"
  shows "(\<exists>s'. FindLockCycle stack T orders p s = Inr (True, s') \<and> \<not> free_of_cycles T orders p \<and> edges_ok T (softEdges s')) \<or>
         (\<exists>s'. FindLockCycle stack T orders p s = Inr (False, s') \<and> free_of_cycles T orders p)"
  using FindLockCycle_returns [OF tables_closed [OF assms(1,2)], of p stack s] path_softs_ok [OF noted_path_forget(1) assms(1,2)] leader_leader [OF assms(1)] assms(3,4)
  unfolding free_of_cycles_def by (fastforce simp: edges_ok_def dest: noted_path_forget(1))

lemma test_procs_ok:
  assumes "tables_ok T" "orders_ok T orders" "\<forall>p \<in> set ps. leader (group_of T) p < MaxBackends T" "MaxBackends T < stack" "edges_ok T softFound"
  shows "\<exists>r s'. test_procs stack T orders ps softFound s = Inr (r, s') \<and> (r = Some [] \<longleftrightarrow> softFound = [] \<and> (\<forall>p \<in> set ps. free_of_cycles T orders p)) \<and>
           (\<forall>edges. r = Some edges \<longrightarrow> edges_ok T edges)"
  using assms(3,5)
proof (induction ps arbitrary: softFound s)
  case Nil
  then show ?case by simp
next
  case (Cons p ps)
  have "leader (group_of T) p < MaxBackends T" using Cons.prems by simp
  from FindLockCycle_ok [OF assms(1,2) this assms(4), of s] show ?case
  proof (elim disjE exE conjE)
    fix s' assume s': "FindLockCycle stack T orders p s = Inr (True, s')" "\<not> free_of_cycles T orders p" "edges_ok T (softEdges s')"
    then show ?thesis using Cons.IH [of "softEdges s'" s'] Cons.prems by (cases "softEdges s' = []") auto
  next
    fix s' assume s': "FindLockCycle stack T orders p s = Inr (False, s')" "free_of_cycles T orders p"
    then show ?thesis using Cons.IH [of softFound s'] Cons.prems by auto
  qed
qed

lemma groups_ok_tables:
  assumes "tables_ok T" "edges_ok T es"
  shows "groups_ok (waitProcs (lock_at T l)) es"
  unfolding groups_ok_def
proof (intro ballI impI)
  fix w assume w: "w \<in> set (waitProcs (lock_at T l))"
    and "procno w \<in> waiter_leader ` set (waitProcs (lock_at T l)) \<union> edge_waiter ` set es \<union> edge_blocker ` set es"
  then have "leader (group_of T) (procno w) = procno w"
    using waiter_leader_ok [OF assms(1)] leader_leader [OF assms(1)] assms(2) by (auto simp: edges_ok_def)
  then show "waiter_leader w = procno w" using waiter_leader_ok [OF assms(1) w] by simp
qed

lemma expand_loop_ok:
  assumes "tables_ok T" "edges_ok T C"
  shows "expand_loop T C i orders = Some orders' \<Longrightarrow> i \<le> length C \<Longrightarrow> orders_ok T orders \<Longrightarrow>
    orders_ok T orders' \<and> order_lock ` set orders' = order_lock ` set orders \<union> edge_lock ` set (take i C)"
proof (induction i arbitrary: orders)
  case 0
  then show ?case by simp
next
  case (Suc i)
  let ?l = "edge_lock (C ! i)"
  have take: "edge_lock ` set (take (Suc i) C) = insert ?l (edge_lock ` set (take i C))" using Suc.prems(2) by (simp add: take_Suc_conv_app_nth)
  show ?case
  proof (cases "list_ex (\<lambda>order. order_lock order = ?l) orders")
    case True
    then have "?l \<in> order_lock ` set orders" unfolding list_ex_iff by (metis imageI)
    then show ?thesis using Suc.IH [of orders] Suc.prems True take by auto
  next
    case False
    then obtain procs where p: "TopoSort (lock_at T ?l) (take (Suc i) C) = Some procs"
      "expand_loop T C i (orders @ [\<lparr>order_lock = ?l, order_procs = procs\<rparr>]) = Some orders'"
      using Suc.prems(1) by (auto simp: Let_def split: option.splits)
    have "edges_ok T (take (Suc i) C)" using assms(2) by (auto simp: edges_ok_def dest: in_set_takeD)
    then have "mset procs = mset (waitProcs (lock_at T ?l))" using TopoSort_sorts [OF groups_ok_tables [OF assms(1)]] p(1) by (fastforce split: option.splits)
    then have "orders_ok T (orders @ [\<lparr>order_lock = ?l, order_procs = procs\<rparr>])" using Suc.prems(3) False by (auto simp: orders_ok_def list_ex_iff)
    then show ?thesis using Suc.IH [OF p(2)] Suc.prems(2) take by auto
  qed
qed

lemma ExpandConstraints_ok:
  assumes "tables_ok T" "edges_ok T C" "ExpandConstraints T C = Some orders"
  shows "orders_ok T orders" "orders = [] \<longleftrightarrow> C = []"
  using expand_loop_ok [OF assms(1,2) assms(3) [unfolded ExpandConstraints_def]] by (auto simp: orders_ok_def)

definition mentioned :: "EDGE list \<Rightarrow> nat \<Rightarrow> nat list" where
  "mentioned C proc = concat (map (\<lambda>e. [edge_waiter e, edge_blocker e]) C) @ [proc]"

text \<open>A configuration is good when no cycle goes through the process or a process of its constraints.\<close>

definition good_config :: "lock_tables \<Rightarrow> nat \<Rightarrow> EDGE list \<Rightarrow> WAIT_ORDER list \<Rightarrow> bool" where
  "good_config T proc C orders \<longleftrightarrow> edges_ok T C \<and> ExpandConstraints T C = Some orders \<and> (\<forall>p \<in> set (mentioned C proc). free_of_cycles T orders p)"

lemma TestConfiguration_ok:
  assumes "tables_ok T" "edges_ok T C" "leader (group_of T) proc < MaxBackends T" "MaxBackends T < stack"
  shows "\<exists>r orders s'. TestConfiguration stack T n C proc s = Inr ((r, orders), s') \<and> (r = Some [] \<longrightarrow> good_config T proc C orders) \<and>
           (\<forall>edges. r = Some edges \<longrightarrow> edges_ok T edges) \<and> (n = 0 \<and> good_config T proc C orders \<longrightarrow> r = Some [])"
proof (cases "maxPossibleConstraints T < n + MaxBackends T \<or> ExpandConstraints T C = None")
  case True
  then show ?thesis by (auto simp: TestConfiguration_def good_config_def maxPossibleConstraints_def)
next
  case False
  then obtain orders where o: "ExpandConstraints T C = Some orders" by auto
  have "\<forall>p \<in> set (mentioned C proc). leader (group_of T) p < MaxBackends T" using assms(2,3) by (auto simp: mentioned_def edges_ok_def)
  from test_procs_ok [OF assms(1) ExpandConstraints_ok(1) [OF assms(1,2) o] this assms(4), of "[]" s] show ?thesis
    using False o assms(2) by (auto simp: TestConfiguration_def mentioned_def good_config_def edges_ok_def)
qed

lemma try_each_ok:
  assumes "\<And>x s. x \<in> set xs \<Longrightarrow> \<exists>r s'. f x s = Inr (r, s') \<and> (\<forall>y. r = Some y \<longrightarrow> P y)"
  shows "\<exists>r s'. try_each f xs s = Inr (r, s') \<and> (\<forall>y. r = Some y \<longrightarrow> P y)"
  using assms
proof (induction xs arbitrary: s)
  case Nil
  show ?case by simp
next
  case (Cons x xs)
  obtain r s1 where r: "f x s = Inr (r, s1)" "\<forall>y. r = Some y \<longrightarrow> P y" using Cons.prems [of x s] by auto
  obtain q s2 where "try_each f xs s1 = Inr (q, s2)" "\<forall>y. q = Some y \<longrightarrow> P y" using Cons.IH [of s1] Cons.prems by auto
  then show ?case using r by (cases r) auto
qed

lemma DeadLockCheckRecurse_ok:
  assumes T: "tables_ok T" and p: "leader (group_of T) proc < MaxBackends T"
  shows "edges_ok T cur \<Longrightarrow> length cur \<le> MaxBackends T \<Longrightarrow> 2 * MaxBackends T + 1 < stack + length cur \<Longrightarrow>
    \<exists>r s'. DeadLockCheckRecurse stack T proc n cur s = Inr (r, s') \<and> (\<forall>orders. r = Some orders \<longrightarrow> (\<exists>C. good_config T proc C orders))"
proof (induction stack arbitrary: n cur s)
  case 0
  then show ?case by simp
next
  case (Suc stack)
  have room: "MaxBackends T < stack" using Suc.prems by simp
  obtain r orders s1 where t: "TestConfiguration stack T n cur proc s = Inr ((r, orders), s1)" "r = Some [] \<longrightarrow> good_config T proc cur orders" "\<forall>edges. r = Some edges \<longrightarrow> edges_ok T edges"
    using TestConfiguration_ok [OF T Suc.prems(1) p room, of n s] by blast
  show ?case
  proof (cases r)
    case None
    then show ?thesis using t by simp
  next
    case (Some edges)
    have edges: "edges_ok T edges" using t(3) Some by simp
    show ?thesis
    proof (cases "edges = [] \<or> MaxBackends T \<le> length cur")
      case True
      then show ?thesis using t Some by auto
    next
      case False
      define saved where "saved = (n + length edges + MaxBackends T \<le> maxPossibleConstraints T)"
      define possible where "possible = (if saved then n + length edges else n)"
      let ?again = "\<lambda>i s. if saved \<or> i = 0 then Inr (edges, s)
                            else rbind (TestConfiguration stack T possible cur proc s) (\<lambda>((r, orders), s).
                                   case r of
                                     Some es \<Rightarrow> if length es = length edges then Inr (es, s) else Inl (Ereport FATAL ERRCODE_WRONG_OBJECT_TYPE)
                                   | None \<Rightarrow> Inl (Ereport FATAL ERRCODE_WRONG_OBJECT_TYPE))"
      have again: "\<exists>s'. ?again i s = Inr (edges, s')" for i s
        using TestConfiguration_reads [OF t(1), of s] Some by (auto simp: possible_def)
      have step: "\<exists>r s'. rbind (?again i s) (\<lambda>(es, s). DeadLockCheckRecurse stack T proc possible (cur @ [es ! i]) s) = Inr (r, s') \<and>
          (\<forall>orders. r = Some orders \<longrightarrow> (\<exists>C. good_config T proc C orders))" if i: "i \<in> set [0..<length edges]" for i s
      proof -
        obtain s' where s': "?again i s = Inr (edges, s')" using again [of i s] by blast
        have "edges_ok T (cur @ [edges ! i])" using Suc.prems(1) edges i by (auto simp: edges_ok_def)
        then show ?thesis using Suc.IH [of "cur @ [edges ! i]" possible s'] Suc.prems False s' by simp
      qed
      have "\<exists>r s'. try_each (\<lambda>i s. rbind (?again i s) (\<lambda>(es, s). DeadLockCheckRecurse stack T proc possible (cur @ [es ! i]) s)) [0..<length edges] s1 = Inr (r, s') \<and>
          (\<forall>orders. r = Some orders \<longrightarrow> (\<exists>C. good_config T proc C orders))" by (rule try_each_ok [OF step])
      moreover have "DeadLockCheckRecurse (Suc stack) T proc n cur s =
          try_each (\<lambda>i s. rbind (?again i s) (\<lambda>(es, s). DeadLockCheckRecurse stack T proc possible (cur @ [es ! i]) s)) [0..<length edges] s1"
        unfolding possible_def saved_def using t(1) Some False by (simp add: Let_def)
      ultimately show ?thesis by (simp only:)
    qed
  qed
qed

lemma DeadLockCheckRecurse_verdict:
  assumes T: "tables_ok T" and p: "leader (group_of T) proc < MaxBackends T" and stack: "2 * MaxBackends T + 1 < stack"
  obtains (free) s' where "free_of_cycles T [] proc" "DeadLockCheckRecurse stack T proc 0 [] s = Inr (Some [], s')"
    | (soft) orders s' where "\<not> free_of_cycles T [] proc" "DeadLockCheckRecurse stack T proc 0 [] s = Inr (Some orders, s')" "orders \<noteq> []"
        "orders_ok T orders" "free_of_cycles T orders proc"
    | (hard) s' where "\<not> free_of_cycles T [] proc" "DeadLockCheckRecurse stack T proc 0 [] s = Inr (None, s')"
proof -
  have e: "edges_ok T []" by (simp add: edges_ok_def)
  have good: "good_config T proc [] [] \<longleftrightarrow> free_of_cycles T [] proc" by (auto simp: good_config_def mentioned_def e ExpandConstraints_def)
  obtain r s1 where r: "DeadLockCheckRecurse stack T proc 0 [] s = Inr (r, s1)" "\<forall>orders. r = Some orders \<longrightarrow> (\<exists>C. good_config T proc C orders)"
    using DeadLockCheckRecurse_ok [OF T p e, of stack 0 s] stack by auto
  obtain k where k: "stack = Suc k" "MaxBackends T < k" using stack by (cases stack) auto
  show thesis
  proof (cases "free_of_cycles T [] proc")
    case True
    obtain q orders s2 where q: "TestConfiguration k T 0 [] proc s = Inr ((q, orders), s2)" "good_config T proc [] orders \<longrightarrow> q = Some []"
      using TestConfiguration_ok [OF T e p k(2), of 0 s] by blast
    have "orders = []" using q(1) by (auto simp: TestConfiguration_def ExpandConstraints_def rbind_eq_Inr split: if_splits)
    then have "DeadLockCheckRecurse stack T proc 0 [] s = Inr (Some [], s2)" using q True good by (simp add: k(1))
    then show ?thesis using True free by blast
  next
    case False
    show ?thesis
    proof (cases r)
      case None
      then show ?thesis using r False hard by blast
    next
      case (Some orders)
      then obtain C where C: "good_config T proc C orders" using r by blast
      then have x: "edges_ok T C" "ExpandConstraints T C = Some orders" "free_of_cycles T orders proc" by (simp_all add: good_config_def mentioned_def)
      have "orders \<noteq> []" using x(3) False by blast
      then show ?thesis using soft False r(1) Some x(3) ExpandConstraints_ok(1) [OF T x(1,2)] by blast
    qed
  qed
qed

text \<open>The calls before and after the search.\<close>

lemma DeadLockCheck_verdict:
  assumes T: "tables_ok T" and p: "leader (group_of T) proc < MaxBackends T" and stack: "2 * MaxBackends T + 1 < stack"
  shows "\<exists>st T' s' orders. DeadLockCheck stack T proc s = Inr ((st, T'), s') \<and> T' = fold apply_order orders T \<and> orders_ok T orders \<and>
    (if st = DS_HARD_DEADLOCK then orders = [] \<and> \<not> free_of_cycles T [] proc else free_of_cycles T orders proc) \<and>
    (st = DS_SOFT_DEADLOCK \<longleftrightarrow> orders \<noteq> []) \<and> (st = DS_SOFT_DEADLOCK \<longrightarrow> \<not> free_of_cycles T [] proc) \<and> st \<noteq> DS_NOT_YET_CHECKED \<and> st \<noteq> DS_LOCK_TIMEOUT"
proof (cases rule: DeadLockCheckRecurse_verdict [OF T p stack, of "s\<lparr>blocking_autovacuum_proc := []\<rparr>", case_names free soft hard])
  case (free s1)
  then show ?thesis by (auto simp: DeadLockCheck_def orders_ok_def Let_def split: option.splits)
next
  case (soft orders s1)
  then show ?thesis by (auto simp: DeadLockCheck_def Let_def)
next
  case (hard s1)
  have o: "orders_ok T []" by (simp add: orders_ok_def)
  have "MaxBackends T < stack" using stack by simp
  from FindLockCycle_ok [OF T o p this, of s1] obtain s2 where "FindLockCycle stack T [] proc s1 = Inr (True, s2)" using hard(1) by blast
  then show ?thesis using hard o by (auto simp: DeadLockCheck_def)
qed

section \<open>The tables after the rearrangement\<close>

lemma GrantLock_procLocks: "procLocks (GrantLock p m l) = upd_hold p (\<lambda>h. h OR LOCKBIT_ON m) (procLocks l)" "waitProcs (GrantLock p m l) = waitProcs l"
  by (simp_all add: GrantLock_def Let_def)

text \<open>The queue that is left is a part of the queue, in its order, and a process that has been granted a mode is not in it.\<close>

lemma wakeup_loop_left:
  "(\<exists>P. waitProcs (wakeup_loop grp me req ws l) = filter P (waitProcs l)) \<and>
   (\<forall>pl' \<in> set (procLocks (wakeup_loop grp me req ws l)). \<exists>pl \<in> set (procLocks l). myProc pl = myProc pl' \<and>
      (holdMask pl' = holdMask pl \<or> myProc pl' \<in> procno ` set ws \<and> myProc pl' \<notin> procno ` set (waitProcs (wakeup_loop grp me req ws l))))"
proof (induction ws arbitrary: req l)
  case Nil
  show ?case by (auto intro!: exI [of _ "\<lambda>_. True"])
next
  case (Cons w ws)
  show ?case
  proof (cases "conflictTab (waitLockMode w) AND req = 0 \<and> check_for grp me (procno w) (waitLockMode w) l")
    case True
    let ?l = "ProcWakeup (procno w) (GrantLock (procno w) (waitLockMode w) l)"
    let ?r = "wakeup_loop grp me req ws ?l"
    obtain P where P: "waitProcs ?r = filter P (waitProcs ?l)" using Cons.IH [of req ?l] by blast
    have gone: "procno w \<notin> procno ` set (waitProcs ?r)" by (auto simp: P)
    have "\<exists>pl \<in> set (procLocks l). myProc pl = myProc pl' \<and> (holdMask pl' = holdMask pl \<or> myProc pl' \<in> procno ` set (w # ws) \<and> myProc pl' \<notin> procno ` set (waitProcs ?r))"
      if "pl' \<in> set (procLocks ?r)" for pl'
    proof -
      obtain pl1 where pl1: "pl1 \<in> set (procLocks ?l)" "myProc pl1 = myProc pl'"
        "holdMask pl' = holdMask pl1 \<or> myProc pl' \<in> procno ` set ws \<and> myProc pl' \<notin> procno ` set (waitProcs ?r)"
        using Cons.IH [of req ?l] \<open>pl' \<in> set (procLocks ?r)\<close> by blast
      obtain pl where pl: "pl \<in> set (procLocks l)" "pl1 = (if myProc pl = procno w then pl\<lparr>holdMask := holdMask pl OR LOCKBIT_ON (waitLockMode w)\<rparr> else pl)"
        using pl1(1) by (auto simp: GrantLock_procLocks upd_hold_def)
      then show ?thesis using pl1 gone by (intro bexI [OF _ pl(1)]) (auto split: if_splits)
    qed
    moreover have "waitProcs ?r = filter (\<lambda>v. procno v \<noteq> procno w \<and> P v) (waitProcs l)" by (simp add: P GrantLock_procLocks)
    ultimately show ?thesis using True by auto
  next
    case False
    then have eq: "wakeup_loop grp me req (w # ws) l = wakeup_loop grp me (req OR LOCKBIT_ON (waitLockMode w)) ws l" by auto
    show ?thesis unfolding eq using Cons.IH [of "req OR LOCKBIT_ON (waitLockMode w)" l] by fastforce
  qed
qed

lemma install_order_left:
  obtains P where "waitProcs (install_order grp me procs l) = filter P procs"
  using wakeup_loop_left [of grp me 0 procs "l\<lparr>waitProcs := procs\<rparr>"] by (auto simp: install_order_def ProcLockWakeup_def)

lemma install_order_holders:
  assumes "pl' \<in> set (procLocks (install_order grp me procs l))"
  obtains pl where "pl \<in> set (procLocks l)" "myProc pl = myProc pl'"
    "holdMask pl' = holdMask pl \<or> myProc pl' \<in> procno ` set procs \<and> myProc pl' \<notin> procno ` set (waitProcs (install_order grp me procs l))"
proof -
  have "\<exists>pl \<in> set (procLocks l). myProc pl = myProc pl' \<and>
      (holdMask pl' = holdMask pl \<or> myProc pl' \<in> procno ` set procs \<and> myProc pl' \<notin> procno ` set (waitProcs (install_order grp me procs l)))"
    using wakeup_loop_left [of grp me 0 procs "l\<lparr>waitProcs := procs\<rparr>"] assms unfolding install_order_def ProcLockWakeup_def by auto
  then show thesis using that by blast
qed

definition order_of :: "WAIT_ORDER list \<Rightarrow> nat \<Rightarrow> waiter list option" where
  "order_of orders l = map_option order_procs (find (\<lambda>order. order_lock order = l) orders)"

definition lock_after :: "lock_tables \<Rightarrow> WAIT_ORDER list \<Rightarrow> nat \<Rightarrow> LOCK" where
  "lock_after T orders l = (case order_of orders l of None \<Rightarrow> lock_at T l | Some procs \<Rightarrow> install_order (group_of T) (MyProc T) procs (lock_at T l))"

definition wait_after :: "lock_tables \<Rightarrow> WAIT_ORDER list \<Rightarrow> nat \<Rightarrow> nat option" where
  "wait_after T orders p =
     (case waitLock T p of None \<Rightarrow> None
      | Some l \<Rightarrow> if order_of orders l \<noteq> None \<and> p \<notin> procno ` set (waitProcs (lock_after T orders l)) then None else Some l)"

lemma order_of_append:
  "order_lock x \<notin> order_lock ` set orders \<Longrightarrow> order_of (orders @ [x]) l = (if l = order_lock x then Some (order_procs x) else order_of orders l)"
  by (induction orders) (auto simp: order_of_def)

lemma order_of_fresh: "l \<notin> order_lock ` set orders \<Longrightarrow> order_of orders l = None"
  by (induction orders) (auto simp: order_of_def)

lemma fold_apply_order:
  assumes "distinct (map order_lock orders)"
  shows "fold apply_order orders T = T\<lparr>lock_at := lock_after T orders, waitLock := wait_after T orders\<rparr>"
  using assms
proof (induction orders rule: rev_induct)
  case Nil
  have "lock_after T [] = lock_at T" "wait_after T [] = waitLock T" by (auto simp: lock_after_def wait_after_def order_of_def split: option.splits)
  then show ?case by simp
next
  case (snoc x orders)
  let ?T = "T\<lparr>lock_at := lock_after T orders, waitLock := wait_after T orders\<rparr>"
  have fresh: "order_lock x \<notin> order_lock ` set orders" using snoc.prems by auto
  have l: "lock_after T (orders @ [x]) = (lock_after T orders)(order_lock x := install_order (group_of T) (MyProc T) (order_procs x) (lock_after T orders (order_lock x)))"
    by (auto simp: lock_after_def order_of_append [OF fresh] order_of_fresh [OF fresh])
  have w: "wait_after T (orders @ [x]) =
      (\<lambda>p. if wait_after T orders p = Some (order_lock x) \<and> p \<notin> procno ` set (waitProcs (lock_after T (orders @ [x]) (order_lock x))) then None else wait_after T orders p)"
    by (auto simp: fun_eq_iff wait_after_def l order_of_append [OF fresh] order_of_fresh [OF fresh] split: option.splits)
  have "fold apply_order (orders @ [x]) T = apply_order x ?T" using snoc by simp
  also have "\<dots> = T\<lparr>lock_at := lock_after T (orders @ [x]), waitLock := wait_after T (orders @ [x])\<rparr>"
    unfolding w unfolding l apply_order_def Let_def by (simp cong: if_cong)
  finally show ?case .
qed

text \<open>
  No lock groups are in use, and the queues agree with the fields of the processes. A process that is granted its lock no longer waits, so that it is on no cycle;
  all other edges are there for the proposed orders too.
\<close>

definition queues_ok :: "lock_tables \<Rightarrow> bool" where
  "queues_ok T \<longleftrightarrow> group_of T = (\<lambda>_. None) \<and> lockGroupMembers T = (\<lambda>_. []) \<and>
     (\<forall>l. distinct (map procno (waitProcs (lock_at T l))) \<and> (\<forall>w \<in> set (waitProcs (lock_at T l)). waitLock T (procno w) = Some l)) \<and>
     (\<forall>p l. waitLock T p = Some l \<longrightarrow> p \<in> procno ` set (waitProcs (lock_at T l)))"

lemma takeWhile_filter_procs:
  assumes "distinct (map procno xs)" "a \<in> procno ` set (filter P xs)" "w \<in> set (takeWhile (\<lambda>w. procno w \<noteq> a) (filter P xs))"
  shows "w \<in> set (takeWhile (\<lambda>w. procno w \<noteq> a) xs)"
  using assms by (induction xs) (auto split: if_splits)

lemma wait_after_Some:
  assumes "queues_ok T" "wait_after T orders p = Some l"
  shows "waitLock T p = Some l" "p \<in> procno ` set (waitProcs (lock_after T orders l))"
  using assms by (auto simp: wait_after_def queues_ok_def lock_after_def split: option.splits if_splits)

lemma order_of_ok: "orders_ok T orders \<Longrightarrow> order_of orders l = Some procs \<Longrightarrow> mset procs = mset (waitProcs (lock_at T l))"
  by (auto simp: order_of_def orders_ok_def find_Some_iff)

lemma ahead_no_groups:
  assumes "tables_ok T" "queues_ok T" "orders_ok T orders"
  shows "w \<in> set (ahead T orders a a l) \<longleftrightarrow>
    w \<in> set (takeWhile (\<lambda>w. procno w \<noteq> a) (case order_of orders l of None \<Rightarrow> waitProcs (lock_at T l) | Some procs \<Rightarrow> procs))"
proof -
  have lead: "waiter_leader v = procno v" if "v \<in> set (waitProcs (lock_at T l))" for v
    using waiter_leader_ok [OF assms(1) that] assms(2) by (simp add: queues_ok_def leader_def)
  show ?thesis
  proof (cases "find (\<lambda>order. order_lock order = l) orders")
    case None
    then show ?thesis using assms(2) lead by (auto simp: ahead_def order_of_def queues_ok_def dest: set_takeWhileD)
  next
    case (Some order)
    then have "mset (order_procs order) = mset (waitProcs (lock_at T l))" using order_of_ok [OF assms(3), of l] by (simp add: order_of_def)
    then have "set (order_procs order) = set (waitProcs (lock_at T l))" by (metis set_mset_mset)
    then have "takeWhile (\<lambda>w. waiter_leader w \<noteq> a) (order_procs order) = takeWhile (\<lambda>w. procno w \<noteq> a) (order_procs order)"
      by (intro takeWhile_cong) (use lead in auto)
    then show ?thesis using Some by (simp add: ahead_def order_of_def)
  qed
qed

definition tables_after :: "lock_tables \<Rightarrow> WAIT_ORDER list \<Rightarrow> lock_tables" where
  "tables_after T orders = T\<lparr>lock_at := lock_after T orders, waitLock := wait_after T orders\<rparr>"

lemma lock_after_queue:
  assumes "orders_ok T orders"
  obtains P where "waitProcs (lock_after T orders l) = filter P (case order_of orders l of None \<Rightarrow> waitProcs (lock_at T l) | Some procs \<Rightarrow> procs)"
proof (cases "order_of orders l")
  case None
  then show ?thesis using that [of "\<lambda>_. True"] by (simp add: lock_after_def)
next
  case (Some procs)
  obtain P where "waitProcs (install_order (group_of T) (MyProc T) procs (lock_at T l)) = filter P procs" by (rule install_order_left)
  then show ?thesis using that [of P] Some by (simp add: lock_after_def)
qed

lemma lock_after_waiters: "orders_ok T orders \<Longrightarrow> set (waitProcs (lock_after T orders l)) \<subseteq> set (waitProcs (lock_at T l))"
proof -
  assume o: "orders_ok T orders"
  obtain P where "waitProcs (lock_after T orders l) = filter P (case order_of orders l of None \<Rightarrow> waitProcs (lock_at T l) | Some procs \<Rightarrow> procs)"
    by (rule lock_after_queue [OF o])
  moreover have "set procs = set (waitProcs (lock_at T l))" if "order_of orders l = Some procs" for procs
    using order_of_ok [OF o that] by (metis set_mset_mset)
  ultimately show ?thesis by (auto split: option.splits)
qed

lemma lock_after_holders:
  assumes "pl' \<in> set (procLocks (lock_after T orders l))"
  obtains pl where "pl \<in> set (procLocks (lock_at T l))" "myProc pl = myProc pl'"
    "holdMask pl' = holdMask pl \<or> (\<exists>procs. order_of orders l = Some procs \<and> myProc pl' \<in> procno ` set procs \<and> myProc pl' \<notin> procno ` set (waitProcs (lock_after T orders l)))"
proof (cases "order_of orders l")
  case None
  then show ?thesis using assms that [of pl'] by (simp add: lock_after_def)
next
  case (Some procs)
  have "pl' \<in> set (procLocks (install_order (group_of T) (MyProc T) procs (lock_at T l)))" using assms Some by (simp add: lock_after_def)
  then show ?thesis
  proof (rule install_order_holders)
    fix pl assume "pl \<in> set (procLocks (lock_at T l))" "myProc pl = myProc pl'"
      "holdMask pl' = holdMask pl \<or> myProc pl' \<in> procno ` set procs \<and> myProc pl' \<notin> procno ` set (waitProcs (install_order (group_of T) (MyProc T) procs (lock_at T l)))"
    then show ?thesis using that [of pl] Some by (simp add: lock_after_def)
  qed
qed

lemma tables_after_ok:
  assumes "tables_ok T" "queues_ok T" "orders_ok T orders"
  shows "tables_ok (tables_after T orders)" "queues_ok (tables_after T orders)"
proof -
  have hold: "leader (group_of T) (myProc pl') < MaxBackends T" if pl': "pl' \<in> set (procLocks (lock_after T orders l))" for pl' l
    using pl'
  proof (rule lock_after_holders)
    fix pl assume "pl \<in> set (procLocks (lock_at T l))" "myProc pl = myProc pl'"
    then show ?thesis using assms(1) unfolding tables_ok_def by metis
  qed
  have wt: "lockGroupLeader w = group_of T (procno w) \<and> leader (group_of T) (procno w) < MaxBackends T" if "w \<in> set (waitProcs (lock_after T orders l))" for w l
    using lock_after_waiters [OF assms(3)] that assms(1) unfolding tables_ok_def by blast
  show "tables_ok (tables_after T orders)" using hold wt assms(1) unfolding tables_ok_def tables_after_def by simp
  have d: "distinct (map procno (waitProcs (lock_after T orders l)))" for l
  proof -
    obtain P where P: "waitProcs (lock_after T orders l) = filter P (case order_of orders l of None \<Rightarrow> waitProcs (lock_at T l) | Some procs \<Rightarrow> procs)"
      by (rule lock_after_queue [OF assms(3)])
    have "distinct (map procno procs)" if "order_of orders l = Some procs" for procs
      using order_of_ok [OF assms(3) that] assms(2) unfolding queues_ok_def by (metis mset_map mset_eq_imp_distinct_iff)
    then show ?thesis using assms(2) unfolding P queues_ok_def by (auto simp: distinct_map_filter split: option.splits)
  qed
  have in_q: "waitLock T (procno w) = Some l" if "w \<in> set (waitProcs (lock_after T orders l))" for w l
    using lock_after_waiters [OF assms(3)] that assms(2) unfolding queues_ok_def by blast
  have "wait_after T orders (procno w) = Some l" if "w \<in> set (waitProcs (lock_after T orders l))" for w l
    using in_q [OF that] that by (auto simp: wait_after_def)
  then show "queues_ok (tables_after T orders)" using d wait_after_Some [OF assms(2)] assms(2) unfolding tables_after_def
    by (simp add: queues_ok_def)
qed

lemma orders_ok_Nil: "orders_ok T []"
  by (simp add: orders_ok_def)

text \<open>An edge to a process that still waits was there before.\<close>

lemma leader_None: "leader (\<lambda>_. None) p = p"
  by (simp add: leader_def)

lemma after_hard:
  assumes ok: "tables_ok T" "queues_ok T" "orders_ok T orders" and l: "wait_after T orders a = Some l" and b: "wait_after T orders (myProc pl') \<noteq> None"
    and pl': "pl' \<in> set (conflicting_holders (tables_after T orders) a a l)"
  shows "waits_via T orders a a None (myProc pl')"
proof -
  have grp: "group_of T = (\<lambda>_. None)" using ok(2) by (simp add: queues_ok_def)
  have h: "pl' \<in> set (procLocks (lock_after T orders l))" "myProc pl' \<noteq> a"
    "\<exists>lm \<in> set [1..<AccessExclusiveLock + 1]. bit (holdMask pl') lm \<and> bit (conflictTab (waitMode T a)) lm"
    using pl' unfolding conflicting_holders_def tables_after_def by (auto simp: grp leader_None simp del: upt_Suc set_upt)
  obtain pl where pl: "pl \<in> set (procLocks (lock_at T l))" "myProc pl = myProc pl'"
    "holdMask pl' = holdMask pl \<or> (\<exists>procs. order_of orders l = Some procs \<and> myProc pl' \<in> procno ` set procs \<and> myProc pl' \<notin> procno ` set (waitProcs (lock_after T orders l)))"
    using lock_after_holders [OF h(1)] by metis
  have "holdMask pl' = holdMask pl"
  proof (rule ccontr)
    assume "holdMask pl' \<noteq> holdMask pl"
    then obtain procs where p: "order_of orders l = Some procs" "myProc pl' \<in> procno ` set procs" "myProc pl' \<notin> procno ` set (waitProcs (lock_after T orders l))"
      using pl(3) by auto
    have "set procs = set (waitProcs (lock_at T l))" using order_of_ok [OF ok(3) p(1)] by (metis set_mset_mset)
    then have "waitLock T (myProc pl') = Some l" using p(2) ok(2) by (auto simp: queues_ok_def)
    then show False using b p by (simp add: wait_after_def)
  qed
  then have "pl \<in> set (conflicting_holders T a a l)" using pl h unfolding conflicting_holders_def grp leader_None by (simp del: upt_Suc set_upt)
  then show ?thesis using wait_after_Some(1) [OF ok(2) l] pl(2) [symmetric] unfolding waits_via_def grp leader_None by blast
qed

lemma after_soft:
  assumes ok: "tables_ok T" "queues_ok T" "orders_ok T orders" and l: "wait_after T orders a = Some l"
    and w: "w \<in> set (ahead (tables_after T orders) [] a a l)" "bit (conflictTab (waitMode T a)) (waitLockMode w)"
  shows "waits_via T orders a a (Some \<lparr>edge_waiter = a, edge_blocker = waiter_leader w, edge_lock = l\<rparr>) (procno w)"
proof -
  let ?q = "case order_of orders l of None \<Rightarrow> waitProcs (lock_at T l) | Some procs \<Rightarrow> procs"
  note wl = wait_after_Some [OF ok(2) l]
  obtain P where P: "waitProcs (lock_after T orders l) = filter P ?q" by (rule lock_after_queue [OF ok(3)])
  have d: "distinct (map procno ?q)" using ok(2) order_of_ok [OF ok(3), of l]
    unfolding queues_ok_def by (cases "order_of orders l") (simp, metis mset_map mset_eq_imp_distinct_iff option.simps(5))
  have "w \<in> set (takeWhile (\<lambda>w. procno w \<noteq> a) (filter P ?q))"
    using w(1) ahead_no_groups [OF tables_after_ok [OF ok] orders_ok_Nil, of w a l] by (simp add: order_of_def tables_after_def P)
  then have "w \<in> set (ahead T orders a a l)" using takeWhile_filter_procs [OF d] wl(2) P ahead_no_groups [OF ok, of w a l] by simp
  then show ?thesis using wl(1) w(2) ok(2) by (auto simp: waits_via_def queues_ok_def leader_None)
qed

lemma after_edge:
  assumes ok: "tables_ok T" "queues_ok T" "orders_ok T orders"
    and ab: "waits_for (tables_after T orders) [] a e b" and b: "waits_for (tables_after T orders) [] b e' c"
  shows "\<exists>e. waits_for T orders a e b"
proof -
  let ?T = "tables_after T orders"
  have grp: "group_of ?T = (\<lambda>_. None)" "lockGroupMembers ?T = (\<lambda>_. [])" "waitMode ?T = waitMode T" "waitLock ?T = wait_after T orders"
    using ok(2) by (simp_all add: tables_after_def queues_ok_def)
  obtain l where l: "wait_after T orders a = Some l" and ab': "(\<exists>pl \<in> set (conflicting_holders ?T a a l). b = myProc pl) \<or>
       (\<exists>w \<in> set (ahead ?T [] a a l). bit (conflictTab (waitMode T a)) (waitLockMode w) \<and> b = procno w)"
    using ab by (auto simp: waits_for_def waits_via_def leader_None grp)
  have bw: "wait_after T orders b \<noteq> None" using b by (auto simp: waits_for_def waits_via_def grp)
  from ab' have "\<exists>e. waits_via T orders a a e b" using after_hard [OF ok l] after_soft [OF ok l] bw by blast
  then show ?thesis by (auto simp: waits_for_def)
qed

lemma after_path:
  assumes "wait_path (tables_after T orders) [] a es c" "waits_for (tables_after T orders) [] c e d" "tables_ok T" "queues_ok T" "orders_ok T orders"
  shows "\<exists>es'. length es' = length es \<and> wait_path T orders a es' c"
  using assms
proof (induction rule: wait_path.induct)
  case (path_here a)
  then show ?case by (auto intro: wait_path.path_here)
next
  case (path_step a e1 b es c)
  obtain es' where es': "length es' = length es" "wait_path T orders b es' c" using path_step by blast
  have "\<exists>e2 d2. waits_for (tables_after T orders) [] b e2 d2"
    using path_step.hyps(2) path_step.prems(1) by (cases rule: wait_path.cases) blast+
  then obtain e3 where "waits_for T orders a e3 b" using after_edge [OF path_step.prems(2-4) path_step.hyps(1)] by blast
  then show ?case using es' by (intro exI [of _ "e3 # es'"]) (auto intro: wait_path.path_step)
qed

lemma after_free:
  assumes "tables_ok T" "queues_ok T" "orders_ok T orders" "free_of_cycles T orders p"
  shows "free_of_cycles (tables_after T orders) [] p"
  unfolding free_of_cycles_def
proof
  let ?c = "leader (group_of (tables_after T orders)) p"
  assume "\<exists>es. es \<noteq> [] \<and> wait_path (tables_after T orders) [] ?c es ?c"
  then obtain es where es: "es \<noteq> []" "wait_path (tables_after T orders) [] ?c es ?c" by blast
  from es(2,1) obtain e d where "waits_for (tables_after T orders) [] ?c e d" by (cases rule: wait_path.cases) auto
  then obtain es' where "length es' = length es" "wait_path T orders ?c es' ?c" using after_path [OF es(2) _ assms(1-3)] by blast
  then show False using assms(4) es(1) by (cases "es' = []") (auto simp: free_of_cycles_def tables_after_def)
qed

lemma fold_apply_order_after: "orders_ok T orders \<Longrightarrow> fold apply_order orders T = tables_after T orders"
  using fold_apply_order by (simp add: orders_ok_def tables_after_def)

lemma after_lreach:
  assumes "orders_ok T orders" "lreach (group_of T) (Some (lock_at T l))"
  shows "lreach (group_of T) (Some (lock_at (tables_after T orders) l))"
  using assms(2) lreach_order [OF assms(2) order_of_ok [OF assms(1)]]
  by (cases "order_of orders l") (simp_all add: tables_after_def lock_after_def)

section \<open>The waits-for graph of the tables\<close>

text \<open>
  The graph in the terms of the tables, apart from the scans of the search: a process of group \<open>a\<close> waits for a lock; a process of another group \<open>b\<close> holds a mode of
  it that conflicts with the mode waited for, a hard edge, or its conflicting request stands before some request of group \<open>a\<close> in the queue, a soft edge. The queue
  is the proposed one where an order is proposed for the lock. An edge is described by the lock, the mode and the process that waits.
\<close>

definition line_of :: "lock_tables \<Rightarrow> WAIT_ORDER list \<Rightarrow> nat \<Rightarrow> waiter list" where
  "line_of T orders l = (case find (\<lambda>order. order_lock order = l) orders of Some order \<Rightarrow> order_procs order | None \<Rightarrow> waitProcs (lock_at T l))"

definition holds_against :: "lock_tables \<Rightarrow> DEADLOCK_INFO \<Rightarrow> nat \<Rightarrow> bool" where
  "holds_against T d b \<longleftrightarrow>
     (\<exists>pl \<in> set (procLocks (lock_at T (info_lock d))). leader (group_of T) (myProc pl) = b \<and>
        (\<exists>lm. AccessShareLock \<le> lm \<and> lm \<le> AccessExclusiveLock \<and> bit (holdMask pl) lm \<and> bit (conflictTab (info_lockmode d)) lm))"

definition stands_before :: "lock_tables \<Rightarrow> WAIT_ORDER list \<Rightarrow> nat \<Rightarrow> DEADLOCK_INFO \<Rightarrow> nat \<Rightarrow> bool" where
  "stands_before T orders a d b \<longleftrightarrow>
     (\<exists>i j. let q = line_of T orders (info_lock d)
            in i < j \<and> j < length q \<and> leader (group_of T) (procno (q ! i)) = b \<and> leader (group_of T) (procno (q ! j)) = a \<and>
               bit (conflictTab (info_lockmode d)) (waitLockMode (q ! i)))"

definition group_blocked :: "lock_tables \<Rightarrow> WAIT_ORDER list \<Rightarrow> nat \<Rightarrow> DEADLOCK_INFO \<Rightarrow> EDGE option \<Rightarrow> nat \<Rightarrow> bool" where
  "group_blocked T orders a d e b \<longleftrightarrow>
     leader (group_of T) (info_pid d) = a \<and> waitLock T (info_pid d) = Some (info_lock d) \<and> waitMode T (info_pid d) = info_lockmode d \<and> b \<noteq> a \<and>
     (e = None \<and> holds_against T d b \<or> e = Some \<lparr>edge_waiter = a, edge_blocker = b, edge_lock = info_lock d\<rparr> \<and> stands_before T orders a d b)"

inductive wait_chain :: "lock_tables \<Rightarrow> WAIT_ORDER list \<Rightarrow> nat \<Rightarrow> (DEADLOCK_INFO \<times> EDGE option) list \<Rightarrow> nat \<Rightarrow> bool" for T orders where
  chain_here: "wait_chain T orders a [] a"
| chain_step: "group_blocked T orders a d e b \<Longrightarrow> wait_chain T orders b xs c \<Longrightarrow> wait_chain T orders a ((d, e) # xs) c"

text \<open>
  The links between the tables: a leader lists the members of its group, a process that waits stands in the queue of its lock, and no process stands in a queue
  twice. The search reads a proposed order right when only processes that lead their group, or have none, stand in it.
\<close>

definition links_ok :: "lock_tables \<Rightarrow> bool" where
  "links_ok T \<longleftrightarrow> (\<forall>a m. m \<in> set (lockGroupMembers T a) \<longleftrightarrow> group_of T m = Some a) \<and>
     (\<forall>l. distinct (map procno (waitProcs (lock_at T l)))) \<and> (\<forall>p l. waitLock T p = Some l \<longrightarrow> p \<in> procno ` set (waitProcs (lock_at T l)))"

definition only_leaders :: "WAIT_ORDER list \<Rightarrow> bool" where
  "only_leaders orders \<longleftrightarrow> (\<forall>order \<in> set orders. \<forall>w \<in> set (order_procs order). waiter_leader w = procno w)"

lemma before_last:
  assumes "distinct (map procno q)" "k < length q" "P (q ! k)" "\<And>j. k < j \<Longrightarrow> j < length q \<Longrightarrow> \<not> P (q ! j)"
  shows "w \<in> set (takeWhile (\<lambda>v. procno v \<noteq> procno (q ! k)) q) \<longleftrightarrow> (\<exists>i j. i < j \<and> j < length q \<and> w = q ! i \<and> P (q ! j))"
proof -
  have "procno (q ! i) \<noteq> procno (q ! k)" if "i < k" for i
    using assms(1,2) that nth_eq_iff_index_eq [of "map procno q" i k] by simp
  then have t: "takeWhile (\<lambda>v. procno v \<noteq> procno (q ! k)) q = take k q" using assms(2) by (intro takeWhile_eq_take_P_nth) auto
  have "w \<in> set (take k q) \<longleftrightarrow> (\<exists>i < k. w = q ! i)" using assms(2) by (auto simp: in_set_conv_nth)
  also have "\<dots> \<longleftrightarrow> (\<exists>i j. i < j \<and> j < length q \<and> w = q ! i \<and> P (q ! j))" using assms(2-4) by (metis linorder_neqE_nat order.strict_trans)
  finally show ?thesis by (simp only: t)
qed

lemma find_rev_last:
  assumes "find P (rev q) = Some u"
  obtains k where "k < length q" "q ! k = u" "P u" "\<And>j. k < j \<Longrightarrow> j < length q \<Longrightarrow> \<not> P (q ! j)"
proof -
  obtain i where i: "i < length q" "P (rev q ! i)" "u = rev q ! i" "\<And>j. j < i \<Longrightarrow> \<not> P (rev q ! j)" using assms by (auto simp: find_Some_iff)
  show thesis
  proof (rule that [of "length q - Suc i"])
    fix j assume j: "length q - Suc i < j" "j < length q"
    then have "length q - Suc j < i" by linarith
    then show "\<not> P (q ! j)" using i(4) [of "length q - Suc j"] j by (simp add: rev_nth Suc_diff_Suc)
  qed (use i in \<open>auto simp: rev_nth\<close>)
qed


lemma ahead_true_queue:
  assumes ok: "tables_ok T" "links_ok T" and m: "waitLock T m = Some l" "leader (group_of T) m = a"
  defines "q \<equiv> waitProcs (lock_at T l)"
  defines "last_member \<equiv> if group_of T m = None then Some m else map_option procno (find (\<lambda>w. lockGroupLeader w = Some a) (rev q))"
  shows "w \<in> set (takeWhile (\<lambda>w. Some (procno w) \<noteq> last_member) q) \<longleftrightarrow> (\<exists>i j. i < j \<and> j < length q \<and> w = q ! i \<and> waiter_leader (q ! j) = a)"
proof -
  have d: "distinct (map procno q)" "m \<in> procno ` set q" using ok(2) m(1) by (auto simp: links_ok_def q_def)
  have lead: "waiter_leader v = leader (group_of T) (procno v)" "lockGroupLeader v = group_of T (procno v)" if "v \<in> set q" for v
    using that waiter_leader_ok [OF ok(1)] ok(1) by (auto simp: q_def tables_ok_def)
  have grp: "group_of T p = Some g \<Longrightarrow> group_of T g = Some g" for p g using ok(1) by (auto simp: tables_ok_def grp_ok_def)
  obtain k where k: "k < length q" "last_member = Some (procno (q ! k))" "waiter_leader (q ! k) = a" "\<And>j. k < j \<Longrightarrow> j < length q \<Longrightarrow> waiter_leader (q ! j) \<noteq> a"
  proof (cases "group_of T m")
    case None
    then have a: "a = m" using m(2) by (simp add: leader_def)
    obtain k where k: "k < length q" "procno (q ! k) = m" using d(2) by (auto simp: in_set_conv_nth)
    have "waiter_leader (q ! j) \<noteq> a" if "k < j" "j < length q" for j
      using that k d(1) None grp [of "procno (q ! j)" m] nth_eq_iff_index_eq [of "map procno q" j k]
      by (auto simp: a lead leader_def split: option.splits)
    moreover have "waiter_leader (q ! k) = a" using k None by (simp add: lead leader_def a)
    ultimately show ?thesis using that [of k] k None by (simp add: last_member_def)
  next
    case (Some g)
    then have a: "g = a" using m(2) by (simp add: leader_def)
    have iff: "lockGroupLeader v = Some a \<longleftrightarrow> waiter_leader v = a" if "v \<in> set q" for v
      using lead [OF that] grp [OF Some] by (auto simp: a leader_def split: option.splits)
    have "find (\<lambda>w. lockGroupLeader w = Some a) (rev q) \<noteq> None" using d(2) Some lead(2) by (auto simp: find_None_iff a)
    then obtain u where u: "find (\<lambda>w. lockGroupLeader w = Some a) (rev q) = Some u" by blast
    then obtain k where k: "k < length q" "q ! k = u" "lockGroupLeader u = Some a" "\<And>j. k < j \<Longrightarrow> j < length q \<Longrightarrow> lockGroupLeader (q ! j) \<noteq> Some a"
      by (rule find_rev_last) blast
    then show ?thesis using that [of k] u Some iff by (auto simp: last_member_def)
  qed
  show ?thesis unfolding k(2) option.inject by (rule before_last [OF d(1) k(1), where P = "\<lambda>v. waiter_leader v = a", OF k(3,4)])
qed

lemma line_of_set: "orders_ok T orders \<Longrightarrow> mset (line_of T orders l) = mset (waitProcs (lock_at T l))"
  by (auto simp: line_of_def orders_ok_def find_Some_iff split: option.splits)

lemma ahead_line_iff:
  assumes ok: "tables_ok T" "orders_ok T orders" "links_ok T" "only_leaders orders" and m: "waitLock T m = Some l" "leader (group_of T) m = a"
  defines "q \<equiv> line_of T orders l"
  shows "w \<in> set (ahead T orders m a l) \<longleftrightarrow> (\<exists>i j. i < j \<and> j < length q \<and> w = q ! i \<and> waiter_leader w \<noteq> a \<and> waiter_leader (q ! j) = a)"
proof (cases "find (\<lambda>order. order_lock order = l) orders")
  case None
  then show ?thesis using ahead_true_queue [OF ok(1,3) m, of w] by (auto simp: ahead_def line_of_def q_def Let_def)
next
  case (Some order)
  have q: "q = order_procs order" using Some by (simp add: q_def line_of_def)
  have "order \<in> set orders" using Some by (auto simp: find_Some_iff)
  then have own: "waiter_leader v = procno v" if "v \<in> set q" for v using that q ok(4) by (auto simp: only_leaders_def)
  have ms: "mset q = mset (waitProcs (lock_at T l))" using line_of_set [OF ok(2)] by (simp add: q_def)
  then have set_q: "set q = set (waitProcs (lock_at T l))" by (metis set_mset_mset)
  have d: "distinct (map procno q)" using ms ok(3) unfolding links_ok_def by (metis mset_map mset_eq_imp_distinct_iff)
  have "m \<in> procno ` set q" using ok(3) m(1) by (auto simp: links_ok_def set_q)
  then obtain k where k: "k < length q" "procno (q ! k) = m" by (auto simp: in_set_conv_nth)
  have a: "a = m" using own [of "q ! k"] waiter_leader_ok [OF ok(1), of "q ! k" l] k m(2) set_q by force
  have diff: "procno (q ! i) \<noteq> procno (q ! j)" if "i < length q" "j < length q" "i \<noteq> j" for i j
    using d that nth_eq_iff_index_eq [of "map procno q" i j] by simp
  have t: "takeWhile (\<lambda>w. waiter_leader w \<noteq> m) q = takeWhile (\<lambda>w. procno w \<noteq> procno (q ! k)) q" by (intro takeWhile_cong) (simp_all add: own k)
  have after: "procno (q ! j) \<noteq> m" if "k < j" "j < length q" for j using diff [of j k] that k by simp
  have "w \<in> set (ahead T orders m a l) \<longleftrightarrow> (\<exists>i j. i < j \<and> j < length q \<and> w = q ! i \<and> procno (q ! j) = m)"
    using before_last [OF d k(1), of "\<lambda>v. procno v = m" w, OF k(2) after] t Some by (simp add: ahead_def q)
  moreover have "procno (q ! j) = m \<longleftrightarrow> waiter_leader (q ! i) \<noteq> a \<and> waiter_leader (q ! j) = a" if "i < j" "j < length q" for i j
    using that own [of "q ! i"] own [of "q ! j"] diff [of i j] a by auto
  ultimately show ?thesis by auto
qed


lemma member_iff:
  assumes "tables_ok T" "links_ok T" "leader (group_of T) a = a"
  shows "m \<in> insert a (set (lockGroupMembers T a)) \<longleftrightarrow> leader (group_of T) m = a"
  using assms by (auto simp: links_ok_def leader_def split: option.splits)

lemma conflicting_holders_iff:
  assumes "leader (group_of T) m = a" "info_lockmode d = waitMode T m" "info_lock d = l"
  shows "(\<exists>pl \<in> set (conflicting_holders T m a l). b = leader (group_of T) (myProc pl)) \<longleftrightarrow> b \<noteq> a \<and> holds_against T d b"
proof -
  have eq: "(\<exists>lm \<in> set [1..<AccessExclusiveLock + 1]. bit (holdMask pl) lm \<and> bit (conflictTab (waitMode T m)) lm) \<longleftrightarrow>
      (\<exists>lm. AccessShareLock \<le> lm \<and> lm \<le> AccessExclusiveLock \<and> bit (holdMask pl) lm \<and> bit (conflictTab (waitMode T m)) lm)" for pl
    unfolding AccessShareLock_def by (auto simp: less_Suc_eq_le simp del: upt_Suc)
  show ?thesis unfolding conflicting_holders_def holds_against_def assms eq by auto
qed

lemma group_blocked_iff:
  assumes ok: "tables_ok T" "orders_ok T orders" "links_ok T" "only_leaders orders" and a: "leader (group_of T) a = a" and l: "waitLock T m = Some l"
  defines "d \<equiv> \<lparr>info_lock = l, info_lockmode = waitMode T m, info_pid = m\<rparr>"
  shows "m \<in> insert a (set (lockGroupMembers T a)) \<and> waits_via T orders a m e b \<longleftrightarrow> group_blocked T orders a d e b"
proof (cases "leader (group_of T) m = a")
  case True
  let ?q = "line_of T orders l"
  have lead: "waiter_leader v = leader (group_of T) (procno v)" if "v \<in> set ?q" for v
    using that waiter_leader_ok [OF ok(1), of v l] line_of_set [OF ok(2), of l] by (metis set_mset_mset)
  have soft: "(\<exists>w \<in> set (ahead T orders m a l). bit (conflictTab (waitMode T m)) (waitLockMode w) \<and> b = leader (group_of T) (procno w) \<and>
      e = Some \<lparr>edge_waiter = a, edge_blocker = waiter_leader w, edge_lock = l\<rparr>) \<longleftrightarrow>
      b \<noteq> a \<and> e = Some \<lparr>edge_waiter = a, edge_blocker = b, edge_lock = l\<rparr> \<and> stands_before T orders a d b" (is "?L \<longleftrightarrow> ?R")
  proof
    assume ?L
    then obtain i j where "i < j" "j < length ?q" "waiter_leader (?q ! i) \<noteq> a" "waiter_leader (?q ! j) = a"
      "bit (conflictTab (waitMode T m)) (waitLockMode (?q ! i))" "b = leader (group_of T) (procno (?q ! i))"
      "e = Some \<lparr>edge_waiter = a, edge_blocker = waiter_leader (?q ! i), edge_lock = l\<rparr>"
      by (auto simp: ahead_line_iff [OF ok l True])
    then show ?R using lead [of "?q ! i"] lead [of "?q ! j"] by (auto simp: stands_before_def Let_def d_def)
  next
    assume R: ?R
    then obtain i j where ij: "i < j" "j < length ?q" "leader (group_of T) (procno (?q ! i)) = b" "leader (group_of T) (procno (?q ! j)) = a"
      "bit (conflictTab (waitMode T m)) (waitLockMode (?q ! i))" by (auto simp: stands_before_def Let_def d_def)
    then have "?q ! i \<in> set (ahead T orders m a l)" using R lead [of "?q ! i"] lead [of "?q ! j"] by (auto simp: ahead_line_iff [OF ok l True])
    then show ?L using ij R lead [of "?q ! i"] by (intro bexI [of _ "?q ! i"]) auto
  qed
  have hard: "(\<exists>pl \<in> set (conflicting_holders T m a l). b = leader (group_of T) (myProc pl)) \<longleftrightarrow> b \<noteq> a \<and> holds_against T d b"
    by (rule conflicting_holders_iff [OF True]) (simp_all add: d_def)
  have m: "m \<in> insert a (set (lockGroupMembers T a))" using member_iff [OF ok(1,3) a] True by blast
  have "waits_via T orders a m e b \<longleftrightarrow> b \<noteq> a \<and> (e = None \<and> holds_against T d b \<or> e = Some \<lparr>edge_waiter = a, edge_blocker = b, edge_lock = l\<rparr> \<and> stands_before T orders a d b)"
    unfolding waits_via_def l option.inject simp_thms ex_simps hard soft by blast
  then show ?thesis using m True l unfolding group_blocked_def by (simp add: d_def)
next
  case False
  then show ?thesis using member_iff [OF ok(1,3) a, of m] by (auto simp: group_blocked_def d_def)
qed

lemma noted_chain:
  assumes "noted_path T orders a es ds c" "tables_ok T" "orders_ok T orders" "links_ok T" "only_leaders orders" "leader (group_of T) a = a"
  shows "wait_chain T orders a (zip ds es) c"
  using assms
proof (induction rule: noted_path.induct)
  case (noted_here a)
  show ?case by (simp add: chain_here)
next
  case (noted_step m a e b l es ds c)
  have "group_blocked T orders a \<lparr>info_lock = l, info_lockmode = waitMode T m, info_pid = m\<rparr> e b"
    using group_blocked_iff [OF noted_step.prems noted_step.hyps(3)] noted_step.hyps(1,2) by blast
  moreover have "leader (group_of T) b = b"
    using waits_for_ok [OF noted_step.prems(1,2), of a e b] noted_step.hyps(1,2) by (auto simp: waits_for_def)
  ultimately show ?case using noted_step by (auto intro: chain_step)
qed

lemma chain_path:
  assumes "wait_chain T orders a xs c" "tables_ok T" "orders_ok T orders" "links_ok T" "only_leaders orders" "leader (group_of T) a = a"
  shows "wait_path T orders a (map snd xs) c"
  using assms
proof (induction rule: wait_chain.induct)
  case (chain_here a)
  show ?case by (simp add: path_here)
next
  case (chain_step a d e b xs c)
  have l: "waitLock T (info_pid d) = Some (info_lock d)" "d = \<lparr>info_lock = info_lock d, info_lockmode = waitMode T (info_pid d), info_pid = info_pid d\<rparr>"
    using chain_step.hyps(1) by (auto simp: group_blocked_def)
  have "waits_for T orders a e b" using group_blocked_iff [OF chain_step.prems l(1), of e b] l(2) chain_step.hyps(1) unfolding waits_for_def by auto
  then show ?case using chain_step waits_for_ok [OF chain_step.prems(1,2)] by (auto intro: path_step)
qed

text \<open>With a proposed order for the queue in which it stands, a member of a group that is not its leader waits for itself.\<close>

lemma order_blocks_itself:
  assumes ok: "tables_ok T" "links_ok T" "orders_ok T orders" and l: "l \<in> order_lock ` set orders"
    and m: "group_of T m = Some a" "m \<noteq> a" "waitLock T m = Some l" "bit (conflictTab (waitMode T m)) (waitMode T m)"
    and modes: "\<forall>w \<in> set (waitProcs (lock_at T l)). waitLockMode w = waitMode T (procno w)"
  shows "\<exists>es. es \<noteq> [] \<and> wait_path T orders a es a"
proof -
  have a: "leader (group_of T) m = a" using m(1) by (simp add: leader_def)
  obtain order where o: "find (\<lambda>order. order_lock order = l) orders = Some order" using l by (cases "find (\<lambda>order. order_lock order = l) orders") (auto simp: find_None_iff)
  have "mset (order_procs order) = mset (waitProcs (lock_at T l))" using line_of_set [OF ok(3), of l] o by (simp add: line_of_def)
  then have set_o: "set (order_procs order) = set (waitProcs (lock_at T l))" by (metis set_mset_mset)
  obtain w where w: "w \<in> set (order_procs order)" "procno w = m" using ok(2) m(3) set_o unfolding links_ok_def by blast
  have "waiter_leader v \<noteq> m" if "v \<in> set (order_procs order)" for v
    using that set_o waiter_leader_ok [OF ok(1), of v l] leader_leader [OF ok(1), of "procno v"] a m(2) by auto
  then have all: "takeWhile (\<lambda>w. waiter_leader w \<noteq> m) (order_procs order) = order_procs order" by (simp add: takeWhile_eq_all_conv)
  have "w \<in> set (ahead T orders m a l)" unfolding ahead_def o option.case all by (rule w(1))
  moreover have "waitLockMode w = waitMode T m" using modes w set_o by blast
  ultimately have "waits_via T orders a m (Some \<lparr>edge_waiter = a, edge_blocker = waiter_leader w, edge_lock = l\<rparr>) a"
    using m(3,4) w(2) a unfolding waits_via_def by force
  moreover have "m \<in> set (lockGroupMembers T a)" using ok(2) m(1) by (simp add: links_ok_def)
  ultimately have "waits_for T orders a (Some \<lparr>edge_waiter = a, edge_blocker = waiter_leader w, edge_lock = l\<rparr>) a" unfolding waits_for_def by blast
  then show ?thesis using path_step [OF _ path_here] by blast
qed

section \<open>Examples\<close>

text \<open>The tables of the second example with the queue of lock 0 turned round.\<close>

definition turned_2 :: lock_tables where
  "turned_2 = apply_order \<lparr>order_lock = 0, order_procs = rev (waitProcs (ex_lock0 2 (Some 1)))\<rparr> tables_2"

definition verdict :: "((DeadLockState \<times> lock_tables) \<times> search) result \<Rightarrow> DeadLockState option" where
  "verdict r = (case r of Inl e \<Rightarrow> None | Inr ((st, T), s) \<Rightarrow> Some st)"

lemma example_tables: "tables_ok tables_1" "queues_ok tables_1" "leader (group_of tables_1) 1 < MaxBackends tables_1" "2 * MaxBackends tables_1 + 1 < 12" "MaxBackends tables_1 < 12"
  by (auto simp: tables_ok_def queues_ok_def ex_tables_def ex_lock0_def ex_lock1_def new_LOCK_def leader_def grp_ok_def)

definition ex_order :: WAIT_ORDER where
  "ex_order = \<lparr>order_lock = 0, order_procs = rev (waitProcs (ex_lock0 1 None))\<rparr>"

lemma example_order: "orders_ok tables_1 [ex_order]" "only_leaders [ex_order]"
  by (auto simp: orders_ok_def only_leaders_def ex_order_def ex_tables_def ex_lock0_def waiter_leader_def)

lemma example_links: "links_ok tables_1" "links_ok tables_2"
  by (simp_all add: links_ok_def ex_tables_def ex_lock0_def ex_lock1_def new_LOCK_def eq_commute)

lemma example_members: "tables_ok tables_2" "only_leaders []" "leader (group_of tables_2) 2 < MaxBackends tables_2" "MaxBackends tables_2 < 12"
  "2 * MaxBackends tables_2 + 1 < 12"
  by (auto simp: tables_ok_def only_leaders_def ex_tables_def ex_lock0_def ex_lock1_def new_LOCK_def leader_def grp_ok_def)

lemma example_found:
  "case FindLockCycle 12 tables_1 [ex_order] 1 no_search of Inr (found, s) \<Rightarrow> \<not> found | Inl e \<Rightarrow> False"
  "case FindLockCycle 12 tables_2 [] 2 no_search of Inr (found, s) \<Rightarrow> found \<and> length (deadlockDetails s) = 3 | Inl e \<Rightarrow> False"
  by code_simp+

lemma example_verdict: "verdict (DeadLockCheck 12 tables_1 1 no_search) = Some DS_SOFT_DEADLOCK"
  by code_simp

lemma hard_edge: "waitLock T a = Some l \<Longrightarrow> pl \<in> set (conflicting_holders T a a l) \<Longrightarrow> leader (group_of T) (myProc pl) = b \<Longrightarrow> waits_for T orders a None b"
  unfolding waits_for_def waits_via_def by blast

text \<open>The cycle of the second example does not depend on the orders of other queues.\<close>

lemma example_cycle:
  assumes "0 \<notin> order_lock ` set orders"
  shows "\<not> free_of_cycles tables_2 orders 2"
proof -
  let ?e = "Some \<lparr>edge_waiter = 1, edge_blocker = 4, edge_lock = 0\<rparr>"
  have none: "find (\<lambda>order. order_lock order = 0) orders = None" using assms by (auto simp: find_None_iff)
  have q: "ahead tables_2 orders 2 1 0 = ahead tables_2 [] 2 1 0" by (simp add: ahead_def none)
  have t: "group_of tables_2 4 = None" "group_of tables_2 3 = None" "leader (group_of tables_2) 2 = 1" "lockGroupMembers tables_2 1 = [1, 2]" by code_simp+
  have "\<lparr>procno = 4, lockGroupLeader = None, heldLocks = 0, waitLockMode = AccessExclusiveLock\<rparr> \<in> set (ahead tables_2 [] 2 1 0)" by code_simp
  moreover have "waitLock tables_2 2 = Some 0" "bit (conflictTab (waitMode tables_2 2)) AccessExclusiveLock" by code_simp+
  ultimately have "waits_via tables_2 orders 1 2 ?e 4" unfolding waits_via_def
    by (intro exI [of _ 0] conjI disjI2 bexI [where x = "\<lparr>procno = 4, lockGroupLeader = None, heldLocks = 0, waitLockMode = AccessExclusiveLock\<rparr>"])
      (simp_all add: q t leader_def waiter_leader_def del: One_nat_def)
  then have a: "waits_for tables_2 orders 1 ?e 4" unfolding waits_for_def by (rule bexI) (simp add: t del: One_nat_def)
  have b: "waits_for tables_2 orders 4 None 3"
    by (rule hard_edge [of _ _ 0 "\<lparr>myProc = 3, groupLeader = 3, holdMask = LOCKBIT_ON AccessShareLock\<rparr>"]) code_simp+
  have c: "waits_for tables_2 orders 3 None 1"
    by (rule hard_edge [of _ _ 1 "\<lparr>myProc = 1, groupLeader = 1, holdMask = LOCKBIT_ON AccessExclusiveLock\<rparr>"]) code_simp+
  have "wait_path tables_2 orders 1 [?e, None, None] 1" by (intro path_step [OF a] path_step [OF b] path_step [OF c] path_here)
  then show ?thesis unfolding free_of_cycles_def t by blast
qed

lemma example_turned: "verdict (DeadLockCheck 12 turned_2 2 no_search) = Some DS_NO_DEADLOCK" "waitLock turned_2 2 = None"
  by code_simp+

section \<open>The properties\<close>

text \<open>
  C6. The search for a cycle returns, and it finds one exactly when the waits-for graph has a cycle through the lock group of the process. What it reports then is
  such a cycle: the i-th entry of the details gives the lock, the mode and the process that waits along the i-th edge, the soft edges are those of the cycle in
  reverse order, and there are never more edges than the arrays have room for. The queues are the proposed ones where orders are proposed; a lock with a
  proposed order has only leaders of groups, or processes without a group, in its queue.
\<close>

theorem FindLockCycle_correct:
  assumes "tables_ok T" "links_ok T" "orders_ok T orders" "only_leaders orders" "leader (group_of T) proc < MaxBackends T" "MaxBackends T < stack"
  defines "c \<equiv> leader (group_of T) proc"
  shows "\<exists>found s'. FindLockCycle stack T orders proc s = Inr (found, s') \<and>
    (found \<longleftrightarrow> (\<exists>xs. xs \<noteq> [] \<and> wait_chain T orders c xs c)) \<and>
    (found \<longrightarrow> (\<exists>es. es \<noteq> [] \<and> length (deadlockDetails s') = length es \<and> length es \<le> MaxBackends T \<and>
                  wait_chain T orders c (zip (deadlockDetails s') es) c \<and> softEdges s' = rev (softs es)))"
proof -
  have c: "leader (group_of T) c = c" unfolding c_def by (rule leader_leader [OF assms(1)])
  consider (found) s' es where "FindLockCycle stack T orders proc s = Inr (True, s')" "es \<noteq> []" "noted_path T orders c es (deadlockDetails s') c"
      "softEdges s' = rev (softs es)" "length es \<le> MaxBackends T"
    | (none) s' where "FindLockCycle stack T orders proc s = Inr (False, s')" "\<nexists>es. es \<noteq> [] \<and> wait_path T orders c es c"
    using FindLockCycle_returns [OF tables_closed [OF assms(1,3)], of proc stack s, folded c_def] assms(5,6) unfolding card_lessThan lessThan_iff c_def [symmetric] by blast
  then show ?thesis
  proof cases
    case found
    have ch: "wait_chain T orders c (zip (deadlockDetails s') es) c" by (rule noted_chain [OF found(3) assms(1,3,2,4) c])
    have len: "length (deadlockDetails s') = length es" by (rule noted_path_forget(2) [OF found(3)])
    have "zip (deadlockDetails s') es \<noteq> []" using len found(2) by (auto simp: zip_eq_Nil_iff)
    then show ?thesis using found ch len by blast
  next
    case none
    have "\<nexists>xs. xs \<noteq> [] \<and> wait_chain T orders c xs c" using chain_path [OF _ assms(1,3,2,4) c] none(2) map_is_Nil_conv by blast
    then show ?thesis using none(1) by blast
  qed
qed

theorem FindLockCycle_correct_witness:
  "(\<exists>s es. FindLockCycle 12 tables_2 [] 2 no_search = Inr (True, s) \<and> length es = 3 \<and> wait_chain tables_2 [] 1 (zip (deadlockDetails s) es) 1) \<and>
   (\<nexists>xs. xs \<noteq> [] \<and> wait_chain tables_1 [ex_order] 1 xs 1)"
proof
  obtain s es where s: "FindLockCycle 12 tables_2 [] 2 no_search = Inr (True, s)" "length (deadlockDetails s) = length es" "wait_chain tables_2 [] 1 (zip (deadlockDetails s) es) 1"
    using FindLockCycle_correct [OF example_members(1) example_links(2) orders_ok_Nil example_members(2-4), of no_search] example_found(2)
    by (auto simp: leader_def ex_tables_def)
  moreover have "length (deadlockDetails s) = 3" using example_found(2) s(1) by simp
  ultimately show "\<exists>s es. FindLockCycle 12 tables_2 [] 2 no_search = Inr (True, s) \<and> length es = 3 \<and> wait_chain tables_2 [] 1 (zip (deadlockDetails s) es) 1" by auto
  show "\<nexists>xs. xs \<noteq> [] \<and> wait_chain tables_1 [ex_order] 1 xs 1"
    using FindLockCycle_correct [OF example_tables(1) example_links(1) example_order example_tables(3,5), of no_search] example_found(1)
    by (auto simp: leader_def ex_tables_def)
qed

text \<open>
  C4. The detector decides: with enough stack it returns a verdict and raises no error, neither that its results are inconsistent nor that the deadlock has
  disappeared. A hard deadlock is a cycle through the lock group of the process, and the tables are left alone. Otherwise there is no cycle through it with
  the queues in the orders that the detector installs, which are permutations of the queues of different locks; it installs orders only when there was a
  cycle, and reports a soft deadlock then.
\<close>

theorem DeadLockCheck_decides:
  assumes "tables_ok T" "leader (group_of T) proc < MaxBackends T" "2 * MaxBackends T + 1 < stack"
  shows "\<exists>st T' s' orders. DeadLockCheck stack T proc s = Inr ((st, T'), s') \<and> T' = fold apply_order orders T \<and> orders_ok T orders \<and>
    (if st = DS_HARD_DEADLOCK then orders = [] \<and> \<not> free_of_cycles T [] proc else free_of_cycles T orders proc) \<and>
    (st = DS_SOFT_DEADLOCK \<longleftrightarrow> orders \<noteq> []) \<and> (st = DS_SOFT_DEADLOCK \<longrightarrow> \<not> free_of_cycles T [] proc) \<and> st \<noteq> DS_NOT_YET_CHECKED \<and> st \<noteq> DS_LOCK_TIMEOUT"
  by (rule DeadLockCheck_verdict [OF assms])

theorem DeadLockCheck_decides_witness: "\<exists>orders. orders_ok tables_1 orders \<and> orders \<noteq> [] \<and> free_of_cycles tables_1 orders 1 \<and> \<not> free_of_cycles tables_1 [] 1"
proof -
  obtain st T' s' orders where d: "DeadLockCheck 12 tables_1 1 no_search = Inr ((st, T'), s')" "orders_ok tables_1 orders"
    "if st = DS_HARD_DEADLOCK then orders = [] \<and> \<not> free_of_cycles tables_1 [] 1 else free_of_cycles tables_1 orders 1"
    "st = DS_SOFT_DEADLOCK \<longleftrightarrow> orders \<noteq> []" "st = DS_SOFT_DEADLOCK \<longrightarrow> \<not> free_of_cycles tables_1 [] 1"
    using DeadLockCheck_decides [OF example_tables(1,3,4), of no_search] by blast
  have "st = DS_SOFT_DEADLOCK" using example_verdict d(1) by (simp add: verdict_def)
  then show ?thesis using d by auto
qed

text \<open>
  C5. Where no lock groups are in use, the tables that the detector leaves behind have no cycle through the process unless it reports a hard deadlock: it has
  put the queues in another order and woken up whom it could. The queues still agree with the processes, and a lock in a state that the lock manager can
  reach stays in such a state.
\<close>

theorem deadlock_resolved:
  assumes "tables_ok T" "queues_ok T" "leader (group_of T) proc < MaxBackends T" "2 * MaxBackends T + 1 < stack"
  shows "\<exists>st T' s'. DeadLockCheck stack T proc s = Inr ((st, T'), s') \<and> (free_of_cycles T' [] proc \<longleftrightarrow> st \<noteq> DS_HARD_DEADLOCK) \<and>
    tables_ok T' \<and> queues_ok T' \<and> (\<forall>l. lreach (group_of T) (Some (lock_at T l)) \<longrightarrow> lreach (group_of T) (Some (lock_at T' l)))"
proof -
  obtain st T' s' orders where d: "DeadLockCheck stack T proc s = Inr ((st, T'), s')" "T' = fold apply_order orders T" "orders_ok T orders"
    "if st = DS_HARD_DEADLOCK then orders = [] \<and> \<not> free_of_cycles T [] proc else free_of_cycles T orders proc"
    using DeadLockCheck_verdict [OF assms(1,3,4), of s] by blast
  have T': "T' = tables_after T orders" using d(2) fold_apply_order_after [OF d(3)] by simp
  have "free_of_cycles T' [] proc \<longleftrightarrow> st \<noteq> DS_HARD_DEADLOCK"
    using d(2,4) after_free [OF assms(1,2) d(3)] T' by (auto split: if_splits)
  then show ?thesis using d(1) tables_after_ok [OF assms(1,2) d(3)] after_lreach [OF d(3)] unfolding T' by blast
qed

theorem deadlock_resolved_witness: "\<exists>T' s'. DeadLockCheck 12 tables_1 1 no_search = Inr ((DS_SOFT_DEADLOCK, T'), s') \<and> free_of_cycles T' [] 1"
proof -
  obtain st T' s' where d: "DeadLockCheck 12 tables_1 1 no_search = Inr ((st, T'), s')" "free_of_cycles T' [] 1 \<longleftrightarrow> st \<noteq> DS_HARD_DEADLOCK"
    using deadlock_resolved [OF example_tables(1-4), of no_search] by blast
  have "st = DS_SOFT_DEADLOCK" using example_verdict d(1) by (simp add: verdict_def)
  then show ?thesis using d by auto
qed

text \<open>
  C38. A false deadlock for lock groups: when a member of the lock group of the process that is not its leader waits for a lock in a mode that conflicts with
  itself, the detector never puts the queue of that lock in another order, though only that order may help. So it reports a hard deadlock whenever every order of
  the other queues leaves a cycle. In a proposed order the scan of the waiters ahead ends at a waiter whose leader is the process itself, which a member of a
  group that is not its leader never meets, so that it counts its own request as a blocker. In the example process 2 of the group of process 1 waits behind
  process 4, and with the two exchanged there is no deadlock and process 2 gets the lock; process 1 in its place is given the soft verdict.
\<close>

theorem group_member_false_deadlock:
  assumes "tables_ok T" "links_ok T" "leader (group_of T) proc < MaxBackends T" "2 * MaxBackends T + 1 < stack"
    and m: "group_of T m = Some (leader (group_of T) proc)" "m \<noteq> leader (group_of T) proc" "waitLock T m = Some l" "bit (conflictTab (waitMode T m)) (waitMode T m)"
    and modes: "\<forall>w \<in> set (waitProcs (lock_at T l)). waitLockMode w = waitMode T (procno w)"
  shows "\<exists>st T' s'. DeadLockCheck stack T proc s = Inr ((st, T'), s') \<and> lock_at T' l = lock_at T l \<and>
    ((\<forall>orders. orders_ok T orders \<and> l \<notin> order_lock ` set orders \<longrightarrow> \<not> free_of_cycles T orders proc) \<longrightarrow> st = DS_HARD_DEADLOCK)"
proof -
  obtain st T' s' orders where d: "DeadLockCheck stack T proc s = Inr ((st, T'), s')" "T' = fold apply_order orders T" "orders_ok T orders"
    "if st = DS_HARD_DEADLOCK then orders = [] \<and> \<not> free_of_cycles T [] proc else free_of_cycles T orders proc"
    using DeadLockCheck_verdict [OF assms(1,3,4), of s] by blast
  have "l \<notin> order_lock ` set orders"
  proof
    assume l: "l \<in> order_lock ` set orders"
    then have "free_of_cycles T orders proc" using d(4) by (auto split: if_splits)
    then show False using order_blocks_itself [OF assms(1,2) d(3) l m] modes by (auto simp: free_of_cycles_def)
  qed
  moreover from this have "lock_at T' l = lock_at T l"
    using d(2) fold_apply_order_after [OF d(3)] by (simp add: tables_after_def lock_after_def order_of_fresh)
  ultimately show ?thesis using d by (auto split: if_splits)
qed

theorem group_member_false_deadlock_witness:
  "\<exists>T' s'. DeadLockCheck 12 tables_2 2 no_search = Inr ((DS_HARD_DEADLOCK, T'), s') \<and> lock_at T' 0 = lock_at tables_2 0 \<and>
   verdict (DeadLockCheck 12 turned_2 2 no_search) = Some DS_NO_DEADLOCK \<and> waitLock turned_2 2 = None"
proof -
  have e: "group_of tables_2 2 = Some (leader (group_of tables_2) 2)" "2 \<noteq> leader (group_of tables_2) 2" "waitLock tables_2 2 = Some 0"
    "bit (conflictTab (waitMode tables_2 2)) (waitMode tables_2 2)" by code_simp+
  have modes: "\<forall>w \<in> set (waitProcs (lock_at tables_2 0)). waitLockMode w = waitMode tables_2 (procno w)" by (simp add: ex_tables_def ex_lock0_def)
  have "\<not> free_of_cycles tables_2 orders 2" if "0 \<notin> order_lock ` set orders" for orders by (rule example_cycle [OF that])
  then show ?thesis using group_member_false_deadlock [OF example_members(1) example_links(2) example_members(3,5) e modes, of no_search] example_turned by blast
qed

end
