(* ===== verification/OG_Visibility.thy ===== *)
theory OG_Visibility
  imports OG_Prelude
begin

text \<open>
  \<^verbatim>\<open>src/gausskernel/storage/access/heap/heapam_visibility.cpp\<close>: which versions of a tuple a session sees, with the routines of \<^verbatim>\<open>transam.cpp\<close>,
  \<^verbatim>\<open>csnlog.cpp\<close> and \<^verbatim>\<open>snapmgr.cpp\<close> that it asks about transactions.
\<close>

section \<open>Transaction ids, sequence numbers, flag bits\<close>

type_synonym TransactionId = uint64
type_synonym CommitSeqNo = uint64
type_synonym CommandId = uint32

definition InvalidTransactionId :: TransactionId where "InvalidTransactionId = 0"
definition BootstrapTransactionId :: TransactionId where "BootstrapTransactionId = 1"
definition FrozenTransactionId :: TransactionId where "FrozenTransactionId = 2"
definition FirstNormalTransactionId :: TransactionId where "FirstNormalTransactionId = 3"

definition TransactionIdIsValid :: "TransactionId \<Rightarrow> bool" where
  "TransactionIdIsValid xid \<longleftrightarrow> xid \<noteq> InvalidTransactionId"

definition TransactionIdIsNormal :: "TransactionId \<Rightarrow> bool" where
  "TransactionIdIsNormal xid \<longleftrightarrow> xid \<ge> FirstNormalTransactionId"

definition TransactionIdPrecedes :: "TransactionId \<Rightarrow> TransactionId \<Rightarrow> bool" where
  "TransactionIdPrecedes id1 id2 \<longleftrightarrow> id1 < id2"

definition COMMITSEQNO_ABORTED :: CommitSeqNo where "COMMITSEQNO_ABORTED = 1"
definition COMMITSEQNO_FROZEN :: CommitSeqNo where "COMMITSEQNO_FROZEN = 2"
definition COMMITSEQNO_COMMIT_INPROGRESS :: CommitSeqNo where "COMMITSEQNO_COMMIT_INPROGRESS = push_bit 62 1"
definition COMMITSEQNO_SUBTRANS_BIT :: CommitSeqNo where "COMMITSEQNO_SUBTRANS_BIT = push_bit 63 1"
definition MAX_COMMITSEQNO :: CommitSeqNo where "MAX_COMMITSEQNO = push_bit 60 1 - 1"
definition COMMITSEQNO_RESERVE_MASK :: CommitSeqNo where "COMMITSEQNO_RESERVE_MASK = NOT MAX_COMMITSEQNO"

definition COMMITSEQNO_IS_ABORTED :: "CommitSeqNo \<Rightarrow> bool" where
  "COMMITSEQNO_IS_ABORTED csn \<longleftrightarrow> csn = COMMITSEQNO_ABORTED"

definition COMMITSEQNO_IS_COMMITTED :: "CommitSeqNo \<Rightarrow> bool" where
  "COMMITSEQNO_IS_COMMITTED csn \<longleftrightarrow> csn AND MAX_COMMITSEQNO \<ge> COMMITSEQNO_FROZEN \<and> csn AND COMMITSEQNO_RESERVE_MASK = 0"

definition COMMITSEQNO_IS_COMMITTING :: "CommitSeqNo \<Rightarrow> bool" where
  "COMMITSEQNO_IS_COMMITTING csn \<longleftrightarrow> csn AND COMMITSEQNO_COMMIT_INPROGRESS = COMMITSEQNO_COMMIT_INPROGRESS"

definition COMMITSEQNO_IS_SUBTRANS :: "CommitSeqNo \<Rightarrow> bool" where
  "COMMITSEQNO_IS_SUBTRANS csn \<longleftrightarrow> csn AND COMMITSEQNO_SUBTRANS_BIT = COMMITSEQNO_SUBTRANS_BIT"

definition GET_COMMITSEQNO :: "CommitSeqNo \<Rightarrow> CommitSeqNo" where
  "GET_COMMITSEQNO csn = csn AND MAX_COMMITSEQNO"

definition GET_PARENTXID :: "CommitSeqNo \<Rightarrow> TransactionId" where
  "GET_PARENTXID csn = csn AND MAX_COMMITSEQNO"

definition HEAP_COMBOCID :: uint16 where "HEAP_COMBOCID = 0x0020"
definition HEAP_XMAX_EXCL_LOCK :: uint16 where "HEAP_XMAX_EXCL_LOCK = 0x0040"
definition HEAP_XMAX_SHARED_LOCK :: uint16 where "HEAP_XMAX_SHARED_LOCK = 0x0080"
definition HEAP_XMAX_KEYSHR_LOCK :: uint16 where "HEAP_XMAX_KEYSHR_LOCK = HEAP_XMAX_EXCL_LOCK OR HEAP_XMAX_SHARED_LOCK"
definition HEAP_LOCK_MASK :: uint16 where "HEAP_LOCK_MASK = HEAP_XMAX_EXCL_LOCK OR HEAP_XMAX_SHARED_LOCK OR HEAP_XMAX_KEYSHR_LOCK"
definition HEAP_XMIN_COMMITTED :: uint16 where "HEAP_XMIN_COMMITTED = 0x0100"
definition HEAP_XMIN_INVALID :: uint16 where "HEAP_XMIN_INVALID = 0x0200"
definition HEAP_XMIN_FROZEN :: uint16 where "HEAP_XMIN_FROZEN = HEAP_XMIN_INVALID OR HEAP_XMIN_COMMITTED"
definition HEAP_XMAX_COMMITTED :: uint16 where "HEAP_XMAX_COMMITTED = 0x0400"
definition HEAP_XMAX_INVALID :: uint16 where "HEAP_XMAX_INVALID = 0x0800"
definition HEAP_XMAX_IS_MULTI :: uint16 where "HEAP_XMAX_IS_MULTI = 0x1000"
definition HEAP_XMAX_LOCK_ONLY :: uint16 where "HEAP_XMAX_LOCK_ONLY = 0x0800"

section \<open>Tuples, sessions, the shared state of transactions\<close>

text \<open>
  A tuple with the header fields that matter. \<open>t_xmin\<close> and \<open>t_xmax\<close> are the full transaction ids (\<^verbatim>\<open>HeapTupleHeaderGetXmin\<close> adds the base of the
  page), \<open>t_cmin\<close> and \<open>t_cmax\<close> what \<^verbatim>\<open>HeapTupleHeaderGetCmin\<close> and \<^verbatim>\<open>HeapTupleHeaderGetCmax\<close> find for the command id \<open>t_cid\<close>.
\<close>

record HeapTupleData =
  t_self :: "nat \<times> nat"
  t_ctid :: "nat \<times> nat"
  t_xmin :: TransactionId
  t_xmax :: TransactionId
  t_cmin :: CommandId
  t_cmax :: CommandId
  t_cid :: CommandId
  t_infomask :: uint16
  t_infomask2 :: uint16

definition infomask_bit :: "HeapTupleData \<Rightarrow> uint16 \<Rightarrow> bool" where
  "infomask_bit tuple m \<longleftrightarrow> t_infomask tuple AND m \<noteq> 0"

definition HeapTupleHeaderXminCommitted :: "HeapTupleData \<Rightarrow> bool" where
  "HeapTupleHeaderXminCommitted tuple \<longleftrightarrow> infomask_bit tuple HEAP_XMIN_COMMITTED"

definition HeapTupleHeaderXminInvalid :: "HeapTupleData \<Rightarrow> bool" where
  "HeapTupleHeaderXminInvalid tuple \<longleftrightarrow> t_infomask tuple AND (HEAP_XMIN_COMMITTED OR HEAP_XMIN_INVALID) = HEAP_XMIN_INVALID"

definition HeapTupleHeaderXminFrozen :: "HeapTupleData \<Rightarrow> bool" where
  "HeapTupleHeaderXminFrozen tuple \<longleftrightarrow> t_infomask tuple AND HEAP_XMIN_FROZEN = HEAP_XMIN_FROZEN"

definition HEAP_XMAX_IS_LOCKED_ONLY :: "HeapTupleData \<Rightarrow> bool" where
  "HEAP_XMAX_IS_LOCKED_ONLY tuple \<longleftrightarrow>
     t_infomask2 tuple AND HEAP_XMAX_LOCK_ONLY \<noteq> 0 \<or>
     t_infomask tuple AND HEAP_XMAX_SHARED_LOCK \<noteq> 0 \<or>
     t_infomask tuple AND (HEAP_XMAX_IS_MULTI OR HEAP_LOCK_MASK) = HEAP_XMAX_EXCL_LOCK"

text \<open>
  What a session knows by itself: its own transactions, its command, the settings the routines test. \<open>MultiXactIdGetUpdateXid\<close> gives the updating member
  of a multixact, which never changes.
\<close>

record session =
  TransactionIdIsCurrentTransactionId :: "TransactionId \<Rightarrow> bool"
  GetCurrentCommandId :: CommandId
  MultiXactIdGetUpdateXid :: "TransactionId \<Rightarrow> TransactionId"
  RecentXmin :: TransactionId
  TransactionXmin :: TransactionId
  startupMaxXid :: TransactionId
  useLocalSnapshot :: bool
  RecoveryInProgress :: bool
  IsRoachStandbyCluster :: bool
  read_uncommitted :: bool
  enable_cluster_resize :: bool
  XactReadOnly :: bool
  enable_show_any_tuples :: bool
  xc_maintenance_mode :: bool
  bInAbortTransaction :: bool
  IsInitdb :: bool
  usedComboCids :: CommandId
  StreamThreadAmI :: bool
  SS_STANDBY_MODE :: bool

datatype CLogXidStatus = CLOG_XID_STATUS_IN_PROGRESS | CLOG_XID_STATUS_COMMITTED | CLOG_XID_STATUS_ABORTED | CLOG_XID_STATUS_SUB_COMMITTED

text \<open>
  The state of the transactions at one instant, as the session sees it: the answer of \<^verbatim>\<open>TransactionIdIsInProgress\<close>, the commit log, the log of commit sequence
  numbers, and whether the commit record of a transaction is flushed as far as a hint bit needs it. The answer of \<^verbatim>\<open>TransactionIdIsInProgress\<close> is the one that the
  session gets, so that for a transaction whose end it has in its cache of one entry (\<^verbatim>\<open>TransactionIdIsKnownCompleted\<close>) it is false from the instant of the look on,
  while the array of running transactions may still hold it.
\<close>

record xacts =
  TransactionIdIsInProgress :: "TransactionId \<Rightarrow> bool"
  needToSyncXid :: "TransactionId \<Rightarrow> bool"
  clog :: "TransactionId \<Rightarrow> CLogXidStatus"
  csnlog :: "TransactionId \<Rightarrow> CommitSeqNo"
  MultiXactIdIsRunning :: "TransactionId \<Rightarrow> bool"
  hint_flushed :: "TransactionId \<Rightarrow> bool"

text \<open>
  The shared state as it changes while a routine runs: the state at each instant, the instant at which a wait for a transaction that begins at a given instant
  ends, and what others do to the tuple meanwhile, because the buffer is unlocked during the wait. Every look at the shared state takes one instant.
\<close>

record world =
  at :: "nat \<Rightarrow> xacts"
  wait_end :: "nat \<Rightarrow> TransactionId \<Rightarrow> nat"
  others :: "nat \<Rightarrow> HeapTupleData \<Rightarrow> HeapTupleData"

record vis_state =
  now :: nat
  tup :: HeapTupleData
  latestFetchXid :: TransactionId
  latestFetchXidStatus :: CLogXidStatus
  latestFetchCSNXid :: TransactionId
  latestFetchCSN :: CommitSeqNo
  csn_writes :: "(TransactionId \<times> CommitSeqNo) list"
  has_cur_xact_write :: "bool option"
  dirty_xmin :: TransactionId
  dirty_xmax :: TransactionId

text \<open>
  The state of a call: the instant, the tuple, the fields of \<^verbatim>\<open>t_thrd.xact_cxt\<close> with the latest results of the logs, what the call writes into the log of sequence
  numbers, and its output parameters (\<open>None\<close> for a null pointer; the ids that \<^verbatim>\<open>HeapTupleSatisfiesDirty\<close> puts into the snapshot).
\<close>

definition tick :: "vis_state \<Rightarrow> vis_state" where
  "tick s = s\<lparr>now := now s + 1\<rparr>"

section \<open>The logs\<close>

definition TransactionLogFetch :: "xacts \<Rightarrow> TransactionId \<Rightarrow> vis_state \<Rightarrow> CLogXidStatus \<times> vis_state" where
  "TransactionLogFetch x xid s =
     (if \<not> TransactionIdIsNormal xid
      then (if xid = BootstrapTransactionId \<or> xid = FrozenTransactionId then CLOG_XID_STATUS_COMMITTED else CLOG_XID_STATUS_ABORTED,
            s\<lparr>latestFetchXid := InvalidTransactionId\<rparr>)
      else (clog x xid, s\<lparr>latestFetchXid := xid, latestFetchXidStatus := clog x xid\<rparr>))"

definition CSNLogGetCommitSeqNo :: "xacts \<Rightarrow> TransactionId \<Rightarrow> CommitSeqNo" where
  "CSNLogGetCommitSeqNo x xid =
     (if xid = InvalidTransactionId then COMMITSEQNO_ABORTED
      else if xid = FrozenTransactionId \<or> xid = BootstrapTransactionId then COMMITSEQNO_FROZEN
      else csnlog x xid)"

text \<open>The parent of a subtransaction, or the status that the log has for it.\<close>

definition SubTransGetParent :: "xacts \<Rightarrow> TransactionId \<Rightarrow> TransactionId \<times> CLogXidStatus" where
  "SubTransGetParent x xid =
     (let csn = CSNLogGetCommitSeqNo x xid
      in if COMMITSEQNO_IS_SUBTRANS csn then (GET_PARENTXID csn, CLOG_XID_STATUS_IN_PROGRESS)
         else (InvalidTransactionId,
               if COMMITSEQNO_IS_COMMITTED csn then CLOG_XID_STATUS_COMMITTED
               else if COMMITSEQNO_IS_ABORTED csn then CLOG_XID_STATUS_ABORTED
               else CLOG_XID_STATUS_IN_PROGRESS))"

text \<open>A parent is allocated before its child; a log in which it is not would keep the routine from returning, and counts as not committed here.\<close>

function TransactionIdDidCommit :: "session \<Rightarrow> xacts \<Rightarrow> TransactionId \<Rightarrow> vis_state \<Rightarrow> bool \<times> vis_state" where
  "TransactionIdDidCommit me x xid s =
     (case TransactionLogFetch x xid s of (xidstatus, s) \<Rightarrow>
        if xidstatus = CLOG_XID_STATUS_COMMITTED then (True, s)
        else if xidstatus = CLOG_XID_STATUS_SUB_COMMITTED
        then if TransactionIdPrecedes xid (TransactionXmin me) then (False, s)
             else case SubTransGetParent x xid of (parentXid, status) \<Rightarrow>
                    if \<not> TransactionIdIsValid parentXid then (status = CLOG_XID_STATUS_COMMITTED, s)
                    else if TransactionIdPrecedes parentXid xid then TransactionIdDidCommit me x parentXid s
                    else (False, s)
        else (False, s))"
  by pat_completeness auto
termination
  by (relation "measure (\<lambda>(me, x, xid, s). unat xid)") (auto simp: TransactionIdPrecedes_def word_less_nat_alt)

definition LatestFetchTransactionIdDidAbort :: "session \<Rightarrow> TransactionId \<Rightarrow> vis_state \<Rightarrow> bool" where
  "LatestFetchTransactionIdDidAbort me xid s =
     (if \<not> TransactionIdIsValid (startupMaxXid me) \<or> TransactionIdPrecedes xid (startupMaxXid me) \<or> read_uncommitted me \<or> useLocalSnapshot me then True
      else if xid \<noteq> latestFetchXid s then True
      else if latestFetchXidStatus s = CLOG_XID_STATUS_ABORTED \<or> latestFetchXidStatus s = CLOG_XID_STATUS_SUB_COMMITTED then True
      else xid = latestFetchCSNXid s \<and> COMMITSEQNO_IS_ABORTED (latestFetchCSN s))"

definition LatestFetchCSNDidAbort :: "session \<Rightarrow> TransactionId \<Rightarrow> vis_state \<Rightarrow> bool" where
  "LatestFetchCSNDidAbort me xid s =
     (if read_uncommitted me \<or> useLocalSnapshot me then True
      else if xid \<noteq> latestFetchCSNXid s then True
      else COMMITSEQNO_IS_ABORTED (latestFetchCSN s))"

text \<open>\<^verbatim>\<open>LatestTransactionStatusError\<close>: a message at level ERROR without a code of its own, which gets the default code.\<close>

definition LatestTransactionStatusError :: "'a result" where
  "LatestTransactionStatusError = Inl (Ereport ERROR ERRCODE_WRONG_OBJECT_TYPE)"

section \<open>Hint bits\<close>

definition SetHintBits :: "session \<Rightarrow> world \<Rightarrow> uint16 \<Rightarrow> TransactionId \<Rightarrow> vis_state \<Rightarrow> vis_state" where
  "SetHintBits me W infomask xid s =
     (if useLocalSnapshot me \<and> infomask AND HEAP_XMIN_COMMITTED = 0 \<or> RecoveryInProgress me \<or> IsRoachStandbyCluster me then s
      else if read_uncommitted me \<and> infomask AND HEAP_XMIN_COMMITTED = 0 then s
      else if enable_cluster_resize me then s
      else if infomask_bit (tup s) infomask then s
      else if SS_STANDBY_MODE me then s\<lparr>tup := (tup s)\<lparr>t_infomask := t_infomask (tup s) OR infomask\<rparr>\<rparr>
      else if TransactionIdIsValid xid \<and> \<not> hint_flushed (at W (now s)) xid then s
      else s\<lparr>tup := (tup s)\<lparr>t_infomask := t_infomask (tup s) OR infomask\<rparr>\<rparr>)"

section \<open>Looks at the shared state\<close>

definition look_progress :: "world \<Rightarrow> TransactionId \<Rightarrow> vis_state \<Rightarrow> bool \<times> vis_state" where
  "look_progress W xid s = (TransactionIdIsInProgress (at W (now s)) xid, tick s)"

definition look_commit :: "session \<Rightarrow> world \<Rightarrow> TransactionId \<Rightarrow> vis_state \<Rightarrow> bool \<times> vis_state" where
  "look_commit me W xid s = (case TransactionIdDidCommit me (at W (now s)) xid s of (b, s') \<Rightarrow> (b, tick s'))"

definition look_multi :: "world \<Rightarrow> TransactionId \<Rightarrow> vis_state \<Rightarrow> bool \<times> vis_state" where
  "look_multi W xid s = (MultiXactIdIsRunning (at W (now s)) xid, tick s)"

text \<open>\<^verbatim>\<open>SyncWaitXidEnd\<close>: the buffer is unlocked meanwhile, unless there is none.\<close>

definition SyncWaitXidEnd :: "world \<Rightarrow> TransactionId \<Rightarrow> bool \<Rightarrow> vis_state \<Rightarrow> vis_state" where
  "SyncWaitXidEnd W xid buffer s =
     s\<lparr>now := wait_end W (now s) xid, tup := (if buffer then others W (now s) (tup s) else tup s)\<rparr>"

section \<open>What the routines share\<close>

definition DealCurrentTansactionNotCommited :: "session \<Rightarrow> world \<Rightarrow> vis_state \<Rightarrow> bool result \<times> vis_state" where
  "DealCurrentTansactionNotCommited me W s =
     (let tuple = tup s
      in if infomask_bit tuple HEAP_XMAX_INVALID then (Inr True, s)
         else if HEAP_XMAX_IS_LOCKED_ONLY tuple then (Inr True, s)
         else if infomask_bit tuple HEAP_XMAX_IS_MULTI
         then let xmax = MultiXactIdGetUpdateXid me (t_xmax tuple)
              in (Inr (\<not> TransactionIdIsCurrentTransactionId me xmax), s)
         else if \<not> TransactionIdIsCurrentTransactionId me (t_xmax tuple)
         then (Inr True, SetHintBits me W HEAP_XMAX_INVALID InvalidTransactionId s)
         else (Inr False, s))"

text \<open>
  The beginning of \<^verbatim>\<open>HeapTupleSatisfiesSelf\<close>, \<^verbatim>\<open>HeapTupleSatisfiesNow\<close>, \<^verbatim>\<open>HeapTupleSatisfiesUpdate\<close> and \<^verbatim>\<open>HeapTupleSatisfiesDirty\<close>, which look at
  the inserting transaction in the same way: \<open>own\<close> is what they do for a tuple of the own transaction, \<open>running\<close> for one of a transaction in progress,
  \<open>dead\<close> the result when the inserter has aborted, \<open>cont\<close> what they do when it has committed.
\<close>

definition check_xmin :: "session \<Rightarrow> world \<Rightarrow> (vis_state \<Rightarrow> 'a result \<times> vis_state) \<Rightarrow> (vis_state \<Rightarrow> 'a result \<times> vis_state) \<Rightarrow> 'a \<Rightarrow>
    (vis_state \<Rightarrow> 'a result \<times> vis_state) \<Rightarrow> vis_state \<Rightarrow> 'a result \<times> vis_state" where
  "check_xmin me W own running dead cont s =
     (let tuple = tup s; xmin = t_xmin tuple
      in if \<not> HeapTupleHeaderXminCommitted tuple
         then if HeapTupleHeaderXminInvalid tuple then (Inr dead, s)
              else if TransactionIdIsCurrentTransactionId me xmin then own s
              else case look_progress W xmin s of (progress, s) \<Rightarrow>
                if progress then running s
                else case look_commit me W xmin s of (commit, s) \<Rightarrow>
                  if commit then cont (SetHintBits me W HEAP_XMIN_COMMITTED xmin s)
                  else if \<not> LatestFetchTransactionIdDidAbort me xmin s then (LatestTransactionStatusError, s)
                  else (Inr dead, SetHintBits me W HEAP_XMIN_INVALID InvalidTransactionId s)
         else cont s)"

text \<open>
  Their common end, once the deleting transaction is not a multixact and not the own one: \<open>running\<close> is what they do when it is in progress, \<open>live\<close> the
  result when it has aborted or only locked the tuple, \<open>gone\<close> when it has committed.
\<close>

definition check_xmax :: "session \<Rightarrow> world \<Rightarrow> (vis_state \<Rightarrow> 'a result \<times> vis_state) \<Rightarrow> 'a \<Rightarrow> 'a \<Rightarrow> vis_state \<Rightarrow> 'a result \<times> vis_state" where
  "check_xmax me W running live gone s =
     (let tuple = tup s; xmax = t_xmax tuple
      in case look_progress W xmax s of (progress, s) \<Rightarrow>
           if progress then running s
           else case look_commit me W xmax s of (commit, s) \<Rightarrow>
             if \<not> commit
             then if \<not> LatestFetchTransactionIdDidAbort me xmax s then (LatestTransactionStatusError, s)
                  else (Inr live, SetHintBits me W HEAP_XMAX_INVALID InvalidTransactionId s)
             else if HEAP_XMAX_IS_LOCKED_ONLY tuple then (Inr live, SetHintBits me W HEAP_XMAX_INVALID InvalidTransactionId s)
             else (Inr gone, SetHintBits me W HEAP_XMAX_COMMITTED xmax s))"

section \<open>The routines without a snapshot\<close>

definition self_xmax :: "session \<Rightarrow> world \<Rightarrow> vis_state \<Rightarrow> bool result \<times> vis_state" where
  "self_xmax me W s =
     (let tuple = tup s
      in if infomask_bit tuple HEAP_XMAX_INVALID then (Inr True, s)
         else if infomask_bit tuple HEAP_XMAX_COMMITTED then (Inr (HEAP_XMAX_IS_LOCKED_ONLY tuple), s)
         else if infomask_bit tuple HEAP_XMAX_IS_MULTI
         then if HEAP_XMAX_IS_LOCKED_ONLY tuple then (Inr True, s)
              else let xmax = MultiXactIdGetUpdateXid me (t_xmax tuple)
                   in if TransactionIdIsCurrentTransactionId me xmax then (Inr False, s)
                      else case look_progress W xmax s of (progress, s) \<Rightarrow>
                        if progress then (Inr True, s)
                        else case look_commit me W xmax s of (commit, s) \<Rightarrow> (Inr (\<not> commit), s)
         else if TransactionIdIsCurrentTransactionId me (t_xmax tuple) then (Inr (HEAP_XMAX_IS_LOCKED_ONLY tuple), s)
         else check_xmax me W (\<lambda>s. (Inr True, s)) True False s)"

definition HeapTupleSatisfiesSelf :: "session \<Rightarrow> world \<Rightarrow> vis_state \<Rightarrow> bool result \<times> vis_state" where
  "HeapTupleSatisfiesSelf me W = check_xmin me W (DealCurrentTansactionNotCommited me W) (\<lambda>s. (Inr False, s)) False (self_xmax me W)"

text \<open>In the build for a single node \<^verbatim>\<open>NeedSyncXact\<close> is false: \<^verbatim>\<open>HeapTupleSatisfiesNow\<close> never waits and never starts again.\<close>

definition note_write :: "bool \<Rightarrow> vis_state \<Rightarrow> vis_state" where
  "note_write b s = (if b \<and> has_cur_xact_write s \<noteq> None then s\<lparr>has_cur_xact_write := Some True\<rparr> else s)"

definition now_own :: "session \<Rightarrow> world \<Rightarrow> vis_state \<Rightarrow> bool result \<times> vis_state" where
  "now_own me W s =
     (let tuple = tup s; s = note_write (t_cmin tuple < GetCurrentCommandId me) s
      in if t_cmin tuple \<ge> GetCurrentCommandId me then (Inr False, s)
         else if infomask_bit tuple HEAP_XMAX_INVALID then (Inr True, s)
         else if HEAP_XMAX_IS_LOCKED_ONLY tuple then (Inr True, s)
         else if infomask_bit tuple HEAP_XMAX_IS_MULTI
         then let xmax = MultiXactIdGetUpdateXid me (t_xmax tuple)
              in if \<not> TransactionIdIsValid xmax then (Inr True, s)
                 else (Inr (\<not> TransactionIdIsCurrentTransactionId me xmax), s)
         else if \<not> TransactionIdIsCurrentTransactionId me (t_xmax tuple)
         then (Inr True, SetHintBits me W HEAP_XMAX_INVALID InvalidTransactionId s)
         else (Inr (t_cmax tuple \<ge> GetCurrentCommandId me), s))"

definition now_xmax :: "session \<Rightarrow> world \<Rightarrow> vis_state \<Rightarrow> bool result \<times> vis_state" where
  "now_xmax me W s =
     (let tuple = tup s
      in if infomask_bit tuple HEAP_XMAX_INVALID then (Inr True, s)
         else if infomask_bit tuple HEAP_XMAX_COMMITTED then (Inr (HEAP_XMAX_IS_LOCKED_ONLY tuple), s)
         else if infomask_bit tuple HEAP_XMAX_IS_MULTI
         then if HEAP_XMAX_IS_LOCKED_ONLY tuple then (Inr True, s)
              else let xmax = MultiXactIdGetUpdateXid me (t_xmax tuple)
                   in if \<not> TransactionIdIsValid xmax then (Inr True, s)
                      else if TransactionIdIsCurrentTransactionId me xmax then (Inr (t_cmax tuple \<ge> GetCurrentCommandId me), s)
                      else case look_progress W xmax s of (progress, s) \<Rightarrow>
                        if progress then (Inr True, s)
                        else case look_commit me W xmax s of (commit, s) \<Rightarrow> (Inr (\<not> commit), s)
         else if TransactionIdIsCurrentTransactionId me (t_xmax tuple)
         then let s = note_write (t_cmax tuple < GetCurrentCommandId me) s
              in if HEAP_XMAX_IS_LOCKED_ONLY tuple then (Inr True, s)
                 else (Inr (t_cmax tuple \<ge> GetCurrentCommandId me), s)
         else check_xmax me W (\<lambda>s. (Inr True, s)) True False s)"

definition HeapTupleSatisfiesNow :: "session \<Rightarrow> world \<Rightarrow> vis_state \<Rightarrow> bool result \<times> vis_state" where
  "HeapTupleSatisfiesNow me W = check_xmin me W (now_own me W) (\<lambda>s. (Inr False, s)) False (now_xmax me W)"

definition HeapTupleSatisfiesAny :: "vis_state \<Rightarrow> bool result \<times> vis_state" where
  "HeapTupleSatisfiesAny s = (Inr True, s)"

definition HeapTupleSatisfiesToast :: "vis_state \<Rightarrow> bool result \<times> vis_state" where
  "HeapTupleSatisfiesToast s =
     (let tuple = tup s
      in if \<not> HeapTupleHeaderXminCommitted tuple
         then if HeapTupleHeaderXminInvalid tuple then (Inr False, s)
              else if \<not> TransactionIdIsValid (t_xmin tuple) then (Inr False, s)
              else (Inr True, s)
         else (Inr True, s))"

definition dirty_xmax_check :: "session \<Rightarrow> world \<Rightarrow> vis_state \<Rightarrow> bool result \<times> vis_state" where
  "dirty_xmax_check me W s =
     (let tuple = tup s
      in if infomask_bit tuple HEAP_XMAX_INVALID then (Inr True, s)
         else if infomask_bit tuple HEAP_XMAX_COMMITTED then (Inr (HEAP_XMAX_IS_LOCKED_ONLY tuple), s)
         else if infomask_bit tuple HEAP_XMAX_IS_MULTI
         then if HEAP_XMAX_IS_LOCKED_ONLY tuple then (Inr True, s)
              else let xmax = MultiXactIdGetUpdateXid me (t_xmax tuple)
                   in if TransactionIdIsCurrentTransactionId me xmax then (Inr False, s)
                      else case look_progress W xmax s of (progress, s) \<Rightarrow>
                        if progress then (Inr True, s\<lparr>dirty_xmax := xmax\<rparr>)
                        else case look_commit me W xmax s of (commit, s) \<Rightarrow> (Inr (\<not> commit), s)
         else if TransactionIdIsCurrentTransactionId me (t_xmax tuple) then (Inr (HEAP_XMAX_IS_LOCKED_ONLY tuple), s)
         else check_xmax me W (\<lambda>s. (Inr True, s\<lparr>dirty_xmax := t_xmax tuple\<rparr>)) True False s)"

definition HeapTupleSatisfiesDirty :: "session \<Rightarrow> world \<Rightarrow> vis_state \<Rightarrow> bool result \<times> vis_state" where
  "HeapTupleSatisfiesDirty me W s =
     check_xmin me W (DealCurrentTansactionNotCommited me W) (\<lambda>s. (Inr True, s\<lparr>dirty_xmin := t_xmin (tup s)\<rparr>)) False (dirty_xmax_check me W)
       (s\<lparr>dirty_xmin := InvalidTransactionId, dirty_xmax := InvalidTransactionId\<rparr>)"

section \<open>May the tuple be updated?\<close>

datatype TM_Result = TM_Ok | TM_Invisible | TM_SelfModified | TM_Updated | TM_Deleted | TM_BeingModified | TM_SelfCreated | TM_SelfUpdated | TM_WouldBlock

definition updated_or_deleted :: "HeapTupleData \<Rightarrow> TM_Result" where
  "updated_or_deleted tuple = (if t_self tuple \<noteq> t_ctid tuple then TM_Updated else TM_Deleted)"

definition self_modified :: "HeapTupleData \<Rightarrow> CommandId \<Rightarrow> TM_Result" where
  "self_modified tuple curcid = (if t_cmax tuple \<ge> curcid then TM_SelfModified else TM_Invisible)"

definition update_own :: "session \<Rightarrow> world \<Rightarrow> CommandId \<Rightarrow> bool \<Rightarrow> vis_state \<Rightarrow> TM_Result result \<times> vis_state" where
  "update_own me W curcid self_visible s =
     (let tuple = tup s
      in if t_cmin tuple > curcid then (Inr TM_Invisible, s)
         else if t_cmin tuple = curcid \<and> \<not> self_visible then (Inr TM_SelfCreated, s)
         else if infomask_bit tuple HEAP_XMAX_INVALID then (Inr TM_Ok, s)
         else if HEAP_XMAX_IS_LOCKED_ONLY tuple
         then if infomask_bit tuple HEAP_XMAX_IS_MULTI
              then case look_multi W (t_xmax tuple) s of (running, s) \<Rightarrow> (Inr (if running then TM_BeingModified else TM_Ok), s)
              else case look_progress W (t_xmax tuple) s of (progress, s) \<Rightarrow> (Inr (if \<not> progress then TM_Ok else TM_BeingModified), s)
         else if infomask_bit tuple HEAP_XMAX_IS_MULTI
         then if \<not> TransactionIdIsCurrentTransactionId me (MultiXactIdGetUpdateXid me (t_xmax tuple))
              then case look_multi W (t_xmax tuple) s of (running, s) \<Rightarrow> (Inr (if running then TM_BeingModified else TM_Ok), s)
              else (Inr (self_modified tuple curcid), s)
         else if \<not> TransactionIdIsCurrentTransactionId me (t_xmax tuple)
         then (Inr TM_Ok, SetHintBits me W HEAP_XMAX_INVALID InvalidTransactionId s)
         else (Inr (self_modified tuple curcid), s))"

definition update_multi :: "session \<Rightarrow> world \<Rightarrow> CommandId \<Rightarrow> vis_state \<Rightarrow> TM_Result result \<times> vis_state" where
  "update_multi me W curcid s =
     (let tuple = tup s
      in if HEAP_XMAX_IS_LOCKED_ONLY tuple
         then if infomask_bit tuple HEAP_LOCK_MASK
              then case look_multi W (t_xmax tuple) s of (running, s) \<Rightarrow>
                     if running then (Inr TM_BeingModified, s)
                     else (Inr TM_Ok, SetHintBits me W HEAP_XMAX_INVALID InvalidTransactionId s)
              else (Inr TM_Ok, SetHintBits me W HEAP_XMAX_INVALID InvalidTransactionId s)
         else let xmax = MultiXactIdGetUpdateXid me (t_xmax tuple)
              in if TransactionIdIsCurrentTransactionId me xmax then (Inr (self_modified tuple curcid), s)
                 else case look_progress W xmax s of (progress, s) \<Rightarrow>
                   if progress then (Inr TM_BeingModified, s)
                   else case look_commit me W xmax s of (commit, s) \<Rightarrow>
                     if commit then (Inr (updated_or_deleted tuple), s)
                     else case look_multi W (t_xmax tuple) s of (running, s) \<Rightarrow>
                       if \<not> running then (Inr TM_Ok, SetHintBits me W HEAP_XMAX_INVALID InvalidTransactionId s)
                       else (Inr TM_BeingModified, s))"

definition update_xmax :: "session \<Rightarrow> world \<Rightarrow> CommandId \<Rightarrow> vis_state \<Rightarrow> TM_Result result \<times> vis_state" where
  "update_xmax me W curcid s =
     (let tuple = tup s
      in if infomask_bit tuple HEAP_XMAX_INVALID then (Inr TM_Ok, s)
         else if infomask_bit tuple HEAP_XMAX_COMMITTED
         then (Inr (if HEAP_XMAX_IS_LOCKED_ONLY tuple then TM_Ok else updated_or_deleted tuple), s)
         else if infomask_bit tuple HEAP_XMAX_IS_MULTI then update_multi me W curcid s
         else if TransactionIdIsCurrentTransactionId me (t_xmax tuple)
         then (Inr (if HEAP_XMAX_IS_LOCKED_ONLY tuple then TM_BeingModified else self_modified tuple curcid), s)
         else check_xmax me W (\<lambda>s. (Inr TM_BeingModified, s)) TM_Ok (updated_or_deleted tuple) s)"

text \<open>\<open>restarts\<close> bounds how often the routine starts again after a wait; \<open>None\<close> stands for more.\<close>

fun HeapTupleSatisfiesUpdate :: "nat \<Rightarrow> session \<Rightarrow> world \<Rightarrow> CommandId \<Rightarrow> bool \<Rightarrow> vis_state \<Rightarrow> (TM_Result result \<times> vis_state) option" where
  "HeapTupleSatisfiesUpdate restarts me W curcid self_visible s =
     (let tuple = tup s; xmin = t_xmin tuple; waits = needToSyncXid (at W (now s)) xmin
      in if \<not> HeapTupleHeaderXminCommitted tuple \<and> \<not> HeapTupleHeaderXminInvalid tuple \<and> \<not> TransactionIdIsCurrentTransactionId me xmin \<and>
            TransactionIdIsInProgress (at W (now s)) xmin \<and> waits
         then case restarts of
                0 \<Rightarrow> None
              | Suc n \<Rightarrow> HeapTupleSatisfiesUpdate n me W curcid self_visible (SyncWaitXidEnd W xmin True (tick s))
         else Some (check_xmin me W (update_own me W curcid self_visible) (\<lambda>s. (Inr TM_Invisible, s)) TM_Invisible (update_xmax me W curcid) s))"

declare HeapTupleSatisfiesUpdate.simps [simp del]

section \<open>Snapshots\<close>

datatype SnapshotSatisfiesMethod =
  SNAPSHOT_MVCC | SNAPSHOT_VERSION_MVCC | SNAPSHOT_DELTA | SNAPSHOT_LOST | SNAPSHOT_NOW | SNAPSHOT_SELF | SNAPSHOT_ANY | SNAPSHOT_TOAST | SNAPSHOT_DIRTY |
  SNAPSHOT_HISTORIC_MVCC | SNAPSHOT_DECODE_MVCC

record SnapshotData =
  satisfies :: SnapshotSatisfiesMethod
  snap_xmin :: TransactionId
  snapshotcsn :: CommitSeqNo
  curcid :: CommandId
  takenDuringRecovery :: bool

definition IsVersionMVCCSnapshot :: "SnapshotData \<Rightarrow> bool" where
  "IsVersionMVCCSnapshot snapshot \<longleftrightarrow> satisfies snapshot = SNAPSHOT_VERSION_MVCC \<or> satisfies snapshot = SNAPSHOT_DELTA \<or> satisfies snapshot = SNAPSHOT_LOST"

definition IsMVCCSnapshot :: "SnapshotData \<Rightarrow> bool" where
  "IsMVCCSnapshot snapshot \<longleftrightarrow> satisfies snapshot = SNAPSHOT_MVCC \<or> satisfies snapshot = SNAPSHOT_HISTORIC_MVCC \<or>
     satisfies snapshot = SNAPSHOT_DECODE_MVCC \<or> IsVersionMVCCSnapshot snapshot"

datatype TransactionIdStatus = XID_COMMITTED | XID_ABORTED | XID_INPROGRESS

definition GetCSNByCLog :: "xacts \<Rightarrow> TransactionId \<Rightarrow> bool \<Rightarrow> CommitSeqNo" where
  "GetCSNByCLog x xid isCommit =
     (if isCommit then COMMITSEQNO_FROZEN
      else if clog x xid = CLOG_XID_STATUS_COMMITTED then COMMITSEQNO_FROZEN
      else COMMITSEQNO_ABORTED)"

text \<open>As for \<^verbatim>\<open>TransactionIdDidCommit\<close>, a parent precedes its child.\<close>

function RecursiveGetCommitSeqNo :: "xacts \<Rightarrow> TransactionId \<Rightarrow> CommitSeqNo" where
  "RecursiveGetCommitSeqNo x xid =
     (let csn = CSNLogGetCommitSeqNo x xid
      in if COMMITSEQNO_IS_SUBTRANS csn \<and> COMMITSEQNO_IS_COMMITTING csn \<and> TransactionIdPrecedes (GET_PARENTXID csn) xid
         then RecursiveGetCommitSeqNo x (GET_PARENTXID csn)
         else csn)"
  by pat_completeness auto
termination
  by (relation "measure (\<lambda>(x, xid). unat xid)") (auto simp: TransactionIdPrecedes_def word_less_nat_alt)

declare RecursiveGetCommitSeqNo.simps [simp del]

text \<open>
  \<^verbatim>\<open>TransactionIdGetCommitSeqNo\<close> with \<^verbatim>\<open>isMvcc\<close> set, as all calls here have it, and a snapshot other than that of decoding. The cache of one entry
  in front of the logs is left out: it holds only values that no longer change.
\<close>

definition TransactionIdGetCommitSeqNo :: "session \<Rightarrow> xacts \<Rightarrow> TransactionId \<Rightarrow> bool \<Rightarrow> bool \<Rightarrow> SnapshotData option \<Rightarrow> vis_state \<Rightarrow> CommitSeqNo \<times> vis_state" where
  "TransactionIdGetCommitSeqNo me x xid isCommit isNest snapshot s =
     (if \<not> TransactionIdIsNormal xid
      then (if xid = BootstrapTransactionId \<or> xid = FrozenTransactionId then COMMITSEQNO_FROZEN else COMMITSEQNO_ABORTED,
            s\<lparr>latestFetchCSNXid := InvalidTransactionId\<rparr>)
      else let horizon = (case snapshot of Some sn \<Rightarrow> if IsMVCCSnapshot sn then snap_xmin sn else RecentXmin me | None \<Rightarrow> RecentXmin me);
               result = (if (case snapshot of None \<Rightarrow> True | Some sn \<Rightarrow> \<not> IsVersionMVCCSnapshot sn) \<and> TransactionIdPrecedes xid horizon
                         then GetCSNByCLog x xid isCommit
                         else if isNest then RecursiveGetCommitSeqNo x xid
                         else CSNLogGetCommitSeqNo x xid)
           in (result, s\<lparr>latestFetchCSNXid := xid, latestFetchCSN := result\<rparr>))"

definition TransactionIdGetStatus :: "session \<Rightarrow> world \<Rightarrow> TransactionId \<Rightarrow> vis_state \<Rightarrow> TransactionIdStatus \<times> vis_state" where
  "TransactionIdGetStatus me W xid s =
     (case TransactionIdGetCommitSeqNo me (at W (now s)) xid False True None s of (csn, s) \<Rightarrow>
        (if COMMITSEQNO_IS_COMMITTED csn then XID_COMMITTED else if COMMITSEQNO_IS_ABORTED csn then XID_ABORTED else XID_INPROGRESS, tick s))"

text \<open>What is written into the log of sequence numbers.\<close>

definition csn_write :: "TransactionId \<Rightarrow> CommitSeqNo \<Rightarrow> vis_state \<Rightarrow> vis_state" where
  "csn_write xid csn s = s\<lparr>csn_writes := (xid, csn) # csn_writes s, latestFetchCSNXid := xid, latestFetchCSN := csn\<rparr>"

text \<open>
  The two rounds of \<^verbatim>\<open>XidVisibleInSnapshot\<close>: whether the transaction is visible, its status for the hint bit, and whether there has been a wait.
\<close>

definition xid_visible_again :: "session \<Rightarrow> world \<Rightarrow> TransactionId \<Rightarrow> SnapshotData \<Rightarrow> vis_state \<Rightarrow> (bool \<times> TransactionIdStatus \<times> bool) result \<times> vis_state" where
  "xid_visible_again me W xid snapshot s =
     (case TransactionIdGetCommitSeqNo me (at W (now s)) xid False False (Some snapshot) s of (csn, s) \<Rightarrow>
        let s = tick s
        in if COMMITSEQNO_IS_COMMITTED csn then (Inr (csn < snapshotcsn snapshot, XID_COMMITTED, True), s)
           else if COMMITSEQNO_IS_COMMITTING csn
           then if takenDuringRecovery snapshot then (Inr (False, XID_INPROGRESS, True), s)
                else case look_progress W xid s of (progress, s) \<Rightarrow>
                  if progress then (Inl (Ereport ERROR ERRCODE_WRONG_OBJECT_TYPE), s)
                  else (Inr (False, XID_ABORTED, True), csn_write xid COMMITSEQNO_ABORTED s)
           else (Inr (False, if csn = COMMITSEQNO_ABORTED then XID_ABORTED else XID_INPROGRESS, True), s))"

definition XidVisibleInSnapshot :: "session \<Rightarrow> world \<Rightarrow> TransactionId \<Rightarrow> SnapshotData \<Rightarrow> bool \<Rightarrow> vis_state \<Rightarrow>
    (bool \<times> TransactionIdStatus \<times> bool) result \<times> vis_state" where
  "XidVisibleInSnapshot me W xid snapshot buffer s =
     (case TransactionIdGetCommitSeqNo me (at W (now s)) xid False False (Some snapshot) s of (csn, s) \<Rightarrow>
        let s = tick s
        in if COMMITSEQNO_IS_COMMITTED csn then (Inr (csn < snapshotcsn snapshot, XID_COMMITTED, False), s)
           else if COMMITSEQNO_IS_COMMITTING csn
           then if \<not> COMMITSEQNO_IS_SUBTRANS csn \<and> GET_COMMITSEQNO csn \<ge> snapshotcsn snapshot then (Inr (False, XID_INPROGRESS, False), s)
                else if xc_maintenance_mode me \<or> bInAbortTransaction me then (Inr (False, XID_INPROGRESS, False), s)
                else let parentXid = (if COMMITSEQNO_IS_SUBTRANS csn then GET_PARENTXID csn else InvalidTransactionId)
                     in xid_visible_again me W xid snapshot
                          (SyncWaitXidEnd W (if TransactionIdIsValid parentXid then parentXid else xid) buffer s)
           else (Inr (False, if csn = COMMITSEQNO_ABORTED then XID_ABORTED else XID_INPROGRESS, False), s))"

definition committed_visible_again :: "session \<Rightarrow> world \<Rightarrow> TransactionId \<Rightarrow> SnapshotData \<Rightarrow> vis_state \<Rightarrow> bool \<times> vis_state" where
  "committed_visible_again me W xid snapshot s =
     (case TransactionIdGetCommitSeqNo me (at W (now s)) xid True False (Some snapshot) s of (csn, s) \<Rightarrow>
        let s = tick s
        in if COMMITSEQNO_IS_COMMITTING csn then (True, csn_write xid COMMITSEQNO_FROZEN s)
           else if \<not> COMMITSEQNO_IS_COMMITTED csn then (True, s)
           else (csn < snapshotcsn snapshot, s))"

definition CommittedXidVisibleInSnapshot :: "session \<Rightarrow> world \<Rightarrow> TransactionId \<Rightarrow> SnapshotData \<Rightarrow> vis_state \<Rightarrow> bool \<times> vis_state" where
  "CommittedXidVisibleInSnapshot me W xid snapshot s =
     (if TransactionIdPrecedes xid (snap_xmin snapshot) then (True, s)
      else case TransactionIdGetCommitSeqNo me (at W (now s)) xid True False (Some snapshot) s of (csn, s) \<Rightarrow>
        let s = tick s
        in if COMMITSEQNO_IS_COMMITTING csn
           then if \<not> COMMITSEQNO_IS_SUBTRANS csn \<and> GET_COMMITSEQNO csn \<ge> snapshotcsn snapshot then (False, s)
                else if xc_maintenance_mode me \<or> bInAbortTransaction me then (False, s)
                else let parentXid = (if COMMITSEQNO_IS_SUBTRANS csn then GET_PARENTXID csn else InvalidTransactionId)
                     in committed_visible_again me W xid snapshot
                          (SyncWaitXidEnd W (if TransactionIdIsValid parentXid then parentXid else xid) True s)
           else if \<not> COMMITSEQNO_IS_COMMITTED csn then (True, s)
           else (csn < snapshotcsn snapshot, s))"

section \<open>Visibility in a snapshot\<close>

text \<open>Whether a command id that the session does not know makes the tuple visible; a thread other than a stream thread gives up.\<close>

definition CheckStreamCombocid :: "session \<Rightarrow> HeapTupleData \<Rightarrow> bool result" where
  "CheckStreamCombocid me tuple =
     (if t_cid tuple \<ge> usedComboCids me
      then if StreamThreadAmI me then Inr True else Inl (Ereport PANIC ERRCODE_WRONG_OBJECT_TYPE)
      else Inr False)"

definition mvcc_own :: "session \<Rightarrow> world \<Rightarrow> SnapshotData \<Rightarrow> vis_state \<Rightarrow> bool result \<times> vis_state" where
  "mvcc_own me W snapshot s =
     (let tuple = tup s;
          s = note_write (t_cmin tuple < curcid snapshot) s
      in case (if infomask_bit tuple HEAP_COMBOCID then CheckStreamCombocid me tuple else Inr False) of
           Inl e \<Rightarrow> (Inl e, s)
         | Inr True \<Rightarrow> (Inr True, s)
         | Inr False \<Rightarrow>
             if t_cmin tuple \<ge> curcid snapshot then (Inr False, s)
             else if infomask_bit tuple HEAP_XMAX_INVALID then (Inr True, s)
             else if HEAP_XMAX_IS_LOCKED_ONLY tuple then (Inr True, s)
             else if infomask_bit tuple HEAP_XMAX_IS_MULTI
             then if \<not> TransactionIdIsCurrentTransactionId me (MultiXactIdGetUpdateXid me (t_xmax tuple)) then (Inr True, s)
                  else (Inr (t_cmax tuple \<ge> curcid snapshot), s)
             else if \<not> TransactionIdIsCurrentTransactionId me (t_xmax tuple)
             then (Inr True, SetHintBits me W HEAP_XMAX_INVALID InvalidTransactionId s)
             else let s = note_write (t_cmax tuple < curcid snapshot) s in (Inr (t_cmax tuple \<ge> curcid snapshot), s))"

text \<open>The hint bit for the status that the log has shown: \<open>good\<close> if committed, \<open>bad\<close> if aborted.\<close>

definition hint_status :: "session \<Rightarrow> world \<Rightarrow> uint16 \<Rightarrow> uint16 \<Rightarrow> TransactionId \<Rightarrow> TransactionIdStatus \<Rightarrow> vis_state \<Rightarrow> unit result \<times> vis_state" where
  "hint_status me W good bad xid hintstatus s =
     (if hintstatus = XID_COMMITTED then (Inr (), SetHintBits me W good xid s)
      else if hintstatus = XID_ABORTED
      then if \<not> LatestFetchCSNDidAbort me xid s then (LatestTransactionStatusError, s)
           else (Inr (), SetHintBits me W bad InvalidTransactionId s)
      else (Inr (), s))"

definition mvcc_multi :: "session \<Rightarrow> world \<Rightarrow> SnapshotData \<Rightarrow> vis_state \<Rightarrow> bool result \<times> vis_state" where
  "mvcc_multi me W snapshot s =
     (let tuple = tup s; xmax = MultiXactIdGetUpdateXid me (t_xmax tuple)
      in if TransactionIdIsCurrentTransactionId me xmax then (Inr (t_cmax tuple \<ge> curcid snapshot), s)
         else case XidVisibleInSnapshot me W xmax snapshot False s of
                (Inl e, s) \<Rightarrow> (Inl e, s)
              | (Inr (visible, _, _), s) \<Rightarrow>
                  if \<not> visible then (Inr True, s)
                  else case look_commit me W xmax s of (commit, s) \<Rightarrow>
                    if commit
                    then case CommittedXidVisibleInSnapshot me W xmax snapshot s of (seen, s) \<Rightarrow> (Inr (\<not> seen), s)
                    else (Inr True, s))"

text \<open>The part from the label \<^verbatim>\<open>recheck_xmax\<close> on; \<open>rechecks\<close> bounds the number of times it is entered again, \<open>None\<close> stands for more.\<close>

fun mvcc_xmax :: "nat \<Rightarrow> session \<Rightarrow> world \<Rightarrow> SnapshotData \<Rightarrow> vis_state \<Rightarrow> (bool result \<times> vis_state) option" where
  "mvcc_xmax rechecks me W snapshot s =
     (let tuple = tup s; xmax = t_xmax tuple
      in if infomask_bit tuple HEAP_XMAX_INVALID then Some (Inr True, s)
         else if HEAP_XMAX_IS_LOCKED_ONLY tuple then Some (Inr True, s)
         else if infomask_bit tuple HEAP_XMAX_IS_MULTI then Some (mvcc_multi me W snapshot s)
         else if \<not> infomask_bit tuple HEAP_XMAX_COMMITTED
         then if \<not> IsVersionMVCCSnapshot snapshot \<and> TransactionIdIsCurrentTransactionId me xmax
              then Some (Inr (t_cmax tuple \<ge> curcid snapshot), note_write (t_cmax tuple < curcid snapshot) s)
              else case XidVisibleInSnapshot me W xmax snapshot True s of
                     (Inl e, s) \<Rightarrow> Some (Inl e, s)
                   | (Inr (visible, hintstatus, sync), s) \<Rightarrow>
                       if sync \<and> xmax \<noteq> t_xmax (tup s)
                       then (case rechecks of 0 \<Rightarrow> None | Suc n \<Rightarrow> mvcc_xmax n me W snapshot s)
                       else case hint_status me W HEAP_XMAX_COMMITTED HEAP_XMAX_INVALID (t_xmax (tup s)) hintstatus s of
                              (Inl e, s) \<Rightarrow> Some (Inl e, s)
                            | (Inr _, s) \<Rightarrow> Some (Inr (\<not> visible), s)
         else case CommittedXidVisibleInSnapshot me W xmax snapshot s of (seen, s) \<Rightarrow> Some (Inr (\<not> seen), s))"

declare mvcc_xmax.simps [simp del]

definition HeapTupleSatisfiesMVCC :: "nat \<Rightarrow> session \<Rightarrow> world \<Rightarrow> SnapshotData \<Rightarrow> vis_state \<Rightarrow> (bool result \<times> vis_state) option" where
  "HeapTupleSatisfiesMVCC rechecks me W snapshot s =
     (let tuple = tup s; xmin = t_xmin tuple
      in if XactReadOnly me \<and> enable_show_any_tuples me then Some (Inr True, s)
         else if \<not> HeapTupleHeaderXminCommitted tuple
         then if HeapTupleHeaderXminInvalid tuple then Some (Inr False, s)
              else if \<not> IsVersionMVCCSnapshot snapshot \<and> TransactionIdIsCurrentTransactionId me xmin then Some (mvcc_own me W snapshot s)
              else case XidVisibleInSnapshot me W xmin snapshot True s of
                     (Inl e, s) \<Rightarrow> Some (Inl e, s)
                   | (Inr (visible, hintstatus, _), s) \<Rightarrow>
                       (case hint_status me W HEAP_XMIN_COMMITTED HEAP_XMIN_INVALID (t_xmin (tup s)) hintstatus s of
                          (Inl e, s) \<Rightarrow> Some (Inl e, s)
                        | (Inr _, s) \<Rightarrow> if \<not> visible then Some (Inr False, s) else mvcc_xmax rechecks me W snapshot s)
         else if HeapTupleHeaderXminFrozen tuple then mvcc_xmax rechecks me W snapshot s
         else case CommittedXidVisibleInSnapshot me W xmin snapshot s of (seen, s) \<Rightarrow>
                if \<not> seen then Some (Inr False, s) else mvcc_xmax rechecks me W snapshot s)"

definition HeapTupleSatisfiesVersionMVCC :: "nat \<Rightarrow> session \<Rightarrow> world \<Rightarrow> SnapshotData \<Rightarrow> vis_state \<Rightarrow> (bool result \<times> vis_state) option" where
  "HeapTupleSatisfiesVersionMVCC rechecks me W snapshot s = HeapTupleSatisfiesMVCC rechecks me W snapshot (s\<lparr>has_cur_xact_write := None\<rparr>)"

definition HeapTupleSatisfiesLost :: "nat \<Rightarrow> session \<Rightarrow> world \<Rightarrow> SnapshotData \<Rightarrow> vis_state \<Rightarrow> (bool result \<times> vis_state) option" where
  "HeapTupleSatisfiesLost rechecks me W snapshot s =
     (case HeapTupleSatisfiesVersionMVCC rechecks me W snapshot s of
        None \<Rightarrow> None
      | Some (Inl e, s) \<Rightarrow> Some (Inl e, s)
      | Some (Inr b, s) \<Rightarrow> if \<not> b then Some (Inr False, s)
          else case HeapTupleSatisfiesNow me W s of (Inl e, s) \<Rightarrow> Some (Inl e, s) | (Inr b, s) \<Rightarrow> Some (Inr (\<not> b), s))"

definition HeapTupleSatisfiesDelta :: "nat \<Rightarrow> session \<Rightarrow> world \<Rightarrow> SnapshotData \<Rightarrow> vis_state \<Rightarrow> (bool result \<times> vis_state) option" where
  "HeapTupleSatisfiesDelta rechecks me W snapshot s =
     (case HeapTupleSatisfiesVersionMVCC rechecks me W snapshot s of
        None \<Rightarrow> None
      | Some (Inl e, s) \<Rightarrow> Some (Inl e, s)
      | Some (Inr b, s) \<Rightarrow> if b then Some (Inr False, s) else Some (HeapTupleSatisfiesNow me W s))"

section \<open>Vacuum\<close>

datatype HTSV_Result = HEAPTUPLE_DEAD | HEAPTUPLE_LIVE | HEAPTUPLE_RECENTLY_DEAD | HEAPTUPLE_INSERT_IN_PROGRESS | HEAPTUPLE_DELETE_IN_PROGRESS

text \<open>
  What \<^verbatim>\<open>HeapTupleSatisfiesVacuum\<close> asks of the logs about a transaction: the status first; if that is in progress, the running transactions; if it is not
  among them, the commit log.
\<close>

definition vacuum_status :: "session \<Rightarrow> world \<Rightarrow> TransactionId \<Rightarrow> TransactionIdStatus \<Rightarrow> vis_state \<Rightarrow> TransactionIdStatus \<times> vis_state" where
  "vacuum_status me W xid xidstatus s =
     (if xidstatus = XID_INPROGRESS
      then case look_progress W xid s of (progress, s) \<Rightarrow>
             if progress then (XID_INPROGRESS, s)
             else case look_commit me W xid s of (commit, s) \<Rightarrow> (if commit then XID_COMMITTED else XID_ABORTED, s)
      else (xidstatus, s))"

definition vacuum_own :: "session \<Rightarrow> HeapTupleData \<Rightarrow> HTSV_Result" where
  "vacuum_own me tuple =
     (if infomask_bit tuple HEAP_XMAX_INVALID then HEAPTUPLE_INSERT_IN_PROGRESS
      else if HEAP_XMAX_IS_LOCKED_ONLY tuple then HEAPTUPLE_INSERT_IN_PROGRESS
      else if TransactionIdIsCurrentTransactionId me (t_xmax tuple) then HEAPTUPLE_DELETE_IN_PROGRESS
      else HEAPTUPLE_INSERT_IN_PROGRESS)"

text \<open>With a local snapshot nothing is dead, except when the database is initialised.\<close>

definition unless_local :: "session \<Rightarrow> HTSV_Result \<Rightarrow> HTSV_Result" where
  "unless_local me r = (if \<not> useLocalSnapshot me \<or> IsInitdb me then r else HEAPTUPLE_LIVE)"

definition vacuum_locked :: "session \<Rightarrow> world \<Rightarrow> vis_state \<Rightarrow> HTSV_Result result \<times> vis_state" where
  "vacuum_locked me W s =
     (let tuple = tup s
      in if \<not> infomask_bit tuple HEAP_XMAX_COMMITTED
         then if infomask_bit tuple HEAP_XMAX_IS_MULTI
              then case look_multi W (t_xmax tuple) s of (running, s) \<Rightarrow>
                     if running then (Inr HEAPTUPLE_LIVE, s)
                     else (Inr HEAPTUPLE_LIVE, SetHintBits me W HEAP_XMAX_INVALID InvalidTransactionId s)
              else case TransactionIdGetStatus me W (t_xmax tuple) s of (xidstatus, s) \<Rightarrow>
                     if xidstatus = XID_INPROGRESS
                     then case look_progress W (t_xmax tuple) s of (progress, s) \<Rightarrow>
                            if progress then (Inr HEAPTUPLE_LIVE, s)
                            else (Inr HEAPTUPLE_LIVE, SetHintBits me W HEAP_XMAX_INVALID InvalidTransactionId s)
                     else (Inr HEAPTUPLE_LIVE, SetHintBits me W HEAP_XMAX_INVALID InvalidTransactionId s)
         else (Inr HEAPTUPLE_LIVE, s))"

definition HeapTupleHeaderGetUpdateXid :: "session \<Rightarrow> HeapTupleData \<Rightarrow> TransactionId" where
  "HeapTupleHeaderGetUpdateXid me tuple =
     (if \<not> infomask_bit tuple HEAP_XMAX_INVALID \<and> infomask_bit tuple HEAP_XMAX_IS_MULTI \<and> t_infomask2 tuple AND HEAP_XMAX_LOCK_ONLY = 0
      then MultiXactIdGetUpdateXid me (t_xmax tuple) else t_xmax tuple)"

definition vacuum_multi :: "session \<Rightarrow> world \<Rightarrow> TransactionId \<Rightarrow> vis_state \<Rightarrow> HTSV_Result result \<times> vis_state" where
  "vacuum_multi me W OldestXmin s =
     (let tuple = tup s; xmax = HeapTupleHeaderGetUpdateXid me tuple
      in case look_progress W xmax s of (progress, s) \<Rightarrow>
           if progress then (Inr HEAPTUPLE_DELETE_IN_PROGRESS, s)
           else case look_commit me W xmax s of (commit, s) \<Rightarrow>
             if commit then (Inr (if \<not> TransactionIdPrecedes xmax OldestXmin then HEAPTUPLE_RECENTLY_DEAD else HEAPTUPLE_DEAD), s)
             else case look_multi W (t_xmax tuple) s of (running, s) \<Rightarrow>
               if \<not> running then (Inr HEAPTUPLE_LIVE, SetHintBits me W HEAP_XMAX_INVALID InvalidTransactionId s)
               else (Inr HEAPTUPLE_LIVE, s))"

definition vacuum_deleted :: "session \<Rightarrow> TransactionId \<Rightarrow> HeapTupleData \<Rightarrow> HTSV_Result" where
  "vacuum_deleted me OldestXmin tuple =
     (if \<not> TransactionIdPrecedes (t_xmax tuple) OldestXmin then unless_local me HEAPTUPLE_RECENTLY_DEAD
      else unless_local me HEAPTUPLE_DEAD)"

definition vacuum_xmax :: "session \<Rightarrow> world \<Rightarrow> TransactionId \<Rightarrow> vis_state \<Rightarrow> HTSV_Result result \<times> vis_state" where
  "vacuum_xmax me W OldestXmin s =
     (let tuple = tup s; xmax = t_xmax tuple
      in if infomask_bit tuple HEAP_XMAX_INVALID then (Inr HEAPTUPLE_LIVE, s)
         else if HEAP_XMAX_IS_LOCKED_ONLY tuple then vacuum_locked me W s
         else if infomask_bit tuple HEAP_XMAX_IS_MULTI then vacuum_multi me W OldestXmin s
         else if \<not> infomask_bit tuple HEAP_XMAX_COMMITTED
         then case TransactionIdGetStatus me W xmax s of (xidstatus, s) \<Rightarrow>
              case vacuum_status me W xmax xidstatus s of (outcome, s) \<Rightarrow>
                if outcome = XID_INPROGRESS then (Inr HEAPTUPLE_DELETE_IN_PROGRESS, s)
                else if outcome = XID_COMMITTED then (Inr (vacuum_deleted me OldestXmin tuple), SetHintBits me W HEAP_XMAX_COMMITTED xmax s)
                else if \<not> LatestFetchTransactionIdDidAbort me xmax s then (LatestTransactionStatusError, s)
                else (Inr HEAPTUPLE_LIVE, SetHintBits me W HEAP_XMAX_INVALID InvalidTransactionId s)
         else (Inr (vacuum_deleted me OldestXmin tuple), s))"

definition HeapTupleSatisfiesVacuum :: "session \<Rightarrow> world \<Rightarrow> TransactionId \<Rightarrow> bool \<Rightarrow> vis_state \<Rightarrow> HTSV_Result result \<times> vis_state" where
  "HeapTupleSatisfiesVacuum me W OldestXmin isAnalyzing s =
     (let tuple = tup s; xmin = t_xmin tuple
      in if \<not> HeapTupleHeaderXminCommitted tuple
         then if HeapTupleHeaderXminInvalid tuple then (Inr HEAPTUPLE_DEAD, s)
              else case TransactionIdGetStatus me W xmin s of (xidstatus, s) \<Rightarrow>
                if TransactionIdIsCurrentTransactionId me xmin then (Inr (vacuum_own me tuple), s)
                else case vacuum_status me W xmin xidstatus s of (outcome, s) \<Rightarrow>
                  if outcome = XID_INPROGRESS then (Inr HEAPTUPLE_INSERT_IN_PROGRESS, s)
                  else if outcome = XID_COMMITTED
                  then vacuum_xmax me W OldestXmin (if \<not> isAnalyzing then SetHintBits me W HEAP_XMIN_COMMITTED xmin s else s)
                  else if \<not> LatestFetchTransactionIdDidAbort me xmin s then (LatestTransactionStatusError, s)
                  else (Inr (unless_local me HEAPTUPLE_DEAD), SetHintBits me W HEAP_XMIN_INVALID InvalidTransactionId s)
         else vacuum_xmax me W OldestXmin s)"

definition HeapTupleIsSurelyDead :: "HeapTupleData \<Rightarrow> TransactionId \<Rightarrow> bool" where
  "HeapTupleIsSurelyDead tuple OldestXmin =
     (if \<not> HeapTupleHeaderXminCommitted tuple then HeapTupleHeaderXminInvalid tuple
      else if infomask_bit tuple HEAP_XMAX_INVALID then False
      else if HEAP_XMAX_IS_LOCKED_ONLY tuple then False
      else if infomask_bit tuple HEAP_XMAX_IS_MULTI then False
      else if \<not> infomask_bit tuple HEAP_XMAX_COMMITTED then False
      else TransactionIdPrecedes (t_xmax tuple) OldestXmin)"

definition HeapTupleIsOnlyLocked :: "session \<Rightarrow> world \<Rightarrow> vis_state \<Rightarrow> bool \<times> vis_state" where
  "HeapTupleIsOnlyLocked me W s =
     (let tuple = tup s
      in if infomask_bit tuple HEAP_XMAX_INVALID then (True, s)
         else if t_infomask2 tuple AND HEAP_XMAX_LOCK_ONLY \<noteq> 0 then (True, s)
         else if \<not> TransactionIdIsValid (t_xmax tuple) then (True, s)
         else if \<not> infomask_bit tuple HEAP_XMAX_IS_MULTI then (False, s)
         else let xmax = MultiXactIdGetUpdateXid me (t_xmax tuple)
              in if \<not> TransactionIdIsValid xmax then (True, s)
                 else if TransactionIdIsCurrentTransactionId me xmax then (False, s)
                 else case look_progress W xmax s of (progress, s) \<Rightarrow>
                   if progress then (False, s)
                   else case look_commit me W xmax s of (commit, s) \<Rightarrow> (\<not> commit, s))"

end
