(* ===== verification/OG_VisibleNow.thy ===== *)
theory OG_VisibleNow
  imports OG_Visibility
begin

text \<open>
  What the shared state shows of a transaction from its start to its end, when the hint bits of a tuple are right, and that \<^verbatim>\<open>HeapTupleSatisfiesSelf\<close>,
  \<^verbatim>\<open>HeapTupleSatisfiesNow\<close> and \<^verbatim>\<open>HeapTupleSatisfiesDirty\<close> answer as the rules in their comments say for an instant during the call.
\<close>

section \<open>The life of a transaction as others see it\<close>

text \<open>
  The phases a transaction goes through, by what the shared state shows of it. It commits by first marking its entry in the log of sequence numbers as committing,
  together with a lower bound \<open>l\<close> of its sequence number \<open>c\<close>, then entering the commit in the commit log, then its number in the log of sequence numbers, and
  then leaving the array of running transactions. \<open>n\<close> is the next sequence number at the time.
\<close>

datatype phase = Running | Committing CommitSeqNo CommitSeqNo | Logged CommitSeqNo CommitSeqNo | Stamped CommitSeqNo | Committed CommitSeqNo | Aborting | Aborted

inductive phase_step :: "CommitSeqNo \<Rightarrow> phase \<Rightarrow> phase \<Rightarrow> bool" for n where
  mark: "n \<le> c \<Longrightarrow> l \<le> c \<Longrightarrow> phase_step n Running (Committing l c)"
| enter: "phase_step n (Committing l c) (Logged l c)"
| stamp: "phase_step n (Logged l c) (Stamped c)"
| leave: "phase_step n (Stamped c) (Committed c)"
| undo: "phase_step n Running Aborting"
| leave_aborted: "phase_step n Aborting Aborted"

inductive_cases phase_step_elims: "phase_step n p q"

definition active :: "phase \<Rightarrow> bool" where
  "active p \<longleftrightarrow> (case p of Committed c \<Rightarrow> False | Aborted \<Rightarrow> False | _ \<Rightarrow> True)"

definition logged :: "phase \<Rightarrow> bool" where
  "logged p \<longleftrightarrow> (case p of Logged l c \<Rightarrow> True | Stamped c \<Rightarrow> True | Committed c \<Rightarrow> True | _ \<Rightarrow> False)"

definition stamped :: "phase \<Rightarrow> bool" where
  "stamped p \<longleftrightarrow> (case p of Stamped c \<Rightarrow> True | Committed c \<Rightarrow> True | _ \<Rightarrow> False)"

definition failed :: "phase \<Rightarrow> bool" where
  "failed p \<longleftrightarrow> (case p of Aborting \<Rightarrow> True | Aborted \<Rightarrow> True | _ \<Rightarrow> False)"

text \<open>Whether a snapshot with the number \<open>S\<close> sees it, if not now then once it has committed.\<close>

definition seen :: "CommitSeqNo \<Rightarrow> phase \<Rightarrow> bool" where
  "seen S p \<longleftrightarrow> (case p of Committing l c \<Rightarrow> c < S | Logged l c \<Rightarrow> c < S | Stamped c \<Rightarrow> c < S | Committed c \<Rightarrow> c < S | _ \<Rightarrow> False)"

lemmas phase_defs = active_def logged_def stamped_def failed_def seen_def

text \<open>Which phases may follow.\<close>

definition later :: "CommitSeqNo \<Rightarrow> phase \<Rightarrow> phase \<Rightarrow> bool" where
  "later n p q \<longleftrightarrow>
     (case p of
        Running \<Rightarrow> (case q of Committing l c \<Rightarrow> n \<le> c \<and> l \<le> c | Logged l c \<Rightarrow> n \<le> c \<and> l \<le> c | Stamped c \<Rightarrow> n \<le> c | Committed c \<Rightarrow> n \<le> c | _ \<Rightarrow> True)
      | Committing l c \<Rightarrow> q \<in> {Committing l c, Logged l c, Stamped c, Committed c}
      | Logged l c \<Rightarrow> q \<in> {Logged l c, Stamped c, Committed c}
      | Stamped c \<Rightarrow> q \<in> {Stamped c, Committed c}
      | Committed c \<Rightarrow> q = Committed c
      | Aborting \<Rightarrow> q \<in> {Aborting, Aborted}
      | Aborted \<Rightarrow> q = Aborted)"

lemma later_step: "later n p q \<Longrightarrow> n \<le> m \<Longrightarrow> phase_step m q r \<Longrightarrow> later n p r"
  by (erule phase_step_elims) (cases p; auto simp: later_def)+

lemma later_steps: "(phase_step m)\<^sup>*\<^sup>* q r \<Longrightarrow> later n p q \<Longrightarrow> n \<le> m \<Longrightarrow> later n p r"
  by (induction rule: rtranclp_induct) (auto intro: later_step)

lemma later_start: "later n p p"
  by (cases p) (auto simp: later_def)

text \<open>Whether a transaction has committed does not depend on the fields the routine leaves behind.\<close>

definition blank_tuple :: HeapTupleData where
  "blank_tuple = \<lparr>t_self = (0, 0), t_ctid = (0, 0), t_xmin = 0, t_xmax = 0, t_cmin = 0, t_cmax = 0, t_cid = 0, t_infomask = 0, t_infomask2 = 0\<rparr>"

definition start :: "nat \<Rightarrow> HeapTupleData \<Rightarrow> vis_state" where
  "start t tuple = \<lparr>now = t, tup = tuple, latestFetchXid = 0, latestFetchXidStatus = CLOG_XID_STATUS_IN_PROGRESS, latestFetchCSNXid = 0, latestFetchCSN = 0,
     csn_writes = [], has_cur_xact_write = None, dirty_xmin = 0, dirty_xmax = 0\<rparr>"

definition did_commit :: "session \<Rightarrow> xacts \<Rightarrow> TransactionId \<Rightarrow> bool" where
  "did_commit me x xid = fst (TransactionIdDidCommit me x xid (start 0 blank_tuple))"

declare TransactionIdDidCommit.simps [simp del]

lemma LogFetch_fst: "fst (TransactionLogFetch x xid s) = fst (TransactionLogFetch x xid s')"
  by (simp add: TransactionLogFetch_def)

definition same_call :: "vis_state \<Rightarrow> vis_state \<Rightarrow> bool" where
  "same_call s s' \<longleftrightarrow> now s' = now s \<and> tup s' = tup s \<and> has_cur_xact_write s' = has_cur_xact_write s \<and> csn_writes s' = csn_writes s \<and>
     dirty_xmin s' = dirty_xmin s \<and> dirty_xmax s' = dirty_xmax s"

lemma LogFetch_same: "same_call s (snd (TransactionLogFetch x xid s))"
  by (simp add: TransactionLogFetch_def same_call_def)

lemma same_call_trans: "same_call a b \<Longrightarrow> same_call b c \<Longrightarrow> same_call a c"
  by (simp add: same_call_def)

lemma DidCommit_fst: "fst (TransactionIdDidCommit me x xid s) = fst (TransactionIdDidCommit me x xid s')"
proof (induction "unat xid" arbitrary: xid s s' rule: less_induct)
  case less
  have IH: "parentXid < xid \<Longrightarrow> fst (TransactionIdDidCommit me x parentXid a) = fst (TransactionIdDidCommit me x parentXid b)" for parentXid a b
    using less by (simp add: word_less_nat_alt)
  show ?case
    using IH LogFetch_fst [of x xid s s']
    by (subst (1 2) TransactionIdDidCommit.simps) (auto simp: TransactionIdPrecedes_def split: prod.splits)
qed

lemma DidCommit_same: "same_call s (snd (TransactionIdDidCommit me x xid s))"
proof (induction "unat xid" arbitrary: xid s rule: less_induct)
  case less
  have IH: "parentXid < xid \<Longrightarrow> same_call a (snd (TransactionIdDidCommit me x parentXid a))" for parentXid a
    using less by (simp add: word_less_nat_alt)
  obtain st s1 where f: "TransactionLogFetch x xid s = (st, s1)" by fastforce
  then have "same_call s s1" using LogFetch_same [of s x xid] by simp
  then show ?case
    using IH [of _ s1] same_call_trans [of s s1]
    by (subst TransactionIdDidCommit.simps) (auto simp: f TransactionIdPrecedes_def split: prod.splits)
qed

lemma look_commit_eq:
  assumes "look_commit me W xid s = (b, s')"
  shows "b = did_commit me (at W (now s)) xid \<and> now s' = Suc (now s) \<and> tup s' = tup s \<and> has_cur_xact_write s' = has_cur_xact_write s"
proof -
  obtain c s1 where d: "TransactionIdDidCommit me (at W (now s)) xid s = (c, s1)" by fastforce
  then have "c = did_commit me (at W (now s)) xid" using DidCommit_fst [of me "at W (now s)" xid s "start 0 blank_tuple"] by (simp add: did_commit_def)
  moreover have "same_call s s1" using DidCommit_same [of s me "at W (now s)" xid] d by simp
  ultimately show ?thesis using assms d by (auto simp: look_commit_def tick_def same_call_def)
qed

lemma DidCommit_latest:
  "latestFetchXid (snd (TransactionIdDidCommit me x xid s)) \<le> xid \<and>
   (latestFetchXid (snd (TransactionIdDidCommit me x xid s)) = xid \<and> TransactionIdIsNormal xid \<longrightarrow>
      latestFetchXidStatus (snd (TransactionIdDidCommit me x xid s)) = clog x xid)"
proof (induction "unat xid" arbitrary: xid s rule: less_induct)
  case less
  obtain st s1 where f: "TransactionLogFetch x xid s = (st, s1)" by fastforce
  have s1: "latestFetchXid s1 \<le> xid \<and> (latestFetchXid s1 = xid \<and> TransactionIdIsNormal xid \<longrightarrow> latestFetchXidStatus s1 = clog x xid)"
    using f by (auto simp: TransactionLogFetch_def InvalidTransactionId_def split: if_splits)
  have IH: "latestFetchXid (snd (TransactionIdDidCommit me x p s1)) < xid" if "p < xid" for p
    using less [of p s1] that by (auto simp: word_less_nat_alt [symmetric] intro: le_less_trans)
  show ?case
    using IH s1 by (subst (1 2 3) TransactionIdDidCommit.simps) (auto simp: f TransactionIdPrecedes_def less_imp_le split: prod.splits)
qed

text \<open>When the commit log shows the end of a transaction that has not committed, the test for it succeeds.\<close>

lemma latest_abort:
  assumes "TransactionIdIsNormal xid \<Longrightarrow> \<not> TransactionIdPrecedes xid (startupMaxXid me) \<Longrightarrow> clog x xid \<in> {CLOG_XID_STATUS_ABORTED, CLOG_XID_STATUS_SUB_COMMITTED}"
    and "\<not> fst (TransactionIdDidCommit me x xid s)"
  shows "LatestFetchTransactionIdDidAbort me xid (snd (TransactionIdDidCommit me x xid s))"
proof (cases "TransactionIdIsNormal xid")
  case True
  then show ?thesis using assms(1) DidCommit_latest [of me x xid s] by (auto simp: LatestFetchTransactionIdDidAbort_def)
next
  case False
  have "xid = 0"
  proof (rule ccontr)
    assume "xid \<noteq> 0"
    then have "unat xid \<noteq> 0" "unat xid < 3" using False by (auto simp: TransactionIdIsNormal_def FirstNormalTransactionId_def word_le_nat_alt unat_eq_0)
    then have "xid = 1 \<or> xid = 2" by (auto simp: word_unat_eq_iff)
    then have "fst (TransactionIdDidCommit me x xid s)" using False
      by (subst TransactionIdDidCommit.simps) (auto simp: TransactionLogFetch_def BootstrapTransactionId_def FrozenTransactionId_def)
    then show False using assms(2) by simp
  qed
  then show ?thesis
    by (auto simp: LatestFetchTransactionIdDidAbort_def TransactionIdIsValid_def InvalidTransactionId_def TransactionIdPrecedes_def word_gt_0)
qed

section \<open>What the shared state shows of each phase\<close>

definition csn_shows :: "phase \<Rightarrow> CommitSeqNo \<Rightarrow> bool" where
  "csn_shows p v \<longleftrightarrow>
     (case p of
        Running \<Rightarrow> \<not> COMMITSEQNO_IS_COMMITTED v \<and> \<not> COMMITSEQNO_IS_COMMITTING v \<and> v \<noteq> COMMITSEQNO_ABORTED
      | Committing l c \<Rightarrow> COMMITSEQNO_IS_COMMITTING v \<and> (\<not> COMMITSEQNO_IS_SUBTRANS v \<longrightarrow> GET_COMMITSEQNO v = l) \<and> l \<le> c
      | Logged l c \<Rightarrow> COMMITSEQNO_IS_COMMITTING v \<and> (\<not> COMMITSEQNO_IS_SUBTRANS v \<longrightarrow> GET_COMMITSEQNO v = l) \<and> l \<le> c
      | Stamped c \<Rightarrow> v = c \<and> COMMITSEQNO_IS_COMMITTED c
      | Committed c \<Rightarrow> v = c \<and> COMMITSEQNO_IS_COMMITTED c
      | _ \<Rightarrow> \<not> COMMITSEQNO_IS_COMMITTED v \<and> \<not> COMMITSEQNO_IS_COMMITTING v)"

text \<open>
  \<^verbatim>\<open>xact.c\<close> records the commit in the logs before it takes the transaction out of the array. The log of sequence numbers read through the parents shows a
  commit only after the commit log does.
\<close>

definition shows_phase :: "session \<Rightarrow> xacts \<Rightarrow> TransactionId \<Rightarrow> phase \<Rightarrow> bool" where
  "shows_phase me x xid p \<longleftrightarrow>
     (TransactionIdIsInProgress x xid \<longleftrightarrow> active p) \<and> (did_commit me x xid \<longleftrightarrow> logged p) \<and>
     csn_shows p (CSNLogGetCommitSeqNo x xid) \<and>
     (COMMITSEQNO_IS_COMMITTED (RecursiveGetCommitSeqNo x xid) \<longrightarrow> logged p) \<and> (COMMITSEQNO_IS_ABORTED (RecursiveGetCommitSeqNo x xid) \<longrightarrow> failed p) \<and>
     (TransactionIdIsNormal xid \<longrightarrow>
        (\<not> active p \<longrightarrow> (clog x xid = CLOG_XID_STATUS_COMMITTED \<longleftrightarrow> logged p)) \<and>
        (p = Aborted \<and> \<not> TransactionIdPrecedes xid (startupMaxXid me) \<longrightarrow> clog x xid \<in> {CLOG_XID_STATUS_ABORTED, CLOG_XID_STATUS_SUB_COMMITTED}))"

text \<open>
  The history of one transaction: what is seen of it at every instant, how it moves on while the next sequence number \<open>nxt\<close> grows, and that a wait for it while it
  commits, or for the transaction that its entry names as parent then, ends when it has left the array. The own transactions run during the whole call.
\<close>

definition wait_xid :: "TransactionId \<Rightarrow> CommitSeqNo \<Rightarrow> TransactionId" where
  "wait_xid xid csn =
     (let parentXid = (if COMMITSEQNO_IS_SUBTRANS csn then GET_PARENTXID csn else InvalidTransactionId)
      in if TransactionIdIsValid parentXid then parentXid else xid)"

definition history :: "session \<Rightarrow> world \<Rightarrow> (nat \<Rightarrow> CommitSeqNo) \<Rightarrow> TransactionId \<Rightarrow> (nat \<Rightarrow> phase) \<Rightarrow> bool" where
  "history me W nxt xid ph \<longleftrightarrow>
     (\<forall>t. shows_phase me (at W t) xid (ph t)) \<and> (\<forall>t. (phase_step (nxt t))\<^sup>*\<^sup>* (ph t) (ph (Suc t))) \<and> (\<forall>t. nxt t \<le> nxt (Suc t)) \<and>
     (\<forall>t t'. let v = CSNLogGetCommitSeqNo (at W t) xid; e = wait_end W t' (wait_xid xid v)
             in COMMITSEQNO_IS_COMMITTING v \<and> t \<le> t' \<longrightarrow> t' < e \<and> \<not> active (ph e)) \<and>
     (TransactionIdIsCurrentTransactionId me xid \<longrightarrow> (\<forall>t. ph t = Running))"

lemma history_shows: "history me W nxt xid ph \<Longrightarrow> shows_phase me (at W t) xid (ph t)"
  by (simp add: history_def)

lemma history_later:
  assumes "history me W nxt xid ph" "t \<le> t'"
  shows "later (nxt t) (ph t) (ph t')"
proof -
  have "later (nxt t) (ph t) (ph (t + k)) \<and> nxt t \<le> nxt (t + k)" for k
  proof (induction k)
    case 0
    show ?case by (simp add: later_start)
  next
    case (Suc k)
    have "(phase_step (nxt (t + k)))\<^sup>*\<^sup>* (ph (t + k)) (ph (Suc (t + k)))" "nxt (t + k) \<le> nxt (Suc (t + k))" using assms(1) by (simp_all add: history_def)
    then show ?case using later_steps Suc.IH by (metis add_Suc_right order_trans)
  qed
  from this [of "t' - t"] show ?thesis using assms(2) by simp
qed

text \<open>What does not change any more.\<close>

lemma later_stable:
  assumes "later n p q"
  shows "stamped p \<Longrightarrow> stamped q" "logged p \<Longrightarrow> logged q" "failed p \<Longrightarrow> failed q" "\<not> active p \<Longrightarrow> q = p" "stamped p \<Longrightarrow> seen S q = seen S p"
    "failed p \<Longrightarrow> \<not> seen S q" "active q \<Longrightarrow> active p" "S \<le> n \<Longrightarrow> seen S q = seen S p"
  using assms by (cases p; cases q; auto simp: later_def phase_defs)+

lemma phase_rules:
  "\<not> active p \<Longrightarrow> logged p \<Longrightarrow> stamped p" "\<not> active p \<Longrightarrow> \<not> logged p \<Longrightarrow> failed p" "failed p \<Longrightarrow> \<not> logged p" "stamped p \<Longrightarrow> logged p" "stamped p \<Longrightarrow> \<not> failed p"
  "seen S p \<Longrightarrow> \<not> failed p" "\<not> active p \<Longrightarrow> failed p \<Longrightarrow> p = Aborted" "p = Running \<Longrightarrow> active p \<and> \<not> logged p \<and> \<not> failed p"
  by (cases p; simp add: phase_defs)+

section \<open>Flag bits by number\<close>

lemma mask_bits:
  "bit HEAP_XMIN_COMMITTED n \<longleftrightarrow> n = 8" "bit HEAP_XMIN_INVALID n \<longleftrightarrow> n = 9" "bit HEAP_XMAX_COMMITTED n \<longleftrightarrow> n = 10" "bit HEAP_XMAX_INVALID n \<longleftrightarrow> n = 11"
  "bit HEAP_XMAX_IS_MULTI n \<longleftrightarrow> n = 12" "bit HEAP_XMAX_EXCL_LOCK n \<longleftrightarrow> n = 6" "bit HEAP_XMAX_SHARED_LOCK n \<longleftrightarrow> n = 7" "bit HEAP_XMAX_LOCK_ONLY n \<longleftrightarrow> n = 11"
  "bit HEAP_COMBOCID n \<longleftrightarrow> n = 5" "bit HEAP_LOCK_MASK n \<longleftrightarrow> n = 6 \<or> n = 7"
proof -
  have e: "bit (2 ^ k :: uint16) n \<longleftrightarrow> n = k" if "k < 16" for k using that by (auto simp: bit_exp_iff)
  show c: "bit HEAP_XMIN_COMMITTED n \<longleftrightarrow> n = 8" using e [of 8] by (simp add: HEAP_XMIN_COMMITTED_def)
  show "bit HEAP_XMIN_INVALID n \<longleftrightarrow> n = 9" using e [of 9] by (simp add: HEAP_XMIN_INVALID_def)
  show "bit HEAP_XMAX_COMMITTED n \<longleftrightarrow> n = 10" using e [of 10] by (simp add: HEAP_XMAX_COMMITTED_def)
  show "bit HEAP_XMAX_INVALID n \<longleftrightarrow> n = 11" using e [of 11] by (simp add: HEAP_XMAX_INVALID_def)
  show "bit HEAP_XMAX_IS_MULTI n \<longleftrightarrow> n = 12" using e [of 12] by (simp add: HEAP_XMAX_IS_MULTI_def)
  show x: "bit HEAP_XMAX_EXCL_LOCK n \<longleftrightarrow> n = 6" using e [of 6] by (simp add: HEAP_XMAX_EXCL_LOCK_def)
  show s: "bit HEAP_XMAX_SHARED_LOCK n \<longleftrightarrow> n = 7" using e [of 7] by (simp add: HEAP_XMAX_SHARED_LOCK_def)
  show "bit HEAP_XMAX_LOCK_ONLY n \<longleftrightarrow> n = 11" using e [of 11] by (simp add: HEAP_XMAX_LOCK_ONLY_def)
  show "bit HEAP_COMBOCID n \<longleftrightarrow> n = 5" using e [of 5] by (simp add: HEAP_COMBOCID_def)
  show "bit HEAP_LOCK_MASK n \<longleftrightarrow> n = 6 \<or> n = 7" using x s by (auto simp: HEAP_LOCK_MASK_def HEAP_XMAX_KEYSHR_LOCK_def bit_or_iff)
qed

lemma and_single_bit: "(\<And>n. bit m n \<longleftrightarrow> n = k) \<Longrightarrow> (w AND m \<noteq> 0) = bit (w :: uint16) k"
  by (simp add: word_eq_0_iff_no_bit bit_and_iff)

lemma and_bits: "w AND m = v \<longleftrightarrow> (\<forall>n. (bit w n \<and> bit m n) = bit v n)" for w :: uint16
proof
  assume "\<forall>n. (bit w n \<and> bit m n) = bit v n"
  then show "w AND m = v" by (intro bit_word_eqI) (simp add: bit_and_iff)
qed (auto simp: bit_and_iff)

abbreviation flag :: "HeapTupleData \<Rightarrow> nat \<Rightarrow> bool" where
  "flag tuple k \<equiv> bit (t_infomask tuple) k"

lemma infomask_flags:
  "infomask_bit tuple HEAP_XMIN_COMMITTED = flag tuple 8" "infomask_bit tuple HEAP_XMIN_INVALID = flag tuple 9" "infomask_bit tuple HEAP_XMAX_COMMITTED = flag tuple 10"
  "infomask_bit tuple HEAP_XMAX_INVALID = flag tuple 11" "infomask_bit tuple HEAP_XMAX_IS_MULTI = flag tuple 12" "infomask_bit tuple HEAP_COMBOCID = flag tuple 5"
  unfolding infomask_bit_def by (rule and_single_bit, rule mask_bits)+

lemma xmin_flags:
  "HeapTupleHeaderXminCommitted tuple = flag tuple 8" "HeapTupleHeaderXminInvalid tuple \<longleftrightarrow> \<not> flag tuple 8 \<and> flag tuple 9"
  "HeapTupleHeaderXminFrozen tuple \<longleftrightarrow> flag tuple 8 \<and> flag tuple 9"
proof -
  show "HeapTupleHeaderXminCommitted tuple = flag tuple 8" by (simp add: HeapTupleHeaderXminCommitted_def infomask_flags)
  show "HeapTupleHeaderXminInvalid tuple \<longleftrightarrow> \<not> flag tuple 8 \<and> flag tuple 9"
    unfolding HeapTupleHeaderXminInvalid_def and_bits bit_or_iff mask_bits by (auto dest: spec [of _ 8] spec [of _ 9])
  show "HeapTupleHeaderXminFrozen tuple \<longleftrightarrow> flag tuple 8 \<and> flag tuple 9"
    unfolding HeapTupleHeaderXminFrozen_def HEAP_XMIN_FROZEN_def and_bits bit_or_iff mask_bits by (auto dest: spec [of _ 8] spec [of _ 9])
qed

definition locked_flags :: "uint16 \<Rightarrow> uint16 \<Rightarrow> bool" where
  "locked_flags m m2 \<longleftrightarrow> bit m2 11 \<or> bit m 7 \<or> \<not> bit m 12 \<and> bit m 6"

lemma locked_only_flags: "HEAP_XMAX_IS_LOCKED_ONLY tuple = locked_flags (t_infomask tuple) (t_infomask2 tuple)"
proof -
  have "t_infomask tuple AND (HEAP_XMAX_IS_MULTI OR HEAP_LOCK_MASK) = HEAP_XMAX_EXCL_LOCK \<longleftrightarrow> \<not> flag tuple 12 \<and> flag tuple 6 \<and> \<not> flag tuple 7"
    unfolding and_bits bit_or_iff mask_bits by (auto dest: spec [of _ 6] spec [of _ 7] spec [of _ 12])
  moreover have "t_infomask2 tuple AND HEAP_XMAX_LOCK_ONLY \<noteq> 0 \<longleftrightarrow> bit (t_infomask2 tuple) 11" by (rule and_single_bit, rule mask_bits)
  moreover have "t_infomask tuple AND HEAP_XMAX_SHARED_LOCK \<noteq> 0 \<longleftrightarrow> flag tuple 7" by (rule and_single_bit, rule mask_bits)
  ultimately show ?thesis by (auto simp: HEAP_XMAX_IS_LOCKED_ONLY_def locked_flags_def)
qed

lemmas flags = infomask_flags xmin_flags locked_only_flags

text \<open>A hint is set or not; nothing else changes.\<close>

definition hinted :: "HeapTupleData \<Rightarrow> nat \<Rightarrow> HeapTupleData \<Rightarrow> bool" where
  "hinted tuple k tuple' \<longleftrightarrow> tuple' = tuple \<or> (\<exists>m. tuple' = tuple\<lparr>t_infomask := m\<rparr> \<and> (\<forall>n. bit m n \<longleftrightarrow> flag tuple n \<or> n = k))"

lemma SetHintBits_hinted:
  assumes "\<And>n. bit m n \<longleftrightarrow> n = k"
  shows "hinted (tup s) k (tup (SetHintBits me W m xid s)) \<and> now (SetHintBits me W m xid s) = now s \<and>
    has_cur_xact_write (SetHintBits me W m xid s) = has_cur_xact_write s"
  using assms by (auto simp: SetHintBits_def hinted_def bit_or_iff)

lemmas hint_xmin_committed = SetHintBits_hinted [OF mask_bits(1)]
lemmas hint_xmin_invalid = SetHintBits_hinted [OF mask_bits(2)]
lemmas hint_xmax_committed = SetHintBits_hinted [OF mask_bits(3)]
lemmas hint_xmax_invalid = SetHintBits_hinted [OF mask_bits(4)]

section \<open>Right hint bits\<close>

text \<open>The transaction that has updated or deleted the tuple, if there is one.\<close>

definition updater :: "session \<Rightarrow> HeapTupleData \<Rightarrow> TransactionId option" where
  "updater me tuple =
     (if HEAP_XMAX_IS_LOCKED_ONLY tuple then None
      else if infomask_bit tuple HEAP_XMAX_IS_MULTI then Some (MultiXactIdGetUpdateXid me (t_xmax tuple))
      else Some (t_xmax tuple))"

text \<open>The hint bits of a tuple agree with the phases \<open>P\<close>. Frozen tuples count as inserted by a transaction that has committed long ago.\<close>

definition hints_ok :: "session \<Rightarrow> (TransactionId \<Rightarrow> phase) \<Rightarrow> HeapTupleData \<Rightarrow> bool" where
  "hints_ok me P tuple \<longleftrightarrow>
     (flag tuple 8 \<and> \<not> flag tuple 9 \<longrightarrow> stamped (P (t_xmin tuple))) \<and> (flag tuple 9 \<and> \<not> flag tuple 8 \<longrightarrow> failed (P (t_xmin tuple))) \<and>
     (flag tuple 10 \<and> \<not> flag tuple 11 \<and> \<not> HEAP_XMAX_IS_LOCKED_ONLY tuple \<longrightarrow> \<not> flag tuple 12 \<and> stamped (P (t_xmax tuple))) \<and>
     (flag tuple 11 \<longrightarrow> (\<forall>d. updater me tuple = Some d \<longrightarrow> failed (P d)))"

text \<open>Two versions of a tuple that differ in hint bits only, of which the second has more: hint bits are set and never cleared, and none freezes the tuple.\<close>

definition same_tuple :: "HeapTupleData \<Rightarrow> HeapTupleData \<Rightarrow> bool" where
  "same_tuple a b \<longleftrightarrow> (\<exists>m. b = a\<lparr>t_infomask := m\<rparr> \<and> (\<forall>n. n \<notin> {8, 9, 10, 11} \<longrightarrow> bit m n = flag a n) \<and> (\<forall>n. flag a n \<longrightarrow> bit m n) \<and>
     (bit m 8 \<and> bit m 9 \<longrightarrow> flag a 8 \<and> flag a 9))"

lemma same_tuple_refl: "same_tuple a a"
  unfolding same_tuple_def by (rule exI [of _ "t_infomask a"]) simp

lemma same_tuple_updater:
  assumes "same_tuple a b"
  shows "updater me b = updater me a" "HEAP_XMAX_IS_LOCKED_ONLY b = HEAP_XMAX_IS_LOCKED_ONLY a" "t_xmin b = t_xmin a" "t_xmax b = t_xmax a"
    "t_cmin b = t_cmin a" "t_cmax b = t_cmax a" "flag b 12 = flag a 12" "(flag b 8 \<and> flag b 9) = (flag a 8 \<and> flag a 9)" "t_self b = t_self a" "t_ctid b = t_ctid a"
    "flag b 5 = flag a 5" "t_cid b = t_cid a" "flag a 11 \<Longrightarrow> flag b 11"
proof -
  obtain m where b: "b = a\<lparr>t_infomask := m\<rparr>" and m: "\<forall>n. n \<notin> {8, 9, 10, 11} \<longrightarrow> bit m n = flag a n" and f: "(bit m 8 \<and> bit m 9) = (flag a 8 \<and> flag a 9)"
    using assms by (auto simp: same_tuple_def)
  have k: "bit m 5 = flag a 5" "bit m 6 = flag a 6" "bit m 7 = flag a 7" "bit m 12 = flag a 12"
    using m [rule_format, of 5] m [rule_format, of 6] m [rule_format, of 7] m [rule_format, of 12] by simp_all
  show l: "HEAP_XMAX_IS_LOCKED_ONLY b = HEAP_XMAX_IS_LOCKED_ONLY a" by (simp add: b k flags locked_flags_def)
  show x: "flag b 12 = flag a 12" by (simp add: b k)
  show "updater me b = updater me a" unfolding updater_def l infomask_flags x by (simp add: b)
  show "(flag b 8 \<and> flag b 9) = (flag a 8 \<and> flag a 9)" by (simp add: b f)
qed (use assms in \<open>auto simp: same_tuple_def\<close>)

lemma same_tuple_trans:
  assumes "same_tuple a b" "same_tuple b c"
  shows "same_tuple a c"
proof -
  obtain m where b: "b = a\<lparr>t_infomask := m\<rparr>" "\<forall>n. n \<notin> {8, 9, 10, 11} \<longrightarrow> bit m n = flag a n" "(bit m 8 \<and> bit m 9) = (flag a 8 \<and> flag a 9)" "\<forall>n. flag a n \<longrightarrow> bit m n"
    using assms(1) by (auto simp: same_tuple_def)
  obtain k where c: "c = b\<lparr>t_infomask := k\<rparr>" "\<forall>n. n \<notin> {8, 9, 10, 11} \<longrightarrow> bit k n = flag b n" "(bit k 8 \<and> bit k 9) = (flag b 8 \<and> flag b 9)" "\<forall>n. flag b n \<longrightarrow> bit k n"
    using assms(2) by (auto simp: same_tuple_def)
  have "c = a\<lparr>t_infomask := k\<rparr>" using b(1) c(1) by simp
  then show ?thesis unfolding same_tuple_def using b c by (intro exI [of _ k]) simp
qed

lemma hinted_same:
  assumes "hinted a k b" "k \<in> {8, 9, 10, 11}" "k = 8 \<Longrightarrow> \<not> flag a 9" "k = 9 \<Longrightarrow> \<not> flag a 8"
  shows "same_tuple a b"
proof (cases "b = a")
  case False
  then obtain m where m: "b = a\<lparr>t_infomask := m\<rparr>" "\<And>n. bit m n \<longleftrightarrow> flag a n \<or> n = k" using assms(1) by (auto simp: hinted_def)
  then show ?thesis unfolding same_tuple_def using assms(2-4) by (intro exI [of _ m]) auto
qed (simp add: same_tuple_refl)

section \<open>Good states\<close>

text \<open>The transactions that a routine may ask about.\<close>

definition tuple_ids :: "session \<Rightarrow> HeapTupleData \<Rightarrow> TransactionId set" where
  "tuple_ids me tuple = insert (t_xmin tuple)
     (if flag tuple 12 then (if HEAP_XMAX_IS_LOCKED_ONLY tuple then {} else {MultiXactIdGetUpdateXid me (t_xmax tuple)}) else {t_xmax tuple})"

text \<open>
  The transactions have histories; a tuple that the own transaction has inserted can have been updated only by it, or by a subtransaction that has
  aborted; and the hint bits are right.
\<close>

definition good :: "session \<Rightarrow> world \<Rightarrow> (nat \<Rightarrow> CommitSeqNo) \<Rightarrow> (TransactionId \<Rightarrow> nat \<Rightarrow> phase) \<Rightarrow> vis_state \<Rightarrow> bool" where
  "good me W nxt ph s \<longleftrightarrow>
     (\<forall>xid \<in> tuple_ids me (tup s). history me W nxt xid (ph xid)) \<and>
     (TransactionIdIsCurrentTransactionId me (t_xmin (tup s)) \<longrightarrow>
        (\<forall>d. updater me (tup s) = Some d \<longrightarrow> \<not> TransactionIdIsCurrentTransactionId me d \<longrightarrow> failed (ph d (now s)))) \<and>
     hints_ok me (\<lambda>xid. ph xid (now s)) (tup s)"

lemma updater_ids: "updater me tuple = Some d \<Longrightarrow> d \<in> tuple_ids me tuple"
  by (auto simp: updater_def tuple_ids_def flags split: if_splits)

lemma xmin_ids: "t_xmin tuple \<in> tuple_ids me tuple"
  by (simp add: tuple_ids_def)

lemma xmax_ids: "\<not> flag tuple 12 \<Longrightarrow> t_xmax tuple \<in> tuple_ids me tuple"
  by (simp add: tuple_ids_def)

lemma same_tuple_ids: "same_tuple a b \<Longrightarrow> tuple_ids me b = tuple_ids me a"
  by (simp add: tuple_ids_def same_tuple_updater)

lemma good_history: "good me W nxt ph s \<Longrightarrow> xid \<in> tuple_ids me (tup s) \<Longrightarrow> history me W nxt xid (ph xid)"
  by (simp add: good_def)

lemma good_hints: "good me W nxt ph s \<Longrightarrow> hints_ok me (\<lambda>xid. ph xid (now s)) (tup s)"
  by (simp add: good_def)

lemma good_later:
  assumes "good me W nxt ph s" "xid \<in> tuple_ids me (tup s)" "now s \<le> t"
  shows "later (nxt (now s)) (ph xid (now s)) (ph xid t)"
  by (rule history_later [OF good_history [OF assms(1,2)] assms(3)])

lemma hints_ok_later:
  assumes "hints_ok me P tuple" "\<And>xid. xid \<in> tuple_ids me tuple \<Longrightarrow> later n (P xid) (Q xid)"
  shows "hints_ok me Q tuple"
proof -
  have "failed (Q d)" if "flag tuple 11" "updater me tuple = Some d" for d
    using assms(1) later_stable(3) [OF assms(2) [OF updater_ids [OF that(2)]]] that by (simp add: hints_ok_def)
  moreover have "stamped (Q (t_xmax tuple))" if "\<not> flag tuple 12" "stamped (P (t_xmax tuple))"
    using later_stable(1) [OF assms(2) [OF xmax_ids [OF that(1)]] that(2)] .
  moreover note later_stable(1,3) [OF assms(2) [OF xmin_ids]]
  ultimately show ?thesis using assms(1) unfolding hints_ok_def by blast
qed

text \<open>Time passes.\<close>

lemma good_wait:
  assumes "good me W nxt ph s" "now s \<le> now s'" "tup s' = tup s"
  shows "good me W nxt ph s'"
proof -
  note l = good_later [OF assms(1) _ assms(2)]
  have "hints_ok me (\<lambda>xid. ph xid (now s')) (tup s)" by (rule hints_ok_later [OF good_hints [OF assms(1)] l])
  moreover have "failed (ph d (now s'))" if "updater me (tup s) = Some d" "failed (ph d (now s))" for d
    using later_stable(3) [OF l [OF updater_ids [OF that(1)]] that(2)] .
  ultimately show ?thesis using assms(1) unfolding good_def assms(3) by blast
qed

text \<open>A hint is set.\<close>

lemma good_hinted:
  assumes "good me W nxt ph s" "same_tuple (tup s) (tup s')" "now s' = now s" "hints_ok me (\<lambda>xid. ph xid (now s)) (tup s')"
  shows "good me W nxt ph s'"
  using assms unfolding good_def same_tuple_ids [OF assms(2)] by (simp add: same_tuple_updater [OF assms(2)])

lemma hinted_flags:
  assumes "hinted a k b"
  shows "n \<noteq> k \<Longrightarrow> flag b n = flag a n" "flag a n \<Longrightarrow> flag b n"
proof -
  have "b = a \<or> (\<forall>n. flag b n \<longleftrightarrow> flag a n \<or> n = k)" using assms unfolding hinted_def by fastforce
  then show "n \<noteq> k \<Longrightarrow> flag b n = flag a n" "flag a n \<Longrightarrow> flag b n" by (elim disjE; simp)+
qed

lemma good_set:
  assumes g: "good me W nxt ph s" and h: "hinted (tup s) k (tup s')" and n: "now s' = now s"
    and cases: "k = 8 \<and> \<not> flag (tup s) 9 \<and> stamped (ph (t_xmin (tup s)) (now s)) \<or> k = 9 \<and> \<not> flag (tup s) 8 \<and> failed (ph (t_xmin (tup s)) (now s)) \<or>
      k = 10 \<and> \<not> flag (tup s) 12 \<and> stamped (ph (t_xmax (tup s)) (now s)) \<or> k = 11 \<and> (\<forall>d. updater me (tup s) = Some d \<longrightarrow> failed (ph d (now s)))"
  shows "good me W nxt ph s' \<and> same_tuple (tup s) (tup s')"
proof -
  have "k \<in> {8, 9, 10, 11}" "k = 8 \<Longrightarrow> \<not> flag (tup s) 9" "k = 9 \<Longrightarrow> \<not> flag (tup s) 8" by (use cases in \<open>(elim disjE conjE; simp)+\<close>)
  then have same: "same_tuple (tup s) (tup s')" by (rule hinted_same [OF h])
  note u = same_tuple_updater [OF same]
  have keep: "flag (tup s') n = flag (tup s) n" if "n \<noteq> k" for n using hinted_flags(1) [OF h that] .
  note old = good_hints [OF g, unfolded hints_ok_def] and mono = hinted_flags(2) [OF h]
  from cases have "hints_ok me (\<lambda>xid. ph xid (now s)) (tup s')"
  proof (elim disjE conjE)
    assume "k = 8" "\<not> flag (tup s) 9" "stamped (ph (t_xmin (tup s)) (now s))"
    then show ?thesis using old keep [of 9] keep [of 10] keep [of 11] unfolding hints_ok_def u by simp
  next
    assume "k = 9" "\<not> flag (tup s) 8" "failed (ph (t_xmin (tup s)) (now s))"
    then show ?thesis using old keep [of 8] keep [of 10] keep [of 11] unfolding hints_ok_def u by simp
  next
    assume "k = 10" "\<not> flag (tup s) 12" "stamped (ph (t_xmax (tup s)) (now s))"
    then show ?thesis using old keep [of 8] keep [of 9] keep [of 11] unfolding hints_ok_def u by simp
  next
    assume k: "k = 11" and d: "\<forall>d. updater me (tup s) = Some d \<longrightarrow> failed (ph d (now s))"
    have f: "flag (tup s') 8 = flag (tup s) 8" "flag (tup s') 9 = flag (tup s) 9" "flag (tup s') 10 = flag (tup s) 10" using keep k by simp_all
    show ?thesis using old mono [of 11] d unfolding hints_ok_def u f by blast
  qed
  then show ?thesis using good_hinted [OF g same n] same by blast
qed

section \<open>Looking at a transaction\<close>

lemma look_progress_good:
  assumes "good me W nxt ph s" "xid \<in> tuple_ids me (tup s)"
  shows "look_progress W xid s = (active (ph xid (now s)), tick s) \<and> good me W nxt ph (tick s) \<and> now (tick s) = Suc (now s) \<and> tup (tick s) = tup s \<and>
    has_cur_xact_write (tick s) = has_cur_xact_write s"
  using history_shows [OF good_history [OF assms], of "now s"] good_wait [OF assms(1), of "tick s"]
  by (simp add: look_progress_def shows_phase_def tick_def)

text \<open>The commit log is asked about a transaction that was not in progress before: the answer is final.\<close>

lemma look_commit_good:
  assumes g: "good me W nxt ph s" and i: "xid \<in> tuple_ids me (tup s)" and a: "\<not> active (ph xid (now s))" and l: "look_commit me W xid s = (b, s')"
  shows "good me W nxt ph s'" "now s' = Suc (now s)" "tup s' = tup s" "b = stamped (ph xid (now s'))" "\<not> b \<Longrightarrow> failed (ph xid (now s'))"
    "\<not> b \<Longrightarrow> LatestFetchTransactionIdDidAbort me xid s'" "has_cur_xact_write s' = has_cur_xact_write s"
proof -
  note e = look_commit_eq [OF l]
  then show n: "now s' = Suc (now s)" "tup s' = tup s" "has_cur_xact_write s' = has_cur_xact_write s" by auto
  show "good me W nxt ph s'" by (rule good_wait [OF g]) (simp_all add: n)
  have sh: "shows_phase me (at W (now s)) xid (ph xid (now s))" by (rule history_shows [OF good_history [OF g i]])
  then have b: "b = logged (ph xid (now s))" using e by (simp add: shows_phase_def)
  have "later (nxt (now s)) (ph xid (now s)) (ph xid (now s'))" using good_later [OF g i, of "now s'"] n by simp
  then have p: "ph xid (now s') = ph xid (now s)" using later_stable(4) a by blast
  show "b = stamped (ph xid (now s'))" unfolding p using b phase_rules(1,4) a by blast
  show f: "failed (ph xid (now s'))" if "\<not> b" unfolding p using b phase_rules(2) a that by blast
  show "LatestFetchTransactionIdDidAbort me xid s'" if nb: "\<not> b"
  proof -
    obtain c s1 where d: "TransactionIdDidCommit me (at W (now s)) xid s = (c, s1)" by fastforce
    then have c: "c = b" "s' = tick s1" using l by (simp_all add: look_commit_def)
    have "ph xid (now s) = Aborted" using phase_rules(7) [OF a] f [OF nb] unfolding p by blast
    then have "LatestFetchTransactionIdDidAbort me xid s1"
      using latest_abort [of xid me "at W (now s)" s] sh d c nb by (simp add: shows_phase_def)
    then show ?thesis by (simp add: c LatestFetchTransactionIdDidAbort_def tick_def)
  qed
qed

lemma good_current:
  assumes "good me W nxt ph s" "xid \<in> tuple_ids me (tup s)" "TransactionIdIsCurrentTransactionId me xid"
  shows "ph xid t = Running"
  using good_history [OF assms(1,2)] assms(3) by (simp add: history_def)

lemma good_not_current:
  assumes "good me W nxt ph s" "xid \<in> tuple_ids me (tup s)" "failed (ph xid t) \<or> stamped (ph xid t)"
  shows "\<not> TransactionIdIsCurrentTransactionId me xid"
  using good_current [OF assms(1,2), of t] assms(3) by (auto simp: phase_defs)

lemma hint_good:
  assumes "good me W nxt ph s" "\<And>n. bit m n \<longleftrightarrow> n = k"
    "k = 8 \<and> \<not> flag (tup s) 9 \<and> stamped (ph (t_xmin (tup s)) (now s)) \<or> k = 9 \<and> \<not> flag (tup s) 8 \<and> failed (ph (t_xmin (tup s)) (now s)) \<or>
     k = 10 \<and> \<not> flag (tup s) 12 \<and> stamped (ph (t_xmax (tup s)) (now s)) \<or> k = 11 \<and> (\<forall>d. updater me (tup s) = Some d \<longrightarrow> failed (ph d (now s)))"
  shows "good me W nxt ph (SetHintBits me W m xid s)" "same_tuple (tup s) (tup (SetHintBits me W m xid s))" "now (SetHintBits me W m xid s) = now s"
    "has_cur_xact_write (SetHintBits me W m xid s) = has_cur_xact_write s"
proof -
  note h = SetHintBits_hinted [of m k s me W xid, OF assms(2)]
  show n: "now (SetHintBits me W m xid s) = now s" "has_cur_xact_write (SetHintBits me W m xid s) = has_cur_xact_write s" using h by blast+
  have "hinted (tup s) k (tup (SetHintBits me W m xid s))" using h by blast
  from good_set [OF assms(1) this n(1) assms(3)]
  show "good me W nxt ph (SetHintBits me W m xid s)" "same_tuple (tup s) (tup (SetHintBits me W m xid s))" by blast+
qed

text \<open>A transaction that is not in progress: the two looks at it and what they tell.\<close>

lemma look_finished:
  assumes g: "good me W nxt ph s" and i: "xid \<in> tuple_ids me (tup s)" and a: "\<not> active (ph xid (now s))"
  obtains b s2 where "look_progress W xid s = (False, tick s)" "look_commit me W xid (tick s) = (b, s2)" "good me W nxt ph s2" "now s2 = now s + 2" "tup s2 = tup s"
    "b = stamped (ph xid (now s2))" "\<not> active (ph xid (now s2))" "b \<or> failed (ph xid (now s2))" "b \<or> LatestFetchTransactionIdDidAbort me xid s2"
    "has_cur_xact_write s2 = has_cur_xact_write s"
proof -
  have p: "look_progress W xid s = (False, tick s)" "good me W nxt ph (tick s)" "now (tick s) = Suc (now s)" "tup (tick s) = tup s"
    "has_cur_xact_write (tick s) = has_cur_xact_write s" using look_progress_good [OF g i] a by auto
  have stay: "\<not> active (ph xid t)" if "now s \<le> t" for t using later_stable(7) [OF good_later [OF g i that]] a by blast
  obtain b s2 where l: "look_commit me W xid (tick s) = (b, s2)" by (cases "look_commit me W xid (tick s)")
  have it: "xid \<in> tuple_ids me (tup (tick s))" "\<not> active (ph xid (now (tick s)))" using i p(3,4) stay by simp_all
  note c = look_commit_good [OF p(2) it l]
  show thesis by (rule that [OF p(1) l c(1)]) (use c p(3-5) stay in auto)
qed

text \<open>The four ways of \<open>check_xmin\<close>.\<close>

lemma check_xmin_good:
  assumes g: "good me W nxt ph s"
  defines "xmin \<equiv> t_xmin (tup s)"
  obtains (dead) s' where "check_xmin me W own running dead cont s = (Inr dead, s')" "good me W nxt ph s'" "now s \<le> now s'" "same_tuple (tup s) (tup s')"
      "failed (ph xmin (now s'))" "\<not> flag (tup s) 8"
    | (own) "check_xmin me W own running dead cont s = own s" "TransactionIdIsCurrentTransactionId me xmin" "\<not> flag (tup s) 8"
    | (running) "check_xmin me W own running dead cont s = running (tick s)" "active (ph xmin (now s))" "\<not> TransactionIdIsCurrentTransactionId me xmin" "\<not> flag (tup s) 8"
        "good me W nxt ph (tick s)"
    | (cont) s' where "check_xmin me W own running dead cont s = cont s'" "good me W nxt ph s'" "now s \<le> now s'" "same_tuple (tup s) (tup s')"
        "flag (tup s) 8 \<and> flag (tup s) 9 \<or> stamped (ph xmin (now s'))" "flag (tup s) 8 \<or> \<not> active (ph xmin (now s'))" "has_cur_xact_write s' = has_cur_xact_write s"
proof (cases "flag (tup s) 8")
  case True
  have "stamped (ph xmin (now s))" if "\<not> flag (tup s) 9" using good_hints [OF g] True that by (simp add: hints_ok_def xmin_def)
  then show thesis using True g same_tuple_refl by (intro cont [of s]) (auto simp: check_xmin_def flags)
next
  case nc: False
  have i: "xmin \<in> tuple_ids me (tup s)" by (simp add: xmin_def xmin_ids)
  show thesis
  proof (cases "flag (tup s) 9")
    case True
    then have "failed (ph xmin (now s))" using good_hints [OF g] nc by (simp add: hints_ok_def xmin_def)
    then show thesis using nc True g same_tuple_refl by (intro dead [of s]) (auto simp: check_xmin_def flags)
  next
    case ni: False
    show thesis
    proof (cases "TransactionIdIsCurrentTransactionId me xmin")
      case True
      then show thesis using nc ni by (intro own) (auto simp: check_xmin_def flags xmin_def)
    next
      case other: False
      note p = look_progress_good [OF g i]
      show thesis
      proof (cases "active (ph xmin (now s))")
        case True
        then show thesis using p nc ni other by (intro running) (auto simp: check_xmin_def flags xmin_def)
      next
        case inactive: False
        obtain b s2 where l: "look_progress W xmin s = (False, tick s)" "look_commit me W xmin (tick s) = (b, s2)" and c: "good me W nxt ph s2" "now s2 = now s + 2"
          and t2: "tup s2 = tup s" and st: "b = stamped (ph xmin (now s2))" "\<not> active (ph xmin (now s2))" and f: "b \<or> failed (ph xmin (now s2))"
            "b \<or> LatestFetchTransactionIdDidAbort me xmin s2" and w: "has_cur_xact_write s2 = has_cur_xact_write s"
          by (rule look_finished [OF g i inactive]) blast
        show thesis
        proof (cases b)
          case True
          note h = hint_good [OF c(1) mask_bits(1), of xmin]
          have "check_xmin me W own running dead cont s = cont (SetHintBits me W HEAP_XMIN_COMMITTED xmin s2)"
            using nc ni other l True by (simp add: check_xmin_def flags xmin_def Let_def)
          then show thesis
            using h c(2) st w True ni nc by (intro cont [of "SetHintBits me W HEAP_XMIN_COMMITTED xmin s2"]) (auto simp: t2 xmin_def)
        next
          case False
          note h = hint_good [OF c(1) mask_bits(2), of InvalidTransactionId]
          have "check_xmin me W own running dead cont s = (Inr dead, SetHintBits me W HEAP_XMIN_INVALID InvalidTransactionId s2)"
            using nc ni other l False f by (simp add: check_xmin_def flags xmin_def Let_def)
          then show thesis
            using h f False c(2) ni nc by (intro dead [of "SetHintBits me W HEAP_XMIN_INVALID InvalidTransactionId s2"]) (auto simp: t2 xmin_def)
        qed
      qed
    qed
  qed
qed

text \<open>The three ways of \<open>check_xmax\<close>.\<close>

lemma check_xmax_good:
  assumes g: "good me W nxt ph s" and m: "\<not> flag (tup s) 12"
  defines "xmax \<equiv> t_xmax (tup s)"
  obtains (running) "check_xmax me W running live gone s = running (tick s)" "active (ph xmax (now s))" "good me W nxt ph (tick s)"
    | (live) s' where "check_xmax me W running live gone s = (Inr live, s')" "good me W nxt ph s'" "now s \<le> now s'" "same_tuple (tup s) (tup s')"
        "\<forall>d. updater me (tup s) = Some d \<longrightarrow> failed (ph d (now s'))"
    | (gone) s' where "check_xmax me W running live gone s = (Inr gone, s')" "good me W nxt ph s'" "now s \<le> now s'" "same_tuple (tup s) (tup s')"
        "updater me (tup s) = Some xmax" "stamped (ph xmax (now s'))"
proof -
  have i: "xmax \<in> tuple_ids me (tup s)" using xmax_ids [OF m] by (simp add: xmax_def)
  have u: "updater me (tup s) = (if HEAP_XMAX_IS_LOCKED_ONLY (tup s) then None else Some xmax)" using m by (simp add: updater_def infomask_flags xmax_def)
  note p = look_progress_good [OF g i]
  show thesis
  proof (cases "active (ph xmax (now s))")
    case True
    then show thesis using p by (intro running) (auto simp: check_xmax_def xmax_def)
  next
    case inactive: False
    obtain b s2 where l: "look_progress W xmax s = (False, tick s)" "look_commit me W xmax (tick s) = (b, s2)" and c: "good me W nxt ph s2" "now s2 = now s + 2"
      and t2: "tup s2 = tup s" and st: "b = stamped (ph xmax (now s2))" and f: "b \<or> failed (ph xmax (now s2))"
        "b \<or> LatestFetchTransactionIdDidAbort me xmax s2"
      by (rule look_finished [OF g i inactive]) blast
    note hi = hint_good [OF c(1) mask_bits(4), of InvalidTransactionId] and hc = hint_good [OF c(1) mask_bits(3), of xmax]
    consider "\<not> b" | "b" "HEAP_XMAX_IS_LOCKED_ONLY (tup s)" | "b" "\<not> HEAP_XMAX_IS_LOCKED_ONLY (tup s)" by blast
    then show thesis
    proof cases
      case 1
      have d: "\<forall>d. updater me (tup s) = Some d \<longrightarrow> failed (ph d (now s2))" using f(1) 1 u by auto
      have "check_xmax me W running live gone s = (Inr live, SetHintBits me W HEAP_XMAX_INVALID InvalidTransactionId s2)"
        using l 1 f(2) by (simp add: check_xmax_def xmax_def Let_def)
      then show thesis using hi d c(2) by (intro live [of "SetHintBits me W HEAP_XMAX_INVALID InvalidTransactionId s2"]) (auto simp: t2)
    next
      case 2
      have "check_xmax me W running live gone s = (Inr live, SetHintBits me W HEAP_XMAX_INVALID InvalidTransactionId s2)"
        using l 2 by (simp add: check_xmax_def xmax_def Let_def)
      then show thesis using hi 2 u c(2) by (intro live [of "SetHintBits me W HEAP_XMAX_INVALID InvalidTransactionId s2"]) (auto simp: t2)
    next
      case 3
      have "check_xmax me W running live gone s = (Inr gone, SetHintBits me W HEAP_XMAX_COMMITTED xmax s2)"
        using l 3 by (simp add: check_xmax_def xmax_def Let_def)
      then show thesis using hc st c(2) 3 u m by (intro gone [of "SetHintBits me W HEAP_XMAX_COMMITTED xmax s2"]) (auto simp: t2 xmax_def)
    qed
  qed
qed

section \<open>The current state of the database\<close>

text \<open>
  Which transactions count as committed at an instant. One that has its sequence number but is still in the array of running transactions may count or not: the array says
  that it runs, a hint bit that another session has set meanwhile that it has committed.
\<close>

definition counts :: "TransactionId set \<Rightarrow> (TransactionId \<Rightarrow> phase) \<Rightarrow> (TransactionId \<Rightarrow> bool) \<Rightarrow> bool" where
  "counts ids P C \<longleftrightarrow> (\<forall>xid \<in> ids. ((\<exists>c. P xid = Committed c) \<longrightarrow> C xid) \<and> (C xid \<longrightarrow> stamped (P xid)))"

text \<open>The situation in which these two disagree about one tuple: the same transaction has inserted and deleted it, and is about to leave the array.\<close>

definition commit_window :: "session \<Rightarrow> (TransactionId \<Rightarrow> phase) \<Rightarrow> HeapTupleData \<Rightarrow> bool" where
  "commit_window me P tuple \<longleftrightarrow> flag tuple 8 \<and> \<not> flag tuple 9 \<and> updater me tuple = Some (t_xmin tuple) \<and> (\<exists>c. P (t_xmin tuple) = Stamped c)"

definition frozen :: "HeapTupleData \<Rightarrow> bool" where
  "frozen tuple \<longleftrightarrow> flag tuple 8 \<and> flag tuple 9"

text \<open>The rules in the comments of the routines. \<open>cid\<close> is the current command.\<close>

definition inserted :: "HeapTupleData \<Rightarrow> (TransactionId \<Rightarrow> bool) \<Rightarrow> bool" where
  "inserted tuple C \<longleftrightarrow> frozen tuple \<or> C (t_xmin tuple)"

text \<open>The updater, if there is one, hides the tuple when it has committed, or is the own transaction and \<open>h\<close> holds.\<close>

definition xmax_rule :: "session \<Rightarrow> HeapTupleData \<Rightarrow> bool \<Rightarrow> (TransactionId \<Rightarrow> bool) \<Rightarrow> bool" where
  "xmax_rule me tuple h C \<longleftrightarrow> (\<forall>d. updater me tuple = Some d \<longrightarrow> \<not> (TransactionIdIsCurrentTransactionId me d \<and> h) \<and> \<not> C d)"

definition self_rule :: "session \<Rightarrow> HeapTupleData \<Rightarrow> (TransactionId \<Rightarrow> bool) \<Rightarrow> bool" where
  "self_rule me tuple C \<longleftrightarrow> (inserted tuple C \<or> TransactionIdIsCurrentTransactionId me (t_xmin tuple)) \<and> xmax_rule me tuple True C"

text \<open>For \<^verbatim>\<open>HeapTupleSatisfiesNow\<close> the own transaction counts up to the command before the current one.\<close>

definition now_rule :: "session \<Rightarrow> HeapTupleData \<Rightarrow> (TransactionId \<Rightarrow> bool) \<Rightarrow> bool" where
  "now_rule me tuple C \<longleftrightarrow>
     (inserted tuple C \<or> TransactionIdIsCurrentTransactionId me (t_xmin tuple) \<and> t_cmin tuple < GetCurrentCommandId me) \<and>
     xmax_rule me tuple (t_cmax tuple < GetCurrentCommandId me) C"

text \<open>
  The case in which the code departs from this rule: a tuple of the own transaction whose updater is the own transaction as a member of a multixact is hidden by an
  update of the current command as well.
\<close>

definition own_multixact :: "session \<Rightarrow> HeapTupleData \<Rightarrow> bool" where
  "own_multixact me tuple \<longleftrightarrow> TransactionIdIsCurrentTransactionId me (t_xmin tuple) \<and> infomask_bit tuple HEAP_XMAX_IS_MULTI \<and>
     (\<exists>d. updater me tuple = Some d \<and> TransactionIdIsCurrentTransactionId me d)"

text \<open>\<^verbatim>\<open>HeapTupleSatisfiesDirty\<close> shows what transactions in progress have inserted too; one that is about to abort may count as in progress or not.\<close>

definition dirty_rule :: "session \<Rightarrow> HeapTupleData \<Rightarrow> (TransactionId \<Rightarrow> phase) \<Rightarrow> (TransactionId \<Rightarrow> bool) \<Rightarrow> bool \<Rightarrow> bool" where
  "dirty_rule me tuple P C b \<longleftrightarrow>
     (if inserted tuple C \<or> TransactionIdIsCurrentTransactionId me (t_xmin tuple) then b = self_rule me tuple C
      else (b \<longrightarrow> active (P (t_xmin tuple))) \<and> (\<not> b \<longrightarrow> failed (P (t_xmin tuple))))"

lemma counts_stamped: "counts ids P (\<lambda>xid. stamped (P xid))"
  by (auto simp: counts_def phase_defs)

lemma counts_committed: "counts ids P (\<lambda>xid. \<exists>c. P xid = Committed c)"
  by (auto simp: counts_def phase_defs)

lemma counts_insert: "stamped (P a) \<Longrightarrow> counts ids P (\<lambda>xid. xid = a \<or> (\<exists>c. P xid = Committed c))"
  by (auto simp: counts_def phase_defs)

text \<open>The common form of the second half of the three routines.\<close>

definition test_xmax :: "session \<Rightarrow> world \<Rightarrow> bool \<Rightarrow> (vis_state \<Rightarrow> bool result \<times> vis_state) \<Rightarrow> (vis_state \<Rightarrow> bool result \<times> vis_state) \<Rightarrow>
    (TransactionId \<Rightarrow> vis_state \<Rightarrow> bool result \<times> vis_state) \<Rightarrow> vis_state \<Rightarrow> bool result \<times> vis_state" where
  "test_xmax me W valid own_multi own running s =
     (let tuple = tup s; d = MultiXactIdGetUpdateXid me (t_xmax tuple)
      in if infomask_bit tuple HEAP_XMAX_INVALID then (Inr True, s)
         else if infomask_bit tuple HEAP_XMAX_COMMITTED then (Inr (HEAP_XMAX_IS_LOCKED_ONLY tuple), s)
         else if infomask_bit tuple HEAP_XMAX_IS_MULTI
         then if HEAP_XMAX_IS_LOCKED_ONLY tuple then (Inr True, s)
              else if valid \<and> \<not> TransactionIdIsValid d then (Inr True, s)
              else if TransactionIdIsCurrentTransactionId me d then own_multi s
              else case look_progress W d s of (progress, s) \<Rightarrow>
                if progress then running d s
                else case look_commit me W d s of (commit, s) \<Rightarrow> (Inr (\<not> commit), s)
         else if TransactionIdIsCurrentTransactionId me (t_xmax tuple) then own s
         else check_xmax me W (running (t_xmax tuple)) True False s)"

lemma self_test: "self_xmax me W s = test_xmax me W False (\<lambda>s. (Inr False, s)) (\<lambda>s. (Inr (HEAP_XMAX_IS_LOCKED_ONLY (tup s)), s)) (\<lambda>d s. (Inr True, s)) s"
  by (simp add: self_xmax_def test_xmax_def Let_def)

lemma dirty_test: "dirty_xmax_check me W s =
  test_xmax me W False (\<lambda>s. (Inr False, s)) (\<lambda>s. (Inr (HEAP_XMAX_IS_LOCKED_ONLY (tup s)), s)) (\<lambda>d s. (Inr True, s\<lparr>dirty_xmax := d\<rparr>)) s"
  by (simp add: dirty_xmax_check_def test_xmax_def Let_def)

lemma now_test: "now_xmax me W s =
  test_xmax me W True (\<lambda>s. (Inr (t_cmax (tup s) \<ge> GetCurrentCommandId me), s))
    (\<lambda>s. (Inr (HEAP_XMAX_IS_LOCKED_ONLY (tup s) \<or> t_cmax (tup s) \<ge> GetCurrentCommandId me), note_write (t_cmax (tup s) < GetCurrentCommandId me) s))
    (\<lambda>d s. (Inr True, s)) s"
  by (simp add: now_xmax_def test_xmax_def Let_def)

text \<open>Its outcomes: no updater that counts, the own transaction, one in progress, one that has committed.\<close>

lemma test_xmax_good:
  assumes g: "good me W nxt ph s" and v: "valid \<Longrightarrow> failed (ph InvalidTransactionId (now s))"
  obtains (live) s' where "test_xmax me W valid own_multi own running s = (Inr True, s')" "good me W nxt ph s'" "now s \<le> now s'" "same_tuple (tup s) (tup s')"
      "\<forall>d. updater me (tup s) = Some d \<longrightarrow> failed (ph d (now s'))"
    | (gone) s' d where "test_xmax me W valid own_multi own running s = (Inr False, s')" "good me W nxt ph s'" "now s \<le> now s'" "same_tuple (tup s) (tup s')"
        "updater me (tup s) = Some d" "stamped (ph d (now s'))"
    | (own_multi) d where "test_xmax me W valid own_multi own running s = own_multi s" "updater me (tup s) = Some d" "TransactionIdIsCurrentTransactionId me d"
    | (own) "test_xmax me W valid own_multi own running s = own s" "TransactionIdIsCurrentTransactionId me (t_xmax (tup s))"
        "updater me (tup s) = (if HEAP_XMAX_IS_LOCKED_ONLY (tup s) then None else Some (t_xmax (tup s)))" "\<not> flag (tup s) 11" "\<not> flag (tup s) 10"
    | (running) d where "test_xmax me W valid own_multi own running s = running d (tick s)" "updater me (tup s) = Some d \<or> updater me (tup s) = None" "active (ph d (now s))"
        "\<not> TransactionIdIsCurrentTransactionId me d" "good me W nxt ph (tick s)" "\<not> flag (tup s) 10"
proof -
  note h = good_hints [OF g, unfolded hints_ok_def]
  consider (inv) "flag (tup s) 11" | (com) "\<not> flag (tup s) 11" "flag (tup s) 10" | (mul) "\<not> flag (tup s) 11" "\<not> flag (tup s) 10" "flag (tup s) 12"
    | (one) "\<not> flag (tup s) 11" "\<not> flag (tup s) 10" "\<not> flag (tup s) 12" by blast
  then show thesis
  proof cases
    case inv
    then show thesis using h g same_tuple_refl by (intro live [of s]) (auto simp: test_xmax_def infomask_flags)
  next
    case com
    show thesis
    proof (cases "HEAP_XMAX_IS_LOCKED_ONLY (tup s)")
      case True
      then show thesis using com g same_tuple_refl by (intro live [of s]) (auto simp: test_xmax_def infomask_flags updater_def)
    next
      case False
      then show thesis using h com g same_tuple_refl by (intro gone [of s "t_xmax (tup s)"]) (auto simp: test_xmax_def infomask_flags updater_def)
    qed
  next
    case mul
    let ?d = "MultiXactIdGetUpdateXid me (t_xmax (tup s))"
    show thesis
    proof (cases "HEAP_XMAX_IS_LOCKED_ONLY (tup s)")
      case True
      then show thesis using mul g same_tuple_refl by (intro live [of s]) (auto simp: test_xmax_def infomask_flags updater_def)
    next
      case nl: False
      then have u: "updater me (tup s) = Some ?d" using mul by (simp add: updater_def infomask_flags)
      note i = updater_ids [OF u]
      consider "valid" "\<not> TransactionIdIsValid ?d" | "\<not> (valid \<and> \<not> TransactionIdIsValid ?d)" "TransactionIdIsCurrentTransactionId me ?d"
        | "\<not> (valid \<and> \<not> TransactionIdIsValid ?d)" "\<not> TransactionIdIsCurrentTransactionId me ?d" "active (ph ?d (now s))"
        | "\<not> (valid \<and> \<not> TransactionIdIsValid ?d)" "\<not> TransactionIdIsCurrentTransactionId me ?d" "\<not> active (ph ?d (now s))" by blast
      then show thesis
      proof cases
        case 1
        then have "failed (ph ?d (now s))" using v by (simp add: TransactionIdIsValid_def)
        then show thesis using mul nl 1 g u same_tuple_refl by (intro live [of s]) (auto simp: test_xmax_def infomask_flags)
      next
        case 2
        then show thesis using mul nl u by (intro own_multi [of ?d]) (auto simp: test_xmax_def infomask_flags)
      next
        case 3
        then show thesis using mul nl u look_progress_good [OF g i] by (intro running [of ?d]) (auto simp: test_xmax_def infomask_flags)
      next
        case 4
        obtain b s2 where l: "look_progress W ?d s = (False, tick s)" "look_commit me W ?d (tick s) = (b, s2)" and c: "good me W nxt ph s2" "now s2 = now s + 2" "tup s2 = tup s"
          and st: "b = stamped (ph ?d (now s2))" "b \<or> failed (ph ?d (now s2))"
          by (rule look_finished [OF g i 4(3)]) blast
        have r: "test_xmax me W valid own_multi own running s = (Inr (\<not> b), s2)" using mul nl 4 l by (auto simp: test_xmax_def infomask_flags Let_def)
        show thesis
        proof (cases b)
          case True
          then show thesis using r c st u same_tuple_refl by (intro gone [of s2 ?d]) auto
        next
          case False
          then show thesis using r c st u same_tuple_refl by (intro live [of s2]) auto
        qed
      qed
    qed
  next
    case one
    have u: "updater me (tup s) = (if HEAP_XMAX_IS_LOCKED_ONLY (tup s) then None else Some (t_xmax (tup s)))" using one by (simp add: updater_def infomask_flags)
    show thesis
    proof (cases "TransactionIdIsCurrentTransactionId me (t_xmax (tup s))")
      case True
      then show thesis using one u by (intro own) (auto simp: test_xmax_def infomask_flags)
    next
      case False
      then have r: "test_xmax me W valid own_multi own running s = check_xmax me W (running (t_xmax (tup s))) True False s"
        using one by (simp add: test_xmax_def infomask_flags Let_def)
      show thesis
      proof (rule check_xmax_good [OF g one(3), of "running (t_xmax (tup s))" True False])
        assume "check_xmax me W (running (t_xmax (tup s))) True False s = running (t_xmax (tup s)) (tick s)" "active (ph (t_xmax (tup s)) (now s))" "good me W nxt ph (tick s)"
        then show thesis using r u False one by (intro running [of "t_xmax (tup s)"]) auto
      qed (use r in \<open>auto intro: live gone\<close>)
    qed
  qed
qed

text \<open>
  An answer that is right: the routine returns, changes nothing but hint bits, which stay right, and its result is that of the rule for the state of the database at an
  instant during the call.
\<close>

definition right_answer :: "session \<Rightarrow> world \<Rightarrow> (nat \<Rightarrow> CommitSeqNo) \<Rightarrow> (TransactionId \<Rightarrow> nat \<Rightarrow> phase) \<Rightarrow>
    ((TransactionId \<Rightarrow> phase) \<Rightarrow> (TransactionId \<Rightarrow> bool) \<Rightarrow> bool \<Rightarrow> bool) \<Rightarrow> vis_state \<Rightarrow> bool result \<times> vis_state \<Rightarrow> bool" where
  "right_answer me W nxt ph rule s r \<longleftrightarrow>
     (\<exists>b s' k C. r = (Inr b, s') \<and> good me W nxt ph s' \<and> same_tuple (tup s) (tup s') \<and> now s \<le> k \<and> k \<le> now s' \<and>
        counts (tuple_ids me (tup s)) (\<lambda>xid. ph xid k) C \<and> rule (\<lambda>xid. ph xid k) C b)"

lemma xmax_rule_failed:
  assumes g: "good me W nxt ph s" and f: "\<forall>d. updater me (tup s) = Some d \<longrightarrow> failed (ph d k)" and c: "counts (tuple_ids me (tup s)) (\<lambda>xid. ph xid k) C"
  shows "xmax_rule me (tup s) h C"
proof -
  have "\<not> TransactionIdIsCurrentTransactionId me d \<and> \<not> C d" if u: "updater me (tup s) = Some d" for d
    using good_not_current [OF g updater_ids [OF u], of k] f u c updater_ids [OF u] phase_rules(5) [of "ph d k"] by (auto simp: counts_def)
  then show ?thesis by (simp add: xmax_rule_def)
qed

lemma test_xmax_right:
  assumes g: "good me W nxt ph s" and v: "valid \<Longrightarrow> failed (ph InvalidTransactionId (now s))"
    and c: "frozen (tup s) \<or> stamped (ph (t_xmin (tup s)) (now s))"
    and w: "frozen (tup s) \<or> updater me (tup s) \<noteq> Some (t_xmin (tup s)) \<or> \<not> active (ph (t_xmin (tup s)) (now s))"
    and om: "own_multi s = (Inr (\<not> h), s)"
    and ow: "\<exists>s1. own s = (Inr (HEAP_XMAX_IS_LOCKED_ONLY (tup s) \<or> \<not> h), s1) \<and> now s1 = now s \<and> tup s1 = tup s"
    and r: "\<And>d u. \<exists>s1. running d u = (Inr True, s1) \<and> now s1 = now u \<and> tup s1 = tup u"
  shows "right_answer me W nxt ph (\<lambda>P C b. inserted (tup s) C \<and> b = xmax_rule me (tup s) h C) s (test_xmax me W valid own_multi own running s)"
proof -
  let ?x = "t_xmin (tup s)" and ?S = "\<lambda>k xid. stamped (ph xid k)"
  have ins: "inserted (tup s) (?S k)" if "now s \<le> k" for k
    using c later_stable(1) [OF good_later [OF g xmin_ids that]] by (auto simp: inserted_def)
  show ?thesis
  proof (rule test_xmax_good [where valid = valid and own_multi = own_multi and own = own and running = running, OF g v])
    show "valid" if "valid" by (rule that)
  next
    fix s' assume a: "test_xmax me W valid own_multi own running s = (Inr True, s')" "good me W nxt ph s'" "now s \<le> now s'" "same_tuple (tup s) (tup s')"
      "\<forall>d. updater me (tup s) = Some d \<longrightarrow> failed (ph d (now s'))"
    show ?thesis unfolding right_answer_def
      using a ins xmax_rule_failed [OF g a(5) counts_stamped] counts_stamped
      by (intro exI [of _ True] exI [of _ s'] exI [of _ "now s'"] exI [of _ "?S (now s')"]) blast
  next
    fix s' d assume a: "test_xmax me W valid own_multi own running s = (Inr False, s')" "good me W nxt ph s'" "now s \<le> now s'" "same_tuple (tup s) (tup s')"
      "updater me (tup s) = Some d" "stamped (ph d (now s'))"
    then show ?thesis unfolding right_answer_def
      using ins counts_stamped by (intro exI [of _ False] exI [of _ s'] exI [of _ "now s'"] exI [of _ "?S (now s')"]) (auto simp: xmax_rule_def)
  next
    fix d assume a: "test_xmax me W valid own_multi own running s = own_multi s" "updater me (tup s) = Some d" "TransactionIdIsCurrentTransactionId me d"
    then have "\<not> stamped (ph d (now s))" using good_not_current [OF g updater_ids] by blast
    then show ?thesis unfolding right_answer_def
      using a om g ins [of "now s"] counts_stamped same_tuple_refl by (intro exI [of _ "\<not> h"] exI [of _ s] exI [of _ "now s"] exI [of _ "?S (now s)"]) (auto simp: xmax_rule_def)
  next
    assume a: "test_xmax me W valid own_multi own running s = own s" "TransactionIdIsCurrentTransactionId me (t_xmax (tup s))"
      "updater me (tup s) = (if HEAP_XMAX_IS_LOCKED_ONLY (tup s) then None else Some (t_xmax (tup s)))" "\<not> flag (tup s) 11" "\<not> flag (tup s) 10"
    obtain s1 where s1: "own s = (Inr (HEAP_XMAX_IS_LOCKED_ONLY (tup s) \<or> \<not> h), s1)" "now s1 = now s" "tup s1 = tup s" using ow by blast
    have "\<not> stamped (ph d (now s))" if "updater me (tup s) = Some d" for d
      using good_not_current [OF g updater_ids [OF that], of "now s"] a that by (auto split: if_splits)
    then have "(HEAP_XMAX_IS_LOCKED_ONLY (tup s) \<or> \<not> h) = xmax_rule me (tup s) h (?S (now s))" using a(2,3) by (auto simp: xmax_rule_def)
    moreover have "good me W nxt ph s1" using good_wait [OF g] s1 by simp
    ultimately show ?thesis unfolding right_answer_def
      using a(1) s1 ins [of "now s"] counts_stamped same_tuple_refl
      by (intro exI [of _ "HEAP_XMAX_IS_LOCKED_ONLY (tup s) \<or> \<not> h"] exI [of _ s1] exI [of _ "now s"] exI [of _ "?S (now s)"]) auto
  next
    fix d assume a: "test_xmax me W valid own_multi own running s = running d (tick s)" "updater me (tup s) = Some d \<or> updater me (tup s) = None" "active (ph d (now s))"
      "\<not> TransactionIdIsCurrentTransactionId me d" "good me W nxt ph (tick s)" "\<not> flag (tup s) 10"
    obtain s1 where s1: "running d (tick s) = (Inr True, s1)" "now s1 = Suc (now s)" "tup s1 = tup s" using r [of d "tick s"] by (auto simp: tick_def)
    let ?C = "\<lambda>xid. \<not> frozen (tup s) \<and> xid = ?x \<or> (\<exists>c. ph xid (now s) = Committed c)"
    have "counts (tuple_ids me (tup s)) (\<lambda>xid. ph xid (now s)) ?C" using c by (auto simp: counts_def phase_defs)
    moreover have "inserted (tup s) ?C" by (auto simp: inserted_def)
    moreover have "xmax_rule me (tup s) h ?C" using a(2,3,4) w by (auto simp: xmax_rule_def active_def)
    moreover have "good me W nxt ph s1" using good_wait [OF g] s1 by simp
    ultimately show ?thesis unfolding right_answer_def
      using a(1) s1 same_tuple_refl by (intro exI [of _ True] exI [of _ s1] exI [of _ "now s"] exI [of _ ?C]) auto
  qed
qed

lemma same_tuple_rules:
  assumes "same_tuple a b"
  shows "inserted b C = inserted a C" "xmax_rule me b h C = xmax_rule me a h C" "frozen b = frozen a"
proof -
  show f: "frozen b = frozen a" using same_tuple_updater(8) [OF assms] by (simp add: frozen_def)
  show "inserted b C = inserted a C" "xmax_rule me b h C = xmax_rule me a h C"
    by (simp_all add: inserted_def xmax_rule_def f same_tuple_updater [OF assms])
qed

lemma right_answerI:
  assumes "r = (Inr b, s')" "good me W nxt ph s'" "same_tuple (tup s) (tup s')" "now s \<le> k" "k \<le> now s'" "counts (tuple_ids me (tup s)) (\<lambda>xid. ph xid k) C"
    "rule (\<lambda>xid. ph xid k) C b"
  shows "right_answer me W nxt ph rule s r"
  using assms unfolding right_answer_def by blast

text \<open>An answer about a later state of the call is one about the call.\<close>

lemma right_answer_later:
  assumes "right_answer me W nxt ph rule' s1 r" "same_tuple (tup s) (tup s1)" "now s \<le> now s1" "\<And>P C b. rule' P C b \<Longrightarrow> rule P C b"
  shows "right_answer me W nxt ph rule s r"
proof -
  obtain b s' k C where r: "r = (Inr b, s')" "good me W nxt ph s'" "same_tuple (tup s1) (tup s')" "now s1 \<le> k" "k \<le> now s'"
    "counts (tuple_ids me (tup s1)) (\<lambda>xid. ph xid k) C" "rule' (\<lambda>xid. ph xid k) C b" using assms(1) unfolding right_answer_def by blast
  show ?thesis unfolding right_answer_def
    using r assms(3) same_tuple_trans [OF assms(2) r(3)] same_tuple_ids [OF assms(2), of me] assms(4) [OF r(7)]
    by (intro exI [of _ b] exI [of _ s'] exI [of _ k] exI [of _ C]) auto
qed

lemma counts_not_failed: "counts ids P C \<Longrightarrow> xid \<in> ids \<Longrightarrow> failed (P xid) \<Longrightarrow> \<not> C xid"
  using phase_rules(5) by (auto simp: counts_def)

text \<open>The whole routines, from their parts.\<close>

lemma check_right:
  assumes g: "good me W nxt ph s" and win: "\<not> commit_window me (\<lambda>xid. ph xid (now s)) (tup s)"
    and own: "TransactionIdIsCurrentTransactionId me (t_xmin (tup s)) \<Longrightarrow> \<not> flag (tup s) 8 \<Longrightarrow> right_answer me W nxt ph rule s (own s)"
    and dead: "\<And>P C. failed (P (t_xmin (tup s))) \<Longrightarrow> \<not> inserted (tup s) C \<Longrightarrow> \<not> TransactionIdIsCurrentTransactionId me (t_xmin (tup s)) \<Longrightarrow> rule P C dead"
    and run: "\<And>P C. active (P (t_xmin (tup s))) \<Longrightarrow> \<not> inserted (tup s) C \<Longrightarrow> \<not> TransactionIdIsCurrentTransactionId me (t_xmin (tup s)) \<Longrightarrow> rule P C rb"
    and running: "\<exists>s1. running (tick s) = (Inr rb, s1) \<and> now s1 = now (tick s) \<and> tup s1 = tup (tick s)"
    and cont: "\<And>s1. good me W nxt ph s1 \<Longrightarrow> now s \<le> now s1 \<Longrightarrow> same_tuple (tup s) (tup s1) \<Longrightarrow> frozen (tup s1) \<or> stamped (ph (t_xmin (tup s1)) (now s1)) \<Longrightarrow>
        frozen (tup s1) \<or> updater me (tup s1) \<noteq> Some (t_xmin (tup s1)) \<or> \<not> active (ph (t_xmin (tup s1)) (now s1)) \<Longrightarrow> right_answer me W nxt ph rule s1 (cont s1)"
  shows "right_answer me W nxt ph rule s (check_xmin me W own running dead cont s)"
proof -
  let ?x = "t_xmin (tup s)"
  note i = xmin_ids [of "tup s" me]
  show ?thesis
  proof (rule check_xmin_good [where own = own and running = running and dead = dead and cont = cont, OF g])
    fix s' assume a: "check_xmin me W own running dead cont s = (Inr dead, s')" "good me W nxt ph s'" "now s \<le> now s'" "same_tuple (tup s) (tup s')"
      "failed (ph ?x (now s'))" "\<not> flag (tup s) 8"
    have "\<not> TransactionIdIsCurrentTransactionId me ?x" using good_not_current [OF g i] a(5) by blast
    then have "rule (\<lambda>xid. ph xid (now s')) (\<lambda>xid. stamped (ph xid (now s'))) dead"
      using a phase_rules(5) by (intro dead) (auto simp: inserted_def frozen_def)
    then show ?thesis by (rule right_answerI [OF a(1,2,4,3) order_refl counts_stamped])
  next
    assume "check_xmin me W own running dead cont s = own s" "TransactionIdIsCurrentTransactionId me ?x" "\<not> flag (tup s) 8"
    then show ?thesis using own by simp
  next
    assume a: "check_xmin me W own running dead cont s = running (tick s)" "active (ph ?x (now s))" "\<not> TransactionIdIsCurrentTransactionId me ?x" "\<not> flag (tup s) 8"
      "good me W nxt ph (tick s)"
    obtain s1 where s1: "running (tick s) = (Inr rb, s1)" "now s1 = Suc (now s)" "tup s1 = tup s" using running by (auto simp: tick_def)
    have g1: "good me W nxt ph s1" using good_wait [OF g] s1 by simp
    have "rule (\<lambda>xid. ph xid (now s)) (\<lambda>xid. \<exists>c. ph xid (now s) = Committed c) rb"
      using a by (intro run) (auto simp: inserted_def frozen_def active_def)
    then show ?thesis using a(1) s1 g1 same_tuple_refl counts_committed by (intro right_answerI [of _ rb s1 _ _ _ _ _ "now s"]) auto
  next
    fix s1 assume a: "check_xmin me W own running dead cont s = cont s1" "good me W nxt ph s1" "now s \<le> now s1" "same_tuple (tup s) (tup s1)"
        "flag (tup s) 8 \<and> flag (tup s) 9 \<or> stamped (ph ?x (now s1))" "flag (tup s) 8 \<or> \<not> active (ph ?x (now s1))" "has_cur_xact_write s1 = has_cur_xact_write s"
    note f = same_tuple_rules(3) [OF a(4)] and u = same_tuple_updater [OF a(4)]
    have "\<not> active (ph ?x (now s1))" if nf: "\<not> frozen (tup s)" and d: "updater me (tup s) = Some ?x"
    proof (rule ccontr)
      assume act: "\<not> \<not> active (ph ?x (now s1))"
      then have f8: "flag (tup s) 8" "\<not> flag (tup s) 9" using a(6) nf by (auto simp: frozen_def)
      then have "stamped (ph ?x (now s))" using good_hints [OF g] by (simp add: hints_ok_def)
      moreover have "active (ph ?x (now s))" using later_stable(7) [OF good_later [OF g i a(3)]] act by blast
      ultimately have "\<exists>c. ph ?x (now s) = Stamped c" by (cases "ph ?x (now s)") (auto simp: phase_defs)
      then show False using win f8 d by (simp add: commit_window_def)
    qed
    then have "right_answer me W nxt ph rule s1 (cont s1)" using a f u by (intro cont) (auto simp: frozen_def)
    then show ?thesis using right_answer_later [OF _ a(4,3)] a(1) by simp
  qed
qed
lemma own_deleter_failed:
  assumes "good me W nxt ph s" "TransactionIdIsCurrentTransactionId me (t_xmin (tup s))" "updater me (tup s) = Some d" "\<not> TransactionIdIsCurrentTransactionId me d"
  shows "failed (ph d (now s))"
  using assms by (simp add: good_def)

text \<open>The three answers for a tuple of the own transaction have this form.\<close>

lemma own_right:
  assumes g: "good me W nxt ph s" and cur: "TransactionIdIsCurrentTransactionId me (t_xmin (tup s))"
    and s1: "r = (Inr b, s1)" "now s1 = now s" and t1: "tup s1 = tup s \<or> tup s1 = tup (SetHintBits me W HEAP_XMAX_INVALID InvalidTransactionId s) \<and>
      (\<forall>d. updater me (tup s) = Some d \<longrightarrow> \<not> TransactionIdIsCurrentTransactionId me d)"
    and b: "rule (\<lambda>xid. ph xid (now s)) (\<lambda>xid. \<exists>c. ph xid (now s) = Committed c) b"
  shows "right_answer me W nxt ph rule s r"
proof -
  have "good me W nxt ph s1 \<and> same_tuple (tup s) (tup s1)"
    using t1
  proof (elim disjE conjE)
    assume "tup s1 = tup s"
    then show ?thesis using good_wait [OF g] s1(2) same_tuple_refl by simp
  next
    assume t: "tup s1 = tup (SetHintBits me W HEAP_XMAX_INVALID InvalidTransactionId s)" "\<forall>d. updater me (tup s) = Some d \<longrightarrow> \<not> TransactionIdIsCurrentTransactionId me d"
    then have "\<forall>d. updater me (tup s) = Some d \<longrightarrow> failed (ph d (now s))" using own_deleter_failed [OF g cur] by blast
    note h = hint_good [OF g mask_bits(4), of InvalidTransactionId]
    then show ?thesis using good_wait [of me W nxt ph "SetHintBits me W HEAP_XMAX_INVALID InvalidTransactionId s" s1] t
        s1(2) \<open>\<forall>d. updater me (tup s) = Some d \<longrightarrow> failed (ph d (now s))\<close> by simp
  qed
  then show ?thesis using s1 b counts_committed by (intro right_answerI [of r b s1 _ _ _ _ _ "now s"]) auto
qed

lemma own_rule:
  assumes g: "good me W nxt ph s" and cur: "TransactionIdIsCurrentTransactionId me (t_xmin (tup s))"
  shows "xmax_rule me (tup s) h (\<lambda>xid. \<exists>c. ph xid (now s) = Committed c) = (\<forall>d. updater me (tup s) = Some d \<longrightarrow> \<not> (TransactionIdIsCurrentTransactionId me d \<and> h))"
proof -
  have "\<nexists>c. ph d (now s) = Committed c" if "updater me (tup s) = Some d" for d
  proof (cases "TransactionIdIsCurrentTransactionId me d")
    case True
    then show ?thesis using good_current [OF g updater_ids [OF that] True, of "now s"] by simp
  next
    case False
    then show ?thesis using own_deleter_failed [OF g cur that] by (auto simp: failed_def)
  qed
  then show ?thesis by (auto simp: xmax_rule_def)
qed

lemma invalid_xmax:
  assumes g: "good me W nxt ph s" and f: "flag (tup s) 11" and u: "updater me (tup s) = Some d"
  shows "\<not> TransactionIdIsCurrentTransactionId me d"
  using good_hints [OF g] f u good_not_current [OF g updater_ids [OF u], of "now s"] by (simp add: hints_ok_def)

lemma DealCurrent_cases:
  assumes g: "good me W nxt ph s"
  shows "\<exists>b s1. DealCurrentTansactionNotCommited me W s = (Inr b, s1) \<and> now s1 = now s \<and>
    (tup s1 = tup s \<or> tup s1 = tup (SetHintBits me W HEAP_XMAX_INVALID InvalidTransactionId s) \<and> (\<forall>d. updater me (tup s) = Some d \<longrightarrow> \<not> TransactionIdIsCurrentTransactionId me d)) \<and>
    b = (\<forall>d. updater me (tup s) = Some d \<longrightarrow> \<not> TransactionIdIsCurrentTransactionId me d)"
proof -
  note i = invalid_xmax [OF g] and n = hint_xmax_invalid [of s me W InvalidTransactionId]
  consider "flag (tup s) 11" | "\<not> flag (tup s) 11" "HEAP_XMAX_IS_LOCKED_ONLY (tup s)" | "\<not> flag (tup s) 11" "\<not> HEAP_XMAX_IS_LOCKED_ONLY (tup s)" by blast
  then show ?thesis
  proof cases
    case 1
    then show ?thesis using i by (auto simp: DealCurrentTansactionNotCommited_def infomask_flags)
  next
    case 2
    then show ?thesis by (auto simp: DealCurrentTansactionNotCommited_def infomask_flags updater_def)
  next
    case 3
    then show ?thesis using n by (auto simp: DealCurrentTansactionNotCommited_def infomask_flags updater_def Let_def)
  qed
qed

lemma deal_right:
  assumes g: "good me W nxt ph s" and cur: "TransactionIdIsCurrentTransactionId me (t_xmin (tup s))"
    and r: "\<And>P C. rule P C (self_rule me (tup s) C)"
  shows "right_answer me W nxt ph rule s (DealCurrentTansactionNotCommited me W s)"
proof -
  let ?C = "\<lambda>xid. \<exists>c. ph xid (now s) = Committed c"
  obtain b s1 where d: "DealCurrentTansactionNotCommited me W s = (Inr b, s1)" "now s1 = now s"
    "tup s1 = tup s \<or> tup s1 = tup (SetHintBits me W HEAP_XMAX_INVALID InvalidTransactionId s) \<and> (\<forall>d. updater me (tup s) = Some d \<longrightarrow> \<not> TransactionIdIsCurrentTransactionId me d)"
    "b = (\<forall>d. updater me (tup s) = Some d \<longrightarrow> \<not> TransactionIdIsCurrentTransactionId me d)"
    using DealCurrent_cases [OF g] by blast
  have "b = self_rule me (tup s) ?C" unfolding self_rule_def own_rule [OF g cur] using cur d(4) by simp
  then show ?thesis using own_right [OF g cur d(1,2,3)] r by simp
qed

lemma Self_right:
  assumes g: "good me W nxt ph s" and win: "\<not> commit_window me (\<lambda>xid. ph xid (now s)) (tup s)"
  shows "right_answer me W nxt ph (\<lambda>P C b. b = self_rule me (tup s) C) s (HeapTupleSatisfiesSelf me W s)"
  unfolding HeapTupleSatisfiesSelf_def
proof (rule check_right [OF g win, where rb = False])
  fix s1 assume a: "good me W nxt ph s1" "same_tuple (tup s) (tup s1)" "frozen (tup s1) \<or> stamped (ph (t_xmin (tup s1)) (now s1))"
    "frozen (tup s1) \<or> updater me (tup s1) \<noteq> Some (t_xmin (tup s1)) \<or> \<not> active (ph (t_xmin (tup s1)) (now s1))"
  show "right_answer me W nxt ph (\<lambda>P C b. b = self_rule me (tup s) C) s1 (self_xmax me W s1)"
    unfolding self_test
    by (rule right_answer_later [OF test_xmax_right [OF a(1) _ a(3,4), where h = True] same_tuple_refl order_refl])
      (auto simp: self_rule_def same_tuple_rules [OF a(2)])
qed (auto simp: self_rule_def tick_def intro: deal_right [OF g])

lemma Dirty_right:
  assumes g: "good me W nxt ph s" and win: "\<not> commit_window me (\<lambda>xid. ph xid (now s)) (tup s)"
  shows "right_answer me W nxt ph (dirty_rule me (tup s)) s (HeapTupleSatisfiesDirty me W s)"
proof -
  let ?s = "s\<lparr>dirty_xmin := InvalidTransactionId, dirty_xmax := InvalidTransactionId\<rparr>"
  have gs: "good me W nxt ph ?s" by (rule good_wait [OF g]) simp_all
  have "right_answer me W nxt ph (dirty_rule me (tup s)) ?s (HeapTupleSatisfiesDirty me W s)"
    unfolding HeapTupleSatisfiesDirty_def
  proof (rule check_right [OF gs, where rb = True])
    fix s1 assume a: "good me W nxt ph s1" "same_tuple (tup ?s) (tup s1)" "frozen (tup s1) \<or> stamped (ph (t_xmin (tup s1)) (now s1))"
      "frozen (tup s1) \<or> updater me (tup s1) \<noteq> Some (t_xmin (tup s1)) \<or> \<not> active (ph (t_xmin (tup s1)) (now s1))"
    then have st: "same_tuple (tup s) (tup s1)" by simp
    show "right_answer me W nxt ph (dirty_rule me (tup s)) s1 (dirty_xmax_check me W s1)"
      unfolding dirty_test
      by (rule right_answer_later [OF test_xmax_right [OF a(1) _ a(3,4), where h = True] same_tuple_refl order_refl])
        (auto simp: self_rule_def dirty_rule_def same_tuple_rules [OF st])
  qed (use win in \<open>auto simp: self_rule_def dirty_rule_def tick_def intro!: deal_right [OF gs]\<close>)
  then show ?thesis by (rule right_answer_later) (simp_all add: same_tuple_refl)
qed

lemma note_write_same [simp]: "now (note_write b s) = now s" "tup (note_write b s) = tup s"
  by (simp_all add: note_write_def)

lemma SetHintBits_cong: "tup s1 = tup s \<Longrightarrow> now s1 = now s \<Longrightarrow> tup (SetHintBits me W m xid s1) = tup (SetHintBits me W m xid s)"
  by (simp add: SetHintBits_def)

lemma now_own_cases:
  assumes g: "good me W nxt ph s" and v: "failed (ph InvalidTransactionId (now s))"
  shows "\<exists>b s1. now_own me W s = (Inr b, s1) \<and> now s1 = now s \<and>
    (tup s1 = tup s \<or> tup s1 = tup (SetHintBits me W HEAP_XMAX_INVALID InvalidTransactionId s) \<and> (\<forall>d. updater me (tup s) = Some d \<longrightarrow> \<not> TransactionIdIsCurrentTransactionId me d)) \<and>
    b = (t_cmin (tup s) < GetCurrentCommandId me \<and>
      (\<forall>d. updater me (tup s) = Some d \<longrightarrow> \<not> (TransactionIdIsCurrentTransactionId me d \<and> (t_cmax (tup s) < GetCurrentCommandId me \<or> flag (tup s) 12))))"
proof -
  note i = invalid_xmax [OF g] and n = hint_xmax_invalid [of "note_write True s" me W InvalidTransactionId]
    and c = SetHintBits_cong [of "note_write True s" s me W HEAP_XMAX_INVALID InvalidTransactionId]
  have z: "\<not> TransactionIdIsCurrentTransactionId me InvalidTransactionId" if "updater me (tup s) = Some InvalidTransactionId"
    using good_not_current [OF g updater_ids [OF that]] v by blast
  consider "t_cmin (tup s) \<ge> GetCurrentCommandId me" | "t_cmin (tup s) < GetCurrentCommandId me" "flag (tup s) 11"
    | "t_cmin (tup s) < GetCurrentCommandId me" "\<not> flag (tup s) 11" "HEAP_XMAX_IS_LOCKED_ONLY (tup s)"
    | "t_cmin (tup s) < GetCurrentCommandId me" "\<not> flag (tup s) 11" "\<not> HEAP_XMAX_IS_LOCKED_ONLY (tup s)" "flag (tup s) 12"
    | "t_cmin (tup s) < GetCurrentCommandId me" "\<not> flag (tup s) 11" "\<not> HEAP_XMAX_IS_LOCKED_ONLY (tup s)" "\<not> flag (tup s) 12"
    using not_less by blast
  then show ?thesis
  proof cases
    case 1
    then show ?thesis by (auto simp: now_own_def)
  next
    case 2
    then show ?thesis using i by (auto simp: now_own_def infomask_flags Let_def not_le [symmetric])
  next
    case 3
    then show ?thesis by (auto simp: now_own_def infomask_flags updater_def Let_def not_le [symmetric])
  next
    case 4
    then show ?thesis using z by (auto simp: now_own_def infomask_flags updater_def Let_def TransactionIdIsValid_def not_le [symmetric])
  next
    case 5
    then show ?thesis using n c by (auto simp: now_own_def infomask_flags updater_def Let_def not_le)
  qed
qed

lemma Now_right:
  assumes g: "good me W nxt ph s" and win: "\<not> commit_window me (\<lambda>xid. ph xid (now s)) (tup s)" and v: "\<And>t. failed (ph InvalidTransactionId t)"
    and om: "\<not> own_multixact me (tup s)"
  shows "right_answer me W nxt ph (\<lambda>P C b. b = now_rule me (tup s) C) s (HeapTupleSatisfiesNow me W s)"
  unfolding HeapTupleSatisfiesNow_def
proof (rule check_right [OF g win, where rb = False])
  assume cur: "TransactionIdIsCurrentTransactionId me (t_xmin (tup s))" and f: "\<not> flag (tup s) 8"
  let ?C = "\<lambda>xid. \<exists>c. ph xid (now s) = Committed c"
  obtain b s1 where d: "now_own me W s = (Inr b, s1)" "now s1 = now s"
    "tup s1 = tup s \<or> tup s1 = tup (SetHintBits me W HEAP_XMAX_INVALID InvalidTransactionId s) \<and> (\<forall>d. updater me (tup s) = Some d \<longrightarrow> \<not> TransactionIdIsCurrentTransactionId me d)"
    "b = (t_cmin (tup s) < GetCurrentCommandId me \<and>
      (\<forall>d. updater me (tup s) = Some d \<longrightarrow> \<not> (TransactionIdIsCurrentTransactionId me d \<and> (t_cmax (tup s) < GetCurrentCommandId me \<or> flag (tup s) 12))))"
    using now_own_cases [OF g v] by blast
  have "\<not> inserted (tup s) ?C" using f good_current [OF g xmin_ids cur, of "now s"] by (simp add: inserted_def frozen_def)
  then have "b = now_rule me (tup s) ?C" unfolding now_rule_def own_rule [OF g cur] using cur om d(4) by (auto simp: own_multixact_def infomask_flags)
  then show "right_answer me W nxt ph (\<lambda>P C b. b = now_rule me (tup s) C) s (now_own me W s)" by (rule own_right [OF g cur d(1,2,3)])
next
  fix s1 assume a: "good me W nxt ph s1" "same_tuple (tup s) (tup s1)" "frozen (tup s1) \<or> stamped (ph (t_xmin (tup s1)) (now s1))"
    "frozen (tup s1) \<or> updater me (tup s1) \<noteq> Some (t_xmin (tup s1)) \<or> \<not> active (ph (t_xmin (tup s1)) (now s1))"
  have "\<not> TransactionIdIsCurrentTransactionId me (t_xmin (tup s)) \<or> frozen (tup s)"
    using a(3) good_not_current [OF a(1) xmin_ids, of "now s1"] by (auto simp: same_tuple_rules [OF a(2)] same_tuple_updater [OF a(2)])
  then show "right_answer me W nxt ph (\<lambda>P C b. b = now_rule me (tup s) C) s1 (now_xmax me W s1)"
    unfolding now_test
    by (intro right_answer_later [OF test_xmax_right [OF a(1) _ a(3,4), where h = "t_cmax (tup s1) < GetCurrentCommandId me"] same_tuple_refl order_refl])
      (auto simp: now_rule_def same_tuple_rules [OF a(2)] same_tuple_updater [OF a(2)] not_less v)
qed (auto simp: now_rule_def tick_def)

section \<open>An example\<close>

text \<open>
  Transaction 10 has committed, 11 is the own transaction, all others but 12 have aborted. Transaction 12 commits: until the instant 3 it is in the array of running
  transactions, with its sequence number in the log when \<open>b\<close> holds, and marked as committing otherwise.
\<close>

definition example_phase :: "bool \<Rightarrow> TransactionId \<Rightarrow> nat \<Rightarrow> phase" where
  "example_phase b xid t =
     (if xid = 10 then Committed 50 else if xid = 11 then Running
      else if xid = 12 then (if 3 \<le> t then Committed 60 else if b then Stamped 60 else Committing 60 60) else Aborted)"

definition example_xacts :: "bool \<Rightarrow> bool \<Rightarrow> xacts" where
  "example_xacts b e =
     \<lparr>TransactionIdIsInProgress = (\<lambda>xid. xid = 11 \<or> xid = 12 \<and> \<not> e),
      needToSyncXid = (\<lambda>xid. False),
      clog = (\<lambda>xid. if xid = 10 \<or> xid = 12 \<and> (b \<or> e) then CLOG_XID_STATUS_COMMITTED
                    else if xid = 11 \<or> xid = 12 then CLOG_XID_STATUS_IN_PROGRESS else CLOG_XID_STATUS_ABORTED),
      csnlog = (\<lambda>xid. if xid = 10 then 50 else if xid = 11 then 0
                      else if xid = 12 then (if b \<or> e then 60 else 0x400000000000003C) else COMMITSEQNO_ABORTED),
      MultiXactIdIsRunning = (\<lambda>xid. False),
      hint_flushed = (\<lambda>xid. True)\<rparr>"

definition example_world :: "bool \<Rightarrow> world" where
  "example_world b = \<lparr>at = (\<lambda>t. example_xacts b (3 \<le> t)), wait_end = (\<lambda>t xid. t + 3), others = (\<lambda>t tuple. tuple)\<rparr>"

definition example_session :: session where
  "example_session =
     \<lparr>TransactionIdIsCurrentTransactionId = (\<lambda>xid. xid = 11), GetCurrentCommandId = 5, MultiXactIdGetUpdateXid = (\<lambda>xid. 0), RecentXmin = 10, TransactionXmin = 10,
      startupMaxXid = 0, useLocalSnapshot = False, RecoveryInProgress = False, IsRoachStandbyCluster = False, read_uncommitted = False, enable_cluster_resize = False,
      XactReadOnly = False, enable_show_any_tuples = False, xc_maintenance_mode = False, bInAbortTransaction = False, IsInitdb = False, usedComboCids = 0,
      StreamThreadAmI = False, SS_STANDBY_MODE = False\<rparr>"

text \<open>A tuple without hint bits, and one with the hint bits \<open>m\<close>.\<close>

definition example_tuple :: "TransactionId \<Rightarrow> TransactionId \<Rightarrow> HeapTupleData" where
  "example_tuple xmin xmax = blank_tuple\<lparr>t_xmin := xmin, t_xmax := xmax\<rparr>"

definition hinted_tuple :: "uint16 \<Rightarrow> TransactionId \<Rightarrow> TransactionId \<Rightarrow> HeapTupleData" where
  "hinted_tuple m xmin xmax = (example_tuple xmin xmax)\<lparr>t_infomask := m\<rparr>"

lemmas example_defs = hinted_tuple_def example_phase_def example_xacts_def example_world_def example_session_def example_tuple_def blank_tuple_def start_def

lemmas csn_defs = COMMITSEQNO_IS_COMMITTED_def COMMITSEQNO_IS_COMMITTING_def COMMITSEQNO_IS_SUBTRANS_def COMMITSEQNO_IS_ABORTED_def GET_COMMITSEQNO_def GET_PARENTXID_def
  COMMITSEQNO_ABORTED_def COMMITSEQNO_FROZEN_def COMMITSEQNO_COMMIT_INPROGRESS_def COMMITSEQNO_SUBTRANS_BIT_def COMMITSEQNO_RESERVE_MASK_def MAX_COMMITSEQNO_def

lemmas xid_defs = InvalidTransactionId_def BootstrapTransactionId_def FrozenTransactionId_def FirstNormalTransactionId_def TransactionIdIsValid_def TransactionIdIsNormal_def
  TransactionIdPrecedes_def

lemma csn_values:
  "COMMITSEQNO_IS_COMMITTED 50" "COMMITSEQNO_IS_COMMITTED 60" "\<not> COMMITSEQNO_IS_COMMITTED 0" "\<not> COMMITSEQNO_IS_COMMITTED COMMITSEQNO_ABORTED"
  "\<not> COMMITSEQNO_IS_COMMITTED 0x400000000000003C" "\<not> COMMITSEQNO_IS_COMMITTING 50" "\<not> COMMITSEQNO_IS_COMMITTING 60" "\<not> COMMITSEQNO_IS_COMMITTING 0"
  "\<not> COMMITSEQNO_IS_COMMITTING COMMITSEQNO_ABORTED" "COMMITSEQNO_IS_COMMITTING 0x400000000000003C" "\<not> COMMITSEQNO_IS_SUBTRANS 50" "\<not> COMMITSEQNO_IS_SUBTRANS 60"
  "\<not> COMMITSEQNO_IS_SUBTRANS 0" "\<not> COMMITSEQNO_IS_SUBTRANS COMMITSEQNO_ABORTED" "\<not> COMMITSEQNO_IS_SUBTRANS 0x400000000000003C" "GET_COMMITSEQNO 0x400000000000003C = 60"
  by (code_simp)+

lemma example_fields:
  "TransactionIdIsInProgress (example_xacts b e) xid \<longleftrightarrow> xid = 11 \<or> xid = 12 \<and> \<not> e"
  "clog (example_xacts b e) xid = (if xid = 10 \<or> xid = 12 \<and> (b \<or> e) then CLOG_XID_STATUS_COMMITTED
     else if xid = 11 \<or> xid = 12 then CLOG_XID_STATUS_IN_PROGRESS else CLOG_XID_STATUS_ABORTED)"
  "csnlog (example_xacts b e) xid = (if xid = 10 then 50 else if xid = 11 then 0
     else if xid = 12 then (if b \<or> e then 60 else 0x400000000000003C) else COMMITSEQNO_ABORTED)"
  "hint_flushed (example_xacts b e) xid"
  by (simp_all add: example_xacts_def)

lemma example_csn:
  "xid \<in> {0, 10, 11, 12, 13} \<Longrightarrow> CSNLogGetCommitSeqNo (example_xacts b e) xid = csnlog (example_xacts b e) xid"
  "xid \<in> {0, 10, 11, 12, 13} \<Longrightarrow> TransactionIdIsNormal xid \<longleftrightarrow> xid \<noteq> 0"
  by (auto simp: CSNLogGetCommitSeqNo_def xid_defs example_fields)

lemma example_recursive: "xid \<in> {0, 10, 11, 12, 13} \<Longrightarrow> RecursiveGetCommitSeqNo (example_xacts b e) xid = csnlog (example_xacts b e) xid"
  by (subst RecursiveGetCommitSeqNo.simps) (auto simp: example_csn example_fields csn_values)

lemma example_commit: "xid \<in> {0, 10, 11, 12, 13} \<Longrightarrow> did_commit me (example_xacts b e) xid \<longleftrightarrow> clog (example_xacts b e) xid = CLOG_XID_STATUS_COMMITTED"
  unfolding did_commit_def
  by (subst TransactionIdDidCommit.simps) (auto simp: TransactionLogFetch_def example_csn example_fields BootstrapTransactionId_def FrozenTransactionId_def)

lemma example_shows: "xid \<in> {0, 10, 11, 12, 13} \<Longrightarrow> shows_phase example_session (example_xacts b (3 \<le> t)) xid (example_phase b xid t)"
proof -
  have no: "(50 :: CommitSeqNo) \<noteq> COMMITSEQNO_ABORTED" "(60 :: CommitSeqNo) \<noteq> COMMITSEQNO_ABORTED" "(0 :: CommitSeqNo) \<noteq> COMMITSEQNO_ABORTED"
    "(0x400000000000003C :: CommitSeqNo) \<noteq> COMMITSEQNO_ABORTED" by (simp_all add: COMMITSEQNO_ABORTED_def)
  assume "xid \<in> {0, 10, 11, 12, 13}"
  then consider "xid = 0" | "xid = 10" | "xid = 11" | "xid = 12" | "xid = 13" by blast
  then show ?thesis
    by cases (simp_all add: shows_phase_def example_csn example_recursive example_commit example_fields example_phase_def csn_shows_def phase_defs csn_values
        COMMITSEQNO_IS_ABORTED_def no)
qed

lemma example_history:
  assumes "xid \<in> {0, 10, 11, 12, 13}"
  shows "history example_session (example_world b) (\<lambda>t. 100) xid (example_phase b xid)"
proof -
  have steps: "(phase_step 100)\<^sup>*\<^sup>* (example_phase b xid t) (example_phase b xid (Suc t))" for t
  proof -
    have "(phase_step 100)\<^sup>*\<^sup>* (Stamped 60) (Committed 60)" by (rule r_into_rtranclp) (rule phase_step.leave)
    moreover from this have "(phase_step 100)\<^sup>*\<^sup>* (Committing 60 60) (Committed 60)"
      by (meson phase_step.enter phase_step.stamp converse_rtranclp_into_rtranclp)
    ultimately show ?thesis by (auto simp: example_phase_def)
  qed
  have "COMMITSEQNO_IS_COMMITTING (CSNLogGetCommitSeqNo (at (example_world b) t) xid) \<Longrightarrow> xid = 12" for t
    using example_csn(1) [OF assms] assms by (auto simp: example_world_def example_fields csn_values split: if_splits)
  then show ?thesis
    unfolding history_def Let_def using steps example_shows [OF assms]
    by (auto simp: example_world_def example_session_def example_phase_def active_def)
qed

lemma masks_differ [simp]: "HEAP_XMIN_COMMITTED \<noteq> 0" "HEAP_XMAX_INVALID \<noteq> 0" "HEAP_XMIN_COMMITTED \<noteq> HEAP_XMAX_INVALID" "HEAP_XMAX_INVALID \<noteq> HEAP_XMIN_COMMITTED"
  by (simp_all add: HEAP_XMIN_COMMITTED_def HEAP_XMAX_INVALID_def)

lemma example_ids:
  assumes "m \<in> {0, HEAP_XMIN_COMMITTED, HEAP_XMAX_INVALID}"
  shows "tuple_ids example_session (hinted_tuple m xmin xmax) = {xmin, xmax}" "updater example_session (hinted_tuple m xmin xmax) = Some xmax"
    "flag (hinted_tuple m xmin xmax) n \<longleftrightarrow> m = HEAP_XMIN_COMMITTED \<and> n = 8 \<or> m = HEAP_XMAX_INVALID \<and> n = 11"
proof -
  show f: "flag (hinted_tuple m xmin xmax) n \<longleftrightarrow> m = HEAP_XMIN_COMMITTED \<and> n = 8 \<or> m = HEAP_XMAX_INVALID \<and> n = 11" for n
    using assms by (auto simp: hinted_tuple_def mask_bits)
  have l: "\<not> HEAP_XMAX_IS_LOCKED_ONLY (hinted_tuple m xmin xmax)"
    unfolding locked_only_flags locked_flags_def f by (simp add: hinted_tuple_def example_tuple_def blank_tuple_def)
  show "tuple_ids example_session (hinted_tuple m xmin xmax) = {xmin, xmax}" "updater example_session (hinted_tuple m xmin xmax) = Some xmax"
    using l by (simp_all add: tuple_ids_def updater_def infomask_flags f) (simp_all add: hinted_tuple_def example_tuple_def blank_tuple_def)
qed

lemma hinted_fields [simp]: "t_xmin (hinted_tuple m xmin xmax) = xmin" "t_xmax (hinted_tuple m xmin xmax) = xmax" "tup (start t tuple) = tuple" "now (start t tuple) = t"
  by (simp_all add: hinted_tuple_def example_tuple_def start_def)

lemma example_good:
  assumes "{xmin, xmax} \<subseteq> {0, 10, 11, 12, 13}" "xmin = 11 \<longrightarrow> xmax \<in> {0, 11, 13}"
    and m: "m = 0 \<or> m = HEAP_XMIN_COMMITTED \<and> stamped (example_phase b xmin t) \<or> m = HEAP_XMAX_INVALID \<and> failed (example_phase b xmax t)"
  shows "good example_session (example_world b) (\<lambda>t. 100) (example_phase b) (start t (hinted_tuple m xmin xmax))"
proof -
  have i: "m \<in> {0, HEAP_XMIN_COMMITTED, HEAP_XMAX_INVALID}" using m by blast
  note e = example_ids [OF i, of xmin xmax]
  have "hints_ok example_session (\<lambda>xid. example_phase b xid t) (hinted_tuple m xmin xmax)" unfolding hints_ok_def e using m by auto
  moreover have "failed (example_phase b xmax t)" if "xmin = 11" "xmax \<noteq> 11" using assms(2) that by (auto simp: example_phase_def failed_def)
  moreover have "TransactionIdIsCurrentTransactionId example_session xid \<longleftrightarrow> xid = 11" for xid by (simp add: example_session_def)
  ultimately show ?thesis
    using assms(1) example_history unfolding good_def hinted_fields e by auto
qed

lemma hinted_0: "hinted_tuple 0 xmin xmax = example_tuple xmin xmax"
  by (simp add: hinted_tuple_def example_tuple_def blank_tuple_def)

text \<open>A tuple that one transaction has inserted and deleted, while it is between its stamp and its exit from the array.\<close>

lemma window_test:
  assumes g: "good me W nxt ph s" and win: "commit_window me (\<lambda>xid. ph xid (now s)) (tup s)" and f: "\<not> infomask_bit (tup s) HEAP_XMAX_COMMITTED"
    and r: "\<And>d u. fst (running d u) = Inr True"
  shows "fst (test_xmax me W valid own_multi own running s) = Inr True"
proof -
  let ?x = "t_xmin (tup s)"
  have u: "updater me (tup s) = Some ?x" "\<exists>c. ph ?x (now s) = Stamped c" using win by (simp_all add: commit_window_def)
  have l: "look_progress W ?x s = (True, tick s)" using look_progress_good [OF g xmin_ids] u(2) by (auto simp: active_def)
  have c: "\<not> TransactionIdIsCurrentTransactionId me ?x" using good_not_current [OF g xmin_ids, of "now s"] u(2) by (auto simp: stamped_def)
  show ?thesis
  proof (cases "flag (tup s) 12")
    case True
    then have "MultiXactIdGetUpdateXid me (t_xmax (tup s)) = ?x" "\<not> HEAP_XMAX_IS_LOCKED_ONLY (tup s)" using u(1) by (auto simp: updater_def infomask_flags split: if_splits)
    then show ?thesis using True f l c r by (simp add: test_xmax_def infomask_flags Let_def)
  next
    case False
    then have "t_xmax (tup s) = ?x" using u(1) by (auto simp: updater_def infomask_flags split: if_splits)
    then show ?thesis using False f l c r by (simp add: test_xmax_def check_xmax_def infomask_flags Let_def)
  qed
qed

section \<open>The claims\<close>



text \<open>
  C37. The first exception is real. When a transaction has inserted and deleted a tuple, has its sequence number and has not yet left the array of running
  transactions, and another session has marked it as the inserter that has committed, then \<^verbatim>\<open>HeapTupleSatisfiesNow\<close> and \<^verbatim>\<open>HeapTupleSatisfiesSelf\<close> return true, because the
  deleter is still in the array: the tuple appears although it is visible at no instant, neither if the transaction counts as committed nor if it does not. The
  session is one that has not itself found the end of the transaction before; from its cache it would know better.
\<close>

theorem now_during_commit:
  assumes "good me W nxt ph s" "commit_window me (\<lambda>xid. ph xid (now s)) (tup s)" "\<not> infomask_bit (tup s) HEAP_XMAX_COMMITTED"
  shows "fst (HeapTupleSatisfiesNow me W s) = Inr True \<and> (\<nexists>C. now_rule me (tup s) C) \<and> fst (HeapTupleSatisfiesSelf me W s) = Inr True \<and> (\<nexists>C. self_rule me (tup s) C)"
proof -
  have w: "flag (tup s) 8" "\<not> flag (tup s) 9" "updater me (tup s) = Some (t_xmin (tup s))" "\<exists>c. ph (t_xmin (tup s)) (now s) = Stamped c"
    using assms(2) by (simp_all add: commit_window_def)
  have c: "\<not> TransactionIdIsCurrentTransactionId me (t_xmin (tup s))" using good_not_current [OF assms(1) xmin_ids, of "now s"] w(4) by (auto simp: stamped_def)
  have "fst (HeapTupleSatisfiesNow me W s) = Inr True" "fst (HeapTupleSatisfiesSelf me W s) = Inr True"
    unfolding HeapTupleSatisfiesNow_def HeapTupleSatisfiesSelf_def check_xmin_def now_test self_test flags using w(1) window_test [OF assms] by simp_all
  then show ?thesis using w(2,3) c by (simp add: now_rule_def self_rule_def xmax_rule_def inserted_def frozen_def)
qed

theorem now_during_commit_witness:
  "fst (HeapTupleSatisfiesNow example_session (example_world True) (start 0 (hinted_tuple HEAP_XMIN_COMMITTED 12 12))) = Inr True \<and>
   (\<nexists>C. now_rule example_session (hinted_tuple HEAP_XMIN_COMMITTED 12 12) C) \<and>
   fst (HeapTupleSatisfiesNow example_session (example_world True) (start 0 (hinted_tuple 0 12 12))) = Inr False"
proof -
  have g: "good example_session (example_world True) (\<lambda>t. 100) (example_phase True) (start 0 (hinted_tuple HEAP_XMIN_COMMITTED 12 12))"
    by (rule example_good) (simp_all add: example_phase_def stamped_def)
  have w: "commit_window example_session (\<lambda>xid. example_phase True xid (now (start 0 (hinted_tuple HEAP_XMIN_COMMITTED 12 12)))) (tup (start 0 (hinted_tuple HEAP_XMIN_COMMITTED 12 12)))"
    "\<not> infomask_bit (tup (start 0 (hinted_tuple HEAP_XMIN_COMMITTED 12 12))) HEAP_XMAX_COMMITTED"
    by (simp_all add: commit_window_def infomask_flags example_ids example_phase_def)
  have "fst (HeapTupleSatisfiesNow example_session (example_world True) (start 0 (hinted_tuple 0 12 12))) = Inr False" by code_simp
  then show ?thesis using now_during_commit [OF g w] by simp
qed

end
