(* ===== verification/OG_VisibleSnapshot.thy ===== *)
theory OG_VisibleSnapshot
  imports OG_VisibleNow
begin

text \<open>
  That \<^verbatim>\<open>HeapTupleSatisfiesMVCC\<close> gives the answer of the rule in its comment for the transactions that its snapshot sees, the same one as long as the snapshot is used, and that
  no snapshot still sees what \<^verbatim>\<open>HeapTupleSatisfiesVacuum\<close> calls dead.
\<close>

section \<open>The state of the database in a snapshot\<close>

text \<open>What the routines may assume of a snapshot for one transaction: nobody who runs still can get a smaller number, and those before its \<open>snap_xmin\<close> had finished by then.\<close>

definition snapshot_for :: "SnapshotData \<Rightarrow> CommitSeqNo \<Rightarrow> TransactionId \<Rightarrow> phase \<Rightarrow> bool" where
  "snapshot_for sn n xid p \<longleftrightarrow>
     IsMVCCSnapshot sn \<and> COMMITSEQNO_FROZEN < snapshotcsn sn \<and> snapshotcsn sn \<le> n \<and>
     (TransactionIdPrecedes xid (snap_xmin sn) \<longrightarrow> \<not> active p \<and> (logged p \<longrightarrow> seen (snapshotcsn sn) p))"

lemma snapshot_for_later:
  assumes "snapshot_for sn n xid p" "later n p q" "n \<le> m"
  shows "snapshot_for sn m xid q" "seen (snapshotcsn sn) q = seen (snapshotcsn sn) p"
proof -
  show "seen (snapshotcsn sn) q = seen (snapshotcsn sn) p" using assms later_stable(8) by (simp add: snapshot_for_def)
  show "snapshot_for sn m xid q" using assms later_stable(4) [OF assms(2)] by (auto simp: snapshot_for_def)
qed

lemma committed_not_committing: "COMMITSEQNO_IS_COMMITTED v \<Longrightarrow> \<not> COMMITSEQNO_IS_COMMITTING v"
proof
  assume a: "COMMITSEQNO_IS_COMMITTED v" "COMMITSEQNO_IS_COMMITTING v"
  have "bit (v AND COMMITSEQNO_COMMIT_INPROGRESS) 62" using a(2) by (simp add: COMMITSEQNO_IS_COMMITTING_def COMMITSEQNO_COMMIT_INPROGRESS_def bit_push_bit_iff)
  then have v: "bit v 62" by (simp add: bit_and_iff)
  have "bit COMMITSEQNO_RESERVE_MASK 62" by (simp add: COMMITSEQNO_RESERVE_MASK_def MAX_COMMITSEQNO_def push_bit_eq_mult)
  then have "bit (v AND COMMITSEQNO_RESERVE_MASK) 62" using v by (simp add: bit_and_iff)
  then show False using a(1) by (simp add: COMMITSEQNO_IS_COMMITTED_def)
qed

lemma special_csn:
  "COMMITSEQNO_IS_COMMITTED COMMITSEQNO_FROZEN" "\<not> COMMITSEQNO_IS_COMMITTED COMMITSEQNO_ABORTED" "\<not> COMMITSEQNO_IS_COMMITTING COMMITSEQNO_ABORTED"
  by (simp_all add: COMMITSEQNO_IS_COMMITTED_def COMMITSEQNO_IS_COMMITTING_def COMMITSEQNO_FROZEN_def COMMITSEQNO_ABORTED_def MAX_COMMITSEQNO_def
      COMMITSEQNO_RESERVE_MASK_def COMMITSEQNO_COMMIT_INPROGRESS_def push_bit_eq_mult word_le_nat_alt)

text \<open>What the sequence number that a routine gets says about the phase.\<close>

definition csn_view :: "CommitSeqNo \<Rightarrow> phase \<Rightarrow> CommitSeqNo \<Rightarrow> bool" where
  "csn_view S p v \<longleftrightarrow>
     (COMMITSEQNO_IS_COMMITTED v \<longrightarrow> stamped p \<and> (v < S) = seen S p) \<and>
     (COMMITSEQNO_IS_COMMITTING v \<longrightarrow> \<not> stamped p \<and> \<not> failed p \<and> p \<noteq> Running \<and> (\<not> COMMITSEQNO_IS_SUBTRANS v \<and> S \<le> GET_COMMITSEQNO v \<longrightarrow> \<not> seen S p)) \<and>
     (\<not> COMMITSEQNO_IS_COMMITTED v \<and> \<not> COMMITSEQNO_IS_COMMITTING v \<longrightarrow> \<not> seen S p \<and> \<not> stamped p) \<and>
     (v = COMMITSEQNO_ABORTED \<longrightarrow> failed p)"

lemma csn_shows_view: "csn_shows p v \<Longrightarrow> csn_view S p v"
  using committed_not_committing special_csn by (cases p) (auto simp: csn_shows_def csn_view_def phase_defs)

lemma GetCSN_view:
  assumes sh: "shows_phase me x xid p" and sn: "snapshot_for sn n xid p" and c: "isCommit \<longrightarrow> \<not> TransactionIdPrecedes xid (snap_xmin sn)"
    and v: "TransactionIdGetCommitSeqNo me x xid isCommit False (Some sn) s = (v, s')"
  shows "csn_view (snapshotcsn sn) p v" "now s' = now s" "tup s' = tup s" "TransactionIdIsValid xid \<Longrightarrow> v = COMMITSEQNO_ABORTED \<Longrightarrow> LatestFetchCSNDidAbort me xid s'"
    "COMMITSEQNO_IS_COMMITTING v \<Longrightarrow> v = CSNLogGetCommitSeqNo x xid"
proof -
  let ?n = "CSNLogGetCommitSeqNo x xid"
  have m: "IsMVCCSnapshot sn" "COMMITSEQNO_FROZEN < snapshotcsn sn" using sn by (simp_all add: snapshot_for_def)
  have cs: "csn_view (snapshotcsn sn) p ?n" using sh csn_shows_view by (simp add: shows_phase_def)
  consider (special) "\<not> TransactionIdIsNormal xid" "v = ?n" | (log) "TransactionIdIsNormal xid" "v = ?n"
    | (old) "TransactionIdIsNormal xid" "TransactionIdPrecedes xid (snap_xmin sn)" "v = (if clog x xid = CLOG_XID_STATUS_COMMITTED then COMMITSEQNO_FROZEN else COMMITSEQNO_ABORTED)"
  proof (cases "TransactionIdIsNormal xid")
    case True
    then show thesis using v m c log old by (auto simp: TransactionIdGetCommitSeqNo_def GetCSNByCLog_def Let_def split: if_splits)
  next
    case False
    have "xid = 0 \<or> xid = 1 \<or> xid = 2"
    proof -
      have "unat xid < 3" using False by (auto simp: TransactionIdIsNormal_def FirstNormalTransactionId_def word_le_nat_alt)
      then show ?thesis by (auto simp: word_unat_eq_iff)
    qed
    then show thesis using v False
      by (intro special) (auto simp: TransactionIdGetCommitSeqNo_def CSNLogGetCommitSeqNo_def InvalidTransactionId_def BootstrapTransactionId_def FrozenTransactionId_def)
  qed
  note cases = this
  show "csn_view (snapshotcsn sn) p v"
  proof (cases rule: cases)
    case old
    have "\<not> active p" "logged p \<longrightarrow> seen (snapshotcsn sn) p" using sn old(2) by (simp_all add: snapshot_for_def)
    moreover have "clog x xid = CLOG_XID_STATUS_COMMITTED \<longleftrightarrow> logged p" using sh old(1) calculation by (simp add: shows_phase_def)
    ultimately show ?thesis using old(3) m(2) special_csn committed_not_committing
      by (cases p) (auto simp: csn_view_def phase_defs COMMITSEQNO_FROZEN_def COMMITSEQNO_ABORTED_def)
  qed (use cs in simp_all)
  show "now s' = now s" "tup s' = tup s" using v by (auto simp: TransactionIdGetCommitSeqNo_def Let_def split: if_splits)
  show "LatestFetchCSNDidAbort me xid s'" if "TransactionIdIsValid xid" "v = COMMITSEQNO_ABORTED"
    using v that by (auto simp: TransactionIdGetCommitSeqNo_def Let_def LatestFetchCSNDidAbort_def COMMITSEQNO_IS_ABORTED_def TransactionIdIsValid_def split: if_splits)
  show "v = ?n" if "COMMITSEQNO_IS_COMMITTING v"
    by (cases rule: cases) (use that special_csn committed_not_committing in \<open>auto split: if_splits\<close>)
qed

text \<open>During a wait the buffer is unlocked: others may set hint bits of the tuple.\<close>

definition quiet :: "session \<Rightarrow> world \<Rightarrow> (nat \<Rightarrow> CommitSeqNo) \<Rightarrow> (TransactionId \<Rightarrow> nat \<Rightarrow> phase) \<Rightarrow> bool" where
  "quiet me W nxt ph \<longleftrightarrow>
     (\<forall>s xid buffer. good me W nxt ph s \<and> now s < wait_end W (now s) xid \<longrightarrow>
        good me W nxt ph (SyncWaitXidEnd W xid buffer s) \<and> same_tuple (tup s) (tup (SyncWaitXidEnd W xid buffer s)))"

definition snapshot_ok :: "session \<Rightarrow> (nat \<Rightarrow> CommitSeqNo) \<Rightarrow> (TransactionId \<Rightarrow> nat \<Rightarrow> phase) \<Rightarrow> SnapshotData \<Rightarrow> vis_state \<Rightarrow> bool" where
  "snapshot_ok me nxt ph sn s \<longleftrightarrow> (\<forall>xid \<in> tuple_ids me (tup s). snapshot_for sn (nxt (now s)) xid (ph xid (now s)))"

lemma history_nxt: "history me W nxt xid ph \<Longrightarrow> t \<le> t' \<Longrightarrow> nxt t \<le> nxt t'"
  by (rule lift_Suc_mono_le [of nxt]) (simp_all add: history_def)

text \<open>A snapshot stays one, and sees the same.\<close>

lemma snapshot_ok_later:
  assumes g: "good me W nxt ph s" and ok: "snapshot_ok me nxt ph sn s" and st: "same_tuple (tup s) (tup s')" and n: "now s \<le> now s'"
  shows "snapshot_ok me nxt ph sn s'" "xid \<in> tuple_ids me (tup s) \<Longrightarrow> seen (snapshotcsn sn) (ph xid (now s')) = seen (snapshotcsn sn) (ph xid (now s))"
proof -
  have f: "snapshot_for sn (nxt (now s)) xid (ph xid (now s))" if "xid \<in> tuple_ids me (tup s)" for xid using ok that by (simp add: snapshot_ok_def)
  have l: "snapshot_for sn (nxt (now s')) xid (ph xid (now s'))" "seen (snapshotcsn sn) (ph xid (now s')) = seen (snapshotcsn sn) (ph xid (now s))"
    if "xid \<in> tuple_ids me (tup s)" for xid
    using snapshot_for_later [OF f [OF that] good_later [OF g that n] history_nxt [OF good_history [OF g that] n]] by blast+
  show "snapshot_ok me nxt ph sn s'" using l(1) by (simp add: snapshot_ok_def same_tuple_ids [OF st])
  show "xid \<in> tuple_ids me (tup s) \<Longrightarrow> seen (snapshotcsn sn) (ph xid (now s')) = seen (snapshotcsn sn) (ph xid (now s))" by (rule l(2))
qed

lemma later_ended: "later n p q \<Longrightarrow> \<not> failed p \<Longrightarrow> p \<noteq> Running \<Longrightarrow> \<not> active q \<Longrightarrow> stamped q"
  by (cases p; cases q) (auto simp: later_def phase_defs)

lemma good_csn:
  assumes g: "good me W nxt ph s" and ok: "snapshot_ok me nxt ph sn s" and i: "xid \<in> tuple_ids me (tup s)" and c: "isCommit \<longrightarrow> \<not> TransactionIdPrecedes xid (snap_xmin sn)"
    and v: "TransactionIdGetCommitSeqNo me (at W (now s)) xid isCommit False (Some sn) s = (v, s1)"
  shows "csn_view (snapshotcsn sn) (ph xid (now s)) v" "good me W nxt ph (tick s1)" "tup s1 = tup s" "now s1 = now s"
    "TransactionIdIsValid xid \<Longrightarrow> v = COMMITSEQNO_ABORTED \<Longrightarrow> LatestFetchCSNDidAbort me xid s1"
    "COMMITSEQNO_IS_COMMITTING v \<Longrightarrow> v = CSNLogGetCommitSeqNo (at W (now s)) xid"
proof -
  have "snapshot_for sn (nxt (now s)) xid (ph xid (now s))" using ok i by (simp add: snapshot_ok_def)
  note r = GetCSN_view [OF history_shows [OF good_history [OF g i]] this c v]
  then show "csn_view (snapshotcsn sn) (ph xid (now s)) v" "tup s1 = tup s" "now s1 = now s"
    "TransactionIdIsValid xid \<Longrightarrow> v = COMMITSEQNO_ABORTED \<Longrightarrow> LatestFetchCSNDidAbort me xid s1"
    "COMMITSEQNO_IS_COMMITTING v \<Longrightarrow> v = CSNLogGetCommitSeqNo (at W (now s)) xid" by blast+
  show "good me W nxt ph (tick s1)" by (rule good_wait [OF g]) (simp_all add: r tick_def)
qed

text \<open>The status with which a routine sets a hint bit is right.\<close>

definition status_ok :: "session \<Rightarrow> phase \<Rightarrow> TransactionId \<Rightarrow> TransactionIdStatus \<Rightarrow> vis_state \<Rightarrow> bool" where
  "status_ok me p xid st s \<longleftrightarrow> (st = XID_COMMITTED \<longrightarrow> stamped p) \<and> (st = XID_ABORTED \<longrightarrow> failed p \<and> LatestFetchCSNDidAbort me xid s)"

lemma tick_simps [simp]: "now (tick s) = Suc (now s)" "tup (tick s) = tup s" "LatestFetchCSNDidAbort me xid (tick s) = LatestFetchCSNDidAbort me xid s"
  by (simp_all add: tick_def LatestFetchCSNDidAbort_def)

lemma XidVisible_good:
  assumes g: "good me W nxt ph s" and ok: "snapshot_ok me nxt ph sn s" and i: "xid \<in> tuple_ids me (tup s)" and q: "quiet me W nxt ph"
    and m: "\<not> xc_maintenance_mode me" "\<not> bInAbortTransaction me" and val: "TransactionIdIsValid xid"
  obtains st sync s' where "XidVisibleInSnapshot me W xid sn buffer s = (Inr (seen (snapshotcsn sn) (ph xid (now s)), st, sync), s')" "good me W nxt ph s'"
    "now s \<le> now s'" "same_tuple (tup s) (tup s')" "status_ok me (ph xid (now s')) xid st s'" "seen (snapshotcsn sn) (ph xid (now s)) \<longrightarrow> stamped (ph xid (now s'))"
proof -
  let ?S = "snapshotcsn sn" and ?p = "ph xid (now s)"
  obtain v s1 where v: "TransactionIdGetCommitSeqNo me (at W (now s)) xid False False (Some sn) s = (v, s1)" by fastforce
  note r = good_csn [OF g ok i _ v, simplified]
  note cv = r(1) [unfolded csn_view_def]
  have l: "later (nxt (now s)) ?p (ph xid (Suc (now s)))" using good_later [OF g i, of "Suc (now s)"] by simp
  consider (com) "COMMITSEQNO_IS_COMMITTED v" | (wait) "COMMITSEQNO_IS_COMMITTING v" "\<not> (\<not> COMMITSEQNO_IS_SUBTRANS v \<and> ?S \<le> GET_COMMITSEQNO v)"
    | (no) "COMMITSEQNO_IS_COMMITTING v" "\<not> COMMITSEQNO_IS_SUBTRANS v \<and> ?S \<le> GET_COMMITSEQNO v" | (none) "\<not> COMMITSEQNO_IS_COMMITTED v" "\<not> COMMITSEQNO_IS_COMMITTING v" by blast
  then show thesis
  proof cases
    case com
    then have "XidVisibleInSnapshot me W xid sn buffer s = (Inr (seen ?S ?p, XID_COMMITTED, False), tick s1)" using cv by (simp add: XidVisibleInSnapshot_def v)
    then show thesis using com cv l later_stable(1) r same_tuple_refl by (intro that) (auto simp: status_ok_def)
  next
    case no
    then have "XidVisibleInSnapshot me W xid sn buffer s = (Inr (seen ?S ?p, XID_INPROGRESS, False), tick s1)"
      using cv committed_not_committing [of v] by (auto simp: XidVisibleInSnapshot_def v)
    moreover have "\<not> seen ?S ?p" using no cv by blast
    ultimately show thesis using r same_tuple_refl by (intro that) (auto simp: status_ok_def)
  next
    case none
    let ?st = "if v = COMMITSEQNO_ABORTED then XID_ABORTED else XID_INPROGRESS"
    have "XidVisibleInSnapshot me W xid sn buffer s = (Inr (seen ?S ?p, ?st, False), tick s1)"
      using none cv by (simp add: XidVisibleInSnapshot_def v)
    moreover have "\<not> seen ?S ?p" using none cv by blast
    ultimately show thesis using r val cv later_stable(3) [OF l] same_tuple_refl by (intro that) (auto simp: status_ok_def split: if_splits)
  next
    case wait
    let ?w = "wait_xid xid v"
    let ?s2 = "SyncWaitXidEnd W ?w buffer (tick s1)"
    have e: "Suc (now s) < wait_end W (Suc (now s)) ?w" "\<not> active (ph xid (wait_end W (Suc (now s)) ?w))"
      using good_history [OF g i] r(6) wait(1) by (auto simp: history_def Let_def)
    have g2: "good me W nxt ph ?s2" "same_tuple (tup s) (tup ?s2)" using q [unfolded quiet_def, rule_format, of "tick s1" ?w buffer] r(2,3,4) e(1) by simp_all
    have n2: "now ?s2 = wait_end W (Suc (now s)) ?w" "now s \<le> now ?s2" using e(1) r(4) by (simp_all add: SyncWaitXidEnd_def)
    note o2 = snapshot_ok_later [OF g ok g2(2) n2(2)]
    have i2: "xid \<in> tuple_ids me (tup ?s2)" using i same_tuple_ids [OF g2(2)] by simp
    have st: "stamped (ph xid (now ?s2))" using later_ended [OF good_later [OF g i n2(2)]] cv wait(1) e(2) n2(1) by auto
    obtain v2 s3 where v2: "TransactionIdGetCommitSeqNo me (at W (now ?s2)) xid False False (Some sn) ?s2 = (v2, s3)" by fastforce
    note r2 = good_csn [OF g2(1) o2(1) i2 _ v2, simplified]
    have c2: "COMMITSEQNO_IS_COMMITTED v2" "(v2 < ?S) = seen ?S ?p" using r2(1) st o2(2) [OF i] unfolding csn_view_def by blast+
    have "XidVisibleInSnapshot me W xid sn buffer s = (Inr (seen ?S ?p, XID_COMMITTED, True), tick s3)"
      using wait m v2 c2 committed_not_committing [of v] by (auto simp: XidVisibleInSnapshot_def v wait_xid_def xid_visible_again_def Let_def)
    moreover have "stamped (ph xid (Suc (now ?s2)))" using later_stable(1) [OF good_later [OF g2(1) i2, of "Suc (now ?s2)"]] st by simp
    ultimately show thesis using r2 g2 n2 by (intro that [of XID_COMMITTED True "tick s3"]) (auto simp: status_ok_def)
  qed
qed

lemma CommittedXid_good:
  assumes g: "good me W nxt ph s" and ok: "snapshot_ok me nxt ph sn s" and i: "xid \<in> tuple_ids me (tup s)" and st: "stamped (ph xid (now s))"
  obtains s' where "CommittedXidVisibleInSnapshot me W xid sn s = (seen (snapshotcsn sn) (ph xid (now s)), s')" "good me W nxt ph s'" "now s \<le> now s'" "tup s' = tup s"
proof (cases "TransactionIdPrecedes xid (snap_xmin sn)")
  case True
  have "seen (snapshotcsn sn) (ph xid (now s))" using ok i st True phase_rules(4) by (auto simp: snapshot_ok_def snapshot_for_def)
  then show thesis using True g by (intro that [of s]) (auto simp: CommittedXidVisibleInSnapshot_def)
next
  case False
  obtain v s1 where v: "TransactionIdGetCommitSeqNo me (at W (now s)) xid True False (Some sn) s = (v, s1)" by fastforce
  note r = good_csn [OF g ok i _ v, simplified, OF False]
  have "COMMITSEQNO_IS_COMMITTED v" "(v < snapshotcsn sn) = seen (snapshotcsn sn) (ph xid (now s))" using r(1) st unfolding csn_view_def by blast+
  then show thesis using False v r committed_not_committing [of v] by (intro that [of "tick s1"]) (auto simp: CommittedXidVisibleInSnapshot_def)
qed

text \<open>The hint bit that follows from a status.\<close>

lemma hint_status_good:
  assumes g: "good me W nxt ph s" and a: "\<And>n. bit yes n \<longleftrightarrow> n = k" "\<And>n. bit no n \<longleftrightarrow> n = j"
    and y: "st = XID_COMMITTED \<Longrightarrow> k = 8 \<and> \<not> flag (tup s) 9 \<and> stamped (ph (t_xmin (tup s)) (now s)) \<or> k = 10 \<and> \<not> flag (tup s) 12 \<and> stamped (ph (t_xmax (tup s)) (now s))"
    and n: "st = XID_ABORTED \<Longrightarrow> LatestFetchCSNDidAbort me xid s \<and>
      (j = 9 \<and> \<not> flag (tup s) 8 \<and> failed (ph (t_xmin (tup s)) (now s)) \<or> j = 11 \<and> (\<forall>d. updater me (tup s) = Some d \<longrightarrow> failed (ph d (now s))))"
  obtains s' where "hint_status me W yes no xid st s = (Inr (), s')" "good me W nxt ph s'" "same_tuple (tup s) (tup s')" "now s' = now s"
proof (cases st)
  case XID_COMMITTED
  have c: "k = 8 \<and> \<not> flag (tup s) 9 \<and> stamped (ph (t_xmin (tup s)) (now s)) \<or> k = 9 \<and> \<not> flag (tup s) 8 \<and> failed (ph (t_xmin (tup s)) (now s)) \<or>
     k = 10 \<and> \<not> flag (tup s) 12 \<and> stamped (ph (t_xmax (tup s)) (now s)) \<or> k = 11 \<and> (\<forall>d. updater me (tup s) = Some d \<longrightarrow> failed (ph d (now s)))"
    using y [OF XID_COMMITTED] by blast
  show thesis using hint_good [OF g a(1) c] XID_COMMITTED by (intro that [of "SetHintBits me W yes xid s"]) (simp_all add: hint_status_def)
next
  case XID_ABORTED
  have c: "j = 8 \<and> \<not> flag (tup s) 9 \<and> stamped (ph (t_xmin (tup s)) (now s)) \<or> j = 9 \<and> \<not> flag (tup s) 8 \<and> failed (ph (t_xmin (tup s)) (now s)) \<or>
     j = 10 \<and> \<not> flag (tup s) 12 \<and> stamped (ph (t_xmax (tup s)) (now s)) \<or> j = 11 \<and> (\<forall>d. updater me (tup s) = Some d \<longrightarrow> failed (ph d (now s)))"
    using n [OF XID_ABORTED] by blast
  show thesis using hint_good [OF g a(2) c] XID_ABORTED n by (intro that [of "SetHintBits me W no InvalidTransactionId s"]) (simp_all add: hint_status_def)
next
  case XID_INPROGRESS
  then show thesis using g same_tuple_refl by (intro that [of s]) (simp_all add: hint_status_def)
qed

text \<open>
  The rule of the comments of \<^verbatim>\<open>HeapTupleSatisfiesMVCC\<close>, for the transactions \<open>V\<close> that the snapshot sees. A version snapshot is independent of the own transaction.
\<close>

definition mvcc_xmax_rule :: "session \<Rightarrow> SnapshotData \<Rightarrow> HeapTupleData \<Rightarrow> (TransactionId \<Rightarrow> bool) \<Rightarrow> bool" where
  "mvcc_xmax_rule me sn tuple V = xmax_rule me tuple (t_cmax tuple < curcid sn \<and> \<not> IsVersionMVCCSnapshot sn) V"

definition mvcc_rule :: "session \<Rightarrow> SnapshotData \<Rightarrow> HeapTupleData \<Rightarrow> (TransactionId \<Rightarrow> bool) \<Rightarrow> bool" where
  "mvcc_rule me sn tuple V \<longleftrightarrow>
     (inserted tuple V \<or> \<not> IsVersionMVCCSnapshot sn \<and> TransactionIdIsCurrentTransactionId me (t_xmin tuple) \<and> t_cmin tuple < curcid sn) \<and>
     mvcc_xmax_rule me sn tuple V"

text \<open>The call returns the answer \<open>b\<close>, and leaves the tuple as it was up to right hint bits.\<close>

definition returns :: "session \<Rightarrow> world \<Rightarrow> (nat \<Rightarrow> CommitSeqNo) \<Rightarrow> (TransactionId \<Rightarrow> nat \<Rightarrow> phase) \<Rightarrow> vis_state \<Rightarrow> bool \<Rightarrow> bool result \<times> vis_state \<Rightarrow> bool" where
  "returns me W nxt ph s b r \<longleftrightarrow> (\<exists>s'. r = (Inr b, s') \<and> good me W nxt ph s' \<and> same_tuple (tup s) (tup s') \<and> now s \<le> now s')"

definition returns_some :: "session \<Rightarrow> world \<Rightarrow> (nat \<Rightarrow> CommitSeqNo) \<Rightarrow> (TransactionId \<Rightarrow> nat \<Rightarrow> phase) \<Rightarrow> vis_state \<Rightarrow> bool \<Rightarrow> (bool result \<times> vis_state) option \<Rightarrow> bool" where
  "returns_some me W nxt ph s b r \<longleftrightarrow> (\<exists>r'. r = Some r' \<and> returns me W nxt ph s b r')"

text \<open>
  What all these calls assume: the states are good and the snapshot is one; the session is neither in maintenance mode nor in the abort of a transaction, and does not
  show all tuples; it knows the combo command id of the tuple; the tuple has an inserter, and has an updater unless it is marked as having none or as only
  locked (a tuple that nobody has deleted has the id 0 and the flag \<^verbatim>\<open>HEAP_XMAX_INVALID\<close>). For a version snapshot, the own transaction is not the updater in a
  multixact: there the code asks for the own transaction, against its comments.
\<close>

definition version_own_multi :: "session \<Rightarrow> SnapshotData \<Rightarrow> HeapTupleData \<Rightarrow> bool" where
  "version_own_multi me sn tuple \<longleftrightarrow> IsVersionMVCCSnapshot sn \<and> infomask_bit tuple HEAP_XMAX_IS_MULTI \<and>
     (\<exists>d. updater me tuple = Some d \<and> TransactionIdIsCurrentTransactionId me d)"

definition ids_valid :: "session \<Rightarrow> HeapTupleData \<Rightarrow> bool" where
  "ids_valid me tuple \<longleftrightarrow> TransactionIdIsValid (t_xmin tuple) \<and>
     (\<forall>d. updater me tuple = Some d \<longrightarrow> TransactionIdIsValid d \<or> infomask_bit tuple HEAP_XMAX_INVALID)"

definition mvcc_call :: "session \<Rightarrow> world \<Rightarrow> (nat \<Rightarrow> CommitSeqNo) \<Rightarrow> (TransactionId \<Rightarrow> nat \<Rightarrow> phase) \<Rightarrow> SnapshotData \<Rightarrow> vis_state \<Rightarrow> bool" where
  "mvcc_call me W nxt ph sn s \<longleftrightarrow> good me W nxt ph s \<and> snapshot_ok me nxt ph sn s \<and> quiet me W nxt ph \<and> \<not> xc_maintenance_mode me \<and> \<not> bInAbortTransaction me \<and>
     ids_valid me (tup s) \<and> \<not> version_own_multi me sn (tup s) \<and> \<not> (XactReadOnly me \<and> enable_show_any_tuples me) \<and>
     (infomask_bit (tup s) HEAP_COMBOCID \<longrightarrow> t_cid (tup s) < usedComboCids me)"

lemma mvcc_callD:
  assumes "mvcc_call me W nxt ph sn s"
  shows "good me W nxt ph s" "snapshot_ok me nxt ph sn s" "quiet me W nxt ph" "\<not> xc_maintenance_mode me" "\<not> bInAbortTransaction me"
    "TransactionIdIsValid (t_xmin (tup s))" "\<not> (XactReadOnly me \<and> enable_show_any_tuples me)" "flag (tup s) 5 \<Longrightarrow> t_cid (tup s) < usedComboCids me"
    "updater me (tup s) = Some d \<Longrightarrow> \<not> flag (tup s) 11 \<Longrightarrow> TransactionIdIsValid d"
    "updater me (tup s) = Some d \<Longrightarrow> flag (tup s) 12 \<Longrightarrow> TransactionIdIsCurrentTransactionId me d \<Longrightarrow> \<not> IsVersionMVCCSnapshot sn"
  using assms by (auto simp: mvcc_call_def ids_valid_def version_own_multi_def infomask_flags)

lemma mvcc_call_later:
  assumes "mvcc_call me W nxt ph sn s" "good me W nxt ph s'" "same_tuple (tup s) (tup s')" "now s \<le> now s'"
  shows "mvcc_call me W nxt ph sn s'"
proof -
  note u = same_tuple_updater [OF assms(3)]
  have "ids_valid me (tup s')" "\<not> version_own_multi me sn (tup s')" using assms(1) u(13)
    by (auto simp: mvcc_call_def ids_valid_def version_own_multi_def infomask_flags u(1,3,7))
  moreover have "snapshot_ok me nxt ph sn s'" using snapshot_ok_later(1) [OF mvcc_callD(1,2) [OF assms(1)] assms(3,4)] .
  ultimately show ?thesis using assms(1,2) unfolding mvcc_call_def infomask_flags u by blast
qed

lemma returns_later:
  assumes "returns me W nxt ph s1 b r" "same_tuple (tup s) (tup s1)" "now s \<le> now s1"
  shows "returns me W nxt ph s b r"
proof -
  obtain s' where r: "r = (Inr b, s')" "good me W nxt ph s'" "same_tuple (tup s1) (tup s')" "now s1 \<le> now s'" using assms(1) unfolding returns_def by blast
  show ?thesis unfolding returns_def by (rule exI [of _ s']) (use r assms(3) same_tuple_trans [OF assms(2) r(3)] in simp)
qed

lemma XidVisible_call:
  assumes c: "mvcc_call me W nxt ph sn s" and i: "xid \<in> tuple_ids me (tup s)" and v: "TransactionIdIsValid xid"
  obtains st sync s' where "XidVisibleInSnapshot me W xid sn buffer s = (Inr (seen (snapshotcsn sn) (ph xid (now s)), st, sync), s')" "good me W nxt ph s'"
    "now s \<le> now s'" "same_tuple (tup s) (tup s')" "status_ok me (ph xid (now s')) xid st s'" "seen (snapshotcsn sn) (ph xid (now s)) \<longrightarrow> stamped (ph xid (now s'))"
    "mvcc_call me W nxt ph sn s'"
  by (rule XidVisible_good [OF mvcc_callD(1,2) [OF c] i mvcc_callD(3-5) [OF c] v, where buffer = buffer]) (use mvcc_call_later [OF c] that in blast)

lemma mvcc_multi_good:
  assumes c: "mvcc_call me W nxt ph sn s" and f: "flag (tup s) 12" "\<not> HEAP_XMAX_IS_LOCKED_ONLY (tup s)" "\<not> flag (tup s) 11"
  shows "returns me W nxt ph s (mvcc_xmax_rule me sn (tup s) (\<lambda>xid. seen (snapshotcsn sn) (ph xid (now s)))) (mvcc_multi me W sn s)"
proof -
  let ?d = "MultiXactIdGetUpdateXid me (t_xmax (tup s))" and ?S = "snapshotcsn sn"
  have u: "updater me (tup s) = Some ?d" using f by (simp add: updater_def infomask_flags)
  note i = updater_ids [OF u] and g = mvcc_callD(1) [OF c]
  show ?thesis
  proof (cases "TransactionIdIsCurrentTransactionId me ?d")
    case True
    then have "\<not> seen ?S (ph ?d (now s))" using good_current [OF g i True, of "now s"] by (simp add: seen_def)
    moreover have "\<not> IsVersionMVCCSnapshot sn" by (rule mvcc_callD(10) [OF c u f(1) True])
    ultimately show ?thesis using True u f g same_tuple_refl by (auto simp: returns_def mvcc_multi_def mvcc_xmax_rule_def xmax_rule_def infomask_flags)
  next
    case False
    then have rule: "mvcc_xmax_rule me sn (tup s) (\<lambda>xid. seen ?S (ph xid (now s))) = (\<not> seen ?S (ph ?d (now s)))" using u by (simp add: mvcc_xmax_rule_def xmax_rule_def)
    obtain st sync s1 where x: "XidVisibleInSnapshot me W ?d sn False s = (Inr (seen ?S (ph ?d (now s)), st, sync), s1)" "good me W nxt ph s1"
      "now s \<le> now s1" "same_tuple (tup s) (tup s1)" "seen ?S (ph ?d (now s)) \<longrightarrow> stamped (ph ?d (now s1))" "mvcc_call me W nxt ph sn s1"
      by (rule XidVisible_call [OF c i mvcc_callD(9) [OF c u f(3)], where buffer = False]) blast
    have i1: "?d \<in> tuple_ids me (tup s1)" using i same_tuple_ids [OF x(4)] by simp
    show ?thesis
    proof (cases "seen ?S (ph ?d (now s))")
      case see: True
      obtain b s2 where l: "look_commit me W ?d s1 = (b, s2)" by fastforce
      note e = look_commit_eq [OF l]
      have st: "stamped (ph ?d (now s1))" using x(5) see by blast
      then have b: "b" using e history_shows [OF good_history [OF x(2) i1], of "now s1"] phase_rules(4) by (simp add: shows_phase_def)
      have g2: "good me W nxt ph s2" by (rule good_wait [OF x(2)]) (simp_all add: e)
      have t2: "same_tuple (tup s1) (tup s2)" "now s1 \<le> now s2" using e same_tuple_refl by simp_all
      note c2 = mvcc_call_later [OF x(6) g2 t2]
      have i2: "?d \<in> tuple_ids me (tup s2)" "stamped (ph ?d (now s2))" using i1 e later_stable(1) [OF good_later [OF x(2) i1 t2(2)] st] by simp_all
      have s2: "seen ?S (ph ?d (now s2))"
        using see snapshot_ok_later(2) [OF mvcc_callD(1,2) [OF c] x(4,3) i] snapshot_ok_later(2) [OF mvcc_callD(1,2) [OF x(6)] t2 i1] by simp
      obtain s3 where s3: "CommittedXidVisibleInSnapshot me W ?d sn s2 = (seen ?S (ph ?d (now s2)), s3)" "good me W nxt ph s3" "now s2 \<le> now s3" "tup s3 = tup s2"
        by (rule CommittedXid_good [OF mvcc_callD(1,2) [OF c2] i2])
      have "mvcc_multi me W sn s = (Inr False, s3)" using False x(1) see l b s3(1) s2 by (simp add: mvcc_multi_def Let_def)
      then show ?thesis unfolding rule returns_def using see s3 x(3,4) t2 e by auto
    next
      case unseen: False
      then have "mvcc_multi me W sn s = (Inr True, s1)" using False x(1) by (simp add: mvcc_multi_def Let_def)
      then show ?thesis unfolding rule returns_def using unseen x by auto
    qed
  qed
qed

abbreviation snapshot_sees :: "SnapshotData \<Rightarrow> (TransactionId \<Rightarrow> nat \<Rightarrow> phase) \<Rightarrow> nat \<Rightarrow> TransactionId \<Rightarrow> bool" where
  "snapshot_sees sn ph t \<equiv> (\<lambda>xid. seen (snapshotcsn sn) (ph xid t))"

text \<open>The rule has the same result at all later instants.\<close>

lemma mvcc_rule_later:
  fixes s' :: vis_state
  assumes c: "mvcc_call me W nxt ph sn s" and st: "same_tuple (tup s) (tup s')" and n: "now s \<le> now s'"
  shows "mvcc_xmax_rule me sn (tup s') (snapshot_sees sn ph (now s')) = mvcc_xmax_rule me sn (tup s) (snapshot_sees sn ph (now s))"
    "mvcc_rule me sn (tup s') (snapshot_sees sn ph (now s')) = mvcc_rule me sn (tup s) (snapshot_sees sn ph (now s))"
proof -
  note sees = snapshot_ok_later(2) [OF mvcc_callD(1,2) [OF c] st n] and u = same_tuple_updater [OF st]
  show x: "mvcc_xmax_rule me sn (tup s') (snapshot_sees sn ph (now s')) = mvcc_xmax_rule me sn (tup s) (snapshot_sees sn ph (now s))"
    using sees [OF updater_ids] unfolding mvcc_xmax_rule_def xmax_rule_def u infomask_flags by auto
  show "mvcc_rule me sn (tup s') (snapshot_sees sn ph (now s')) = mvcc_rule me sn (tup s) (snapshot_sees sn ph (now s))"
    using sees [OF xmin_ids] unfolding mvcc_rule_def x inserted_def same_tuple_rules(3) [OF st] u by simp
qed

lemma mvcc_xmax_good:
  assumes c: "mvcc_call me W nxt ph sn s"
  shows "returns_some me W nxt ph s (mvcc_xmax_rule me sn (tup s) (snapshot_sees sn ph (now s))) (mvcc_xmax rechecks me W sn s)"
proof -
  let ?x = "t_xmax (tup s)" and ?S = "snapshotcsn sn"
  note g = mvcc_callD(1) [OF c]
  consider (inv) "flag (tup s) 11" | (lock) "\<not> flag (tup s) 11" "HEAP_XMAX_IS_LOCKED_ONLY (tup s)"
    | (mul) "\<not> flag (tup s) 11" "\<not> HEAP_XMAX_IS_LOCKED_ONLY (tup s)" "flag (tup s) 12"
    | (one) "\<not> flag (tup s) 11" "\<not> HEAP_XMAX_IS_LOCKED_ONLY (tup s)" "\<not> flag (tup s) 12" by blast
  then show ?thesis
  proof cases
    case inv
    have "\<forall>d. updater me (tup s) = Some d \<longrightarrow> \<not> TransactionIdIsCurrentTransactionId me d \<and> \<not> seen ?S (ph d (now s))"
      using invalid_xmax [OF g inv] good_hints [OF g] inv phase_rules(6) by (auto simp: hints_ok_def)
    then have "mvcc_xmax_rule me sn (tup s) (snapshot_sees sn ph (now s))" by (simp add: mvcc_xmax_rule_def xmax_rule_def)
    moreover have "mvcc_xmax rechecks me W sn s = Some (Inr True, s)" using inv by (subst mvcc_xmax.simps) (simp add: infomask_flags)
    ultimately show ?thesis using g same_tuple_refl by (simp add: returns_some_def returns_def)
  next
    case lock
    then have "mvcc_xmax_rule me sn (tup s) (snapshot_sees sn ph (now s))" by (simp add: mvcc_xmax_rule_def xmax_rule_def updater_def)
    moreover have "mvcc_xmax rechecks me W sn s = Some (Inr True, s)" using lock by (subst mvcc_xmax.simps) (simp add: infomask_flags)
    ultimately show ?thesis using g same_tuple_refl by (simp add: returns_some_def returns_def)
  next
    case mul
    then have "mvcc_xmax rechecks me W sn s = Some (mvcc_multi me W sn s)" by (subst mvcc_xmax.simps) (simp add: infomask_flags)
    then show ?thesis using mvcc_multi_good [OF c mul(3,2,1)] by (simp add: returns_some_def)
  next
    case one
    have u: "updater me (tup s) = Some ?x" using one by (simp add: updater_def infomask_flags)
    note i = updater_ids [OF u]
    have rule: "mvcc_xmax_rule me sn (tup s) (snapshot_sees sn ph (now s)) =
        (\<not> (TransactionIdIsCurrentTransactionId me ?x \<and> t_cmax (tup s) < curcid sn \<and> \<not> IsVersionMVCCSnapshot sn) \<and> \<not> seen ?S (ph ?x (now s)))"
      using u one(3) by (simp add: mvcc_xmax_rule_def xmax_rule_def infomask_flags)
    consider (com) "flag (tup s) 10" | (own) "\<not> flag (tup s) 10" "\<not> IsVersionMVCCSnapshot sn" "TransactionIdIsCurrentTransactionId me ?x"
      | (other) "\<not> flag (tup s) 10" "\<not> (\<not> IsVersionMVCCSnapshot sn \<and> TransactionIdIsCurrentTransactionId me ?x)" by blast
    then show ?thesis
    proof cases
      case com
      have st: "stamped (ph ?x (now s))" using good_hints [OF g] com one by (simp add: hints_ok_def)
      obtain s1 where s1: "CommittedXidVisibleInSnapshot me W ?x sn s = (seen ?S (ph ?x (now s)), s1)" "good me W nxt ph s1" "now s \<le> now s1" "tup s1 = tup s"
        by (rule CommittedXid_good [OF mvcc_callD(1,2) [OF c] i st])
      have "mvcc_xmax rechecks me W sn s = Some (Inr (\<not> seen ?S (ph ?x (now s))), s1)"
        using com one s1(1) by (subst mvcc_xmax.simps) (simp add: infomask_flags)
      moreover have "\<not> TransactionIdIsCurrentTransactionId me ?x" using good_not_current [OF g i] st by blast
      ultimately show ?thesis unfolding rule using s1 same_tuple_refl by (simp add: returns_some_def returns_def)
    next
      case own
      then have "\<not> seen ?S (ph ?x (now s))" using good_current [OF g i own(3), of "now s"] by (simp add: seen_def)
      moreover have "mvcc_xmax rechecks me W sn s = Some (Inr (t_cmax (tup s) \<ge> curcid sn), note_write (t_cmax (tup s) < curcid sn) s)"
        using own one by (subst mvcc_xmax.simps) (simp add: infomask_flags Let_def)
      moreover have "good me W nxt ph (note_write b s)" for b by (rule good_wait [OF g]) simp_all
      ultimately show ?thesis unfolding rule using own same_tuple_refl by (auto simp: returns_some_def returns_def not_less)
    next
      case other
      obtain st sync s1 where x: "XidVisibleInSnapshot me W ?x sn True s = (Inr (seen ?S (ph ?x (now s)), st, sync), s1)" "good me W nxt ph s1"
        "now s \<le> now s1" "same_tuple (tup s) (tup s1)" "status_ok me (ph ?x (now s1)) ?x st s1"
        by (rule XidVisible_call [OF c i mvcc_callD(9) [OF c u one(1)], where buffer = True]) blast
      note t1 = same_tuple_updater [OF x(4)]
      obtain s2 where h: "hint_status me W HEAP_XMAX_COMMITTED HEAP_XMAX_INVALID (t_xmax (tup s1)) st s1 = (Inr (), s2)" "good me W nxt ph s2"
        "same_tuple (tup s1) (tup s2)" "now s2 = now s1"
      proof (rule hint_status_good [OF x(2) mask_bits(3) mask_bits(4), of st "t_xmax (tup s1)"])
        show "10 = 8 \<and> \<not> flag (tup s1) 9 \<and> stamped (ph (t_xmin (tup s1)) (now s1)) \<or> 10 = 10 \<and> \<not> flag (tup s1) 12 \<and> stamped (ph (t_xmax (tup s1)) (now s1))"
          if "st = XID_COMMITTED" using x(5) that one(3) t1 by (simp add: status_ok_def)
        show "LatestFetchCSNDidAbort me (t_xmax (tup s1)) s1 \<and> (11 = 9 \<and> \<not> flag (tup s1) 8 \<and> failed (ph (t_xmin (tup s1)) (now s1)) \<or>
            11 = 11 \<and> (\<forall>d. updater me (tup s1) = Some d \<longrightarrow> failed (ph d (now s1))))"
          if "st = XID_ABORTED" using x(5) that u t1 by (simp add: status_ok_def)
      qed (rule that)
      have "mvcc_xmax rechecks me W sn s = Some (Inr (\<not> seen ?S (ph ?x (now s))), s2)"
        using other one x(1) h(1) t1(4) by (subst mvcc_xmax.simps) (auto simp: infomask_flags Let_def)
      then show ?thesis unfolding rule using other x(3) same_tuple_trans [OF x(4) h(3)] h(2,4) by (auto simp: returns_some_def returns_def)
    qed
  qed
qed

lemma mvcc_own_good:
  assumes c: "mvcc_call me W nxt ph sn s" and cur: "TransactionIdIsCurrentTransactionId me (t_xmin (tup s))" and f: "\<not> flag (tup s) 8" and v: "\<not> IsVersionMVCCSnapshot sn"
  shows "returns me W nxt ph s (mvcc_rule me sn (tup s) (snapshot_sees sn ph (now s))) (mvcc_own me W sn s)"
proof -
  let ?S = "snapshotcsn sn"
  note g = mvcc_callD(1) [OF c]
  have ns: "\<not> seen ?S (ph d (now s))" if u: "updater me (tup s) = Some d" for d
  proof (cases "TransactionIdIsCurrentTransactionId me d")
    case True
    then show ?thesis using good_current [OF g updater_ids [OF u] True, of "now s"] by (simp add: seen_def)
  next
    case False
    then show ?thesis using own_deleter_failed [OF g cur u] phase_rules(6) by blast
  qed
  have "\<not> inserted (tup s) (snapshot_sees sn ph (now s))" using f good_current [OF g xmin_ids cur, of "now s"] by (simp add: inserted_def frozen_def seen_def)
  then have rule: "mvcc_rule me sn (tup s) (snapshot_sees sn ph (now s)) = (t_cmin (tup s) < curcid sn \<and>
      (\<forall>d. updater me (tup s) = Some d \<longrightarrow> \<not> (TransactionIdIsCurrentTransactionId me d \<and> t_cmax (tup s) < curcid sn)))"
    using ns cur v by (auto simp: mvcc_rule_def mvcc_xmax_rule_def xmax_rule_def)
  have combo: "(if infomask_bit (tup s) HEAP_COMBOCID then CheckStreamCombocid me (tup s) else Inr False) = Inr False"
    using mvcc_callD(8) [OF c] by (auto simp: infomask_flags CheckStreamCombocid_def)
  have gw: "good me W nxt ph u \<and> same_tuple (tup s) (tup u) \<and> now s \<le> now u" if "tup u = tup s" "now u = now s" for u
    using good_wait [OF g, of u] that same_tuple_refl by simp
  consider "t_cmin (tup s) \<ge> curcid sn" | "t_cmin (tup s) < curcid sn" "flag (tup s) 11"
    | "t_cmin (tup s) < curcid sn" "\<not> flag (tup s) 11" "HEAP_XMAX_IS_LOCKED_ONLY (tup s)"
    | "t_cmin (tup s) < curcid sn" "\<not> flag (tup s) 11" "\<not> HEAP_XMAX_IS_LOCKED_ONLY (tup s)" "flag (tup s) 12"
    | "t_cmin (tup s) < curcid sn" "\<not> flag (tup s) 11" "\<not> HEAP_XMAX_IS_LOCKED_ONLY (tup s)" "\<not> flag (tup s) 12" "TransactionIdIsCurrentTransactionId me (t_xmax (tup s))"
    | "t_cmin (tup s) < curcid sn" "\<not> flag (tup s) 11" "\<not> HEAP_XMAX_IS_LOCKED_ONLY (tup s)" "\<not> flag (tup s) 12" "\<not> TransactionIdIsCurrentTransactionId me (t_xmax (tup s))"
    using not_less by blast
  then show ?thesis
  proof cases
    case 1
    then show ?thesis unfolding rule returns_def mvcc_own_def Let_def combo using gw by (auto simp: not_less)
  next
    case 2
    then show ?thesis unfolding rule returns_def mvcc_own_def Let_def combo using gw invalid_xmax [OF g 2(2)] by (auto simp: infomask_flags not_le)
  next
    case 3
    then show ?thesis unfolding rule returns_def mvcc_own_def Let_def combo using gw by (auto simp: infomask_flags not_le updater_def)
  next
    case 4
    then show ?thesis unfolding rule returns_def mvcc_own_def Let_def combo using gw by (auto simp: infomask_flags not_le updater_def)
  next
    case 5
    then show ?thesis unfolding rule returns_def mvcc_own_def Let_def combo using gw by (auto simp: infomask_flags not_le updater_def)
  next
    case 6
    let ?u = "note_write (t_cmin (tup s) < curcid sn) s"
    have u: "updater me (tup s) = Some (t_xmax (tup s))" using 6 by (simp add: updater_def infomask_flags)
    have "\<forall>d. updater me (tup ?u) = Some d \<longrightarrow> failed (ph d (now ?u))" using own_deleter_failed [OF g cur u 6(5)] u by simp
    then have "good me W nxt ph (SetHintBits me W HEAP_XMAX_INVALID InvalidTransactionId ?u)"
      "same_tuple (tup ?u) (tup (SetHintBits me W HEAP_XMAX_INVALID InvalidTransactionId ?u))" "now (SetHintBits me W HEAP_XMAX_INVALID InvalidTransactionId ?u) = now ?u"
      using hint_good [OF conjunct1 [OF gw] mask_bits(4), of ?u InvalidTransactionId] by simp_all
    then show ?thesis unfolding rule returns_def mvcc_own_def Let_def combo using 6 u by (auto simp: infomask_flags not_le)
  qed
qed

lemma returns_some_later:
  assumes "returns_some me W nxt ph s1 b r" "same_tuple (tup s) (tup s1)" "now s \<le> now s1"
  shows "returns_some me W nxt ph s b r"
  using assms returns_later by (auto simp: returns_some_def)

text \<open>After the inserter has turned out to be seen.\<close>

lemma mvcc_continue:
  assumes c: "mvcc_call me W nxt ph sn s" and s1: "good me W nxt ph s1" "same_tuple (tup s) (tup s1)" "now s \<le> now s1"
    and i: "inserted (tup s) (snapshot_sees sn ph (now s))"
  shows "returns_some me W nxt ph s (mvcc_rule me sn (tup s) (snapshot_sees sn ph (now s))) (mvcc_xmax rechecks me W sn s1)"
proof -
  have "mvcc_rule me sn (tup s) (snapshot_sees sn ph (now s)) = mvcc_xmax_rule me sn (tup s) (snapshot_sees sn ph (now s))" using i by (simp add: mvcc_rule_def)
  then show ?thesis
    using returns_some_later [OF mvcc_xmax_good [OF mvcc_call_later [OF c s1]] s1(2,3)] by (simp add: mvcc_rule_later(1) [OF c s1(2,3)])
qed

lemma hint_xmin_good:
  assumes g: "good me W nxt ph s1" and f: "\<not> frozen (tup s1)" and st: "status_ok me (ph (t_xmin (tup s1)) (now s1)) (t_xmin (tup s1)) st s1"
  obtains s2 where "hint_status me W HEAP_XMIN_COMMITTED HEAP_XMIN_INVALID (t_xmin (tup s1)) st s1 = (Inr (), s2)" "good me W nxt ph s2" "same_tuple (tup s1) (tup s2)" "now s2 = now s1"
proof (rule hint_status_good [OF g mask_bits(1) mask_bits(2), of st "t_xmin (tup s1)"])
  let ?p = "ph (t_xmin (tup s1)) (now s1)"
  note h = good_hints [OF g, unfolded hints_ok_def] and no = phase_rules(5) [of ?p]
  show "8 = 8 \<and> \<not> flag (tup s1) 9 \<and> stamped ?p \<or> 8 = 10 \<and> \<not> flag (tup s1) 12 \<and> stamped (ph (t_xmax (tup s1)) (now s1))" if "st = XID_COMMITTED"
  proof -
    have "stamped ?p" using st that by (simp add: status_ok_def)
    then show ?thesis using h no f by (simp add: frozen_def) blast
  qed
  show "LatestFetchCSNDidAbort me (t_xmin (tup s1)) s1 \<and>
     (9 = 9 \<and> \<not> flag (tup s1) 8 \<and> failed ?p \<or> 9 = 11 \<and> (\<forall>d. updater me (tup s1) = Some d \<longrightarrow> failed (ph d (now s1))))" if "st = XID_ABORTED"
  proof -
    have "failed ?p" "LatestFetchCSNDidAbort me (t_xmin (tup s1)) s1" using st that by (simp_all add: status_ok_def)
    then show ?thesis using h no f by (simp add: frozen_def) blast
  qed
qed (rule that)

lemma MVCC_good:
  assumes c: "mvcc_call me W nxt ph sn s"
  shows "returns_some me W nxt ph s (mvcc_rule me sn (tup s) (snapshot_sees sn ph (now s))) (HeapTupleSatisfiesMVCC rechecks me W sn s)"
proof -
  let ?x = "t_xmin (tup s)" and ?S = "snapshotcsn sn"
  note g = mvcc_callD(1) [OF c] and any = mvcc_callD(7) [OF c] and i = xmin_ids [of "tup s" me]
  consider (frz) "flag (tup s) 8" "flag (tup s) 9" | (com) "flag (tup s) 8" "\<not> flag (tup s) 9" | (dead) "\<not> flag (tup s) 8" "flag (tup s) 9"
    | (own) "\<not> flag (tup s) 8" "\<not> flag (tup s) 9" "\<not> IsVersionMVCCSnapshot sn" "TransactionIdIsCurrentTransactionId me ?x"
    | (other) "\<not> flag (tup s) 8" "\<not> flag (tup s) 9" "\<not> (\<not> IsVersionMVCCSnapshot sn \<and> TransactionIdIsCurrentTransactionId me ?x)" by blast
  then show ?thesis
  proof cases
    case frz
    then have "HeapTupleSatisfiesMVCC rechecks me W sn s = mvcc_xmax rechecks me W sn s" using any by (auto simp: HeapTupleSatisfiesMVCC_def flags)
    then show ?thesis using mvcc_continue [OF c g same_tuple_refl order_refl] frz by (simp add: inserted_def frozen_def)
  next
    case com
    have st: "stamped (ph ?x (now s))" using good_hints [OF g] com by (simp add: hints_ok_def)
    obtain s1 where s1: "CommittedXidVisibleInSnapshot me W ?x sn s = (seen ?S (ph ?x (now s)), s1)" "good me W nxt ph s1" "now s \<le> now s1" "tup s1 = tup s"
      by (rule CommittedXid_good [OF mvcc_callD(1,2) [OF c] i st])
    have st1: "same_tuple (tup s) (tup s1)" using s1(4) same_tuple_refl by simp
    show ?thesis
    proof (cases "seen ?S (ph ?x (now s))")
      case True
      then have "HeapTupleSatisfiesMVCC rechecks me W sn s = mvcc_xmax rechecks me W sn s1" using any com s1(1) by (auto simp: HeapTupleSatisfiesMVCC_def flags)
      then show ?thesis using mvcc_continue [OF c s1(2) st1 s1(3)] True by (simp add: inserted_def)
    next
      case False
      then have "HeapTupleSatisfiesMVCC rechecks me W sn s = Some (Inr False, s1)" using any com s1(1) by (auto simp: HeapTupleSatisfiesMVCC_def flags)
      moreover have "\<not> mvcc_rule me sn (tup s) (snapshot_sees sn ph (now s))"
        using False com good_not_current [OF g i] st by (auto simp: mvcc_rule_def inserted_def frozen_def)
      ultimately show ?thesis using s1 st1 by (simp add: returns_some_def returns_def)
    qed
  next
    case dead
    have f: "failed (ph ?x (now s))" using good_hints [OF g] dead by (simp add: hints_ok_def)
    then have "\<not> mvcc_rule me sn (tup s) (snapshot_sees sn ph (now s))"
      using dead good_not_current [OF g i] phase_rules(6) by (auto simp: mvcc_rule_def inserted_def frozen_def)
    moreover have "HeapTupleSatisfiesMVCC rechecks me W sn s = Some (Inr False, s)" using any dead by (auto simp: HeapTupleSatisfiesMVCC_def flags)
    ultimately show ?thesis using g same_tuple_refl by (simp add: returns_some_def returns_def)
  next
    case own
    then have "HeapTupleSatisfiesMVCC rechecks me W sn s = Some (mvcc_own me W sn s)" using any by (auto simp: HeapTupleSatisfiesMVCC_def flags)
    then show ?thesis using mvcc_own_good [OF c own(4,1,3)] by (simp add: returns_some_def)
  next
    case other
    obtain st sync s1 where x: "XidVisibleInSnapshot me W ?x sn True s = (Inr (seen ?S (ph ?x (now s)), st, sync), s1)" "good me W nxt ph s1"
      "now s \<le> now s1" "same_tuple (tup s) (tup s1)" "status_ok me (ph ?x (now s1)) ?x st s1"
      by (rule XidVisible_call [OF c i mvcc_callD(6) [OF c], where buffer = True]) blast
    note t1 = same_tuple_updater [OF x(4)]
    have nf: "\<not> frozen (tup s1)" using other same_tuple_rules(3) [OF x(4)] by (simp add: frozen_def)
    obtain s2 where h: "hint_status me W HEAP_XMIN_COMMITTED HEAP_XMIN_INVALID ?x st s1 = (Inr (), s2)" "good me W nxt ph s2" "same_tuple (tup s1) (tup s2)" "now s2 = now s1"
      by (rule hint_xmin_good [OF x(2) nf, of st]) (use x(5) t1(3) in simp_all)
    have s2: "same_tuple (tup s) (tup s2)" "now s \<le> now s2" using same_tuple_trans [OF x(4) h(3)] x(3) h(4) by simp_all
    show ?thesis
    proof (cases "seen ?S (ph ?x (now s))")
      case True
      then have "HeapTupleSatisfiesMVCC rechecks me W sn s = mvcc_xmax rechecks me W sn s2" using any other x(1) h(1) t1(3) by (auto simp: HeapTupleSatisfiesMVCC_def flags Let_def)
      then show ?thesis using mvcc_continue [OF c h(2) s2] True by (simp add: inserted_def)
    next
      case False
      then have "HeapTupleSatisfiesMVCC rechecks me W sn s = Some (Inr False, s2)" using any other x(1) h(1) t1(3) by (auto simp: HeapTupleSatisfiesMVCC_def flags Let_def)
      moreover have "\<not> mvcc_rule me sn (tup s) (snapshot_sees sn ph (now s))" using False other by (auto simp: mvcc_rule_def inserted_def frozen_def)
      ultimately show ?thesis using s2 h(2) by (simp add: returns_some_def returns_def)
    qed
  qed
qed

section \<open>What vacuum removes\<close>

text \<open>The horizon of the session: the transactions before it have finished.\<close>

definition recent_ok :: "session \<Rightarrow> (TransactionId \<Rightarrow> nat \<Rightarrow> phase) \<Rightarrow> vis_state \<Rightarrow> bool" where
  "recent_ok me ph s \<longleftrightarrow> (\<forall>xid \<in> tuple_ids me (tup s). TransactionIdPrecedes xid (RecentXmin me) \<longrightarrow> \<not> active (ph xid (now s)))"

lemma GetStatus_right:
  assumes sh: "shows_phase me (at W (now s)) xid p" and r: "TransactionIdPrecedes xid (RecentXmin me) \<Longrightarrow> \<not> active p"
    and st: "TransactionIdGetStatus me W xid s = (st, s')"
  shows "now s' = Suc (now s)" "tup s' = tup s" "st = XID_COMMITTED \<Longrightarrow> logged p" "st = XID_ABORTED \<Longrightarrow> failed p"
proof -
  let ?x = "at W (now s)"
  obtain v s1 where v: "TransactionIdGetCommitSeqNo me ?x xid False True None s = (v, s1)" by fastforce
  then have s1: "now s1 = now s" "tup s1 = tup s" by (auto simp: TransactionIdGetCommitSeqNo_def Let_def split: if_splits)
  have s': "s' = tick s1" "st = (if COMMITSEQNO_IS_COMMITTED v then XID_COMMITTED else if COMMITSEQNO_IS_ABORTED v then XID_ABORTED else XID_INPROGRESS)"
    using st v by (simp_all add: TransactionIdGetStatus_def)
  show "now s' = Suc (now s)" "tup s' = tup s" using s' s1 by simp_all
  consider "\<not> TransactionIdIsNormal xid" "v = CSNLogGetCommitSeqNo ?x xid" | "v = RecursiveGetCommitSeqNo ?x xid"
    | "TransactionIdIsNormal xid" "\<not> active p" "v = (if clog ?x xid = CLOG_XID_STATUS_COMMITTED then COMMITSEQNO_FROZEN else COMMITSEQNO_ABORTED)"
  proof (cases "TransactionIdIsNormal xid")
    case True
    then show thesis using v r that(2,3) by (auto simp: TransactionIdGetCommitSeqNo_def GetCSNByCLog_def Let_def split: if_splits)
  next
    case False
    have "unat xid < 3" using False by (auto simp: TransactionIdIsNormal_def FirstNormalTransactionId_def word_le_nat_alt)
    then have "xid = 0 \<or> xid = 1 \<or> xid = 2" by (auto simp: word_unat_eq_iff)
    then show thesis using v False that(1)
      by (auto simp: TransactionIdGetCommitSeqNo_def CSNLogGetCommitSeqNo_def InvalidTransactionId_def BootstrapTransactionId_def FrozenTransactionId_def)
  qed
  then have "(COMMITSEQNO_IS_COMMITTED v \<longrightarrow> logged p) \<and> (COMMITSEQNO_IS_ABORTED v \<longrightarrow> failed p)"
  proof cases
    case 1
    then show ?thesis using sh csn_shows_view [of p v 0] phase_rules(4) by (auto simp: shows_phase_def csn_view_def COMMITSEQNO_IS_ABORTED_def)
  next
    case 2
    then show ?thesis using sh by (simp add: shows_phase_def)
  next
    case 3
    have "clog ?x xid = CLOG_XID_STATUS_COMMITTED \<longleftrightarrow> logged p" using sh 3 by (simp add: shows_phase_def)
    then show ?thesis using 3 special_csn phase_rules(2) [of p] by (auto simp: COMMITSEQNO_IS_ABORTED_def COMMITSEQNO_FROZEN_def COMMITSEQNO_ABORTED_def)
  qed
  then show "st = XID_COMMITTED \<Longrightarrow> logged p" "st = XID_ABORTED \<Longrightarrow> failed p" using s'(2) by (auto split: if_splits)
qed

text \<open>The looks of vacuum at a transaction tell the truth, whatever the hint bits are.\<close>

lemma vacuum_status_right:
  assumes h: "history me W nxt xid P" and r: "TransactionIdPrecedes xid (RecentXmin me) \<Longrightarrow> \<not> active (P (now s))"
    and a: "TransactionIdGetStatus me W xid s = (st, s1)" "vacuum_status me W xid st s1 = (out, s2)"
  shows "now s \<le> now s2 \<and> tup s2 = tup s \<and> (out = XID_COMMITTED \<longrightarrow> logged (P (now s2))) \<and> (out = XID_ABORTED \<longrightarrow> failed (P (now s2)))"
proof (cases "st = XID_INPROGRESS")
  case False
  note g = GetStatus_right [OF history_shows [OF h] r a(1)]
  have "out = st" "s2 = s1" using False a(2) by (simp_all add: vacuum_status_def)
  then show ?thesis using g later_stable(2,3) [OF history_later [OF h, of "now s" "now s2"]] by simp
next
  case True
  note g = GetStatus_right(1,2) [OF history_shows [OF h] r a(1)]
  show ?thesis
  proof (cases "TransactionIdIsInProgress (at W (now s1)) xid")
    case in_progress: True
    then have "out = XID_INPROGRESS" "s2 = tick s1" using True a(2) by (simp_all add: vacuum_status_def look_progress_def)
    then show ?thesis using g by simp
  next
    case False
    then have na: "\<not> active (P (now s1))" using history_shows [OF h, of "now s1"] by (simp add: shows_phase_def)
    obtain b s3 where l: "look_commit me W xid (tick s1) = (b, s3)" by fastforce
    note e = look_commit_eq [OF l]
    have o: "out = (if b then XID_COMMITTED else XID_ABORTED)" "s2 = s3" using True False l a(2) by (simp_all add: vacuum_status_def look_progress_def)
    have p: "P t = P (now s1)" if "now s1 \<le> t" for t using later_stable(4) [OF history_later [OF h that] na] .
    have n: "now s2 = Suc (Suc (now s1))" "tup s2 = tup s" using e g o(2) by simp_all
    have "b = logged (P (now s1))" using e history_shows [OF h, of "Suc (now s1)"] p [of "Suc (now s1)"] by (simp add: shows_phase_def)
    then show ?thesis using p [of "now s2"] n g o(1) phase_rules(2) [OF na] by (cases b) simp_all
  qed
qed

lemma SetHintBits_now [simp]: "now (SetHintBits me W m xid s) = now s"
  by (simp add: SetHintBits_def)

lemma hint8_flags:
  assumes "hinted a 8 b"
  shows "flag b 10 = flag a 10" "flag b 11 = flag a 11" "flag b 12 = flag a 12" "HEAP_XMAX_IS_LOCKED_ONLY b = HEAP_XMAX_IS_LOCKED_ONLY a" "t_xmax b = t_xmax a"
    "HeapTupleHeaderGetUpdateXid me b = HeapTupleHeaderGetUpdateXid me a"
proof -
  note k = hinted_flags(1) [OF assms]
  show f: "flag b 10 = flag a 10" "flag b 11 = flag a 11" "flag b 12 = flag a 12" by (simp_all add: k)
  have m2: "t_infomask2 b = t_infomask2 a" and x: "t_xmax b = t_xmax a" using assms by (auto simp: hinted_def)
  then show "HEAP_XMAX_IS_LOCKED_ONLY b = HEAP_XMAX_IS_LOCKED_ONLY a" "t_xmax b = t_xmax a" by (simp_all add: flags locked_flags_def k)
  show "HeapTupleHeaderGetUpdateXid me b = HeapTupleHeaderGetUpdateXid me a" by (simp add: HeapTupleHeaderGetUpdateXid_def infomask_flags f m2 x)
qed

lemma update_xid: "flag a 12 \<Longrightarrow> \<not> flag a 11 \<Longrightarrow> \<not> HEAP_XMAX_IS_LOCKED_ONLY a \<Longrightarrow> updater me a = Some (HeapTupleHeaderGetUpdateXid me a)"
  using and_single_bit [OF mask_bits(8), of "t_infomask2 a"] by (simp add: updater_def HeapTupleHeaderGetUpdateXid_def flags locked_flags_def)

text \<open>When the second half says dead, an updater before \<open>OldestXmin\<close> has committed.\<close>

lemma vacuum_xmax_dead:
  assumes g: "good me W nxt ph s" and r: "recent_ok me ph s" and s1: "now s \<le> now s1" "hinted (tup s) 8 (tup s1)"
    and d: "vacuum_xmax me W OldestXmin s1 = (Inr HEAPTUPLE_DEAD, s')"
  shows "\<exists>d. updater me (tup s) = Some d \<and> d < OldestXmin \<and> logged (ph d (now s')) \<and> now s \<le> now s'"
proof -
  note f = hint8_flags [OF s1(2)]
  have nl: "\<not> flag (tup s) 11" "\<not> HEAP_XMAX_IS_LOCKED_ONLY (tup s)"
    using d by (auto simp: vacuum_xmax_def infomask_flags f vacuum_locked_def Let_def split: prod.splits if_splits)
  show ?thesis
  proof (cases "flag (tup s) 12")
    case True
    let ?d = "HeapTupleHeaderGetUpdateXid me (tup s)"
    have u: "updater me (tup s) = Some ?d" by (rule update_xid [OF True nl])
    have v: "vacuum_multi me W OldestXmin s1 = (Inr HEAPTUPLE_DEAD, s')" using d True nl by (simp add: vacuum_xmax_def infomask_flags f Let_def)
    obtain b s2 where l: "look_commit me W ?d (tick s1) = (b, s2)" by fastforce
    note e = look_commit_eq [OF l]
    have "b \<and> ?d < OldestXmin \<and> s' = s2"
      using v l by (auto simp: vacuum_multi_def f look_progress_def look_multi_def Let_def TransactionIdPrecedes_def split: if_splits)
    moreover have "later (nxt (Suc (now s1))) (ph ?d (Suc (now s1))) (ph ?d (Suc (Suc (now s1))))" by (rule history_later [OF good_history [OF g updater_ids [OF u]]]) simp
    ultimately show ?thesis using u e s1(1) history_shows [OF good_history [OF g updater_ids [OF u]], of "Suc (now s1)"] later_stable(2)
      by (auto simp: shows_phase_def)
  next
    case False
    let ?d = "t_xmax (tup s)"
    have u: "updater me (tup s) = Some ?d" using False nl by (simp add: updater_def infomask_flags)
    note i = updater_ids [OF u]
    note h = good_history [OF g i]
    have del: "vacuum_deleted me OldestXmin (tup s1) = HEAPTUPLE_DEAD \<Longrightarrow> ?d < OldestXmin"
      by (auto simp: vacuum_deleted_def unless_local_def f TransactionIdPrecedes_def split: if_splits)
    show ?thesis
    proof (cases "flag (tup s) 10")
      case True
      then have "stamped (ph ?d (now s))" using good_hints [OF g] nl by (simp add: hints_ok_def)
      then have "logged (ph ?d (now s1))" using later_stable(2) [OF good_later [OF g i s1(1)]] phase_rules(4) by blast
      moreover have "s' = s1" "?d < OldestXmin" using d True False nl del by (auto simp: vacuum_xmax_def infomask_flags f Let_def)
      ultimately show ?thesis using u s1(1) by blast
    next
      case n10: False
      obtain st s2 where st: "TransactionIdGetStatus me W ?d s1 = (st, s2)" by fastforce
      obtain out s3 where out: "vacuum_status me W ?d st s2 = (out, s3)" by fastforce
      have "\<not> active (ph ?d (now s1))" if "TransactionIdPrecedes ?d (RecentXmin me)"
        using r that i later_stable(7) [OF good_later [OF g i s1(1)]] by (auto simp: recent_ok_def)
      note v = vacuum_status_right [OF h this st out]
      have "out = XID_COMMITTED" "?d < OldestXmin" "now s' = now s3"
        using d n10 False nl st out del by (auto simp: vacuum_xmax_def infomask_flags f Let_def LatestTransactionStatusError_def split: if_splits)
      then show ?thesis using u v s1(1) by auto
    qed
  qed
qed

lemma vacuum_dead:
  assumes g: "good me W nxt ph s" and r: "recent_ok me ph s"
    and d: "HeapTupleSatisfiesVacuum me W OldestXmin isAnalyzing s = (Inr HEAPTUPLE_DEAD, s')"
  shows "now s \<le> now s' \<and> (failed (ph (t_xmin (tup s)) (now s')) \<and> \<not> frozen (tup s) \<or>
    (\<exists>d. updater me (tup s) = Some d \<and> d < OldestXmin \<and> logged (ph d (now s'))))"
proof (cases "flag (tup s) 8")
  case True
  then have "vacuum_xmax me W OldestXmin s = (Inr HEAPTUPLE_DEAD, s')" using d by (simp add: HeapTupleSatisfiesVacuum_def flags)
  then show ?thesis using vacuum_xmax_dead [OF g r order_refl] by (auto simp: hinted_def)
next
  case n8: False
  let ?x = "t_xmin (tup s)"
  note i = xmin_ids [of "tup s" me]
  show ?thesis
  proof (cases "flag (tup s) 9")
    case True
    then have "s' = s" using d n8 by (simp add: HeapTupleSatisfiesVacuum_def flags)
    then show ?thesis using good_hints [OF g] True n8 by (simp add: hints_ok_def frozen_def)
  next
    case False
    obtain st s1 where st: "TransactionIdGetStatus me W ?x s = (st, s1)" by fastforce
    obtain out s2 where out: "vacuum_status me W ?x st s1 = (out, s2)" by fastforce
    have "\<not> active (ph ?x (now s))" if "TransactionIdPrecedes ?x (RecentXmin me)" using r that i by (simp add: recent_ok_def)
    note v = vacuum_status_right [OF good_history [OF g i] this st out]
    have nc: "\<not> TransactionIdIsCurrentTransactionId me ?x"
      using d n8 False st by (auto simp: HeapTupleSatisfiesVacuum_def flags vacuum_own_def Let_def split: if_splits)
    show ?thesis
    proof (cases "out = XID_COMMITTED")
      case True
      let ?s2 = "if \<not> isAnalyzing then SetHintBits me W HEAP_XMIN_COMMITTED ?x s2 else s2"
      have "vacuum_xmax me W OldestXmin ?s2 = (Inr HEAPTUPLE_DEAD, s')" using d n8 False st out nc True by (auto simp: HeapTupleSatisfiesVacuum_def flags)
      moreover have "hinted (tup s) 8 (tup ?s2)" using hint_xmin_committed [of s2 me W ?x] v by (auto simp: hinted_def)
      moreover have "now s \<le> now ?s2" using v by simp
      ultimately show ?thesis using vacuum_xmax_dead [OF g r, of ?s2 OldestXmin s'] by blast
    next
      case nc2: False
      then have "out = XID_ABORTED" "now s' = now s2"
        using d n8 False st out nc by (cases out; auto simp: HeapTupleSatisfiesVacuum_def flags LatestTransactionStatusError_def Let_def split: if_splits)+
      then show ?thesis using v n8 by (simp add: frozen_def)
    qed
  qed
qed

text \<open>
  C7. Snapshot isolation: as long as a session uses a snapshot and nobody updates, deletes or locks the tuple anew, \<^verbatim>\<open>HeapTupleSatisfiesMVCC\<close> gives the same answer about it, that
  of the rule in its comments for the transactions which the snapshot sees, however far the transactions that have inserted and deleted it have got, and
  whichever hint bits have been set meanwhile. It returns without error, without entering the loop again, and every hint bit that it sets is right. The snapshot is
  one as the server takes it: whoever is running then gets a sequence number not below that of the snapshot, and those before its \<open>snap_xmin\<close> have finished. The
  tuple may be one that nobody has deleted. Left out by \<open>mvcc_call\<close> are the maintenance mode, the abort of a transaction, a session that shows all tuples, and a
  version snapshot for a tuple whose updater is the own transaction in a multixact.
\<close>

theorem mvcc_repeatable:
  assumes "mvcc_call me W nxt ph sn s" "good me W nxt ph s'" "same_tuple (tup s) (tup s')" "now s \<le> now s'"
  shows "returns_some me W nxt ph s (mvcc_rule me sn (tup s) (snapshot_sees sn ph (now s))) (HeapTupleSatisfiesMVCC rechecks me W sn s) \<and>
    returns_some me W nxt ph s' (mvcc_rule me sn (tup s) (snapshot_sees sn ph (now s))) (HeapTupleSatisfiesMVCC rechecks' me W sn s')"
  using MVCC_good [OF assms(1)] MVCC_good [OF mvcc_call_later [OF assms]] unfolding mvcc_rule_later(2) [OF assms(1,3,4)] by blast

lemma example_quiet: "quiet example_session (example_world b) nxt ph"
proof -
  have "good example_session (example_world b) nxt ph (SyncWaitXidEnd (example_world b) xid buffer s)" if "good example_session (example_world b) nxt ph s" for s xid buffer
    by (rule good_wait [OF that]) (simp_all add: SyncWaitXidEnd_def example_world_def)
  then show ?thesis unfolding quiet_def using same_tuple_refl by (simp add: SyncWaitXidEnd_def example_world_def)
qed

definition new_snapshot :: SnapshotData where
  "new_snapshot = \<lparr>satisfies = SNAPSHOT_MVCC, snap_xmin = 11, snapshotcsn = 90, curcid = 5, takenDuringRecovery = False\<rparr>"

lemma example_call:
  assumes "xmin \<in> {10, 12, 13}" "xmax \<in> {10, 12} \<and> m = 0 \<or> xmax = 0 \<and> m = HEAP_XMAX_INVALID"
  shows "mvcc_call example_session (example_world b) (\<lambda>t. 100) (example_phase b) new_snapshot (start t (hinted_tuple m xmin xmax))"
proof -
  have i: "m \<in> {0, HEAP_XMIN_COMMITTED, HEAP_XMAX_INVALID}" using assms(2) by auto
  note e = example_ids [OF i, of xmin xmax]
  have s: "snapshot_for new_snapshot 100 xid (example_phase b xid t)" if "xid \<in> {0, 10, 12, 13}" for xid
    using that by (auto simp: snapshot_for_def new_snapshot_def IsMVCCSnapshot_def COMMITSEQNO_FROZEN_def TransactionIdPrecedes_def example_phase_def phase_defs)
  have g: "good example_session (example_world b) (\<lambda>t. 100) (example_phase b) (start t (hinted_tuple m xmin xmax))"
    by (rule example_good) (use assms in \<open>auto simp: example_phase_def failed_def\<close>)
  have "\<forall>xid \<in> {xmin, xmax}. snapshot_for new_snapshot 100 xid (example_phase b xid t)" using assms s by auto
  then have o: "snapshot_ok example_session (\<lambda>t. 100) (example_phase b) new_snapshot (start t (hinted_tuple m xmin xmax))"
    unfolding snapshot_ok_def hinted_fields e .
  have v: "ids_valid example_session (hinted_tuple m xmin xmax)" "\<not> version_own_multi example_session new_snapshot (hinted_tuple m xmin xmax)"
    unfolding ids_valid_def version_own_multi_def infomask_flags e hinted_fields using assms by (auto simp: TransactionIdIsValid_def InvalidTransactionId_def)
  have "\<not> infomask_bit (hinted_tuple m xmin xmax) HEAP_COMBOCID" by (simp add: infomask_flags e)
  then show ?thesis unfolding mvcc_call_def hinted_fields using g o v example_quiet by (simp add: example_session_def)
qed

theorem mvcc_repeatable_witness:
  "returns_some example_session (example_world False) (\<lambda>t. 100) (example_phase False) (start 0 (hinted_tuple 0 10 12)) False
     (HeapTupleSatisfiesMVCC 0 example_session (example_world False) new_snapshot (start 0 (hinted_tuple 0 10 12))) \<and>
   returns_some example_session (example_world False) (\<lambda>t. 100) (example_phase False) (start 9 (hinted_tuple 0 10 12)) False
     (HeapTupleSatisfiesMVCC 0 example_session (example_world False) new_snapshot (start 9 (hinted_tuple 0 10 12))) \<and>
   returns_some example_session (example_world False) (\<lambda>t. 100) (example_phase False) (start 0 (hinted_tuple HEAP_XMAX_INVALID 12 0)) True
     (HeapTupleSatisfiesMVCC 0 example_session (example_world False) new_snapshot (start 0 (hinted_tuple HEAP_XMAX_INVALID 12 0))) \<and>
   returns_some example_session (example_world False) (\<lambda>t. 100) (example_phase False) (start 9 (hinted_tuple HEAP_XMAX_INVALID 12 0)) True
     (HeapTupleSatisfiesMVCC 0 example_session (example_world False) new_snapshot (start 9 (hinted_tuple HEAP_XMAX_INVALID 12 0)))"
proof -
  let ?W = "example_world False" and ?P = "example_phase False" and ?d = "hinted_tuple 0 10 12" and ?l = "hinted_tuple HEAP_XMAX_INVALID 12 0"
  have r: "\<not> mvcc_rule example_session new_snapshot ?d (snapshot_sees new_snapshot ?P 0)" "mvcc_rule example_session new_snapshot ?l (snapshot_sees new_snapshot ?P 0)"
    by (simp_all add: mvcc_rule_def mvcc_xmax_rule_def xmax_rule_def inserted_def example_ids)
      (simp_all add: example_phase_def seen_def new_snapshot_def example_session_def)
  have c: "mvcc_call example_session ?W (\<lambda>t. 100) ?P new_snapshot (start t ?d)" "mvcc_call example_session ?W (\<lambda>t. 100) ?P new_snapshot (start t ?l)" for t
    by (rule example_call; simp)+
  have "same_tuple (tup (start 0 u)) (tup (start 9 u))" "now (start 0 u) \<le> now (start 9 u)" for u using same_tuple_refl by simp_all
  note st = this
  show ?thesis
    using mvcc_repeatable [OF c(1) mvcc_callD(1) [OF c(1)] st, of 0 0] mvcc_repeatable [OF c(2) mvcc_callD(1) [OF c(2)] st, of 0 0] r by simp
qed

text \<open>
  C8. Vacuum removes nothing that anybody can see. When \<^verbatim>\<open>HeapTupleSatisfiesVacuum\<close> calls a tuple dead, of an inserter that has aborted or a deleter that has committed,
  then \<^verbatim>\<open>HeapTupleSatisfiesMVCC\<close> answers false about it from then on for every snapshot whose \<open>snap_xmin\<close> is not before \<open>OldestXmin\<close>, in every session that finds
  the same updater in a multixact. The calls are those of \<open>mvcc_call\<close>.
\<close>

theorem vacuum_dead_unseen:
  assumes v: "good me W nxt ph s" "recent_ok me ph s" "HeapTupleSatisfiesVacuum me W OldestXmin isAnalyzing s = (Inr HEAPTUPLE_DEAD, s')"
    and c: "mvcc_call you W nxt ph sn s2" "same_tuple (tup s) (tup s2)" "now s' \<le> now s2" "OldestXmin \<le> snap_xmin sn"
    and m: "MultiXactIdGetUpdateXid you = MultiXactIdGetUpdateXid me"
  shows "returns_some you W nxt ph s2 False (HeapTupleSatisfiesMVCC rechecks you W sn s2)"
proof -
  note gy = mvcc_callD(1) [OF c(1)] and st = same_tuple_updater [OF c(2)]
  have "\<not> mvcc_rule you sn (tup s2) (snapshot_sees sn ph (now s2))"
    using conjunct2 [OF vacuum_dead [OF v]]
  proof (elim disjE exE conjE)
    assume f: "failed (ph (t_xmin (tup s)) (now s'))" and nf: "\<not> frozen (tup s)"
    have "failed (ph (t_xmin (tup s)) (now s2))" using later_stable(3) [OF history_later [OF good_history [OF v(1) xmin_ids] c(3)] f] .
    then show ?thesis using nf same_tuple_rules(3) [OF c(2)] st good_not_current [OF gy xmin_ids, of "now s2"] phase_rules(6)
      by (auto simp: mvcc_rule_def inserted_def)
  next
    fix d assume d: "updater me (tup s) = Some d" "d < OldestXmin" "logged (ph d (now s'))"
    have l: "logged (ph d (now s2))" using later_stable(2) [OF history_later [OF good_history [OF v(1) updater_ids [OF d(1)]] c(3)] d(3)] .
    have "updater you (tup s) = updater me (tup s)" unfolding updater_def m ..
    then have u: "updater you (tup s2) = Some d" using d(1) st(1) [of you] by simp
    have "snapshot_for sn (nxt (now s2)) d (ph d (now s2))" using mvcc_callD(2) [OF c(1)] updater_ids [OF u] by (simp add: snapshot_ok_def)
    moreover have "d < snap_xmin sn" using d(2) c(4) by simp
    ultimately have "seen (snapshotcsn sn) (ph d (now s2))" using l by (simp add: snapshot_for_def TransactionIdPrecedes_def)
    then show ?thesis using u by (auto simp: mvcc_rule_def mvcc_xmax_rule_def xmax_rule_def)
  qed
  then show ?thesis using MVCC_good [OF c(1), of rechecks] by simp
qed

theorem vacuum_dead_unseen_witness:
  "returns_some example_session (example_world False) (\<lambda>t. 100) (example_phase False) (start 9 (hinted_tuple 0 10 10)) False
     (HeapTupleSatisfiesMVCC 0 example_session (example_world False) new_snapshot (start 9 (hinted_tuple 0 10 10))) \<and>
   returns_some example_session (example_world False) (\<lambda>t. 100) (example_phase False) (start 9 (hinted_tuple HEAP_XMAX_INVALID 13 0)) False
     (HeapTupleSatisfiesMVCC 0 example_session (example_world False) new_snapshot (start 9 (hinted_tuple HEAP_XMAX_INVALID 13 0)))"
proof -
  let ?W = "example_world False" and ?P = "example_phase False" and ?d = "hinted_tuple 0 10 10" and ?l = "hinted_tuple HEAP_XMAX_INVALID 13 0"
  have "fst (HeapTupleSatisfiesVacuum example_session ?W 11 False (start 0 ?d)) = Inr HEAPTUPLE_DEAD" "now (snd (HeapTupleSatisfiesVacuum example_session ?W 11 False (start 0 ?d))) \<le> 9"
    "fst (HeapTupleSatisfiesVacuum example_session ?W 11 False (start 0 ?l)) = Inr HEAPTUPLE_DEAD" "now (snd (HeapTupleSatisfiesVacuum example_session ?W 11 False (start 0 ?l))) \<le> 9"
    by code_simp+
  then obtain s1 s2 where v: "HeapTupleSatisfiesVacuum example_session ?W 11 False (start 0 ?d) = (Inr HEAPTUPLE_DEAD, s1)" "now s1 \<le> now (start 9 ?d)"
    "HeapTupleSatisfiesVacuum example_session ?W 11 False (start 0 ?l) = (Inr HEAPTUPLE_DEAD, s2)" "now s2 \<le> now (start 9 ?l)"
    by (cases "HeapTupleSatisfiesVacuum example_session ?W 11 False (start 0 ?d)"; cases "HeapTupleSatisfiesVacuum example_session ?W 11 False (start 0 ?l)") auto
  have c: "mvcc_call example_session ?W (\<lambda>t. 100) ?P new_snapshot (start t ?d)" "mvcc_call example_session ?W (\<lambda>t. 100) ?P new_snapshot (start t ?l)" for t
    by (rule example_call; simp)+
  have r: "recent_ok example_session ?P (start 0 ?d)" "recent_ok example_session ?P (start 0 ?l)"
    by (simp_all add: recent_ok_def example_ids example_phase_def active_def)
  have st: "same_tuple (tup (start 0 u)) (tup (start 9 u))" for u using same_tuple_refl by simp
  have o: "(11 :: TransactionId) \<le> snap_xmin new_snapshot" by (simp add: new_snapshot_def)
  show ?thesis
    using vacuum_dead_unseen [OF mvcc_callD(1) [OF c(1)] r(1) v(1) c(1) st v(2) o refl] vacuum_dead_unseen [OF mvcc_callD(1) [OF c(2)] r(2) v(3) c(2) st v(4) o refl] by blast
qed

end
