(* ===== verification/OG_Encode.thy ===== *)
theory OG_Encode
  imports OG_Prelude
begin

text \<open>
  \<^verbatim>\<open>src/common/backend/utils/adt/encode.cpp\<close>: the encodings of binary data as text (hex, base64, escape) and the SQL functions \<^verbatim>\<open>encode\<close> and \<^verbatim>\<open>decode\<close>;
  from \<^verbatim>\<open>varlena.cpp\<close> the input and output functions of type bytea. A buffer with its length is a list of bytes, a C string a list without the
  terminating zero. A routine that fills \<^verbatim>\<open>dst\<close> and returns the number of bytes written returns the bytes. Comparisons of a \<^verbatim>\<open>char\<close> with
  ASCII bounds come out the same for signed and unsigned \<^verbatim>\<open>char\<close>, so bytes are unsigned here.

  Decoding gives back what was encoded, for every encoding; and the size estimates are never too small, so no routine writes behind its buffer,
  whatever text it is given.
\<close>

section \<open>Hex\<close>

definition bytes_of :: "string \<Rightarrow> uint8 list" where
  "bytes_of = map (\<lambda>c. of_nat (of_char c))"

definition hextbl :: "uint8 list" where
  "hextbl = bytes_of ''0123456789abcdef''"

definition hexlookup :: "int list" where
  "hexlookup = replicate 48 (-1) @ [0, 1, 2, 3, 4, 5, 6, 7, 8, 9] @ replicate 7 (-1) @ [10, 11, 12, 13, 14, 15] @ replicate 26 (-1) @
     [10, 11, 12, 13, 14, 15] @ replicate 25 (-1)"

fun hex_encode :: "uint8 list \<Rightarrow> uint8 list" where
  "hex_encode [] = []"
| "hex_encode (c # src) = hextbl ! unat (drop_bit 4 c AND 0xF) # hextbl ! unat (c AND 0xF) # hex_encode src"

definition get_hex :: "uint8 \<Rightarrow> uint8 result" where
  "get_hex c =
     (let res = (if c > 0 \<and> c < 127 then hexlookup ! unat c else -1)
      in if res < 0 then Inl (Ereport ERROR ERRCODE_INVALID_PARAMETER_VALUE) else Inr (word_of_int res))"

text \<open>Blank, line feed, tab and carriage return.\<close>

definition is_space :: "uint8 \<Rightarrow> bool" where
  "is_space c \<longleftrightarrow> c = 0x20 \<or> c = 0x0A \<or> c = 0x09 \<or> c = 0x0D"

fun hex_decode :: "uint8 list \<Rightarrow> uint8 list result" where
  "hex_decode [] = Inr []"
| "hex_decode [c] = (if is_space c then Inr [] else rbind (get_hex c) (\<lambda>v1. Inl (Ereport ERROR ERRCODE_INVALID_PARAMETER_VALUE)))"
| "hex_decode (c # d # src) =
     (if is_space c then hex_decode (d # src)
      else rbind (get_hex c) (\<lambda>v1. rbind (get_hex d) (\<lambda>v2. rbind (hex_decode src) (\<lambda>dst. Inr ((push_bit 4 v1 OR v2) # dst)))))"

definition hex_enc_len :: "uint8 list \<Rightarrow> uint32" where
  "hex_enc_len src = push_bit 1 (of_nat (length src))"

definition hex_dec_len :: "uint8 list \<Rightarrow> uint32 result" where
  "hex_dec_len src = Inr (drop_bit 1 (of_nat (length src)))"

section \<open>Base64\<close>

definition base64 :: "uint8 list" where
  "base64 = bytes_of ''ABCDEFGHIJKLMNOPQRSTUVWXYZabcdefghijklmnopqrstuvwxyz0123456789+/''"

definition b64lookup :: "int list" where
  "b64lookup = replicate 43 (-1) @ [62] @ replicate 3 (-1) @ [63] @ map int [52..<62] @ replicate 7 (-1) @ map int [0..<26] @ replicate 6 (-1) @
     map int [26..<52] @ replicate 5 (-1)"

text \<open>The character for six bits of the buffer.\<close>

definition sextet :: "nat \<Rightarrow> uint32 \<Rightarrow> uint8" where
  "sextet n buf = base64 ! unat (drop_bit n buf AND 0x3f)"

fun b64_encode_loop :: "uint32 \<Rightarrow> int \<Rightarrow> nat \<Rightarrow> uint8 list \<Rightarrow> uint8 list \<Rightarrow> uint32 \<times> int \<times> uint8 list" where
  "b64_encode_loop buf pos lend p [] = (buf, pos, p)"
| "b64_encode_loop buf pos lend p (s # src) =
     (let buf = buf OR push_bit (nat (pos * 8)) (ucast s);
          pos = pos - 1;
          (buf, pos, p) = (if pos < 0 then (0, 2, p @ [sextet 18 buf, sextet 12 buf, sextet 6 buf, sextet 0 buf]) else (buf, pos, p));
          (p, lend) = (if length p \<ge> lend then (p @ [0x0A], length p + 1 + 76) else (p, lend))
      in b64_encode_loop buf pos lend p src)"

definition b64_encode :: "uint8 list \<Rightarrow> uint8 list" where
  "b64_encode src =
     (case b64_encode_loop 0 2 76 [] src of (buf, pos, p) \<Rightarrow>
        if pos \<noteq> 2 then p @ [sextet 18 buf, sextet 12 buf, if pos = 0 then sextet 6 buf else 0x3D, 0x3D] else p)"

text \<open>The value of one character of the text and the new value of \<^verbatim>\<open>end\<close> (here \<open>fin\<close>).\<close>

definition b64_value :: "uint8 \<Rightarrow> int \<Rightarrow> int \<Rightarrow> (int \<times> int) result" where
  "b64_value c pos fin =
     (if c = 0x3D
      then if fin = 0
           then if pos = 2 then Inr (0, 1)
                else if pos = 3 then Inr (0, 2)
                else Inl (Ereport ERROR ERRCODE_INVALID_PARAMETER_VALUE)
           else Inr (0, fin)
      else let b = (if c > 0 \<and> c < 127 then b64lookup ! unat c else -1)
           in if b < 0 then Inl (Ereport ERROR ERRCODE_INVALID_PARAMETER_VALUE) else Inr (b, fin))"

fun b64_decode_loop :: "uint32 \<Rightarrow> int \<Rightarrow> int \<Rightarrow> uint8 list \<Rightarrow> uint8 list \<Rightarrow> uint8 list result" where
  "b64_decode_loop buf pos fin p [] = (if pos \<noteq> 0 then Inl (Ereport ERROR ERRCODE_INVALID_PARAMETER_VALUE) else Inr p)"
| "b64_decode_loop buf pos fin p (c # s) =
     (if is_space c then b64_decode_loop buf pos fin p s
      else rbind (b64_value c pos fin) (\<lambda>(b, fin).
        let buf = push_bit 6 buf + word_of_int b;
            pos = pos + 1
        in if pos = 4
           then b64_decode_loop 0 0 fin
                  (p @ [ucast (drop_bit 16 buf AND 255)] @
                   (if fin = 0 \<or> fin > 1 then [ucast (drop_bit 8 buf AND 255)] else []) @
                   (if fin = 0 \<or> fin > 2 then [ucast (buf AND 255)] else [])) s
           else b64_decode_loop buf pos fin p s))"

definition b64_decode :: "uint8 list \<Rightarrow> uint8 list result" where
  "b64_decode src = b64_decode_loop 0 0 0 [] src"

definition b64_enc_len :: "uint8 list \<Rightarrow> uint32" where
  "b64_enc_len src = (let srclen = of_nat (length src) in (srclen + 2) * 4 div 3 + srclen div (76 * 3 div 4))"

definition b64_dec_len :: "uint8 list \<Rightarrow> uint32 result" where
  "b64_dec_len src = Inr (drop_bit 2 (of_nat (length src) * 3))"

section \<open>Escape\<close>

definition IS_HIGHBIT_SET :: "uint8 \<Rightarrow> bool" where
  "IS_HIGHBIT_SET ch \<longleftrightarrow> ch AND 0x80 \<noteq> 0"

fun esc_encode :: "uint8 list \<Rightarrow> uint8 list" where
  "esc_encode [] = []"
| "esc_encode (c # src) =
     (if c = 0 \<or> IS_HIGHBIT_SET c then [0x5C, drop_bit 6 c + 0x30, (drop_bit 3 c AND 7) + 0x30, (c AND 7) + 0x30] @ esc_encode src
      else if c = 0x5C then [0x5C, 0x5C] @ esc_encode src
      else c # esc_encode src)"

text \<open>Three octal digits, as they follow a backslash, and their value.\<close>

definition is_octal :: "uint8 list \<Rightarrow> bool" where
  "is_octal s \<longleftrightarrow> 3 \<le> length s \<and> s ! 0 \<ge> 0x30 \<and> s ! 0 \<le> 0x33 \<and> s ! 1 \<ge> 0x30 \<and> s ! 1 \<le> 0x37 \<and> s ! 2 \<ge> 0x30 \<and> s ! 2 \<le> 0x37"

definition octal_value :: "uint8 list \<Rightarrow> uint8" where
  "octal_value s = push_bit 3 (push_bit 3 (s ! 0 - 0x30) + (s ! 1 - 0x30)) + (s ! 2 - 0x30)"

function esc_decode :: "uint8 list \<Rightarrow> uint8 list result" where
  "esc_decode [] = Inr []"
| "esc_decode (c # src) =
     (if c \<noteq> 0x5C then rbind (esc_decode src) (\<lambda>dst. Inr (c # dst))
      else if is_octal src then rbind (esc_decode (drop 3 src)) (\<lambda>dst. Inr (octal_value src # dst))
      else if src \<noteq> [] \<and> hd src = 0x5C then rbind (esc_decode (tl src)) (\<lambda>dst. Inr (0x5C # dst))
      else Inl (Ereport ERROR ERRCODE_INVALID_TEXT_REPRESENTATION))"
  by pat_completeness auto
termination
  by (relation "measure length") auto

definition esc_enc_len :: "uint8 list \<Rightarrow> uint32" where
  "esc_enc_len src = fold (\<lambda>c len. if c = 0 \<or> IS_HIGHBIT_SET c then len + 4 else if c = 0x5C then len + 2 else len + 1) src 0"

function esc_dec_len_from :: "uint32 \<Rightarrow> uint8 list \<Rightarrow> uint32 result" where
  "esc_dec_len_from len [] = Inr len"
| "esc_dec_len_from len (c # src) =
     (if c \<noteq> 0x5C then esc_dec_len_from (len + 1) src
      else if is_octal src then esc_dec_len_from (len + 1) (drop 3 src)
      else if src \<noteq> [] \<and> hd src = 0x5C then esc_dec_len_from (len + 1) (tl src)
      else Inl (Ereport ERROR ERRCODE_INVALID_TEXT_REPRESENTATION))"
  by pat_completeness auto
termination
  by (relation "measure (\<lambda>(len, src). length src)") auto

definition esc_dec_len :: "uint8 list \<Rightarrow> uint32 result" where
  "esc_dec_len src = esc_dec_len_from 0 src"

section \<open>The SQL functions\<close>

record pg_encoding =
  encode_len :: "uint8 list \<Rightarrow> uint32"
  decode_len :: "uint8 list \<Rightarrow> uint32 result"
  encode :: "uint8 list \<Rightarrow> uint8 list"
  decode :: "uint8 list \<Rightarrow> uint8 list result"

definition hex_encoding :: pg_encoding where
  "hex_encoding = \<lparr>encode_len = hex_enc_len, decode_len = hex_dec_len, encode = hex_encode, decode = hex_decode\<rparr>"

definition b64_encoding :: pg_encoding where
  "b64_encoding = \<lparr>encode_len = b64_enc_len, decode_len = b64_dec_len, encode = b64_encode, decode = b64_decode\<rparr>"

definition esc_encoding :: pg_encoding where
  "esc_encoding = \<lparr>encode_len = esc_enc_len, decode_len = esc_dec_len, encode = esc_encode, decode = esc_decode\<rparr>"

definition enclist :: "(uint8 list \<times> pg_encoding) list" where
  "enclist = [(bytes_of ''hex'', hex_encoding), (bytes_of ''base64'', b64_encoding), (bytes_of ''escape'', esc_encoding)]"

text \<open>\<open>low\<close> is what the locale's \<^verbatim>\<open>tolower\<close> does to an upper case letter with the high bit, and the identity on other bytes.\<close>

definition fold_case :: "(uint8 \<Rightarrow> uint8) \<Rightarrow> uint8 \<Rightarrow> uint8" where
  "fold_case low ch = (if ch \<ge> 0x41 \<and> ch \<le> 0x5A then ch + 0x20 else if IS_HIGHBIT_SET ch then low ch else ch)"

fun pg_strcasecmp :: "(uint8 \<Rightarrow> uint8) \<Rightarrow> uint8 list \<Rightarrow> uint8 list \<Rightarrow> int" where
  "pg_strcasecmp low [] [] = 0"
| "pg_strcasecmp low [] (c2 # s2) = 0 - uint (fold_case low c2)"
| "pg_strcasecmp low (c1 # s1) [] = uint (fold_case low c1) - 0"
| "pg_strcasecmp low (c1 # s1) (c2 # s2) =
     (let ch1 = (if c1 \<noteq> c2 then fold_case low c1 else c1);
          ch2 = (if c1 \<noteq> c2 then fold_case low c2 else c2)
      in if ch1 \<noteq> ch2 then uint ch1 - uint ch2 else if ch1 = 0 then 0 else pg_strcasecmp low s1 s2)"

definition pg_find_encoding :: "(uint8 \<Rightarrow> uint8) \<Rightarrow> uint8 list \<Rightarrow> pg_encoding option" where
  "pg_find_encoding low name = map_option snd (find (\<lambda>(n, enc). pg_strcasecmp low n name = 0) enclist)"

definition MaxAllocSize :: int where
  "MaxAllocSize = 0x3fffffff"

definition VARHDRSZ :: int where
  "VARHDRSZ = 4"

text \<open>The test of \<^verbatim>\<open>palloc\<close>: a negative size is a huge one.\<close>

definition palloc_ok :: "int \<Rightarrow> unit result" where
  "palloc_ok sz = (if 0 \<le> sz \<and> sz \<le> MaxAllocSize then Inr () else Inl (Ereport ERROR ERRCODE_INVALID_PARAMETER_VALUE))"

definition encode_with :: "pg_encoding \<Rightarrow> uint8 list \<Rightarrow> uint8 list result" where
  "encode_with enc data =
     (let resultlen = sint (encode_len enc data)
      in rbind (palloc_ok (VARHDRSZ + resultlen)) (\<lambda>_.
           let result = encode enc data;
               res = sint (of_nat (length result) :: uint32)
           in if res > resultlen then Inl (Ereport FATAL ERRCODE_DATA_CORRUPTED) else Inr result))"

definition decode_with :: "pg_encoding \<Rightarrow> uint8 list \<Rightarrow> uint8 list result" where
  "decode_with enc data =
     rbind (decode_len enc data) (\<lambda>resultlen.
       rbind (palloc_ok (VARHDRSZ + sint resultlen)) (\<lambda>_.
         rbind (decode enc data) (\<lambda>result.
           let res = sint (of_nat (length result) :: uint32)
           in if res > sint resultlen then Inl (Ereport ERROR ERRCODE_DATA_EXCEPTION) else Inr result)))"

definition binary_encode :: "(uint8 \<Rightarrow> uint8) \<Rightarrow> uint8 list \<Rightarrow> uint8 list \<Rightarrow> uint8 list result" where
  "binary_encode low data name =
     (case pg_find_encoding low name of
        None \<Rightarrow> Inl (Ereport ERROR ERRCODE_INVALID_PARAMETER_VALUE)
      | Some enc \<Rightarrow> encode_with enc data)"

definition binary_decode :: "(uint8 \<Rightarrow> uint8) \<Rightarrow> uint8 list \<Rightarrow> uint8 list \<Rightarrow> uint8 list result" where
  "binary_decode low data name =
     (case pg_find_encoding low name of
        None \<Rightarrow> Inl (Ereport ERROR ERRCODE_INVALID_PARAMETER_VALUE)
      | Some enc \<Rightarrow> decode_with enc data)"

section \<open>Type bytea\<close>

definition BYTEA_OUTPUT_ESCAPE :: int where "BYTEA_OUTPUT_ESCAPE = 0"
definition BYTEA_OUTPUT_HEX :: int where "BYTEA_OUTPUT_HEX = 1"

definition byteaout_len :: "uint8 list \<Rightarrow> uint32" where
  "byteaout_len v = fold (\<lambda>c len. if c = 0x5C then len + 2 else if c < 0x20 \<or> c > 0x7e then len + 4 else len + 1) v 1"

fun byteaout_escape :: "uint8 list \<Rightarrow> uint8 list" where
  "byteaout_escape [] = []"
| "byteaout_escape (c # v) =
     (if c = 0x5C then [0x5C, 0x5C] @ byteaout_escape v
      else if c < 0x20 \<or> c > 0x7e
      then [0x5C, (drop_bit 6 c AND 3) + 0x30, (drop_bit 3 c AND 7) + 0x30, (c AND 7) + 0x30] @ byteaout_escape v
      else c # byteaout_escape v)"

definition byteaout :: "int \<Rightarrow> uint8 list \<Rightarrow> uint8 list result" where
  "byteaout bytea_output v =
     (if bytea_output = BYTEA_OUTPUT_HEX
      then rbind (palloc_ok (int (length v) * 2 + 2 + 1)) (\<lambda>_. Inr ([0x5C, 0x78] @ hex_encode v))
      else if bytea_output = BYTEA_OUTPUT_ESCAPE
      then rbind (palloc_ok (sint (byteaout_len v))) (\<lambda>_. Inr (byteaout_escape v))
      else Inl (Ereport ERROR ERRCODE_UNRECOGNIZED_NODE_TYPE))"

text \<open>
  The two passes of \<^verbatim>\<open>byteain\<close> over a string in the escape format: the first counts, the second copies. \<open>mblen\<close> is the routine that
  \<^verbatim>\<open>pg_mblen\<close> finds in \<^verbatim>\<open>pg_wchar_table\<close> for the database encoding. \<open>None\<close> stands for a pass that does not stop at the end of the string.
\<close>

function bytea_count :: "(uint8 list \<Rightarrow> nat) \<Rightarrow> uint8 list \<Rightarrow> nat result option" where
  "bytea_count mblen [] = Some (Inr 0)"
| "bytea_count mblen (c # tp) =
     (if c \<noteq> 0x5C
      then let cl = mblen (c # tp)
           in if cl = 0 \<or> length (c # tp) < cl then None
              else map_option (\<lambda>r. rbind r (\<lambda>bc. Inr (bc + cl))) (bytea_count mblen (drop cl (c # tp)))
      else if is_octal tp then map_option (\<lambda>r. rbind r (\<lambda>bc. Inr (bc + 1))) (bytea_count mblen (drop 3 tp))
      else if tp \<noteq> [] \<and> hd tp = 0x5C then map_option (\<lambda>r. rbind r (\<lambda>bc. Inr (bc + 1))) (bytea_count mblen (tl tp))
      else Some (Inl (Ereport ERROR ERRCODE_INVALID_TEXT_REPRESENTATION)))"
  by pat_completeness auto
termination
  by (relation "measure (\<lambda>(mblen, tp). length tp)") auto

function bytea_copy :: "(uint8 list \<Rightarrow> nat) \<Rightarrow> uint8 list \<Rightarrow> uint8 list result option" where
  "bytea_copy mblen [] = Some (Inr [])"
| "bytea_copy mblen (c # tp) =
     (if c \<noteq> 0x5C
      then let cl = mblen (c # tp)
           in if cl = 0 \<or> length (c # tp) < cl then None
              else map_option (\<lambda>r. rbind r (\<lambda>rp. Inr (take cl (c # tp) @ rp))) (bytea_copy mblen (drop cl (c # tp)))
      else if is_octal tp then map_option (\<lambda>r. rbind r (\<lambda>rp. Inr (octal_value tp # rp))) (bytea_copy mblen (drop 3 tp))
      else if tp \<noteq> [] \<and> hd tp = 0x5C then map_option (\<lambda>r. rbind r (\<lambda>rp. Inr (0x5C # rp))) (bytea_copy mblen (tl tp))
      else Some (Inl (Ereport ERROR ERRCODE_INVALID_TEXT_REPRESENTATION)))"
  by pat_completeness auto
termination
  by (relation "measure (\<lambda>(mblen, tp). length tp)") auto

definition byteain :: "(uint8 list \<Rightarrow> nat) \<Rightarrow> uint8 list \<Rightarrow> uint8 list result option" where
  "byteain mblen inputText =
     (if take 2 inputText = [0x5C, 0x78]
      then Some (rbind (palloc_ok ((int (length inputText) - 2) div 2 + VARHDRSZ)) (\<lambda>_. hex_decode (drop 2 inputText)))
      else case bytea_count mblen inputText of
             None \<Rightarrow> None
           | Some (Inl e) \<Rightarrow> Some (Inl e)
           | Some (Inr bc) \<Rightarrow>
               (case palloc_ok (int bc + VARHDRSZ) of
                  Inl e \<Rightarrow> Some (Inl e)
                | Inr _ \<Rightarrow> bytea_copy mblen inputText))"

definition pg_latin1_mblen :: "uint8 list \<Rightarrow> nat" where
  "pg_latin1_mblen s = 1"

section \<open>Hex and escape: what was encoded is decoded\<close>

lemma low_bits: "(x :: 'a :: len word) AND 0xF = take_bit 4 x" "x AND 7 = take_bit 3 x" "(x :: 'a :: len word) AND 0x3F = take_bit 6 x" "x AND 255 = take_bit 8 x"
  by (simp_all add: take_bit_eq_mask mask_eq_exp_minus_1)

lemma unat_low_bits: "unat (take_bit n (x :: 'a :: len word)) < 2 ^ n"
  unfolding unsigned_take_bit_eq by simp

lemma hex_digits: "\<forall>k \<in> set [0..<16]. \<not> is_space (hextbl ! k) \<and> get_hex (hextbl ! k) = Inr (of_nat k)"
  by code_simp

lemma hex_digit: "\<not> is_space (hextbl ! unat (take_bit 4 x))" "get_hex (hextbl ! unat (take_bit 4 x)) = Inr (take_bit 4 x)"
  for x :: uint8
  using bspec [OF hex_digits, of "unat (take_bit 4 x)"] unat_low_bits [of 4 x] by auto

lemma nibbles: "push_bit 4 (take_bit 4 (drop_bit 4 c)) OR take_bit 4 c = c" for c :: uint8
  by (rule bit_word_eqI) (auto simp: bit_simps)

lemma hex_decode_encode: "hex_decode (hex_encode xs) = Inr xs"
proof (induction xs)
  case (Cons c xs)
  show ?case using Cons.IH hex_digit [of c] hex_digit [of "drop_bit 4 c"] nibbles [of c] by (simp add: low_bits)
qed simp

lemma length_hex_encode: "length (hex_encode xs) = 2 * length xs"
  by (induction xs) auto

lemma length_hex_decode: "hex_decode xs = Inr ys \<Longrightarrow> 2 * length ys \<le> length xs"
proof (induction xs arbitrary: ys rule: hex_decode.induct)
  case (3 c d src)
  then show ?case by (fastforce simp: rbind_eq_Inr split: if_splits)
qed (auto simp: rbind_def split: if_splits sum.splits)

text \<open>A byte that is escaped takes three octal digits.\<close>

lemma octal_byte:
  fixes c :: uint8
  defines "s \<equiv> [drop_bit 6 c + 0x30, (drop_bit 3 c AND 7) + 0x30, (c AND 7) + 0x30]"
  shows "is_octal s" "octal_value s = c"
proof -
  have dig: "x \<le> k \<Longrightarrow> k \<le> 7 \<Longrightarrow> 0x30 \<le> x + 0x30 \<and> x + 0x30 \<le> k + 0x30" for x k :: uint8
    by (simp add: word_le_nat_alt unat_word_ariths)
  have le: "take_bit 3 x \<le> 7" for x :: uint8 using unat_low_bits [of 3 x] by (simp add: word_le_nat_alt)
  have "unat c < 2 ^ LENGTH(8)" by (rule unsigned_less)
  then have "drop_bit 6 c \<le> 3" by (simp add: word_le_nat_alt drop_bit_eq_div unat_div_distrib)
  then show "is_octal s" using dig [of "drop_bit 6 c" 3] dig [OF le [of c]] dig [OF le [of "drop_bit 3 c"]]
    by (simp add: is_octal_def s_def low_bits)
  have "push_bit 3 (drop_bit 6 c) + take_bit 3 (drop_bit 3 c) = drop_bit 3 c" using bits_ident [of 3 "drop_bit 3 c"] by simp
  then show "octal_value s = c" using bits_ident [of 3 c] by (simp add: octal_value_def s_def low_bits)
qed

lemma octal_append: "3 \<le> length s \<Longrightarrow> is_octal (s @ t) = is_octal s" "3 \<le> length s \<Longrightarrow> octal_value (s @ t) = octal_value s"
  by (auto simp: is_octal_def octal_value_def nth_append)

lemma esc_decode_octal:
  assumes "length s = 3" "is_octal s"
  shows "esc_decode (0x5C # s @ t) = rbind (esc_decode t) (\<lambda>dst. Inr (octal_value s # dst))"
  using assms octal_append [of s t] by simp

lemma esc_decode_encode: "esc_decode (esc_encode xs) = Inr xs"
proof (induction xs)
  case (Cons c xs)
  show ?case
  proof (cases "c = 0 \<or> IS_HIGHBIT_SET c")
    case True
    let ?s = "[drop_bit 6 c + 0x30, (drop_bit 3 c AND 7) + 0x30, (c AND 7) + 0x30]"
    have s: "is_octal ?s" "octal_value ?s = c" by (rule octal_byte)+
    have "esc_encode (c # xs) = 0x5C # ?s @ esc_encode xs" using True by simp
    then show ?thesis using esc_decode_octal [OF _ s(1), of "esc_encode xs"] s(2) Cons.IH by simp
  next
    case False
    have "\<not> is_octal (0x5C # t)" for t by (simp add: is_octal_def)
    then show ?thesis using False Cons.IH by auto
  qed
qed simp

lemma length_esc_decode: "esc_decode xs = Inr ys \<Longrightarrow> length ys \<le> length xs \<and> esc_dec_len_from n xs = Inr (n + of_nat (length ys))"
proof (induction xs arbitrary: ys n rule: esc_decode.induct)
  case (2 c src)
  consider (plain) dst where "c \<noteq> 0x5C" "esc_decode src = Inr dst" "ys = c # dst"
    | (octal) dst where "c = 0x5C" "is_octal src" "esc_decode (drop 3 src) = Inr dst" "length ys = Suc (length dst)"
    | (slash) dst where "c = 0x5C" "\<not> is_octal src" "src \<noteq> []" "hd src = 0x5C" "esc_decode (tl src) = Inr dst" "length ys = Suc (length dst)"
    using "2.prems" by (auto simp: rbind_eq_Inr split: if_splits)
  then show ?case
  proof cases
    case plain
    then show ?thesis using "2.IH"(1) [of dst "n + 1"] by (simp add: algebra_simps)
  next
    case octal
    then have "3 \<le> length src" by (simp add: is_octal_def)
    then show ?thesis using octal "2.IH"(2) [of dst "n + 1"] by (auto simp: algebra_simps)
  next
    case slash
    then show ?thesis using "2.IH"(3) [of dst "n + 1"] by (cases src) (auto simp: algebra_simps)
  qed
qed simp

lemma esc_enc_len_eq: "esc_enc_len xs = of_nat (length (esc_encode xs))" "length (esc_encode xs) \<le> 4 * length xs"
proof -
  have "fold (\<lambda>c len. if c = 0 \<or> IS_HIGHBIT_SET c then len + 4 else if c = 0x5C then len + 2 else len + 1) xs n =
    n + (of_nat (length (esc_encode xs)) :: uint32)" for n
    by (induction xs arbitrary: n) (auto simp: algebra_simps)
  then show "esc_enc_len xs = of_nat (length (esc_encode xs))" by (simp add: esc_enc_len_def)
  show "length (esc_encode xs) \<le> 4 * length xs" by (induction xs) auto
qed

section \<open>Base64: what was encoded is decoded\<close>

text \<open>The encoding without line feeds, three bytes at a time.\<close>

definition b64_group :: "uint8 \<Rightarrow> uint8 \<Rightarrow> uint8 \<Rightarrow> uint32" where
  "b64_group a b c = push_bit 16 (ucast a) OR push_bit 8 (ucast b) OR ucast c"

fun b64_quads :: "uint8 list \<Rightarrow> uint8 list" where
  "b64_quads [] = []"
| "b64_quads [a] = [sextet 18 (b64_group a 0 0), sextet 12 (b64_group a 0 0), 0x3D, 0x3D]"
| "b64_quads [a, b] = [sextet 18 (b64_group a b 0), sextet 12 (b64_group a b 0), sextet 6 (b64_group a b 0), 0x3D]"
| "b64_quads (a # b # c # xs) =
     [sextet 18 (b64_group a b c), sextet 12 (b64_group a b c), sextet 6 (b64_group a b c), sextet 0 (b64_group a b c)] @ b64_quads xs"

definition b64_digit_ok :: "nat \<Rightarrow> uint8 \<Rightarrow> bool" where
  "b64_digit_ok k c \<longleftrightarrow> \<not> is_space c \<and> c \<noteq> 0x3D \<and> 0 < c \<and> c < 127 \<and> b64lookup ! unat c = int k"

lemma base64_digits:
  assumes "k < 64"
  shows "b64_digit_ok k (base64 ! k)"
proof -
  have "list_all (\<lambda>(k, c). b64_digit_ok k c) (zip [0..<64] base64)" by code_simp
  moreover have "length base64 = 64" by (simp add: base64_def bytes_of_def)
  ultimately show ?thesis using assms by (auto simp: list_all_length)
qed

lemma sextet_digit: "\<not> is_space (sextet n v)" "b64_value (sextet n v) pos fin = Inr (uint (take_bit 6 (drop_bit n v)), fin)"
proof -
  have "unat (take_bit 6 (drop_bit n v)) < 64" using unat_low_bits [of 6 "drop_bit n v"] by simp
  from base64_digits [OF this] show "\<not> is_space (sextet n v)" "b64_value (sextet n v) pos fin = Inr (uint (take_bit 6 (drop_bit n v)), fin)"
    by (simp_all add: sextet_def low_bits b64_value_def b64_digit_ok_def)
qed

lemma pad_not_space [simp]: "\<not> is_space 0x3D" "is_space 0x0A"
  by (simp_all add: is_space_def)

definition b64_finish :: "uint32 \<times> int \<times> uint8 list \<Rightarrow> uint8 list" where
  "b64_finish = (\<lambda>(buf, pos, p). if pos \<noteq> 2 then p @ [sextet 18 buf, sextet 12 buf, if pos = 0 then sextet 6 buf else 0x3D, 0x3D] else p)"

lemma b64_encode_quads:
  "filter (\<lambda>c. \<not> is_space c) (b64_finish (b64_encode_loop 0 2 lend p xs)) = filter (\<lambda>c. \<not> is_space c) p @ b64_quads xs"
proof (induction xs arbitrary: lend p rule: b64_quads.induct)
  case (4 a b c xs)
  show ?case
    by (simp add: Let_def "4.IH" sextet_digit or.assoc b64_group_def split: if_splits)
qed (simp_all add: b64_finish_def sextet_digit Let_def b64_group_def)

lemma b64_decode_spaces: "b64_decode_loop buf pos fin p (filter (\<lambda>c. \<not> is_space c) s) = b64_decode_loop buf pos fin p s"
  by (induction s arbitrary: buf pos fin p) (auto simp: Let_def rbind_def split: sum.splits)

lemma group_bytes: 
  "ucast (drop_bit 16 (b64_group a b c) AND 255) = a" "ucast (drop_bit 8 (b64_group a b c) AND 255) = b" "ucast (b64_group a b c AND 255) = c"
  by (rule bit_word_eqI; auto simp: b64_group_def low_bits bit_simps dest: bit_word_less_len)+

lemma group_sextets:
  "push_bit 6 (take_bit 6 (drop_bit 18 (b64_group a b c))) + take_bit 6 (drop_bit 12 (b64_group a b c)) = drop_bit 12 (b64_group a b c)"
  "push_bit 6 (drop_bit 12 (b64_group a b c)) + take_bit 6 (drop_bit 6 (b64_group a b c)) = drop_bit 6 (b64_group a b c)"
  "push_bit 6 (drop_bit 6 (b64_group a b c)) + take_bit 6 (b64_group a b c) = b64_group a b c"
  "push_bit 6 (drop_bit 6 (b64_group a b 0)) = b64_group a b 0" "push_bit 12 (drop_bit 12 (b64_group a 0 0)) = b64_group a 0 0"
proof -
  let ?v = "b64_group a b c"
  have "take_bit 6 (drop_bit 18 ?v) = drop_bit 18 ?v" by (rule bit_word_eqI) (auto simp: b64_group_def bit_simps dest: bit_word_less_len)
  then show "push_bit 6 (take_bit 6 (drop_bit 18 ?v)) + take_bit 6 (drop_bit 12 ?v) = drop_bit 12 ?v" using bits_ident [of 6 "drop_bit 12 ?v"] by simp
  show "push_bit 6 (drop_bit 12 ?v) + take_bit 6 (drop_bit 6 ?v) = drop_bit 6 ?v" using bits_ident [of 6 "drop_bit 6 ?v"] by simp
  show "push_bit 6 (drop_bit 6 ?v) + take_bit 6 ?v = ?v" by (rule bits_ident)
  show "push_bit 6 (drop_bit 6 (b64_group a b 0)) = b64_group a b 0" by (rule bit_word_eqI) (auto simp: b64_group_def bit_simps)
  show "push_bit 12 (drop_bit 12 (b64_group a 0 0)) = b64_group a 0 0" by (rule bit_word_eqI) (auto simp: b64_group_def bit_simps)
qed

lemma pad_value: "b64_value 0x3D 2 0 = Inr (0, 1)" "b64_value 0x3D 3 0 = Inr (0, 2)" "b64_value 0x3D 3 1 = Inr (0, 1)"
  by (simp_all add: b64_value_def)

lemma b64_decode_quads: "b64_decode_loop 0 0 0 p (b64_quads xs) = Inr (p @ xs)"
proof (induction xs arbitrary: p rule: b64_quads.induct)
  case (2 a)
  show ?case using group_bytes [of a 0 0] by (simp add: sextet_digit pad_value group_sextets Let_def)
next
  case (3 a b)
  show ?case using group_bytes [of a b 0] by (simp add: sextet_digit pad_value group_sextets Let_def)
next
  case (4 a b c xs)
  show ?case using group_bytes [of a b c] by (simp add: sextet_digit group_sextets "4.IH" Let_def)
qed simp

lemma b64_encode_finish: "b64_encode xs = b64_finish (b64_encode_loop 0 2 76 [] xs)"
  by (simp add: b64_encode_def b64_finish_def)

lemma b64_decode_encode: "b64_decode (b64_encode xs) = Inr xs"
proof -
  have "b64_decode (b64_encode xs) = b64_decode_loop 0 0 0 [] (filter (\<lambda>c. \<not> is_space c) (b64_encode xs))"
    by (simp only: b64_decode_def b64_decode_spaces)
  then show ?thesis using b64_encode_quads [of 76 "[]" xs] b64_decode_quads [of "[]" xs] by (simp add: b64_encode_finish)
qed

text \<open>Four characters give at most three bytes.\<close>

lemma length_b64_decode_loop:
  "b64_decode_loop buf pos fin p s = Inr ys \<Longrightarrow> 0 \<le> pos \<Longrightarrow> pos < 4 \<Longrightarrow> 4 * length ys \<le> 4 * length p + 3 * (nat pos + length s)"
proof (induction s arbitrary: buf pos fin p)
  case (Cons c s)
  show ?case
  proof (cases "is_space c")
    case True
    then show ?thesis using Cons.IH [of buf pos fin p] Cons.prems by simp
  next
    case False
    then obtain b fin' where b: "b64_value c pos fin = Inr (b, fin')" using Cons.prems(1) by (auto simp: rbind_eq_Inr)
    show ?thesis
    proof (cases "pos = 3")
      case True
      define p' where "p' = p @ [ucast (drop_bit 16 (push_bit 6 buf + word_of_int b) AND 255)] @
        (if fin' = 0 \<or> fin' > 1 then [ucast (drop_bit 8 (push_bit 6 buf + word_of_int b) AND 255)] else []) @
        (if fin' = 0 \<or> fin' > 2 then [ucast ((push_bit 6 buf + word_of_int b) AND 255)] else [])"
      have "b64_decode_loop 0 0 fin' p' s = Inr ys" using Cons.prems(1) False b True unfolding p'_def by (simp add: Let_def del: append.simps)
      from Cons.IH [OF this] have "4 * length ys \<le> 4 * length p' + 3 * length s" by simp
      moreover have "length p' \<le> length p + 3" by (simp add: p'_def)
      ultimately show ?thesis using True by simp
    next
      case pos: False
      then have "b64_decode_loop (push_bit 6 buf + word_of_int b) (pos + 1) fin' p s = Inr ys" using Cons.prems(1) False b by simp
      from Cons.IH [OF this] show ?thesis using Cons.prems(2,3) pos by (simp add: nat_add_distrib)
    qed
  qed
qed (auto split: if_splits)

lemma length_b64_decode: "b64_decode xs = Inr ys \<Longrightarrow> 4 * length ys \<le> 3 * length xs"
  using length_b64_decode_loop [of 0 0 0 "[]" xs ys] by (simp add: b64_decode_def)

text \<open>
  The length of the output, line feeds included: \<open>r\<close> bytes are in the buffer and \<open>q\<close> groups are on the current line, which is full with 19 of them.
\<close>

lemma length_b64_encode_loop:
  "b64_encode_loop buf pos lend p xs = (buf', pos', p') \<Longrightarrow> pos = 2 - int r \<Longrightarrow> r < 3 \<Longrightarrow> length p + 76 = lend + 4 * q \<Longrightarrow> q < 19 \<Longrightarrow>
   length p' = length p + 4 * ((r + length xs) div 3) + (3 * q + r + length xs) div 57 \<and> pos' = 2 - int ((r + length xs) mod 3)"
proof (induction xs arbitrary: buf pos lend p r q)
  case Nil
  then show ?case by auto
next
  case (Cons x xs)
  define buf1 where "buf1 = buf OR push_bit (nat (pos * 8)) (ucast x)"
  show ?case
  proof (cases "r = 2")
    case False
    then have "b64_encode_loop buf1 (2 - int (Suc r)) lend p xs = (buf', pos', p')"
      using Cons.prems by (simp add: buf1_def Let_def)
    from Cons.IH [OF this, of "Suc r" q] show ?thesis using False Cons.prems by simp
  next
    case r: True
    define p1 where "p1 = p @ [sextet 18 buf1, sextet 12 buf1, sextet 6 buf1, sextet 0 buf1]"
    have len: "length p1 = length p + 4" by (simp add: p1_def)
    have dv: "(3 + n) div 3 = Suc (n div 3)" "(57 + n) div 57 = Suc (n div 57)" for n :: nat by (simp_all add: div_add_self1)
    show ?thesis
    proof (cases "q = 18")
      case True
      have lend: "lend = length p + 4" using True Cons.prems(4) by simp
      have "b64_encode_loop 0 2 (length p1 + 1 + 76) (p1 @ [0x0A]) xs = (buf', pos', p')"
        using Cons.prems(1) r len lend unfolding buf1_def p1_def by (simp add: Let_def Cons.prems(2) algebra_simps)
      then show ?thesis using Cons.IH [of 0 2 _ "p1 @ [0x0A]" 0 0] True r len dv by simp
    next
      case False
      then have "b64_encode_loop 0 2 lend p1 xs = (buf', pos', p')"
        using Cons.prems r len by (simp add: buf1_def p1_def Let_def)
      from Cons.IH [OF this, of 0 "Suc q"] show ?thesis using False Cons.prems(4,5) r len dv by (simp add: add.assoc)
    qed
  qed
qed

lemma length_b64_encode: "length (b64_encode xs) = 4 * ((length xs + 2) div 3) + length xs div 57"
proof -
  obtain buf pos p where l: "b64_encode_loop 0 2 76 [] xs = (buf, pos, p)" by (metis prod_cases3)
  from length_b64_encode_loop [OF this, of 0 0] have "length p = 4 * (length xs div 3) + length xs div 57" "pos = 2 - int (length xs mod 3)" by auto
  moreover have "(length xs + 2) div 3 = length xs div 3 + (if length xs mod 3 = 0 then 0 else 1)" by presburger
  ultimately show ?thesis by (simp add: b64_encode_finish b64_finish_def l)
qed

section \<open>The contract of an encoding\<close>

lemma sint32: "sint (w :: uint32) = (if unat w < 2 ^ 31 then int (unat w) else int (unat w) - 2 ^ 32)"
proof -
  have u: "0 \<le> uint w" "uint w < 2 ^ 32" using unsigned_less [of w] by auto
  have "bit (uint w) 31 \<longleftrightarrow> 2 ^ 31 \<le> uint w"
  proof -
    have "uint w div 2 ^ 31 = (if 2 ^ 31 \<le> uint w then 1 else 0)" using u by auto
    then show ?thesis by (auto simp: bit_iff_odd)
  qed
  moreover have "sint w = take_bit 32 (uint w) - 2 ^ 32 * of_bool (bit (uint w) 31)"
    by (simp add: sint_uint signed_take_bit_eq_take_bit_minus)
  moreover have "take_bit 32 (uint w) = uint w" using u by (simp add: take_bit_int_eq_self)
  moreover have "int (unat w) = uint w" by simp
  moreover have "unat w < 2 ^ 31 \<longleftrightarrow> uint w < 2 ^ 31" using nat_less_iff [OF u(1), of "2 ^ 31"] by simp
  ultimately show ?thesis by auto
qed

lemma sint_length: "length xs < 2 ^ 31 \<Longrightarrow> sint (of_nat (length xs) :: uint32) = int (length xs)"
  by (simp add: sint32 unat_of_nat)

text \<open>The longest value a \<^verbatim>\<open>varlena\<close> can have.\<close>

definition max_varlena :: nat where
  "max_varlena = 0x3fffffff - 4"

text \<open>
  What \<^verbatim>\<open>binary_encode\<close> and \<^verbatim>\<open>binary_decode\<close> rely on: the estimates are upper bounds of what the routines write, and decoding undoes encoding.
\<close>

locale byte_codec =
  fixes E :: pg_encoding
  assumes encode_fits: "length xs \<le> max_varlena \<Longrightarrow> length (encode E xs) \<le> unat (encode_len E xs)"
    and encode_len_le: "length xs \<le> max_varlena \<Longrightarrow> unat (encode_len E xs) \<le> 4 * length xs + 2"
    and decode_len_le: "length xs \<le> max_varlena \<Longrightarrow> decode_len E xs = Inr n \<Longrightarrow> unat n \<le> length xs"
    and decode_fits: "length xs \<le> max_varlena \<Longrightarrow> decode E xs = Inr ys \<Longrightarrow> \<exists>n. decode_len E xs = Inr n \<and> length ys \<le> unat n"
    and decode_encode: "decode E (encode E xs) = Inr xs"
begin

lemma encode_with_eq:
  assumes xs: "length xs \<le> max_varlena"
  shows "encode_with E xs = (if unat (encode_len E xs) \<le> max_varlena then Inr (encode E xs)
    else Inl (Ereport ERROR ERRCODE_INVALID_PARAMETER_VALUE))"
proof -
  let ?n = "encode_len E xs"
  have n: "length (encode E xs) \<le> unat ?n" "unat ?n \<le> 4 * length xs + 2" by (rule encode_fits [OF xs], rule encode_len_le [OF xs])
  show ?thesis
  proof (cases "unat ?n \<le> max_varlena")
    case True
    then have "unat ?n < 2 ^ 31" "length (encode E xs) < 2 ^ 31" using n(1) by (simp_all add: max_varlena_def)
    moreover from this have "sint ?n = int (unat ?n)" unfolding sint32 by (simp only: if_True)
    moreover have "int (unat ?n) \<le> 0x3fffffff - 4" using True unfolding max_varlena_def by linarith
    ultimately show ?thesis
      using True n(1) by (simp add: encode_with_def palloc_ok_def sint_length VARHDRSZ_def MaxAllocSize_def del: of_nat_unat)
  next
    case False
    then have "0x3fffffff - 4 < int (unat ?n)" "int (unat ?n) \<le> 4294967278" using n(2) xs unfolding max_varlena_def by linarith+
    then have "VARHDRSZ + sint ?n < 0 \<or> MaxAllocSize < VARHDRSZ + sint ?n"
      unfolding sint32 VARHDRSZ_def MaxAllocSize_def by (simp del: of_nat_unat)
    then show ?thesis using False by (auto simp: encode_with_def palloc_ok_def)
  qed
qed

lemma decode_with_eq:
  assumes xs: "length xs \<le> max_varlena"
  shows "decode_with E xs = rbind (decode_len E xs) (\<lambda>_. decode E xs)"
proof (cases "decode_len E xs")
  case (Inr n)
  have n: "unat n \<le> max_varlena" using decode_len_le [OF xs Inr] xs by simp
  then have s: "sint n = int (unat n)" unfolding sint32 max_varlena_def by simp
  have "int (unat n) \<le> 0x3fffffff - 4" using n unfolding max_varlena_def by linarith
  then have p: "palloc_ok (VARHDRSZ + sint n) = Inr ()" unfolding s by (simp add: palloc_ok_def VARHDRSZ_def MaxAllocSize_def del: of_nat_unat)
  have "sint (of_nat (length ys) :: uint32) \<le> sint n" if "decode E xs = Inr ys" for ys
  proof -
    have "length ys \<le> unat n" using decode_fits [OF xs that] Inr by auto
    moreover from this n have "length ys < 2 ^ 31" by (simp add: max_varlena_def)
    ultimately show ?thesis unfolding s by (simp add: sint_length del: of_nat_unat)
  qed
  then have "rbind (decode E xs) (\<lambda>result. if sint (of_nat (length result) :: uint32) > sint n then Inl (Ereport ERROR ERRCODE_DATA_EXCEPTION) else Inr result) = decode E xs"
    by (cases "decode E xs") (auto simp: not_le[symmetric])
  then show ?thesis using Inr p by (simp add: decode_with_def Let_def)
qed (simp add: decode_with_def)

lemma round_trip:
  assumes xs: "length xs \<le> max_varlena" and enc: "encode_with E xs = Inr t"
  shows "decode_with E t = Inr xs"
proof -
  have t: "t = encode E xs" "unat (encode_len E xs) \<le> max_varlena" using enc encode_with_eq [OF xs] by (auto split: if_splits)
  then have l: "length t \<le> max_varlena" using encode_fits [OF xs] by simp
  obtain n where "decode_len E t = Inr n" using decode_fits [OF l] decode_encode t(1) by blast
  then show ?thesis using decode_with_eq [OF l] decode_encode t(1) by simp
qed

lemma short_encodes: "4 * length xs + 2 \<le> max_varlena \<Longrightarrow> \<exists>t. encode_with E xs = Inr t"
  using encode_with_eq [of xs] encode_len_le [of xs] by simp

end

lemma unat_length: "length xs < 2 ^ 32 \<Longrightarrow> unat (of_nat (length xs) :: uint32) = length xs"
  by (simp add: unat_of_nat)

interpretation hex: byte_codec hex_encoding
proof
  fix xs ys :: "uint8 list" and n
  assume xs: "length xs \<le> max_varlena"
  then have u: "unat (hex_enc_len xs) = 2 * length xs"
    by (simp add: hex_enc_len_def push_bit_eq_mult max_varlena_def unat_word_ariths unat_length)
  show "length (encode hex_encoding xs) \<le> unat (encode_len hex_encoding xs)" using u by (simp add: hex_encoding_def length_hex_encode)
  show "unat (encode_len hex_encoding xs) \<le> 4 * length xs + 2" using u by (simp add: hex_encoding_def)
  have d: "unat (drop_bit 1 (of_nat (length xs) :: uint32)) = length xs div 2"
    using xs by (simp add: max_varlena_def drop_bit_eq_div unat_div_distrib unat_length)
  show "unat n \<le> length xs" if "decode_len hex_encoding xs = Inr n" using that d by (auto simp: hex_encoding_def hex_dec_len_def)
  show "\<exists>n. decode_len hex_encoding xs = Inr n \<and> length ys \<le> unat n" if "decode hex_encoding xs = Inr ys"
    using that d length_hex_decode [of xs ys] by (auto simp: hex_encoding_def hex_dec_len_def)
next
  show "decode hex_encoding (encode hex_encoding xs) = Inr xs" for xs by (simp add: hex_encoding_def hex_decode_encode)
qed

interpretation b64: byte_codec b64_encoding
proof
  fix xs ys :: "uint8 list" and n
  assume xs: "length xs \<le> max_varlena"
  then have u: "unat (b64_enc_len xs) = (length xs + 2) * 4 div 3 + length xs div 57"
    by (simp add: b64_enc_len_def Let_def max_varlena_def unat_word_ariths unat_div_distrib unat_length)
  show "length (encode b64_encoding xs) \<le> unat (encode_len b64_encoding xs)" using u by (simp add: b64_encoding_def length_b64_encode)
  show "unat (encode_len b64_encoding xs) \<le> 4 * length xs + 2" using u by (simp add: b64_encoding_def)
  have d: "unat (drop_bit 2 (of_nat (length xs) * 3 :: uint32)) = length xs * 3 div 4"
    using xs by (simp add: max_varlena_def drop_bit_eq_div unat_div_distrib unat_length unat_word_ariths)
  show "unat n \<le> length xs" if "decode_len b64_encoding xs = Inr n" using that d by (auto simp: b64_encoding_def b64_dec_len_def)
  show "\<exists>n. decode_len b64_encoding xs = Inr n \<and> length ys \<le> unat n" if "decode b64_encoding xs = Inr ys"
    using that d length_b64_decode [of xs ys] by (auto simp: b64_encoding_def b64_dec_len_def)
next
  show "decode b64_encoding (encode b64_encoding xs) = Inr xs" for xs by (simp add: b64_encoding_def b64_decode_encode)
qed

lemma esc_dec_len_le:
  "esc_dec_len_from m xs = Inr n \<Longrightarrow> unat m + length xs < 2 ^ 32 \<Longrightarrow> unat n \<le> unat m + length xs"
proof (induction m xs rule: esc_dec_len_from.induct)
  case (2 len c src)
  have s: "unat (len + 1) = Suc (unat len)" using "2.prems"(2) by (simp add: unat_word_ariths)
  consider (plain) "c \<noteq> 0x5C" "esc_dec_len_from (len + 1) src = Inr n"
    | (octal) "c = 0x5C" "is_octal src" "esc_dec_len_from (len + 1) (drop 3 src) = Inr n"
    | (slash) "c = 0x5C" "\<not> is_octal src" "src \<noteq> []" "hd src = 0x5C" "esc_dec_len_from (len + 1) (tl src) = Inr n"
    using "2.prems"(1) by (auto split: if_splits)
  then show ?case
  proof cases
    case plain
    then show ?thesis using "2.IH"(1) "2.prems"(2) s by simp
  next
    case octal
    then have "unat n \<le> unat (len + 1) + length (drop 3 src)" using "2.prems"(2) s by (intro "2.IH"(2)) auto
    moreover have "3 \<le> length src" using octal(2) by (simp add: is_octal_def)
    ultimately show ?thesis using s by simp
  next
    case slash
    then show ?thesis using "2.IH"(3) "2.prems"(2) s by (cases src) simp_all
  qed
qed simp

interpretation esc: byte_codec esc_encoding
proof
  fix xs ys :: "uint8 list" and n
  assume xs: "length xs \<le> max_varlena"
  then have u: "unat (esc_enc_len xs) = length (esc_encode xs)"
    using esc_enc_len_eq [of xs] by (simp add: max_varlena_def unat_length)
  show "length (encode esc_encoding xs) \<le> unat (encode_len esc_encoding xs)" using u by (simp add: esc_encoding_def)
  show "unat (encode_len esc_encoding xs) \<le> 4 * length xs + 2" using u esc_enc_len_eq(2) [of xs] by (simp add: esc_encoding_def)
  show "unat n \<le> length xs" if "decode_len esc_encoding xs = Inr n" using that xs esc_dec_len_le [of 0 xs n] by (auto simp: esc_encoding_def esc_dec_len_def max_varlena_def)
  show "\<exists>n. decode_len esc_encoding xs = Inr n \<and> length ys \<le> unat n" if "decode esc_encoding xs = Inr ys"
    using that xs length_esc_decode [of xs ys 0] by (auto simp: esc_encoding_def esc_dec_len_def max_varlena_def unat_length)
next
  show "decode esc_encoding (encode esc_encoding xs) = Inr xs" for xs by (simp add: esc_encoding_def esc_decode_encode)
qed

section \<open>Theorems\<close>

lemma find_encoding_cases: "pg_find_encoding low name = Some enc \<Longrightarrow> enc \<in> {hex_encoding, b64_encoding, esc_encoding}"
  by (auto simp: pg_find_encoding_def enclist_def split: if_splits)

lemma find_encoding_codec: "pg_find_encoding low name = Some enc \<Longrightarrow> byte_codec enc"
  using find_encoding_cases [of low name enc] hex.byte_codec_axioms b64.byte_codec_axioms esc.byte_codec_axioms by auto

text \<open>
  C22. Decoding undoes encoding. For each encoding that \<^verbatim>\<open>pg_find_encoding\<close> knows, hex, base64 with its line feeds, and escape: when
  \<^verbatim>\<open>binary_encode\<close> returns a text for some data, \<^verbatim>\<open>binary_decode\<close> returns the data for that text; and it returns a text for all data whose
  size estimate fits into an allocation, in particular for all data of up to a quarter of it.
\<close>

theorem binary_decode_encode:
  assumes "pg_find_encoding low name = Some enc" "length data \<le> max_varlena"
  shows "(if unat (encode_len enc data) \<le> max_varlena
      then \<exists>txt. binary_encode low data name = Inr txt \<and> binary_decode low txt name = Inr data
      else binary_encode low data name = Inl (Ereport ERROR ERRCODE_INVALID_PARAMETER_VALUE)) \<and>
    (4 * length data + 2 \<le> max_varlena \<longrightarrow> unat (encode_len enc data) \<le> max_varlena)"
proof -
  note codec = find_encoding_codec [OF assms(1)]
  note enc = byte_codec.encode_with_eq [OF codec assms(2)]
  have "decode_with enc (encode enc data) = Inr data" if "unat (encode_len enc data) \<le> max_varlena"
    using byte_codec.round_trip [OF codec assms(2)] enc that by simp
  moreover have "4 * length data + 2 \<le> max_varlena \<longrightarrow> unat (encode_len enc data) \<le> max_varlena"
    using byte_codec.encode_len_le [OF codec assms(2)] by linarith
  ultimately show ?thesis using enc assms(1) by (simp add: binary_encode_def binary_decode_def)
qed

text \<open>
  C29. The size estimates are never too small: no encoder and no decoder writes more bytes than its \<^verbatim>\<open>_len\<close> routine has announced, whatever
  the input. So the complaint of \<^verbatim>\<open>binary_encode\<close>, a FATAL error because memory has been overwritten, and that of \<^verbatim>\<open>binary_decode\<close> never occur.
\<close>

theorem estimates_suffice:
  assumes "pg_find_encoding low name = Some enc" "length data \<le> max_varlena"
  shows "length (encode enc data) \<le> unat (encode_len enc data) \<and>
    (\<forall>dst n. decode enc data = Inr dst \<and> decode_len enc data = Inr n \<longrightarrow> length dst \<le> unat n) \<and>
    binary_encode low data name \<noteq> Inl (Ereport FATAL ERRCODE_DATA_CORRUPTED) \<and>
    binary_decode low data name = rbind (decode_len enc data) (\<lambda>_. decode enc data)"
proof -
  note codec = find_encoding_codec [OF assms(1)]
  have "binary_encode low data name \<noteq> Inl (Ereport FATAL ERRCODE_DATA_CORRUPTED)"
    using byte_codec.encode_with_eq [OF codec assms(2)] assms(1) by (simp add: binary_encode_def)
  moreover have "binary_decode low data name = rbind (decode_len enc data) (\<lambda>_. decode enc data)"
    using byte_codec.decode_with_eq [OF codec assms(2)] assms(1) by (simp add: binary_decode_def)
  moreover have "length dst \<le> unat n" if "decode enc data = Inr dst" "decode_len enc data = Inr n" for dst n
    using byte_codec.decode_fits [OF codec assms(2) that(1)] that(2) by auto
  ultimately show ?thesis using byte_codec.encode_fits [OF codec assms(2)] by blast
qed

lemma and_3: "(x :: uint8) AND 3 = take_bit 2 x"
  by (simp add: take_bit_eq_mask mask_eq_exp_minus_1)

lemma byteaout_octal:
  fixes c :: uint8
  defines "s \<equiv> [(drop_bit 6 c AND 3) + 0x30, (drop_bit 3 c AND 7) + 0x30, (c AND 7) + 0x30]"
  shows "is_octal s" "octal_value s = c" "length s = 3"
proof -
  have "take_bit 2 (drop_bit 6 c) = drop_bit 6 c" by (rule bit_word_eqI) (auto simp: bit_simps dest: bit_word_less_len)
  then have "drop_bit 6 c AND 3 = drop_bit 6 c" by (simp add: and_3)
  then show "is_octal s" "octal_value s = c" "length s = 3" using octal_byte [of c] by (simp_all add: s_def)
qed

text \<open>Both passes of \<^verbatim>\<open>byteain\<close> go the same way.\<close>

lemma bytea_passes_agree:
  "bytea_count mblen tp = map_option (\<lambda>r. rbind r (\<lambda>rp. Inr (length rp))) (bytea_copy mblen tp)"
proof (induction mblen tp rule: bytea_copy.induct)
  case (2 mblen c tp)
  have g: "map_option (\<lambda>r. rbind r (\<lambda>bc. Inr (bc + k))) (map_option (\<lambda>r. rbind r (\<lambda>rp. Inr (length rp))) x) =
    map_option (\<lambda>r. rbind r (\<lambda>rp. Inr (length rp))) (map_option (\<lambda>r. rbind r (\<lambda>rp. Inr (h @ rp))) x)" if "length h = k" for k x and h :: "uint8 list"
    using that by (cases x) (auto simp: rbind_def add.commute split: sum.splits)
  show ?case
    using "2.IH"(1) [OF _ refl] "2.IH"(2,3) g [of "take (mblen (c # tp)) (c # tp)" "mblen (c # tp)"] g [of "[octal_value tp]" 1] g [of "[0x5C]" 1]
    by (auto simp: Let_def)
qed simp

lemma bytea_copy_escape:
  assumes "\<And>c tp. 0x20 \<le> c \<Longrightarrow> c \<le> 0x7e \<Longrightarrow> mblen (c # tp) = 1"
  shows "bytea_copy mblen (byteaout_escape v) = Some (Inr v)"
proof (induction v)
  case (Cons c v)
  consider "c = 0x5C" | "c \<noteq> 0x5C" "c < 0x20 \<or> c > 0x7e" | "c \<noteq> 0x5C" "0x20 \<le> c" "c \<le> 0x7e" by force
  then show ?case
  proof cases
    case 1
    have "\<not> is_octal (0x5C # t)" for t by (simp add: is_octal_def)
    then show ?thesis using 1 Cons.IH by simp
  next
    case 2
    let ?s = "[(drop_bit 6 c AND 3) + 0x30, (drop_bit 3 c AND 7) + 0x30, (c AND 7) + 0x30]"
    have "byteaout_escape (c # v) = 0x5C # ?s @ byteaout_escape v" using 2 by simp
    moreover have "is_octal (?s @ byteaout_escape v)" "octal_value (?s @ byteaout_escape v) = c"
      using octal_append [of ?s] byteaout_octal [of c] by simp_all
    ultimately show ?thesis using Cons.IH by simp
  next
    case 3
    then have "byteaout_escape (c # v) = c # byteaout_escape v" by (auto simp del: One_nat_def)
    then show ?thesis using assms [of c "byteaout_escape v"] Cons.IH 3 by simp
  qed
qed simp

lemma byteaout_len_eq: "byteaout_len v = 1 + of_nat (length (byteaout_escape v))"
proof -
  have "fold (\<lambda>c len. if c = 0x5C then len + 2 else if c < 0x20 \<or> c > 0x7e then len + 4 else len + 1) v n =
    n + (of_nat (length (byteaout_escape v)) :: uint32)" for n
    by (induction v arbitrary: n) (auto simp: algebra_simps)
  then show ?thesis by (simp add: byteaout_len_def)
qed

lemma escape_not_hex: "take 2 (byteaout_escape v) \<noteq> [0x5C, 0x78]"
proof (cases v)
  case (Cons c v')
  have "(drop_bit 6 c AND 3) + 0x30 \<noteq> (0x78 :: uint8)"
  proof
    assume "(drop_bit 6 c AND 3) + 0x30 = (0x78 :: uint8)"
    then have "drop_bit 6 c AND 3 = (0x48 :: uint8)" by (simp add: eq_diff_eq [symmetric])
    then show False using unat_low_bits [of 2 "drop_bit 6 c"] by (simp add: and_3)
  qed
  then show ?thesis using Cons by auto
qed simp
lemma byteaout_escape_le: "length (byteaout_escape v) \<le> 4 * length v"
  by (induction v) auto

text \<open>
  C30. What \<^verbatim>\<open>byteaout\<close> prints, \<^verbatim>\<open>byteain\<close> reads back, in the hex and in the escape format, in every database encoding in which printable
  ASCII characters are one byte long.
\<close>

theorem byteain_byteaout:
  assumes ascii: "\<And>c tp. 0x20 \<le> c \<Longrightarrow> c \<le> 0x7e \<Longrightarrow> mblen (c # tp) = 1" and v: "length v \<le> max_varlena" and out: "byteaout fmt v = Inr s"
  shows "byteain mblen s = Some (Inr v)"
proof (cases "fmt = BYTEA_OUTPUT_HEX")
  case True
  then have "s = [0x5C, 0x78] @ hex_encode v" using out by (auto simp: byteaout_def rbind_eq_Inr)
  then show ?thesis using v hex_decode_encode [of v]
    by (simp add: byteain_def palloc_ok_def length_hex_encode max_varlena_def VARHDRSZ_def MaxAllocSize_def)
next
  case False
  then have s: "s = byteaout_escape v" using out by (auto simp: byteaout_def rbind_eq_Inr split: if_splits)
  have "bytea_copy mblen s = Some (Inr v)" unfolding s by (rule bytea_copy_escape) (rule ascii)
  moreover from this have "bytea_count mblen s = Some (Inr (length v))" by (simp add: bytea_passes_agree)
  ultimately show ?thesis using v escape_not_hex [of v] s
    by (simp add: byteain_def palloc_ok_def max_varlena_def VARHDRSZ_def MaxAllocSize_def)
qed

text \<open>
  The passes of the bytea functions agree on the size of the buffer, whatever the input: the second pass of \<^verbatim>\<open>byteain\<close> never meets the error
  that the first has excluded and writes exactly the bytes the first has counted; and \<^verbatim>\<open>byteaout\<close> fills the string it has allocated for the
  escape format up to the terminating zero, although the 32-bit count could wrap around.
\<close>

theorem bytea_buffers_exact:
  "(bytea_count mblen tp = Some (Inr bc) \<longrightarrow> (\<exists>rp. bytea_copy mblen tp = Some (Inr rp) \<and> length rp = bc)) \<and>
   (length v \<le> max_varlena \<and> byteaout BYTEA_OUTPUT_ESCAPE v = Inr s \<longrightarrow> sint (byteaout_len v) = int (length s) + 1)"
proof (intro conjI impI)
  assume "bytea_count mblen tp = Some (Inr bc)"
  then show "\<exists>rp. bytea_copy mblen tp = Some (Inr rp) \<and> length rp = bc" by (auto simp: bytea_passes_agree rbind_eq_Inr)
next
  assume a: "length v \<le> max_varlena \<and> byteaout BYTEA_OUTPUT_ESCAPE v = Inr s"
  then have s: "s = byteaout_escape v" "0 \<le> sint (byteaout_len v)"
    by (auto simp: byteaout_def palloc_ok_def rbind_eq_Inr BYTEA_OUTPUT_ESCAPE_def BYTEA_OUTPUT_HEX_def split: if_splits)
  have l: "length s + 1 < 2 ^ 32" using a byteaout_escape_le [of v] by (simp add: s(1) max_varlena_def)
  have "byteaout_len v = of_nat (length s + 1)" by (simp add: byteaout_len_eq s(1))
  then have u: "unat (byteaout_len v) = length s + 1" using l by (simp only: unat_of_nat) simp
  then show "sint (byteaout_len v) = int (length s) + 1" using s(2) l unfolding sint32 u by (auto split: if_splits)
qed

section \<open>Examples\<close>

lemma find_base64: "pg_find_encoding id (bytes_of ''Base64'') = Some b64_encoding"
proof -
  have "pg_strcasecmp id (bytes_of ''hex'') (bytes_of ''Base64'') \<noteq> 0" "pg_strcasecmp id (bytes_of ''base64'') (bytes_of ''Base64'') = 0" by code_simp+
  then show ?thesis by (simp add: pg_find_encoding_def enclist_def)
qed

theorem binary_decode_encode_witness:
  "\<exists>txt. binary_encode id [1, 2, 200, 0] (bytes_of ''Base64'') = Inr txt \<and> binary_decode id txt (bytes_of ''Base64'') = Inr [1, 2, 200, 0]"
  using binary_decode_encode [OF find_base64, of "[1, 2, 200, 0]"] by (simp add: max_varlena_def)

theorem estimates_suffice_witness: "length (encode b64_encoding [1, 2, 200, 0]) \<le> unat (encode_len b64_encoding [1, 2, 200, 0])"
  using estimates_suffice [OF find_base64, of "[1, 2, 200, 0]"] by (simp add: max_varlena_def)

theorem byteain_byteaout_witness: "byteain pg_latin1_mblen (bytes_of ''a'' @ [0x5C, 0x5C]) = Some (Inr [0x61, 0x5C])"
proof -
  have "byteaout BYTEA_OUTPUT_ESCAPE [0x61, 0x5C] = Inr (bytes_of ''a'' @ [0x5C, 0x5C])" by code_simp
  then show ?thesis
    by (intro byteain_byteaout [where fmt = BYTEA_OUTPUT_ESCAPE and mblen = pg_latin1_mblen]) (simp_all add: pg_latin1_mblen_def max_varlena_def)
qed

theorem bytea_buffers_exact_witness: "\<exists>rp. bytea_copy pg_latin1_mblen (bytes_of ''ab'') = Some (Inr rp) \<and> length rp = 2"
proof -
  have "bytea_count pg_latin1_mblen (bytes_of ''ab'') = Some (Inr 2)" by code_simp
  then show ?thesis using bytea_buffers_exact [of pg_latin1_mblen "bytes_of ''ab''" 2] by blast
qed

end
