(* ===== verification/OG_Utf8.thy ===== *)
theory OG_Utf8
  imports OG_Prelude
begin

text \<open>
  \<^verbatim>\<open>src/common/backend/utils/mb/wchar.cpp\<close>: the routines for UTF-8. A string is a list of bytes; a pointer into it is a position, and a pointer to
  a character with the bytes that follow is the rest of the list. Both variants of \<^verbatim>\<open>pg_utf8_verifystr\<close> are modelled, the portable one and the one with NEON
  instructions.

  The shift-based automaton of \<^verbatim>\<open>pg_utf8_verifystr\<close> gives in both variants the same answer as checking character by character; what it accepts is exactly what
  \<^verbatim>\<open>unicode_to_utf8\<close> makes of Unicode scalar values; and \<^verbatim>\<open>utf8_to_unicode\<close> is its inverse.
\<close>

section \<open>Characters\<close>

type_synonym pg_wchar = uint32

definition IS_HIGHBIT_SET_U :: "uint8 \<Rightarrow> bool" where
  "IS_HIGHBIT_SET_U ch \<longleftrightarrow> ch AND 0x80 \<noteq> 0"

text \<open>The routines that look at the first byte only take it as argument.\<close>

definition pg_utf_mblen :: "uint8 \<Rightarrow> nat" where
  "pg_utf_mblen s =
     (if s AND 0x80 = 0 then 1
      else if s AND 0xe0 = 0xc0 then 2
      else if s AND 0xf0 = 0xe0 then 3
      else if s AND 0xf8 = 0xf0 then 4
      else 1)"

definition unicode_to_utf8 :: "pg_wchar \<Rightarrow> uint8 list" where
  "unicode_to_utf8 c =
     (if c \<le> 0x7F then [ucast c]
      else if c \<le> 0x7FF then [ucast (0xC0 OR (drop_bit 6 c AND 0x1F)), ucast (0x80 OR (c AND 0x3F))]
      else if c \<le> 0xFFFF
      then [ucast (0xE0 OR (drop_bit 12 c AND 0x0F)), ucast (0x80 OR (drop_bit 6 c AND 0x3F)), ucast (0x80 OR (c AND 0x3F))]
      else [ucast (0xF0 OR (drop_bit 18 c AND 0x07)), ucast (0x80 OR (drop_bit 12 c AND 0x3F)), ucast (0x80 OR (drop_bit 6 c AND 0x3F)),
            ucast (0x80 OR (c AND 0x3F))])"

definition utf8_to_unicode :: "uint8 list \<Rightarrow> pg_wchar" where
  "utf8_to_unicode c =
     (if c ! 0 AND 0x80 = 0 then ucast (c ! 0)
      else if c ! 0 AND 0xe0 = 0xc0 then push_bit 6 (ucast (c ! 0 AND 0x1f)) OR ucast (c ! 1 AND 0x3f)
      else if c ! 0 AND 0xf0 = 0xe0
      then push_bit 12 (ucast (c ! 0 AND 0x0f)) OR push_bit 6 (ucast (c ! 1 AND 0x3f)) OR ucast (c ! 2 AND 0x3f)
      else if c ! 0 AND 0xf8 = 0xf0
      then push_bit 18 (ucast (c ! 0 AND 0x07)) OR push_bit 12 (ucast (c ! 1 AND 0x3f)) OR push_bit 6 (ucast (c ! 2 AND 0x3f)) OR ucast (c ! 3 AND 0x3f)
      else 0xffffffff)"

text \<open>The cases of the \<^verbatim>\<open>switch\<close> fall through to the next smaller length.\<close>

definition in_range :: "uint8 \<Rightarrow> uint8 \<Rightarrow> uint8 \<Rightarrow> bool" where
  "in_range lo hi a \<longleftrightarrow> \<not> (a < lo \<or> a > hi)"

definition islegal_1 :: "uint8 list \<Rightarrow> bool" where
  "islegal_1 source = (let a = source ! 0 in \<not> (a \<ge> 0x80 \<and> a < 0xC2) \<and> \<not> a > 0xF4)"

definition islegal_2 :: "uint8 list \<Rightarrow> bool" where
  "islegal_2 source =
     (let a = source ! 1
      in (if source ! 0 = 0xE0 then in_range 0xA0 0xBF a
          else if source ! 0 = 0xED then in_range 0x80 0x9F a
          else if source ! 0 = 0xF0 then in_range 0x90 0xBF a
          else if source ! 0 = 0xF4 then in_range 0x80 0x8F a
          else in_range 0x80 0xBF a) \<and> islegal_1 source)"

definition pg_utf8_islegal :: "uint8 list \<Rightarrow> nat \<Rightarrow> bool" where
  "pg_utf8_islegal source len =
     (if len = 4 then in_range 0x80 0xBF (source ! 3) \<and> in_range 0x80 0xBF (source ! 2) \<and> islegal_2 source
      else if len = 3 then in_range 0x80 0xBF (source ! 2) \<and> islegal_2 source
      else if len = 2 then islegal_2 source
      else if len = 1 then islegal_1 source
      else False)"

text \<open>The result -1 of the verifier is \<open>None\<close>.\<close>

definition pg_utf8_verifier :: "uint8 list \<Rightarrow> nat option" where
  "pg_utf8_verifier s =
     (let l = pg_utf_mblen (s ! 0)
      in if length s < l then None else if \<not> pg_utf8_islegal s l then None else Some l)"

section \<open>Strings of wide characters\<close>

function pg_utf2wchar_with_len :: "uint8 list \<Rightarrow> pg_wchar list" where
  "pg_utf2wchar_with_len [] = []"
| "pg_utf2wchar_with_len (c # from) =
     (if c = 0 then []
      else if c AND 0x80 = 0 then ucast c # pg_utf2wchar_with_len from
      else if c AND 0xe0 = 0xc0
      then if length (c # from) < 2 then []
           else (push_bit 6 (ucast (c AND 0x1f)) OR ucast (from ! 0 AND 0x3f)) # pg_utf2wchar_with_len (drop 1 from)
      else if c AND 0xf0 = 0xe0
      then if length (c # from) < 3 then []
           else (push_bit 12 (ucast (c AND 0x0f)) OR push_bit 6 (ucast (from ! 0 AND 0x3f)) OR ucast (from ! 1 AND 0x3f)) #
                pg_utf2wchar_with_len (drop 2 from)
      else if c AND 0xf8 = 0xf0
      then if length (c # from) < 4 then []
           else (push_bit 18 (ucast (c AND 0x07)) OR push_bit 12 (ucast (from ! 0 AND 0x3f)) OR push_bit 6 (ucast (from ! 1 AND 0x3f)) OR
                 ucast (from ! 2 AND 0x3f)) # pg_utf2wchar_with_len (drop 3 from)
      else ucast c # pg_utf2wchar_with_len from)"
  by pat_completeness auto
termination
  by (relation "measure length") auto

text \<open>Only the first \<^verbatim>\<open>char_len\<close> bytes that \<^verbatim>\<open>unicode_to_utf8\<close> has written are kept.\<close>

fun pg_wchar2utf_with_len :: "pg_wchar list \<Rightarrow> uint8 list" where
  "pg_wchar2utf_with_len [] = []"
| "pg_wchar2utf_with_len (c # from) =
     (if c = 0 then []
      else let bytes = unicode_to_utf8 c in take (pg_utf_mblen (bytes ! 0)) bytes @ pg_wchar2utf_with_len from)"

section \<open>The automaton\<close>

definition ERR :: uint32 where "ERR = 0"
definition BGN :: uint32 where "BGN = 11"
definition CS1 :: uint32 where "CS1 = 16"
definition CS2 :: uint32 where "CS2 = 1"
definition CS3 :: uint32 where "CS3 = 5"
definition P3A :: uint32 where "P3A = 6"
definition P3B :: uint32 where "P3B = 20"
definition P4A :: uint32 where "P4A = 25"
definition P4B :: uint32 where "P4B = 30"
definition END :: uint32 where "END = BGN"

definition shl :: "uint32 \<Rightarrow> uint32 \<Rightarrow> uint32" where
  "shl x n = push_bit (unat n) x"

definition ASC :: uint32 where "ASC = shl END BGN"
definition L2A :: uint32 where "L2A = shl CS1 BGN"
definition L3A :: uint32 where "L3A = shl P3A BGN"
definition L3B :: uint32 where "L3B = shl CS2 BGN"
definition L3C :: uint32 where "L3C = shl P3B BGN"
definition L4A :: uint32 where "L4A = shl P4A BGN"
definition L4B :: uint32 where "L4B = shl CS3 BGN"
definition L4C :: uint32 where "L4C = shl P4B BGN"
definition CR1 :: uint32 where "CR1 = shl END CS1 OR shl CS1 CS2 OR shl CS2 CS3 OR shl CS1 P3B OR shl CS2 P4B"
definition CR2 :: uint32 where "CR2 = shl END CS1 OR shl CS1 CS2 OR shl CS2 CS3 OR shl CS1 P3B OR shl CS2 P4A"
definition CR3 :: uint32 where "CR3 = shl END CS1 OR shl CS1 CS2 OR shl CS2 CS3 OR shl CS1 P3A OR shl CS2 P4A"
definition ILL :: uint32 where "ILL = ERR"

definition Utf8Transition :: "uint32 list" where
  "Utf8Transition =
     ILL # replicate 127 ASC @
     replicate 16 CR1 @ replicate 16 CR2 @ replicate 32 CR3 @
     [ILL, ILL] @ replicate 30 L2A @
     L3A # replicate 12 L3B @ L3C # replicate 2 L3B @
     L4A # replicate 3 L4B @ L4C # replicate 11 ILL"

definition UTF8_STATE_MASK :: uint32 where
  "UTF8_STATE_MASK = 31"

definition utf8_advance :: "uint8 list \<Rightarrow> uint32 \<Rightarrow> uint32" where
  "utf8_advance s state = fold (\<lambda>c state. drop_bit (unat (state AND UTF8_STATE_MASK)) (Utf8Transition ! unat c)) s state AND UTF8_STATE_MASK"

section \<open>Verifying a string\<close>

definition NEON_CHUNK_SIZE :: nat where
  "NEON_CHUNK_SIZE = 16"

text \<open>Eight bytes as one word; the order of the bytes has no influence on the result.\<close>

definition chunk_of :: "uint8 list \<Rightarrow> uint64" where
  "chunk_of bs = fold (\<lambda>b w. push_bit 8 w OR ucast b) bs 0"

fun ascii_loop :: "uint64 \<Rightarrow> uint64 \<Rightarrow> nat \<Rightarrow> uint8 list \<Rightarrow> uint64 \<times> uint64" where
  "ascii_loop zero_cum highbit_cum 0 ptr = (zero_cum, highbit_cum)"
| "ascii_loop zero_cum highbit_cum (Suc n) ptr =
     (let chunk = chunk_of (take 8 ptr)
      in ascii_loop (zero_cum AND (chunk + 0x7f7f7f7f7f7f7f7f)) (highbit_cum OR chunk) n (drop 8 ptr))"

definition is_valid_ascii :: "uint8 list \<Rightarrow> bool" where
  "is_valid_ascii s =
     (case ascii_loop 0x8080808080808080 0 (length s div 8) s of (zero_cum, highbit_cum) \<Rightarrow>
        if highbit_cum AND 0x8080808080808080 \<noteq> 0 then False else if zero_cum \<noteq> 0x8080808080808080 then False else True)"

text \<open>The loop over whole chunks; \<open>i\<close> is the position of \<^verbatim>\<open>s\<close>, and \<^verbatim>\<open>len\<close> is what is left behind it.\<close>

function utf8_chunks :: "uint8 list \<Rightarrow> nat \<Rightarrow> uint32 \<Rightarrow> nat \<times> uint32" where
  "utf8_chunks s i state =
     (if length s - i \<ge> NEON_CHUNK_SIZE
      then let chunk = take NEON_CHUNK_SIZE (drop i s);
               state = (if state \<noteq> END \<or> \<not> is_valid_ascii chunk then utf8_advance chunk state else state)
           in utf8_chunks s (i + NEON_CHUNK_SIZE) state
      else (i, state))"
  by pat_completeness auto
termination
  by (relation "measure (\<lambda>(s, i, state). length s - i)") (auto simp: NEON_CHUNK_SIZE_def)

fun back_up :: "uint8 list \<Rightarrow> nat \<Rightarrow> nat" where
  "back_up s 0 = 0"
| "back_up s (Suc i) = (if \<not> IS_HIGHBIT_SET_U (s ! i) \<or> pg_utf_mblen (s ! i) > 1 then i else back_up s i)"

lemma verifier_range: "pg_utf8_verifier s = Some l \<Longrightarrow> 0 < l \<and> l \<le> length s"
  by (auto simp: pg_utf8_verifier_def pg_utf_mblen_def Let_def Suc_le_eq split: if_splits)

function verify_chars :: "uint8 list \<Rightarrow> nat \<Rightarrow> nat" where
  "verify_chars s i =
     (if i < length s
      then if \<not> IS_HIGHBIT_SET_U (s ! i)
           then if s ! i = 0 then i else verify_chars s (i + 1)
           else case pg_utf8_verifier (drop i s) of None \<Rightarrow> i | Some l \<Rightarrow> verify_chars s (i + l)
      else i)"
  by pat_completeness auto
termination
  by (relation "measure (\<lambda>(s, i). length s - i)") (auto dest: verifier_range)

definition pg_utf8_verifystr :: "uint8 list \<Rightarrow> nat" where
  "pg_utf8_verifystr s =
     (if length s \<ge> NEON_CHUNK_SIZE
      then case utf8_chunks s 0 BGN of (i, state) \<Rightarrow> verify_chars s (back_up s (if state = ERR then 0 else i))
      else verify_chars s 0)"

section \<open>The variant with NEON instructions\<close>

text \<open>
  Vectors of sixteen bytes, and what the instructions that the code uses do with them: load, duplicate, compare lane by lane (all bits set where equal), and,
  and the greatest lane.
\<close>

definition vld1q_u8 :: "uint8 list \<Rightarrow> uint8 list" where
  "vld1q_u8 ptr = take 16 ptr"

definition vdupq_n_u8 :: "uint8 \<Rightarrow> uint8 list" where
  "vdupq_n_u8 x = replicate 16 x"

definition vceqq_u8 :: "uint8 list \<Rightarrow> uint8 list \<Rightarrow> uint8 list" where
  "vceqq_u8 a b = map2 (\<lambda>x y. if x = y then 0xFF else 0) a b"

definition vandq_u8 :: "uint8 list \<Rightarrow> uint8 list \<Rightarrow> uint8 list" where
  "vandq_u8 a b = map2 (AND) a b"

definition vmaxvq_u8 :: "uint8 list \<Rightarrow> uint8" where
  "vmaxvq_u8 a = foldr max a 0"

definition NEON_DOUBLE_STRIDE :: nat where
  "NEON_DOUBLE_STRIDE = 32"

definition UTF8_HIGH_BIT_MASK :: uint8 where
  "UTF8_HIGH_BIT_MASK = 0x80"

text \<open>The result of the two steps: whether to leave the loop, the new position and the new state.\<close>

definition neon_process_double :: "uint8 list \<Rightarrow> nat \<Rightarrow> uint32 \<Rightarrow> bool \<times> nat \<times> uint32" where
  "neon_process_double s i state =
     (let c1 = vld1q_u8 (drop i s);
          c2 = vld1q_u8 (drop (i + NEON_CHUNK_SIZE) s);
          vmask = vdupq_n_u8 UTF8_HIGH_BIT_MASK
      in if vmaxvq_u8 (vceqq_u8 c1 (vdupq_n_u8 0)) \<noteq> 0 \<or> vmaxvq_u8 (vceqq_u8 c2 (vdupq_n_u8 0)) \<noteq> 0 then (True, i, state)
         else if state = END \<and> vmaxvq_u8 (vandq_u8 c1 vmask) = 0 \<and> vmaxvq_u8 (vandq_u8 c2 vmask) = 0 then (False, i + NEON_DOUBLE_STRIDE, state)
         else let state = utf8_advance (take NEON_DOUBLE_STRIDE (drop i s)) state
              in if state = ERR then (True, 0, state) else (False, i + NEON_DOUBLE_STRIDE, state))"

definition neon_process_single :: "uint8 list \<Rightarrow> nat \<Rightarrow> uint32 \<Rightarrow> bool \<times> nat \<times> uint32" where
  "neon_process_single s i state =
     (let c = vld1q_u8 (drop i s);
          vmask = vdupq_n_u8 UTF8_HIGH_BIT_MASK
      in if vmaxvq_u8 (vceqq_u8 c (vdupq_n_u8 0)) \<noteq> 0 then (True, i, state)
         else if state = END \<and> vmaxvq_u8 (vandq_u8 c vmask) = 0 then (False, i + NEON_CHUNK_SIZE, state)
         else let state = utf8_advance (take NEON_CHUNK_SIZE (drop i s)) state
              in if state = ERR then (True, 0, state) else (False, i + NEON_CHUNK_SIZE, state))"

lemma neon_process_advances:
  "neon_process_double s i state = (False, j, state') \<Longrightarrow> j = i + 32"
  "neon_process_single s i state = (False, j, state') \<Longrightarrow> j = i + 16"
  by (auto simp: neon_process_double_def neon_process_single_def Let_def NEON_DOUBLE_STRIDE_def NEON_CHUNK_SIZE_def split: if_splits)

function neon_doubles :: "uint8 list \<Rightarrow> nat \<Rightarrow> uint32 \<Rightarrow> nat \<times> uint32" where
  "neon_doubles s i state =
     (if length s - i \<ge> NEON_DOUBLE_STRIDE
      then case neon_process_double s i state of (leave, j, state') \<Rightarrow> if leave then (j, state') else neon_doubles s j state'
      else (i, state))"
  by pat_completeness auto
termination
  by (relation "measure (\<lambda>(s, i, state). length s - i)") (auto dest!: sym [of "(False, _, _)"] neon_process_advances simp: NEON_DOUBLE_STRIDE_def)

function neon_singles :: "uint8 list \<Rightarrow> nat \<Rightarrow> uint32 \<Rightarrow> nat \<times> uint32" where
  "neon_singles s i state =
     (if length s - i \<ge> NEON_CHUNK_SIZE
      then case neon_process_single s i state of (leave, j, state') \<Rightarrow> if leave then (j, state') else neon_singles s j state'
      else (i, state))"
  by pat_completeness auto
termination
  by (relation "measure (\<lambda>(s, i, state). length s - i)") (auto dest!: sym [of "(False, _, _)"] neon_process_advances simp: NEON_CHUNK_SIZE_def)

definition pg_utf8_verifystr_neon :: "uint8 list \<Rightarrow> nat" where
  "pg_utf8_verifystr_neon s =
     (case neon_doubles s 0 BGN of (i, state) \<Rightarrow>
      case neon_singles s i state of (i, state) \<Rightarrow>
        verify_chars s (if state \<noteq> ERR \<and> state \<noteq> END \<and> i > 0 then back_up s i else i))"

section \<open>The next character\<close>

text \<open>\<^verbatim>\<open>pg_utf8_increment\<close>: the character of the given length with one byte incremented, or \<open>None\<close>.\<close>

definition increment_1 :: "uint8 list \<Rightarrow> uint8 list option" where
  "increment_1 charptr =
     (let a = charptr ! 0
      in if a = 0x7F \<or> a = 0xDF \<or> a = 0xEF \<or> a = 0xF4 then None else Some (charptr[0 := a + 1]))"

definition increment_2 :: "uint8 list \<Rightarrow> uint8 list option" where
  "increment_2 charptr =
     (let a = charptr ! 1;
          limit = (if charptr ! 0 = 0xED then 0x9F else if charptr ! 0 = 0xF4 then 0x8F else 0xBF)
      in if a < limit then Some (charptr[1 := a + 1]) else increment_1 charptr)"

definition increment_3 :: "uint8 list \<Rightarrow> uint8 list option" where
  "increment_3 charptr = (let a = charptr ! 2 in if a < 0xBF then Some (charptr[2 := a + 1]) else increment_2 charptr)"

definition pg_utf8_increment :: "uint8 list \<Rightarrow> nat \<Rightarrow> uint8 list option" where
  "pg_utf8_increment charptr len =
     (if len = 4 then let a = charptr ! 3 in if a < 0xBF then Some (charptr[3 := a + 1]) else increment_3 charptr
      else if len = 3 then increment_3 charptr
      else if len = 2 then increment_2 charptr
      else if len = 1 then increment_1 charptr
      else None)"

section \<open>Bytes by their value\<close>

lemma unat_byte: "unat (c :: uint8) < 256"
proof -
  have "unat c < 2 ^ LENGTH(8)" by (rule unsigned_less)
  then show ?thesis by simp
qed

lemma byte_table:
  assumes "map f [0..<256] = map g [0..<256]"
  shows "f (unat (c :: uint8)) = g (unat c)"
  using arg_cong [OF assms, of "\<lambda>xs. xs ! unat c"] unat_byte [of c] by simp

lemma highbit_iff: "IS_HIGHBIT_SET_U c \<longleftrightarrow> 128 \<le> unat c"
proof -
  have "map (\<lambda>n. IS_HIGHBIT_SET_U (of_nat n)) [0..<256] = map (\<lambda>n. 128 \<le> n) [0..<256]" by code_simp
  from byte_table [OF this] show ?thesis by simp
qed

lemma mblen_eq: "pg_utf_mblen c = (let n = unat c in if n < 192 then 1 else if n < 224 then 2 else if n < 240 then 3 else if n < 248 then 4 else 1)"
proof -
  have "map (\<lambda>n. pg_utf_mblen (of_nat n)) [0..<256] =
    map (\<lambda>n. if n < 192 then 1 else if n < 224 then 2 else if n < 240 then 3 else if n < 248 then 4 else 1) [0..<256]" by code_simp
  from byte_table [OF this] show ?thesis by (simp add: Let_def)
qed

text \<open>The bytes that may follow a first byte of value \<open>n\<close>.\<close>

definition second :: "nat \<Rightarrow> nat \<Rightarrow> bool" where
  "second n k \<longleftrightarrow> (if n = 0xE0 then 0xA0 else if n = 0xF0 then 0x90 else 0x80) \<le> k \<and>
     k \<le> (if n = 0xED then 0x9F else if n = 0xF4 then 0x8F else 0xBF)"

definition cont :: "nat \<Rightarrow> bool" where
  "cont k \<longleftrightarrow> 0x80 \<le> k \<and> k \<le> 0xBF"

fun legal_char :: "uint8 list \<Rightarrow> bool" where
  "legal_char [a] \<longleftrightarrow> 0 < unat a \<and> unat a < 0x80"
| "legal_char [a, b] \<longleftrightarrow> 0xC2 \<le> unat a \<and> unat a \<le> 0xDF \<and> cont (unat b)"
| "legal_char [a, b, c] \<longleftrightarrow> 0xE0 \<le> unat a \<and> unat a \<le> 0xEF \<and> second (unat a) (unat b) \<and> cont (unat c)"
| "legal_char [a, b, c, d] \<longleftrightarrow> 0xF0 \<le> unat a \<and> unat a \<le> 0xF4 \<and> second (unat a) (unat b) \<and> cont (unat c) \<and> cont (unat d)"
| "legal_char _ \<longleftrightarrow> False"

lemma byte_eq_iff: "(a :: uint8) = numeral k \<longleftrightarrow> unat a = unat (numeral k :: uint8)"
  by (simp add: word_unat_eq_iff)

lemma islegal_2_iff: "islegal_2 (a # b # s) \<longleftrightarrow> second (unat a) (unat b) \<and> \<not> (0x80 \<le> unat a \<and> unat a < 0xC2) \<and> unat a \<le> 0xF4"
  by (auto simp: islegal_2_def islegal_1_def in_range_def second_def Let_def word_le_nat_alt word_less_nat_alt byte_eq_iff)

text \<open>What the verifier accepts, byte by byte.\<close>

lemma verifier_legal:
  assumes "pg_utf8_verifier s = Some l" "s \<noteq> []" "s ! 0 \<noteq> 0"
  shows "legal_char (take l s) \<and> l \<le> length s \<and> l = pg_utf_mblen (s ! 0)"
proof -
  have l: "l = pg_utf_mblen (s ! 0)" "l \<le> length s" "pg_utf8_islegal s l" using assms(1) by (auto simp: pg_utf8_verifier_def Let_def split: if_splits)
  obtain a t where s: "s = a # t" using assms(2) by (cases s) auto
  have a: "0 < unat a" using assms(3) s by (simp add: unat_gt_0)
  consider "l = 1" "unat a < 192 \<or> 248 \<le> unat a" | "l = 2" "192 \<le> unat a" "unat a < 224" | "l = 3" "224 \<le> unat a" "unat a < 240"
    | "l = 4" "240 \<le> unat a" "unat a < 248" using l(1) s by (auto simp: mblen_eq Let_def split: if_splits)
  then show ?thesis
  proof cases
    case 1
    then show ?thesis using l a s by (auto simp: pg_utf8_islegal_def islegal_1_def Let_def word_le_nat_alt word_less_nat_alt)
  next
    case 2
    then obtain b u where t: "t = b # u" using l(2) s by (cases t) auto
    then show ?thesis using 2 l(1,3) by (auto simp: s pg_utf8_islegal_def islegal_2_iff second_def cont_def numeral_2_eq_2)
  next
    case 3
    then obtain b c u where t: "t = b # c # u" using l(2) s by (cases t; cases "tl t") auto
    then show ?thesis using 3 l(1,3) by (auto simp: s pg_utf8_islegal_def islegal_2_iff cont_def in_range_def word_le_nat_alt word_less_nat_alt)
  next
    case 4
    then obtain b c d u where t: "t = b # c # d # u" using l(2) s by (cases t; cases "tl t"; cases "tl (tl t)") auto
    then show ?thesis using 4 l(1,3) by (auto simp: s pg_utf8_islegal_def islegal_2_iff cont_def in_range_def word_le_nat_alt word_less_nat_alt)
  qed
qed

lemma legal_verifier:
  assumes "legal_char c"
  shows "pg_utf8_verifier (c @ s) = Some (length c) \<and> c \<noteq> [] \<and> c ! 0 \<noteq> 0 \<and> pg_utf_mblen (c ! 0) = length c"
proof -
  have nz: "0 < unat (a :: uint8) \<Longrightarrow> a \<noteq> 0" for a by (simp add: unat_gt_0)
  from assms consider a where "c = [a]" "0 < unat a" "unat a < 0x80"
    | a b where "c = [a, b]" "0xC2 \<le> unat a" "unat a \<le> 0xDF" "cont (unat b)"
    | a b d where "c = [a, b, d]" "0xE0 \<le> unat a" "unat a \<le> 0xEF" "second (unat a) (unat b)" "cont (unat d)"
    | a b d e where "c = [a, b, d, e]" "0xF0 \<le> unat a" "unat a \<le> 0xF4" "second (unat a) (unat b)" "cont (unat d)" "cont (unat e)"
    by (cases c rule: legal_char.cases) auto
  then show ?thesis
  proof cases
    case 1
    then show ?thesis using nz [of a] by (auto simp: pg_utf8_verifier_def mblen_eq pg_utf8_islegal_def islegal_1_def word_le_nat_alt word_less_nat_alt)
  next
    case 2
    then show ?thesis using nz [of a]
      by (auto simp: pg_utf8_verifier_def mblen_eq pg_utf8_islegal_def islegal_2_iff second_def cont_def)
  next
    case 3
    then show ?thesis using nz [of a]
      by (auto simp: pg_utf8_verifier_def mblen_eq pg_utf8_islegal_def islegal_2_iff cont_def in_range_def word_le_nat_alt word_less_nat_alt)
  next
    case 4
    then show ?thesis using nz [of a]
      by (auto simp: pg_utf8_verifier_def mblen_eq pg_utf8_islegal_def islegal_2_iff cont_def in_range_def word_le_nat_alt word_less_nat_alt)
  qed
qed

section \<open>The automaton and its table\<close>

text \<open>One step of the automaton, with the state masked.\<close>

definition utf8_step :: "uint8 \<Rightarrow> uint32 \<Rightarrow> uint32" where
  "utf8_step c state = drop_bit (unat (state AND UTF8_STATE_MASK)) (Utf8Transition ! unat c) AND UTF8_STATE_MASK"

lemma utf8_advance_step: "utf8_advance s state = fold utf8_step s (state AND UTF8_STATE_MASK)"
proof -
  have "fold (\<lambda>c state. drop_bit (unat (state AND UTF8_STATE_MASK)) (Utf8Transition ! unat c)) s state AND UTF8_STATE_MASK =
    fold utf8_step s (state AND UTF8_STATE_MASK)"
    by (induction s arbitrary: state) (simp_all add: utf8_step_def and.assoc)
  then show ?thesis by (simp add: utf8_advance_def)
qed

text \<open>
  The successors of the states ERR, BGN, CS1, CS2, CS3, P3A, P3B, P4A and P4B under a byte, as in the table of the source's comment.
\<close>

definition successors :: "nat \<Rightarrow> uint32 list" where
  "successors n =
     (if n = 0 then [ERR, ERR, ERR, ERR, ERR, ERR, ERR, ERR, ERR]
      else if n < 0x80 then [ERR, BGN, ERR, ERR, ERR, ERR, ERR, ERR, ERR]
      else if n < 0x90 then [ERR, ERR, BGN, CS1, CS2, ERR, CS1, ERR, CS2]
      else if n < 0xA0 then [ERR, ERR, BGN, CS1, CS2, ERR, CS1, CS2, ERR]
      else if n < 0xC0 then [ERR, ERR, BGN, CS1, CS2, CS1, ERR, CS2, ERR]
      else if n < 0xC2 then [ERR, ERR, ERR, ERR, ERR, ERR, ERR, ERR, ERR]
      else [ERR, if n < 0xE0 then CS1 else if n = 0xE0 then P3A else if n = 0xED then P3B else if n < 0xF0 then CS2
                 else if n = 0xF0 then P4A else if n < 0xF4 then CS3 else if n = 0xF4 then P4B else ERR, ERR, ERR, ERR, ERR, ERR, ERR, ERR])"

definition row :: "uint32 \<Rightarrow> uint32 list" where
  "row t = map (\<lambda>state. drop_bit (unat (state AND UTF8_STATE_MASK)) t AND UTF8_STATE_MASK) [ERR, BGN, CS1, CS2, CS3, P3A, P3B, P4A, P4B]"

lemma rows:
  "row ILL = [ERR, ERR, ERR, ERR, ERR, ERR, ERR, ERR, ERR]" "row ASC = [ERR, BGN, ERR, ERR, ERR, ERR, ERR, ERR, ERR]"
  "row CR1 = [ERR, ERR, BGN, CS1, CS2, ERR, CS1, ERR, CS2]" "row CR2 = [ERR, ERR, BGN, CS1, CS2, ERR, CS1, CS2, ERR]"
  "row CR3 = [ERR, ERR, BGN, CS1, CS2, CS1, ERR, CS2, ERR]"
  "row L2A = [ERR, CS1, ERR, ERR, ERR, ERR, ERR, ERR, ERR]" "row L3A = [ERR, P3A, ERR, ERR, ERR, ERR, ERR, ERR, ERR]"
  "row L3B = [ERR, CS2, ERR, ERR, ERR, ERR, ERR, ERR, ERR]" "row L3C = [ERR, P3B, ERR, ERR, ERR, ERR, ERR, ERR, ERR]"
  "row L4A = [ERR, P4A, ERR, ERR, ERR, ERR, ERR, ERR, ERR]" "row L4B = [ERR, CS3, ERR, ERR, ERR, ERR, ERR, ERR, ERR]"
  "row L4C = [ERR, P4B, ERR, ERR, ERR, ERR, ERR, ERR, ERR]"
  by code_simp+

lemma map_upt_const: "(\<And>n. a \<le> n \<Longrightarrow> n < b \<Longrightarrow> f n = v) \<Longrightarrow> map f [a..<b] = replicate (b - a) v"
  by (rule nth_equalityI) auto

lemma transition_rows: "map row Utf8Transition = map successors [0..<256]"
proof -
  let ?m = "\<lambda>a b. map successors [a..<b]"
  have "[0..<256] = [0..<1] @ [1..<128] @ [128..<144] @ [144..<160] @ [160..<192] @ [192..<194] @ [194..<224] @ [224..<225] @ [225..<237] @
    [237..<238] @ [238..<240] @ [240..<241] @ [241..<244] @ [244..<245] @ [245..<256]" by code_simp
  then have "map successors [0..<256] = ?m 0 1 @ ?m 1 128 @ ?m 128 144 @ ?m 144 160 @ ?m 160 192 @ ?m 192 194 @ ?m 194 224 @ ?m 224 225 @ ?m 225 237 @
    ?m 237 238 @ ?m 238 240 @ ?m 240 241 @ ?m 241 244 @ ?m 244 245 @ ?m 245 256" by (simp only: map_append)
  moreover have "?m 0 1 = replicate 1 (row ILL)" "?m 1 128 = replicate 127 (row ASC)" "?m 128 144 = replicate 16 (row CR1)"
    "?m 144 160 = replicate 16 (row CR2)" "?m 160 192 = replicate 32 (row CR3)" "?m 192 194 = replicate 2 (row ILL)" "?m 194 224 = replicate 30 (row L2A)"
    "?m 224 225 = replicate 1 (row L3A)" "?m 225 237 = replicate 12 (row L3B)" "?m 237 238 = replicate 1 (row L3C)" "?m 238 240 = replicate 2 (row L3B)"
    "?m 240 241 = replicate 1 (row L4A)" "?m 241 244 = replicate 3 (row L4B)" "?m 244 245 = replicate 1 (row L4C)" "?m 245 256 = replicate 11 (row ILL)"
    by (subst map_upt_const; simp add: successors_def rows)+
  ultimately show ?thesis by (simp add: Utf8Transition_def numeral_2_eq_2)
qed

lemma utf8_step_eq: "map (utf8_step c) [ERR, BGN, CS1, CS2, CS3, P3A, P3B, P4A, P4B] = successors (unat c)"
proof -
  have "length Utf8Transition = 256" by (simp add: Utf8Transition_def)
  then show ?thesis using arg_cong [OF transition_rows, of "\<lambda>xs. xs ! unat c"] unat_byte [of c] by (simp add: utf8_step_def row_def)
qed

section \<open>Eight bytes at a time\<close>

lemma or_byte: "push_bit 8 (w :: uint64) OR ucast (b :: uint8) = 256 * w + ucast b"
proof -
  have "push_bit 8 w AND ucast b = 0" by (rule bit_word_eqI) (auto simp: bit_simps dest: bit_word_less_len)
  then have "push_bit 8 w OR ucast b = push_bit 8 w + ucast b" by (simp add: disjunctive_add [symmetric] word_eq_0_iff_no_bit bit_and_iff)
  then show ?thesis by (simp add: push_bit_eq_mult mult.commute)
qed

lemma chunk_of_snoc: "chunk_of (bs @ [b]) = push_bit 8 (chunk_of bs) OR ucast b"
  by (simp add: chunk_of_def)

lemma bit_chunk_of: "bit (chunk_of bs) n \<longleftrightarrow> n < 64 \<and> n < 8 * length bs \<and> bit (rev bs ! (n div 8)) (n mod 8)"
proof (induction bs arbitrary: n rule: rev_induct)
  case Nil
  then show ?case by (simp add: chunk_of_def)
next
  case (snoc b bs)
  show ?case
  proof (cases "n < 8")
    case True
    then show ?thesis by (simp add: chunk_of_snoc bit_simps)
  next
    case False
    then have "n div 8 = Suc ((n - 8) div 8)" "n mod 8 = (n - 8) mod 8" by (auto simp: le_div_geq le_mod_geq)
    then show ?thesis using False snoc.IH [of "n - 8"] by (auto simp: chunk_of_snoc bit_simps dest: bit_word_less_len)
  qed
qed

lemma horner_add: "(k * x + u) + (k * y + v) = k * (x + y) + (u + v)" for k :: "'a :: comm_semiring"
  by (simp add: algebra_simps)

lemma chunk_of_add:
  assumes "\<forall>b \<in> set bs. unat b < 128"
  shows "chunk_of bs + chunk_of (map (\<lambda>_. 0x7f) bs) = chunk_of (map (\<lambda>b. b + 0x7f) bs)"
  using assms
proof (induction bs rule: rev_induct)
  case Nil
  then show ?case by (simp add: chunk_of_def)
next
  case (snoc b bs)
  have "unat (b + 0x7f) = unat b + 127" using snoc.prems by (simp add: unat_word_ariths)
  from arg_cong [OF this, of "of_nat :: nat \<Rightarrow> uint64"] have u: "(ucast (b + 0x7f) :: uint64) = ucast b + 0x7f"
    by (simp only: of_nat_unat of_nat_add of_nat_numeral)
  have "chunk_of (map (\<lambda>_. 0x7f) (bs @ [b])) = 256 * chunk_of (map (\<lambda>_. 0x7f) bs) + 0x7f"
    by (simp only: map_append list.map chunk_of_snoc or_byte) simp
  moreover have "chunk_of (map (\<lambda>b. b + 0x7f) (bs @ [b])) = 256 * chunk_of (map (\<lambda>b. b + 0x7f) bs) + (ucast b + 0x7f)"
    by (simp only: map_append list.map chunk_of_snoc or_byte) (simp only: u)
  moreover have "chunk_of bs + chunk_of (map (\<lambda>_. 0x7f) bs) = chunk_of (map (\<lambda>b. b + 0x7f) bs)" using snoc by simp
  moreover have "chunk_of (bs @ [b]) = 256 * chunk_of bs + ucast b" by (simp only: chunk_of_snoc or_byte)
  moreover have "(k * x + u) + (k * y + v) = k * (x + y) + (u + v)" for k x y u v :: uint64 by (rule horner_add)
  ultimately show ?case by (simp only:)
qed

abbreviation high_bits :: uint64 where
  "high_bits \<equiv> 0x8080808080808080"

lemma bit_high_bits: "bit high_bits n \<longleftrightarrow> n < 64 \<and> n mod 8 = 7"
proof -
  have h: "high_bits = chunk_of (replicate 8 0x80)" by code_simp
  have "bit (0x80 :: uint8) k \<longleftrightarrow> k = 7" for k
  proof -
    have "(0x80 :: uint8) = push_bit 7 1" by simp
    then show ?thesis by (simp only: bit_simps) auto
  qed
  note b7 = this
  show ?thesis
  proof (cases "n < 64")
    case True
    then have "n div 8 < 8" by auto
    then have "rev (replicate 8 (0x80 :: uint8)) ! (n div 8) = 0x80" by (simp only: rev_replicate nth_replicate)
    then show ?thesis unfolding h bit_chunk_of length_replicate using True b7 [of "n mod 8"] by simp
  next
    case False
    then show ?thesis unfolding h bit_chunk_of by blast
  qed
qed

lemma byte_highbit: "bit (b :: uint8) 7 \<longleftrightarrow> 128 \<le> unat b"
  using highbit_iff [of b] by (simp add: IS_HIGHBIT_SET_U_def and_exp_eq_0_iff_not_bit [of _ 7, simplified])

text \<open>A chunk without high bits to which 0x7f has been added in every byte has the high bits exactly of the bytes that are not zero.\<close>

lemma chunk_ascii:
  assumes len: "length bs = 8" and hi: "\<And>n. bit high_bits n \<Longrightarrow> \<not> bit (chunk_of bs) n"
    and nz: "\<And>n. bit high_bits n \<Longrightarrow> bit (chunk_of bs + 0x7f7f7f7f7f7f7f7f) n"
  shows "\<forall>b \<in> set bs. 0 < unat b \<and> unat b < 128"
proof -
  have pos: "bit high_bits (8 * j + 7)" if "j < 8" for j using that unfolding bit_high_bits by auto
  have ascii: "unat (rev bs ! j) < 128" if j: "j < 8" for j
    using hi [OF pos [OF j]] j len byte_highbit [of "rev bs ! j"] by (auto simp: bit_chunk_of)
  have all: "\<forall>b \<in> set bs. unat b < 128"
  proof
    fix b assume "b \<in> set bs"
    then obtain j where "j < 8" "b = rev bs ! j" using len by (metis in_set_conv_nth length_rev set_rev)
    then show "unat b < 128" using ascii by blast
  qed
  have "(0x7f7f7f7f7f7f7f7f :: uint64) = chunk_of (replicate 8 0x7f)" by code_simp
  also have "replicate 8 0x7f = map (\<lambda>_. 0x7f) bs" using len by (simp add: map_replicate_const)
  finally have sum: "chunk_of bs + 0x7f7f7f7f7f7f7f7f = chunk_of (map (\<lambda>b. b + 0x7f) bs)" using chunk_of_add [OF all] by simp
  show ?thesis
  proof
    fix b assume b: "b \<in> set bs"
    then obtain j where j: "j < 8" "b = rev bs ! j" using len by (metis in_set_conv_nth length_rev set_rev)
    have "bit (rev (map (\<lambda>b. b + 0x7f) bs) ! j) 7" using nz [OF pos [OF j(1)]] j(1) len unfolding sum bit_chunk_of by simp
    then have "bit (b + 0x7f) 7" using j len by (simp add: rev_map)
    then have "128 \<le> unat (b + 0x7f)" by (simp add: byte_highbit)
    then show "0 < unat b \<and> unat b < 128" using all b by (auto simp: unat_word_ariths)
  qed
qed

lemma ascii_loop_mono:
  "ascii_loop z h n ptr = (z', h') \<Longrightarrow> (\<forall>k. bit z' k \<longrightarrow> bit z k) \<and> (\<forall>k. bit h k \<longrightarrow> bit h' k)"
proof (induction n arbitrary: z h ptr)
  case (Suc n)
  then have "ascii_loop (z AND (chunk_of (take 8 ptr) + 0x7f7f7f7f7f7f7f7f)) (h OR chunk_of (take 8 ptr)) n (drop 8 ptr) = (z', h')" by (simp add: Let_def)
  from Suc.IH [OF this] show ?case by (auto simp: bit_and_iff bit_or_iff)
qed simp

lemma ascii_loop_sound:
  "ascii_loop z h n ptr = (z', h') \<Longrightarrow> 8 * n \<le> length ptr \<Longrightarrow> (\<And>k. bit high_bits k \<Longrightarrow> bit z' k \<and> \<not> bit h' k) \<Longrightarrow>
   \<forall>b \<in> set (take (8 * n) ptr). 0 < unat b \<and> unat b < 128"
proof (induction n arbitrary: z h ptr)
  case (Suc n)
  let ?c = "chunk_of (take 8 ptr)"
  have r: "ascii_loop (z AND (?c + 0x7f7f7f7f7f7f7f7f)) (h OR ?c) n (drop 8 ptr) = (z', h')" using Suc.prems(1) by (simp add: Let_def)
  note mono = ascii_loop_mono [OF r]
  have "\<forall>b \<in> set (take 8 ptr). 0 < unat b \<and> unat b < 128"
  proof (rule chunk_ascii)
    show "length (take 8 ptr) = 8" using Suc.prems(2) by simp
    show "\<not> bit ?c k" if "bit high_bits k" for k using Suc.prems(3) [OF that] mono by (auto simp: bit_or_iff)
    show "bit (?c + 0x7f7f7f7f7f7f7f7f) k" if "bit high_bits k" for k using Suc.prems(3) [OF that] mono by (auto simp: bit_and_iff)
  qed
  moreover have "\<forall>b \<in> set (take (8 * n) (drop 8 ptr)). 0 < unat b \<and> unat b < 128" using Suc.IH [OF r] Suc.prems(2,3) by simp
  moreover have "take (8 * Suc n) ptr = take 8 ptr @ take (8 * n) (drop 8 ptr)" by (simp add: take_add [symmetric])
  ultimately show ?case by (simp only: set_append ball_Un)
qed simp

lemma is_valid_ascii_sound:
  assumes "is_valid_ascii s" "length s = 16"
  shows "\<forall>b \<in> set s. 0 < unat b \<and> unat b < 128"
proof -
  obtain z h where r: "ascii_loop high_bits 0 2 s = (z, h)" by fastforce
  then have "h AND high_bits = 0" "z = high_bits" using assms by (auto simp: is_valid_ascii_def split: if_splits)
  then have "\<not> bit h k \<and> bit z k" if "bit high_bits k" for k using that by (metis bit_0_eq bit_and_iff bot_apply bot_bool_def)
  then show ?thesis using ascii_loop_sound [OF r] assms(2) by simp
qed

section \<open>What the automaton has read\<close>

declare verify_chars.simps [simp del] utf8_chunks.simps [simp del]

lemmas utf8_states = ERR_def BGN_def CS1_def CS2_def CS3_def P3A_def P3B_def P4A_def P4B_def END_def

text \<open>The beginning of a character after which the automaton is in the given state.\<close>

fun part :: "uint8 list \<Rightarrow> uint32 \<Rightarrow> bool" where
  "part [] st \<longleftrightarrow> st = BGN"
| "part [a] st \<longleftrightarrow> (let n = unat a in
     (0xC2 \<le> n \<and> n \<le> 0xDF \<and> st = CS1) \<or> (n = 0xE0 \<and> st = P3A) \<or> (n = 0xED \<and> st = P3B) \<or> (0xE0 < n \<and> n \<le> 0xEF \<and> n \<noteq> 0xED \<and> st = CS2) \<or>
     (n = 0xF0 \<and> st = P4A) \<or> (0xF0 < n \<and> n < 0xF4 \<and> st = CS3) \<or> (n = 0xF4 \<and> st = P4B))"
| "part [a, b] st \<longleftrightarrow> second (unat a) (unat b) \<and> ((0xE0 \<le> unat a \<and> unat a \<le> 0xEF \<and> st = CS1) \<or> (0xF0 \<le> unat a \<and> unat a \<le> 0xF4 \<and> st = CS2))"
| "part [a, b, c] st \<longleftrightarrow> 0xF0 \<le> unat a \<and> unat a \<le> 0xF4 \<and> second (unat a) (unat b) \<and> cont (unat c) \<and> st = CS1"
| "part _ st \<longleftrightarrow> False"

lemma step_simps:
  "utf8_step c ERR = ERR" "utf8_step c CS1 = (if cont (unat c) then BGN else ERR)" "utf8_step c CS2 = (if cont (unat c) then CS1 else ERR)"
  "utf8_step c CS3 = (if cont (unat c) then CS2 else ERR)" "utf8_step c P3A = (if second 0xE0 (unat c) then CS1 else ERR)"
  "utf8_step c P3B = (if second 0xED (unat c) then CS1 else ERR)" "utf8_step c P4A = (if second 0xF0 (unat c) then CS2 else ERR)"
  "utf8_step c P4B = (if second 0xF4 (unat c) then CS2 else ERR)"
  using utf8_step_eq [of c] by (auto simp: successors_def cont_def second_def split: if_splits)

lemma step_BGN: "utf8_step c BGN = ERR \<or> utf8_step c BGN = BGN \<and> legal_char [c] \<or> part [c] (utf8_step c BGN)"
  using utf8_step_eq [of c] by (auto simp: successors_def Let_def split: if_splits)

lemma part_cases:
  assumes "part pend st"
  shows "st = BGN \<and> pend = [] \<or> pend \<noteq> [] \<and> st \<in> {CS1, CS2, CS3, P3A, P3B, P4A, P4B}"
  using assms by (cases "(pend, st)" rule: part.cases) (auto simp: Let_def)

lemma part_step:
  assumes "part pend st"
  shows "utf8_step c st = ERR \<or> utf8_step c st = BGN \<and> legal_char (pend @ [c]) \<or> part (pend @ [c]) (utf8_step c st)"
proof (cases "(pend, st)" rule: part.cases)
  case (1 st')
  then show ?thesis using assms step_BGN [of c] by simp
next
  case (2 a st')
  then have pend: "pend = [a]" and "part [a] st" using assms by auto
  then consider "0xC2 \<le> unat a" "unat a \<le> 0xDF" "st = CS1" | "unat a = 0xE0" "st = P3A" | "unat a = 0xED" "st = P3B"
    | "0xE0 < unat a" "unat a \<le> 0xEF" "unat a \<noteq> 0xED" "st = CS2" | "unat a = 0xF0" "st = P4A"
    | "0xF0 < unat a" "unat a < 0xF4" "st = CS3" | "unat a = 0xF4" "st = P4B"
    unfolding part.simps Let_def by blast
  then show ?thesis
  proof cases
    case 4
    then have "second (unat a) (unat c) \<longleftrightarrow> cont (unat c)" by (simp add: second_def cont_def)
    then show ?thesis using 4 pend by (simp add: step_simps)
  next
    case 6
    then have "second (unat a) (unat c) \<longleftrightarrow> cont (unat c)" by (simp add: second_def cont_def)
    then show ?thesis using 6 pend by (simp add: step_simps)
  qed (simp_all add: step_simps pend)
next
  case (3 a b st')
  then show ?thesis using assms by (auto simp: step_simps split: if_splits)
next
  case (4 a b d st')
  then show ?thesis using assms by (auto simp: step_simps split: if_splits)
qed (use assms in auto)

definition parsed :: "uint8 list \<Rightarrow> uint32 \<Rightarrow> bool" where
  "parsed w st \<longleftrightarrow> (\<exists>cs pend. w = concat cs @ pend \<and> (\<forall>c \<in> set cs. legal_char c) \<and> part pend st)"

lemma parsed_step:
  assumes "parsed w st"
  shows "utf8_step c st = ERR \<or> parsed (w @ [c]) (utf8_step c st)"
proof -
  obtain cs pend where p: "w = concat cs @ pend" "\<forall>c \<in> set cs. legal_char c" "part pend st" using assms by (auto simp: parsed_def)
  consider "utf8_step c st = ERR" | "utf8_step c st = BGN" "legal_char (pend @ [c])" | "part (pend @ [c]) (utf8_step c st)"
    using part_step [OF p(3)] by blast
  then show ?thesis
  proof cases
    case 2
    then have "w @ [c] = concat (cs @ [pend @ [c]]) @ []" "\<forall>d \<in> set (cs @ [pend @ [c]]). legal_char d" using p by auto
    then show ?thesis unfolding parsed_def using 2(1) part.simps(1) by metis
  next
    case 3
    then have "w @ [c] = concat cs @ pend @ [c]" using p by simp
    then show ?thesis unfolding parsed_def using p(2) 3 by blast
  qed simp
qed

lemma parsed_fold: "st = ERR \<or> parsed w st \<Longrightarrow> fold utf8_step s st = ERR \<or> parsed (w @ s) (fold utf8_step s st)"
proof (induction s arbitrary: w st)
  case (Cons c s)
  have "utf8_step c st = ERR \<or> parsed (w @ [c]) (utf8_step c st)" using Cons.prems parsed_step step_simps(1) by metis
  from Cons.IH [OF this] show ?case by simp
qed simp

lemma masked_states: "st \<in> {ERR, BGN, CS1, CS2, CS3, P3A, P3B, P4A, P4B} \<Longrightarrow> st AND UTF8_STATE_MASK = st"
proof -
  have "map (\<lambda>st. st AND UTF8_STATE_MASK) [ERR, BGN, CS1, CS2, CS3, P3A, P3B, P4A, P4B] = [ERR, BGN, CS1, CS2, CS3, P3A, P3B, P4A, P4B]" by code_simp
  then show "st \<in> {ERR, BGN, CS1, CS2, CS3, P3A, P3B, P4A, P4B} \<Longrightarrow> st AND UTF8_STATE_MASK = st" by auto
qed

lemma parsed_advance:
  assumes "st = ERR \<or> parsed w st"
  shows "utf8_advance s st = ERR \<or> parsed (w @ s) (utf8_advance s st)"
proof -
  have "st \<in> {ERR, BGN, CS1, CS2, CS3, P3A, P3B, P4A, P4B}" using assms part_cases by (auto simp: parsed_def)
  then show ?thesis using parsed_fold [OF assms] by (simp add: utf8_advance_step masked_states)
qed

lemma parsed_ascii:
  assumes "parsed w BGN" "\<forall>b \<in> set s. 0 < unat b \<and> unat b < 128"
  shows "parsed (w @ s) BGN"
proof -
  obtain cs pend where p: "w = concat cs @ pend" "\<forall>c \<in> set cs. legal_char c" "part pend BGN" using assms(1) by (auto simp: parsed_def)
  have "pend = []" using part_cases [OF p(3)] by (auto simp: utf8_states)
  then have "w @ s = concat (cs @ map (\<lambda>b. [b]) s) @ []" using p(1) by simp
  moreover have "\<forall>c \<in> set (cs @ map (\<lambda>b. [b]) s). legal_char c" using p(2) assms(2) by auto
  ultimately show ?thesis unfolding parsed_def using part.simps(1) by metis
qed

lemma utf8_chunks_parsed:
  "utf8_chunks s i st = (j, st') \<Longrightarrow> i \<le> length s \<Longrightarrow> st = ERR \<or> parsed (take i s) st \<Longrightarrow> j \<le> length s \<and> (st' = ERR \<or> parsed (take j s) st')"
proof (induction s i st rule: utf8_chunks.induct)
  case (1 s i st)
  show ?case
  proof (cases "length s - i \<ge> NEON_CHUNK_SIZE")
    case True
    define chunk where "chunk = take NEON_CHUNK_SIZE (drop i s)"
    define st1 where "st1 = (if st \<noteq> END \<or> \<not> is_valid_ascii chunk then utf8_advance chunk st else st)"
    have run: "utf8_chunks s (i + NEON_CHUNK_SIZE) st1 = (j, st')"
      using "1.prems"(1) unfolding st1_def chunk_def by (subst (asm) utf8_chunks.simps) (simp only: True if_True Let_def)
    have tk: "take (i + NEON_CHUNK_SIZE) s = take i s @ chunk" by (simp add: take_add chunk_def)
    have len: "length chunk = 16" using True by (simp add: chunk_def NEON_CHUNK_SIZE_def)
    have "st1 = ERR \<or> parsed (take i s @ chunk) st1"
    proof (cases "st \<noteq> END \<or> \<not> is_valid_ascii chunk")
      case True
      then show ?thesis using parsed_advance [OF "1.prems"(3), of chunk] by (simp add: st1_def)
    next
      case False
      then have "parsed (take i s) BGN" using "1.prems"(3) by (auto simp: utf8_states)
      then show ?thesis using parsed_ascii [of "take i s" chunk] is_valid_ascii_sound [of chunk] False len by (simp add: st1_def utf8_states)
    qed
    then show ?thesis using "1.IH" [OF True chunk_def, of st1] run tk True by (simp add: st1_def NEON_CHUNK_SIZE_def)
  next
    case False
    then show ?thesis using "1.prems" by (subst (asm) utf8_chunks.simps) simp
  qed
qed

section \<open>Both ways of checking agree\<close>

lemma verify_step:
  assumes "drop i s = c @ t" "legal_char c"
  shows "verify_chars s i = verify_chars s (i + length c)"
proof -
  note v = legal_verifier [OF assms(2), of t]
  have "drop i s ! 0 = c ! 0" using assms(1) v by (cases c) auto
  moreover have "i < length s" using assms(1) v by (cases "i < length s") auto
  ultimately have si: "s ! i = c ! 0" by simp
  show ?thesis
  proof (cases "IS_HIGHBIT_SET_U (s ! i)")
    case True
    then show ?thesis using assms(1) v \<open>i < length s\<close> by (subst verify_chars.simps) simp
  next
    case False
    then have "unat (c ! 0) < 128" using si highbit_iff by simp
    then have "length c = 1" using v by (simp add: mblen_eq)
    then show ?thesis using False si v \<open>i < length s\<close> by (subst verify_chars.simps) simp
  qed
qed

lemma verify_from_boundary:
  assumes "\<forall>c \<in> set cs. legal_char c" "drop i s = concat cs @ t"
  shows "verify_chars s i = verify_chars s (i + length (concat cs))"
  using assms
proof (induction cs arbitrary: i)
  case (Cons c cs)
  have "drop (i + length c) s = drop (length c) (drop i s)" by (simp add: add.commute)
  then have "drop (i + length c) s = concat cs @ t" using Cons.prems(2) by simp
  then show ?case using verify_step [of i s c "concat cs @ t"] Cons.IH [of "i + length c"] Cons.prems by (simp add: add.assoc)
qed simp

lemma boundary:
  assumes "\<forall>c \<in> set cs. legal_char c" "take b s = concat cs" "b \<le> length s"
  shows "verify_chars s 0 = verify_chars s b"
proof -
  have "length (concat cs) = b" using assms(2,3) by (metis length_take min.absorb2)
  moreover have "drop 0 s = concat cs @ drop b s" using assms(2) by (metis append_take_drop_id drop0)
  from verify_from_boundary [OF assms(1) this] have "verify_chars s 0 = verify_chars s (length (concat cs))" by simp
  ultimately show ?thesis by simp
qed

definition first_byte :: "uint8 \<Rightarrow> bool" where
  "first_byte a \<longleftrightarrow> \<not> IS_HIGHBIT_SET_U a \<or> pg_utf_mblen a > 1"

lemma back_up_to: "b < k \<Longrightarrow> first_byte (s ! b) \<Longrightarrow> (\<And>i. b < i \<Longrightarrow> i < k \<Longrightarrow> \<not> first_byte (s ! i)) \<Longrightarrow> back_up s k = b"
proof (induction k)
  case (Suc k)
  show ?case
  proof (cases "b = k")
    case True
    then show ?thesis using Suc.prems(2) by (simp add: first_byte_def)
  next
    case False
    then have "\<not> first_byte (s ! k)" "b < k" using Suc.prems by auto
    then show ?thesis using Suc by (auto simp: first_byte_def)
  qed
qed simp

text \<open>Every character, and every beginning of one, has exactly one first byte.\<close>

definition one_first :: "uint8 list \<Rightarrow> bool" where
  "one_first c \<longleftrightarrow> c \<noteq> [] \<and> first_byte (hd c) \<and> (\<forall>b \<in> set (tl c). \<not> first_byte b)"

lemma first_byte_iff: "first_byte a \<longleftrightarrow> unat a < 128 \<or> 192 \<le> unat a \<and> unat a < 248"
  by (auto simp: first_byte_def highbit_iff mblen_eq Let_def)

lemma one_first_legal: "legal_char c \<Longrightarrow> one_first c"
  by (cases c rule: legal_char.cases) (auto simp: one_first_def first_byte_iff cont_def second_def split: if_splits)

lemma one_first_part: "part c st \<Longrightarrow> c \<noteq> [] \<Longrightarrow> one_first c"
  by (cases "(c, st)" rule: part.cases) (auto simp: one_first_def first_byte_iff cont_def second_def Let_def split: if_splits)

lemma back_up_one_first:
  assumes "one_first c" "take k s = w @ c" "k \<le> length s"
  shows "back_up s k = length w"
proof (rule back_up_to)
  have k: "k = length w + length c" using assms(2,3) by (metis length_append length_take min.absorb2)
  have nth: "s ! (length w + j) = c ! j" if "j < length c" for j
    using arg_cong [OF assms(2), of "\<lambda>xs. xs ! (length w + j)"] that k by (simp add: nth_append)
  obtain a d where ad: "c = a # d" "first_byte a" "\<forall>b \<in> set d. \<not> first_byte b" using assms(1) by (cases c) (auto simp: one_first_def)
  have c: "c \<noteq> []" "first_byte (c ! 0)" using ad by auto
  have tail: "\<not> first_byte (c ! j)" if "0 < j" "j < length c" for j using ad that by (cases j) auto
  show "length w < k" using k c(1) by simp
  show "first_byte (s ! length w)" using nth [of 0] c by simp
  show "\<not> first_byte (s ! i)" if "length w < i" "i < k" for i
    using nth [of "i - length w"] tail [of "i - length w"] that k by auto
qed

lemma back_up_boundary:
  assumes "parsed (take k s) st" "k \<le> length s"
  shows "verify_chars s 0 = verify_chars s (back_up s k)"
proof -
  obtain cs pend where p: "take k s = concat cs @ pend" "\<forall>c \<in> set cs. legal_char c" "part pend st" using assms(1) by (auto simp: parsed_def)
  show ?thesis
  proof (cases "pend = []")
    case False
    then have b: "back_up s k = length (concat cs)" using back_up_one_first [OF one_first_part [OF p(3)] p(1) assms(2)] by simp
    have "length (concat cs) \<le> k" using p(1) assms(2) by (metis le_add1 length_append length_take min.absorb2)
    moreover from this have "take (length (concat cs)) s = concat cs" using p(1) by (metis append_eq_conv_conj min.absorb1 take_take)
    ultimately show ?thesis using boundary [OF p(2)] b assms(2) by simp
  next
    case True
    show ?thesis
    proof (cases cs rule: rev_cases)
      case Nil
      then have "k = 0" using True p(1) assms(2) by (cases s) auto
      then show ?thesis by simp
    next
      case (snoc ds d)
      then have t: "take k s = concat ds @ d" using p(1) True by simp
      have d: "legal_char d" "\<forall>c \<in> set ds. legal_char c" using p(2) snoc by auto
      have b: "back_up s k = length (concat ds)" by (rule back_up_one_first [OF one_first_legal [OF d(1)] t assms(2)])
      have "length (concat ds) \<le> k" using t assms(2) by (metis le_add1 length_append length_take min.absorb2)
      moreover from this have "take (length (concat ds)) s = concat ds" using t by (metis append_eq_conv_conj min.absorb1 take_take)
      ultimately show ?thesis using boundary [OF d(2)] b assms(2) by simp
    qed
  qed
qed

lemma verifystr_eq: "pg_utf8_verifystr s = verify_chars s 0"
proof (cases "length s \<ge> NEON_CHUNK_SIZE")
  case True
  obtain i st where r: "utf8_chunks s 0 BGN = (i, st)" by fastforce
  have "parsed (take 0 s) BGN" unfolding parsed_def using part.simps(1) [of BGN] by (metis append_Nil2 concat.simps(1) empty_iff empty_set take0)
  then have "i \<le> length s" "st = ERR \<or> parsed (take i s) st" using utf8_chunks_parsed [OF r] by auto
  then show ?thesis using back_up_boundary [of i s st] True r by (auto simp: pg_utf8_verifystr_def)
next
  case False
  then show ?thesis by (simp add: pg_utf8_verifystr_def)
qed

section \<open>The NEON variant reads the same\<close>

declare neon_doubles.simps [simp del] neon_singles.simps [simp del]

lemma vmaxvq_zero: "vmaxvq_u8 v = 0 \<longleftrightarrow> (\<forall>b \<in> set v. b = 0)"
  by (induction v) (auto simp: vmaxvq_u8_def max_def)

lemma vceqq_zero: "length c = 16 \<Longrightarrow> vmaxvq_u8 (vceqq_u8 c (vdupq_n_u8 0)) = 0 \<longleftrightarrow> 0 \<notin> set c"
  by (auto simp: vmaxvq_zero vceqq_u8_def vdupq_n_u8_def zip_replicate2)

lemma vandq_zero: "length c = 16 \<Longrightarrow> vmaxvq_u8 (vandq_u8 c (vdupq_n_u8 UTF8_HIGH_BIT_MASK)) = 0 \<longleftrightarrow> (\<forall>b \<in> set c. \<not> IS_HIGHBIT_SET_U b)"
  by (auto simp: vmaxvq_zero vandq_u8_def vdupq_n_u8_def zip_replicate2 UTF8_HIGH_BIT_MASK_def IS_HIGHBIT_SET_U_def)

lemma ascii_lanes:
  assumes "length c = 16" "vmaxvq_u8 (vceqq_u8 c (vdupq_n_u8 0)) = 0" "vmaxvq_u8 (vandq_u8 c (vdupq_n_u8 UTF8_HIGH_BIT_MASK)) = 0"
  shows "\<forall>b \<in> set c. 0 < unat b \<and> unat b < 128"
  using assms by (auto simp: vceqq_zero vandq_zero highbit_iff unat_gt_0)

lemma advance_ERR: "utf8_advance s ERR = ERR"
proof -
  have "fold utf8_step s ERR = ERR" by (induction s) (simp_all add: step_simps)
  then show ?thesis by (simp add: utf8_advance_step masked_states)
qed

text \<open>Between the steps the bytes before the position are read, or the whole string is left to the loop over characters.\<close>

definition neon_ok :: "uint8 list \<Rightarrow> nat \<Rightarrow> uint32 \<Rightarrow> bool" where
  "neon_ok s i st \<longleftrightarrow> i \<le> length s \<and> (if st = ERR then i = 0 else parsed (take i s) st)"

lemma neon_ok_advance:
  assumes "neon_ok s i st" "i + k \<le> length s" "utf8_advance (take k (drop i s)) st \<noteq> ERR"
  shows "neon_ok s (i + k) (utf8_advance (take k (drop i s)) st)"
proof -
  have "st \<noteq> ERR" using assms(3) advance_ERR by auto
  then have "parsed (take i s @ take k (drop i s)) (utf8_advance (take k (drop i s)) st)"
    using parsed_advance [of st "take i s" "take k (drop i s)"] assms(1,3) by (simp add: neon_ok_def)
  then show ?thesis using assms(2,3) by (simp add: neon_ok_def take_add)
qed

lemma neon_ok_ascii:
  assumes "neon_ok s i END" "i + k \<le> length s" "\<forall>b \<in> set (take k (drop i s)). 0 < unat b \<and> unat b < 128"
  shows "neon_ok s (i + k) END"
proof -
  have "parsed (take i s) BGN" using assms(1) by (simp add: neon_ok_def utf8_states)
  from parsed_ascii [OF this assms(3)] show ?thesis using assms(2) by (simp add: neon_ok_def utf8_states take_add)
qed

lemma neon_ok_start: "neon_ok s 0 ERR"
  by (simp add: neon_ok_def)

lemma process_double_ok:
  assumes "neon_process_double s i st = (leave, j, st')" "neon_ok s i st" "i + 32 \<le> length s"
  shows "neon_ok s j st'"
proof -
  let ?a = "take 16 (drop i s)" and ?b = "take 16 (drop (i + 16) s)"
  have split: "take 32 (drop i s) = ?a @ ?b" using take_add [of 16 16 "drop i s"] by (simp add: add.commute)
  have len: "length ?a = 16" "length ?b = 16" using assms(3) by simp_all
  have lanes: "\<forall>b \<in> set (take 32 (drop i s)). 0 < unat b \<and> unat b < 128"
    if "vmaxvq_u8 (vceqq_u8 ?a (vdupq_n_u8 0)) = 0" "vmaxvq_u8 (vandq_u8 ?a (vdupq_n_u8 UTF8_HIGH_BIT_MASK)) = 0"
      "vmaxvq_u8 (vceqq_u8 ?b (vdupq_n_u8 0)) = 0" "vmaxvq_u8 (vandq_u8 ?b (vdupq_n_u8 UTF8_HIGH_BIT_MASK)) = 0"
    unfolding split set_append using ascii_lanes [OF len(1) that(1,2)] ascii_lanes [OF len(2) that(3,4)] by blast
  consider "j = i" "st' = st" | "j = 0" "st' = ERR" | "st = END" "st' = st" "j = i + 32" "\<forall>b \<in> set (take 32 (drop i s)). 0 < unat b \<and> unat b < 128"
    | "j = i + 32" "st' = utf8_advance (take 32 (drop i s)) st" "st' \<noteq> ERR"
    using assms(1) lanes
    by (auto simp: neon_process_double_def Let_def NEON_DOUBLE_STRIDE_def NEON_CHUNK_SIZE_def vld1q_u8_def split: if_splits)
  then show ?thesis
    by cases (use assms(2,3) neon_ok_start neon_ok_ascii [of s i 32] neon_ok_advance [of s i st 32] in auto)
qed

lemma process_single_ok:
  assumes "neon_process_single s i st = (leave, j, st')" "neon_ok s i st" "i + 16 \<le> length s"
  shows "neon_ok s j st'"
proof -
  let ?a = "take 16 (drop i s)"
  have len: "length ?a = 16" using assms(3) by simp
  consider "j = i" "st' = st" | "j = 0" "st' = ERR" | "st = END" "st' = st" "j = i + 16" "\<forall>b \<in> set ?a. 0 < unat b \<and> unat b < 128"
    | "j = i + 16" "st' = utf8_advance ?a st" "st' \<noteq> ERR"
    using assms(1) ascii_lanes [OF len]
    by (auto simp: neon_process_single_def Let_def NEON_CHUNK_SIZE_def vld1q_u8_def split: if_splits)
  then show ?thesis
    by cases (use assms(2,3) neon_ok_start neon_ok_ascii [of s i 16] neon_ok_advance [of s i st 16] in auto)
qed

lemma neon_doubles_ok: "neon_ok s i st \<Longrightarrow> neon_doubles s i st = (j, st') \<Longrightarrow> neon_ok s j st'"
proof (induction s i st rule: neon_doubles.induct)
  case (1 s i st)
  obtain leave k st1 where p: "neon_process_double s i st = (leave, k, st1)" by (cases "neon_process_double s i st")
  show ?case
  proof (cases "length s - i \<ge> NEON_DOUBLE_STRIDE")
    case True
    then have ok: "neon_ok s k st1" using process_double_ok [OF p "1.prems"(1)] by (simp add: NEON_DOUBLE_STRIDE_def)
    show ?thesis
    proof (cases leave)
      case False
      with "1.prems"(2) True p have "neon_doubles s k st1 = (j, st')" by (subst (asm) neon_doubles.simps) simp
      then show ?thesis by (rule "1.IH" [OF True p [symmetric] refl False ok])
    qed (use "1.prems"(2) True p ok in \<open>subst (asm) neon_doubles.simps, simp\<close>)
  next
    case False
    with "1.prems" show ?thesis by (subst (asm) (1) neon_doubles.simps) simp
  qed
qed

lemma neon_singles_ok: "neon_ok s i st \<Longrightarrow> neon_singles s i st = (j, st') \<Longrightarrow> neon_ok s j st'"
proof (induction s i st rule: neon_singles.induct)
  case (1 s i st)
  obtain leave k st1 where p: "neon_process_single s i st = (leave, k, st1)" by (cases "neon_process_single s i st")
  show ?case
  proof (cases "length s - i \<ge> NEON_CHUNK_SIZE")
    case True
    then have ok: "neon_ok s k st1" using process_single_ok [OF p "1.prems"(1)] by (simp add: NEON_CHUNK_SIZE_def)
    show ?thesis
    proof (cases leave)
      case False
      with "1.prems"(2) True p have "neon_singles s k st1 = (j, st')" by (subst (asm) neon_singles.simps) simp
      then show ?thesis by (rule "1.IH" [OF True p [symmetric] refl False ok])
    qed (use "1.prems"(2) True p ok in \<open>subst (asm) neon_singles.simps, simp\<close>)
  next
    case False
    with "1.prems" show ?thesis by (subst (asm) (1) neon_singles.simps) simp
  qed
qed

lemma parsed_BGN_boundary:
  assumes "parsed (take i s) BGN" "i \<le> length s"
  shows "verify_chars s 0 = verify_chars s i"
proof -
  obtain cs pend where p: "take i s = concat cs @ pend" "\<forall>c \<in> set cs. legal_char c" "part pend BGN" using assms(1) by (auto simp: parsed_def)
  have "pend = []" using part_cases [OF p(3)] by (auto simp: utf8_states)
  then have "take i s = concat cs" using p(1) by simp
  from boundary [OF p(2) this assms(2)] show ?thesis .
qed

lemma verifystr_neon_eq: "pg_utf8_verifystr_neon s = verify_chars s 0"
proof -
  obtain i st where d: "neon_doubles s 0 BGN = (i, st)" by (cases "neon_doubles s 0 BGN")
  obtain j st' where e: "neon_singles s i st = (j, st')" by (cases "neon_singles s i st")
  have "parsed (take 0 s) BGN" unfolding parsed_def using part.simps(1) [of BGN] by (metis append_Nil2 concat.simps(1) empty_iff empty_set take0)
  then have "neon_ok s 0 BGN" by (simp add: neon_ok_def utf8_states)
  from neon_singles_ok [OF neon_doubles_ok [OF this d] e] have ok: "neon_ok s j st'" .
  have v: "pg_utf8_verifystr_neon s = verify_chars s (if st' \<noteq> ERR \<and> st' \<noteq> BGN \<and> j > 0 then back_up s j else j)"
    by (simp only: pg_utf8_verifystr_neon_def d e prod.case END_def)
  show ?thesis
  proof (cases "st' = ERR")
    case True
    then show ?thesis using ok by (simp add: v neon_ok_def)
  next
    case False
    then have p: "parsed (take j s) st'" "j \<le> length s" using ok by (simp_all add: neon_ok_def)
    show ?thesis
    proof (cases "st' = BGN")
      case True
      from parsed_BGN_boundary [OF p [unfolded True]] show ?thesis by (simp add: v True)
    next
      case nb: False
      from back_up_boundary [OF p] show ?thesis by (cases "j = 0") (simp_all add: v False nb)
    qed
  qed
qed

section \<open>Code points and their bytes as numbers\<close>

lemma low_masks: "(x :: 'a :: len word) AND 0x3F = take_bit 6 x" "x AND 0x1F = take_bit 5 x" "x AND 0x0F = take_bit 4 x" "x AND 7 = take_bit 3 x"
  by (simp_all add: take_bit_eq_mask mask_eq_exp_minus_1)

lemma or_disjoint: "(\<And>i. \<not> (bit a i \<and> bit b i)) \<Longrightarrow> a OR b = a + (b :: 'a :: len word)"
  by (rule disjunctive_add [symmetric]) blast

lemma unat_take_bit: "unat (take_bit n (w :: 'a :: len word)) = unat w mod 2 ^ n"
  unfolding unsigned_take_bit_eq by (rule take_bit_eq_mod)

lemma unat_ucast8: "unat (ucast (w :: uint32) :: uint8) = unat w mod 256"
  by (simp add: unsigned_ucast_eq unsigned_take_bit_eq take_bit_eq_mod)

lemma unat_ucast32: "unat (ucast (b :: uint8) :: uint32) = unat b"
  using unat_byte [of b] by (simp add: unsigned_ucast_eq take_bit_nat_eq_self)

lemma lead_byte:
  assumes "base = push_bit k c" "unat base + 2 ^ k \<le> 256"
  shows "unat (ucast ((base :: uint32) OR take_bit k w) :: uint8) = unat base + unat w mod 2 ^ k"
proof -
  have "base OR take_bit k w = base + take_bit k w" by (rule or_disjoint) (auto simp: assms(1) bit_simps)
  moreover have "unat (take_bit k w) < 2 ^ k" by (simp add: unat_take_bit)
  then have "unat base + unat (take_bit k w) < 256" using assms(2) by simp
  ultimately show ?thesis by (simp add: unat_ucast8 unat_word_ariths unat_take_bit)
qed

lemma lead_bytes:
  "unat (ucast ((0x80 :: uint32) OR take_bit 6 w) :: uint8) = 128 + unat w mod 64"
  "unat (ucast ((0xC0 :: uint32) OR take_bit 5 w) :: uint8) = 192 + unat w mod 32"
  "unat (ucast ((0xE0 :: uint32) OR take_bit 4 w) :: uint8) = 224 + unat w mod 16"
  "unat (ucast ((0xF0 :: uint32) OR take_bit 3 w) :: uint8) = 240 + unat w mod 8"
  using lead_byte [of 128 6 2 w] lead_byte [of 192 5 6 w] lead_byte [of 224 4 14 w] lead_byte [of 240 3 30 w] by simp_all

definition utf8_bytes :: "nat \<Rightarrow> nat list" where
  "utf8_bytes n =
     (if n < 128 then [n]
      else if n < 2048 then [192 + n div 64, 128 + n mod 64]
      else if n < 65536 then [224 + n div 64 div 64, 128 + n div 64 mod 64, 128 + n mod 64]
      else [240 + n div 64 div 64 div 64, 128 + n div 64 div 64 mod 64, 128 + n div 64 mod 64, 128 + n mod 64])"

lemma unat_drop6: "unat (drop_bit 6 w) = unat w div 64" "unat (drop_bit 12 w) = unat w div 64 div 64" "unat (drop_bit 18 w) = unat w div 64 div 64 div 64"
  for w :: uint32
  unfolding unat_drop_bit_eq by (simp_all add: drop_bit_eq_div div_mult2_eq [symmetric])

lemma unicode_to_utf8_bytes:
  assumes "unat c < 2 ^ 21"
  shows "map unat (unicode_to_utf8 c) = utf8_bytes (unat c)"
proof -
  have "unat c div 64 mod 32 = unat c div 64" if "unat c < 2048" using that by simp
  moreover have "unat c div 64 div 64 mod 16 = unat c div 64 div 64" if "unat c < 65536" using that by (simp add: div_mult2_eq [symmetric])
  moreover have "unat c div 64 div 64 div 64 mod 8 = unat c div 64 div 64 div 64" using assms by (simp add: div_mult2_eq [symmetric])
  moreover have "unat (ucast c :: uint8) = unat c" if "unat c < 128" using that by (simp add: unat_ucast8)
  ultimately show ?thesis
    by (simp add: unicode_to_utf8_def utf8_bytes_def low_masks lead_bytes unat_drop6 word_le_nat_alt)
qed

lemma or_digit:
  assumes "unat x * 64 + 64 \<le> 2 ^ 32"
  shows "unat (push_bit 6 x OR ucast (take_bit 6 (b :: uint8)) :: uint32) = unat x * 64 + unat b mod 64"
proof -
  have "push_bit 6 x OR ucast (take_bit 6 b) = push_bit 6 x + (ucast (take_bit 6 b) :: uint32)" by (rule or_disjoint) (auto simp: bit_simps)
  also have "\<dots> = x * 64 + ucast (take_bit 6 b)" by (simp add: push_bit_eq_mult)
  finally have "unat (push_bit 6 x OR ucast (take_bit 6 b) :: uint32) = unat (x * 64 + (ucast (take_bit 6 b) :: uint32))" by simp
  moreover have u: "unat (ucast (take_bit 6 b) :: uint32) = unat b mod 64" by (simp only: unat_ucast32 unat_take_bit) simp
  moreover have "unat b mod 64 < 64" by simp
  then have "unat x * 64 + unat b mod 64 < 2 ^ 32" using assms by linarith
  moreover from this have "unat (x * 64) = unat x * 64" by (simp add: unat_word_ariths)
  ultimately show ?thesis by (simp add: unat_word_ariths(1))
qed

fun code_number :: "nat list \<Rightarrow> nat" where
  "code_number [a] = a"
| "code_number [a, b] = a mod 32 * 64 + b mod 64"
| "code_number [a, b, c] = (a mod 16 * 64 + b mod 64) * 64 + c mod 64"
| "code_number [a, b, c, d] = ((a mod 8 * 64 + b mod 64) * 64 + c mod 64) * 64 + d mod 64"
| "code_number _ = 0"

lemma lead_tests:
  "a AND 0x80 = 0 \<longleftrightarrow> unat a < 128" "a AND 0xe0 = 0xc0 \<longleftrightarrow> 192 \<le> unat a \<and> unat a < 224" "a AND 0xf0 = 0xe0 \<longleftrightarrow> 224 \<le> unat a \<and> unat a < 240"
  "a AND 0xf8 = 0xf0 \<longleftrightarrow> 240 \<le> unat a \<and> unat a < 248" for a :: uint8
proof -
  have "map (\<lambda>n. (of_nat n :: uint8) AND 0x80 = 0) [0..<256] = map (\<lambda>n. n < 128) [0..<256]" by code_simp
  from byte_table [OF this] show "a AND 0x80 = 0 \<longleftrightarrow> unat a < 128" by simp
  have "map (\<lambda>n. (of_nat n :: uint8) AND 0xe0 = 0xc0) [0..<256] = map (\<lambda>n. 192 \<le> n \<and> n < 224) [0..<256]" by code_simp
  from byte_table [OF this] show "a AND 0xe0 = 0xc0 \<longleftrightarrow> 192 \<le> unat a \<and> unat a < 224" by simp
  have "map (\<lambda>n. (of_nat n :: uint8) AND 0xf0 = 0xe0) [0..<256] = map (\<lambda>n. 224 \<le> n \<and> n < 240) [0..<256]" by code_simp
  from byte_table [OF this] show "a AND 0xf0 = 0xe0 \<longleftrightarrow> 224 \<le> unat a \<and> unat a < 240" by simp
  have "map (\<lambda>n. (of_nat n :: uint8) AND 0xf8 = 0xf0) [0..<256] = map (\<lambda>n. 240 \<le> n \<and> n < 248) [0..<256]" by code_simp
  from byte_table [OF this] show "a AND 0xf8 = 0xf0 \<longleftrightarrow> 240 \<le> unat a \<and> unat a < 248" by simp
qed

text \<open>The words that the decoding routines put together from the bytes.\<close>

lemma code_words:
  fixes a b c d :: uint8
  shows "unat (push_bit 6 (ucast (a AND 0x1f)) OR ucast (b AND 0x3f) :: uint32) = code_number [unat a, unat b]"
    "unat (push_bit 12 (ucast (a AND 0x0f)) OR push_bit 6 (ucast (b AND 0x3f)) OR ucast (c AND 0x3f) :: uint32) = code_number [unat a, unat b, unat c]"
    "unat (push_bit 18 (ucast (a AND 0x07)) OR push_bit 12 (ucast (b AND 0x3f)) OR push_bit 6 (ucast (c AND 0x3f)) OR ucast (d AND 0x3f) :: uint32) =
      code_number [unat a, unat b, unat c, unat d]"
proof -
  have first: "unat (ucast (take_bit 5 a) :: uint32) = unat a mod 32" "unat (ucast (take_bit 4 a) :: uint32) = unat a mod 16"
    "unat (ucast (take_bit 3 a) :: uint32) = unat a mod 8"
    by (simp_all only: unat_ucast32 unat_take_bit) simp_all
  have m: "unat a mod 32 < 32" "unat a mod 16 < 16" "unat a mod 8 < 8" "unat b mod 64 < 64" "unat c mod 64 < 64" "unat d mod 64 < 64" by simp_all
  show "unat (push_bit 6 (ucast (a AND 0x1f)) OR ucast (b AND 0x3f) :: uint32) = code_number [unat a, unat b]"
    unfolding low_masks using or_digit [of "ucast (take_bit 5 a)" b] first m by simp
  let ?x = "push_bit 6 (ucast (take_bit 4 a)) OR ucast (take_bit 6 b) :: uint32"
  have x: "unat ?x = unat a mod 16 * 64 + unat b mod 64" using or_digit [of "ucast (take_bit 4 a)" b] first m by simp
  have "push_bit 12 (ucast (take_bit 4 a)) OR push_bit 6 (ucast (take_bit 6 b)) OR ucast (take_bit 6 c) = push_bit 6 ?x OR ucast (take_bit 6 c)"
    by (simp add: push_bit_or or.assoc)
  then show "unat (push_bit 12 (ucast (a AND 0x0f)) OR push_bit 6 (ucast (b AND 0x3f)) OR ucast (c AND 0x3f) :: uint32) = code_number [unat a, unat b, unat c]"
    unfolding low_masks using or_digit [of ?x c] x m by simp
  let ?y = "push_bit 6 (ucast (take_bit 3 a)) OR ucast (take_bit 6 b) :: uint32"
  have y: "unat ?y = unat a mod 8 * 64 + unat b mod 64" using or_digit [of "ucast (take_bit 3 a)" b] first m by simp
  let ?z = "push_bit 6 ?y OR ucast (take_bit 6 c) :: uint32"
  have z: "unat ?z = (unat a mod 8 * 64 + unat b mod 64) * 64 + unat c mod 64" using or_digit [of ?y c] y m by simp
  have "push_bit 18 (ucast (take_bit 3 a)) OR push_bit 12 (ucast (take_bit 6 b)) OR push_bit 6 (ucast (take_bit 6 c)) OR ucast (take_bit 6 d) =
    push_bit 6 ?z OR ucast (take_bit 6 d)" by (simp add: push_bit_or or.assoc)
  then show "unat (push_bit 18 (ucast (a AND 0x07)) OR push_bit 12 (ucast (b AND 0x3f)) OR push_bit 6 (ucast (c AND 0x3f)) OR ucast (d AND 0x3f) :: uint32) =
      code_number [unat a, unat b, unat c, unat d]"
    unfolding low_masks using or_digit [of ?z d] z m by simp
qed

lemma legal_forms:
  assumes "legal_char bs"
  obtains a where "bs = [a]" "0 < unat a" "unat a < 0x80"
    | a b where "bs = [a, b]" "0xC2 \<le> unat a" "unat a \<le> 0xDF" "cont (unat b)"
    | a b d where "bs = [a, b, d]" "0xE0 \<le> unat a" "unat a \<le> 0xEF" "second (unat a) (unat b)" "cont (unat d)"
    | a b d e where "bs = [a, b, d, e]" "0xF0 \<le> unat a" "unat a \<le> 0xF4" "second (unat a) (unat b)" "cont (unat d)" "cont (unat e)"
  using assms by (cases bs rule: legal_char.cases) auto

lemma utf8_to_unicode_number: "legal_char bs \<Longrightarrow> unat (utf8_to_unicode (bs @ s)) = code_number (map unat bs)"
  by (erule legal_forms) (simp_all add: utf8_to_unicode_def lead_tests code_words unat_ucast32 del: code_number.simps(2-4))

section \<open>Unicode scalar values\<close>

definition scalar :: "pg_wchar \<Rightarrow> bool" where
  "scalar c \<longleftrightarrow> unat c \<le> 0x10FFFF \<and> \<not> (0xD800 \<le> unat c \<and> unat c \<le> 0xDFFF)"

lemma digit64: "z < 64 \<Longrightarrow> (q * 64 + z) div 64 = q \<and> (q * 64 + z) mod 64 = (z :: nat)"
  by simp

lemma cont_digit: "cont k \<Longrightarrow> \<exists>y < 64. k = 128 + y \<and> k mod 64 = y"
  by (intro exI [of _ "k - 128"]) (auto simp: cont_def mod_if)

lemma second_cont: "second n k \<Longrightarrow> cont k"
  by (auto simp: second_def cont_def split: if_splits)

lemma legal_number:
  assumes "legal_char bs"
  defines "n \<equiv> code_number (map unat bs)"
  shows "utf8_bytes n = map unat bs \<and> 0 < n \<and> n \<le> 0x10FFFF \<and> \<not> (0xD800 \<le> n \<and> n \<le> 0xDFFF)"
  using assms(1)
proof (cases rule: legal_forms)
  case (1 a)
  then show ?thesis by (simp add: n_def utf8_bytes_def)
next
  case (2 a b)
  obtain y where y: "y < 64" "unat b = 128 + y" "unat b mod 64 = y" using cont_digit [OF 2(4)] by blast
  define x where "x = unat a - 192"
  have x: "unat a = 192 + x" "unat a mod 32 = x" "2 \<le> x" "x < 32" using 2(2,3) by (auto simp: x_def mod_if)
  have n: "n = x * 64 + y" using 2(1) x y by (simp add: n_def)
  have "128 \<le> n" "n < 2048" using n x(3,4) y(1) by linarith+
  then show ?thesis using digit64 [OF y(1), of x] x y 2(1) by (simp add: utf8_bytes_def flip: n)
next
  case (3 a b c)
  obtain y where y: "y < 64" "unat b = 128 + y" "unat b mod 64 = y" using cont_digit [OF second_cont [OF 3(4)]] by blast
  obtain z where z: "z < 64" "unat c = 128 + z" "unat c mod 64 = z" using cont_digit [OF 3(5)] by blast
  define x where "x = unat a - 224"
  have x: "unat a = 224 + x" "unat a mod 16 = x" "x < 16" using 3(2,3) by (auto simp: x_def mod_if)
  have n: "n = (x * 64 + y) * 64 + z" using 3(1) x y z by (simp add: n_def)
  have s: "1 \<le> x \<or> 32 \<le> y" "x \<noteq> 13 \<or> y < 32" using 3(4) x(1) y(2) by (auto simp: second_def split: if_splits)
  have dn: "n div 64 = x * 64 + y" "n mod 64 = z" using digit64 [OF z(1), of "x * 64 + y"] n by simp_all
  have nf: "n = 4096 * x + 64 * y + z" using n by simp
  have "2048 \<le> n" using s(1) nf by (elim disjE) linarith+
  moreover have "n < 65536" using nf x(3) y(1) z(1) by linarith
  moreover have "\<not> (0xD800 \<le> n \<and> n \<le> 0xDFFF)"
  proof (cases "x = 13")
    case True
    then show ?thesis using nf s(2) z(1) by auto
  next
    case False
    then consider "x \<le> 12" | "14 \<le> x" by linarith
    then show ?thesis using nf y(1) z(1) by cases linarith+
  qed
  ultimately show ?thesis using dn digit64 [OF y(1), of x] x y z 3(1) by (simp add: utf8_bytes_def)
next
  case (4 a b c d)
  obtain y where y: "y < 64" "unat b = 128 + y" "unat b mod 64 = y" using cont_digit [OF second_cont [OF 4(4)]] by blast
  obtain z where z: "z < 64" "unat c = 128 + z" "unat c mod 64 = z" using cont_digit [OF 4(5)] by blast
  obtain u where u: "u < 64" "unat d = 128 + u" "unat d mod 64 = u" using cont_digit [OF 4(6)] by blast
  define x where "x = unat a - 240"
  have x: "unat a = 240 + x" "unat a mod 8 = x" "x < 5" using 4(2,3) by (auto simp: x_def mod_if)
  have n: "n = ((x * 64 + y) * 64 + z) * 64 + u" using 4(1) x y z u by (simp add: n_def)
  have s: "1 \<le> x \<or> 16 \<le> y" "x \<le> 3 \<or> y < 16" using 4(4) x y(2) by (auto simp: second_def split: if_splits)
  have dn: "n div 64 = (x * 64 + y) * 64 + z" "n mod 64 = u" using digit64 [OF u(1), of "(x * 64 + y) * 64 + z"] n by simp_all
  have dz: "n div 64 div 64 = x * 64 + y" "n div 64 mod 64 = z" using digit64 [OF z(1), of "x * 64 + y"] dn(1) by simp_all
  have nf: "n = 262144 * x + 4096 * y + 64 * z + u" using n by simp
  have "65536 \<le> n" using s(1) nf by (elim disjE) linarith+
  moreover have "n \<le> 0x10FFFF" using s(2) nf x(3) y(1) z(1) u(1) by (elim disjE) linarith+
  ultimately show ?thesis
    using dn(2) dz digit64 [OF y(1), of x] x y z u 4(1) by (simp add: utf8_bytes_def)
qed

lemma number_legal:
  assumes n: "0 < n" "n \<le> 0x10FFFF" "\<not> (0xD800 \<le> n \<and> n \<le> 0xDFFF)" and bs: "map unat bs = utf8_bytes n"
  shows "legal_char bs \<and> code_number (map unat bs) = n"
proof -
  define q r s where "q = n div 64" "r = q div 64" "s = r div 64"
  have d: "n = q * 64 + n mod 64" "q = r * 64 + q mod 64" "r = s * 64 + r mod 64" by (simp_all add: q_r_s_def)
  have m: "n mod 64 < 64" "q mod 64 < 64" "r mod 64 < 64" by simp_all
  note dm = d m
  have dig: "(128 + k mod 64) mod 64 = k mod 64" "cont (128 + k mod 64)" for k :: nat
  proof -
    have "k mod 64 < 64" by simp
    then show "(128 + k mod 64) mod 64 = k mod 64" "cont (128 + k mod 64)" unfolding cont_def by (simp_all add: mod_if) 
  qed
  consider "n < 128" | "128 \<le> n" "n < 2048" | "2048 \<le> n" "n < 65536" | "65536 \<le> n" by linarith
  then show ?thesis
  proof cases
    case 1
    then show ?thesis using bs n by (auto simp: utf8_bytes_def map_eq_Cons_conv)
  next
    case 2
    then obtain a b where b: "bs = [a, b]" "unat a = 192 + q" "unat b = 128 + n mod 64" using bs by (auto simp: utf8_bytes_def map_eq_Cons_conv q_r_s_def)
    have q: "2 \<le> q" "q < 32" using 2 dm by linarith+
    have "(192 + q) mod 32 = q" using q(2) by (simp add: mod_if)
    then show ?thesis using b dig [of n] d(1) q by simp
  next
    case 3
    then obtain a b c where b: "bs = [a, b, c]" "unat a = 224 + r" "unat b = 128 + q mod 64" "unat c = 128 + n mod 64"
      using bs by (auto simp: utf8_bytes_def map_eq_Cons_conv q_r_s_def)
    have r: "r < 16" "r = 0 \<Longrightarrow> 32 \<le> q mod 64" using 3 dm by linarith+
    have "r = 13 \<Longrightarrow> q mod 64 < 32" using n(3) dm by linarith
    then have "second (224 + r) (128 + q mod 64)" using r m(2) by (auto simp: second_def)
    moreover have "(224 + r) mod 16 = r" using r(1) by (simp add: mod_if)
    ultimately show ?thesis using b dig [of n] dig [of q] d r(1) by simp
  next
    case 4
    then obtain a b c e where b: "bs = [a, b, c, e]" "unat a = 240 + s" "unat b = 128 + r mod 64" "unat c = 128 + q mod 64" "unat e = 128 + n mod 64"
      using bs by (auto simp: utf8_bytes_def map_eq_Cons_conv q_r_s_def)
    have s: "s < 5" "s = 0 \<Longrightarrow> 16 \<le> r mod 64" "s = 4 \<Longrightarrow> r mod 64 < 16" using 4 n(2) dm by linarith+
    then have "second (240 + s) (128 + r mod 64)" using m(3) by (auto simp: second_def)
    moreover have "(240 + s) mod 8 = s" using s(1) by (simp add: mod_if)
    ultimately show ?thesis using b dig [of n] dig [of q] dig [of r] d s(1) by simp
  qed
qed

lemma scalar_legal:
  assumes "scalar c" "c \<noteq> 0"
  shows "legal_char (unicode_to_utf8 c) \<and> utf8_to_unicode (unicode_to_utf8 c @ s) = c"
proof -
  have b: "map unat (unicode_to_utf8 c) = utf8_bytes (unat c)" using assms(1) by (intro unicode_to_utf8_bytes) (simp add: scalar_def)
  have n: "0 < unat c" using assms(2) by (simp add: unat_gt_0)
  note l = number_legal [OF n _ _ b] 
  have "legal_char (unicode_to_utf8 c)" "unat (utf8_to_unicode (unicode_to_utf8 c @ s)) = unat c"
    using l utf8_to_unicode_number [of "unicode_to_utf8 c" s] assms(1) by (auto simp: scalar_def)
  then show ?thesis by (simp add: word_unat_eq_iff)
qed

lemma legal_scalar:
  assumes "legal_char bs"
  shows "scalar (utf8_to_unicode (bs @ s)) \<and> utf8_to_unicode (bs @ s) \<noteq> 0 \<and> unicode_to_utf8 (utf8_to_unicode (bs @ s)) = bs"
proof -
  let ?c = "utf8_to_unicode (bs @ s)"
  have u: "unat ?c = code_number (map unat bs)" by (rule utf8_to_unicode_number [OF assms])
  note l = legal_number [OF assms, folded u]
  have "map unat (unicode_to_utf8 ?c) = map unat bs" using unicode_to_utf8_bytes [of ?c] l by simp
  moreover have "inj (unat :: uint8 \<Rightarrow> nat)" by (rule injI) (simp add: word_unat_eq_iff)
  ultimately have "unicode_to_utf8 ?c = bs" by (metis inj_map_eq_map)
  then show ?thesis using l by (auto simp: scalar_def)
qed

section \<open>Texts\<close>

text \<open>The strings that are the UTF-8 form of a sequence of Unicode scalar values other than zero.\<close>

definition utf8_text :: "uint8 list \<Rightarrow> bool" where
  "utf8_text w \<longleftrightarrow> (\<exists>us. (\<forall>u \<in> set us. scalar u \<and> u \<noteq> 0) \<and> w = concat (map unicode_to_utf8 us))"

lemma utf8_text_chars: "utf8_text w \<longleftrightarrow> (\<exists>cs. (\<forall>c \<in> set cs. legal_char c) \<and> w = concat cs)"
proof
  assume "utf8_text w"
  then obtain us where us: "\<forall>u \<in> set us. scalar u \<and> u \<noteq> 0" "w = concat (map unicode_to_utf8 us)" by (auto simp: utf8_text_def)
  have "\<forall>c \<in> set (map unicode_to_utf8 us). legal_char c" using us(1) scalar_legal by auto
  with us(2) show "\<exists>cs. (\<forall>c \<in> set cs. legal_char c) \<and> w = concat cs" by blast
next
  assume "\<exists>cs. (\<forall>c \<in> set cs. legal_char c) \<and> w = concat cs"
  then obtain cs where cs: "\<forall>c \<in> set cs. legal_char c" "w = concat cs" by blast
  have "unicode_to_utf8 (utf8_to_unicode c) = c \<and> scalar (utf8_to_unicode c) \<and> utf8_to_unicode c \<noteq> 0" if "c \<in> set cs" for c
    using legal_scalar [of c "[]"] cs(1) that by simp
  then show "utf8_text w"
    unfolding utf8_text_def by (intro exI [of _ "map utf8_to_unicode cs"]) (simp add: cs(2) map_idI comp_def)
qed

lemma utf8_text_Nil: "utf8_text []"
  unfolding utf8_text_def by (intro exI [of _ "[]"]) simp

lemma utf8_text_snoc: "utf8_text w \<Longrightarrow> legal_char c \<Longrightarrow> utf8_text (w @ c)"
  unfolding utf8_text_chars by (elim exE conjE, rule_tac x = "cs @ [c]" in exI) auto

text \<open>The loop over characters: where it goes on, and where it stops.\<close>

lemma verify_chars_cases:
  obtains (step) l where "legal_char (take l (drop i s))" "0 < l" "i + l \<le> length s" "verify_chars s i = verify_chars s (i + l)"
    | (stop) "verify_chars s i = i"
proof (cases "i < length s")
  case i: True
  have hd: "drop i s \<noteq> []" "drop i s ! 0 = s ! i" using i by auto
  show ?thesis
  proof (cases "s ! i = 0")
    case True
    with i have "verify_chars s i = i" by (subst verify_chars.simps) (simp add: highbit_iff)
    then show ?thesis by (rule stop)
  next
    case False
    show ?thesis
    proof (cases "IS_HIGHBIT_SET_U (s ! i)")
      case hb: True
      show ?thesis
      proof (cases "pg_utf8_verifier (drop i s)")
        case None
        with i hb have "verify_chars s i = i" by (subst verify_chars.simps) simp
        then show ?thesis by (rule stop)
      next
        case (Some l)
        have "verify_chars s i = verify_chars s (i + l)" using i hb Some by (subst verify_chars.simps) simp
        then show ?thesis using verifier_legal [OF Some] verifier_range [OF Some] hd False i by (intro step [of l]) auto
      qed
    next
      case hb: False
      have "verify_chars s i = verify_chars s (i + 1)" using i hb False by (subst verify_chars.simps) simp
      moreover have "take 1 (drop i s) = [s ! i]" using i by (simp add: take_Suc_conv_app_nth)
      then have "legal_char (take 1 (drop i s))" using hb False by (simp add: highbit_iff unat_gt_0 not_le)
      ultimately show ?thesis using i by (intro step [of 1]) auto
    qed
  qed
next
  case False
  then have "verify_chars s i = i" by (subst verify_chars.simps) simp
  then show ?thesis by (rule stop)
qed

lemma verify_chars_text:
  assumes "utf8_text (take i s)" "i \<le> length s"
  shows "i \<le> verify_chars s i \<and> verify_chars s i \<le> length s \<and> utf8_text (take (verify_chars s i) s)"
  using assms
proof (induction "length s - i" arbitrary: i rule: less_induct)
  case less
  show ?case
  proof (rule verify_chars_cases [of i s])
    fix l
    assume step: "legal_char (take l (drop i s))" "0 < l" "i + l \<le> length s" "verify_chars s i = verify_chars s (i + l)"
    have "utf8_text (take (i + l) s)" using utf8_text_snoc [OF less.prems(1) step(1)] by (simp add: take_add)
    moreover have "length s - (i + l) < length s - i" using step(2,3) by simp
    ultimately show ?thesis using less.hyps [of "i + l"] step by simp
  next
    assume "verify_chars s i = i"
    then show ?thesis using less.prems by simp
  qed
qed

lemma verify_chars_max: "k \<le> length s \<Longrightarrow> utf8_text (take k s) \<Longrightarrow> k \<le> verify_chars s 0"
proof -
  assume k: "k \<le> length s" "utf8_text (take k s)"
  obtain cs where "\<forall>c \<in> set cs. legal_char c" "take k s = concat cs" using k(2) by (auto simp: utf8_text_chars)
  then have "verify_chars s 0 = verify_chars s k" by (rule boundary [OF _ _ k(1)])
  then show ?thesis using verify_chars_text [OF k(2,1)] by simp
qed

lemma verifystr_text: "utf8_text s \<Longrightarrow> pg_utf8_verifystr s = length s"
  using verify_chars_max [of "length s" s] verify_chars_text [of 0 s] by (simp add: verifystr_eq utf8_text_Nil)

text \<open>
  C20. The verifier of strings, with its automaton over chunks of sixteen bytes, its shortcut for ASCII and the way back to the last character, finds
  what the check character by character finds, in the portable variant and in the one with vector instructions; and that is the longest beginning of the string that is the UTF-8 form of Unicode scalar values
  other than zero (no overlong form, no surrogate, nothing above U+10FFFF): it is one, and every other one is at most as long.
\<close>

theorem verifystr_longest_text:
  "pg_utf8_verifystr s = verify_chars s 0 \<and> pg_utf8_verifystr_neon s = verify_chars s 0 \<and> pg_utf8_verifystr s \<le> length s \<and> utf8_text (take (pg_utf8_verifystr s) s) \<and>
   (\<forall>k \<le> length s. utf8_text (take k s) \<longrightarrow> k \<le> pg_utf8_verifystr s)"
proof -
  have "utf8_text (take 0 s)" by (simp add: utf8_text_Nil)
  note v = verify_chars_text [OF this]
  show ?thesis using v verify_chars_max [of _ s] by (simp add: verifystr_eq verifystr_neon_eq)
qed

theorem verifystr_longest_text_witness:
  "utf8_text (take 3 [0x41, 0xC3, 0xA9, 0xED, 0xA0, 0x80]) \<and> \<not> utf8_text (take 6 [0x41, 0xC3, 0xA9, 0xED, 0xA0, 0x80])"
proof -
  have "pg_utf8_verifystr [0x41, 0xC3, 0xA9, 0xED, 0xA0, 0x80] = 3" unfolding verifystr_eq by code_simp
  from verifystr_longest_text [of "[0x41, 0xC3, 0xA9, 0xED, 0xA0, 0x80]", unfolded this] show ?thesis
    by (elim conjE) (drule spec [of _ 6], simp)
qed

lemma utf2wchar_step:
  assumes "legal_char c"
  shows "pg_utf2wchar_with_len (c @ s) = utf8_to_unicode c # pg_utf2wchar_with_len s"
proof -
  have nz: "0 < unat (a :: uint8) \<Longrightarrow> a \<noteq> 0" for a by (simp add: unat_gt_0)
  show ?thesis using assms
  proof (cases rule: legal_forms)
    case (1 a)
    then show ?thesis using nz [of a] by (simp add: utf8_to_unicode_def lead_tests)
  next
    case (2 a b)
    then show ?thesis using nz [of a] by (simp add: utf8_to_unicode_def lead_tests)
  next
    case (3 a b d)
    then show ?thesis using nz [of a] by (simp add: utf8_to_unicode_def lead_tests numeral_2_eq_2)
  next
    case (4 a b d e)
    then show ?thesis using nz [of a] by (simp add: utf8_to_unicode_def lead_tests numeral_2_eq_2 numeral_3_eq_3)
  qed
qed

lemma wchar2utf_step: "scalar u \<Longrightarrow> u \<noteq> 0 \<Longrightarrow> pg_wchar2utf_with_len (u # us) = unicode_to_utf8 u @ pg_wchar2utf_with_len us"
  using legal_verifier [of "unicode_to_utf8 u" "[]"] scalar_legal [of u "[]"] by (simp add: Let_def)

lemma wchar2utf_text: "\<forall>u \<in> set us. scalar u \<and> u \<noteq> 0 \<Longrightarrow> pg_wchar2utf_with_len us = concat (map unicode_to_utf8 us)"
  by (induction us) (simp_all add: wchar2utf_step del: pg_wchar2utf_with_len.simps(2))

lemma utf2wchar_text: "\<forall>u \<in> set us. scalar u \<and> u \<noteq> 0 \<Longrightarrow> pg_utf2wchar_with_len (concat (map unicode_to_utf8 us)) = us"
proof (induction us)
  case (Cons u us)
  then show ?case using utf2wchar_step [of "unicode_to_utf8 u" "concat (map unicode_to_utf8 us)"] scalar_legal [of u "[]"] by simp
qed simp

text \<open>
  C25. Converting between UTF-8 and wide characters is a bijection between the verified strings and the sequences of non-zero scalar values: wide
  characters that are written as UTF-8 are read back unchanged and give a string that is verified to its end, and a string that is verified to its end is,
  after conversion to wide characters and back, the same string.
\<close>

theorem utf8_round_trip:
  "((\<forall>u \<in> set us. scalar u \<and> u \<noteq> 0) \<longrightarrow>
      pg_utf2wchar_with_len (pg_wchar2utf_with_len us) = us \<and> pg_utf8_verifystr (pg_wchar2utf_with_len us) = length (pg_wchar2utf_with_len us)) \<and>
   (pg_utf8_verifystr s = length s \<longrightarrow>
      pg_wchar2utf_with_len (pg_utf2wchar_with_len s) = s \<and> (\<forall>u \<in> set (pg_utf2wchar_with_len s). scalar u \<and> u \<noteq> 0))"
proof (intro conjI impI)
  assume us: "\<forall>u \<in> set us. scalar u \<and> u \<noteq> 0"
  note w = wchar2utf_text [OF us]
  show "pg_utf2wchar_with_len (pg_wchar2utf_with_len us) = us" unfolding w by (rule utf2wchar_text [OF us])
  have "utf8_text (pg_wchar2utf_with_len us)" unfolding utf8_text_def w using us by blast
  then show "pg_utf8_verifystr (pg_wchar2utf_with_len us) = length (pg_wchar2utf_with_len us)" by (rule verifystr_text)
next
  assume "pg_utf8_verifystr s = length s"
  then have "utf8_text s" using verify_chars_text [of 0 s] by (simp add: verifystr_eq utf8_text_Nil)
  then obtain us where us: "\<forall>u \<in> set us. scalar u \<and> u \<noteq> 0" "s = concat (map unicode_to_utf8 us)" by (auto simp: utf8_text_def)
  then have s: "pg_utf2wchar_with_len s = us" using utf2wchar_text by simp
  show "pg_wchar2utf_with_len (pg_utf2wchar_with_len s) = s" unfolding s using wchar2utf_text [OF us(1)] us(2) by simp
  show "\<forall>u \<in> set (pg_utf2wchar_with_len s). scalar u \<and> u \<noteq> 0" unfolding s by (rule us(1))
qed

theorem utf8_round_trip_witness:
  "pg_utf2wchar_with_len (pg_wchar2utf_with_len [0x41, 0xE9, 0x20AC, 0x1F600]) = [0x41, 0xE9, 0x20AC, 0x1F600] \<and>
   pg_wchar2utf_with_len (pg_utf2wchar_with_len [0x41, 0xC3, 0xA9]) = [0x41, 0xC3, 0xA9]"
proof -
  have "\<forall>u \<in> set [0x41, 0xE9, 0x20AC, 0x1F600 :: pg_wchar]. scalar u \<and> u \<noteq> 0" by (simp add: scalar_def)
  moreover have "pg_utf8_verifystr [0x41, 0xC3, 0xA9] = length [0x41, 0xC3, 0xA9 :: uint8]" unfolding verifystr_eq by code_simp
  ultimately show ?thesis
    using utf8_round_trip [of "[0x41, 0xE9, 0x20AC, 0x1F600]" "[0x41, 0xC3, 0xA9]"] by blast
qed

section \<open>The next character\<close>

lemma unat_inc: "unat a < 255 \<Longrightarrow> unat (a + 1 :: uint8) = unat a + 1"
  by (simp add: unat_word_ariths)

lemma less_BF: "(a :: uint8) < 0xBF \<longleftrightarrow> unat a < 0xBF" "a < 0x9F \<longleftrightarrow> unat a < 0x9F" "a < 0x8F \<longleftrightarrow> unat a < 0x8F"
  by (simp_all add: word_less_nat_alt)

text \<open>
  C36. \<^verbatim>\<open>pg_utf8_increment\<close> on a legal character: it fails exactly on the last character of each length; otherwise the result has the same length and
  comes later in the order of the bytes. It is a legal character again except in two cases: after U+CFFF comes \<^verbatim>\<open>ED BF BF\<close>, the form of a surrogate, and
  after U+FFFFF comes \<^verbatim>\<open>F4 BF BF BF\<close>, above U+10FFFF. The limits on the second byte look at the first byte before it is incremented.
\<close>

theorem utf8_increment_result:
  assumes "legal_char c"
  shows "(pg_utf8_increment c (length c) = None \<longleftrightarrow> c \<in> {[0x7F], [0xDF, 0xBF], [0xEF, 0xBF, 0xBF], [0xF4, 0x8F, 0xBF, 0xBF]}) \<and>
    (\<forall>d. pg_utf8_increment c (length c) = Some d \<longrightarrow>
       length d = length c \<and> (map unat c, map unat d) \<in> lexord {(m, n). m < n} \<and>
       (legal_char d \<longleftrightarrow> c \<notin> {[0xEC, 0xBF, 0xBF], [0xF3, 0xBF, 0xBF, 0xBF]}))"
  using assms
proof (cases rule: legal_forms)
  case (1 a)
  then show ?thesis by (auto simp: pg_utf8_increment_def increment_1_def Let_def byte_eq_iff unat_inc)
next
  case (2 a b)
  then show ?thesis
    by (auto simp: pg_utf8_increment_def increment_2_def increment_1_def Let_def byte_eq_iff unat_inc less_BF cont_def)
next
  case (3 a b d)
  then show ?thesis
    by (auto simp: pg_utf8_increment_def increment_3_def increment_2_def increment_1_def Let_def byte_eq_iff unat_inc less_BF cont_def second_def split: if_splits)
next
  case (4 a b d e)
  then show ?thesis
    by (auto simp: pg_utf8_increment_def increment_3_def increment_2_def increment_1_def Let_def byte_eq_iff unat_inc less_BF cont_def second_def split: if_splits)
qed

theorem utf8_increment_result_witness:
  "legal_char [0xEC, 0xBF, 0xBF] \<and> pg_utf8_increment [0xEC, 0xBF, 0xBF] 3 = Some [0xED, 0xBF, 0xBF] \<and> \<not> legal_char [0xED, 0xBF, 0xBF]"
proof -
  have c: "legal_char [0xEC, 0xBF, 0xBF]" by (simp add: second_def cont_def)
  have i: "pg_utf8_increment [0xEC, 0xBF, 0xBF] (length [0xEC, 0xBF, 0xBF :: uint8]) = Some [0xED, 0xBF, 0xBF]" by code_simp
  have "\<not> legal_char [0xED, 0xBF, 0xBF]" using utf8_increment_result [OF c] i by blast
  with c i show ?thesis by (simp add: numeral_3_eq_3)
qed

end
