(* ===== verification/OG_Like.thy ===== *)
theory OG_Like
  imports OG_Utf8
begin

text \<open>
  The operators LIKE and ILIKE (\<^verbatim>\<open>src/common/backend/utils/adt/like.cpp\<close> and \<^verbatim>\<open>like_match.cpp\<close>, which is included four times with different macros). The macros are a record,
  and the locale \<open>like_encoding\<close> states what the matcher needs of them; it is interpreted for single bytes, with and without folding, for UTF-8 and for the other
  encodings of several bytes, whose \<^verbatim>\<open>pg_mblen\<close> is an argument. The meaning of a pattern is given on characters.

  Texts and patterns have passed the verifier of their encoding; where they have not, as values of type bytea, the code may read beyond their end, which the model does
  not show. The memory for a converted pattern is always found, as it is for patterns below 512 MB. Not modelled: the matchers of the built-in collations of B format, which are an argument, and the test for huge values that are out of line.
\<close>

section \<open>The macros\<close>

text \<open>
  \<^verbatim>\<open>like_match.cpp\<close> is compiled four times with different macros. A string is the list of the bytes that are left; \<open>more_bytes\<close> is the number of bytes that
  \<^verbatim>\<open>NextChar\<close> skips after the first.
\<close>

datatype like_result = LIKE_TRUE | LIKE_FALSE | LIKE_ABORT

record like_macros =
  GETCHAR :: "uint8 \<Rightarrow> uint8"
  CHAREQ :: "uint8 list \<Rightarrow> uint8 list \<Rightarrow> bool"
  more_bytes :: "uint8 list \<Rightarrow> nat"

definition NextByte :: "uint8 list \<Rightarrow> uint8 list" where
  "NextByte p = tl p"

definition NextChar :: "like_macros \<Rightarrow> uint8 list \<Rightarrow> uint8 list" where
  "NextChar K p = drop (Suc (more_bytes K p)) p"

definition wchareq :: "(uint8 list \<Rightarrow> nat) \<Rightarrow> uint8 list \<Rightarrow> uint8 list \<Rightarrow> bool" where
  "wchareq pg_mblen p1 p2 =
     (if hd p1 \<noteq> hd p2 then False
      else let p1_len = pg_mblen p1 in if pg_mblen p2 \<noteq> p1_len then False else take p1_len p1 = take p1_len p2)"

definition pg_ascii_tolower :: "uint8 \<Rightarrow> uint8" where
  "pg_ascii_tolower ch = (if 65 \<le> ch \<and> ch \<le> 90 then ch + 32 else ch)"

text \<open>The functions of the platform are arguments: \<open>isupper\<close> and \<open>tolower\<close>, and \<open>tolower_l\<close> when there is a locale object.\<close>

definition pg_tolower :: "(uint8 \<Rightarrow> bool) \<Rightarrow> (uint8 \<Rightarrow> uint8) \<Rightarrow> uint8 \<Rightarrow> uint8" where
  "pg_tolower isupper tolower ch =
     (if 65 \<le> ch \<and> ch \<le> 90 then ch + 32 else if IS_HIGHBIT_SET_U ch \<and> isupper ch then tolower ch else ch)"

definition SB_lower_char :: "(uint8 \<Rightarrow> bool) \<Rightarrow> (uint8 \<Rightarrow> uint8) \<Rightarrow> (uint8 \<Rightarrow> uint8) option \<Rightarrow> bool \<Rightarrow> uint8 \<Rightarrow> uint8" where
  "SB_lower_char isupper tolower locale locale_is_c c =
     (if locale_is_c then pg_ascii_tolower c else case locale of Some tolower_l \<Rightarrow> tolower_l c | None \<Rightarrow> pg_tolower isupper tolower c)"

definition SB_macros :: like_macros where
  "SB_macros = \<lparr>GETCHAR = (\<lambda>t. t), CHAREQ = (\<lambda>p1 p2. hd p1 = hd p2), more_bytes = (\<lambda>p. 0)\<rparr>"

definition SB_I_macros :: "(uint8 \<Rightarrow> uint8) \<Rightarrow> like_macros" where
  "SB_I_macros lower = \<lparr>GETCHAR = lower, CHAREQ = (\<lambda>p1 p2. lower (hd p1) = lower (hd p2)), more_bytes = (\<lambda>p. 0)\<rparr>"

text \<open>\<^verbatim>\<open>pg_mblen\<close> is at least one.\<close>

definition MB_macros :: "(uint8 list \<Rightarrow> nat) \<Rightarrow> like_macros" where
  "MB_macros pg_mblen = \<lparr>GETCHAR = (\<lambda>t. t), CHAREQ = wchareq pg_mblen, more_bytes = (\<lambda>p. pg_mblen p - 1)\<rparr>"

definition utf8_mblen :: "uint8 list \<Rightarrow> nat" where
  "utf8_mblen p = pg_utf_mblen (hd p)"

definition UTF8_macros :: like_macros where
  "UTF8_macros = \<lparr>GETCHAR = (\<lambda>t. t), CHAREQ = wchareq utf8_mblen, more_bytes = (\<lambda>p. length (takeWhile (\<lambda>b. b AND 0xC0 = 0x80) (tl p)))\<rparr>"

section \<open>Matching\<close>

abbreviation PERCENT :: uint8 where "PERCENT \<equiv> 37"
abbreviation UNDERSCORE :: uint8 where "UNDERSCORE \<equiv> 95"
abbreviation BACKSLASH :: uint8 where "BACKSLASH \<equiv> 92"

text \<open>The wildcards after a percent sign; \<open>None\<close> when the text is too short.\<close>

fun skip_wildcards :: "like_macros \<Rightarrow> uint8 list \<Rightarrow> uint8 list \<Rightarrow> (uint8 list \<times> uint8 list) option" where
  "skip_wildcards K t [] = Some (t, [])"
| "skip_wildcards K t (b # p) =
     (if b = PERCENT then skip_wildcards K t p
      else if b = UNDERSCORE then if t = [] then None else skip_wildcards K (NextChar K t) p
      else Some (t, b # p))"

text \<open>The search for a place in the text.\<close>

function scan_text :: "like_macros \<Rightarrow> uint8 \<Rightarrow> (uint8 list \<Rightarrow> like_result result) \<Rightarrow> uint8 list \<Rightarrow> like_result result" where
  "scan_text K firstpat recurse t =
     (if t = [] then Inr LIKE_ABORT
      else if GETCHAR K (hd t) = firstpat
      then rbind (recurse t) (\<lambda>matched. if matched \<noteq> LIKE_FALSE then Inr matched else scan_text K firstpat recurse (NextChar K t))
      else scan_text K firstpat recurse (NextChar K t))"
  by pat_completeness auto
termination
  by (relation "measure (\<lambda>(K, f, r, t). length t)") (auto simp: NextChar_def)

declare scan_text.simps [simp del]

function match_loop :: "like_macros \<Rightarrow> (uint8 list \<Rightarrow> uint8 list \<Rightarrow> like_result result) \<Rightarrow> uint8 list \<Rightarrow> uint8 list \<Rightarrow> like_result result" where
  "match_loop K recurse t p =
     (if t \<noteq> [] \<and> p \<noteq> []
      then if hd p = BACKSLASH
           then let p = NextByte p
                in if p = [] then Inl (Ereport ERROR ERRCODE_INVALID_ESCAPE_SEQUENCE)
                   else if GETCHAR K (hd p) \<noteq> GETCHAR K (hd t) then Inr LIKE_FALSE
                   else match_loop K recurse (NextChar K t) (NextChar K p)
           else if hd p = PERCENT
           then case skip_wildcards K t (NextByte p) of
                  None \<Rightarrow> Inr LIKE_ABORT
                | Some (t, p) \<Rightarrow>
                    if p = [] then Inr LIKE_TRUE
                    else if hd p = BACKSLASH \<and> length p < 2 then Inl (Ereport ERROR ERRCODE_INVALID_ESCAPE_SEQUENCE)
                    else scan_text K (GETCHAR K (if hd p = BACKSLASH then p ! 1 else hd p)) (\<lambda>t. recurse t p) t
           else if hd p = UNDERSCORE then match_loop K recurse (NextChar K t) (NextByte p)
           else if \<not> CHAREQ K p t then Inr LIKE_FALSE
           else match_loop K recurse (NextChar K t) (NextChar K p)
      else if t \<noteq> [] then Inr LIKE_FALSE
      else if dropWhile (\<lambda>b. b = PERCENT) p = [] then Inr LIKE_TRUE
      else Inr LIKE_ABORT)"
  by pat_completeness auto
termination
  by (relation "measure (\<lambda>(K, r, t, p). length t)") (auto simp: NextChar_def)

declare match_loop.simps [simp del]

text \<open>\<open>stack\<close> is the number of levels for which \<^verbatim>\<open>check_stack_depth\<close> finds room.\<close>

primrec MatchText :: "nat \<Rightarrow> like_macros \<Rightarrow> uint8 list \<Rightarrow> uint8 list \<Rightarrow> like_result result" where
  "MatchText 0 K t p = (if p = [PERCENT] then Inr LIKE_TRUE else Inl (Ereport ERROR ERRCODE_STATEMENT_TOO_COMPLEX))"
| "MatchText (Suc stack) K t p = (if p = [PERCENT] then Inr LIKE_TRUE else match_loop K (MatchText stack K) t p)"

section \<open>Escapes\<close>

function double_backslashes :: "like_macros \<Rightarrow> uint8 list \<Rightarrow> uint8 list" where
  "double_backslashes K p =
     (if p = [] then []
      else (if hd p = BACKSLASH then [BACKSLASH] else []) @ take (Suc (more_bytes K p)) p @ double_backslashes K (NextChar K p))"
  by pat_completeness auto
termination
  by (relation "measure (\<lambda>(K, p). length p)") (auto simp: NextChar_def)

declare double_backslashes.simps [simp del]

function convert_escapes :: "like_macros \<Rightarrow> uint8 list \<Rightarrow> bool \<Rightarrow> uint8 list \<Rightarrow> uint8 list" where
  "convert_escapes K e afterescape p =
     (if p = [] then []
      else if CHAREQ K p e \<and> \<not> afterescape then BACKSLASH # convert_escapes K e True (NextChar K p)
      else if hd p = BACKSLASH then (if afterescape then [BACKSLASH] else [BACKSLASH, BACKSLASH]) @ convert_escapes K e False (NextChar K p)
      else take (Suc (more_bytes K p)) p @ convert_escapes K e False (NextChar K p))"
  by pat_completeness auto
termination
  by (relation "measure (\<lambda>(K, e, a, p). length p)") (auto simp: NextChar_def)

declare convert_escapes.simps [simp del]

definition do_like_escape :: "like_macros \<Rightarrow> uint8 list \<Rightarrow> uint8 list \<Rightarrow> uint8 list result" where
  "do_like_escape K pat esc =
     (if esc = [] then Inr (double_backslashes K pat)
      else if NextChar K esc \<noteq> [] then Inl (Ereport ERROR ERRCODE_INVALID_ESCAPE_SEQUENCE)
      else if hd esc = BACKSLASH then Inr pat
      else Inr (convert_escapes K esc False pat))"

section \<open>The operators\<close>

datatype db_encoding = Single_Byte | PG_UTF8 | Multi_Byte "uint8 list \<Rightarrow> nat"

definition pg_mblen :: "db_encoding \<Rightarrow> uint8 list \<Rightarrow> nat" where
  "pg_mblen enc p = (case enc of Single_Byte \<Rightarrow> 1 | PG_UTF8 \<Rightarrow> utf8_mblen p | Multi_Byte mblen \<Rightarrow> mblen p)"

definition GenericMatchText :: "nat \<Rightarrow> db_encoding \<Rightarrow> uint8 list \<Rightarrow> uint8 list \<Rightarrow> like_result result" where
  "GenericMatchText stack enc s p =
     (case enc of
        Single_Byte \<Rightarrow> MatchText stack SB_macros s p
      | PG_UTF8 \<Rightarrow> MatchText stack UTF8_macros s p
      | Multi_Byte mblen \<Rightarrow> MatchText stack (MB_macros (pg_mblen enc)) s p)"

text \<open>
  A collation: the matcher for it when it is one of the built-in ones of B format, whether its character type is that of C, and its locale object unless it is
  the default collation; \<open>None\<close> for an invalid collation.
\<close>

record collation =
  builtin_matcher :: "(uint8 list \<Rightarrow> uint8 list \<Rightarrow> like_result result) option"
  lc_ctype_is_c :: bool
  default_collation :: bool
  locale_of :: "(uint8 \<Rightarrow> uint8) option"

definition generic_match_text_with_collation :: "nat \<Rightarrow> db_encoding \<Rightarrow> collation option \<Rightarrow> uint8 list \<Rightarrow> uint8 list \<Rightarrow> like_result result" where
  "generic_match_text_with_collation stack enc coll s p =
     (case Option.bind coll builtin_matcher of Some f \<Rightarrow> f s p | None \<Rightarrow> GenericMatchText stack enc s p)"

definition Generic_Text_IC_like ::
  "nat \<Rightarrow> db_encoding \<Rightarrow> (uint8 list \<Rightarrow> uint8 list) \<Rightarrow> (uint8 \<Rightarrow> bool) \<Rightarrow> (uint8 \<Rightarrow> uint8) \<Rightarrow> collation option \<Rightarrow> uint8 list \<Rightarrow> uint8 list \<Rightarrow> like_result result" where
  "Generic_Text_IC_like stack enc lower isupper tolower coll str pat =
     (case enc of
        Single_Byte \<Rightarrow>
          (case coll of
             None \<Rightarrow> Inl (Ereport ERROR ERRCODE_INDETERMINATE_COLLATION)
           | Some c \<Rightarrow>
               let locale_is_c = (lc_ctype_is_c c \<or> builtin_matcher c \<noteq> None);
                   locale = (if locale_is_c \<or> default_collation c then None else locale_of c)
               in MatchText stack (SB_I_macros (SB_lower_char isupper tolower locale locale_is_c)) str pat)
      | _ \<Rightarrow> generic_match_text_with_collation stack enc coll (lower str) (lower pat))"

definition textlike :: "nat \<Rightarrow> db_encoding \<Rightarrow> collation option \<Rightarrow> uint8 list \<Rightarrow> uint8 list \<Rightarrow> bool result" where
  "textlike stack enc coll str pat = rbind (generic_match_text_with_collation stack enc coll str pat) (\<lambda>r. Inr (r = LIKE_TRUE))"

definition textnlike :: "nat \<Rightarrow> db_encoding \<Rightarrow> collation option \<Rightarrow> uint8 list \<Rightarrow> uint8 list \<Rightarrow> bool result" where
  "textnlike stack enc coll str pat = rbind (generic_match_text_with_collation stack enc coll str pat) (\<lambda>r. Inr (r \<noteq> LIKE_TRUE))"

text \<open>The operators of type bytea match like those of type name, by the encoding of the database; those of type raw match bytes.\<close>

definition namelike :: "nat \<Rightarrow> db_encoding \<Rightarrow> uint8 list \<Rightarrow> uint8 list \<Rightarrow> bool result" where
  "namelike stack enc str pat = rbind (GenericMatchText stack enc str pat) (\<lambda>r. Inr (r = LIKE_TRUE))"

definition namenlike :: "nat \<Rightarrow> db_encoding \<Rightarrow> uint8 list \<Rightarrow> uint8 list \<Rightarrow> bool result" where
  "namenlike stack enc str pat = rbind (GenericMatchText stack enc str pat) (\<lambda>r. Inr (r \<noteq> LIKE_TRUE))"

definition bytealike :: "nat \<Rightarrow> db_encoding \<Rightarrow> uint8 list \<Rightarrow> uint8 list \<Rightarrow> bool result" where
  "bytealike stack enc str pat = rbind (GenericMatchText stack enc str pat) (\<lambda>r. Inr (r = LIKE_TRUE))"

definition byteanlike :: "nat \<Rightarrow> db_encoding \<Rightarrow> uint8 list \<Rightarrow> uint8 list \<Rightarrow> bool result" where
  "byteanlike stack enc str pat = rbind (GenericMatchText stack enc str pat) (\<lambda>r. Inr (r \<noteq> LIKE_TRUE))"

definition rawlike :: "nat \<Rightarrow> uint8 list \<Rightarrow> uint8 list \<Rightarrow> bool result" where
  "rawlike stack str pat = rbind (MatchText stack SB_macros str pat) (\<lambda>r. Inr (r = LIKE_TRUE))"

definition rawnlike :: "nat \<Rightarrow> uint8 list \<Rightarrow> uint8 list \<Rightarrow> bool result" where
  "rawnlike stack str pat = rbind (MatchText stack SB_macros str pat) (\<lambda>r. Inr (r \<noteq> LIKE_TRUE))"

definition texticlike ::
  "nat \<Rightarrow> db_encoding \<Rightarrow> (uint8 list \<Rightarrow> uint8 list) \<Rightarrow> (uint8 \<Rightarrow> bool) \<Rightarrow> (uint8 \<Rightarrow> uint8) \<Rightarrow> collation option \<Rightarrow> uint8 list \<Rightarrow> uint8 list \<Rightarrow> bool result" where
  "texticlike stack enc lower isupper tolower coll str pat = rbind (Generic_Text_IC_like stack enc lower isupper tolower coll str pat) (\<lambda>r. Inr (r = LIKE_TRUE))"

definition texticnlike ::
  "nat \<Rightarrow> db_encoding \<Rightarrow> (uint8 list \<Rightarrow> uint8 list) \<Rightarrow> (uint8 \<Rightarrow> bool) \<Rightarrow> (uint8 \<Rightarrow> uint8) \<Rightarrow> collation option \<Rightarrow> uint8 list \<Rightarrow> uint8 list \<Rightarrow> bool result" where
  "texticnlike stack enc lower isupper tolower coll str pat = rbind (Generic_Text_IC_like stack enc lower isupper tolower coll str pat) (\<lambda>r. Inr (r \<noteq> LIKE_TRUE))"

definition like_escape :: "db_encoding \<Rightarrow> uint8 list \<Rightarrow> uint8 list \<Rightarrow> uint8 list result" where
  "like_escape enc pat esc = do_like_escape (case enc of Single_Byte \<Rightarrow> SB_macros | _ \<Rightarrow> MB_macros (pg_mblen enc)) pat esc"

definition like_escape_bytea :: "uint8 list \<Rightarrow> uint8 list \<Rightarrow> uint8 list result" where
  "like_escape_bytea pat esc = do_like_escape SB_macros pat esc"

section \<open>What a pattern means\<close>

text \<open>
  A text and a pattern are sequences of characters, each the list of its bytes. A literal that follows an escape is marked.
\<close>

datatype like_item = Any | One | Lit bool "uint8 list"

fun like_parse :: "uint8 list list \<Rightarrow> like_item list option" where
  "like_parse [] = Some []"
| "like_parse (c # cs) =
     (if c = [BACKSLASH] then (case cs of [] \<Rightarrow> None | d # ds \<Rightarrow> map_option (Cons (Lit True d)) (like_parse ds))
      else map_option (Cons (if c = [PERCENT] then Any else if c = [UNDERSCORE] then One else Lit False c)) (like_parse cs))"

fun like_match :: "(bool \<Rightarrow> uint8 list \<Rightarrow> uint8 list \<Rightarrow> bool) \<Rightarrow> like_item list \<Rightarrow> uint8 list list \<Rightarrow> bool" where
  "like_match eq [] ts \<longleftrightarrow> ts = []"
| "like_match eq (Any # is) ts \<longleftrightarrow> (\<exists>k \<in> set [0..<Suc (length ts)]. like_match eq is (drop k ts))"
| "like_match eq (One # is) ts \<longleftrightarrow> (case ts of [] \<Rightarrow> False | t # ts \<Rightarrow> like_match eq is ts)"
| "like_match eq (Lit b c # is) ts \<longleftrightarrow> (case ts of [] \<Rightarrow> False | t # ts \<Rightarrow> eq b c t \<and> like_match eq is ts)"

lemma like_match_Any: "like_match eq (Any # is) ts \<longleftrightarrow> (\<exists>k. like_match eq is (drop k ts))"
proof
  assume "\<exists>k. like_match eq is (drop k ts)"
  then obtain k where k: "like_match eq is (drop k ts)" by blast
  have "drop k ts = drop (min k (length ts)) ts" by (cases "k \<le> length ts") (simp_all add: min_def)
  then show "like_match eq (Any # is) ts" using k by (simp only: like_match.simps) (rule bexI [of _ "min k (length ts)"], auto)
qed (simp only: like_match.simps, blast)

declare like_match.simps(2) [simp del]

text \<open>A match at some place of the text.\<close>

definition anywhere :: "(bool \<Rightarrow> uint8 list \<Rightarrow> uint8 list \<Rightarrow> bool) \<Rightarrow> like_item list \<Rightarrow> uint8 list list \<Rightarrow> bool" where
  "anywhere eq is ts \<longleftrightarrow> (\<exists>k. like_match eq is (drop k ts))"

lemma anywhere_here: "like_match eq is ts \<Longrightarrow> anywhere eq is ts"
  unfolding anywhere_def by (rule exI [of _ 0]) simp

lemma anywhere_drop: "anywhere eq is (drop k ts) \<Longrightarrow> anywhere eq is ts"
  unfolding anywhere_def by auto

lemma anywhere_Cons: "anywhere eq is (t # ts) \<longleftrightarrow> like_match eq is (t # ts) \<or> anywhere eq is ts"
proof
  assume "anywhere eq is (t # ts)"
  then obtain k where "like_match eq is (drop k (t # ts))" by (auto simp: anywhere_def)
  then show "like_match eq is (t # ts) \<or> anywhere eq is ts" by (cases k) (auto simp: anywhere_def)
next
  assume "like_match eq is (t # ts) \<or> anywhere eq is ts"
  then show "anywhere eq is (t # ts)" using anywhere_here anywhere_drop [of eq "is" 1 "t # ts"] by auto
qed

lemma anywhere_Nil: "anywhere eq is [] \<longleftrightarrow> like_match eq is []"
  by (simp add: anywhere_def)

lemma anywhere_Any: "anywhere eq (Any # is) ts \<longleftrightarrow> anywhere eq is ts"
proof
  assume "anywhere eq (Any # is) ts"
  then obtain k where "like_match eq (Any # is) (drop k ts)" by (auto simp: anywhere_def)
  then show "anywhere eq is ts" by (auto simp: like_match_Any anywhere_def)
next
  assume "anywhere eq is ts"
  then have "like_match eq (Any # is) ts" by (simp add: like_match_Any anywhere_def)
  then show "anywhere eq (Any # is) ts" by (rule anywhere_here)
qed

lemma anywhere_One: "anywhere eq (One # is) ts \<longleftrightarrow> (case ts of [] \<Rightarrow> False | t # ts \<Rightarrow> anywhere eq is ts)"
proof (induction ts)
  case Nil
  show ?case by (simp add: anywhere_Nil)
next
  case (Cons t ts)
  then show ?case by (cases ts) (auto simp: anywhere_Cons [of eq "One # is"] anywhere_Cons [of eq "is"] anywhere_Nil [of eq "is"] anywhere_Nil [of eq "One # is"])
qed

lemma anywhere_Lit: "anywhere eq (Lit b c # is) (t # ts) \<Longrightarrow> anywhere eq is ts"
proof (induction ts arbitrary: t)
  case Nil
  then show ?case by (auto simp: anywhere_Cons [of eq "Lit b c # is"] anywhere_Nil intro: anywhere_here)
next
  case (Cons u ts)
  then have "like_match eq (Lit b c # is) (t # u # ts) \<or> anywhere eq (Lit b c # is) (u # ts)" by (simp add: anywhere_Cons)
  then show ?case using Cons.IH [of u] anywhere_here anywhere_drop [of eq "is" 1 "u # ts"] by auto
qed

text \<open>What the matcher may return: its answer is right, and when it aborts there is no match at any later place either.\<close>

definition answer_ok :: "(bool \<Rightarrow> uint8 list \<Rightarrow> uint8 list \<Rightarrow> bool) \<Rightarrow> uint8 list list \<Rightarrow> uint8 list list \<Rightarrow> like_result result \<Rightarrow> bool" where
  "answer_ok eq ts ps r \<longleftrightarrow>
     (case like_parse ps of
        None \<Rightarrow> r = Inl (Ereport ERROR ERRCODE_INVALID_ESCAPE_SEQUENCE) \<or> r = Inr LIKE_FALSE \<or> r = Inr LIKE_ABORT
      | Some is \<Rightarrow> r = Inr LIKE_TRUE \<and> like_match eq is ts \<or> r = Inr LIKE_FALSE \<and> \<not> like_match eq is ts \<or> r = Inr LIKE_ABORT \<and> \<not> anywhere eq is ts)"

definition percents :: "uint8 list list \<Rightarrow> nat" where
  "percents ps = length (filter (\<lambda>c. c = [PERCENT]) ps)"

lemma scan_text_step:
  "t \<noteq> [] \<Longrightarrow> NextChar K t = u \<Longrightarrow> hd t = h \<Longrightarrow>
   scan_text K fp f t = (if GETCHAR K h = fp then rbind (f t) (\<lambda>m. if m \<noteq> LIKE_FALSE then Inr m else scan_text K fp f u) else scan_text K fp f u)"
  by (subst scan_text.simps) auto

lemma match_loop_steps:
  "t \<noteq> [] \<Longrightarrow> match_loop K r t (BACKSLASH # p) =
     (if p = [] then Inl (Ereport ERROR ERRCODE_INVALID_ESCAPE_SEQUENCE)
      else if GETCHAR K (hd p) \<noteq> GETCHAR K (hd t) then Inr LIKE_FALSE else match_loop K r (NextChar K t) (NextChar K p))"
  "t \<noteq> [] \<Longrightarrow> match_loop K r t (PERCENT # p) =
     (case skip_wildcards K t p of
        None \<Rightarrow> Inr LIKE_ABORT
      | Some (t, p) \<Rightarrow>
          if p = [] then Inr LIKE_TRUE
          else if hd p = BACKSLASH \<and> length p < 2 then Inl (Ereport ERROR ERRCODE_INVALID_ESCAPE_SEQUENCE)
          else scan_text K (GETCHAR K (if hd p = BACKSLASH then p ! 1 else hd p)) (\<lambda>t. r t p) t)"
  "t \<noteq> [] \<Longrightarrow> match_loop K r t (UNDERSCORE # p) = match_loop K r (NextChar K t) p"
  "t \<noteq> [] \<Longrightarrow> p \<noteq> [] \<Longrightarrow> hd p \<notin> {BACKSLASH, PERCENT, UNDERSCORE} \<Longrightarrow>
     match_loop K r t p = (if CHAREQ K p t then match_loop K r (NextChar K t) (NextChar K p) else Inr LIKE_FALSE)"
  by (subst match_loop.simps; simp add: NextByte_def Let_def)+

text \<open>An item that takes one character.\<close>

lemma answer_ok_one:
  assumes "answer_ok eq ts qs r" "like_parse ps = map_option (Cons i) (like_parse qs)" "i = One \<or> (\<exists>b c. i = Lit b c \<and> eq b c t)"
  shows "answer_ok eq (t # ts) ps r"
proof -
  have m: "like_match eq (i # is) (t # ts) \<longleftrightarrow> like_match eq is ts" for "is" using assms(3) by auto
  have a: "anywhere eq (i # is) (t # ts) \<Longrightarrow> anywhere eq is ts" for "is" using assms(3) anywhere_One [of eq "is" "t # ts"] anywhere_Lit by auto
  show ?thesis using assms(1,2) m a by (auto simp: answer_ok_def split: option.splits)
qed

section \<open>Encodings\<close>

text \<open>
  What the matcher needs of an encoding: the macros find the ends of characters, the special characters are single bytes, and characters are compared as
  wholes.
\<close>

locale like_encoding =
  fixes K :: like_macros and legal :: "uint8 list \<Rightarrow> bool" and same :: "uint8 list \<Rightarrow> uint8 list \<Rightarrow> bool"
  assumes nonempty: "legal c \<Longrightarrow> c \<noteq> []"
    and next_char: "legal c \<Longrightarrow> list_all legal cs \<Longrightarrow> Suc (more_bytes K (c @ concat cs)) = length c"
    and special: "legal c \<Longrightarrow> hd c \<in> {PERCENT, UNDERSCORE, BACKSLASH} \<Longrightarrow> c = [hd c]"
    and chareq: "legal c \<Longrightarrow> legal d \<Longrightarrow> list_all legal cs \<Longrightarrow> list_all legal ds \<Longrightarrow> CHAREQ K (c @ concat cs) (d @ concat ds) \<longleftrightarrow> same c d"
    and first: "legal c \<Longrightarrow> legal d \<Longrightarrow> same c d \<Longrightarrow> GETCHAR K (hd c) = GETCHAR K (hd d)"
    and single: "legal c \<Longrightarrow> legal d \<Longrightarrow> length c = 1 \<Longrightarrow> GETCHAR K (hd c) = GETCHAR K (hd d) \<Longrightarrow> same c d"
begin

definition code_same :: "bool \<Rightarrow> uint8 list \<Rightarrow> uint8 list \<Rightarrow> bool" where
  "code_same escaped c d \<longleftrightarrow> (if escaped then GETCHAR K (hd c) = GETCHAR K (hd d) else same c d)"

lemma concat_Nil: "list_all legal cs \<Longrightarrow> concat cs = [] \<longleftrightarrow> cs = []"
  using nonempty by (cases cs) auto

lemma NextChar_concat: "legal c \<Longrightarrow> list_all legal cs \<Longrightarrow> NextChar K (c @ concat cs) = concat cs"
  by (simp add: NextChar_def next_char)

lemma hd_concat: "legal c \<Longrightarrow> hd (c @ concat cs) = hd c"
  using nonempty by simp

lemma special_cases:
  assumes "legal c"
  obtains "c = [BACKSLASH]" | "c = [PERCENT]" | "c = [UNDERSCORE]" | "hd c \<notin> {BACKSLASH, PERCENT, UNDERSCORE}"
  using special [OF assms] by (metis insert_iff singletonD)

text \<open>The wildcards after a percent sign.\<close>

definition place :: "(bool \<Rightarrow> uint8 list \<Rightarrow> uint8 list \<Rightarrow> bool) \<Rightarrow> uint8 list list \<Rightarrow> uint8 list list \<Rightarrow> bool option" where
  "place eq ts ps = map_option (\<lambda>is. anywhere eq is ts) (like_parse ps)"

lemma place_simps:
  "place eq ts ([PERCENT] # ps) = place eq ts ps"
  "place eq (t # ts) ([UNDERSCORE] # ps) = place eq ts ps"
  "place eq [] ([UNDERSCORE] # ps) \<noteq> Some True"
  by (auto simp: place_def anywhere_Any anywhere_One option.map_comp comp_def)

lemma skip_wildcards_ok:
  assumes "list_all legal ts" "list_all legal ps"
  obtains (none) "skip_wildcards K (concat ts) (concat ps) = None" "place eq ts ps \<noteq> Some True"
    | (some) us qs where "skip_wildcards K (concat ts) (concat ps) = Some (concat us, concat qs)" "list_all legal us" "list_all legal qs" "percents qs \<le> percents ps"
        "qs = [] \<or> hd (hd qs) \<notin> {PERCENT, UNDERSCORE}" "place eq ts ps = place eq us qs"
  using assms
proof (induction ps arbitrary: ts thesis)
  case Nil
  show ?case by (rule Nil.prems(2) [of ts "[]"]) (use Nil.prems in simp_all)
next
  case (Cons p ps)
  have p: "legal p" "list_all legal ps" using Cons.prems by simp_all
  show ?case
  proof (cases rule: special_cases [OF p(1)])
    case 2
    show ?thesis
    proof (rule Cons.IH [OF _ _ Cons.prems(3) p(2)], goal_cases)
      case 1
      then show ?case using Cons.prems(1) 2 by (simp add: place_simps)
    next
      case (2 us qs)
      then show ?case using Cons.prems(2) [of us qs] \<open>p = [PERCENT]\<close> by (simp add: place_simps percents_def)
    qed
  next
    case 3
    show ?thesis
    proof (cases ts)
      case Nil
      then show ?thesis using 3 Cons.prems(1) place_simps(3) [of eq ps] by simp
    next
      case (Cons t us)
      have t: "legal t" "list_all legal us" using Cons.prems(3) Cons by simp_all
      have s: "skip_wildcards K (concat ts) (concat (p # ps)) = skip_wildcards K (concat us) (concat ps)"
        using 3 Cons nonempty [OF t(1)] NextChar_concat [OF t] by simp
      have pl: "place eq ts (p # ps) = place eq us ps" using 3 Cons by (simp add: place_simps)
      show ?thesis
      proof (rule Cons.IH [OF _ _ t(2) p(2)], goal_cases)
        case 1
        then show ?case using Cons.prems(1) s pl by simp
      next
        case (2 vs qs)
        then show ?case using Cons.prems(2) [of vs qs] s pl by (simp add: percents_def)
      qed
    qed
  next
    case 1
    show ?thesis by (rule Cons.prems(2) [of ts "p # ps"]) (use 1 Cons.prems in simp_all)
  next
    case 4
    show ?thesis by (rule Cons.prems(2) [of ts "p # ps"]) (use 4 Cons.prems nonempty [OF p(1)] in \<open>cases p; simp\<close>)+
  qed
qed

text \<open>The search for a place: a place is tried only when its first byte fits.\<close>

lemma scan_text_ok:
  assumes "list_all legal ts"
    and rec: "\<And>us. list_all legal us \<Longrightarrow> answer_ok eq us qs (f (concat us))"
    and fp: "\<And>js t us. like_parse qs = Some js \<Longrightarrow> legal t \<Longrightarrow> like_match eq js (t # us) \<Longrightarrow> GETCHAR K (hd t) = firstpat"
    and end_: "\<And>js. like_parse qs = Some js \<Longrightarrow> \<not> like_match eq js []"
  shows "scan_text K firstpat f (concat ts) = Inl (Ereport ERROR ERRCODE_INVALID_ESCAPE_SEQUENCE) \<and> place eq ts qs = None \<or>
    scan_text K firstpat f (concat ts) = Inr LIKE_TRUE \<and> place eq ts qs = Some True \<or>
    scan_text K firstpat f (concat ts) = Inr LIKE_ABORT \<and> place eq ts qs \<noteq> Some True"
  using assms(1)
proof (induction ts)
  case Nil
  show ?case using end_ by (auto simp: scan_text.simps place_def anywhere_Nil)
next
  case (Cons t ts)
  have t: "legal t" "list_all legal ts" using Cons.prems by simp_all
  let ?r = "scan_text K firstpat f (concat ts)"
  have ne: "concat (t # ts) \<noteq> []" "hd (concat (t # ts)) = hd t" "NextChar K (concat (t # ts)) = concat ts"
    using nonempty [OF t(1)] NextChar_concat [OF t] by simp_all
  have step: "scan_text K firstpat f (concat (t # ts)) =
      (if GETCHAR K (hd t) = firstpat then rbind (f (concat (t # ts))) (\<lambda>m. if m \<noteq> LIKE_FALSE then Inr m else ?r) else ?r)"
    by (rule scan_text_step [OF ne(1,3,2)])
  have later: "place eq (t # ts) qs = place eq ts qs" if "\<And>js. like_parse qs = Some js \<Longrightarrow> \<not> like_match eq js (t # ts)"
    using that by (cases "like_parse qs") (auto simp: place_def anywhere_Cons)
  show ?case
  proof (cases "GETCHAR K (hd t) = firstpat")
    case False
    then have "place eq (t # ts) qs = place eq ts qs" using later fp t(1) by blast
    then show ?thesis using Cons.IH [OF t(2)] step False by simp
  next
    case True
    from rec [OF Cons.prems] consider (err) "like_parse qs = None" "f (concat (t # ts)) = Inl (Ereport ERROR ERRCODE_INVALID_ESCAPE_SEQUENCE)"
      | (abort) "place eq (t # ts) qs \<noteq> Some True" "f (concat (t # ts)) = Inr LIKE_ABORT"
      | (yes) "place eq (t # ts) qs = Some True" "f (concat (t # ts)) = Inr LIKE_TRUE"
      | (no) "\<And>js. like_parse qs = Some js \<Longrightarrow> \<not> like_match eq js (t # ts)" "f (concat (t # ts)) = Inr LIKE_FALSE"
      unfolding answer_ok_def place_def by (fastforce split: option.splits dest: anywhere_here)
    then show ?thesis
    proof cases
      case err
      then show ?thesis using step True by (simp add: place_def)
    next
      case abort
      then show ?thesis using step True by simp
    next
      case yes
      then show ?thesis using step True by simp
    next
      case no
      then show ?thesis using Cons.IH [OF t(2)] later step True by simp
    qed
  qed
qed

lemma literal_start:
  assumes "list_all legal qs" "qs \<noteq> []" "hd (hd qs) \<notin> {PERCENT, UNDERSCORE}" "like_parse qs = Some js"
  obtains b c js' where "js = Lit b c # js'" "legal c" "hd c = (if hd (concat qs) = BACKSLASH then concat qs ! 1 else hd (concat qs))"
proof -
  obtain q rs where q: "qs = q # rs" "legal q" "list_all legal rs" using assms(1,2) by (cases qs) auto
  show thesis
  proof (cases rule: special_cases [OF q(2)])
    case 1
    then obtain c cs where c: "rs = c # cs" using assms(4) q(1) by (cases rs) auto
    then have "legal c" using q(3) by simp
    moreover have "concat qs ! 1 = hd c" using 1 q(1) c nonempty [OF \<open>legal c\<close>] by (cases c) simp_all
    ultimately show ?thesis using that assms(4) 1 q(1) c by auto
  next
    case 4
    moreover have "hd (concat qs) = hd q" using q nonempty by simp
    ultimately show ?thesis using that assms(4) q nonempty [OF q(2)] by (cases q) auto
  qed (use assms(3) q(1) in simp_all)
qed

lemma percent_ok:
  assumes "list_all legal ts" "list_all legal ps"
    and rec: "\<And>us qs. list_all legal us \<Longrightarrow> list_all legal qs \<Longrightarrow> percents qs \<le> percents ps \<Longrightarrow> answer_ok code_same us qs (recurse (concat us) (concat qs))"
  defines "r \<equiv> (case skip_wildcards K (concat ts) (concat ps) of
                  None \<Rightarrow> Inr LIKE_ABORT
                | Some (t, p) \<Rightarrow>
                    if p = [] then Inr LIKE_TRUE
                    else if hd p = BACKSLASH \<and> length p < 2 then Inl (Ereport ERROR ERRCODE_INVALID_ESCAPE_SEQUENCE)
                    else scan_text K (GETCHAR K (if hd p = BACKSLASH then p ! 1 else hd p)) (\<lambda>t. recurse t p) t)"
  shows "r = Inl (Ereport ERROR ERRCODE_INVALID_ESCAPE_SEQUENCE) \<and> place code_same ts ps = None \<or> r = Inr LIKE_TRUE \<and> place code_same ts ps = Some True \<or>
    r = Inr LIKE_ABORT \<and> place code_same ts ps \<noteq> Some True"
proof (cases rule: skip_wildcards_ok [OF assms(1,2), of code_same, case_names none some])
  case none
  then show ?thesis by (simp add: r_def)
next
  case (some us qs)
  show ?thesis
  proof (cases "qs = []")
    case True
    have "anywhere code_same [] us" unfolding anywhere_def by (rule exI [of _ "length us"]) simp
    then show ?thesis using some True by (simp add: r_def place_def)
  next
    case False
    then have q: "hd (hd qs) \<notin> {PERCENT, UNDERSCORE}" "concat qs \<noteq> []" using some(3,5) concat_Nil by auto
    let ?short = "hd (concat qs) = BACKSLASH \<and> length (concat qs) < 2"
    let ?fp = "GETCHAR K (if hd (concat qs) = BACKSLASH then concat qs ! 1 else hd (concat qs))"
    have r: "r = (if ?short then Inl (Ereport ERROR ERRCODE_INVALID_ESCAPE_SEQUENCE) else scan_text K ?fp (\<lambda>t. recurse t (concat qs)) (concat us))"
      using q(2) unfolding r_def some(1) option.case prod.case by (simp only: if_False)
    show ?thesis
    proof (cases ?short)
      case True
      obtain q0 rs where q0: "qs = q0 # rs" "legal q0" "list_all legal rs" using some(3) False by (cases qs) auto
      have "q0 = [BACKSLASH]" using True q0 special [OF q0(2)] hd_concat [OF q0(2), of rs] by auto
      moreover have "rs = []" using True q0 calculation concat_Nil [OF q0(3)] by auto
      ultimately show ?thesis using r True some(6) q0 by (simp add: place_def)
    next
      case False
      have lit: "\<exists>b c js'. js = Lit b c # js' \<and> legal c \<and> ?fp = GETCHAR K (hd c)" if "like_parse qs = Some js" for js
      proof (rule literal_start [OF some(3) \<open>qs \<noteq> []\<close> q(1) that])
        fix b c js' assume "js = Lit b c # js'" "legal c" "hd c = (if hd (concat qs) = BACKSLASH then concat qs ! 1 else hd (concat qs))"
        then show ?thesis by (intro exI conjI) (assumption, assumption, simp only:)
      qed
      have "scan_text K ?fp (\<lambda>t. recurse t (concat qs)) (concat us) = Inl (Ereport ERROR ERRCODE_INVALID_ESCAPE_SEQUENCE) \<and> place code_same us qs = None \<or>
        scan_text K ?fp (\<lambda>t. recurse t (concat qs)) (concat us) = Inr LIKE_TRUE \<and> place code_same us qs = Some True \<or>
        scan_text K ?fp (\<lambda>t. recurse t (concat qs)) (concat us) = Inr LIKE_ABORT \<and> place code_same us qs \<noteq> Some True"
      proof (rule scan_text_ok [OF some(2)], goal_cases)
        case (1 vs)
        show ?case by (rule rec [OF 1 some(3,4)])
      next
        case (2 js t vs)
        then show ?case using lit [of js] first [of _ t] by (auto simp: code_same_def split: if_splits)
      next
        case (3 js)
        then show ?case using lit [of js] by auto
      qed
      then show ?thesis using r False some(6) by simp
    qed
  qed
qed

lemma only_percents:
  assumes "list_all legal ps"
  shows "dropWhile (\<lambda>b. b = PERCENT) (concat ps) = [] \<longleftrightarrow> (\<forall>p \<in> set ps. p = [PERCENT])"
    "(\<exists>is. like_parse ps = Some is \<and> like_match eq is []) \<longleftrightarrow> (\<forall>p \<in> set ps. p = [PERCENT])"
proof -
  have "dropWhile (\<lambda>b. b = PERCENT) (concat ps) = [] \<longleftrightarrow> (\<forall>p \<in> set ps. set p \<subseteq> {PERCENT})" by (auto simp: dropWhile_eq_Nil_conv)
  also have "\<dots> \<longleftrightarrow> (\<forall>p \<in> set ps. p = [PERCENT])"
  proof (intro ball_cong refl)
    fix p assume "p \<in> set ps"
    then have p: "legal p" using assms by (simp add: list_all_iff)
    have "set p \<subseteq> {PERCENT} \<Longrightarrow> hd p = PERCENT" using nonempty [OF p] by (cases p) auto
    then show "set p \<subseteq> {PERCENT} \<longleftrightarrow> p = [PERCENT]" using special [OF p] by auto
  qed
  finally show "dropWhile (\<lambda>b. b = PERCENT) (concat ps) = [] \<longleftrightarrow> (\<forall>p \<in> set ps. p = [PERCENT])" .
  show "(\<exists>is. like_parse ps = Some is \<and> like_match eq is []) \<longleftrightarrow> (\<forall>p \<in> set ps. p = [PERCENT])"
  proof (induction ps)
    case (Cons p ps)
    have "(\<exists>is. like_parse (p # ps) = Some is \<and> like_match eq is []) \<longleftrightarrow> p = [PERCENT] \<and> (\<exists>is. like_parse ps = Some is \<and> like_match eq is [])"
      by (cases "p = [PERCENT]"; cases "like_parse ps") (auto simp: like_match_Any split: list.splits option.splits)
    then show ?case using Cons.IH by (simp only: list.set ball_simps)
  qed simp
qed

text \<open>One turn of the loop, for each kind of pattern character.\<close>

lemma chars_front: "legal t \<Longrightarrow> list_all legal ts \<Longrightarrow> concat (t # ts) \<noteq> [] \<and> hd (concat (t # ts)) = hd t \<and> NextChar K (concat (t # ts)) = concat ts"
  using nonempty NextChar_concat by simp

lemma loop_escape:
  assumes t: "legal t" "list_all legal ts" and qs: "list_all legal qs"
    and IH: "\<And>rs. list_all legal rs \<Longrightarrow> percents rs \<le> percents qs \<Longrightarrow> answer_ok code_same ts rs (match_loop K recurse (concat ts) (concat rs))"
  shows "answer_ok code_same (t # ts) ([BACKSLASH] # qs) (match_loop K recurse (concat (t # ts)) (concat ([BACKSLASH] # qs)))"
proof -
  note ne = chars_front [OF t]
  have r: "match_loop K recurse (concat (t # ts)) (concat ([BACKSLASH] # qs)) = (if concat qs = [] then Inl (Ereport ERROR ERRCODE_INVALID_ESCAPE_SEQUENCE)
      else if GETCHAR K (hd (concat qs)) \<noteq> GETCHAR K (hd t) then Inr LIKE_FALSE else match_loop K recurse (concat ts) (NextChar K (concat qs)))"
    using match_loop_steps(1) [of "concat (t # ts)" K recurse "concat qs"] ne by simp
  show ?thesis
  proof (cases qs)
    case Nil
    then show ?thesis unfolding r by (simp add: answer_ok_def)
  next
    case q: (Cons q rs)
    then have l: "legal q" "list_all legal rs" "percents rs \<le> percents qs" using qs by (simp_all add: percents_def)
    have h: "concat qs \<noteq> []" "hd (concat qs) = hd q" "NextChar K (concat qs) = concat rs" using chars_front [OF l(1,2)] q by simp_all
    have par: "like_parse ([BACKSLASH] # qs) = map_option (Cons (Lit True q)) (like_parse rs)" using q by simp
    show ?thesis
    proof (cases "GETCHAR K (hd q) = GETCHAR K (hd t)")
      case True
      then have "code_same True q t" by (simp add: code_same_def)
      then have "answer_ok code_same (t # ts) ([BACKSLASH] # qs) (match_loop K recurse (concat ts) (concat rs))"
        using answer_ok_one [OF IH [OF l(2,3)] par] by blast
      then show ?thesis unfolding r h using h(1) True by (simp only: if_False not_True_eq_False simp_thms)
    next
      case False
      then show ?thesis unfolding r h using h(1) par by (auto simp: answer_ok_def code_same_def split: option.splits)
    qed
  qed
qed

lemma loop_percent:
  assumes t: "legal t" "list_all legal ts" and qs: "list_all legal qs"
    and rec: "\<And>us rs. list_all legal us \<Longrightarrow> list_all legal rs \<Longrightarrow> percents rs \<le> percents qs \<Longrightarrow> answer_ok code_same us rs (recurse (concat us) (concat rs))"
  shows "answer_ok code_same (t # ts) ([PERCENT] # qs) (match_loop K recurse (concat (t # ts)) (concat ([PERCENT] # qs)))"
proof -
  have tts: "list_all legal (t # ts)" using t by simp
  have eq: "match_loop K recurse (concat (t # ts)) (concat ([PERCENT] # qs)) =
      (case skip_wildcards K (concat (t # ts)) (concat qs) of
         None \<Rightarrow> Inr LIKE_ABORT
       | Some (t, p) \<Rightarrow>
           if p = [] then Inr LIKE_TRUE
           else if hd p = BACKSLASH \<and> length p < 2 then Inl (Ereport ERROR ERRCODE_INVALID_ESCAPE_SEQUENCE)
           else scan_text K (GETCHAR K (if hd p = BACKSLASH then p ! 1 else hd p)) (\<lambda>t. recurse t p) t)"
    using match_loop_steps(2) [of "concat (t # ts)" K recurse "concat qs"] chars_front [OF t] by simp
  have ac: "answer_ok code_same (t # ts) ([PERCENT] # qs) r" if "r = Inl (Ereport ERROR ERRCODE_INVALID_ESCAPE_SEQUENCE) \<and> place code_same (t # ts) qs = None \<or>
      r = Inr LIKE_TRUE \<and> place code_same (t # ts) qs = Some True \<or> r = Inr LIKE_ABORT \<and> place code_same (t # ts) qs \<noteq> Some True" for r
    using that by (auto simp: answer_ok_def place_def anywhere_Any like_match_Any anywhere_def [symmetric] split: option.splits)
  show ?thesis by (rule ac) (use percent_ok [OF tts qs rec] in \<open>simp only: eq\<close>)
qed

lemma loop_plain:
  assumes t: "legal t" "list_all legal ts" and p: "legal p" "list_all legal qs" "hd p \<notin> {BACKSLASH, PERCENT, UNDERSCORE}"
    and IH: "answer_ok code_same ts qs (match_loop K recurse (concat ts) (concat qs))"
  shows "answer_ok code_same (t # ts) (p # qs) (match_loop K recurse (concat (t # ts)) (concat (p # qs)))"
proof -
  have par: "like_parse (p # qs) = map_option (Cons (Lit False p)) (like_parse qs)" using p(3) by auto
  have r: "match_loop K recurse (concat (t # ts)) (concat (p # qs)) = (if same p t then match_loop K recurse (concat ts) (concat qs) else Inr LIKE_FALSE)"
    using match_loop_steps(4) [of "concat (t # ts)" "concat (p # qs)" K recurse] p(3) chars_front [OF p(1,2)] chars_front [OF t]
      chareq [OF p(1) t(1) p(2) t(2)] by simp
  show ?thesis
  proof (cases "same p t")
    case True
    then have "code_same False p t" by (simp add: code_same_def)
    then have "answer_ok code_same (t # ts) (p # qs) (match_loop K recurse (concat ts) (concat qs))" using answer_ok_one [OF IH par] by blast
    then show ?thesis unfolding r using True by simp
  next
    case False
    then show ?thesis unfolding r using par by (auto simp: answer_ok_def code_same_def split: option.splits)
  qed
qed

lemma match_loop_ok:
  assumes "list_all legal ts" "list_all legal ps" "percents ps \<le> n"
    and rec: "\<And>us qs. list_all legal us \<Longrightarrow> list_all legal qs \<Longrightarrow> percents qs < n \<Longrightarrow> answer_ok code_same us qs (recurse (concat us) (concat qs))"
  shows "answer_ok code_same ts ps (match_loop K recurse (concat ts) (concat ps))"
  using assms(1-3)
proof (induction ts arbitrary: ps)
  case Nil
  have r: "match_loop K recurse (concat []) (concat ps) = (if dropWhile (\<lambda>b. b = PERCENT) (concat ps) = [] then Inr LIKE_TRUE else Inr LIKE_ABORT)"
    by (simp add: match_loop.simps)
  have "dropWhile (\<lambda>b. b = PERCENT) (concat ps) = [] \<longleftrightarrow> (\<exists>is. like_parse ps = Some is \<and> like_match code_same is [])"
    using only_percents [OF Nil.prems(2)] by blast
  then show ?case unfolding r answer_ok_def anywhere_Nil by (auto split: option.splits)
next
  case (Cons t ts)
  have t: "legal t" "list_all legal ts" using Cons.prems by simp_all
  show ?case
  proof (cases ps)
    case Nil
    then show ?thesis using chars_front [OF t] by (subst match_loop.simps) (simp add: answer_ok_def)
  next
    case (Cons p qs)
    then have p: "legal p" "list_all legal qs" "percents qs \<le> n" using Cons.prems by (simp_all add: percents_def split: if_splits)
    have IH: "answer_ok code_same ts rs (match_loop K recurse (concat ts) (concat rs))" if "list_all legal rs" "percents rs \<le> percents qs" for rs
      by (rule Cons.IH) (use t that p(3) in simp_all)
    show ?thesis
    proof (cases rule: special_cases [OF p(1)])
      case 1
      then show ?thesis using loop_escape [OF t p(2) IH] Cons by simp
    next
      case 2
      then have "percents qs < n" using Cons.prems(3) Cons by (simp add: percents_def)
      then show ?thesis using loop_percent [OF t p(2)] rec 2 Cons by simp
    next
      case 3
      then have par: "like_parse ps = map_option (Cons One) (like_parse qs)" using Cons by simp
      show ?thesis using answer_ok_one [OF IH [OF p(2)] par] match_loop_steps(3) [of "concat (t # ts)" K recurse "concat qs"] chars_front [OF t] 3 Cons by simp
    next
      case 4
      then show ?thesis using loop_plain [OF t p(1,2) _ IH [OF p(2)]] Cons by simp
    qed
  qed
qed

lemma MatchText_ok:
  assumes "list_all legal ts" "list_all legal ps" "percents ps < stack"
  shows "answer_ok code_same ts ps (MatchText stack K (concat ts) (concat ps))"
  using assms
proof (induction stack arbitrary: ts ps)
  case (Suc stack)
  show ?case
  proof (cases "concat ps = [PERCENT]")
    case True
    then obtain p qs where p: "ps = p # qs" by (cases ps) auto
    then have "p = [PERCENT]" "qs = []" using True nonempty [of p] Suc.prems(2) concat_Nil [of qs] by (auto simp: append_eq_Cons_conv)
    then show ?thesis using True p by (auto simp: answer_ok_def like_match_Any intro: exI [of _ "length ts"])
  next
    case False
    then show ?thesis using match_loop_ok [OF Suc.prems(1,2), of "percents ps" "MatchText stack K"] Suc by simp
  qed
qed simp

lemma MatchText_by_code:
  assumes "list_all legal ts" "list_all legal ps" "percents ps < stack" "like_parse ps = Some is"
  shows "\<exists>r. MatchText stack K (concat ts) (concat ps) = Inr r \<and>
    (r = LIKE_TRUE \<longleftrightarrow> like_match (\<lambda>escaped c d. if escaped then GETCHAR K (hd c) = GETCHAR K (hd d) else same c d) is ts)"
proof -
  have "\<exists>r. MatchText stack K (concat ts) (concat ps) = Inr r \<and> (r = LIKE_TRUE \<longleftrightarrow> like_match code_same is ts)"
    using MatchText_ok [OF assms(1-3)] assms(4) anywhere_here [of code_same "is" ts] by (auto simp: answer_ok_def)
  moreover have "code_same = (\<lambda>escaped c d. if escaped then GETCHAR K (hd c) = GETCHAR K (hd d) else same c d)" by (simp add: code_same_def fun_eq_iff)
  ultimately show ?thesis by metis
qed

text \<open>For patterns that escape single bytes only, comparing first bytes is comparing characters.\<close>

lemma code_same_plain:
  assumes "list_all legal ts" "\<forall>b c. Lit b c \<in> set is \<longrightarrow> legal c \<and> (b \<longrightarrow> length c = 1)"
  shows "like_match code_same is ts \<longleftrightarrow> like_match (\<lambda>b. same) is ts"
  using assms
proof (induction "is" arbitrary: ts)
  case (Cons i "is")
  have IH: "like_match code_same is us \<longleftrightarrow> like_match (\<lambda>b. same) is us" if "list_all legal us" for us using Cons that by simp
  show ?case
  proof (cases i)
    case Any
    have "list_all legal (drop k ts)" for k using Cons.prems(1) by (auto simp: list_all_iff dest: in_set_dropD)
    then show ?thesis using Any IH by (simp add: like_match_Any)
  next
    case One
    then show ?thesis using IH Cons.prems(1) by (auto split: list.splits)
  next
    case (Lit b c)
    then have c: "legal c" "b \<Longrightarrow> length c = 1" using Cons.prems(2) by auto
    have "code_same b c t \<longleftrightarrow> same c t" if "legal t" for t using c that first [OF c(1) that] single [OF c(1) that] by (auto simp: code_same_def)
    then show ?thesis using Lit IH Cons.prems(1) by (auto split: list.splits)
  qed
qed simp

lemma like_parse_legal: "list_all legal ps \<Longrightarrow> like_parse ps = Some is \<Longrightarrow> Lit b c \<in> set is \<Longrightarrow> legal c"
  by (induction ps arbitrary: "is" rule: like_parse.induct) (auto split: if_splits list.splits)

lemma MatchText_correct:
  assumes ts: "list_all legal ts" and ps: "list_all legal ps" and "percents ps < stack" "like_parse ps = Some is" "\<forall>c. Lit True c \<in> set is \<longrightarrow> length c = 1"
  shows "\<exists>r. MatchText stack K (concat ts) (concat ps) = Inr r \<and> (r = LIKE_TRUE \<longleftrightarrow> like_match (\<lambda>b. same) is ts) \<and>
    (r = LIKE_ABORT \<longrightarrow> (\<forall>k. \<not> like_match (\<lambda>b. same) is (drop k ts)))"
proof -
  have lits: "\<forall>b c. Lit b c \<in> set is \<longrightarrow> legal c \<and> (b \<longrightarrow> length c = 1)" using like_parse_legal [OF ps assms(4)] assms(5) by (metis (full_types))
  have d: "list_all legal (drop k ts)" for k using ts by (auto simp: list_all_iff dest: in_set_dropD)
  have a: "\<not> anywhere code_same is ts \<Longrightarrow> \<not> like_match (\<lambda>b. same) is (drop k ts)" for k using code_same_plain [OF d lits] by (auto simp: anywhere_def)
  show ?thesis using MatchText_ok [OF ts ps assms(3)] assms(4) code_same_plain [OF ts lits] a a [of 0] by (auto simp: answer_ok_def)
qed

text \<open>A pattern that ends with an escape matches nothing.\<close>

lemma MatchText_bad_escape:
  assumes "list_all legal ts" "list_all legal ps" "percents ps < stack" "like_parse ps = None"
  shows "MatchText stack K (concat ts) (concat ps) \<in> {Inl (Ereport ERROR ERRCODE_INVALID_ESCAPE_SEQUENCE), Inr LIKE_FALSE, Inr LIKE_ABORT}"
  using MatchText_ok [OF assms(1-3)] assms(4) by (simp add: answer_ok_def)

end

section \<open>The encodings of the server\<close>

text \<open>Single bytes, compared as they are or in lower case.\<close>

interpretation sb: like_encoding SB_macros "\<lambda>c. length c = 1" "(=)"
proof (unfold_locales, goal_cases)
  case (3 c)
  then show ?case by (auto simp: length_Suc_conv)
qed (auto simp: SB_macros_def length_Suc_conv)

interpretation sb_i: like_encoding "SB_I_macros lower" "\<lambda>c. length c = 1" "\<lambda>c d. lower (hd c) = lower (hd d)" for lower
proof (unfold_locales, goal_cases)
  case (3 c)
  then show ?case by (auto simp: length_Suc_conv)
qed (auto simp: SB_I_macros_def length_Suc_conv)

text \<open>What the code relies on in an encoding of several bytes: \<^verbatim>\<open>pg_mblen\<close> is the length of a character, and the special characters are single bytes.\<close>

locale multibyte =
  fixes mblen :: "uint8 list \<Rightarrow> nat" and legal :: "uint8 list \<Rightarrow> bool"
  assumes nonempty: "legal c \<Longrightarrow> c \<noteq> []"
    and mblen: "legal c \<Longrightarrow> mblen (c @ s) = length c"
    and special: "legal c \<Longrightarrow> hd c \<in> {PERCENT, UNDERSCORE, BACKSLASH} \<Longrightarrow> c = [hd c]"
begin

lemma wchareq_chars:
  assumes "legal c" "legal d"
  shows "wchareq mblen (c @ s) (d @ t) \<longleftrightarrow> c = d"
proof -
  have "hd (c @ s) = hd c" "hd (d @ t) = hd d" using assms nonempty by simp_all
  then show ?thesis using mblen [OF assms(1)] mblen [OF assms(2)] by (auto simp: wchareq_def Let_def)
qed

end

sublocale multibyte \<subseteq> mb: like_encoding "MB_macros mblen" legal "(=)"
proof (unfold_locales, goal_cases)
  case (1 c)
  then show ?case by (rule nonempty)
next
  case (2 c cs)
  then show ?case using mblen [OF 2(1)] nonempty [OF 2(1)] by (simp add: MB_macros_def)
next
  case (3 c)
  then show ?case by (rule special)
next
  case (4 c d cs ds)
  then show ?case by (simp add: MB_macros_def wchareq_chars)
next
  case (5 c d)
  then show ?case by simp
next
  case (6 c d)
  then have "mblen d = length c" "mblen d = length d" using mblen [OF 6(1), of "tl d"] mblen [OF 6(2), of "[]"] nonempty [OF 6(1)] nonempty [OF 6(2)]
    by (auto simp: MB_macros_def length_Suc_conv)
  then show ?case using 6 nonempty by (auto simp: MB_macros_def length_Suc_conv)
qed

lemma legal_char_mblen: "legal_char c \<Longrightarrow> utf8_mblen (c @ s) = length c \<and> c \<noteq> []"
  using legal_verifier [of c s] by (auto simp: utf8_mblen_def hd_conv_nth nth_append)

lemma legal_char_special:
  assumes "legal_char c" "hd c \<in> {PERCENT, UNDERSCORE, BACKSLASH}"
  shows "c = [hd c]"
  using assms by (cases c rule: legal_char.cases) auto

interpretation utf8_mb: multibyte utf8_mblen legal_char
  using legal_char_mblen legal_char_special by unfold_locales auto

lemma continuation_iff: "(b :: uint8) AND 0xC0 = 0x80 \<longleftrightarrow> cont (unat b)"
proof -
  have "map (\<lambda>n. (word_of_nat n :: uint8) AND 0xC0 = 0x80) [0..<256] = map (\<lambda>n. cont n) [0..<256]" by code_simp
  from byte_table [OF this] show ?thesis by simp
qed

lemma legal_char_conts:
  assumes "legal_char c"
  shows "\<forall>b \<in> set (tl c). cont (unat b)" "\<not> cont (unat (hd c))" "c \<noteq> []"
  using assms by (cases c rule: legal_char.cases; auto simp: second_def cont_def split: if_splits)+

lemma utf8_next_char:
  assumes "legal_char c" "list_all legal_char cs"
  shows "Suc (length (takeWhile (\<lambda>b. b AND 0xC0 = 0x80) (tl (c @ concat cs)))) = length c"
proof -
  have rest: "takeWhile (\<lambda>b. b AND 0xC0 = 0x80) (concat cs) = []"
    using assms(2) legal_char_conts by (cases cs) (auto simp: continuation_iff takeWhile_eq_Nil_iff)
  have "tl (c @ concat cs) = tl c @ concat cs" using legal_char_conts(3) [OF assms(1)] by simp
  then show ?thesis using rest legal_char_conts [OF assms(1)] by (simp add: takeWhile_append2 continuation_iff)
qed

interpretation utf8: like_encoding UTF8_macros legal_char "(=)"
proof (unfold_locales, goal_cases)
  case (2 c cs)
  then show ?case using utf8_next_char by (simp add: UTF8_macros_def)
next
  case (4 c d cs ds)
  then show ?case by (simp add: UTF8_macros_def utf8_mb.wchareq_chars)
next
  case (6 c d)
  then show ?case using utf8_mb.mb.single [of c d] by (simp add: UTF8_macros_def MB_macros_def)
qed (auto simp: legal_char_conts(3) legal_char_special)

section \<open>Other escape characters\<close>

text \<open>What a pattern means with another escape character, or with none. The items are compared without the marks.\<close>

fun parse_with :: "uint8 list option \<Rightarrow> uint8 list list \<Rightarrow> like_item list option" where
  "parse_with e [] = Some []"
| "parse_with e (c # cs) =
     (if e = Some c then (case cs of [] \<Rightarrow> None | d # ds \<Rightarrow> map_option (Cons (Lit True d)) (parse_with e ds))
      else map_option (Cons (if c = [PERCENT] then Any else if c = [UNDERSCORE] then One else Lit False c)) (parse_with e cs))"

definition unmark :: "like_item list \<Rightarrow> like_item list" where
  "unmark = map (\<lambda>i. case i of Lit b c \<Rightarrow> Lit False c | _ \<Rightarrow> i)"

lemma unmark_simps [simp]: "unmark [] = []" "unmark (Any # is) = Any # unmark is" "unmark (One # is) = One # unmark is" "unmark (Lit b c # is) = Lit False c # unmark is"
  by (simp_all add: unmark_def)

lemma like_match_unmark: "like_match (\<lambda>b. eq) (unmark is) ts \<longleftrightarrow> like_match (\<lambda>b. eq) is ts"
proof (induction "is" arbitrary: ts)
  case (Cons i "is")
  then show ?case by (cases i) (auto simp: like_match_Any split: list.splits)
qed simp

lemma like_parse_with: "like_parse ps = parse_with (Some [BACKSLASH]) ps"
  by (induction ps rule: like_parse.induct) (auto split: list.splits)

text \<open>The conversions, character by character.\<close>

definition doubled :: "uint8 list list \<Rightarrow> uint8 list list" where
  "doubled ps = concat (map (\<lambda>c. if c = [BACKSLASH] then [c, c] else [c]) ps)"

fun converted :: "uint8 list \<Rightarrow> bool \<Rightarrow> uint8 list list \<Rightarrow> uint8 list list" where
  "converted e afterescape [] = []"
| "converted e afterescape (c # cs) =
     (if c = e \<and> \<not> afterescape then [BACKSLASH] # converted e True cs
      else if c = [BACKSLASH] then (if afterescape then [c] else [c, c]) @ converted e False cs
      else c # converted e False cs)"

lemma doubled_parse: "map_option unmark (like_parse (doubled ps)) = map_option unmark (parse_with None ps)"
proof (induction ps)
  case (Cons c cs)
  then show ?case by (cases "like_parse (doubled cs)"; cases "parse_with None cs") (auto simp: doubled_def)
qed (simp add: doubled_def)

lemma converted_parse:
  assumes "e \<noteq> [BACKSLASH]"
  shows "map_option unmark (like_parse (converted e False ps)) = map_option unmark (parse_with (Some e) ps)"
proof (induction "length ps" arbitrary: ps rule: less_induct)
  case less
  show ?case
  proof (cases ps)
    case (Cons c cs)
    show ?thesis
    proof (cases "c = e")
      case True
      show ?thesis
      proof (cases cs)
        case Nil
        then show ?thesis using Cons True by simp
      next
        case d: (Cons d ds)
        then have "map_option unmark (like_parse (converted e False ds)) = map_option unmark (parse_with (Some e) ds)" using less Cons by simp
        then show ?thesis using Cons True d assms by (cases "like_parse (converted e False ds)"; cases "parse_with (Some e) ds") auto
      qed
    next
      case False
      have "map_option unmark (like_parse (converted e False cs)) = map_option unmark (parse_with (Some e) cs)" using less Cons by simp
      then show ?thesis using Cons False by (cases "like_parse (converted e False cs)"; cases "parse_with (Some e) cs") auto
    qed
  qed simp
qed

lemma double_backslashes_length: "length (double_backslashes K p) \<le> 2 * length p"
proof (induction "length p" arbitrary: p rule: less_induct)
  case less
  show ?case
  proof (cases "p = []")
    case False
    have "length (NextChar K p) < length p" using False by (simp add: NextChar_def)
    then have "length (double_backslashes K (NextChar K p)) \<le> 2 * length (NextChar K p)" by (rule less)
    then show ?thesis using False by (subst double_backslashes.simps) (cases p; auto simp: NextChar_def min_def)
  qed (simp add: double_backslashes.simps)
qed

lemma convert_escapes_length: "length (convert_escapes K e a p) \<le> 2 * length p"
proof (induction "length p" arbitrary: a p rule: less_induct)
  case less
  show ?case
  proof (cases "p = []")
    case False
    have "length (NextChar K p) < length p" using False by (simp add: NextChar_def)
    then have "length (convert_escapes K e b (NextChar K p)) \<le> 2 * length (NextChar K p)" for b by (rule less)
    from this [of True] this [of False] show ?thesis using False by (subst convert_escapes.simps) (cases p; auto simp: NextChar_def min_def)
  qed (simp add: convert_escapes.simps)
qed

lemma do_like_escape_length: "do_like_escape K pat esc = Inr r \<Longrightarrow> length r \<le> 2 * length pat"
  using double_backslashes_length [of K pat] convert_escapes_length [of K esc False pat] by (auto simp: do_like_escape_def split: if_splits)

lemma double_backslashes_step:
  "p \<noteq> [] \<Longrightarrow> hd p = h \<Longrightarrow> take (Suc (more_bytes K p)) p = c \<Longrightarrow> NextChar K p = q \<Longrightarrow>
   double_backslashes K p = (if h = BACKSLASH then [BACKSLASH] else []) @ c @ double_backslashes K q"
  by (subst double_backslashes.simps) simp

lemma convert_escapes_step:
  "p \<noteq> [] \<Longrightarrow> hd p = h \<Longrightarrow> take (Suc (more_bytes K p)) p = c \<Longrightarrow> NextChar K p = q \<Longrightarrow>
   convert_escapes K e a p =
     (if CHAREQ K p e \<and> \<not> a then BACKSLASH # convert_escapes K e True q
      else if h = BACKSLASH then (if a then [BACKSLASH] else [BACKSLASH, BACKSLASH]) @ convert_escapes K e False q
      else c @ convert_escapes K e False q)"
  by (subst convert_escapes.simps) simp

locale like_escaping = like_encoding K legal "(=)" for K and legal +
  assumes backslash: "legal [BACKSLASH]"
begin

lemma take_char: "legal c \<Longrightarrow> list_all legal cs \<Longrightarrow> take (Suc (more_bytes K (c @ concat cs))) (c @ concat cs) = c"
  by (simp add: next_char)

lemma hd_backslash: "legal c \<Longrightarrow> hd c = BACKSLASH \<longleftrightarrow> c = [BACKSLASH]"
  using special [of c] by auto

lemma double_backslashes_chars: "list_all legal ps \<Longrightarrow> double_backslashes K (concat ps) = concat (doubled ps) \<and> list_all legal (doubled ps)"
proof (induction ps)
  case Nil
  show ?case by (simp add: double_backslashes.simps doubled_def)
next
  case (Cons c cs)
  then have c: "legal c" "list_all legal cs" by simp_all
  have "double_backslashes K (concat (c # cs)) = (if c = [BACKSLASH] then [BACKSLASH] else []) @ c @ double_backslashes K (concat cs)"
    using double_backslashes_step [OF _ _ take_char [OF c] NextChar_concat [OF c]] nonempty [OF c(1)] hd_backslash [OF c(1)] by simp
  then show ?case using Cons.IH [OF c(2)] c(1) backslash by (simp add: doubled_def)
qed

lemma convert_escapes_chars:
  assumes "legal e"
  shows "list_all legal ps \<Longrightarrow> convert_escapes K e a (concat ps) = concat (converted e a ps) \<and> list_all legal (converted e a ps)"
proof (induction ps arbitrary: a)
  case Nil
  show ?case by (simp add: convert_escapes.simps)
next
  case (Cons c cs)
  then have c: "legal c" "list_all legal cs" by simp_all
  have "CHAREQ K (c @ concat cs) e \<longleftrightarrow> c = e" using chareq [OF c(1) assms c(2), of "[]"] by simp
  then have "convert_escapes K e a (concat (c # cs)) =
      (if c = e \<and> \<not> a then BACKSLASH # convert_escapes K e True (concat cs)
       else if c = [BACKSLASH] then (if a then [BACKSLASH] else [BACKSLASH, BACKSLASH]) @ convert_escapes K e False (concat cs)
       else c @ convert_escapes K e False (concat cs))"
    using convert_escapes_step [OF _ _ take_char [OF c] NextChar_concat [OF c], of "hd c" e a] nonempty [OF c(1)] hd_backslash [OF c(1)] by simp
  then show ?case using Cons.IH [OF c(2)] c(1) backslash by simp
qed

lemma do_like_escape_chars:
  assumes "list_all legal ps" "list_all legal es"
  shows "if length es \<le> 1
    then \<exists>rs. do_like_escape K (concat ps) (concat es) = Inr (concat rs) \<and> list_all legal rs \<and>
      map_option unmark (like_parse rs) = map_option unmark (parse_with (if es = [] then None else Some (hd es)) ps)
    else do_like_escape K (concat ps) (concat es) = Inl (Ereport ERROR ERRCODE_INVALID_ESCAPE_SEQUENCE)"
proof (cases es)
  case Nil
  then show ?thesis using double_backslashes_chars [OF assms(1)] doubled_parse [of ps] by (auto simp: do_like_escape_def intro!: exI [of _ "doubled ps"])
next
  case (Cons e rest)
  then have e: "legal e" "list_all legal rest" using assms(2) by simp_all
  have h: "concat es \<noteq> []" "NextChar K (concat es) = concat rest" "hd (concat es) = BACKSLASH \<longleftrightarrow> e = [BACKSLASH]"
    using Cons nonempty [OF e(1)] NextChar_concat [OF e] hd_backslash [OF e(1)] by simp_all
  show ?thesis
  proof (cases rest)
    case Nil
    then have es: "es = [e]" "concat es = e" using Cons by simp_all
    have n: "do_like_escape K (concat ps) e = (if e = [BACKSLASH] then Inr (concat ps) else Inr (convert_escapes K e False (concat ps)))"
      using h Nil es by (simp add: do_like_escape_def)
    show ?thesis
    proof (cases "e = [BACKSLASH]")
      case True
      then show ?thesis using n es assms(1) like_parse_with [of ps] by (auto intro!: exI [of _ ps])
    next
      case False
      then show ?thesis using n es convert_escapes_chars [OF e(1) assms(1), of False] converted_parse [OF False, of ps]
        by (auto intro!: exI [of _ "converted e False ps"])
    qed
  next
    case (Cons f fs)
    have "concat rest \<noteq> []" using Cons e(2) concat_Nil [OF e(2)] by blast
    then have "do_like_escape K (concat ps) (concat es) = Inl (Ereport ERROR ERRCODE_INVALID_ESCAPE_SEQUENCE)" using h by (simp add: do_like_escape_def)
    then show ?thesis using Cons \<open>es = e # rest\<close> by simp
  qed
qed

end

interpretation sb_esc: like_escaping SB_macros "\<lambda>c. length c = 1"
  by unfold_locales simp

interpretation utf8_esc: like_escaping "MB_macros utf8_mblen" legal_char
  by unfold_locales simp

text \<open>The characters of an encoding.\<close>

definition encoding_chars :: "db_encoding \<Rightarrow> (uint8 list \<Rightarrow> bool) \<Rightarrow> bool" where
  "encoding_chars enc legal \<longleftrightarrow>
     (case enc of Single_Byte \<Rightarrow> legal = (\<lambda>c. length c = 1) | PG_UTF8 \<Rightarrow> legal = legal_char | Multi_Byte mblen \<Rightarrow> multibyte mblen legal \<and> legal [BACKSLASH])"

lemma pg_mblen_simps [simp]: "pg_mblen PG_UTF8 = utf8_mblen" "pg_mblen (Multi_Byte mblen) = mblen"
  by (auto simp: pg_mblen_def fun_eq_iff)

context multibyte
begin

lemma escaping: "legal [BACKSLASH] \<Longrightarrow> like_escaping (MB_macros mblen) legal"
  by (intro like_escaping.intro like_escaping_axioms.intro mb.like_encoding_axioms)

end

lemmas multibyte_escaping = multibyte.escaping

lemma GenericMatchText_encoding:
  assumes "encoding_chars enc legal"
  obtains K where "like_encoding K legal (=)" "\<And>stack s p. GenericMatchText stack enc s p = MatchText stack K s p" "GETCHAR K = (\<lambda>t. t)"
proof (cases enc)
  case Single_Byte
  then show ?thesis using assms that [of SB_macros] sb.like_encoding_axioms by (simp add: encoding_chars_def GenericMatchText_def SB_macros_def)
next
  case PG_UTF8
  then show ?thesis using assms that [of UTF8_macros] utf8.like_encoding_axioms by (simp add: encoding_chars_def GenericMatchText_def UTF8_macros_def)
next
  case (Multi_Byte mblen)
  then have "like_escaping (MB_macros mblen) legal" using assms multibyte_escaping by (simp add: encoding_chars_def)
  then show ?thesis using that [of "MB_macros mblen"] Multi_Byte by (simp add: GenericMatchText_def like_escaping_def MB_macros_def)
qed

lemma like_escape_encoding:
  assumes "encoding_chars enc legal"
  obtains K where "like_escaping K legal" "\<And>pat esc. like_escape enc pat esc = do_like_escape K pat esc"
proof (cases enc)
  case Single_Byte
  then show ?thesis using assms that [of SB_macros] sb_esc.like_escaping_axioms by (simp add: encoding_chars_def like_escape_def)
next
  case PG_UTF8
  then show ?thesis using assms that [of "MB_macros utf8_mblen"] utf8_esc.like_escaping_axioms by (simp add: encoding_chars_def like_escape_def)
next
  case (Multi_Byte mblen)
  then show ?thesis using assms that [of "MB_macros mblen"] multibyte_escaping by (simp add: encoding_chars_def like_escape_def)
qed

section \<open>The properties\<close>

text \<open>
  C26. LIKE in every encoding whose characters \<^verbatim>\<open>pg_mblen\<close> delimits, on a text and a pattern that consist of characters of the encoding and with a stack that has room for
  a level for each percent sign: for a pattern that escapes characters of one byte only, the matcher returns, it
  reports a match exactly when the text matches the pattern, and when it aborts, no later part of the text matches either. A pattern that ends with an escape
  never matches: the matcher raises the error or returns before it gets there.
\<close>

theorem like_matches:
  assumes "encoding_chars enc legal" "list_all legal ts" "list_all legal ps" "percents ps < stack"
  shows "case like_parse ps of
      None \<Rightarrow> GenericMatchText stack enc (concat ts) (concat ps) \<in> {Inl (Ereport ERROR ERRCODE_INVALID_ESCAPE_SEQUENCE), Inr LIKE_FALSE, Inr LIKE_ABORT}
    | Some is \<Rightarrow> (\<forall>c. Lit True c \<in> set is \<longrightarrow> length c = 1) \<longrightarrow>
        (\<exists>r. GenericMatchText stack enc (concat ts) (concat ps) = Inr r \<and> (r = LIKE_TRUE \<longleftrightarrow> like_match (\<lambda>b. (=)) is ts) \<and>
             (r = LIKE_ABORT \<longrightarrow> (\<forall>k. \<not> like_match (\<lambda>b. (=)) is (drop k ts))))"
proof -
  obtain K where K: "like_encoding K legal (=)" "\<And>stack s p. GenericMatchText stack enc s p = MatchText stack K s p" "GETCHAR K = (\<lambda>t. t)"
    by (rule GenericMatchText_encoding [OF assms(1)]) iprover
  show ?thesis
    using like_encoding.MatchText_correct [OF K(1) assms(2-4)] like_encoding.MatchText_bad_escape [OF K(1) assms(2-4)]
    unfolding K(2) by (cases "like_parse ps") simp_all
qed

theorem like_matches_witness:
  "GenericMatchText 3 PG_UTF8 (concat [[97], [0xC3, 0xA9], [37]]) (concat [[PERCENT], [0xC3, 0xA9], [BACKSLASH], [PERCENT]]) = Inr LIKE_TRUE"
proof -
  have "encoding_chars PG_UTF8 legal_char" by (simp add: encoding_chars_def)
  moreover have "list_all legal_char [[97], [0xC3, 0xA9], [37]]" "list_all legal_char [[PERCENT], [0xC3, 0xA9], [BACKSLASH], [PERCENT]]"
    "percents [[PERCENT], [0xC3, 0xA9], [BACKSLASH], [PERCENT]] < 3" by (simp_all add: cont_def percents_def)
  moreover have "like_parse [[PERCENT], [0xC3, 0xA9], [BACKSLASH], [PERCENT]] = Some [Any, Lit False [0xC3, 0xA9], Lit True [PERCENT]]" by simp
  moreover have "like_match (\<lambda>b. (=)) [Any, Lit False [0xC3, 0xA9], Lit True [PERCENT]] [[97], [0xC3, 0xA9], [37]]" by code_simp
  ultimately show ?thesis using like_matches [of PG_UTF8 legal_char "[[97], [0xC3, 0xA9], [37]]" "[[PERCENT], [0xC3, 0xA9], [BACKSLASH], [PERCENT]]" 3] by simp
qed

text \<open>
  C27. \<^verbatim>\<open>like_escape\<close> keeps the meaning of a pattern: with an escape string of at most one character, the result is a pattern that means with the backslash what the
  argument means with that character, or with no escapes for the empty string; a longer escape string is an error. The result fits the memory that
  is allocated for it.
\<close>

theorem like_escape_converts:
  assumes "encoding_chars enc legal" "list_all legal ps" "list_all legal es"
  shows "if length es \<le> 1
    then \<exists>rs. like_escape enc (concat ps) (concat es) = Inr (concat rs) \<and> list_all legal rs \<and> length (concat rs) \<le> 2 * length (concat ps) \<and>
      map_option unmark (like_parse rs) = map_option unmark (parse_with (if es = [] then None else Some (hd es)) ps)
    else like_escape enc (concat ps) (concat es) = Inl (Ereport ERROR ERRCODE_INVALID_ESCAPE_SEQUENCE)"
proof -
  obtain K where K: "like_escaping K legal" "\<And>pat esc. like_escape enc pat esc = do_like_escape K pat esc"
    using like_escape_encoding [OF assms(1)] by blast
  show ?thesis using like_escaping.do_like_escape_chars [OF K(1) assms(2,3)] do_like_escape_length unfolding K(2) by (auto split: if_splits)
qed

theorem like_escape_converts_witness:
  "\<exists>rs. like_escape PG_UTF8 (concat [[97], [0xC3, 0xA9], [PERCENT], [BACKSLASH]]) (concat [[0xC3, 0xA9]]) = Inr (concat rs) \<and>
    map_option unmark (like_parse rs) = Some [Lit False [97], Lit False [PERCENT], Lit False [BACKSLASH]]"
proof -
  have "encoding_chars PG_UTF8 legal_char" by (simp add: encoding_chars_def)
  moreover have "list_all legal_char [[97], [0xC3, 0xA9], [PERCENT], [BACKSLASH]]" "list_all legal_char [[0xC3, 0xA9]]" by (simp_all add: cont_def)
  ultimately show ?thesis using like_escape_converts [of PG_UTF8 legal_char "[[97], [0xC3, 0xA9], [PERCENT], [BACKSLASH]]" "[[0xC3, 0xA9]]"] by auto
qed

text \<open>
  C39. In every encoding, on a text and a pattern of its characters and with room on the stack, the matcher compares an escaped character by its first byte only, though it skips
  the whole character: its answer is that of the pattern in which an escaped character matches every character with the same first byte. In particular the backslash and
  a character match exactly the characters that share its first byte.
\<close>

theorem escaped_character_by_first_byte:
  assumes "encoding_chars enc legal" "list_all legal ts" "list_all legal ps" "percents ps < stack" "like_parse ps = Some is" "legal c" "legal d"
  shows "(\<exists>r. GenericMatchText stack enc (concat ts) (concat ps) = Inr r \<and>
      (r = LIKE_TRUE \<longleftrightarrow> like_match (\<lambda>escaped p t. if escaped then hd p = hd t else p = t) is ts)) \<and>
    (\<exists>r. GenericMatchText 2 enc d (BACKSLASH # c) = Inr r \<and> (r = LIKE_TRUE \<longleftrightarrow> hd c = hd d))"
proof -
  obtain K where K: "like_encoding K legal (=)" "\<And>stack s p. GenericMatchText stack enc s p = MatchText stack K s p" "GETCHAR K = (\<lambda>t. t)"
    by (rule GenericMatchText_encoding [OF assms(1)]) iprover
  note m = like_encoding.MatchText_by_code [OF K(1), unfolded K(3)]
  have b: "legal [BACKSLASH]" using assms(1) by (auto simp: encoding_chars_def split: db_encoding.splits)
  have "\<exists>r. MatchText 2 K (concat [d]) (concat [[BACKSLASH], c]) = Inr r \<and>
      (r = LIKE_TRUE \<longleftrightarrow> like_match (\<lambda>escaped p t. if escaped then hd p = hd t else p = t) [Lit True c] [d])"
    using b assms(6,7) by (intro m) (simp_all add: percents_def)
  then show ?thesis using m [OF assms(2-5)] unfolding K(2) by simp
qed

theorem escaped_character_by_first_byte_witness:
  "GenericMatchText 2 PG_UTF8 [97, 0xC3, 0xA8] [PERCENT, BACKSLASH, 0xC3, 0xA9] = Inr LIKE_TRUE \<and>
   GenericMatchText 2 PG_UTF8 [0xC3, 0xA8] [BACKSLASH, 0xC3, 0xA9] = Inr LIKE_TRUE \<and>
   \<not> like_match (\<lambda>b. (=)) [Any, Lit True [0xC3, 0xA9]] [[97], [0xC3, 0xA8]]"
proof -
  have "encoding_chars PG_UTF8 legal_char" by (simp add: encoding_chars_def)
  moreover have "list_all legal_char [[97], [0xC3, 0xA8]]" "list_all legal_char [[PERCENT], [BACKSLASH], [0xC3, 0xA9]]" "legal_char [0xC3, 0xA9]" "legal_char [0xC3, 0xA8]"
    "percents [[PERCENT], [BACKSLASH], [0xC3, 0xA9]] < 2" by (simp_all add: cont_def percents_def)
  moreover have "like_parse [[PERCENT], [BACKSLASH], [0xC3, 0xA9]] = Some [Any, Lit True [0xC3, 0xA9]]" by simp
  moreover have "like_match (\<lambda>escaped p t. if escaped then hd p = hd t else p = t) [Any, Lit True [0xC3, 0xA9]] [[97], [0xC3, 0xA8]]"
    "\<not> like_match (\<lambda>b. (=)) [Any, Lit True [0xC3, 0xA9]] [[97], [0xC3, 0xA8]]" by code_simp+
  ultimately show ?thesis
    using escaped_character_by_first_byte [of PG_UTF8 legal_char "[[97], [0xC3, 0xA8]]" "[[PERCENT], [BACKSLASH], [0xC3, 0xA9]]" 2 "[Any, Lit True [0xC3, 0xA9]]" "[0xC3, 0xA9]" "[0xC3, 0xA8]"]
    by simp
qed

end
