(* ===== verification/Spec2Isabelle.thy ===== *)
theory Spec2Isabelle
  imports OG_BitUtils OG_Bitmapset OG_FsmPage OG_FreeSpace OG_Session OG_BufPage OG_DeadlockCheck OG_VisibleSnapshot OG_Encode OG_Like
begin

text \<open>
  Verification library for parts of the openGauss kernel (the repository is under \<^verbatim>\<open>src/\<close>; file names below are relative to it).

  \<^bold>\<open>The program.\<close> openGauss is a relational database server. A session reads commands, runs each inside a transaction, and
  keeps its tuples in pages of files that shared memory buffers hold. This library models these parts of that core, bottom up: the word-level
  helpers and the sets of integers that planner and executor use everywhere; the slotted pages tuples live in; the free space map that
  tells an insertion which page to try; the lock manager, which keeps concurrent transactions from using an object in conflicting ways, and its
  deadlock detector; the visibility rules, which decide what a session sees of the tuples that others insert and delete; the transaction block state machine that decides, at the end of every command, what is committed and what is rolled back; the text forms of
  binary data, the checks on UTF-8 that every string from a client passes, and pattern matching with LIKE.

  \<^bold>\<open>Theories and what they model.\<close>
  \<^item> \<^verbatim>\<open>OG_Prelude\<close>: machine integers, the values \<^verbatim>\<open>ereport\<close> raises, the write beyond an array, and the result type \<open>og_error + 'a\<close>, the counting loop over an array.
  \<^item> \<^verbatim>\<open>OG_Contracts\<close>: the interfaces, as locales with the reasoning of their clients: \<open>member_sets\<close>, \<open>member_cursor\<close> and \<open>member_drain\<close>
    (interpreted on the bitmapset routines), \<open>slot_page\<close> (interpreted on the FSM page, used by the free space map) and \<open>item_store\<close> (interpreted on the
    heap page).
  \<^item> \<^verbatim>\<open>OG_BitUtils\<close>: \<^verbatim>\<open>src/common/port/pg_bitutils.cpp\<close>, \<^verbatim>\<open>src/include/port/pg_bitutils.h\<close>; the tables and the table-driven loops on words.
  \<^item> \<^verbatim>\<open>OG_Bitmapset\<close>: \<^verbatim>\<open>src/common/backend/nodes/bitmapset.cpp\<close>; a \<^verbatim>\<open>Bitmapset *\<close> is an option of an array of words, and \<open>bms_set\<close> the set it stands for.
    The routines refine the set operations, errors on negative members included; the two iteration idioms visit every member once, ascending.
  \<^item> \<^verbatim>\<open>OG_FsmPage\<close>: \<^verbatim>\<open>src/gausskernel/storage/freespace/fsmpage.cpp\<close>; the binary tree of one FSM page. The incremental update equals store and rebuild;
    the search returns on every page, torn ones included, and is exact on a page in order.
  \<^item> \<^verbatim>\<open>OG_FreeSpace\<close>: \<^verbatim>\<open>src/gausskernel/storage/freespace/freespace.cpp\<close>; the three-level map over these pages, as a refinement of a function from heap blocks to
    categories. Searches are sound always and complete after a vacuum; truncation forgets; the address arithmetic is injective.
  \<^item> \<^verbatim>\<open>OG_BufPage\<close>: \<^verbatim>\<open>src/gausskernel/storage/access/redo/redo_bufpage.cpp\<close>, \<^verbatim>\<open>src/gausskernel/storage/page/bufpage.cpp\<close> and their headers; the slotted page with its
    bytes. \<open>page_items\<close> is what a client reads; a redirection in addition keeps its line pointer. Writing beyond an array of \<^verbatim>\<open>MaxHeapTuplesPerPage\<close> or \<^verbatim>\<open>MaxIndexTuplesPerPage\<close>
    entries is the result \<open>Overrun\<close>, and the theorems assume pages for which the arrays suffice. Adding, compacting, deleting and overwriting have the effect on this list that their comments promise, and
    keep \<open>page_ok\<close>: items aligned, disjoint, between \<^verbatim>\<open>pd_upper\<close> and \<^verbatim>\<open>pd_special\<close>.
  \<^item> \<^verbatim>\<open>OG_Xact\<close>: \<^verbatim>\<open>src/gausskernel/storage/access/transam/xact.cpp\<close>; the routines of the transaction block state machine on the stack of
    \<^verbatim>\<open>TransactionStateData\<close>, with savepoints, internal subtransactions, undo record pointers and every error branch; and the transaction statements of
    \<^verbatim>\<open>standard_ProcessUtility\<close> and \<^verbatim>\<open>exec_simple_query\<close> (\<^verbatim>\<open>src/gausskernel/process/tcop\<close>).
  \<^item> \<^verbatim>\<open>OG_XactStack\<close>: the invariant of the stack and the shapes it has between commands, in a query and in between; what the ends of commands do from each shape.
  \<^item> \<^verbatim>\<open>OG_Session\<close>: the step relation \<open>sreach\<close> of a session and its properties: no unexpected-state FATAL, what COMMIT, PREPARE, ROLLBACK, RELEASE and ROLLBACK TO do,
    that a failed block commits nothing, and that a session can always be brought back to idle.
  \<^item> \<^verbatim>\<open>OG_Lock\<close>: \<^verbatim>\<open>src/gausskernel/storage/lmgr/lock.cpp\<close>, \<^verbatim>\<open>proc.cpp\<close>; one object of the shared lock table, with its holders, its counters and its queue.
    \<open>lreach\<close> is every interleaving of requests, releases, waiters that give up and queue reorderings. Conflicting modes are never held by two lock groups, the
    counters are exact, no wakeup is lost, and a request that must not wait is refused exactly on a conflict.
  \<^item> \<^verbatim>\<open>OG_Deadlock\<close>: \<^verbatim>\<open>src/gausskernel/storage/lmgr/deadlock.cpp\<close>; the model of the whole detector over the tables of all locks, with working storage and
    every error. The depth-first search is right about the waits-for graph of lock groups (\<open>waits_for\<close>), and the topological sort of a queue is sound and complete.
  \<^item> \<^verbatim>\<open>OG_DeadlockCheck\<close>: what the verdicts of \<^verbatim>\<open>DeadLockCheck\<close> mean, that a soft deadlock is gone in the tables it leaves, that the queues it leaves are states of
    \<open>lreach\<close>. The cycle that the search reports is one of the graph \<open>wait_chain\<close>, which is defined on holders and queues without the code's scans, entry by entry.
    For members of lock groups the detector is shown to keep a queue whose order it should change.
  \<^item> \<^verbatim>\<open>OG_Visibility\<close>: \<^verbatim>\<open>src/gausskernel/storage/access/heap/heapam_visibility.cpp\<close>, with what it asks of \<^verbatim>\<open>transam.cpp\<close>, \<^verbatim>\<open>csnlog.cpp\<close> and \<^verbatim>\<open>snapmgr.cpp\<close>.
    The state shared with other sessions is a function of time, and every look at it takes an instant.
  \<^item> \<^verbatim>\<open>OG_VisibleNow\<close>: the phases of a transaction and what the logs show of each; the routines without a snapshot are right about an instant during the call, with two
    exceptions; the one that concerns all of them, while a transaction commits, is shown to occur.
  \<^item> \<^verbatim>\<open>OG_VisibleSnapshot\<close>: the answer for a snapshot is the same as long as the snapshot is used, and vacuum removes nothing that a snapshot still sees.
  \<^item> \<^verbatim>\<open>OG_Encode\<close>: \<^verbatim>\<open>src/common/backend/utils/adt/encode.cpp\<close> and the input and output of type bytea in \<^verbatim>\<open>varlena.cpp\<close>. The locale \<open>byte_codec\<close> states
    what an entry of \<^verbatim>\<open>enclist\<close> promises and is interpreted on the three entries. Decoding undoes encoding, and no routine writes beyond the size it has announced.
  \<^item> \<^verbatim>\<open>OG_Utf8\<close>: \<^verbatim>\<open>src/common/backend/utils/mb/wchar.cpp\<close>; the UTF-8 routines. Both variants of the string verifier accept exactly the longest beginning that is
    well-formed, conversion to wide characters is a bijection, and the incrementer leaves the well-formed characters in two cases.
  \<^item> \<^verbatim>\<open>OG_Like\<close>: \<^verbatim>\<open>src/common/backend/utils/adt/like.cpp\<close>, \<^verbatim>\<open>like_match.cpp\<close>; the matcher behind LIKE and ILIKE for every kind of encoding, and the conversion of
    patterns with another escape character. The locale \<open>like_encoding\<close> states what the matcher needs of an encoding. It decides the meaning of patterns,
    except for escaped characters of several bytes, of which it is shown to compare the first byte only.
  \<^item> This theory: the property that spans the free space map and the pages.

  \<^bold>\<open>Bounds and fuel.\<close> BLCKSZ, which the build chooses, is an argument \<open>B\<close>; theorems assume one of the sizes the build allows (\<open>valid_blcksz\<close>) or at most 32 KB (\<open>page_ok\<close>),
  which is what 15-bit offsets can address. Loops are total functions with a termination proof. The exceptions are \<^verbatim>\<open>fsm_search\<close>,
  whose 10000 restarts are the bound of the code itself, \<^verbatim>\<open>fsm_search_avail\<close>, which is proved to return within two passes, and \<^verbatim>\<open>UpdateFreeSpaceMap\<close>,
  which has fuel: it is proved to return for every map below the end of the block number space, and never to return beyond it.
  The recursion of the deadlock detector ends with an error when the stack has no room; \<open>2 * MaxBackends + 2\<close> levels are proved to be enough.
  The recursion of the LIKE matcher needs one level more than the pattern has percent signs.
  The iteration idioms of bitmapsets have fuel that is proved to be enough. \<^verbatim>\<open>HeapTupleSatisfiesMVCC\<close> and \<^verbatim>\<open>HeapTupleSatisfiesUpdate\<close> bound how often they start
  again after a wait; the former is proved to return with every bound while others change only hint bits of the tuple.
  Widths are kept where they matter: words in the bit routines and bitmapsets, 15- and 16-bit fields of pages, 32-bit block numbers, 64-bit subtransaction ids.

  \<^bold>\<open>Not modelled.\<close> Buffer locks and pins, dirty marks, LSNs and WAL records around these routines; page checksums, verification, encryption and the dictionaries of compressed
  pages; what the low-level commit and abort routines do in other subsystems (one event of a log stands for it); two-phase commit, GTM, stream threads and try/catch
  blocks; the redo-only routines of the free space map; in the lock manager the local table,
  the fast path and the cancelling of holders; the time limit and the reports of the deadlock detector; of the visibility rules those for logical decoding, GTM-lite snapshots and shared storage, and the
  caches and the pages of the commit log and the log of sequence numbers; display widths and the server encodings other than UTF-8; the operations of \<^verbatim>\<open>varlena.cpp\<close>
  other than the input and output of bytea; the matchers of the built-in collations. Functions of the platform (\<^verbatim>\<open>tolower\<close>) and of the database encoding (\<^verbatim>\<open>pg_mblen\<close>) are arguments. The other subsystems of the server (parser, optimizer, executor, buffer manager, WAL and recovery, replication,
  the in-memory and column stores, procedural languages, client tools) are listed in the manifest with the reason.
\<close>

section \<open>Free space map and heap pages together\<close>

text \<open>
  C12. A heap insertion that follows the free space map succeeds. Let every page of the map be in order, let it have fewer than \<open>2 ^ 32\<close> slots and not overestimate any
  heap page it has space recorded for, and let some block be recorded in it with enough space for an item of \<open>sz\<close> bytes. After a vacuum of the map,
  \<^verbatim>\<open>GetPageWithFreeSpace\<close> returns a block, and \<^verbatim>\<open>PageAddItem\<close> stores the item on the page of that block.
\<close>

theorem map_leads_to_room:
  assumes B: "valid_blcksz B" and map: "rel_ok B rel" "fsm_addressable B rel"
    and truth: "\<forall>b. recorded_cat B rel b \<noteq> 0 \<longrightarrow> page_ok B (heap b) \<and> length (pd_linp (heap b)) \<le> MaxHeapTuplesPerPage B \<and>
      recorded_cat B rel b \<le> fsm_space_avail_to_cat B (PageGetHeapFreeSpace B (heap b))"
    and item: "0 < sz" "fsm_space_needed_to_cat B (MAXALIGN sz) = Inr c" "blk < 2 ^ 32" "c \<le> recorded_cat B rel blk"
  shows "\<exists>b rel' off p'. GetPageWithFreeSpace B (FreeSpaceMapVacuum B rel) (MAXALIGN sz) = Inr (Some (b, rel')) \<and> b < InvalidBlockNumber \<and>
    PageAddItem B (heap b) item sz 0 overwrite True = Inr (off, p') \<and> off \<noteq> 0"
proof -
  obtain b rel' where r: "GetPageWithFreeSpace B (FreeSpaceMapVacuum B rel) (MAXALIGN sz) = Inr (Some (b, rel'))" "b < InvalidBlockNumber"
    "c \<le> recorded_cat B rel b"
    using search_after_vacuum [OF B map needed_cat_cases(3) [OF B item(2)] item(3,4)] item(2) by (auto simp: GetPageWithFreeSpace_def)
  have "c \<noteq> 0" using needed_cat_cases(3) [OF B item(2)] by auto
  then have "recorded_cat B rel b \<noteq> 0" using r(3) by auto
  then have p: "page_ok B (heap b)" "length (pd_linp (heap b)) \<le> MaxHeapTuplesPerPage B"
    "recorded_cat B rel b \<le> fsm_space_avail_to_cat B (PageGetHeapFreeSpace B (heap b))" using truth by blast+
  have "MAXALIGN sz \<le> PageGetHeapFreeSpace B (heap b)"
    using needed_le_cat_to_avail [OF B item(2) order_trans [OF r(3) p(3)]] cat_to_avail_le [OF B] by (meson order_trans)
  then show ?thesis using heap_room [OF p(1,2) item(1)] r(1,2) by blast
qed

theorem map_leads_to_room_witness:
  "\<exists>b rel' off p'. GetPageWithFreeSpace 8192 (FreeSpaceMapVacuum 8192 one_block_rel) 104 = Inr (Some (b, rel')) \<and> b < InvalidBlockNumber \<and>
    PageAddItem 8192 (PageInit 8192 0 True) (replicate 100 7) 100 0 False True = Inr (off, p') \<and> off \<noteq> 0"
proof -
  have ok: "page_ok 8192 (PageInit 8192 0 True)" by (rule PageInit_ok) (simp_all add: SizeOfHeapPageHeaderData_def)
  have l: "pd_linp (PageInit 8192 0 True) = []" by (simp add: PageInit_def)
  have "PageGetHeapFreeSpace 8192 (PageInit 8192 0 True) = 8148"
    by (simp add: PageInit_def PageGetHeapFreeSpace_def PageGetFreeSpace_def PageGetMaxOffsetNumber_def GetPageHeaderSize_def PageIs8BXidHeapVersion_def
        Let_def MAXALIGN_def SizeOfHeapPageHeaderData_def sizeof_ItemIdData_def MaxHeapTuplesPerPage_def PG_HEAP_PAGE_LAYOUT_VERSION_def)
  then have "fsm_space_avail_to_cat 8192 (PageGetHeapFreeSpace 8192 (PageInit 8192 0 True)) = - 1"
    by (simp add: fsm_space_avail_to_cat_def MaxFSMRequestSize_def)
  then have truth: "\<forall>b. recorded_cat 8192 one_block_rel b \<noteq> 0 \<longrightarrow> page_ok 8192 (PageInit 8192 0 True) \<and>
      length (pd_linp (PageInit 8192 0 True)) \<le> MaxHeapTuplesPerPage 8192 \<and>
      recorded_cat 8192 one_block_rel b \<le> fsm_space_avail_to_cat 8192 (PageGetHeapFreeSpace 8192 (PageInit 8192 0 True))"
    using ok l by simp
  have n: "fsm_space_needed_to_cat 8192 (MAXALIGN 100) = Inr 4"
    by (simp add: fsm_space_needed_to_cat_def FSM_CAT_STEP_def MaxFSMRequestSize_def MAXALIGN_def Let_def)
  have m: "MAXALIGN 100 = 104" by (simp add: MAXALIGN_def)
  show ?thesis
    using map_leads_to_room [OF new_rel_ok(1) one_block_rel_ok truth _ n, of 0 "replicate 100 7" False] one_block_rel_cat unfolding m by simp
qed

end
